(* ===== verification/Base_Prelude.thy ===== *)
theory Base_Prelude
  imports Main "HOL-Library.Word"
begin

text \<open>
  Shared ground of the development: the collections of facts the component proofs pass to the
  simplifier, names for the machine types of the C++ code, and generic lemmas on lists, function
  updates and index arithmetic.
\<close>

named_theorems heap_simps \<open>reads and frame facts of the intrusive heap\<close>
named_theorems ring_simps \<open>abstraction facts of a ring and of the deque\<close>
named_theorems spq_simps \<open>facts of the small priority queue\<close>
named_theorems wq_simps \<open>frame facts of work queues and their sets\<close>

text \<open>Machine types of the code: \<open>uint8_t\<close>, \<open>uint32_t\<close>, \<open>uint64_t\<close>, and the signed
  types read through \<^term>\<open>sint\<close>.\<close>

type_synonym u8 = "8 word"
type_synonym u16 = "16 word"
type_synonym u32 = "32 word"
type_synonym u64 = "64 word"

section \<open>Signed 64-bit bounds\<close>

abbreviation int64_min :: int where "int64_min \<equiv> - (2 ^ 63)"
abbreviation int64_max :: int where "int64_max \<equiv> 2 ^ 63 - 1"

section \<open>Index arithmetic of a binary heap\<close>

lemma half_eq_iff: "(i::nat) div 2 = k \<longleftrightarrow> i = 2 * k \<or> i = 2 * k + 1"
  by auto

lemma half_less [simp]: "2 \<le> (i::nat) \<Longrightarrow> i div 2 < i"
  by auto

lemma half_pos [simp]: "2 \<le> (i::nat) \<Longrightarrow> 1 \<le> i div 2"
  by auto

section \<open>Lists\<close>

lemma image_nth_update_eq:
  assumes "a < length xs" "b < length xs" "a \<noteq> b" "a \<in> I" "b \<in> I"
  shows "(!) (xs[a := xs ! b]) ` (I - {b}) = (!) xs ` (I - {a})"
proof -
  have 1: "I - {b} = insert a (I - {a, b})" "I - {a} = insert b (I - {a, b})"
    using assms by auto
  have 2: "(!) (xs[a := xs ! b]) ` (I - {a, b}) = (!) xs ` (I - {a, b})"
    by (rule image_cong) auto
  show ?thesis unfolding 1 image_insert 2 using assms by simp
qed

lemma image_nth_fill:
  assumes "a < length xs" "a \<in> I"
  shows "(!) (xs[a := e]) ` I = insert e ((!) xs ` (I - {a}))"
proof -
  have 1: "(!) (xs[a := e]) ` (I - {a}) = (!) xs ` (I - {a})"
    by (rule image_cong) auto
  have "(!) (xs[a := e]) ` insert a (I - {a}) = insert e ((!) xs ` (I - {a}))"
    unfolding image_insert 1 using assms by simp
  then show ?thesis using assms by (simp only: insert_Diff)
qed

end
