(* ===== verification/Time_Ticks.thy ===== *)
theory Time_Ticks
  imports Base_Prelude
begin

text \<open>
  The part of \<open>base/time/time.cc\<close> that the scheduler computes with. \<open>TimeTicks\<close> and
  \<open>TimeDelta\<close> wrap an \<open>int64_t\<close> number of microseconds; the model keeps it as an \<^typ>\<open>int\<close> in the
  range of the type. A failed \<open>CHECK\<close> stops the program and is \<^term>\<open>None\<close>.
\<close>

definition is_int64 :: "int \<Rightarrow> bool" where
  "is_int64 x \<longleftrightarrow> int64_min \<le> x \<and> x \<le> int64_max"

definition TimeDelta_is_max :: "int \<Rightarrow> bool" where
  "TimeDelta_is_max delta = (delta = int64_max)"

definition TimeDelta_is_min :: "int \<Rightarrow> bool" where
  "TimeDelta_is_min delta = (delta = int64_min)"

definition SaturatedAdd :: "int \<Rightarrow> int \<Rightarrow> int option" where
  "SaturatedAdd value delta =
     (if TimeDelta_is_max delta then (if int64_min < value then Some int64_max else None)
      else if TimeDelta_is_min delta then (if value < int64_max then Some int64_min else None)
      else let rv = value + delta
           in if is_int64 rv then Some rv
              else if delta < 0 then Some int64_min else Some int64_max)"

definition SaturatedSub :: "int \<Rightarrow> int \<Rightarrow> int option" where
  "SaturatedSub value delta =
     (if TimeDelta_is_max delta then (if value < int64_max then Some int64_min else None)
      else if TimeDelta_is_min delta then (if int64_min < value then Some int64_max else None)
      else let rv = value - delta
           in if is_int64 rv then Some rv
              else if delta < 0 then Some int64_max else Some int64_min)"

text \<open>\<open>TimeTicks::operator+\<close> where the delta is not infinite, as in the scheduler.\<close>

definition ticks_plus :: "int \<Rightarrow> int \<Rightarrow> int" where
  "ticks_plus t delta = (case SaturatedAdd t delta of Some r \<Rightarrow> r | None \<Rightarrow> t)"

lemma SaturatedAdd_in_range:
  "is_int64 value \<Longrightarrow> SaturatedAdd value delta = Some r \<Longrightarrow> is_int64 r"
  by (auto simp: SaturatedAdd_def is_int64_def Let_def split: if_splits)

lemma SaturatedAdd_finite:
  assumes "is_int64 value" "is_int64 delta" "\<not> TimeDelta_is_max delta" "\<not> TimeDelta_is_min delta"
  shows "SaturatedAdd value delta = Some (max int64_min (min int64_max (value + delta)))"
  using assms by (auto simp: SaturatedAdd_def is_int64_def Let_def)

lemma SaturatedSub_finite:
  assumes "is_int64 value" "is_int64 delta" "\<not> TimeDelta_is_max delta" "\<not> TimeDelta_is_min delta"
  shows "SaturatedSub value delta = Some (max int64_min (min int64_max (value - delta)))"
  using assms by (auto simp: SaturatedSub_def is_int64_def Let_def)

lemma ticks_plus_mono:
  assumes "is_int64 t" "is_int64 d" "0 \<le> d" "d < int64_max"
  shows "t \<le> ticks_plus t d" "is_int64 (ticks_plus t d)"
  using assms
  by (auto simp: ticks_plus_def SaturatedAdd_finite TimeDelta_is_max_def TimeDelta_is_min_def
      is_int64_def)

end
