(* ===== verification/Sched_Tasks.thy ===== *)
theory Sched_Tasks
  imports Time_Ticks
begin

text \<open>
  The values the sequence manager moves around: \<open>enqueue_order.h\<close>, \<open>pending_task.cc\<close>, \<open>tasks.h\<close>
  and \<open>tasks.cc\<close>. An enqueue order is the 64-bit word of the code and a task's \<open>sequence_num\<close>
  the 32-bit word that \<open>static_cast<int>\<close> makes of it, read as a signed number.
\<close>

section \<open>EnqueueOrder\<close>

type_synonym enqueue_order = u64

definition EnqueueOrder_none :: enqueue_order where "EnqueueOrder_none = 0"
definition blocking_fence :: enqueue_order where "blocking_fence = 1"
definition EnqueueOrder_kFirst :: enqueue_order where "EnqueueOrder_kFirst = 2"

text \<open>\<open>Generator::GenerateNext\<close>: the old counter value and the advanced counter.\<close>

definition GenerateNext :: "u64 \<Rightarrow> enqueue_order \<times> u64" where
  "GenerateNext counter = (counter, counter + 1)"

section \<open>Tasks\<close>

text \<open>
  A \<open>OnceClosure\<close> is null, a callback posted by a client (named by a number), or the bound call
  of \<open>TaskQueueImpl::ScheduleDelayedWorkTask\<close> that carries the delayed task of another thread.
  The task record is parametric in its closure type so that the last case can hold a task.
\<close>

datatype nestable = kNonNestable | kNestable

datatype wake_up_resolution = kLow | kHigh

datatype user_closure = NullCallback | Callback nat

record 'c sm_task =
  task :: 'c
  posted_from :: string
  delayed_run_time :: int
  queue_time :: int
  sequence_num :: "32 word"
  task_nestable :: nestable
  is_high_res :: bool
  task_type :: u8
  task_enqueue_order :: enqueue_order

datatype closure = User user_closure | ScheduleDelayedWork nat "user_closure sm_task"

type_synonym Task = "closure sm_task"

record 'c posted_task =
  pt_callback :: 'c
  pt_location :: string
  pt_delay :: int
  pt_nestable :: nestable
  pt_task_type :: u8
  pt_queue_time :: int

definition PostedTask_make :: "'c \<Rightarrow> string \<Rightarrow> int \<Rightarrow> nestable \<Rightarrow> u8 \<Rightarrow> 'c posted_task" where
  "PostedTask_make callback location delay nestable type =
     \<lparr>pt_callback = callback, pt_location = location, pt_delay = delay, pt_nestable = nestable,
      pt_task_type = type, pt_queue_time = 0\<rparr>"

text \<open>The constructor \<open>Task::Task\<close>.\<close>

definition Task_make ::
  "'c posted_task \<Rightarrow> int \<Rightarrow> enqueue_order \<Rightarrow> enqueue_order \<Rightarrow> wake_up_resolution \<Rightarrow> 'c sm_task" where
  "Task_make posted desired_run_time sequence_order enqueue_order resolution =
     \<lparr>task = pt_callback posted, posted_from = pt_location posted,
      delayed_run_time = desired_run_time, queue_time = pt_queue_time posted,
      sequence_num = ucast sequence_order, task_nestable = pt_nestable posted,
      is_high_res = (resolution = kHigh), task_type = pt_task_type posted,
      task_enqueue_order = enqueue_order\<rparr>"

definition enqueue_order_set :: "'c sm_task \<Rightarrow> bool" where
  "enqueue_order_set t = (task_enqueue_order t \<noteq> 0)"

definition set_enqueue_order :: "enqueue_order \<Rightarrow> 'c sm_task \<Rightarrow> 'c sm_task" where
  "set_enqueue_order e t = t\<lparr>task_enqueue_order := e\<rparr>"

text \<open>Null test and cancellation of a closure; which callbacks were cancelled is the environment's
  knowledge. \<open>ScheduleDelayedWorkTask\<close> is bound with \<open>Unretained\<close>, so it is never
  cancelled, and the code never asks a null closure.\<close>

fun closure_is_null :: "closure \<Rightarrow> bool" where
  "closure_is_null (User NullCallback) = True"
| "closure_is_null _ = False"

fun closure_IsCancelled :: "(nat \<Rightarrow> bool) \<Rightarrow> closure \<Rightarrow> bool" where
  "closure_IsCancelled cancelled (User (Callback n)) = cancelled n"
| "closure_IsCancelled cancelled (User NullCallback) = False"
| "closure_IsCancelled cancelled (ScheduleDelayedWork q t) = False"

section \<open>Orders on delayed tasks\<close>

text \<open>\<open>PendingTask::operator<\<close>, inverted so that the earliest task is the greatest.\<close>

definition PendingTask_less :: "'c sm_task \<Rightarrow> 'c sm_task \<Rightarrow> bool" where
  "PendingTask_less a b =
     (if delayed_run_time a < delayed_run_time b then False
      else if delayed_run_time a > delayed_run_time b then True
      else sint (sequence_num a - sequence_num b) > 0)"

record delayed_wake_up =
  wu_time :: int
  wu_sequence_num :: "32 word"

definition DelayedWakeUp_of :: "'c sm_task \<Rightarrow> delayed_wake_up" where
  "DelayedWakeUp_of t = \<lparr>wu_time = delayed_run_time t, wu_sequence_num = sequence_num t\<rparr>"

definition DelayedWakeUp_ne :: "delayed_wake_up \<Rightarrow> delayed_wake_up \<Rightarrow> bool" where
  "DelayedWakeUp_ne a b = (wu_time a \<noteq> wu_time b \<or> wu_sequence_num b \<noteq> wu_sequence_num a)"

definition DelayedWakeUp_eq :: "delayed_wake_up \<Rightarrow> delayed_wake_up \<Rightarrow> bool" where
  "DelayedWakeUp_eq a b = (\<not> DelayedWakeUp_ne a b)"

definition DelayedWakeUp_le :: "delayed_wake_up \<Rightarrow> delayed_wake_up \<Rightarrow> bool" where
  "DelayedWakeUp_le a b =
     (if wu_time a = wu_time b then sint (wu_sequence_num a - wu_sequence_num b) \<le> 0
      else wu_time a < wu_time b)"

section \<open>Roll-over of sequence numbers\<close>

text \<open>
  The signed difference of two truncated sequence numbers is the difference of the full numbers as
  long as these are less than \<open>2\<^sup>3\<^sup>1\<close> apart, wherever the 32-bit counter wraps around.
\<close>

lemma sint_ucast_diff:
  fixes a b :: u64
  assumes "uint a \<le> uint b + (2 ^ 31 - 1)" "uint b \<le> uint a + 2 ^ 31"
  shows "sint (ucast a - ucast b :: 32 word) = uint a - uint b"
proof -
  have "ucast a - ucast b = (word_of_int (uint a - uint b) :: 32 word)"
    unfolding ucast_eq by (rule wi_hom_sub)
  then have "sint (ucast a - ucast b :: 32 word) =
      signed_take_bit (LENGTH(32) - 1) (uint a - uint b)"
    by (simp only: sint_sbintrunc')
  also have "\<dots> = uint a - uint b"
    using assms by (intro signed_take_bit_int_eq_self) auto
  finally show ?thesis .
qed

lemma DelayedWakeUp_eq_iff: "DelayedWakeUp_eq a b \<longleftrightarrow> a = b"
  by (cases a; cases b) (auto simp: DelayedWakeUp_eq_def DelayedWakeUp_ne_def)

text \<open>Wake-ups of tasks numbered within a window of \<open>2\<^sup>3\<^sup>1\<close> sequence orders.\<close>

definition wake_up_at :: "int \<Rightarrow> enqueue_order \<Rightarrow> delayed_wake_up" where
  "wake_up_at t n = \<lparr>wu_time = t, wu_sequence_num = ucast n\<rparr>"

definition in_window :: "enqueue_order \<Rightarrow> enqueue_order \<Rightarrow> bool" where
  "in_window base n \<longleftrightarrow> uint base \<le> uint n \<and> uint n < uint base + 2 ^ 31"

lemma wake_up_le_window:
  assumes "in_window base m" "in_window base n"
  shows "DelayedWakeUp_le (wake_up_at s m) (wake_up_at t n) \<longleftrightarrow> s < t \<or> s = t \<and> m \<le> n"
proof -
  have "sint (ucast m - ucast n :: 32 word) = uint m - uint n"
    using assms by (intro sint_ucast_diff) (auto simp: in_window_def)
  then show ?thesis by (auto simp: DelayedWakeUp_le_def wake_up_at_def word_le_def)
qed

lemma PendingTask_less_window:
  assumes "in_window base m" "in_window base n"
    and "sequence_num a = ucast m" "sequence_num b = ucast n"
  shows "PendingTask_less a b \<longleftrightarrow>
    delayed_run_time b < delayed_run_time a \<or> delayed_run_time a = delayed_run_time b \<and> n < m"
proof -
  have "sint (sequence_num a - sequence_num b) = uint m - uint n"
    using assms sint_ucast_diff [of m n] by (auto simp: in_window_def)
  then show ?thesis by (auto simp: PendingTask_less_def word_less_def)
qed

lemma uint_plus_one:
  fixes c :: "'a::len word"
  assumes "c + 1 \<noteq> 0"
  shows "uint (c + 1) = uint c + 1"
proof -
  have "unat (c + 1) = unat c + 1" using assms by (simp add: unatSuc add.commute)
  then show ?thesis by (metis of_nat_1 of_nat_add uint_nat)
qed

lemma GenerateNext_strict:
  assumes "GenerateNext c = (e, c')" "GenerateNext c' = (e', c'')" "c \<noteq> - 1"
  shows "e < e'"
proof -
  have "e = c" "e' = c + 1" using assms(1,2) by (auto simp: GenerateNext_def)
  moreover have "uint (c + 1) = uint c + 1"
  proof -
    have "c + 1 \<noteq> 0" using assms(3) by (metis add.commute add_eq_0_iff)
    then show ?thesis by (rule uint_plus_one)
  qed
  ultimately show ?thesis by (simp add: word_less_def)
qed

end
