(* ===== verification/Lazy_Deque.thy ===== *)
theory Lazy_Deque
  imports Time_Ticks
begin

text \<open>
  The model of \<open>base/task/sequence_manager/lazily_deallocated_deque.h\<close>: a deque kept as a chain
  of ring buffers. A ring's storage is raw memory; a slot is \<^term>\<open>None\<close> until an element is
  constructed in it and again after its destructor ran. The chain from \<open>head_\<close> along \<open>next_\<close> is
  the list \<open>rings\<close>, whose last element is the ring \<open>tail_\<close> points to.
\<close>

section \<open>Ring\<close>

record 'a ring =
  ring_capacity :: nat
  front_index :: nat
  back_index :: nat
  ring_data :: "'a option list"

definition kMinimumRingSize :: nat where "kMinimumRingSize = 4"
definition kReclaimThreshold :: nat where "kReclaimThreshold = 16"
definition kMinimumShrinkIntervalInSeconds :: int where "kMinimumShrinkIntervalInSeconds = 5"

definition Ring_new :: "nat \<Rightarrow> 'a ring" where
  "Ring_new capacity =
     \<lparr>ring_capacity = capacity, front_index = 0, back_index = 0, ring_data = replicate capacity None\<rparr>"

definition CircularDecrement :: "'a ring \<Rightarrow> nat \<Rightarrow> nat" where
  "CircularDecrement r index = (if index = 0 then ring_capacity r - 1 else index - 1)"

definition CircularIncrement :: "'a ring \<Rightarrow> nat \<Rightarrow> nat" where
  "CircularIncrement r index = (let index = index + 1 in if index = ring_capacity r then 0 else index)"

definition ring_empty :: "'a ring \<Rightarrow> bool" where
  "ring_empty r = (back_index r = front_index r)"

definition CanPush :: "'a ring \<Rightarrow> bool" where
  "CanPush r = (front_index r \<noteq> CircularIncrement r (back_index r))"

definition ring_push_front :: "'a \<Rightarrow> 'a ring \<Rightarrow> 'a ring" where
  "ring_push_front t r =
     r\<lparr>ring_data := (ring_data r)[front_index r := Some t],
       front_index := CircularDecrement r (front_index r)\<rparr>"

definition ring_push_back :: "'a \<Rightarrow> 'a ring \<Rightarrow> 'a ring" where
  "ring_push_back t r =
     (let b = CircularIncrement r (back_index r)
      in r\<lparr>back_index := b, ring_data := (ring_data r)[b := Some t]\<rparr>)"

definition ring_pop_front :: "'a ring \<Rightarrow> 'a ring" where
  "ring_pop_front r =
     (let f = CircularIncrement r (front_index r)
      in r\<lparr>front_index := f, ring_data := (ring_data r)[f := None]\<rparr>)"

definition ring_front :: "'a ring \<Rightarrow> 'a option" where
  "ring_front r = ring_data r ! CircularIncrement r (front_index r)"

definition ring_back :: "'a ring \<Rightarrow> 'a option" where
  "ring_back r = ring_data r ! back_index r"

section \<open>Deque\<close>

record 'a deque =
  rings :: "'a ring list"
  dq_size :: nat
  max_size :: nat
  next_resize_time :: int

definition deque_new :: "'a deque" where
  "deque_new = \<lparr>rings = [], dq_size = 0, max_size = 0, next_resize_time = 0\<rparr>"

definition dq_empty :: "'a deque \<Rightarrow> bool" where
  "dq_empty d = (dq_size d = 0)"

definition dq_capacity :: "'a deque \<Rightarrow> nat" where
  "dq_capacity d = sum_list (map ring_capacity (rings d))"

definition dq_clear :: "'a deque \<Rightarrow> 'a deque" where
  "dq_clear d = d\<lparr>rings := [], dq_size := 0\<rparr>"

definition count_push :: "'a deque \<Rightarrow> 'a deque" where
  "count_push d = d\<lparr>dq_size := dq_size d + 1, max_size := max (max_size d) (dq_size d + 1)\<rparr>"

definition dq_push_front :: "'a \<Rightarrow> 'a deque \<Rightarrow> 'a deque" where
  "dq_push_front t d =
     (let rs = (if rings d = [] then [Ring_new kMinimumRingSize] else rings d);
          rs = (if \<not> CanPush (hd rs) then Ring_new kMinimumRingSize # rs else rs)
      in count_push (d\<lparr>rings := ring_push_front t (hd rs) # tl rs\<rparr>))"

definition dq_push_back :: "'a \<Rightarrow> 'a deque \<Rightarrow> 'a deque" where
  "dq_push_back t d =
     (let rs = (if rings d = [] then [Ring_new kMinimumRingSize] else rings d);
          c = ring_capacity (last rs);
          rs = (if \<not> CanPush (last rs) then rs @ [Ring_new (2 + c + c div 2)] else rs)
      in count_push (d\<lparr>rings := butlast rs @ [ring_push_back t (last rs)]\<rparr>))"

definition dq_front :: "'a deque \<Rightarrow> 'a option" where
  "dq_front d = (case rings d of [] \<Rightarrow> None | r # _ \<Rightarrow> ring_front r)"

definition dq_back :: "'a deque \<Rightarrow> 'a option" where
  "dq_back d = (case rings d of [] \<Rightarrow> None | rs \<Rightarrow> ring_back (last rs))"

text \<open>\<open>DCHECK(head_)\<close> excludes the deque without a ring, which the model leaves alone.\<close>

definition dq_pop_front :: "'a deque \<Rightarrow> 'a deque" where
  "dq_pop_front d =
     (case rings d of [] \<Rightarrow> d
      | r # rs \<Rightarrow>
          let r = ring_pop_front r; rs' = (if ring_empty r \<and> rs \<noteq> [] then rs else r # rs)
          in d\<lparr>rings := rs', dq_size := dq_size d - 1\<rparr>)"

text \<open>\<open>swap(other)\<close>, as the pair after the exchange.\<close>

definition dq_swap :: "'a deque \<Rightarrow> 'a deque \<Rightarrow> 'a deque \<times> 'a deque" where
  "dq_swap d other = (other, d)"

lemma dq_pop_front_size: "rings d \<noteq> [] \<Longrightarrow> dq_size (dq_pop_front d) = dq_size d - 1"
  by (simp add: dq_pop_front_def Let_def split: list.splits)

text \<open>The draining loop of \<open>SetCapacity\<close>. A raw front slot cannot be moved from; the invariant
  below shows that the loop never meets one.\<close>

function drain_into :: "'a deque \<Rightarrow> 'a ring \<Rightarrow> 'a ring" where
  "drain_into d new_ring =
     (if dq_empty d \<or> rings d = [] then new_ring
      else case dq_front d of
             None \<Rightarrow> new_ring
           | Some t \<Rightarrow> drain_into (dq_pop_front d) (ring_push_back t new_ring))"
  by pat_completeness auto
termination
  by (relation "measure (\<lambda>(d, r). dq_size d)") (auto simp: dq_pop_front_size dq_empty_def)

declare drain_into.simps [simp del]

definition SetCapacity :: "nat \<Rightarrow> 'a deque \<Rightarrow> 'a deque" where
  "SetCapacity new_capacity d = d\<lparr>rings := [drain_into d (Ring_new new_capacity)]\<rparr>"

text \<open>\<open>MaybeShrinkQueue\<close>, with the reading \<open>now\<close> of \<open>now_source()\<close>.\<close>

definition MaybeShrinkQueue :: "int \<Rightarrow> 'a deque \<Rightarrow> 'a deque" where
  "MaybeShrinkQueue now d =
     (if rings d = [] then d
      else if now < next_resize_time d then d
      else let new_capacity = max_size d + 1;
               new_capacity = (if new_capacity < kMinimumRingSize then kMinimumRingSize
                               else new_capacity);
               d = d\<lparr>max_size := dq_size d\<rparr>
           in if dq_capacity d \<le> new_capacity + kReclaimThreshold then d
              else (SetCapacity new_capacity d)\<lparr>next_resize_time :=
                     ticks_plus now (kMinimumShrinkIntervalInSeconds * 1000000)\<rparr>)"

text \<open>The iterator: a ring of the chain (as the remaining chain) and an index into it.\<close>

definition iter_begin :: "'a ring list \<Rightarrow> ('a ring list \<times> nat) option" where
  "iter_begin rs =
     (case rs of [] \<Rightarrow> None
      | r # _ \<Rightarrow> if ring_empty r then None else Some (rs, CircularIncrement r (front_index r)))"

definition iter_next :: "'a ring list \<times> nat \<Rightarrow> ('a ring list \<times> nat) option" where
  "iter_next it =
     (case it of ([], i) \<Rightarrow> None
      | (r # rs, i) \<Rightarrow>
          if i = back_index r then
            (case rs of [] \<Rightarrow> None
             | r' # _ \<Rightarrow> Some (rs, CircularIncrement r' (front_index r')))
          else Some (r # rs, CircularIncrement r i))"

definition iter_deref :: "'a ring list \<times> nat \<Rightarrow> 'a option" where
  "iter_deref it = (case it of ([], i) \<Rightarrow> None | (r # rs, i) \<Rightarrow> ring_data r ! i)"

text \<open>A \<open>for (const T& t : deque)\<close> loop visits at most as many elements as there are slots.\<close>

fun iter_collect :: "nat \<Rightarrow> ('a ring list \<times> nat) option \<Rightarrow> 'a option list" where
  "iter_collect 0 it = []"
| "iter_collect (Suc fuel) None = []"
| "iter_collect (Suc fuel) (Some it) = iter_deref it # iter_collect fuel (iter_next it)"

definition dq_iterate :: "'a deque \<Rightarrow> 'a option list" where
  "dq_iterate d = iter_collect (Suc (dq_capacity d)) (iter_begin (rings d))"

section \<open>What a ring holds\<close>

definition ring_len :: "'a ring \<Rightarrow> nat" where
  "ring_len r = (if front_index r \<le> back_index r then back_index r - front_index r
                 else back_index r + ring_capacity r - front_index r)"

definition ring_pos :: "'a ring \<Rightarrow> nat \<Rightarrow> nat" where
  "ring_pos r j = (let k = front_index r + 1 + j in if k < ring_capacity r then k else k - ring_capacity r)"

definition ring_list :: "'a ring \<Rightarrow> 'a list" where
  "ring_list r = map (\<lambda>j. the (ring_data r ! ring_pos r j)) [0..<ring_len r]"

definition ring_ok :: "'a ring \<Rightarrow> bool" where
  "ring_ok r \<longleftrightarrow>
     kMinimumRingSize \<le> ring_capacity r \<and> length (ring_data r) = ring_capacity r \<and>
     front_index r < ring_capacity r \<and> back_index r < ring_capacity r \<and>
     (\<forall>i < ring_capacity r. ring_data r ! i \<noteq> None \<longleftrightarrow> (\<exists>j < ring_len r. i = ring_pos r j))"

lemmas ring_bounds = ring_ok_def kMinimumRingSize_def
lemmas ring_arith = ring_pos_def ring_len_def CircularIncrement_def CircularDecrement_def Let_def

lemma ring_len_less: "ring_ok r \<Longrightarrow> ring_len r < ring_capacity r"
  by (auto simp: ring_bounds ring_len_def)

lemma length_ring_list [simp]: "length (ring_list r) = ring_len r"
  by (simp add: ring_list_def)

lemma ring_list_nth: "j < ring_len r \<Longrightarrow> ring_list r ! j = the (ring_data r ! ring_pos r j)"
  by (simp add: ring_list_def)

lemma ring_pos_less: "ring_ok r \<Longrightarrow> j < ring_capacity r \<Longrightarrow> ring_pos r j < ring_capacity r"
  by (auto simp: ring_bounds ring_pos_def Let_def)

lemma ring_pos_inj:
  "ring_ok r \<Longrightarrow> i < ring_capacity r \<Longrightarrow> j < ring_capacity r \<Longrightarrow> ring_pos r i = ring_pos r j \<Longrightarrow> i = j"
  by (auto simp: ring_bounds ring_pos_def Let_def split: if_splits)

lemma ring_empty_iff: "ring_ok r \<Longrightarrow> ring_empty r \<longleftrightarrow> ring_list r = []"
  by (auto simp: ring_empty_def ring_bounds ring_len_def simp flip: length_0_conv split: if_splits)

lemma CanPush_iff: "ring_ok r \<Longrightarrow> CanPush r \<longleftrightarrow> ring_len r + 1 < ring_capacity r"
  by (auto simp: CanPush_def ring_bounds ring_arith split: if_splits)

lemma Ring_new_ok: "kMinimumRingSize \<le> c \<Longrightarrow> ring_ok (Ring_new c)"
  by (auto simp: ring_bounds Ring_new_def ring_len_def)

lemma Ring_new_simps [simp]:
  "ring_list (Ring_new c) = []" "ring_capacity (Ring_new c) = c" "ring_len (Ring_new c) = 0"
  by (simp_all add: ring_list_def ring_len_def Ring_new_def)

lemma Ring_new_CanPush: "kMinimumRingSize \<le> c \<Longrightarrow> CanPush (Ring_new c)"
  using CanPush_iff [OF Ring_new_ok, of c] by (simp add: kMinimumRingSize_def)

section \<open>Ring operations\<close>

lemma push_back_reads:
  assumes "ring_ok r" "CanPush r"
  shows "ring_len (ring_push_back t r) = ring_len r + 1"
    "ring_pos (ring_push_back t r) j = ring_pos r j"
    "ring_data (ring_push_back t r) = (ring_data r)[ring_pos r (ring_len r) := Some t]"
    "ring_capacity (ring_push_back t r) = ring_capacity r"
  using assms
  by (auto simp: ring_push_back_def ring_bounds CanPush_def ring_arith split: if_splits)

lemma push_front_reads:
  assumes "ring_ok r" "CanPush r"
  shows "ring_len (ring_push_front t r) = ring_len r + 1"
    "ring_pos (ring_push_front t r) 0 = front_index r"
    "Suc j < ring_capacity r \<Longrightarrow> ring_pos (ring_push_front t r) (Suc j) = ring_pos r j"
    "ring_data (ring_push_front t r) = (ring_data r)[front_index r := Some t]"
    "ring_capacity (ring_push_front t r) = ring_capacity r"
  using assms
  by (auto simp: ring_push_front_def ring_bounds CanPush_def ring_arith split: if_splits)

lemma pop_front_reads:
  assumes "ring_ok r" "\<not> ring_empty r"
  shows "ring_len r = Suc (ring_len (ring_pop_front r))"
    "Suc j < ring_capacity r \<Longrightarrow> ring_pos (ring_pop_front r) j = ring_pos r (Suc j)"
    "ring_data (ring_pop_front r) = (ring_data r)[ring_pos r 0 := None]"
    "ring_capacity (ring_pop_front r) = ring_capacity r"
  using assms
  by (auto simp: ring_pop_front_def ring_empty_def ring_bounds ring_arith split: if_splits)

lemma ring_ok_indices:
  "ring_ok r \<Longrightarrow> CanPush r \<Longrightarrow> front_index (ring_push_front t r) < ring_capacity r \<and>
     back_index (ring_push_front t r) < ring_capacity r"
  "ring_ok r \<Longrightarrow> front_index (ring_push_back t r) < ring_capacity r \<and>
     back_index (ring_push_back t r) < ring_capacity r"
  "ring_ok r \<Longrightarrow> front_index (ring_pop_front r) < ring_capacity r \<and>
     back_index (ring_pop_front r) < ring_capacity r"
  by (auto simp: ring_push_front_def ring_push_back_def ring_pop_front_def ring_bounds ring_arith)

lemma occupied_iff:
  "ring_ok r \<Longrightarrow> i < ring_capacity r \<Longrightarrow> ring_data r ! i \<noteq> None \<longleftrightarrow> (\<exists>j < ring_len r. i = ring_pos r j)"
  by (simp add: ring_ok_def)

lemma ring_okI:
  assumes "ring_ok r" "ring_capacity q = ring_capacity r" "length (ring_data q) = length (ring_data r)"
    "front_index q < ring_capacity r \<and> back_index q < ring_capacity r"
    "\<And>i. i < ring_capacity r \<Longrightarrow> ring_data q ! i \<noteq> None \<longleftrightarrow> (\<exists>j < ring_len q. i = ring_pos q j)"
  shows "ring_ok q"
  using assms by (simp add: ring_ok_def)

lemma ring_push_back_ok:
  assumes ok: "ring_ok r" "CanPush r"
  shows "ring_ok (ring_push_back t r)" "ring_list (ring_push_back t r) = ring_list r @ [t]"
proof -
  note rd = push_back_reads [OF ok] and cp = CanPush_iff [THEN iffD1, OF ok]
  have len: "length (ring_data r) = ring_capacity r" using ok by (simp add: ring_ok_def)
  have at: "ring_pos r (ring_len r) < ring_capacity r" using ring_pos_less [OF ok(1)] cp by simp
  show "ring_ok (ring_push_back t r)"
  proof (rule ring_okI [OF ok(1) rd(4)])
    fix i assume i: "i < ring_capacity r"
    show "ring_data (ring_push_back t r) ! i \<noteq> None \<longleftrightarrow>
        (\<exists>j < ring_len (ring_push_back t r). i = ring_pos (ring_push_back t r) j)"
      using occupied_iff [OF ok(1) i] i at len
      by (cases "i = ring_pos r (ring_len r)") (auto simp: rd less_Suc_eq)
  qed (use ok rd in \<open>simp_all add: ring_ok_indices\<close>)
  have old: "(ring_data r)[ring_pos r (ring_len r) := Some t] ! ring_pos r j = ring_data r ! ring_pos r j"
    if "j < ring_len r" for j
  proof -
    have "ring_pos r j \<noteq> ring_pos r (ring_len r)"
      using ring_pos_inj [OF ok(1), of j "ring_len r"] that cp by auto
    then show ?thesis by simp
  qed
  show "ring_list (ring_push_back t r) = ring_list r @ [t]"
    using old at len by (auto simp: ring_list_def rd)
qed

lemma front_index_free:
  assumes "ring_ok r" "j < ring_len r"
  shows "ring_pos r j \<noteq> front_index r"
  using assms by (auto simp: ring_bounds ring_arith split: if_splits)

lemma ring_push_front_ok:
  assumes ok: "ring_ok r" "CanPush r"
  shows "ring_ok (ring_push_front t r)" "ring_list (ring_push_front t r) = t # ring_list r"
proof -
  note rd = push_front_reads [OF ok] and cp = CanPush_iff [THEN iffD1, OF ok]
  have len: "length (ring_data r) = ring_capacity r" "front_index r < ring_capacity r"
    using ok by (auto simp: ring_ok_def)
  have ex: "(\<exists>j < ring_len r + 1. i = ring_pos (ring_push_front t r) j) \<longleftrightarrow>
      i = front_index r \<or> (\<exists>j < ring_len r. i = ring_pos r j)" for i
  proof -
    have "(\<exists>j < ring_len r + 1. i = ring_pos (ring_push_front t r) j) \<longleftrightarrow>
        i = ring_pos (ring_push_front t r) 0 \<or>
        (\<exists>j < ring_len r. i = ring_pos (ring_push_front t r) (Suc j))"
      by (auto simp: less_Suc_eq_0_disj)
    then show ?thesis using rd(2,3) cp by auto
  qed
  show "ring_ok (ring_push_front t r)"
  proof (rule ring_okI [OF ok(1) rd(5)])
    fix i assume i: "i < ring_capacity r"
    show "ring_data (ring_push_front t r) ! i \<noteq> None \<longleftrightarrow>
        (\<exists>j < ring_len (ring_push_front t r). i = ring_pos (ring_push_front t r) j)"
      using occupied_iff [OF ok(1) i] i len ex
      by (cases "i = front_index r") (auto simp: rd(1,4))
  qed (use ok rd in \<open>simp_all add: ring_ok_indices\<close>)
  have old: "(ring_data r)[front_index r := Some t] ! ring_pos r j = ring_data r ! ring_pos r j"
    if "j < ring_len r" for j
    using front_index_free [OF ok(1) that] by simp
  show "ring_list (ring_push_front t r) = t # ring_list r"
  proof (rule nth_equalityI)
    fix j assume j: "j < length (ring_list (ring_push_front t r))"
    show "ring_list (ring_push_front t r) ! j = (t # ring_list r) ! j"
      using j old len cp
      by (cases j) (simp_all add: ring_list_nth rd)
  qed (simp add: rd)
qed

lemma ring_pop_front_ok:
  assumes ok: "ring_ok r" "\<not> ring_empty r"
  shows "ring_ok (ring_pop_front r)" "ring_list (ring_pop_front r) = tl (ring_list r)"
proof -
  note rd = pop_front_reads [OF ok]
  let ?n = "ring_len (ring_pop_front r)"
  have cp: "Suc ?n < ring_capacity r" using ring_len_less [OF ok(1)] rd(1) by simp
  have at: "ring_pos r 0 < ring_capacity r" using ring_pos_less [OF ok(1)] cp by simp
  have len: "length (ring_data r) = ring_capacity r" using ok by (simp add: ring_ok_def)
  have ne: "ring_pos r (Suc j) \<noteq> ring_pos r 0" if "j < ?n" for j
    using ring_pos_inj [OF ok(1), of "Suc j" 0] that cp by auto
  have ex: "(\<exists>j < ring_len r. i = ring_pos r j) \<longleftrightarrow>
      i = ring_pos r 0 \<or> (\<exists>j < ?n. i = ring_pos (ring_pop_front r) j)" for i
    using rd(2) cp unfolding rd(1) by (auto simp: less_Suc_eq_0_disj)
  have free: "\<not> (\<exists>j < ?n. ring_pos r 0 = ring_pos (ring_pop_front r) j)"
    using rd(2) cp ne by (metis Suc_lessD Suc_mono less_trans)
  show "ring_ok (ring_pop_front r)"
  proof (rule ring_okI [OF ok(1) rd(4)])
    fix i assume i: "i < ring_capacity r"
    show "ring_data (ring_pop_front r) ! i \<noteq> None \<longleftrightarrow>
        (\<exists>j < ?n. i = ring_pos (ring_pop_front r) j)"
      using occupied_iff [OF ok(1) i] ex free i at len
      by (cases "i = ring_pos r 0") (auto simp: rd(3))
  qed (use ok rd in \<open>simp_all add: ring_ok_indices\<close>)
  show "ring_list (ring_pop_front r) = tl (ring_list r)"
  proof (rule nth_equalityI)
    show "length (ring_list (ring_pop_front r)) = length (tl (ring_list r))" using rd(1) by simp
    fix j assume j: "j < length (ring_list (ring_pop_front r))"
    then show "ring_list (ring_pop_front r) ! j = tl (ring_list r) ! j"
      using rd(2) ne [THEN not_sym, of j] cp by (simp add: ring_list_nth nth_tl rd(1,3))
  qed
qed

lemma ring_front_ok:
  assumes "ring_ok r" "ring_list r \<noteq> []"
  shows "ring_front r = Some (hd (ring_list r))"
proof -
  have n: "0 < ring_len r" using assms(2) by (simp flip: length_ring_list)
  have p: "CircularIncrement r (front_index r) = ring_pos r 0" "ring_pos r 0 < ring_capacity r"
    using assms(1) by (auto simp: ring_bounds ring_arith)
  have "ring_data r ! ring_pos r 0 \<noteq> None"
    using occupied_iff [OF assms(1) p(2)] n by blast
  then show ?thesis
    using n p by (auto simp: ring_front_def hd_conv_nth assms(2) ring_list_nth)
qed

lemma ring_back_ok:
  assumes "ring_ok r" "ring_list r \<noteq> []"
  shows "ring_back r = Some (last (ring_list r))"
proof -
  have n: "0 < ring_len r" using assms(2) by (simp flip: length_ring_list)
  have p: "back_index r = ring_pos r (ring_len r - 1)"
    using assms(1) n by (auto simp: ring_bounds ring_arith split: if_splits)
  have "ring_data r ! back_index r \<noteq> None"
    using occupied_iff [OF assms(1), of "back_index r"] n p assms(1) unfolding ring_ok_def
    by (metis diff_less zero_less_one)
  then show ?thesis
    using n p by (auto simp: ring_back_def last_conv_nth assms(2) ring_list_nth)
qed

section \<open>What the deque holds\<close>

definition dq_list :: "'a deque \<Rightarrow> 'a list" where
  "dq_list d = concat (map ring_list (rings d))"

text \<open>
  Every ring is well formed, a ring may be empty only when it is alone, the counter is the number
  of elements, and the recorded maximum is not below it.
\<close>

definition dq_inv :: "'a deque \<Rightarrow> bool" where
  "dq_inv d \<longleftrightarrow>
     (\<forall>r \<in> set (rings d). ring_ok r) \<and>
     (1 < length (rings d) \<longrightarrow> (\<forall>r \<in> set (rings d). ring_list r \<noteq> [])) \<and>
     dq_size d = length (dq_list d) \<and> dq_size d \<le> max_size d"

lemma deque_new_inv [simp]: "dq_inv deque_new" "dq_list deque_new = []"
  by (simp_all add: dq_inv_def dq_list_def deque_new_def)

lemma dq_empty_iff: "dq_inv d \<Longrightarrow> dq_empty d \<longleftrightarrow> dq_list d = []"
  by (auto simp: dq_inv_def dq_empty_def)

lemma dq_clear_inv: "dq_inv d \<Longrightarrow> dq_inv (dq_clear d)" "dq_list (dq_clear d) = []"
  by (simp_all add: dq_inv_def dq_list_def dq_clear_def)

lemma dq_swap_lists: "dq_swap d e = (d', e') \<Longrightarrow> dq_list d' = dq_list e \<and> dq_list e' = dq_list d"
  by (auto simp: dq_swap_def)

text \<open>The chain of rings as it stands before the push: never empty, its end ring can push, and
  the other rings are unchanged.\<close>

lemma dq_inv_ring: "dq_inv d \<Longrightarrow> r \<in> set (rings d) \<Longrightarrow> ring_ok r"
  by (simp add: dq_inv_def)

lemma full_ring_nonempty: "ring_ok r \<Longrightarrow> \<not> CanPush r \<Longrightarrow> ring_list r \<noteq> []"
  using CanPush_iff [of r] by (auto simp: ring_bounds simp flip: length_0_conv)

lemma dq_push_back_ok:
  assumes inv: "dq_inv d"
  shows "dq_inv (dq_push_back t d)" "dq_list (dq_push_back t d) = dq_list d @ [t]"
proof -
  define rs0 where "rs0 = (if rings d = [] then [Ring_new kMinimumRingSize] else rings d)"
  define rs where "rs = (if \<not> CanPush (last rs0)
    then rs0 @ [Ring_new (2 + ring_capacity (last rs0) + ring_capacity (last rs0) div 2)] else rs0)"
  have eq: "dq_push_back t d = count_push (d\<lparr>rings := butlast rs @ [ring_push_back t (last rs)]\<rparr>)"
    by (simp add: dq_push_back_def rs_def rs0_def Let_def)
  have r0: "\<forall>r \<in> set rs0. ring_ok r" "rs0 \<noteq> []" "concat (map ring_list rs0) = dq_list d"
    "1 < length rs0 \<longrightarrow> (\<forall>r \<in> set rs0. ring_list r \<noteq> [])"
    using inv by (auto simp: rs0_def dq_inv_def dq_list_def Ring_new_ok)
  have last0: "ring_ok (last rs0)" using r0 by simp
  then have cap: "kMinimumRingSize \<le> 2 + ring_capacity (last rs0) + ring_capacity (last rs0) div 2"
    by (simp add: ring_ok_def)
  have r: "\<forall>r \<in> set rs. ring_ok r" "rs \<noteq> []" "concat (map ring_list rs) = dq_list d" "CanPush (last rs)"
    using r0 cap Ring_new_ok Ring_new_CanPush by (auto simp: rs_def)
  obtain y ys where rs: "rs = ys @ [y]" using r(2) by (cases rs rule: rev_cases) auto
  have y: "ring_ok y" "CanPush y" using r rs by auto
  have init_ne: "ys \<noteq> [] \<longrightarrow> (\<forall>q \<in> set ys. ring_list q \<noteq> [])"
  proof (cases "CanPush (last rs0)")
    case True
    then show ?thesis using r0 rs by (auto simp: rs_def)
  next
    case False
    then have "ys = rs0" using rs by (simp add: rs_def)
    then show ?thesis
      using r0 False full_ring_nonempty [OF last0] by (cases rs0) (auto split: if_splits)
  qed
  have lst: "dq_list (dq_push_back t d) = dq_list d @ [t]"
    using r(3) ring_push_back_ok(2) [OF y] by (simp add: eq count_push_def dq_list_def rs)
  show "dq_list (dq_push_back t d) = dq_list d @ [t]" by (rule lst)
  show "dq_inv (dq_push_back t d)"
    using inv r(1) init_ne lst ring_push_back_ok [OF y]
    by (auto simp: eq count_push_def dq_inv_def rs)
qed

lemma dq_push_front_ok:
  assumes inv: "dq_inv d"
  shows "dq_inv (dq_push_front t d)" "dq_list (dq_push_front t d) = t # dq_list d"
proof -
  define rs0 where "rs0 = (if rings d = [] then [Ring_new kMinimumRingSize] else rings d)"
  define rs where "rs = (if \<not> CanPush (hd rs0) then Ring_new kMinimumRingSize # rs0 else rs0)"
  have eq: "dq_push_front t d = count_push (d\<lparr>rings := ring_push_front t (hd rs) # tl rs\<rparr>)"
    by (simp add: dq_push_front_def rs_def rs0_def Let_def)
  have r0: "\<forall>r \<in> set rs0. ring_ok r" "rs0 \<noteq> []" "concat (map ring_list rs0) = dq_list d"
    "1 < length rs0 \<longrightarrow> (\<forall>r \<in> set rs0. ring_list r \<noteq> [])"
    using inv by (auto simp: rs0_def dq_inv_def dq_list_def Ring_new_ok)
  have r: "\<forall>r \<in> set rs. ring_ok r" "rs \<noteq> []" "concat (map ring_list rs) = dq_list d" "CanPush (hd rs)"
    using r0 Ring_new_ok Ring_new_CanPush by (auto simp: rs_def)
  obtain y ys where rs: "rs = y # ys" using r(2) by (cases rs) auto
  have y: "ring_ok y" "CanPush y" using r rs by auto
  have tl_ne: "ys \<noteq> [] \<longrightarrow> (\<forall>q \<in> set ys. ring_list q \<noteq> [])"
  proof (cases "CanPush (hd rs0)")
    case True
    then show ?thesis using r0 rs by (auto simp: rs_def)
  next
    case False
    then have "ys = rs0" using rs by (simp add: rs_def)
    then show ?thesis
      using r0 False full_ring_nonempty [of "hd rs0"] by (cases rs0) (auto split: if_splits)
  qed
  have lst: "dq_list (dq_push_front t d) = t # dq_list d"
    using r(3) ring_push_front_ok(2) [OF y] by (simp add: eq count_push_def dq_list_def rs)
  show "dq_list (dq_push_front t d) = t # dq_list d" by (rule lst)
  show "dq_inv (dq_push_front t d)"
    using inv r(1) tl_ne lst ring_push_front_ok [OF y]
    by (auto simp: eq count_push_def dq_inv_def rs)
qed

lemma dq_head_nonempty:
  assumes "dq_inv d" "dq_list d \<noteq> []"
  obtains r rs where "rings d = r # rs" "ring_ok r" "ring_list r \<noteq> []"
    "\<forall>q \<in> set rs. ring_ok q" "\<forall>q \<in> set rs. ring_list q \<noteq> []"
proof (cases "rings d")
  case Nil
  then show ?thesis using assms by (simp add: dq_list_def)
next
  case (Cons r rs)
  show ?thesis
  proof (rule that [OF Cons])
    show "ring_list r \<noteq> []" "\<forall>q \<in> set rs. ring_list q \<noteq> []"
      using assms Cons by (cases rs; auto simp: dq_inv_def dq_list_def)+
  qed (use assms Cons in \<open>auto simp: dq_inv_def\<close>)
qed

lemma dq_front_ok:
  assumes "dq_inv d" "dq_list d \<noteq> []"
  shows "dq_front d = Some (hd (dq_list d))"
proof -
  obtain r rs where "rings d = r # rs" "ring_ok r" "ring_list r \<noteq> []"
    "\<forall>q \<in> set rs. ring_ok q" "\<forall>q \<in> set rs. ring_list q \<noteq> []"
    by (rule dq_head_nonempty [OF assms])
  then show ?thesis by (simp add: dq_front_def dq_list_def ring_front_ok)
qed

lemma dq_back_ok:
  assumes "dq_inv d" "dq_list d \<noteq> []"
  shows "dq_back d = Some (last (dq_list d))"
proof -
  obtain r rs where d: "rings d = r # rs" "ring_ok r" "ring_list r \<noteq> []"
    "\<forall>q \<in> set rs. ring_ok q" "\<forall>q \<in> set rs. ring_list q \<noteq> []"
    by (rule dq_head_nonempty [OF assms])
  obtain ys y where y: "r # rs = ys @ [y]" by (cases "r # rs" rule: rev_cases) auto
  then have "y \<in> set (r # rs)" by simp
  then have "ring_ok y" "ring_list y \<noteq> []" using d by auto
  moreover have "dq_back d = ring_back y" using d(1) y by (cases ys) (auto simp: dq_back_def)
  moreover have "dq_list d = concat (map ring_list ys) @ ring_list y"
    using d(1) y by (simp add: dq_list_def)
  ultimately show ?thesis by (simp add: ring_back_ok)
qed

lemma dq_pop_front_ok:
  assumes "dq_inv d" "dq_list d \<noteq> []"
  shows "dq_inv (dq_pop_front d)" "dq_list (dq_pop_front d) = tl (dq_list d)"
    "max_size (dq_pop_front d) = max_size d"
proof -
  obtain r rs where d: "rings d = r # rs" "ring_ok r" "ring_list r \<noteq> []"
    "\<forall>q \<in> set rs. ring_ok q" "\<forall>q \<in> set rs. ring_list q \<noteq> []"
    by (rule dq_head_nonempty [OF assms])
  let ?r = "ring_pop_front r"
  have ne: "\<not> ring_empty r" using ring_empty_iff d by blast
  note pop = ring_pop_front_ok [OF d(2) ne]
  have e: "ring_empty ?r \<longleftrightarrow> ring_list ?r = []" using ring_empty_iff pop by blast
  have lst: "dq_list (dq_pop_front d) = tl (dq_list d)"
    using d(1,3) pop(2) e by (auto simp: dq_pop_front_def dq_list_def Let_def)
  show "dq_list (dq_pop_front d) = tl (dq_list d)" by (rule lst)
  show "max_size (dq_pop_front d) = max_size d" by (simp add: dq_pop_front_def d(1) Let_def)
  have "dq_size (dq_pop_front d) = dq_size d - 1" using dq_pop_front_size [of d] d(1) by simp
  then show "dq_inv (dq_pop_front d)"
    using assms(1) lst d pop(1) e
    by (auto simp: dq_inv_def dq_pop_front_def Let_def split: if_splits)
qed

text \<open>The draining loop moves every element into the new ring, in order.\<close>

lemma drain_into_ok:
  assumes "dq_inv d" "ring_ok r" "ring_len r + length (dq_list d) < ring_capacity r"
  shows "ring_ok (drain_into d r) \<and> ring_list (drain_into d r) = ring_list r @ dq_list d \<and>
    ring_capacity (drain_into d r) = ring_capacity r"
  using assms
proof (induction "length (dq_list d)" arbitrary: d r)
  case 0
  then have "dq_empty d" by (simp add: dq_empty_iff)
  then show ?case using 0 by (simp add: drain_into.simps)
next
  case (Suc n)
  then have ne: "dq_list d \<noteq> []" by auto
  have nr: "rings d \<noteq> []" "\<not> dq_empty d" using ne Suc.prems by (auto simp: dq_list_def dq_empty_iff)
  let ?t = "hd (dq_list d)"
  have cp: "CanPush r" using CanPush_iff [OF Suc.prems(2)] Suc.prems(3) Suc.hyps(2) by simp
  have "drain_into d r = drain_into (dq_pop_front d) (ring_push_back ?t r)"
    using nr dq_front_ok [OF Suc.prems(1) ne] by (subst drain_into.simps) simp
  moreover have "n = length (dq_list (dq_pop_front d))"
    using Suc dq_pop_front_ok(2) [OF Suc.prems(1) ne] by simp
  moreover note Suc.hyps(1) [of "dq_pop_front d" "ring_push_back ?t r"]
  ultimately show ?case
    using dq_pop_front_ok [OF Suc.prems(1) ne] ring_push_back_ok [OF Suc.prems(2) cp, of ?t] ne
      push_back_reads(1,4) [OF Suc.prems(2) cp] Suc.prems(3) Suc.hyps(2)
    by (auto simp: neq_Nil_conv)
qed

lemma SetCapacity_ok:
  assumes "dq_inv d" "kMinimumRingSize \<le> c" "length (dq_list d) < c"
  shows "dq_inv (SetCapacity c d)" "dq_list (SetCapacity c d) = dq_list d"
    "dq_capacity (SetCapacity c d) = c"
  using drain_into_ok [OF assms(1) Ring_new_ok [OF assms(2)]] assms
  by (auto simp: SetCapacity_def dq_inv_def dq_list_def dq_capacity_def)

lemma MaybeShrinkQueue_ok:
  assumes inv: "dq_inv d"
  shows "dq_inv (MaybeShrinkQueue now d)" "dq_list (MaybeShrinkQueue now d) = dq_list d"
    "dq_capacity (MaybeShrinkQueue now d) \<le> dq_capacity d"
proof -
  let ?c = "if max_size d + 1 < kMinimumRingSize then kMinimumRingSize else max_size d + 1"
  let ?d = "d\<lparr>max_size := dq_size d\<rparr>"
  have d: "dq_inv ?d" "dq_list ?d = dq_list d" "dq_capacity ?d = dq_capacity d"
    using inv by (simp_all add: dq_inv_def dq_list_def dq_capacity_def)
  have c: "kMinimumRingSize \<le> ?c" "length (dq_list ?d) < ?c"
    using inv by (auto simp: dq_inv_def dq_list_def kMinimumRingSize_def)
  have upd: "dq_inv (e\<lparr>next_resize_time := t\<rparr>) = dq_inv e"
    "dq_list (e\<lparr>next_resize_time := t\<rparr>) = dq_list e"
    "dq_capacity (e\<lparr>next_resize_time := t\<rparr>) = dq_capacity e" for e :: "'a deque" and t
    by (simp_all add: dq_inv_def dq_list_def dq_capacity_def)
  note sc = SetCapacity_ok [OF d(1) c]
  show "dq_inv (MaybeShrinkQueue now d)" "dq_list (MaybeShrinkQueue now d) = dq_list d"
    "dq_capacity (MaybeShrinkQueue now d) \<le> dq_capacity d"
    unfolding MaybeShrinkQueue_def Let_def using inv d sc by (simp_all add: upd)
qed

text \<open>Iteration visits the elements front to back and never reads a raw slot.\<close>

lemma iter_ring_step:
  assumes "ring_ok r" "Suc j < ring_len r"
  shows "iter_next (r # rs, ring_pos r j) = Some (r # rs, ring_pos r (Suc j))"
  using assms by (auto simp: iter_next_def ring_bounds ring_arith split: if_splits)

lemma iter_ring_last:
  assumes "ring_ok r" "j < ring_len r" "Suc j = ring_len r"
  shows "ring_pos r j = back_index r"
  using assms by (auto simp: ring_bounds ring_arith split: if_splits)

lemma iter_collect_ring:
  assumes ok: "ring_ok r" and j: "j < ring_len r" and f: "ring_len r - j \<le> fuel"
  shows "iter_collect fuel (Some (r # rs, ring_pos r j)) =
    map Some (drop j (ring_list r)) @
    iter_collect (fuel - (ring_len r - j)) (iter_next (r # rs, back_index r))"
  using j f
proof (induction "ring_len r - j" arbitrary: j fuel)
  case 0
  then show ?case by simp
next
  case (Suc n)
  obtain g where fuel: "fuel = Suc g" using Suc.prems by (cases fuel) auto
  have "ring_pos r j < ring_capacity r"
    using ring_pos_less [OF ok] ring_len_less [OF ok] Suc.prems by simp
  then have "ring_data r ! ring_pos r j \<noteq> None"
    using occupied_iff [OF ok] Suc.prems by blast
  then have here: "ring_data r ! ring_pos r j = Some (ring_list r ! j)"
    using Suc.prems by (auto simp: ring_list_nth)
  have dr: "drop j (ring_list r) = ring_list r ! j # drop (Suc j) (ring_list r)"
    using Suc.prems by (simp add: Cons_nth_drop_Suc)
  show ?case
  proof (cases "Suc j < ring_len r")
    case True
    then show ?thesis
      using Suc.hyps(1) [of "Suc j" g] Suc.hyps(2) Suc.prems iter_ring_step [OF ok True]
      by (simp add: fuel iter_deref_def here dr)
  next
    case False
    then have n: "ring_len r = Suc j" using Suc.prems by simp
    then show ?thesis
      using iter_ring_last [OF ok Suc.prems(1) n [symmetric]] here
      by (simp add: fuel iter_deref_def dr)
  qed
qed

lemma iter_collect_chain:
  assumes "\<forall>q \<in> set (r # rs). ring_ok q \<and> ring_list q \<noteq> []"
    and "length (concat (map ring_list (r # rs))) < fuel"
  shows "iter_collect fuel (Some (r # rs, CircularIncrement r (front_index r))) =
    map Some (concat (map ring_list (r # rs)))"
  using assms
proof (induction rs arbitrary: r fuel)
  case Nil
  have ok: "ring_ok r" "0 < ring_len r" using Nil by (auto simp flip: length_ring_list)
  have p: "CircularIncrement r (front_index r) = ring_pos r 0"
    using ok by (auto simp: ring_bounds ring_arith)
  have "ring_len r < fuel" using Nil by simp
  then obtain g where "fuel - ring_len r = Suc g" by (metis Suc_diff_Suc)
  then show ?case
    using iter_collect_ring [OF ok(1,2), of fuel "[]"] \<open>ring_len r < fuel\<close>
    by (simp add: p iter_next_def)
next
  case (Cons q rs)
  have ok: "ring_ok r" "0 < ring_len r" using Cons.prems by (auto simp flip: length_ring_list)
  have p: "CircularIncrement r (front_index r) = ring_pos r 0"
    using ok by (auto simp: ring_bounds ring_arith)
  have "length (concat (map ring_list (q # rs))) < fuel - ring_len r" using Cons.prems by simp
  then have "iter_collect (fuel - ring_len r) (Some (q # rs, CircularIncrement q (front_index q))) =
      map Some (concat (map ring_list (q # rs)))"
    using Cons.IH Cons.prems(1) by simp
  then show ?case
    using iter_collect_ring [OF ok(1,2), of fuel "q # rs"] Cons.prems(2)
    by (simp add: p iter_next_def)
qed

lemma dq_list_le_capacity:
  assumes "\<forall>q \<in> set rs. ring_ok q"
  shows "length (concat (map ring_list rs)) \<le> sum_list (map ring_capacity rs)"
  using assms
proof (induction rs)
  case (Cons r rs)
  then show ?case using ring_len_less [of r] by simp
qed simp

lemma dq_iterate_ok:
  assumes inv: "dq_inv d"
  shows "dq_iterate d = map Some (dq_list d)"
proof (cases "dq_list d = []")
  case True
  have "iter_begin (rings d) = None"
  proof (cases "rings d")
    case (Cons r rs)
    then have "ring_list r = []" "ring_ok r" using True inv by (auto simp: dq_list_def dq_inv_def)
    then show ?thesis using Cons by (simp add: iter_begin_def ring_empty_iff)
  qed (simp add: iter_begin_def)
  then show ?thesis using True by (simp add: dq_iterate_def)
next
  case False
  obtain r rs where d: "rings d = r # rs" "ring_ok r" "ring_list r \<noteq> []"
    "\<forall>q \<in> set rs. ring_ok q" "\<forall>q \<in> set rs. ring_list q \<noteq> []"
    by (rule dq_head_nonempty [OF inv False])
  have b: "iter_begin (rings d) = Some (r # rs, CircularIncrement r (front_index r))"
    using d ring_empty_iff [OF d(2)] by (simp add: iter_begin_def)
  have "length (concat (map ring_list (r # rs))) < Suc (dq_capacity d)"
    using dq_list_le_capacity [of "r # rs"] d by (simp add: dq_capacity_def)
  moreover have "\<forall>q \<in> set (r # rs). ring_ok q \<and> ring_list q \<noteq> []" using d by auto
  ultimately show ?thesis
    using iter_collect_chain [of r rs] d(1) unfolding dq_iterate_def b dq_list_def by metis
qed

section \<open>The contract of a double-ended queue\<close>

locale task_deque =
  fixes qinv :: "'q \<Rightarrow> bool" and items :: "'q \<Rightarrow> 'a list"
    and new_q :: 'q and is_empty :: "'q \<Rightarrow> bool"
    and push_back :: "'a \<Rightarrow> 'q \<Rightarrow> 'q" and push_front :: "'a \<Rightarrow> 'q \<Rightarrow> 'q" and pop_front :: "'q \<Rightarrow> 'q"
    and front_el :: "'q \<Rightarrow> 'a option" and back_el :: "'q \<Rightarrow> 'a option" and clear :: "'q \<Rightarrow> 'q"
    and shrink :: "int \<Rightarrow> 'q \<Rightarrow> 'q" and iterate :: "'q \<Rightarrow> 'a option list"
  assumes new_spec: "qinv new_q" "items new_q = []"
    and is_empty_spec: "qinv q \<Longrightarrow> is_empty q \<longleftrightarrow> items q = []"
    and push_back_spec: "qinv q \<Longrightarrow> qinv (push_back t q) \<and> items (push_back t q) = items q @ [t]"
    and push_front_spec: "qinv q \<Longrightarrow> qinv (push_front t q) \<and> items (push_front t q) = t # items q"
    and pop_front_spec: "qinv q \<Longrightarrow> items q \<noteq> [] \<Longrightarrow>
      qinv (pop_front q) \<and> items (pop_front q) = tl (items q)"
    and front_spec: "qinv q \<Longrightarrow> items q \<noteq> [] \<Longrightarrow> front_el q = Some (hd (items q))"
    and back_spec: "qinv q \<Longrightarrow> items q \<noteq> [] \<Longrightarrow> back_el q = Some (last (items q))"
    and clear_spec: "qinv q \<Longrightarrow> qinv (clear q) \<and> items (clear q) = []"
    and shrink_spec: "qinv q \<Longrightarrow> qinv (shrink now q) \<and> items (shrink now q) = items q"
    and iterate_spec: "qinv q \<Longrightarrow> iterate q = map Some (items q)"
begin

text \<open>A fill and drain cycle returns the elements in the order they were pushed.\<close>

lemma fill_items: "qinv q \<Longrightarrow> qinv (fold push_back ts q) \<and> items (fold push_back ts q) = items q @ ts"
proof (induction ts arbitrary: q)
  case (Cons t ts)
  then show ?case using push_back_spec [of q t] by auto
qed simp

lemma drain_items:
  "qinv q \<Longrightarrow> n \<le> length (items q) \<Longrightarrow>
   qinv ((pop_front ^^ n) q) \<and> items ((pop_front ^^ n) q) = drop n (items q)"
proof (induction n)
  case (Suc n)
  then show ?case
    using pop_front_spec [of "(pop_front ^^ n) q"] by (auto simp: drop_Suc tl_drop)
qed simp

lemma fifo:
  assumes "qinv q" "items q = []" "n < length ts"
  shows "front_el ((pop_front ^^ n) (fold push_back ts q)) = Some (ts ! n)"
proof -
  have f: "qinv (fold push_back ts q)" "items (fold push_back ts q) = ts"
    using fill_items [of q ts] assms by auto
  have d: "qinv ((pop_front ^^ n) (fold push_back ts q))"
    "items ((pop_front ^^ n) (fold push_back ts q)) = drop n ts"
    using drain_items [OF f(1), of n] f assms by auto
  then show ?thesis using front_spec [OF d(1)] assms by (simp add: hd_drop_conv_nth)
qed

end

interpretation dq: task_deque dq_inv dq_list deque_new dq_empty dq_push_back dq_push_front
  dq_pop_front dq_front dq_back dq_clear MaybeShrinkQueue dq_iterate
  by unfold_locales
    (auto simp: dq_empty_iff dq_push_back_ok dq_push_front_ok dq_pop_front_ok dq_front_ok dq_back_ok
      dq_clear_inv MaybeShrinkQueue_ok dq_iterate_ok)

lemmas deque_specs = dq.is_empty_spec dq.push_back_spec dq.push_front_spec dq.pop_front_spec
  dq.front_spec dq.back_spec dq.clear_spec dq.shrink_spec dq.iterate_spec dq.new_spec

end
