(* ===== verification/Intrusive_Heap.thy ===== *)
theory Intrusive_Heap
  imports Base_Prelude
begin

text \<open>
  The model of \<open>base/task/common/intrusive_heap.h\<close>: a binary min-heap in a vector that is read
  from index 1, whose elements are told their own position through \<open>SetHeapHandle\<close> and
  \<open>ClearHeapHandle\<close>. An element type comes with its comparison \<open>operator<=\<close> (the argument
  \<open>le\<close>) and with the object that holds its handle (the argument \<open>hid\<close>: for
  \<open>WorkQueueSets::OldestTaskEnqueueOrder\<close> the work queue the entry points to). The handles are a
  store \<open>'i \<Rightarrow> nat\<close> threaded beside the heap; a handle of 0 is the invalid one.
\<close>

section \<open>State\<close>

record 'a intrusive_heap =
  nodes :: "'a list"
  heap_size :: nat

type_synonym ('a, 'i) heap_state = "'a intrusive_heap \<times> ('i \<Rightarrow> nat)"

definition kMinimumHeapSize :: nat where
  "kMinimumHeapSize = 4"

definition HeapHandle_IsValid :: "nat \<Rightarrow> bool" where
  "HeapHandle_IsValid index = (index \<noteq> 0)"

text \<open>\<open>nodes_.resize(n)\<close>: keeps a prefix and value-initialises the rest.\<close>

definition vector_resize :: "'a \<Rightarrow> nat \<Rightarrow> 'a list \<Rightarrow> 'a list" where
  "vector_resize dflt n xs = take n xs @ replicate (n - length xs) dflt"

definition IntrusiveHeap_init :: "'a \<Rightarrow> 'a intrusive_heap" where
  "IntrusiveHeap_init dflt = \<lparr>nodes = replicate kMinimumHeapSize dflt, heap_size = 0\<rparr>"

definition heap_empty :: "'a intrusive_heap \<Rightarrow> bool" where
  "heap_empty h = (heap_size h = 0)"

section \<open>Hole movement\<close>

definition MoveHole :: "('a \<Rightarrow> 'i) \<Rightarrow> nat \<Rightarrow> nat \<Rightarrow> ('a, 'i) heap_state \<Rightarrow> ('a, 'i) heap_state" where
  "MoveHole hid new_hole_pos old_hole_pos s =
     (let (h, hs) = s; x = nodes h ! new_hole_pos
      in (h\<lparr>nodes := (nodes h)[old_hole_pos := x]\<rparr>, hs(hid x := old_hole_pos)))"

definition MakeHole :: "('a \<Rightarrow> 'i) \<Rightarrow> nat \<Rightarrow> ('a, 'i) heap_state \<Rightarrow> ('a, 'i) heap_state" where
  "MakeHole hid index s = (let (h, hs) = s in (h, hs(hid (nodes h ! index) := 0)))"

definition FillHole :: "('a \<Rightarrow> 'i) \<Rightarrow> nat \<Rightarrow> 'a \<Rightarrow> ('a, 'i) heap_state \<Rightarrow> ('a, 'i) heap_state" where
  "FillHole hid hole element s =
     (let (h, hs) = s
      in (h\<lparr>nodes := (nodes h)[hole := element]\<rparr>, hs(hid element := hole)))"

text \<open>The loop \<open>while (hole >= 2u)\<close> with its break, then the fill.\<close>

fun MoveHoleUpAndFillWithElement ::
  "('a \<Rightarrow> 'a \<Rightarrow> bool) \<Rightarrow> ('a \<Rightarrow> 'i) \<Rightarrow> nat \<Rightarrow> 'a \<Rightarrow> ('a, 'i) heap_state \<Rightarrow> ('a, 'i) heap_state"
where
  "MoveHoleUpAndFillWithElement le hid hole element s =
     (if 2 \<le> hole then
        (let parent_pos = hole div 2
         in if le (nodes (fst s) ! parent_pos) element
            then FillHole hid hole element s
            else MoveHoleUpAndFillWithElement le hid parent_pos element
                   (MoveHole hid parent_pos hole s))
      else FillHole hid hole element s)"

declare MoveHoleUpAndFillWithElement.simps [simp del]

text \<open>
  In both downward loops \<open>child_pos\<close> is twice the hole at every loop test, so the hole alone is
  the loop state. A hole of 0 is excluded by \<open>DCHECK_GT(hole, 0u)\<close>; the model then leaves the
  heap alone.
\<close>

definition smaller_child :: "('a \<Rightarrow> 'a \<Rightarrow> bool) \<Rightarrow> 'a list \<Rightarrow> nat \<Rightarrow> nat" where
  "smaller_child le ns child_pos =
     (if le (ns ! (child_pos + 1)) (ns ! child_pos) then child_pos + 1 else child_pos)"

lemma smaller_child_bounds:
  "child_pos \<le> smaller_child le ns child_pos" "smaller_child le ns child_pos \<le> child_pos + 1"
  by (auto simp: smaller_child_def)

lemma MoveHole_size [simp]: "heap_size (fst (MoveHole hid a b s)) = heap_size (fst s)"
  by (simp add: MoveHole_def Let_def split: prod.splits)

function MoveHoleDownAndFillWithElement ::
  "('a \<Rightarrow> 'a \<Rightarrow> bool) \<Rightarrow> ('a \<Rightarrow> 'i) \<Rightarrow> nat \<Rightarrow> 'a \<Rightarrow> ('a, 'i) heap_state \<Rightarrow> ('a, 'i) heap_state"
where
  "MoveHoleDownAndFillWithElement le hid hole element s =
     (if hole = 0 then s
      else if hole * 2 < heap_size (fst s) then
        (let child_pos = smaller_child le (nodes (fst s)) (hole * 2)
         in if le element (nodes (fst s) ! child_pos)
            then FillHole hid hole element s
            else MoveHoleDownAndFillWithElement le hid child_pos element
                   (MoveHole hid child_pos hole s))
      else if hole * 2 = heap_size (fst s) \<and> \<not> le element (nodes (fst s) ! (hole * 2))
      then FillHole hid (hole * 2) element (MoveHole hid (hole * 2) hole s)
      else FillHole hid hole element s)"
  by pat_completeness auto
termination
proof (relation "measure (\<lambda>(le, hid, hole, element, s). Suc (heap_size (fst s)) - hole)",
    goal_cases)
  case 1
  then show ?case by simp
next
  case (2 le hid hole element s child_pos)
  then show ?case
    using smaller_child_bounds [where le = le and ns = "nodes (fst s)" and child_pos = "hole * 2"]
    by auto
qed

declare MoveHoleDownAndFillWithElement.simps [simp del]

function MoveHoleDownAndFillWithLeafElement ::
  "('a \<Rightarrow> 'a \<Rightarrow> bool) \<Rightarrow> ('a \<Rightarrow> 'i) \<Rightarrow> nat \<Rightarrow> 'a \<Rightarrow> ('a, 'i) heap_state \<Rightarrow> ('a, 'i) heap_state"
where
  "MoveHoleDownAndFillWithLeafElement le hid hole leaf_element s =
     (if hole = 0 then s
      else if hole * 2 < heap_size (fst s) then
        (let child_pos = smaller_child le (nodes (fst s)) (hole * 2)
         in MoveHoleDownAndFillWithLeafElement le hid child_pos leaf_element
              (MoveHole hid child_pos hole s))
      else if hole * 2 = heap_size (fst s)
      then MoveHoleUpAndFillWithElement le hid (hole * 2) leaf_element
             (MoveHole hid (hole * 2) hole s)
      else MoveHoleUpAndFillWithElement le hid hole leaf_element s)"
  by pat_completeness auto
termination
proof (relation "measure (\<lambda>(le, hid, hole, element, s). Suc (heap_size (fst s)) - hole)",
    goal_cases)
  case 1
  then show ?case by simp
next
  case (2 le hid hole element s child_pos)
  then show ?case
    using smaller_child_bounds [where le = le and ns = "nodes (fst s)" and child_pos = "hole * 2"]
    by auto
qed

declare MoveHoleDownAndFillWithLeafElement.simps [simp del]

section \<open>Operations\<close>

definition heap_Min :: "'a intrusive_heap \<Rightarrow> 'a" where
  "heap_Min h = nodes h ! 1"

definition heap_at :: "'a intrusive_heap \<Rightarrow> nat \<Rightarrow> 'a" where
  "heap_at h handle = nodes h ! handle"

definition heap_Pop ::
  "('a \<Rightarrow> 'a \<Rightarrow> bool) \<Rightarrow> ('a \<Rightarrow> 'i) \<Rightarrow> ('a, 'i) heap_state \<Rightarrow> ('a, 'i) heap_state" where
  "heap_Pop le hid s =
     (let (h, hs) = MakeHole hid 1 s; top_index = heap_size h;
          h = h\<lparr>heap_size := top_index - 1\<rparr>
      in if heap_empty h then (h, hs)
         else MoveHoleDownAndFillWithLeafElement le hid 1 (nodes h ! top_index) (h, hs))"

definition heap_insert ::
  "'a \<Rightarrow> ('a \<Rightarrow> 'a \<Rightarrow> bool) \<Rightarrow> ('a \<Rightarrow> 'i) \<Rightarrow> 'a \<Rightarrow> ('a, 'i) heap_state \<Rightarrow> ('a, 'i) heap_state" where
  "heap_insert dflt le hid element s =
     (let (h, hs) = s;
          h = h\<lparr>heap_size := heap_size h + 1\<rparr>;
          h = (if length (nodes h) \<le> heap_size h
               then h\<lparr>nodes := vector_resize dflt (length (nodes h) * 2) (nodes h)\<rparr> else h)
      in MoveHoleUpAndFillWithElement le hid (heap_size h) element (h, hs))"

definition heap_erase ::
  "('a \<Rightarrow> 'a \<Rightarrow> bool) \<Rightarrow> ('a \<Rightarrow> 'i) \<Rightarrow> nat \<Rightarrow> ('a, 'i) heap_state \<Rightarrow> ('a, 'i) heap_state" where
  "heap_erase le hid handle s =
     (let (h, hs) = MakeHole hid handle s; top_index = heap_size h;
          h = h\<lparr>heap_size := top_index - 1\<rparr>
      in if heap_empty h \<or> top_index = handle then (h, hs)
         else if le (nodes h ! handle) (nodes h ! top_index)
         then MoveHoleDownAndFillWithLeafElement le hid handle (nodes h ! top_index) (h, hs)
         else MoveHoleUpAndFillWithElement le hid handle (nodes h ! top_index) (h, hs))"

definition heap_ReplaceMin ::
  "('a \<Rightarrow> 'a \<Rightarrow> bool) \<Rightarrow> ('a \<Rightarrow> 'i) \<Rightarrow> 'a \<Rightarrow> ('a, 'i) heap_state \<Rightarrow> ('a, 'i) heap_state" where
  "heap_ReplaceMin le hid element s = MoveHoleDownAndFillWithElement le hid 1 element s"

definition heap_ChangeKey ::
  "('a \<Rightarrow> 'a \<Rightarrow> bool) \<Rightarrow> ('a \<Rightarrow> 'i) \<Rightarrow> nat \<Rightarrow> 'a \<Rightarrow> ('a, 'i) heap_state \<Rightarrow> ('a, 'i) heap_state" where
  "heap_ChangeKey le hid handle element s =
     (if le (nodes (fst s) ! handle) element
      then MoveHoleDownAndFillWithLeafElement le hid handle element s
      else MoveHoleUpAndFillWithElement le hid handle element s)"

text \<open>The loop over \<open>MakeHole\<close> shared by \<open>Clear\<close> and the destructor.\<close>

fun make_holes :: "('a \<Rightarrow> 'i) \<Rightarrow> nat list \<Rightarrow> ('a, 'i) heap_state \<Rightarrow> ('a, 'i) heap_state" where
  "make_holes hid [] s = s"
| "make_holes hid (i # is) s = make_holes hid is (MakeHole hid i s)"

definition heap_Clear :: "'a \<Rightarrow> ('a \<Rightarrow> 'i) \<Rightarrow> ('a, 'i) heap_state \<Rightarrow> ('a, 'i) heap_state" where
  "heap_Clear dflt hid s =
     (let (h, hs) = make_holes hid [1..<heap_size (fst s) + 1] s
      in (h\<lparr>nodes := vector_resize dflt kMinimumHeapSize (nodes h), heap_size := 0\<rparr>, hs))"

section \<open>Invariant\<close>

text \<open>
  The elements in slots \<open>1..size\<close>, the heap order between a slot and its parent, and the agreement
  of every element's handle with its slot. The variants with a hole at \<open>k\<close> leave that slot out.
\<close>

definition slots :: "'a intrusive_heap \<Rightarrow> nat set" where
  "slots h = {1..heap_size h}"

definition heap_elems :: "'a intrusive_heap \<Rightarrow> 'a set" where
  "heap_elems h = (!) (nodes h) ` slots h"

definition elems_but :: "'a intrusive_heap \<Rightarrow> nat \<Rightarrow> 'a set" where
  "elems_but h k = (!) (nodes h) ` (slots h - {k})"

definition heap_ordered :: "('a \<Rightarrow> 'a \<Rightarrow> bool) \<Rightarrow> 'a intrusive_heap \<Rightarrow> bool" where
  "heap_ordered le h \<longleftrightarrow>
     (\<forall>i \<in> slots h. 2 \<le> i \<longrightarrow> le (nodes h ! (i div 2)) (nodes h ! i))"

definition handles_but :: "('a \<Rightarrow> 'i) \<Rightarrow> ('a, 'i) heap_state \<Rightarrow> nat \<Rightarrow> bool" where
  "handles_but hid s k \<longleftrightarrow>
     (\<forall>i \<in> slots (fst s) - {k}. snd s (hid (nodes (fst s) ! i)) = i)"

definition handles_ok :: "('a \<Rightarrow> 'i) \<Rightarrow> ('a, 'i) heap_state \<Rightarrow> bool" where
  "handles_ok hid s \<longleftrightarrow> (\<forall>i \<in> slots (fst s). snd s (hid (nodes (fst s) ! i)) = i)"

definition heap_inv :: "('a \<Rightarrow> 'a \<Rightarrow> bool) \<Rightarrow> ('a \<Rightarrow> 'i) \<Rightarrow> ('a, 'i) heap_state \<Rightarrow> bool" where
  "heap_inv le hid s \<longleftrightarrow>
     heap_size (fst s) < length (nodes (fst s)) \<and> kMinimumHeapSize \<le> length (nodes (fst s)) \<and>
     heap_ordered le (fst s) \<and> handles_ok hid s"

text \<open>The heap order between slots that are not the hole \<open>k\<close>, and across the hole.\<close>

definition hole_ordered :: "('a \<Rightarrow> 'a \<Rightarrow> bool) \<Rightarrow> 'a intrusive_heap \<Rightarrow> nat \<Rightarrow> bool" where
  "hole_ordered le h k \<longleftrightarrow>
     (\<forall>i \<in> slots h. 2 \<le> i \<and> i \<noteq> k \<and> i div 2 \<noteq> k \<longrightarrow> le (nodes h ! (i div 2)) (nodes h ! i)) \<and>
     (\<forall>i \<in> slots h. i div 2 = k \<and> 2 \<le> k \<longrightarrow> le (nodes h ! (k div 2)) (nodes h ! i))"

definition hole_state :: "('a \<Rightarrow> 'a \<Rightarrow> bool) \<Rightarrow> ('a \<Rightarrow> 'i) \<Rightarrow> ('a, 'i) heap_state \<Rightarrow> nat \<Rightarrow> bool" where
  "hole_state le hid s k \<longleftrightarrow>
     k \<in> slots (fst s) \<and> heap_size (fst s) < length (nodes (fst s)) \<and>
     kMinimumHeapSize \<le> length (nodes (fst s)) \<and>
     hole_ordered le (fst s) k \<and> handles_but hid s k"

text \<open>
  What filling a hole with an element achieves: the invariant, the elements, the size, and which
  handles may have changed.
\<close>

definition filled ::
  "('a \<Rightarrow> 'a \<Rightarrow> bool) \<Rightarrow> ('a \<Rightarrow> 'i) \<Rightarrow> nat \<Rightarrow> 'a \<Rightarrow> ('a, 'i) heap_state \<Rightarrow> ('a, 'i) heap_state \<Rightarrow> bool"
where
  "filled le hid k e s t \<longleftrightarrow>
     heap_inv le hid t \<and> heap_elems (fst t) = insert e (elems_but (fst s) k) \<and>
     heap_size (fst t) = heap_size (fst s) \<and>
     (\<forall>x. x \<notin> hid ` insert e (elems_but (fst s) k) \<longrightarrow> snd t x = snd s x)"

section \<open>One step of a hole\<close>

lemma MoveHole_nodes:
  "nodes (fst (MoveHole hid a b s)) = (nodes (fst s))[b := nodes (fst s) ! a]"
  by (simp add: MoveHole_def Let_def split: prod.splits)

lemma MoveHole_handles:
  "snd (MoveHole hid a b s) = (snd s)(hid (nodes (fst s) ! a) := b)"
  by (simp add: MoveHole_def Let_def split: prod.splits)

lemma MoveHole_slots [simp]: "slots (fst (MoveHole hid a b s)) = slots (fst s)"
  by (simp add: slots_def)

lemmas MoveHole_reads = MoveHole_nodes MoveHole_handles

lemma slot_in_range: "hole_state le hid s k \<Longrightarrow> i \<in> slots (fst s) \<Longrightarrow> i < length (nodes (fst s))"
  by (auto simp: hole_state_def slots_def)

lemma MoveHole_elems:
  assumes "hole_state le hid s k" "a \<in> slots (fst s)" "a \<noteq> k"
  shows "elems_but (fst (MoveHole hid a k s)) a = elems_but (fst s) k"
proof -
  have "k \<in> slots (fst s)" using assms by (simp add: hole_state_def)
  then show ?thesis
    using assms slot_in_range [OF assms(1)]
    by (simp add: elems_but_def MoveHole_reads image_nth_update_eq)
qed

lemma MoveHole_handles_but:
  assumes "hole_state le hid s k" "a \<in> slots (fst s)" "a \<noteq> k"
  shows "handles_but hid (MoveHole hid a k s) a"
proof -
  have H: "\<And>i. i \<in> slots (fst s) \<Longrightarrow> i \<noteq> k \<Longrightarrow> snd s (hid (nodes (fst s) ! i)) = i"
    using assms by (auto simp: hole_state_def handles_but_def)
  have len: "k < length (nodes (fst s))"
    using assms slot_in_range [OF assms(1)] by (simp add: hole_state_def)
  show ?thesis
    unfolding handles_but_def MoveHole_reads MoveHole_slots
  proof
    fix i assume i: "i \<in> slots (fst s) - {a}"
    show "((snd s)(hid (nodes (fst s) ! a) := k))
            (hid ((nodes (fst s))[k := nodes (fst s) ! a] ! i)) = i"
    proof (cases "i = k")
      case True
      then show ?thesis using len by simp
    next
      case False
      then have "hid (nodes (fst s) ! i) \<noteq> hid (nodes (fst s) ! a)"
        using H [of i] H [of a] i assms by auto
      then show ?thesis using False i H by simp
    qed
  qed
qed

lemma MoveHole_frame:
  assumes "hole_state le hid s k" "a \<in> slots (fst s)" "a \<noteq> k" "x \<notin> hid ` elems_but (fst s) k"
  shows "snd (MoveHole hid a k s) x = snd s x"
  using assms by (auto simp: MoveHole_reads elems_but_def)

section \<open>Laws of the order\<close>

text \<open>
  What the heap needs of \<open>operator<=\<close>, on the set \<open>S\<close> of elements that may meet in one heap: it is
  total and transitive there. For entries keyed by an enqueue order \<open>S\<close> is everything; the wake-up
  queue of a time domain needs the restriction, because its comparison wraps around.
\<close>

locale heap_order =
  fixes le :: "'a \<Rightarrow> 'a \<Rightarrow> bool" and S :: "'a set" and hid :: "'a \<Rightarrow> 'i"
  assumes le_total: "x \<in> S \<Longrightarrow> y \<in> S \<Longrightarrow> le x y \<or> le y x"
    and le_trans: "x \<in> S \<Longrightarrow> y \<in> S \<Longrightarrow> z \<in> S \<Longrightarrow> le x y \<Longrightarrow> le y z \<Longrightarrow> le x z"
begin

lemma le_refl: "x \<in> S \<Longrightarrow> le x x"
  using le_total by blast

lemma nle_le: "\<not> le x y \<Longrightarrow> x \<in> S \<Longrightarrow> y \<in> S \<Longrightarrow> le y x"
  using le_total by blast

lemma elems_but_S:
  "elems_but h k \<subseteq> S \<Longrightarrow> i \<in> slots h \<Longrightarrow> i \<noteq> k \<Longrightarrow> nodes h ! i \<in> S"
  by (auto simp: elems_but_def)

text \<open>Filling a hole between its parent and its children restores the heap.\<close>

lemma FillHole_filled:
  assumes st: "hole_state le hid s k"
    and fresh: "hid e \<notin> hid ` elems_but (fst s) k"
    and up: "2 \<le> k \<Longrightarrow> le (nodes (fst s) ! (k div 2)) e"
    and down: "\<And>i. i \<in> slots (fst s) \<Longrightarrow> i div 2 = k \<Longrightarrow> le e (nodes (fst s) ! i)"
  shows "filled le hid k e s (FillHole hid k e s)"
proof -
  let ?h = "fst s" and ?hs = "snd s" and ?t = "FillHole hid k e s"
  have t: "fst ?t = ?h\<lparr>nodes := (nodes ?h)[k := e]\<rparr>" "snd ?t = ?hs(hid e := k)"
    by (simp_all add: FillHole_def Let_def split: prod.splits)
  have k: "k \<in> slots ?h" "k < length (nodes ?h)"
    using st slot_in_range [OF st] by (auto simp: hole_state_def)
  have sl: "slots (fst ?t) = slots ?h" by (simp add: t slots_def)
  have N: "nodes (fst ?t) ! i = (if i = k then e else nodes ?h ! i)" for i
    using k by (simp add: t)
  have ord: "heap_ordered le (fst ?t)"
    unfolding heap_ordered_def sl N
  proof (intro ballI impI)
    fix i assume i: "i \<in> slots ?h" "2 \<le> i"
    have "i div 2 \<noteq> i" using i by auto
    moreover have "i \<noteq> k \<Longrightarrow> i div 2 \<noteq> k \<Longrightarrow> le (nodes ?h ! (i div 2)) (nodes ?h ! i)"
      using st i by (auto simp: hole_state_def hole_ordered_def)
    ultimately show "le (if i div 2 = k then e else nodes ?h ! (i div 2))
        (if i = k then e else nodes ?h ! i)"
      using up down i by auto
  qed
  have han: "handles_ok hid ?t"
    unfolding handles_ok_def sl N
  proof
    fix i assume i: "i \<in> slots ?h"
    have "i \<noteq> k \<Longrightarrow> hid (nodes ?h ! i) \<in> hid ` elems_but ?h k"
      using i by (auto simp: elems_but_def)
    then have "i \<noteq> k \<Longrightarrow> ?hs (hid (nodes ?h ! i)) = i \<and> hid (nodes ?h ! i) \<noteq> hid e"
      using st i fresh by (auto simp: hole_state_def handles_but_def)
    then show "snd ?t (hid (if i = k then e else nodes ?h ! i)) = i"
      by (auto simp: t)
  qed
  have "heap_elems (fst ?t) = insert e (elems_but ?h k)"
    unfolding heap_elems_def elems_but_def sl using k by (simp add: t image_nth_fill)
  then show ?thesis
    using st ord han by (simp add: filled_def heap_inv_def hole_state_def t)
qed

lemma filled_MoveHole:
  assumes st: "hole_state le hid s k" and a: "a \<in> slots (fst s)" "a \<noteq> k"
    and f: "filled le hid a e (MoveHole hid a k s) t"
  shows "filled le hid k e s t"
  using f MoveHole_elems [OF st a] MoveHole_frame [OF st a]
  by (auto simp: filled_def)

text \<open>Moving the hole to its parent, and to its smaller child.\<close>

lemma hole_state_up:
  assumes st: "hole_state le hid s k" and k: "2 \<le> k" and S: "elems_but (fst s) k \<subseteq> S"
  shows "hole_state le hid (MoveHole hid (k div 2) k s) (k div 2)"
proof -
  let ?h = "fst s" and ?p = "k div 2"
  have ks: "k \<in> slots ?h" and pk: "?p \<noteq> k" and ps: "?p \<in> slots ?h"
    using st k by (auto simp: hole_state_def slots_def)
  have klen: "k < length (nodes ?h)" using slot_in_range [OF st ks] .
  have A: "\<And>i. i \<in> slots ?h \<Longrightarrow> 2 \<le> i \<Longrightarrow> i \<noteq> k \<Longrightarrow> i div 2 \<noteq> k \<Longrightarrow>
      le (nodes ?h ! (i div 2)) (nodes ?h ! i)"
    and B: "\<And>i. i \<in> slots ?h \<Longrightarrow> i div 2 = k \<Longrightarrow> le (nodes ?h ! ?p) (nodes ?h ! i)"
    using st k by (auto simp: hole_state_def hole_ordered_def)
  let ?t = "MoveHole hid ?p k s"
  have N: "nodes (fst ?t) ! i = (if i = k then nodes ?h ! ?p else nodes ?h ! i)" for i
    using klen by (simp add: MoveHole_reads)
  have inS: "\<And>i. i \<in> slots ?h \<Longrightarrow> i \<noteq> k \<Longrightarrow> nodes ?h ! i \<in> S"
    using elems_but_S [OF S] .
  have "hole_ordered le (fst ?t) ?p"
    unfolding hole_ordered_def N MoveHole_slots
  proof (intro conjI ballI impI)
    fix i assume i: "i \<in> slots ?h" "2 \<le> i \<and> i \<noteq> ?p \<and> i div 2 \<noteq> ?p"
    then have "i \<noteq> k" by auto
    then show "le (if i div 2 = k then nodes ?h ! ?p else nodes ?h ! (i div 2))
        (if i = k then nodes ?h ! ?p else nodes ?h ! i)"
      using A [of i] B [of i] i by auto
  next
    fix i assume i: "i \<in> slots ?h" "i div 2 = ?p \<and> 2 \<le> ?p"
    let ?g = "?p div 2"
    have g: "?g \<in> slots ?h" "?g \<noteq> k" using i ps by (auto simp: slots_def)
    have gp: "le (nodes ?h ! ?g) (nodes ?h ! ?p)"
      using A [of ?p] i ps pk by (auto simp: half_eq_iff)
    have "i \<noteq> k \<Longrightarrow> le (nodes ?h ! ?p) (nodes ?h ! i)"
      using A [of i] i pk by (auto simp: slots_def)
    then have "i \<noteq> k \<Longrightarrow> le (nodes ?h ! ?g) (nodes ?h ! i)"
      using le_trans [OF inS [OF g] inS [OF ps pk] inS [of i] gp] i by blast
    then show "le (if ?g = k then nodes ?h ! ?p else nodes ?h ! ?g)
        (if i = k then nodes ?h ! ?p else nodes ?h ! i)"
      using gp g by auto
  qed
  then show ?thesis
    using st ps MoveHole_handles_but [OF st ps pk]
    by (simp add: hole_state_def MoveHole_reads)
qed

text \<open>The smaller child: in the heap, below the hole, and not above its sibling.\<close>

lemma smaller_child_least:
  assumes st: "hole_state le hid s k" and S: "elems_but (fst s) k \<subseteq> S"
    and c: "k * 2 < heap_size (fst s)"
    and c': "c' = smaller_child le (nodes (fst s)) (k * 2)"
  shows "c' \<in> slots (fst s)" "c' \<noteq> k" "c' div 2 = k"
    "\<And>i. i \<in> slots (fst s) \<Longrightarrow> i div 2 = k \<Longrightarrow> le (nodes (fst s) ! c') (nodes (fst s) ! i)"
proof -
  have k: "1 \<le> k" using st by (simp add: hole_state_def slots_def)
  have b: "c' = k * 2 \<or> c' = k * 2 + 1"
    using c' by (auto simp: smaller_child_def)
  show 1: "c' \<in> slots (fst s)" "c' \<noteq> k" "c' div 2 = k"
    using b c k by (auto simp: slots_def)
  fix i assume i: "i \<in> slots (fst s)" "i div 2 = k"
  have ns: "k * 2 \<in> slots (fst s)" "k * 2 + 1 \<in> slots (fst s)" "k * 2 \<noteq> k" "k * 2 + 1 \<noteq> k"
    using c k by (auto simp: slots_def)
  have inS: "nodes (fst s) ! (k * 2) \<in> S" "nodes (fst s) ! (k * 2 + 1) \<in> S"
    using elems_but_S [OF S] ns by blast+
  have "i = k * 2 \<or> i = k * 2 + 1" using i by (auto simp: half_eq_iff)
  then show "le (nodes (fst s) ! c') (nodes (fst s) ! i)"
    using inS le_refl nle_le by (auto simp: c' smaller_child_def)
qed

lemma hole_state_down:
  assumes st: "hole_state le hid s k" and S: "elems_but (fst s) k \<subseteq> S"
    and c: "c \<in> slots (fst s)" "c \<noteq> k" "c div 2 = k"
    and least: "\<And>i. i \<in> slots (fst s) \<Longrightarrow> i div 2 = k \<Longrightarrow>
        le (nodes (fst s) ! c) (nodes (fst s) ! i)"
  shows "hole_state le hid (MoveHole hid c k s) c"
proof -
  let ?h = "fst s" and ?t = "MoveHole hid c k s"
  have ks: "k \<in> slots ?h" using st by (simp add: hole_state_def)
  have klen: "k < length (nodes ?h)" using slot_in_range [OF st ks] .
  have ck: "k < c" "2 \<le> c" using c ks by (auto simp: slots_def half_eq_iff)
  have A: "\<And>i. i \<in> slots ?h \<Longrightarrow> 2 \<le> i \<Longrightarrow> i \<noteq> k \<Longrightarrow> i div 2 \<noteq> k \<Longrightarrow>
      le (nodes ?h ! (i div 2)) (nodes ?h ! i)"
    and B: "\<And>i. i \<in> slots ?h \<Longrightarrow> i div 2 = k \<Longrightarrow> 2 \<le> k \<Longrightarrow>
      le (nodes ?h ! (k div 2)) (nodes ?h ! i)"
    using st by (auto simp: hole_state_def hole_ordered_def)
  have N: "nodes (fst ?t) ! i = (if i = k then nodes ?h ! c else nodes ?h ! i)" for i
    using klen by (simp add: MoveHole_reads)
  have "hole_ordered le (fst ?t) c"
    unfolding hole_ordered_def N MoveHole_slots
  proof (intro conjI ballI impI)
    fix i assume i: "i \<in> slots ?h" "2 \<le> i \<and> i \<noteq> c \<and> i div 2 \<noteq> c"
    show "le (if i div 2 = k then nodes ?h ! c else nodes ?h ! (i div 2))
        (if i = k then nodes ?h ! c else nodes ?h ! i)"
    proof (cases "i = k")
      case True
      then show ?thesis using B [of c] c i by auto
    next
      case False
      then show ?thesis using A [of i] least [of i] i by auto
    qed
  next
    fix i assume i: "i \<in> slots ?h" "i div 2 = c \<and> 2 \<le> c"
    then have "i \<noteq> k" "i div 2 \<noteq> k" using ck by auto
    then show "le (if c div 2 = k then nodes ?h ! c else nodes ?h ! (c div 2))
        (if i = k then nodes ?h ! c else nodes ?h ! i)"
      using A [of i] i c ck by auto
  qed
  then show ?thesis
    using st c MoveHole_handles_but [OF st c(1,2)]
    by (simp add: hole_state_def MoveHole_reads)
qed

section \<open>The three loops\<close>

lemma MoveHoleUp_filled:
  assumes "hole_state le hid s k" "e \<in> S" "elems_but (fst s) k \<subseteq> S"
    and "hid e \<notin> hid ` elems_but (fst s) k"
    and "\<And>i. i \<in> slots (fst s) \<Longrightarrow> i div 2 = k \<Longrightarrow> le e (nodes (fst s) ! i)"
  shows "filled le hid k e s (MoveHoleUpAndFillWithElement le hid k e s)"
  using assms
proof (induction k arbitrary: s rule: less_induct)
  case (less k)
  note st = less.prems(1) and eS = less.prems(2) and S = less.prems(3)
    and fresh = less.prems(4) and down = less.prems(5)
  let ?p = "k div 2"
  show ?case
  proof (cases "2 \<le> k \<and> \<not> le (nodes (fst s) ! ?p) e")
    case False
    then have "MoveHoleUpAndFillWithElement le hid k e s = FillHole hid k e s"
      by (subst MoveHoleUpAndFillWithElement.simps) auto
    then show ?thesis
      using FillHole_filled [OF st fresh _ down] False by auto
  next
    case True
    let ?t = "MoveHole hid ?p k s"
    have p: "?p \<in> slots (fst s)" "?p \<noteq> k" and ks: "k \<in> slots (fst s)"
      using True st by (auto simp: hole_state_def slots_def)
    have pS: "nodes (fst s) ! ?p \<in> S" using elems_but_S [OF S p] .
    have ep: "le e (nodes (fst s) ! ?p)" using True nle_le pS eS by blast
    have N: "nodes (fst ?t) ! i = (if i = k then nodes (fst s) ! ?p else nodes (fst s) ! i)" for i
      using slot_in_range [OF st ks] by (simp add: MoveHole_reads)
    have "filled le hid ?p e ?t (MoveHoleUpAndFillWithElement le hid ?p e ?t)"
    proof (rule less.IH)
      show "?p < k" using True by auto
      show "hole_state le hid ?t ?p" using hole_state_up [OF st] True S by blast
      show "e \<in> S" by (rule eS)
      show "elems_but (fst ?t) ?p \<subseteq> S" "hid e \<notin> hid ` elems_but (fst ?t) ?p"
        using S fresh MoveHole_elems [OF st p] by simp_all
      fix i assume i: "i \<in> slots (fst ?t)" "i div 2 = ?p"
      show "le e (nodes (fst ?t) ! i)"
      proof (cases "i = k")
        case True
        then show ?thesis using ep N by simp
      next
        case False
        have "1 \<le> i div 2" using i \<open>2 \<le> k \<and> _\<close> half_pos [of k] by simp
        then have i2: "2 \<le> i" by linarith
        have "le (nodes (fst s) ! ?p) (nodes (fst s) ! i)"
          using st i i2 False p by (auto simp: hole_state_def hole_ordered_def)
        then have "le e (nodes (fst s) ! i)"
          using le_trans [OF eS pS _ ep] elems_but_S [OF S _ False] i by auto
        then show ?thesis using False N by simp
      qed
    qed
    moreover have "MoveHoleUpAndFillWithElement le hid k e s =
        MoveHoleUpAndFillWithElement le hid ?p e ?t"
      using True by (subst MoveHoleUpAndFillWithElement.simps) (auto simp: Let_def)
    ultimately show ?thesis using filled_MoveHole [OF st p] by simp
  qed
qed

lemma no_child_in_slots:
  "heap_size h < k * 2 \<Longrightarrow> i \<in> slots h \<Longrightarrow> i div 2 \<noteq> k"
  by (auto simp: slots_def half_eq_iff)

lemma only_child_in_slots:
  assumes "k * 2 = heap_size h" "i \<in> slots h" "i div 2 = k"
  shows "i = k * 2"
  using assms by (auto simp: slots_def half_eq_iff)

lemma MoveHoleDownLeaf_filled:
  assumes "hole_state le hid s k" "e \<in> S" "elems_but (fst s) k \<subseteq> S"
    and "hid e \<notin> hid ` elems_but (fst s) k"
  shows "filled le hid k e s (MoveHoleDownAndFillWithLeafElement le hid k e s)"
  using assms
proof (induction "heap_size (fst s) - k" arbitrary: s k rule: less_induct)
  case (less s k)
  note st = less.prems(1) and eS = less.prems(2) and S = less.prems(3) and fresh = less.prems(4)
  let ?D = "MoveHoleDownAndFillWithLeafElement le hid"
  have k: "1 \<le> k" "k \<le> heap_size (fst s)" using st by (auto simp: hole_state_def slots_def)
  consider (two) "k * 2 < heap_size (fst s)" | (one) "k * 2 = heap_size (fst s)"
    | (none) "heap_size (fst s) < k * 2" by linarith
  then show ?case
  proof cases
    case two
    let ?c = "smaller_child le (nodes (fst s)) (k * 2)"
    note c = smaller_child_least [OF st S two refl]
    have m: "filled le hid ?c e (MoveHole hid ?c k s) (?D ?c e (MoveHole hid ?c k s))"
    proof (rule less.hyps)
      show "heap_size (fst (MoveHole hid ?c k s)) - ?c < heap_size (fst s) - k"
        using c(1,3) k two smaller_child_bounds(1) [of "k * 2" le "nodes (fst s)"]
        by (auto simp: slots_def)
    qed (use hole_state_down [OF st S c] eS S fresh MoveHole_elems [OF st c(1,2)] in simp_all)
    have "?D k e s = ?D ?c e (MoveHole hid ?c k s)"
      using two k by (subst MoveHoleDownAndFillWithLeafElement.simps) (simp add: Let_def)
    then show ?thesis using filled_MoveHole [OF st c(1,2) m] by simp
  next
    case one
    let ?c = "k * 2"
    have c: "?c \<in> slots (fst s)" "?c \<noteq> k" "?c div 2 = k" using one k by (auto simp: slots_def)
    have "nodes (fst s) ! ?c \<in> S" using elems_but_S [OF S c(1,2)] .
    then have least: "\<And>i. i \<in> slots (fst s) \<Longrightarrow> i div 2 = k \<Longrightarrow>
        le (nodes (fst s) ! ?c) (nodes (fst s) ! i)"
      using only_child_in_slots [OF one] le_refl by auto
    let ?t = "MoveHole hid ?c k s"
    have "\<And>i. i \<in> slots (fst ?t) \<Longrightarrow> i div 2 \<noteq> ?c"
      using no_child_in_slots [of "fst ?t" ?c] one k by auto
    then have "filled le hid ?c e ?t (MoveHoleUpAndFillWithElement le hid ?c e ?t)"
      using MoveHoleUp_filled [OF hole_state_down [OF st S c least] eS] S fresh
        MoveHole_elems [OF st c(1,2)] by auto
    moreover have "?D k e s = MoveHoleUpAndFillWithElement le hid ?c e ?t"
      using one k by (subst MoveHoleDownAndFillWithLeafElement.simps) simp
    ultimately show ?thesis using filled_MoveHole [OF st c(1,2)] by simp
  next
    case none
    then have "?D k e s = MoveHoleUpAndFillWithElement le hid k e s"
      using k by (subst MoveHoleDownAndFillWithLeafElement.simps) simp
    then show ?thesis
      using MoveHoleUp_filled [OF st eS S fresh] no_child_in_slots [OF none] by auto
  qed
qed

lemma MoveHoleDown_filled:
  assumes "hole_state le hid s k" "e \<in> S" "elems_but (fst s) k \<subseteq> S"
    and "hid e \<notin> hid ` elems_but (fst s) k"
    and "2 \<le> k \<Longrightarrow> le (nodes (fst s) ! (k div 2)) e"
  shows "filled le hid k e s (MoveHoleDownAndFillWithElement le hid k e s)"
  using assms
proof (induction "heap_size (fst s) - k" arbitrary: s k rule: less_induct)
  case (less s k)
  note st = less.prems(1) and eS = less.prems(2) and S = less.prems(3) and fresh = less.prems(4)
    and up = less.prems(5)
  let ?D = "MoveHoleDownAndFillWithElement le hid"
  have k: "1 \<le> k" "k \<le> heap_size (fst s)" using st by (auto simp: hole_state_def slots_def)
  have klen: "k < length (nodes (fst s))" using st k by (auto simp: hole_state_def)
  consider (two) "k * 2 < heap_size (fst s)" | (one) "k * 2 = heap_size (fst s)"
    | (none) "heap_size (fst s) < k * 2" by linarith
  then show ?case
  proof cases
    case two
    let ?c = "smaller_child le (nodes (fst s)) (k * 2)"
    note c = smaller_child_least [OF st S two refl]
    have cS: "nodes (fst s) ! ?c \<in> S" using elems_but_S [OF S c(1,2)] .
    show ?thesis
    proof (cases "le e (nodes (fst s) ! ?c)")
      case True
      then have "?D k e s = FillHole hid k e s"
        using two k by (subst MoveHoleDownAndFillWithElement.simps) (simp add: Let_def)
      moreover have "\<And>i. i \<in> slots (fst s) \<Longrightarrow> i div 2 = k \<Longrightarrow> le e (nodes (fst s) ! i)"
        using c(4) le_trans [OF eS cS _ True] elems_but_S [OF S] k by auto
      ultimately show ?thesis using FillHole_filled [OF st fresh up] by simp
    next
      case False
      then have ce: "le (nodes (fst s) ! ?c) e" using nle_le eS cS by blast
      have "filled le hid ?c e (MoveHole hid ?c k s) (?D ?c e (MoveHole hid ?c k s))"
      proof (rule less.hyps)
        show "heap_size (fst (MoveHole hid ?c k s)) - ?c < heap_size (fst s) - k"
          using c(1,3) k two smaller_child_bounds(1) [of "k * 2" le "nodes (fst s)"]
          by (auto simp: slots_def)
        show "le (nodes (fst (MoveHole hid ?c k s)) ! (?c div 2)) e"
          using ce c(3) klen by (simp add: MoveHole_reads)
      qed (use hole_state_down [OF st S c] eS S fresh MoveHole_elems [OF st c(1,2)] in simp_all)
      moreover have "?D k e s = ?D ?c e (MoveHole hid ?c k s)"
        using two k False by (subst MoveHoleDownAndFillWithElement.simps) (simp add: Let_def)
      ultimately show ?thesis using filled_MoveHole [OF st c(1,2)] by simp
    qed
  next
    case one
    let ?c = "k * 2" and ?t = "MoveHole hid (k * 2) k s"
    have c: "?c \<in> slots (fst s)" "?c \<noteq> k" "?c div 2 = k" using one k by (auto simp: slots_def)
    have cS: "nodes (fst s) ! ?c \<in> S" using elems_but_S [OF S c(1,2)] .
    show ?thesis
    proof (cases "le e (nodes (fst s) ! ?c)")
      case True
      then have "?D k e s = FillHole hid k e s"
        using one k by (subst MoveHoleDownAndFillWithElement.simps) simp
      moreover have "\<And>i. i \<in> slots (fst s) \<Longrightarrow> i div 2 = k \<Longrightarrow> le e (nodes (fst s) ! i)"
        using only_child_in_slots [OF one] True by metis
      ultimately show ?thesis using FillHole_filled [OF st fresh up] by simp
    next
      case False
      then have ce: "le (nodes (fst s) ! ?c) e" using nle_le eS cS by blast
      have least: "\<And>i. i \<in> slots (fst s) \<Longrightarrow> i div 2 = k \<Longrightarrow>
          le (nodes (fst s) ! ?c) (nodes (fst s) ! i)"
        using only_child_in_slots [OF one] le_refl cS by auto
      have "\<And>i. i \<in> slots (fst ?t) \<Longrightarrow> i div 2 \<noteq> ?c"
        using no_child_in_slots [of "fst ?t" ?c] one k by auto
      then have "filled le hid ?c e ?t (FillHole hid ?c e ?t)"
        using FillHole_filled [OF hole_state_down [OF st S c least]] fresh ce klen
          MoveHole_elems [OF st c(1,2)] by (auto simp: MoveHole_reads)
      moreover have "?D k e s = FillHole hid ?c e ?t"
        using one k False by (subst MoveHoleDownAndFillWithElement.simps) simp
      ultimately show ?thesis using filled_MoveHole [OF st c(1,2)] by simp
    qed
  next
    case none
    then have "?D k e s = FillHole hid k e s"
      using k by (subst MoveHoleDownAndFillWithElement.simps) simp
    then show ?thesis
      using FillHole_filled [OF st fresh up] no_child_in_slots [OF none] by auto
  qed
qed

section \<open>The operations\<close>

lemma heap_inv_hole:
  assumes inv: "heap_inv le hid s" and S: "heap_elems (fst s) \<subseteq> S" and k: "k \<in> slots (fst s)"
  shows "hole_state le hid s k"
proof -
  let ?n = "\<lambda>i. nodes (fst s) ! i"
  have ord: "\<And>i. i \<in> slots (fst s) \<Longrightarrow> 2 \<le> i \<Longrightarrow> le (?n (i div 2)) (?n i)"
    using inv by (auto simp: heap_inv_def heap_ordered_def)
  have inS: "\<And>i. i \<in> slots (fst s) \<Longrightarrow> ?n i \<in> S" using S by (auto simp: heap_elems_def)
  have "le (?n (k div 2)) (?n i)" if i: "i \<in> slots (fst s)" "i div 2 = k" "2 \<le> k" for i
  proof (rule le_trans)
    show "le (?n (k div 2)) (?n k)" "le (?n k) (?n i)"
      using ord [of k] ord [of i] i k by auto
    show "?n (k div 2) \<in> S" using k i by (intro inS) (auto simp: slots_def)
  qed (use inS i k in auto)
  then show ?thesis
    using inv k ord by (auto simp: hole_state_def heap_inv_def hole_ordered_def handles_but_def
        handles_ok_def)
qed

lemma handles_inj: "handles_ok hid s \<Longrightarrow> inj_on hid (heap_elems (fst s))"
  by (auto simp: handles_ok_def heap_elems_def inj_on_def) metis

lemma handle_eq_slot:
  "handles_ok hid s \<Longrightarrow> i \<in> slots (fst s) \<Longrightarrow> j \<in> slots (fst s) \<Longrightarrow>
   hid (nodes (fst s) ! i) = hid (nodes (fst s) ! j) \<Longrightarrow> i = j"
  by (auto simp: handles_ok_def) metis

lemma elems_but_eq:
  assumes "handles_ok hid s" "k \<in> slots (fst s)"
  shows "elems_but (fst s) k = heap_elems (fst s) - {nodes (fst s) ! k}"
  using handle_eq_slot [OF assms(1)] assms(2)
  by (auto simp: elems_but_def heap_elems_def)

lemma heap_inv_handles: "heap_inv le hid s \<Longrightarrow> handles_ok hid s"
  by (simp add: heap_inv_def)

text \<open>The two ways of refilling a hole, chosen by comparing with its old content.\<close>

lemma refill_filled:
  assumes st: "hole_state le hid s k" and S: "elems_but (fst s) k \<subseteq> S"
    and eS: "e \<in> S" and nS: "nodes (fst s) ! k \<in> S"
    and fresh: "hid e \<notin> hid ` elems_but (fst s) k"
    and below: "\<And>i. i \<in> slots (fst s) \<Longrightarrow> i div 2 = k \<Longrightarrow>
        le (nodes (fst s) ! k) (nodes (fst s) ! i)"
  shows "filled le hid k e s
     (if le (nodes (fst s) ! k) e then MoveHoleDownAndFillWithLeafElement le hid k e s
      else MoveHoleUpAndFillWithElement le hid k e s)"
proof (cases "le (nodes (fst s) ! k) e")
  case True
  then show ?thesis using MoveHoleDownLeaf_filled [OF st eS S fresh] by simp
next
  case False
  then have ek: "le e (nodes (fst s) ! k)" using nle_le nS eS by blast
  have "le e (nodes (fst s) ! i)" if i: "i \<in> slots (fst s)" "i div 2 = k" for i
  proof (rule le_trans [OF eS nS _ ek below [OF i]])
    have "i \<noteq> k" using i by (auto simp: slots_def)
    then show "nodes (fst s) ! i \<in> S" using elems_but_S [OF S] i by blast
  qed
  then show ?thesis using MoveHoleUp_filled [OF st eS S fresh] False by simp
qed

lemma heap_below:
  "heap_inv le hid s \<Longrightarrow> i \<in> slots (fst s) \<Longrightarrow> i div 2 = k \<Longrightarrow> 1 \<le> k \<Longrightarrow>
   le (nodes (fst s) ! k) (nodes (fst s) ! i)"
  unfolding heap_inv_def heap_ordered_def by (auto simp: half_eq_iff)

lemma heap_ChangeKey_filled:
  assumes inv: "heap_inv le hid s" and S: "heap_elems (fst s) \<subseteq> S" and eS: "e \<in> S"
    and k: "k \<in> slots (fst s)" and same: "hid e = hid (nodes (fst s) ! k)"
  shows "filled le hid k e s (heap_ChangeKey le hid k e s)"
proof -
  note han = heap_inv_handles [OF inv]
  have "hid e \<notin> hid ` elems_but (fst s) k"
    using handle_eq_slot [OF han _ k] same by (auto simp: elems_but_def)
  moreover have "elems_but (fst s) k \<subseteq> S" "nodes (fst s) ! k \<in> S"
    using S k by (auto simp: elems_but_def heap_elems_def)
  ultimately show ?thesis
    unfolding heap_ChangeKey_def
    using refill_filled [OF heap_inv_hole [OF inv S k]] heap_below [OF inv] eS k
    by (auto simp: slots_def)
qed

lemma heap_ReplaceMin_filled:
  assumes inv: "heap_inv le hid s" and S: "heap_elems (fst s) \<subseteq> S" and eS: "e \<in> S"
    and ne: "\<not> heap_empty (fst s)" and same: "hid e = hid (heap_Min (fst s))"
  shows "filled le hid 1 e s (heap_ReplaceMin le hid e s)"
proof -
  note han = heap_inv_handles [OF inv]
  have k: "1 \<in> slots (fst s)" using ne by (simp add: slots_def heap_empty_def)
  have "hid e \<notin> hid ` elems_but (fst s) 1"
    using handle_eq_slot [OF han _ k] same by (auto simp: elems_but_def heap_Min_def)
  moreover have "elems_but (fst s) 1 \<subseteq> S"
    using S by (auto simp: elems_but_def heap_elems_def)
  ultimately show ?thesis
    unfolding heap_ReplaceMin_def
    using MoveHoleDown_filled [OF heap_inv_hole [OF inv S k] eS] by simp
qed

text \<open>Growing the heap by one slot leaves a hole at the end.\<close>

lemma heap_insert_filled:
  assumes inv: "heap_inv le hid s" and S: "heap_elems (fst s) \<subseteq> S" and eS: "e \<in> S"
    and fresh: "hid e \<notin> hid ` heap_elems (fst s)"
  shows "heap_inv le hid (heap_insert dflt le hid e s)"
    "heap_elems (fst (heap_insert dflt le hid e s)) = insert e (heap_elems (fst s))"
    "heap_size (fst (heap_insert dflt le hid e s)) = heap_size (fst s) + 1"
    "\<And>x. x \<notin> hid ` insert e (heap_elems (fst s)) \<Longrightarrow>
       snd (heap_insert dflt le hid e s) x = snd s x"
proof -
  obtain h hs where s: "s = (h, hs)" by (cases s)
  let ?n = "heap_size h + 1"
  define ns where "ns = (if length (nodes h) \<le> ?n
    then vector_resize dflt (length (nodes h) * 2) (nodes h) else nodes h)"
  let ?g = "h\<lparr>heap_size := ?n, nodes := ns\<rparr>"
  have len: "heap_size h < length (nodes h)" "kMinimumHeapSize \<le> length (nodes h)"
    using inv by (auto simp: heap_inv_def s)
  have n: "?n < length ns" "kMinimumHeapSize \<le> length ns"
    using len by (auto simp: ns_def vector_resize_def kMinimumHeapSize_def)
  have keep: "\<And>i. i \<le> heap_size h \<Longrightarrow> ns ! i = nodes h ! i"
    using len by (auto simp: ns_def vector_resize_def nth_append)
  have sl: "slots ?g - {?n} = slots h" "?n \<in> slots ?g" by (auto simp: slots_def)
  have el: "elems_but ?g ?n = heap_elems h"
    unfolding elems_but_def sl heap_elems_def
    by (rule image_cong) (auto simp: slots_def keep)
  have gone: "\<And>i. i \<in> slots ?g \<Longrightarrow> i div 2 \<noteq> ?n" by (auto simp: slots_def)
  have st: "hole_state le hid (?g, hs) ?n"
  proof -
    have "hole_ordered le ?g ?n"
      using inv gone sl by (auto simp: hole_ordered_def heap_inv_def heap_ordered_def s keep slots_def)
    moreover have "handles_but hid (?g, hs) ?n"
      using inv sl keep by (auto simp: handles_but_def heap_inv_def handles_ok_def s slots_def)
    ultimately show ?thesis using n sl by (simp add: hole_state_def)
  qed
  have eq: "heap_insert dflt le hid e s = MoveHoleUpAndFillWithElement le hid ?n e (?g, hs)"
    by (cases h) (simp add: heap_insert_def s ns_def)
  have "filled le hid ?n e (?g, hs) (heap_insert dflt le hid e s)"
    unfolding eq using MoveHoleUp_filled [OF st eS] S fresh el gone s by simp
  then show "heap_inv le hid (heap_insert dflt le hid e s)"
    "heap_elems (fst (heap_insert dflt le hid e s)) = insert e (heap_elems (fst s))"
    "heap_size (fst (heap_insert dflt le hid e s)) = heap_size (fst s) + 1"
    "\<And>x. x \<notin> hid ` insert e (heap_elems (fst s)) \<Longrightarrow>
       snd (heap_insert dflt le hid e s) x = snd s x"
    using el s by (auto simp: filled_def)
qed

text \<open>
  Taking the last slot away leaves a hole at the erased slot, to be refilled with the content of the
  last one.
\<close>

lemma shrink_hole:
  assumes inv: "heap_inv le hid s" and S: "heap_elems (fst s) \<subseteq> S"
    and k: "k \<in> slots (fst s)" "k \<noteq> heap_size (fst s)"
  defines "t \<equiv> ((fst s)\<lparr>heap_size := heap_size (fst s) - 1\<rparr>,
      (snd s)(hid (nodes (fst s) ! k) := 0))"
  shows "hole_state le hid t k"
    "elems_but (fst t) k = heap_elems (fst s) - {nodes (fst s) ! k, nodes (fst s) ! heap_size (fst s)}"
    "hid (nodes (fst s) ! heap_size (fst s)) \<notin> hid ` elems_but (fst t) k"
    "\<And>i. i \<in> slots (fst t) \<Longrightarrow> i div 2 = k \<Longrightarrow> le (nodes (fst t) ! k) (nodes (fst t) ! i)"
proof -
  let ?z = "heap_size (fst s)"
  have z: "?z \<in> slots (fst s)" using k by (auto simp: slots_def)
  have sl: "slots (fst t) = slots (fst s) - {?z}" using z by (auto simp: slots_def t_def)
  have nd: "nodes (fst t) = nodes (fst s)" by (simp add: t_def)
  note han = heap_inv_handles [OF inv] and st = heap_inv_hole [OF inv S k(1)]
  have eb: "elems_but (fst t) k = (!) (nodes (fst s)) ` (slots (fst s) - {k, ?z})"
    by (simp add: elems_but_def sl nd Diff_insert [symmetric] insert_commute)
  show "elems_but (fst t) k = heap_elems (fst s) - {nodes (fst s) ! k, nodes (fst s) ! ?z}"
    unfolding eb heap_elems_def using handle_eq_slot [OF han] k z by auto
  show "hid (nodes (fst s) ! ?z) \<notin> hid ` elems_but (fst t) k"
    unfolding eb using handle_eq_slot [OF han] z by auto
  show "le (nodes (fst t) ! k) (nodes (fst t) ! i)" if "i \<in> slots (fst t)" "i div 2 = k" for i
  proof -
    have "i \<in> slots (fst s)" using that(1) unfolding sl by blast
    moreover have "1 \<le> k" using k by (simp add: slots_def)
    ultimately show ?thesis using heap_below [OF inv] that(2) by (simp add: nd)
  qed
  have "handles_but hid t k"
    using han handle_eq_slot [OF han _ k(1)] k
    by (auto simp: handles_but_def sl handles_ok_def t_def slots_def)
  moreover have "hole_ordered le (fst t) k"
    using st by (auto simp: hole_state_def hole_ordered_def sl nd)
  moreover have "k \<in> slots (fst t)" using k by (simp add: sl)
  moreover have "heap_size (fst t) < length (nodes (fst t))" "kMinimumHeapSize \<le> length (nodes (fst t))"
    using st by (auto simp: hole_state_def t_def)
  ultimately show "hole_state le hid t k"
    by (simp add: hole_state_def)
qed

text \<open>The common result of \<open>Pop\<close> and \<open>erase\<close>: the element of slot \<open>k\<close> is gone and its handle
  is cleared.\<close>

definition removed :: "('a, 'i) heap_state \<Rightarrow> nat \<Rightarrow> ('a, 'i) heap_state \<Rightarrow> bool" where
  "removed s k t \<longleftrightarrow>
     heap_inv le hid t \<and> heap_elems (fst t) = heap_elems (fst s) - {nodes (fst s) ! k} \<and>
     heap_size (fst t) = heap_size (fst s) - 1 \<and> snd t (hid (nodes (fst s) ! k)) = 0 \<and>
     (\<forall>x. x \<notin> hid ` heap_elems (fst s) \<longrightarrow> snd t x = snd s x)"

lemma filled_removed:
  assumes inv: "heap_inv le hid s" and S: "heap_elems (fst s) \<subseteq> S"
    and k: "k \<in> slots (fst s)" "k \<noteq> heap_size (fst s)"
    and f: "filled le hid k (nodes (fst s) ! heap_size (fst s))
      ((fst s)\<lparr>heap_size := heap_size (fst s) - 1\<rparr>, (snd s)(hid (nodes (fst s) ! k) := 0)) t"
  shows "removed s k t"
proof -
  let ?z = "nodes (fst s) ! heap_size (fst s)" and ?k = "nodes (fst s) ! k"
  note han = heap_inv_handles [OF inv]
  have z: "heap_size (fst s) \<in> slots (fst s)" using k by (auto simp: slots_def)
  have ne: "?z \<noteq> ?k" using handle_eq_slot [OF han z k(1)] k by auto
  have "insert ?z (heap_elems (fst s) - {?k, ?z}) = heap_elems (fst s) - {?k}"
    using z ne by (auto simp: heap_elems_def)
  then have eb: "insert ?z (elems_but ((fst s)\<lparr>heap_size := heap_size (fst s) - 1\<rparr>) k) =
      heap_elems (fst s) - {?k}"
    using shrink_hole(2) [OF inv S k] by simp
  have el: "heap_elems (fst t) = heap_elems (fst s) - {?k}"
    and fr: "\<And>x. x \<notin> hid ` (heap_elems (fst s) - {?k}) \<Longrightarrow>
      snd t x = ((snd s)(hid ?k := 0)) x"
    using f unfolding filled_def fst_conv snd_conv eb by blast+
  have kin: "?k \<in> heap_elems (fst s)" using k by (auto simp: heap_elems_def)
  have "hid ?k \<notin> hid ` (heap_elems (fst s) - {?k})"
    using inj_onD [OF handles_inj [OF han] _ kin] by auto
  then have z: "snd t (hid ?k) = 0" using fr by simp
  have "snd t x = snd s x" if x: "x \<notin> hid ` heap_elems (fst s)" for x
  proof -
    have "x \<notin> hid ` (heap_elems (fst s) - {?k})" "x \<noteq> hid ?k" using x kin by blast+
    then show ?thesis using fr by simp
  qed
  then show ?thesis using f el z by (auto simp: removed_def filled_def)
qed

lemma heap_erase_removed:
  assumes inv: "heap_inv le hid s" and S: "heap_elems (fst s) \<subseteq> S" and k: "k \<in> slots (fst s)"
  shows "removed s k (heap_erase le hid k s)"
proof (cases "k = heap_size (fst s)")
  case True
  let ?t = "((fst s)\<lparr>heap_size := heap_size (fst s) - 1\<rparr>, (snd s)(hid (nodes (fst s) ! k) := 0))"
  note han = heap_inv_handles [OF inv]
  have eq: "heap_erase le hid k s = ?t"
    by (cases s) (simp add: heap_erase_def MakeHole_def True)
  have sl: "slots (fst ?t) = slots (fst s) - {k}" using k True by (auto simp: slots_def)
  have "heap_elems (fst ?t) = heap_elems (fst s) - {nodes (fst s) ! k}"
    using elems_but_eq [OF han k] sl by (simp add: heap_elems_def elems_but_def)
  moreover have "handles_ok hid ?t"
    unfolding handles_ok_def sl using han handle_eq_slot [OF han _ k] by (auto simp: handles_ok_def)
  moreover have "heap_ordered le (fst ?t)"
    unfolding heap_ordered_def sl using inv by (auto simp: heap_inv_def heap_ordered_def)
  moreover have "\<forall>x. x \<notin> hid ` heap_elems (fst s) \<longrightarrow> snd ?t x = snd s x"
    using k by (auto simp: heap_elems_def)
  ultimately show ?thesis
    unfolding eq removed_def heap_inv_def using inv by (simp add: heap_inv_def less_imp_diff_less)
next
  case False
  let ?t = "((fst s)\<lparr>heap_size := heap_size (fst s) - 1\<rparr>, (snd s)(hid (nodes (fst s) ! k) := 0))"
  let ?z = "nodes (fst s) ! heap_size (fst s)"
  have "1 < heap_size (fst s)" using k False by (auto simp: slots_def)
  then have eq: "heap_erase le hid k s =
      (if le (nodes (fst ?t) ! k) ?z then MoveHoleDownAndFillWithLeafElement le hid k ?z ?t
       else MoveHoleUpAndFillWithElement le hid k ?z ?t)"
    using False by (cases s) (simp add: heap_erase_def MakeHole_def heap_empty_def Let_def)
  note sh = shrink_hole [OF inv S k False]
  have "?z \<in> S" "nodes (fst ?t) ! k \<in> S" "elems_but (fst ?t) k \<subseteq> S"
    using S k sh(2) by (auto simp: heap_elems_def slots_def)
  then have "filled le hid k ?z ?t (heap_erase le hid k s)"
    unfolding eq by (intro refill_filled sh)
  then show ?thesis by (rule filled_removed [OF inv S k False])
qed

lemma heap_Pop_removed:
  assumes inv: "heap_inv le hid s" and S: "heap_elems (fst s) \<subseteq> S" and ne: "\<not> heap_empty (fst s)"
  shows "removed s 1 (heap_Pop le hid s)"
proof (cases "heap_size (fst s) = 1")
  case True
  then have "heap_Pop le hid s = heap_erase le hid 1 s"
    by (cases s) (simp add: heap_Pop_def heap_erase_def MakeHole_def heap_empty_def)
  then show ?thesis
    using heap_erase_removed [OF inv S] ne by (simp add: slots_def heap_empty_def)
next
  case False
  let ?t = "((fst s)\<lparr>heap_size := heap_size (fst s) - 1\<rparr>, (snd s)(hid (nodes (fst s) ! 1) := 0))"
  let ?z = "nodes (fst s) ! heap_size (fst s)"
  have k: "1 \<in> slots (fst s)" "1 \<noteq> heap_size (fst s)" and gt: "1 < heap_size (fst s)"
    using ne False by (auto simp: slots_def heap_empty_def)
  have eq: "heap_Pop le hid s = MoveHoleDownAndFillWithLeafElement le hid 1 ?z ?t"
    using gt by (cases s) (simp add: heap_Pop_def MakeHole_def heap_empty_def Let_def)
  note sh = shrink_hole [OF inv S k]
  have "?z \<in> S" "elems_but (fst ?t) 1 \<subseteq> S"
    using S k sh(2) by (auto simp: heap_elems_def slots_def)
  then have "filled le hid 1 ?z ?t (heap_Pop le hid s)"
    unfolding eq by (intro MoveHoleDownLeaf_filled sh)
  then show ?thesis by (rule filled_removed [OF inv S k])
qed

text \<open>The minimum.\<close>

lemma heap_Min_least:
  assumes inv: "heap_inv le hid s" and S: "heap_elems (fst s) \<subseteq> S" and x: "x \<in> heap_elems (fst s)"
  shows "le (heap_Min (fst s)) x"
proof -
  have inS: "\<And>i. i \<in> slots (fst s) \<Longrightarrow> nodes (fst s) ! i \<in> S" using S by (auto simp: heap_elems_def)
  have "le (nodes (fst s) ! 1) (nodes (fst s) ! i)" if "i \<in> slots (fst s)" for i
    using that
  proof (induction i rule: less_induct)
    case (less i)
    show ?case
    proof (cases "i = 1")
      case True
      then show ?thesis using le_refl inS less.prems by simp
    next
      case False
      then have i: "2 \<le> i" "i div 2 \<in> slots (fst s)" "1 \<in> slots (fst s)"
        using less.prems by (auto simp: slots_def)
      have "le (nodes (fst s) ! 1) (nodes (fst s) ! (i div 2))" using less.IH i by simp
      moreover have "le (nodes (fst s) ! (i div 2)) (nodes (fst s) ! i)"
        using heap_below [OF inv less.prems refl] i by auto
      ultimately show ?thesis using le_trans inS i less.prems by blast
    qed
  qed
  then show ?thesis using x by (auto simp: heap_elems_def heap_Min_def)
qed

end

section \<open>The contract its clients use\<close>

text \<open>
  A priority queue of entries, each known to its owner \<open>hid e\<close> by a handle that the queue itself
  keeps up to date. \<open>ok\<close> is the set of entries that may be put into one queue.
\<close>

locale indexed_priority_queue =
  fixes qinv :: "'q \<times> ('i \<Rightarrow> nat) \<Rightarrow> bool"
    and elems :: "'q \<Rightarrow> 'a set"
    and ok :: "'a set"
    and le :: "'a \<Rightarrow> 'a \<Rightarrow> bool"
    and hid :: "'a \<Rightarrow> 'i"
    and is_empty :: "'q \<Rightarrow> bool"
    and minimum :: "'q \<Rightarrow> 'a"
    and insert_op :: "'a \<Rightarrow> 'q \<times> ('i \<Rightarrow> nat) \<Rightarrow> 'q \<times> ('i \<Rightarrow> nat)"
    and erase_op :: "nat \<Rightarrow> 'q \<times> ('i \<Rightarrow> nat) \<Rightarrow> 'q \<times> ('i \<Rightarrow> nat)"
    and change_op :: "nat \<Rightarrow> 'a \<Rightarrow> 'q \<times> ('i \<Rightarrow> nat) \<Rightarrow> 'q \<times> ('i \<Rightarrow> nat)"
    and replace_min_op :: "'a \<Rightarrow> 'q \<times> ('i \<Rightarrow> nat) \<Rightarrow> 'q \<times> ('i \<Rightarrow> nat)"
    and pop_op :: "'q \<times> ('i \<Rightarrow> nat) \<Rightarrow> 'q \<times> ('i \<Rightarrow> nat)"
  assumes empty_iff: "qinv s \<Longrightarrow> is_empty (fst s) \<longleftrightarrow> elems (fst s) = {}"
    and min_in: "qinv s \<Longrightarrow> elems (fst s) \<noteq> {} \<Longrightarrow> minimum (fst s) \<in> elems (fst s)"
    and min_least: "qinv s \<Longrightarrow> e \<in> elems (fst s) \<Longrightarrow> le (minimum (fst s)) e"
    and handle_valid: "qinv s \<Longrightarrow> e \<in> elems (fst s) \<Longrightarrow> snd s (hid e) \<noteq> 0"
    and owner_inj: "qinv s \<Longrightarrow> inj_on hid (elems (fst s))"
    and insert_spec: "qinv s \<Longrightarrow> e \<in> ok \<Longrightarrow> hid e \<notin> hid ` elems (fst s) \<Longrightarrow>
      qinv (insert_op e s) \<and> elems (fst (insert_op e s)) = insert e (elems (fst s)) \<and>
      (\<forall>x. x \<noteq> hid e \<and> x \<notin> hid ` elems (fst s) \<longrightarrow> snd (insert_op e s) x = snd s x)"
    and erase_spec: "qinv s \<Longrightarrow> e \<in> elems (fst s) \<Longrightarrow>
      qinv (erase_op (snd s (hid e)) s) \<and>
      elems (fst (erase_op (snd s (hid e)) s)) = elems (fst s) - {e} \<and>
      snd (erase_op (snd s (hid e)) s) (hid e) = 0 \<and>
      (\<forall>x. x \<notin> hid ` elems (fst s) \<longrightarrow> snd (erase_op (snd s (hid e)) s) x = snd s x)"
    and change_spec: "qinv s \<Longrightarrow> e \<in> elems (fst s) \<Longrightarrow> e' \<in> ok \<Longrightarrow> hid e' = hid e \<Longrightarrow>
      qinv (change_op (snd s (hid e)) e' s) \<and>
      elems (fst (change_op (snd s (hid e)) e' s)) = insert e' (elems (fst s) - {e}) \<and>
      (\<forall>x. x \<notin> hid ` elems (fst s) \<longrightarrow> snd (change_op (snd s (hid e)) e' s) x = snd s x)"
    and replace_min_spec: "qinv s \<Longrightarrow> elems (fst s) \<noteq> {} \<Longrightarrow> e' \<in> ok \<Longrightarrow>
      hid e' = hid (minimum (fst s)) \<Longrightarrow>
      qinv (replace_min_op e' s) \<and>
      elems (fst (replace_min_op e' s)) = insert e' (elems (fst s) - {minimum (fst s)}) \<and>
      (\<forall>x. x \<notin> hid ` elems (fst s) \<longrightarrow> snd (replace_min_op e' s) x = snd s x)"
    and pop_spec: "qinv s \<Longrightarrow> elems (fst s) \<noteq> {} \<Longrightarrow>
      qinv (pop_op s) \<and> elems (fst (pop_op s)) = elems (fst s) - {minimum (fst s)} \<and>
      snd (pop_op s) (hid (minimum (fst s))) = 0 \<and>
      (\<forall>x. x \<notin> hid ` elems (fst s) \<longrightarrow> snd (pop_op s) x = snd s x)"
begin

text \<open>The fast operations on the minimum agree with the general ones on its handle.\<close>

lemma replace_min_eq_change:
  assumes "qinv s" "elems (fst s) \<noteq> {}" "e' \<in> ok" "hid e' = hid (minimum (fst s))"
  shows "elems (fst (replace_min_op e' s)) = elems (fst (change_op (snd s (hid e')) e' s))"
  using assms replace_min_spec change_spec [OF assms(1) min_in [OF assms(1,2)]] by simp

lemma pop_eq_erase:
  assumes "qinv s" "elems (fst s) \<noteq> {}"
  shows "elems (fst (pop_op s)) = elems (fst (erase_op (snd s (hid (minimum (fst s)))) s))"
  using assms pop_spec erase_spec [OF assms(1) min_in [OF assms(1,2)]] by simp

lemma erased_owner_absent:
  assumes "qinv s" "e \<in> elems (fst s)"
  shows "hid e \<notin> hid ` (elems (fst s) - {e})"
  using inj_onD [OF owner_inj [OF assms(1)] _ assms(2)] by auto

text \<open>After an insertion the minimum is the smaller of the old minimum and the new entry.\<close>

lemma insert_min:
  assumes "qinv s" "e \<in> ok" "hid e \<notin> hid ` elems (fst s)" "elems (fst s) \<noteq> {}"
    and "minimum (fst (insert_op e s)) \<noteq> e"
  shows "minimum (fst (insert_op e s)) \<in> elems (fst s)"
    "\<And>x. x \<in> elems (fst s) \<Longrightarrow> le (minimum (fst (insert_op e s))) x"
  using min_in [of "insert_op e s"] min_least [of "insert_op e s"] insert_spec [OF assms(1-3)] assms
  by auto

end

text \<open>The heap meets the contract for every order that is total and transitive on \<open>S\<close>.\<close>

lemma heap_elems_empty: "heap_elems h = {} \<longleftrightarrow> heap_empty h"
  by (auto simp: heap_elems_def slots_def heap_empty_def)

lemma elem_slot:
  "handles_ok hid s \<Longrightarrow> e \<in> heap_elems (fst s) \<Longrightarrow>
   snd s (hid e) \<in> slots (fst s) \<and> nodes (fst s) ! snd s (hid e) = e"
  by (auto simp: heap_elems_def handles_ok_def)

sublocale heap_order \<subseteq> pq: indexed_priority_queue
  "\<lambda>s. heap_inv le hid s \<and> heap_elems (fst s) \<subseteq> S" heap_elems S le hid heap_empty heap_Min
  "heap_insert dflt le hid" "heap_erase le hid" "heap_ChangeKey le hid" "heap_ReplaceMin le hid"
  "heap_Pop le hid"
proof (unfold_locales, goal_cases)
  case (1 s)
  then show ?case by (simp add: heap_elems_empty)
next
  case (2 s)
  then show ?case by (auto simp: heap_elems_def heap_Min_def slots_def)
next
  case (3 s e)
  then show ?case using heap_Min_least by blast
next
  case (4 s e)
  then show ?case
    using elem_slot [OF heap_inv_handles, of s e] by (auto simp: slots_def)
next
  case (5 s)
  then show ?case using handles_inj heap_inv_handles by blast
next
  case (6 s e)
  then show ?case using heap_insert_filled [of s e] by auto
next
  case (7 s e)
  then show ?case
    using elem_slot [OF heap_inv_handles, of s e] heap_erase_removed [of s "snd s (hid e)"]
    by (auto simp: removed_def)
next
  case (8 s e e')
  let ?k = "snd s (hid e)"
  have k: "?k \<in> slots (fst s)" "nodes (fst s) ! ?k = e"
    using 8 elem_slot [OF heap_inv_handles] by blast+
  have eb: "elems_but (fst s) ?k = heap_elems (fst s) - {e}"
    using 8 k elems_but_eq heap_inv_handles by metis
  have "filled le hid ?k e' s (heap_ChangeKey le hid ?k e' s)"
    using 8 k heap_ChangeKey_filled by auto
  then show ?case using 8 unfolding filled_def eb by auto
next
  case (9 s e')
  then have ne: "\<not> heap_empty (fst s)" by (simp add: heap_elems_empty)
  then have k: "1 \<in> slots (fst s)" by (simp add: slots_def heap_empty_def)
  have eb: "elems_but (fst s) 1 = heap_elems (fst s) - {heap_Min (fst s)}"
    using 9 k elems_but_eq heap_inv_handles unfolding heap_Min_def by metis
  have "heap_Min (fst s) \<in> heap_elems (fst s)" using k by (auto simp: heap_elems_def heap_Min_def)
  moreover have "filled le hid 1 e' s (heap_ReplaceMin le hid e' s)"
    using 9 ne heap_ReplaceMin_filled by auto
  ultimately show ?case using 9 unfolding filled_def eb by auto
next
  case (10 s)
  then show ?case
    using heap_Pop_removed [of s] by (auto simp: removed_def heap_Min_def heap_elems_empty)
qed

text \<open>\<open>Clear\<close> invalidates every handle and leaves an empty heap of the minimum capacity.\<close>

lemma make_holes_spec:
  "fst (make_holes hid is s) = fst s \<and>
   snd (make_holes hid is s) x =
     (if x \<in> (\<lambda>i. hid (nodes (fst s) ! i)) ` set is then 0 else snd s x)"
proof (induction "is" arbitrary: s)
  case (Cons i "is")
  have "fst (MakeHole hid i s) = fst s" "snd (MakeHole hid i s) = (snd s)(hid (nodes (fst s) ! i) := 0)"
    by (simp_all add: MakeHole_def split: prod.splits)
  then show ?case using Cons.IH [of "MakeHole hid i s"] by auto
qed simp

lemma heap_Clear_spec:
  "heap_inv le hid (heap_Clear dflt hid s)"
  "heap_elems (fst (heap_Clear dflt hid s)) = {}"
  "snd (heap_Clear dflt hid s) x = (if x \<in> hid ` heap_elems (fst s) then 0 else snd s x)"
proof -
  let ?t = "make_holes hid [1..<heap_size (fst s) + 1] s"
  have sl: "set [1..<heap_size (fst s) + 1] = slots (fst s)" by (auto simp: slots_def)
  have t: "heap_Clear dflt hid s = ((fst ?t)\<lparr>nodes := vector_resize dflt kMinimumHeapSize
      (nodes (fst ?t)), heap_size := 0\<rparr>, snd ?t)"
    by (simp add: heap_Clear_def split: prod.splits)
  show "heap_elems (fst (heap_Clear dflt hid s)) = {}"
    by (simp add: t heap_elems_def slots_def)
  show "heap_inv le hid (heap_Clear dflt hid s)"
    by (auto simp: t heap_inv_def slots_def heap_ordered_def handles_ok_def vector_resize_def
        kMinimumHeapSize_def)
  show "snd (heap_Clear dflt hid s) x = (if x \<in> hid ` heap_elems (fst s) then 0 else snd s x)"
    using make_holes_spec [of hid "[1..<heap_size (fst s) + 1]" s x] unfolding t sl
    by (auto simp: heap_elems_def)
qed

lemma IntrusiveHeap_init_inv: "heap_inv le hid (IntrusiveHeap_init dflt, hs)"
  by (auto simp: heap_inv_def IntrusiveHeap_init_def heap_ordered_def handles_ok_def slots_def
      kMinimumHeapSize_def)

lemma IntrusiveHeap_init_elems [simp]: "heap_elems (IntrusiveHeap_init dflt) = {}"
  by (simp add: heap_elems_def IntrusiveHeap_init_def slots_def)

end
