(* ===== verification/Small_Priority_Queue.thy ===== *)
theory Small_Priority_Queue
  imports Base_Prelude
begin

text \<open>
  The model of \<open>TaskQueueSelector::SmallPriorityQueue\<close> (\<open>task_queue_selector.h\<close> and \<open>.cc\<close>):
  three arrays indexed by position or by priority, kept sorted by key with an insertion loop. The
  priorities of \<open>TaskQueue::QueuePriority\<close> are the numbers 0 to 6 they are in the code.
\<close>

section \<open>Priorities\<close>

definition kControlPriority :: nat where "kControlPriority = 0"
definition kHighestPriority :: nat where "kHighestPriority = 1"
definition kVeryHighPriority :: nat where "kVeryHighPriority = 2"
definition kHighPriority :: nat where "kHighPriority = 3"
definition kNormalPriority :: nat where "kNormalPriority = 4"
definition kLowPriority :: nat where "kLowPriority = 5"
definition kBestEffortPriority :: nat where "kBestEffortPriority = 6"
definition kQueuePriorityCount :: nat where "kQueuePriorityCount = 7"

lemmas priority_defs = kControlPriority_def kHighestPriority_def kVeryHighPriority_def
  kHighPriority_def kNormalPriority_def kLowPriority_def kBestEffortPriority_def
  kQueuePriorityCount_def

text \<open>\<open>TaskQueue::PriorityToString\<close>; \<^term>\<open>None\<close> is the null pointer after \<open>NOTREACHED()\<close>.\<close>

definition PriorityToString :: "nat \<Rightarrow> string option" where
  "PriorityToString priority =
     (if priority = kControlPriority then Some ''control''
      else if priority = kHighestPriority then Some ''highest''
      else if priority = kHighPriority then Some ''high''
      else if priority = kNormalPriority then Some ''normal''
      else if priority = kLowPriority then Some ''low''
      else if priority = kBestEffortPriority then Some ''best_effort''
      else None)"

section \<open>The queue\<close>

record small_priority_queue =
  spq_size :: nat
  keys :: "int list"
  id_to_index :: "nat list"
  index_to_id :: "nat list"

definition kInvalidIndex :: nat where "kInvalidIndex = 255"

definition SmallPriorityQueue_init :: small_priority_queue where
  "SmallPriorityQueue_init =
     \<lparr>spq_size = 0, keys = replicate kQueuePriorityCount 0,
      id_to_index = replicate kQueuePriorityCount kInvalidIndex,
      index_to_id = replicate kQueuePriorityCount 0\<rparr>"

definition spq_empty :: "small_priority_queue \<Rightarrow> bool" where
  "spq_empty q = (spq_size q = 0)"

definition min_id :: "small_priority_queue \<Rightarrow> nat" where
  "min_id q = index_to_id q ! 0"

definition IsInQueue :: "nat \<Rightarrow> small_priority_queue \<Rightarrow> bool" where
  "IsInQueue pid q = (id_to_index q ! pid \<noteq> kInvalidIndex)"

text \<open>One slot is overwritten with the entry of another: the loop bodies of all three operations.\<close>

definition move_entry :: "nat \<Rightarrow> nat \<Rightarrow> small_priority_queue \<Rightarrow> small_priority_queue" where
  "move_entry src dst q =
     (let moved_id = index_to_id q ! src
      in q\<lparr>keys := (keys q)[dst := keys q ! src], index_to_id := (index_to_id q)[dst := moved_id],
           id_to_index := (id_to_index q)[moved_id := dst]\<rparr>)"

definition put_entry :: "nat \<Rightarrow> int \<Rightarrow> nat \<Rightarrow> small_priority_queue \<Rightarrow> small_priority_queue" where
  "put_entry i key pid q =
     q\<lparr>keys := (keys q)[i := key], index_to_id := (index_to_id q)[i := pid],
       id_to_index := (id_to_index q)[pid := i]\<rparr>"

fun insert_loop :: "int \<Rightarrow> nat \<Rightarrow> small_priority_queue \<Rightarrow> nat \<times> small_priority_queue" where
  "insert_loop key 0 q = (0, q)"
| "insert_loop key (Suc i) q =
     (if key < keys q ! i then insert_loop key i (move_entry i (Suc i) q) else (Suc i, q))"

definition spq_insert :: "int \<Rightarrow> nat \<Rightarrow> small_priority_queue \<Rightarrow> small_priority_queue" where
  "spq_insert key pid q =
     (let (i, q) = insert_loop key (spq_size q) q; q = put_entry i key pid q
      in q\<lparr>spq_size := spq_size q + 1\<rparr>)"

lemma move_entry_size [simp]: "spq_size (move_entry a b q) = spq_size q"
  by (simp add: move_entry_def Let_def)

function erase_loop :: "nat \<Rightarrow> small_priority_queue \<Rightarrow> small_priority_queue" where
  "erase_loop i q =
     (if i < spq_size q then erase_loop (i + 1) (move_entry (i + 1) i q) else q)"
  by pat_completeness auto
termination
  by (relation "measure (\<lambda>(i, q). spq_size q - i)") auto

declare erase_loop.simps [simp del]

definition spq_erase :: "nat \<Rightarrow> small_priority_queue \<Rightarrow> small_priority_queue" where
  "spq_erase pid q =
     (let q = q\<lparr>spq_size := spq_size q - 1\<rparr>; q = erase_loop (id_to_index q ! pid) q
      in q\<lparr>id_to_index := (id_to_index q)[pid := kInvalidIndex]\<rparr>)"

function change_loop :: "int \<Rightarrow> nat \<Rightarrow> small_priority_queue \<Rightarrow> nat \<times> small_priority_queue" where
  "change_loop new_key i q =
     (if i + 1 < spq_size q \<and> keys q ! (i + 1) < new_key
      then change_loop new_key (i + 1) (move_entry (i + 1) i q) else (i, q))"
  by pat_completeness auto
termination
  by (relation "measure (\<lambda>(k, i, q). spq_size q - i)") auto

declare change_loop.simps [simp del]

definition ChangeMinKey :: "int \<Rightarrow> small_priority_queue \<Rightarrow> small_priority_queue" where
  "ChangeMinKey new_key q =
     (let pid = index_to_id q ! 0; (i, q) = change_loop new_key 0 q in put_entry i new_key pid q)"

section \<open>What the arrays hold\<close>

text \<open>The entries in order of position, and the agreement of the inverse index with them. With a
  hole at \<open>k\<close> the entry of that position is left out.\<close>

definition spq_entry :: "small_priority_queue \<Rightarrow> nat \<Rightarrow> int \<times> nat" where
  "spq_entry q i = (keys q ! i, index_to_id q ! i)"

definition spq_list :: "small_priority_queue \<Rightarrow> (int \<times> nat) list" where
  "spq_list q = map (spq_entry q) [0..<spq_size q]"

definition arrays_ok :: "small_priority_queue \<Rightarrow> bool" where
  "arrays_ok q \<longleftrightarrow> length (keys q) = kQueuePriorityCount \<and>
     length (id_to_index q) = kQueuePriorityCount \<and> length (index_to_id q) = kQueuePriorityCount \<and>
     spq_size q \<le> kQueuePriorityCount"

definition index_ok :: "nat list \<Rightarrow> nat list \<Rightarrow> bool" where
  "index_ok ids ix \<longleftrightarrow> distinct ids \<and> (\<forall>d \<in> set ids. d < kQueuePriorityCount) \<and>
     (\<forall>i < length ids. ix ! (ids ! i) = i) \<and>
     (\<forall>d < kQueuePriorityCount. d \<notin> set ids \<longrightarrow> ix ! d = kInvalidIndex)"

definition spq_inv :: "small_priority_queue \<Rightarrow> bool" where
  "spq_inv q \<longleftrightarrow> arrays_ok q \<and> sorted (map fst (spq_list q)) \<and>
     index_ok (map snd (spq_list q)) (id_to_index q)"

lemma length_spq_list [simp]: "length (spq_list q) = spq_size q"
  by (simp add: spq_list_def)

lemma spq_list_nth: "i < spq_size q \<Longrightarrow> spq_list q ! i = (keys q ! i, index_to_id q ! i)"
  by (simp add: spq_list_def spq_entry_def)

lemma SmallPriorityQueue_init_inv: "spq_inv SmallPriorityQueue_init" "spq_list SmallPriorityQueue_init = []"
  by (simp_all add: spq_inv_def SmallPriorityQueue_init_def spq_list_def arrays_ok_def index_ok_def
      kQueuePriorityCount_def)

lemma IsInQueue_iff:
  assumes "spq_inv q" "pid < kQueuePriorityCount"
  shows "IsInQueue pid q \<longleftrightarrow> pid \<in> snd ` set (spq_list q)"
proof -
  let ?ids = "map snd (spq_list q)"
  have ix: "index_ok ?ids (id_to_index q)" and sz: "spq_size q \<le> 7"
    using assms by (auto simp: spq_inv_def arrays_ok_def kQueuePriorityCount_def)
  show ?thesis
  proof (cases "pid \<in> set ?ids")
    case True
    then obtain i where "i < length ?ids" "?ids ! i = pid" by (metis in_set_conv_nth)
    then have "id_to_index q ! pid = i" "i < 7" using ix sz by (auto simp: index_ok_def)
    then show ?thesis using True by (simp add: IsInQueue_def kInvalidIndex_def)
  next
    case False
    then show ?thesis using ix assms by (auto simp: IsInQueue_def index_ok_def)
  qed
qed

text \<open>
  While a loop runs, position \<open>k\<close> is a hole: the remaining entries are the fixed list \<open>L\<close>, spread
  around the hole, and \<open>x\<close> is the one priority whose index is not settled.
\<close>

definition around :: "nat \<Rightarrow> nat \<Rightarrow> nat" where
  "around k j = (if j < k then j else Suc j)"

definition hole_inv :: "nat \<Rightarrow> small_priority_queue \<Rightarrow> nat \<Rightarrow> (int \<times> nat) list \<Rightarrow> bool" where
  "hole_inv x q k L \<longleftrightarrow>
     length (keys q) = kQueuePriorityCount \<and> length (id_to_index q) = kQueuePriorityCount \<and>
     length (index_to_id q) = kQueuePriorityCount \<and> length L < kQueuePriorityCount \<and> k \<le> length L \<and>
     (\<forall>j < length L. spq_entry q (around k j) = L ! j \<and> id_to_index q ! snd (L ! j) = around k j) \<and>
     distinct (map snd L) \<and> (\<forall>d \<in> snd ` set L. d < kQueuePriorityCount) \<and>
     x < kQueuePriorityCount \<and> x \<notin> snd ` set L \<and>
     (\<forall>d < kQueuePriorityCount. d \<notin> snd ` set L \<and> d \<noteq> x \<longrightarrow> id_to_index q ! d = kInvalidIndex)"

lemma hole_inv_ids:
  assumes "hole_inv x q k L" "i < length L" "j < length L" "snd (L ! i) = snd (L ! j)"
  shows "i = j"
  using assms nth_eq_iff_index_eq [of "map snd L" i j] by (simp add: hole_inv_def)

lemma move_entry_hole:
  assumes h: "hole_inv x q k L" and j0: "j0 < length L" and s: "src = around k j0"
    and near: "\<And>j. j < length L \<Longrightarrow> around src j = (if j = j0 then k else around k j)"
    and le: "src \<le> length L"
  shows "hole_inv x (move_entry src k q) src L"
proof -
  let ?r = "move_entry src k q"
  have e: "spq_entry q src = L ! j0" using h j0 s by (simp add: hole_inv_def)
  then have m: "index_to_id q ! src = snd (L ! j0)" "keys q ! src = fst (L ! j0)"
    by (simp_all add: spq_entry_def prod_eq_iff)
  have lens: "k < kQueuePriorityCount" "snd (L ! j0) < kQueuePriorityCount"
    using h j0 by (auto simp: hole_inv_def)
  have each: "spq_entry ?r (around src j) = L ! j \<and> id_to_index ?r ! snd (L ! j) = around src j"
    if j: "j < length L" for j
  proof (cases "j = j0")
    case True
    then show ?thesis
      using near [OF j] h lens m
      by (simp add: move_entry_def Let_def spq_entry_def hole_inv_def prod_eq_iff)
  next
    case False
    then have "snd (L ! j) \<noteq> snd (L ! j0)" using hole_inv_ids [OF h j j0] by blast
    moreover have "around k j \<noteq> k" by (simp add: around_def)
    ultimately show ?thesis
      using near [OF j] h lens m j False
      by (simp add: move_entry_def Let_def spq_entry_def hole_inv_def)
  qed
  have out: "id_to_index ?r ! d = kInvalidIndex"
    if "d < kQueuePriorityCount" "d \<notin> snd ` set L" "d \<noteq> x" for d
  proof -
    have "d \<noteq> snd (L ! j0)" using that j0 by auto
    then show ?thesis using h that m by (simp add: move_entry_def Let_def hole_inv_def)
  qed
  have "length (keys ?r) = kQueuePriorityCount" "length (id_to_index ?r) = kQueuePriorityCount"
    "length (index_to_id ?r) = kQueuePriorityCount"
    using h by (simp_all add: move_entry_def Let_def hole_inv_def)
  then show ?thesis using h le each out by (simp add: hole_inv_def)
qed

lemma put_entry_hole:
  assumes h: "hole_inv x q k L" and sz: "spq_size r = Suc (length L)"
    and r: "keys r = (keys q)[k := key]" "index_to_id r = (index_to_id q)[k := x]"
      "id_to_index r = (id_to_index q)[x := k]"
  shows "spq_list r = take k L @ (key, x) # drop k L"
    "arrays_ok r" "index_ok (map snd (spq_list r)) (id_to_index r)"
proof -
  let ?M = "take k L @ (key, x) # drop k L"
  have lens: "k < kQueuePriorityCount" "k \<le> length L" "x < kQueuePriorityCount"
    "length L < kQueuePriorityCount" "x \<notin> snd ` set L"
    using h by (auto simp: hole_inv_def)
  have E: "spq_entry r (around k j) = L ! j" "id_to_index r ! snd (L ! j) = around k j"
    if "j < length L" for j
  proof -
    have "around k j \<noteq> k" by (simp add: around_def)
    then show "spq_entry r (around k j) = L ! j"
      using h that by (simp add: spq_entry_def r hole_inv_def)
    have "snd (L ! j) \<noteq> x" using lens(5) that by auto
    then show "id_to_index r ! snd (L ! j) = around k j"
      using h that by (simp add: r hole_inv_def)
  qed
  have K: "spq_entry r k = (key, x)" "id_to_index r ! x = k"
    using h lens by (simp_all add: spq_entry_def r hole_inv_def)
  have pos: "spq_entry r i = ?M ! i \<and> id_to_index r ! snd (?M ! i) = i" if i: "i < Suc (length L)" for i
  proof -
    consider (lt) "i < k" | (eq) "i = k" | (gt) "k < i" by linarith
    then show ?thesis
    proof cases
      case lt
      then show ?thesis using E [of i] lens by (simp add: around_def nth_append)
    next
      case eq
      then show ?thesis using K lens by (simp add: nth_append)
    next
      case gt
      then have "around k (i - 1) = i" "i - 1 < length L" using i by (auto simp: around_def)
      moreover have "?M ! i = L ! (i - 1)" using gt lens i by (simp add: nth_append nth_Cons')
      ultimately show ?thesis using E [of "i - 1"] by simp
    qed
  qed
  show L: "spq_list r = ?M"
  proof (rule nth_equalityI)
    show "length (spq_list r) = length ?M" using lens sz by simp
    fix i assume i: "i < length (spq_list r)"
    then have "spq_list r ! i = spq_entry r i" by (simp add: spq_list_nth spq_entry_def)
    then show "spq_list r ! i = ?M ! i" using pos i sz by simp
  qed
  show "arrays_ok r" using h sz lens by (simp add: arrays_ok_def r hole_inv_def)
  have ids: "map snd ?M = take k (map snd L) @ x # drop k (map snd L)" by (simp add: take_map drop_map)
  have "set (map snd ?M) = insert x (set (take k (map snd L) @ drop k (map snd L)))"
    unfolding ids by (simp del: append_take_drop_id)
  then have S: "set (map snd ?M) = insert x (snd ` set L)"
    unfolding append_take_drop_id set_map .
  have "distinct (take k (map snd L) @ drop k (map snd L))"
    "x \<notin> set (take k (map snd L) @ drop k (map snd L))"
    using h unfolding append_take_drop_id by (simp_all add: hole_inv_def)
  then have dist: "distinct (map snd ?M)"
    unfolding ids by (simp del: append_take_drop_id add: distinct_append)
  have len: "length (map snd ?M) = Suc (length L)" using lens by simp
  have idx: "id_to_index r ! (map snd ?M ! i) = i" if "i < length (map snd ?M)" for i
    using pos [of i] that len by (simp only: nth_map length_map)
  have out: "id_to_index r ! d = kInvalidIndex"
    if "d < kQueuePriorityCount" "d \<notin> set (map snd ?M)" for d
    using that h unfolding S by (simp add: r hole_inv_def)
  have bnd: "\<forall>d \<in> set (map snd ?M). d < kQueuePriorityCount"
    using h unfolding S by (simp add: hole_inv_def)
  show "index_ok (map snd (spq_list r)) (id_to_index r)"
    unfolding index_ok_def L using dist bnd idx out by blast
qed

section \<open>The loops\<close>

lemma entry_at:
  assumes "hole_inv x q k L" "j < length L"
  shows "keys q ! around k j = fst (L ! j)"
  using assms by (auto simp: hole_inv_def spq_entry_def prod_eq_iff)

lemma insert_loop_hole:
  assumes "hole_inv x q k L" "sorted (map fst L)" "\<forall>j < length L. k \<le> j \<longrightarrow> key < fst (L ! j)"
    "insert_loop key k q = (i, r)"
  shows "hole_inv x r i L \<and> spq_size r = spq_size q \<and> (\<forall>j < length L. i \<le> j \<longrightarrow> key < fst (L ! j)) \<and>
    (\<forall>j < i. fst (L ! j) \<le> key)"
  using assms
proof (induction key k q arbitrary: i r rule: insert_loop.induct)
  case (1 key q)
  then show ?case by simp
next
  case (2 key k q)
  have k: "k < length L" using 2(2) by (simp add: hole_inv_def)
  have e: "keys q ! k = fst (L ! k)" using entry_at [OF 2(2) k] by (simp add: around_def)
  show ?case
  proof (cases "key < keys q ! k")
    case True
    have h: "hole_inv x (move_entry k (Suc k) q) k L"
      by (rule move_entry_hole [OF 2(2) k]) (use k in \<open>auto simp: around_def\<close>)
    have gt: "\<forall>j < length L. k \<le> j \<longrightarrow> key < fst (L ! j)"
    proof (intro allI impI)
      fix j assume "j < length L" "k \<le> j"
      then show "key < fst (L ! j)" using 2(4) True e by (cases "j = k") auto
    qed
    have "insert_loop key k (move_entry k (Suc k) q) = (i, r)" using 2(5) True by simp
    from 2(1) [OF True h 2(3) gt this] show ?thesis unfolding move_entry_size .
  next
    case False
    have "fst (L ! j) \<le> key" if "j < Suc k" for j
    proof -
      have "map fst L ! j \<le> map fst L ! k" by (rule sorted_nth_mono [OF 2(3)]) (use that k in auto)
      then show ?thesis using that k e False by simp
    qed
    moreover have "i = Suc k" "r = q" using 2(5) False by simp_all
    ultimately show ?thesis using 2(2,4) by simp
  qed
qed

lemma erase_loop_hole:
  assumes "hole_inv x q k L" "spq_size q = length L"
  shows "hole_inv x (erase_loop k q) (length L) L \<and> spq_size (erase_loop k q) = length L"
  using assms
proof (induction k q rule: erase_loop.induct)
  case (1 k q)
  show ?case
  proof (cases "k < length L")
    case True
    have "hole_inv x (move_entry (k + 1) k q) (k + 1) L"
      by (rule move_entry_hole [OF 1(2) True]) (use True in \<open>auto simp: around_def\<close>)
    then show ?thesis using 1 True by (simp add: erase_loop.simps [of k q])
  next
    case False
    have "erase_loop k q = q" using 1(3) False by (subst erase_loop.simps) simp
    moreover have "k = length L" using False 1(2) by (simp add: hole_inv_def)
    ultimately show ?thesis using 1(2,3) by simp
  qed
qed

lemma change_loop_hole:
  assumes "hole_inv x q k L" "spq_size q = Suc (length L)" "\<forall>j < k. fst (L ! j) < new_key"
    "change_loop new_key k q = (i, r)"
  shows "hole_inv x r i L \<and> spq_size r = Suc (length L) \<and> (\<forall>j < i. fst (L ! j) < new_key) \<and>
    (i < length L \<longrightarrow> new_key \<le> fst (L ! i))"
  using assms
proof (induction new_key k q arbitrary: i r rule: change_loop.induct)
  case (1 new_key k q)
  show ?case
  proof (cases "k < length L \<and> keys q ! (k + 1) < new_key")
    case True
    then have k: "k < length L" by simp
    have h: "hole_inv x (move_entry (k + 1) k q) (k + 1) L"
      by (rule move_entry_hole [OF 1(2) k]) (use k in \<open>auto simp: around_def\<close>)
    have "fst (L ! k) < new_key" using True entry_at [OF 1(2) k] by (simp add: around_def)
    then have "\<forall>j < k + 1. fst (L ! j) < new_key" using 1(4) less_Suc_eq by auto
    then show ?thesis
      using 1(1) [OF _ h] 1(3,5) True by (simp add: change_loop.simps [of new_key k q])
  next
    case False
    then have "i = k" "r = q" using 1(3,5) by (auto simp: change_loop.simps [of new_key k q])
    moreover have "new_key \<le> fst (L ! k)" if "k < length L"
      using that False entry_at [OF 1(2) that] by (simp add: around_def)
    ultimately show ?thesis using 1 by simp
  qed
qed

section \<open>The operations\<close>

text \<open>The reference: an entry is put behind the longest prefix whose keys satisfy \<open>P\<close>.\<close>

definition put_after :: "(int \<Rightarrow> bool) \<Rightarrow> int \<times> nat \<Rightarrow> (int \<times> nat) list \<Rightarrow> (int \<times> nat) list" where
  "put_after P e L = takeWhile (P \<circ> fst) L @ e # dropWhile (P \<circ> fst) L"

lemma put_after_at:
  assumes "i \<le> length L" "\<And>j. j < i \<Longrightarrow> P (fst (L ! j))" "i < length L \<Longrightarrow> \<not> P (fst (L ! i))"
  shows "take i L @ e # drop i L = put_after P e L"
proof -
  have "takeWhile (P \<circ> fst) L = take i L"
    by (rule takeWhile_eq_take_P_nth) (use assms in auto)
  then show ?thesis using assms(1) by (simp add: put_after_def dropWhile_eq_drop)
qed

lemma set_put_after [simp]: "set (put_after P e L) = insert e (set L)"
proof -
  have "set (takeWhile (P \<circ> fst) L @ dropWhile (P \<circ> fst) L) = set L"
    unfolding takeWhile_dropWhile_id ..
  then show ?thesis unfolding put_after_def set_append by auto
qed

lemma sorted_put_after:
  assumes "sorted (map fst L)" "P = (\<lambda>k. k \<le> fst e) \<or> P = (\<lambda>k. k < fst e)"
  shows "sorted (map fst (put_after P e L))"
  using assms
proof (induction L)
  case Nil
  then show ?case by (simp add: put_after_def)
next
  case (Cons a L)
  show ?case
  proof (cases "P (fst a)")
    case True
    then have "put_after P e (a # L) = a # put_after P e L" by (simp add: put_after_def)
    then show ?thesis using Cons True by auto
  next
    case False
    then have "put_after P e (a # L) = e # a # L" by (simp add: put_after_def)
    then show ?thesis using Cons False by force
  qed
qed

lemma hole_of_inv:
  assumes q: "spq_inv q" and k: "k < spq_size q" and L: "L = take k (spq_list q) @ drop (Suc k) (spq_list q)"
  shows "hole_inv (snd (spq_list q ! k)) q k L" "Suc (length L) = spq_size q"
proof -
  let ?M = "spq_list q"
  have ok: "arrays_ok q" and ix: "index_ok (map snd ?M) (id_to_index q)"
    using q by (auto simp: spq_inv_def)
  show len: "Suc (length L) = spq_size q" using k L by simp
  have M: "?M = take k ?M @ ?M ! k # drop (Suc k) ?M" using k by (simp add: id_take_nth_drop)
  have at: "L ! j = ?M ! around k j" if "j < length L" for j
    using that k len by (auto simp: L around_def nth_append min_def)
  have arnd: "around k j < spq_size q" if "j < length L" for j
    using that len by (auto simp: around_def)
  have d: "distinct (map snd ?M)" using ix by (simp add: index_ok_def)
  then have d': "distinct (map snd L)" "snd (?M ! k) \<notin> snd ` set L"
    by (subst (asm) M, simp add: L image_Un)+
  have S: "set (map snd ?M) = insert (snd (?M ! k)) (snd ` set L)"
    by (subst M) (simp add: L image_Un)
  have each: "spq_entry q (around k j) = L ! j \<and> id_to_index q ! snd (L ! j) = around k j"
    if j: "j < length L" for j
  proof -
    have "L ! j = spq_entry q (around k j)"
      using at [OF j] arnd [OF j] by (simp add: spq_list_nth spq_entry_def)
    moreover have "id_to_index q ! (map snd ?M ! around k j) = around k j"
      using ix arnd [OF j] by (simp add: index_ok_def)
    ultimately show ?thesis using at [OF j] arnd [OF j] by simp
  qed
  have "\<forall>d \<in> set (map snd ?M). d < kQueuePriorityCount" using ix unfolding index_ok_def by blast
  then have "snd (?M ! k) < kQueuePriorityCount" "\<forall>d \<in> snd ` set L. d < kQueuePriorityCount"
    unfolding S by auto
  moreover have "\<forall>d < kQueuePriorityCount. d \<notin> snd ` set L \<and> d \<noteq> snd (?M ! k) \<longrightarrow>
      id_to_index q ! d = kInvalidIndex"
    using ix unfolding index_ok_def S by blast
  ultimately show "hole_inv (snd (?M ! k)) q k L"
    using ok each d' len k by (simp add: hole_inv_def arrays_ok_def)
qed

lemma hole_at_end:
  assumes q: "spq_inv q" and p: "pid < kQueuePriorityCount" "\<not> IsInQueue pid q"
  shows "hole_inv pid q (spq_size q) (spq_list q)"
proof -
  let ?L = "spq_list q"
  have n: "pid \<notin> snd ` set ?L" using IsInQueue_iff [OF q p(1)] p(2) by simp
  have ix: "index_ok (map snd ?L) (id_to_index q)" and ok: "arrays_ok q"
    using q by (auto simp: spq_inv_def)
  then have sub: "set (map snd ?L) \<subseteq> {..<kQueuePriorityCount} - {pid}"
    using n by (auto simp: index_ok_def)
  have "card (set (map snd ?L)) = spq_size q"
    using ix by (simp add: index_ok_def distinct_card flip: set_map)
  then have "spq_size q \<le> card ({..<kQueuePriorityCount} - {pid})"
    using card_mono [OF _ sub] by simp
  then have sz: "spq_size q < kQueuePriorityCount" using p by simp
  have each: "spq_entry q (around (spq_size q) j) = ?L ! j \<and>
      id_to_index q ! snd (?L ! j) = around (spq_size q) j" if "j < length ?L" for j
    using that ix by (auto simp: around_def spq_list_nth spq_entry_def index_ok_def)
  show ?thesis
    unfolding hole_inv_def using ok ix sz n p each by (auto simp: arrays_ok_def index_ok_def)
qed

lemma spq_insert_spec:
  assumes q: "spq_inv q" and p: "pid < kQueuePriorityCount" "\<not> IsInQueue pid q"
  shows "spq_inv (spq_insert key pid q)"
    "spq_list (spq_insert key pid q) = put_after (\<lambda>k. k \<le> key) (key, pid) (spq_list q)"
proof -
  let ?L = "spq_list q"
  have srt: "sorted (map fst ?L)" using q by (simp add: spq_inv_def)
  obtain i r where r: "insert_loop key (spq_size q) q = (i, r)" by force
  have h: "hole_inv pid r i ?L" "spq_size r = spq_size q" "\<forall>j < spq_size q. i \<le> j \<longrightarrow> key < fst (?L ! j)"
    "\<forall>j < i. fst (?L ! j) \<le> key"
    using insert_loop_hole [OF hole_at_end [OF q p] srt _ r] by auto
  let ?r = "spq_insert key pid q"
  have "spq_size ?r = Suc (length ?L)" "keys ?r = (keys r)[i := key]"
    "index_to_id ?r = (index_to_id r)[i := pid]" "id_to_index ?r = (id_to_index r)[pid := i]"
    using r h by (simp_all add: spq_insert_def put_entry_def)
  note res = put_entry_hole [OF h(1) this]
  have "i \<le> length ?L" using h(1) by (simp add: hole_inv_def)
  then have "take i ?L @ (key, pid) # drop i ?L = put_after (\<lambda>k. k \<le> key) (key, pid) ?L"
    by (intro put_after_at) (use h in \<open>auto simp: not_le\<close>)
  then show "spq_list ?r = put_after (\<lambda>k. k \<le> key) (key, pid) ?L" using res(1) by simp
  then show "spq_inv ?r"
    using res sorted_put_after [OF srt, of _ "(key, pid)"] by (simp add: spq_inv_def)
qed

lemma spq_erase_spec:
  assumes q: "spq_inv q" and p: "pid < kQueuePriorityCount" "IsInQueue pid q"
  shows "spq_inv (spq_erase pid q)" "spq_list (spq_erase pid q) = filter (\<lambda>e. snd e \<noteq> pid) (spq_list q)"
proof -
  let ?M = "spq_list q"
  obtain k where k: "k < spq_size q" "snd (?M ! k) = pid"
    using IsInQueue_iff [OF q p(1)] p(2) by (auto simp: in_set_conv_nth)
  have srt: "sorted (map fst ?M)" and ix: "index_ok (map snd ?M) (id_to_index q)"
    using q by (auto simp: spq_inv_def)
  let ?L = "take k ?M @ drop (Suc k) ?M"
  have idx: "id_to_index q ! pid = k" using ix k by (auto simp: index_ok_def)
  have h: "hole_inv pid q k ?L" "Suc (length ?L) = spq_size q" using hole_of_inv [OF q k(1) refl] k by auto
  let ?q = "q\<lparr>spq_size := spq_size q - 1\<rparr>" and ?n = "length ?L"
  have h': "hole_inv pid ?q k ?L" "spq_size ?q = ?n"
    using h k by (simp_all add: hole_inv_def spq_entry_def)
  let ?e = "erase_loop k ?q"
  have e: "hole_inv pid ?e ?n ?L" "spq_size ?e = ?n" using erase_loop_hole [OF h'] by auto
  let ?r = "spq_erase pid q"
  have r: "?r = ?e\<lparr>id_to_index := (id_to_index ?e)[pid := kInvalidIndex]\<rparr>"
    using idx by (simp add: spq_erase_def Let_def)
  have ent: "spq_entry ?r j = ?L ! j" "id_to_index ?r ! snd (?L ! j) = j" if "j < ?n" for j
  proof -
    have "snd (?L ! j) \<noteq> pid" using e(1) that nth_mem [OF that] by (auto simp: hole_inv_def)
    moreover have "spq_entry ?e j = ?L ! j \<and> id_to_index ?e ! snd (?L ! j) = j"
      using e(1) that unfolding hole_inv_def by (auto simp: around_def)
    ultimately show "spq_entry ?r j = ?L ! j" "id_to_index ?r ! snd (?L ! j) = j"
      by (simp_all add: r spq_entry_def)
  qed
  have L: "spq_list ?r = ?L"
  proof (rule nth_equalityI)
    show "length (spq_list ?r) = ?n" using e(2) by (simp add: r)
    fix j assume "j < length (spq_list ?r)"
    then have "j < spq_size ?r" "j < ?n" using e(2) by (simp_all add: r)
    then show "spq_list ?r ! j = ?L ! j" using ent(1) [of j] by (simp only: spq_list_nth spq_entry_def)
  qed
  have "distinct (map snd ?L)" "pid \<notin> snd ` set ?L" using e(1) by (simp_all add: hole_inv_def)
  have M: "?M = take k ?M @ ?M ! k # drop (Suc k) ?M" using k by (simp add: id_take_nth_drop)
  have "filter (\<lambda>e. snd e \<noteq> pid) ?M = filter (\<lambda>e. snd e \<noteq> pid) ?L" by (subst M) (simp add: k)
  also have "\<dots> = ?L" using \<open>pid \<notin> snd ` set ?L\<close> by (intro filter_True) auto
  finally show "spq_list ?r = filter (\<lambda>e. snd e \<noteq> pid) ?M" using L by simp
  have "sorted (map fst ?L)" using srt by (subst (asm) M) (simp add: sorted_append)
  moreover have "arrays_ok ?r" using e by (simp add: arrays_ok_def hole_inv_def r)
  moreover have "index_ok (map snd ?L) (id_to_index ?r)"
  proof -
    have "id_to_index ?r ! d = kInvalidIndex" if "d < kQueuePriorityCount" "d \<notin> set (map snd ?L)" for d
    proof (cases "d = pid")
      case True
      then show ?thesis using e(1) that by (simp add: r hole_inv_def)
    next
      case False
      then have "id_to_index ?e ! d = kInvalidIndex"
        using that e(1) unfolding hole_inv_def set_map by blast
      then show ?thesis using False by (simp add: r)
    qed
    moreover have "\<forall>d \<in> set (map snd ?L). d < kQueuePriorityCount"
      using e(1) unfolding hole_inv_def set_map by blast
    moreover have "id_to_index ?r ! (map snd ?L ! i) = i" if "i < length (map snd ?L)" for i
      using ent(2) [of i] that by (simp only: nth_map length_map)
    ultimately show ?thesis
      using \<open>distinct (map snd ?L)\<close> unfolding index_ok_def by blast
  qed
  ultimately show "spq_inv ?r" by (simp only: spq_inv_def L)
qed

lemma ChangeMinKey_spec:
  assumes q: "spq_inv q" and ne: "\<not> spq_empty q"
  shows "spq_inv (ChangeMinKey new_key q)"
    "spq_list (ChangeMinKey new_key q)
       = put_after (\<lambda>k. k < new_key) (new_key, min_id q) (tl (spq_list q))"
proof -
  let ?M = "spq_list q" and ?L = "tl (spq_list q)"
  have k: "0 < spq_size q" using ne by (simp add: spq_empty_def)
  have srt: "sorted (map fst ?M)" using q by (simp add: spq_inv_def)
  then have srtL: "sorted (map fst ?L)" by (simp add: sorted_tl map_tl)
  have h: "hole_inv (snd (?M ! 0)) q 0 ?L" "Suc (length ?L) = spq_size q"
    using hole_of_inv [OF q k, of ?L] by (simp_all add: drop_Suc)
  have x: "snd (?M ! 0) = min_id q" using k by (simp add: spq_list_nth min_id_def)
  obtain i r where r: "change_loop new_key 0 q = (i, r)" by force
  have c: "hole_inv (min_id q) r i ?L" "spq_size r = Suc (length ?L)" "\<forall>j < i. fst (?L ! j) < new_key"
    "i < length ?L \<longrightarrow> new_key \<le> fst (?L ! i)"
    using change_loop_hole [OF h(1) _ _ r] h(2) x by auto
  let ?r = "ChangeMinKey new_key q"
  have "?r = put_entry i new_key (min_id q) r" using r by (simp add: ChangeMinKey_def min_id_def)
  then have "spq_size ?r = Suc (length ?L)" "keys ?r = (keys r)[i := new_key]"
    "index_to_id ?r = (index_to_id r)[i := min_id q]" "id_to_index ?r = (id_to_index r)[min_id q := i]"
    using c(2) by (simp_all add: put_entry_def)
  note res = put_entry_hole [OF c(1) this]
  have "i \<le> length ?L" using c(1) by (simp add: hole_inv_def)
  then have "take i ?L @ (new_key, min_id q) # drop i ?L
      = put_after (\<lambda>k. k < new_key) (new_key, min_id q) ?L"
    by (intro put_after_at) (use c in \<open>auto simp: not_less\<close>)
  then show "spq_list ?r = put_after (\<lambda>k. k < new_key) (new_key, min_id q) ?L" using res(1) by simp
  then show "spq_inv ?r"
    using res sorted_put_after [OF srtL, of _ "(new_key, min_id q)"] by (simp add: spq_inv_def)
qed

lemma spq_empty_iff: "spq_empty q \<longleftrightarrow> spq_list q = []"
  unfolding length_0_conv [symmetric] by (simp add: spq_empty_def)

lemma min_id_hd: "spq_list q \<noteq> [] \<Longrightarrow> min_id q = snd (hd (spq_list q))"
  by (cases "spq_size q") (simp_all add: min_id_def hd_conv_nth spq_list_nth, simp add: spq_list_def)

end
