(* ===== verification/Atomic_Flag_Set.thy ===== *)
theory Atomic_Flag_Set
  imports Base_Prelude
begin

text \<open>
  The model of \<open>atomic_flag_set.h\<close> and \<open>.cc\<close>: flags handed out in groups of one machine word,
  any thread may raise a flag, and the main thread runs the callbacks of the raised ones. A group is
  named by the number of its allocation, the two intrusive lists of groups are the lists of those
  numbers, head first, and a callback is a value of type \<open>'c\<close>. Each atomic access is one step, so
  an interleaving with other threads is a sequence of these operations.
\<close>

unbundle bit_operations_syntax

section \<open>State and operations\<close>

definition kNumFlags :: nat where "kNumFlags = 64"

record 'c flag_group =
  flags :: u64
  allocated_flags :: u64
  flag_callbacks :: "'c option list"

record 'c atomic_flag_set =
  groups :: "nat \<Rightarrow> 'c flag_group"
  alloc_list :: "nat list"
  partially_free_list :: "nat list"
  next_group :: nat

type_synonym atomic_flag = "(nat \<times> u64) option"

definition Group_new :: "'c flag_group" where
  "Group_new = \<lparr>flags = 0, allocated_flags = 0, flag_callbacks = replicate kNumFlags None\<rparr>"

definition AtomicFlagSet_new :: "'c atomic_flag_set" where
  "AtomicFlagSet_new =
     \<lparr>groups = (\<lambda>_. Group_new), alloc_list = [], partially_free_list = [], next_group = 0\<rparr>"

definition IsFull :: "'c flag_group \<Rightarrow> bool" where
  "IsFull g = (NOT (allocated_flags g) = 0)"

definition IsEmpty :: "'c flag_group \<Rightarrow> bool" where
  "IsEmpty g = (allocated_flags g = 0)"

text \<open>\<open>bits::CountTrailingZeroBits\<close>, 64 for a zero word.\<close>

definition IndexOfFirstFlagSet :: "u64 \<Rightarrow> nat" where
  "IndexOfFirstFlagSet flag = length (takeWhile (\<lambda>i. \<not> bit flag i) [0..<64])"

definition FindFirstUnallocatedFlag :: "'c flag_group \<Rightarrow> nat" where
  "FindFirstUnallocatedFlag g = IndexOfFirstFlagSet (NOT (allocated_flags g))"

definition set_group :: "nat \<Rightarrow> 'c flag_group \<Rightarrow> 'c atomic_flag_set \<Rightarrow> 'c atomic_flag_set" where
  "set_group g v s = s\<lparr>groups := (groups s)(g := v)\<rparr>"

definition AddToAllocList :: "nat \<Rightarrow> 'c atomic_flag_set \<Rightarrow> 'c atomic_flag_set" where
  "AddToAllocList g s = s\<lparr>alloc_list := g # alloc_list s\<rparr>"

definition RemoveFromAllocList :: "nat \<Rightarrow> 'c atomic_flag_set \<Rightarrow> 'c atomic_flag_set" where
  "RemoveFromAllocList g s = s\<lparr>alloc_list := remove1 g (alloc_list s)\<rparr>"

definition AddToPartiallyFreeList :: "nat \<Rightarrow> 'c atomic_flag_set \<Rightarrow> 'c atomic_flag_set" where
  "AddToPartiallyFreeList g s = s\<lparr>partially_free_list := g # partially_free_list s\<rparr>"

definition RemoveFromPartiallyFreeList :: "nat \<Rightarrow> 'c atomic_flag_set \<Rightarrow> 'c atomic_flag_set" where
  "RemoveFromPartiallyFreeList g s =
     s\<lparr>partially_free_list := remove1 g (partially_free_list s)\<rparr>"

definition SetActive :: "bool \<Rightarrow> nat \<times> u64 \<Rightarrow> 'c atomic_flag_set \<Rightarrow> 'c atomic_flag_set" where
  "SetActive active h s =
     (let (g, flag_bit) = h; gr = groups s g
      in set_group g (gr\<lparr>flags := (if active then flags gr OR flag_bit
                                 else flags gr AND NOT flag_bit)\<rparr>) s)"

definition ReleaseAtomicFlag :: "atomic_flag \<Rightarrow> 'c atomic_flag_set \<Rightarrow> 'c atomic_flag_set" where
  "ReleaseAtomicFlag f s =
     (case f of None \<Rightarrow> s
      | Some (g, flag_bit) \<Rightarrow>
        let s = SetActive False (g, flag_bit) s;
            s = (if IsFull (groups s g) then AddToPartiallyFreeList g s else s);
            index = IndexOfFirstFlagSet flag_bit; gr = groups s g;
            s = set_group g (gr\<lparr>flag_callbacks := (flag_callbacks gr)[index := None],
                               allocated_flags := allocated_flags gr AND NOT flag_bit\<rparr>) s
        in if IsEmpty (groups s g)
           then RemoveFromAllocList g (RemoveFromPartiallyFreeList g s) else s)"

definition AddFlag :: "'c \<Rightarrow> 'c atomic_flag_set \<Rightarrow> atomic_flag \<times> 'c atomic_flag_set" where
  "AddFlag callback s =
     (let s = (if partially_free_list s = []
               then let g = next_group s;
                        s = set_group g Group_new s\<lparr>next_group := g + 1\<rparr>
                    in AddToPartiallyFreeList g (AddToAllocList g s)
               else s);
          g = hd (partially_free_list s); gr = groups s g;
          first_unoccupied_index = FindFirstUnallocatedFlag gr;
          flag_bit = push_bit first_unoccupied_index 1;
          s = set_group g (gr\<lparr>flag_callbacks := (flag_callbacks gr)[first_unoccupied_index := Some callback],
                             allocated_flags := allocated_flags gr OR flag_bit\<rparr>) s;
          s = (if IsFull (groups s g) then RemoveFromPartiallyFreeList g s else s)
      in (Some (g, flag_bit), s))"

section \<open>Bits of a word\<close>

lemma first_flag_bit:
  fixes w :: u64
  assumes "w \<noteq> 0"
  shows "IndexOfFirstFlagSet w < 64" "bit w (IndexOfFirstFlagSet w)"
    "\<And>j. j < IndexOfFirstFlagSet w \<Longrightarrow> \<not> bit w j"
proof -
  let ?n = "IndexOfFirstFlagSet w"
  obtain i where i: "bit w i" using assms by (metis bit_eqI bit_0_eq bot_apply bot_bool_def)
  then have "i < 64" using bit_imp_le_length by fastforce
  then have "\<exists>x \<in> set [0..<64]. \<not> \<not> bit w x" using i by auto
  then have lt: "?n < length [0..<64]"
    unfolding IndexOfFirstFlagSet_def by (metis length_takeWhile_le le_neq_implies_less
        takeWhile_eq_all_conv takeWhile_eq_take take_all_iff order_refl)
  then show "?n < 64" by simp
  show "bit w ?n" using nth_length_takeWhile [of "\<lambda>i. \<not> bit w i" "[0..<64]"] lt
    by (simp add: IndexOfFirstFlagSet_def)
  show "\<not> bit w j" if "j < ?n" for j
  proof -
    have "[0..<64] ! j = j" using that lt by simp
    moreover have "takeWhile (\<lambda>i. \<not> bit w i) [0..<64] ! j = [0..<64] ! j"
      using that unfolding IndexOfFirstFlagSet_def by (rule takeWhile_nth)
    moreover have "takeWhile (\<lambda>i. \<not> bit w i) [0..<64] ! j \<in> set (takeWhile (\<lambda>i. \<not> bit w i) [0..<64])"
      using that unfolding IndexOfFirstFlagSet_def by (rule nth_mem)
    ultimately show ?thesis using set_takeWhileD by metis
  qed
qed

lemma bit_lt: "bit (w :: u64) i \<Longrightarrow> i < 64"
  using bit_imp_le_length by fastforce

lemma bit_single [simp]: "bit (2 ^ n :: u64) i \<longleftrightarrow> i = n \<and> n < 64"
  by (auto simp: bit_exp_iff)

lemma first_flag_single [simp]:
  assumes "n < 64"
  shows "IndexOfFirstFlagSet (2 ^ n) = n"
proof -
  have "bit (2 ^ n :: u64) n" using assms by simp
  then have "(2 ^ n :: u64) \<noteq> 0" by (metis bit_0_eq bot_apply bot_bool_def)
  from first_flag_bit(2) [OF this] show ?thesis by simp
qed

lemma clear_first_bits:
  fixes w :: u64
  assumes "w \<noteq> 0"
  shows "bit (w XOR push_bit (IndexOfFirstFlagSet w) 1) i \<longleftrightarrow> bit w i \<and> i \<noteq> IndexOfFirstFlagSet w"
  using first_flag_bit(1,2) [OF assms] by (auto simp: bit_xor_iff)

text \<open>The callbacks of the raised flags, lowest bit first: the inner loop of \<open>RunActiveCallbacks\<close>.\<close>

function run_flags :: "'c option list \<Rightarrow> u64 \<Rightarrow> 'c option list" where
  "run_flags callbacks active_flags =
     (if active_flags = 0 then []
      else let index = IndexOfFirstFlagSet active_flags
           in callbacks ! index # run_flags callbacks (active_flags XOR push_bit index 1))"
  by pat_completeness auto
termination
proof (relation "measure (\<lambda>(c, w). card {i. bit w i})", goal_cases)
  case 1
  then show ?case by simp
next
  case (2 callbacks w x)
  have fin: "finite {i. bit w i}" by (rule finite_subset [of _ "{..<64}"]) (auto dest: bit_imp_le_length)
  have e: "{i. bit (w XOR push_bit x 1) i} = {i. bit w i} - {x}"
    using clear_first_bits [OF 2(1)] 2(2) by auto
  have "x \<in> {i. bit w i}" using first_flag_bit(2) [OF 2(1)] 2(2) by simp
  from card_Diff1_less [OF fin this] show ?case by (simp only: in_measure split_conv e)
qed

declare run_flags.simps [simp del]

fun run_groups :: "nat list \<Rightarrow> 'c atomic_flag_set \<Rightarrow> 'c option list \<times> 'c atomic_flag_set" where
  "run_groups [] s = ([], s)"
| "run_groups (g # gs) s =
     (let active_flags = flags (groups s g);
          s = set_group g ((groups s g)\<lparr>flags := 0\<rparr>) s;
          ran = run_flags (flag_callbacks (groups s g)) active_flags;
          (rest, s) = run_groups gs s
      in (ran @ rest, s))"

definition RunActiveCallbacks :: "'c atomic_flag_set \<Rightarrow> 'c option list \<times> 'c atomic_flag_set" where
  "RunActiveCallbacks s = run_groups (alloc_list s) s"

section \<open>Invariant and abstraction\<close>

lemma distinct_count_list_one: "distinct xs \<Longrightarrow> x \<in> set xs \<Longrightarrow> count_list xs x = 1"
  by (induction xs) (auto simp: count_list_0_iff)

text \<open>The callback registered under bit \<open>i\<close> of group \<open>g\<close>, and whether its flag is raised.\<close>

definition registered :: "'c atomic_flag_set \<Rightarrow> nat \<times> nat \<Rightarrow> 'c option" where
  "registered s f =
     (if fst f \<in> set (alloc_list s) \<and> snd f < 64 then flag_callbacks (groups s (fst f)) ! snd f else None)"

definition raised :: "'c atomic_flag_set \<Rightarrow> nat \<times> nat \<Rightarrow> bool" where
  "raised s f \<longleftrightarrow> fst f \<in> set (alloc_list s) \<and> bit (flags (groups s (fst f))) (snd f)"

definition group_inv :: "'c flag_group \<Rightarrow> bool" where
  "group_inv g \<longleftrightarrow> length (flag_callbacks g) = 64 \<and>
     (\<forall>i < 64. bit (allocated_flags g) i \<longleftrightarrow> flag_callbacks g ! i \<noteq> None) \<and>
     (\<forall>i. bit (flags g) i \<longrightarrow> bit (allocated_flags g) i)"

definition flag_set_inv :: "'c atomic_flag_set \<Rightarrow> bool" where
  "flag_set_inv s \<longleftrightarrow> distinct (alloc_list s) \<and> distinct (partially_free_list s) \<and>
     set (partially_free_list s) = {g \<in> set (alloc_list s). \<not> IsFull (groups s g)} \<and>
     (\<forall>g \<in> set (alloc_list s). g < next_group s \<and> group_inv (groups s g) \<and> \<not> IsEmpty (groups s g))"

definition flag_of :: "nat \<times> nat \<Rightarrow> nat \<times> u64" where
  "flag_of f = (fst f, 2 ^ snd f)"

lemma set_group_reads [simp]:
  "groups (set_group g v s) = (groups s)(g := v)" "alloc_list (set_group g v s) = alloc_list s"
  "partially_free_list (set_group g v s) = partially_free_list s" "next_group (set_group g v s) = next_group s"
  by (simp_all add: set_group_def)

lemma AtomicFlagSet_new_inv:
  "flag_set_inv AtomicFlagSet_new" "registered AtomicFlagSet_new f = None" "\<not> raised AtomicFlagSet_new f"
  by (simp_all add: flag_set_inv_def AtomicFlagSet_new_def registered_def raised_def)

lemma registered_in:
  assumes "flag_set_inv s" "registered s f = Some c"
  shows "fst f \<in> set (alloc_list s)" "snd f < 64" "bit (allocated_flags (groups s (fst f))) (snd f)"
  using assms by (auto simp: registered_def flag_set_inv_def group_inv_def split: if_splits)

lemma raised_registered: "flag_set_inv s \<Longrightarrow> raised s f \<Longrightarrow> registered s f \<noteq> None"
  using bit_imp_le_length by (fastforce simp: raised_def registered_def flag_set_inv_def group_inv_def)

lemma SetActive_spec:
  assumes inv: "flag_set_inv s" and r: "registered s f = Some c"
  shows "flag_set_inv (SetActive b (flag_of f) s)" "registered (SetActive b (flag_of f) s) = registered s"
    "raised (SetActive b (flag_of f) s) f' \<longleftrightarrow> (if f' = f then b else raised s f')"
proof -
  obtain g i where f: "f = (g, i)" by force
  note ri = registered_in [OF inv r, unfolded f fst_conv snd_conv]
  show "flag_set_inv (SetActive b (flag_of f) s)"
    using inv ri by (auto simp: flag_set_inv_def SetActive_def flag_of_def f Let_def group_inv_def
        IsFull_def IsEmpty_def bit_or_iff bit_and_iff)
  show "registered (SetActive b (flag_of f) s) = registered s"
    by (auto simp: registered_def SetActive_def flag_of_def f Let_def fun_eq_iff)
  show "raised (SetActive b (flag_of f) s) f' \<longleftrightarrow> (if f' = f then b else raised s f')"
    using ri by (cases f') (auto simp: raised_def SetActive_def flag_of_def f Let_def bit_or_iff
        bit_and_iff bit_not_iff dest: bit_lt)
qed

lemma not_full_bit: "\<not> IsFull g \<Longrightarrow> NOT (allocated_flags g) \<noteq> 0"
  by (simp add: IsFull_def)

lemma free_bit:
  assumes "\<not> IsFull g"
  shows "FindFirstUnallocatedFlag g < 64" "\<not> bit (allocated_flags g) (FindFirstUnallocatedFlag g)"
  using first_flag_bit(1,2) [OF not_full_bit [OF assms]]
  by (auto simp: FindFirstUnallocatedFlag_def bit_not_iff)

text \<open>While a flag is being added or released its group \<open>g\<close> may be empty.\<close>

definition flag_set_inv_but :: "nat \<Rightarrow> 'c atomic_flag_set \<Rightarrow> bool" where
  "flag_set_inv_but h s \<longleftrightarrow> distinct (alloc_list s) \<and> distinct (partially_free_list s) \<and>
     set (partially_free_list s) = {g \<in> set (alloc_list s). \<not> IsFull (groups s g)} \<and>
     (\<forall>g \<in> set (alloc_list s). g < next_group s \<and> group_inv (groups s g) \<and>
        (g \<noteq> h \<longrightarrow> \<not> IsEmpty (groups s g)))"

lemma flag_set_inv_but_iff:
  "flag_set_inv s \<longleftrightarrow> flag_set_inv_but h s \<and> (h \<in> set (alloc_list s) \<longrightarrow> \<not> IsEmpty (groups s h))"
  by (auto simp: flag_set_inv_def flag_set_inv_but_def)

lemma Group_new_inv: "group_inv Group_new" "\<not> IsFull Group_new" "flag_callbacks Group_new = replicate 64 None"
  "flags Group_new = 0"
proof -
  have "(- 1 :: u64) \<noteq> 0" by simp
  then show "group_inv Group_new" "\<not> IsFull Group_new" "flag_callbacks Group_new = replicate 64 None"
    "flags Group_new = 0"
    by (simp_all add: group_inv_def Group_new_def IsFull_def kNumFlags_def)
qed

text \<open>The first part of \<open>AddFlag\<close> provides a group with a free bit at the head of the free list.\<close>

definition with_free_group :: "'c atomic_flag_set \<Rightarrow> 'c atomic_flag_set" where
  "with_free_group s =
     (if partially_free_list s = []
      then let g = next_group s; s = set_group g Group_new s\<lparr>next_group := g + 1\<rparr>
           in AddToPartiallyFreeList g (AddToAllocList g s)
      else s)"

lemma with_free_group_spec:
  assumes inv: "flag_set_inv s" and t: "t = with_free_group s" and g: "g = hd (partially_free_list t)"
  shows "flag_set_inv_but g t" "registered t = registered s" "raised t = raised s"
    "g \<in> set (alloc_list t)" "\<not> IsFull (groups t g)"
proof -
  have all: "flag_set_inv_but g t \<and> registered t = registered s \<and> raised t = raised s \<and>
    g \<in> set (alloc_list t) \<and> \<not> IsFull (groups t g)"
  proof (cases "partially_free_list s = []")
    case True
    then have ts: "alloc_list t = next_group s # alloc_list s" "partially_free_list t = [next_group s]"
      "groups t = (groups s)(next_group s := Group_new)" "next_group t = next_group s + 1"
      by (simp_all add: t with_free_group_def Let_def AddToPartiallyFreeList_def AddToAllocList_def)
    have gn: "g = next_group s" using g ts by simp
    have old: "\<forall>h \<in> set (alloc_list s). h < next_group s \<and> group_inv (groups s h) \<and> \<not> IsEmpty (groups s h) \<and>
        IsFull (groups s h)" "distinct (alloc_list s)"
      using inv True by (auto simp: flag_set_inv_def)
    have "flag_set_inv_but g t"
      using old by (auto simp: flag_set_inv_but_def ts gn Group_new_inv)
    moreover have "registered t = registered s" "raised t = raised s"
      using old by (auto simp: registered_def raised_def ts fun_eq_iff Group_new_inv)
    ultimately show ?thesis by (simp add: gn ts Group_new_inv)
  next
    case False
    then have "t = s" by (simp add: t with_free_group_def)
    moreover have "g \<in> set (partially_free_list s)" using False g \<open>t = s\<close> by simp
    then have "g \<in> set (alloc_list s)" "\<not> IsFull (groups s g)" using inv by (auto simp: flag_set_inv_def)
    moreover have "flag_set_inv_but g s" using inv flag_set_inv_but_iff by blast
    ultimately show ?thesis by simp
  qed
  then show "flag_set_inv_but g t" "registered t = registered s" "raised t = raised s"
    "g \<in> set (alloc_list t)" "\<not> IsFull (groups t g)" by blast+
qed

lemma AddFlag_unfold:
  "AddFlag c s =
     (let t = with_free_group s; g = hd (partially_free_list t); gr = groups t g;
          i = FindFirstUnallocatedFlag gr;
          u = set_group g (gr\<lparr>flag_callbacks := (flag_callbacks gr)[i := Some c],
                             allocated_flags := allocated_flags gr OR 2 ^ i\<rparr>) t;
          u = (if IsFull (groups u g) then RemoveFromPartiallyFreeList g u else u)
      in (Some (g, 2 ^ i), u))"
  unfolding AddFlag_def with_free_group_def push_bit_of_1 Let_def by simp

lemma AddFlag_spec:
  assumes inv: "flag_set_inv s"
  obtains f where "fst (AddFlag c s) = Some (flag_of f)" "registered s f = None"
    "flag_set_inv (snd (AddFlag c s))"
    "registered (snd (AddFlag c s)) = (registered s)(f := Some c)"
    "raised (snd (AddFlag c s)) = raised s"
proof -
  define t where "t = with_free_group s"
  define g where "g = hd (partially_free_list t)"
  define i where "i = FindFirstUnallocatedFlag (groups t g)"
  note wf = with_free_group_spec [OF inv t_def g_def]
  note fb = free_bit [OF wf(5), folded i_def]
  define gr where "gr = (groups t g)\<lparr>flag_callbacks := (flag_callbacks (groups t g))[i := Some c],
    allocated_flags := allocated_flags (groups t g) OR 2 ^ i\<rparr>"
  define u where "u = set_group g gr t"
  define v where "v = (if IsFull gr then RemoveFromPartiallyFreeList g u else u)"
  have res: "AddFlag c s = (Some (flag_of (g, i)), v)"
    unfolding AddFlag_unfold Let_def
    by (simp add: t_def g_def i_def gr_def u_def v_def flag_of_def)
  have gi: "group_inv (groups t g)" using wf(1,4) by (simp add: flag_set_inv_but_def)
  have "bit (allocated_flags gr) i" using fb by (simp add: gr_def bit_or_iff)
  then have ne: "\<not> IsEmpty gr" by (metis IsEmpty_def bit_0_eq bot_apply bot_bool_def)
  have gri: "group_inv gr"
    using gi fb by (auto simp: group_inv_def gr_def bit_or_iff nth_list_update)
  have vr: "groups v = (groups t)(g := gr)" "alloc_list v = alloc_list t" "next_group v = next_group t"
    "partially_free_list v = (if IsFull gr then remove1 g (partially_free_list t) else partially_free_list t)"
    by (simp_all add: v_def u_def RemoveFromPartiallyFreeList_def)
  have "flag_set_inv v"
    using wf(1,4,5) ne gri by (auto simp: flag_set_inv_def flag_set_inv_but_def vr)
  moreover have "registered v = (registered t)((g, i) := Some c)"
    using wf(4) fb gi by (auto simp: registered_def vr gr_def fun_eq_iff group_inv_def nth_list_update)
  moreover have "raised v = raised t" by (auto simp: raised_def vr gr_def fun_eq_iff)
  moreover have "registered s (g, i) = None"
    using gi fb wf(2,4) unfolding group_inv_def by (metis fst_conv snd_conv registered_def)
  ultimately show thesis using that [of "(g, i)"] res wf by simp
qed

lemma ReleaseAtomicFlag_spec:
  assumes inv: "flag_set_inv s" and r: "registered s f = Some c"
  shows "flag_set_inv (ReleaseAtomicFlag (Some (flag_of f)) s)"
    "registered (ReleaseAtomicFlag (Some (flag_of f)) s) = (registered s)(f := None)"
    "raised (ReleaseAtomicFlag (Some (flag_of f)) s) = (raised s)(f := False)"
proof -
  obtain g i where f: "f = (g, i)" by force
  define t where "t = SetActive False (flag_of f) s"
  note sa = SetActive_spec [OF inv r, of False, folded t_def]
  note ri = registered_in [OF sa(1), unfolded sa(2), OF r, unfolded f fst_conv snd_conv]
  define gr where "gr = (groups t g)\<lparr>flag_callbacks := (flag_callbacks (groups t g))[i := None],
    allocated_flags := allocated_flags (groups t g) AND NOT (2 ^ i)\<rparr>"
  define pf where "pf = (if IsFull (groups t g) then g # partially_free_list t else partially_free_list t)"
  define u where "u = t\<lparr>groups := (groups t)(g := gr), partially_free_list := pf\<rparr>"
  define v where "v = (if IsEmpty gr then u\<lparr>partially_free_list := remove1 g pf, alloc_list := remove1 g (alloc_list t)\<rparr> else u)"
  have fl: "flag_of f = (g, 2 ^ i)" by (simp add: flag_of_def f)
  have v: "ReleaseAtomicFlag (Some (flag_of f)) s = v"
    unfolding ReleaseAtomicFlag_def fl option.case prod.case Let_def
    unfolding fl [symmetric] t_def [symmetric]
    using ri(2) by (simp add: AddToPartiallyFreeList_def RemoveFromPartiallyFreeList_def
        RemoveFromAllocList_def set_group_def v_def u_def pf_def gr_def)
  have gi: "group_inv (groups t g)" using sa(1) ri by (simp add: flag_set_inv_def)
  have low: "\<not> bit (flags (groups t g)) i" using sa(3) [of f] ri by (simp add: raised_def f)
  have gri: "group_inv gr"
    using gi ri low by (auto simp: group_inv_def gr_def bit_and_iff bit_not_iff nth_list_update dest: bit_lt)
  have "\<not> bit (allocated_flags gr) i" by (simp add: gr_def bit_and_iff bit_not_iff ri)
  then have "bit (NOT (allocated_flags gr)) i" using ri(2) by (simp add: bit_not_iff)
  then have nf: "\<not> IsFull gr" by (auto simp: IsFull_def)
  have vs: "groups v = (groups t)(g := gr)" "next_group v = next_group t"
    "alloc_list v = (if IsEmpty gr then remove1 g (alloc_list t) else alloc_list t)"
    "partially_free_list v = (if IsEmpty gr then remove1 g pf else pf)"
    by (simp_all add: v_def u_def)
  have pfs: "set pf = {h \<in> set (alloc_list t). h = g \<or> \<not> IsFull (groups t h)}" "distinct pf"
    using sa(1) ri by (auto simp: flag_set_inv_def pf_def)
  have "flag_set_inv v"
    using sa(1) gri nf pfs by (auto simp: flag_set_inv_def vs)
  moreover have emp: "gr = gr \<Longrightarrow> IsEmpty gr \<Longrightarrow> j < 64 \<Longrightarrow> flag_callbacks gr ! j = None \<and> \<not> bit (flags gr) j" for j
    using gri by (auto simp: IsEmpty_def group_inv_def)
  moreover have "registered v = (registered t)(f := None)"
  proof (rule ext)
    fix x show "registered v x = ((registered t)(f := None)) x"
    proof (cases "fst x = g")
      case True
      have da: "distinct (alloc_list t)" using sa(1) by (simp add: flag_set_inv_def)
      show ?thesis
        using True emp [OF refl, of "snd x"] ri gi da
        by (cases x) (auto simp: registered_def vs f gr_def group_inv_def nth_list_update)
    next
      case False
      then show ?thesis by (cases x) (auto simp: registered_def vs f)
    qed
  qed
  moreover have "raised v = (raised t)(f := False)"
  proof (rule ext)
    fix x show "raised v x = ((raised t)(f := False)) x"
    proof (cases "fst x = g")
      case True
      have da: "distinct (alloc_list t)" using sa(1) by (simp add: flag_set_inv_def)
      show ?thesis
        using True emp [OF refl, of "snd x"] ri da low
        by (cases x) (auto simp: raised_def vs f gr_def dest: bit_lt)
    next
      case False
      then show ?thesis by (cases x) (auto simp: raised_def vs f)
    qed
  qed
  moreover have "raised t = (raised s)(f := False)" using sa(3) by (auto simp: fun_eq_iff)
  ultimately show "flag_set_inv (ReleaseAtomicFlag (Some (flag_of f)) s)"
    "registered (ReleaseAtomicFlag (Some (flag_of f)) s) = (registered s)(f := None)"
    "raised (ReleaseAtomicFlag (Some (flag_of f)) s) = (raised s)(f := False)"
    by (simp_all add: v sa(2))
qed

section \<open>Running the raised callbacks\<close>

definition raised_bits :: "u64 \<Rightarrow> nat list" where
  "raised_bits w = filter (bit w) [0..<64]"

lemma run_flags_spec: "run_flags cs w = map ((!) cs) (raised_bits w)"
proof (induction cs w rule: run_flags.induct)
  case (1 cs w)
  show ?case
  proof (cases "w = 0")
    case True
    then show ?thesis by (subst run_flags.simps) (simp add: raised_bits_def)
  next
    case False
    let ?n = "IndexOfFirstFlagSet w"
    have n: "?n < 64" "bit w ?n" "\<And>j. j < ?n \<Longrightarrow> \<not> bit w j" using first_flag_bit [OF False] by auto
    let ?v = "w XOR push_bit ?n 1"
    have bv: "bit ?v i \<longleftrightarrow> bit w i \<and> i \<noteq> ?n" for i using clear_first_bits [OF False] .
    have split: "[0..<64] = [0..<?n] @ ?n # [Suc ?n..<64]"
      using n(1) by (metis less_imp_le_nat upt_add_eq_append upt_conv_Cons le_add_diff_inverse zero_le)
    have "raised_bits w = ?n # filter (bit w) [Suc ?n..<64]"
      unfolding raised_bits_def split using n by simp
    moreover have "filter (bit ?v) [Suc ?n..<64] = filter (bit w) [Suc ?n..<64]"
      by (rule filter_cong) (auto simp: bv simp del: push_bit_of_1)
    then have "raised_bits ?v = filter (bit w) [Suc ?n..<64]"
      unfolding raised_bits_def split using n by (simp add: bv del: push_bit_of_1)
    ultimately show ?thesis
      using 1 [OF False refl] False by (subst run_flags.simps) (simp add: Let_def del: push_bit_of_1)
  qed
qed

text \<open>The raised flags of a set in the order \<open>RunActiveCallbacks\<close> visits them.\<close>

definition raised_flags :: "nat list \<Rightarrow> 'c atomic_flag_set \<Rightarrow> (nat \<times> nat) list" where
  "raised_flags gs s = concat (map (\<lambda>g. map (Pair g) (raised_bits (flags (groups s g)))) gs)"

lemma run_groups_spec_conj:
  assumes "distinct gs"
  shows "fst (run_groups gs s) = map (\<lambda>f. flag_callbacks (groups s (fst f)) ! snd f) (raised_flags gs s) \<and>
    groups (snd (run_groups gs s))
       = (\<lambda>g. if g \<in> set gs then (groups s g)\<lparr>flags := 0\<rparr> else groups s g) \<and>
    alloc_list (snd (run_groups gs s)) = alloc_list s \<and>
    partially_free_list (snd (run_groups gs s)) = partially_free_list s \<and>
    next_group (snd (run_groups gs s)) = next_group s"
  using assms
proof (induction gs arbitrary: s)
  case Nil
  show ?case by (simp add: raised_flags_def)
next
  case (Cons g gs)
  let ?s = "set_group g ((groups s g)\<lparr>flags := 0\<rparr>) s"
  have "raised_flags gs ?s = raised_flags gs s"
    using Cons(2) unfolding raised_flags_def by (intro arg_cong [where f = concat] map_cong) auto
  moreover have "flag_callbacks (groups ?s h) = flag_callbacks (groups s h)" for h by simp
  ultimately show ?case
    using Cons(1) [of ?s] Cons(2)
    by (auto simp: Let_def split_beta run_flags_spec raised_flags_def comp_def fun_eq_iff)
qed

lemmas run_groups_spec =
  run_groups_spec_conj [THEN conjunct1]
  run_groups_spec_conj [THEN conjunct2, THEN conjunct1]
  run_groups_spec_conj [THEN conjunct2, THEN conjunct2, THEN conjunct1]
  run_groups_spec_conj [THEN conjunct2, THEN conjunct2, THEN conjunct2, THEN conjunct1]
  run_groups_spec_conj [THEN conjunct2, THEN conjunct2, THEN conjunct2, THEN conjunct2]

lemma set_raised_flags: "set (raised_flags (alloc_list s) s) = {f. raised s f}"
  using bit_lt by (force simp: raised_flags_def raised_def raised_bits_def)

lemma distinct_raised_flags: "distinct gs \<Longrightarrow> distinct (raised_flags gs s)"
  by (induction gs) (auto simp: raised_flags_def raised_bits_def distinct_map inj_on_def)

lemma RunActiveCallbacks_spec:
  assumes inv: "flag_set_inv s"
  obtains fs where "set fs = {f. raised s f}" "distinct fs"
    "fst (RunActiveCallbacks s) = map (registered s) fs"
    "flag_set_inv (snd (RunActiveCallbacks s))" "registered (snd (RunActiveCallbacks s)) = registered s"
    "raised (snd (RunActiveCallbacks s)) = (\<lambda>_. False)"
proof -
  have d: "distinct (alloc_list s)" using inv by (simp add: flag_set_inv_def)
  note rg = run_groups_spec [OF d, where s = s]
  let ?fs = "raised_flags (alloc_list s) s" and ?t = "snd (RunActiveCallbacks s)"
  have "flag_callbacks (groups s (fst f)) ! snd f = registered s f" if "f \<in> set ?fs" for f
    using that set_raised_flags [of s] by (auto simp: registered_def raised_def dest: bit_lt)
  then have "fst (RunActiveCallbacks s) = map (registered s) ?fs"
    unfolding RunActiveCallbacks_def rg(1) by (intro map_cong) auto
  moreover have "flag_set_inv ?t"
    using inv unfolding flag_set_inv_def RunActiveCallbacks_def rg(2-5)
    by (auto simp: IsFull_def IsEmpty_def group_inv_def)
  moreover have "registered ?t = registered s"
    unfolding RunActiveCallbacks_def by (auto simp: registered_def rg(2-5) fun_eq_iff)
  moreover have "raised ?t = (\<lambda>_. False)"
    unfolding RunActiveCallbacks_def by (auto simp: raised_def rg(2-5) fun_eq_iff)
  ultimately show thesis using that set_raised_flags distinct_raised_flags [OF d] by blast
qed

section \<open>The contract its client uses\<close>

locale flag_registry =
  fixes finv :: "'s \<Rightarrow> bool"
    and reg :: "'s \<Rightarrow> 'f \<Rightarrow> 'c option"
    and up :: "'s \<Rightarrow> 'f \<Rightarrow> bool"
    and set_active :: "bool \<Rightarrow> 'f \<Rightarrow> 's \<Rightarrow> 's"
    and release :: "'f \<Rightarrow> 's \<Rightarrow> 's"
    and run :: "'s \<Rightarrow> 'c option list \<times> 's"
  assumes set_active_law: "finv s \<Longrightarrow> reg s f = Some c \<Longrightarrow>
      finv (set_active b f s) \<and> reg (set_active b f s) = reg s \<and>
      up (set_active b f s) = (up s)(f := b)"
    and release_law: "finv s \<Longrightarrow> reg s f = Some c \<Longrightarrow>
      finv (release f s) \<and> reg (release f s) = (reg s)(f := None) \<and> up (release f s) = (up s)(f := False)"
    and run_law: "finv s \<Longrightarrow> finv (snd (run s)) \<and> reg (snd (run s)) = reg s \<and>
      up (snd (run s)) = (\<lambda>_. False) \<and>
      (\<exists>fs. distinct fs \<and> set fs = {f. up s f} \<and> fst (run s) = map (reg s) fs)"
begin

text \<open>A raised flag has its callback run once by the next run, and not by the one after it.\<close>

lemma raise_then_run:
  assumes "finv s" "reg s f = Some c" "inj_on (reg s) {g. reg s g \<noteq> None}"
    "\<And>g. up s g \<Longrightarrow> reg s g \<noteq> None"
  shows "count_list (fst (run (set_active True f s))) (Some c) = 1"
    "fst (run (snd (run (set_active True f s)))) = []"
proof -
  let ?t = "set_active True f s"
  have t: "finv ?t" "reg ?t = reg s" "up ?t = (up s)(f := True)" using set_active_law [OF assms(1,2)] by auto
  obtain fs where fs: "distinct fs" "set fs = {g. up ?t g}" "fst (run ?t) = map (reg s) fs"
    using run_law [OF t(1)] t(2) by auto
  have "f \<in> set fs" using fs(2) t(3) by simp
  have sub: "set fs \<subseteq> {g. reg s g \<noteq> None}" using fs(2) t(3) assms(2,4) by (auto split: if_splits)
  have inj: "inj_on (reg s) (set fs)" using assms(3) sub inj_on_subset by blast
  have "distinct (fst (run ?t))" using fs(1,3) inj by (simp add: distinct_map)
  moreover have "Some c \<in> set (fst (run ?t))" using fs(3) \<open>f \<in> set fs\<close> assms(2) by force
  ultimately show "count_list (fst (run ?t)) (Some c) = 1" by (rule distinct_count_list_one)
  have u: "up (snd (run ?t)) = (\<lambda>_. False)" "finv (snd (run ?t))" using run_law [OF t(1)] by auto
  obtain gs where "set gs = {g. up (snd (run ?t)) g}" "fst (run (snd (run ?t))) = map (reg (snd (run ?t))) gs"
    using run_law [OF u(2)] by blast
  then show "fst (run (snd (run ?t))) = []" using u(1) by simp
qed

text \<open>A released flag's callback is never run again.\<close>

lemma release_silences:
  assumes "finv s" "reg s f = Some c" "inj_on (reg s) {g. reg s g \<noteq> None}"
    "\<And>g. up s g \<Longrightarrow> reg s g \<noteq> None"
  shows "Some c \<notin> set (fst (run (release f s)))"
proof
  assume a: "Some c \<in> set (fst (run (release f s)))"
  have r: "finv (release f s)" "reg (release f s) = (reg s)(f := None)" "up (release f s) = (up s)(f := False)"
    using release_law [OF assms(1,2)] by auto
  obtain fs where fs: "set fs = {g. up (release f s) g}" "fst (run (release f s)) = map (reg (release f s)) fs"
    using run_law [OF r(1)] by blast
  then obtain g where "g \<in> set fs" "reg (release f s) g = Some c" using a by auto
  then have g: "g \<noteq> f" "reg s g = Some c" using r(2) by (auto split: if_splits)
  have "g = f" by (rule inj_onD [OF assms(3)]) (simp_all add: g assms(2))
  then show False using g(1) by simp
qed

end

interpretation flag_set: flag_registry flag_set_inv registered raised
  "\<lambda>b f. SetActive b (flag_of f)" "\<lambda>f. ReleaseAtomicFlag (Some (flag_of f))" RunActiveCallbacks
proof
  fix s :: "'a atomic_flag_set" and f c b
  assume "flag_set_inv s" "registered s f = Some c"
  then show "flag_set_inv (SetActive b (flag_of f) s) \<and>
      registered (SetActive b (flag_of f) s) = registered s \<and>
      raised (SetActive b (flag_of f) s) = (raised s)(f := b)"
    using SetActive_spec [of s f c b] by (auto simp: fun_eq_iff)
next
  fix s :: "'a atomic_flag_set" and f c
  assume "flag_set_inv s" "registered s f = Some c"
  then show "flag_set_inv (ReleaseAtomicFlag (Some (flag_of f)) s) \<and>
      registered (ReleaseAtomicFlag (Some (flag_of f)) s) = (registered s)(f := None) \<and>
      raised (ReleaseAtomicFlag (Some (flag_of f)) s) = (raised s)(f := False)"
    using ReleaseAtomicFlag_spec [of s f c] by simp
next
  fix s :: "'a atomic_flag_set"
  assume inv: "flag_set_inv s"
  show "flag_set_inv (snd (RunActiveCallbacks s)) \<and>
      registered (snd (RunActiveCallbacks s)) = registered s \<and>
      raised (snd (RunActiveCallbacks s)) = (\<lambda>_. False) \<and>
      (\<exists>fs. distinct fs \<and> set fs = {f. raised s f} \<and> fst (RunActiveCallbacks s) = map (registered s) fs)"
    by (rule RunActiveCallbacks_spec [OF inv]) blast
qed

end
