(* ===== verification/Work_Deduplicator.thy ===== *)
theory Work_Deduplicator
  imports Base_Prelude
begin

text \<open>
  The model of \<open>work_deduplicator.h\<close> and \<open>.cc\<close>: one atomic word that decides which requests for
  work must wake the message pump. Every operation is one atomic access to the word, so an execution
  with other threads is a sequence of operations; \<open>wd_step\<close> is the interleaving of the main
  thread's phases of \<open>DoWork\<close> and \<open>DoDelayedWork\<close> with requests from any thread.
\<close>

unbundle bit_operations_syntax

section \<open>State and operations\<close>

datatype should_schedule_work = kScheduleImmediate | kNotNeeded

datatype next_task = kIsImmediate | kIsDelayed

definition kInDoWorkFlag :: u32 where "kInDoWorkFlag = 1"
definition kPendingDoWorkFlag :: u32 where "kPendingDoWorkFlag = 2"
definition kBoundFlag :: u32 where "kBoundFlag = 4"

definition kUnbound :: u32 where "kUnbound = 0"
definition kIdle :: u32 where "kIdle = kBoundFlag"
definition kDoWorkPending :: u32 where "kDoWorkPending = kPendingDoWorkFlag OR kBoundFlag"
definition kInDoWork :: u32 where "kInDoWork = kInDoWorkFlag OR kBoundFlag"

lemmas wd_flags = kInDoWorkFlag_def kPendingDoWorkFlag_def kBoundFlag_def kUnbound_def kIdle_def
  kDoWorkPending_def kInDoWork_def

record work_deduplicator =
  wd_state :: u32
  last_work_check_result :: should_schedule_work

definition WorkDeduplicator_new :: work_deduplicator where
  "WorkDeduplicator_new = \<lparr>wd_state = kUnbound, last_work_check_result = kNotNeeded\<rparr>"

definition BindToCurrentThread :: "work_deduplicator \<Rightarrow> should_schedule_work \<times> work_deduplicator" where
  "BindToCurrentThread d =
     (let previous_flags = wd_state d
      in (if previous_flags AND kPendingDoWorkFlag \<noteq> 0 then kScheduleImmediate else kNotNeeded,
          d\<lparr>wd_state := previous_flags OR kBoundFlag\<rparr>))"

definition OnWorkRequested :: "work_deduplicator \<Rightarrow> should_schedule_work \<times> work_deduplicator" where
  "OnWorkRequested d =
     (if wd_state d = kIdle then kScheduleImmediate else kNotNeeded,
      d\<lparr>wd_state := wd_state d OR kPendingDoWorkFlag\<rparr>)"

definition OnDelayedWorkRequested :: "work_deduplicator \<Rightarrow> should_schedule_work" where
  "OnDelayedWorkRequested d = (if wd_state d = kIdle then kScheduleImmediate else kNotNeeded)"

definition OnWorkStarted :: "work_deduplicator \<Rightarrow> work_deduplicator" where
  "OnWorkStarted d = d\<lparr>wd_state := kInDoWork\<rparr>"

definition WillCheckForMoreWork :: "work_deduplicator \<Rightarrow> work_deduplicator" where
  "WillCheckForMoreWork d = d\<lparr>wd_state := kInDoWork\<rparr>"

definition DidCheckForMoreWork ::
  "next_task \<Rightarrow> work_deduplicator \<Rightarrow> should_schedule_work \<times> work_deduplicator" where
  "DidCheckForMoreWork next_task d =
     (let d = d\<lparr>last_work_check_result := kScheduleImmediate\<rparr>;
          d = (if next_task = kIsImmediate then d\<lparr>wd_state := kDoWorkPending\<rparr>
               else let previous = wd_state d; d = d\<lparr>wd_state := previous AND NOT kInDoWorkFlag\<rparr>
                    in if previous AND kPendingDoWorkFlag = 0
                       then d\<lparr>last_work_check_result := kNotNeeded\<rparr> else d)
      in (last_work_check_result d, d))"

definition OnDelayedWorkStarted :: "work_deduplicator \<Rightarrow> work_deduplicator" where
  "OnDelayedWorkStarted d = OnWorkStarted d"

definition OnDelayedWorkEnded ::
  "next_task \<Rightarrow> work_deduplicator \<Rightarrow> should_schedule_work \<times> work_deduplicator" where
  "OnDelayedWorkEnded next_task d =
     (let prev_last_work_check_result = last_work_check_result d;
          (should_schedule_work, d) = DidCheckForMoreWork next_task d
      in (if prev_last_work_check_result = kScheduleImmediate then kNotNeeded
          else should_schedule_work, d))"

section \<open>Interleavings with the message pump\<close>

text \<open>
  The surroundings: the phase of the main thread, how many calls of \<open>DoWork\<close> the pump still owes,
  and whether some request was made that no check for more work has started after.
\<close>

datatype wd_phase = Between | Working bool | Checking bool

record wd_world =
  dedup :: work_deduplicator
  phase :: wd_phase
  owed :: nat
  unseen :: bool

definition owe :: "should_schedule_work \<Rightarrow> nat \<Rightarrow> nat" where
  "owe r n = (if r = kScheduleImmediate then n + 1 else n)"

definition bound :: "wd_world \<Rightarrow> bool" where
  "bound w \<longleftrightarrow> wd_state (dedup w) AND kBoundFlag \<noteq> 0"

inductive wd_step :: "wd_world \<Rightarrow> wd_world \<Rightarrow> bool" where
  bind: "\<not> bound w \<Longrightarrow> phase w = Between \<Longrightarrow> BindToCurrentThread (dedup w) = (r, d) \<Longrightarrow>
    wd_step w (w\<lparr>dedup := d, owed := owe r (owed w)\<rparr>)"
| request: "OnWorkRequested (dedup w) = (r, d) \<Longrightarrow>
    wd_step w (w\<lparr>dedup := d, owed := owe r (owed w), unseen := True\<rparr>)"
| start: "bound w \<Longrightarrow> phase w = Between \<Longrightarrow> 0 < owed w \<Longrightarrow>
    wd_step w (w\<lparr>dedup := OnWorkStarted (dedup w), phase := Working False, owed := owed w - 1\<rparr>)"
| start_delayed: "bound w \<Longrightarrow> phase w = Between \<Longrightarrow>
    wd_step w (w\<lparr>dedup := OnDelayedWorkStarted (dedup w), phase := Working True\<rparr>)"
| will_check: "phase w = Working k \<Longrightarrow>
    wd_step w (w\<lparr>dedup := WillCheckForMoreWork (dedup w), phase := Checking k, unseen := False\<rparr>)"
| did_check: "phase w = Checking False \<Longrightarrow> DidCheckForMoreWork n (dedup w) = (r, d) \<Longrightarrow>
    wd_step w (w\<lparr>dedup := d, phase := Between, owed := owe r (owed w)\<rparr>)"
| ended_delayed: "phase w = Checking True \<Longrightarrow> OnDelayedWorkEnded n (dedup w) = (r, d) \<Longrightarrow>
    wd_step w (w\<lparr>dedup := d, phase := Between, owed := owe r (owed w)\<rparr>)"

definition wd_init :: wd_world where
  "wd_init = \<lparr>dedup = WorkDeduplicator_new, phase = Between, owed = 0, unseen = False\<rparr>"

inductive wd_reachable :: "wd_world \<Rightarrow> bool" where
  init: "wd_reachable wd_init"
| step: "wd_reachable w \<Longrightarrow> wd_step w w' \<Longrightarrow> wd_reachable w'"

section \<open>No request is lost\<close>

definition wd_inv :: "wd_world \<Rightarrow> bool" where
  "wd_inv w \<longleftrightarrow> (let s = wd_state (dedup w); last = last_work_check_result (dedup w) in
     case phase w of
       Between \<Rightarrow> (s = 0 \<and> \<not> unseen w \<and> last = kNotNeeded) \<or> (s = 2 \<and> last = kNotNeeded) \<or>
         (s = 4 \<or> s = 6 \<and> 0 < owed w) \<and> (last = kScheduleImmediate \<or> unseen w \<longrightarrow> 0 < owed w)
     | Working k \<Rightarrow> (s = 5 \<or> s = 7) \<and> (k \<and> last = kScheduleImmediate \<longrightarrow> 0 < owed w)
     | Checking k \<Rightarrow> (s = 5 \<or> s = 7) \<and> (unseen w \<longrightarrow> s = 7) \<and>
         (k \<and> last = kScheduleImmediate \<longrightarrow> 0 < owed w))"

lemma should_schedule_work_cases: "r = kNotNeeded \<longleftrightarrow> r \<noteq> kScheduleImmediate"
  by (cases r) auto

lemma wd_step_inv: "wd_step w w' \<Longrightarrow> wd_inv w \<Longrightarrow> wd_inv w'"
proof (induction rule: wd_step.induct)
  case (bind w r d)
  then show ?case
    by (auto simp: wd_inv_def Let_def bound_def BindToCurrentThread_def wd_flags owe_def split: if_splits)
next
  case (request w r d)
  then show ?case
    by (auto simp: wd_inv_def Let_def OnWorkRequested_def wd_flags owe_def split: wd_phase.splits if_splits)
next
  case (start w)
  then show ?case by (simp add: wd_inv_def Let_def OnWorkStarted_def wd_flags)
next
  case (start_delayed w)
  then show ?case
    by (auto simp: wd_inv_def Let_def OnDelayedWorkStarted_def OnWorkStarted_def bound_def wd_flags)
next
  case (will_check w k)
  then show ?case by (auto simp: wd_inv_def Let_def WillCheckForMoreWork_def wd_flags)
next
  case (did_check w n r d)
  then show ?case
    by (cases n) (auto simp: wd_inv_def Let_def DidCheckForMoreWork_def wd_flags owe_def split: if_splits)
next
  case (ended_delayed w n r d)
  then show ?case
    by (cases n) (auto simp: wd_inv_def Let_def OnDelayedWorkEnded_def DidCheckForMoreWork_def wd_flags
        owe_def should_schedule_work_cases split: if_splits)
qed

lemma wd_reachable_inv: "wd_reachable w \<Longrightarrow> wd_inv w"
proof (induction rule: wd_reachable.induct)
  case init
  show ?case by (simp add: wd_inv_def wd_init_def WorkDeduplicator_new_def wd_flags)
next
  case (step w w')
  then show ?case using wd_step_inv by blast
qed

section \<open>Without delayed work the pump owes at most one call\<close>

definition wd_dedup_inv :: "wd_world \<Rightarrow> bool" where
  "wd_dedup_inv w \<longleftrightarrow> (let s = wd_state (dedup w) in
     case phase w of
       Between \<Rightarrow> (s = 0 \<or> s = 2 \<or> s = 4) \<and> owed w = 0 \<or> s = 6 \<and> owed w = 1
     | Working k \<Rightarrow> \<not> k \<and> (s = 5 \<or> s = 7) \<and> owed w = 0
     | Checking k \<Rightarrow> \<not> k \<and> (s = 5 \<or> s = 7) \<and> owed w = 0)"

lemma wd_step_dedup:
  "wd_step w w' \<Longrightarrow> wd_dedup_inv w \<Longrightarrow> phase w' \<noteq> Working True \<Longrightarrow> wd_dedup_inv w'"
proof (induction rule: wd_step.induct)
  case (bind w r d)
  then show ?case
    by (auto simp: wd_dedup_inv_def Let_def bound_def BindToCurrentThread_def wd_flags owe_def split: if_splits)
next
  case (request w r d)
  then show ?case
    by (auto simp: wd_dedup_inv_def Let_def OnWorkRequested_def wd_flags owe_def
        split: wd_phase.splits if_splits)
next
  case (start w)
  then show ?case by (auto simp: wd_dedup_inv_def Let_def OnWorkStarted_def wd_flags)
next
  case (start_delayed w)
  then show ?case by simp
next
  case (will_check w k)
  then show ?case by (auto simp: wd_dedup_inv_def Let_def WillCheckForMoreWork_def wd_flags)
next
  case (did_check w n r d)
  then show ?case
    by (cases n) (auto simp: wd_dedup_inv_def Let_def DidCheckForMoreWork_def wd_flags owe_def split: if_splits)
next
  case (ended_delayed w n r d)
  then show ?case by (simp add: wd_dedup_inv_def)
qed

inductive wd_run :: "wd_world list \<Rightarrow> bool" where
  one: "wd_run [wd_init]"
| more: "wd_run (w # ws) \<Longrightarrow> wd_step w w' \<Longrightarrow> wd_run (w' # w # ws)"

lemma wd_run_dedup:
  "wd_run ws \<Longrightarrow> \<forall>w \<in> set ws. phase w \<noteq> Working True \<Longrightarrow> wd_dedup_inv (hd ws)"
proof (induction rule: wd_run.induct)
  case one
  show ?case by (simp add: wd_dedup_inv_def wd_init_def WorkDeduplicator_new_def wd_flags)
next
  case (more w ws w')
  then show ?case using wd_step_dedup by auto
qed

end
