(* ===== verification/Operations_Controller.thy ===== *)
theory Operations_Controller
  imports Base_Prelude
begin

text \<open>
  The model of \<open>base/task/common/operations_controller.h\<close> and \<open>.cc\<close>: one 32-bit word holds two
  flags and a counter. Each atomic read-modify-write is one operation on the word, and a call that
  makes two of them (a rejected attempt that undoes its increment, for example) is two steps that
  other threads may run between. The counter stays below \<open>2\<^sup>3\<^sup>0\<close> as long as fewer attempts are
  pending or rejected, which the step relation states as the guard of an attempt.
\<close>

unbundle bit_operations_syntax

section \<open>The word\<close>

definition kShuttingDownBitMask :: u32 where "kShuttingDownBitMask = push_bit 31 1"
definition kAcceptingOperationsBitMask :: u32 where "kAcceptingOperationsBitMask = push_bit 30 1"
definition kFlagsBitMask :: u32 where
  "kFlagsBitMask = kShuttingDownBitMask OR kAcceptingOperationsBitMask"
definition kCountBitMask :: u32 where "kCountBitMask = NOT kFlagsBitMask"

datatype op_state = kRejectingOperations | kAcceptingOperations | kShuttingDown

definition ExtractCount :: "u32 \<Rightarrow> u32" where
  "ExtractCount value = value AND kCountBitMask"

definition ExtractState :: "u32 \<Rightarrow> op_state" where
  "ExtractState value =
     (if value AND kShuttingDownBitMask \<noteq> 0 then kShuttingDown
      else if value AND kAcceptingOperationsBitMask \<noteq> 0 then kAcceptingOperations
      else kRejectingOperations)"

section \<open>Operations\<close>

record operations_controller =
  state_and_count :: u32
  shutdown_complete :: bool

definition OperationsController_new :: operations_controller where
  "OperationsController_new = \<lparr>state_and_count = 0, shutdown_complete = False\<rparr>"

definition DecrementBy :: "u32 \<Rightarrow> operations_controller \<Rightarrow> operations_controller" where
  "DecrementBy n c =
     (let prev_value = state_and_count c; c = c\<lparr>state_and_count := prev_value - n\<rparr>
      in if ExtractState prev_value = kShuttingDown \<and> ExtractCount prev_value = n
         then c\<lparr>shutdown_complete := True\<rparr> else c)"

text \<open>The first access of \<open>StartAcceptingOperations\<close> yields the number of rejected attempts that
  its second access takes back; the call returns whether there were any.\<close>

definition StartAccepting_or :: "operations_controller \<Rightarrow> u32 \<times> operations_controller" where
  "StartAccepting_or c =
     (ExtractCount (state_and_count c),
      c\<lparr>state_and_count := state_and_count c OR kAcceptingOperationsBitMask\<rparr>)"

definition StartAcceptingOperations :: "operations_controller \<Rightarrow> bool \<times> operations_controller" where
  "StartAcceptingOperations c =
     (let (num_rejected, c) = StartAccepting_or c in (num_rejected \<noteq> 0, DecrementBy num_rejected c))"

text \<open>What an attempt finds: a token, no token, or no token with its increment still to be undone.\<close>

definition TryBegin_add :: "operations_controller \<Rightarrow> op_state \<times> operations_controller" where
  "TryBegin_add c =
     (ExtractState (state_and_count c), c\<lparr>state_and_count := state_and_count c + 1\<rparr>)"

definition TryBeginOperation :: "operations_controller \<Rightarrow> bool \<times> operations_controller" where
  "TryBeginOperation c =
     (let (st, c) = TryBegin_add c
      in case st of kRejectingOperations \<Rightarrow> (False, c)
         | kAcceptingOperations \<Rightarrow> (True, c)
         | kShuttingDown \<Rightarrow> (False, DecrementBy 1 c))"

definition Shutdown_or :: "operations_controller \<Rightarrow> op_state \<times> u32 \<times> operations_controller" where
  "Shutdown_or c =
     (ExtractState (state_and_count c), ExtractCount (state_and_count c),
      c\<lparr>state_and_count := state_and_count c OR kShuttingDownBitMask\<rparr>)"

section \<open>Interleavings\<close>

text \<open>
  \<open>running\<close> counts the tokens held, \<open>undo\<close> the rejected attempts between their two accesses,
  \<open>undo_start\<close> and \<open>undo_shut\<close> the decrements still due in \<open>StartAcceptingOperations\<close> and
  \<open>ShutdownAndWaitForZeroOperations\<close>.
\<close>

datatype shut_phase = Open | Undoing | Waiting | Returned

record oc_world =
  ctl :: operations_controller
  running :: nat
  undo :: nat
  undo_start :: nat
  undo_shut :: nat
  shut :: shut_phase

definition oc_init :: oc_world where
  "oc_init = \<lparr>ctl = OperationsController_new, running = 0, undo = 0, undo_start = 0, undo_shut = 0,
     shut = Open\<rparr>"

definition dec_ctl :: "nat \<Rightarrow> oc_world \<Rightarrow> oc_world" where
  "dec_ctl n w = w\<lparr>ctl := DecrementBy (of_nat n) (ctl w)\<rparr>"

inductive oc_step :: "oc_world \<Rightarrow> oc_world \<Rightarrow> bool" where
  start: "ExtractState (state_and_count (ctl w)) = kRejectingOperations \<Longrightarrow>
    StartAccepting_or (ctl w) = (n, c) \<Longrightarrow> oc_step w (w\<lparr>ctl := c, undo_start := unat n\<rparr>)"
| start_undo: "undo_start w = n \<Longrightarrow> oc_step w (dec_ctl n w\<lparr>undo_start := 0\<rparr>)"
| attempt: "unat (ExtractCount (state_and_count (ctl w))) + 1 < 2 ^ 30 \<Longrightarrow>
    TryBegin_add (ctl w) = (st, c) \<Longrightarrow>
    oc_step w (w\<lparr>ctl := c, running := (if st = kAcceptingOperations then running w + 1 else running w),
                undo := (if st = kShuttingDown then undo w + 1 else undo w)\<rparr>)"
| attempt_undo: "undo w = Suc n \<Longrightarrow> oc_step w (dec_ctl 1 w\<lparr>undo := n\<rparr>)"
| finish: "running w = Suc n \<Longrightarrow> oc_step w (dec_ctl 1 w\<lparr>running := n\<rparr>)"
| shutdown: "shut w = Open \<Longrightarrow> Shutdown_or (ctl w) = (st, n, c) \<Longrightarrow>
    oc_step w (w\<lparr>ctl := c, undo_shut := (if st = kRejectingOperations then unat n else 0),
                shut := (if st = kRejectingOperations then Undoing
                         else if n \<noteq> 0 then Waiting else Returned)\<rparr>)"
| shutdown_undo: "shut w = Undoing \<Longrightarrow> undo_shut w = n \<Longrightarrow>
    oc_step w (dec_ctl n w\<lparr>undo_shut := 0, shut := Returned\<rparr>)"
| wake: "shut w = Waiting \<Longrightarrow> shutdown_complete (ctl w) \<Longrightarrow> oc_step w (w\<lparr>shut := Returned\<rparr>)"

inductive oc_reachable :: "oc_world \<Rightarrow> bool" where
  init: "oc_reachable oc_init"
| step: "oc_reachable w \<Longrightarrow> oc_step w w' \<Longrightarrow> oc_reachable w'"

section \<open>Words with flags\<close>

definition oc_word :: "nat \<Rightarrow> bool \<Rightarrow> bool \<Rightarrow> u32" where
  "oc_word n a s = of_nat n + (if a then 2 ^ 30 else 0) + (if s then 2 ^ 31 else 0)"

lemma unat_oc_word:
  assumes "n < 2 ^ 30"
  shows "unat (oc_word n a s) = n + (if a then 2 ^ 30 else 0) + (if s then 2 ^ 31 else 0)"
proof -
  let ?v = "n + (if a then 2 ^ 30 else 0) + (if s then 2 ^ 31 else 0)"
  have "oc_word n a s = of_nat ?v" by (simp add: oc_word_def)
  moreover have "?v < 2 ^ LENGTH(32)" using assms by simp
  ultimately show ?thesis by (simp only: unat_of_nat mod_less)
qed

lemma unat_flags:
  assumes "n < 2 ^ 30"
  shows "unat (oc_word n a s) div 2 ^ 30 = (if a then 1 else 0) + (if s then 2 else 0)"
    "unat (oc_word n a s) div 2 ^ 31 = (if s then 1 else 0)" "unat (oc_word n a s) mod 2 ^ 30 = n"
proof -
  let ?f = "(if a then 1 else 0) + (if s then 2 else 0) :: nat"
  have v: "unat (oc_word n a s) = n + ?f * 2 ^ 30" unfolding unat_oc_word [OF assms] by simp
  show d: "unat (oc_word n a s) div 2 ^ 30 = ?f" unfolding v using assms by (simp only: div_mult_self1) simp
  have "unat (oc_word n a s) div 2 ^ 31 = unat (oc_word n a s) div 2 ^ 30 div 2"
    by (simp add: div_mult2_eq [symmetric])
  then show "unat (oc_word n a s) div 2 ^ 31 = (if s then 1 else 0)" unfolding d by simp
  show "unat (oc_word n a s) mod 2 ^ 30 = n" unfolding v using assms by (simp only: mod_mult_self1 mod_less)
qed

lemma bit_oc_word:
  assumes "n < 2 ^ 30"
  shows "bit (oc_word n a s) 30 \<longleftrightarrow> a" "bit (oc_word n a s) 31 \<longleftrightarrow> s"
proof -
  have b: "bit (oc_word n a s) k \<longleftrightarrow> odd (unat (oc_word n a s) div 2 ^ k)" for k
  proof -
    have "bit (unat (oc_word n a s)) k \<longleftrightarrow> bit (oc_word n a s) k" by (simp add: bit_unsigned_iff)
    then show ?thesis by (simp add: bit_iff_odd)
  qed
  show "bit (oc_word n a s) 30 \<longleftrightarrow> a" "bit (oc_word n a s) 31 \<longleftrightarrow> s"
    unfolding b unat_flags [OF assms] by (cases a; cases s; simp)+
qed

lemma ExtractState_oc_word:
  assumes "n < 2 ^ 30"
  shows "ExtractState (oc_word n a s) =
    (if s then kShuttingDown else if a then kAcceptingOperations else kRejectingOperations)"
proof -
  have "oc_word n a s AND kShuttingDownBitMask = 0 \<longleftrightarrow> \<not> s"
    "oc_word n a s AND kAcceptingOperationsBitMask = 0 \<longleftrightarrow> \<not> a"
    unfolding kShuttingDownBitMask_def kAcceptingOperationsBitMask_def push_bit_of_1
      and_exp_eq_0_iff_not_bit bit_oc_word [OF assms] by (rule refl)+
  then show ?thesis unfolding ExtractState_def by argo
qed

lemma kCountBitMask_mask: "kCountBitMask = mask 30"
  by (simp add: kCountBitMask_def kFlagsBitMask_def kShuttingDownBitMask_def kAcceptingOperationsBitMask_def
      mask_eq_exp_minus_1)

lemma ExtractCount_oc_word:
  assumes "n < 2 ^ 30"
  shows "ExtractCount (oc_word n a s) = of_nat n" "unat (ExtractCount (oc_word n a s)) = n"
proof -
  note m = kCountBitMask_mask
  have "unat (ExtractCount (oc_word n a s)) = take_bit 30 (unat (oc_word n a s))"
    unfolding ExtractCount_def m take_bit_eq_mask [symmetric] by (rule unsigned_take_bit_eq)
  also have "\<dots> = n" unfolding take_bit_eq_mod by (rule unat_flags [OF assms])
  finally show "unat (ExtractCount (oc_word n a s)) = n" .
  then show "ExtractCount (oc_word n a s) = of_nat n" by (metis of_nat_unat ucast_id)
qed

lemma oc_word_or:
  assumes "n < 2 ^ 30"
  shows "oc_word n False s OR kAcceptingOperationsBitMask = oc_word n True s"
    "oc_word n a False OR kShuttingDownBitMask = oc_word n a True"
proof -
  have "oc_word n False s AND 2 ^ 30 = 0" "oc_word n a False AND 2 ^ 31 = 0"
    unfolding and_exp_eq_0_iff_not_bit using bit_oc_word [OF assms] by auto
  from this [THEN disjunctive_add_eq_or]
  show "oc_word n False s OR kAcceptingOperationsBitMask = oc_word n True s"
    "oc_word n a False OR kShuttingDownBitMask = oc_word n a True"
    unfolding kShuttingDownBitMask_def kAcceptingOperationsBitMask_def push_bit_of_1
    by (simp_all add: oc_word_def algebra_simps)
qed

lemma oc_word_arith:
  "oc_word n a s + 1 = oc_word (n + 1) a s"
  "m \<le> n \<Longrightarrow> oc_word n a s - of_nat m = oc_word (n - m) a s"
  by (simp_all add: oc_word_def algebra_simps of_nat_diff)

lemmas oc_word_reads = ExtractState_oc_word ExtractCount_oc_word

section \<open>The counter accounts for every operation\<close>

definition oc_rep :: "oc_world \<Rightarrow> nat \<Rightarrow> bool \<Rightarrow> bool \<Rightarrow> bool" where
  "oc_rep w n a s \<longleftrightarrow> n < 2 ^ 30 \<and> state_and_count (ctl w) = oc_word n a s"

definition oc_inv :: "oc_world \<Rightarrow> bool" where
  "oc_inv w \<longleftrightarrow> (\<exists>n a s. oc_rep w n a s \<and> (s \<longleftrightarrow> shut w \<noteq> Open) \<and>
     (a \<or> s \<longrightarrow> n = running w + undo w + undo_start w + undo_shut w) \<and>
     (\<not> s \<longrightarrow> undo w = 0) \<and> (shut w \<noteq> Undoing \<longrightarrow> undo_shut w = 0) \<and>
     (\<not> a \<or> shut w = Undoing \<longrightarrow> running w = 0 \<and> undo_start w = 0) \<and>
     (shutdown_complete (ctl w) \<longrightarrow> s \<and> running w = 0) \<and>
     (shut w = Returned \<longrightarrow> running w = 0) \<and>
     (shut w = Waiting \<and> n = 0 \<longrightarrow> shutdown_complete (ctl w)))"

lemma oc_invI:
  assumes "oc_rep w n a s" "s \<longleftrightarrow> shut w \<noteq> Open"
    "a \<or> s \<Longrightarrow> n = running w + undo w + undo_start w + undo_shut w" "\<not> s \<Longrightarrow> undo w = 0"
    "shut w \<noteq> Undoing \<Longrightarrow> undo_shut w = 0" "\<not> a \<or> shut w = Undoing \<Longrightarrow> running w = 0"
    "\<not> a \<or> shut w = Undoing \<Longrightarrow> undo_start w = 0"
    "shutdown_complete (ctl w) \<Longrightarrow> s" "shutdown_complete (ctl w) \<Longrightarrow> running w = 0"
    "shut w = Returned \<Longrightarrow> running w = 0" "shut w = Waiting \<Longrightarrow> n = 0 \<Longrightarrow> shutdown_complete (ctl w)"
  shows "oc_inv w"
  unfolding oc_inv_def by (rule exI [of _ n], rule exI [of _ a], rule exI [of _ s]) (use assms in blast)

lemma dec_ctl_rep:
  assumes "oc_rep w n a s" "m \<le> n"
  shows "state_and_count (DecrementBy (of_nat m) (ctl w)) = oc_word (n - m) a s"
    "shutdown_complete (DecrementBy (of_nat m) (ctl w)) \<longleftrightarrow>
       shutdown_complete (ctl w) \<or> s \<and> n = m"
proof -
  have n: "n < 2 ^ 30" "state_and_count (ctl w) = oc_word n a s" using assms by (auto simp: oc_rep_def)
  have "(of_nat n :: u32) = of_nat m \<longleftrightarrow> n = m"
  proof
    assume "(of_nat n :: u32) = of_nat m"
    then have "unat (of_nat n :: u32) = unat (of_nat m :: u32)" by simp
    moreover have "n < 2 ^ LENGTH(32)" "m < 2 ^ LENGTH(32)" using n assms(2) by auto
    ultimately show "n = m" by (simp only: unat_of_nat mod_less)
  qed simp
  then show "state_and_count (DecrementBy (of_nat m) (ctl w)) = oc_word (n - m) a s"
    "shutdown_complete (DecrementBy (of_nat m) (ctl w)) \<longleftrightarrow> shutdown_complete (ctl w) \<or> s \<and> n = m"
    using n assms(2) oc_word_arith(2) [of m n a s]
    by (auto simp: DecrementBy_def Let_def oc_word_reads)
qed

lemma oc_step_inv:
  assumes "oc_step w w'" "oc_inv w"
  shows "oc_inv w'"
proof -
  obtain n a s where rep: "oc_rep w n a s" and sh: "s \<longleftrightarrow> shut w \<noteq> Open"
    and cnt: "a \<or> s \<Longrightarrow> n = running w + undo w + undo_start w + undo_shut w"
    and ns: "\<not> s \<Longrightarrow> undo w = 0" "shut w \<noteq> Undoing \<Longrightarrow> undo_shut w = 0"
    and na: "\<not> a \<or> shut w = Undoing \<Longrightarrow> running w = 0 \<and> undo_start w = 0"
    and sc: "shutdown_complete (ctl w) \<Longrightarrow> s \<and> running w = 0" "shut w = Returned \<Longrightarrow> running w = 0"
      "shut w = Waiting \<Longrightarrow> n = 0 \<Longrightarrow> shutdown_complete (ctl w)"
    using assms(2) unfolding oc_inv_def by blast
  have n: "n < 2 ^ 30" and v: "state_and_count (ctl w) = oc_word n a s" using rep by (auto simp: oc_rep_def)
  note facts = sh cnt ns na sc
  note dec = dec_ctl_rep [OF rep]
  show ?thesis
    using assms(1)
  proof cases
    case (start k c)
    then have st: "\<not> a" "\<not> s" using n v by (auto simp: oc_word_reads split: if_splits)
    have "oc_rep w' n True False"
      using st start n v by (auto simp: oc_rep_def StartAccepting_or_def oc_word_or oc_word_reads)
    moreover have "undo_start w' = n"
      using start ExtractCount_oc_word(2) [OF n, of a s] v by (auto simp: StartAccepting_or_def)
    moreover have "shut w' = Open" "undo w' = 0" "undo_shut w' = 0" "running w' = 0"
      "\<not> shutdown_complete (ctl w')"
      using start st facts by (auto simp: StartAccepting_or_def)
    ultimately show ?thesis by (intro oc_invI [of w' n True False]) simp_all
  next
    case (start_undo k)
    have k: "k \<le> n" using start_undo(2) cnt na by (cases a) auto
    have "oc_rep w' (n - k) a s" using start_undo n dec(1) [OF k] by (simp add: oc_rep_def dec_ctl_def)
    then show ?thesis
      by (rule oc_invI) (use start_undo facts dec(2) [OF k] k in \<open>auto simp: dec_ctl_def\<close>)
  next
    case (attempt st c)
    have c: "st = (if s then kShuttingDown else if a then kAcceptingOperations else kRejectingOperations)"
      "state_and_count c = oc_word (n + 1) a s" "shutdown_complete c = shutdown_complete (ctl w)"
      using attempt n v by (auto simp: TryBegin_add_def oc_word_reads oc_word_arith)
    moreover have "n + 1 < 2 ^ 30" using attempt(2) unfolding v ExtractCount_oc_word(2) [OF n] .
    ultimately have "oc_rep w' (n + 1) a s" using attempt by (simp add: oc_rep_def)
    then show ?thesis
      by (rule oc_invI) (use attempt(1) facts c in \<open>auto split: if_splits\<close>)
  next
    case (attempt_undo k)
    then have k: "1 \<le> n" "s" using cnt ns by auto
    have "oc_rep w' (n - 1) a s"
      using attempt_undo n dec(1) [OF k(1)] by (simp add: oc_rep_def dec_ctl_def)
    then show ?thesis
      by (rule oc_invI) (use attempt_undo facts dec(2) [OF k(1)] k in \<open>auto simp: dec_ctl_def\<close>)
  next
    case (finish k)
    then have k: "1 \<le> n" "a" "shut w \<noteq> Undoing" using cnt na by auto
    have "oc_rep w' (n - 1) a s" using finish n dec(1) [OF k(1)] by (simp add: oc_rep_def dec_ctl_def)
    then show ?thesis
      by (rule oc_invI) (use finish facts dec(2) [OF k(1)] k in \<open>auto simp: dec_ctl_def\<close>)
  next
    case (shutdown st k c)
    then have s: "\<not> s" using sh by simp
    then have c: "st = (if a then kAcceptingOperations else kRejectingOperations)" "k = of_nat n"
      "state_and_count c = oc_word n a True" "shutdown_complete c = shutdown_complete (ctl w)"
      using shutdown n v by (auto simp: Shutdown_or_def oc_word_reads oc_word_or)
    have u: "unat (of_nat n :: u32) = n" using ExtractCount_oc_word [OF n, of a s] by simp
    then have z: "(of_nat n :: u32) = 0 \<longleftrightarrow> n = 0" by auto
    have "oc_rep w' n a True" using shutdown c n by (simp add: oc_rep_def)
    then show ?thesis
      by (rule oc_invI) (use shutdown(1,2) facts c u z s in \<open>auto split: if_splits\<close>)
  next
    case (shutdown_undo k)
    then have k: "k \<le> n" "s" "running w = 0" using cnt sh na by auto
    have "oc_rep w' (n - k) a s" using shutdown_undo n dec(1) [OF k(1)] by (simp add: oc_rep_def dec_ctl_def)
    then show ?thesis
      by (rule oc_invI) (use shutdown_undo facts dec(2) [OF k(1)] k in \<open>auto simp: dec_ctl_def\<close>)
  next
    case wake
    then have "oc_rep w' n a s" using n v by (simp add: oc_rep_def)
    then show ?thesis unfolding wake(1)
      by (rule oc_invI) (use wake(2,3) sh cnt ns na sc(1) in simp_all)
  qed
qed

lemma oc_reachable_inv: "oc_reachable w \<Longrightarrow> oc_inv w"
proof (induction rule: oc_reachable.induct)
  case init
  have "oc_rep oc_init 0 False False"
    by (simp add: oc_rep_def oc_init_def OperationsController_new_def oc_word_def)
  then show ?case by (rule oc_invI) (simp_all add: oc_init_def OperationsController_new_def)
next
  case (step w w')
  then show ?case using oc_step_inv by blast
qed

end
