(* ===== verification/Sched_State.thy ===== *)
theory Sched_State
  imports Sched_Tasks Lazy_Deque Intrusive_Heap Small_Priority_Queue Atomic_Flag_Set Work_Deduplicator
    Operations_Controller
begin

text \<open>
  The state of one \<open>SequenceManagerImpl\<close> and of everything it owns: the work queues and task queues,
  the two \<open>WorkQueueSets\<close>, the \<open>TaskQueueSelector\<close>, the time domains and the manager itself. The
  C++ objects point at each other, so the objects live in stores indexed by names: a task queue is a
  number, a work queue is its task queue's number with its type, a time domain is a number (0 is the
  \<open>RealTimeDomain\<close>). The model is that of a release build (\<open>NDEBUG\<close>, no \<open>DCHECK\<close>): each
  \<open>DCHECK\<close> of the code is a precondition that the lemmas carry or discharge.
\<close>

section \<open>Work queues\<close>

datatype work_queue_type = kImmediate | kDelayed

type_synonym wq_id = "nat \<times> work_queue_type"

record work_queue =
  tasks :: "Task deque"
  work_queue_sets :: "work_queue_type option"
  work_queue_set_index :: nat
  wq_fence :: enqueue_order

definition WorkQueue_new :: work_queue where
  "WorkQueue_new = \<lparr>tasks = deque_new, work_queue_sets = None, work_queue_set_index = 0,
     wq_fence = EnqueueOrder_none\<rparr>"

definition wq_Empty :: "work_queue \<Rightarrow> bool" where
  "wq_Empty q = dq_empty (tasks q)"

definition wq_Size :: "work_queue \<Rightarrow> nat" where
  "wq_Size q = dq_size (tasks q)"

definition GetFrontTask :: "work_queue \<Rightarrow> Task option" where
  "GetFrontTask q = (if dq_empty (tasks q) then None else dq_front (tasks q))"

definition GetBackTask :: "work_queue \<Rightarrow> Task option" where
  "GetBackTask q = (if dq_empty (tasks q) then None else dq_back (tasks q))"

definition wq_BlockedByFence :: "work_queue \<Rightarrow> bool" where
  "wq_BlockedByFence q =
     (if wq_fence q = EnqueueOrder_none then False
      else dq_empty (tasks q) \<or> wq_fence q \<le> task_enqueue_order (the (dq_front (tasks q))))"

definition GetFrontTaskEnqueueOrder :: "work_queue \<Rightarrow> enqueue_order option" where
  "GetFrontTaskEnqueueOrder q =
     (if dq_empty (tasks q) \<or> wq_BlockedByFence q then None
      else Some (task_enqueue_order (the (dq_front (tasks q)))))"

section \<open>Task queues\<close>

record delayed_incoming =
  di_queue :: "Task list"
  pending_high_res_tasks :: int

record task_queue =
  tq_name :: string
  immediate_incoming_queue :: "Task deque"
  tq_unregistered :: bool
  immediate_work_queue_empty :: bool
  post_immediate_task_should_schedule_work :: bool
  time_domain :: "nat option"
  delayed_incoming_queue :: delayed_incoming
  is_enabled :: bool
  current_fence :: enqueue_order
  delayed_fence :: "int option"
  scheduled_wake_up :: "delayed_wake_up option"
  on_next_wake_up_changed_callback :: bool
  delayed_fence_allowed :: bool
  should_monitor_quiescence :: bool
  should_notify_observers :: bool
  task_poster :: operations_controller
  empty_queues_to_reload_handle :: atomic_flag

section \<open>Time domains\<close>

record scheduled_delayed_wake_up =
  sw_wake_up :: delayed_wake_up
  sw_resolution :: wake_up_resolution
  sw_queue :: nat

record time_domain =
  delayed_wake_up_queue :: "scheduled_delayed_wake_up intrusive_heap"
  pending_high_res_wake_up_count :: int

section \<open>The whole state\<close>

text \<open>What the manager asks of its \<open>ThreadController\<close> and of the queues' observers, in order.\<close>

datatype event =
    EvScheduleWork
  | EvSetNextDelayedDoWork int
  | EvOnNextWakeUpChanged nat int

record deferred_task =
  df_task :: Task
  df_queue :: nat
  df_type :: work_queue_type

record executing_task =
  et_task :: Task
  et_queue :: nat
  et_priority :: nat

type_synonym oldest_task_enqueue_order = "enqueue_order \<times> wq_id"

record sched =
  work_queues :: "wq_id \<Rightarrow> work_queue"
  heap_handles :: "wq_id \<Rightarrow> nat"
  work_queue_heaps :: "work_queue_type \<Rightarrow> nat \<Rightarrow> oldest_task_enqueue_order intrusive_heap"
  non_empty_set_counts :: "nat \<Rightarrow> int"
  active_priorities :: small_priority_queue
  selection_count :: int
  immediate_starvation_count :: nat
  task_queues :: "nat \<Rightarrow> task_queue"
  time_domains :: "nat \<Rightarrow> time_domain"
  wake_up_handles :: "nat \<Rightarrow> nat"
  clock :: "nat \<Rightarrow> int"
  cancelled :: "nat \<Rightarrow> bool"
  enqueue_order_generator :: u64
  empty_queues_to_reload :: "nat atomic_flag_set"
  add_queue_time_to_tasks :: bool
  registered_domains :: "nat list"
  active_queues :: "nat list"
  queues_to_gracefully_shutdown :: "nat list"
  queues_to_delete :: "nat list"
  nesting_depth :: int
  non_nestable_task_queue :: "deferred_task list"
  task_execution_stack :: "executing_task list"
  memory_reclaim_scheduled :: bool
  next_time_to_reclaim_memory :: int
  task_was_run_on_quiescence_monitored_queue :: bool
  events :: "event list"

abbreviation wq :: "sched \<Rightarrow> wq_id \<Rightarrow> work_queue" where "wq s q \<equiv> work_queues s q"
abbreviation tq :: "sched \<Rightarrow> nat \<Rightarrow> task_queue" where "tq s q \<equiv> task_queues s q"

definition upd_wq :: "wq_id \<Rightarrow> (work_queue \<Rightarrow> work_queue) \<Rightarrow> sched \<Rightarrow> sched" where
  "upd_wq q f s = s\<lparr>work_queues := (work_queues s)(q := f (work_queues s q))\<rparr>"

definition upd_tq :: "nat \<Rightarrow> (task_queue \<Rightarrow> task_queue) \<Rightarrow> sched \<Rightarrow> sched" where
  "upd_tq q f s = s\<lparr>task_queues := (task_queues s)(q := f (task_queues s q))\<rparr>"

definition emit :: "event \<Rightarrow> sched \<Rightarrow> sched" where
  "emit e s = s\<lparr>events := events s @ [e]\<rparr>"

text \<open>\<open>SequenceManagerImpl::ScheduleWork\<close> and \<open>SetNextDelayedDoWork\<close> hand the request to the thread
  controller.\<close>

definition ScheduleWork :: "sched \<Rightarrow> sched" where
  "ScheduleWork s = emit EvScheduleWork s"

definition SetNextDelayedDoWork :: "int \<Rightarrow> sched \<Rightarrow> sched" where
  "SetNextDelayedDoWork run_time s = emit (EvSetNextDelayedDoWork run_time) s"

definition GetNextSequenceNumber :: "sched \<Rightarrow> enqueue_order \<times> sched" where
  "GetNextSequenceNumber s =
     (let (n, c) = GenerateNext (enqueue_order_generator s) in (n, s\<lparr>enqueue_order_generator := c\<rparr>))"

section \<open>Reading the state through an update\<close>

lemma upd_wq_reads [simp]:
  "work_queues (upd_wq q f s) = (work_queues s)(q := f (work_queues s q))"
  "heap_handles (upd_wq q f s) = heap_handles s"
  "work_queue_heaps (upd_wq q f s) = work_queue_heaps s"
  "non_empty_set_counts (upd_wq q f s) = non_empty_set_counts s"
  "active_priorities (upd_wq q f s) = active_priorities s"
  "selection_count (upd_wq q f s) = selection_count s"
  "immediate_starvation_count (upd_wq q f s) = immediate_starvation_count s"
  "task_queues (upd_wq q f s) = task_queues s"
  "time_domains (upd_wq q f s) = time_domains s"
  "wake_up_handles (upd_wq q f s) = wake_up_handles s"
  "clock (upd_wq q f s) = clock s"
  "cancelled (upd_wq q f s) = cancelled s"
  "enqueue_order_generator (upd_wq q f s) = enqueue_order_generator s"
  "empty_queues_to_reload (upd_wq q f s) = empty_queues_to_reload s"
  "events (upd_wq q f s) = events s"
  by (simp_all add: upd_wq_def)

lemma upd_tq_reads [simp]:
  "work_queues (upd_tq q f s) = work_queues s"
  "heap_handles (upd_tq q f s) = heap_handles s"
  "work_queue_heaps (upd_tq q f s) = work_queue_heaps s"
  "non_empty_set_counts (upd_tq q f s) = non_empty_set_counts s"
  "active_priorities (upd_tq q f s) = active_priorities s"
  "selection_count (upd_tq q f s) = selection_count s"
  "immediate_starvation_count (upd_tq q f s) = immediate_starvation_count s"
  "task_queues (upd_tq q f s) = (task_queues s)(q := f (task_queues s q))"
  "time_domains (upd_tq q f s) = time_domains s"
  "wake_up_handles (upd_tq q f s) = wake_up_handles s"
  "clock (upd_tq q f s) = clock s"
  "cancelled (upd_tq q f s) = cancelled s"
  "enqueue_order_generator (upd_tq q f s) = enqueue_order_generator s"
  "empty_queues_to_reload (upd_tq q f s) = empty_queues_to_reload s"
  "events (upd_tq q f s) = events s"
  by (simp_all add: upd_tq_def)

lemma emit_reads [simp]:
  "work_queues (emit e s) = work_queues s"
  "heap_handles (emit e s) = heap_handles s"
  "work_queue_heaps (emit e s) = work_queue_heaps s"
  "non_empty_set_counts (emit e s) = non_empty_set_counts s"
  "active_priorities (emit e s) = active_priorities s"
  "selection_count (emit e s) = selection_count s"
  "immediate_starvation_count (emit e s) = immediate_starvation_count s"
  "task_queues (emit e s) = task_queues s"
  "time_domains (emit e s) = time_domains s"
  "wake_up_handles (emit e s) = wake_up_handles s"
  "clock (emit e s) = clock s"
  "cancelled (emit e s) = cancelled s"
  "enqueue_order_generator (emit e s) = enqueue_order_generator s"
  "empty_queues_to_reload (emit e s) = empty_queues_to_reload s"
  "events (emit e s) = events s @ [e]"
  by (simp_all add: emit_def)

lemma GetFrontTask_list: "dq_inv (tasks q) \<Longrightarrow> GetFrontTask q = (case dq_list (tasks q) of [] \<Rightarrow> None | t # _ \<Rightarrow> Some t)"
  using dq_front_ok [of "tasks q"] by (auto simp: GetFrontTask_def dq_empty_iff split: list.splits)

text \<open>The enqueue order a work queue shows to its set, in terms of the task list.\<close>

lemma GetFrontTaskEnqueueOrder_list:
  assumes "dq_inv (tasks q)"
  shows "GetFrontTaskEnqueueOrder q =
    (case dq_list (tasks q) of [] \<Rightarrow> None
     | t # _ \<Rightarrow> if wq_fence q \<noteq> 0 \<and> wq_fence q \<le> task_enqueue_order t then None
                else Some (task_enqueue_order t))"
  using assms dq_front_ok [OF assms]
  by (auto simp: GetFrontTaskEnqueueOrder_def wq_BlockedByFence_def EnqueueOrder_none_def dq_empty_iff
      split: list.splits)

lemma wq_BlockedByFence_list:
  assumes "dq_inv (tasks q)"
  shows "wq_BlockedByFence q \<longleftrightarrow> wq_fence q \<noteq> 0 \<and>
    (case dq_list (tasks q) of [] \<Rightarrow> True | t # _ \<Rightarrow> wq_fence q \<le> task_enqueue_order t)"
  using assms dq_front_ok [OF assms]
  by (auto simp: wq_BlockedByFence_def EnqueueOrder_none_def dq_empty_iff split: list.splits)

end
