(* ===== verification/Work_Queue_Sets.thy ===== *)
theory Work_Queue_Sets
  imports Sched_State
begin

text \<open>
  The model of \<open>work_queue_sets.h\<close> and \<open>.cc\<close>, and of the two observer methods of the
  \<open>TaskQueueSelector\<close> that it calls. The invariant says what the heaps hold relative to a map \<open>R\<close> of
  what each work queue has last reported (its set and its enqueue order); an operation changes that
  map at one queue.
\<close>

section \<open>The heaps\<close>

definition oldest_le :: "oldest_task_enqueue_order \<Rightarrow> oldest_task_enqueue_order \<Rightarrow> bool" where
  "oldest_le a b = (fst a \<le> fst b)"

definition oldest_dflt :: oldest_task_enqueue_order where
  "oldest_dflt = (0, (0, kImmediate))"

interpretation oldest: heap_order oldest_le UNIV snd
  by unfold_locales (auto simp: oldest_le_def)

definition on_heap ::
  "work_queue_type \<Rightarrow> nat \<Rightarrow>
   ((oldest_task_enqueue_order, wq_id) heap_state \<Rightarrow> (oldest_task_enqueue_order, wq_id) heap_state) \<Rightarrow>
   sched \<Rightarrow> sched" where
  "on_heap w p f s =
     (let (h, hs) = f (work_queue_heaps s w p, heap_handles s)
      in s\<lparr>work_queue_heaps := (work_queue_heaps s)(w := (work_queue_heaps s w)(p := h)),
           heap_handles := hs\<rparr>)"

definition IsSetEmpty :: "work_queue_type \<Rightarrow> nat \<Rightarrow> sched \<Rightarrow> bool" where
  "IsSetEmpty w set_index s = heap_empty (work_queue_heaps s w set_index)"

definition heap_handle_valid :: "wq_id \<Rightarrow> sched \<Rightarrow> bool" where
  "heap_handle_valid q s = HeapHandle_IsValid (heap_handles s q)"

section \<open>The observer: TaskQueueSelector\<close>

definition kMaxVeryHighPriorityStarvationScore :: int where "kMaxVeryHighPriorityStarvationScore = 3"
definition kMaxHighPriorityStarvationScore :: int where "kMaxHighPriorityStarvationScore = 5"
definition kMaxNormalPriorityStarvationScore :: int where "kMaxNormalPriorityStarvationScore = 10"
definition kMaxLowPriorityStarvationScore :: int where "kMaxLowPriorityStarvationScore = 15"
definition kMaxDelayedStarvationTasks :: nat where "kMaxDelayedStarvationTasks = 3"

definition per_priority_starvation_tolerance :: "nat \<Rightarrow> int" where
  "per_priority_starvation_tolerance p =
     [int64_min, 0, kMaxVeryHighPriorityStarvationScore, kMaxHighPriorityStarvationScore,
      kMaxNormalPriorityStarvationScore, kMaxLowPriorityStarvationScore, int64_max] ! p"

definition GetSortKeyForPriority :: "nat \<Rightarrow> sched \<Rightarrow> int" where
  "GetSortKeyForPriority priority s =
     (if priority = kControlPriority then int64_min
      else if priority = kBestEffortPriority then int64_max
      else selection_count s + per_priority_starvation_tolerance priority)"

definition set_count :: "nat \<Rightarrow> int \<Rightarrow> sched \<Rightarrow> sched" where
  "set_count p n s = s\<lparr>non_empty_set_counts := (non_empty_set_counts s)(p := n)\<rparr>"

definition WorkQueueSetBecameEmpty :: "nat \<Rightarrow> sched \<Rightarrow> sched" where
  "WorkQueueSetBecameEmpty set_index s =
     (let s = set_count set_index (non_empty_set_counts s set_index - 1) s
      in if non_empty_set_counts s set_index = 0
         then s\<lparr>active_priorities := spq_erase set_index (active_priorities s)\<rparr> else s)"

definition WorkQueueSetBecameNonEmpty :: "nat \<Rightarrow> sched \<Rightarrow> sched" where
  "WorkQueueSetBecameNonEmpty set_index s =
     (let s = set_count set_index (non_empty_set_counts s set_index + 1) s
      in if non_empty_set_counts s set_index = 1
         then s\<lparr>active_priorities :=
                 spq_insert (GetSortKeyForPriority set_index s) set_index (active_priorities s)\<rparr>
         else s)"

section \<open>Operations\<close>

definition AssignToWorkQueueSets :: "wq_id \<Rightarrow> work_queue_type option \<Rightarrow> sched \<Rightarrow> sched" where
  "AssignToWorkQueueSets q w s = upd_wq q (\<lambda>x. x\<lparr>work_queue_sets := w\<rparr>) s"

definition AssignSetIndex :: "wq_id \<Rightarrow> nat \<Rightarrow> sched \<Rightarrow> sched" where
  "AssignSetIndex q i s = upd_wq q (\<lambda>x. x\<lparr>work_queue_set_index := i\<rparr>) s"

text \<open>Inserting into a set and removing from one, with the notification of the observer: the code
  several operations share.\<close>

definition insert_notify :: "work_queue_type \<Rightarrow> nat \<Rightarrow> enqueue_order \<Rightarrow> wq_id \<Rightarrow> sched \<Rightarrow> sched" where
  "insert_notify w set_index enqueue_order q s =
     (let was_empty = heap_empty (work_queue_heaps s w set_index);
          s = on_heap w set_index (heap_insert oldest_dflt oldest_le snd (enqueue_order, q)) s
      in if was_empty then WorkQueueSetBecameNonEmpty set_index s else s)"

definition erase_notify :: "work_queue_type \<Rightarrow> nat \<Rightarrow> wq_id \<Rightarrow> sched \<Rightarrow> sched" where
  "erase_notify w set_index q s =
     (let s = on_heap w set_index (heap_erase oldest_le snd (heap_handles s q)) s
      in if heap_empty (work_queue_heaps s w set_index) then WorkQueueSetBecameEmpty set_index s else s)"

definition wqs_AddQueue :: "work_queue_type \<Rightarrow> wq_id \<Rightarrow> nat \<Rightarrow> sched \<Rightarrow> sched" where
  "wqs_AddQueue w q set_index s =
     (let has_enqueue_order = GetFrontTaskEnqueueOrder (wq s q);
          s = AssignToWorkQueueSets q (Some w) s; s = AssignSetIndex q set_index s
      in case has_enqueue_order of None \<Rightarrow> s
         | Some enqueue_order \<Rightarrow> insert_notify w set_index enqueue_order q s)"

definition wqs_RemoveQueue :: "work_queue_type \<Rightarrow> wq_id \<Rightarrow> sched \<Rightarrow> sched" where
  "wqs_RemoveQueue w q s =
     (let s = AssignToWorkQueueSets q None s
      in if \<not> heap_handle_valid q s then s
         else erase_notify w (work_queue_set_index (wq s q)) q s)"

definition wqs_ChangeSetIndex :: "work_queue_type \<Rightarrow> wq_id \<Rightarrow> nat \<Rightarrow> sched \<Rightarrow> sched" where
  "wqs_ChangeSetIndex w q set_index s =
     (let has_enqueue_order = GetFrontTaskEnqueueOrder (wq s q);
          old_set = work_queue_set_index (wq s q);
          s = AssignSetIndex q set_index s
      in case has_enqueue_order of None \<Rightarrow> s
         | Some enqueue_order \<Rightarrow>
             let s = on_heap w old_set (heap_erase oldest_le snd (heap_handles s q)) s;
                 was_empty = heap_empty (work_queue_heaps s w set_index);
                 s = on_heap w set_index (heap_insert oldest_dflt oldest_le snd (enqueue_order, q)) s;
                 s = (if heap_empty (work_queue_heaps s w old_set)
                      then WorkQueueSetBecameEmpty old_set s else s)
             in if was_empty then WorkQueueSetBecameNonEmpty set_index s else s)"

definition OnQueuesFrontTaskChanged :: "work_queue_type \<Rightarrow> wq_id \<Rightarrow> sched \<Rightarrow> sched" where
  "OnQueuesFrontTaskChanged w q s =
     (let set_index = work_queue_set_index (wq s q)
      in case GetFrontTaskEnqueueOrder (wq s q) of
           Some enqueue_order \<Rightarrow>
             on_heap w set_index (heap_ChangeKey oldest_le snd (heap_handles s q) (enqueue_order, q)) s
         | None \<Rightarrow> erase_notify w set_index q s)"

text \<open>Only called with a front task that is visible, so the enqueue order it writes is the front's.\<close>

definition OnTaskPushedToEmptyQueue :: "work_queue_type \<Rightarrow> wq_id \<Rightarrow> sched \<Rightarrow> sched" where
  "OnTaskPushedToEmptyQueue w q s =
     (let enqueue_order = (case GetFrontTaskEnqueueOrder (wq s q) of None \<Rightarrow> 0 | Some e \<Rightarrow> e)
      in insert_notify w (work_queue_set_index (wq s q)) enqueue_order q s)"

definition OnPopMinQueueInSet :: "work_queue_type \<Rightarrow> wq_id \<Rightarrow> sched \<Rightarrow> sched" where
  "OnPopMinQueueInSet w q s =
     (let set_index = work_queue_set_index (wq s q)
      in case GetFrontTaskEnqueueOrder (wq s q) of
           Some enqueue_order \<Rightarrow>
             on_heap w set_index (heap_ReplaceMin oldest_le snd (enqueue_order, q)) s
         | None \<Rightarrow>
             let s = on_heap w set_index (heap_Pop oldest_le snd) s
             in if heap_empty (work_queue_heaps s w set_index)
                then WorkQueueSetBecameEmpty set_index s else s)"

definition OnQueueBlocked :: "work_queue_type \<Rightarrow> wq_id \<Rightarrow> sched \<Rightarrow> sched" where
  "OnQueueBlocked w q s =
     (if \<not> heap_handle_valid q s then s
      else erase_notify w (work_queue_set_index (wq s q)) q s)"

definition GetOldestQueueInSet :: "work_queue_type \<Rightarrow> nat \<Rightarrow> sched \<Rightarrow> wq_id option" where
  "GetOldestQueueInSet w set_index s =
     (let h = work_queue_heaps s w set_index in if heap_empty h then None else Some (snd (heap_Min h)))"

definition GetOldestQueueAndEnqueueOrderInSet ::
  "work_queue_type \<Rightarrow> nat \<Rightarrow> sched \<Rightarrow> (wq_id \<times> enqueue_order) option" where
  "GetOldestQueueAndEnqueueOrderInSet w set_index s =
     (let h = work_queue_heaps s w set_index
      in if heap_empty h then None else Some (snd (heap_Min h), fst (heap_Min h)))"

section \<open>Frame\<close>

text \<open>The operations on the sets change the heaps, the handles, the counts and the active priorities
  and nothing else.\<close>

definition sets_frame :: "sched \<Rightarrow> sched \<Rightarrow> bool" where
  "sets_frame s t \<longleftrightarrow> t = s\<lparr>heap_handles := heap_handles t, work_queue_heaps := work_queue_heaps t,
     non_empty_set_counts := non_empty_set_counts t, active_priorities := active_priorities t\<rparr>"

lemma sets_frame_refl: "sets_frame s s"
  by (simp add: sets_frame_def)

lemma sets_frame_trans:
  assumes "sets_frame s t" "sets_frame t u"
  shows "sets_frame s u"
  using assms by (cases s; cases t; cases u) (simp add: sets_frame_def)

lemma sets_frame_reads:
  assumes "sets_frame s t"
  shows "work_queues t = work_queues s" "selection_count t = selection_count s"
    "immediate_starvation_count t = immediate_starvation_count s" "task_queues t = task_queues s"
    "time_domains t = time_domains s" "wake_up_handles t = wake_up_handles s" "clock t = clock s"
    "cancelled t = cancelled s" "enqueue_order_generator t = enqueue_order_generator s"
    "empty_queues_to_reload t = empty_queues_to_reload s" "events t = events s"
  using assms by (cases s; cases t; simp add: sets_frame_def)+

lemma on_heap_frame: "sets_frame s (on_heap w p f s)"
  by (cases s) (simp add: sets_frame_def on_heap_def split_beta Let_def)

lemma observer_frame:
  "sets_frame s (WorkQueueSetBecameEmpty p s)" "sets_frame s (WorkQueueSetBecameNonEmpty p s)"
  by (cases s; simp add: sets_frame_def WorkQueueSetBecameEmpty_def WorkQueueSetBecameNonEmpty_def
      set_count_def Let_def)+

lemma notify_frame: "sets_frame s (insert_notify w p e q s)" "sets_frame s (erase_notify w p q s)"
  unfolding insert_notify_def erase_notify_def Let_def
  using sets_frame_trans [OF on_heap_frame observer_frame(1)]
    sets_frame_trans [OF on_heap_frame observer_frame(2)] on_heap_frame by auto

lemma sets_ops_frame:
  "sets_frame s (OnQueuesFrontTaskChanged w q s)" "sets_frame s (OnTaskPushedToEmptyQueue w q s)"
  "sets_frame s (OnPopMinQueueInSet w q s)" "sets_frame s (OnQueueBlocked w q s)"
  unfolding OnQueuesFrontTaskChanged_def OnTaskPushedToEmptyQueue_def OnPopMinQueueInSet_def
    OnQueueBlocked_def Let_def
  using notify_frame on_heap_frame sets_frame_refl sets_frame_trans [OF on_heap_frame observer_frame(1)]
  by (auto split: option.splits)

section \<open>What the sets hold\<close>

type_synonym report = "wq_id \<Rightarrow> (nat \<times> enqueue_order) option"

definition reported :: "report \<Rightarrow> work_queue_type \<Rightarrow> nat \<Rightarrow> oldest_task_enqueue_order set" where
  "reported R w p = {(k, q). R q = Some (p, k) \<and> snd q = w}"

abbreviation oldest_inv :: "(oldest_task_enqueue_order, wq_id) heap_state \<Rightarrow> bool" where
  "oldest_inv \<equiv> heap_inv oldest_le snd"

definition heaps_rep :: "report \<Rightarrow> sched \<Rightarrow> bool" where
  "heaps_rep R s \<longleftrightarrow>
     (\<forall>w. \<forall>p < kQueuePriorityCount. oldest_inv (work_queue_heaps s w p, heap_handles s) \<and>
        heap_elems (work_queue_heaps s w p) = reported R w p) \<and>
     (\<forall>q. R q = None \<longrightarrow> heap_handles s q = 0) \<and>
     (\<forall>q p k. R q = Some (p, k) \<longrightarrow> p < kQueuePriorityCount)"

lemma heaps_repD:
  assumes "heaps_rep R s" "p < kQueuePriorityCount"
  shows "oldest_inv (work_queue_heaps s w p, heap_handles s)"
    "heap_elems (work_queue_heaps s w p) = reported R w p"
    "heap_empty (work_queue_heaps s w p) \<longleftrightarrow> reported R w p = {}"
  using assms by (auto simp: heaps_rep_def simp flip: heap_elems_empty)

lemma reported_owner: "x \<in> snd ` reported R w p \<longleftrightarrow> snd x = w \<and> (\<exists>k. R x = Some (p, k))"
  by (force simp: reported_def)

lemma reported_other:
  assumes "r = None \<or> (\<exists>k. r = Some (p, k))" "R q = None \<or> (\<exists>k. R q = Some (p, k))"
    "(w, p') \<noteq> (snd q, p)"
  shows "reported (R(q := r)) w p' = reported R w p'"
  using assms by (auto simp: reported_def)

lemma heap_inv_frame:
  assumes "heap_inv le hid (h, hs)" "\<And>e. e \<in> heap_elems h \<Longrightarrow> hs' (hid e) = hs (hid e)"
  shows "heap_inv le hid (h, hs')"
  using assms by (auto simp: heap_inv_def handles_ok_def heap_elems_def)

text \<open>One heap was replaced so that it holds what the changed report says.\<close>

lemma heaps_rep_update:
  assumes rep: "heaps_rep R s" and p: "p < kQueuePriorityCount"
    and new: "oldest_inv (h', hs')" "heap_elems h' = reported (R(q := r)) (snd q) p"
    and at: "r = None \<or> (\<exists>k. r = Some (p, k))" "R q = None \<or> (\<exists>k. R q = Some (p, k))"
    and frame: "\<And>x. x \<noteq> q \<Longrightarrow> x \<notin> snd ` reported R (snd q) p \<Longrightarrow> hs' x = heap_handles s x"
    and none: "r = None \<Longrightarrow> hs' q = 0"
  shows "heaps_rep (R(q := r))
    (s\<lparr>work_queue_heaps := (work_queue_heaps s)(snd q := (work_queue_heaps s (snd q))(p := h')),
       heap_handles := hs'\<rparr>)" (is "heaps_rep ?R ?s")
proof -
  have "oldest_inv (work_queue_heaps ?s w p', heap_handles ?s) \<and>
      heap_elems (work_queue_heaps ?s w p') = reported ?R w p'"
    if p': "p' < kQueuePriorityCount" for w p'
  proof (cases "(w, p') = (snd q, p)")
    case True
    then show ?thesis using new by simp
  next
    case False
    have same: "work_queue_heaps ?s w p' = work_queue_heaps s w p'" using False by auto
    have inv: "oldest_inv (work_queue_heaps s w p', heap_handles s)"
      and el: "heap_elems (work_queue_heaps s w p') = reported R w p'"
      using heaps_repD [OF rep p'] by blast+
    have "hs' (snd e) = heap_handles s (snd e)" if "e \<in> heap_elems (work_queue_heaps s w p')" for e
    proof -
      have o: "snd e \<in> snd ` reported R w p'" using that unfolding el by (rule imageI)
      then have "snd e \<noteq> q" "snd e \<notin> snd ` reported R (snd q) p"
        using False at(2) unfolding reported_owner by auto
      then show ?thesis by (rule frame)
    qed
    from heap_inv_frame [OF inv this]
    show ?thesis unfolding same using el reported_other [of r p R q w p', OF at False] by simp
  qed
  moreover have "heap_handles ?s x = 0" if "?R x = None" for x
  proof (cases "x = q")
    case True
    then show ?thesis using none that by simp
  next
    case False
    then have "R x = None" using that by simp
    moreover from this have "x \<notin> snd ` reported R (snd q) p" unfolding reported_owner by simp
    moreover from \<open>R x = None\<close> have "heap_handles s x = 0" using rep unfolding heaps_rep_def by blast
    ultimately show ?thesis using frame [OF False] by simp
  qed
  moreover have "p' < kQueuePriorityCount" if "?R x = Some (p', k)" for x p' k
  proof (cases "x = q")
    case True
    then show ?thesis using that at(1) p by auto
  next
    case False
    then have "R x = Some (p', k)" using that by simp
    then show ?thesis using rep unfolding heaps_rep_def by blast
  qed
  ultimately show ?thesis unfolding heaps_rep_def by blast
qed

lemma on_heap_unfold:
  assumes "f (work_queue_heaps s w p, heap_handles s) = (h, hs)"
  shows "on_heap w p f s =
    s\<lparr>work_queue_heaps := (work_queue_heaps s)(w := (work_queue_heaps s w)(p := h)), heap_handles := hs\<rparr>"
  using assms by (simp add: on_heap_def)

lemma heaps_rep_insert:
  assumes rep: "heaps_rep R s" and p: "p < kQueuePriorityCount" and q: "R q = None"
  shows "heaps_rep (R(q \<mapsto> (p, k))) (on_heap (snd q) p (heap_insert oldest_dflt oldest_le snd (k, q)) s)"
proof -
  let ?st = "(work_queue_heaps s (snd q) p, heap_handles s)"
  obtain h hs where r: "heap_insert oldest_dflt oldest_le snd (k, q) ?st = (h, hs)" by force
  have inv: "oldest_inv ?st \<and> heap_elems (fst ?st) \<subseteq> UNIV" and el: "heap_elems (fst ?st) = reported R (snd q) p"
    using heaps_repD [OF rep p] by auto
  have "snd (k, q) \<notin> snd ` heap_elems (fst ?st)" using q unfolding el reported_owner by simp
  note ins = oldest.pq.insert_spec [OF inv UNIV_I this, of oldest_dflt, unfolded r fst_conv snd_conv el [unfolded fst_conv]]
  show ?thesis
    unfolding on_heap_unfold [of "heap_insert oldest_dflt oldest_le snd (k, q)" s "snd q" p h hs, OF r]
  proof (rule heaps_rep_update [OF rep p])
    show "oldest_inv (h, hs)" using ins by blast
    have "reported (R(q \<mapsto> (p, k))) (snd q) p = insert (k, q) (reported R (snd q) p)"
      using q by (auto simp: reported_def)
    then show "heap_elems h = reported (R(q \<mapsto> (p, k))) (snd q) p" using ins by simp
    show "\<And>x. x \<noteq> q \<Longrightarrow> x \<notin> snd ` reported R (snd q) p \<Longrightarrow> hs x = heap_handles s x"
      using ins by blast
  qed (use q in auto)
qed

lemma heaps_rep_erased:
  assumes rep: "heaps_rep R s" and p: "p < kQueuePriorityCount" and q: "R q = Some (p, k)"
    and r: "f (work_queue_heaps s (snd q) p, heap_handles s) = (h, hs)"
    and inv: "oldest_inv (h, hs)" and el: "heap_elems h = reported R (snd q) p - {(k, q)}"
    and z: "hs q = 0" and fr: "\<And>x. x \<notin> snd ` reported R (snd q) p \<Longrightarrow> hs x = heap_handles s x"
  shows "heaps_rep (R(q := None)) (on_heap (snd q) p f s)"
  unfolding on_heap_unfold [of f s "snd q" p h hs, OF r]
proof (rule heaps_rep_update [OF rep p inv])
  have "reported (R(q := None)) (snd q) p = reported R (snd q) p - {(k, q)}"
    using q by (auto simp: reported_def)
  then show "heap_elems h = reported (R(q := None)) (snd q) p" using el by simp
qed (use q z fr in auto)

lemma heaps_rep_changed:
  assumes rep: "heaps_rep R s" and p: "p < kQueuePriorityCount" and q: "R q = Some (p, k)"
    and r: "f (work_queue_heaps s (snd q) p, heap_handles s) = (h, hs)"
    and inv: "oldest_inv (h, hs)" and el: "heap_elems h = insert (k', q) (reported R (snd q) p - {(k, q)})"
    and fr: "\<And>x. x \<notin> snd ` reported R (snd q) p \<Longrightarrow> hs x = heap_handles s x"
  shows "heaps_rep (R(q \<mapsto> (p, k'))) (on_heap (snd q) p f s)"
  unfolding on_heap_unfold [of f s "snd q" p h hs, OF r]
proof (rule heaps_rep_update [OF rep p inv])
  have "reported (R(q \<mapsto> (p, k'))) (snd q) p = insert (k', q) (reported R (snd q) p - {(k, q)})"
    using q by (auto simp: reported_def)
  then show "heap_elems h = reported (R(q \<mapsto> (p, k'))) (snd q) p" using el by simp
qed (use q fr in auto)

lemma heap_state_inv:
  assumes rep: "heaps_rep R s" and p: "p < kQueuePriorityCount" and q: "R q = Some (p, k)"
  shows "oldest_inv (work_queue_heaps s (snd q) p, heap_handles s) \<and>
   heap_elems (fst (work_queue_heaps s (snd q) p, heap_handles s)) \<subseteq> UNIV"
  "(k, q) \<in> heap_elems (fst (work_queue_heaps s (snd q) p, heap_handles s))"
  using heaps_repD [OF rep p] q by (auto simp: reported_def)

lemma heaps_rep_erase:
  assumes rep: "heaps_rep R s" and p: "p < kQueuePriorityCount" and q: "R q = Some (p, k)"
  shows "heaps_rep (R(q := None)) (on_heap (snd q) p (heap_erase oldest_le snd (heap_handles s q)) s)"
proof -
  note hsi = heap_state_inv [OF rep p q]
  obtain h hs where r: "heap_erase oldest_le snd (heap_handles s q)
    (work_queue_heaps s (snd q) p, heap_handles s) = (h, hs)" by force
  note er = oldest.pq.erase_spec [OF hsi, unfolded fst_conv snd_conv r heaps_repD(2) [OF rep p]]
  show ?thesis by (rule heaps_rep_erased [where f = "heap_erase oldest_le snd (heap_handles s q)", OF rep p q r]) (use er in blast)+
qed

lemma heaps_rep_change:
  assumes rep: "heaps_rep R s" and p: "p < kQueuePriorityCount" and q: "R q = Some (p, k)"
  shows "heaps_rep (R(q \<mapsto> (p, k')))
     (on_heap (snd q) p (heap_ChangeKey oldest_le snd (heap_handles s q) (k', q)) s)"
proof -
  note hsi = heap_state_inv [OF rep p q]
  obtain h hs where r: "heap_ChangeKey oldest_le snd (heap_handles s q) (k', q)
    (work_queue_heaps s (snd q) p, heap_handles s) = (h, hs)" by force
  note ch = oldest.pq.change_spec [OF hsi UNIV_I, of "(k', q)", unfolded fst_conv snd_conv r
    heaps_repD(2) [OF rep p], OF refl]
  show ?thesis by (rule heaps_rep_changed [where f = "heap_ChangeKey oldest_le snd (heap_handles s q) (k', q)", OF rep p q r])
      (use ch in blast)+
qed

lemma heaps_rep_pop:
  assumes rep: "heaps_rep R s" and p: "p < kQueuePriorityCount" and q: "R q = Some (p, k)"
    and mn: "snd (heap_Min (work_queue_heaps s (snd q) p)) = q"
  shows "heaps_rep (R(q := None)) (on_heap (snd q) p (heap_Pop oldest_le snd) s)"
    "heaps_rep (R(q \<mapsto> (p, k'))) (on_heap (snd q) p (heap_ReplaceMin oldest_le snd (k', q)) s)"
proof -
  note hsi = heap_state_inv [OF rep p q]
  let ?st = "(work_queue_heaps s (snd q) p, heap_handles s)"
  have ne: "heap_elems (fst ?st) \<noteq> {}" using hsi(2) by blast
  have "heap_Min (fst ?st) \<in> reported R (snd q) p"
    using oldest.pq.min_in [OF hsi(1) ne] heaps_repD(2) [OF rep p] by simp
  then have m: "heap_Min (fst ?st) = (k, q)"
    using mn q by (cases "heap_Min (fst ?st)") (auto simp: reported_def)
  obtain h hs where r: "heap_Pop oldest_le snd ?st = (h, hs)" by force
  note pop = oldest.pq.pop_spec [OF hsi(1) ne, unfolded m r, unfolded fst_conv snd_conv
      heaps_repD(2) [OF rep p]]
  show "heaps_rep (R(q := None)) (on_heap (snd q) p (heap_Pop oldest_le snd) s)"
    by (rule heaps_rep_erased [where f = "heap_Pop oldest_le snd", OF rep p q r]) (use pop in blast)+
  obtain g gs where r2: "heap_ReplaceMin oldest_le snd (k', q) ?st = (g, gs)" by force
  note rm = oldest.pq.replace_min_spec [OF hsi(1) ne UNIV_I, of "(k', q)", unfolded m r2,
      unfolded fst_conv snd_conv heaps_repD(2) [OF rep p], OF refl]
  show "heaps_rep (R(q \<mapsto> (p, k'))) (on_heap (snd q) p (heap_ReplaceMin oldest_le snd (k', q)) s)"
    by (rule heaps_rep_changed [where f = "heap_ReplaceMin oldest_le snd (k', q)", OF rep p q r2]) (use rm in blast)+
qed

section \<open>Counts and active priorities\<close>

definition key_ok :: "int \<Rightarrow> int \<times> nat \<Rightarrow> bool" where
  "key_ok sel e \<longleftrightarrow>
     (if snd e = kControlPriority then fst e = int64_min
      else if snd e = kBestEffortPriority then fst e = int64_max
      else per_priority_starvation_tolerance (snd e) \<le> fst e \<and>
           fst e \<le> sel + per_priority_starvation_tolerance (snd e))"

definition counts_rep :: "(work_queue_type \<Rightarrow> nat \<Rightarrow> bool) \<Rightarrow> sched \<Rightarrow> bool" where
  "counts_rep ne s \<longleftrightarrow>
     (\<forall>p < kQueuePriorityCount.
        non_empty_set_counts s p = of_bool (ne kDelayed p) + of_bool (ne kImmediate p)) \<and>
     spq_inv (active_priorities s) \<and>
     snd ` set (spq_list (active_priorities s)) = {p. p < kQueuePriorityCount \<and> (\<exists>w. ne w p)} \<and>
     0 \<le> selection_count s \<and>
     (\<forall>e \<in> set (spq_list (active_priorities s)). key_ok (selection_count s) e)"

lemma ex_work_queue_type: "(\<exists>w. P w) \<longleftrightarrow> P kDelayed \<or> P kImmediate"
  by (metis (full_types) work_queue_type.exhaust)

lemma sort_key_ok: "0 \<le> selection_count s \<Longrightarrow> key_ok (selection_count s) (GetSortKeyForPriority p s, p)"
  by (simp add: key_ok_def GetSortKeyForPriority_def)

lemma counts_rep_cong:
  "counts_rep ne s \<Longrightarrow> (\<And>w p. p < kQueuePriorityCount \<Longrightarrow> ne w p = ne' w p) \<Longrightarrow> counts_rep ne' s"
  unfolding counts_rep_def by auto

definition ne_at :: "(work_queue_type \<Rightarrow> nat \<Rightarrow> bool) \<Rightarrow> work_queue_type \<Rightarrow> nat \<Rightarrow> bool \<Rightarrow>
    work_queue_type \<Rightarrow> nat \<Rightarrow> bool" where
  "ne_at ne w p b = ne(w := (ne w)(p := b))"

lemma counts_sum:
  "of_bool (ne_at ne w p b kDelayed p) + of_bool (ne_at ne w p b kImmediate p) =
   of_bool (ne kDelayed p) + of_bool (ne kImmediate p) - of_bool (ne w p) + (of_bool b :: int)"
  by (cases w) (auto simp: ne_at_def)

lemma counts_other: "p' \<noteq> p \<Longrightarrow> ne_at ne w p b w' p' = ne w' p'"
  by (auto simp: ne_at_def)

lemma became_nonempty_counts:
  assumes c: "counts_rep ne s" and p: "p < kQueuePriorityCount" and e: "\<not> ne w p"
  shows "counts_rep (ne_at ne w p True) (WorkQueueSetBecameNonEmpty p s)"
proof -
  let ?q = "active_priorities s" and ?ne = "ne_at ne w p True"
  have cnt: "\<And>p. p < kQueuePriorityCount \<Longrightarrow>
      non_empty_set_counts s p = of_bool (ne kDelayed p) + of_bool (ne kImmediate p)"
    and inv: "spq_inv ?q" and act: "snd ` set (spq_list ?q) = {p. p < kQueuePriorityCount \<and> (\<exists>w. ne w p)}"
    and sel: "0 \<le> selection_count s" and key: "\<forall>e \<in> set (spq_list ?q). key_ok (selection_count s) e"
    using c unfolding counts_rep_def by blast+
  have cnt': "((non_empty_set_counts s)(p := non_empty_set_counts s p + 1)) p' =
      of_bool (?ne kDelayed p') + of_bool (?ne kImmediate p')" if "p' < kQueuePriorityCount" for p'
    using cnt [OF that] counts_sum [of ne w p True] e by (cases "p' = p") (simp_all add: counts_other)
  have one: "non_empty_set_counts s p + 1 = 1 \<longleftrightarrow> \<not> (\<exists>w. ne w p)"
    unfolding cnt [OF p] ex_work_queue_type by simp
  have act': "{p. p < kQueuePriorityCount \<and> (\<exists>w. ?ne w p)} =
      insert p {p. p < kQueuePriorityCount \<and> (\<exists>w. ne w p)}"
    using p by (auto simp: ne_at_def)
  show ?thesis
  proof (cases "\<exists>w. ne w p")
    case True
    then have "p \<in> snd ` set (spq_list ?q)" using act p by simp
    then have "snd ` set (spq_list ?q) = {p. p < kQueuePriorityCount \<and> (\<exists>w. ?ne w p)}"
      unfolding act' act [symmetric] by (rule insert_absorb [symmetric])
    then show ?thesis
      using True one cnt' inv sel key
      by (simp add: counts_rep_def WorkQueueSetBecameNonEmpty_def set_count_def Let_def)
  next
    case False
    then have "\<not> IsInQueue p ?q" using IsInQueue_iff [OF inv p] act by simp
    note ins = spq_insert_spec [OF inv p this]
    have "WorkQueueSetBecameNonEmpty p s =
        s\<lparr>non_empty_set_counts := (non_empty_set_counts s)(p := non_empty_set_counts s p + 1),
          active_priorities := spq_insert (GetSortKeyForPriority p s) p ?q\<rparr>"
      using False one
      by (simp add: WorkQueueSetBecameNonEmpty_def set_count_def Let_def GetSortKeyForPriority_def)
    then show ?thesis
      using ins cnt' sel key act act' sort_key_ok [OF sel, of p]
      by (simp add: counts_rep_def)
  qed
qed

lemma became_empty_counts:
  assumes c: "counts_rep ne s" and p: "p < kQueuePriorityCount" and e: "ne w p"
  shows "counts_rep (ne_at ne w p False) (WorkQueueSetBecameEmpty p s)"
proof -
  let ?q = "active_priorities s" and ?ne = "ne_at ne w p False"
  have cnt: "\<And>p. p < kQueuePriorityCount \<Longrightarrow>
      non_empty_set_counts s p = of_bool (ne kDelayed p) + of_bool (ne kImmediate p)"
    and inv: "spq_inv ?q" and act: "snd ` set (spq_list ?q) = {p. p < kQueuePriorityCount \<and> (\<exists>w. ne w p)}"
    and sel: "0 \<le> selection_count s" and key: "\<forall>e \<in> set (spq_list ?q). key_ok (selection_count s) e"
    using c unfolding counts_rep_def by blast+
  have cnt': "((non_empty_set_counts s)(p := non_empty_set_counts s p - 1)) p' =
      of_bool (?ne kDelayed p') + of_bool (?ne kImmediate p')" if "p' < kQueuePriorityCount" for p'
    using cnt [OF that] counts_sum [of ne w p False] e by (cases "p' = p") (simp_all add: counts_other)
  have zero: "non_empty_set_counts s p - 1 = 0 \<longleftrightarrow> \<not> (\<exists>w. ?ne w p)"
    using cnt' [OF p] unfolding ex_work_queue_type by auto
  have mem: "p \<in> snd ` set (spq_list ?q)" using act p e by auto
  have other: "(\<exists>w. ?ne w p') \<longleftrightarrow> (\<exists>w. ne w p')" if "p' \<noteq> p" for p' using counts_other [OF that] by simp
  show ?thesis
  proof (cases "\<exists>w. ?ne w p")
    case True
    then have "(\<exists>w. ?ne w p') \<longleftrightarrow> (\<exists>w. ne w p')" for p' using other e by (cases "p' = p") blast+
    then show ?thesis
      using True zero cnt' inv act sel key
      by (simp add: counts_rep_def WorkQueueSetBecameEmpty_def set_count_def Let_def)
  next
    case False
    have "IsInQueue p ?q" using IsInQueue_iff [OF inv p] mem by simp
    note er = spq_erase_spec [OF inv p this]
    have "WorkQueueSetBecameEmpty p s =
        s\<lparr>non_empty_set_counts := (non_empty_set_counts s)(p := non_empty_set_counts s p - 1),
          active_priorities := spq_erase p ?q\<rparr>"
      using False zero by (simp add: WorkQueueSetBecameEmpty_def set_count_def Let_def)
    moreover have "snd ` {e \<in> set (spq_list ?q). snd e \<noteq> p} = snd ` set (spq_list ?q) - {p}" by auto
    moreover have "p' \<in> snd ` set (spq_list ?q) - {p} \<longleftrightarrow> p' < kQueuePriorityCount \<and> (\<exists>w. ?ne w p')" for p'
      unfolding act using False other [of p'] by (cases "p' = p") simp_all
    then have "snd ` set (spq_list ?q) - {p} = {p. p < kQueuePriorityCount \<and> (\<exists>w. ?ne w p)}"
      by (auto simp only:)
    ultimately show ?thesis using er cnt' sel key by (simp add: counts_rep_def)
  qed
qed

section \<open>The operations keep the sets in step with the reports\<close>

definition sets_rep :: "report \<Rightarrow> sched \<Rightarrow> bool" where
  "sets_rep R s \<longleftrightarrow> heaps_rep R s \<and> counts_rep (\<lambda>w p. reported R w p \<noteq> {}) s"

lemma on_heap_counts: "counts_rep ne (on_heap w p f s) = counts_rep ne s"
  by (simp add: counts_rep_def on_heap_def Let_def split_beta)

lemma observer_heaps:
  "heaps_rep R (WorkQueueSetBecameEmpty p s) = heaps_rep R s"
  "heaps_rep R (WorkQueueSetBecameNonEmpty p s) = heaps_rep R s"
  by (simp_all add: heaps_rep_def WorkQueueSetBecameEmpty_def WorkQueueSetBecameNonEmpty_def
      set_count_def Let_def)

lemma reported_insert: "R q = None \<Longrightarrow> reported (R(q \<mapsto> (p, k))) w p' =
    (if w = snd q \<and> p' = p then insert (k, q) (reported R w p') else reported R w p')"
  by (auto simp: reported_def)

lemma reported_remove: "R q = Some (p, k) \<Longrightarrow> reported (R(q := None)) w p' =
    (if w = snd q \<and> p' = p then reported R w p' - {(k, q)} else reported R w p')"
  by (auto simp: reported_def)

lemma reported_rekey: "R q = Some (p, k) \<Longrightarrow> reported (R(q \<mapsto> (p, k'))) w p' \<noteq> {} \<longleftrightarrow> reported R w p' \<noteq> {}"
proof -
  assume "R q = Some (p, k)"
  then have "(\<exists>k. (R(q \<mapsto> (p, k'))) x = Some (p', k)) \<longleftrightarrow> (\<exists>k. R x = Some (p', k))" for x p' by auto
  then have "(\<exists>x. snd x = w \<and> (\<exists>k. (R(q \<mapsto> (p, k'))) x = Some (p', k))) \<longleftrightarrow>
      (\<exists>x. snd x = w \<and> (\<exists>k. R x = Some (p', k)))" by (simp only:)
  moreover have "reported Q w p' \<noteq> {} \<longleftrightarrow> (\<exists>x. snd x = w \<and> (\<exists>k. Q x = Some (p', k)))" for Q
    by (auto simp: reported_def)
  ultimately show ?thesis by simp
qed

lemma insert_notify_rep:
  assumes rep: "sets_rep R s" and p: "p < kQueuePriorityCount" and q: "R q = None"
  shows "sets_rep (R(q \<mapsto> (p, k))) (insert_notify (snd q) p k q s)"
proof -
  let ?t = "on_heap (snd q) p (heap_insert oldest_dflt oldest_le snd (k, q)) s"
  have h: "heaps_rep R s" and c: "counts_rep (\<lambda>w p. reported R w p \<noteq> {}) s"
    using rep by (auto simp: sets_rep_def)
  have h': "heaps_rep (R(q \<mapsto> (p, k))) ?t" by (rule heaps_rep_insert [OF h p q])
  have c': "counts_rep (\<lambda>w p. reported R w p \<noteq> {}) ?t" using c by (simp add: on_heap_counts)
  have ne: "(\<lambda>w p'. reported (R(q \<mapsto> (p, k))) w p' \<noteq> {}) =
      ne_at (\<lambda>w p. reported R w p \<noteq> {}) (snd q) p True"
    by (auto simp: fun_eq_iff ne_at_def reported_insert [of R q, OF q])
  show ?thesis
  proof (cases "reported R (snd q) p = {}")
    case True
    then have "insert_notify (snd q) p k q s = WorkQueueSetBecameNonEmpty p ?t"
      using heaps_repD(3) [OF h p] by (simp add: insert_notify_def)
    moreover have "counts_rep (ne_at (\<lambda>w p. reported R w p \<noteq> {}) (snd q) p True)
        (WorkQueueSetBecameNonEmpty p ?t)"
      by (rule became_nonempty_counts [OF c' p]) (simp add: True)
    ultimately show ?thesis using h' unfolding sets_rep_def ne by (simp add: observer_heaps)
  next
    case False
    then have "insert_notify (snd q) p k q s = ?t"
      using heaps_repD(3) [OF h p] by (simp add: insert_notify_def)
    moreover have "counts_rep (ne_at (\<lambda>w p. reported R w p \<noteq> {}) (snd q) p True) ?t"
      by (rule counts_rep_cong [OF c']) (auto simp: ne_at_def False)
    ultimately show ?thesis using h' unfolding sets_rep_def ne by simp
  qed
qed

text \<open>An entry was taken out of a heap, by whichever operation, and the observer is told if that left
  the heap empty.\<close>

lemma removed_rep:
  assumes rep: "sets_rep R s" and q: "R q = Some (p, k)"
    and h': "heaps_rep (R(q := None)) t" and c: "counts_rep (\<lambda>w p. reported R w p \<noteq> {}) t"
  shows "sets_rep (R(q := None)) (if heap_empty (work_queue_heaps t (snd q) p)
    then WorkQueueSetBecameEmpty p t else t)"
proof -
  have p: "p < kQueuePriorityCount" using rep q unfolding sets_rep_def heaps_rep_def by blast
  have "(k, q) \<in> reported R (snd q) p" using q by (simp add: reported_def)
  then have mem: "reported R (snd q) p \<noteq> {}" by blast
  let ?b = "reported (R(q := None)) (snd q) p \<noteq> {}"
  have ne: "(\<lambda>w p'. reported (R(q := None)) w p' \<noteq> {}) = ne_at (\<lambda>w p. reported R w p \<noteq> {}) (snd q) p ?b"
    by (auto simp: fun_eq_iff ne_at_def reported_remove [of R q, OF q])
  have e: "heap_empty (work_queue_heaps t (snd q) p) \<longleftrightarrow> \<not> ?b" using heaps_repD(3) [OF h' p] by simp
  show ?thesis
  proof (cases ?b)
    case True
    have "counts_rep (ne_at (\<lambda>w p. reported R w p \<noteq> {}) (snd q) p True) t"
      by (rule counts_rep_cong [OF c]) (auto simp: ne_at_def mem)
    then show ?thesis using h' e True unfolding sets_rep_def ne by simp
  next
    case False
    have "counts_rep (ne_at (\<lambda>w p. reported R w p \<noteq> {}) (snd q) p False) (WorkQueueSetBecameEmpty p t)"
      by (rule became_empty_counts [OF c p]) (simp add: mem)
    then show ?thesis using h' e False unfolding sets_rep_def ne by (simp add: observer_heaps)
  qed
qed

lemma sets_rep_index: "sets_rep R s \<Longrightarrow> R q = Some (p, k) \<Longrightarrow> p < kQueuePriorityCount"
  unfolding sets_rep_def heaps_rep_def by blast

lemma erase_notify_rep:
  assumes rep: "sets_rep R s" and q: "R q = Some (p, k)"
  shows "sets_rep (R(q := None)) (erase_notify (snd q) p q s)"
proof -
  note p = sets_rep_index [OF rep q]
  have h: "heaps_rep R s" and c: "counts_rep (\<lambda>w p. reported R w p \<noteq> {}) s"
    using rep by (auto simp: sets_rep_def)
  show ?thesis
    unfolding erase_notify_def Let_def
    by (rule removed_rep [OF rep q heaps_rep_erase [OF h p q]]) (simp add: on_heap_counts c)
qed

lemma handle_valid_iff:
  assumes "sets_rep R s"
  shows "heap_handle_valid q s \<longleftrightarrow> R q \<noteq> None"
proof (cases "R q")
  case None
  then have "heap_handles s q = 0" using assms unfolding sets_rep_def heaps_rep_def by blast
  then show ?thesis using None by (simp add: heap_handle_valid_def HeapHandle_IsValid_def)
next
  case (Some pk)
  obtain p k where pk: "pk = (p, k)" by force
  note p = sets_rep_index [OF assms Some [unfolded pk]]
  have h: "heaps_rep R s" using assms by (simp add: sets_rep_def)
  have "snd (work_queue_heaps s (snd q) p, heap_handles s) (snd (k, q)) \<noteq> 0"
    by (rule oldest.pq.handle_valid [OF heap_state_inv [OF h p Some [unfolded pk]]])
  then show ?thesis using Some by (simp add: heap_handle_valid_def HeapHandle_IsValid_def)
qed

text \<open>What each work queue has to show: the front task's order, unless it is in no set.\<close>

definition expected :: "sched \<Rightarrow> report" where
  "expected s q =
     (if work_queue_sets (wq s q) = Some (snd q)
      then map_option (Pair (work_queue_set_index (wq s q))) (GetFrontTaskEnqueueOrder (wq s q))
      else None)"

definition in_sync :: "sched \<Rightarrow> bool" where
  "in_sync s \<longleftrightarrow> sets_rep (expected s) s"

text \<open>All queues but \<open>q\<close> are in step, and \<open>q\<close> has last reported \<open>r\<close>.\<close>

definition in_sync_but :: "wq_id \<Rightarrow> (nat \<times> enqueue_order) option \<Rightarrow> sched \<Rightarrow> bool" where
  "in_sync_but q r s \<longleftrightarrow> sets_rep ((expected s)(q := r)) s"

lemma expected_frame: "sets_frame s t \<Longrightarrow> expected t = expected s"
  by (simp add: expected_def fun_eq_iff sets_frame_reads(1))

lemma in_syncI:
  assumes "sets_rep (((expected s)(q := r))(q := expected s q)) t" "sets_frame s t"
  shows "in_sync t"
  using assms by (simp add: in_sync_def expected_frame)

lemma OnTaskPushedToEmptyQueue_sync:
  assumes s: "in_sync_but q None s" and e: "expected s q = Some (p, k)"
    and p: "p < kQueuePriorityCount"
  shows "in_sync (OnTaskPushedToEmptyQueue (snd q) q s)"
proof -
  have i: "work_queue_set_index (wq s q) = p" "GetFrontTaskEnqueueOrder (wq s q) = Some k"
    using e by (auto simp: expected_def split: if_splits)
  have "sets_rep (((expected s)(q := None))(q \<mapsto> (p, k))) (insert_notify (snd q) p k q s)"
    by (rule insert_notify_rep) (use s p in \<open>simp_all add: in_sync_but_def\<close>)
  then have "sets_rep (((expected s)(q := None))(q := expected s q)) (OnTaskPushedToEmptyQueue (snd q) q s)"
    unfolding e using i by (simp add: OnTaskPushedToEmptyQueue_def)
  then show ?thesis by (rule in_syncI) (rule sets_ops_frame)
qed

lemma OnQueuesFrontTaskChanged_sync:
  assumes s: "in_sync_but q (Some (p, k)) s" and i: "work_queue_set_index (wq s q) = p"
    and w: "work_queue_sets (wq s q) = Some (snd q)"
  shows "in_sync (OnQueuesFrontTaskChanged (snd q) q s)"
proof -
  let ?R = "(expected s)(q \<mapsto> (p, k))"
  have rep: "sets_rep ?R s" and q: "?R q = Some (p, k)" using s by (simp_all add: in_sync_but_def)
  note p = sets_rep_index [OF rep q]
  have "sets_rep (?R(q := expected s q)) (OnQueuesFrontTaskChanged (snd q) q s)"
  proof (cases "GetFrontTaskEnqueueOrder (wq s q)")
    case None
    then have e: "expected s q = None" by (simp add: expected_def)
    then show ?thesis
      unfolding e using erase_notify_rep [of ?R s q p k, OF rep q] None i by (simp add: OnQueuesFrontTaskChanged_def)
  next
    case (Some k')
    then have e: "expected s q = Some (p, k')" using i w by (simp add: expected_def)
    have "heaps_rep ?R s" "counts_rep (\<lambda>w p. reported ?R w p \<noteq> {}) s"
      using rep by (auto simp: sets_rep_def)
    note h = heaps_rep_change [of ?R s p q k k', OF this(1) p q]
    have "counts_rep (\<lambda>w p'. reported (?R(q \<mapsto> (p, k'))) w p' \<noteq> {}) s"
      by (rule counts_rep_cong [OF \<open>counts_rep _ s\<close>]) (simp only: reported_rekey [of ?R q, OF q])
    then have "sets_rep (?R(q \<mapsto> (p, k')))
        (on_heap (snd q) p (heap_ChangeKey oldest_le snd (heap_handles s q) (k', q)) s)"
      using h by (simp add: sets_rep_def on_heap_counts)
    then show ?thesis unfolding e using Some i by (simp add: OnQueuesFrontTaskChanged_def)
  qed
  then show ?thesis by (rule in_syncI) (rule sets_ops_frame)
qed

lemma OnPopMinQueueInSet_sync:
  assumes s: "in_sync_but q (Some (p, k)) s" and i: "work_queue_set_index (wq s q) = p"
    and w: "work_queue_sets (wq s q) = Some (snd q)"
    and m: "GetOldestQueueInSet (snd q) p s = Some q"
  shows "in_sync (OnPopMinQueueInSet (snd q) q s)"
proof -
  let ?R = "(expected s)(q \<mapsto> (p, k))"
  have rep: "sets_rep ?R s" and q: "?R q = Some (p, k)" using s by (simp_all add: in_sync_but_def)
  note p = sets_rep_index [OF rep q]
  have h: "heaps_rep ?R s" and c: "counts_rep (\<lambda>w p. reported ?R w p \<noteq> {}) s"
    using rep by (auto simp: sets_rep_def)
  have mn: "snd (heap_Min (work_queue_heaps s (snd q) p)) = q"
    using m by (simp add: GetOldestQueueInSet_def Let_def split: if_splits)
  have "sets_rep (?R(q := expected s q)) (OnPopMinQueueInSet (snd q) q s)"
  proof (cases "GetFrontTaskEnqueueOrder (wq s q)")
    case None
    then have e: "expected s q = None" by (simp add: expected_def)
    have "sets_rep (?R(q := None))
        (let t = on_heap (snd q) p (heap_Pop oldest_le snd) s
         in if heap_empty (work_queue_heaps t (snd q) p) then WorkQueueSetBecameEmpty p t else t)"
      unfolding Let_def
      by (rule removed_rep [of ?R s q p k, OF rep q heaps_rep_pop(1) [of ?R s p q k, OF h p q mn]]) (simp add: on_heap_counts c)
    then show ?thesis unfolding e using None i by (simp add: OnPopMinQueueInSet_def)
  next
    case (Some k')
    then have e: "expected s q = Some (p, k')" using i w by (simp add: expected_def)
    have "counts_rep (\<lambda>w p'. reported (?R(q \<mapsto> (p, k'))) w p' \<noteq> {}) s"
      by (rule counts_rep_cong [OF c]) (simp only: reported_rekey [of ?R q, OF q])
    then have "sets_rep (?R(q \<mapsto> (p, k')))
        (on_heap (snd q) p (heap_ReplaceMin oldest_le snd (k', q)) s)"
      using heaps_rep_pop(2) [of ?R s p q k k', OF h p q mn] by (simp add: sets_rep_def on_heap_counts)
    then show ?thesis unfolding e using Some i by (simp add: OnPopMinQueueInSet_def)
  qed
  then show ?thesis by (rule in_syncI) (rule sets_ops_frame)
qed

lemma OnQueueBlocked_sync:
  assumes s: "in_sync_but q r s" and e: "expected s q = None"
    and r: "r = None \<or> (\<exists>k. r = Some (work_queue_set_index (wq s q), k))"
  shows "in_sync (OnQueueBlocked (snd q) q s)"
proof -
  let ?R = "(expected s)(q := r)"
  have rep: "sets_rep ?R s" using s by (simp add: in_sync_but_def)
  have "sets_rep (?R(q := expected s q)) (OnQueueBlocked (snd q) q s)"
  proof (cases r)
    case None
    then show ?thesis
      unfolding e using rep handle_valid_iff [OF rep, of q] by (simp add: OnQueueBlocked_def)
  next
    case (Some pk)
    then obtain k where k: "?R q = Some (work_queue_set_index (wq s q), k)" using r by auto
    then show ?thesis
      unfolding e using erase_notify_rep [of ?R s q, OF rep k] handle_valid_iff [OF rep, of q] by (simp add: OnQueueBlocked_def)
  qed
  then show ?thesis by (rule in_syncI) (rule sets_ops_frame)
qed

text \<open>Changing one work queue leaves only that queue out of step.\<close>

lemma sets_rep_upd_wq: "sets_rep R (upd_wq q f s) = sets_rep R s"
  by (simp add: sets_rep_def heaps_rep_def counts_rep_def)

lemma expected_upd_wq: "x \<noteq> q \<Longrightarrow> expected (upd_wq q f s) x = expected s x"
  by (simp add: expected_def)

lemma in_sync_but_upd:
  assumes "in_sync_but q r s"
  shows "in_sync_but q r (upd_wq q f s)"
proof -
  have "(expected (upd_wq q f s))(q := r) = (expected s)(q := r)"
    by (auto simp: fun_eq_iff expected_upd_wq)
  then show ?thesis using assms by (simp add: in_sync_but_def sets_rep_upd_wq)
qed

lemma in_sync_but_self: "in_sync_but q (expected s q) s = in_sync s"
  by (simp add: in_sync_but_def in_sync_def)

lemma in_sync_upd: "in_sync s \<Longrightarrow> in_sync_but q (expected s q) (upd_wq q f s)"
  using in_sync_but_upd in_sync_but_self by metis

lemma in_sync_same:
  assumes "in_sync_but q r s" "expected s q = r"
  shows "in_sync s"
  using assms in_sync_but_self by blast

lemma wqs_AddQueue_sync:
  assumes s: "in_sync s" and q: "work_queue_sets (wq s q) = None" and p: "p < kQueuePriorityCount"
  shows "in_sync (wqs_AddQueue (snd q) q p s)"
proof -
  let ?t = "AssignSetIndex q p (AssignToWorkQueueSets q (Some (snd q)) s)"
  have "in_sync_but q None s" using s q in_sync_but_self [of q s] by (simp add: expected_def)
  then have t: "in_sync_but q None ?t"
    unfolding AssignSetIndex_def AssignToWorkQueueSets_def by (intro in_sync_but_upd)
  have f: "GetFrontTaskEnqueueOrder (wq ?t q) = GetFrontTaskEnqueueOrder (wq s q)"
    "work_queue_set_index (wq ?t q) = p" "work_queue_sets (wq ?t q) = Some (snd q)"
    by (simp_all add: AssignSetIndex_def AssignToWorkQueueSets_def GetFrontTaskEnqueueOrder_def
        wq_BlockedByFence_def)
  show ?thesis
  proof (cases "GetFrontTaskEnqueueOrder (wq s q)")
    case None
    then have "expected ?t q = None" using f by (simp add: expected_def)
    then show ?thesis using in_sync_same [OF t] None by (simp add: wqs_AddQueue_def)
  next
    case (Some k)
    then have "expected ?t q = Some (p, k)" using f by (simp add: expected_def)
    from OnTaskPushedToEmptyQueue_sync [OF t this p]
    show ?thesis using Some f by (simp add: wqs_AddQueue_def OnTaskPushedToEmptyQueue_def)
  qed
qed

lemma wqs_RemoveQueue_sync:
  assumes s: "in_sync s" and q: "work_queue_sets (wq s q) = Some (snd q)"
  shows "in_sync (wqs_RemoveQueue (snd q) q s)"
proof -
  let ?t = "AssignToWorkQueueSets q None s"
  have t: "in_sync_but q (expected s q) ?t"
    unfolding AssignToWorkQueueSets_def by (rule in_sync_upd [OF s])
  have i: "work_queue_set_index (wq ?t q) = work_queue_set_index (wq s q)" "expected ?t q = None"
    by (simp_all add: AssignToWorkQueueSets_def expected_def)
  have r: "expected s q = None \<or> (\<exists>k. expected s q = Some (work_queue_set_index (wq ?t q), k))"
    using i by (cases "GetFrontTaskEnqueueOrder (wq s q)") (simp_all add: expected_def)
  have "wqs_RemoveQueue (snd q) q s = OnQueueBlocked (snd q) q ?t"
    by (simp add: wqs_RemoveQueue_def OnQueueBlocked_def Let_def)
  then show ?thesis using OnQueueBlocked_sync [OF t i(2) r] by simp
qed

lemma wqs_ChangeSetIndex_sync:
  assumes s: "in_sync s" and q: "work_queue_sets (wq s q) = Some (snd q)"
    and p: "p < kQueuePriorityCount" and ne: "work_queue_set_index (wq s q) \<noteq> p"
  shows "in_sync (wqs_ChangeSetIndex (snd q) q p s)"
proof -
  let ?t = "AssignSetIndex q p s" and ?o = "work_queue_set_index (wq s q)" and ?w = "snd q"
  have t: "in_sync_but q (expected s q) ?t" unfolding AssignSetIndex_def by (rule in_sync_upd [OF s])
  have f: "GetFrontTaskEnqueueOrder (wq ?t q) = GetFrontTaskEnqueueOrder (wq s q)"
    "work_queue_sets (wq ?t q) = Some ?w" "work_queue_set_index (wq ?t q) = p"
    using q by (simp_all add: AssignSetIndex_def GetFrontTaskEnqueueOrder_def wq_BlockedByFence_def)
  show ?thesis
  proof (cases "GetFrontTaskEnqueueOrder (wq s q)")
    case None
    then have "expected ?t q = expected s q" using f by (simp add: expected_def)
    then show ?thesis using in_sync_same [OF t] None by (simp add: wqs_ChangeSetIndex_def)
  next
    case (Some k)
    have old: "expected s q = Some (?o, k)" using Some q by (simp add: expected_def)
    have new: "expected ?t q = Some (p, k)" using Some f by (simp add: expected_def)
    let ?R = "(expected ?t)(q \<mapsto> (?o, k))"
    have rep: "sets_rep ?R ?t" and Rq: "?R q = Some (?o, k)" using t old by (simp_all add: in_sync_but_def)
    note po = sets_rep_index [OF rep Rq]
    let ?u = "on_heap ?w ?o (heap_erase oldest_le snd (heap_handles ?t q)) ?t"
    have hu: "heaps_rep (?R(q := None)) ?u"
      by (rule heaps_rep_erase) (use rep po in \<open>simp_all add: sets_rep_def\<close>)
    have cu: "counts_rep (\<lambda>w p. reported ?R w p \<noteq> {}) ?u"
      using rep by (simp add: sets_rep_def on_heap_counts)
    let ?v = "on_heap ?w p (heap_insert oldest_dflt oldest_le snd (k, q)) ?u"
    let ?e = "\<lambda>x. if heap_empty (work_queue_heaps x ?w ?o) then WorkQueueSetBecameEmpty ?o x else x"
    have hv: "work_queue_heaps ?v ?w ?o = work_queue_heaps ?u ?w ?o"
      using ne by (simp add: on_heap_def Let_def split_beta)
    have su: "sets_rep (?R(q := None)) (?e ?u)" by (rule removed_rep [of ?R ?t q ?o k, OF rep Rq hu cu])
    have swap: "?e ?v = on_heap ?w p (heap_insert oldest_dflt oldest_le snd (k, q)) (?e ?u)"
      unfolding hv
      by (simp add: on_heap_def WorkQueueSetBecameEmpty_def set_count_def Let_def split_beta)
    have he: "work_queue_heaps (?e ?u) = work_queue_heaps ?u"
      by (simp add: WorkQueueSetBecameEmpty_def set_count_def Let_def)
    have "wqs_ChangeSetIndex ?w q p s = insert_notify ?w p k q (?e ?u)"
      using Some unfolding wqs_ChangeSetIndex_def insert_notify_def Let_def swap [symmetric] he by simp
    moreover have "sets_rep ((?R(q := None))(q \<mapsto> (p, k))) (insert_notify ?w p k q (?e ?u))"
      by (rule insert_notify_rep [OF su p]) simp
    moreover have "(?R(q := None))(q \<mapsto> (p, k)) = expected ?t" using new by (auto simp: fun_eq_iff)
    moreover have "sets_frame ?t (insert_notify ?w p k q (?e ?u))"
    proof (rule sets_frame_trans [OF _ notify_frame(1)])
      have "sets_frame ?u (?e ?u)" by (simp add: observer_frame sets_frame_refl)
      then show "sets_frame ?t (?e ?u)" by (rule sets_frame_trans [OF on_heap_frame])
    qed
    ultimately show ?thesis by (simp add: in_sync_def expected_frame)
  qed
qed

section \<open>The oldest queue of a set\<close>

lemma GetOldestQueueInSet_spec:
  assumes s: "in_sync s" and p: "p < kQueuePriorityCount"
  shows "GetOldestQueueInSet w p s = None \<longleftrightarrow> (\<forall>q. snd q = w \<longrightarrow> (\<forall>k. expected s q \<noteq> Some (p, k)))"
    "GetOldestQueueAndEnqueueOrderInSet w p s = Some (q, k) \<Longrightarrow>
       snd q = w \<and> expected s q = Some (p, k) \<and>
       (\<forall>q' k'. snd q' = w \<longrightarrow> expected s q' = Some (p, k') \<longrightarrow> k \<le> k')"
    "GetOldestQueueInSet w p s = map_option fst (GetOldestQueueAndEnqueueOrderInSet w p s)"
proof -
  let ?h = "work_queue_heaps s w p"
  have h: "heaps_rep (expected s) s" using s by (simp add: in_sync_def sets_rep_def)
  note hd = heaps_repD [OF h p, of w]
  have "reported (expected s) w p = {} \<longleftrightarrow> (\<forall>q. snd q = w \<longrightarrow> (\<forall>k. expected s q \<noteq> Some (p, k)))"
    by (auto simp: reported_def)
  then show "GetOldestQueueInSet w p s = None \<longleftrightarrow> (\<forall>q. snd q = w \<longrightarrow> (\<forall>k. expected s q \<noteq> Some (p, k)))"
    using hd(3) by (simp add: GetOldestQueueInSet_def Let_def)
  show "GetOldestQueueInSet w p s = map_option fst (GetOldestQueueAndEnqueueOrderInSet w p s)"
    by (simp add: GetOldestQueueInSet_def GetOldestQueueAndEnqueueOrderInSet_def Let_def)
  assume g: "GetOldestQueueAndEnqueueOrderInSet w p s = Some (q, k)"
  then have m: "heap_Min ?h = (k, q)" and ne: "reported (expected s) w p \<noteq> {}"
    using hd(3) by (auto simp: GetOldestQueueAndEnqueueOrderInSet_def Let_def prod_eq_iff split: if_splits)
  have inv: "oldest_inv (?h, heap_handles s) \<and> heap_elems (fst (?h, heap_handles s)) \<subseteq> UNIV"
    using hd(1) by simp
  have "heap_Min ?h \<in> reported (expected s) w p"
    using oldest.pq.min_in [OF inv] hd(2) ne by simp
  moreover have "k \<le> k'" if "snd q' = w" "expected s q' = Some (p, k')" for q' k'
  proof -
    have "(k', q') \<in> heap_elems (fst (?h, heap_handles s))" using that hd(2) by (simp add: reported_def)
    from oldest.pq.min_least [OF inv this] show ?thesis using m by (simp add: oldest_le_def)
  qed
  ultimately show "snd q = w \<and> expected s q = Some (p, k) \<and>
       (\<forall>q' k'. snd q' = w \<longrightarrow> expected s q' = Some (p, k') \<longrightarrow> k \<le> k')"
    using m by (simp add: reported_def)
qed

end
