(* ===== verification/Data_Refinement.thy ===== *)
theory Data_Refinement
  imports Work_Queue_Sets "HOL-Library.Multiset"
begin

text \<open>
  The containers of the scheduler against abstract data types, over whole sequences of operations:
  the deque against a list, the heap against a map from owners to keys, the small priority queue
  against a stably sorted list, the flag set against a list of the flags handed out. Each program is
  a list of operations; an operation that the code forbids by a \<open>DCHECK\<close> (popping an empty
  container, a handle that is not valid) is skipped on both sides.
\<close>

section \<open>LazilyDeallocatedDeque as a list\<close>

datatype 'a deque_op = DPushBack 'a | DPushFront 'a | DPopFront | DClear | DShrink int

fun deque_exec :: "'a deque_op \<Rightarrow> 'a deque \<Rightarrow> 'a deque" where
  "deque_exec (DPushBack x) d = dq_push_back x d"
| "deque_exec (DPushFront x) d = dq_push_front x d"
| "deque_exec DPopFront d = (if dq_empty d then d else dq_pop_front d)"
| "deque_exec DClear d = dq_clear d"
| "deque_exec (DShrink now) d = MaybeShrinkQueue now d"

fun list_exec :: "'a deque_op \<Rightarrow> 'a list \<Rightarrow> 'a list" where
  "list_exec (DPushBack x) xs = xs @ [x]"
| "list_exec (DPushFront x) xs = x # xs"
| "list_exec DPopFront xs = tl xs"
| "list_exec DClear xs = []"
| "list_exec (DShrink now) xs = xs"

lemma deque_exec_step:
  assumes "dq_inv d"
  shows "dq_inv (deque_exec c d) \<and> dq_list (deque_exec c d) = list_exec c (dq_list d)"
  using assms by (cases c) (auto simp: deque_specs)

lemma deque_exec_fold:
  "dq_inv d \<Longrightarrow> dq_inv (fold deque_exec cs d) \<and> dq_list (fold deque_exec cs d) = fold list_exec cs (dq_list d)"
proof (induction cs arbitrary: d)
  case (Cons c cs)
  then show ?case using deque_exec_step [of d c] by auto
qed simp

section \<open>IntrusiveHeap as a map from owners to keys\<close>

text \<open>The instance of \<open>WorkQueueSets\<close>: an entry is an enqueue order with the work queue it belongs
  to, and the handle lives in the work queue.\<close>

datatype heap_op = HInsert enqueue_order wq_id | HChange enqueue_order wq_id | HErase wq_id | HPop

type_synonym oldest_state = "(oldest_task_enqueue_order, wq_id) heap_state"

fun heap_exec :: "heap_op \<Rightarrow> oldest_state \<Rightarrow> oldest_state" where
  "heap_exec (HInsert k q) s = (if HeapHandle_IsValid (snd s q) then s else heap_insert oldest_dflt oldest_le snd (k, q) s)"
| "heap_exec (HChange k q) s = (if HeapHandle_IsValid (snd s q) then heap_ChangeKey oldest_le snd (snd s q) (k, q) s else s)"
| "heap_exec (HErase q) s = (if HeapHandle_IsValid (snd s q) then heap_erase oldest_le snd (snd s q) s else s)"
| "heap_exec HPop s = (if heap_empty (fst s) then s else heap_Pop oldest_le snd s)"

text \<open>\<open>front\<close> is the owner the heap has at its top; the specification lets \<open>Pop\<close> remove any owner
  of a least key.\<close>

fun owners_exec :: "heap_op \<Rightarrow> wq_id option \<Rightarrow> (wq_id \<rightharpoonup> enqueue_order) \<Rightarrow> (wq_id \<rightharpoonup> enqueue_order)" where
  "owners_exec (HInsert k q) _ m = (if m q = None then m(q \<mapsto> k) else m)"
| "owners_exec (HChange k q) _ m = (if m q = None then m else m(q \<mapsto> k))"
| "owners_exec (HErase q) _ m = m(q := None)"
| "owners_exec HPop front m = (case front of None \<Rightarrow> m | Some q \<Rightarrow> m(q := None))"

definition front_owner :: "oldest_state \<Rightarrow> wq_id option" where
  "front_owner s = (if heap_empty (fst s) then None else Some (snd (heap_Min (fst s))))"

definition owner_map :: "oldest_state \<Rightarrow> wq_id \<rightharpoonup> enqueue_order" where
  "owner_map s q = (if HeapHandle_IsValid (snd s q) then Some (fst (nodes (fst s) ! snd s q)) else None)"

definition owned :: "(wq_id \<rightharpoonup> enqueue_order) \<Rightarrow> oldest_state \<Rightarrow> bool" where
  "owned m s \<longleftrightarrow> heap_inv oldest_le snd s \<and> heap_elems (fst s) = {(k, q). m q = Some k} \<and>
     (\<forall>q. m q = None \<longrightarrow> snd s q = 0)"

lemma ownedD:
  assumes "owned m s"
  shows "heap_inv oldest_le snd s" "heap_elems (fst s) = {(k, q). m q = Some k}" "m q = None \<Longrightarrow> snd s q = 0"
    "(k, q) \<in> heap_elems (fst s) \<longleftrightarrow> m q = Some k"
  using assms unfolding owned_def by (blast, blast, blast, auto simp del: split_paired_All)

lemma owned_handle:
  assumes "owned m s"
  shows "HeapHandle_IsValid (snd s q) \<longleftrightarrow> m q \<noteq> None"
    "m q = Some k \<Longrightarrow> nodes (fst s) ! snd s q = (k, q)"
proof -
  have "snd s q \<noteq> 0 \<and> nodes (fst s) ! snd s q = (k, q)" if q: "m q = Some k" for k
  proof -
    have e: "(k, q) \<in> heap_elems (fst s)" using ownedD(4) [OF assms] q by simp
    moreover have "handles_ok snd s" using ownedD(1) [OF assms] by (simp add: heap_inv_def)
    ultimately show ?thesis using elem_slot [of snd s "(k, q)"] by (auto simp: slots_def)
  qed
  then show "HeapHandle_IsValid (snd s q) \<longleftrightarrow> m q \<noteq> None" "m q = Some k \<Longrightarrow> nodes (fst s) ! snd s q = (k, q)"
    using ownedD(3) [OF assms] by (cases "m q"; fastforce simp: HeapHandle_IsValid_def)+
qed

lemma owned_owner_map: "owned m s \<Longrightarrow> owner_map s = m"
proof
  fix q
  assume m: "owned m s"
  show "owner_map s q = m q"
    using owned_handle [OF m, of q] by (cases "m q") (auto simp: owner_map_def)
qed

lemma owners_of:
  assumes "owned m s"
  shows "snd ` heap_elems (fst s) = dom m"
proof -
  have "snd ` {(k, q). m q = Some k} = {q. \<exists>k. m q = Some k}"
    by (auto simp: image_def)
  then show ?thesis unfolding ownedD(2) [OF assms] dom_def by auto
qed

lemma owned_change:
  assumes m: "owned m s" and t: "heap_inv oldest_le snd t" "heap_elems (fst t) = {(k, q). m' q = Some k}"
    and frame: "\<And>x. x \<noteq> q \<Longrightarrow> x \<notin> dom m \<Longrightarrow> snd t x = snd s x"
    and m': "\<And>x. x \<noteq> q \<Longrightarrow> m' x = m x" and q: "m' q = None \<Longrightarrow> snd t q = 0"
  shows "owned m' t"
proof -
  have "snd t x = 0" if "m' x = None" for x
    using that q m' [of x] frame [of x] ownedD(3) [OF m, of x] by (cases "x = q") auto
  then show ?thesis using t unfolding owned_def by blast
qed

lemma owned_exec:
  assumes m: "owned m s"
  shows "owned (owners_exec c (front_owner s) m) (heap_exec c s)"
proof -
  have inv: "heap_inv oldest_le snd s \<and> heap_elems (fst s) \<subseteq> UNIV" using ownedD(1) [OF m] by simp
  note el = ownedD(2) [OF m] and el_iff = ownedD(4) [OF m]
  note own = owners_of [OF m]
  show ?thesis
  proof (cases c)
    case (HInsert k q)
    show ?thesis
    proof (cases "m q")
      case None
      then have "snd (k, q) \<notin> snd ` heap_elems (fst s)" unfolding own by auto
      from oldest.pq.insert_spec [OF inv UNIV_I this, of oldest_dflt]
      have "owned (m(q \<mapsto> k)) (heap_insert oldest_dflt oldest_le snd (k, q) s)"
        unfolding own using None by (intro owned_change [OF m, of _ _ q]) (auto simp: el simp del: split_paired_All split: if_splits)
      then show ?thesis using HInsert None owned_handle [OF m, of q] by simp
    qed (use m HInsert owned_handle [OF m, of q] in simp)
  next
    case (HChange k q)
    show ?thesis
    proof (cases "m q")
      case (Some k')
      then have "(k', q) \<in> heap_elems (fst s)" by (simp add: el_iff)
      from oldest.pq.change_spec [OF inv this UNIV_I, of "(k, q)"]
      have "owned (m(q \<mapsto> k)) (heap_ChangeKey oldest_le snd (snd s q) (k, q) s)"
        unfolding own using Some by (intro owned_change [OF m, of _ _ q]) (auto simp: el simp del: split_paired_All split: if_splits)
      then show ?thesis using HChange Some owned_handle [OF m, of q] by simp
    qed (use m HChange owned_handle [OF m, of q] in simp)
  next
    case (HErase q)
    show ?thesis
    proof (cases "m q")
      case None
      then have "m(q := None) = m" by auto
      then show ?thesis using m HErase None owned_handle [OF m, of q] by simp
    next
      case (Some k')
      then have "(k', q) \<in> heap_elems (fst s)" by (simp add: el_iff)
      from oldest.pq.erase_spec [OF inv this]
      have "owned (m(q := None)) (heap_erase oldest_le snd (snd s q) s)"
        unfolding own using Some by (intro owned_change [OF m, of _ _ q]) (auto simp: el simp del: split_paired_All split: if_splits)
      then show ?thesis using HErase Some owned_handle [OF m, of q] by simp
    qed
  next
    case HPop
    show ?thesis
    proof (cases "heap_empty (fst s)")
      case False
      then have ne: "heap_elems (fst s) \<noteq> {}" by (simp add: heap_elems_empty)
      obtain k q where kq: "heap_Min (fst s) = (k, q)" by (cases "heap_Min (fst s)")
      then have q: "m q = Some k" using oldest.pq.min_in [OF inv ne] el_iff by simp
      from oldest.pq.pop_spec [OF inv ne]
      have "owned (m(q := None)) (heap_Pop oldest_le snd s)"
        unfolding own using q kq by (intro owned_change [OF m, of _ _ q]) (auto simp: el simp del: split_paired_All split: if_splits)
      then show ?thesis using HPop False kq by (simp add: front_owner_def)
    qed (use m HPop in \<open>simp add: front_owner_def\<close>)
  qed
qed

lemma owned_init: "owned Map.empty (IntrusiveHeap_init oldest_dflt, \<lambda>_. 0)"
  using IntrusiveHeap_init_inv [of oldest_le snd oldest_dflt "\<lambda>_. 0"] by (simp add: owned_def)

lemma owned_fold: "owned m s \<Longrightarrow> \<exists>m'. owned m' (fold heap_exec cs s)"
proof (induction cs arbitrary: m s)
  case (Cons c cs)
  show ?case using Cons.IH [OF owned_exec [OF Cons.prems, of c]] by simp
qed auto

lemma owned_min:
  assumes "owned m s" "m q = Some k"
  shows "\<not> heap_empty (fst s) \<and> fst (heap_Min (fst s)) \<le> k \<and> m (snd (heap_Min (fst s))) = Some (fst (heap_Min (fst s)))"
proof -
  have inv: "heap_inv oldest_le snd s \<and> heap_elems (fst s) \<subseteq> UNIV" and e: "(k, q) \<in> heap_elems (fst s)"
    using ownedD [OF assms(1)] assms(2) by simp_all
  then have ne: "heap_elems (fst s) \<noteq> {}" by blast
  show ?thesis
    using oldest.pq.min_least [OF inv e] oldest.pq.min_in [OF inv ne] ne heap_elems_empty [of "fst s"]
      ownedD(4) [OF assms(1), of "fst (heap_Min (fst s))" "snd (heap_Min (fst s))"]
    by (simp add: oldest_le_def)
qed

section \<open>SmallPriorityQueue as a stably sorted list\<close>

datatype spq_op = SInsert int nat | SErase nat | SChangeMin int

fun spq_exec :: "spq_op \<Rightarrow> small_priority_queue \<Rightarrow> small_priority_queue" where
  "spq_exec (SInsert k d) q = (if kQueuePriorityCount \<le> d \<or> IsInQueue d q then q else spq_insert k d q)"
| "spq_exec (SErase d) q = (if kQueuePriorityCount \<le> d \<or> \<not> IsInQueue d q then q else spq_erase d q)"
| "spq_exec (SChangeMin k) q = (if spq_empty q then q else ChangeMinKey k q)"

text \<open>A new entry goes behind the entries of its key; the re-keyed minimum goes before them.\<close>

definition insert_behind :: "int \<Rightarrow> nat \<Rightarrow> (int \<times> nat) list \<Rightarrow> (int \<times> nat) list" where
  "insert_behind k d L = filter (\<lambda>e. fst e \<le> k) L @ (k, d) # filter (\<lambda>e. k < fst e) L"

definition insert_before :: "int \<Rightarrow> nat \<Rightarrow> (int \<times> nat) list \<Rightarrow> (int \<times> nat) list" where
  "insert_before k d L = filter (\<lambda>e. fst e < k) L @ (k, d) # filter (\<lambda>e. k \<le> fst e) L"

fun prio_exec :: "spq_op \<Rightarrow> (int \<times> nat) list \<Rightarrow> (int \<times> nat) list" where
  "prio_exec (SInsert k d) L =
     (if kQueuePriorityCount \<le> d \<or> d \<in> snd ` set L then L else insert_behind k d L)"
| "prio_exec (SErase d) L = filter (\<lambda>e. snd e \<noteq> d) L"
| "prio_exec (SChangeMin k) L = (case L of [] \<Rightarrow> [] | e # L \<Rightarrow> insert_before k (snd e) L)"

lemma sorted_takeWhile_filter:
  assumes "sorted (map fst L)" "\<And>j k. j \<le> k \<Longrightarrow> P k \<Longrightarrow> P j"
  shows "takeWhile (P \<circ> fst) L = filter (P \<circ> fst) L \<and> dropWhile (P \<circ> fst) L = filter (Not \<circ> P \<circ> fst) L"
  using assms(1)
proof (induction L)
  case (Cons e L)
  have "filter (P \<circ> fst) L = []" "filter (Not \<circ> P \<circ> fst) L = L" if "\<not> P (fst e)"
    using Cons.prems that assms(2) by (auto simp: filter_empty_conv filter_id_conv)
  then show ?case using Cons by (auto simp: comp_def)
qed simp

lemma put_after_filter:
  assumes "sorted (map fst L)"
  shows "put_after (\<lambda>j. j \<le> k) (k, d) L = insert_behind k d L" "put_after (\<lambda>j. j < k) (k, d) L = insert_before k d L"
  using sorted_takeWhile_filter [OF assms, of "\<lambda>j. j \<le> k"] sorted_takeWhile_filter [OF assms, of "\<lambda>j. j < k"]
  by (simp_all add: put_after_def insert_behind_def insert_before_def comp_def not_le not_less)

lemma spq_exec_step:
  assumes inv: "spq_inv q"
  shows "spq_inv (spq_exec c q) \<and> spq_list (spq_exec c q) = prio_exec c (spq_list q)"
proof -
  have srt: "sorted (map fst (spq_list q))" using inv by (simp add: spq_inv_def)
  show ?thesis
  proof (cases c)
    case (SInsert k d)
    then show ?thesis
      using spq_insert_spec [OF inv, of d k] IsInQueue_iff [OF inv, of d] inv put_after_filter(1) [OF srt, of k d]
      by (cases "d < kQueuePriorityCount") auto
  next
    case (SErase d)
    have "filter (\<lambda>e. snd e \<noteq> d) (spq_list q) = spq_list q" if "kQueuePriorityCount \<le> d \<or> \<not> IsInQueue d q"
    proof -
      have "d \<notin> snd ` set (spq_list q)"
        using that IsInQueue_iff [OF inv, of d] inv by (cases "d < kQueuePriorityCount") (auto simp: spq_inv_def index_ok_def)
      then show ?thesis by (auto simp: filter_id_conv)
    qed
    then show ?thesis using SErase spq_erase_spec [OF inv, of d] inv by auto
  next
    case (SChangeMin k)
    show ?thesis
    proof (cases "spq_list q")
      case Nil
      then show ?thesis using SChangeMin inv by (simp add: spq_empty_iff)
    next
      case (Cons e L)
      moreover have "sorted (map fst L)" using srt Cons by simp
      ultimately show ?thesis
        using SChangeMin ChangeMinKey_spec [OF inv, of k] min_id_hd [of q] put_after_filter(2) [of L k]
        by (simp add: spq_empty_iff)
    qed
  qed
qed

lemma spq_exec_fold:
  "spq_inv q \<Longrightarrow> spq_inv (fold spq_exec cs q) \<and> spq_list (fold spq_exec cs q) = fold prio_exec cs (spq_list q)"
proof (induction cs arbitrary: q)
  case (Cons c cs)
  then show ?case using spq_exec_step [of q c] by auto
qed simp

lemma spq_refines_sorted_list:
  "let q = fold spq_exec cs SmallPriorityQueue_init
   in spq_list q = fold prio_exec cs [] \<and> sorted (map fst (spq_list q)) \<and> distinct (map snd (spq_list q)) \<and>
      (spq_empty q \<or> min_id q = snd (hd (spq_list q)))"
proof -
  define q where "q = fold spq_exec cs SmallPriorityQueue_init"
  have "spq_inv q" "spq_list q = fold prio_exec cs []"
    using spq_exec_fold [of SmallPriorityQueue_init cs] SmallPriorityQueue_init_inv by (simp_all add: q_def)
  then show ?thesis unfolding q_def [symmetric] Let_def
    using spq_empty_iff [of q] min_id_hd [of q] by (auto simp: spq_inv_def index_ok_def)
qed

section \<open>AtomicFlagSet as the list of the flags handed out\<close>

text \<open>A client keeps the flags it was given, in the order of the calls to \<open>AddFlag\<close>; a flag is
  named by its position there. The log collects what each \<open>RunActiveCallbacks\<close> ran.\<close>

datatype 'c flag_op = FAdd 'c | FSet bool nat | FRelease nat | FRun

fun flag_exec :: "'c flag_op \<Rightarrow> 'c atomic_flag_set \<times> atomic_flag list \<times> 'c option list list \<Rightarrow>
    'c atomic_flag_set \<times> atomic_flag list \<times> 'c option list list" where
  "flag_exec (FAdd c) (s, hs, out) = (let (f, s) = AddFlag c s in (s, hs @ [f], out))"
| "flag_exec (FSet b i) (s, hs, out) =
     (if i < length hs then case hs ! i of None \<Rightarrow> (s, hs, out) | Some f \<Rightarrow> (SetActive b f s, hs, out)
      else (s, hs, out))"
| "flag_exec (FRelease i) (s, hs, out) =
     (if i < length hs then (ReleaseAtomicFlag (hs ! i) s, hs[i := None], out) else (s, hs, out))"
| "flag_exec FRun (s, hs, out) = (let (cs, s) = RunActiveCallbacks s in (s, hs, out @ [cs]))"

fun flags_exec :: "'c flag_op \<Rightarrow> ('c \<times> bool) option list \<times> 'c option multiset list \<Rightarrow>
    ('c \<times> bool) option list \<times> 'c option multiset list" where
  "flags_exec (FAdd c) (es, out) = (es @ [Some (c, False)], out)"
| "flags_exec (FSet b i) (es, out) =
     (if i < length es then es[i := map_option (\<lambda>(c, _). (c, b)) (es ! i)] else es, out)"
| "flags_exec (FRelease i) (es, out) = (es[i := None], out)"
| "flags_exec FRun (es, out) =
     (map (map_option (\<lambda>(c, _). (c, False))) es,
      out @ [image_mset (\<lambda>e. map_option fst e) (filter_mset (\<lambda>e. \<exists>c. e = Some (c, True)) (mset es))])"

text \<open>Each live flag of the client is a position of its own in the set, with the same callback and
  state, and every position in use belongs to one.\<close>

definition live :: "(nat \<times> nat) option list \<Rightarrow> (nat \<times> nat) list" where
  "live fs = map the (filter (\<lambda>f. f \<noteq> None) fs)"

definition entry_of :: "'c atomic_flag_set \<Rightarrow> (nat \<times> nat) option \<Rightarrow> ('c \<times> bool) option" where
  "entry_of s f = (case f of None \<Rightarrow> None | Some f \<Rightarrow> map_option (\<lambda>c. (c, raised s f)) (registered s f))"

definition flags_match :: "(nat \<times> nat) option list \<Rightarrow> 'c atomic_flag_set \<Rightarrow> atomic_flag list \<Rightarrow> ('c \<times> bool) option list \<Rightarrow> bool"
where
  "flags_match fs s hs es \<longleftrightarrow> flag_set_inv s \<and> hs = map (map_option flag_of) fs \<and> es = map (entry_of s) fs \<and>
     distinct (live fs) \<and> set (live fs) = {f. registered s f \<noteq> None}"

lemma live_simps [simp]:
  "live [] = []" "live (None # fs) = live fs" "live (Some f # fs) = f # live fs" "live (fs @ gs) = live fs @ live gs"
  by (simp_all add: live_def)

lemma set_live: "f \<in> set (live fs) \<longleftrightarrow> Some f \<in> set fs"
proof (induction fs)
  case (Cons g fs)
  then show ?case by (cases g) auto
qed simp

lemma live_split:
  assumes "distinct (live fs)" "i < length fs" "fs ! i = Some f"
  obtains xs ys where "fs = xs @ Some f # ys" "length xs = i" "Some f \<notin> set xs" "Some f \<notin> set ys"
proof
  show eq: "fs = take i fs @ Some f # drop (Suc i) fs" using assms by (metis id_take_nth_drop)
  show "length (take i fs) = i" using assms by simp
  have "distinct (live (take i fs @ Some f # drop (Suc i) fs))" using assms(1) eq by simp
  then show "Some f \<notin> set (take i fs)" "Some f \<notin> set (drop (Suc i) fs)" by (auto simp: set_live)
qed

lemma entry_of_cong:
  "(\<And>f. f \<in> set (live fs) \<Longrightarrow> registered t f = registered s f \<and> raised t f = raised s f) \<Longrightarrow> map (entry_of t) fs = map (entry_of s) fs"
  by (intro map_cong refl) (auto simp: entry_of_def set_live split: option.split)

lemma entries_raised:
  assumes "set (live fs) \<subseteq> {f. registered s f \<noteq> None}"
  shows "image_mset (map_option fst) (filter_mset (\<lambda>e. \<exists>c. e = Some (c, True)) (mset (map (entry_of s) fs)))
    = mset (map (registered s) (filter (raised s) (live fs)))"
  using assms
proof (induction fs)
  case (Cons f fs)
  then show ?case by (cases f) (auto simp: entry_of_def)
qed simp

lemma flag_add:
  assumes m: "flags_match fs s hs es" and r: "AddFlag c s = (h, t)"
  shows "\<exists>f. flags_match (fs @ [Some f]) t (hs @ [h]) (es @ [Some (c, False)])"
proof -
  have inv: "flag_set_inv s" using m by (simp add: flags_match_def)
  obtain f where f: "h = Some (flag_of f)" "registered s f = None" "flag_set_inv t"
    "registered t = (registered s)(f := Some c)" "raised t = raised s"
    using AddFlag_spec [OF inv, of c] r by auto
  have nf: "f \<notin> set (live fs)" using m f(2) by (simp add: flags_match_def)
  then have "map (entry_of t) fs = map (entry_of s) fs" by (intro entry_of_cong) (auto simp: f)
  moreover have "\<not> raised s f" using raised_registered [OF inv, of f] f(2) by auto
  ultimately show ?thesis
    using m nf f by (intro exI [of _ f]) (auto simp: flags_match_def entry_of_def)
qed

lemma flag_set_active:
  assumes m: "flags_match fs s hs es" and i: "i < length hs" "hs ! i = Some h"
  shows "flags_match fs (SetActive b h s) hs (es[i := map_option (\<lambda>(c, _). (c, b)) (es ! i)])"
proof -
  have d: "distinct (live fs)" and len: "i < length fs" using m i by (auto simp: flags_match_def)
  then obtain f where f: "fs ! i = Some f" "h = flag_of f" using m i by (auto simp: flags_match_def)
  from live_split [OF d len f(1)] obtain xs ys where xy: "fs = xs @ Some f # ys" "length xs = i"
    "Some f \<notin> set xs" "Some f \<notin> set ys" by blast
  have inv: "flag_set_inv s" using m by (simp add: flags_match_def)
  have "f \<in> set (live fs)" using xy by (simp add: set_live)
  then obtain c where c: "registered s f = Some c" using m by (auto simp: flags_match_def)
  note sp = SetActive_spec [OF inv c, of b]
  have "map (entry_of (SetActive b h s)) zs = map (entry_of s) zs" if "Some f \<notin> set zs" for zs
    using that unfolding f by (intro entry_of_cong) (auto simp: sp set_live)
  then have "map (entry_of (SetActive b h s)) fs = es[i := map_option (\<lambda>(c, _). (c, b)) (es ! i)]"
    using m xy c sp f(2) by (auto simp: flags_match_def entry_of_def nth_append list_update_append)
  then show ?thesis using m sp by (auto simp: flags_match_def f)
qed

lemma flag_release:
  assumes m: "flags_match fs s hs es" and i: "i < length hs"
  shows "flags_match (fs[i := None]) (ReleaseAtomicFlag (hs ! i) s) (hs[i := None]) (es[i := None])"
proof (cases "hs ! i")
  case None
  then have "fs ! i = None" "hs ! i = None" "es ! i = None" using m i by (auto simp: flags_match_def entry_of_def)
  then have "fs[i := None] = fs" "hs[i := None] = hs" "es[i := None] = es"
    using list_update_id [of fs i] list_update_id [of hs i] list_update_id [of es i] by auto
  then show ?thesis using m None by (simp add: ReleaseAtomicFlag_def)
next
  case (Some h)
  have d: "distinct (live fs)" and len: "i < length fs" using m i by (auto simp: flags_match_def)
  then obtain f where f: "fs ! i = Some f" "hs ! i = Some (flag_of f)" using m i Some by (auto simp: flags_match_def)
  from live_split [OF d len f(1)] obtain xs ys where xy: "fs = xs @ Some f # ys" "length xs = i"
    "Some f \<notin> set xs" "Some f \<notin> set ys" by blast
  have inv: "flag_set_inv s" using m by (simp add: flags_match_def)
  have "f \<in> set (live fs)" using xy by (simp add: set_live)
  then obtain c where c: "registered s f = Some c" using m by (auto simp: flags_match_def)
  note sp = ReleaseAtomicFlag_spec [OF inv c]
  have keep: "map (entry_of (ReleaseAtomicFlag (Some (flag_of f)) s)) zs = map (entry_of s) zs" if "Some f \<notin> set zs" for zs
    using that by (intro entry_of_cong) (auto simp: sp set_live)
  let ?t = "ReleaseAtomicFlag (Some (flag_of f)) s"
  have "set (live (xs @ None # ys)) = set (live fs) - {f}" using d xy by auto
  also have "\<dots> = {g. registered s g \<noteq> None} - {f}" using m by (simp add: flags_match_def)
  also have "\<dots> = {g. registered ?t g \<noteq> None}" by (auto simp: sp)
  finally have "set (live (xs @ None # ys)) = {g. registered ?t g \<noteq> None}" .
  moreover have "distinct (live (xs @ None # ys))" using d xy by simp
  moreover have "map (entry_of ?t) (xs @ None # ys) = es[i := None]"
    using m xy keep by (auto simp: flags_match_def list_update_append entry_of_def)
  moreover have "hs[i := None] = map (map_option flag_of) (xs @ None # ys)" "fs[i := None] = xs @ None # ys"
    using m xy by (auto simp: flags_match_def list_update_append)
  ultimately show ?thesis unfolding flags_match_def f(2) using sp(1) by simp
qed

lemma flag_run:
  assumes m: "flags_match fs s hs es" and r: "RunActiveCallbacks s = (cs, t)"
  shows "flags_match fs t hs (map (map_option (\<lambda>(c, _). (c, False))) es)"
    "mset cs = image_mset (map_option fst) (filter_mset (\<lambda>e. \<exists>c. e = Some (c, True)) (mset es))"
proof -
  have inv: "flag_set_inv s" using m by (simp add: flags_match_def)
  obtain gs where gs: "set gs = {f. raised s f}" "distinct gs" "cs = map (registered s) gs"
    "flag_set_inv t" "registered t = registered s" "raised t = (\<lambda>_. False)"
    using RunActiveCallbacks_spec [OF inv] r by auto
  show "flags_match fs t hs (map (map_option (\<lambda>(c, _). (c, False))) es)"
    using m gs by (auto simp: flags_match_def entry_of_def option.map_comp comp_def split: option.split)
  have "set (filter (raised s) (live fs)) = set gs" "distinct (filter (raised s) (live fs))"
    using m gs(1) raised_registered [OF inv] by (auto simp: flags_match_def)
  then have "mset gs = mset (filter (raised s) (live fs))"
    using gs(2) set_eq_iff_mset_eq_distinct by metis
  then have "mset cs = mset (map (registered s) (filter (raised s) (live fs)))" by (simp add: gs(3))
  then show "mset cs = image_mset (map_option fst) (filter_mset (\<lambda>e. \<exists>c. e = Some (c, True)) (mset es))"
    using entries_raised [of fs s] m by (simp add: flags_match_def)
qed

lemma flag_exec_step:
  assumes m: "flags_match fs s hs es" and r: "flag_exec c (s, hs, out) = (s', hs', out')"
    and a: "flags_exec c (es, map mset out) = (es', aout)"
  shows "\<exists>fs'. flags_match fs' s' hs' es' \<and> map mset out' = aout"
proof -
  have len: "length es = length hs" using m by (simp add: flags_match_def)
  show ?thesis
  proof (cases c)
    case (FAdd c)
    then show ?thesis using flag_add [OF m, of c] r a by (auto split: prod.splits)
  next
    case (FSet b i)
    show ?thesis
    proof (cases "i < length hs")
      case i: True
      show ?thesis
      proof (cases "hs ! i")
        case None
        then have "es ! i = None" using m i by (auto simp: flags_match_def entry_of_def)
        then have "es[i := None] = es" using list_update_id [of es i] by simp
        then show ?thesis using FSet None i r a m len \<open>es ! i = None\<close> by auto
      next
        case (Some h)
        then show ?thesis using FSet i r a len flag_set_active [OF m i Some, of b] by auto
      qed
    qed (use FSet r a m len in auto)
  next
    case (FRelease i)
    then show ?thesis using flag_release [OF m, of i] r a m len by (cases "i < length hs") (auto simp: list_update_beyond)
  next
    case FRun
    then show ?thesis using flag_run [OF m] r a by (auto split: prod.splits)
  qed
qed

lemma flag_exec_fold:
  assumes "flags_match fs s hs es"
    and "fold flag_exec cs (s, hs, out) = (s', hs', out')"
    and "fold flags_exec cs (es, map mset out) = (es', aout)"
  shows "map mset out' = aout"
  using assms
proof (induction cs arbitrary: fs s hs es out)
  case (Cons c cs)
  obtain s1 hs1 o1 where 1: "flag_exec c (s, hs, out) = (s1, hs1, o1)" by (metis prod_cases3)
  obtain es1 a1 where 2: "flags_exec c (es, map mset out) = (es1, a1)" by (metis surj_pair)
  from flag_exec_step [OF Cons.prems(1) 1 2] obtain fs1 where "flags_match fs1 s1 hs1 es1" "a1 = map mset o1" by auto
  then show ?case using Cons.IH [of fs1 s1 hs1 es1 o1] Cons.prems 1 2 by auto
qed auto

text \<open>Whatever flags are added, raised, lowered and released, each run of the callbacks runs those of the raised flags.\<close>

lemma flag_set_refines_list:
  fixes cs :: "'c flag_op list"
  shows "map mset (snd (snd (fold flag_exec cs (AtomicFlagSet_new, [], [])))) = snd (fold flags_exec cs ([], []))"
proof -
  have m: "flags_match [] (AtomicFlagSet_new :: 'c atomic_flag_set) [] []"
    by (auto simp: flags_match_def AtomicFlagSet_new_inv)
  obtain s' hs' o' where 1: "fold flag_exec cs (AtomicFlagSet_new, [], []) = (s', hs', o')" by (metis prod_cases3)
  obtain es' a' where 2: "fold flags_exec cs ([], map mset []) = (es', a')" by (metis surj_pair)
  show ?thesis using flag_exec_fold [OF m 1 2] 1 2 by simp
qed

end
