(* ===== verification/Thread_Controller.thy ===== *)
theory Thread_Controller
  imports Work_Deduplicator Time_Ticks
begin

text \<open>
  The model of \<open>thread_controller_with_message_pump_impl.cc\<close>, which drives a source of tasks from a
  message pump, and of the pump \<open>message_pump_default.cc\<close>. The source is the interface
  \<open>SequencedTaskSource\<close>, a record of its virtual functions; each may call back into the controller, so
  each takes and returns the whole controller, in which the source keeps its own state. What a task
  does when it runs, what other threads do while the controller checks for more work, and the wait for
  the event of the pump are the functions of a second record.
\<close>

section \<open>State\<close>

record run_loop =
  rl_nestable_tasks_allowed :: bool
  quit_called :: bool
  rl_running :: bool
  quit_when_idle_received :: bool
  allow_quit_current_deprecated :: bool

datatype pump_call = CallScheduleWork | CallScheduleDelayedWork int | CallQuit

text \<open>\<open>pump_calls\<close> is a trace of the calls the pump has received; no operation reads it.\<close>

record message_pump_default =
  keep_running :: bool
  event_signaled :: bool
  pump_calls :: "pump_call list"

text \<open>\<open>MainThreadOnly\<close> with the members of the controller beside it and of its base class
  \<open>RunLoop::Delegate\<close>. Loops are numbers; \<open>active_run_loops\<close> has the innermost loop first.\<close>

record 's thread_controller =
  source_state :: 's
  nesting_observer :: bool
  thread_task_runner_handle :: "nat option"
  quit_pending :: bool
  work_batch_size :: int
  runloop_count :: int
  next_delayed_do_work :: int
  quit_runloop_after :: int
  task_execution_allowed :: bool
  thread_bound :: bool
  default_task_runner :: "nat option"
  deduplicator :: work_deduplicator
  pump :: message_pump_default
  work_id :: u32
  run_loops :: "nat \<Rightarrow> run_loop"
  active_run_loops :: "nat list"

text \<open>\<open>TakeTask\<close> and the observer of nested loops are partial: a source may loop or fail. \<open>NowTicks\<close> is the clock of the controller.\<close>

record ('s, 't) task_source =
  TakeTask :: "'s thread_controller \<Rightarrow> ('t option \<times> 's thread_controller) option"
  src_DidRunTask :: "'s thread_controller \<Rightarrow> 's thread_controller"
  src_DelayTillNextTask :: "int \<Rightarrow> 's thread_controller \<Rightarrow> int \<times> 's thread_controller"
  src_OnSystemIdle :: "'s thread_controller \<Rightarrow> bool \<times> 's thread_controller"
  src_OnBeginNestedRunLoop :: "'s thread_controller \<Rightarrow> 's thread_controller"
  src_OnExitNestedRunLoop :: "'s thread_controller \<Rightarrow> 's thread_controller option"
  NowTicks :: "'s thread_controller \<Rightarrow> int"

record ('s, 't) surroundings =
  RunTask :: "'t \<Rightarrow> 's thread_controller \<Rightarrow> 's thread_controller option"
  meanwhile :: "'s thread_controller \<Rightarrow> 's thread_controller"
  event_Wait :: "int option \<Rightarrow> 's thread_controller \<Rightarrow> 's thread_controller option"

record next_work_info =
  next_delayed_run_time :: int
  recent_now :: int

definition is_immediate :: "next_work_info \<Rightarrow> bool" where
  "is_immediate info = (next_delayed_run_time info = 0)"

definition remaining_delay :: "next_work_info \<Rightarrow> int" where
  "remaining_delay info = next_delayed_run_time info - recent_now info"

section \<open>The pump\<close>

definition MessagePumpDefault_new :: message_pump_default where
  "MessagePumpDefault_new = \<lparr>keep_running = True, event_signaled = False, pump_calls = []\<rparr>"

definition pump_call :: "pump_call \<Rightarrow> 's thread_controller \<Rightarrow> 's thread_controller" where
  "pump_call c tc = tc\<lparr>pump := (pump tc)\<lparr>pump_calls := pump_calls (pump tc) @ [c]\<rparr>\<rparr>"

definition pump_Quit :: "'s thread_controller \<Rightarrow> 's thread_controller" where
  "pump_Quit tc = (let tc = pump_call CallQuit tc in tc\<lparr>pump := (pump tc)\<lparr>keep_running := False\<rparr>\<rparr>)"

definition pump_ScheduleWork :: "'s thread_controller \<Rightarrow> 's thread_controller" where
  "pump_ScheduleWork tc =
     (let tc = pump_call CallScheduleWork tc in tc\<lparr>pump := (pump tc)\<lparr>event_signaled := True\<rparr>\<rparr>)"

definition pump_ScheduleDelayedWork :: "int \<Rightarrow> 's thread_controller \<Rightarrow> 's thread_controller" where
  "pump_ScheduleDelayedWork delayed_work_time tc = pump_call (CallScheduleDelayedWork delayed_work_time) tc"

section \<open>Requests\<close>

definition IncrementWorkId :: "u32 \<Rightarrow> u32" where
  "IncrementWorkId i = (let next_id = i + 1 in if next_id = 0 then next_id + 1 else next_id)"

definition one_day :: int where "one_day = 24 * 60 * 60 * 1000000"

definition CapAtOneDay :: "int \<Rightarrow> int \<Rightarrow> int" where
  "CapAtOneDay next_run_time now = min next_run_time (ticks_plus now one_day)"

definition ThreadController_new :: "'s \<Rightarrow> 's thread_controller" where
  "ThreadController_new s =
     \<lparr>source_state = s, nesting_observer = False, thread_task_runner_handle = None, quit_pending = False,
      work_batch_size = 1, runloop_count = 0, next_delayed_do_work = int64_max, quit_runloop_after = int64_max,
      task_execution_allowed = True, thread_bound = False, default_task_runner = None,
      deduplicator = WorkDeduplicator_new, pump = MessagePumpDefault_new, work_id = 0,
      run_loops = (\<lambda>_. \<lparr>rl_nestable_tasks_allowed = False, quit_called = False, rl_running = False,
        quit_when_idle_received = False, allow_quit_current_deprecated = True\<rparr>), active_run_loops = []\<rparr>"

definition InitializeThreadTaskRunnerHandle :: "'s thread_controller \<Rightarrow> 's thread_controller" where
  "InitializeThreadTaskRunnerHandle tc = tc\<lparr>thread_task_runner_handle := default_task_runner tc\<rparr>"

definition tc_BindToCurrentThread :: "'s thread_controller \<Rightarrow> 's thread_controller" where
  "tc_BindToCurrentThread tc =
     (let tc = tc\<lparr>thread_bound := True\<rparr>;
          tc = (if default_task_runner tc \<noteq> None then InitializeThreadTaskRunnerHandle tc else tc);
          (r, d) = BindToCurrentThread (deduplicator tc);
          tc = tc\<lparr>deduplicator := d\<rparr>
      in if r = kScheduleImmediate then pump_ScheduleWork tc else tc)"

definition SetWorkBatchSize :: "int \<Rightarrow> 's thread_controller \<Rightarrow> 's thread_controller" where
  "SetWorkBatchSize n tc = tc\<lparr>work_batch_size := n\<rparr>"

definition tc_ScheduleWork :: "'s thread_controller \<Rightarrow> 's thread_controller" where
  "tc_ScheduleWork tc =
     (let (r, d) = OnWorkRequested (deduplicator tc); tc = tc\<lparr>deduplicator := d\<rparr>
      in if r = kScheduleImmediate then pump_ScheduleWork tc else tc)"

definition tc_SetNextDelayedDoWork :: "int \<Rightarrow> int \<Rightarrow> 's thread_controller \<Rightarrow> 's thread_controller" where
  "tc_SetNextDelayedDoWork now run_time tc =
     (if next_delayed_do_work tc = run_time then tc
      else let tc = tc\<lparr>next_delayed_do_work := run_time\<rparr>;
               run_time = CapAtOneDay run_time now
           in if OnDelayedWorkRequested (deduplicator tc) = kScheduleImmediate
              then pump_ScheduleDelayedWork run_time tc else tc)"

definition SetDefaultTaskRunner :: "nat option \<Rightarrow> 's thread_controller \<Rightarrow> 's thread_controller" where
  "SetDefaultTaskRunner r tc =
     (let tc = tc\<lparr>default_task_runner := r\<rparr>
      in if thread_bound tc then InitializeThreadTaskRunnerHandle tc else tc)"

definition RestoreDefaultTaskRunner :: "'s thread_controller \<Rightarrow> 's thread_controller" where
  "RestoreDefaultTaskRunner tc = tc\<lparr>thread_task_runner_handle := None\<rparr>"

definition AddNestingObserver :: "'s thread_controller \<Rightarrow> 's thread_controller" where
  "AddNestingObserver tc = tc\<lparr>nesting_observer := True\<rparr>"

definition RemoveNestingObserver :: "'s thread_controller \<Rightarrow> 's thread_controller" where
  "RemoveNestingObserver tc = tc\<lparr>nesting_observer := False\<rparr>"

definition BeforeDoInternalWork :: "'s thread_controller \<Rightarrow> 's thread_controller" where
  "BeforeDoInternalWork tc = tc\<lparr>work_id := IncrementWorkId (work_id tc)\<rparr>"

definition tc_OnBeginNestedRunLoop :: "('s, 't) task_source \<Rightarrow> 's thread_controller \<Rightarrow> 's thread_controller" where
  "tc_OnBeginNestedRunLoop src tc = (if nesting_observer tc then src_OnBeginNestedRunLoop src tc else tc)"

definition tc_OnExitNestedRunLoop :: "('s, 't) task_source \<Rightarrow> 's thread_controller \<Rightarrow> 's thread_controller option" where
  "tc_OnExitNestedRunLoop src tc = (if nesting_observer tc then src_OnExitNestedRunLoop src tc else Some tc)"

definition tc_Quit :: "'s thread_controller \<Rightarrow> 's thread_controller" where
  "tc_Quit tc = pump_Quit (tc\<lparr>quit_pending := True\<rparr>)"

definition EnsureWorkScheduled :: "'s thread_controller \<Rightarrow> 's thread_controller" where
  "EnsureWorkScheduled tc =
     (let (r, d) = OnWorkRequested (deduplicator tc); tc = tc\<lparr>deduplicator := d\<rparr>
      in if r = kScheduleImmediate then pump_ScheduleWork tc else tc)"

definition SetTaskExecutionAllowed :: "bool \<Rightarrow> 's thread_controller \<Rightarrow> 's thread_controller" where
  "SetTaskExecutionAllowed allowed tc =
     (let tc = (if allowed
                then pump_ScheduleWork (tc\<lparr>deduplicator := snd (OnWorkRequested (deduplicator tc))\<rparr>)
                else tc\<lparr>deduplicator := OnWorkStarted (deduplicator tc)\<rparr>)
      in tc\<lparr>task_execution_allowed := allowed\<rparr>)"

text \<open>Reading the top of an empty stack of loops is undefined: \<^term>\<open>None\<close>.\<close>

definition ShouldQuitWhenIdle :: "'s thread_controller \<Rightarrow> bool option" where
  "ShouldQuitWhenIdle tc =
     (case active_run_loops tc of [] \<Rightarrow> None | l # _ \<Rightarrow> Some (quit_when_idle_received (run_loops tc l)))"

definition ShouldQuitRunLoopWhenIdle :: "'s thread_controller \<Rightarrow> bool option" where
  "ShouldQuitRunLoopWhenIdle tc = (if runloop_count tc = 0 then Some False else ShouldQuitWhenIdle tc)"

section \<open>Work\<close>

text \<open>The loop of \<open>DoWorkImpl\<close>. A task may change the batch size, so the loop takes fuel; the result
  lists the tasks that were run, in order.\<close>

fun do_batch :: "('s, 't) task_source \<Rightarrow> ('s, 't) surroundings \<Rightarrow> nat \<Rightarrow> int \<Rightarrow> 's thread_controller \<Rightarrow>
    ('t list \<times> 's thread_controller) option" where
  "do_batch src env fuel i tc =
     (if \<not> i < work_batch_size tc then Some ([], tc)
      else case fuel of 0 \<Rightarrow> None
      | Suc fuel \<Rightarrow>
          (case TakeTask src tc of None \<Rightarrow> None
           | Some (None, tc) \<Rightarrow> Some ([], tc)
           | Some (Some t, tc) \<Rightarrow>
               let tc = tc\<lparr>task_execution_allowed := False\<rparr>;
                   tc = tc\<lparr>work_id := IncrementWorkId (work_id tc)\<rparr>
               in case RunTask env t tc of None \<Rightarrow> None
                  | Some tc \<Rightarrow>
                      let tc = tc\<lparr>task_execution_allowed := True\<rparr>;
                          tc = src_DidRunTask src tc
                      in if quit_pending tc then Some ([t], tc)
                         else case do_batch src env fuel (i + 1) tc of None \<Rightarrow> None
                              | Some (ts, tc) \<Rightarrow> Some (t # ts, tc)))"

declare do_batch.simps [simp del]

text \<open>The result is the delay, whether a task ran and the value that \<open>continuation_lazy_now\<close> holds
  from here on: wherever the caller reads it again, it was read here first, or the source read it.\<close>

definition DoWorkImpl :: "('s, 't) task_source \<Rightarrow> ('s, 't) surroundings \<Rightarrow> nat \<Rightarrow> 's thread_controller \<Rightarrow>
    (int \<times> bool \<times> int \<times> 's thread_controller) option" where
  "DoWorkImpl src env fuel tc =
     (if \<not> task_execution_allowed tc
      then let now = NowTicks src tc
           in Some (if quit_runloop_after tc = int64_max then int64_max else quit_runloop_after tc - now,
                    False, now, tc)
      else case do_batch src env fuel 0 tc of None \<Rightarrow> None
           | Some (done_tasks, tc) \<Rightarrow>
               let now = NowTicks src tc
               in if quit_pending tc then Some (int64_max, done_tasks \<noteq> [], now, tc)
                  else let tc = tc\<lparr>deduplicator := WillCheckForMoreWork (deduplicator tc)\<rparr>;
                           (do_work_delay, tc) = src_DelayTillNextTask src now tc
                       in Some (do_work_delay, done_tasks \<noteq> [], now, tc))"

definition DoSomeWork :: "('s, 't) task_source \<Rightarrow> ('s, 't) surroundings \<Rightarrow> nat \<Rightarrow> 's thread_controller \<Rightarrow>
    (next_work_info \<times> 's thread_controller) option" where
  "DoSomeWork src env fuel tc =
     (case DoWorkImpl src env fuel (tc\<lparr>deduplicator := OnWorkStarted (deduplicator tc)\<rparr>) of None \<Rightarrow> None
      | Some (delay_till_next_task, _, now, tc) \<Rightarrow>
          let tc = meanwhile env tc;
              (r, d) = DidCheckForMoreWork (if delay_till_next_task = 0 then kIsImmediate else kIsDelayed) (deduplicator tc);
              tc = tc\<lparr>deduplicator := d\<rparr>
          in if r = kScheduleImmediate then Some (\<lparr>next_delayed_run_time = 0, recent_now = 0\<rparr>, tc)
             else if delay_till_next_task = int64_max
             then Some (\<lparr>next_delayed_run_time = int64_max, recent_now = 0\<rparr>, tc\<lparr>next_delayed_do_work := int64_max\<rparr>)
             else let tc = tc\<lparr>next_delayed_do_work := ticks_plus now delay_till_next_task\<rparr>;
                      past = quit_runloop_after tc < next_delayed_do_work tc;
                      tc = (if past then tc\<lparr>next_delayed_do_work := quit_runloop_after tc\<rparr> else tc)
                  in if past \<and> quit_runloop_after tc \<le> now
                     then Some (\<lparr>next_delayed_run_time = int64_max, recent_now = 0\<rparr>, tc)
                     else Some (\<lparr>next_delayed_run_time = CapAtOneDay (next_delayed_do_work tc) now, recent_now = now\<rparr>, tc))"

definition DoWork :: "('s, 't) task_source \<Rightarrow> ('s, 't) surroundings \<Rightarrow> nat \<Rightarrow> 's thread_controller \<Rightarrow>
    (bool \<times> 's thread_controller) option" where
  "DoWork src env fuel tc =
     (case DoWorkImpl src env fuel (tc\<lparr>deduplicator := OnWorkStarted (deduplicator tc)\<rparr>) of None \<Rightarrow> None
      | Some (delay_till_next_task, ran_task, now, tc) \<Rightarrow>
          let ran_task = (if delay_till_next_task = 0 then True else ran_task);
              tc = meanwhile env tc;
              (r, d) = DidCheckForMoreWork (if ran_task then kIsImmediate else kIsDelayed) (deduplicator tc)
          in Some (r = kScheduleImmediate, tc\<lparr>deduplicator := d\<rparr>))"

text \<open>The result is \<open>ran_task\<close> and \<open>*next_run_time\<close>.\<close>

definition DoDelayedWork :: "('s, 't) task_source \<Rightarrow> ('s, 't) surroundings \<Rightarrow> nat \<Rightarrow> 's thread_controller \<Rightarrow>
    (bool \<times> int \<times> 's thread_controller) option" where
  "DoDelayedWork src env fuel tc =
     (case DoWorkImpl src env fuel (tc\<lparr>deduplicator := OnDelayedWorkStarted (deduplicator tc)\<rparr>) of None \<Rightarrow> None
      | Some (delay_till_next_task, ran_task, now, tc) \<Rightarrow>
          let (next_run_time, next_task, tc) =
                (if delay_till_next_task = 0 then (0, kIsImmediate, tc)
                 else if delay_till_next_task \<noteq> int64_max
                 then let next_run_time = CapAtOneDay (ticks_plus now delay_till_next_task) now;
                          next_run_time =
                            (if quit_runloop_after tc < next_run_time
                             then if quit_runloop_after tc \<le> now then 0 else quit_runloop_after tc
                             else next_run_time)
                      in (next_run_time, kIsDelayed, tc\<lparr>next_delayed_do_work := next_run_time\<rparr>)
                 else (0, kIsDelayed, tc));
              tc = meanwhile env tc;
              (r, d) = OnDelayedWorkEnded next_task (deduplicator tc);
              tc = tc\<lparr>deduplicator := d\<rparr>;
              tc = (if r = kScheduleImmediate then pump_ScheduleWork tc else tc)
          in Some (ran_task, next_run_time, tc))"

text \<open>The part of \<open>DoIdleWork\<close> that every platform has.\<close>

definition DoIdleWork :: "('s, 't) task_source \<Rightarrow> 's thread_controller \<Rightarrow> (bool \<times> 's thread_controller) option" where
  "DoIdleWork src tc =
     (let tc = tc\<lparr>work_id := IncrementWorkId (work_id tc)\<rparr>;
          (more, tc) = src_OnSystemIdle src tc
      in if more then Some (False, pump_ScheduleWork tc)
         else if quit_runloop_after tc \<noteq> int64_max \<and> quit_runloop_after tc \<le> NowTicks src tc
         then Some (False, tc_Quit tc)
         else case ShouldQuitWhenIdle tc of None \<Rightarrow> None
              | Some quit \<Rightarrow> Some (False, if quit then tc_Quit tc else tc))"

section \<open>The loop of the pump\<close>

fun pump_loop :: "('s, 't) task_source \<Rightarrow> ('s, 't) surroundings \<Rightarrow> nat \<Rightarrow> 's thread_controller \<Rightarrow>
    's thread_controller option" where
  "pump_loop src env 0 tc = None"
| "pump_loop src env (Suc fuel) tc =
     (case DoSomeWork src env fuel tc of None \<Rightarrow> None
      | Some (next_work_info, tc) \<Rightarrow>
          if \<not> keep_running (pump tc) then Some tc
          else if is_immediate next_work_info then pump_loop src env fuel tc
          else case DoIdleWork src tc of None \<Rightarrow> None
               | Some (has_more_immediate_work, tc) \<Rightarrow>
                   if \<not> keep_running (pump tc) then Some tc
                   else if has_more_immediate_work then pump_loop src env fuel tc
                   else case event_Wait env (if next_delayed_run_time next_work_info = int64_max then None
                                             else Some (remaining_delay next_work_info)) tc of None \<Rightarrow> None
                        | Some tc \<Rightarrow> pump_loop src env fuel (tc\<lparr>pump := (pump tc)\<lparr>event_signaled := False\<rparr>\<rparr>))"

definition pump_Run :: "('s, 't) task_source \<Rightarrow> ('s, 't) surroundings \<Rightarrow> nat \<Rightarrow> 's thread_controller \<Rightarrow>
    's thread_controller option" where
  "pump_Run src env fuel tc =
     (case pump_loop src env fuel (tc\<lparr>pump := (pump tc)\<lparr>keep_running := True\<rparr>\<rparr>) of None \<Rightarrow> None
      | Some u \<Rightarrow> Some (u\<lparr>pump := (pump u)\<lparr>keep_running := keep_running (pump tc)\<rparr>\<rparr>))"

definition tc_Run :: "('s, 't) task_source \<Rightarrow> ('s, 't) surroundings \<Rightarrow> nat \<Rightarrow> bool \<Rightarrow> int \<Rightarrow>
    's thread_controller \<Rightarrow> 's thread_controller option" where
  "tc_Run src env fuel application_tasks_allowed timeout tc =
     (let previous = quit_runloop_after tc;
          tc = tc\<lparr>quit_runloop_after := if timeout = int64_max then int64_max else ticks_plus (NowTicks src tc) timeout\<rparr>;
          tc = tc\<lparr>quit_pending := False, runloop_count := runloop_count tc + 1\<rparr>;
          result = (if application_tasks_allowed \<and> \<not> task_execution_allowed tc
                 then map_option (\<lambda>tc. tc\<lparr>task_execution_allowed := False\<rparr>)
                        (pump_Run src env fuel (tc\<lparr>task_execution_allowed := True\<rparr>))
                 else pump_Run src env fuel tc)
      in case result of None \<Rightarrow> None
         | Some tc \<Rightarrow> Some (tc\<lparr>runloop_count := runloop_count tc - 1, quit_pending := False,
                             quit_runloop_after := previous\<rparr>))"

end
