(* ===== verification/Thread_Loop.thy ===== *)
theory Thread_Loop
  imports Thread_Controller
begin

text \<open>
  What the thread controller guarantees to any source of tasks: the interface of the source as a
  locale, the bound of a batch, the state in which the pump goes to sleep and the way out of its loop.
\<close>

section \<open>What a source may do to the controller\<close>

text \<open>A source changes its own state, requests work and announces delayed work; nothing else. A request
  that finds the controller idle reaches the event of the pump.\<close>

definition same_loop :: "'s thread_controller \<Rightarrow> 's thread_controller \<Rightarrow> bool" where
  "same_loop a b \<longleftrightarrow> quit_pending b = quit_pending a \<and> work_batch_size b = work_batch_size a \<and>
     runloop_count b = runloop_count a \<and> quit_runloop_after b = quit_runloop_after a \<and>
     task_execution_allowed b = task_execution_allowed a \<and> keep_running (pump b) = keep_running (pump a) \<and>
     run_loops b = run_loops a \<and> active_run_loops b = active_run_loops a"

definition asks :: "'s thread_controller \<Rightarrow> 's thread_controller \<Rightarrow> bool" where
  "asks a b \<longleftrightarrow> same_loop a b \<and>
     wd_state (deduplicator b) \<in> {wd_state (deduplicator a), wd_state (deduplicator a) OR kPendingDoWorkFlag} \<and>
     (event_signaled (pump a) \<longrightarrow> event_signaled (pump b)) \<and>
     (wd_state (deduplicator a) = kIdle \<longrightarrow> wd_state (deduplicator b) = kIdle \<or> event_signaled (pump b))"

definition in_use :: "'s thread_controller \<Rightarrow> bool" where
  "in_use tc \<longleftrightarrow> wd_state (deduplicator tc) \<in> {4, 5, 6, 7}"

text \<open>Nothing that runs inside a loop leaves a loop behind.\<close>

definition same_stack :: "'s thread_controller \<Rightarrow> 's thread_controller \<Rightarrow> bool" where
  "same_stack a b \<longleftrightarrow> runloop_count b = runloop_count a \<and> active_run_loops b = active_run_loops a"

lemma same_stack_refl [simp]: "same_stack a a"
  by (simp add: same_stack_def)

lemma asks_refl [simp]: "asks a a"
  by (simp add: asks_def same_loop_def)

lemma same_loop_trans: "same_loop a b \<Longrightarrow> same_loop b c \<Longrightarrow> same_loop a c"
  by (simp add: same_loop_def)

lemma asks_trans: "asks a b \<Longrightarrow> asks b c \<Longrightarrow> asks a c"
proof -
  assume 1: "asks a b" and 2: "asks b c"
  have "z \<in> {x, x OR f}" if "y \<in> {x, x OR f}" "z \<in> {y, y OR f}" for x y z f :: u32
    using that by (auto simp: or.assoc)
  then have "wd_state (deduplicator c) \<in> {wd_state (deduplicator a), wd_state (deduplicator a) OR kPendingDoWorkFlag}"
    using 1 2 unfolding asks_def by blast
  moreover have "same_loop a c" using 1 2 same_loop_trans unfolding asks_def by blast
  ultimately show "asks a c" using 1 2 unfolding asks_def by blast
qed

lemma asks_same_loop: "asks a b \<Longrightarrow> same_loop a b"
  by (simp add: asks_def)

lemma asks_in_use: "asks a b \<Longrightarrow> in_use a \<Longrightarrow> in_use b"
  by (auto simp: asks_def in_use_def wd_flags)

lemma asks_source [simp]: "asks a (a\<lparr>source_state := s\<rparr>)"
  by (simp add: asks_def same_loop_def)

lemma asks_ScheduleWork [simp]: "asks a (tc_ScheduleWork a)"
  by (auto simp: asks_def same_loop_def tc_ScheduleWork_def OnWorkRequested_def Let_def pump_ScheduleWork_def pump_call_def)

lemma asks_SetNextDelayedDoWork [simp]: "asks a (tc_SetNextDelayedDoWork now t a)"
  by (auto simp: asks_def same_loop_def tc_SetNextDelayedDoWork_def Let_def pump_ScheduleDelayedWork_def pump_call_def)

lemma DidCheck_idle:
  assumes "DidCheckForMoreWork n d = (r, d')" "r \<noteq> kScheduleImmediate" "wd_state d \<in> {4, 5, 6, 7}"
  shows "wd_state d' = kIdle"
  using assms by (auto simp: DidCheckForMoreWork_def Let_def wd_flags split: if_splits)

text \<open>A thread that is idle, or whose event is signaled, is woken by the next request.\<close>

definition can_be_woken :: "'s thread_controller \<Rightarrow> bool" where
  "can_be_woken tc \<longleftrightarrow> event_signaled (pump (tc_ScheduleWork tc))"

lemma can_be_woken_iff: "can_be_woken tc \<longleftrightarrow> wd_state (deduplicator tc) = kIdle \<or> event_signaled (pump tc)"
  by (auto simp: can_be_woken_def tc_ScheduleWork_def OnWorkRequested_def Let_def pump_ScheduleWork_def pump_call_def)

lemma asks_can_be_woken: "asks a b \<Longrightarrow> can_be_woken a \<Longrightarrow> can_be_woken b"
  by (auto simp: can_be_woken_iff asks_def)

lemma quit_can_be_woken: "can_be_woken a \<Longrightarrow> can_be_woken (tc_Quit a)"
  by (simp add: can_be_woken_iff tc_Quit_def pump_Quit_def pump_call_def Let_def)

section \<open>One turn of a batch\<close>

definition starting :: "'s thread_controller \<Rightarrow> 's thread_controller" where
  "starting a = a\<lparr>task_execution_allowed := False, work_id := IncrementWorkId (work_id a)\<rparr>"

lemma do_batch_full [simp]: "\<not> i < work_batch_size a \<Longrightarrow> do_batch src env fuel i a = Some ([], a)"
  by (subst do_batch.simps) simp

lemma do_batch_0: "i < work_batch_size a \<Longrightarrow> do_batch src env 0 i a = None"
  by (subst do_batch.simps) simp

lemma do_batch_Suc: "i < work_batch_size a \<Longrightarrow> do_batch src env (Suc f) i a =
    (case TakeTask src a of None \<Rightarrow> None
     | Some (None, a) \<Rightarrow> Some ([], a)
     | Some (Some t, a) \<Rightarrow>
         (case RunTask env t (starting a) of None \<Rightarrow> None
          | Some c \<Rightarrow>
              let d = src_DidRunTask src (c\<lparr>task_execution_allowed := True\<rparr>)
              in if quit_pending d then Some ([t], d)
                 else case do_batch src env f (i + 1) d of None \<Rightarrow> None
                      | Some (ts, d) \<Rightarrow> Some (t # ts, d)))"
  by (subst do_batch.simps) (auto simp: starting_def Let_def split: option.split)

lemma do_batch_cases [consumes 1, case_names full dry quit more]:
  assumes "do_batch src env fuel i a = Some (ts, b)"
  obtains "\<not> i < work_batch_size a" "ts = []" "b = a"
  | f where "i < work_batch_size a" "fuel = Suc f" "TakeTask src a = Some (None, b)" "ts = []"
  | f t a' c where "i < work_batch_size a" "fuel = Suc f" "TakeTask src a = Some (Some t, a')" "RunTask env t (starting a') = Some c"
      "b = src_DidRunTask src (c\<lparr>task_execution_allowed := True\<rparr>)" "quit_pending b" "ts = [t]"
  | f t a' c us where "i < work_batch_size a" "fuel = Suc f" "TakeTask src a = Some (Some t, a')" "RunTask env t (starting a') = Some c"
      "\<not> quit_pending (src_DidRunTask src (c\<lparr>task_execution_allowed := True\<rparr>))"
      "do_batch src env f (i + 1) (src_DidRunTask src (c\<lparr>task_execution_allowed := True\<rparr>)) = Some (us, b)" "ts = t # us"
proof (cases "i < work_batch_size a")
  case False
  then have "ts = [] \<and> b = a" using assms by auto
  then show thesis using False that(1) by blast
next
  case True
  then obtain f where f: "fuel = Suc f" using assms by (cases fuel) (simp_all add: do_batch_0)
  note e = assms [unfolded f do_batch_Suc [OF True]]
  obtain r a' where t: "TakeTask src a = Some (r, a')" using e by (cases "TakeTask src a") auto
  show thesis
  proof (cases r)
    case None
    then show thesis using e True f t that(2) by simp
  next
    case (Some x)
    obtain c where c: "RunTask env x (starting a') = Some c"
      using e t Some by (cases "RunTask env x (starting a')") simp_all
    let ?d = "src_DidRunTask src (c\<lparr>task_execution_allowed := True\<rparr>)"
    have eq: "(if quit_pending ?d then Some ([x], ?d)
        else case do_batch src env f (i + 1) ?d of None \<Rightarrow> None | Some (ts, tc) \<Rightarrow> Some (x # ts, tc)) = Some (ts, b)"
      using e t Some c by (simp add: Let_def)
    show thesis
    proof (cases "quit_pending ?d")
      case q: True
      then show thesis using that(3) [OF True f _ c] t Some eq by simp
    next
      case q: False
      then show thesis using that(4) [OF True f _ c q] t Some eq
        by (cases "do_batch src env f (i + 1) ?d") auto
    qed
  qed
qed

lemma DoSomeWork_worked:
  assumes "DoSomeWork src env fuel a = Some (info, b)"
  obtains d r now c where "DoWorkImpl src env fuel (a\<lparr>deduplicator := OnWorkStarted (deduplicator a)\<rparr>) = Some (d, r, now, c)"
proof (cases "DoWorkImpl src env fuel (a\<lparr>deduplicator := OnWorkStarted (deduplicator a)\<rparr>)")
  case None
  then have False using assms by (simp add: DoSomeWork_def)
  then show ?thesis ..
next
  case (Some x)
  then show ?thesis by (cases x) (auto intro: that)
qed

section \<open>The interface\<close>

locale polite_source =
  fixes src :: "('s, 't) task_source"
  assumes takes: "TakeTask src a = Some (r, b) \<Longrightarrow> asks a b"
    and did_run: "asks a (src_DidRunTask src a)"
    and delays: "src_DelayTillNextTask src now a = (d, b) \<Longrightarrow> asks a b"
    and idles: "src_OnSystemIdle src a = (m, b) \<Longrightarrow> asks a b"
    and begins: "asks a (src_OnBeginNestedRunLoop src a)"
    and exits: "src_OnExitNestedRunLoop src a = Some b \<Longrightarrow> asks a b"
begin

lemma do_batch_keeps:
  assumes "do_batch src env fuel i a = Some (ts, b)" "P a"
    and asks: "\<And>a b. asks a b \<Longrightarrow> P a \<Longrightarrow> P b"
    and runs: "\<And>t a b. P a \<Longrightarrow> RunTask env t (starting a) = Some b \<Longrightarrow> P (b\<lparr>task_execution_allowed := True\<rparr>)"
  shows "P b"
  using assms(1,2)
proof (induction fuel arbitrary: i a ts)
  case (Suc fuel)
  have did: "P (src_DidRunTask src (c\<lparr>task_execution_allowed := True\<rparr>))" if "TakeTask src a = Some (Some t, a')" "RunTask env t (starting a') = Some c" for t a' c
    using asks [OF did_run runs [OF asks [OF takes [OF that(1)] Suc.prems(2)] that(2)]] .
  show ?case using Suc.prems(1)
  proof (cases rule: do_batch_cases)
    case (dry f)
    then show ?thesis using asks [OF takes Suc.prems(2)] by blast
  next
    case (more f t a' c us)
    then show ?thesis using Suc.IH did by blast
  qed (use did Suc.prems(2) in auto)
qed (auto elim: do_batch_cases)

lemma DoWorkImpl_in_use:
  assumes "DoWorkImpl src env fuel a = Some (d, r, now, b)" "in_use a"
    and runs: "\<And>t a b. in_use a \<Longrightarrow> RunTask env t a = Some b \<Longrightarrow> in_use b"
  shows "in_use b"
proof -
  have batch: "in_use c" if "do_batch src env fuel 0 a = Some (ts, c)" for ts c
    using that assms(2)
  proof (rule do_batch_keeps)
    show "in_use b" if "asks a b" "in_use a" for a b :: "'s thread_controller" using that by (rule asks_in_use)
    show "in_use (b\<lparr>task_execution_allowed := True\<rparr>)"
      if "in_use a" "RunTask env t (starting a) = Some b" for t a b
      using runs [OF _ that(2)] that(1) by (simp add: in_use_def starting_def)
  qed
  have will: "in_use (c\<lparr>deduplicator := WillCheckForMoreWork (deduplicator c)\<rparr>)" for c :: "'s thread_controller"
    by (simp add: in_use_def WillCheckForMoreWork_def wd_flags)
  show ?thesis
  proof (cases "task_execution_allowed a")
    case True
    then obtain ts c where c: "do_batch src env fuel 0 a = Some (ts, c)"
      using assms(1) by (auto simp: DoWorkImpl_def split: option.splits)
    show ?thesis using assms(1) True c batch [OF c] asks_in_use [OF delays will, of "NowTicks src c" c]
      by (auto simp: DoWorkImpl_def Let_def split: if_splits prod.splits)
  next
    case False
    then show ?thesis using assms(1,2) by (simp add: DoWorkImpl_def Let_def)
  qed
qed

lemma DoSomeWork_idle:
  assumes "DoSomeWork src env fuel a = Some (info, b)" "\<not> is_immediate info"
    and runs: "\<And>t a b. in_use a \<Longrightarrow> RunTask env t a = Some b \<Longrightarrow> in_use b"
    and others: "\<And>a. asks a (meanwhile env a)"
  shows "wd_state (deduplicator b) = kIdle"
proof -
  let ?a = "a\<lparr>deduplicator := OnWorkStarted (deduplicator a)\<rparr>"
  obtain d r now c where w: "DoWorkImpl src env fuel ?a = Some (d, r, now, c)"
    using DoSomeWork_worked [OF assms(1)] .
  have "in_use ?a" by (simp add: in_use_def OnWorkStarted_def wd_flags)
  then have "in_use c" using runs by (rule DoWorkImpl_in_use [OF w])
  then have u: "in_use (meanwhile env c)" by (rule asks_in_use [OF others])
  obtain r' d' where c: "DidCheckForMoreWork (if d = 0 then kIsImmediate else kIsDelayed) (deduplicator (meanwhile env c)) = (r', d')"
    by force
  note e = assms(1) [unfolded DoSomeWork_def w option.case prod.case Let_def c]
  have r: "r' \<noteq> kScheduleImmediate"
  proof
    assume "r' = kScheduleImmediate"
    then have "next_delayed_run_time info = 0" using e by auto
    then show False using assms(2) by (simp add: is_immediate_def)
  qed
  have "deduplicator b = d'" using e r by (auto split: if_splits)
  then show ?thesis using DidCheck_idle [OF c r] u by (simp add: in_use_def)
qed

lemma DoIdleWork_wakes:
  assumes "DoIdleWork src a = Some (m, b)" "can_be_woken a"
  shows "can_be_woken b \<and> \<not> m"
proof -
  obtain m' c where c: "src_OnSystemIdle src (a\<lparr>work_id := IncrementWorkId (work_id a)\<rparr>) = (m', c)" by force
  have "can_be_woken (a\<lparr>work_id := IncrementWorkId (work_id a)\<rparr>)" using assms(2) by (simp add: can_be_woken_iff)
  then have "can_be_woken c" using asks_can_be_woken [OF idles [OF c]] by blast
  moreover have "can_be_woken (pump_ScheduleWork c)" by (simp add: can_be_woken_iff pump_ScheduleWork_def Let_def)
  ultimately show ?thesis using assms(1) quit_can_be_woken
    by (auto simp: DoIdleWork_def c split: if_splits option.splits)
qed

end

section \<open>Guarding the wait changes nothing\<close>

text \<open>The same surroundings, in which a thread that no request could wake never returns from its wait.\<close>

definition guard_Wait :: "('s, 't) surroundings \<Rightarrow> ('s, 't) surroundings" where
  "guard_Wait env = env\<lparr>event_Wait := \<lambda>d tc. if can_be_woken tc then event_Wait env d tc else None\<rparr>"

lemma guard_Wait_reads [simp]:
  "RunTask (guard_Wait env) = RunTask env" "meanwhile (guard_Wait env) = meanwhile env"
  "event_Wait (guard_Wait env) d a = (if can_be_woken a then event_Wait env d a else None)"
  by (simp_all add: guard_Wait_def)

lemma do_batch_guard [simp]: "do_batch src (guard_Wait env) fuel i a = do_batch src env fuel i a"
proof (induction fuel arbitrary: i a)
  case (Suc fuel)
  then show ?case
    by (subst (1 2) do_batch.simps) (simp add: Let_def cong: if_cong option.case_cong)
qed (subst (1 2) do_batch.simps, simp)

lemma DoSomeWork_guard [simp]: "DoSomeWork src (guard_Wait env) fuel a = DoSomeWork src env fuel a"
  unfolding DoSomeWork_def DoWorkImpl_def do_batch_guard guard_Wait_reads ..

context polite_source
begin

theorem pump_loop_guarded:
  assumes runs: "\<And>t a b. in_use a \<Longrightarrow> RunTask env t a = Some b \<Longrightarrow> in_use b"
    and others: "\<And>a. asks a (meanwhile env a)"
  shows "pump_loop src (guard_Wait env) fuel a = pump_loop src env fuel a"
proof (induction fuel arbitrary: a)
  case (Suc fuel)
  have "can_be_woken c" if "DoSomeWork src env fuel a = Some (info, b)" "\<not> is_immediate info" "DoIdleWork src b = Some (m, c)" for info b m c
    using DoSomeWork_idle [OF that(1,2) runs others] DoIdleWork_wakes [OF that(3)] by (simp add: can_be_woken_iff)
  then show ?case by (simp add: Suc.IH cong: option.case_cong if_cong split: option.split)
qed simp

section \<open>A batch ends\<close>

theorem do_batch_bounded:
  assumes size: "\<And>t a b. RunTask env t a = Some b \<Longrightarrow> work_batch_size b = work_batch_size a"
    and "work_batch_size a - i \<le> int fuel"
  shows "case do_batch src env fuel i a of
      None \<Rightarrow> \<exists>c. work_batch_size c = work_batch_size a \<and> (TakeTask src c = None \<or> (\<exists>t. RunTask env t c = None))
    | Some (ts, b) \<Rightarrow> int (length ts) \<le> max 0 (work_batch_size a - i) \<and>
        (quit_pending b \<or> int (length ts) = max 0 (work_batch_size a - i) \<or> (\<exists>c. TakeTask src c = Some (None, b)))"
  using assms(2)
proof (induction fuel arbitrary: i a)
  case 0
  then show ?case by simp
next
  case (Suc fuel)
  show ?case
  proof (cases "i < work_batch_size a")
    case False
    then show ?thesis by simp
  next
    case i: True
    note step = do_batch_Suc [OF i, of src env fuel]
    consider "TakeTask src a = None" | a' where "TakeTask src a = Some (None, a')"
      | t a' where "TakeTask src a = Some (Some t, a')" by (metis option.exhaust surj_pair)
    then show ?thesis
    proof cases
      case 1
      then show ?thesis by (auto simp: step)
    next
      case 2
      then show ?thesis using i by (auto simp: step)
    next
      case (3 t a')
      have a': "work_batch_size (starting a') = work_batch_size a"
        using asks_same_loop [OF takes [OF 3]] by (simp add: same_loop_def starting_def)
      show ?thesis
      proof (cases "RunTask env t (starting a')")
        case None
        then show ?thesis using 3 a' by (auto simp: step)
      next
        case (Some c)
        define d where "d = src_DidRunTask src (c\<lparr>task_execution_allowed := True\<rparr>)"
        have d: "work_batch_size d = work_batch_size a"
          using asks_same_loop [OF did_run [of "c\<lparr>task_execution_allowed := True\<rparr>"]] size [OF Some] a' by (simp add: same_loop_def d_def)
        have e: "do_batch src env (Suc fuel) i a = (if quit_pending d then Some ([t], d)
            else case do_batch src env fuel (i + 1) d of None \<Rightarrow> None | Some (ts, d) \<Rightarrow> Some (t # ts, d))"
          using 3 Some by (simp add: step d_def Let_def)
        have m: "max 0 (work_batch_size a - i) = 1 + max 0 (work_batch_size a - (i + 1))" using i by simp
        show ?thesis using Suc.IH [of d "i + 1"] Suc.prems d i unfolding e m by (auto split: option.splits)
      qed
    qed
  qed
qed

section \<open>A run leaves the controller as it found it\<close>

lemma DoWorkImpl_keeps:
  assumes "DoWorkImpl src env fuel a = Some (d, r, now, b)"
    and runs: "\<And>t a b. RunTask env t a = Some b \<Longrightarrow> same_stack a b"
  shows "same_stack a b \<and> task_execution_allowed b = task_execution_allowed a"
proof (cases "task_execution_allowed a")
  case True
  then obtain ts c where c: "do_batch src env fuel 0 a = Some (ts, c)"
    using assms(1) by (auto simp: DoWorkImpl_def split: option.splits)
  have k: "same_stack a c \<and> task_execution_allowed c"
    using c conjI [OF same_stack_refl True]
  proof (rule do_batch_keeps)
    show "same_stack a y \<and> task_execution_allowed y"
      if "asks x y" "same_stack a x \<and> task_execution_allowed x" for x y
      using asks_same_loop [OF that(1)] that(2) by (simp add: same_loop_def same_stack_def)
    show "same_stack a (y\<lparr>task_execution_allowed := True\<rparr>) \<and> task_execution_allowed (y\<lparr>task_execution_allowed := True\<rparr>)"
      if "same_stack a x \<and> task_execution_allowed x" "RunTask env t (starting x) = Some y" for t x y
      using runs [OF that(2)] that(1) by (simp add: starting_def same_stack_def)
  qed
  obtain d' c' where d: "src_DelayTillNextTask src (NowTicks src c) (c\<lparr>deduplicator := WillCheckForMoreWork (deduplicator c)\<rparr>) = (d', c')" by force
  have "same_stack c c' \<and> task_execution_allowed c' = task_execution_allowed c"
    using asks_same_loop [OF delays [OF d]] by (simp add: same_loop_def same_stack_def)
  then show ?thesis using assms(1) True k by (auto simp: DoWorkImpl_def c Let_def d same_stack_def split: if_splits)
next
  case False
  then show ?thesis using assms(1) by (simp add: DoWorkImpl_def Let_def same_stack_def)
qed

lemma DoSomeWork_keeps:
  assumes "DoSomeWork src env fuel a = Some (info, b)"
    and runs: "\<And>t a b. RunTask env t a = Some b \<Longrightarrow> same_stack a b"
    and others: "\<And>a. asks a (meanwhile env a)"
  shows "same_stack a b \<and> task_execution_allowed b = task_execution_allowed a"
proof -
  let ?a = "a\<lparr>deduplicator := OnWorkStarted (deduplicator a)\<rparr>"
  obtain d r now c where w: "DoWorkImpl src env fuel ?a = Some (d, r, now, c)"
    using DoSomeWork_worked [OF assms(1)] .
  obtain r' d' where c: "DidCheckForMoreWork (if d = 0 then kIsImmediate else kIsDelayed) (deduplicator (meanwhile env c)) = (r', d')"
    by force
  have "same_stack a c \<and> task_execution_allowed c = task_execution_allowed a"
    using DoWorkImpl_keeps [OF w runs] by (simp add: same_stack_def)
  moreover have "same_stack c (meanwhile env c) \<and> task_execution_allowed (meanwhile env c) = task_execution_allowed c"
    using asks_same_loop [OF others, of c] by (simp add: same_loop_def same_stack_def)
  ultimately show ?thesis using assms(1) [unfolded DoSomeWork_def w option.case prod.case Let_def c] by (auto simp: same_stack_def split: if_splits)
qed

lemma DoIdleWork_keeps:
  assumes "DoIdleWork src a = Some (m, b)"
  shows "same_stack a b \<and> task_execution_allowed b = task_execution_allowed a"
proof -
  obtain m' c where c: "src_OnSystemIdle src (a\<lparr>work_id := IncrementWorkId (work_id a)\<rparr>) = (m', c)" by force
  have "same_stack a c \<and> task_execution_allowed c = task_execution_allowed a"
    using asks_same_loop [OF idles [OF c]] by (simp add: same_loop_def same_stack_def)
  then show ?thesis using assms
    by (auto simp: DoIdleWork_def c pump_ScheduleWork_def tc_Quit_def pump_Quit_def pump_call_def Let_def same_stack_def split: if_splits option.splits)
qed

lemma pump_loop_keeps:
  assumes "pump_loop src env fuel a = Some b"
    and runs: "\<And>t a b. RunTask env t a = Some b \<Longrightarrow> same_stack a b"
    and others: "\<And>a. asks a (meanwhile env a)"
    and waits: "\<And>d a b. event_Wait env d a = Some b \<Longrightarrow> same_loop a b"
  shows "same_stack a b \<and> task_execution_allowed b = task_execution_allowed a"
  using assms(1)
proof (induction fuel arbitrary: a)
  case (Suc fuel)
  obtain info c where c: "DoSomeWork src env fuel a = Some (info, c)" using Suc.prems by (auto split: option.splits)
  note k = DoSomeWork_keeps [OF c runs others]
  show ?case
  proof (cases "keep_running (pump c) \<and> \<not> is_immediate info")
    case False
    then show ?thesis using Suc c k by (auto simp: same_stack_def split: if_splits)
  next
    case True
    obtain m d where d: "DoIdleWork src c = Some (m, d)" using Suc.prems c True by (auto split: option.splits)
    note l = DoIdleWork_keeps [OF d]
    show ?thesis
    proof (cases "keep_running (pump d) \<and> \<not> m")
      case False
      then show ?thesis using Suc c d True k l by (auto simp: same_stack_def split: if_splits)
    next
      case m: True
      obtain e where e: "event_Wait env (if next_delayed_run_time info = int64_max then None else Some (remaining_delay info)) d = Some e"
        "pump_loop src env fuel (e\<lparr>pump := (pump e)\<lparr>event_signaled := False\<rparr>\<rparr>) = Some b"
        using Suc.prems c d True m by (auto split: option.splits)
      show ?thesis using Suc.IH [OF e(2)] waits [OF e(1)] k l by (simp add: same_loop_def same_stack_def)
    qed
  qed
qed simp

theorem tc_Run_balanced:
  assumes r: "tc_Run src env fuel app timeout a = Some b"
    and runs: "\<And>t a b. RunTask env t a = Some b \<Longrightarrow> same_stack a b"
    and others: "\<And>a. asks a (meanwhile env a)"
    and waits: "\<And>d a b. event_Wait env d a = Some b \<Longrightarrow> same_loop a b"
  shows "same_stack a b" "task_execution_allowed b = task_execution_allowed a"
    "quit_runloop_after b = quit_runloop_after a" "keep_running (pump b) = keep_running (pump a)" "\<not> quit_pending b"
proof -
  have p: "same_stack x y \<and> task_execution_allowed y = task_execution_allowed x \<and>
      keep_running (pump y) = keep_running (pump x)"
    if p: "pump_Run src env fuel x = Some y" for x y
  proof -
    obtain z where z: "pump_loop src env fuel (x\<lparr>pump := (pump x)\<lparr>keep_running := True\<rparr>\<rparr>) = Some z"
      "y = z\<lparr>pump := (pump z)\<lparr>keep_running := keep_running (pump x)\<rparr>\<rparr>"
      using p by (auto simp: pump_Run_def split: option.splits)
    show ?thesis using pump_loop_keeps [OF z(1) runs others waits] z(2) by (simp add: same_stack_def)
  qed
  show "same_stack a b" "task_execution_allowed b = task_execution_allowed a"
    "quit_runloop_after b = quit_runloop_after a" "keep_running (pump b) = keep_running (pump a)" "\<not> quit_pending b"
    using r by (auto simp: tc_Run_def Let_def same_stack_def split: if_splits option.splits dest!: p)
qed

end

end
