(* ===== verification/Run_Loop.thy ===== *)
theory Run_Loop
  imports Thread_Loop
begin

text \<open>
  The model of \<open>run_loop.cc\<close> on top of the thread controller, which is its \<open>RunLoop::Delegate\<close>: loops
  are started and left like a stack, only the innermost loop reacts to a request to quit, and the
  request to an outer loop is executed when the loops inside it have returned. The time-out that tests
  can set (\<open>ScopedRunTimeoutForTest\<close>) is left out; the pointer to it is null otherwise.
\<close>

section \<open>Operations\<close>

text \<open>A closure that a loop hands out or posts to its own thread.\<close>

datatype loop_closure = CallQuit_of nat | CallQuitWhenIdle_of nat

definition upd_loop :: "nat \<Rightarrow> (run_loop \<Rightarrow> run_loop) \<Rightarrow> 's thread_controller \<Rightarrow> 's thread_controller" where
  "upd_loop l f tc = tc\<lparr>run_loops := (run_loops tc)(l := f (run_loops tc l))\<rparr>"

definition RunLoop_new :: "nat \<Rightarrow> bool \<Rightarrow> 's thread_controller \<Rightarrow> 's thread_controller" where
  "RunLoop_new l nestable_tasks_allowed tc =
     upd_loop l (\<lambda>_. \<lparr>rl_nestable_tasks_allowed = nestable_tasks_allowed, quit_called = False, rl_running = False,
       quit_when_idle_received = False, allow_quit_current_deprecated = True\<rparr>) tc"

definition BeforeRun :: "('s, 't) task_source \<Rightarrow> nat \<Rightarrow> 's thread_controller \<Rightarrow> bool \<times> 's thread_controller" where
  "BeforeRun src l tc =
     (if quit_called (run_loops tc l) then (False, tc)
      else let tc = tc\<lparr>active_run_loops := l # active_run_loops tc\<rparr>;
               is_nested = (1 < length (active_run_loops tc));
               tc = (if is_nested
                     then let tc = tc_OnBeginNestedRunLoop src tc
                          in if rl_nestable_tasks_allowed (run_loops tc l) then EnsureWorkScheduled tc else tc
                     else tc)
           in (True, upd_loop l (\<lambda>r. r\<lparr>rl_running := True\<rparr>) tc))"

definition AfterRun :: "('s, 't) task_source \<Rightarrow> nat \<Rightarrow> 's thread_controller \<Rightarrow> 's thread_controller option" where
  "AfterRun src l tc =
     (let tc = upd_loop l (\<lambda>r. r\<lparr>rl_running := False\<rparr>) tc;
          tc = tc\<lparr>active_run_loops := tl (active_run_loops tc)\<rparr>
      in case active_run_loops tc of [] \<Rightarrow> Some tc
         | previous_run_loop # _ \<Rightarrow>
             (case tc_OnExitNestedRunLoop src tc of None \<Rightarrow> None
              | Some tc \<Rightarrow> Some (if quit_called (run_loops tc previous_run_loop) then tc_Quit tc else tc)))"

definition RunWithTimeout :: "('s, 't) task_source \<Rightarrow> ('s, 't) surroundings \<Rightarrow> nat \<Rightarrow> int \<Rightarrow> nat \<Rightarrow>
    's thread_controller \<Rightarrow> 's thread_controller option" where
  "RunWithTimeout src env fuel timeout l tc =
     (let (started, tc) = BeforeRun src l tc
      in if \<not> started then Some tc
         else let application_tasks_allowed =
                    (length (active_run_loops tc) = 1 \<or> rl_nestable_tasks_allowed (run_loops tc l))
              in case tc_Run src env fuel application_tasks_allowed timeout tc of None \<Rightarrow> None
                | Some tc \<Rightarrow> AfterRun src l tc)"

definition RunLoop_Run :: "('s, 't) task_source \<Rightarrow> ('s, 't) surroundings \<Rightarrow> nat \<Rightarrow> nat \<Rightarrow>
    's thread_controller \<Rightarrow> 's thread_controller option" where
  "RunLoop_Run src env fuel l tc = RunWithTimeout src env fuel int64_max l tc"

definition RunUntilIdle :: "('s, 't) task_source \<Rightarrow> ('s, 't) surroundings \<Rightarrow> nat \<Rightarrow> nat \<Rightarrow>
    's thread_controller \<Rightarrow> 's thread_controller option" where
  "RunUntilIdle src env fuel l tc =
     RunLoop_Run src env fuel l (upd_loop l (\<lambda>r. r\<lparr>quit_when_idle_received := True\<rparr>) tc)"

text \<open>\<open>post\<close> posts a closure to the thread of the loop; \<open>here\<close> says that the caller is on that thread.\<close>

definition RunLoop_Quit :: "(loop_closure \<Rightarrow> 's thread_controller \<Rightarrow> 's thread_controller) \<Rightarrow> bool \<Rightarrow> nat \<Rightarrow>
    's thread_controller \<Rightarrow> 's thread_controller" where
  "RunLoop_Quit post here l tc =
     (if \<not> here then post (CallQuit_of l) tc
      else let tc = upd_loop l (\<lambda>r. r\<lparr>quit_called := True\<rparr>) tc
           in if rl_running (run_loops tc l) \<and> active_run_loops tc \<noteq> [] \<and> hd (active_run_loops tc) = l
              then tc_Quit tc else tc)"

definition RunLoop_QuitWhenIdle :: "(loop_closure \<Rightarrow> 's thread_controller \<Rightarrow> 's thread_controller) \<Rightarrow> bool \<Rightarrow> nat \<Rightarrow>
    's thread_controller \<Rightarrow> 's thread_controller" where
  "RunLoop_QuitWhenIdle post here l tc =
     (if \<not> here then post (CallQuitWhenIdle_of l) tc
      else upd_loop l (\<lambda>r. r\<lparr>quit_when_idle_received := True\<rparr>) tc)"

definition ProxyToTaskRunner :: "(loop_closure \<Rightarrow> 's thread_controller \<Rightarrow> 's thread_controller) \<Rightarrow> bool \<Rightarrow> loop_closure \<Rightarrow>
    's thread_controller \<Rightarrow> 's thread_controller" where
  "ProxyToTaskRunner post here closure tc =
     (if here
      then case closure of CallQuit_of l \<Rightarrow> RunLoop_Quit post here l tc
           | CallQuitWhenIdle_of l \<Rightarrow> RunLoop_QuitWhenIdle post here l tc
      else post closure tc)"

definition QuitClosure :: "nat \<Rightarrow> 's thread_controller \<Rightarrow> loop_closure \<times> 's thread_controller" where
  "QuitClosure l tc = (CallQuit_of l, upd_loop l (\<lambda>r. r\<lparr>allow_quit_current_deprecated := False\<rparr>) tc)"

definition QuitWhenIdleClosure :: "nat \<Rightarrow> 's thread_controller \<Rightarrow> loop_closure \<times> 's thread_controller" where
  "QuitWhenIdleClosure l tc = (CallQuitWhenIdle_of l, upd_loop l (\<lambda>r. r\<lparr>allow_quit_current_deprecated := False\<rparr>) tc)"

definition IsRunningOnCurrentThread :: "'s thread_controller \<Rightarrow> bool" where
  "IsRunningOnCurrentThread tc = (active_run_loops tc \<noteq> [])"

definition IsNestedOnCurrentThread :: "'s thread_controller \<Rightarrow> bool" where
  "IsNestedOnCurrentThread tc = (1 < length (active_run_loops tc))"

text \<open>Without an active loop these two read the top of an empty stack: \<^term>\<open>None\<close>.\<close>

definition QuitCurrentDeprecated :: "(loop_closure \<Rightarrow> 's thread_controller \<Rightarrow> 's thread_controller) \<Rightarrow>
    's thread_controller \<Rightarrow> 's thread_controller option" where
  "QuitCurrentDeprecated post tc =
     (case active_run_loops tc of [] \<Rightarrow> None | l # _ \<Rightarrow> Some (RunLoop_Quit post True l tc))"

definition QuitCurrentWhenIdleDeprecated :: "(loop_closure \<Rightarrow> 's thread_controller \<Rightarrow> 's thread_controller) \<Rightarrow>
    's thread_controller \<Rightarrow> 's thread_controller option" where
  "QuitCurrentWhenIdleDeprecated post tc =
     (case active_run_loops tc of [] \<Rightarrow> None | l # _ \<Rightarrow> Some (RunLoop_QuitWhenIdle post True l tc))"

section \<open>A nested run\<close>

lemma upd_loop_reads [simp]:
  "active_run_loops (upd_loop l f tc) = active_run_loops tc" "runloop_count (upd_loop l f tc) = runloop_count tc"
  "task_execution_allowed (upd_loop l f tc) = task_execution_allowed tc" "quit_runloop_after (upd_loop l f tc) = quit_runloop_after tc"
  "pump (upd_loop l f tc) = pump tc" "quit_pending (upd_loop l f tc) = quit_pending tc"
  "run_loops (upd_loop l f tc) = (run_loops tc)(l := f (run_loops tc l))"
  by (simp_all add: upd_loop_def)

lemma asks_EnsureWorkScheduled [simp]: "asks a (EnsureWorkScheduled a)"
  using asks_ScheduleWork [of a] by (simp add: EnsureWorkScheduled_def tc_ScheduleWork_def)

lemma tc_Quit_reads [simp]:
  "active_run_loops (tc_Quit tc) = active_run_loops tc" "runloop_count (tc_Quit tc) = runloop_count tc"
  "task_execution_allowed (tc_Quit tc) = task_execution_allowed tc" "quit_runloop_after (tc_Quit tc) = quit_runloop_after tc"
  "run_loops (tc_Quit tc) = run_loops tc" "quit_pending (tc_Quit tc)" "\<not> keep_running (pump (tc_Quit tc))"
  by (simp_all add: tc_Quit_def pump_Quit_def pump_call_def Let_def)

context polite_source
begin

lemma observers_ask: "asks a (tc_OnBeginNestedRunLoop src a)" "tc_OnExitNestedRunLoop src a = Some b \<Longrightarrow> asks a b"
  using begins exits by (auto simp: tc_OnBeginNestedRunLoop_def tc_OnExitNestedRunLoop_def split: if_splits)

lemma BeforeRun_nested:
  assumes "active_run_loops a = k # ls" "\<not> quit_called (run_loops a l)"
  obtains b where "BeforeRun src l a = (True, upd_loop l (\<lambda>r. r\<lparr>rl_running := True\<rparr>) b)" "same_loop (a\<lparr>active_run_loops := l # k # ls\<rparr>) b"
proof -
  let ?a = "a\<lparr>active_run_loops := l # k # ls\<rparr>"
  let ?b = "tc_OnBeginNestedRunLoop src ?a"
  let ?c = "if rl_nestable_tasks_allowed (run_loops ?b l) then EnsureWorkScheduled ?b else ?b"
  have "asks ?a ?b" by (rule observers_ask)
  then have "asks ?a ?c" by (auto intro: asks_trans [OF _ asks_EnsureWorkScheduled])
  then show thesis using that [of ?c] assms by (simp add: BeforeRun_def Let_def asks_same_loop)
qed

theorem nested_run:
  assumes r: "RunWithTimeout src env fuel timeout l a = Some b"
    and stack: "active_run_loops a = k # ls" "\<not> quit_called (run_loops a l)" "k \<noteq> l"
    and runs: "\<And>t a b. RunTask env t a = Some b \<Longrightarrow> same_stack a b"
    and others: "\<And>a. asks a (meanwhile env a)"
    and waits: "\<And>d a b. event_Wait env d a = Some b \<Longrightarrow> same_loop a b"
  shows "same_stack a b" "task_execution_allowed b = task_execution_allowed a" "quit_runloop_after b = quit_runloop_after a"
    "\<not> rl_running (run_loops b l)" "quit_pending b \<longleftrightarrow> quit_called (run_loops b k)"
    "keep_running (pump b) \<longleftrightarrow> keep_running (pump a) \<and> \<not> quit_called (run_loops b k)"
proof -
  obtain c where c: "BeforeRun src l a = (True, upd_loop l (\<lambda>r. r\<lparr>rl_running := True\<rparr>) c)" "same_loop (a\<lparr>active_run_loops := l # k # ls\<rparr>) c"
    using BeforeRun_nested [OF stack(1,2)] .
  let ?c = "upd_loop l (\<lambda>r. r\<lparr>rl_running := True\<rparr>) c"
  obtain d where d: "tc_Run src env fuel (rl_nestable_tasks_allowed (run_loops ?c l)) timeout ?c = Some d" "AfterRun src l d = Some b"
    using r c by (auto simp: RunWithTimeout_def same_loop_def split: option.splits)
  note B = tc_Run_balanced [OF d(1) runs others waits]
  let ?d = "(upd_loop l (\<lambda>r. r\<lparr>rl_running := False\<rparr>) d)\<lparr>active_run_loops := k # ls\<rparr>"
  have "active_run_loops d = l # k # ls" using B(1) c(2) by (simp add: same_stack_def same_loop_def)
  then obtain e where ex: "tc_OnExitNestedRunLoop src ?d = Some e" and b: "b = (if quit_called (run_loops e k) then tc_Quit e else e)"
    using d(2) by (auto simp: AfterRun_def Let_def split: option.splits)
  have e: "same_loop ?d e" by (rule asks_same_loop [OF observers_ask(2) [OF ex]])
  show "same_stack a b" "task_execution_allowed b = task_execution_allowed a" "quit_runloop_after b = quit_runloop_after a"
    "\<not> rl_running (run_loops b l)" "quit_pending b \<longleftrightarrow> quit_called (run_loops b k)"
    "keep_running (pump b) \<longleftrightarrow> keep_running (pump a) \<and> \<not> quit_called (run_loops b k)"
    using B c(2) e stack(1) by (auto simp: b same_stack_def same_loop_def)
qed

end

end
