(* ===== verification/Task_Queue_Selector.thy ===== *)
theory Task_Queue_Selector
  imports Work_Queue_Sets
begin

text \<open>
  The model of \<open>task_queue_selector.h\<close> and \<open>.cc\<close>: which work queue is serviced next. The sets of
  work queues are used through the facts of \<open>Work_Queue_Sets\<close>; the priorities with work are the list
  of the small priority queue.
\<close>

section \<open>Registering queues\<close>

definition GetQueuePriority :: "nat \<Rightarrow> sched \<Rightarrow> nat" where
  "GetQueuePriority q s = work_queue_set_index (wq s (q, kImmediate))"

definition AddQueueImpl :: "nat \<Rightarrow> nat \<Rightarrow> sched \<Rightarrow> sched" where
  "AddQueueImpl q priority s =
     wqs_AddQueue kImmediate (q, kImmediate) priority (wqs_AddQueue kDelayed (q, kDelayed) priority s)"

definition sel_ChangeSetIndex :: "nat \<Rightarrow> nat \<Rightarrow> sched \<Rightarrow> sched" where
  "sel_ChangeSetIndex q priority s =
     wqs_ChangeSetIndex kImmediate (q, kImmediate) priority
       (wqs_ChangeSetIndex kDelayed (q, kDelayed) priority s)"

definition RemoveQueueImpl :: "nat \<Rightarrow> sched \<Rightarrow> sched" where
  "RemoveQueueImpl q s =
     wqs_RemoveQueue kImmediate (q, kImmediate) (wqs_RemoveQueue kDelayed (q, kDelayed) s)"

definition sel_AddQueue :: "nat \<Rightarrow> sched \<Rightarrow> sched" where
  "sel_AddQueue q s = AddQueueImpl q kNormalPriority s"

definition sel_RemoveQueue :: "nat \<Rightarrow> sched \<Rightarrow> sched" where
  "sel_RemoveQueue q s = (if is_enabled (tq s q) then RemoveQueueImpl q s else s)"

text \<open>\<open>EnableQueue\<close> calls its observer, the sequence manager, which is the argument here.\<close>

definition sel_EnableQueue :: "(nat \<Rightarrow> sched \<Rightarrow> sched) \<Rightarrow> nat \<Rightarrow> sched \<Rightarrow> sched" where
  "sel_EnableQueue on_task_queue_enabled q s =
     on_task_queue_enabled q (AddQueueImpl q (GetQueuePriority q s) s)"

definition sel_DisableQueue :: "nat \<Rightarrow> sched \<Rightarrow> sched" where
  "sel_DisableQueue q s = RemoveQueueImpl q s"

definition sel_SetQueuePriority :: "nat \<Rightarrow> nat \<Rightarrow> sched \<Rightarrow> sched" where
  "sel_SetQueuePriority q priority s =
     (if is_enabled (tq s q) then sel_ChangeSetIndex q priority s
      else AssignSetIndex (q, kImmediate) priority (AssignSetIndex (q, kDelayed) priority s))"

definition NextPriority :: "nat \<Rightarrow> nat" where
  "NextPriority priority = priority + 1"

section \<open>Selection\<close>

definition ChooseImmediateOrDelayedTaskWithPriority :: "nat \<Rightarrow> sched \<Rightarrow> wq_id option \<times> bool" where
  "ChooseImmediateOrDelayedTaskWithPriority priority s =
     (case GetOldestQueueAndEnqueueOrderInSet kImmediate priority s of
        Some (immediate_queue, immediate_enqueue_order) \<Rightarrow>
          (case GetOldestQueueAndEnqueueOrderInSet kDelayed priority s of
             None \<Rightarrow> (Some immediate_queue, False)
           | Some (delayed_queue, delayed_enqueue_order) \<Rightarrow>
               if immediate_enqueue_order < delayed_enqueue_order
               then (Some immediate_queue, False) else (Some delayed_queue, True))
      | None \<Rightarrow> (GetOldestQueueInSet kDelayed priority s, False))"

definition ChooseWithPriority :: "nat \<Rightarrow> sched \<Rightarrow> wq_id option \<times> bool" where
  "ChooseWithPriority priority s =
     (if kMaxDelayedStarvationTasks \<le> immediate_starvation_count s
      then (case GetOldestQueueInSet kImmediate priority s of
              Some q \<Rightarrow> (Some q, False)
            | None \<Rightarrow> (GetOldestQueueInSet kDelayed priority s, False))
      else ChooseImmediateOrDelayedTaskWithPriority priority s)"

definition SelectWorkQueueToService :: "sched \<Rightarrow> wq_id option \<times> sched" where
  "SelectWorkQueueToService s =
     (if spq_empty (active_priorities s) then (None, s)
      else let priority = min_id (active_priorities s);
               s = (if priority \<noteq> kControlPriority
                    then s\<lparr>selection_count := selection_count s + 1\<rparr> else s);
               (q, chose_delayed_over_immediate) = ChooseWithPriority priority s;
               s = (if IsInQueue priority (active_priorities s)
                    then s\<lparr>active_priorities :=
                            ChangeMinKey (GetSortKeyForPriority priority s) (active_priorities s)\<rparr>
                    else s)
           in (q, s\<lparr>immediate_starvation_count :=
                     (if chose_delayed_over_immediate then immediate_starvation_count s + 1 else 0)\<rparr>))"

definition AllEnabledWorkQueuesAreEmpty :: "sched \<Rightarrow> bool" where
  "AllEnabledWorkQueuesAreEmpty s = spq_empty (active_priorities s)"

definition HasTasksWithPriority :: "nat \<Rightarrow> sched \<Rightarrow> bool" where
  "HasTasksWithPriority priority s =
     (\<not> IsSetEmpty kDelayed priority s \<or> \<not> IsSetEmpty kImmediate priority s)"

section \<open>Registration keeps the sets in step\<close>

lemma wqs_AddQueue_other:
  "x \<noteq> q \<Longrightarrow> wq (wqs_AddQueue w q p s) x = wq s x"
  "task_queues (wqs_AddQueue w q p s) = task_queues s"
  unfolding wqs_AddQueue_def Let_def
  using sets_frame_reads(1,4) [OF notify_frame(1)]
  by (auto simp: AssignSetIndex_def AssignToWorkQueueSets_def split: option.splits)

lemma wqs_RemoveQueue_other:
  "x \<noteq> q \<Longrightarrow> wq (wqs_RemoveQueue w q s) x = wq s x"
  "task_queues (wqs_RemoveQueue w q s) = task_queues s"
  unfolding wqs_RemoveQueue_def Let_def
  using sets_frame_reads(1,4) [OF notify_frame(2)] by (auto simp: AssignToWorkQueueSets_def)

lemma wqs_ChangeSetIndex_other:
  assumes "x \<noteq> q"
  shows "wq (wqs_ChangeSetIndex w q p s) x = wq s x"
proof (cases "GetFrontTaskEnqueueOrder (wq s q)")
  case None
  then show ?thesis using assms by (simp add: wqs_ChangeSetIndex_def AssignSetIndex_def)
next
  case (Some k)
  have "work_queues (wqs_ChangeSetIndex w q p s) = work_queues (AssignSetIndex q p s)"
    using Some unfolding wqs_ChangeSetIndex_def Let_def
    by (simp add: sets_frame_reads(1) [OF observer_frame(1)] sets_frame_reads(1) [OF observer_frame(2)]
        sets_frame_reads(1) [OF on_heap_frame])
  then show ?thesis using assms by (simp add: AssignSetIndex_def)
qed

lemma AddQueueImpl_sync:
  assumes "in_sync s" "\<And>t. work_queue_sets (wq s (q, t)) = None" "p < kQueuePriorityCount"
  shows "in_sync (AddQueueImpl q p s)"
  unfolding AddQueueImpl_def
  using wqs_AddQueue_sync [of "wqs_AddQueue kDelayed (q, kDelayed) p s" "(q, kImmediate)" p]
    wqs_AddQueue_sync [of s "(q, kDelayed)" p] assms
  by (simp add: wqs_AddQueue_other)

lemma RemoveQueueImpl_sync:
  assumes "in_sync s" "\<And>t. work_queue_sets (wq s (q, t)) = Some t"
  shows "in_sync (RemoveQueueImpl q s)"
  unfolding RemoveQueueImpl_def
  using wqs_RemoveQueue_sync [of "wqs_RemoveQueue kDelayed (q, kDelayed) s" "(q, kImmediate)"]
    wqs_RemoveQueue_sync [of s "(q, kDelayed)"] assms
  by (simp add: wqs_RemoveQueue_other)

lemma sel_ChangeSetIndex_sync:
  assumes "in_sync s" "\<And>t. work_queue_sets (wq s (q, t)) = Some t" "p < kQueuePriorityCount"
    "\<And>t. work_queue_set_index (wq s (q, t)) \<noteq> p"
  shows "in_sync (sel_ChangeSetIndex q p s)"
  unfolding sel_ChangeSetIndex_def
  using wqs_ChangeSetIndex_sync [of "wqs_ChangeSetIndex kDelayed (q, kDelayed) p s" "(q, kImmediate)" p]
    wqs_ChangeSetIndex_sync [of s "(q, kDelayed)" p] assms
  by (simp add: wqs_ChangeSetIndex_other)

lemma sel_SetQueuePriority_sync:
  assumes s: "in_sync s" and p: "p < kQueuePriorityCount" and ne: "\<And>t. work_queue_set_index (wq s (q, t)) \<noteq> p"
    and r: "\<And>t. work_queue_sets (wq s (q, t)) = (if is_enabled (tq s q) then Some t else None)"
  shows "in_sync (sel_SetQueuePriority q p s)"
proof (cases "is_enabled (tq s q)")
  case True
  then show ?thesis
    using sel_ChangeSetIndex_sync [OF s _ p ne] r by (simp add: sel_SetQueuePriority_def)
next
  case False
  have idle: "in_sync (AssignSetIndex x p u)" if "in_sync u" "work_queue_sets (wq u x) = None" for x u
  proof (rule in_sync_same)
    show "in_sync_but x (expected u x) (AssignSetIndex x p u)"
      unfolding AssignSetIndex_def by (rule in_sync_upd [OF that(1)])
    show "expected (AssignSetIndex x p u) x = expected u x"
      using that(2) by (simp add: AssignSetIndex_def expected_def)
  qed
  have "work_queue_sets (wq (AssignSetIndex (q, kDelayed) p s) (q, kImmediate)) = None"
    using r False by (simp add: AssignSetIndex_def)
  then show ?thesis using idle s r False by (simp add: sel_SetQueuePriority_def)
qed

section \<open>Selection finds the oldest task of the first priority\<close>

lemma counts_rep_active:
  assumes "in_sync s"
  shows "spq_inv (active_priorities s)" "0 \<le> selection_count s"
    "\<And>e. e \<in> set (spq_list (active_priorities s)) \<Longrightarrow> key_ok (selection_count s) e"
    "snd ` set (spq_list (active_priorities s))
      = {p. p < kQueuePriorityCount \<and> (\<exists>q k. expected s q = Some (p, k))}"
proof -
  have c: "counts_rep (\<lambda>w p. reported (expected s) w p \<noteq> {}) s"
    using assms by (simp add: in_sync_def sets_rep_def)
  have "(\<exists>w. reported (expected s) w p \<noteq> {}) \<longleftrightarrow> (\<exists>q k. expected s q = Some (p, k))" for p
    by (auto simp: reported_def)
  then show "snd ` set (spq_list (active_priorities s))
      = {p. p < kQueuePriorityCount \<and> (\<exists>q k. expected s q = Some (p, k))}"
    using c by (simp add: counts_rep_def)
  show "spq_inv (active_priorities s)" "0 \<le> selection_count s"
    "\<And>e. e \<in> set (spq_list (active_priorities s)) \<Longrightarrow> key_ok (selection_count s) e"
    using c by (auto simp: counts_rep_def)
qed

lemma no_active_iff:
  assumes "in_sync s"
  shows "AllEnabledWorkQueuesAreEmpty s \<longleftrightarrow> (\<forall>q. expected s q = None)"
proof -
  have "p < kQueuePriorityCount" if "expected s q = Some (p, k)" for q p k
    using sets_rep_index [OF assms [unfolded in_sync_def] that] .
  then have "{p. p < kQueuePriorityCount \<and> (\<exists>q k. expected s q = Some (p, k))} = {} \<longleftrightarrow>
      (\<forall>q p k. expected s q \<noteq> Some (p, k))" by blast
  moreover have "spq_list (active_priorities s) = [] \<longleftrightarrow> snd ` set (spq_list (active_priorities s)) = {}"
    by simp
  ultimately have "AllEnabledWorkQueuesAreEmpty s \<longleftrightarrow> (\<forall>q p k. expected s q \<noteq> Some (p, k))"
    unfolding AllEnabledWorkQueuesAreEmpty_def spq_empty_iff counts_rep_active(4) [OF assms] by simp
  moreover have "expected s q = None \<longleftrightarrow> (\<forall>p k. expected s q \<noteq> Some (p, k))" for q
    by (cases "expected s q") auto
  ultimately show ?thesis by simp
qed

text \<open>The choice within one priority: some queue of that priority, the oldest of its own kind, and the
  oldest of both kinds unless immediate tasks have been starved.\<close>

lemma ChooseWithPriority_spec:
  assumes s: "in_sync s" and p: "p < kQueuePriorityCount" and act: "\<exists>q k. expected s q = Some (p, k)"
  obtains q k b where "ChooseWithPriority p s = (Some q, b)" "expected s q = Some (p, k)"
    "\<And>q' k'. snd q' = snd q \<Longrightarrow> expected s q' = Some (p, k') \<Longrightarrow> k \<le> k'"
    "\<And>q' k'. immediate_starvation_count s < kMaxDelayedStarvationTasks \<Longrightarrow>
       expected s q' = Some (p, k') \<Longrightarrow> k \<le> k'"
    "b \<Longrightarrow> immediate_starvation_count s < kMaxDelayedStarvationTasks \<and> snd q = kDelayed"
    "kMaxDelayedStarvationTasks \<le> immediate_starvation_count s \<Longrightarrow> snd q = kDelayed \<Longrightarrow>
       \<nexists>q' k'. snd q' = kImmediate \<and> expected s q' = Some (p, k')"
proof -
  note old = GetOldestQueueInSet_spec [OF s p]
  let ?i = "GetOldestQueueAndEnqueueOrderInSet kImmediate p s"
  let ?d = "GetOldestQueueAndEnqueueOrderInSet kDelayed p s"
  have none: "GetOldestQueueAndEnqueueOrderInSet w p s = None \<Longrightarrow> snd q = w \<Longrightarrow> expected s q \<noteq> Some (p, k)"
    for w q k using old(1) [of w] old(3) [of w] by (cases q) auto
  have types: "snd q = kImmediate \<or> snd q = kDelayed" for q :: wq_id
    by (cases "snd q") auto
  show thesis
  proof (cases ?i)
    case None
    then have "?d \<noteq> None" using none act types by metis
    then obtain q k where d: "?d = Some (q, k)" by auto
    have "ChooseWithPriority p s = (Some q, False)"
      using None d old(3) by (simp add: ChooseWithPriority_def ChooseImmediateOrDelayedTaskWithPriority_def)
    then show thesis
      using that [of q False k] old(2) [OF d] none [OF None] types by metis
  next
    case (Some ik)
    obtain iq ik where i: "?i = Some (iq, ik)" using Some by (cases ik) auto
    note oi = old(2) [OF i]
    show thesis
    proof (cases "kMaxDelayedStarvationTasks \<le> immediate_starvation_count s")
      case True
      have "ChooseWithPriority p s = (Some iq, False)"
        using True i old(3) by (simp add: ChooseWithPriority_def)
      then show thesis using that [of iq False ik] oi True by auto
    next
      case starve: False
      show thesis
      proof (cases ?d)
        case None
        have "ChooseWithPriority p s = (Some iq, False)"
          using starve i None
          by (simp add: ChooseWithPriority_def ChooseImmediateOrDelayedTaskWithPriority_def)
        then show thesis using that [of iq False ik] oi starve none [OF None] types by metis
      next
        case (Some dk)
        obtain dq dk where d: "?d = Some (dq, dk)" using Some by (cases dk) auto
        note od = old(2) [OF d]
        have c: "ChooseWithPriority p s = (if ik < dk then (Some iq, False) else (Some dq, True))"
          using starve i d
          by (simp add: ChooseWithPriority_def ChooseImmediateOrDelayedTaskWithPriority_def)
        show thesis
        proof (cases "ik < dk")
          case True
          have "ik \<le> k'" if "expected s q' = Some (p, k')" for q' k'
            using types [of q'] oi od that True by fastforce
          then show thesis using that [of iq False ik] c oi starve True by simp
        next
          case False
          have "dk \<le> k'" if "expected s q' = Some (p, k')" for q' k'
            using types [of q'] oi od that False by fastforce
          then show thesis using that [of dq True dk] c od starve False by simp
        qed
      qed
    qed
  qed
qed

definition picked :: "sched \<Rightarrow> nat \<Rightarrow> sched" where
  "picked s n =
     (let p = min_id (active_priorities s);
          s = (if p \<noteq> kControlPriority then s\<lparr>selection_count := selection_count s + 1\<rparr> else s)
      in s\<lparr>active_priorities := ChangeMinKey (GetSortKeyForPriority p s) (active_priorities s),
           immediate_starvation_count := n\<rparr>)"

lemma min_id_active:
  assumes s: "in_sync s" and ne: "\<not> spq_empty (active_priorities s)"
  shows "min_id (active_priorities s) < kQueuePriorityCount"
    "\<exists>q k. expected s q = Some (min_id (active_priorities s), k)"
    "IsInQueue (min_id (active_priorities s)) (active_priorities s)"
proof -
  let ?L = "spq_list (active_priorities s)"
  have "?L \<noteq> []" using ne by (simp add: spq_empty_iff)
  then have m: "min_id (active_priorities s) \<in> snd ` set ?L" by (simp add: min_id_hd)
  then show "min_id (active_priorities s) < kQueuePriorityCount"
    "\<exists>q k. expected s q = Some (min_id (active_priorities s), k)"
    unfolding counts_rep_active(4) [OF s] by auto
  with m show "IsInQueue (min_id (active_priorities s)) (active_priorities s)"
    using IsInQueue_iff [OF counts_rep_active(1) [OF s]] by simp
qed

lemma ChooseWithPriority_cong:
  "work_queue_heaps t = work_queue_heaps s \<Longrightarrow> immediate_starvation_count t = immediate_starvation_count s \<Longrightarrow>
   ChooseWithPriority p t = ChooseWithPriority p s"
  unfolding ChooseWithPriority_def ChooseImmediateOrDelayedTaskWithPriority_def
    GetOldestQueueInSet_def GetOldestQueueAndEnqueueOrderInSet_def by (simp only:)

lemma min_id_in_queue:
  assumes "spq_inv q" "\<not> spq_empty q"
  shows "IsInQueue (min_id q) q" "min_id q < kQueuePriorityCount"
proof -
  have L: "spq_list q \<noteq> []" using assms by (simp add: spq_empty_iff)
  then have m: "min_id q \<in> snd ` set (spq_list q)" by (simp add: min_id_hd)
  then show lt: "min_id q < kQueuePriorityCount" using assms(1) by (auto simp: spq_inv_def index_ok_def)
  show "IsInQueue (min_id q) q" using IsInQueue_iff [OF assms(1) lt] m by simp
qed

lemma Select_unfold:
  assumes inv: "spq_inv (active_priorities s)" and ne: "\<not> spq_empty (active_priorities s)"
    and c: "ChooseWithPriority (min_id (active_priorities s)) s = (q, b)"
  shows "SelectWorkQueueToService s =
    (q, picked s (if b then immediate_starvation_count s + 1 else 0))"
proof -
  have "ChooseWithPriority (min_id (active_priorities s)) (s\<lparr>selection_count := n\<rparr>) = (q, b)" for n
    using c ChooseWithPriority_cong [of "s\<lparr>selection_count := n\<rparr>" s] by simp
  then show ?thesis
    unfolding SelectWorkQueueToService_def picked_def Let_def
    using c ne min_id_in_queue(1) [OF inv ne]
    by (cases "min_id (active_priorities s) = kControlPriority"; cases b) simp_all
qed

lemma key_ok_mono: "key_ok n e \<Longrightarrow> n \<le> m \<Longrightarrow> key_ok m e"
  by (auto simp: key_ok_def split: if_splits)

lemma set_ChangeMinKey:
  assumes "spq_inv q" "\<not> spq_empty q"
  shows "set (spq_list (ChangeMinKey k q)) = insert (k, min_id q) (set (tl (spq_list q)))"
  using ChangeMinKey_spec(2) [OF assms] by simp

lemma picked_sync:
  assumes s: "in_sync s" and ne: "\<not> spq_empty (active_priorities s)"
  shows "in_sync (picked s n)" "expected (picked s n) = expected s"
proof -
  let ?q = "active_priorities s" and ?p = "min_id (active_priorities s)"
  let ?sel = "if ?p \<noteq> kControlPriority then selection_count s + 1 else selection_count s"
  let ?s = "s\<lparr>selection_count := ?sel\<rparr>"
  let ?k = "GetSortKeyForPriority ?p ?s"
  have pk: "picked s n = ?s\<lparr>active_priorities := ChangeMinKey ?k ?q, immediate_starvation_count := n\<rparr>"
    by (simp add: picked_def Let_def)
  show e: "expected (picked s n) = expected s" unfolding pk by (simp add: expected_def fun_eq_iff)
  note act = counts_rep_active [OF s]
  have L: "spq_list ?q \<noteq> []" using ne by (simp add: spq_empty_iff)
  then have split: "set (spq_list ?q) = insert (hd (spq_list ?q)) (set (tl (spq_list ?q)))"
    by (cases "spq_list ?q") auto
  have hd: "snd (hd (spq_list ?q)) = ?p" using L by (simp add: min_id_hd)
  have set: "set (spq_list (ChangeMinKey ?k ?q)) = insert (?k, ?p) (set (tl (spq_list ?q)))"
    by (rule set_ChangeMinKey [OF act(1) ne])
  have ids: "snd ` set (spq_list (ChangeMinKey ?k ?q)) = snd ` set (spq_list ?q)"
    unfolding set split image_insert hd by simp
  have sel: "0 \<le> ?sel" "selection_count s \<le> ?sel" using act(2) by auto
  have "key_ok ?sel (?k, ?p)" using sort_key_ok [of ?s ?p] sel by simp
  then have keys: "\<forall>e \<in> set (spq_list (ChangeMinKey ?k ?q)). key_ok ?sel e"
    unfolding set using act(3) key_ok_mono [OF _ sel(2)] split by auto
  have "counts_rep (\<lambda>w p. reported (expected s) w p \<noteq> {}) s" "heaps_rep (expected s) s"
    using s by (auto simp: in_sync_def sets_rep_def)
  then have "counts_rep (\<lambda>w p. reported (expected s) w p \<noteq> {}) (picked s n)"
    "heaps_rep (expected s) (picked s n)"
    using ids keys sel ChangeMinKey_spec(1) [OF act(1) ne, of ?k]
    unfolding counts_rep_def heaps_rep_def pk by (simp_all del: if_split)
  then show "in_sync (picked s n)" unfolding in_sync_def sets_rep_def e by simp
qed

lemma Select_none:
  assumes "in_sync s"
  shows "fst (SelectWorkQueueToService s) = None \<longleftrightarrow> (\<forall>q. expected s q = None)"
proof (cases "spq_empty (active_priorities s)")
  case True
  then show ?thesis
    using no_active_iff [OF assms] by (simp add: SelectWorkQueueToService_def AllEnabledWorkQueuesAreEmpty_def)
next
  case False
  note m = min_id_active [OF assms False]
  obtain q b where "ChooseWithPriority (min_id (active_priorities s)) s = (Some q, b)"
    by (rule ChooseWithPriority_spec [OF assms m(1,2)])
  from Select_unfold [OF counts_rep_active(1) [OF assms] False this] show ?thesis using m(2) by auto
qed

lemma Select_sync:
  assumes "in_sync s"
  shows "in_sync (snd (SelectWorkQueueToService s))"
    "expected (snd (SelectWorkQueueToService s)) = expected s"
proof -
  have "in_sync (snd (SelectWorkQueueToService s)) \<and>
    expected (snd (SelectWorkQueueToService s)) = expected s"
  proof (cases "spq_empty (active_priorities s)")
    case True
    then show ?thesis using assms by (simp add: SelectWorkQueueToService_def)
  next
    case False
    obtain q b where "ChooseWithPriority (min_id (active_priorities s)) s = (q, b)" by force
    from Select_unfold [OF counts_rep_active(1) [OF assms] False this] show ?thesis using picked_sync [OF assms False] by simp
  qed
  then show "in_sync (snd (SelectWorkQueueToService s))"
    "expected (snd (SelectWorkQueueToService s)) = expected s" by blast+
qed

text \<open>Control work is always first, and best-effort work only when there is nothing else.\<close>

lemma min_id_least:
  assumes s: "in_sync s" and ne: "\<not> spq_empty (active_priorities s)"
    and e: "(k, p) \<in> set (spq_list (active_priorities s))"
  shows "\<exists>k0. (k0, min_id (active_priorities s)) \<in> set (spq_list (active_priorities s)) \<and> k0 \<le> k"
proof -
  let ?L = "spq_list (active_priorities s)"
  have L: "?L \<noteq> []" using ne by (simp add: spq_empty_iff)
  obtain x L' where xl: "?L = x # L'" using L by (cases ?L) auto
  have "sorted (map fst ?L)" using counts_rep_active(1) [OF s] by (simp add: spq_inv_def)
  then have "fst x \<le> k" using e unfolding xl by auto
  moreover have "x = (fst x, min_id (active_priorities s))" using min_id_hd [OF L] xl by simp
  ultimately show ?thesis unfolding xl by (metis list.set_intros(1))
qed

lemma tolerance_bounds:
  assumes "p < kQueuePriorityCount" "p \<noteq> kControlPriority" "p \<noteq> kBestEffortPriority"
  shows "0 \<le> per_priority_starvation_tolerance p" "per_priority_starvation_tolerance p \<le> 15"
proof -
  have "p = 1 \<or> p = 2 \<or> p = 3 \<or> p = 4 \<or> p = 5" using assms by (auto simp: priority_defs)
  then show "0 \<le> per_priority_starvation_tolerance p" "per_priority_starvation_tolerance p \<le> 15"
    by (auto simp: per_priority_starvation_tolerance_def kMaxVeryHighPriorityStarvationScore_def
        kMaxHighPriorityStarvationScore_def kMaxNormalPriorityStarvationScore_def
        kMaxLowPriorityStarvationScore_def)
qed

lemma control_first:
  assumes s: "in_sync s" and e: "expected s q = Some (kControlPriority, k)"
  shows "min_id (active_priorities s) = kControlPriority"
proof -
  let ?L = "spq_list (active_priorities s)"
  have "kControlPriority \<in> snd ` set ?L"
    unfolding counts_rep_active(4) [OF s] using e by (cases q) (auto simp: priority_defs)
  then obtain k where k: "(k, kControlPriority) \<in> set ?L" by force
  then have ne: "\<not> spq_empty (active_priorities s)" by (auto simp: spq_empty_iff)
  have kk: "k = int64_min" using counts_rep_active(3) [OF s k] by (simp add: key_ok_def)
  obtain k0 where k0: "(k0, min_id (active_priorities s)) \<in> set ?L" "k0 \<le> k"
    using min_id_least [OF s ne k] by blast
  have "key_ok (selection_count s) (k0, min_id (active_priorities s))" by (rule counts_rep_active(3) [OF s k0(1)])
  then show ?thesis
    using k0(2) kk tolerance_bounds [OF min_id_active(1) [OF s ne]]
    by (auto simp: key_ok_def split: if_splits)
qed

lemma best_effort_last:
  assumes s: "in_sync s" and m: "min_id (active_priorities s) = kBestEffortPriority"
    and ne: "\<not> spq_empty (active_priorities s)"
    and bound: "selection_count s + 15 < int64_max" and e: "expected s q = Some (p, k)"
  shows "p = kBestEffortPriority"
proof (rule ccontr)
  assume p: "p \<noteq> kBestEffortPriority"
  let ?L = "spq_list (active_priorities s)"
  have lt: "p < kQueuePriorityCount" using sets_rep_index [OF s [unfolded in_sync_def] e] .
  have "p \<in> snd ` set ?L" unfolding counts_rep_active(4) [OF s] using e lt by (cases q) auto
  then obtain k where k: "(k, p) \<in> set ?L" by force
  obtain k0 where k0: "(k0, kBestEffortPriority) \<in> set ?L" "k0 \<le> k"
    using min_id_least [OF s ne k] m by auto
  have "k0 = int64_max" using counts_rep_active(3) [OF s k0(1)] by (simp add: key_ok_def priority_defs)
  moreover have "key_ok (selection_count s) (k, p)" by (rule counts_rep_active(3) [OF s k])
  ultimately show False
    using k0(2) p lt tolerance_bounds [of p] bound by (auto simp: key_ok_def split: if_splits)
qed

section \<open>No priority between highest and low is starved\<close>

text \<open>The facts about the active priorities that every operation keeps.\<close>

definition active_ok :: "sched \<Rightarrow> bool" where
  "active_ok s \<longleftrightarrow> spq_inv (active_priorities s) \<and> 0 \<le> selection_count s \<and>
     (\<forall>e \<in> set (spq_list (active_priorities s)). key_ok (selection_count s) e)"

lemma in_sync_active_ok: "in_sync s \<Longrightarrow> active_ok s"
  using counts_rep_active by (auto simp: active_ok_def)

text \<open>
  What operations other than a selection may do to the active priorities while \<open>p\<close> stays active:
  nothing, or activate or deactivate another priority.
\<close>

definition others_change :: "nat \<Rightarrow> sched \<Rightarrow> sched \<Rightarrow> bool" where
  "others_change p t u \<longleftrightarrow> selection_count u = selection_count t \<and>
     (active_priorities u = active_priorities t \<or>
      (\<exists>p'. p' \<noteq> p \<and> p' < kQueuePriorityCount \<and> \<not> IsInQueue p' (active_priorities t) \<and>
         active_priorities u = spq_insert (GetSortKeyForPriority p' t) p' (active_priorities t)) \<or>
      (\<exists>p'. p' \<noteq> p \<and> p' < kQueuePriorityCount \<and> IsInQueue p' (active_priorities t) \<and>
         active_priorities u = spq_erase p' (active_priorities t)))"

text \<open>\<open>p\<close> was passed over by \<open>n\<close> selections of priorities other than control.\<close>

inductive overtaken :: "nat \<Rightarrow> nat \<Rightarrow> sched \<Rightarrow> sched \<Rightarrow> bool" for p where
  start: "overtaken p 0 s s"
| pick: "overtaken p n s t \<Longrightarrow> SelectWorkQueueToService t = (q, u) \<Longrightarrow>
    min_id (active_priorities t) \<noteq> p \<Longrightarrow> min_id (active_priorities t) \<noteq> kControlPriority \<Longrightarrow>
    selection_count t + 16 < int64_max \<Longrightarrow> overtaken p (n + 1) s u"
| other: "overtaken p n s t \<Longrightarrow> others_change p t u \<Longrightarrow> overtaken p n s u"

definition ahead :: "nat \<Rightarrow> (int \<times> nat) list \<Rightarrow> nat" where
  "ahead p L = length (filter (\<lambda>e. snd e \<noteq> kControlPriority) (takeWhile (\<lambda>e. snd e \<noteq> p) L))"

definition wait_bound :: "int \<Rightarrow> nat \<Rightarrow> int \<Rightarrow> (int \<times> nat) list \<Rightarrow> int" where
  "wait_bound K p sel L = (if sel < K then K - sel + 5 else int (ahead p L))"

lemma takeWhile_put_after:
  assumes "(K, p) \<in> set L" "sorted (map fst L)" "P K" "\<And>a b. P b \<Longrightarrow> a \<le> b \<Longrightarrow> P a" "snd e \<noteq> p"
    "distinct (map snd L)"
  shows "takeWhile (\<lambda>x. snd x \<noteq> p) (put_after P e L) = takeWhile (\<lambda>x. snd x \<noteq> p) L"
  using assms(1,2,6)
proof (induction L)
  case Nil
  then show ?case by simp
next
  case (Cons a L)
  have "fst a \<le> K" using Cons.prems by auto
  then have "P (fst a)" using assms(3,4) by blast
  then have pa: "put_after P e (a # L) = a # put_after P e L" by (simp add: put_after_def)
  show ?case
  proof (cases "snd a = p")
    case True
    then show ?thesis by (simp add: pa)
  next
    case False
    then have "(K, p) \<in> set L" using Cons.prems by auto
    then show ?thesis using Cons False by (simp add: pa)
  qed
qed

lemma ahead_put_control:
  assumes "snd e = kControlPriority" "snd e \<noteq> p"
  shows "ahead p (put_after P e L) = ahead p L"
proof (induction L)
  case Nil
  then show ?case using assms by (simp add: put_after_def ahead_def)
next
  case (Cons a L)
  show ?case
  proof (cases "P (fst a)")
    case True
    then have pa: "put_after P e (a # L) = a # put_after P e L" by (simp add: put_after_def)
    show ?thesis using Cons by (simp add: pa ahead_def)
  next
    case False
    then have "put_after P e (a # L) = e # a # L" by (simp add: put_after_def)
    then show ?thesis using assms by (simp add: ahead_def)
  qed
qed

lemma ahead_erase: "p' \<noteq> p \<Longrightarrow> ahead p (filter (\<lambda>e. snd e \<noteq> p') L) \<le> ahead p L"
  by (induction L) (auto simp: ahead_def)

lemma ahead_le_5:
  assumes "distinct (map snd L)" "snd ` set L \<subseteq> {..<kQueuePriorityCount}" "p < kQueuePriorityCount"
    "p \<noteq> kControlPriority"
  shows "ahead p L \<le> 5"
proof -
  let ?A = "filter (\<lambda>e. snd e \<noteq> kControlPriority) (takeWhile (\<lambda>e. snd e \<noteq> p) L)"
  have "distinct (map snd ?A)"
    by (metis (no_types) assms(1) distinct_map distinct_filter distinct_takeWhile inj_on_subset
        filter_is_subset set_takeWhileD subsetI subset_trans)
  moreover have sub: "set (map snd ?A) \<subseteq> {..<kQueuePriorityCount} - {p, kControlPriority}"
    using assms(2) by (auto dest: set_takeWhileD)
  ultimately have "length ?A = card (set (map snd ?A))"
    using distinct_card [of "map snd ?A"] by (simp only: length_map)
  also have "\<dots> \<le> card ({..<kQueuePriorityCount} - {p, kControlPriority})"
    by (rule card_mono [OF _ sub]) simp
  also have "\<dots> = 5" using assms(3,4) by (simp add: priority_defs)
  finally show ?thesis by (simp add: ahead_def)
qed

lemma spq_inv_list:
  assumes "spq_inv q"
  shows "distinct (map snd (spq_list q))" "snd ` set (spq_list q) \<subseteq> {..<kQueuePriorityCount}"
    "sorted (map fst (spq_list q))"
  using assms by (auto simp: spq_inv_def index_ok_def)

lemma no_control_behind:
  assumes ok: "active_ok s" and ne: "\<not> spq_empty (active_priorities s)"
    and m: "min_id (active_priorities s) \<noteq> kControlPriority"
    and e: "e \<in> set (spq_list (active_priorities s))"
  shows "snd e \<noteq> kControlPriority"
proof
  let ?L = "spq_list (active_priorities s)"
  assume c: "snd e = kControlPriority"
  have inv: "spq_inv (active_priorities s)" using ok by (simp add: active_ok_def)
  have L: "?L \<noteq> []" using ne by (simp add: spq_empty_iff)
  then obtain x L' where xl: "?L = x # L'" by (cases ?L) auto
  have "key_ok (selection_count s) e" "key_ok (selection_count s) x" using ok e xl by (auto simp: active_ok_def)
  moreover have "fst x \<le> fst e" using spq_inv_list(3) [OF inv] e unfolding xl by auto
  moreover have x: "snd x = min_id (active_priorities s)" using min_id_hd [OF L] xl by simp
  moreover have "snd x < kQueuePriorityCount" using spq_inv_list(2) [OF inv] xl by auto
  ultimately show False
    using c m tolerance_bounds [of "snd x"] by (auto simp: key_ok_def split: if_splits)
qed

lemma wait_bound_nonneg: "0 \<le> wait_bound K p sel L"
  by (simp add: wait_bound_def)

lemma wait_bound_le:
  assumes "ahead p L \<le> 5" "K \<le> sel + T" "0 \<le> T"
  shows "wait_bound K p sel L \<le> T + 5"
  using assms by (simp add: wait_bound_def)

lemma picked_wait:
  assumes ok: "active_ok t" and e: "(K, p) \<in> set (spq_list (active_priorities t))"
    and p: "p < kQueuePriorityCount" "p \<noteq> kControlPriority" "p \<noteq> kBestEffortPriority"
    and m: "min_id (active_priorities t) \<noteq> p" "min_id (active_priorities t) \<noteq> kControlPriority"
    and big: "selection_count t + 16 < int64_max" and u: "u = picked t n"
  shows "active_ok u" "(K, p) \<in> set (spq_list (active_priorities u))"
    "wait_bound K p (selection_count u) (spq_list (active_priorities u))
       < wait_bound K p (selection_count t) (spq_list (active_priorities t))"
proof -
  let ?q = "active_priorities t" and ?L = "spq_list (active_priorities t)"
  let ?m = "min_id ?q" and ?sel = "selection_count t"
  let ?k = "GetSortKeyForPriority ?m (t\<lparr>selection_count := ?sel + 1\<rparr>)"
  have inv: "spq_inv ?q" and sel: "0 \<le> ?sel" and keys: "\<forall>e \<in> set ?L. key_ok ?sel e"
    using ok by (auto simp: active_ok_def)
  have ne: "\<not> spq_empty ?q" using e by (auto simp: spq_empty_iff)
  have us: "selection_count u = ?sel + 1" "active_priorities u = ChangeMinKey ?k ?q"
    using m(2) by (simp_all add: u picked_def Let_def)
  obtain x L' where xl: "?L = x # L'" using e by (cases ?L) auto
  have x: "snd x = ?m" using min_id_hd [of ?q] xl by simp
  have Lu: "spq_list (active_priorities u) = put_after (\<lambda>k. k < ?k) (?k, ?m) L'"
    unfolding us using ChangeMinKey_spec(2) [OF inv ne] xl by simp
  have eL: "(K, p) \<in> set L'" using e xl x m(1) by auto
  have srt: "sorted (map fst L')" "distinct (map snd L')" using spq_inv_list [OF inv] xl by auto
  have inv': "spq_inv (active_priorities u)" unfolding us by (rule ChangeMinKey_spec(1) [OF inv ne])
  show el: "(K, p) \<in> set (spq_list (active_priorities u))" unfolding Lu using eL by simp
  have "key_ok (?sel + 1) (?k, ?m)" using sort_key_ok [of "t\<lparr>selection_count := ?sel + 1\<rparr>" ?m] sel by simp
  moreover have "key_ok (?sel + 1) e" if "e \<in> set L'" for e
    using keys that xl key_ok_mono [of ?sel e "?sel + 1"] by simp
  ultimately show "active_ok u"
    using inv' sel us(1) Lu by (auto simp: active_ok_def)
  have mlt: "?m < kQueuePriorityCount" by (rule min_id_in_queue(2) [OF inv ne])
  have K: "K \<le> ?sel + 15" using keys e p tolerance_bounds [OF p] by (fastforce simp: key_ok_def)
  show "wait_bound K p (selection_count u) (spq_list (active_priorities u)) < wait_bound K p ?sel ?L"
  proof (cases "?sel < K")
    case True
    have "ahead p (spq_list (active_priorities u)) \<le> 5"
      by (rule ahead_le_5 [OF spq_inv_list(1,2) [OF inv'] p(1,2)])
    then show ?thesis using True by (simp add: wait_bound_def us(1))
  next
    case False
    have "?sel + 1 \<le> ?k"
      using m(2) tolerance_bounds [OF mlt m(2)] big by (auto simp: GetSortKeyForPriority_def)
    then have lt: "K < ?k" using False by linarith
    have "takeWhile (\<lambda>x. snd x \<noteq> p) (put_after (\<lambda>k. k < ?k) (?k, ?m) L') = takeWhile (\<lambda>x. snd x \<noteq> p) L'"
      by (rule takeWhile_put_after [where P = "\<lambda>k. k < ?k", OF eL srt(1)]) (use m(1) lt srt(2) in auto)
    then have "ahead p (spq_list (active_priorities u)) = ahead p L'" by (simp add: ahead_def Lu)
    moreover have "ahead p ?L = Suc (ahead p L')" using x m by (simp add: ahead_def xl)
    ultimately show ?thesis using False by (simp add: wait_bound_def us(1))
  qed
qed

lemma others_change_wait:
  assumes ok: "active_ok t" and e: "(K, p) \<in> set (spq_list (active_priorities t))"
    and p: "p \<noteq> kControlPriority" "p \<noteq> kBestEffortPriority" and c: "others_change p t u"
    and big: "selection_count t + 16 < int64_max"
  shows "active_ok u \<and> (K, p) \<in> set (spq_list (active_priorities u)) \<and>
    wait_bound K p (selection_count u) (spq_list (active_priorities u))
       \<le> wait_bound K p (selection_count t) (spq_list (active_priorities t))"
proof -
  let ?q = "active_priorities t" and ?L = "spq_list (active_priorities t)" and ?sel = "selection_count t"
  have inv: "spq_inv ?q" and sel: "0 \<le> ?sel" and keys: "\<forall>e \<in> set ?L. key_ok ?sel e"
    using ok by (auto simp: active_ok_def)
  have su: "selection_count u = ?sel" using c by (simp add: others_change_def)
  consider (same) "active_priorities u = ?q"
    | (ins) p' where "p' \<noteq> p" "p' < kQueuePriorityCount" "\<not> IsInQueue p' ?q"
        "active_priorities u = spq_insert (GetSortKeyForPriority p' t) p' ?q"
    | (era) p' where "p' \<noteq> p" "p' < kQueuePriorityCount" "IsInQueue p' ?q"
        "active_priorities u = spq_erase p' ?q"
    using c unfolding others_change_def by blast
  then show ?thesis
  proof cases
    case same
    then show ?thesis using ok e su by (simp add: active_ok_def)
  next
    case ins
    let ?k = "GetSortKeyForPriority p' t"
    note ii = spq_insert_spec [OF inv ins(2,3), of ?k]
    have Lu: "spq_list (active_priorities u) = put_after (\<lambda>k. k \<le> ?k) (?k, p') ?L" using ii(2) ins by simp
    have "active_ok u"
      using ii(1) ins(4) sel keys su sort_key_ok [OF sel, of p'] by (simp add: active_ok_def ii(2))
    moreover have "wait_bound K p ?sel (put_after (\<lambda>k. k \<le> ?k) (?k, p') ?L) \<le> wait_bound K p ?sel ?L"
    proof (cases "?sel < K")
      case True
      then show ?thesis by (simp add: wait_bound_def)
    next
      case False
      have "ahead p (put_after (\<lambda>k. k \<le> ?k) (?k, p') ?L) = ahead p ?L"
      proof (cases "p' = kControlPriority")
        case True
        then show ?thesis using ahead_put_control [of "(?k, p')" p] ins(1) by simp
      next
        case pc: False
        have "?sel \<le> ?k"
          using pc tolerance_bounds [OF ins(2) pc] big by (auto simp: GetSortKeyForPriority_def)
        then have le: "K \<le> ?k" using False by linarith
        have "takeWhile (\<lambda>x. snd x \<noteq> p) (put_after (\<lambda>k. k \<le> ?k) (?k, p') ?L) = takeWhile (\<lambda>x. snd x \<noteq> p) ?L"
          by (rule takeWhile_put_after [where P = "\<lambda>k. k \<le> ?k", OF e spq_inv_list(3) [OF inv]])
            (use ins(1) le spq_inv_list(1) [OF inv] in auto)
        then show ?thesis by (simp add: ahead_def)
      qed
      then show ?thesis by (simp add: wait_bound_def)
    qed
    ultimately show ?thesis using e Lu su by simp
  next
    case era
    note er = spq_erase_spec [OF inv era(2,3)]
    have Lu: "spq_list (active_priorities u) = filter (\<lambda>e. snd e \<noteq> p') ?L" using er(2) era by simp
    have "active_ok u" using er(1) era(4) sel keys su by (simp add: active_ok_def er(2))
    moreover have "wait_bound K p ?sel (filter (\<lambda>e. snd e \<noteq> p') ?L) \<le> wait_bound K p ?sel ?L"
      using ahead_erase [OF era(1), of ?L] by (simp add: wait_bound_def)
    ultimately show ?thesis using e Lu su era(1) by simp
  qed
qed

lemma overtaken_wait:
  assumes "overtaken p n s t" "active_ok s" "(K, p) \<in> set (spq_list (active_priorities s))"
    "p < kQueuePriorityCount" "p \<noteq> kControlPriority" "p \<noteq> kBestEffortPriority"
    "selection_count t + 16 < int64_max"
  shows "active_ok t \<and> (K, p) \<in> set (spq_list (active_priorities t)) \<and> selection_count s \<le> selection_count t \<and>
    int n + wait_bound K p (selection_count t) (spq_list (active_priorities t))
       \<le> wait_bound K p (selection_count s) (spq_list (active_priorities s))"
  using assms
proof (induction rule: overtaken.induct)
  case (start s)
  then show ?case by simp
next
  case (pick n s t q u)
  note IH = pick.IH [OF pick.prems(1-5) pick.hyps(5)]
  then have ok: "active_ok t" and e: "(K, p) \<in> set (spq_list (active_priorities t))" by auto
  have ne: "\<not> spq_empty (active_priorities t)" using e by (auto simp: spq_empty_iff)
  have inv: "spq_inv (active_priorities t)" using ok by (simp add: active_ok_def)
  obtain q' b where "ChooseWithPriority (min_id (active_priorities t)) t = (q', b)" by force
  from Select_unfold [OF inv ne this] obtain k where u: "u = picked t k" using pick.hyps(2) by auto
  note pw = picked_wait [OF ok e pick.prems(3-5) pick.hyps(3,4,5) u]
  have "selection_count u = selection_count t + 1" using pick.hyps(4) by (simp add: u picked_def Let_def)
  then show ?case using pw IH by auto
next
  case (other n s t u)
  have big: "selection_count t + 16 < int64_max" using other.hyps(2) other.prems(6) by (simp add: others_change_def)
  note IH = other.IH [OF other.prems(1-5) big]
  then have ok: "active_ok t" and e: "(K, p) \<in> set (spq_list (active_priorities t))" by auto
  have "selection_count u = selection_count t" using other.hyps(2) by (simp add: others_change_def)
  then show ?case using others_change_wait [OF ok e other.prems(4,5) other.hyps(2) big] IH by auto
qed

end
