(* ===== verification/Work_Queue.thy ===== *)
theory Work_Queue
  imports Task_Queue_Selector
begin

text \<open>
  The model of \<open>work_queue.cc\<close>, with the two members of \<open>TaskQueueImpl\<close> that it calls back:
  \<open>TakeImmediateIncomingQueueTasks\<close> and \<open>UpdateCrossThreadQueueStateLocked\<close>. The lemmas show that
  every operation leaves the sets in step with what the queue shows: a heap entry exactly when the
  queue is registered, not empty and not blocked by a fence, keyed by its front task.
\<close>

section \<open>Members of the task queue\<close>

definition IsQueueEnabled :: "nat \<Rightarrow> sched \<Rightarrow> bool" where
  "IsQueueEnabled q s = is_enabled (tq s q)"

definition UpdateCrossThreadQueueStateLocked :: "nat \<Rightarrow> sched \<Rightarrow> sched" where
  "UpdateCrossThreadQueueStateLocked q s =
     upd_tq q (\<lambda>t. t\<lparr>immediate_work_queue_empty := wq_Empty (wq s (q, kImmediate)),
       post_immediate_task_should_schedule_work :=
         (if on_next_wake_up_changed_callback t then is_enabled t
          else is_enabled t \<and> current_fence t = EnqueueOrder_none)\<rparr>) s"

definition InsertFenceImpl :: "wq_id \<Rightarrow> enqueue_order \<Rightarrow> sched \<Rightarrow> bool \<times> sched" where
  "InsertFenceImpl x fence s = (wq_BlockedByFence (wq s x), upd_wq x (\<lambda>q. q\<lparr>wq_fence := fence\<rparr>) s)"

definition InsertFenceSilently :: "wq_id \<Rightarrow> enqueue_order \<Rightarrow> sched \<Rightarrow> sched" where
  "InsertFenceSilently x fence s = snd (InsertFenceImpl x fence s)"

definition activate_delayed_fence :: "nat \<Rightarrow> enqueue_order \<Rightarrow> sched \<Rightarrow> sched" where
  "activate_delayed_fence q order s =
     InsertFenceSilently (q, kDelayed) order
       (InsertFenceSilently (q, kImmediate) order
         (upd_tq q (\<lambda>t. t\<lparr>delayed_fence := None, current_fence := order\<rparr>) s))"

definition tq_TakeImmediateIncomingQueueTasks :: "nat \<Rightarrow> sched \<Rightarrow> sched" where
  "tq_TakeImmediateIncomingQueueTasks q s =
     (let (queue, incoming) = dq_swap (tasks (wq s (q, kImmediate))) (immediate_incoming_queue (tq s q));
          incoming = MaybeShrinkQueue (clock s 0) incoming;
          s = upd_wq (q, kImmediate) (\<lambda>w. w\<lparr>tasks := queue\<rparr>) s;
          s = upd_tq q (\<lambda>t. t\<lparr>immediate_incoming_queue := incoming\<rparr>) s;
          s = (case delayed_fence (tq s q) of None \<Rightarrow> s
               | Some fence \<Rightarrow>
                   (case find (\<lambda>t. fence \<le> delayed_run_time t) (map the (dq_iterate queue)) of
                      None \<Rightarrow> s
                    | Some t \<Rightarrow> activate_delayed_fence q (task_enqueue_order t) s))
      in UpdateCrossThreadQueueStateLocked q s)"

section \<open>Operations\<close>

text \<open>The notifications, through the pointer \<open>work_queue_sets_\<close>; a null pointer is skipped.\<close>

definition notify_pushed_to_empty :: "wq_id \<Rightarrow> sched \<Rightarrow> sched" where
  "notify_pushed_to_empty x s =
     (case work_queue_sets (wq s x) of None \<Rightarrow> s | Some w \<Rightarrow> OnTaskPushedToEmptyQueue w x s)"

definition notify_front_changed :: "wq_id \<Rightarrow> sched \<Rightarrow> sched" where
  "notify_front_changed x s =
     (case work_queue_sets (wq s x) of None \<Rightarrow> s | Some w \<Rightarrow> OnQueuesFrontTaskChanged w x s)"

definition set_tasks :: "wq_id \<Rightarrow> Task deque \<Rightarrow> sched \<Rightarrow> sched" where
  "set_tasks x d s = upd_wq x (\<lambda>q. q\<lparr>tasks := d\<rparr>) s"

definition wq_Push :: "wq_id \<Rightarrow> Task \<Rightarrow> sched \<Rightarrow> sched" where
  "wq_Push x t s =
     (let was_empty = dq_empty (tasks (wq s x));
          s = set_tasks x (dq_push_back t (tasks (wq s x))) s
      in if \<not> was_empty then s
         else if work_queue_sets (wq s x) \<noteq> None \<and> \<not> wq_BlockedByFence (wq s x)
         then notify_pushed_to_empty x s else s)"

text \<open>\<open>TaskPusher\<close>: created with \<open>was_empty_\<close>, pushes without notifying, notifies when destroyed.\<close>

definition CreateTaskPusher :: "wq_id \<Rightarrow> sched \<Rightarrow> bool" where
  "CreateTaskPusher x s = wq_Empty (wq s x)"

definition TaskPusher_Push :: "wq_id \<Rightarrow> Task \<Rightarrow> sched \<Rightarrow> sched" where
  "TaskPusher_Push x t s = set_tasks x (dq_push_back t (tasks (wq s x))) s"

definition TaskPusher_destroy :: "wq_id \<Rightarrow> bool \<Rightarrow> sched \<Rightarrow> sched" where
  "TaskPusher_destroy x was_empty s =
     (if was_empty \<and> \<not> wq_Empty (wq s x) \<and> work_queue_sets (wq s x) \<noteq> None \<and>
         \<not> wq_BlockedByFence (wq s x)
      then notify_pushed_to_empty x s else s)"

definition PushNonNestableTaskToFront :: "wq_id \<Rightarrow> Task \<Rightarrow> sched \<Rightarrow> sched" where
  "PushNonNestableTaskToFront x t s =
     (let was_empty = dq_empty (tasks (wq s x)); was_blocked = wq_BlockedByFence (wq s x);
          s = set_tasks x (dq_push_front t (tasks (wq s x))) s
      in if work_queue_sets (wq s x) = None then s
         else if wq_BlockedByFence (wq s x) then s
         else if was_empty \<or> was_blocked then notify_pushed_to_empty x s
         else notify_front_changed x s)"

definition wq_TakeImmediateIncomingQueueTasks :: "nat \<Rightarrow> sched \<Rightarrow> sched" where
  "wq_TakeImmediateIncomingQueueTasks q s =
     (let x = (q, kImmediate); s = tq_TakeImmediateIncomingQueueTasks q s
      in if dq_empty (tasks (wq s x)) then s
         else if work_queue_sets (wq s x) \<noteq> None \<and> \<not> wq_BlockedByFence (wq s x)
         then notify_pushed_to_empty x s else s)"

text \<open>The reload and shrink step when the last task of a work queue was taken.\<close>

definition refill :: "wq_id \<Rightarrow> sched \<Rightarrow> sched" where
  "refill x s =
     (let s = (if snd x = kImmediate then tq_TakeImmediateIncomingQueueTasks (fst x) s else s)
      in set_tasks x (MaybeShrinkQueue (clock s 0) (tasks (wq s x))) s)"

text \<open>\<open>TakeTaskFromWorkQueue\<close>; \<open>dcheck\<close> selects the build with \<open>DCHECK_IS_ON()\<close>, which notifies
  through the general \<open>OnQueuesFrontTaskChanged\<close>.\<close>

definition TakeTaskFromWorkQueue :: "bool \<Rightarrow> wq_id \<Rightarrow> sched \<Rightarrow> Task option \<times> sched" where
  "TakeTaskFromWorkQueue dcheck x s =
     (let pending_task = dq_front (tasks (wq s x));
          s = set_tasks x (dq_pop_front (tasks (wq s x))) s;
          s = (if dq_empty (tasks (wq s x)) then refill x s else s)
      in (pending_task,
          case work_queue_sets (wq s x) of None \<Rightarrow> s
          | Some w \<Rightarrow> if dcheck then OnQueuesFrontTaskChanged w x s else OnPopMinQueueInSet w x s))"

definition task_is_dead :: "sched \<Rightarrow> Task \<Rightarrow> bool" where
  "task_is_dead s t = (closure_is_null (task t) \<or> closure_IsCancelled (cancelled s) (task t))"

function pop_dead :: "(Task \<Rightarrow> bool) \<Rightarrow> Task deque \<Rightarrow> bool \<times> Task deque" where
  "pop_dead dead d =
     (if \<not> dq_empty d \<and> rings d \<noteq> [] \<and> dead (the (dq_front d))
      then (True, snd (pop_dead dead (dq_pop_front d))) else (False, d))"
  by pat_completeness auto
termination
  by (relation "measure (\<lambda>(p, d). dq_size d)") (auto simp: dq_pop_front_size dq_empty_def)

declare pop_dead.simps [simp del]

definition RemoveAllCanceledTasksFromFront :: "wq_id \<Rightarrow> sched \<Rightarrow> bool \<times> sched" where
  "RemoveAllCanceledTasksFromFront x s =
     (if work_queue_sets (wq s x) = None then (False, s)
      else let (task_removed, d) = pop_dead (task_is_dead s) (tasks (wq s x));
               s = set_tasks x d s
           in if task_removed
              then let s = (if dq_empty (tasks (wq s x)) then refill x s else s)
                   in (True, if heap_handle_valid x s then notify_front_changed x s else s)
              else (False, s))"

definition wq_InsertFence :: "wq_id \<Rightarrow> enqueue_order \<Rightarrow> sched \<Rightarrow> bool \<times> sched" where
  "wq_InsertFence x fence s =
     (let (was_blocked_by_fence, s) = InsertFenceImpl x fence s
      in case work_queue_sets (wq s x) of None \<Rightarrow> (False, s)
         | Some w \<Rightarrow>
             if \<not> dq_empty (tasks (wq s x)) \<and> was_blocked_by_fence \<and> \<not> wq_BlockedByFence (wq s x)
             then (True, OnTaskPushedToEmptyQueue w x s)
             else if wq_BlockedByFence (wq s x) then (False, OnQueueBlocked w x s)
             else (False, s))"

definition wq_RemoveFence :: "wq_id \<Rightarrow> sched \<Rightarrow> bool \<times> sched" where
  "wq_RemoveFence x s =
     (let was_blocked_by_fence = wq_BlockedByFence (wq s x);
          s = upd_wq x (\<lambda>q. q\<lparr>wq_fence := EnqueueOrder_none\<rparr>) s
      in case work_queue_sets (wq s x) of None \<Rightarrow> (False, s)
         | Some w \<Rightarrow> if \<not> dq_empty (tasks (wq s x)) \<and> was_blocked_by_fence
                     then (True, OnTaskPushedToEmptyQueue w x s) else (False, s))"

text \<open>Both orders must be visible; the code asserts it.\<close>

definition ShouldRunBefore :: "work_queue \<Rightarrow> work_queue \<Rightarrow> bool" where
  "ShouldRunBefore q other_queue =
     (case (GetFrontTaskEnqueueOrder q, GetFrontTaskEnqueueOrder other_queue) of
        (Some enqueue_order, Some other_enqueue_order) \<Rightarrow> enqueue_order < other_enqueue_order
      | (None, Some other_enqueue_order) \<Rightarrow> 0 < other_enqueue_order
      | _ \<Rightarrow> False)"

definition wq_MaybeShrinkQueue :: "wq_id \<Rightarrow> sched \<Rightarrow> sched" where
  "wq_MaybeShrinkQueue x s = set_tasks x (MaybeShrinkQueue (clock s 0) (tasks (wq s x))) s"

definition wq_DeletePendingTasks :: "wq_id \<Rightarrow> sched \<Rightarrow> sched" where
  "wq_DeletePendingTasks x s =
     (let s = set_tasks x (dq_clear (tasks (wq s x))) s
      in if work_queue_sets (wq s x) \<noteq> None \<and> heap_handle_valid x s
         then notify_front_changed x s else s)"

definition PopTaskForTesting :: "wq_id \<Rightarrow> sched \<Rightarrow> sched" where
  "PopTaskForTesting x s =
     (if dq_empty (tasks (wq s x)) then s else set_tasks x (dq_pop_front (tasks (wq s x))) s)"

section \<open>Well-formed queues\<close>

definition queues_ok :: "sched \<Rightarrow> bool" where
  "queues_ok s \<longleftrightarrow> (\<forall>x. dq_inv (tasks (wq s x)) \<and> work_queue_sets (wq s x) \<in> {None, Some (snd x)} \<and>
       work_queue_set_index (wq s x) < kQueuePriorityCount) \<and>
     (\<forall>q. dq_inv (immediate_incoming_queue (tq s q)))"

lemma wfD:
  assumes "queues_ok s"
  shows "dq_inv (tasks (wq s x))" "work_queue_set_index (wq s x) < kQueuePriorityCount"
    "dq_inv (immediate_incoming_queue (tq s q))"
    "work_queue_sets (wq s x) = None \<or> work_queue_sets (wq s x) = Some (snd x)"
  using assms unfolding queues_ok_def by blast+

lemma wf_frame: "sets_frame s t \<Longrightarrow> queues_ok t = queues_ok s"
  by (simp add: queues_ok_def sets_frame_reads)

lemma wf_set_tasks: "queues_ok s \<Longrightarrow> dq_inv d \<Longrightarrow> queues_ok (set_tasks x d s)"
  by (auto simp: queues_ok_def set_tasks_def)

lemma set_tasks_reads [simp]:
  "wq (set_tasks x d s) x = (wq s x)\<lparr>tasks := d\<rparr>"
  "y \<noteq> x \<Longrightarrow> wq (set_tasks x d s) y = wq s y"
  "tq (set_tasks x d s) q = tq s q" "clock (set_tasks x d s) = clock s"
  by (simp_all add: set_tasks_def)

lemma notify_wf: "queues_ok (notify_pushed_to_empty x s) = queues_ok s" "queues_ok (notify_front_changed x s) = queues_ok s"
  by (simp_all add: notify_pushed_to_empty_def notify_front_changed_def wf_frame [OF sets_ops_frame(1)]
      wf_frame [OF sets_ops_frame(2)] split: option.split)

lemma notify_work_queues:
  "work_queues (notify_pushed_to_empty x s) = work_queues s"
  "work_queues (notify_front_changed x s) = work_queues s"
  "task_queues (notify_pushed_to_empty x s) = task_queues s"
  "task_queues (notify_front_changed x s) = task_queues s"
  by (simp_all add: notify_pushed_to_empty_def notify_front_changed_def
      sets_frame_reads [OF sets_ops_frame(1)] sets_frame_reads [OF sets_ops_frame(2)] split: option.split)

lemma expected_unregistered: "work_queue_sets (wq s x) = None \<Longrightarrow> expected s x = None"
  by (simp add: expected_def)

lemma expected_registered:
  "work_queue_sets (wq s x) = Some (snd x) \<Longrightarrow>
   expected s x = map_option (Pair (work_queue_set_index (wq s x))) (GetFrontTaskEnqueueOrder (wq s x))"
  by (simp add: expected_def)

lemma front_none: "GetFrontTaskEnqueueOrder q = None \<longleftrightarrow> dq_empty (tasks q) \<or> wq_BlockedByFence q"
  by (simp add: GetFrontTaskEnqueueOrder_def)

lemma expected_None_iff:
  "queues_ok s \<Longrightarrow> expected s x = None \<longleftrightarrow>
    work_queue_sets (wq s x) = None \<or> dq_empty (tasks (wq s x)) \<or> wq_BlockedByFence (wq s x)"
  using wfD(4) [of s x] front_none [of "wq s x"] by (auto simp: expected_def)

section \<open>Notifications bring a queue back into step\<close>

lemma notify_pushed_sync:
  assumes wf: "queues_ok s" and s: "in_sync_but x None s"
    and n: "dq_empty (tasks (wq s x)) \<or> wq_BlockedByFence (wq s x) \<Longrightarrow> work_queue_sets (wq s x) = None"
  shows "in_sync (notify_pushed_to_empty x s)"
proof (cases "work_queue_sets (wq s x)")
  case None
  then show ?thesis
    using in_sync_same [OF s expected_unregistered [OF None]] by (simp add: notify_pushed_to_empty_def)
next
  case (Some w)
  then have w: "w = snd x" using wfD(4) [OF wf, of x] by auto
  have "GetFrontTaskEnqueueOrder (wq s x) \<noteq> None" using n Some by (auto simp: front_none)
  then obtain k where "expected s x = Some (work_queue_set_index (wq s x), k)"
    using expected_registered [of s x] Some w by auto
  from OnTaskPushedToEmptyQueue_sync [OF s this wfD(2) [OF wf]]
  show ?thesis using Some w by (simp add: notify_pushed_to_empty_def)
qed

lemma maybe_notify_pushed_sync:
  assumes wf: "queues_ok s" and s: "in_sync_but x None s"
  shows "in_sync (if work_queue_sets (wq s x) \<noteq> None \<and> \<not> dq_empty (tasks (wq s x)) \<and> \<not> wq_BlockedByFence (wq s x)
    then notify_pushed_to_empty x s else s)" (is "in_sync (if ?c then _ else _)")
proof (cases ?c)
  case True
  then show ?thesis using notify_pushed_sync [OF wf s] by auto
next
  case False
  then have "expected s x = None" using expected_None_iff [OF wf, of x] by argo
  then show ?thesis using in_sync_same [OF s] False by auto
qed

lemma notify_front_sync:
  assumes wf: "queues_ok s" and s: "in_sync_but x (Some (work_queue_set_index (wq s x), k)) s"
    and w: "work_queue_sets (wq s x) = Some (snd x)"
  shows "in_sync (notify_front_changed x s)"
  using OnQueuesFrontTaskChanged_sync [OF s refl w] w by (simp add: notify_front_changed_def)

lemma sync_cong:
  assumes "work_queues t = work_queues s" "heap_handles t = heap_handles s"
    "work_queue_heaps t = work_queue_heaps s" "non_empty_set_counts t = non_empty_set_counts s"
    "active_priorities t = active_priorities s" "selection_count t = selection_count s"
  shows "in_sync_but x r t = in_sync_but x r s" "in_sync t = in_sync s" "expected t = expected s"
proof -
  have e: "expected t = expected s" unfolding expected_def assms ..
  have "sets_rep R t = sets_rep R s" for R unfolding sets_rep_def heaps_rep_def counts_rep_def assms ..
  then show "in_sync_but x r t = in_sync_but x r s" "in_sync t = in_sync s"
    unfolding in_sync_but_def in_sync_def e by blast+
  show "expected t = expected s" by (rule e)
qed

lemma sync_upd_tq [simp]:
  "in_sync_but x r (upd_tq q f s) = in_sync_but x r s" "in_sync (upd_tq q f s) = in_sync s"
  "expected (upd_tq q f s) = expected s"
  using sync_cong [of "upd_tq q f s" s] by simp_all

lemma in_sync_set_tasks:
  "in_sync s \<Longrightarrow> in_sync_but x (expected s x) (set_tasks x d s)"
  "in_sync_but x r s \<Longrightarrow> in_sync_but x r (set_tasks x d s)"
  unfolding set_tasks_def by (rule in_sync_upd, assumption) (rule in_sync_but_upd)

lemma same_front_sync:
  assumes "in_sync s" "GetFrontTaskEnqueueOrder ((wq s x)\<lparr>tasks := d\<rparr>) = GetFrontTaskEnqueueOrder (wq s x)"
  shows "in_sync (set_tasks x d s)"
  using in_sync_same [OF in_sync_set_tasks(1) [OF assms(1)]] assms(2) by (simp add: expected_def)

section \<open>Pushing\<close>

lemma wq_Push_sync:
  assumes wf: "queues_ok s" and s: "in_sync s"
  shows "in_sync (wq_Push x t s)" "queues_ok (wq_Push x t s)"
proof -
  let ?d = "dq_push_back t (tasks (wq s x))" and ?s = "set_tasks x (dq_push_back t (tasks (wq s x))) s"
  note d = wfD(1) [OF wf, of x]
  note pb = dq.push_back_spec [OF d, of t]
  have wf': "queues_ok ?s" using wf_set_tasks [OF wf] pb by blast
  then show "queues_ok (wq_Push x t s)" by (simp add: wq_Push_def Let_def notify_wf)
  have ne: "\<not> dq_empty ?d" using pb by (simp add: dq_empty_iff)
  show "in_sync (wq_Push x t s)"
  proof (cases "dq_empty (tasks (wq s x))")
    case True
    then have "expected s x = None" using expected_None_iff [OF wf] by blast
    then have "in_sync_but x None ?s" using in_sync_set_tasks(1) [OF s, of x ?d] by simp
    from maybe_notify_pushed_sync [OF wf' this]
    show ?thesis using True ne by (simp add: wq_Push_def Let_def)
  next
    case False
    have "in_sync ?s"
    proof (rule same_front_sync [OF s])
      show "GetFrontTaskEnqueueOrder ((wq s x)\<lparr>tasks := ?d\<rparr>) = GetFrontTaskEnqueueOrder (wq s x)"
        using False pb d by (auto simp: GetFrontTaskEnqueueOrder_list dq_empty_iff split: list.split)
    qed
    then show ?thesis using False by (simp add: wq_Push_def)
  qed
qed

text \<open>A batch of pushes through a \<open>TaskPusher\<close>, from its creation to its destruction.\<close>

definition TaskPusher_batch :: "wq_id \<Rightarrow> Task list \<Rightarrow> sched \<Rightarrow> sched" where
  "TaskPusher_batch x ts s =
     TaskPusher_destroy x (CreateTaskPusher x s) (fold (TaskPusher_Push x) ts s)"

lemma fold_pusher:
  assumes "queues_ok s"
  shows "queues_ok (fold (TaskPusher_Push x) ts s) \<and>
    (\<exists>d. dq_inv d \<and> dq_list d = dq_list (tasks (wq s x)) @ ts \<and> fold (TaskPusher_Push x) ts s = set_tasks x d s)"
  using assms
proof (induction ts arbitrary: s)
  case Nil
  have "set_tasks x (tasks (wq s x)) s = s" by (simp add: set_tasks_def upd_wq_def)
  then show ?case using Nil wfD(1) [OF Nil, of x] by (metis append_Nil2 fold_simps(1))
next
  case (Cons t ts)
  let ?d = "dq_push_back t (tasks (wq s x))"
  have pb: "dq_inv ?d" "dq_list ?d = dq_list (tasks (wq s x)) @ [t]"
    using dq.push_back_spec [OF wfD(1) [OF Cons.prems]] by auto
  have "queues_ok (set_tasks x ?d s)" by (rule wf_set_tasks [OF Cons.prems pb(1)])
  from Cons.IH [OF this] obtain d where "queues_ok (fold (TaskPusher_Push x) ts (set_tasks x ?d s))" "dq_inv d"
    "dq_list d = dq_list ?d @ ts"
    "fold (TaskPusher_Push x) ts (set_tasks x ?d s) = set_tasks x d (set_tasks x ?d s)" by auto
  moreover have "set_tasks x d (set_tasks x ?d s) = set_tasks x d s"
    by (simp add: set_tasks_def upd_wq_def)
  moreover have "TaskPusher_Push x t s = set_tasks x ?d s" by (simp add: TaskPusher_Push_def)
  ultimately show ?case using pb(2) by auto
qed

lemma TaskPusher_batch_sync:
  assumes wf: "queues_ok s" and s: "in_sync s"
  shows "in_sync (TaskPusher_batch x ts s)"
    "dq_list (tasks (wq (TaskPusher_batch x ts s) x)) = dq_list (tasks (wq s x)) @ ts"
proof -
  let ?t = "fold (TaskPusher_Push x) ts s"
  obtain d where w: "queues_ok ?t" and d: "dq_inv d" "dq_list d = dq_list (tasks (wq s x)) @ ts" and t: "?t = set_tasks x d s"
    using fold_pusher [OF wf] by blast
  show "dq_list (tasks (wq (TaskPusher_batch x ts s) x)) = dq_list (tasks (wq s x)) @ ts"
    using d t by (simp add: TaskPusher_batch_def TaskPusher_destroy_def notify_work_queues)
  show "in_sync (TaskPusher_batch x ts s)"
  proof (cases "dq_empty (tasks (wq s x))")
    case True
    then have "expected s x = None" using expected_None_iff [OF wf] by blast
    then have "in_sync_but x None ?t" using in_sync_set_tasks(1) [OF s, of x d] t by simp
    from maybe_notify_pushed_sync [OF w this]
    show ?thesis
      using True by (simp add: TaskPusher_batch_def TaskPusher_destroy_def CreateTaskPusher_def wq_Empty_def
          conj_commute conj_left_commute)
  next
    case False
    have "in_sync (set_tasks x d s)"
      by (rule same_front_sync [OF s])
        (use False d wfD(1) [OF wf, of x] in \<open>auto simp: GetFrontTaskEnqueueOrder_list dq_empty_iff split: list.split\<close>)
    then show ?thesis
      using False t by (simp add: TaskPusher_batch_def TaskPusher_destroy_def CreateTaskPusher_def wq_Empty_def)
  qed
qed

lemma PushNonNestableTaskToFront_sync:
  assumes wf: "queues_ok s" and s: "in_sync s"
    and ord: "\<And>u us. dq_list (tasks (wq s x)) = u # us \<Longrightarrow> task_enqueue_order t \<le> task_enqueue_order u"
  shows "in_sync (PushNonNestableTaskToFront x t s)" "queues_ok (PushNonNestableTaskToFront x t s)"
proof -
  let ?d = "dq_push_front t (tasks (wq s x))" and ?s = "set_tasks x (dq_push_front t (tasks (wq s x))) s"
  note d = wfD(1) [OF wf, of x]
  have pf: "dq_inv ?d" "dq_list ?d = t # dq_list (tasks (wq s x))" using dq.push_front_spec [OF d, of t] by auto
  have wf': "queues_ok ?s" by (rule wf_set_tasks [OF wf pf(1)])
  then show "queues_ok (PushNonNestableTaskToFront x t s)"
    by (simp add: PushNonNestableTaskToFront_def Let_def notify_wf)
  have ne: "\<not> dq_empty ?d" using pf by (simp add: dq_empty_iff)
  have but: "in_sync_but x (expected s x) ?s" by (rule in_sync_set_tasks(1) [OF s])
  have bl: "wq_BlockedByFence (wq s x)" if "wq_BlockedByFence (wq ?s x)"
    using that pf d ord by (auto simp: wq_BlockedByFence_list split: list.splits)
  consider (none) "work_queue_sets (wq s x) = None" | (still) "work_queue_sets (wq s x) = Some (snd x)" "wq_BlockedByFence (wq ?s x)"
    | (un) "work_queue_sets (wq s x) = Some (snd x)" "\<not> wq_BlockedByFence (wq ?s x)"
        "dq_empty (tasks (wq s x)) \<or> wq_BlockedByFence (wq s x)"
    | (ch) "work_queue_sets (wq s x) = Some (snd x)" "\<not> wq_BlockedByFence (wq ?s x)"
        "\<not> dq_empty (tasks (wq s x))" "\<not> wq_BlockedByFence (wq s x)"
    using wfD(4) [OF wf, of x] by metis
  then show "in_sync (PushNonNestableTaskToFront x t s)"
  proof cases
    case none
    then show ?thesis
      using in_sync_same [OF but] by (simp add: PushNonNestableTaskToFront_def expected_unregistered)
  next
    case still
    then have "expected s x = None" "expected ?s x = None"
      using bl expected_None_iff [OF wf] expected_None_iff [OF wf'] by auto
    then show ?thesis using in_sync_same [OF but] still by (simp add: PushNonNestableTaskToFront_def Let_def)
  next
    case un
    then have "expected s x = None" using expected_None_iff [OF wf] by blast
    then have "in_sync_but x None ?s" using but by simp
    then have "in_sync (notify_pushed_to_empty x ?s)"
      by (rule notify_pushed_sync [OF wf']) (use un ne in simp)
    then show ?thesis using un by (auto simp: PushNonNestableTaskToFront_def Let_def)
  next
    case ch
    then have "GetFrontTaskEnqueueOrder (wq s x) \<noteq> None" using front_none by auto
    then obtain k where "expected s x = Some (work_queue_set_index (wq ?s x), k)"
      using expected_registered [OF ch(1)] by auto
    then have "in_sync (notify_front_changed x ?s)" using notify_front_sync [OF wf'] but ch by simp
    then show ?thesis using ch by (simp add: PushNonNestableTaskToFront_def Let_def)
  qed
qed

section \<open>Fences\<close>

lemma visible_front:
  assumes "\<not> dq_empty (tasks q)" "\<not> wq_BlockedByFence q"
  shows "GetFrontTaskEnqueueOrder q = Some (task_enqueue_order (the (dq_front (tasks q))))"
  using assms by (simp add: GetFrontTaskEnqueueOrder_def)

lemma expected_index:
  "expected s x = None \<or> (\<exists>k. expected s x = Some (work_queue_set_index (wq s x), k))"
  by (cases "GetFrontTaskEnqueueOrder (wq s x)") (auto simp: expected_def)

lemma wf_set_fence: "queues_ok s \<Longrightarrow> queues_ok (upd_wq x (\<lambda>q. q\<lparr>wq_fence := f\<rparr>) s)"
  by (auto simp: queues_ok_def)

lemma wq_InsertFence_sync:
  assumes wf: "queues_ok s" and s: "in_sync s"
  shows "in_sync (snd (wq_InsertFence x fence s))" "queues_ok (snd (wq_InsertFence x fence s))"
    "fst (wq_InsertFence x fence s) \<longleftrightarrow>
       expected s x = None \<and> expected (snd (wq_InsertFence x fence s)) x \<noteq> None"
proof -
  let ?s = "upd_wq x (\<lambda>q. q\<lparr>wq_fence := fence\<rparr>) s"
  have wf': "queues_ok ?s" by (rule wf_set_fence [OF wf])
  have but: "in_sync_but x (expected s x) ?s" by (rule in_sync_upd [OF s])
  have same: "tasks (wq ?s x) = tasks (wq s x)" "work_queue_sets (wq ?s x) = work_queue_sets (wq s x)"
    "work_queue_set_index (wq ?s x) = work_queue_set_index (wq s x)" by simp_all
  note eN = expected_None_iff [OF wf, of x] and eN' = expected_None_iff [OF wf', of x, unfolded same]
  let ?r = "wq_InsertFence x fence s"
  have u: "?r = (case work_queue_sets (wq s x) of None \<Rightarrow> (False, ?s)
         | Some w \<Rightarrow>
             if \<not> dq_empty (tasks (wq s x)) \<and> wq_BlockedByFence (wq s x) \<and> \<not> wq_BlockedByFence (wq ?s x)
             then (True, OnTaskPushedToEmptyQueue w x ?s)
             else if wq_BlockedByFence (wq ?s x) then (False, OnQueueBlocked w x ?s)
             else (False, ?s))"
    by (simp add: wq_InsertFence_def InsertFenceImpl_def split: option.split)
  have fr: "expected (snd ?r) = expected ?s" "queues_ok (snd ?r) = queues_ok ?s"
    unfolding u by (auto split: option.split simp: expected_frame sets_ops_frame wf_frame)
  then show "queues_ok (snd ?r)" using wf' by simp
  consider (none) "work_queue_sets (wq s x) = None"
    | (un) "work_queue_sets (wq s x) = Some (snd x)" "\<not> dq_empty (tasks (wq s x))"
        "wq_BlockedByFence (wq s x)" "\<not> wq_BlockedByFence (wq ?s x)"
    | (bl) "work_queue_sets (wq s x) = Some (snd x)" "wq_BlockedByFence (wq ?s x)"
    | (op) "work_queue_sets (wq s x) = Some (snd x)" "\<not> wq_BlockedByFence (wq ?s x)"
        "dq_empty (tasks (wq s x)) \<or> \<not> wq_BlockedByFence (wq s x)"
    using wfD(4) [OF wf, of x] by metis
  then have "in_sync (snd ?r) \<and> (fst ?r \<longleftrightarrow> expected s x = None \<and> expected ?s x \<noteq> None)"
  proof cases
    case none
    then show ?thesis
      using in_sync_same [OF but] u by (simp add: expected_unregistered)
  next
    case un
    obtain k where k: "expected ?s x = Some (work_queue_set_index (wq ?s x), k)"
      using expected_index [of ?s x] eN' un by auto
    have e: "expected s x = None" using eN un by simp
    have "in_sync (OnTaskPushedToEmptyQueue (snd x) x ?s)"
      by (rule OnTaskPushedToEmptyQueue_sync [OF _ k wfD(2) [OF wf']]) (use but e in simp)
    then show ?thesis using un u e k by simp
  next
    case bl
    have e: "expected ?s x = None" using eN' bl by simp
    have "in_sync (OnQueueBlocked (snd x) x ?s)"
      by (rule OnQueueBlocked_sync [OF but e]) (use expected_index [of s x] same in simp)
    then show ?thesis using bl u e by simp
  next
    case op
    have "GetFrontTaskEnqueueOrder (wq ?s x) = GetFrontTaskEnqueueOrder (wq s x)"
      using op by (auto simp: GetFrontTaskEnqueueOrder_def)
    then have e: "expected ?s x = expected s x" by (simp add: expected_def)
    then have "in_sync ?s" using in_sync_same [OF but] by simp
    then show ?thesis using op u e by auto
  qed
  then show "in_sync (snd ?r)" "fst ?r \<longleftrightarrow> expected s x = None \<and> expected (snd ?r) x \<noteq> None"
    unfolding fr by blast+
qed

lemma wq_RemoveFence_sync:
  assumes wf: "queues_ok s" and s: "in_sync s"
  shows "in_sync (snd (wq_RemoveFence x s))" "queues_ok (snd (wq_RemoveFence x s))"
    "fst (wq_RemoveFence x s) \<longleftrightarrow> expected s x = None \<and> expected (snd (wq_RemoveFence x s)) x \<noteq> None"
    "work_queue_sets (wq s x) \<noteq> None \<Longrightarrow> \<not> dq_empty (tasks (wq s x)) \<Longrightarrow>
       expected (snd (wq_RemoveFence x s)) x \<noteq> None"
proof -
  let ?s = "upd_wq x (\<lambda>q. q\<lparr>wq_fence := EnqueueOrder_none\<rparr>) s"
  have wf': "queues_ok ?s" by (rule wf_set_fence [OF wf])
  have but: "in_sync_but x (expected s x) ?s" by (rule in_sync_upd [OF s])
  have same: "tasks (wq ?s x) = tasks (wq s x)" "work_queue_sets (wq ?s x) = work_queue_sets (wq s x)"
    "work_queue_set_index (wq ?s x) = work_queue_set_index (wq s x)" by simp_all
  have nb: "\<not> wq_BlockedByFence (wq ?s x)" by (simp add: wq_BlockedByFence_def)
  note eN = expected_None_iff [OF wf, of x] and eN' = expected_None_iff [OF wf', of x, unfolded same]
  let ?r = "wq_RemoveFence x s"
  have u: "?r = (case work_queue_sets (wq s x) of None \<Rightarrow> (False, ?s)
         | Some w \<Rightarrow> if \<not> dq_empty (tasks (wq s x)) \<and> wq_BlockedByFence (wq s x)
                     then (True, OnTaskPushedToEmptyQueue w x ?s) else (False, ?s))"
    by (simp add: wq_RemoveFence_def Let_def split: option.split)
  have fr: "expected (snd ?r) = expected ?s" "queues_ok (snd ?r) = queues_ok ?s"
    unfolding u by (auto split: option.split simp: expected_frame sets_ops_frame wf_frame)
  then show "queues_ok (snd ?r)" using wf' by simp
  show "work_queue_sets (wq s x) \<noteq> None \<Longrightarrow> \<not> dq_empty (tasks (wq s x)) \<Longrightarrow> expected (snd ?r) x \<noteq> None"
    unfolding fr using eN' nb by simp
  consider (none) "work_queue_sets (wq s x) = None"
    | (un) "work_queue_sets (wq s x) = Some (snd x)" "\<not> dq_empty (tasks (wq s x))" "wq_BlockedByFence (wq s x)"
    | (op) "work_queue_sets (wq s x) = Some (snd x)" "dq_empty (tasks (wq s x)) \<or> \<not> wq_BlockedByFence (wq s x)"
    using wfD(4) [OF wf, of x] by metis
  then have "in_sync (snd ?r) \<and> (fst ?r \<longleftrightarrow> expected s x = None \<and> expected ?s x \<noteq> None)"
  proof cases
    case none
    then show ?thesis using in_sync_same [OF but] u by (simp add: expected_unregistered)
  next
    case un
    obtain k where k: "expected ?s x = Some (work_queue_set_index (wq ?s x), k)"
      using expected_index [of ?s x] eN' un nb by auto
    have e: "expected s x = None" using eN un by simp
    have "in_sync (OnTaskPushedToEmptyQueue (snd x) x ?s)"
      by (rule OnTaskPushedToEmptyQueue_sync [OF _ k wfD(2) [OF wf']]) (use but e in simp)
    then show ?thesis using un u e k by simp
  next
    case op
    have "GetFrontTaskEnqueueOrder (wq ?s x) = GetFrontTaskEnqueueOrder (wq s x)"
      using op nb by (auto simp: GetFrontTaskEnqueueOrder_def)
    then have e: "expected ?s x = expected s x" by (simp add: expected_def)
    then have "in_sync ?s" using in_sync_same [OF but] by simp
    then show ?thesis using op u e by auto
  qed
  then show "in_sync (snd ?r)" "fst ?r \<longleftrightarrow> expected s x = None \<and> expected (snd ?r) x \<noteq> None"
    unfolding fr by blast+
qed

section \<open>Reloading from the incoming queue\<close>

text \<open>What \<open>TakeImmediateIncomingQueueTasks\<close> changes: the tasks of the immediate work queue, and the
  fences of both work queues when a delayed fence becomes active.\<close>

definition same_sets :: "sched \<Rightarrow> sched \<Rightarrow> bool" where
  "same_sets s t \<longleftrightarrow> heap_handles t = heap_handles s \<and> work_queue_heaps t = work_queue_heaps s \<and>
     non_empty_set_counts t = non_empty_set_counts s \<and> active_priorities t = active_priorities s \<and>
     selection_count t = selection_count s"

lemma same_sets_but:
  assumes "same_sets s t" "\<And>y. y \<noteq> x \<Longrightarrow> expected t y = expected s y" "in_sync_but x r s"
  shows "in_sync_but x r t"
proof -
  have "sets_rep R t = sets_rep R s" for R
    using assms(1) by (simp only: same_sets_def sets_rep_def heaps_rep_def counts_rep_def)
  moreover have "(expected t)(x := r) = (expected s)(x := r)" using assms(2) by (auto simp: fun_eq_iff)
  ultimately show ?thesis using assms(3) by (simp add: in_sync_but_def)
qed

definition taken :: "nat \<Rightarrow> sched \<Rightarrow> sched" where
  "taken q s =
     upd_tq q (\<lambda>t. t\<lparr>immediate_incoming_queue := MaybeShrinkQueue (clock s 0) (tasks (wq s (q, kImmediate)))\<rparr>)
       (set_tasks (q, kImmediate) (immediate_incoming_queue (tq s q)) s)"

lemma tq_Take_unfold:
  assumes "dq_inv (immediate_incoming_queue (tq s q))"
  shows "tq_TakeImmediateIncomingQueueTasks q s =
    UpdateCrossThreadQueueStateLocked q
      (case delayed_fence (tq s q) of None \<Rightarrow> taken q s
       | Some fence \<Rightarrow>
           (case find (\<lambda>t. fence \<le> delayed_run_time t) (dq_list (immediate_incoming_queue (tq s q))) of
              None \<Rightarrow> taken q s
            | Some t \<Rightarrow> activate_delayed_fence q (task_enqueue_order t) (taken q s)))"
  by (simp add: tq_TakeImmediateIncomingQueueTasks_def dq_swap_def Let_def taken_def set_tasks_def
      dq_iterate_ok [OF assms] comp_def split: option.split)

lemma tq_Take_no_fence:
  assumes "dq_inv (immediate_incoming_queue (tq s q))" "delayed_fence (tq s q) = None"
  shows "tq_TakeImmediateIncomingQueueTasks q s = UpdateCrossThreadQueueStateLocked q (taken q s)"
  using tq_Take_unfold [OF assms(1)] assms(2) by simp

lemma tq_Take_sync:
  assumes wf: "queues_ok s" and nf: "delayed_fence (tq s q) = None"
  shows "in_sync_but (q, kImmediate) r s \<Longrightarrow> in_sync_but (q, kImmediate) r (tq_TakeImmediateIncomingQueueTasks q s)"
    "queues_ok (tq_TakeImmediateIncomingQueueTasks q s)"
    "tasks (wq (tq_TakeImmediateIncomingQueueTasks q s) (q, kImmediate)) = immediate_incoming_queue (tq s q)"
    "wq (tq_TakeImmediateIncomingQueueTasks q s) x =
      (if x = (q, kImmediate) then (wq s x)\<lparr>tasks := immediate_incoming_queue (tq s q)\<rparr> else wq s x)"
    "same_sets s (tq_TakeImmediateIncomingQueueTasks q s)"
    "clock (tq_TakeImmediateIncomingQueueTasks q s) = clock s"
    "delayed_fence (tq (tq_TakeImmediateIncomingQueueTasks q s) q) = None"
    "dq_list (immediate_incoming_queue (tq (tq_TakeImmediateIncomingQueueTasks q s) q))
       = dq_list (tasks (wq s (q, kImmediate)))"
proof -
  note w = wfD [OF wf]
  note u = tq_Take_no_fence [OF w(3) nf]
  let ?t = "tq_TakeImmediateIncomingQueueTasks q s"
  show x: "wq ?t x = (if x = (q, kImmediate) then (wq s x)\<lparr>tasks := immediate_incoming_queue (tq s q)\<rparr> else wq s x)" for x
    by (simp add: u UpdateCrossThreadQueueStateLocked_def taken_def)
  then show "tasks (wq ?t (q, kImmediate)) = immediate_incoming_queue (tq s q)" by simp
  show ss: "same_sets s ?t"
    by (simp add: same_sets_def u UpdateCrossThreadQueueStateLocked_def taken_def set_tasks_def)
  show "clock ?t = clock s" by (simp add: u UpdateCrossThreadQueueStateLocked_def taken_def)
  show "delayed_fence (tq ?t q) = None" by (simp add: u UpdateCrossThreadQueueStateLocked_def taken_def nf)
  show "dq_list (immediate_incoming_queue (tq ?t q)) = dq_list (tasks (wq s (q, kImmediate)))"
    by (simp add: u UpdateCrossThreadQueueStateLocked_def taken_def MaybeShrinkQueue_ok(2) w(1))
  have "dq_inv (immediate_incoming_queue (tq ?t q'))" for q'
    using w(1,3) by (simp add: u UpdateCrossThreadQueueStateLocked_def taken_def MaybeShrinkQueue_ok(1))
  moreover have "dq_inv (tasks (wq ?t y)) \<and> work_queue_sets (wq ?t y) \<in> {None, Some (snd y)} \<and>
      work_queue_set_index (wq ?t y) < kQueuePriorityCount" for y
    using w(1) [of y] w(2) [of y] w(4) [of y] w(3) [of q] unfolding x by auto
  ultimately show "queues_ok ?t" unfolding queues_ok_def by blast
  show "in_sync_but (q, kImmediate) r ?t" if "in_sync_but (q, kImmediate) r s"
    by (rule same_sets_but [OF ss _ that]) (simp add: expected_def x)
qed

lemma refill_sync:
  assumes wf: "queues_ok s" and nf: "delayed_fence (tq s (fst x)) = None" and e: "dq_list (tasks (wq s x)) = []"
  shows "in_sync_but x r s \<Longrightarrow> in_sync_but x r (refill x s)" "queues_ok (refill x s)"
    "dq_list (tasks (wq (refill x s) x)) =
       (if snd x = kImmediate then dq_list (immediate_incoming_queue (tq s (fst x))) else [])"
    "same_sets s (refill x s)" "wq_fence (wq (refill x s) x) = wq_fence (wq s x)"
    "work_queue_sets (wq (refill x s) x) = work_queue_sets (wq s x)"
    "work_queue_set_index (wq (refill x s) x) = work_queue_set_index (wq s x)"
proof -
  let ?t = "if snd x = kImmediate then tq_TakeImmediateIncomingQueueTasks (fst x) s else s"
  have r: "refill x s = set_tasks x (MaybeShrinkQueue (clock ?t 0) (tasks (wq ?t x))) ?t"
    by (simp add: refill_def Let_def)
  note tk = tq_Take_sync [OF wf nf]
  have x: "x = (fst x, kImmediate)" if "snd x = kImmediate" using that by (cases x) simp
  have wt: "queues_ok ?t" using wf tk(2) by simp
  note sh = dq.shrink_spec [OF wfD(1) [OF wt, of x], of "clock ?t 0"]
  show "queues_ok (refill x s)" unfolding r by (rule wf_set_tasks [OF wt]) (use sh in blast)
  show "in_sync_but x r (refill x s)" if "in_sync_but x r s" for r
    unfolding r by (rule in_sync_set_tasks(2)) (use tk(1) [of r] that x in auto)
  have "dq_list (tasks (wq ?t x)) = (if snd x = kImmediate then dq_list (immediate_incoming_queue (tq s (fst x))) else [])"
    using e tk(4) [of x] x by auto
  then show "dq_list (tasks (wq (refill x s) x)) =
       (if snd x = kImmediate then dq_list (immediate_incoming_queue (tq s (fst x))) else [])"
    unfolding r using sh by simp
  show "same_sets s (refill x s)" unfolding r using tk(5) by (auto simp: same_sets_def set_tasks_def)
  show "wq_fence (wq (refill x s) x) = wq_fence (wq s x)"
    "work_queue_sets (wq (refill x s) x) = work_queue_sets (wq s x)"
    "work_queue_set_index (wq (refill x s) x) = work_queue_set_index (wq s x)"
    unfolding r using tk(4) [of x] by auto
qed

section \<open>Taking a task\<close>

text \<open>The tasks a work queue holds followed by those it will reload, oldest first.\<close>

definition queue_tasks :: "wq_id \<Rightarrow> sched \<Rightarrow> Task list" where
  "queue_tasks x s = dq_list (tasks (wq s x)) @
     (if snd x = kImmediate then dq_list (immediate_incoming_queue (tq s (fst x))) else [])"

lemma front_of_list: "queues_ok s \<Longrightarrow> dq_list (tasks (wq s x)) = t # ts \<Longrightarrow> dq_front (tasks (wq s x)) = Some t"
  using dq_front_ok [OF wfD(1)] by (metis list.distinct(1) list.sel(1))

lemma TakeTask_state:
  assumes wf: "queues_ok s" and l: "dq_list (tasks (wq s x)) = t # ts"
    and nf: "delayed_fence (tq s (fst x)) = None"
    and u: "u = (let v = set_tasks x (dq_pop_front (tasks (wq s x))) s
                 in if dq_empty (tasks (wq v x)) then refill x v else v)"
  shows "queues_ok u" "in_sync s \<Longrightarrow> in_sync_but x (expected s x) u" "same_sets s u"
    "dq_list (tasks (wq u x)) =
       (if ts \<noteq> [] then ts else if snd x = kImmediate then dq_list (immediate_incoming_queue (tq s (fst x))) else [])"
    "wq_fence (wq u x) = wq_fence (wq s x)" "work_queue_sets (wq u x) = work_queue_sets (wq s x)"
    "work_queue_set_index (wq u x) = work_queue_set_index (wq s x)"
proof -
  let ?d = "dq_pop_front (tasks (wq s x))" and ?v = "set_tasks x (dq_pop_front (tasks (wq s x))) s"
  have d: "dq_inv ?d" "dq_list ?d = ts" using dq.pop_front_spec [OF wfD(1) [OF wf, of x]] l by auto
  have wv: "queues_ok ?v" by (rule wf_set_tasks [OF wf d(1)])
  have em: "dq_empty (tasks (wq ?v x)) \<longleftrightarrow> ts = []" using d by (simp add: dq_empty_iff)
  have uu: "u = (if ts = [] then refill x ?v else ?v)" unfolding u Let_def em ..
  have nv: "delayed_fence (tq ?v (fst x)) = None" using nf by simp
  have ev: "dq_list (tasks (wq ?v x)) = []" if "ts = []" using that d by simp
  note rf = refill_sync [OF wv nv ev]
  show "queues_ok u" unfolding uu using wv rf(2) by simp
  show "in_sync_but x (expected s x) u" if "in_sync s"
    unfolding uu using in_sync_set_tasks(1) [OF that, of x ?d] rf(1) by simp
  have sv: "same_sets s ?v" by (simp add: same_sets_def set_tasks_def)
  then show "same_sets s u" unfolding uu using rf(4) by (auto simp: same_sets_def)
  show "dq_list (tasks (wq u x)) =
       (if ts \<noteq> [] then ts else if snd x = kImmediate then dq_list (immediate_incoming_queue (tq s (fst x))) else [])"
    unfolding uu using d rf(3) by simp
  show "wq_fence (wq u x) = wq_fence (wq s x)" "work_queue_sets (wq u x) = work_queue_sets (wq s x)"
    "work_queue_set_index (wq u x) = work_queue_set_index (wq s x)"
    unfolding uu using rf(5-7) by simp_all
qed

lemma TakeTask_unfold:
  "TakeTaskFromWorkQueue dcheck x s =
    (let u = (let v = set_tasks x (dq_pop_front (tasks (wq s x))) s
              in if dq_empty (tasks (wq v x)) then refill x v else v)
     in (dq_front (tasks (wq s x)),
         case work_queue_sets (wq u x) of None \<Rightarrow> u
         | Some w \<Rightarrow> if dcheck then OnQueuesFrontTaskChanged w x u else OnPopMinQueueInSet w x u))"
  by (simp only: TakeTaskFromWorkQueue_def Let_def)

text \<open>Both builds take the front task, reload an emptied immediate queue, and leave the sets in step:
  the release build's shortcut through the minimum needs the queue to be the oldest of its set, which
  is what the selector returned.\<close>

lemma TakeTaskFromWorkQueue_spec:
  assumes wf: "queues_ok s" and s: "in_sync s" and e: "expected s x = Some (p, k)"
    and nf: "delayed_fence (tq s (fst x)) = None"
    and m: "dcheck \<or> GetOldestQueueInSet (snd x) p s = Some x"
    and r: "TakeTaskFromWorkQueue dcheck x s = (t, u)"
  shows "in_sync u" "queues_ok u" "\<exists>t'. t = Some t' \<and> task_enqueue_order t' = k \<and> queue_tasks x s = t' # tl (queue_tasks x s)"
    "dq_list (tasks (wq u x)) = (if tl (dq_list (tasks (wq s x))) \<noteq> [] then tl (dq_list (tasks (wq s x)))
       else if snd x = kImmediate then dq_list (immediate_incoming_queue (tq s (fst x))) else [])"
proof -
  have reg: "work_queue_sets (wq s x) = Some (snd x)"
    and fr: "GetFrontTaskEnqueueOrder (wq s x) = Some k" and p: "work_queue_set_index (wq s x) = p"
    using e by (auto simp: expected_def split: if_splits)
  have "\<not> dq_empty (tasks (wq s x))" using fr by (auto simp: GetFrontTaskEnqueueOrder_def split: if_splits)
  then obtain h ts where l: "dq_list (tasks (wq s x)) = h # ts"
    using dq_empty_iff [OF wfD(1) [OF wf, of x]] by (cases "dq_list (tasks (wq s x))") auto
  have k: "task_enqueue_order h = k"
    using fr GetFrontTaskEnqueueOrder_list [OF wfD(1) [OF wf, of x]] l by (auto split: if_splits)
  define v where "v = (let v = set_tasks x (dq_pop_front (tasks (wq s x))) s
                 in if dq_empty (tasks (wq v x)) then refill x v else v)"
  note st = TakeTask_state [OF wf l nf v_def]
  have eq: "TakeTaskFromWorkQueue dcheck x s = (dq_front (tasks (wq s x)),
      case work_queue_sets (wq v x) of None \<Rightarrow> v
      | Some w \<Rightarrow> if dcheck then OnQueuesFrontTaskChanged w x v else OnPopMinQueueInSet w x v)"
    by (simp only: TakeTask_unfold v_def Let_def)
  have wv: "work_queue_sets (wq v x) = Some (snd x)" using st(6) reg by simp
  have ut: "t = Some h" "u = (if dcheck then OnQueuesFrontTaskChanged (snd x) x v else OnPopMinQueueInSet (snd x) x v)"
    using r front_of_list [OF wf l] unfolding eq wv by auto
  have fru: "sets_frame v u" using ut sets_ops_frame by auto
  show "queues_ok u" using wf_frame [OF fru] st(1) by simp
  have "in_sync_but x (Some (p, k)) v" using st(2) [OF s] e by simp
  moreover have "work_queue_set_index (wq v x) = p" "work_queue_sets (wq v x) = Some (snd x)" using st p reg by auto
  moreover have "GetOldestQueueInSet (snd x) p v = GetOldestQueueInSet (snd x) p s"
    using st(3) by (simp add: GetOldestQueueInSet_def same_sets_def)
  ultimately show "in_sync u"
    using OnQueuesFrontTaskChanged_sync [of x p k v] OnPopMinQueueInSet_sync [of x p k v] m ut(2) by auto
  show "\<exists>t'. t = Some t' \<and> task_enqueue_order t' = k \<and> queue_tasks x s = t' # tl (queue_tasks x s)"
    using ut(1) k l by (simp add: queue_tasks_def)
  show "dq_list (tasks (wq u x)) = (if tl (dq_list (tasks (wq s x))) \<noteq> [] then tl (dq_list (tasks (wq s x)))
       else if snd x = kImmediate then dq_list (immediate_incoming_queue (tq s (fst x))) else [])"
    using st(4) l sets_frame_reads(1) [OF fru] by simp
qed

section \<open>Dropping cancelled tasks\<close>

lemma pop_dead_spec:
  assumes "dq_inv d"
  shows "dq_inv (snd (pop_dead P d)) \<and> dq_list (snd (pop_dead P d)) = dropWhile P (dq_list d) \<and>
    (fst (pop_dead P d) \<longleftrightarrow> dq_list d \<noteq> [] \<and> P (hd (dq_list d)))"
  using assms
proof (induction P d rule: pop_dead.induct)
  case (1 P d)
  show ?case
  proof (cases "dq_list d")
    case Nil
    then have "pop_dead P d = (False, d)" using 1(2) by (subst pop_dead.simps) (simp add: dq_empty_iff)
    then show ?thesis using 1(2) Nil by simp
  next
    case (Cons t ts)
    have f: "dq_front d = Some t" using dq_front_ok [OF 1(2)] Cons by simp
    then have rg: "rings d \<noteq> []" by (auto simp: dq_front_def)
    show ?thesis
    proof (cases "P t")
      case True
      have c: "\<not> dq_empty d \<and> rings d \<noteq> [] \<and> P (the (dq_front d))"
        using 1(2) Cons rg f True by (simp add: dq_empty_iff)
      then have "pop_dead P d = (True, snd (pop_dead P (dq_pop_front d)))"
        by (subst pop_dead.simps) simp
      moreover have "dq_inv (dq_pop_front d)" "dq_list (dq_pop_front d) = ts"
        using dq.pop_front_spec [OF 1(2)] Cons by auto
      ultimately show ?thesis using 1(1) [OF c] Cons True by simp
    next
      case False
      then have "pop_dead P d = (False, d)" using f by (subst pop_dead.simps) simp
      then show ?thesis using 1(2) Cons False by simp
    qed
  qed
qed

definition orders_increase :: "wq_id \<Rightarrow> sched \<Rightarrow> bool" where
  "orders_increase x s \<longleftrightarrow> sorted_wrt (<) (map task_enqueue_order (queue_tasks x s))"

lemma blocked_stays:
  assumes "sorted_wrt (<) (map task_enqueue_order (t # us))" "f \<le> task_enqueue_order t" "v \<in> set us"
  shows "f \<le> task_enqueue_order v"
  using assms by (force intro: order.trans less_imp_le)

lemma RemoveAllCanceledTasksFromFront_spec:
  assumes wf: "queues_ok s" and s: "in_sync s" and nf: "delayed_fence (tq s (fst x)) = None"
    and ord: "orders_increase x s" and r: "RemoveAllCanceledTasksFromFront x s = (b, u)"
  shows "in_sync u" "queues_ok u"
    "b \<longleftrightarrow> work_queue_sets (wq s x) \<noteq> None \<and> dq_list (tasks (wq s x)) \<noteq> [] \<and>
       task_is_dead s (hd (dq_list (tasks (wq s x))))"
proof -
  let ?l = "dq_list (tasks (wq s x))" and ?P = "task_is_dead s"
  let ?d = "snd (pop_dead ?P (tasks (wq s x)))"
  note pd = pop_dead_spec [OF wfD(1) [OF wf, of x], of ?P]
  let ?v = "set_tasks x ?d s"
  have wv: "queues_ok ?v" by (rule wf_set_tasks [OF wf]) (use pd in blast)
  have lv: "dq_list (tasks (wq ?v x)) = dropWhile ?P ?l" using pd by simp
  have em: "dq_empty ?d \<longleftrightarrow> dropWhile ?P ?l = []" using pd by (simp add: dq_empty_iff)
  let ?w = "if dq_empty (tasks (wq ?v x)) then refill x ?v else ?v"
  have nv: "delayed_fence (tq ?v (fst x)) = None" using nf by simp
  have ev: "dq_list (tasks (wq ?v x)) = []" if "dq_empty (tasks (wq ?v x))" using that lv em by simp
  note rf = refill_sync [OF wv nv ev]
  have w: "queues_ok ?w" "wq_fence (wq ?w x) = wq_fence (wq s x)" "work_queue_sets (wq ?w x) = work_queue_sets (wq s x)"
    "work_queue_set_index (wq ?w x) = work_queue_set_index (wq s x)"
    using wv rf(2,5,6,7) by auto
  have bw: "in_sync_but x (expected s x) ?w" using in_sync_set_tasks(1) [OF s, of x ?d] rf(1) by auto
  have lw: "set (dq_list (tasks (wq ?w x))) \<subseteq> set (queue_tasks x s)"
    using rf(3) lv set_dropWhileD [of _ ?P ?l] by (auto simp: queue_tasks_def)
  have ru: "(b, u) = (if work_queue_sets (wq s x) = None then (False, s)
      else if fst (pop_dead ?P (tasks (wq s x))) then (True, if heap_handle_valid x ?w then notify_front_changed x ?w else ?w)
      else (False, ?v))"
    unfolding r [symmetric] RemoveAllCanceledTasksFromFront_def Let_def split_beta by simp
  consider (none) "work_queue_sets (wq s x) = None"
    | (keep) "work_queue_sets (wq s x) = Some (snd x)" "\<not> fst (pop_dead ?P (tasks (wq s x)))"
    | (drop) "work_queue_sets (wq s x) = Some (snd x)" "fst (pop_dead ?P (tasks (wq s x)))"
    using wfD(4) [OF wf, of x] by metis
  then have "in_sync u \<and> queues_ok u \<and> (b \<longleftrightarrow> work_queue_sets (wq s x) \<noteq> None \<and> ?l \<noteq> [] \<and> ?P (hd ?l))"
  proof cases
    case none
    then show ?thesis using ru s wf by simp
  next
    case keep
    then have "dropWhile ?P ?l = ?l" using pd by (cases ?l) auto
    then have "GetFrontTaskEnqueueOrder ((wq s x)\<lparr>tasks := ?d\<rparr>) = GetFrontTaskEnqueueOrder (wq s x)"
      using pd wfD(1) [OF wf, of x] by (simp add: GetFrontTaskEnqueueOrder_list split: list.split)
    from same_front_sync [OF s this] show ?thesis using ru keep wv pd by simp
  next
    case drop
    then have b: "b" "u = (if heap_handle_valid x ?w then notify_front_changed x ?w else ?w)" using ru by auto
    have hv: "heap_handle_valid x ?w \<longleftrightarrow> expected s x \<noteq> None"
      using handle_valid_iff [OF bw [unfolded in_sync_but_def], of x] by simp
    have "in_sync u"
    proof (cases "expected s x = None")
      case False
      then obtain k where "expected s x = Some (work_queue_set_index (wq ?w x), k)"
        using expected_index [of s x] w(4) by auto
      then show ?thesis using notify_front_sync [OF w(1), of x k] bw w(3) drop hv b by simp
    next
      case True
      obtain t ts where l: "?l = t # ts" using drop pd by (cases ?l) auto
      have "wq_BlockedByFence (wq s x)"
        using True expected_None_iff [OF wf, of x] drop l wfD(1) [OF wf, of x] by (simp add: dq_empty_iff)
      then have f: "wq_fence (wq s x) \<noteq> 0" "wq_fence (wq s x) \<le> task_enqueue_order t"
        using l wfD(1) [OF wf, of x] by (simp_all add: wq_BlockedByFence_list)
      obtain us where us: "queue_tasks x s = t # us" using l by (simp add: queue_tasks_def)
      have "wq_fence (wq s x) \<le> task_enqueue_order v" if "v \<in> set (queue_tasks x s)" for v
        using that f(2) blocked_stays [of t us "wq_fence (wq s x)" v] ord us
        by (auto simp: orders_increase_def)
      then have "wq_BlockedByFence (wq ?w x)"
        using f(1) lw w(2) wfD(1) [OF w(1), of x] by (auto simp: wq_BlockedByFence_list split: list.split)
      then have "expected ?w x = expected s x" using True expected_None_iff [OF w(1), of x] by simp
      then show ?thesis using in_sync_same [OF bw] hv True b by simp
    qed
    then show ?thesis using b w(1) drop pd by (simp add: notify_wf)
  qed
  then show "in_sync u" "queues_ok u" "b \<longleftrightarrow> work_queue_sets (wq s x) \<noteq> None \<and> ?l \<noteq> [] \<and> ?P (hd ?l)" by blast+
qed

lemma wq_DeletePendingTasks_spec:
  assumes wf: "queues_ok s" and s: "in_sync s"
  shows "in_sync (wq_DeletePendingTasks x s)" "queues_ok (wq_DeletePendingTasks x s)"
    "dq_list (tasks (wq (wq_DeletePendingTasks x s) x)) = []" "\<not> heap_handle_valid x (wq_DeletePendingTasks x s)"
proof -
  let ?d = "dq_clear (tasks (wq s x))" and ?u = "wq_DeletePendingTasks x s"
  let ?v = "set_tasks x ?d s"
  have d: "dq_inv ?d" "dq_list ?d = []" using dq.clear_spec [OF wfD(1) [OF wf]] by auto
  have wv: "queues_ok ?v" by (rule wf_set_tasks [OF wf d(1)])
  have bw: "in_sync_but x (expected s x) ?v" by (rule in_sync_set_tasks(1) [OF s])
  have hv: "heap_handle_valid x ?v \<longleftrightarrow> expected s x \<noteq> None"
    using handle_valid_iff [OF bw [unfolded in_sync_but_def], of x] by simp
  have en: "expected ?v x = None" using expected_None_iff [OF wv, of x] d by (simp add: dq_empty_iff)
  have wq: "work_queues ?u = work_queues ?v"
    unfolding wq_DeletePendingTasks_def Let_def by (simp add: notify_work_queues)
  then show "dq_list (tasks (wq ?u x)) = []" using d by simp
  show "queues_ok ?u" unfolding wq_DeletePendingTasks_def Let_def using wv by (simp add: notify_wf)
  show sy: "in_sync ?u"
  proof (cases "work_queue_sets (wq s x) \<noteq> None \<and> heap_handle_valid x ?v")
    case True
    then have "expected s x \<noteq> None" "work_queue_sets (wq s x) = Some (snd x)" using hv wfD(4) [OF wf, of x] by auto
    moreover from this obtain k where "expected s x = Some (work_queue_set_index (wq ?v x), k)"
      using expected_index [of s x] by auto
    ultimately have "in_sync (notify_front_changed x ?v)" using notify_front_sync [OF wv, of x k] bw by simp
    then show ?thesis using True by (simp add: wq_DeletePendingTasks_def Let_def)
  next
    case False
    then have "expected s x = None" using hv expected_unregistered by blast
    then have "in_sync ?v" using in_sync_same [OF bw] en by simp
    then show ?thesis using False by (auto simp: wq_DeletePendingTasks_def Let_def)
  qed
  have "expected ?u x = expected ?v x" unfolding expected_def wq ..
  then have "expected ?u x = None" using en by simp
  then show "\<not> heap_handle_valid x ?u" using handle_valid_iff [OF sy [unfolded in_sync_def], of x] by simp
qed

lemma wq_MaybeShrinkQueue_sync:
  assumes wf: "queues_ok s" and s: "in_sync s"
  shows "in_sync (wq_MaybeShrinkQueue x s)" "queues_ok (wq_MaybeShrinkQueue x s)"
proof -
  note sh = dq.shrink_spec [OF wfD(1) [OF wf, of x], of "clock s 0"]
  show "queues_ok (wq_MaybeShrinkQueue x s)"
    unfolding wq_MaybeShrinkQueue_def by (rule wf_set_tasks [OF wf]) (use sh in blast)
  show "in_sync (wq_MaybeShrinkQueue x s)"
    unfolding wq_MaybeShrinkQueue_def
    by (rule same_front_sync [OF s]) (use sh wfD(1) [OF wf, of x] in \<open>simp add: GetFrontTaskEnqueueOrder_list split: list.split\<close>)
qed

lemma wq_TakeImmediate_sync:
  assumes wf: "queues_ok s" and s: "in_sync s" and nf: "delayed_fence (tq s q) = None"
    and e: "dq_empty (tasks (wq s (q, kImmediate)))"
  shows "in_sync (wq_TakeImmediateIncomingQueueTasks q s)" "queues_ok (wq_TakeImmediateIncomingQueueTasks q s)"
    "dq_list (tasks (wq (wq_TakeImmediateIncomingQueueTasks q s) (q, kImmediate)))
       = dq_list (immediate_incoming_queue (tq s q))"
proof -
  note tk = tq_Take_sync [OF wf nf]
  let ?t = "tq_TakeImmediateIncomingQueueTasks q s" and ?x = "(q, kImmediate)"
  have "expected s ?x = None" using expected_None_iff [OF wf] e by blast
  then have "in_sync_but ?x None s" using s in_sync_but_self [of ?x s] by simp
  from maybe_notify_pushed_sync [OF tk(2) tk(1) [OF this]]
  show "in_sync (wq_TakeImmediateIncomingQueueTasks q s)"
    by (auto simp: wq_TakeImmediateIncomingQueueTasks_def Let_def split: if_splits)
  show "queues_ok (wq_TakeImmediateIncomingQueueTasks q s)"
    using tk(2) by (simp add: wq_TakeImmediateIncomingQueueTasks_def Let_def notify_wf)
  show "dq_list (tasks (wq (wq_TakeImmediateIncomingQueueTasks q s) (q, kImmediate)))
       = dq_list (immediate_incoming_queue (tq s q))"
    using tk(3) by (simp add: wq_TakeImmediateIncomingQueueTasks_def Let_def notify_work_queues)
qed

end
