(* ===== verification/Time_Domain.thy ===== *)
theory Time_Domain
  imports Work_Queue
begin

text \<open>
  The model of \<open>time_domain.h\<close>, \<open>time_domain.cc\<close> and \<open>real_time_domain.cc\<close>, except the loop
  \<open>MoveReadyDelayedTasksToWorkQueues\<close>, which calls back into the task queues and is in the theory
  of those. A time domain keeps one wake-up per task queue in an intrusive heap and asks the manager
  for a delayed \<open>DoWork\<close> whenever the earliest one changes. \<open>lazy_now->Now()\<close> is an argument.
\<close>

section \<open>Scheduled wake-ups\<close>

definition resolution_int :: "wake_up_resolution \<Rightarrow> int" where
  "resolution_int r = (case r of kLow \<Rightarrow> 0 | kHigh \<Rightarrow> 1)"

definition ScheduledDelayedWakeUp_le ::
  "scheduled_delayed_wake_up \<Rightarrow> scheduled_delayed_wake_up \<Rightarrow> bool" where
  "ScheduledDelayedWakeUp_le a b =
     (if DelayedWakeUp_eq (sw_wake_up a) (sw_wake_up b)
      then resolution_int (sw_resolution a) \<le> resolution_int (sw_resolution b)
      else DelayedWakeUp_le (sw_wake_up a) (sw_wake_up b))"

definition wake_up_dflt :: scheduled_delayed_wake_up where
  "wake_up_dflt = \<lparr>sw_wake_up = \<lparr>wu_time = 0, wu_sequence_num = 0\<rparr>, sw_resolution = kLow, sw_queue = 0\<rparr>"

abbreviation wheap :: "sched \<Rightarrow> nat \<Rightarrow> scheduled_delayed_wake_up intrusive_heap" where
  "wheap s d \<equiv> delayed_wake_up_queue (time_domains s d)"

definition upd_td :: "nat \<Rightarrow> (time_domain \<Rightarrow> time_domain) \<Rightarrow> sched \<Rightarrow> sched" where
  "upd_td d f s = s\<lparr>time_domains := (time_domains s)(d := f (time_domains s d))\<rparr>"

definition on_wake_heap ::
  "nat \<Rightarrow> ((scheduled_delayed_wake_up, nat) heap_state \<Rightarrow> (scheduled_delayed_wake_up, nat) heap_state) \<Rightarrow>
   sched \<Rightarrow> sched" where
  "on_wake_heap d f s =
     (let (h, hs) = f (wheap s d, wake_up_handles s)
      in (upd_td d (\<lambda>t. t\<lparr>delayed_wake_up_queue := h\<rparr>) s)\<lparr>wake_up_handles := hs\<rparr>)"

section \<open>Operations\<close>

definition TimeDomain_new :: time_domain where
  "TimeDomain_new = \<lparr>delayed_wake_up_queue = IntrusiveHeap_init wake_up_dflt,
     pending_high_res_wake_up_count = 0\<rparr>"

definition td_Empty :: "nat \<Rightarrow> sched \<Rightarrow> bool" where
  "td_Empty d s = heap_empty (wheap s d)"

definition HasPendingHighResolutionTasks :: "nat \<Rightarrow> sched \<Rightarrow> bool" where
  "HasPendingHighResolutionTasks d s = (pending_high_res_wake_up_count (time_domains s d) \<noteq> 0)"

definition NextScheduledRunTime :: "nat \<Rightarrow> sched \<Rightarrow> int option" where
  "NextScheduledRunTime d s =
     (if heap_empty (wheap s d) then None else Some (wu_time (sw_wake_up (heap_Min (wheap s d)))))"

definition td_SetNextDelayedDoWork :: "int \<Rightarrow> sched \<Rightarrow> sched" where
  "td_SetNextDelayedDoWork run_time s = SetNextDelayedDoWork run_time s"

definition RequestDoWork :: "sched \<Rightarrow> sched" where
  "RequestDoWork s = ScheduleWork s"

definition wake_handle_valid :: "nat \<Rightarrow> sched \<Rightarrow> bool" where
  "wake_handle_valid q s = HeapHandle_IsValid (wake_up_handles s q)"

text \<open>The part of \<open>SetNextWakeUpForQueue\<close> that changes the heap.\<close>

definition update_wake_heap ::
  "nat \<Rightarrow> nat \<Rightarrow> delayed_wake_up option \<Rightarrow> wake_up_resolution \<Rightarrow> sched \<Rightarrow> sched" where
  "update_wake_heap d q wake_up resolution s =
     (case wake_up of
        Some w \<Rightarrow>
          let e = \<lparr>sw_wake_up = w, sw_resolution = resolution, sw_queue = q\<rparr>
          in if wake_handle_valid q s
             then on_wake_heap d (heap_ChangeKey ScheduledDelayedWakeUp_le sw_queue (wake_up_handles s q) e) s
             else on_wake_heap d (heap_insert wake_up_dflt ScheduledDelayedWakeUp_le sw_queue e) s
      | None \<Rightarrow>
          if wake_handle_valid q s
          then on_wake_heap d (heap_erase ScheduledDelayedWakeUp_le sw_queue (wake_up_handles s q)) s
          else s)"

definition SetNextWakeUpForQueue ::
  "nat \<Rightarrow> nat \<Rightarrow> delayed_wake_up option \<Rightarrow> wake_up_resolution \<Rightarrow> int \<Rightarrow> sched \<Rightarrow> sched" where
  "SetNextWakeUpForQueue d q wake_up resolution now s =
     (let previous_wake_up = NextScheduledRunTime d s;
          previous_queue_resolution =
            (if wake_handle_valid q s
             then Some (sw_resolution (heap_at (wheap s d) (wake_up_handles s q))) else None);
          s = update_wake_heap d q wake_up resolution s;
          new_wake_up = NextScheduledRunTime d s;
          s = (if previous_queue_resolution = Some kHigh
               then upd_td d (\<lambda>t. t\<lparr>pending_high_res_wake_up_count := pending_high_res_wake_up_count t - 1\<rparr>) s
               else s);
          s = (if wake_up \<noteq> None \<and> resolution = kHigh
               then upd_td d (\<lambda>t. t\<lparr>pending_high_res_wake_up_count := pending_high_res_wake_up_count t + 1\<rparr>) s
               else s)
      in if new_wake_up = previous_wake_up then s
         else let t = (case new_wake_up of None \<Rightarrow> int64_max | Some t \<Rightarrow> t)
              in if t \<le> now then RequestDoWork s else td_SetNextDelayedDoWork t s)"

definition UnregisterQueue :: "nat \<Rightarrow> nat \<Rightarrow> sched \<Rightarrow> sched" where
  "UnregisterQueue d q s = SetNextWakeUpForQueue d q None kLow (clock s d) s"

text \<open>\<open>RealTimeDomain\<close>: its clock is the manager's tick clock, domain 0.\<close>

definition rtd_Now :: "sched \<Rightarrow> int" where
  "rtd_Now s = clock s 0"

definition rtd_DelayTillNextTask :: "int \<Rightarrow> sched \<Rightarrow> int option" where
  "rtd_DelayTillNextTask now s =
     (case NextScheduledRunTime 0 s of None \<Rightarrow> None
      | Some next_run_time \<Rightarrow> if next_run_time \<le> now then Some 0 else Some (next_run_time - now))"

definition rtd_MaybeFastForwardToNextTask :: "bool \<Rightarrow> bool" where
  "rtd_MaybeFastForwardToNextTask quit_when_idle_requested = False"

section \<open>The order of wake-ups\<close>

text \<open>The order is total on the wake-ups of tasks numbered within one window of \<open>2\<^sup>3\<^sup>1\<close> sequence
  numbers, which is where the wrapping comparison means something.\<close>

definition wake_window :: "enqueue_order \<Rightarrow> delayed_wake_up set" where
  "wake_window base = {w. \<exists>n. in_window base n \<and> wu_sequence_num w = ucast n}"

definition entry_window :: "enqueue_order \<Rightarrow> scheduled_delayed_wake_up set" where
  "entry_window base = {e. sw_wake_up e \<in> wake_window base}"

lemma wake_windowE:
  assumes "w \<in> wake_window base"
  obtains t n where "in_window base n" "w = wake_up_at t n"
  using assms by (cases w) (auto simp: wake_window_def wake_up_at_def)

lemma wake_up_at_inject:
  assumes "in_window base m" "in_window base n" "wake_up_at s m = wake_up_at t n"
  shows "s = t" "m = n"
proof -
  show "s = t" using assms(3) by (simp add: wake_up_at_def)
  have "DelayedWakeUp_le (wake_up_at s m) (wake_up_at t n)" "DelayedWakeUp_le (wake_up_at t n) (wake_up_at s m)"
    using assms(3) by (simp_all add: DelayedWakeUp_le_def wake_up_at_def)
  then show "m = n"
    using wake_up_le_window [OF assms(1,2), of s t] wake_up_le_window [OF assms(2,1), of t s] by auto
qed

lemma entry_le_window:
  assumes "in_window base m" "in_window base n"
    and "sw_wake_up x = wake_up_at s m" "sw_wake_up y = wake_up_at t n"
  shows "ScheduledDelayedWakeUp_le x y \<longleftrightarrow>
    s < t \<or> s = t \<and> (m < n \<or> m = n \<and> resolution_int (sw_resolution x) \<le> resolution_int (sw_resolution y))"
proof (cases "s = t \<and> m = n")
  case True
  then show ?thesis using assms(3,4) by (simp add: ScheduledDelayedWakeUp_le_def DelayedWakeUp_eq_iff)
next
  case False
  then have "wake_up_at s m \<noteq> wake_up_at t n" using wake_up_at_inject [OF assms(1,2)] by blast
  then have "ScheduledDelayedWakeUp_le x y \<longleftrightarrow> DelayedWakeUp_le (wake_up_at s m) (wake_up_at t n)"
    by (simp add: ScheduledDelayedWakeUp_le_def DelayedWakeUp_eq_iff assms(3,4))
  then show ?thesis using wake_up_le_window [OF assms(1,2), of s t] False by auto
qed

interpretation wakes: heap_order ScheduledDelayedWakeUp_le "entry_window base" sw_queue for base
proof
  fix x y z
  assume x: "x \<in> entry_window base" and y: "y \<in> entry_window base"
  from x obtain s m where m: "in_window base m" "sw_wake_up x = wake_up_at s m"
    unfolding entry_window_def by (auto elim: wake_windowE)
  from y obtain t n where n: "in_window base n" "sw_wake_up y = wake_up_at t n"
    unfolding entry_window_def by (auto elim: wake_windowE)
  note xy = entry_le_window [OF m(1) n(1) m(2) n(2)]
  show "ScheduledDelayedWakeUp_le x y \<or> ScheduledDelayedWakeUp_le y x"
    unfolding xy entry_le_window [OF n(1) m(1) n(2) m(2)] by force
  assume z: "z \<in> entry_window base" and le: "ScheduledDelayedWakeUp_le x y" "ScheduledDelayedWakeUp_le y z"
  from z obtain u l where l: "in_window base l" "sw_wake_up z = wake_up_at u l"
    unfolding entry_window_def by (auto elim: wake_windowE)
  show "ScheduledDelayedWakeUp_le x z"
    using le unfolding xy entry_le_window [OF n(1) l(1) n(2) l(2)] entry_le_window [OF m(1) l(1) m(2) l(2)]
    by (metis (no_types) order.strict_trans order.trans)
qed


section \<open>What a time domain holds\<close>

type_synonym wake_map = "nat \<Rightarrow> (nat \<times> delayed_wake_up \<times> wake_up_resolution) option"

definition wake_entries :: "wake_map \<Rightarrow> nat \<Rightarrow> scheduled_delayed_wake_up set" where
  "wake_entries W d = {e. W (sw_queue e) = Some (d, sw_wake_up e, sw_resolution e)}"

definition high_res :: "wake_map \<Rightarrow> nat \<Rightarrow> nat set" where
  "high_res W d = {q. \<exists>w. W q = Some (d, w, kHigh)}"

definition wake_heaps :: "enqueue_order \<Rightarrow> wake_map \<Rightarrow> sched \<Rightarrow> bool" where
  "wake_heaps base W s \<longleftrightarrow>
     (\<forall>d. heap_inv ScheduledDelayedWakeUp_le sw_queue (wheap s d, wake_up_handles s) \<and>
        heap_elems (wheap s d) = wake_entries W d \<and> wake_entries W d \<subseteq> entry_window base) \<and>
     (\<forall>q. W q = None \<longrightarrow> wake_up_handles s q = 0)"

definition wake_rep :: "enqueue_order \<Rightarrow> wake_map \<Rightarrow> sched \<Rightarrow> bool" where
  "wake_rep base W s \<longleftrightarrow> wake_heaps base W s \<and>
     (\<forall>d. pending_high_res_wake_up_count (time_domains s d) = int (card (high_res W d)))"

lemma wake_heapsD:
  assumes "wake_heaps base W s"
  shows "heap_inv ScheduledDelayedWakeUp_le sw_queue (wheap s d, wake_up_handles s)"
    "heap_elems (wheap s d) = wake_entries W d" "wake_entries W d \<subseteq> entry_window base"
    "W q = None \<Longrightarrow> wake_up_handles s q = 0"
  using assms unfolding wake_heaps_def by blast+

lemma wake_pq_inv:
  assumes "wake_heaps base W s"
  shows "heap_inv ScheduledDelayedWakeUp_le sw_queue (wheap s d, wake_up_handles s) \<and>
    heap_elems (fst (wheap s d, wake_up_handles s)) \<subseteq> entry_window base"
  using wake_heapsD [OF assms] by simp

lemma entry_eq_iff:
  "e = \<lparr>sw_wake_up = w, sw_resolution = r, sw_queue = q\<rparr> \<longleftrightarrow>
    sw_wake_up e = w \<and> sw_resolution e = r \<and> sw_queue e = q"
  by (cases e) auto

lemma wake_owner: "q \<in> sw_queue ` wake_entries W d \<longleftrightarrow> (\<exists>w r. W q = Some (d, w, r))"
proof
  assume "\<exists>w r. W q = Some (d, w, r)"
  then obtain w r where "W q = Some (d, w, r)" by blast
  then have "\<lparr>sw_wake_up = w, sw_resolution = r, sw_queue = q\<rparr> \<in> wake_entries W d"
    by (simp add: wake_entries_def)
  then show "q \<in> sw_queue ` wake_entries W d" by force
qed (auto simp: wake_entries_def)

lemma wake_entries_finite: "wake_heaps base W s \<Longrightarrow> finite (wake_entries W d)"
  using wake_heapsD(2) [of base W s d] by (metis heap_elems_def finite_imageI slots_def finite_atLeastAtMost)

lemma high_res_finite: "wake_heaps base W s \<Longrightarrow> finite (high_res W d)"
proof -
  assume a: "wake_heaps base W s"
  have "high_res W d \<subseteq> sw_queue ` wake_entries W d" unfolding high_res_def using wake_owner by blast
  then show "finite (high_res W d)" using finite_subset wake_entries_finite [OF a] by blast
qed

lemma wake_handle_valid_iff:
  assumes "wake_heaps base W s"
  shows "wake_handle_valid q s \<longleftrightarrow> W q \<noteq> None"
proof (cases "W q")
  case None
  then show ?thesis using wake_heapsD(4) [OF assms] by (simp add: wake_handle_valid_def HeapHandle_IsValid_def)
next
  case (Some v)
  then obtain d w r where v: "W q = Some (d, w, r)" by (cases v) auto
  have "\<lparr>sw_wake_up = w, sw_resolution = r, sw_queue = q\<rparr> \<in> heap_elems (fst (wheap s d, wake_up_handles s))"
    using v wake_heapsD(2) [OF assms] by (simp add: wake_entries_def)
  from wakes.pq.handle_valid [OF wake_pq_inv [OF assms] this]
  show ?thesis using v by (simp add: wake_handle_valid_def HeapHandle_IsValid_def)
qed

lemma on_wake_heap_reads:
  assumes "f (wheap s d, wake_up_handles s) = (h, hs)"
  shows "wheap (on_wake_heap d f s) d' = (if d' = d then h else wheap s d')"
    "wake_up_handles (on_wake_heap d f s) = hs"
    "pending_high_res_wake_up_count (time_domains (on_wake_heap d f s) d') =
       pending_high_res_wake_up_count (time_domains s d')"
  using assms by (simp_all add: on_wake_heap_def upd_td_def)

text \<open>One heap was replaced so that it holds what the changed map says.\<close>

lemma wake_heaps_update:
  assumes rep: "wake_heaps base W s" and r: "f (wheap s d, wake_up_handles s) = (h, hs)"
    and new: "heap_inv ScheduledDelayedWakeUp_le sw_queue (h, hs)" "heap_elems h = wake_entries (W(q := v)) d"
    and win: "wake_entries (W(q := v)) d \<subseteq> entry_window base"
    and at: "\<And>d' x. v = Some (d', x) \<Longrightarrow> d' = d" "\<And>d' x. W q = Some (d', x) \<Longrightarrow> d' = d"
    and frame: "\<And>x. x \<noteq> q \<Longrightarrow> x \<notin> sw_queue ` wake_entries W d \<Longrightarrow> hs x = wake_up_handles s x"
    and none: "v = None \<Longrightarrow> hs q = 0"
  shows "wake_heaps base (W(q := v)) (on_wake_heap d f s)"
proof -
  note rd = on_wake_heap_reads [of f, OF r]
  have "heap_inv ScheduledDelayedWakeUp_le sw_queue (wheap s d', hs) \<and>
      heap_elems (wheap s d') = wake_entries (W(q := v)) d' \<and> wake_entries (W(q := v)) d' \<subseteq> entry_window base"
    if d': "d' \<noteq> d" for d'
  proof -
    have same: "wake_entries (W(q := v)) d' = wake_entries W d'"
      using at d' by (auto simp: wake_entries_def split: if_splits)
    have "hs (sw_queue e) = wake_up_handles s (sw_queue e)" if "e \<in> heap_elems (wheap s d')" for e
    proof -
      have e: "W (sw_queue e) = Some (d', sw_wake_up e, sw_resolution e)"
        using that wake_heapsD(2) [OF rep] by (auto simp: wake_entries_def)
      then have "sw_queue e \<noteq> q" "sw_queue e \<notin> sw_queue ` wake_entries W d"
        unfolding wake_owner using at(2) d' by auto
      then show ?thesis by (rule frame)
    qed
    from heap_inv_frame [OF wake_heapsD(1) [OF rep] this]
    show ?thesis using wake_heapsD(2,3) [OF rep] same by simp
  qed
  moreover have "hs x = 0" if "(W(q := v)) x = None" for x
  proof (cases "x = q")
    case True
    then show ?thesis using none that by simp
  next
    case False
    then have n: "W x = None" using that by simp
    then have "x \<notin> sw_queue ` wake_entries W d" unfolding wake_owner by simp
    then show ?thesis using frame [OF False] wake_heapsD(4) [OF rep n] by simp
  qed
  ultimately show ?thesis unfolding wake_heaps_def rd
  proof (intro conjI allI impI, goal_cases)
    case (1 d')
    then show ?case using new(1) by (cases "d' = d") auto
  next
    case (2 d')
    then show ?case using new(2) by (cases "d' = d") auto
  next
    case (3 d')
    then show ?case using win by (cases "d' = d") auto
  qed blast
qed

text \<open>The wake-up of \<open>q\<close>, if it has one, is in the domain \<open>d\<close>.\<close>

definition wake_at :: "wake_map \<Rightarrow> nat \<Rightarrow> nat \<Rightarrow> bool" where
  "wake_at W q d \<longleftrightarrow> (\<forall>d' x. W q = Some (d', x) \<longrightarrow> d' = d)"

lemma update_wake_heap_rep:
  assumes rep: "wake_heaps base W s" and at: "wake_at W q d"
    and win: "set_option wake_up \<subseteq> wake_window base"
  shows "wake_heaps base (W(q := map_option (\<lambda>w. (d, w, resolution)) wake_up))
    (update_wake_heap d q wake_up resolution s)"
proof -
  let ?st = "(wheap s d, wake_up_handles s)" and ?W = "W(q := map_option (\<lambda>w. (d, w, resolution)) wake_up)"
  note pqi = wake_pq_inv [OF rep, of d] and el = wake_heapsD(2) [OF rep, of d]
    and hv = wake_handle_valid_iff [OF rep, of q]
  show ?thesis
  proof (cases wake_up)
    case None
    show ?thesis
    proof (cases "W q")
      case None': None
      have "W(q := None) = W" using None' by auto
      then show ?thesis using None hv None' rep by (simp add: update_wake_heap_def)
    next
      case (Some v)
      then obtain w r where v: "W q = Some (d, w, r)" using at by (cases v) (auto simp: wake_at_def)
      let ?e = "\<lparr>sw_wake_up = w, sw_resolution = r, sw_queue = q\<rparr>"
      have e: "?e \<in> heap_elems (fst ?st)" using v el by (simp add: wake_entries_def)
      obtain h hs where er: "heap_erase ScheduledDelayedWakeUp_le sw_queue (wake_up_handles s q) ?st = (h, hs)" by force
      note sp = wakes.pq.erase_spec [OF pqi e, simplified, unfolded er fst_conv snd_conv el]
      have ent: "wake_entries ?W d = wake_entries W d - {?e}"
        using None v by (auto simp: wake_entries_def entry_eq_iff)
      have "wake_heaps base (W(q := None)) (on_wake_heap d (heap_erase ScheduledDelayedWakeUp_le sw_queue (wake_up_handles s q)) s)"
        by (rule wake_heaps_update [where f = "heap_erase ScheduledDelayedWakeUp_le sw_queue (wake_up_handles s q)", OF rep er])
          (use sp ent None v wake_heapsD(3) [OF rep, of d] in auto)
      then show ?thesis using None hv v by (simp add: update_wake_heap_def)
    qed
  next
    case (Some w)
    let ?e = "\<lparr>sw_wake_up = w, sw_resolution = resolution, sw_queue = q\<rparr>"
    have eok: "?e \<in> entry_window base" using win Some by (simp add: entry_window_def)
    show ?thesis
    proof (cases "W q")
      case None
      have nin: "sw_queue ?e \<notin> sw_queue ` heap_elems (fst ?st)" using None unfolding fst_conv el wake_owner by simp
      obtain h hs where er: "heap_insert wake_up_dflt ScheduledDelayedWakeUp_le sw_queue ?e ?st = (h, hs)" by force
      note sp = wakes.pq.insert_spec [OF pqi eok nin, of wake_up_dflt, unfolded er fst_conv snd_conv el]
      have ent: "wake_entries ?W d = insert ?e (wake_entries W d)"
        using Some None by (auto simp: wake_entries_def entry_eq_iff)
      have "wake_heaps base ?W (on_wake_heap d (heap_insert wake_up_dflt ScheduledDelayedWakeUp_le sw_queue ?e) s)"
        by (rule wake_heaps_update [where f = "heap_insert wake_up_dflt ScheduledDelayedWakeUp_le sw_queue ?e", OF rep er])
          (use sp ent Some None eok wake_heapsD(3) [OF rep, of d] in auto)
      then show ?thesis using Some hv None by (simp add: update_wake_heap_def)
    next
      case (Some v)
      then obtain w0 r where v: "W q = Some (d, w0, r)" using at by (cases v) (auto simp: wake_at_def)
      let ?old = "\<lparr>sw_wake_up = w0, sw_resolution = r, sw_queue = q\<rparr>"
      have e0: "?old \<in> heap_elems (fst ?st)" using v el by (simp add: wake_entries_def)
      obtain h hs where er: "heap_ChangeKey ScheduledDelayedWakeUp_le sw_queue (wake_up_handles s q) ?e ?st = (h, hs)" by force
      note sp = wakes.pq.change_spec [OF pqi e0 eok, simplified, unfolded er fst_conv snd_conv el]
      have ent: "wake_entries ?W d = insert ?e (wake_entries W d - {?old})"
        using \<open>wake_up = Some w\<close> v by (auto simp: wake_entries_def entry_eq_iff)
      have "wake_heaps base ?W (on_wake_heap d (heap_ChangeKey ScheduledDelayedWakeUp_le sw_queue (wake_up_handles s q) ?e) s)"
        by (rule wake_heaps_update [where f = "heap_ChangeKey ScheduledDelayedWakeUp_le sw_queue (wake_up_handles s q) ?e", OF rep er])
          (use sp ent \<open>wake_up = Some w\<close> v eok wake_heapsD(3) [OF rep, of d] in auto)
      then show ?thesis using \<open>wake_up = Some w\<close> hv v by (simp add: update_wake_heap_def)
    qed
  qed
qed


section \<open>The earliest wake-up\<close>

lemma entry_le_time: "ScheduledDelayedWakeUp_le a b \<Longrightarrow> wu_time (sw_wake_up a) \<le> wu_time (sw_wake_up b)"
  by (auto simp: ScheduledDelayedWakeUp_le_def DelayedWakeUp_eq_iff DelayedWakeUp_le_def split: if_splits)

lemma NextScheduledRunTime_None:
  assumes "wake_heaps base W s"
  shows "NextScheduledRunTime d s = None \<longleftrightarrow> (\<forall>q w r. W q \<noteq> Some (d, w, r))"
proof -
  have "NextScheduledRunTime d s = None \<longleftrightarrow> wake_entries W d = {}"
    using wakes.pq.empty_iff [OF wake_pq_inv [OF assms, of d]] wake_heapsD(2) [OF assms, of d]
    by (simp add: NextScheduledRunTime_def)
  also have "\<dots> \<longleftrightarrow> (\<forall>q w r. W q \<noteq> Some (d, w, r))"
    using wake_owner [of _ W d] by (metis empty_iff image_is_empty ex_in_conv)
  finally show ?thesis .
qed

lemma NextScheduledRunTime_Some:
  assumes "wake_heaps base W s" "NextScheduledRunTime d s = Some t"
  shows "\<exists>q w r. W q = Some (d, w, r) \<and> wu_time w = t \<and> q = sw_queue (heap_Min (wheap s d))"
    "W q = Some (d, w, r) \<Longrightarrow> t \<le> wu_time w"
proof -
  let ?m = "heap_Min (wheap s d)"
  note pqi = wake_pq_inv [OF assms(1), of d] and el = wake_heapsD(2) [OF assms(1), of d]
  have ne: "\<not> heap_empty (wheap s d)" and t: "t = wu_time (sw_wake_up ?m)"
    using assms(2) by (auto simp: NextScheduledRunTime_def split: if_splits)
  have "wake_entries W d \<noteq> {}" using wakes.pq.empty_iff [OF pqi] ne el by simp
  then have "?m \<in> wake_entries W d" using wakes.pq.min_in [OF pqi] el by simp
  then show "\<exists>q w r. W q = Some (d, w, r) \<and> wu_time w = t \<and> q = sw_queue ?m"
    using t by (auto simp: wake_entries_def)
  assume "W q = Some (d, w, r)"
  then have "\<lparr>sw_wake_up = w, sw_resolution = r, sw_queue = q\<rparr> \<in> heap_elems (fst (wheap s d, wake_up_handles s))"
    using el by (simp add: wake_entries_def)
  from wakes.pq.min_least [OF pqi this] show "t \<le> wu_time w" unfolding t using entry_le_time by fastforce
qed

section \<open>Setting a wake-up\<close>

text \<open>What the time domain asks of the manager when its earliest wake-up goes from \<open>prev\<close> to \<open>new\<close>.\<close>

definition wake_request :: "int option \<Rightarrow> int option \<Rightarrow> int \<Rightarrow> event list" where
  "wake_request prev new now =
     (if new = prev then []
      else let t = (case new of None \<Rightarrow> int64_max | Some t \<Rightarrow> t)
           in if t \<le> now then [EvScheduleWork] else [EvSetNextDelayedDoWork t])"

definition wake_frame :: "sched \<Rightarrow> sched \<Rightarrow> bool" where
  "wake_frame s t \<longleftrightarrow>
     t = s\<lparr>time_domains := time_domains t, wake_up_handles := wake_up_handles t, events := events t\<rparr>"

lemma wake_frame_refl: "wake_frame s s"
  by (simp add: wake_frame_def)

lemma wake_frame_trans: "wake_frame s t \<Longrightarrow> wake_frame t u \<Longrightarrow> wake_frame s u"
  by (cases s; cases t; cases u) (simp add: wake_frame_def)

lemma wake_frame_events: "wake_frame s t \<Longrightarrow> wake_frame s (t\<lparr>events := es\<rparr>)"
  by (cases s; cases t) (simp add: wake_frame_def)

lemma wake_frame_reads:
  assumes "wake_frame s t"
  shows "work_queues t = work_queues s" "selection_count t = selection_count s" "heap_handles t = heap_handles s"
    "work_queue_heaps t = work_queue_heaps s" "non_empty_set_counts t = non_empty_set_counts s"
    "active_priorities t = active_priorities s" "task_queues t = task_queues s" "clock t = clock s"
    "cancelled t = cancelled s" "enqueue_order_generator t = enqueue_order_generator s"
    "empty_queues_to_reload t = empty_queues_to_reload s"
  using assms by (cases s; cases t; simp add: wake_frame_def)+

lemma wake_updates_frame:
  "wake_frame s (on_wake_heap d f s)" "wake_frame s (upd_td d g s)" "wake_frame s (emit e s)"
  by (cases s; simp add: wake_frame_def on_wake_heap_def upd_td_def emit_def split_beta Let_def)+

lemma update_wake_heap_frame: "wake_frame s (update_wake_heap d q wake_up resolution s)"
  by (simp add: update_wake_heap_def wake_updates_frame wake_frame_refl Let_def split: option.split)

lemma update_wake_heap_reads:
  "events (update_wake_heap d q wake_up resolution s) = events s"
  "pending_high_res_wake_up_count (time_domains (update_wake_heap d q wake_up resolution s) d') =
    pending_high_res_wake_up_count (time_domains s d')"
  by (simp_all add: update_wake_heap_def on_wake_heap_def upd_td_def Let_def split_beta split: option.split)

text \<open>The operation as the heap update, the change of the high-resolution count and the request.\<close>

definition bump :: "nat \<Rightarrow> int \<Rightarrow> sched \<Rightarrow> sched" where
  "bump d n s = upd_td d (\<lambda>t. t\<lparr>pending_high_res_wake_up_count := pending_high_res_wake_up_count t + n\<rparr>) s"

lemma bump_reads [simp]:
  "wheap (bump d n s) d' = wheap s d'" "wake_up_handles (bump d n s) = wake_up_handles s"
  "pending_high_res_wake_up_count (time_domains (bump d n s) d') =
    pending_high_res_wake_up_count (time_domains s d') + (if d' = d then n else 0)"
  "events (bump d n s) = events s" "NextScheduledRunTime d' (bump d n s) = NextScheduledRunTime d' s"
  by (simp_all add: bump_def upd_td_def NextScheduledRunTime_def)

lemma wake_heaps_cong:
  "(\<And>d. wheap t d = wheap s d) \<Longrightarrow> wake_up_handles t = wake_up_handles s \<Longrightarrow>
    wake_heaps base W t = wake_heaps base W s"
  by (simp add: wake_heaps_def)

lemma wake_rep_cong:
  "time_domains t = time_domains s \<Longrightarrow> wake_up_handles t = wake_up_handles s \<Longrightarrow>
    wake_rep base W t = wake_rep base W s"
  by (simp add: wake_rep_def wake_heaps_def)

lemma wake_rep_emit [simp]: "wake_rep base W (emit e s) = wake_rep base W s"
  by (rule wake_rep_cong) simp_all

lemma previous_resolution:
  assumes rep: "wake_heaps base W s" and at: "wake_at W q d"
  shows "(if wake_handle_valid q s then Some (sw_resolution (heap_at (wheap s d) (wake_up_handles s q))) else None)
    = Some kHigh \<longleftrightarrow> q \<in> high_res W d"
proof (cases "W q")
  case None
  then show ?thesis using wake_handle_valid_iff [OF rep] by (simp add: high_res_def)
next
  case (Some v)
  then obtain w r where v: "W q = Some (d, w, r)" using at by (cases v) (auto simp: wake_at_def)
  let ?e = "\<lparr>sw_wake_up = w, sw_resolution = r, sw_queue = q\<rparr>"
  have "?e \<in> heap_elems (wheap s d)" using v wake_heapsD(2) [OF rep] by (simp add: wake_entries_def)
  then have "heap_at (wheap s d) (wake_up_handles s q) = ?e"
    using elem_slot [OF wakes.heap_inv_handles [OF wake_heapsD(1) [OF rep, of d]], of ?e] by (simp add: heap_at_def)
  then show ?thesis using v wake_handle_valid_iff [OF rep, of q] by (simp add: high_res_def)
qed

lemma high_res_upd:
  assumes "wake_at W q d"
  shows "high_res (W(q := map_option (\<lambda>w. (d, w, res)) wake_up)) d' =
    (if d' = d then (high_res W d - {q}) \<union> (if wake_up \<noteq> None \<and> res = kHigh then {q} else {}) else high_res W d')"
proof (rule set_eqI)
  fix x
  show "x \<in> high_res (W(q := map_option (\<lambda>w. (d, w, res)) wake_up)) d' \<longleftrightarrow>
    x \<in> (if d' = d then (high_res W d - {q}) \<union> (if wake_up \<noteq> None \<and> res = kHigh then {q} else {}) else high_res W d')"
    using assms by (cases "x = q"; cases wake_up) (auto simp: high_res_def wake_at_def)
qed

lemma card_moved:
  assumes "finite A"
  shows "int (card ((A - {q}) \<union> (if b then {q} else {}))) = int (card A) - of_bool (q \<in> A) + of_bool b"
proof (cases "q \<in> A")
  case True
  then have "int (card (A - {q})) = int (card A) - 1" using assms card_Suc_Diff1 [of A q] by linarith
  then show ?thesis using True assms by (cases b) (simp_all add: card_insert_if)
next
  case False
  then show ?thesis using assms by (cases b) (simp_all add: card_insert_if)
qed

lemma bump_if:
  "(if P then upd_td d (\<lambda>t. t\<lparr>pending_high_res_wake_up_count := pending_high_res_wake_up_count t - 1\<rparr>) s else s) =
    bump d (- of_bool P) s"
  "(if P then upd_td d (\<lambda>t. t\<lparr>pending_high_res_wake_up_count := pending_high_res_wake_up_count t + 1\<rparr>) s else s) =
    bump d (of_bool P) s"
  by (simp_all add: bump_def upd_td_def)

lemma wake_request_if:
  "(if new = prev then s
    else let t = (case new of None \<Rightarrow> int64_max | Some t \<Rightarrow> t)
         in if t \<le> now then RequestDoWork s else td_SetNextDelayedDoWork t s) =
    s\<lparr>events := events s @ wake_request prev new now\<rparr>"
  by (simp add: wake_request_def RequestDoWork_def td_SetNextDelayedDoWork_def ScheduleWork_def
      SetNextDelayedDoWork_def emit_def Let_def)

lemma SetNextWakeUp_unfold:
  assumes u: "u = update_wake_heap d q wake_up resolution s"
    and rep: "wake_heaps base W s" and at: "wake_at W q d"
  shows "SetNextWakeUpForQueue d q wake_up resolution now s =
    (let v = bump d (of_bool (wake_up \<noteq> None \<and> resolution = kHigh)) (bump d (- of_bool (q \<in> high_res W d)) u)
     in v\<lparr>events := events s @ wake_request (NextScheduledRunTime d s) (NextScheduledRunTime d u) now\<rparr>)"
proof -
  have ev: "events u = events s" unfolding u by (rule update_wake_heap_reads)
  show ?thesis
    unfolding SetNextWakeUpForQueue_def Let_def previous_resolution [OF rep at] bump_if
      wake_request_if [unfolded Let_def] u [symmetric] ev bump_reads by (rule refl)
qed

text \<open>The heap of the domain, the handle of the queue, the high-resolution count and the request to
  the manager after a call, for every queue whose wake-up, if any, is in this domain.\<close>

lemma SetNextWakeUpForQueue_spec:
  assumes rep: "wake_rep base W s" and at: "wake_at W q d"
    and win: "set_option wake_up \<subseteq> wake_window base"
    and t: "t = SetNextWakeUpForQueue d q wake_up resolution now s"
  shows "wake_rep base (W(q := map_option (\<lambda>w. (d, w, resolution)) wake_up)) t"
    "events t = events s @ wake_request (NextScheduledRunTime d s) (NextScheduledRunTime d t) now"
    "wake_frame s t"
proof -
  let ?u = "update_wake_heap d q wake_up resolution s" and ?W = "W(q := map_option (\<lambda>w. (d, w, resolution)) wake_up)"
  let ?v = "bump d (of_bool (wake_up \<noteq> None \<and> resolution = kHigh)) (bump d (- of_bool (q \<in> high_res W d)) ?u)"
  have rh: "wake_heaps base W s" using rep by (simp add: wake_rep_def)
  have t': "t = ?v\<lparr>events := events s @ wake_request (NextScheduledRunTime d s) (NextScheduledRunTime d ?u) now\<rparr>"
    using SetNextWakeUp_unfold [OF refl rh at] t by (simp add: Let_def)
  have n: "NextScheduledRunTime d t = NextScheduledRunTime d ?u" by (simp add: t' NextScheduledRunTime_def)
  then show "events t = events s @ wake_request (NextScheduledRunTime d s) (NextScheduledRunTime d t) now"
    by (simp add: t')
  have "wake_heaps base ?W ?u" by (rule update_wake_heap_rep [OF rh at win])
  then have "wake_heaps base ?W t" using wake_heaps_cong [of t ?u base ?W] by (simp add: t')
  moreover have "pending_high_res_wake_up_count (time_domains t d') = int (card (high_res ?W d'))" for d'
    using rep card_moved [OF high_res_finite [OF rh], where q = q and d1 = d and b = "wake_up \<noteq> None \<and> resolution = kHigh"]
    unfolding high_res_upd [OF at] by (cases "d' = d") (simp_all add: t' wake_rep_def update_wake_heap_reads del: of_bool_conj)
  ultimately show "wake_rep base ?W t" by (simp add: wake_rep_def)
  have "wake_frame s ?v" unfolding bump_def
    by (rule wake_frame_trans [OF wake_frame_trans [OF update_wake_heap_frame wake_updates_frame(2)] wake_updates_frame(2)])
  then show "wake_frame s t" unfolding t' by (rule wake_frame_events)
qed

text \<open>Whenever a queue of the domain waits for a time, the manager was last asked to run then or
  earlier.\<close>

lemma rtd_DelayTillNextTask_spec:
  assumes "wake_heaps base W s"
  shows "rtd_DelayTillNextTask now s = None \<longleftrightarrow> (\<forall>q w r. W q \<noteq> Some (0, w, r))"
    "rtd_DelayTillNextTask now s = Some delay \<Longrightarrow> W q = Some (0, w, r) \<Longrightarrow> delay \<le> max 0 (wu_time w - now)"
    "rtd_DelayTillNextTask now s = Some delay \<Longrightarrow>
      0 \<le> delay \<and> (\<exists>q w r. W q = Some (0, w, r) \<and> delay = max 0 (wu_time w - now))"
proof -
  show "rtd_DelayTillNextTask now s = None \<longleftrightarrow> (\<forall>q w r. W q \<noteq> Some (0, w, r))"
    unfolding NextScheduledRunTime_None [OF assms, of 0, symmetric]
    by (simp add: rtd_DelayTillNextTask_def split: option.split)
  assume "rtd_DelayTillNextTask now s = Some delay"
  then obtain t where t: "NextScheduledRunTime 0 s = Some t" "delay = max 0 (t - now)"
    by (auto simp: rtd_DelayTillNextTask_def max_def split: option.splits if_splits)
  note sp = NextScheduledRunTime_Some [OF assms t(1)]
  show "W q = Some (0, w, r) \<Longrightarrow> delay \<le> max 0 (wu_time w - now)" using sp(2) [of q w r] t(2) by auto
  show "0 \<le> delay \<and> (\<exists>q w r. W q = Some (0, w, r) \<and> delay = max 0 (wu_time w - now))"
    using sp(1) t(2) by auto
qed

end
