(* ===== verification/Delayed_Queue.thy ===== *)
theory Delayed_Queue
  imports Time_Domain "HOL-Library.Multiset"
begin

text \<open>
  The model of \<open>TaskQueueImpl::DelayedIncomingQueue\<close>. It wraps a \<open>std::priority_queue<Task>\<close>,
  modelled as the list of its tasks in the order in which the queue pops them: the task that is not
  less than any other first, where \<open>PendingTask::operator<\<close> calls a task less when it is due later.
  The standard leaves the order of equal tasks open and the model keeps them in order of arrival.
\<close>

section \<open>Operations\<close>

fun pq_insert :: "'c sm_task \<Rightarrow> 'c sm_task list \<Rightarrow> 'c sm_task list" where
  "pq_insert t [] = [t]"
| "pq_insert t (x # xs) = (if PendingTask_less x t then t # x # xs else x # pq_insert t xs)"

definition make_heap :: "'c sm_task list \<Rightarrow> 'c sm_task list" where
  "make_heap c = fold pq_insert c []"

definition DelayedIncomingQueue_new :: delayed_incoming where
  "DelayedIncomingQueue_new = \<lparr>di_queue = [], pending_high_res_tasks = 0\<rparr>"

definition di_empty :: "delayed_incoming \<Rightarrow> bool" where
  "di_empty q = (di_queue q = [])"

definition di_size :: "delayed_incoming \<Rightarrow> nat" where
  "di_size q = length (di_queue q)"

definition di_top :: "delayed_incoming \<Rightarrow> Task" where
  "di_top q = hd (di_queue q)"

definition di_push :: "Task \<Rightarrow> delayed_incoming \<Rightarrow> delayed_incoming" where
  "di_push t q =
     (let q = (if is_high_res t then q\<lparr>pending_high_res_tasks := pending_high_res_tasks q + 1\<rparr> else q)
      in q\<lparr>di_queue := pq_insert t (di_queue q)\<rparr>)"

definition di_pop :: "delayed_incoming \<Rightarrow> delayed_incoming" where
  "di_pop q =
     (let q = (if is_high_res (di_top q)
               then q\<lparr>pending_high_res_tasks := pending_high_res_tasks q - 1\<rparr> else q)
      in q\<lparr>di_queue := tl (di_queue q)\<rparr>)"

definition di_swap :: "delayed_incoming \<Rightarrow> delayed_incoming \<Rightarrow> delayed_incoming \<times> delayed_incoming" where
  "di_swap q rhs = (rhs, q)"

definition has_pending_high_resolution_tasks :: "delayed_incoming \<Rightarrow> bool" where
  "has_pending_high_resolution_tasks q = (pending_high_res_tasks q \<noteq> 0)"

text \<open>The loop of \<open>SweepCancelledTasks\<close> over the underlying vector, from index \<open>i\<close>: a cancelled
  task is overwritten by the last one, which the next round looks at.\<close>

function sweep_from ::
  "(Task \<Rightarrow> bool) \<Rightarrow> nat \<Rightarrow> Task list \<Rightarrow> int \<Rightarrow> bool \<Rightarrow> Task list \<times> int \<times> bool" where
  "sweep_from is_cancelled i c pending deleted =
     (if i < length c
      then if is_cancelled (c ! i)
           then sweep_from is_cancelled i (butlast (c[i := last c]))
                  (if is_high_res (c ! i) then pending - 1 else pending) True
           else sweep_from is_cancelled (i + 1) c pending deleted
      else (c, pending, deleted))"
  by pat_completeness auto
termination
  by (relation "measure (\<lambda>(p, i, c, n, d). length c - i)") auto

declare sweep_from.simps [simp del]

definition SweepCancelledTasks :: "(Task \<Rightarrow> bool) \<Rightarrow> delayed_incoming \<Rightarrow> delayed_incoming" where
  "SweepCancelledTasks is_cancelled q =
     (let (c, pending, task_deleted) = sweep_from is_cancelled 0 (di_queue q) (pending_high_res_tasks q) False
      in q\<lparr>di_queue := (if task_deleted then make_heap c else c), pending_high_res_tasks := pending\<rparr>)"

section \<open>The order of tasks\<close>

text \<open>Among tasks numbered within a window, the order is that of the run time and then of the number
  counted from the start of the window.\<close>

definition seq_offset :: "enqueue_order \<Rightarrow> 'c sm_task \<Rightarrow> int" where
  "seq_offset base t = uint (sequence_num t - ucast base)"

definition task_window :: "enqueue_order \<Rightarrow> 'c sm_task \<Rightarrow> bool" where
  "task_window base t \<longleftrightarrow> (\<exists>n. in_window base n \<and> sequence_num t = ucast n)"

definition runs_before :: "enqueue_order \<Rightarrow> 'c sm_task \<Rightarrow> 'c sm_task \<Rightarrow> bool" where
  "runs_before base a b \<longleftrightarrow> delayed_run_time a < delayed_run_time b \<or>
     delayed_run_time a = delayed_run_time b \<and> seq_offset base a \<le> seq_offset base b"

lemma seq_offset_window:
  assumes "in_window base n" "sequence_num t = ucast n"
  shows "seq_offset base t = uint n - uint base"
proof -
  have "(ucast n - ucast base :: 32 word) = word_of_int (uint n - uint base)"
    unfolding ucast_eq by (rule wi_hom_sub)
  then have "seq_offset base t = (uint n - uint base) mod 2 ^ 32"
    unfolding seq_offset_def assms(2) by (simp only: uint_word_of_int) simp
  then show ?thesis using assms(1) by (simp add: in_window_def)
qed

lemma less_runs_before:
  assumes "task_window base a" "task_window base b"
  shows "PendingTask_less a b \<longleftrightarrow> \<not> runs_before base a b"
proof -
  obtain m n where m: "in_window base m" "sequence_num a = ucast m" and n: "in_window base n" "sequence_num b = ucast n"
    using assms by (auto simp: task_window_def)
  show ?thesis
    unfolding PendingTask_less_window [OF m(1) n(1) m(2) n(2)] runs_before_def
      seq_offset_window [OF m] seq_offset_window [OF n] by (auto simp: word_less_def)
qed

lemma runs_before_total: "runs_before base a b \<or> runs_before base b a"
  by (auto simp: runs_before_def)

lemma runs_before_trans: "runs_before base a b \<Longrightarrow> runs_before base b c \<Longrightarrow> runs_before base a c"
  by (auto simp: runs_before_def)

lemma task_window_wake_up: "task_window base t \<Longrightarrow> DelayedWakeUp_of t \<in> wake_window base"
  by (simp add: task_window_def wake_window_def DelayedWakeUp_of_def)

section \<open>Invariant\<close>

definition high_res_count :: "Task list \<Rightarrow> int" where
  "high_res_count ts = int (length (filter is_high_res ts))"

definition di_inv :: "enqueue_order \<Rightarrow> delayed_incoming \<Rightarrow> bool" where
  "di_inv base q \<longleftrightarrow> sorted_wrt (runs_before base) (di_queue q) \<and> (\<forall>t \<in> set (di_queue q). task_window base t) \<and>
     pending_high_res_tasks q = high_res_count (di_queue q)"

lemma mset_pq_insert: "mset (pq_insert t xs) = add_mset t (mset xs)"
  by (induction xs) auto

lemma set_pq_insert: "set (pq_insert t xs) = insert t (set xs)"
  by (induction xs) auto

lemma high_res_count_mset: "mset xs = mset ys \<Longrightarrow> high_res_count xs = high_res_count ys"
  unfolding high_res_count_def by (metis mset_filter size_mset)

lemma pq_insert_sorted:
  assumes "sorted_wrt (runs_before base) xs" "\<forall>x \<in> set xs. task_window base x" "task_window base t"
  shows "sorted_wrt (runs_before base) (pq_insert t xs)"
  using assms(1,2)
proof (induction xs)
  case (Cons x xs)
  show ?case
  proof (cases "PendingTask_less x t")
    case True
    then have "runs_before base t x"
      using less_runs_before [of base x t] runs_before_total Cons.prems(2) assms(3) by auto
    then show ?thesis using True Cons.prems(1) runs_before_trans [of base t x] by auto
  next
    case False
    then have "runs_before base x t" using less_runs_before [of base x t] Cons.prems(2) assms(3) by auto
    then show ?thesis using False Cons by (auto simp: set_pq_insert)
  qed
qed simp

lemma di_push_inv:
  assumes "di_inv base q" "task_window base t"
  shows "di_inv base (di_push t q)" "mset (di_queue (di_push t q)) = add_mset t (mset (di_queue q))"
proof -
  show m: "mset (di_queue (di_push t q)) = add_mset t (mset (di_queue q))"
    by (simp add: di_push_def mset_pq_insert Let_def)
  have "high_res_count (di_queue (di_push t q)) = high_res_count (t # di_queue q)"
    by (rule high_res_count_mset) (simp add: m)
  then show "di_inv base (di_push t q)"
    using assms pq_insert_sorted [of base "di_queue q" t]
    by (auto simp: di_inv_def di_push_def set_pq_insert high_res_count_def Let_def)
qed

lemma di_pop_inv:
  assumes "di_inv base q" "di_queue q = t # ts"
  shows "di_inv base (di_pop q)" "di_queue (di_pop q) = ts"
  using assms by (auto simp: di_inv_def di_pop_def di_top_def high_res_count_def Let_def)

lemma di_top_first: "di_inv base q \<Longrightarrow> t \<in> set (di_queue q) \<Longrightarrow> runs_before base (di_top q) t"
  by (cases "di_queue q") (auto simp: di_inv_def di_top_def runs_before_def)

section \<open>Sweeping\<close>

lemma mset_overwrite:
  assumes "i < length c"
  shows "mset (butlast (c[i := last c])) = mset c - {#c ! i#}" "length (butlast (c[i := last c])) = length c - 1"
    "\<forall>j < i. butlast (c[i := last c]) ! j = c ! j"
proof -
  have ne: "c \<noteq> []" using assms by auto
  have "c[i := last c] = butlast (c[i := last c]) @ [last c]"
  proof -
    have "last (c[i := last c]) = last c" using assms ne
      by (simp add: last_list_update)
    then show ?thesis using ne by (metis append_butlast_last_id list_update_nonempty)
  qed
  then have "mset (c[i := last c]) = add_mset (last c) (mset (butlast (c[i := last c])))"
    by (metis mset.simps(1,2) mset_append union_mset_add_mset_right add_cancel_left_right)
  moreover have "mset (c[i := last c]) = add_mset (last c) (mset c - {#c ! i#})"
    using assms by (rule mset_update)
  ultimately show "mset (butlast (c[i := last c])) = mset c - {#c ! i#}" by simp
  show "length (butlast (c[i := last c])) = length c - 1" by simp
  show "\<forall>j < i. butlast (c[i := last c]) ! j = c ! j" using assms by (auto simp: nth_butlast)
qed

lemma filter_remove_one: "\<not> P x \<Longrightarrow> filter_mset P (M - {#x#}) = filter_mset P M"
  by (rule multiset_eqI) auto

lemma size_remove_one:
  "x \<in># M \<Longrightarrow> int (size (filter_mset P (M - {#x#}))) = int (size (filter_mset P M)) - of_bool (P x)"
  by (auto simp: filter_diff_mset size_Diff_singleton of_nat_diff Suc_le_eq dest!: multi_member_split)

lemma sweep_from_spec:
  assumes "sweep_from P i c n d = (c', n', d')" "\<forall>j < i. j < length c \<longrightarrow> \<not> P (c ! j)"
  shows "mset c' = filter_mset (\<lambda>t. \<not> P t) (mset c) \<and>
    n' - high_res_count c' = n - high_res_count c \<and> (\<not> d' \<longrightarrow> c' = c \<and> \<not> d)"
  using assms
proof (induction P i c n d arbitrary: c' n' d' rule: sweep_from.induct)
  case (1 P i c n d)
  consider "\<not> i < length c" | "i < length c" "P (c ! i)" | "i < length c" "\<not> P (c ! i)" by blast
  then show ?case
  proof cases
    case 1
    then have "\<forall>t \<in> set c. \<not> P t" using "1.prems"(2) by (auto simp: in_set_conv_nth)
    then have "filter_mset (\<lambda>t. \<not> P t) (mset c) = mset c" by (simp add: filter_mset_eq_conv)
    then show ?thesis using 1 "1.prems"(1) by (subst (asm) sweep_from.simps) auto
  next
    case 2
    let ?c = "butlast (c[i := last c])"
    note ov = mset_overwrite [OF 2(1)]
    have run: "sweep_from P i ?c (if is_high_res (c ! i) then n - 1 else n) True = (c', n', d')"
      using "1.prems"(1) 2 by (subst (asm) sweep_from.simps) simp
    have keep: "\<forall>j < i. j < length ?c \<longrightarrow> \<not> P (?c ! j)"
      using "1.prems"(2) ov(2,3) 2(1) by auto
    note ih = "1.IH"(1) [OF 2 run keep]
    have "high_res_count ?c = high_res_count c - of_bool (is_high_res (c ! i))"
    proof -
      have "mset (filter is_high_res ?c) = filter_mset is_high_res (mset c - {#c ! i#})"
        unfolding mset_filter ov(1) ..
      then have "length (filter is_high_res ?c) = size (filter_mset is_high_res (mset c - {#c ! i#}))"
        by (metis size_mset)
      moreover have "length (filter is_high_res c) = size (filter_mset is_high_res (mset c))"
        by (metis mset_filter size_mset)
      ultimately show ?thesis
        using size_remove_one [of "c ! i" "mset c" is_high_res] 2(1) by (simp only: high_res_count_def nth_mem_mset)
    qed
    then show ?thesis using ih 2(2) by (auto simp: ov(1) filter_remove_one)
  next
    case 3
    have run: "sweep_from P (i + 1) c n d = (c', n', d')"
      using "1.prems"(1) 3 by (subst (asm) sweep_from.simps) simp
    have keep: "\<forall>j < i + 1. j < length c \<longrightarrow> \<not> P (c ! j)" using "1.prems"(2) 3 by (auto simp: less_Suc_eq)
    show ?thesis using "1.IH"(2) [OF 3 run keep] .
  qed
qed

lemma make_heap_spec:
  assumes "\<forall>x \<in> set c. task_window base x"
  shows "sorted_wrt (runs_before base) (make_heap c)" "mset (make_heap c) = mset c"
proof -
  have "sorted_wrt (runs_before base) (fold pq_insert c a) \<and> mset (fold pq_insert c a) = mset c + mset a"
    if "sorted_wrt (runs_before base) a" "\<forall>x \<in> set a. task_window base x" for a
    using assms that
    by (induction c arbitrary: a) (auto simp: pq_insert_sorted mset_pq_insert set_pq_insert)
  from this [of "[]"] show "sorted_wrt (runs_before base) (make_heap c)" "mset (make_heap c) = mset c"
    by (simp_all add: make_heap_def)
qed

text \<open>Sweeping leaves exactly the tasks that are not cancelled, in order, with the right count.\<close>

lemma SweepCancelledTasks_spec:
  assumes inv: "di_inv base q"
  shows "di_inv base (SweepCancelledTasks P q)"
    "mset (di_queue (SweepCancelledTasks P q)) = filter_mset (\<lambda>t. \<not> P t) (mset (di_queue q))"
proof -
  obtain c n d where r: "sweep_from P 0 (di_queue q) (pending_high_res_tasks q) False = (c, n, d)"
    by (cases "sweep_from P 0 (di_queue q) (pending_high_res_tasks q) False") auto
  note sp = sweep_from_spec [OF r]
  let ?c = "if d then make_heap c else c"
  have q: "SweepCancelledTasks P q = q\<lparr>di_queue := ?c, pending_high_res_tasks := n\<rparr>"
    using r by (simp add: SweepCancelledTasks_def)
  have m: "mset c = filter_mset (\<lambda>t. \<not> P t) (mset (di_queue q))" using sp by simp
  then have sub: "set c \<subseteq> set (di_queue q)" by (metis filter_is_subset mset_filter set_mset_mset)
  then have win: "\<forall>x \<in> set c. task_window base x" using inv by (auto simp: di_inv_def)
  note mh = make_heap_spec [OF win]
  have mc: "mset ?c = mset c" using mh(2) by simp
  show "mset (di_queue (SweepCancelledTasks P q)) = filter_mset (\<lambda>t. \<not> P t) (mset (di_queue q))"
    using q mc m by simp
  have "sorted_wrt (runs_before base) ?c" using mh(1) sp inv by (auto simp: di_inv_def)
  moreover have "\<forall>x \<in> set ?c. task_window base x" using win mc by (metis set_mset_mset)
  moreover have "n = high_res_count ?c" using sp inv high_res_count_mset [OF mc] by (auto simp: di_inv_def)
  ultimately show "di_inv base (SweepCancelledTasks P q)" using q by (simp add: di_inv_def)
qed

end
