(* ===== verification/Task_Queue.thy ===== *)
theory Task_Queue
  imports Delayed_Queue
begin

text \<open>
  The model of \<open>task_queue_impl.cc\<close>, of the loop of \<open>time_domain.cc\<close> that calls it back, and of
  \<open>SequenceManagerImpl::OnTaskQueueEnabled\<close>. The members of \<open>any_thread_\<close> are only touched under
  \<open>any_thread_lock_\<close>, so each critical section is one step of the model; a failed \<open>CHECK\<close> is
  \<^term>\<open>None\<close>. Tracing, the task annotator, the task observers and the task-timing handlers are
  left out, as is the per-priority test delay of a \<open>DCHECK\<close> build.
\<close>

section \<open>Helpers\<close>

definition td_now :: "nat \<Rightarrow> sched \<Rightarrow> int" where
  "td_now q s = (case time_domain (tq s q) of None \<Rightarrow> 0 | Some d \<Rightarrow> clock s d)"

definition lift_task :: "user_closure sm_task \<Rightarrow> Task" where
  "lift_task t = \<lparr>task = User (task t), posted_from = posted_from t, delayed_run_time = delayed_run_time t,
     queue_time = queue_time t, sequence_num = sequence_num t, task_nestable = task_nestable t,
     is_high_res = is_high_res t, task_type = task_type t, task_enqueue_order = task_enqueue_order t\<rparr>"

definition set_flag_active :: "bool \<Rightarrow> nat \<Rightarrow> sched \<Rightarrow> sched" where
  "set_flag_active active q s =
     (case empty_queues_to_reload_handle (tq s q) of None \<Rightarrow> s
      | Some f \<Rightarrow> s\<lparr>empty_queues_to_reload := SetActive active f (empty_queues_to_reload s)\<rparr>)"

definition run_wake_up_callback :: "nat \<Rightarrow> int \<Rightarrow> sched \<Rightarrow> sched" where
  "run_wake_up_callback q time s = emit (EvOnNextWakeUpChanged q time) s"

definition upd_delayed :: "nat \<Rightarrow> (delayed_incoming \<Rightarrow> delayed_incoming) \<Rightarrow> sched \<Rightarrow> sched" where
  "upd_delayed q f s = upd_tq q (\<lambda>t. t\<lparr>delayed_incoming_queue := f (delayed_incoming_queue t)\<rparr>) s"

section \<open>Queries\<close>

definition tq_IsEmpty :: "nat \<Rightarrow> sched \<Rightarrow> bool" where
  "tq_IsEmpty q s =
     (if \<not> wq_Empty (wq s (q, kDelayed)) \<or> \<not> di_empty (delayed_incoming_queue (tq s q)) \<or>
         \<not> wq_Empty (wq s (q, kImmediate)) then False
      else dq_empty (immediate_incoming_queue (tq s q)))"

definition GetNumberOfPendingTasks :: "nat \<Rightarrow> sched \<Rightarrow> nat" where
  "GetNumberOfPendingTasks q s =
     wq_Size (wq s (q, kDelayed)) + di_size (delayed_incoming_queue (tq s q)) +
     wq_Size (wq s (q, kImmediate)) + dq_size (immediate_incoming_queue (tq s q))"

definition HasTaskToRunImmediately :: "nat \<Rightarrow> sched \<Rightarrow> bool" where
  "HasTaskToRunImmediately q s =
     (if \<not> wq_Empty (wq s (q, kDelayed)) \<or> \<not> wq_Empty (wq s (q, kImmediate)) then True
      else if \<not> di_empty (delayed_incoming_queue (tq s q)) \<and>
              delayed_run_time (di_top (delayed_incoming_queue (tq s q))) \<le> td_now q s then True
      else \<not> dq_empty (immediate_incoming_queue (tq s q)))"

definition HasPendingImmediateWork :: "nat \<Rightarrow> sched \<Rightarrow> bool" where
  "HasPendingImmediateWork q s =
     (if \<not> wq_Empty (wq s (q, kDelayed)) \<or> \<not> wq_Empty (wq s (q, kImmediate)) then True
      else \<not> dq_empty (immediate_incoming_queue (tq s q)))"

definition HasPendingImmediateWorkLocked :: "nat \<Rightarrow> sched \<Rightarrow> bool" where
  "HasPendingImmediateWorkLocked q s =
     (\<not> wq_Empty (wq s (q, kDelayed)) \<or> \<not> wq_Empty (wq s (q, kImmediate)) \<or>
      \<not> dq_empty (immediate_incoming_queue (tq s q)))"

definition tq_HasTasks :: "nat \<Rightarrow> sched \<Rightarrow> bool" where
  "tq_HasTasks q s =
     (if \<not> wq_Empty (wq s (q, kDelayed)) then True
      else if \<not> wq_Empty (wq s (q, kImmediate)) then True
      else if \<not> di_empty (delayed_incoming_queue (tq s q)) then True
      else \<not> dq_empty (immediate_incoming_queue (tq s q)))"

definition GetNextScheduledWakeUpImpl :: "nat \<Rightarrow> sched \<Rightarrow> delayed_wake_up option" where
  "GetNextScheduledWakeUpImpl q s =
     (if di_empty (delayed_incoming_queue (tq s q)) \<or> \<not> IsQueueEnabled q s then None
      else Some (DelayedWakeUp_of (di_top (delayed_incoming_queue (tq s q)))))"

definition GetNextScheduledWakeUp :: "nat \<Rightarrow> sched \<Rightarrow> int option" where
  "GetNextScheduledWakeUp q s =
     (case GetNextScheduledWakeUpImpl q s of None \<Rightarrow> None | Some wake_up \<Rightarrow> Some (wu_time wake_up))"

definition IsUnregistered :: "nat \<Rightarrow> sched \<Rightarrow> bool" where
  "IsUnregistered q s = tq_unregistered (tq s q)"

section \<open>Wake-ups\<close>

definition UpdateDelayedWakeUpImpl :: "nat \<Rightarrow> int \<Rightarrow> delayed_wake_up option \<Rightarrow> sched \<Rightarrow> sched" where
  "UpdateDelayedWakeUpImpl q now wake_up s =
     (if scheduled_wake_up (tq s q) = wake_up then s
      else let s = upd_tq q (\<lambda>t. t\<lparr>scheduled_wake_up := wake_up\<rparr>) s;
               s = (case wake_up of None \<Rightarrow> s
                    | Some w \<Rightarrow>
                        if on_next_wake_up_changed_callback (tq s q) \<and> \<not> HasPendingImmediateWork q s
                        then run_wake_up_callback q (wu_time w) s else s);
               resolution =
                 (if has_pending_high_resolution_tasks (delayed_incoming_queue (tq s q)) then kHigh else kLow)
           in case time_domain (tq s q) of None \<Rightarrow> s
              | Some d \<Rightarrow> SetNextWakeUpForQueue d q wake_up resolution now s)"

definition UpdateDelayedWakeUp :: "nat \<Rightarrow> int \<Rightarrow> sched \<Rightarrow> sched" where
  "UpdateDelayedWakeUp q now s = UpdateDelayedWakeUpImpl q now (GetNextScheduledWakeUpImpl q s) s"

section \<open>Fences\<close>

datatype insert_fence_position = kNow | kBeginningOfTime

definition front_order :: "Task deque \<Rightarrow> enqueue_order" where
  "front_order d = task_enqueue_order (the (dq_front d))"

definition tq_InsertFence :: "nat \<Rightarrow> insert_fence_position \<Rightarrow> sched \<Rightarrow> sched" where
  "tq_InsertFence q position s =
     (let s = upd_tq q (\<lambda>t. t\<lparr>delayed_fence := None\<rparr>) s;
          previous_fence = current_fence (tq s q);
          (fence, s) = (if position = kNow then GetNextSequenceNumber s else (blocking_fence, s));
          s = upd_tq q (\<lambda>t. t\<lparr>current_fence := fence\<rparr>) s;
          (unblocked1, s) = wq_InsertFence (q, kImmediate) fence s;
          (unblocked2, s) = wq_InsertFence (q, kDelayed) fence s;
          task_unblocked = (unblocked1 \<or> unblocked2);
          incoming = immediate_incoming_queue (tq s q);
          task_unblocked =
            (task_unblocked \<or>
             \<not> task_unblocked \<and> previous_fence \<noteq> EnqueueOrder_none \<and> previous_fence < fence \<and>
             \<not> dq_empty incoming \<and> previous_fence < front_order incoming \<and> front_order incoming < fence);
          s = UpdateCrossThreadQueueStateLocked q s
      in if IsQueueEnabled q s \<and> task_unblocked then ScheduleWork s else s)"

definition tq_RemoveFence :: "nat \<Rightarrow> sched \<Rightarrow> sched" where
  "tq_RemoveFence q s =
     (let previous_fence = current_fence (tq s q);
          s = upd_tq q (\<lambda>t. t\<lparr>current_fence := EnqueueOrder_none, delayed_fence := None\<rparr>) s;
          (unblocked1, s) = wq_RemoveFence (q, kImmediate) s;
          (unblocked2, s) = wq_RemoveFence (q, kDelayed) s;
          task_unblocked = (unblocked1 \<or> unblocked2);
          incoming = immediate_incoming_queue (tq s q);
          task_unblocked =
            (task_unblocked \<or>
             \<not> task_unblocked \<and> previous_fence \<noteq> EnqueueOrder_none \<and>
             \<not> dq_empty incoming \<and> previous_fence < front_order incoming);
          s = UpdateCrossThreadQueueStateLocked q s
      in if IsQueueEnabled q s \<and> task_unblocked then ScheduleWork s else s)"

definition InsertFenceAt :: "nat \<Rightarrow> int \<Rightarrow> sched \<Rightarrow> sched" where
  "InsertFenceAt q time s = upd_tq q (\<lambda>t. t\<lparr>delayed_fence := Some time\<rparr>) (tq_RemoveFence q s)"

definition tq_BlockedByFence :: "nat \<Rightarrow> sched \<Rightarrow> bool" where
  "tq_BlockedByFence q s =
     (if current_fence (tq s q) = EnqueueOrder_none then False
      else if \<not> wq_BlockedByFence (wq s (q, kImmediate)) \<or> \<not> wq_BlockedByFence (wq s (q, kDelayed)) then False
      else if dq_empty (immediate_incoming_queue (tq s q)) then True
      else current_fence (tq s q) < front_order (immediate_incoming_queue (tq s q)))"

definition HasActiveFence :: "nat \<Rightarrow> sched \<Rightarrow> bool" where
  "HasActiveFence q s =
     (case delayed_fence (tq s q) of
        Some fence \<Rightarrow> fence < td_now q s \<or> current_fence (tq s q) \<noteq> EnqueueOrder_none
      | None \<Rightarrow> current_fence (tq s q) \<noteq> EnqueueOrder_none)"

definition CouldTaskRun :: "nat \<Rightarrow> enqueue_order \<Rightarrow> sched \<Rightarrow> bool" where
  "CouldTaskRun q enqueue_order s =
     (if \<not> IsQueueEnabled q s then False
      else if current_fence (tq s q) = EnqueueOrder_none then True
      else enqueue_order < current_fence (tq s q))"

definition ActivateDelayedFenceIfNeeded :: "nat \<Rightarrow> int \<Rightarrow> sched \<Rightarrow> sched" where
  "ActivateDelayedFenceIfNeeded q now s =
     (case delayed_fence (tq s q) of None \<Rightarrow> s
      | Some fence \<Rightarrow>
          if now < fence then s
          else upd_tq q (\<lambda>t. t\<lparr>delayed_fence := None\<rparr>) (tq_InsertFence q kNow s))"

section \<open>Moving due tasks\<close>

lemma wq_fence_ops_tq:
  "task_queues (snd (wq_InsertFence x f s)) = task_queues s" "task_queues (snd (wq_RemoveFence x s)) = task_queues s"
  by (simp_all add: wq_InsertFence_def wq_RemoveFence_def InsertFenceImpl_def Let_def
      sets_frame_reads [OF sets_ops_frame(2)] sets_frame_reads [OF sets_ops_frame(4)] split: option.split)

lemma UpdateCross_reads [simp]:
  "work_queues (UpdateCrossThreadQueueStateLocked q s) = work_queues s"
  "delayed_incoming_queue (tq (UpdateCrossThreadQueueStateLocked q s) q') = delayed_incoming_queue (tq s q')"
  "immediate_incoming_queue (tq (UpdateCrossThreadQueueStateLocked q s) q') = immediate_incoming_queue (tq s q')"
  "delayed_fence (tq (UpdateCrossThreadQueueStateLocked q s) q') = delayed_fence (tq s q')"
  by (simp_all add: UpdateCrossThreadQueueStateLocked_def)

lemma InsertFence_delayed:
  "delayed_incoming_queue (tq (tq_InsertFence q p s) q') = delayed_incoming_queue (tq s q')"
  by (simp add: tq_InsertFence_def Let_def GetNextSequenceNumber_def split_beta ScheduleWork_def
      wq_fence_ops_tq)

lemma ActivateDelayedFence_delayed:
  "delayed_incoming_queue (tq (ActivateDelayedFenceIfNeeded q now s) q') = delayed_incoming_queue (tq s q')"
  by (simp add: ActivateDelayedFenceIfNeeded_def InsertFence_delayed split: option.split)

text \<open>One round of the loop of \<open>MoveReadyDelayedTasksToWorkQueue\<close> for a task that is due: the
  pushed task carries a fresh enqueue order.\<close>

definition move_due :: "nat \<Rightarrow> Task \<Rightarrow> sched \<Rightarrow> sched" where
  "move_due q t s =
     (let s = ActivateDelayedFenceIfNeeded q (delayed_run_time t) s;
          (n, s) = GetNextSequenceNumber s;
          s = TaskPusher_Push (q, kDelayed) (set_enqueue_order n t) s
      in upd_delayed q di_pop s)"

lemma move_due_delayed:
  "delayed_incoming_queue (tq (move_due q t s) q) = di_pop (delayed_incoming_queue (tq s q))"
  by (simp add: move_due_def GetNextSequenceNumber_def TaskPusher_Push_def upd_delayed_def
      ActivateDelayedFence_delayed Let_def split_beta)

lemma upd_delayed_reads [simp]:
  "delayed_incoming_queue (tq (upd_delayed q f s) q') =
    (if q' = q then f (delayed_incoming_queue (tq s q)) else delayed_incoming_queue (tq s q'))"
  "work_queues (upd_delayed q f s) = work_queues s" "cancelled (upd_delayed q f s) = cancelled s"
  "enqueue_order_generator (upd_delayed q f s) = enqueue_order_generator s"
  "delayed_fence (tq (upd_delayed q f s) q') = delayed_fence (tq s q')"
  by (simp_all add: upd_delayed_def)

lemma di_pop_queue: "di_queue (di_pop d) = tl (di_queue d)"
  by (simp add: di_pop_def Let_def)

function move_ready :: "nat \<Rightarrow> int \<Rightarrow> sched \<Rightarrow> sched" where
  "move_ready q now s =
     (let d = delayed_incoming_queue (tq s q)
      in if di_empty d then s
         else if task_is_dead s (di_top d) then move_ready q now (upd_delayed q di_pop s)
         else if now < delayed_run_time (di_top d) then s
         else move_ready q now (move_due q (di_top d) s))"
  by pat_completeness auto
termination
  by (relation "measure (\<lambda>(q, now, s). di_size (delayed_incoming_queue (tq s q)))")
    (auto simp: di_size_def di_empty_def di_pop_queue move_due_delayed)

declare move_ready.simps [simp del]

definition MoveReadyDelayedTasksToWorkQueue :: "nat \<Rightarrow> int \<Rightarrow> sched \<Rightarrow> sched" where
  "MoveReadyDelayedTasksToWorkQueue q now s =
     (let was_empty = CreateTaskPusher (q, kDelayed) s;
          s = move_ready q now s;
          s = UpdateDelayedWakeUp q now s
      in TaskPusher_destroy (q, kDelayed) was_empty s)"

text \<open>\<open>TimeDomain::MoveReadyDelayedTasksToWorkQueues\<close>, the loop over the queues that are due, with
  fuel for its rounds: \<^term>\<open>None\<close> when it is used up.\<close>

fun td_MoveReady :: "nat \<Rightarrow> nat \<Rightarrow> int \<Rightarrow> sched \<Rightarrow> sched option" where
  "td_MoveReady fuel d now s =
     (if heap_empty (wheap s d) \<or> now < wu_time (sw_wake_up (heap_Min (wheap s d))) then Some s
      else case fuel of 0 \<Rightarrow> None
           | Suc fuel \<Rightarrow>
               td_MoveReady fuel d now (MoveReadyDelayedTasksToWorkQueue (sw_queue (heap_Min (wheap s d))) now s))"

declare td_MoveReady.simps [simp del]

section \<open>Posting\<close>

datatype current_thread = kMainThread | kNotMainThread

definition PostImmediateTaskImpl :: "nat \<Rightarrow> closure posted_task \<Rightarrow> sched \<Rightarrow> sched option" where
  "PostImmediateTaskImpl q posted s =
     (if closure_is_null (pt_callback posted) then None
      else Some
        (let add_queue_time = add_queue_time_to_tasks s;
             now = (if delayed_fence_allowed (tq s q) \<or> add_queue_time then td_now q s else 0);
             posted = (if add_queue_time then posted\<lparr>pt_queue_time := now\<rparr> else posted);
             (sequence_number, s) = GetNextSequenceNumber s;
             was_immediate_incoming_queue_empty = dq_empty (immediate_incoming_queue (tq s q));
             s = upd_tq q (\<lambda>t. t\<lparr>immediate_incoming_queue :=
                   dq_push_back (Task_make posted now sequence_number sequence_number kLow)
                     (immediate_incoming_queue t)\<rparr>) s
         in if was_immediate_incoming_queue_empty \<and> immediate_work_queue_empty (tq s q)
            then let s = set_flag_active True q s
                 in if post_immediate_task_should_schedule_work (tq s q) then ScheduleWork s else s
            else s))"

definition PushOntoDelayedIncomingQueueFromMainThread :: "nat \<Rightarrow> Task \<Rightarrow> int \<Rightarrow> sched \<Rightarrow> sched" where
  "PushOntoDelayedIncomingQueueFromMainThread q pending_task now s =
     UpdateDelayedWakeUp q now (upd_delayed q (di_push pending_task) s)"

definition PushOntoDelayedIncomingQueue :: "nat \<Rightarrow> user_closure sm_task \<Rightarrow> sched \<Rightarrow> sched option" where
  "PushOntoDelayedIncomingQueue q pending_task s =
     PostImmediateTaskImpl q
       (PostedTask_make (ScheduleDelayedWork q pending_task) ''FROM_HERE'' 0 kNonNestable (task_type pending_task)) s"

definition PostDelayedTaskImpl ::
  "nat \<Rightarrow> user_closure posted_task \<Rightarrow> current_thread \<Rightarrow> sched \<Rightarrow> sched option" where
  "PostDelayedTaskImpl q posted thread s =
     (if closure_is_null (User (pt_callback posted)) then None
      else let (sequence_number, s) = GetNextSequenceNumber s;
               time_domain_now = td_now q s;
               time_domain_delayed_run_time = ticks_plus time_domain_now (pt_delay posted);
               posted = (if add_queue_time_to_tasks s then posted\<lparr>pt_queue_time := time_domain_now\<rparr> else posted);
               t = Task_make posted time_domain_delayed_run_time sequence_number EnqueueOrder_none kLow
           in case thread of
                kMainThread \<Rightarrow>
                  Some (PushOntoDelayedIncomingQueueFromMainThread q (lift_task t) time_domain_now s)
              | kNotMainThread \<Rightarrow> PushOntoDelayedIncomingQueue q t s)"

definition lift_posted :: "user_closure posted_task \<Rightarrow> closure posted_task" where
  "lift_posted p = \<lparr>pt_callback = User (pt_callback p), pt_location = pt_location p, pt_delay = pt_delay p,
     pt_nestable = pt_nestable p, pt_task_type = pt_task_type p, pt_queue_time = pt_queue_time p\<rparr>"

definition tq_PostTask :: "nat \<Rightarrow> user_closure posted_task \<Rightarrow> current_thread \<Rightarrow> sched \<Rightarrow> sched option" where
  "tq_PostTask q posted thread s =
     (if pt_delay posted = 0 then PostImmediateTaskImpl q (lift_posted posted) s
      else PostDelayedTaskImpl q posted thread s)"

text \<open>\<open>GuardedTaskPoster::PostTask\<close>: the queue accepts the task only between
  \<open>StartAcceptingOperations\<close> and shutdown; the token is given back afterwards.\<close>

definition GuardedTaskPoster_PostTask ::
  "nat \<Rightarrow> user_closure posted_task \<Rightarrow> current_thread \<Rightarrow> sched \<Rightarrow> (bool \<times> sched) option" where
  "GuardedTaskPoster_PostTask q posted thread s =
     (let (token, c) = TryBeginOperation (task_poster (tq s q));
          s = upd_tq q (\<lambda>t. t\<lparr>task_poster := c\<rparr>) s
      in if \<not> token then Some (False, s)
         else case tq_PostTask q posted thread s of None \<Rightarrow> None
              | Some s \<Rightarrow> Some (True, upd_tq q (\<lambda>t. t\<lparr>task_poster := DecrementBy 1 (task_poster t)\<rparr>) s))"

definition TaskRunner_PostDelayedTask ::
  "nat \<Rightarrow> u8 \<Rightarrow> string \<Rightarrow> user_closure \<Rightarrow> int \<Rightarrow> current_thread \<Rightarrow> sched \<Rightarrow> (bool \<times> sched) option" where
  "TaskRunner_PostDelayedTask q type location callback delay thread s =
     GuardedTaskPoster_PostTask q (PostedTask_make callback location delay kNestable type) thread s"

definition TaskRunner_PostNonNestableDelayedTask ::
  "nat \<Rightarrow> u8 \<Rightarrow> string \<Rightarrow> user_closure \<Rightarrow> int \<Rightarrow> current_thread \<Rightarrow> sched \<Rightarrow> (bool \<times> sched) option" where
  "TaskRunner_PostNonNestableDelayedTask q type location callback delay thread s =
     GuardedTaskPoster_PostTask q (PostedTask_make callback location delay kNonNestable type) thread s"

definition ScheduleDelayedWorkTask :: "nat \<Rightarrow> user_closure sm_task \<Rightarrow> sched \<Rightarrow> sched" where
  "ScheduleDelayedWorkTask q pending_task s =
     (let time_domain_now = td_now q s
      in if delayed_run_time pending_task \<le> time_domain_now
         then MoveReadyDelayedTasksToWorkQueue q time_domain_now
                (upd_delayed q (di_push (lift_task (pending_task\<lparr>delayed_run_time := time_domain_now\<rparr>))) s)
         else PushOntoDelayedIncomingQueueFromMainThread q (lift_task pending_task) time_domain_now s)"

definition ReloadEmptyImmediateWorkQueue :: "nat \<Rightarrow> sched \<Rightarrow> sched" where
  "ReloadEmptyImmediateWorkQueue q s =
     (let s = wq_TakeImmediateIncomingQueueTasks q s
      in if on_next_wake_up_changed_callback (tq s q) \<and> IsQueueEnabled q s
         then run_wake_up_callback q 0 s else s)"

section \<open>Managing a queue\<close>

definition SetQueuePriority :: "nat \<Rightarrow> nat \<Rightarrow> sched \<Rightarrow> sched" where
  "SetQueuePriority q priority s =
     (if priority = GetQueuePriority q s then s else sel_SetQueuePriority q priority s)"

definition SetTimeDomain :: "nat \<Rightarrow> nat \<Rightarrow> sched \<Rightarrow> sched" where
  "SetTimeDomain q d s =
     (if tq_unregistered (tq s q) then s
      else if time_domain (tq s q) = Some d then s
      else let s = (case time_domain (tq s q) of None \<Rightarrow> s | Some old \<Rightarrow> UnregisterQueue old q s);
               s = upd_tq q (\<lambda>t. t\<lparr>time_domain := Some d, scheduled_wake_up := None\<rparr>) s
           in UpdateDelayedWakeUp q (clock s d) s)"

definition SetOnNextWakeUpChangedCallback :: "nat \<Rightarrow> bool \<Rightarrow> sched \<Rightarrow> sched" where
  "SetOnNextWakeUpChangedCallback q callback s =
     upd_tq q (\<lambda>t. t\<lparr>on_next_wake_up_changed_callback := callback\<rparr>) s"

definition OnTaskQueueEnabled :: "nat \<Rightarrow> sched \<Rightarrow> sched" where
  "OnTaskQueueEnabled q s =
     (if HasTaskToRunImmediately q s \<and> \<not> tq_BlockedByFence q s then ScheduleWork s else s)"

definition EnableOrDisableWithSelector :: "nat \<Rightarrow> bool \<Rightarrow> sched \<Rightarrow> sched" where
  "EnableOrDisableWithSelector q enable s =
     (let s = UpdateDelayedWakeUp q (td_now q s) s;
          s = UpdateCrossThreadQueueStateLocked q s;
          has_pending_immediate_work = HasPendingImmediateWorkLocked q s
      in if enable
         then let s = (if has_pending_immediate_work \<and> on_next_wake_up_changed_callback (tq s q)
                       then run_wake_up_callback q 0 s else s)
              in sel_EnableQueue OnTaskQueueEnabled q s
         else sel_DisableQueue q s)"

definition SetQueueEnabled :: "nat \<Rightarrow> bool \<Rightarrow> sched \<Rightarrow> sched" where
  "SetQueueEnabled q enabled s =
     (if is_enabled (tq s q) \<noteq> enabled
      then EnableOrDisableWithSelector q enabled (upd_tq q (\<lambda>t. t\<lparr>is_enabled := enabled\<rparr>) s) else s)"

definition tq_ReclaimMemory :: "nat \<Rightarrow> int \<Rightarrow> sched \<Rightarrow> sched" where
  "tq_ReclaimMemory q now s =
     (if di_empty (delayed_incoming_queue (tq s q)) then s
      else let s = upd_delayed q (SweepCancelledTasks (\<lambda>t. closure_IsCancelled (cancelled s) (task t))) s;
               s = wq_MaybeShrinkQueue (q, kDelayed) s;
               s = wq_MaybeShrinkQueue (q, kImmediate) s;
               s = upd_tq q (\<lambda>t. t\<lparr>immediate_incoming_queue :=
                     MaybeShrinkQueue (clock s 0) (immediate_incoming_queue t)\<rparr>) s
           in UpdateDelayedWakeUp q now s)"

definition requeue_to_front :: "deferred_task \<Rightarrow> sched \<Rightarrow> sched" where
  "requeue_to_front t s =
     (let q = df_queue t
      in if df_type t = kDelayed then PushNonNestableTaskToFront (q, kDelayed) (df_task t) s
         else if wq_Empty (wq s (q, kImmediate))
         then let s = set_flag_active False q s;
                  s = upd_tq q (\<lambda>t. t\<lparr>immediate_work_queue_empty := False\<rparr>) s
              in PushNonNestableTaskToFront (q, kImmediate) (df_task t) s
         else PushNonNestableTaskToFront (q, kImmediate) (df_task t) s)"

text \<open>\<open>UnregisterTaskQueue\<close> moves both work queues out of the queue, which stays alive among the queues
  to delete while a run loop is nested: requeueing a task for it dereferences a null pointer,
  \<^term>\<open>None\<close>.\<close>

definition RequeueDeferredNonNestableTask :: "deferred_task \<Rightarrow> sched \<Rightarrow> sched option" where
  "RequeueDeferredNonNestableTask t s =
     (if tq_unregistered (tq s (df_queue t)) then None else Some (requeue_to_front t s))"

definition tq_DeletePendingTasks :: "nat \<Rightarrow> sched \<Rightarrow> sched" where
  "tq_DeletePendingTasks q s =
     (let s = wq_DeletePendingTasks (q, kDelayed) s;
          s = wq_DeletePendingTasks (q, kImmediate) s;
          s = upd_delayed q (\<lambda>d. fst (di_swap d DelayedIncomingQueue_new)) s;
          s = upd_tq q (\<lambda>t. t\<lparr>immediate_incoming_queue := snd (dq_swap deque_new (immediate_incoming_queue t)),
                immediate_work_queue_empty := True\<rparr>) s;
          s = set_flag_active False q s
      in UpdateDelayedWakeUp q (td_now q s) s)"

section \<open>Creation and destruction\<close>

record queue_spec =
  spec_name :: string
  spec_should_monitor_quiescence :: bool
  spec_time_domain :: "nat option"
  spec_should_notify_observers :: bool
  spec_delayed_fence_allowed :: bool

text \<open>\<open>SequenceManagerImpl::GetFlagToRequestReloadForEmptyQueue\<close>: the callback of the flag is the
  queue's \<open>ReloadEmptyImmediateWorkQueue\<close>, named by the queue.\<close>

definition GetFlagToRequestReloadForEmptyQueue :: "nat \<Rightarrow> sched \<Rightarrow> atomic_flag \<times> sched" where
  "GetFlagToRequestReloadForEmptyQueue q s =
     (let (f, a) = AddFlag q (empty_queues_to_reload s) in (f, s\<lparr>empty_queues_to_reload := a\<rparr>))"

definition TaskQueueImpl_new :: "nat \<Rightarrow> nat \<Rightarrow> queue_spec \<Rightarrow> sched \<Rightarrow> sched" where
  "TaskQueueImpl_new q d spec s =
     (let (f, s) = GetFlagToRequestReloadForEmptyQueue q s;
          s = upd_wq (q, kDelayed) (\<lambda>_. WorkQueue_new) s;
          s = upd_wq (q, kImmediate) (\<lambda>_. WorkQueue_new) s;
          s = upd_tq q (\<lambda>_. \<lparr>tq_name = spec_name spec, immediate_incoming_queue = deque_new,
                tq_unregistered = False, immediate_work_queue_empty = True,
                post_immediate_task_should_schedule_work = True, time_domain = Some d,
                delayed_incoming_queue = DelayedIncomingQueue_new, is_enabled = True,
                current_fence = EnqueueOrder_none, delayed_fence = None, scheduled_wake_up = None,
                on_next_wake_up_changed_callback = False,
                delayed_fence_allowed = spec_delayed_fence_allowed spec,
                should_monitor_quiescence = spec_should_monitor_quiescence spec,
                should_notify_observers = spec_should_notify_observers spec,
                task_poster = OperationsController_new, empty_queues_to_reload_handle = f\<rparr>) s;
          s = UpdateCrossThreadQueueStateLocked q s
      in upd_tq q (\<lambda>t. t\<lparr>task_poster := snd (StartAcceptingOperations (task_poster t))\<rparr>) s)"

text \<open>\<open>ShutdownAndWaitForZeroOperations\<close> called when no poster is inside an operation, so that it
  does not wait: it undoes the increments of rejected attempts, if the queue never accepted any.\<close>

definition shutdown_poster :: "operations_controller \<Rightarrow> operations_controller" where
  "shutdown_poster c =
     (let (st, n, c) = Shutdown_or c in if st = kRejectingOperations then DecrementBy n c else c)"

definition UnregisterTaskQueue :: "nat \<Rightarrow> sched \<Rightarrow> sched" where
  "UnregisterTaskQueue q s =
     (let s = upd_tq q (\<lambda>t. t\<lparr>task_poster := shutdown_poster (task_poster t)\<rparr>) s;
          s = upd_tq q (\<lambda>t. t\<lparr>tq_unregistered := True,
                immediate_incoming_queue := snd (dq_swap deque_new (immediate_incoming_queue t))\<rparr>) s;
          s = (case time_domain (tq s q) of None \<Rightarrow> s | Some d \<Rightarrow> UnregisterQueue d q s);
          s = upd_tq q (\<lambda>t. t\<lparr>time_domain := None, on_next_wake_up_changed_callback := False\<rparr>) s;
          s = s\<lparr>empty_queues_to_reload :=
                ReleaseAtomicFlag (empty_queues_to_reload_handle (tq s q)) (empty_queues_to_reload s)\<rparr>;
          s = upd_tq q (\<lambda>t. t\<lparr>empty_queues_to_reload_handle := None\<rparr>) s;
          s = upd_delayed q (\<lambda>d. snd (di_swap DelayedIncomingQueue_new d)) s;
          s = upd_wq (q, kImmediate) (\<lambda>w. w\<lparr>tasks := deque_new\<rparr>) s
      in upd_wq (q, kDelayed) (\<lambda>w. w\<lparr>tasks := deque_new\<rparr>) s)"

text \<open>Posting fails its check exactly for the null callback.\<close>

lemma only_null_callbacks_fail:
  "tq_PostTask q posted thread s = None \<longleftrightarrow> pt_callback posted = NullCallback"
  by (cases "pt_callback posted") (auto simp: tq_PostTask_def PostImmediateTaskImpl_def PostDelayedTaskImpl_def
      PushOntoDelayedIncomingQueue_def PostedTask_make_def lift_posted_def Let_def split_beta split: current_thread.split)

end
