(* ===== verification/Queue_Sync.thy ===== *)
theory Queue_Sync
  imports Task_Queue
begin

text \<open>
  Every operation of a task queue leaves the work queue sets in step with what the work queues show
  (\<^term>\<open>in_sync\<close>), so that the selector, which only looks at the sets, sees every queue with a task
  that may run and no other; and the fences do what the interface promises.
\<close>

section \<open>Changes that the sets cannot see\<close>

definition sync_frame :: "sched \<Rightarrow> sched \<Rightarrow> bool" where
  "sync_frame s t \<longleftrightarrow> work_queues t = work_queues s \<and> heap_handles t = heap_handles s \<and>
     work_queue_heaps t = work_queue_heaps s \<and> non_empty_set_counts t = non_empty_set_counts s \<and>
     active_priorities t = active_priorities s \<and> selection_count t = selection_count s \<and>
     (\<forall>q. immediate_incoming_queue (tq t q) = immediate_incoming_queue (tq s q))"

lemma sync_frame_refl: "sync_frame s s"
  by (simp add: sync_frame_def)

lemma sync_frame_trans: "sync_frame s t \<Longrightarrow> sync_frame t u \<Longrightarrow> sync_frame s u"
  by (simp add: sync_frame_def)

lemma sync_frameD:
  assumes "sync_frame s t"
  shows "work_queues t = work_queues s" "in_sync t = in_sync s" "in_sync_but x r t = in_sync_but x r s"
    "expected t = expected s" "queues_ok t = queues_ok s"
    "immediate_incoming_queue (tq t q) = immediate_incoming_queue (tq s q)"
    "heap_handle_valid x t = heap_handle_valid x s"
  using assms sync_cong [of t s] by (auto simp: sync_frame_def queues_ok_def heap_handle_valid_def)

lemma sync_frame_upd_tq:
  "immediate_incoming_queue (f (tq s q)) = immediate_incoming_queue (tq s q) \<Longrightarrow> sync_frame s (upd_tq q f s)"
  by (simp add: sync_frame_def)

lemma sync_frame_emit: "sync_frame s (emit e s)"
  by (simp add: sync_frame_def)

lemma sync_frame_next: "sync_frame s (snd (GetNextSequenceNumber s))"
  by (simp add: sync_frame_def GetNextSequenceNumber_def GenerateNext_def)

lemma sync_frame_wake: "wake_frame s t \<Longrightarrow> sync_frame s t"
  by (simp add: sync_frame_def wake_frame_reads)

lemma SetNextWakeUp_frame: "wake_frame s (SetNextWakeUpForQueue d q w r now s)"
proof -
  have e: "wake_frame s t \<Longrightarrow> wake_frame s (upd_td d g t)" "wake_frame s t \<Longrightarrow> wake_frame s (emit e t)" for s t d g e
    using wake_frame_trans wake_updates_frame by blast+
  show ?thesis
    by (simp add: SetNextWakeUpForQueue_def Let_def RequestDoWork_def td_SetNextDelayedDoWork_def ScheduleWork_def
        SetNextDelayedDoWork_def e update_wake_heap_frame)
qed

lemma sync_frame_ops:
  "sync_frame s (UpdateCrossThreadQueueStateLocked q s)" "sync_frame s (set_flag_active b q s)"
  "sync_frame s (upd_delayed q g s)" "sync_frame s (ScheduleWork s)" "sync_frame s (run_wake_up_callback q n s)"
  by (simp_all add: sync_frame_def UpdateCrossThreadQueueStateLocked_def set_flag_active_def upd_delayed_def
      ScheduleWork_def run_wake_up_callback_def split: option.split)

lemma UpdateDelayedWakeUp_sync_frame: "sync_frame s (UpdateDelayedWakeUp q now s)"
proof -
  have "sync_frame s (UpdateDelayedWakeUpImpl q now w s)" for w
  proof (cases "scheduled_wake_up (tq s q) = w")
    case True
    then show ?thesis by (simp add: UpdateDelayedWakeUpImpl_def sync_frame_refl)
  next
    case False
    let ?s1 = "upd_tq q (\<lambda>t. t\<lparr>scheduled_wake_up := w\<rparr>) s"
    have 1: "sync_frame s ?s1" by (rule sync_frame_upd_tq) simp
    define s2 where "s2 = (case w of None \<Rightarrow> ?s1
                    | Some w \<Rightarrow>
                        if on_next_wake_up_changed_callback (tq ?s1 q) \<and> \<not> HasPendingImmediateWork q ?s1
                        then run_wake_up_callback q (wu_time w) ?s1 else ?s1)"
    have "sync_frame ?s1 s2" unfolding s2_def using sync_frame_ops(5) sync_frame_refl by (auto split: option.split)
    then have 2: "sync_frame s s2" using sync_frame_trans [OF 1] by blast
    have "sync_frame s2 (case time_domain (tq s2 q) of None \<Rightarrow> s2 | Some d \<Rightarrow> SetNextWakeUpForQueue d q w r now s2)" for r
      using sync_frame_wake [OF SetNextWakeUp_frame] sync_frame_refl by (auto split: option.split)
    from sync_frame_trans [OF 2 this] show ?thesis
      using False unfolding UpdateDelayedWakeUpImpl_def Let_def s2_def by simp
  qed
  then show ?thesis by (simp add: UpdateDelayedWakeUp_def)
qed

section \<open>Fences\<close>

lemma tq_InsertFence_unfold:
  "\<exists>fence s1 u. sync_frame s s1 \<and>
     (if p = kNow then fence = enqueue_order_generator s else fence = blocking_fence) \<and>
     u = snd (wq_InsertFence (q, kDelayed) fence (snd (wq_InsertFence (q, kImmediate) fence s1))) \<and>
     sync_frame u (tq_InsertFence q p s)"
proof -
  define s0 where "s0 = upd_tq q (\<lambda>t. t\<lparr>delayed_fence := None\<rparr>) s"
  define fe where "fe = (if p = kNow then GetNextSequenceNumber s0 else (blocking_fence, s0))"
  define s1 where "s1 = upd_tq q (\<lambda>t. t\<lparr>current_fence := fst fe\<rparr>) (snd fe)"
  define u where "u = snd (wq_InsertFence (q, kDelayed) (fst fe) (snd (wq_InsertFence (q, kImmediate) (fst fe) s1)))"
  have a: "sync_frame s s0" unfolding s0_def by (rule sync_frame_upd_tq) simp
  have b: "sync_frame s0 (snd fe)" using sync_frame_next sync_frame_refl by (simp add: fe_def)
  have c: "sync_frame (snd fe) s1" unfolding s1_def by (rule sync_frame_upd_tq) simp
  have "sync_frame s s1" using sync_frame_trans [OF sync_frame_trans [OF a b] c] .
  moreover have "if p = kNow then fst fe = enqueue_order_generator s else fst fe = blocking_fence"
    by (simp add: fe_def s0_def GetNextSequenceNumber_def GenerateNext_def)
  moreover have "sync_frame u (tq_InsertFence q p s)"
  proof -
    have "sync_frame u (if P then ScheduleWork (UpdateCrossThreadQueueStateLocked q u)
        else UpdateCrossThreadQueueStateLocked q u)" for P
      using sync_frame_ops(1,4) sync_frame_trans by (cases P) (auto, metis)
    then show ?thesis
      unfolding tq_InsertFence_def Let_def s0_def [symmetric] fe_def [symmetric] split_beta s1_def [symmetric]
        u_def [symmetric] by simp
  qed
  ultimately show ?thesis using u_def by blast
qed

lemma tq_InsertFence_sync:
  assumes "queues_ok s" "in_sync s"
  shows "in_sync (tq_InsertFence q p s)" "queues_ok (tq_InsertFence q p s)"
proof -
  obtain fence s1 u where f: "sync_frame s s1"
    "u = snd (wq_InsertFence (q, kDelayed) fence (snd (wq_InsertFence (q, kImmediate) fence s1)))"
    "sync_frame u (tq_InsertFence q p s)"
    using tq_InsertFence_unfold [of s p q] by blast
  have "in_sync s1" "queues_ok s1" using assms sync_frameD [OF f(1)] by auto
  then have "in_sync u" "queues_ok u" unfolding f(2) by (simp_all add: wq_InsertFence_sync)
  then show "in_sync (tq_InsertFence q p s)" "queues_ok (tq_InsertFence q p s)" using sync_frameD [OF f(3)] by auto
qed

lemma tq_RemoveFence_unfold:
  "\<exists>s1 u. sync_frame s s1 \<and> u = snd (wq_RemoveFence (q, kDelayed) (snd (wq_RemoveFence (q, kImmediate) s1))) \<and>
     sync_frame u (tq_RemoveFence q s)"
proof -
  define s1 where "s1 = upd_tq q (\<lambda>t. t\<lparr>current_fence := EnqueueOrder_none, delayed_fence := None\<rparr>) s"
  define u where "u = snd (wq_RemoveFence (q, kDelayed) (snd (wq_RemoveFence (q, kImmediate) s1)))"
  have "sync_frame s s1" unfolding s1_def by (rule sync_frame_upd_tq) simp
  moreover have "sync_frame u (tq_RemoveFence q s)"
  proof -
    have "sync_frame u (if P then ScheduleWork (UpdateCrossThreadQueueStateLocked q u)
        else UpdateCrossThreadQueueStateLocked q u)" for P
      using sync_frame_ops(1,4) sync_frame_trans by (cases P) (auto, metis)
    then show ?thesis
      unfolding tq_RemoveFence_def Let_def split_beta s1_def [symmetric] u_def [symmetric] by simp
  qed
  ultimately show ?thesis using u_def by blast
qed

lemma tq_RemoveFence_sync:
  assumes "queues_ok s" "in_sync s"
  shows "in_sync (tq_RemoveFence q s)" "queues_ok (tq_RemoveFence q s)"
proof -
  obtain s1 u where f: "sync_frame s s1"
    "u = snd (wq_RemoveFence (q, kDelayed) (snd (wq_RemoveFence (q, kImmediate) s1)))"
    "sync_frame u (tq_RemoveFence q s)"
    using tq_RemoveFence_unfold [of s q] by blast
  have "in_sync s1" "queues_ok s1" using assms sync_frameD [OF f(1)] by auto
  then have "in_sync u" "queues_ok u" unfolding f(2) by (simp_all add: wq_RemoveFence_sync)
  then show "in_sync (tq_RemoveFence q s)" "queues_ok (tq_RemoveFence q s)" using sync_frameD [OF f(3)] by auto
qed


text \<open>A fence inserted now has the next enqueue order: it hides every later task of the queue and no
  earlier one. The fence at the beginning of time hides every task.\<close>

lemma wq_fence_writes:
  "work_queues (snd (wq_InsertFence x f s)) = (work_queues s)(x := (wq s x)\<lparr>wq_fence := f\<rparr>)"
  "work_queues (snd (wq_RemoveFence x s)) = (work_queues s)(x := (wq s x)\<lparr>wq_fence := 0\<rparr>)"
  by (simp_all add: wq_InsertFence_def wq_RemoveFence_def InsertFenceImpl_def Let_def EnqueueOrder_none_def
      sets_frame_reads [OF sets_ops_frame(2)] sets_frame_reads [OF sets_ops_frame(4)] split: option.split)

lemma tq_InsertFence_fences:
  "wq (tq_InsertFence q p s) (q', w) =
     (if q' = q then (wq s (q, w))\<lparr>wq_fence := (if p = kNow then enqueue_order_generator s else blocking_fence)\<rparr>
      else wq s (q', w))"
proof -
  obtain fence s1 u where f: "sync_frame s s1" "if p = kNow then fence = enqueue_order_generator s else fence = blocking_fence"
    "u = snd (wq_InsertFence (q, kDelayed) fence (snd (wq_InsertFence (q, kImmediate) fence s1)))"
    "sync_frame u (tq_InsertFence q p s)"
    using tq_InsertFence_unfold [of s p q] by blast
  show ?thesis
    using f(2) unfolding sync_frameD(1) [OF f(4)] f(3) wq_fence_writes sync_frameD(1) [OF f(1)]
    by (cases w) (auto split: if_splits)
qed

lemma tq_RemoveFence_fences:
  "wq (tq_RemoveFence q s) (q', w) = (if q' = q then (wq s (q, w))\<lparr>wq_fence := 0\<rparr> else wq s (q', w))"
proof -
  obtain s1 u where f: "sync_frame s s1"
    "u = snd (wq_RemoveFence (q, kDelayed) (snd (wq_RemoveFence (q, kImmediate) s1)))"
    "sync_frame u (tq_RemoveFence q s)"
    using tq_RemoveFence_unfold [of s q] by blast
  show ?thesis
    unfolding sync_frameD(1) [OF f(3)] f(2) wq_fence_writes sync_frameD(1) [OF f(1)] by (cases w) auto
qed

lemma expected_list:
  assumes "queues_ok s"
  shows "expected s x = (case dq_list (tasks (wq s x)) of [] \<Rightarrow> None
    | t # _ \<Rightarrow> if work_queue_sets (wq s x) = Some (snd x) \<and> \<not> (wq_fence (wq s x) \<noteq> 0 \<and> wq_fence (wq s x) \<le> task_enqueue_order t)
              then Some (work_queue_set_index (wq s x), task_enqueue_order t) else None)"
  using GetFrontTaskEnqueueOrder_list [OF wfD(1) [OF assms, of x]]
  by (auto simp: expected_def split: list.split)

lemma InsertFence_now_expected:
  assumes ok: "queues_ok s" and s: "in_sync s" and g: "enqueue_order_generator s \<noteq> 0"
  shows "expected (tq_InsertFence q kNow s) (q, w) =
    (case dq_list (tasks (wq s (q, w))) of [] \<Rightarrow> None
     | t # _ \<Rightarrow> if work_queue_sets (wq s (q, w)) = Some w \<and> task_enqueue_order t < enqueue_order_generator s
               then Some (work_queue_set_index (wq s (q, w)), task_enqueue_order t) else None)"
proof -
  have "expected (tq_InsertFence q kNow s) (q, w) = expected (upd_wq (q, w) (\<lambda>x. x\<lparr>wq_fence := enqueue_order_generator s\<rparr>) s) (q, w)"
    by (simp add: expected_def tq_InsertFence_fences)
  also have "\<dots> = (case dq_list (tasks (wq s (q, w))) of [] \<Rightarrow> None
     | t # _ \<Rightarrow> if work_queue_sets (wq s (q, w)) = Some w \<and> task_enqueue_order t < enqueue_order_generator s
               then Some (work_queue_set_index (wq s (q, w)), task_enqueue_order t) else None)"
    using expected_list [OF wf_set_fence [OF ok, of "(q, w)" "enqueue_order_generator s"], of "(q, w)"] g
    by (auto simp: not_le split: list.split)
  finally show ?thesis .
qed

lemma RemoveFence_expected:
  assumes ok: "queues_ok s"
  shows "expected (tq_RemoveFence q s) (q, w) =
    (case dq_list (tasks (wq s (q, w))) of [] \<Rightarrow> None
     | t # _ \<Rightarrow> if work_queue_sets (wq s (q, w)) = Some w
               then Some (work_queue_set_index (wq s (q, w)), task_enqueue_order t) else None)"
proof -
  have "expected (tq_RemoveFence q s) (q, w) = expected (upd_wq (q, w) (\<lambda>x. x\<lparr>wq_fence := 0\<rparr>) s) (q, w)"
    by (simp add: expected_def tq_RemoveFence_fences)
  then show ?thesis
    using expected_list [OF wf_set_fence [OF ok, of "(q, w)" 0], of "(q, w)"] by (auto split: list.split)
qed

section \<open>Moving due tasks\<close>

primrec stamp :: "enqueue_order \<Rightarrow> Task list \<Rightarrow> Task list" where
  "stamp c [] = []"
| "stamp c (t # ts) = set_enqueue_order c t # stamp (c + 1) ts"

definition due :: "sched \<Rightarrow> int \<Rightarrow> Task \<Rightarrow> bool" where
  "due s now t \<longleftrightarrow> task_is_dead s t \<or> delayed_run_time t \<le> now"

text \<open>The tasks that a move takes: those that are due and not cancelled, among the first that are
  due or cancelled.\<close>

definition due_tasks :: "sched \<Rightarrow> int \<Rightarrow> Task list \<Rightarrow> Task list" where
  "due_tasks s now ts = filter (\<lambda>t. \<not> task_is_dead s t) (takeWhile (due s now) ts)"

lemma task_is_dead_cong: "cancelled s = cancelled t \<Longrightarrow> task_is_dead s = task_is_dead t"
  unfolding task_is_dead_def by simp

lemma due_cong: "cancelled s = cancelled t \<Longrightarrow> due s = due t"
  using task_is_dead_cong by (auto simp: due_def fun_eq_iff)

lemma due_tasks_cong: "cancelled s = cancelled t \<Longrightarrow> due_tasks s = due_tasks t"
  unfolding due_tasks_def using task_is_dead_cong [of s t] due_cong [of s t] by simp

lemma move_due_no_fence:
  assumes "delayed_fence (tq s q) = None"
  shows "move_due q t s = upd_delayed q di_pop
    (set_tasks (q, kDelayed) (dq_push_back (set_enqueue_order (enqueue_order_generator s) t) (tasks (wq s (q, kDelayed))))
      (s\<lparr>enqueue_order_generator := enqueue_order_generator s + 1\<rparr>))"
  using assms by (simp add: move_due_def ActivateDelayedFenceIfNeeded_def GetNextSequenceNumber_def GenerateNext_def
      TaskPusher_Push_def Let_def)

definition moved :: "nat \<Rightarrow> int \<Rightarrow> sched \<Rightarrow> sched \<Rightarrow> bool" where
  "moved q now s u \<longleftrightarrow>
     (\<exists>d. dq_inv d \<and> dq_list d = dq_list (tasks (wq s (q, kDelayed))) @
             stamp (enqueue_order_generator s) (due_tasks s now (di_queue (delayed_incoming_queue (tq s q)))) \<and>
        sync_frame (set_tasks (q, kDelayed) d s) u) \<and>
     di_queue (delayed_incoming_queue (tq u q)) = dropWhile (due s now) (di_queue (delayed_incoming_queue (tq s q))) \<and>
     enqueue_order_generator u = enqueue_order_generator s +
       of_nat (length (due_tasks s now (di_queue (delayed_incoming_queue (tq s q))))) \<and>
     (\<exists>W n d. u = s\<lparr>work_queues := W, enqueue_order_generator := n, task_queues := (task_queues s)(q := (tq s q)\<lparr>delayed_incoming_queue := d\<rparr>)\<rparr>)"

lemma sync_frame_set_tasks: "sync_frame s t \<Longrightarrow> sync_frame (set_tasks x d s) (set_tasks x d t)"
  by (simp add: sync_frame_def set_tasks_def)

lemma set_tasks_twice: "set_tasks x e (set_tasks x d s) = set_tasks x e s"
  by (simp add: set_tasks_def upd_wq_def)

lemma sync_frame_gen: "sync_frame s (s\<lparr>enqueue_order_generator := n\<rparr>)"
  by (simp add: sync_frame_def)

lemma moved_refl:
  assumes ok: "queues_ok s" and n: "takeWhile (due s now) (di_queue (delayed_incoming_queue (tq s q))) = []"
  shows "moved q now s s"
proof -
  let ?d = "delayed_incoming_queue (tq s q)" and ?w = "tasks (wq s (q, kDelayed))"
  have dd: "due_tasks s now (di_queue ?d) = []" using n by (simp add: due_tasks_def)
  have dw: "dropWhile (due s now) (di_queue ?d) = di_queue ?d"
    using n takeWhile_dropWhile_id [of "due s now" "di_queue ?d"] by simp
  have st: "set_tasks (q, kDelayed) ?w s = s" by (simp add: set_tasks_def upd_wq_def)
  have "\<exists>W n d. s = s\<lparr>work_queues := W, enqueue_order_generator := n,
      task_queues := (task_queues s)(q := (tq s q)\<lparr>delayed_incoming_queue := d\<rparr>)\<rparr>"
    by (rule exI [of _ "work_queues s"], rule exI [of _ "enqueue_order_generator s"], rule exI [of _ ?d]) simp
  moreover have "\<exists>d. dq_inv d \<and> dq_list d = dq_list ?w @ stamp (enqueue_order_generator s) [] \<and>
      sync_frame (set_tasks (q, kDelayed) d s) s"
    by (rule exI [of _ ?w]) (simp add: wfD(1) [OF ok] st sync_frame_refl)
  ultimately show ?thesis unfolding moved_def dd dw by simp
qed

lemma moved_step:
  assumes q: "di_queue (delayed_incoming_queue (tq s q)) = t # ts" and du: "due s now t"
    and new: "new = (if task_is_dead s t then [] else [t])"
    and s': "s' = upd_delayed q di_pop (set_tasks (q, kDelayed) w (s\<lparr>enqueue_order_generator := g\<rparr>))"
    and w: "dq_list w = dq_list (tasks (wq s (q, kDelayed))) @ stamp (enqueue_order_generator s) new"
    and g: "g = enqueue_order_generator s + of_nat (length new)"
    and m: "moved q now s' u"
  shows "moved q now s u"
proof -
  have c: "cancelled s' = cancelled s" by (simp add: s' set_tasks_def)
  have ts: "di_queue (delayed_incoming_queue (tq s' q)) = ts" using q by (simp add: s' di_pop_queue)
  have eq: "enqueue_order_generator s' = g" "tasks (wq s' (q, kDelayed)) = w" by (simp_all add: s' set_tasks_def)
  have dt: "due_tasks s now (t # ts) = new @ due_tasks s now ts" using du new by (simp add: due_tasks_def)
  have st: "stamp g xs = stamp (enqueue_order_generator s + of_nat (length new)) xs" for xs by (simp add: g)
  have ap: "stamp c new @ stamp (c + of_nat (length new)) xs = stamp c (new @ xs)" for c xs
    using new by simp
  obtain d where d: "dq_inv d" "dq_list d = dq_list w @ stamp g (due_tasks s now ts)"
      "sync_frame (set_tasks (q, kDelayed) d s') u"
    using m unfolding moved_def ts due_tasks_cong [OF c] eq by blast
  have "sync_frame (set_tasks (q, kDelayed) d s) (set_tasks (q, kDelayed) d s')"
    by (simp add: s' sync_frame_def set_tasks_def upd_delayed_def)
  note f = sync_frame_trans [OF this d(3)]
  have l: "dq_list d = dq_list (tasks (wq s (q, kDelayed))) @ stamp (enqueue_order_generator s) (due_tasks s now (t # ts))"
    unfolding d(2) w st dt ap [symmetric] by simp
  have rest: "di_queue (delayed_incoming_queue (tq u q)) = dropWhile (due s now) ts"
      "enqueue_order_generator u = g + of_nat (length (due_tasks s now ts))"
    using m unfolding moved_def ts due_tasks_cong [OF c] due_cong [OF c] eq by blast+
  obtain W n e where u: "u = s'\<lparr>work_queues := W, enqueue_order_generator := n,
      task_queues := (task_queues s')(q := (tq s' q)\<lparr>delayed_incoming_queue := e\<rparr>)\<rparr>"
    using m unfolding moved_def by blast
  have u': "u = s\<lparr>work_queues := W, enqueue_order_generator := n,
      task_queues := (task_queues s)(q := (tq s q)\<lparr>delayed_incoming_queue := e\<rparr>)\<rparr>"
    unfolding u s' by (simp add: upd_delayed_def upd_tq_def set_tasks_def upd_wq_def)
  show ?thesis
    unfolding moved_def q
  proof (intro conjI)
    show "\<exists>d. dq_inv d \<and> dq_list d = dq_list (tasks (wq s (q, kDelayed))) @
        stamp (enqueue_order_generator s) (due_tasks s now (t # ts)) \<and> sync_frame (set_tasks (q, kDelayed) d s) u"
      using d(1) l f by blast
    show "di_queue (delayed_incoming_queue (tq u q)) = dropWhile (due s now) (t # ts)" using rest du by simp
    show "enqueue_order_generator u = enqueue_order_generator s + of_nat (length (due_tasks s now (t # ts)))"
      using rest(2) unfolding g dt by simp
    show "\<exists>W n d. u = s\<lparr>work_queues := W, enqueue_order_generator := n,
        task_queues := (task_queues s)(q := (tq s q)\<lparr>delayed_incoming_queue := d\<rparr>)\<rparr>" using u' by blast
  qed
qed

lemma move_ready_moved:
  assumes "queues_ok s" "delayed_fence (tq s q) = None"
  shows "moved q now s (move_ready q now s)"
  using assms
proof (induction q now s rule: move_ready.induct)
  case (1 q now s)
  let ?d = "delayed_incoming_queue (tq s q)" and ?x = "(q, kDelayed)"
  show ?case
  proof (cases "di_queue ?d")
    case Nil
    then show ?thesis using moved_refl [OF "1.prems"(1)] by (simp add: move_ready.simps [of q now s] di_empty_def)
  next
    case (Cons t ts)
    then have top: "di_top ?d = t" and ne: "\<not> di_empty ?d" by (simp_all add: di_top_def di_empty_def)
    consider (dead) "task_is_dead s t" | (later) "\<not> task_is_dead s t" "now < delayed_run_time t"
      | (now) "\<not> task_is_dead s t" "\<not> now < delayed_run_time t" by blast
    then show ?thesis
    proof cases
      case dead
      let ?s = "upd_delayed q di_pop s"
      have ih: "moved q now ?s (move_ready q now ?s)"
        using "1.IH"(1) [OF HOL.refl ne] dead top "1.prems" sync_frameD(5) [OF sync_frame_ops(3)] by simp
      have mr: "move_ready q now s = move_ready q now ?s"
        using dead top ne by (simp add: move_ready.simps [of q now s])
      have s': "?s = upd_delayed q di_pop (set_tasks ?x (tasks (wq s ?x)) (s\<lparr>enqueue_order_generator := enqueue_order_generator s\<rparr>))"
        by (simp add: set_tasks_def upd_wq_def)
      show ?thesis unfolding mr
        by (rule moved_step [OF Cons _ HOL.refl s' _ _ ih]) (use dead in \<open>simp_all add: due_def\<close>)
    next
      case later
      then show ?thesis
        using moved_refl [OF "1.prems"(1)] Cons by (simp add: move_ready.simps [of q now s] ne top due_def)
    next
      case now
      let ?w = "dq_push_back (set_enqueue_order (enqueue_order_generator s) t) (tasks (wq s ?x))"
      let ?s = "upd_delayed q di_pop (set_tasks ?x ?w (s\<lparr>enqueue_order_generator := enqueue_order_generator s + 1\<rparr>))"
      note pb = dq.push_back_spec [OF wfD(1) [OF "1.prems"(1), of ?x], of "set_enqueue_order (enqueue_order_generator s) t"]
      have md: "move_due q t s = ?s" by (rule move_due_no_fence [OF "1.prems"(2)])
      have ok: "queues_ok ?s"
        using sync_frameD(5) [OF sync_frame_ops(3)] sync_frameD(5) [OF sync_frame_gen [of s]] "1.prems"(1) pb
        by (simp add: wf_set_tasks)
      have ih: "moved q now ?s (move_ready q now ?s)"
        using "1.IH"(2) [OF HOL.refl ne] now top "1.prems" ok by (simp add: md)
      have mr: "move_ready q now s = move_ready q now ?s"
        using now top ne md by (simp add: move_ready.simps [of q now s])
      show ?thesis unfolding mr
        by (rule moved_step [OF Cons _ HOL.refl HOL.refl _ _ ih]) (use now pb in \<open>simp_all add: due_def\<close>)
    qed
  qed
qed


lemma pusher_destroy_sync:
  assumes ok: "queues_ok s" and s: "in_sync s" and d: "dq_inv d" "dq_list d = dq_list (tasks (wq s x)) @ ts"
    and f: "sync_frame (set_tasks x d s) u"
  shows "in_sync (TaskPusher_destroy x (wq_Empty (wq s x)) u)" "queues_ok (TaskPusher_destroy x (wq_Empty (wq s x)) u)"
    "work_queues (TaskPusher_destroy x (wq_Empty (wq s x)) u) = work_queues (set_tasks x d s)"
proof -
  have u: "queues_ok u" using wf_set_tasks [OF ok d(1)] sync_frameD(5) [OF f] by simp
  then show "queues_ok (TaskPusher_destroy x (wq_Empty (wq s x)) u)"
    by (simp add: TaskPusher_destroy_def notify_wf)
  show "work_queues (TaskPusher_destroy x (wq_Empty (wq s x)) u) = work_queues (set_tasks x d s)"
    using sync_frameD(1) [OF f] by (simp add: TaskPusher_destroy_def notify_work_queues)
  show "in_sync (TaskPusher_destroy x (wq_Empty (wq s x)) u)"
  proof (cases "dq_empty (tasks (wq s x))")
    case True
    then have "expected s x = None" using expected_None_iff [OF ok] by blast
    then have "in_sync_but x None (set_tasks x d s)" using in_sync_set_tasks(1) [OF s, of x d] by simp
    then have "in_sync_but x None u" using sync_frameD(3) [OF f] by blast
    from maybe_notify_pushed_sync [OF u this]
    show ?thesis
      using True by (simp add: TaskPusher_destroy_def wq_Empty_def conj_commute conj_left_commute)
  next
    case False
    have "in_sync (set_tasks x d s)"
      by (rule same_front_sync [OF s])
        (use False d wfD(1) [OF ok, of x] in \<open>auto simp: GetFrontTaskEnqueueOrder_list dq_empty_iff split: list.split\<close>)
    then show ?thesis
      using False sync_frameD(2) [OF f] by (simp add: TaskPusher_destroy_def wq_Empty_def)
  qed
qed

text \<open>What a move does: the due tasks go to the back of the delayed work queue with fresh enqueue
  orders, the cancelled ones before them are dropped, and the sets learn of it.\<close>

lemma MoveReady_spec:
  assumes ok: "queues_ok s" and s: "in_sync s" and nf: "delayed_fence (tq s q) = None"
    and u: "u = MoveReadyDelayedTasksToWorkQueue q now s"
  shows "in_sync u" "queues_ok u"
    "dq_list (tasks (wq u (q, kDelayed))) = dq_list (tasks (wq s (q, kDelayed))) @
       stamp (enqueue_order_generator s) (due_tasks s now (di_queue (delayed_incoming_queue (tq s q))))"
    "\<And>x. x \<noteq> (q, kDelayed) \<Longrightarrow> wq u x = wq s x"
proof -
  let ?x = "(q, kDelayed)" and ?m = "move_ready q now s"
  obtain d where d: "dq_inv d" "dq_list d = dq_list (tasks (wq s ?x)) @
       stamp (enqueue_order_generator s) (due_tasks s now (di_queue (delayed_incoming_queue (tq s q))))"
      "sync_frame (set_tasks ?x d s) ?m"
    using move_ready_moved [OF ok nf, of now] unfolding moved_def by blast
  note f = sync_frame_trans [OF d(3) UpdateDelayedWakeUp_sync_frame [of ?m q now]]
  note pd = pusher_destroy_sync [OF ok s d(1,2) f]
  have u': "u = TaskPusher_destroy ?x (wq_Empty (wq s ?x)) (UpdateDelayedWakeUp q now ?m)"
    by (simp add: u MoveReadyDelayedTasksToWorkQueue_def CreateTaskPusher_def Let_def)
  show "in_sync u" "queues_ok u" using pd unfolding u' by blast+
  show "dq_list (tasks (wq u ?x)) = dq_list (tasks (wq s ?x)) @
       stamp (enqueue_order_generator s) (due_tasks s now (di_queue (delayed_incoming_queue (tq s q))))"
    unfolding u' pd(3) using d(2) by simp
  show "wq u x = wq s x" if "x \<noteq> ?x" for x unfolding u' pd(3) using that by simp
qed

section \<open>Posting\<close>

lemma PostImmediate_sync:
  assumes ok: "queues_ok s" and s: "in_sync s" and r: "PostImmediateTaskImpl q posted s = Some u"
  shows "in_sync u" "queues_ok u" "work_queues u = work_queues s"
    "dq_list (immediate_incoming_queue (tq u q')) = dq_list (immediate_incoming_queue (tq s q')) @
       (if q' = q then [Task_make (if add_queue_time_to_tasks s then posted\<lparr>pt_queue_time := td_now q s\<rparr> else posted)
          (if delayed_fence_allowed (tq s q) \<or> add_queue_time_to_tasks s then td_now q s else 0)
          (enqueue_order_generator s) (enqueue_order_generator s) kLow] else [])"
    "enqueue_order_generator u = enqueue_order_generator s + 1"
proof -
  define t where "t = Task_make (if add_queue_time_to_tasks s then posted\<lparr>pt_queue_time := td_now q s\<rparr> else posted)
          (if delayed_fence_allowed (tq s q) \<or> add_queue_time_to_tasks s then td_now q s else 0)
          (enqueue_order_generator s) (enqueue_order_generator s) kLow"
  define s1 where "s1 = upd_tq q (\<lambda>x. x\<lparr>immediate_incoming_queue := dq_push_back t (immediate_incoming_queue x)\<rparr>)
    (s\<lparr>enqueue_order_generator := enqueue_order_generator s + 1\<rparr>)"
  have "\<exists>P Q. u = (if P then if Q then ScheduleWork (set_flag_active True q s1) else set_flag_active True q s1 else s1)"
    using r unfolding PostImmediateTaskImpl_def t_def s1_def
    by (auto simp: GetNextSequenceNumber_def GenerateNext_def Let_def split: if_splits)
  then obtain P Q where uu: "u = (if P then if Q then ScheduleWork (set_flag_active True q s1) else set_flag_active True q s1 else s1)"
    by blast
  have f: "sync_frame s1 u"
    unfolding uu using sync_frame_ops(2,4) sync_frame_refl sync_frame_trans by (auto, metis)
  have g: "enqueue_order_generator u = enqueue_order_generator s1"
    by (simp add: uu ScheduleWork_def set_flag_active_def split: option.split)
  show "enqueue_order_generator u = enqueue_order_generator s + 1" by (simp add: g s1_def)
  note pb = dq.push_back_spec [OF wfD(3) [OF ok, of q], of t]
  have "queues_ok s1" using ok pb by (auto simp: queues_ok_def s1_def)
  then show "queues_ok u" using sync_frameD(5) [OF f] by simp
  have "in_sync s1" using sync_cong(2) [of s1 s] s by (simp add: s1_def)
  then show "in_sync u" using sync_frameD(2) [OF f] by simp
  show "work_queues u = work_queues s" using sync_frameD(1) [OF f] by (simp add: s1_def)
  show "dq_list (immediate_incoming_queue (tq u q')) = dq_list (immediate_incoming_queue (tq s q')) @
       (if q' = q then [t] else [])"
    using sync_frameD(6) [OF f, of q'] pb by (simp add: s1_def)
qed

lemma PushFromMain_frame: "sync_frame s (PushOntoDelayedIncomingQueueFromMainThread q t now s)"
  unfolding PushOntoDelayedIncomingQueueFromMainThread_def
  by (rule sync_frame_trans [OF sync_frame_ops(3) UpdateDelayedWakeUp_sync_frame])

lemma tq_PostTask_sync:
  assumes ok: "queues_ok s" and s: "in_sync s" and r: "tq_PostTask q posted thread s = Some u"
  shows "in_sync u" "queues_ok u" "work_queues u = work_queues s"
proof -
  have *: "in_sync u \<and> queues_ok u \<and> work_queues u = work_queues s"
  proof (cases "pt_delay posted = 0")
    case True
    then show ?thesis using r PostImmediate_sync(1-3) [OF ok s] by (simp add: tq_PostTask_def)
  next
    case False
    let ?s = "s\<lparr>enqueue_order_generator := enqueue_order_generator s + 1\<rparr>"
    note g = sync_frame_gen [of s "enqueue_order_generator s + 1"]
    have o: "queues_ok ?s" "in_sync ?s" using sync_frameD(5,2) [OF g] ok s by auto
    show ?thesis
    proof (cases thread)
      case kMainThread
      then obtain t n where "u = PushOntoDelayedIncomingQueueFromMainThread q t n ?s"
        using False r by (auto simp: tq_PostTask_def PostDelayedTaskImpl_def GetNextSequenceNumber_def GenerateNext_def
            Let_def split: if_splits)
      then show ?thesis using sync_frameD(1,2,5) [OF PushFromMain_frame] o by simp
    next
      case kNotMainThread
      then obtain t where "PushOntoDelayedIncomingQueue q t ?s = Some u"
        using False r by (auto simp: tq_PostTask_def PostDelayedTaskImpl_def GetNextSequenceNumber_def GenerateNext_def
            Let_def split: if_splits)
      then show ?thesis using PostImmediate_sync(1-3) [OF o] by (simp add: PushOntoDelayedIncomingQueue_def)
    qed
  qed
  then show "in_sync u" "queues_ok u" "work_queues u = work_queues s" by blast+
qed

section \<open>Managing a queue\<close>

lemma Requeue_sync:
  assumes ok: "queues_ok s" and s: "in_sync s"
    and ord: "\<And>u us. dq_list (tasks (wq s (df_queue t, df_type t))) = u # us \<Longrightarrow>
      task_enqueue_order (df_task t) \<le> task_enqueue_order u"
  shows "in_sync (requeue_to_front t s)" "queues_ok (requeue_to_front t s)"
proof -
  let ?q = "df_queue t" and ?x = "(df_queue t, df_type t)"
  have "\<exists>v. sync_frame s v \<and> requeue_to_front t s = PushNonNestableTaskToFront ?x (df_task t) v"
  proof (cases "df_type t = kImmediate \<and> wq_Empty (wq s ?x)")
    case True
    let ?v = "upd_tq ?q (\<lambda>t. t\<lparr>immediate_work_queue_empty := False\<rparr>) (set_flag_active False ?q s)"
    have "sync_frame s ?v" by (rule sync_frame_trans [OF sync_frame_ops(2) sync_frame_upd_tq]) simp
    then show ?thesis using True by (auto simp: requeue_to_front_def Let_def)
  next
    case False
    then show ?thesis
      by (intro exI [of _ s]) (cases "df_type t"; simp add: requeue_to_front_def Let_def sync_frame_refl)
  qed
  then obtain v where v: "sync_frame s v" "requeue_to_front t s = PushNonNestableTaskToFront ?x (df_task t) v"
    by blast
  have "queues_ok v" "in_sync v" using sync_frameD(5,2) [OF v(1)] ok s by auto
  moreover have "\<And>u us. dq_list (tasks (wq v ?x)) = u # us \<Longrightarrow> task_enqueue_order (df_task t) \<le> task_enqueue_order u"
    using ord sync_frameD(1) [OF v(1)] by simp
  ultimately show "in_sync (requeue_to_front t s)" "queues_ok (requeue_to_front t s)"
    unfolding v(2) by (blast intro: PushNonNestableTaskToFront_sync)+
qed

lemma tq_DeletePendingTasks_sync:
  assumes ok: "queues_ok s" and s: "in_sync s"
  shows "in_sync (tq_DeletePendingTasks q s)" "queues_ok (tq_DeletePendingTasks q s)"
proof -
  define s1 where "s1 = wq_DeletePendingTasks (q, kImmediate) (wq_DeletePendingTasks (q, kDelayed) s)"
  note d = wq_DeletePendingTasks_spec [OF ok s, of "(q, kDelayed)"]
  note i = wq_DeletePendingTasks_spec [OF d(2,1), of "(q, kImmediate)", folded s1_def]
  define s2 where "s2 = upd_tq q (\<lambda>t. t\<lparr>immediate_incoming_queue := snd (dq_swap deque_new (immediate_incoming_queue t)),
                immediate_work_queue_empty := True\<rparr>) (upd_delayed q (\<lambda>d. fst (di_swap d DelayedIncomingQueue_new)) s1)"
  have "in_sync s2" using i(1) sync_frameD(2) [OF sync_frame_ops(3)] by (simp add: s2_def)
  moreover have "queues_ok s2"
    using i(2) sync_frameD(5) [OF sync_frame_ops(3)] dq.new_spec by (auto simp: s2_def queues_ok_def dq_swap_def upd_delayed_def)
  moreover have "sync_frame s2 (tq_DeletePendingTasks q s)"
    unfolding tq_DeletePendingTasks_def Let_def s1_def [symmetric] s2_def [symmetric]
    by (rule sync_frame_trans [OF sync_frame_ops(2) UpdateDelayedWakeUp_sync_frame])
  ultimately show "in_sync (tq_DeletePendingTasks q s)" "queues_ok (tq_DeletePendingTasks q s)"
    using sync_frameD(2,5) by blast+
qed


lemma tq_ReclaimMemory_sync:
  assumes ok: "queues_ok s" and s: "in_sync s"
  shows "in_sync (tq_ReclaimMemory q now s)" "queues_ok (tq_ReclaimMemory q now s)"
proof -
  have *: "in_sync (tq_ReclaimMemory q now s) \<and> queues_ok (tq_ReclaimMemory q now s)"
  proof (cases "di_empty (delayed_incoming_queue (tq s q))")
    case True
    then show ?thesis using ok s by (simp add: tq_ReclaimMemory_def)
  next
    case False
    define s1 where "s1 = upd_delayed q (SweepCancelledTasks (\<lambda>t. closure_IsCancelled (cancelled s) (task t))) s"
    define s2 where "s2 = wq_MaybeShrinkQueue (q, kImmediate) (wq_MaybeShrinkQueue (q, kDelayed) s1)"
    define s3 where "s3 = upd_tq q (\<lambda>t. t\<lparr>immediate_incoming_queue :=
                     MaybeShrinkQueue (clock s2 0) (immediate_incoming_queue t)\<rparr>) s2"
    have "queues_ok s1" "in_sync s1" unfolding s1_def using sync_frameD(5,2) [OF sync_frame_ops(3)] ok s by auto
    then have 2: "queues_ok s2" "in_sync s2" unfolding s2_def by (simp_all add: wq_MaybeShrinkQueue_sync)
    have "in_sync s3" using 2 by (simp add: s3_def)
    moreover have "queues_ok s3"
      using 2(1) dq.shrink_spec [OF wfD(3) [OF 2(1), of q], of "clock s2 0"] by (auto simp: s3_def queues_ok_def)
    moreover have "sync_frame s3 (tq_ReclaimMemory q now s)"
      using False unfolding tq_ReclaimMemory_def Let_def s1_def [symmetric] s2_def [symmetric] s3_def [symmetric]
      by (simp add: UpdateDelayedWakeUp_sync_frame)
    ultimately show ?thesis using sync_frameD(2,5) by blast
  qed
  then show "in_sync (tq_ReclaimMemory q now s)" "queues_ok (tq_ReclaimMemory q now s)" by blast+
qed

lemma Reload_sync:
  assumes "queues_ok s" "in_sync s" "delayed_fence (tq s q) = None" "dq_empty (tasks (wq s (q, kImmediate)))"
  shows "in_sync (ReloadEmptyImmediateWorkQueue q s)" "queues_ok (ReloadEmptyImmediateWorkQueue q s)"
    "dq_list (tasks (wq (ReloadEmptyImmediateWorkQueue q s) (q, kImmediate))) = dq_list (immediate_incoming_queue (tq s q))"
proof -
  note t = wq_TakeImmediate_sync [OF assms]
  have "sync_frame (wq_TakeImmediateIncomingQueueTasks q s) (ReloadEmptyImmediateWorkQueue q s)"
    by (simp add: ReloadEmptyImmediateWorkQueue_def Let_def sync_frame_ops(5) sync_frame_refl)
  from sync_frameD(1,2,5) [OF this] t
  show "in_sync (ReloadEmptyImmediateWorkQueue q s)" "queues_ok (ReloadEmptyImmediateWorkQueue q s)"
    "dq_list (tasks (wq (ReloadEmptyImmediateWorkQueue q s) (q, kImmediate))) = dq_list (immediate_incoming_queue (tq s q))"
    by auto
qed

text \<open>A queue is registered with the selector exactly while it is enabled, with one priority.\<close>

definition enabled_ok :: "nat \<Rightarrow> sched \<Rightarrow> bool" where
  "enabled_ok q s \<longleftrightarrow> (\<forall>w. work_queue_sets (wq s (q, w)) = (if is_enabled (tq s q) then Some w else None)) \<and>
     work_queue_set_index (wq s (q, kDelayed)) = work_queue_set_index (wq s (q, kImmediate))"

lemma wqs_AddQueue_self:
  "wq (wqs_AddQueue w x p s) x = (wq s x)\<lparr>work_queue_sets := Some w, work_queue_set_index := p\<rparr>"
  unfolding wqs_AddQueue_def Let_def
  using sets_frame_reads(1) [OF notify_frame(1)]
  by (auto simp: AssignSetIndex_def AssignToWorkQueueSets_def split: option.splits)

lemma wqs_RemoveQueue_self: "wq (wqs_RemoveQueue w x s) x = (wq s x)\<lparr>work_queue_sets := None\<rparr>"
  unfolding wqs_RemoveQueue_def Let_def
  using sets_frame_reads(1) [OF notify_frame(2)] by (auto simp: AssignToWorkQueueSets_def)

lemma AddQueueImpl_wq:
  "wq (AddQueueImpl q p s) (q, w) = (wq s (q, w))\<lparr>work_queue_sets := Some w, work_queue_set_index := p\<rparr>"
  "q' \<noteq> q \<Longrightarrow> wq (AddQueueImpl q p s) (q', w) = wq s (q', w)" "task_queues (AddQueueImpl q p s) = task_queues s"
  by (cases w) (simp_all add: AddQueueImpl_def wqs_AddQueue_other wqs_AddQueue_self)

lemma RemoveQueueImpl_wq:
  "wq (RemoveQueueImpl q s) (q, w) = (wq s (q, w))\<lparr>work_queue_sets := None\<rparr>"
  "q' \<noteq> q \<Longrightarrow> wq (RemoveQueueImpl q s) (q', w) = wq s (q', w)" "task_queues (RemoveQueueImpl q s) = task_queues s"
  by (cases w) (simp_all add: RemoveQueueImpl_def wqs_RemoveQueue_other wqs_RemoveQueue_self)

lemma queues_okI:
  assumes "\<And>q w. dq_inv (tasks (wq s (q, w)))" "\<And>q w. work_queue_sets (wq s (q, w)) \<in> {None, Some w}"
    "\<And>q w. work_queue_set_index (wq s (q, w)) < kQueuePriorityCount"
    "\<And>q. dq_inv (immediate_incoming_queue (tq s q))"
  shows "queues_ok s"
  unfolding queues_ok_def using assms by auto

lemma AddQueueImpl_ok:
  assumes ok: "queues_ok s" and p: "p < kQueuePriorityCount"
  shows "queues_ok (AddQueueImpl q p s)"
proof (rule queues_okI)
  fix q' w
  show "dq_inv (tasks (wq (AddQueueImpl q p s) (q', w)))"
    "work_queue_sets (wq (AddQueueImpl q p s) (q', w)) \<in> {None, Some w}"
    "work_queue_set_index (wq (AddQueueImpl q p s) (q', w)) < kQueuePriorityCount"
    using wfD(1,2,4) [OF ok, of "(q', w)"] p AddQueueImpl_wq(1) [of q p s w] AddQueueImpl_wq(2) [of q' q p s w]
    by (cases "q' = q"; auto)+
  show "dq_inv (immediate_incoming_queue (tq (AddQueueImpl q p s) q'))"
    using wfD(3) [OF ok] by (simp add: AddQueueImpl_wq)
qed

lemma RemoveQueueImpl_ok:
  assumes ok: "queues_ok s"
  shows "queues_ok (RemoveQueueImpl q s)"
proof (rule queues_okI)
  fix q' w
  show "dq_inv (tasks (wq (RemoveQueueImpl q s) (q', w)))"
    "work_queue_sets (wq (RemoveQueueImpl q s) (q', w)) \<in> {None, Some w}"
    "work_queue_set_index (wq (RemoveQueueImpl q s) (q', w)) < kQueuePriorityCount"
    using wfD(1,2,4) [OF ok, of "(q', w)"] RemoveQueueImpl_wq(1) [of q s w] RemoveQueueImpl_wq(2) [of q' q s w]
    by (cases "q' = q"; auto)+
  show "dq_inv (immediate_incoming_queue (tq (RemoveQueueImpl q s) q'))"
    using wfD(3) [OF ok] by (simp add: RemoveQueueImpl_wq)
qed

lemma sync_frame_maybe: "sync_frame s (if P then ScheduleWork s else s)" "sync_frame s (if P then run_wake_up_callback q n s else s)"
  using sync_frame_ops(4,5) sync_frame_refl by auto

lemma UpdateDelayedWakeUp_enabled:
  "is_enabled (tq (UpdateDelayedWakeUp q now s) q') = is_enabled (tq s q')"
  by (simp add: UpdateDelayedWakeUp_def UpdateDelayedWakeUpImpl_def Let_def run_wake_up_callback_def
      wake_frame_reads(7) [OF SetNextWakeUp_frame] split: option.split)

lemma UpdateCross_enabled: "is_enabled (tq (UpdateCrossThreadQueueStateLocked q s) q') = is_enabled (tq s q')"
  by (simp add: UpdateCrossThreadQueueStateLocked_def)

text \<open>Enabling and disabling a queue.\<close>

lemma SetQueueEnabled_sync:
  assumes ok: "queues_ok s" and s: "in_sync s" and e: "enabled_ok q s" and u: "u = SetQueueEnabled q b s"
  shows "in_sync u" "queues_ok u" "enabled_ok q u" "is_enabled (tq u q) = b"
proof -
  have *: "in_sync u \<and> queues_ok u \<and> enabled_ok q u \<and> is_enabled (tq u q) = b"
  proof (cases "is_enabled (tq s q) = b")
    case True
    then show ?thesis using ok s e u by (simp add: SetQueueEnabled_def)
  next
    case False
    define s1 where "s1 = UpdateCrossThreadQueueStateLocked q
       (UpdateDelayedWakeUp q (td_now q (upd_tq q (\<lambda>t. t\<lparr>is_enabled := b\<rparr>) s)) (upd_tq q (\<lambda>t. t\<lparr>is_enabled := b\<rparr>) s))"
    have f: "sync_frame s s1" unfolding s1_def
      by (intro sync_frame_trans [OF sync_frame_trans [OF sync_frame_upd_tq UpdateDelayedWakeUp_sync_frame] sync_frame_ops(1)]) simp
    have en: "is_enabled (tq s1 q) = b" by (simp add: s1_def UpdateCross_enabled UpdateDelayedWakeUp_enabled)
    define s2 where "s2 = (if b \<and> HasPendingImmediateWorkLocked q s1 \<and> on_next_wake_up_changed_callback (tq s1 q)
      then run_wake_up_callback q 0 s1 else s1)"
    have f2: "sync_frame s s2" unfolding s2_def by (rule sync_frame_trans [OF f sync_frame_maybe(2)])
    have t2: "task_queues s2 = task_queues s1" by (simp add: s2_def run_wake_up_callback_def)
    have o: "queues_ok s2" "in_sync s2" using sync_frameD(5,2) [OF f2] ok s by auto
    have w: "wq s2 = wq s" using sync_frameD(1) [OF f2] by simp
    have nb: "is_enabled (tq s q) = (\<not> b)" using False by simp
    have e1: "work_queue_sets (wq s2 (q, w)) = (if b then None else Some w)"
        "work_queue_set_index (wq s2 (q, kDelayed)) = work_queue_set_index (wq s2 (q, kImmediate))" for w
      using e unfolding enabled_ok_def w nb by auto
    show ?thesis
    proof (cases b)
      case True
      define s3 where "s3 = AddQueueImpl q (GetQueuePriority q s2) s2"
      have uu: "u = OnTaskQueueEnabled q s3"
        using False True unfolding u SetQueueEnabled_def EnableOrDisableWithSelector_def Let_def s1_def [symmetric]
          sel_EnableQueue_def s3_def s2_def by simp
      have p: "GetQueuePriority q s2 < kQueuePriorityCount" using wfD(2) [OF o(1)] by (simp add: GetQueuePriority_def)
      have o3: "in_sync s3" "queues_ok s3"
        unfolding s3_def using AddQueueImpl_sync [OF o(2) _ p, of q] AddQueueImpl_ok [OF o(1) p] e1 True by simp_all
      have f3: "sync_frame s3 u" unfolding uu OnTaskQueueEnabled_def by (rule sync_frame_maybe)
      have t3: "task_queues u = task_queues s1"
        by (simp add: uu OnTaskQueueEnabled_def ScheduleWork_def s3_def AddQueueImpl_wq t2)
      have "enabled_ok q u"
        unfolding enabled_ok_def sync_frameD(1) [OF f3] s3_def AddQueueImpl_wq t3 en using True by simp
      then show ?thesis using sync_frameD(2,5) [OF f3] o3 t3 en by simp
    next
      case F: False
      have uu: "u = RemoveQueueImpl q s2"
        using False F unfolding u SetQueueEnabled_def EnableOrDisableWithSelector_def Let_def s1_def [symmetric]
          sel_DisableQueue_def s2_def by simp
      have "in_sync u" unfolding uu by (rule RemoveQueueImpl_sync [OF o(2)]) (use e1 F in simp)
      moreover have "enabled_ok q u"
        unfolding enabled_ok_def uu RemoveQueueImpl_wq t2 en using F e1(2) by simp
      moreover have "is_enabled (tq u q) = b" by (simp add: uu RemoveQueueImpl_wq t2 en)
      ultimately show ?thesis using RemoveQueueImpl_ok [OF o(1)] uu by simp
    qed
  qed
  then show "in_sync u" "queues_ok u" "enabled_ok q u" "is_enabled (tq u q) = b" by blast+
qed

lemma SetQueuePriority_sync:
  assumes s: "in_sync s" and e: "enabled_ok q s" and p: "p < kQueuePriorityCount"
  shows "in_sync (SetQueuePriority q p s)"
proof (cases "p = GetQueuePriority q s")
  case True
  then show ?thesis using s by (simp add: SetQueuePriority_def)
next
  case False
  have ne: "work_queue_set_index (wq s (q, t)) \<noteq> p" for t
    using False e by (cases t) (auto simp: enabled_ok_def GetQueuePriority_def)
  have r: "work_queue_sets (wq s (q, t)) = (if is_enabled (tq s q) then Some t else None)" for t
    using e unfolding enabled_ok_def by blast
  from sel_SetQueuePriority_sync [OF s p ne r] show ?thesis using False by (simp add: SetQueuePriority_def)
qed

end
