(* ===== verification/Queue_Wake_Ups.thy ===== *)
theory Queue_Wake_Ups
  imports Queue_Sync
begin

text \<open>
  The wake-ups of the task queues: the heap of a time domain holds, for every queue of the domain,
  the wake-up the queue has scheduled, and that is the earliest task of its delayed incoming queue.
  From this the loop \<open>TimeDomain::MoveReadyDelayedTasksToWorkQueues\<close> ends after at most one round per
  due queue, and leaves no queue that is due.
\<close>

section \<open>Changes that the time domains cannot see\<close>

definition wk_frame :: "sched \<Rightarrow> sched \<Rightarrow> bool" where
  "wk_frame s t \<longleftrightarrow> time_domains t = time_domains s \<and> wake_up_handles t = wake_up_handles s \<and>
     cancelled t = cancelled s \<and>
     (\<forall>q. time_domain (tq t q) = time_domain (tq s q) \<and> scheduled_wake_up (tq t q) = scheduled_wake_up (tq s q) \<and>
        is_enabled (tq t q) = is_enabled (tq s q))"

lemma wk_frame_refl: "wk_frame s s"
  by (simp add: wk_frame_def)

lemma wk_frame_trans: "wk_frame s t \<Longrightarrow> wk_frame t u \<Longrightarrow> wk_frame s u"
  by (simp add: wk_frame_def)

lemma wk_frame_sets: "sets_frame s t \<Longrightarrow> wk_frame s t"
  by (simp add: wk_frame_def sets_frame_reads)

lemma wk_frame_basic:
  "wk_frame s (upd_wq x f s)" "wk_frame s (emit e s)" "wk_frame s (set_tasks x d s)" "wk_frame s (upd_delayed q g s)"
  "wk_frame s (UpdateCrossThreadQueueStateLocked q s)" "wk_frame s (s\<lparr>enqueue_order_generator := n\<rparr>)"
  "wk_frame s (upd_tq q (\<lambda>t. t\<lparr>delayed_fence := fe\<rparr>) s)" "wk_frame s (upd_tq q (\<lambda>t. t\<lparr>current_fence := c\<rparr>) s)"
  by (simp_all add: wk_frame_def set_tasks_def upd_delayed_def UpdateCrossThreadQueueStateLocked_def)

lemma wk_frame_wq_InsertFence: "wk_frame s (snd (wq_InsertFence x f s))"
proof -
  let ?s = "upd_wq x (\<lambda>q. q\<lparr>wq_fence := f\<rparr>) s"
  have "wk_frame ?s (snd (wq_InsertFence x f s))"
    by (simp add: wq_InsertFence_def InsertFenceImpl_def Let_def wk_frame_refl wk_frame_sets [OF sets_ops_frame(2)]
        wk_frame_sets [OF sets_ops_frame(4)] split: option.split)
  then show ?thesis using wk_frame_trans wk_frame_basic(1) by blast
qed

lemma wk_frame_InsertFence: "wk_frame s (tq_InsertFence q p s)"
proof -
  define s0 where "s0 = upd_tq q (\<lambda>t. t\<lparr>delayed_fence := None\<rparr>) s"
  define fe where "fe = (if p = kNow then GetNextSequenceNumber s0 else (blocking_fence, s0))"
  define s1 where "s1 = upd_tq q (\<lambda>t. t\<lparr>current_fence := fst fe\<rparr>) (snd fe)"
  define u where "u = snd (wq_InsertFence (q, kDelayed) (fst fe) (snd (wq_InsertFence (q, kImmediate) (fst fe) s1)))"
  have "wk_frame s s0" unfolding s0_def by (rule wk_frame_basic)
  moreover have "wk_frame s0 (snd fe)"
    by (simp add: fe_def GetNextSequenceNumber_def GenerateNext_def wk_frame_basic(6) wk_frame_refl)
  moreover have "wk_frame (snd fe) s1" unfolding s1_def by (rule wk_frame_basic)
  moreover have "wk_frame s1 u" unfolding u_def by (rule wk_frame_trans [OF wk_frame_wq_InsertFence wk_frame_wq_InsertFence])
  moreover have "wk_frame u (tq_InsertFence q p s)"
  proof -
    have "wk_frame u (if P then ScheduleWork (UpdateCrossThreadQueueStateLocked q u)
        else UpdateCrossThreadQueueStateLocked q u)" for P
      using wk_frame_basic(5) wk_frame_trans [OF wk_frame_basic(5) wk_frame_basic(2)] by (simp add: ScheduleWork_def)
    then show ?thesis
      unfolding tq_InsertFence_def Let_def s0_def [symmetric] fe_def [symmetric] split_beta s1_def [symmetric]
        u_def [symmetric] by simp
  qed
  ultimately show ?thesis using wk_frame_trans by blast
qed

lemma wk_frame_move_due: "wk_frame s (move_due q t s)"
proof -
  have a: "wk_frame s (ActivateDelayedFenceIfNeeded q n s)" for n
    using wk_frame_trans [OF wk_frame_InsertFence wk_frame_basic(7)] wk_frame_refl
    by (auto simp: ActivateDelayedFenceIfNeeded_def split: option.split)
  show ?thesis
    unfolding move_due_def Let_def split_beta GetNextSequenceNumber_def GenerateNext_def TaskPusher_Push_def
    using wk_frame_trans [OF wk_frame_trans [OF wk_frame_trans [OF a wk_frame_basic(6)] wk_frame_basic(3)] wk_frame_basic(4)]
    by simp
qed

lemma other_delayed:
  assumes "q' \<noteq> q"
  shows "delayed_incoming_queue (tq (move_due q t s) q') = delayed_incoming_queue (tq s q')"
  using assms by (simp add: move_due_def GetNextSequenceNumber_def TaskPusher_Push_def upd_delayed_def
      ActivateDelayedFence_delayed Let_def split_beta)

text \<open>The loop over the delayed incoming queue, with or without a delayed fence.\<close>

lemma move_ready_delayed:
  assumes "di_inv base (delayed_incoming_queue (tq s q))"
  shows "wk_frame s (move_ready q now s) \<and> di_inv base (delayed_incoming_queue (tq (move_ready q now s) q)) \<and>
    di_queue (delayed_incoming_queue (tq (move_ready q now s) q)) =
      dropWhile (due s now) (di_queue (delayed_incoming_queue (tq s q))) \<and>
    (\<forall>q'. q' \<noteq> q \<longrightarrow> delayed_incoming_queue (tq (move_ready q now s) q') = delayed_incoming_queue (tq s q'))"
  using assms
proof (induction q now s rule: move_ready.induct)
  case (1 q now s)
  let ?d = "delayed_incoming_queue (tq s q)"
  have step: ?case if s': "wk_frame s s'" "delayed_incoming_queue (tq s' q) = di_pop ?d" "move_ready q now s = move_ready q now s'"
      "\<And>q'. q' \<noteq> q \<Longrightarrow> delayed_incoming_queue (tq s' q') = delayed_incoming_queue (tq s q')"
    and t: "di_queue ?d = t # ts" "due s now t"
    and ih: "di_inv base (delayed_incoming_queue (tq s' q)) \<Longrightarrow>
      wk_frame s' (move_ready q now s') \<and> di_inv base (delayed_incoming_queue (tq (move_ready q now s') q)) \<and>
      di_queue (delayed_incoming_queue (tq (move_ready q now s') q)) =
        dropWhile (due s' now) (di_queue (delayed_incoming_queue (tq s' q))) \<and>
      (\<forall>q'. q' \<noteq> q \<longrightarrow> delayed_incoming_queue (tq (move_ready q now s') q') = delayed_incoming_queue (tq s' q'))"
    for s' t ts
  proof -
    have i: "di_inv base (delayed_incoming_queue (tq s' q))" "di_queue (delayed_incoming_queue (tq s' q)) = ts"
      using di_pop_inv [OF 1(3) t(1)] s'(2) by simp_all
    have "due s' = due s" using s'(1) by (intro due_cong) (simp add: wk_frame_def)
    then show ?thesis using ih [OF i(1)] i(2) s' t wk_frame_trans [OF s'(1)] by simp
  qed
  show ?case
  proof (cases "di_queue ?d")
    case Nil
    then show ?thesis using 1(3) by (simp add: move_ready.simps [of q now s] di_empty_def wk_frame_refl)
  next
    case (Cons t ts)
    then have top: "di_top ?d = t" and ne: "\<not> di_empty ?d" by (simp_all add: di_top_def di_empty_def)
    consider (dead) "task_is_dead s t" | (later) "\<not> task_is_dead s t" "now < delayed_run_time t"
      | (now) "\<not> task_is_dead s t" "\<not> now < delayed_run_time t" by blast
    then show ?thesis
    proof cases
      case dead
      show ?thesis
        by (rule step [where s' = "upd_delayed q di_pop s", OF wk_frame_basic(4) _ _ _ Cons _ 1(1) [OF refl ne]])
          (use dead top ne in \<open>simp_all add: due_def move_ready.simps [of q now s]\<close>)
    next
      case later
      then show ?thesis using 1(3) Cons by (simp add: move_ready.simps [of q now s] ne top due_def wk_frame_refl)
    next
      case now
      show ?thesis
        by (rule step [where s' = "move_due q t s", OF wk_frame_move_due move_due_delayed _ other_delayed Cons _
              1(2) [OF refl ne, unfolded top]])
          (use now top ne in \<open>simp_all add: due_def move_ready.simps [of q now s]\<close>)
    qed
  qed
qed

section \<open>The invariant\<close>

definition scheduled :: "task_queue \<Rightarrow> (nat \<times> delayed_wake_up) option" where
  "scheduled t = (case (time_domain t, scheduled_wake_up t) of (Some d, Some w) \<Rightarrow> Some (d, w) | _ \<Rightarrow> None)"

definition wakes_ok :: "enqueue_order \<Rightarrow> wake_map \<Rightarrow> sched \<Rightarrow> bool" where
  "wakes_ok base W s \<longleftrightarrow> wake_rep base W s \<and>
     (\<forall>q. map_option (\<lambda>(d, w, r). (d, w)) (W q) = scheduled (tq s q)) \<and>
     (\<forall>q. di_inv base (delayed_incoming_queue (tq s q)))"

definition settled :: "nat \<Rightarrow> sched \<Rightarrow> bool" where
  "settled q s \<longleftrightarrow> scheduled_wake_up (tq s q) = GetNextScheduledWakeUpImpl q s"

lemma wakes_ok_frame:
  assumes "wakes_ok base W s" "wk_frame s t" "\<And>q. di_inv base (delayed_incoming_queue (tq t q))"
  shows "wakes_ok base W t"
  using assms wake_rep_cong [of t s base W] by (auto simp: wakes_ok_def wk_frame_def scheduled_def)

lemma GetNextScheduledWakeUp_window:
  assumes "di_inv base (delayed_incoming_queue (tq s q))"
  shows "set_option (GetNextScheduledWakeUpImpl q s) \<subseteq> wake_window base"
  using assms task_window_wake_up
  by (cases "di_queue (delayed_incoming_queue (tq s q))")
    (auto simp: GetNextScheduledWakeUpImpl_def di_empty_def di_top_def di_inv_def)

lemma UpdateDelayedWakeUp_wakes:
  assumes ok: "wakes_ok base W s" and d: "time_domain (tq s q) = Some d" and u: "u = UpdateDelayedWakeUp q now s"
  shows "\<exists>r. wakes_ok base (W(q := map_option (\<lambda>w. (d, w, r)) (GetNextScheduledWakeUpImpl q s))) u"
    "settled q u" "GetNextScheduledWakeUpImpl q u = GetNextScheduledWakeUpImpl q s"
    "\<And>q'. (tq u q')\<lparr>scheduled_wake_up := None\<rparr> = (tq s q')\<lparr>scheduled_wake_up := None\<rparr>"
    "\<And>q'. q' \<noteq> q \<Longrightarrow> tq u q' = tq s q'" "cancelled u = cancelled s"
proof -
  let ?w = "GetNextScheduledWakeUpImpl q s"
  define s1 where "s1 = upd_tq q (\<lambda>t. t\<lparr>scheduled_wake_up := ?w\<rparr>) s"
  have win: "set_option ?w \<subseteq> wake_window base" by (rule GetNextScheduledWakeUp_window) (use ok in \<open>simp add: wakes_ok_def\<close>)
  have Wq: "map_option (\<lambda>(d, w, r). (d, w)) (W q) = map_option (Pair d) (scheduled_wake_up (tq s q))"
    using ok d by (simp add: wakes_ok_def scheduled_def split: option.split)
  have *: "(\<exists>r. wakes_ok base (W(q := map_option (\<lambda>w. (d, w, r)) ?w)) u) \<and> task_queues u = task_queues s1 \<and> cancelled u = cancelled s"
  proof (cases "scheduled_wake_up (tq s q) = ?w")
    case True
    then have us: "u = s" by (simp add: u UpdateDelayedWakeUp_def UpdateDelayedWakeUpImpl_def)
    have "task_queues s1 = task_queues s" using True [symmetric] by (simp add: s1_def)
    moreover have "\<exists>r. W(q := map_option (\<lambda>w. (d, w, r)) ?w) = W"
    proof (cases "W q")
      case None
      then show ?thesis using Wq True by auto
    next
      case (Some v)
      obtain a b c where v: "v = (a, b, c)" by (cases v)
      then have "?w = Some b" "a = d" using Wq True Some by (cases ?w; simp)+
      then have "W(q := map_option (\<lambda>w. (d, w, c)) ?w) = W" using Some v by auto
      then show ?thesis by blast
    qed
    ultimately show ?thesis using us ok by metis
  next
    case False
    define s2 where "s2 = (case ?w of None \<Rightarrow> s1
                    | Some w \<Rightarrow>
                        if on_next_wake_up_changed_callback (tq s1 q) \<and> \<not> HasPendingImmediateWork q s1
                        then run_wake_up_callback q (wu_time w) s1 else s1)"
    define r where "r = (if has_pending_high_resolution_tasks (delayed_incoming_queue (tq s2 q)) then kHigh else kLow)"
    have r2: "time_domains s2 = time_domains s" "wake_up_handles s2 = wake_up_handles s" "task_queues s2 = task_queues s1"
      "cancelled s2 = cancelled s"
      by (simp_all add: s2_def s1_def run_wake_up_callback_def split: option.split)
    have d2: "time_domain (tq s2 q) = Some d" using d r2(3) by (simp add: s1_def)
    have uu: "u = SetNextWakeUpForQueue d q ?w r now s2"
      using False d2 unfolding u UpdateDelayedWakeUp_def UpdateDelayedWakeUpImpl_def Let_def s1_def [symmetric]
        s2_def [symmetric] r_def [symmetric] by simp
    have rep: "wake_rep base W s2" using ok wake_rep_cong [OF r2(1,2)] by (simp add: wakes_ok_def)
    have at: "wake_at W q d" using Wq by (cases "scheduled_wake_up (tq s q)") (auto simp: wake_at_def)
    note sp = SetNextWakeUpForQueue_spec [OF rep at win uu]
    have tu: "task_queues u = task_queues s1" using wake_frame_reads(7) [OF sp(3)] r2(3) by simp
    have "wakes_ok base (W(q := map_option (\<lambda>w. (d, w, r)) ?w)) u"
      using sp(1) ok d unfolding wakes_ok_def tu by (simp add: s1_def scheduled_def split: option.split)
    then show ?thesis using tu wake_frame_reads(9) [OF sp(3)] r2(4) by auto
  qed
  then have tu: "task_queues u = task_queues s1" by blast
  show "\<exists>r. wakes_ok base (W(q := map_option (\<lambda>w. (d, w, r)) ?w)) u" "cancelled u = cancelled s" using * by blast+
  show n: "GetNextScheduledWakeUpImpl q u = ?w"
    unfolding GetNextScheduledWakeUpImpl_def IsQueueEnabled_def tu by (simp add: s1_def)
  show "settled q u" unfolding settled_def n tu by (simp add: s1_def)
  show "(tq u q')\<lparr>scheduled_wake_up := None\<rparr> = (tq s q')\<lparr>scheduled_wake_up := None\<rparr>" for q'
    unfolding tu by (simp add: s1_def)
  show "q' \<noteq> q \<Longrightarrow> tq u q' = tq s q'" for q' unfolding tu by (simp add: s1_def)
qed


section \<open>Moving the due tasks of a queue\<close>

lemma TaskPusher_destroy_frame: "sets_frame s (TaskPusher_destroy x b s)"
  by (simp add: TaskPusher_destroy_def notify_pushed_to_empty_def sets_frame_refl sets_ops_frame(2) split: option.split)

lemma GetNextScheduled_cong:
  "delayed_incoming_queue (tq t q) = delayed_incoming_queue (tq s q) \<Longrightarrow> is_enabled (tq t q) = is_enabled (tq s q) \<Longrightarrow>
    GetNextScheduledWakeUpImpl q t = GetNextScheduledWakeUpImpl q s"
  by (simp add: GetNextScheduledWakeUpImpl_def IsQueueEnabled_def)

lemma MoveReady_wakes:
  assumes ok: "wakes_ok base W s" and d: "time_domain (tq s q) = Some d"
    and u: "u = MoveReadyDelayedTasksToWorkQueue q now s"
  shows "\<exists>r. wakes_ok base (W(q := map_option (\<lambda>w. (d, w, r)) (GetNextScheduledWakeUpImpl q u))) u"
    "settled q u" "GetNextScheduledWakeUpImpl q u = Some w \<Longrightarrow> now < wu_time w"
    "\<And>q'. time_domain (tq u q') = time_domain (tq s q')" "\<And>q'. q' \<noteq> q \<Longrightarrow> settled q' u = settled q' s"
    "di_queue (delayed_incoming_queue (tq u q)) = dropWhile (due s now) (di_queue (delayed_incoming_queue (tq s q)))"
proof -
  define m where "m = move_ready q now s"
  define v where "v = UpdateDelayedWakeUp q now m"
  have di: "di_inv base (delayed_incoming_queue (tq s q'))" for q' using ok by (simp add: wakes_ok_def)
  have mr: "wk_frame s m" "di_inv base (delayed_incoming_queue (tq m q))"
      "di_queue (delayed_incoming_queue (tq m q)) = dropWhile (due s now) (di_queue (delayed_incoming_queue (tq s q)))"
      "\<And>q'. q' \<noteq> q \<Longrightarrow> delayed_incoming_queue (tq m q') = delayed_incoming_queue (tq s q')"
    unfolding m_def using move_ready_delayed [OF di, of q now] by blast+
  have mdi: "di_inv base (delayed_incoming_queue (tq m q'))" for q' using mr(2,4) di by (cases "q' = q") simp_all
  have okm: "wakes_ok base W m" by (rule wakes_ok_frame [OF ok mr(1) mdi])
  have dm: "time_domain (tq m q) = Some d" using d mr(1) by (simp add: wk_frame_def)
  note uw = UpdateDelayedWakeUp_wakes [OF okm dm v_def]
  have uu: "u = TaskPusher_destroy (q, kDelayed) (CreateTaskPusher (q, kDelayed) s) v"
    by (simp add: u MoveReadyDelayedTasksToWorkQueue_def Let_def m_def v_def)
  have fr: "sets_frame v u" unfolding uu by (rule TaskPusher_destroy_frame)
  have tu: "task_queues u = task_queues v" using sets_frame_reads [OF fr] by simp
  have nx: "GetNextScheduledWakeUpImpl q' u = GetNextScheduledWakeUpImpl q' v" for q'
    by (rule GetNextScheduled_cong) (simp_all add: tu)
  have "wk_frame v u" by (rule wk_frame_sets [OF fr])
  then have okf: "wakes_ok base W' v \<Longrightarrow> wakes_ok base W' u" for W'
    using wakes_ok_frame [of base W' v u] tu by (simp add: wakes_ok_def)
  show "\<exists>r. wakes_ok base (W(q := map_option (\<lambda>w. (d, w, r)) (GetNextScheduledWakeUpImpl q u))) u"
    using uw(1) okf unfolding nx uw(3) by blast
  show "settled q u" using uw(2) unfolding settled_def nx tu .
  have rd: "delayed_incoming_queue (tq v q') = delayed_incoming_queue (tq m q')"
      "time_domain (tq v q') = time_domain (tq m q')" for q'
    using arg_cong [OF uw(4) [of q'], of delayed_incoming_queue] arg_cong [OF uw(4) [of q'], of time_domain] by simp_all
  show "time_domain (tq u q') = time_domain (tq s q')" for q' unfolding tu rd using mr(1) by (simp add: wk_frame_def)
  show "di_queue (delayed_incoming_queue (tq u q)) = dropWhile (due s now) (di_queue (delayed_incoming_queue (tq s q)))"
    unfolding tu rd by (rule mr(3))
  show "settled q' u = settled q' s" if "q' \<noteq> q" for q'
  proof -
    have "tq v q' = tq m q'" by (rule uw(5) [OF that])
    then show ?thesis
      unfolding settled_def nx tu using mr(1) mr(4) [OF that] GetNextScheduled_cong [of v q' m] GetNextScheduled_cong [of m q' s]
      by (simp add: wk_frame_def)
  qed
  show "now < wu_time w" if "GetNextScheduledWakeUpImpl q u = Some w"
  proof -
    have "GetNextScheduledWakeUpImpl q m = Some w" using that unfolding nx uw(3) .
    then have ne: "di_queue (delayed_incoming_queue (tq m q)) \<noteq> []" and w: "w = DelayedWakeUp_of (hd (di_queue (delayed_incoming_queue (tq m q))))"
      by (auto simp: GetNextScheduledWakeUpImpl_def di_empty_def di_top_def split: if_splits)
    have "\<not> due s now (hd (di_queue (delayed_incoming_queue (tq m q))))"
      using ne unfolding mr(3) by (rule hd_dropWhile)
    then show ?thesis by (simp add: w due_def DelayedWakeUp_of_def)
  qed
qed

section \<open>Moving the due tasks of a time domain\<close>

definition due_queues :: "wake_map \<Rightarrow> nat \<Rightarrow> int \<Rightarrow> nat set" where
  "due_queues W d now = {q. \<exists>w r. W q = Some (d, w, r) \<and> wu_time w \<le> now}"

lemma due_queues_finite: "wakes_ok base W s \<Longrightarrow> finite (due_queues W d now)"
proof -
  assume "wakes_ok base W s"
  then have "finite (wake_entries W d)" by (auto simp: wakes_ok_def wake_rep_def intro: wake_entries_finite)
  moreover have "due_queues W d now \<subseteq> sw_queue ` wake_entries W d" unfolding due_queues_def using wake_owner by blast
  ultimately show ?thesis using finite_subset by blast
qed

lemma td_loop_condition:
  assumes "wakes_ok base W s"
  shows "heap_empty (wheap s d) \<or> now < wu_time (sw_wake_up (heap_Min (wheap s d))) \<longleftrightarrow> due_queues W d now = {}"
    "\<not> (heap_empty (wheap s d) \<or> now < wu_time (sw_wake_up (heap_Min (wheap s d)))) \<Longrightarrow>
      sw_queue (heap_Min (wheap s d)) \<in> due_queues W d now"
proof -
  have wh: "wake_heaps base W s" using assms by (simp add: wakes_ok_def wake_rep_def)
  let ?m = "heap_Min (wheap s d)"
  have c: "heap_empty (wheap s d) \<or> now < wu_time (sw_wake_up ?m) \<longleftrightarrow>
      (case NextScheduledRunTime d s of None \<Rightarrow> True | Some t \<Rightarrow> now < t)"
    by (simp add: NextScheduledRunTime_def)
  show two: "sw_queue ?m \<in> due_queues W d now"
    if nc: "\<not> (heap_empty (wheap s d) \<or> now < wu_time (sw_wake_up ?m))"
  proof -
    obtain t where t: "NextScheduledRunTime d s = Some t" "t \<le> now" using nc unfolding c by (cases "NextScheduledRunTime d s") (auto simp: not_less)
    show ?thesis using NextScheduledRunTime_Some(1) [OF wh t(1)] t(2) by (auto simp: due_queues_def)
  qed
  have "due_queues W d now = {}" if n: "heap_empty (wheap s d) \<or> now < wu_time (sw_wake_up ?m)"
  proof (cases "NextScheduledRunTime d s")
    case None
    then show ?thesis using NextScheduledRunTime_None [OF wh] by (auto simp: due_queues_def)
  next
    case (Some t)
    then have "now < t" using n unfolding c by simp
    then show ?thesis using NextScheduledRunTime_Some(2) [OF wh Some] by (force simp: due_queues_def)
  qed
  then show "heap_empty (wheap s d) \<or> now < wu_time (sw_wake_up ?m) \<longleftrightarrow> due_queues W d now = {}"
    using two by blast
qed

text \<open>One unit of fuel per due queue is enough; afterwards no queue of the domain is due, and every
  queue that had scheduled its earliest task still has.\<close>

lemma td_MoveReady_done:
  assumes "wakes_ok base W s" "card (due_queues W d now) \<le> fuel"
  shows "\<exists>u W'. td_MoveReady fuel d now s = Some u \<and> wakes_ok base W' u \<and> due_queues W' d now = {} \<and>
    (\<forall>q. settled q s \<longrightarrow> settled q u)"
  using assms
proof (induction fuel arbitrary: W s)
  case 0
  then have "due_queues W d now = {}" using due_queues_finite [OF 0(1)] by simp
  then show ?case using 0(1) td_loop_condition(1) [OF 0(1), of d now] by (subst td_MoveReady.simps) auto
next
  case (Suc fuel)
  show ?case
  proof (cases "due_queues W d now = {}")
    case True
    then show ?thesis using Suc(2) td_loop_condition(1) [OF Suc(2), of d now] by (subst td_MoveReady.simps) auto
  next
    case False
    let ?q = "sw_queue (heap_Min (wheap s d))" and ?v = "MoveReadyDelayedTasksToWorkQueue (sw_queue (heap_Min (wheap s d))) now s"
    have nc: "\<not> (heap_empty (wheap s d) \<or> now < wu_time (sw_wake_up (heap_Min (wheap s d))))"
      using False td_loop_condition(1) [OF Suc(2), of d now] by blast
    have q: "?q \<in> due_queues W d now" by (rule td_loop_condition(2) [OF Suc(2) nc])
    then obtain w r where w: "W ?q = Some (d, w, r)" by (auto simp: due_queues_def)
    have "map_option (\<lambda>(d, w, r). (d, w)) (W ?q) = scheduled (tq s ?q)" using Suc(2) unfolding wakes_ok_def by blast
    then have dom: "time_domain (tq s ?q) = Some d" using w by (simp add: scheduled_def split: option.splits)
    note mv = MoveReady_wakes [OF Suc(2) dom refl, where now = now]
    obtain r' where ok: "wakes_ok base (W(?q := map_option (\<lambda>w. (d, w, r')) (GetNextScheduledWakeUpImpl ?q ?v))) ?v"
      using mv(1) by blast
    let ?W = "W(?q := map_option (\<lambda>w. (d, w, r')) (GetNextScheduledWakeUpImpl ?q ?v))"
    have "due_queues ?W d now \<subseteq> due_queues W d now - {?q}"
    proof
      fix x assume x: "x \<in> due_queues ?W d now"
      show "x \<in> due_queues W d now - {?q}"
      proof (cases "x = ?q")
        case True
        then show ?thesis using x mv(3) by (force simp: due_queues_def)
      next
        case False
        then show ?thesis using x by (simp add: due_queues_def)
      qed
    qed
    then have "card (due_queues ?W d now) \<le> card (due_queues W d now - {?q})"
      using due_queues_finite [OF Suc(2)] by (intro card_mono) auto
    also have "\<dots> = card (due_queues W d now) - 1" using q by simp
    finally have "card (due_queues ?W d now) \<le> fuel" using Suc(3) by simp
    from Suc(1) [OF ok this] obtain u W' where u: "td_MoveReady fuel d now ?v = Some u" "wakes_ok base W' u"
      "due_queues W' d now = {}" "\<forall>q. settled q ?v \<longrightarrow> settled q u" by blast
    have "td_MoveReady (Suc fuel) d now s = Some u" using nc u(1) by (subst td_MoveReady.simps) simp
    moreover have "settled q s \<longrightarrow> settled q u" for q using u(4) mv(2,5) by (cases "q = ?q") blast+
    ultimately show ?thesis using u(2,3) by blast
  qed
qed

end
