(* ===== verification/Sequence_Manager.thy ===== *)
theory Sequence_Manager
  imports Queue_Wake_Ups
begin

text \<open>
  The model of \<open>sequence_manager_impl.cc\<close>: what the manager does with its queues between two calls
  of its thread controller. The pointer-keyed sets and maps of the code are lists here, in the
  (unspecified) order of the iteration. Loops whose end depends on the queues take fuel. Task
  observers, task timing, tracing and the crash key itself are left out. Time domains other than the
  real one are classes of other programs: what they answer is an argument of the operations.
\<close>

section \<open>Registration\<close>

definition RegisterTimeDomain :: "nat \<Rightarrow> sched \<Rightarrow> sched" where
  "RegisterTimeDomain d s = s\<lparr>registered_domains := List.insert d (registered_domains s)\<rparr>"

definition UnregisterTimeDomain :: "nat \<Rightarrow> sched \<Rightarrow> sched" where
  "UnregisterTimeDomain d s = s\<lparr>registered_domains := removeAll d (registered_domains s)\<rparr>"

definition kReclaimMemoryInterval :: int where "kReclaimMemoryInterval = 30 * 1000000"

text \<open>The constructor; \<open>now\<close> is what the clock of the settings shows.\<close>

definition SequenceManagerImpl_new :: "(nat \<Rightarrow> int) \<Rightarrow> bool \<Rightarrow> sched" where
  "SequenceManagerImpl_new now add_queue_time =
     RegisterTimeDomain 0
       \<lparr>work_queues = (\<lambda>_. WorkQueue_new), heap_handles = (\<lambda>_. 0),
        work_queue_heaps = (\<lambda>_ _. IntrusiveHeap_init oldest_dflt),
        non_empty_set_counts = (\<lambda>_. 0), active_priorities = SmallPriorityQueue_init,
        selection_count = 0, immediate_starvation_count = 0,
        task_queues = (\<lambda>_. \<lparr>tq_name = [], immediate_incoming_queue = deque_new, tq_unregistered = True,
          immediate_work_queue_empty = True, post_immediate_task_should_schedule_work = False,
          time_domain = None, delayed_incoming_queue = DelayedIncomingQueue_new, is_enabled = False,
          current_fence = EnqueueOrder_none, delayed_fence = None, scheduled_wake_up = None,
          on_next_wake_up_changed_callback = False, delayed_fence_allowed = False,
          should_monitor_quiescence = False, should_notify_observers = False,
          task_poster = OperationsController_new, empty_queues_to_reload_handle = None\<rparr>),
        time_domains = (\<lambda>_. TimeDomain_new), wake_up_handles = (\<lambda>_. 0), clock = now,
        cancelled = (\<lambda>_. False), enqueue_order_generator = EnqueueOrder_kFirst,
        empty_queues_to_reload = AtomicFlagSet_new, add_queue_time_to_tasks = add_queue_time,
        registered_domains = [], active_queues = [], queues_to_gracefully_shutdown = [],
        queues_to_delete = [], nesting_depth = 0, non_nestable_task_queue = [],
        task_execution_stack = [], memory_reclaim_scheduled = False,
        next_time_to_reclaim_memory = ticks_plus (now 0) kReclaimMemoryInterval,
        task_was_run_on_quiescence_monitored_queue = False, events = []\<rparr>"

definition CreateTaskQueueImpl :: "nat \<Rightarrow> queue_spec \<Rightarrow> sched \<Rightarrow> sched" where
  "CreateTaskQueueImpl q spec s =
     (let d = (case spec_time_domain spec of Some d \<Rightarrow> d | None \<Rightarrow> 0);
          s = TaskQueueImpl_new q d spec s;
          s = s\<lparr>active_queues := List.insert q (active_queues s)\<rparr>
      in sel_AddQueue q s)"

definition SetAddQueueTimeToTasks :: "bool \<Rightarrow> sched \<Rightarrow> sched" where
  "SetAddQueueTimeToTasks enable s = s\<lparr>add_queue_time_to_tasks := enable\<rparr>"

definition GetAddQueueTimeToTasks :: "sched \<Rightarrow> bool" where
  "GetAddQueueTimeToTasks s = add_queue_time_to_tasks s"

definition ShutdownTaskQueueGracefully :: "nat \<Rightarrow> sched \<Rightarrow> sched" where
  "ShutdownTaskQueueGracefully q s =
     s\<lparr>queues_to_gracefully_shutdown := List.insert q (queues_to_gracefully_shutdown s)\<rparr>"

definition UnregisterTaskQueueImpl :: "nat \<Rightarrow> sched \<Rightarrow> sched" where
  "UnregisterTaskQueueImpl q s =
     (let s = sel_RemoveQueue q s;
          s = UnregisterTaskQueue q s;
          s = s\<lparr>active_queues := removeAll q (active_queues s)\<rparr>
      in s\<lparr>queues_to_delete := List.insert q (queues_to_delete s)\<rparr>)"

definition SequenceManagerImpl_destroy :: "sched \<Rightarrow> sched" where
  "SequenceManagerImpl_destroy s =
     (let s = fold (\<lambda>q s. UnregisterTaskQueue q (sel_RemoveQueue q s)) (active_queues s) s
      in s\<lparr>active_queues := [], queues_to_gracefully_shutdown := []\<rparr>)"

section \<open>Bringing tasks to the work queues\<close>

definition run_reload :: "nat option \<Rightarrow> sched \<Rightarrow> sched" where
  "run_reload callback s = (case callback of None \<Rightarrow> s | Some q \<Rightarrow> ReloadEmptyImmediateWorkQueue q s)"

definition ReloadEmptyWorkQueues :: "sched \<Rightarrow> sched" where
  "ReloadEmptyWorkQueues s =
     (let (callbacks, flag_set) = RunActiveCallbacks (empty_queues_to_reload s)
      in fold run_reload callbacks (s\<lparr>empty_queues_to_reload := flag_set\<rparr>))"

fun sm_MoveReady_in :: "nat \<Rightarrow> int \<Rightarrow> nat list \<Rightarrow> sched \<Rightarrow> sched option" where
  "sm_MoveReady_in fuel now [] s = Some s"
| "sm_MoveReady_in fuel now (d # ds) s =
     (case td_MoveReady fuel d (if d = 0 then now else clock s d) s of None \<Rightarrow> None
      | Some s \<Rightarrow> sm_MoveReady_in fuel now ds s)"

definition sm_MoveReadyDelayedTasksToWorkQueues :: "nat \<Rightarrow> int \<Rightarrow> sched \<Rightarrow> sched option" where
  "sm_MoveReadyDelayedTasksToWorkQueues fuel now s = sm_MoveReady_in fuel now (registered_domains s) s"

section \<open>Nested run loops\<close>

definition OnBeginNestedRunLoop :: "sched \<Rightarrow> sched" where
  "OnBeginNestedRunLoop s = s\<lparr>nesting_depth := nesting_depth s + 1\<rparr>"

text \<open>The loop of \<open>OnExitNestedRunLoop\<close> takes the deferred tasks from the back, up to the first one whose
  queue has been unregistered.\<close>

fun requeue_back :: "deferred_task list \<Rightarrow> sched \<Rightarrow> sched option" where
  "requeue_back [] s = Some s"
| "requeue_back (non_nestable_task # rest) s =
     (case RequeueDeferredNonNestableTask non_nestable_task s of None \<Rightarrow> None
      | Some s \<Rightarrow> requeue_back rest (s\<lparr>non_nestable_task_queue := butlast (non_nestable_task_queue s)\<rparr>))"

definition requeue_deferred :: "sched \<Rightarrow> sched option" where
  "requeue_deferred s = requeue_back (rev (non_nestable_task_queue s)) s"

definition OnExitNestedRunLoop :: "sched \<Rightarrow> sched option" where
  "OnExitNestedRunLoop s =
     (let s = s\<lparr>nesting_depth := nesting_depth s - 1\<rparr>
      in if nesting_depth s = 0 then requeue_deferred s else Some s)"

section \<open>Taking a task\<close>

definition RunTaskTraceNameForPriority :: "nat \<Rightarrow> string option" where
  "RunTaskTraceNameForPriority priority =
     (if priority = kControlPriority then Some ''RunControlPriorityTask''
      else if priority = kHighestPriority then Some ''RunHighestPriorityTask''
      else if priority = kVeryHighPriority then Some ''RunVeryHighPriorityTask''
      else if priority = kHighPriority then Some ''RunHighPriorityTask''
      else if priority = kNormalPriority then Some ''RunNormalPriorityTask''
      else if priority = kLowPriority then Some ''RunLowPriorityTask''
      else if priority = kBestEffortPriority then Some ''RunBestEffortPriorityTask''
      else None)"

text \<open>The part of \<open>NotifyWillProcessTask\<close> that changes the manager's own state.\<close>

definition NotifyWillProcessTask :: "executing_task \<Rightarrow> sched \<Rightarrow> sched" where
  "NotifyWillProcessTask t s =
     (if should_monitor_quiescence (tq s (et_queue t))
      then s\<lparr>task_was_run_on_quiescence_monitored_queue := True\<rparr> else s)"

definition defer_task :: "bool \<Rightarrow> wq_id \<Rightarrow> sched \<Rightarrow> sched" where
  "defer_task dcheck x s =
     (let (t, s) = TakeTaskFromWorkQueue dcheck x s
      in s\<lparr>non_nestable_task_queue := non_nestable_task_queue s @
              [\<lparr>df_task = the t, df_queue = fst x, df_type = snd x\<rparr>]\<rparr>)"

definition begin_task :: "bool \<Rightarrow> wq_id \<Rightarrow> sched \<Rightarrow> Task \<times> sched" where
  "begin_task dcheck x s =
     (let (t, s) = TakeTaskFromWorkQueue dcheck x s;
          executing_task = \<lparr>et_task = the t, et_queue = fst x, et_priority = GetQueuePriority (fst x) s\<rparr>;
          s = s\<lparr>task_execution_stack := task_execution_stack s @ [executing_task]\<rparr>
      in (the t, NotifyWillProcessTask executing_task s))"

fun take_loop :: "nat \<Rightarrow> bool \<Rightarrow> sched \<Rightarrow> (Task option \<times> sched) option" where
  "take_loop fuel dcheck s =
     (let (work_queue, s) = SelectWorkQueueToService s
      in case work_queue of None \<Rightarrow> Some (None, s)
         | Some x \<Rightarrow>
             let (removed, s) = RemoveAllCanceledTasksFromFront x s
             in if removed then (case fuel of 0 \<Rightarrow> None | Suc fuel \<Rightarrow> take_loop fuel dcheck s)
                else if task_nestable (the (GetFrontTask (wq s x))) = kNonNestable \<and> 0 < nesting_depth s
                then (case fuel of 0 \<Rightarrow> None | Suc fuel \<Rightarrow> take_loop fuel dcheck (defer_task dcheck x s))
                else let (t, s) = begin_task dcheck x s in Some (Some t, s))"

declare take_loop.simps [simp del]

text \<open>\<open>lazy_now.has_value()\<close>: the move reads the clock exactly when the real time domain has a
  wake-up to compare it with.\<close>

definition TakeTaskImpl :: "nat \<Rightarrow> bool \<Rightarrow> sched \<Rightarrow> (Task option \<times> sched) option" where
  "TakeTaskImpl fuel dcheck s =
     (let s = ReloadEmptyWorkQueues s;
          now = clock s 0;
          sampled = (0 \<in> set (registered_domains s) \<and> \<not> td_Empty 0 s)
      in case sm_MoveReadyDelayedTasksToWorkQueues fuel now s of None \<Rightarrow> None
         | Some s \<Rightarrow>
             let s = (if sampled \<and> next_time_to_reclaim_memory s \<le> now
                      then s\<lparr>memory_reclaim_scheduled := True\<rparr> else s)
             in take_loop fuel dcheck s)"

section \<open>Between tasks\<close>

definition GetAndClearSystemIsQuiescentBit :: "sched \<Rightarrow> bool \<times> sched" where
  "GetAndClearSystemIsQuiescentBit s =
     (\<not> task_was_run_on_quiescence_monitored_queue s,
      s\<lparr>task_was_run_on_quiescence_monitored_queue := False\<rparr>)"

fun clean_up :: "nat list \<Rightarrow> sched \<Rightarrow> sched" where
  "clean_up [] s = s"
| "clean_up (q # qs) s =
     (if tq_IsEmpty q s
      then let s = UnregisterTaskQueueImpl q s;
               s = s\<lparr>active_queues := removeAll q (active_queues s)\<rparr>
           in clean_up qs (s\<lparr>queues_to_gracefully_shutdown := removeAll q (queues_to_gracefully_shutdown s)\<rparr>)
      else clean_up qs s)"

definition CleanUpQueues :: "sched \<Rightarrow> sched" where
  "CleanUpQueues s = (clean_up (queues_to_gracefully_shutdown s) s)\<lparr>queues_to_delete := []\<rparr>"

definition DidRunTask :: "sched \<Rightarrow> sched" where
  "DidRunTask s =
     (let s = s\<lparr>task_execution_stack := butlast (task_execution_stack s)\<rparr>
      in if nesting_depth s = 0 then CleanUpQueues s else s)"

definition currently_executing_task_queue :: "sched \<Rightarrow> nat option" where
  "currently_executing_task_queue s =
     (if task_execution_stack s = [] then None else Some (et_queue (last (task_execution_stack s))))"

text \<open>\<open>delay_of\<close> answers \<open>DelayTillNextTask\<close> for the domains other than the real one.\<close>

definition domain_delay :: "(nat \<Rightarrow> sched \<Rightarrow> int option) \<Rightarrow> int \<Rightarrow> nat \<Rightarrow> sched \<Rightarrow> int option" where
  "domain_delay delay_of now d s = (if d = 0 then rtd_DelayTillNextTask now s else delay_of d s)"

definition shortest_delay :: "(nat \<Rightarrow> sched \<Rightarrow> int option) \<Rightarrow> int \<Rightarrow> nat list \<Rightarrow> sched \<Rightarrow> int" where
  "shortest_delay delay_of now ds s =
     fold (\<lambda>d delay_till_next_task.
        case domain_delay delay_of now d s of None \<Rightarrow> delay_till_next_task
        | Some delay \<Rightarrow> if delay < delay_till_next_task then delay else delay_till_next_task) ds int64_max"

definition sm_DelayTillNextTask :: "(nat \<Rightarrow> sched \<Rightarrow> int option) \<Rightarrow> int \<Rightarrow> sched \<Rightarrow> int \<times> sched" where
  "sm_DelayTillNextTask delay_of now s =
     (if \<not> AllEnabledWorkQueuesAreEmpty s then (0, s)
      else let s = ReloadEmptyWorkQueues s
           in if \<not> AllEnabledWorkQueuesAreEmpty s then (0, s)
              else (shortest_delay delay_of now (registered_domains s) s, s))"

definition sm_HasPendingHighResolutionTasks :: "sched \<Rightarrow> bool" where
  "sm_HasPendingHighResolutionTasks s =
     list_ex (\<lambda>d. HasPendingHighResolutionTasks d s) (registered_domains s)"

section \<open>Memory\<close>

definition ReclaimMemoryFromQueue :: "nat \<Rightarrow> sched \<Rightarrow> sched" where
  "ReclaimMemoryFromQueue q s =
     (let s = tq_ReclaimMemory q (td_now q s) s;
          s = snd (RemoveAllCanceledTasksFromFront (q, kDelayed) s)
      in snd (RemoveAllCanceledTasksFromFront (q, kImmediate) s))"

definition sm_ReclaimMemory :: "sched \<Rightarrow> sched" where
  "sm_ReclaimMemory s =
     (let graceful = queues_to_gracefully_shutdown s;
          s = fold ReclaimMemoryFromQueue (active_queues s) s
      in fold ReclaimMemoryFromQueue graceful s)"

definition MaybeReclaimMemory :: "sched \<Rightarrow> sched" where
  "MaybeReclaimMemory s =
     (if \<not> memory_reclaim_scheduled s then s
      else let s = sm_ReclaimMemory s
           in s\<lparr>next_time_to_reclaim_memory := ticks_plus (clock s 0) kReclaimMemoryInterval,
                memory_reclaim_scheduled := False\<rparr>)"

text \<open>\<open>fast_forward\<close> answers \<open>MaybeFastForwardToNextTask\<close> for the domains other than the real one.\<close>

definition domain_fast_forward :: "(nat \<Rightarrow> bool \<Rightarrow> sched \<Rightarrow> bool \<times> sched) \<Rightarrow> bool \<Rightarrow> nat \<Rightarrow> bool \<times> sched \<Rightarrow> bool \<times> sched" where
  "domain_fast_forward fast_forward quit d st =
     (let (have_work_to_do, s) = st;
          (b, s) = (if d = 0 then (rtd_MaybeFastForwardToNextTask quit, s) else fast_forward d quit s)
      in (have_work_to_do \<or> b, s))"

definition OnSystemIdle :: "(nat \<Rightarrow> bool \<Rightarrow> sched \<Rightarrow> bool \<times> sched) \<Rightarrow> bool \<Rightarrow> sched \<Rightarrow> bool \<times> sched" where
  "OnSystemIdle fast_forward quit s =
     (let (have_work_to_do, s) = fold (domain_fast_forward fast_forward quit) (registered_domains s) (False, s)
      in (have_work_to_do, if have_work_to_do then s else MaybeReclaimMemory s))"

section \<open>All queues at once\<close>

definition RemoveAllCanceledTasksFromFrontOfWorkQueues :: "sched \<Rightarrow> sched" where
  "RemoveAllCanceledTasksFromFrontOfWorkQueues s =
     fold (\<lambda>q s. snd (RemoveAllCanceledTasksFromFront (q, kImmediate)
                     (snd (RemoveAllCanceledTasksFromFront (q, kDelayed) s)))) (active_queues s) s"

text \<open>\<open>UnregisterTaskQueue\<close> gives the work queues of a queue away, so that asking an unregistered queue
  for its tasks reads through a null pointer: \<^term>\<open>None\<close>.\<close>

definition asked_HasTasks :: "nat \<Rightarrow> sched \<Rightarrow> bool option" where
  "asked_HasTasks q s = (if tq_unregistered (tq s q) then None else Some (tq_HasTasks q s))"

fun any_HasTasks :: "nat list \<Rightarrow> sched \<Rightarrow> bool option" where
  "any_HasTasks [] s = Some False"
| "any_HasTasks (q # qs) s =
     (case asked_HasTasks q s of None \<Rightarrow> None | Some True \<Rightarrow> Some True | Some False \<Rightarrow> any_HasTasks qs s)"

definition sm_HasTasks :: "sched \<Rightarrow> bool option \<times> sched" where
  "sm_HasTasks s =
     (let s = RemoveAllCanceledTasksFromFrontOfWorkQueues s
      in (any_HasTasks (active_queues s @ queues_to_gracefully_shutdown s @ queues_to_delete s) s, s))"

fun delete_all :: "nat list \<Rightarrow> sched \<Rightarrow> sched option" where
  "delete_all [] s = Some s"
| "delete_all (q # qs) s =
     (if tq_unregistered (tq s q) then None else delete_all qs (tq_DeletePendingTasks q s))"

definition sm_DeletePendingTasks :: "sched \<Rightarrow> sched option" where
  "sm_DeletePendingTasks s =
     delete_all (active_queues s @ queues_to_gracefully_shutdown s @ queues_to_delete s) s"

definition IsIdleForTesting :: "sched \<Rightarrow> bool \<times> sched" where
  "IsIdleForTesting s =
     (let s = ReloadEmptyWorkQueues s;
          s = RemoveAllCanceledTasksFromFrontOfWorkQueues s
      in (AllEnabledWorkQueuesAreEmpty s, s))"

definition GetPendingTaskCountForTesting :: "sched \<Rightarrow> nat" where
  "GetPendingTaskCountForTesting s = sum_list (map (\<lambda>q. GetNumberOfPendingTasks q s) (active_queues s))"

section \<open>Crash keys\<close>

text \<open>\<open>PrependHexAddress\<close> writes an address backwards in memory; here, in front of what the buffer
  already holds behind it.\<close>

definition kHexChars :: string where "kHexChars = ''0123456789ABCDEF''"

function hex_digits :: "u64 \<Rightarrow> string \<Rightarrow> string" where
  "hex_digits value output =
     (let output = kHexChars ! unat (value mod 16) # output; value = value div 16
      in if value = 0 then output else hex_digits value output)"
  by pat_completeness auto
termination
proof (relation "measure (\<lambda>(v, _). unat v)")
  fix v :: u64 and out x xa
  assume "xa = v div 16" "xa \<noteq> 0"
  then have "unat xa = unat v div 16" "0 < unat xa" by (simp add: unat_div, simp only: unat_gt_0 not_False_eq_True)
  then show "((xa, x), v, out) \<in> measure (\<lambda>(v, _). unat v)" by simp
qed simp

declare hex_digits.simps [simp del]

definition PrependHexAddress :: "u64 \<Rightarrow> string \<Rightarrow> string" where
  "PrependHexAddress address output = CHR ''0'' # CHR ''x'' # hex_digits address output"

definition RecordCrashKeys :: "u64 \<Rightarrow> u64 \<Rightarrow> string" where
  "RecordCrashKeys backtrace0 program_counter =
     PrependHexAddress program_counter (CHR '' '' # PrependHexAddress backtrace0 [])"

text \<open>What a reader of the key makes of the digits.\<close>

definition hex_digit :: "char \<Rightarrow> nat" where
  "hex_digit c = (if of_char c < (58 :: nat) then of_char c - 48 else of_char c - 55)"

definition hex_value :: "string \<Rightarrow> nat" where
  "hex_value = foldl (\<lambda>n c. 16 * n + hex_digit c) 0"

lemma hex_digit_kHexChars: "n < 16 \<Longrightarrow> hex_digit (kHexChars ! n) = n" "n < 16 \<Longrightarrow> kHexChars ! n = CHR ''0'' \<longleftrightarrow> n = 0"
proof -
  have "\<forall>n < 16. hex_digit (kHexChars ! n) = n \<and> (kHexChars ! n = CHR ''0'' \<longleftrightarrow> n = 0)"
    unfolding kHexChars_def hex_digit_def by code_simp
  then show "n < 16 \<Longrightarrow> hex_digit (kHexChars ! n) = n" "n < 16 \<Longrightarrow> kHexChars ! n = CHR ''0'' \<longleftrightarrow> n = 0" by blast+
qed

lemma hex_digits_spec:
  "\<exists>ds. hex_digits v out = ds @ out \<and> ds \<noteq> [] \<and> hex_value ds = unat v \<and> unat v < 16 ^ length ds \<and>
     16 ^ (length ds - 1) \<le> max 1 (unat v) \<and> (hd ds = CHR ''0'' \<longleftrightarrow> v = 0)"
proof (induction v out rule: hex_digits.induct)
  case (1 v out)
  let ?d = "kHexChars ! unat (v mod 16)"
  have m: "unat (v mod 16) = unat v mod 16" by (simp add: unat_mod)
  have q: "unat (v div 16) = unat v div 16" by (simp add: unat_div)
  have hd: "hex_digit ?d = unat v mod 16" "?d = CHR ''0'' \<longleftrightarrow> unat v mod 16 = 0"
    using hex_digit_kHexChars [of "unat v mod 16"] by (simp_all add: m)
  show ?case
  proof (cases "v div 16 = 0")
    case True
    then have "unat v div 16 = 0" using q by simp
    then have l: "unat v < 16" by simp
    have "hex_digits v out = [?d] @ out" using True by (subst hex_digits.simps) (simp add: Let_def)
    moreover have "unat v mod 16 = 0 \<longleftrightarrow> v = 0" using l by (simp add: unat_eq_0 [symmetric])
    ultimately show ?thesis using l hd by (intro exI [of _ "[?d]"]) (simp add: hex_value_def)
  next
    case False
    then obtain ds where ds: "hex_digits (v div 16) (?d # out) = ds @ ?d # out" "ds \<noteq> []" "hex_value ds = unat v div 16"
      "unat v div 16 < 16 ^ length ds" "16 ^ (length ds - 1) \<le> max 1 (unat v div 16)" "hd ds \<noteq> CHR ''0''"
      using 1 q by auto
    have p: "1 \<le> unat v div 16" using False q by (metis less_one not_le unat_eq_0)
    have "hex_digits v out = (ds @ [?d]) @ out" using False ds(1) by (subst hex_digits.simps) (simp add: Let_def)
    moreover have "hex_value (ds @ [?d]) = unat v" using ds(3) hd(1) by (simp add: hex_value_def)
    moreover have "unat v < 16 ^ length (ds @ [?d])" using ds(4) by simp
    moreover have "16 ^ (length (ds @ [?d]) - 1) \<le> max 1 (unat v)"
    proof -
      have "16 ^ length ds = 16 * 16 ^ (length ds - 1)" using ds(2) by (cases ds) simp_all
      also have "\<dots> \<le> 16 * (unat v div 16)" using ds(5) p by (intro mult_le_mono2) simp
      also have "\<dots> \<le> unat v" by simp
      finally show ?thesis by simp
    qed
    moreover have "v \<noteq> 0" using False by auto
    ultimately show ?thesis using ds(2,6) by (intro exI [of _ "ds @ [?d]"]) simp
  qed
qed

lemma hex_digits_length: "length (hex_digits v out) \<le> 16 + length out"
proof -
  obtain ds where ds: "hex_digits v out = ds @ out" "16 ^ (length ds - 1) \<le> max 1 (unat v)" using hex_digits_spec by blast
  have "max 1 (unat v) < 2 ^ 64" using unsigned_less [of v, where 'a = nat] by simp
  then have "(16 :: nat) ^ (length ds - 1) < 16 ^ 16" using ds(2) by simp
  then have "length ds - 1 < 16" by (rule power_less_imp_less_exp [rotated]) simp
  then show ?thesis using ds(1) by simp
qed

lemma RecordCrashKeys_length: "length (RecordCrashKeys a pc) < 64"
proof -
  have "length (PrependHexAddress a out) \<le> 18 + length out" for a out
    using hex_digits_length [of a out] by (simp add: PrependHexAddress_def)
  from this [of pc "CHR '' '' # PrependHexAddress a []"] this [of a "[]"] show ?thesis by (simp add: RecordCrashKeys_def)
qed

text \<open>The name that is missing from \<open>PriorityToString\<close>.\<close>

lemma priority_names_have_a_gap:
  "PriorityToString p = None \<and> RunTaskTraceNameForPriority p \<noteq> None \<longleftrightarrow> p = kVeryHighPriority"
  by (auto simp: PriorityToString_def RunTaskTraceNameForPriority_def priority_defs)

end
