(* ===== verification/Manager_View.thy ===== *)
theory Manager_View
  imports Sequence_Manager
begin

text \<open>
  The abstract state of the scheduler: per queue the lists of its tasks, its fences, its place in the
  selector and its cross-thread bits, without rings, heaps, handles or wake-ups. Each operation of
  the queues acts on this view as a plain function of it.
\<close>

section \<open>The view\<close>

record queue_view =
  qv_tasks :: "work_queue_type \<Rightarrow> Task list"
  qv_fence :: "work_queue_type \<Rightarrow> enqueue_order"
  qv_sets :: "work_queue_type \<Rightarrow> work_queue_type option"
  qv_index :: "work_queue_type \<Rightarrow> nat"
  qv_incoming :: "Task list"
  qv_enabled :: bool
  qv_unregistered :: bool
  qv_delayed_fence :: "int option"
  qv_work_queue_empty :: bool
  qv_handle :: atomic_flag

definition view :: "sched \<Rightarrow> nat \<Rightarrow> queue_view" where
  "view s q =
     \<lparr>qv_tasks = (\<lambda>w. dq_list (tasks (wq s (q, w)))), qv_fence = (\<lambda>w. wq_fence (wq s (q, w))),
      qv_sets = (\<lambda>w. work_queue_sets (wq s (q, w))), qv_index = (\<lambda>w. work_queue_set_index (wq s (q, w))),
      qv_incoming = dq_list (immediate_incoming_queue (tq s q)), qv_enabled = is_enabled (tq s q),
      qv_unregistered = tq_unregistered (tq s q), qv_delayed_fence = delayed_fence (tq s q),
      qv_work_queue_empty = immediate_work_queue_empty (tq s q),
      qv_handle = empty_queues_to_reload_handle (tq s q)\<rparr>"

text \<open>Two states that differ at most in what the view leaves out.\<close>

definition same_view :: "sched \<Rightarrow> sched \<Rightarrow> bool" where
  "same_view s t \<longleftrightarrow> view t = view s \<and> non_nestable_task_queue t = non_nestable_task_queue s \<and>
     enqueue_order_generator t = enqueue_order_generator s \<and> empty_queues_to_reload t = empty_queues_to_reload s"

lemma same_view_refl: "same_view s s"
  by (simp add: same_view_def)

lemma same_view_trans: "same_view s t \<Longrightarrow> same_view t u \<Longrightarrow> same_view s u"
  by (simp add: same_view_def)

lemma same_viewD:
  assumes "same_view s t"
  shows "view t = view s" "non_nestable_task_queue t = non_nestable_task_queue s"
    "enqueue_order_generator t = enqueue_order_generator s" "empty_queues_to_reload t = empty_queues_to_reload s"
  using assms by (simp_all add: same_view_def)

lemma view_cong:
  "work_queues t = work_queues s \<Longrightarrow> task_queues t = task_queues s \<Longrightarrow> view t = view s"
  by (rule ext) (simp add: view_def)

lemma same_view_sets: "sets_frame s t \<Longrightarrow> same_view s t"
proof -
  assume f: "sets_frame s t"
  have "non_nestable_task_queue t = non_nestable_task_queue s"
    by (subst f [unfolded sets_frame_def]) simp
  then show ?thesis using sets_frame_reads [OF f] view_cong [of t s] by (simp add: same_view_def)
qed

lemma same_view_wake: "wake_frame s t \<Longrightarrow> same_view s t"
proof -
  assume f: "wake_frame s t"
  have "non_nestable_task_queue t = non_nestable_task_queue s"
    by (subst f [unfolded wake_frame_def]) simp
  then show ?thesis using wake_frame_reads [OF f] view_cong [of t s] by (simp add: same_view_def)
qed

text \<open>How the elementary updates act on the view.\<close>

lemma view_upd_tq:
  "view (upd_tq q f s) = (view s)(q := (view s q)\<lparr>qv_incoming := dq_list (immediate_incoming_queue (f (tq s q))),
     qv_enabled := is_enabled (f (tq s q)), qv_unregistered := tq_unregistered (f (tq s q)),
     qv_delayed_fence := delayed_fence (f (tq s q)), qv_work_queue_empty := immediate_work_queue_empty (f (tq s q)),
     qv_handle := empty_queues_to_reload_handle (f (tq s q))\<rparr>)"
  by (rule ext) (simp add: view_def)

lemma view_set_tasks:
  "view (set_tasks (q, w) d s) = (view s)(q := (view s q)\<lparr>qv_tasks := (qv_tasks (view s q))(w := dq_list d)\<rparr>)"
  by (rule ext) (auto simp: view_def set_tasks_def upd_wq_def)

lemma view_fence:
  "view (upd_wq (q, w) (\<lambda>x. x\<lparr>wq_fence := f\<rparr>) s) = (view s)(q := (view s q)\<lparr>qv_fence := (qv_fence (view s q))(w := f)\<rparr>)"
  by (rule ext) (auto simp: view_def upd_wq_def)

lemma view_reads:
  "qv_tasks (view s q) w = dq_list (tasks (wq s (q, w)))" "qv_fence (view s q) w = wq_fence (wq s (q, w))"
  "qv_sets (view s q) w = work_queue_sets (wq s (q, w))" "qv_index (view s q) w = work_queue_set_index (wq s (q, w))"
  "qv_incoming (view s q) = dq_list (immediate_incoming_queue (tq s q))" "qv_enabled (view s q) = is_enabled (tq s q)"
  "qv_unregistered (view s q) = tq_unregistered (tq s q)" "qv_delayed_fence (view s q) = delayed_fence (tq s q)"
  "qv_work_queue_empty (view s q) = immediate_work_queue_empty (tq s q)"
  "qv_handle (view s q) = empty_queues_to_reload_handle (tq s q)"
  by (simp_all add: view_def)

lemma other_reads [simp]:
  "non_nestable_task_queue (upd_tq q f s) = non_nestable_task_queue s"
  "non_nestable_task_queue (upd_wq x g s) = non_nestable_task_queue s"
  "non_nestable_task_queue (set_tasks x d s) = non_nestable_task_queue s"
  "enqueue_order_generator (set_tasks x d s) = enqueue_order_generator s"
  "empty_queues_to_reload (set_tasks x d s) = empty_queues_to_reload s"
  "non_nestable_task_queue (emit e s) = non_nestable_task_queue s"
  by (simp_all add: upd_tq_def upd_wq_def set_tasks_def emit_def)

lemma same_view_upd_tq:
  assumes "immediate_incoming_queue (f (tq s q)) = immediate_incoming_queue (tq s q)"
    "is_enabled (f (tq s q)) = is_enabled (tq s q)" "tq_unregistered (f (tq s q)) = tq_unregistered (tq s q)"
    "delayed_fence (f (tq s q)) = delayed_fence (tq s q)"
    "immediate_work_queue_empty (f (tq s q)) = immediate_work_queue_empty (tq s q)"
    "empty_queues_to_reload_handle (f (tq s q)) = empty_queues_to_reload_handle (tq s q)"
  shows "same_view s (upd_tq q f s)"
proof -
  have "view (upd_tq q f s) = view s" by (rule ext) (simp add: view_def assms)
  then show ?thesis by (simp add: same_view_def)
qed

lemma same_view_simple:
  "same_view s (emit e s)" "same_view s (ScheduleWork s)" "same_view s (run_wake_up_callback q n s)"
  "same_view s (upd_delayed q g s)" "same_view s (SetOnNextWakeUpChangedCallback q b s)"
  "same_view s (upd_tq q (\<lambda>t. t\<lparr>task_poster := c t\<rparr>) s)" "same_view s (upd_tq q (\<lambda>t. t\<lparr>current_fence := o1\<rparr>) s)"
  "same_view s (upd_tq q (\<lambda>t. t\<lparr>scheduled_wake_up := w\<rparr>) s)"
proof -
  have v: "view (emit e s) = view s" for e by (rule view_cong) (simp_all add: emit_def)
  show e: "same_view s (emit e s)" for e using v by (simp add: same_view_def emit_def)
  show "same_view s (ScheduleWork s)" "same_view s (run_wake_up_callback q n s)"
    unfolding ScheduleWork_def run_wake_up_callback_def by (rule e)+
qed (simp_all add: upd_delayed_def SetOnNextWakeUpChangedCallback_def same_view_upd_tq)

lemma same_view_if: "same_view s t \<Longrightarrow> same_view s u \<Longrightarrow> same_view s (if P then t else u)"
  by simp

lemma UpdateDelayedWakeUp_view: "same_view s (UpdateDelayedWakeUp q now s)"
proof -
  have 1: "same_view s (upd_tq q (\<lambda>t. t\<lparr>scheduled_wake_up := w\<rparr>) s)" for w by (rule same_view_simple)
  have 2: "same_view s (run_wake_up_callback q n (upd_tq q (\<lambda>t. t\<lparr>scheduled_wake_up := w\<rparr>) s))" for n w
    by (rule same_view_trans [OF 1 same_view_simple(3)])
  show ?thesis
    unfolding UpdateDelayedWakeUp_def UpdateDelayedWakeUpImpl_def Let_def
    by (auto split: option.split intro!: same_view_trans [OF _ same_view_wake [OF SetNextWakeUp_frame]] 1 2 same_view_refl)
qed

lemma UpdateCross_view:
  "view (UpdateCrossThreadQueueStateLocked q s) = (view s)(q := (view s q)\<lparr>qv_work_queue_empty := wq_Empty (wq s (q, kImmediate))\<rparr>)"
  "non_nestable_task_queue (UpdateCrossThreadQueueStateLocked q s) = non_nestable_task_queue s"
  "enqueue_order_generator (UpdateCrossThreadQueueStateLocked q s) = enqueue_order_generator s"
  "empty_queues_to_reload (UpdateCrossThreadQueueStateLocked q s) = empty_queues_to_reload s"
  by (simp_all add: UpdateCrossThreadQueueStateLocked_def view_upd_tq) (simp add: view_def)

section \<open>Posting, fences and due tasks\<close>

lemma set_flag_active_view:
  "view (set_flag_active b q s) = view s" "non_nestable_task_queue (set_flag_active b q s) = non_nestable_task_queue s"
  "enqueue_order_generator (set_flag_active b q s) = enqueue_order_generator s"
  "empty_queues_to_reload (set_flag_active b q s) =
     (case qv_handle (view s q) of None \<Rightarrow> empty_queues_to_reload s | Some f \<Rightarrow> SetActive b f (empty_queues_to_reload s))"
proof -
  have "view (s\<lparr>empty_queues_to_reload := f\<rparr>) = view s" for f by (rule view_cong) simp_all
  then show "view (set_flag_active b q s) = view s" by (simp add: set_flag_active_def split: option.split)
qed (simp_all add: set_flag_active_def view_reads split: option.split)

lemma PostImmediate_view:
  assumes r: "PostImmediateTaskImpl q posted s = Some u" and ok: "queues_ok s"
  obtains t where "task_enqueue_order t = enqueue_order_generator s"
    "view u = (view s)(q := (view s q)\<lparr>qv_incoming := qv_incoming (view s q) @ [t]\<rparr>)"
    "non_nestable_task_queue u = non_nestable_task_queue s" "enqueue_order_generator u = enqueue_order_generator s + 1"
    "empty_queues_to_reload u = (if qv_incoming (view s q) = [] \<and> qv_work_queue_empty (view s q)
       then case qv_handle (view s q) of None \<Rightarrow> empty_queues_to_reload s | Some f \<Rightarrow> SetActive True f (empty_queues_to_reload s)
       else empty_queues_to_reload s)"
proof -
  let ?n = "if delayed_fence_allowed (tq s q) \<or> add_queue_time_to_tasks s then td_now q s else 0"
  define t where "t = Task_make (if add_queue_time_to_tasks s then posted\<lparr>pt_queue_time := ?n\<rparr> else posted) ?n
      (enqueue_order_generator s) (enqueue_order_generator s) kLow"
  define v where "v = upd_tq q (\<lambda>x. x\<lparr>immediate_incoming_queue := dq_push_back t (immediate_incoming_queue x)\<rparr>)
      (s\<lparr>enqueue_order_generator := enqueue_order_generator s + 1\<rparr>)"
  let ?c = "dq_empty (immediate_incoming_queue (tq s q)) \<and> immediate_work_queue_empty (tq s q)"
  have "\<exists>P. u = (if ?c then if P then ScheduleWork (set_flag_active True q v) else set_flag_active True q v else v)"
    using r unfolding PostImmediateTaskImpl_def t_def v_def
    by (auto simp: GetNextSequenceNumber_def GenerateNext_def Let_def split: if_splits)
  then obtain P where u: "u = (if ?c then if P then ScheduleWork (set_flag_active True q v) else set_flag_active True q v else v)"
    by blast
  have inc: "dq_list (dq_push_back t (immediate_incoming_queue (tq s q))) = dq_list (immediate_incoming_queue (tq s q)) @ [t]"
    using dq.push_back_spec [OF wfD(3) [OF ok]] by blast
  have vv: "view v = (view s)(q := (view s q)\<lparr>qv_incoming := qv_incoming (view s q) @ [t]\<rparr>)"
    by (rule ext) (simp add: view_def v_def inc)
  have em: "dq_empty (immediate_incoming_queue (tq s q)) \<longleftrightarrow> qv_incoming (view s q) = []"
    using dq_empty_iff [OF wfD(3) [OF ok, of q]] by (simp add: view_reads)
  have sv: "same_view (set_flag_active True q v) (ScheduleWork (set_flag_active True q v))" by (rule same_view_simple)
  have ur: "view u = view v" "non_nestable_task_queue u = non_nestable_task_queue v"
    "enqueue_order_generator u = enqueue_order_generator v"
    "empty_queues_to_reload u = (if ?c then empty_queues_to_reload (set_flag_active True q v) else empty_queues_to_reload v)"
    using u same_viewD [OF sv] by (auto simp: set_flag_active_view)
  show ?thesis
  proof
    show "task_enqueue_order t = enqueue_order_generator s" by (simp add: t_def Task_make_def)
    show "view u = (view s)(q := (view s q)\<lparr>qv_incoming := qv_incoming (view s q) @ [t]\<rparr>)" using ur vv by simp
    show "non_nestable_task_queue u = non_nestable_task_queue s" using ur by (simp add: v_def)
    show "enqueue_order_generator u = enqueue_order_generator s + 1" using ur by (simp add: v_def)
    show "empty_queues_to_reload u = (if qv_incoming (view s q) = [] \<and> qv_work_queue_empty (view s q)
       then case qv_handle (view s q) of None \<Rightarrow> empty_queues_to_reload s | Some f \<Rightarrow> SetActive True f (empty_queues_to_reload s)
       else empty_queues_to_reload s)"
    proof -
      have "empty_queues_to_reload v = empty_queues_to_reload s" by (simp add: v_def)
      then show ?thesis using ur(4) em by (auto simp: set_flag_active_view vv view_reads(9) split: option.split)
    qed
  qed
qed

text \<open>A posted task either joins the incoming queue with the next enqueue order, or is delayed and
  only uses the order up.\<close>

lemma tq_PostTask_view:
  assumes r: "tq_PostTask q posted thread s = Some u"
  obtains (delayed) "view u = view s" "non_nestable_task_queue u = non_nestable_task_queue s"
      "enqueue_order_generator u = enqueue_order_generator s + 1" "empty_queues_to_reload u = empty_queues_to_reload s"
    | (immediate) p where "PostImmediateTaskImpl q p s = Some u"
    | (other_thread) p where "PostImmediateTaskImpl q p (s\<lparr>enqueue_order_generator := enqueue_order_generator s + 1\<rparr>) = Some u"
proof (cases "pt_delay posted = 0")
  case True
  then show ?thesis using r immediate by (auto simp: tq_PostTask_def)
next
  case False
  let ?s = "s\<lparr>enqueue_order_generator := enqueue_order_generator s + 1\<rparr>"
  have vs: "view ?s = view s" by (rule view_cong) simp_all
  show ?thesis
  proof (cases thread)
    case kMainThread
    then obtain t now where "u = PushOntoDelayedIncomingQueueFromMainThread q t now ?s"
      using r False unfolding tq_PostTask_def PostDelayedTaskImpl_def
      by (auto simp: GetNextSequenceNumber_def GenerateNext_def Let_def split: if_splits)
    then have "same_view ?s u" unfolding PushOntoDelayedIncomingQueueFromMainThread_def
      using same_view_trans [OF same_view_simple(4) UpdateDelayedWakeUp_view] by blast
    then show ?thesis using same_viewD [of ?s u] vs delayed by simp
  next
    case kNotMainThread
    then obtain p where "PostImmediateTaskImpl q p ?s = Some u"
      using r False unfolding tq_PostTask_def PostDelayedTaskImpl_def PushOntoDelayedIncomingQueue_def
      by (auto simp: GetNextSequenceNumber_def GenerateNext_def Let_def split: if_splits)
    then show ?thesis by (rule other_thread)
  qed
qed

lemma wq_fence_view:
  "view (snd (wq_InsertFence (q, w) f s)) = (view s)(q := (view s q)\<lparr>qv_fence := (qv_fence (view s q))(w := f)\<rparr>)"
  "view (snd (wq_RemoveFence (q, w) s)) = (view s)(q := (view s q)\<lparr>qv_fence := (qv_fence (view s q))(w := 0)\<rparr>)"
  by (rule ext, auto simp: view_def wq_fence_writes wq_fence_ops_tq)+

lemma wq_fence_globals:
  "non_nestable_task_queue (snd (wq_InsertFence x f s)) = non_nestable_task_queue s"
  "enqueue_order_generator (snd (wq_InsertFence x f s)) = enqueue_order_generator s"
  "empty_queues_to_reload (snd (wq_InsertFence x f s)) = empty_queues_to_reload s"
  "non_nestable_task_queue (snd (wq_RemoveFence x s)) = non_nestable_task_queue s"
  "enqueue_order_generator (snd (wq_RemoveFence x s)) = enqueue_order_generator s"
  "empty_queues_to_reload (snd (wq_RemoveFence x s)) = empty_queues_to_reload s"
  by (simp_all add: wq_InsertFence_def wq_RemoveFence_def InsertFenceImpl_def Let_def split_beta
      same_viewD [OF same_view_sets [OF sets_ops_frame(1)]] same_viewD [OF same_view_sets [OF sets_ops_frame(2)]]
      same_viewD [OF same_view_sets [OF sets_ops_frame(4)]] split: option.split)

lemma both_types: "g(kImmediate := f, kDelayed := f) = (\<lambda>_. f)"
  by (rule ext) (metis fun_upd_apply work_queue_type.exhaust)

lemma tq_InsertFence_view:
  assumes ok: "queues_ok s" and f: "f = (if p = kNow then enqueue_order_generator s else blocking_fence)"
  shows "view (tq_InsertFence q p s) = (view s)(q := (view s q)\<lparr>qv_fence := (\<lambda>_. f), qv_delayed_fence := None,
      qv_work_queue_empty := (qv_tasks (view s q) kImmediate = [])\<rparr>)"
    "non_nestable_task_queue (tq_InsertFence q p s) = non_nestable_task_queue s"
    "enqueue_order_generator (tq_InsertFence q p s) = (if p = kNow then enqueue_order_generator s + 1 else enqueue_order_generator s)"
    "empty_queues_to_reload (tq_InsertFence q p s) = empty_queues_to_reload s"
proof -
  define s1 where "s1 = upd_tq q (\<lambda>t. t\<lparr>current_fence := f\<rparr>) ((if p = kNow then (\<lambda>s. s\<lparr>enqueue_order_generator := enqueue_order_generator s + 1\<rparr>)
    else id) (upd_tq q (\<lambda>t. t\<lparr>delayed_fence := None\<rparr>) s))"
  define s2 where "s2 = snd (wq_InsertFence (q, kDelayed) f (snd (wq_InsertFence (q, kImmediate) f s1)))"
  let ?t = "UpdateCrossThreadQueueStateLocked q s2"
  have "\<exists>P. tq_InsertFence q p s = (if P then ScheduleWork ?t else ?t)"
    unfolding tq_InsertFence_def s2_def s1_def f
    by (auto simp: GetNextSequenceNumber_def GenerateNext_def Let_def split_beta)
  then have sv: "same_view ?t (tq_InsertFence q p s)" using same_view_simple(2) same_view_refl by metis
  have v1: "view s1 = (view s)(q := (view s q)\<lparr>qv_delayed_fence := None\<rparr>)"
    by (rule ext) (simp add: view_def s1_def)
  have v2: "view s2 = (view s)(q := (view s q)\<lparr>qv_delayed_fence := None, qv_fence := (\<lambda>_. f)\<rparr>)"
    unfolding s2_def wq_fence_view v1 by (rule ext) (simp add: both_types)
  have e2: "wq_Empty (wq s2 (q, kImmediate)) \<longleftrightarrow> qv_tasks (view s q) kImmediate = []"
  proof -
    have "wq s2 (q, kImmediate) = (wq s (q, kImmediate))\<lparr>wq_fence := f\<rparr>"
      by (simp add: s2_def wq_fence_writes s1_def)
    then show ?thesis using dq_empty_iff [OF wfD(1) [OF ok]] by (simp add: wq_Empty_def view_reads)
  qed
  show "view (tq_InsertFence q p s) = (view s)(q := (view s q)\<lparr>qv_fence := (\<lambda>_. f), qv_delayed_fence := None,
      qv_work_queue_empty := (qv_tasks (view s q) kImmediate = [])\<rparr>)"
    unfolding same_viewD(1) [OF sv] UpdateCross_view e2 v2 by (cases "view s q") simp
  show "non_nestable_task_queue (tq_InsertFence q p s) = non_nestable_task_queue s"
    "enqueue_order_generator (tq_InsertFence q p s) = (if p = kNow then enqueue_order_generator s + 1 else enqueue_order_generator s)"
    "empty_queues_to_reload (tq_InsertFence q p s) = empty_queues_to_reload s"
    unfolding same_viewD [OF sv] UpdateCross_view s2_def wq_fence_globals by (simp_all add: s1_def)
qed

lemma tq_RemoveFence_view:
  assumes ok: "queues_ok s"
  shows "view (tq_RemoveFence q s) = (view s)(q := (view s q)\<lparr>qv_fence := (\<lambda>_. 0), qv_delayed_fence := None,
      qv_work_queue_empty := (qv_tasks (view s q) kImmediate = [])\<rparr>)"
    "non_nestable_task_queue (tq_RemoveFence q s) = non_nestable_task_queue s"
    "enqueue_order_generator (tq_RemoveFence q s) = enqueue_order_generator s"
    "empty_queues_to_reload (tq_RemoveFence q s) = empty_queues_to_reload s"
proof -
  define s1 where "s1 = upd_tq q (\<lambda>t. t\<lparr>current_fence := EnqueueOrder_none, delayed_fence := None\<rparr>) s"
  define s2 where "s2 = snd (wq_RemoveFence (q, kDelayed) (snd (wq_RemoveFence (q, kImmediate) s1)))"
  let ?t = "UpdateCrossThreadQueueStateLocked q s2"
  have "\<exists>P. tq_RemoveFence q s = (if P then ScheduleWork ?t else ?t)"
    unfolding tq_RemoveFence_def s2_def s1_def by (auto simp: Let_def split_beta)
  then have sv: "same_view ?t (tq_RemoveFence q s)" using same_view_simple(2) same_view_refl by metis
  have v1: "view s1 = (view s)(q := (view s q)\<lparr>qv_delayed_fence := None\<rparr>)"
    by (rule ext) (simp add: view_def s1_def)
  have v2: "view s2 = (view s)(q := (view s q)\<lparr>qv_delayed_fence := None, qv_fence := (\<lambda>_. 0)\<rparr>)"
    unfolding s2_def wq_fence_view v1 by (rule ext) (simp add: both_types)
  have e2: "wq_Empty (wq s2 (q, kImmediate)) \<longleftrightarrow> qv_tasks (view s q) kImmediate = []"
  proof -
    have "wq s2 (q, kImmediate) = (wq s (q, kImmediate))\<lparr>wq_fence := 0\<rparr>"
      by (simp add: s2_def wq_fence_writes s1_def)
    then show ?thesis using dq_empty_iff [OF wfD(1) [OF ok]] by (simp add: wq_Empty_def view_reads)
  qed
  show "view (tq_RemoveFence q s) = (view s)(q := (view s q)\<lparr>qv_fence := (\<lambda>_. 0), qv_delayed_fence := None,
      qv_work_queue_empty := (qv_tasks (view s q) kImmediate = [])\<rparr>)"
    unfolding same_viewD(1) [OF sv] UpdateCross_view e2 v2 by (cases "view s q") simp
  show "non_nestable_task_queue (tq_RemoveFence q s) = non_nestable_task_queue s"
    "enqueue_order_generator (tq_RemoveFence q s) = enqueue_order_generator s"
    "empty_queues_to_reload (tq_RemoveFence q s) = empty_queues_to_reload s"
    unfolding same_viewD [OF sv] UpdateCross_view s2_def wq_fence_globals by (simp_all add: s1_def)
qed

lemma SetTimeDomain_view: "same_view s (SetTimeDomain q d s)"
proof -
  have 1: "same_view s (UnregisterQueue d' q s)" for d' s unfolding UnregisterQueue_def by (rule same_view_wake [OF SetNextWakeUp_frame])
  have 2: "same_view s (upd_tq q (\<lambda>t. t\<lparr>time_domain := x, scheduled_wake_up := None\<rparr>) s)" for x s
    by (rule same_view_upd_tq) simp_all
  have 3: "same_view s t \<Longrightarrow> same_view s (UpdateDelayedWakeUp q n (upd_tq q (\<lambda>t. t\<lparr>time_domain := x, scheduled_wake_up := None\<rparr>) t))" for s t n x
    by (rule same_view_trans [OF same_view_trans [OF _ 2] UpdateDelayedWakeUp_view])
  show ?thesis
    unfolding SetTimeDomain_def Let_def using 3 [OF same_view_refl] 3 [OF 1] same_view_refl
    by (cases "time_domain (tq s q)") auto
qed

text \<open>Due tasks join the delayed work queue under fresh enqueue orders.\<close>

lemma notify_view: "same_view s (notify_pushed_to_empty x s)" "same_view s (notify_front_changed x s)"
  by (simp_all add: notify_pushed_to_empty_def notify_front_changed_def same_view_refl
      same_view_sets [OF sets_ops_frame(1)] same_view_sets [OF sets_ops_frame(2)] split: option.split)

lemma MoveReady_view:
  assumes ok: "queues_ok s" and nf: "delayed_fence (tq s q) = None"
    and u: "u = MoveReadyDelayedTasksToWorkQueue q now s"
    and ts: "ts = due_tasks s now (di_queue (delayed_incoming_queue (tq s q)))"
  shows "view u = (view s)(q := (view s q)\<lparr>qv_tasks := (qv_tasks (view s q))
      (kDelayed := qv_tasks (view s q) kDelayed @ stamp (enqueue_order_generator s) ts)\<rparr>)"
    "non_nestable_task_queue u = non_nestable_task_queue s" "empty_queues_to_reload u = empty_queues_to_reload s"
    "enqueue_order_generator u = enqueue_order_generator s + of_nat (length ts)"
proof -
  let ?x = "(q, kDelayed)" and ?m = "move_ready q now s"
  note mv = move_ready_moved [OF ok nf, of now, unfolded moved_def, folded ts]
  obtain d where d: "dq_list d = dq_list (tasks (wq s ?x)) @ stamp (enqueue_order_generator s) ts"
      "sync_frame (set_tasks ?x d s) ?m" using mv by blast
  obtain W n i where m: "?m = s\<lparr>work_queues := W, enqueue_order_generator := n,
      task_queues := (task_queues s)(q := (tq s q)\<lparr>delayed_incoming_queue := i\<rparr>)\<rparr>" using mv by blast
  have "work_queues ?m = work_queues (set_tasks ?x d s)" by (rule sync_frameD(1) [OF d(2)])
  then have "view ?m = view (set_tasks ?x d s)" by (intro ext) (simp add: view_def, simp add: m)
  then have v: "view ?m = (view s)(q := (view s q)\<lparr>qv_tasks := (qv_tasks (view s q))
      (kDelayed := qv_tasks (view s q) kDelayed @ stamp (enqueue_order_generator s) ts)\<rparr>)"
    unfolding view_set_tasks d(1) by (simp add: view_reads)
  have "same_view (UpdateDelayedWakeUp q now ?m) u"
    by (simp add: u MoveReadyDelayedTasksToWorkQueue_def Let_def TaskPusher_destroy_def notify_view same_view_refl)
  note sv = same_viewD [OF same_view_trans [OF UpdateDelayedWakeUp_view this]]
  show "view u = (view s)(q := (view s q)\<lparr>qv_tasks := (qv_tasks (view s q))
      (kDelayed := qv_tasks (view s q) kDelayed @ stamp (enqueue_order_generator s) ts)\<rparr>)" unfolding sv v ..
  show "non_nestable_task_queue u = non_nestable_task_queue s" "empty_queues_to_reload u = empty_queues_to_reload s"
    unfolding sv by (simp_all add: m)
  show "enqueue_order_generator u = enqueue_order_generator s + of_nat (length ts)" unfolding sv using mv by blast
qed

section \<open>Taking, dropping and putting back tasks\<close>

text \<open>The incoming tasks become the work queue; the code does this only when the work queue is empty.\<close>

definition reload_view :: "queue_view \<Rightarrow> queue_view" where
  "reload_view v = v\<lparr>qv_tasks := (qv_tasks v)(kImmediate := qv_incoming v), qv_incoming := [],
     qv_work_queue_empty := (qv_incoming v = [])\<rparr>"

lemma tq_Take_view:
  assumes ok: "queues_ok s" and nf: "delayed_fence (tq s q) = None" and e: "qv_tasks (view s q) kImmediate = []"
  shows "view (tq_TakeImmediateIncomingQueueTasks q s) = (view s)(q := reload_view (view s q))"
    "non_nestable_task_queue (tq_TakeImmediateIncomingQueueTasks q s) = non_nestable_task_queue s"
    "enqueue_order_generator (tq_TakeImmediateIncomingQueueTasks q s) = enqueue_order_generator s"
    "empty_queues_to_reload (tq_TakeImmediateIncomingQueueTasks q s) = empty_queues_to_reload s"
proof -
  note nfu = tq_Take_no_fence [OF wfD(3) [OF ok] nf]
  have sh: "dq_list (MaybeShrinkQueue (clock s 0) (tasks (wq s (q, kImmediate)))) = []"
    using dq.shrink_spec [OF wfD(1) [OF ok, of "(q, kImmediate)"], of "clock s 0"] e by (simp add: view_reads)
  have em: "dq_empty (immediate_incoming_queue (tq s q)) \<longleftrightarrow> dq_list (immediate_incoming_queue (tq s q)) = []"
    by (rule dq_empty_iff [OF wfD(3) [OF ok]])
  show "view (tq_TakeImmediateIncomingQueueTasks q s) = (view s)(q := reload_view (view s q))"
    unfolding nfu UpdateCross_view
    by (rule ext) (auto simp: taken_def view_def reload_view_def wq_Empty_def sh em fun_eq_iff set_tasks_def upd_wq_def)
  show "non_nestable_task_queue (tq_TakeImmediateIncomingQueueTasks q s) = non_nestable_task_queue s"
    "enqueue_order_generator (tq_TakeImmediateIncomingQueueTasks q s) = enqueue_order_generator s"
    "empty_queues_to_reload (tq_TakeImmediateIncomingQueueTasks q s) = empty_queues_to_reload s"
    unfolding nfu UpdateCross_view by (simp_all add: taken_def)
qed

definition refill_view :: "work_queue_type \<Rightarrow> queue_view \<Rightarrow> queue_view" where
  "refill_view w v = (if w = kImmediate \<and> qv_tasks v w = [] then reload_view v else v)"

lemma view_set_same:
  "dq_list d = qv_tasks (view s q) w \<Longrightarrow> same_view s (set_tasks (q, w) d s)"
proof -
  assume "dq_list d = qv_tasks (view s q) w"
  then have "view (set_tasks (q, w) d s) = view s"
    unfolding view_set_tasks by (intro ext) (cases "view s q", simp add: fun_upd_idem)
  then show ?thesis by (simp add: same_view_def)
qed

lemma refill_view_eq:
  assumes ok: "queues_ok s" and nf: "delayed_fence (tq s q) = None" and e: "qv_tasks (view s q) w = []"
  shows "view (refill (q, w) s) = (view s)(q := refill_view w (view s q))"
    "non_nestable_task_queue (refill (q, w) s) = non_nestable_task_queue s"
    "enqueue_order_generator (refill (q, w) s) = enqueue_order_generator s"
    "empty_queues_to_reload (refill (q, w) s) = empty_queues_to_reload s"
proof -
  let ?t = "if w = kImmediate then tq_TakeImmediateIncomingQueueTasks q s else s"
  have ok': "queues_ok ?t" using ok tq_Take_sync(2) [OF ok nf] by simp
  have "same_view ?t (set_tasks (q, w) (MaybeShrinkQueue (clock ?t 0) (tasks (wq ?t (q, w)))) ?t)"
    by (rule view_set_same) (use dq.shrink_spec [OF wfD(1) [OF ok']] in \<open>simp add: view_reads\<close>)
  then have "same_view ?t (refill (q, w) s)" unfolding refill_def Let_def fst_conv snd_conv .
  note sv = same_viewD [OF this]
  have *: "(view s)(q := view s q) = view s" by simp
  show "view (refill (q, w) s) = (view s)(q := refill_view w (view s q))"
    "non_nestable_task_queue (refill (q, w) s) = non_nestable_task_queue s"
    "enqueue_order_generator (refill (q, w) s) = enqueue_order_generator s"
    "empty_queues_to_reload (refill (q, w) s) = empty_queues_to_reload s"
    unfolding sv using tq_Take_view [OF ok nf] e by (cases w; simp add: refill_view_def)+
qed

lemma TakeTask_view:
  assumes ok: "queues_ok s" and nf: "delayed_fence (tq s q) = None" and ne: "qv_tasks (view s q) w \<noteq> []"
    and r: "TakeTaskFromWorkQueue dcheck (q, w) s = (t, u)"
  shows "view u = (view s)(q := refill_view w ((view s q)\<lparr>qv_tasks := (qv_tasks (view s q))(w := tl (qv_tasks (view s q) w))\<rparr>))"
    "non_nestable_task_queue u = non_nestable_task_queue s" "enqueue_order_generator u = enqueue_order_generator s"
    "empty_queues_to_reload u = empty_queues_to_reload s" "t = Some (hd (qv_tasks (view s q) w))"
proof -
  let ?x = "(q, w)" and ?d = "dq_pop_front (tasks (wq s (q, w)))"
  have pf: "dq_inv ?d" "dq_list ?d = tl (qv_tasks (view s q) w)"
    using dq.pop_front_spec [OF wfD(1) [OF ok, of ?x]] ne by (auto simp: view_reads)
  let ?v = "set_tasks ?x ?d s"
  have okv: "queues_ok ?v" by (rule wf_set_tasks [OF ok pf(1)])
  have vv: "view ?v = (view s)(q := (view s q)\<lparr>qv_tasks := (qv_tasks (view s q))(w := tl (qv_tasks (view s q) w))\<rparr>)"
    unfolding view_set_tasks pf(2) ..
  let ?w = "if dq_empty (tasks (wq ?v ?x)) then refill ?x ?v else ?v"
  have em: "dq_empty ?d \<longleftrightarrow> tl (qv_tasks (view s q) w) = []" using dq_empty_iff [OF pf(1)] pf(2) by simp
  have nfv: "delayed_fence (tq ?v q) = None" using nf by simp
  have w: "view ?w = (view s)(q := refill_view w ((view s q)\<lparr>qv_tasks := (qv_tasks (view s q))(w := tl (qv_tasks (view s q) w))\<rparr>))"
    "non_nestable_task_queue ?w = non_nestable_task_queue s" "enqueue_order_generator ?w = enqueue_order_generator s"
    "empty_queues_to_reload ?w = empty_queues_to_reload s"
    using refill_view_eq [OF okv nfv, of w] em by (auto simp: vv refill_view_def)
  have tu: "t = dq_front (tasks (wq s ?x))" "u = (case work_queue_sets (wq ?w ?x) of None \<Rightarrow> ?w
      | Some y \<Rightarrow> if dcheck then OnQueuesFrontTaskChanged y ?x ?w else OnPopMinQueueInSet y ?x ?w)"
    using r unfolding TakeTaskFromWorkQueue_def Let_def prod.inject by blast+
  have "same_view ?w u" unfolding tu(2)
    by (cases "work_queue_sets (wq ?w ?x)")
      (simp_all only: option.case same_view_refl same_view_sets [OF sets_ops_frame(1)] same_view_sets [OF sets_ops_frame(3)] same_view_if)
  note sv = same_viewD [OF this]
  show "view u = (view s)(q := refill_view w ((view s q)\<lparr>qv_tasks := (qv_tasks (view s q))(w := tl (qv_tasks (view s q) w))\<rparr>))"
    "non_nestable_task_queue u = non_nestable_task_queue s" "enqueue_order_generator u = enqueue_order_generator s"
    "empty_queues_to_reload u = empty_queues_to_reload s"
    unfolding sv by (fact w)+
  show "t = Some (hd (qv_tasks (view s q) w))"
    unfolding tu(1) using dq.front_spec [OF wfD(1) [OF ok, of ?x]] ne by (simp add: view_reads)
qed

lemma RemoveAllCanceled_view:
  assumes ok: "queues_ok s" and nf: "delayed_fence (tq s q) = None"
    and r: "RemoveAllCanceledTasksFromFront (q, w) s = (b, u)"
  shows "view u = (if b then (view s)(q := refill_view w ((view s q)\<lparr>qv_tasks := (qv_tasks (view s q))
      (w := dropWhile (task_is_dead s) (qv_tasks (view s q) w))\<rparr>)) else view s)"
    "non_nestable_task_queue u = non_nestable_task_queue s" "enqueue_order_generator u = enqueue_order_generator s"
    "empty_queues_to_reload u = empty_queues_to_reload s"
proof -
  let ?x = "(q, w)" and ?P = "task_is_dead s"
  let ?l = "qv_tasks (view s q) w" and ?d = "snd (pop_dead ?P (tasks (wq s (q, w))))"
  have pd: "dq_inv ?d" "dq_list ?d = dropWhile ?P ?l" "fst (pop_dead ?P (tasks (wq s ?x))) \<longleftrightarrow> ?l \<noteq> [] \<and> ?P (hd ?l)"
    using pop_dead_spec [OF wfD(1) [OF ok, of ?x], of ?P] by (simp_all add: view_reads)
  let ?v = "set_tasks ?x ?d s"
  have okv: "queues_ok ?v" by (rule wf_set_tasks [OF ok pd(1)])
  have vv: "view ?v = (view s)(q := (view s q)\<lparr>qv_tasks := (qv_tasks (view s q))(w := dropWhile ?P ?l)\<rparr>)"
    unfolding view_set_tasks pd(2) ..
  let ?w = "if dq_empty (tasks (wq ?v ?x)) then refill ?x ?v else ?v"
  have em: "dq_empty ?d \<longleftrightarrow> dropWhile ?P ?l = []" using dq_empty_iff [OF pd(1)] pd(2) by simp
  have nfv: "delayed_fence (tq ?v q) = None" using nf by simp
  have w: "view ?w = (view s)(q := refill_view w ((view s q)\<lparr>qv_tasks := (qv_tasks (view s q))(w := dropWhile ?P ?l)\<rparr>))"
    "non_nestable_task_queue ?w = non_nestable_task_queue s" "enqueue_order_generator ?w = enqueue_order_generator s"
    "empty_queues_to_reload ?w = empty_queues_to_reload s"
    using refill_view_eq [OF okv nfv, of w] em by (auto simp: vv refill_view_def)
  have bu: "(b, u) = (if work_queue_sets (wq s ?x) = None then (False, s)
      else if fst (pop_dead ?P (tasks (wq s ?x))) then (True, if heap_handle_valid ?x ?w then notify_front_changed ?x ?w else ?w)
      else (False, ?v))"
    unfolding r [symmetric] RemoveAllCanceledTasksFromFront_def Let_def split_beta by simp
  have "same_view (if b then ?w else s) u"
  proof (cases b)
    case True
    then have "u = (if heap_handle_valid ?x ?w then notify_front_changed ?x ?w else ?w)" using bu by (auto split: if_splits)
    then show ?thesis using True notify_view(2) same_view_refl by simp
  next
    case False
    then consider "u = s" | "u = ?v" "\<not> (?l \<noteq> [] \<and> ?P (hd ?l))" using bu pd(3) by (auto split: if_splits)
    then show ?thesis
    proof cases
      case 2
      then have "dropWhile ?P ?l = ?l" by (cases ?l) auto
      then show ?thesis using False 2 view_set_same [of ?d s q w] pd(2) by simp
    qed (use False same_view_refl in simp)
  qed
  note sv = same_viewD [OF this]
  show "view u = (if b then (view s)(q := refill_view w ((view s q)\<lparr>qv_tasks := (qv_tasks (view s q))
      (w := dropWhile ?P ?l)\<rparr>)) else view s)"
    "non_nestable_task_queue u = non_nestable_task_queue s" "enqueue_order_generator u = enqueue_order_generator s"
    "empty_queues_to_reload u = empty_queues_to_reload s"
    unfolding sv using w by (cases b; simp)+
qed

lemma PushFront_view:
  assumes "queues_ok s"
  shows "view (PushNonNestableTaskToFront (q, w) t s) = (view s)(q := (view s q)\<lparr>qv_tasks := (qv_tasks (view s q))(w := t # qv_tasks (view s q) w)\<rparr>)"
    "non_nestable_task_queue (PushNonNestableTaskToFront (q, w) t s) = non_nestable_task_queue s"
    "enqueue_order_generator (PushNonNestableTaskToFront (q, w) t s) = enqueue_order_generator s"
    "empty_queues_to_reload (PushNonNestableTaskToFront (q, w) t s) = empty_queues_to_reload s"
proof -
  let ?d = "dq_push_front t (tasks (wq s (q, w)))"
  have d: "dq_list ?d = t # qv_tasks (view s q) w" using dq.push_front_spec [OF wfD(1) [OF assms]] by (simp add: view_reads)
  have "same_view (set_tasks (q, w) ?d s) (PushNonNestableTaskToFront (q, w) t s)"
    unfolding PushNonNestableTaskToFront_def Let_def by (intro same_view_if notify_view same_view_refl)
  note sv = same_viewD [OF this]
  show "view (PushNonNestableTaskToFront (q, w) t s) = (view s)(q := (view s q)\<lparr>qv_tasks := (qv_tasks (view s q))(w := t # qv_tasks (view s q) w)\<rparr>)"
    unfolding sv view_set_tasks d ..
  show "non_nestable_task_queue (PushNonNestableTaskToFront (q, w) t s) = non_nestable_task_queue s"
    "enqueue_order_generator (PushNonNestableTaskToFront (q, w) t s) = enqueue_order_generator s"
    "empty_queues_to_reload (PushNonNestableTaskToFront (q, w) t s) = empty_queues_to_reload s"
    unfolding sv by simp_all
qed

definition requeue_view :: "deferred_task \<Rightarrow> queue_view \<Rightarrow> queue_view" where
  "requeue_view d v = v\<lparr>qv_tasks := (qv_tasks v)(df_type d := df_task d # qv_tasks v (df_type d)),
     qv_work_queue_empty := (if df_type d = kImmediate \<and> qv_tasks v kImmediate = [] then False else qv_work_queue_empty v)\<rparr>"

lemma Requeue_view:
  assumes ok: "queues_ok s" and q: "q = df_queue d"
  shows "view (requeue_to_front d s) = (view s)(q := requeue_view d (view s q))"
    "non_nestable_task_queue (requeue_to_front d s) = non_nestable_task_queue s"
    "enqueue_order_generator (requeue_to_front d s) = enqueue_order_generator s"
    "empty_queues_to_reload (requeue_to_front d s) =
       (if df_type d = kImmediate \<and> qv_tasks (view s q) kImmediate = []
        then case qv_handle (view s q) of None \<Rightarrow> empty_queues_to_reload s | Some f \<Rightarrow> SetActive False f (empty_queues_to_reload s)
        else empty_queues_to_reload s)"
proof -
  let ?c = "df_type d = kImmediate \<and> wq_Empty (wq s (q, kImmediate))"
  define s1 where "s1 = (if ?c then upd_tq q (\<lambda>t. t\<lparr>immediate_work_queue_empty := False\<rparr>) (set_flag_active False q s) else s)"
  have e: "wq_Empty (wq s (q, kImmediate)) \<longleftrightarrow> qv_tasks (view s q) kImmediate = []"
    using dq_empty_iff [OF wfD(1) [OF ok]] by (simp add: wq_Empty_def view_reads)
  have eq: "requeue_to_front d s = PushNonNestableTaskToFront (q, df_type d) (df_task d) s1"
    by (cases "df_type d") (simp_all add: requeue_to_front_def Let_def s1_def q)
  have tqs: "task_queues (set_flag_active False q s) = task_queues s" "work_queues (set_flag_active False q s) = work_queues s"
    by (simp_all add: set_flag_active_def split: option.split)
  have ok1: "queues_ok s1" using ok tqs by (auto simp: s1_def queues_ok_def)
  have v1: "view s1 = (view s)(q := (view s q)\<lparr>qv_work_queue_empty := (if ?c then False else qv_work_queue_empty (view s q))\<rparr>)"
  proof (cases ?c)
    case True
    have "view s1 = view (upd_tq q (\<lambda>t. t\<lparr>immediate_work_queue_empty := False\<rparr>) s)"
      unfolding s1_def using True tqs by (intro ext) (simp add: view_def)
    then show ?thesis using True unfolding view_upd_tq by (intro ext) (simp add: view_def)
  next
    case False
    then have "s1 = s" by (simp only: s1_def if_False)
    then show ?thesis using False by (simp only: if_False) simp
  qed
  show "view (requeue_to_front d s) = (view s)(q := requeue_view d (view s q))"
    unfolding eq PushFront_view [OF ok1] v1 e by (cases "view s q") (simp add: requeue_view_def)
  show "non_nestable_task_queue (requeue_to_front d s) = non_nestable_task_queue s"
    "enqueue_order_generator (requeue_to_front d s) = enqueue_order_generator s"
    "empty_queues_to_reload (requeue_to_front d s) =
       (if df_type d = kImmediate \<and> qv_tasks (view s q) kImmediate = []
        then case qv_handle (view s q) of None \<Rightarrow> empty_queues_to_reload s | Some f \<Rightarrow> SetActive False f (empty_queues_to_reload s)
        else empty_queues_to_reload s)"
    unfolding eq PushFront_view [OF ok1] e [symmetric] by (auto simp: s1_def set_flag_active_view)
qed

section \<open>The selector\<close>

lemma Select_view: "same_view s (snd (SelectWorkQueueToService s))"
  "task_queues (snd (SelectWorkQueueToService s)) = task_queues s"
  "cancelled (snd (SelectWorkQueueToService s)) = cancelled s"
  "nesting_depth (snd (SelectWorkQueueToService s)) = nesting_depth s"
proof -
  have "\<exists>n p c. snd (SelectWorkQueueToService s) =
      s\<lparr>selection_count := n, active_priorities := p, immediate_starvation_count := c\<rparr>"
  proof (cases "spq_empty (active_priorities s)")
    case True
    then show ?thesis by (intro exI [of _ "selection_count s"] exI [of _ "active_priorities s"]
        exI [of _ "immediate_starvation_count s"]) (simp add: SelectWorkQueueToService_def)
  next
    case False
    then show ?thesis by (cases s) (auto simp: SelectWorkQueueToService_def Let_def split_beta)
  qed
  then obtain n p c where u: "snd (SelectWorkQueueToService s) =
      s\<lparr>selection_count := n, active_priorities := p, immediate_starvation_count := c\<rparr>" by blast
  then have "view (snd (SelectWorkQueueToService s)) = view s" by (intro view_cong) simp_all
  then show "same_view s (snd (SelectWorkQueueToService s))"
    "task_queues (snd (SelectWorkQueueToService s)) = task_queues s"
    "cancelled (snd (SelectWorkQueueToService s)) = cancelled s"
    "nesting_depth (snd (SelectWorkQueueToService s)) = nesting_depth s" using u by (simp_all add: same_view_def)
qed

lemma AddQueueImpl_view:
  "view (AddQueueImpl q p s) = (view s)(q := (view s q)\<lparr>qv_sets := Some, qv_index := (\<lambda>_. p)\<rparr>)"
  by (rule ext) (auto simp: view_def AddQueueImpl_wq fun_eq_iff)

lemma RemoveQueueImpl_view:
  "view (RemoveQueueImpl q s) = (view s)(q := (view s q)\<lparr>qv_sets := (\<lambda>_. None)\<rparr>)"
  by (rule ext) (auto simp: view_def RemoveQueueImpl_wq fun_eq_iff)

lemma wqs_globals:
  "same_view (AssignSetIndex x p (AssignToWorkQueueSets x (Some w) s)) (wqs_AddQueue w x p s)"
  "same_view (AssignToWorkQueueSets x None s) (wqs_RemoveQueue w x s)"
  "same_view (AssignSetIndex x p s) (wqs_ChangeSetIndex w x p s)"
proof -
  show "same_view (AssignSetIndex x p (AssignToWorkQueueSets x (Some w) s)) (wqs_AddQueue w x p s)"
    unfolding wqs_AddQueue_def Let_def by (simp add: same_view_refl same_view_sets [OF notify_frame(1)] split: option.split)
  show "same_view (AssignToWorkQueueSets x None s) (wqs_RemoveQueue w x s)"
    unfolding wqs_RemoveQueue_def Let_def by (intro same_view_if same_view_refl same_view_sets [OF notify_frame(2)])
  show "same_view (AssignSetIndex x p s) (wqs_ChangeSetIndex w x p s)"
    unfolding wqs_ChangeSetIndex_def Let_def
    by (auto split: option.split intro!: same_view_refl same_view_trans [OF _ same_view_sets [OF observer_frame(2)]]
        same_view_trans [OF _ same_view_sets [OF observer_frame(1)]] same_view_trans [OF _ same_view_sets [OF on_heap_frame]])
qed

lemma assign_globals [simp]:
  "non_nestable_task_queue (AssignSetIndex x p s) = non_nestable_task_queue s"
  "enqueue_order_generator (AssignSetIndex x p s) = enqueue_order_generator s"
  "empty_queues_to_reload (AssignSetIndex x p s) = empty_queues_to_reload s"
  "non_nestable_task_queue (AssignToWorkQueueSets x y s) = non_nestable_task_queue s"
  "enqueue_order_generator (AssignToWorkQueueSets x y s) = enqueue_order_generator s"
  "empty_queues_to_reload (AssignToWorkQueueSets x y s) = empty_queues_to_reload s"
  by (simp_all add: AssignSetIndex_def AssignToWorkQueueSets_def)

lemmas wqs_same = same_viewD [OF wqs_globals(1)] same_viewD [OF wqs_globals(2)] same_viewD [OF wqs_globals(3)]

lemma selector_globals:
  "non_nestable_task_queue (AddQueueImpl q p s) = non_nestable_task_queue s"
  "enqueue_order_generator (AddQueueImpl q p s) = enqueue_order_generator s"
  "empty_queues_to_reload (AddQueueImpl q p s) = empty_queues_to_reload s"
  "non_nestable_task_queue (RemoveQueueImpl q s) = non_nestable_task_queue s"
  "enqueue_order_generator (RemoveQueueImpl q s) = enqueue_order_generator s"
  "empty_queues_to_reload (RemoveQueueImpl q s) = empty_queues_to_reload s"
  by (simp_all add: AddQueueImpl_def RemoveQueueImpl_def wqs_same)

lemma AssignSetIndex_view:
  "view (AssignSetIndex (q, w) p s) = (view s)(q := (view s q)\<lparr>qv_index := (qv_index (view s q))(w := p)\<rparr>)"
  by (rule ext) (auto simp: view_def AssignSetIndex_def upd_wq_def)

lemma SetQueuePriority_view:
  assumes "qv_index (view s q) kDelayed = qv_index (view s q) kImmediate"
  shows "view (SetQueuePriority q p s) = (view s)(q := (view s q)\<lparr>qv_index := (\<lambda>_. p)\<rparr>)"
    "non_nestable_task_queue (SetQueuePriority q p s) = non_nestable_task_queue s"
    "enqueue_order_generator (SetQueuePriority q p s) = enqueue_order_generator s"
    "empty_queues_to_reload (SetQueuePriority q p s) = empty_queues_to_reload s"
proof -
  have b: "(g :: work_queue_type \<Rightarrow> nat)(kDelayed := p, kImmediate := p) = (\<lambda>_. p)" for g
    by (rule ext) (metis fun_upd_apply work_queue_type.exhaust)
  have v: "view (sel_SetQueuePriority q p s) = (view s)(q := (view s q)\<lparr>qv_index := (\<lambda>_. p)\<rparr>)"
    unfolding sel_SetQueuePriority_def sel_ChangeSetIndex_def by (simp add: wqs_same AssignSetIndex_view b)
  have "(view s)(q := (view s q)\<lparr>qv_index := (\<lambda>_. p)\<rparr>) = view s" if "p = GetQueuePriority q s"
  proof -
    have "qv_index (view s q) = (\<lambda>_. p)"
      using that assms by (intro ext) (metis GetQueuePriority_def view_reads(4) work_queue_type.exhaust)
    then show ?thesis by (cases "view s q") (simp add: fun_upd_idem)
  qed
  then show "view (SetQueuePriority q p s) = (view s)(q := (view s q)\<lparr>qv_index := (\<lambda>_. p)\<rparr>)"
    using v by (simp add: SetQueuePriority_def)
qed (simp_all add: SetQueuePriority_def sel_SetQueuePriority_def sel_ChangeSetIndex_def wqs_same)

lemma SetQueueEnabled_view:
  assumes ok: "queues_ok s" and e: "enabled_ok q s"
    and em: "qv_work_queue_empty (view s q) = (qv_tasks (view s q) kImmediate = [])"
  shows "view (SetQueueEnabled q b s) = (view s)(q := (view s q)\<lparr>qv_enabled := b, qv_sets := (\<lambda>w. if b then Some w else None)\<rparr>)"
    "non_nestable_task_queue (SetQueueEnabled q b s) = non_nestable_task_queue s"
    "enqueue_order_generator (SetQueueEnabled q b s) = enqueue_order_generator s"
    "empty_queues_to_reload (SetQueueEnabled q b s) = empty_queues_to_reload s"
proof -
  let ?v = "(view s)(q := (view s q)\<lparr>qv_enabled := b, qv_sets := (\<lambda>w. if b then Some w else None)\<rparr>)"
  have *: "view (SetQueueEnabled q b s) = ?v \<and> non_nestable_task_queue (SetQueueEnabled q b s) = non_nestable_task_queue s \<and>
    enqueue_order_generator (SetQueueEnabled q b s) = enqueue_order_generator s \<and>
    empty_queues_to_reload (SetQueueEnabled q b s) = empty_queues_to_reload s"
  proof (cases "is_enabled (tq s q) = b")
    case True
    then have "qv_sets (view s q) = (\<lambda>w. if b then Some w else None)" "qv_enabled (view s q) = b"
      using e by (auto simp: enabled_ok_def view_reads fun_eq_iff)
    then have "?v = view s" by (cases "view s q") (simp add: fun_upd_idem)
    then show ?thesis using True by (simp add: SetQueueEnabled_def)
  next
    case False
    let ?s0 = "upd_tq q (\<lambda>t. t\<lparr>is_enabled := b\<rparr>) s"
    define s0 where "s0 = UpdateDelayedWakeUp q (td_now q ?s0) ?s0"
    define s1 where "s1 = UpdateCrossThreadQueueStateLocked q s0"
    define s2 where "s2 = (if b \<and> HasPendingImmediateWorkLocked q s1 \<and> on_next_wake_up_changed_callback (tq s1 q)
      then run_wake_up_callback q 0 s1 else s1)"
    have u: "SetQueueEnabled q b s = (if b then OnTaskQueueEnabled q (AddQueueImpl q (GetQueuePriority q s2) s2) else RemoveQueueImpl q s2)"
      using False unfolding SetQueueEnabled_def EnableOrDisableWithSelector_def sel_EnableQueue_def sel_DisableQueue_def
        Let_def s2_def s1_def s0_def by simp
    note sv0 = same_viewD [OF UpdateDelayedWakeUp_view [of ?s0 q "td_now q ?s0"], folded s0_def]
    have v0: "view s0 = (view s)(q := (view s q)\<lparr>qv_enabled := b\<rparr>)"
      unfolding sv0 by (rule ext) (simp add: view_def)
    have "wq s0 (q, kImmediate) = wq s (q, kImmediate)"
      unfolding s0_def using sync_frameD(1) [OF UpdateDelayedWakeUp_sync_frame] by simp
    then have e0: "wq_Empty (wq s0 (q, kImmediate)) = qv_work_queue_empty (view s q)"
      using em dq_empty_iff [OF wfD(1) [OF ok]] by (simp add: wq_Empty_def view_reads)
    have v1: "view s1 = (view s)(q := (view s q)\<lparr>qv_enabled := b\<rparr>)"
      unfolding s1_def UpdateCross_view e0 v0 by (cases "view s q") simp
    have "same_view s1 s2" unfolding s2_def by (intro same_view_if same_view_simple same_view_refl)
    note sv2 = same_viewD [OF this]
    have g2: "non_nestable_task_queue s2 = non_nestable_task_queue s" "enqueue_order_generator s2 = enqueue_order_generator s"
      "empty_queues_to_reload s2 = empty_queues_to_reload s"
      unfolding sv2 s1_def UpdateCross_view sv0 by simp_all
    have ix: "(\<lambda>_. GetQueuePriority q s2) = qv_index (view s q)"
    proof
      fix w
      have "GetQueuePriority q s2 = qv_index (view s q) kImmediate"
        unfolding GetQueuePriority_def view_reads(4) [symmetric] sv2 v1 by simp
      then show "GetQueuePriority q s2 = qv_index (view s q) w"
        using e by (cases w) (simp_all add: enabled_ok_def view_reads)
    qed
    show ?thesis
    proof (cases b)
      case True
      have "same_view (AddQueueImpl q (GetQueuePriority q s2) s2) (SetQueueEnabled q b s)"
        unfolding u OnTaskQueueEnabled_def using True same_view_simple(2) same_view_refl by simp
      note sv = same_viewD [OF this]
      show ?thesis
        unfolding sv AddQueueImpl_view sv2(1) v1 ix selector_globals g2 using True by (cases "view s q") simp
    next
      case F: False
      then have "SetQueueEnabled q b s = RemoveQueueImpl q s2" using u by simp
      then show ?thesis using F by (cases "view s q") (simp add: RemoveQueueImpl_view sv2(1) v1 selector_globals g2)
    qed
  qed
  then show "view (SetQueueEnabled q b s) = ?v"
    "non_nestable_task_queue (SetQueueEnabled q b s) = non_nestable_task_queue s"
    "enqueue_order_generator (SetQueueEnabled q b s) = enqueue_order_generator s"
    "empty_queues_to_reload (SetQueueEnabled q b s) = empty_queues_to_reload s" by blast+
qed

section \<open>Clearing, creating and removing queues\<close>

lemma wq_Delete_view:
  assumes ok: "queues_ok s"
  shows "view (wq_DeletePendingTasks (q, w) s) = (view s)(q := (view s q)\<lparr>qv_tasks := (qv_tasks (view s q))(w := [])\<rparr>)"
    "non_nestable_task_queue (wq_DeletePendingTasks (q, w) s) = non_nestable_task_queue s"
    "enqueue_order_generator (wq_DeletePendingTasks (q, w) s) = enqueue_order_generator s"
    "empty_queues_to_reload (wq_DeletePendingTasks (q, w) s) = empty_queues_to_reload s"
proof -
  let ?d = "dq_clear (tasks (wq s (q, w)))"
  have d: "dq_list ?d = []" using dq.clear_spec [OF wfD(1) [OF ok]] by simp
  have "same_view (set_tasks (q, w) ?d s) (wq_DeletePendingTasks (q, w) s)"
    unfolding wq_DeletePendingTasks_def Let_def by (intro same_view_if notify_view same_view_refl)
  note sv = same_viewD [OF this]
  show "view (wq_DeletePendingTasks (q, w) s) = (view s)(q := (view s q)\<lparr>qv_tasks := (qv_tasks (view s q))(w := [])\<rparr>)"
    unfolding sv view_set_tasks d ..
  show "non_nestable_task_queue (wq_DeletePendingTasks (q, w) s) = non_nestable_task_queue s"
    "enqueue_order_generator (wq_DeletePendingTasks (q, w) s) = enqueue_order_generator s"
    "empty_queues_to_reload (wq_DeletePendingTasks (q, w) s) = empty_queues_to_reload s"
    unfolding sv by simp_all
qed

lemma tq_Delete_view:
  assumes ok: "queues_ok s" and s: "in_sync s"
  shows "view (tq_DeletePendingTasks q s) = (view s)(q := (view s q)\<lparr>qv_tasks := (\<lambda>_. []), qv_incoming := [], qv_work_queue_empty := True\<rparr>)"
    "non_nestable_task_queue (tq_DeletePendingTasks q s) = non_nestable_task_queue s"
    "enqueue_order_generator (tq_DeletePendingTasks q s) = enqueue_order_generator s"
    "empty_queues_to_reload (tq_DeletePendingTasks q s) =
       (case qv_handle (view s q) of None \<Rightarrow> empty_queues_to_reload s | Some f \<Rightarrow> SetActive False f (empty_queues_to_reload s))"
proof -
  define s1 where "s1 = wq_DeletePendingTasks (q, kImmediate) (wq_DeletePendingTasks (q, kDelayed) s)"
  define s2 where "s2 = upd_tq q (\<lambda>t. t\<lparr>immediate_incoming_queue := snd (dq_swap deque_new (immediate_incoming_queue t)),
      immediate_work_queue_empty := True\<rparr>) (upd_delayed q (\<lambda>d. fst (di_swap d DelayedIncomingQueue_new)) s1)"
  have ok1: "queues_ok (wq_DeletePendingTasks (q, kDelayed) s)" by (rule wq_DeletePendingTasks_spec(2) [OF ok s])
  note w1 = wq_Delete_view [OF ok, of q kDelayed] and w2 = wq_Delete_view [OF ok1, of q kImmediate]
  have b: "(g :: work_queue_type \<Rightarrow> Task list)(kDelayed := [], kImmediate := []) = (\<lambda>_. [])" for g
    by (rule ext) (metis fun_upd_apply work_queue_type.exhaust)
  have v1: "view s1 = (view s)(q := (view s q)\<lparr>qv_tasks := (\<lambda>_. [])\<rparr>)"
    unfolding s1_def w1 w2 by (simp add: b)
  have sw: "dq_list (snd (dq_swap deque_new d)) = []" for d :: "Task deque"
    using dq_swap_lists [of "deque_new" d] by (cases "dq_swap deque_new d") auto
  have "view s2 = view (upd_tq q (\<lambda>t. t\<lparr>immediate_incoming_queue := snd (dq_swap deque_new (immediate_incoming_queue t)),
      immediate_work_queue_empty := True\<rparr>) s1)" unfolding s2_def by (rule ext) (simp add: view_def upd_delayed_def)
  also have "\<dots> = (view s1)(q := (view s1 q)\<lparr>qv_incoming := [], qv_work_queue_empty := True\<rparr>)"
    by (rule ext) (simp add: view_def sw)
  finally have v2: "view s2 = (view s)(q := (view s q)\<lparr>qv_tasks := (\<lambda>_. []), qv_incoming := [], qv_work_queue_empty := True\<rparr>)"
    unfolding v1 by simp
  have eq: "tq_DeletePendingTasks q s = UpdateDelayedWakeUp q (td_now q (set_flag_active False q s2)) (set_flag_active False q s2)"
    by (simp add: tq_DeletePendingTasks_def Let_def s1_def s2_def)
  note sv = same_viewD [OF UpdateDelayedWakeUp_view]
  have g: "non_nestable_task_queue s2 = non_nestable_task_queue s" "enqueue_order_generator s2 = enqueue_order_generator s"
    "empty_queues_to_reload s2 = empty_queues_to_reload s"
    by (simp_all add: s2_def s1_def w1 w2 upd_delayed_def)
  show "view (tq_DeletePendingTasks q s) = (view s)(q := (view s q)\<lparr>qv_tasks := (\<lambda>_. []), qv_incoming := [], qv_work_queue_empty := True\<rparr>)"
    unfolding eq sv set_flag_active_view v2 ..
  show "non_nestable_task_queue (tq_DeletePendingTasks q s) = non_nestable_task_queue s"
    "enqueue_order_generator (tq_DeletePendingTasks q s) = enqueue_order_generator s"
    "empty_queues_to_reload (tq_DeletePendingTasks q s) =
       (case qv_handle (view s q) of None \<Rightarrow> empty_queues_to_reload s | Some f \<Rightarrow> SetActive False f (empty_queues_to_reload s))"
    unfolding eq sv set_flag_active_view g v2 by simp_all
qed

lemma tq_ReclaimMemory_view:
  assumes ok: "queues_ok s" and s: "in_sync s"
  shows "same_view s (tq_ReclaimMemory q now s)"
proof (cases "di_empty (delayed_incoming_queue (tq s q))")
  case False
  define s1 where "s1 = upd_delayed q (SweepCancelledTasks (\<lambda>t. closure_IsCancelled (cancelled s) (task t))) s"
  define s2 where "s2 = wq_MaybeShrinkQueue (q, kDelayed) s1"
  define s3 where "s3 = wq_MaybeShrinkQueue (q, kImmediate) s2"
  define s4 where "s4 = upd_tq q (\<lambda>t. t\<lparr>immediate_incoming_queue := MaybeShrinkQueue (clock s3 0) (immediate_incoming_queue t)\<rparr>) s3"
  have f1: "sync_frame s s1" unfolding s1_def by (rule sync_frame_ops(3))
  have ok1: "queues_ok s1" "in_sync s1" using sync_frameD(5,2) [OF f1] ok s by auto
  have ok2: "queues_ok s2" "in_sync s2" unfolding s2_def using wq_MaybeShrinkQueue_sync [OF ok1] by auto
  have ok3: "queues_ok s3" unfolding s3_def by (rule wq_MaybeShrinkQueue_sync [OF ok2])
  have sh: "same_view t (wq_MaybeShrinkQueue (q, w) t)" if "queues_ok t" for t w
    unfolding wq_MaybeShrinkQueue_def
    by (rule view_set_same) (use dq.shrink_spec [OF wfD(1) [OF that]] in \<open>simp add: view_reads\<close>)
  have "view s4 = view s3" unfolding s4_def
    using dq.shrink_spec [OF wfD(3) [OF ok3, of q]] by (intro ext) (simp add: view_def)
  then have 4: "same_view s3 s4" by (simp add: same_view_def s4_def)
  have 1: "same_view s s1" unfolding s1_def by (rule same_view_simple)
  have 2: "same_view s1 s2" "same_view s2 s3" unfolding s2_def s3_def by (rule sh [OF ok1(1)], fold s2_def, rule sh [OF ok2(1)])
  have "same_view s s4" by (rule same_view_trans [OF same_view_trans [OF 1 2(1)] same_view_trans [OF 2(2) 4]])
  moreover have "tq_ReclaimMemory q now s = UpdateDelayedWakeUp q now s4"
    using False by (simp add: tq_ReclaimMemory_def Let_def s1_def s2_def s3_def s4_def)
  ultimately show ?thesis using same_view_trans UpdateDelayedWakeUp_view by metis
qed (simp add: tq_ReclaimMemory_def same_view_refl)

lemma Reload_view:
  assumes ok: "queues_ok s" and nf: "delayed_fence (tq s q) = None" and e: "qv_tasks (view s q) kImmediate = []"
  shows "view (ReloadEmptyImmediateWorkQueue q s) = (view s)(q := reload_view (view s q))"
    "non_nestable_task_queue (ReloadEmptyImmediateWorkQueue q s) = non_nestable_task_queue s"
    "enqueue_order_generator (ReloadEmptyImmediateWorkQueue q s) = enqueue_order_generator s"
    "empty_queues_to_reload (ReloadEmptyImmediateWorkQueue q s) = empty_queues_to_reload s"
proof -
  let ?t = "tq_TakeImmediateIncomingQueueTasks q s"
  have 1: "same_view ?t (wq_TakeImmediateIncomingQueueTasks q s)"
    unfolding wq_TakeImmediateIncomingQueueTasks_def Let_def by (intro same_view_if notify_view same_view_refl)
  have "same_view (wq_TakeImmediateIncomingQueueTasks q s) (ReloadEmptyImmediateWorkQueue q s)"
    unfolding ReloadEmptyImmediateWorkQueue_def Let_def by (intro same_view_if same_view_simple same_view_refl)
  note sv = same_viewD [OF same_view_trans [OF 1 this]]
  show "view (ReloadEmptyImmediateWorkQueue q s) = (view s)(q := reload_view (view s q))"
    "non_nestable_task_queue (ReloadEmptyImmediateWorkQueue q s) = non_nestable_task_queue s"
    "enqueue_order_generator (ReloadEmptyImmediateWorkQueue q s) = enqueue_order_generator s"
    "empty_queues_to_reload (ReloadEmptyImmediateWorkQueue q s) = empty_queues_to_reload s"
    unfolding sv by (rule tq_Take_view [OF ok nf e])+
qed

definition new_queue_view :: "atomic_flag \<Rightarrow> queue_view" where
  "new_queue_view f = \<lparr>qv_tasks = (\<lambda>_. []), qv_fence = (\<lambda>_. 0), qv_sets = Some, qv_index = (\<lambda>_. kNormalPriority),
     qv_incoming = [], qv_enabled = True, qv_unregistered = False, qv_delayed_fence = None,
     qv_work_queue_empty = True, qv_handle = f\<rparr>"

lemma not_delayed: "w \<noteq> kDelayed \<longleftrightarrow> w = kImmediate"
  by (cases w) simp_all

lemma Create_view:
  assumes f: "AddFlag q (empty_queues_to_reload s) = (f, a)"
  shows "view (CreateTaskQueueImpl q spec s) = (view s)(q := new_queue_view f)"
    "non_nestable_task_queue (CreateTaskQueueImpl q spec s) = non_nestable_task_queue s"
    "enqueue_order_generator (CreateTaskQueueImpl q spec s) = enqueue_order_generator s"
    "empty_queues_to_reload (CreateTaskQueueImpl q spec s) = a"
proof -
  define d where "d = (case spec_time_domain spec of Some d \<Rightarrow> d | None \<Rightarrow> 0)"
  let ?t = "TaskQueueImpl_new q d spec s"
  let ?u = "?t\<lparr>active_queues := List.insert q (active_queues ?t)\<rparr>"
  have eq: "CreateTaskQueueImpl q spec s = AddQueueImpl q kNormalPriority ?u"
    by (simp add: CreateTaskQueueImpl_def Let_def sel_AddQueue_def d_def)
  have "view ?t = (view s)(q := (new_queue_view f)\<lparr>qv_sets := (\<lambda>_. None), qv_index := (\<lambda>_. 0)\<rparr>)"
    by (rule ext) (auto simp: TaskQueueImpl_new_def GetFlagToRequestReloadForEmptyQueue_def f Let_def view_def
        new_queue_view_def UpdateCrossThreadQueueStateLocked_def upd_wq_def WorkQueue_new_def wq_Empty_def fun_eq_iff
        dq_empty_def deque_new_def EnqueueOrder_none_def dq_list_def not_delayed)
  moreover have "view ?u = view ?t" by (rule view_cong) simp_all
  ultimately have vu: "view ?u = (view s)(q := (new_queue_view f)\<lparr>qv_sets := (\<lambda>_. None), qv_index := (\<lambda>_. 0)\<rparr>)" by simp
  show "view (CreateTaskQueueImpl q spec s) = (view s)(q := new_queue_view f)"
    unfolding eq AddQueueImpl_view vu by (simp add: new_queue_view_def)
  have "non_nestable_task_queue ?t = non_nestable_task_queue s" "enqueue_order_generator ?t = enqueue_order_generator s"
    "empty_queues_to_reload ?t = a"
    by (simp_all add: TaskQueueImpl_new_def GetFlagToRequestReloadForEmptyQueue_def f Let_def UpdateCrossThreadQueueStateLocked_def)
  then show "non_nestable_task_queue (CreateTaskQueueImpl q spec s) = non_nestable_task_queue s"
    "enqueue_order_generator (CreateTaskQueueImpl q spec s) = enqueue_order_generator s"
    "empty_queues_to_reload (CreateTaskQueueImpl q spec s) = a"
    unfolding eq selector_globals by simp_all
qed

definition removed_queue_view :: "queue_view \<Rightarrow> queue_view" where
  "removed_queue_view v = v\<lparr>qv_tasks := (\<lambda>_. []), qv_incoming := [], qv_unregistered := True, qv_handle := None,
     qv_sets := (if qv_enabled v then \<lambda>_. None else qv_sets v)\<rparr>"

lemma UnregisterQueue_view: "same_view s (UnregisterQueue d q s)"
  unfolding UnregisterQueue_def by (rule same_view_wake [OF SetNextWakeUp_frame])

lemma UnregisterTaskQueue_view:
  "view (UnregisterTaskQueue q s) = (view s)(q := (view s q)\<lparr>qv_tasks := (\<lambda>_. []), qv_incoming := [], qv_unregistered := True, qv_handle := None\<rparr>)"
  "non_nestable_task_queue (UnregisterTaskQueue q s) = non_nestable_task_queue s"
  "enqueue_order_generator (UnregisterTaskQueue q s) = enqueue_order_generator s"
  "empty_queues_to_reload (UnregisterTaskQueue q s) = ReleaseAtomicFlag (qv_handle (view s q)) (empty_queues_to_reload s)"
proof -
  define s1 where "s1 = upd_tq q (\<lambda>t. t\<lparr>tq_unregistered := True,
      immediate_incoming_queue := snd (dq_swap deque_new (immediate_incoming_queue t))\<rparr>)
      (upd_tq q (\<lambda>t. t\<lparr>task_poster := shutdown_poster (task_poster t)\<rparr>) s)"
  define s2 where "s2 = upd_tq q (\<lambda>t. t\<lparr>time_domain := None, on_next_wake_up_changed_callback := False\<rparr>)
      (case time_domain (tq s1 q) of None \<Rightarrow> s1 | Some d \<Rightarrow> UnregisterQueue d q s1)"
  define s3 where "s3 = upd_delayed q (\<lambda>d. snd (di_swap DelayedIncomingQueue_new d))
      (upd_tq q (\<lambda>t. t\<lparr>empty_queues_to_reload_handle := None\<rparr>)
        (s2\<lparr>empty_queues_to_reload := ReleaseAtomicFlag (empty_queues_to_reload_handle (tq s2 q)) (empty_queues_to_reload s2)\<rparr>))"
  have eq: "UnregisterTaskQueue q s = set_tasks (q, kDelayed) deque_new (set_tasks (q, kImmediate) deque_new s3)"
    unfolding UnregisterTaskQueue_def Let_def s3_def s2_def s1_def set_tasks_def ..
  have sw: "dq_list (snd (dq_swap deque_new d)) = []" for d :: "Task deque"
    using dq_swap_lists [of "deque_new" d] by (cases "dq_swap deque_new d") auto
  have v1: "view s1 = (view s)(q := (view s q)\<lparr>qv_unregistered := True, qv_incoming := []\<rparr>)"
    by (rule ext) (simp add: s1_def view_def sw)
  have "same_view s1 (case time_domain (tq s1 q) of None \<Rightarrow> s1 | Some d \<Rightarrow> UnregisterQueue d q s1)"
    by (simp add: same_view_refl UnregisterQueue_view split: option.split)
  moreover have "same_view t (upd_tq q (\<lambda>t. t\<lparr>time_domain := None, on_next_wake_up_changed_callback := False\<rparr>) t)" for t
    by (rule same_view_upd_tq) simp_all
  ultimately have "same_view s1 s2" unfolding s2_def by (rule same_view_trans)
  note sv = same_viewD [OF this]
  have v3: "view s3 = (view s2)(q := (view s2 q)\<lparr>qv_handle := None\<rparr>)"
    by (rule ext) (simp add: s3_def view_def upd_delayed_def)
  have g1: "non_nestable_task_queue s1 = non_nestable_task_queue s" "enqueue_order_generator s1 = enqueue_order_generator s"
    "empty_queues_to_reload s1 = empty_queues_to_reload s" by (simp_all add: s1_def)
  have b: "(g :: work_queue_type \<Rightarrow> Task list)(kImmediate := [], kDelayed := []) = (\<lambda>_. [])" for g
    by (rule ext) (metis fun_upd_apply work_queue_type.exhaust)
  show "view (UnregisterTaskQueue q s) = (view s)(q := (view s q)\<lparr>qv_tasks := (\<lambda>_. []), qv_incoming := [], qv_unregistered := True, qv_handle := None\<rparr>)"
    unfolding eq view_set_tasks v3 sv(1) v1 by (cases "view s q") (simp add: b)
  have h: "empty_queues_to_reload_handle (tq s2 q) = qv_handle (view s q)"
    unfolding view_reads(10) [of s2, symmetric] sv(1) v1 by simp
  show "non_nestable_task_queue (UnregisterTaskQueue q s) = non_nestable_task_queue s"
    "enqueue_order_generator (UnregisterTaskQueue q s) = enqueue_order_generator s"
    "empty_queues_to_reload (UnregisterTaskQueue q s) = ReleaseAtomicFlag (qv_handle (view s q)) (empty_queues_to_reload s)"
    unfolding eq by (simp_all add: s3_def upd_delayed_def sv g1 h)
qed

lemma UnregisterTaskQueueImpl_view:
  "view (UnregisterTaskQueueImpl q s) = (view s)(q := removed_queue_view (view s q))"
  "non_nestable_task_queue (UnregisterTaskQueueImpl q s) = non_nestable_task_queue s"
  "enqueue_order_generator (UnregisterTaskQueueImpl q s) = enqueue_order_generator s"
  "empty_queues_to_reload (UnregisterTaskQueueImpl q s) = ReleaseAtomicFlag (qv_handle (view s q)) (empty_queues_to_reload s)"
proof -
  let ?r = "sel_RemoveQueue q s"
  have vr: "view ?r = (view s)(q := (view s q)\<lparr>qv_sets := (if qv_enabled (view s q) then \<lambda>_. None else qv_sets (view s q))\<rparr>)"
    by (cases "view s q") (auto simp: sel_RemoveQueue_def RemoveQueueImpl_view view_reads(6) [symmetric] fun_upd_idem)
  have gr: "non_nestable_task_queue ?r = non_nestable_task_queue s" "enqueue_order_generator ?r = enqueue_order_generator s"
    "empty_queues_to_reload ?r = empty_queues_to_reload s" by (simp_all add: sel_RemoveQueue_def selector_globals)
  have v: "view (UnregisterTaskQueueImpl q s) = view (UnregisterTaskQueue q ?r)"
    by (rule view_cong) (simp_all add: UnregisterTaskQueueImpl_def Let_def)
  show "view (UnregisterTaskQueueImpl q s) = (view s)(q := removed_queue_view (view s q))"
    unfolding v UnregisterTaskQueue_view vr by (cases "view s q") (simp add: removed_queue_view_def)
  show "non_nestable_task_queue (UnregisterTaskQueueImpl q s) = non_nestable_task_queue s"
    "enqueue_order_generator (UnregisterTaskQueueImpl q s) = enqueue_order_generator s"
    "empty_queues_to_reload (UnregisterTaskQueueImpl q s) = ReleaseAtomicFlag (qv_handle (view s q)) (empty_queues_to_reload s)"
    by (simp_all add: UnregisterTaskQueueImpl_def Let_def UnregisterTaskQueue_view gr vr)
qed

end
