(* ===== verification/Manager_Invariant.thy ===== *)
theory Manager_Invariant
  imports Manager_View
begin

text \<open>
  The invariant of the whole scheduler and its preservation by every operation: the deques and the
  heaps of the selector are in step with the queues, a queue is in the selector exactly when it is
  registered and enabled, the tasks of each work queue (deferred ones first) carry increasing enqueue
  orders below the generator, and the reload flag of a queue is raised exactly when its work queue is
  empty and its incoming queue is not. Delayed fences are excluded: activating one is the step in
  which the code lets the selector and the fences drift apart.
\<close>

declare split_paired_All [simp del] split_paired_Ex [simp del]

section \<open>The invariant\<close>

definition deferred_of :: "wq_id \<Rightarrow> deferred_task list \<Rightarrow> Task list" where
  "deferred_of x ds = map df_task (filter (\<lambda>d. (df_queue d, df_type d) = x) ds)"

definition waiting :: "queue_view \<Rightarrow> work_queue_type \<Rightarrow> Task list" where
  "waiting v w = qv_tasks v w @ (if w = kImmediate then qv_incoming v else [])"

definition placed :: "queue_view \<Rightarrow> bool" where
  "placed v \<longleftrightarrow> qv_delayed_fence v = None \<and>
     (if qv_unregistered v then qv_sets v = (\<lambda>_. None)
      else qv_sets v = (\<lambda>w. if qv_enabled v then Some w else None) \<and> qv_index v kDelayed = qv_index v kImmediate)"

definition orders_in :: "enqueue_order \<Rightarrow> Task list \<Rightarrow> bool" where
  "orders_in g ts \<longleftrightarrow> sorted_wrt (<) (map task_enqueue_order ts) \<and>
     (\<forall>t \<in> set ts. EnqueueOrder_kFirst \<le> task_enqueue_order t \<and> task_enqueue_order t < g)"

definition lines_ok :: "(nat \<Rightarrow> queue_view) \<Rightarrow> deferred_task list \<Rightarrow> enqueue_order \<Rightarrow> bool" where
  "lines_ok V ds g \<longleftrightarrow> EnqueueOrder_kFirst \<le> g \<and> (\<forall>q w. orders_in g (deferred_of (q, w) ds @ waiting (V q) w))"

text \<open>\<open>P\<close> are the queues whose flag has been lowered by a run and whose callback is still to come.\<close>

definition flags_ok :: "nat set \<Rightarrow> (nat \<Rightarrow> queue_view) \<Rightarrow> nat atomic_flag_set \<Rightarrow> bool" where
  "flags_ok P V F \<longleftrightarrow> flag_set_inv F \<and>
     (\<forall>q. if qv_unregistered (V q) then qv_handle (V q) = None
          else qv_work_queue_empty (V q) = (qv_tasks (V q) kImmediate = []) \<and>
            (\<exists>f. qv_handle (V q) = Some (flag_of f) \<and> registered F f = Some q \<and>
               (raised F f \<longleftrightarrow> q \<notin> P \<and> qv_tasks (V q) kImmediate = [] \<and> qv_incoming (V q) \<noteq> []))) \<and>
     (\<forall>q f. registered F f = Some q \<longrightarrow> \<not> qv_unregistered (V q) \<and> qv_handle (V q) = Some (flag_of f)) \<and>
     (\<forall>q \<in> P. \<not> qv_unregistered (V q) \<and> qv_tasks (V q) kImmediate = [])"

definition live_queues :: "(nat \<Rightarrow> queue_view) \<Rightarrow> nat set" where
  "live_queues V = {q. \<not> qv_unregistered (V q)}"

definition sm_inv_but :: "nat set \<Rightarrow> sched \<Rightarrow> bool" where
  "sm_inv_but P s \<longleftrightarrow> queues_ok s \<and> in_sync s \<and> (\<forall>q. placed (view s q)) \<and>
     lines_ok (view s) (non_nestable_task_queue s) (enqueue_order_generator s) \<and>
     flags_ok P (view s) (empty_queues_to_reload s) \<and> finite (live_queues (view s))"

abbreviation sm_inv :: "sched \<Rightarrow> bool" where
  "sm_inv \<equiv> sm_inv_but {}"

section \<open>Lemmas on its parts\<close>

lemma sm_invD:
  assumes "sm_inv_but P s"
  shows "queues_ok s" "in_sync s" "placed (view s q)" "delayed_fence (tq s q) = None"
    "lines_ok (view s) (non_nestable_task_queue s) (enqueue_order_generator s)"
    "flags_ok P (view s) (empty_queues_to_reload s)" "finite (live_queues (view s))"
proof -
  show 1: "queues_ok s" "in_sync s" "placed (view s q)"
    "lines_ok (view s) (non_nestable_task_queue s) (enqueue_order_generator s)"
    "flags_ok P (view s) (empty_queues_to_reload s)" "finite (live_queues (view s))"
    using assms unfolding sm_inv_but_def by blast+
  show "delayed_fence (tq s q) = None" using 1(3) by (simp add: placed_def view_reads(8))
qed

lemma sm_inv_same:
  assumes "sm_inv_but P s" "same_view s t" "queues_ok t" "in_sync t"
  shows "sm_inv_but P t"
  using assms(1,3,4) same_viewD [OF assms(2)] by (simp add: sm_inv_but_def)

lemma flag_of_inj:
  assumes "flag_set_inv F" "registered F f = Some q" "registered F g = Some r" "flag_of f = flag_of g"
  shows "f = g"
proof -
  have "snd f < 64" "snd g < 64" using assms(2,3) by (auto simp: registered_def split: if_splits)
  moreover have "(2 :: u64) ^ snd f = 2 ^ snd g" "fst f = fst g" using assms(4) by (auto simp: flag_of_def)
  ultimately have "snd f = snd g" by (metis bit_single)
  then show ?thesis using \<open>fst f = fst g\<close> by (simp add: prod_eq_iff)
qed

lemma flags_okD:
  assumes "flags_ok P V F"
  shows "flag_set_inv F" "qv_unregistered (V q) \<Longrightarrow> qv_handle (V q) = None"
    "\<not> qv_unregistered (V q) \<Longrightarrow> qv_work_queue_empty (V q) = (qv_tasks (V q) kImmediate = [])"
    "\<not> qv_unregistered (V q) \<Longrightarrow> \<exists>f. qv_handle (V q) = Some (flag_of f) \<and> registered F f = Some q \<and>
       (raised F f \<longleftrightarrow> q \<notin> P \<and> qv_tasks (V q) kImmediate = [] \<and> qv_incoming (V q) \<noteq> [])"
    "registered F f = Some q \<Longrightarrow> \<not> qv_unregistered (V q) \<and> qv_handle (V q) = Some (flag_of f)"
  using assms unfolding flags_ok_def by (blast, metis, metis, metis, blast)

lemma lines_okD: "lines_ok V ds g \<Longrightarrow> orders_in g (deferred_of (q, w) ds @ waiting (V q) w)"
  by (simp add: lines_ok_def)

lemma orders_in_mono: "orders_in g ts \<Longrightarrow> g \<le> g' \<Longrightarrow> orders_in g' ts"
  by (force simp: orders_in_def)

lemma orders_in_drop: "orders_in g (as @ bs @ cs) \<Longrightarrow> orders_in g (as @ cs)"
  by (auto simp: orders_in_def sorted_wrt_append)

lemma orders_in_snoc:
  "orders_in g ts \<Longrightarrow> task_enqueue_order t = g \<Longrightarrow> g < g' \<Longrightarrow> EnqueueOrder_kFirst \<le> g \<Longrightarrow> orders_in g' (ts @ [t])"
  by (auto simp: orders_in_def sorted_wrt_append)

text \<open>A change of one queue that leaves its line alone.\<close>

lemma lines_ok_upd:
  assumes "lines_ok V ds g" "g \<le> g'" "\<And>w. orders_in g' (deferred_of (q, w) ds @ waiting v w)"
  shows "lines_ok (V(q := v)) ds g'"
  using assms order.trans [of EnqueueOrder_kFirst g g'] by (auto simp: lines_ok_def intro: orders_in_mono)

lemma lines_ok_same:
  assumes "lines_ok V ds g" "\<And>w. waiting v w = waiting (V q) w"
  shows "lines_ok (V(q := v)) ds g"
  using lines_ok_upd [OF assms(1) order_refl] lines_okD [OF assms(1)] assms(2) by simp

lemma waiting_cong: "qv_tasks v = qv_tasks v' \<Longrightarrow> qv_incoming v = qv_incoming v' \<Longrightarrow> waiting v w = waiting v' w"
  by (simp add: waiting_def)

lemma waiting_refill: "waiting (refill_view w v) w' = waiting v w'"
  by (auto simp: waiting_def refill_view_def reload_view_def)

lemma flags_ok_upd:
  assumes F: "flags_ok P V F" and u: "qv_unregistered v = qv_unregistered (V q)" and h: "qv_handle v = qv_handle (V q)"
    and e: "\<not> qv_unregistered v \<Longrightarrow> qv_work_queue_empty v = (qv_tasks v kImmediate = [])"
    and r: "\<not> qv_unregistered v \<Longrightarrow> q \<notin> P' \<and> qv_tasks v kImmediate = [] \<and> qv_incoming v \<noteq> [] \<longleftrightarrow>
        q \<notin> P \<and> qv_tasks (V q) kImmediate = [] \<and> qv_incoming (V q) \<noteq> []"
    and P: "P' = P \<or> P' = P - {q}" "q \<in> P' \<Longrightarrow> qv_tasks v kImmediate = []"
  shows "flags_ok P' (V(q := v)) F"
proof -
  have mem: "q' \<in> P' \<longleftrightarrow> q' \<in> P" if "q' \<noteq> q" for q' using P(1) that by blast
  have "if qv_unregistered ((V(q := v)) q') then qv_handle ((V(q := v)) q') = None
      else qv_work_queue_empty ((V(q := v)) q') = (qv_tasks ((V(q := v)) q') kImmediate = []) \<and>
        (\<exists>f. qv_handle ((V(q := v)) q') = Some (flag_of f) \<and> registered F f = Some q' \<and>
           (raised F f \<longleftrightarrow> q' \<notin> P' \<and> qv_tasks ((V(q := v)) q') kImmediate = [] \<and> qv_incoming ((V(q := v)) q') \<noteq> []))" for q'
  proof (cases "q' = q")
    case True
    then show ?thesis using flags_okD(2,4) [OF F, of q] u h e r by auto
  next
    case False
    then show ?thesis using flags_okD(2,3,4) [OF F, of q'] mem [OF False] by auto
  qed
  moreover have "registered F f = Some q' \<longrightarrow> \<not> qv_unregistered ((V(q := v)) q') \<and> qv_handle ((V(q := v)) q') = Some (flag_of f)" for q' f
    using flags_okD(5) [OF F, of f q'] u h by auto
  moreover have "\<not> qv_unregistered ((V(q := v)) q') \<and> qv_tasks ((V(q := v)) q') kImmediate = []" if "q' \<in> P'" for q'
  proof (cases "q' = q")
    case True
    have "\<not> qv_unregistered v" using True that P(1) F u by (auto simp: flags_ok_def)
    then show ?thesis using P(2) that True by simp
  next
    case False
    then show ?thesis using mem [OF False] that F by (simp add: flags_ok_def)
  qed
  ultimately show ?thesis using flags_okD(1) [OF F] unfolding flags_ok_def by blast
qed

lemma flags_ok_set:
  assumes F: "flags_ok P V F" and u: "qv_unregistered v = qv_unregistered (V q)" and h: "qv_handle v = qv_handle (V q)"
    and e: "\<not> qv_unregistered v \<Longrightarrow> qv_work_queue_empty v = (qv_tasks v kImmediate = [])"
    and b: "\<not> qv_unregistered v \<Longrightarrow> q \<notin> P \<and> qv_tasks v kImmediate = [] \<and> qv_incoming v \<noteq> [] \<longleftrightarrow> b"
    and q: "q \<notin> P" and F': "F' = (case qv_handle (V q) of None \<Rightarrow> F | Some f \<Rightarrow> SetActive b f F)"
  shows "flags_ok P (V(q := v)) F'"
proof (cases "qv_unregistered (V q)")
  case True
  then have "F' = F" using flags_okD(2) [OF F True] F' by simp
  then show ?thesis using flags_ok_upd [OF F u h, where P' = P] True u q by simp
next
  case False
  obtain f where f: "qv_handle (V q) = Some (flag_of f)" "registered F f = Some q" using flags_okD(4) [OF F False] by blast
  have F'': "F' = SetActive b (flag_of f) F" using F' f by simp
  note sp = SetActive_spec [OF flags_okD(1) [OF F] f(2), of b]
  have oth: "f' \<noteq> f" if "registered F f' = Some q'" "q' \<noteq> q" for f' q' using that f(2) by auto
  have "if qv_unregistered ((V(q := v)) q') then qv_handle ((V(q := v)) q') = None
      else qv_work_queue_empty ((V(q := v)) q') = (qv_tasks ((V(q := v)) q') kImmediate = []) \<and>
        (\<exists>f. qv_handle ((V(q := v)) q') = Some (flag_of f) \<and> registered F' f = Some q' \<and>
           (raised F' f \<longleftrightarrow> q' \<notin> P \<and> qv_tasks ((V(q := v)) q') kImmediate = [] \<and> qv_incoming ((V(q := v)) q') \<noteq> []))" for q'
  proof (cases "q' = q")
    case True
    have "qv_handle v = Some (flag_of f) \<and> registered F' f = Some q \<and>
        (raised F' f \<longleftrightarrow> q \<notin> P \<and> qv_tasks v kImmediate = [] \<and> qv_incoming v \<noteq> [])"
      unfolding F'' using False u h b f sp by auto
    then show ?thesis unfolding True using False u e by auto
  next
    case q': False
    show ?thesis
    proof (cases "qv_unregistered (V q')")
      case True
      then show ?thesis using q' flags_okD(2) [OF F True] by simp
    next
      case u': False
      obtain f' where f': "qv_handle (V q') = Some (flag_of f')" "registered F f' = Some q'"
        "raised F f' \<longleftrightarrow> q' \<notin> P \<and> qv_tasks (V q') kImmediate = [] \<and> qv_incoming (V q') \<noteq> []"
        using flags_okD(4) [OF F u'] by blast
      then have "raised F' f' = raised F f'" "registered F' f' = Some q'" unfolding F'' using sp oth [OF f'(2) q'] by simp_all
      then show ?thesis using q' u' f' flags_okD(3) [OF F u'] by auto
    qed
  qed
  moreover have "registered F' f' = Some q' \<longrightarrow> \<not> qv_unregistered ((V(q := v)) q') \<and> qv_handle ((V(q := v)) q') = Some (flag_of f')" for q' f'
    unfolding F'' sp(2) using flags_okD(5) [OF F, of f' q'] u h by auto
  moreover have "\<not> qv_unregistered ((V(q := v)) q') \<and> qv_tasks ((V(q := v)) q') kImmediate = []" if "q' \<in> P" for q'
    using that q F by (auto simp: flags_ok_def)
  ultimately show ?thesis using sp(1) unfolding flags_ok_def F'' by blast
qed

lemma live_upd: "qv_unregistered v = qv_unregistered (V q) \<Longrightarrow> live_queues (V(q := v)) = live_queues V"
  by (auto simp: live_queues_def)

section \<open>Preservation by the operations of a queue\<close>

lemma sm_invI:
  assumes "sm_inv_but P s" "queues_ok u" "in_sync u" "view u = (view s)(q := v)" "placed v"
    "qv_unregistered v = qv_unregistered (view s q)"
    "lines_ok ((view s)(q := v)) (non_nestable_task_queue u) (enqueue_order_generator u)"
    "flags_ok P' ((view s)(q := v)) (empty_queues_to_reload u)"
  shows "sm_inv_but P' u"
  using assms live_upd [of v "view s" q] sm_invD [OF assms(1)] by (simp add: sm_inv_but_def)

text \<open>The 64-bit counter of enqueue orders has not run out.\<close>

definition counter_room :: "nat \<Rightarrow> sched \<Rightarrow> bool" where
  "counter_room n s \<longleftrightarrow> unat (enqueue_order_generator s) + n < 2 ^ 64"

lemma counter_less:
  assumes "unat (g :: u64) + n < 2 ^ 64"
  shows "g \<le> g + of_nat n" "0 < n \<Longrightarrow> g < g + of_nat n" "unat (g + of_nat n) = unat g + n"
proof -
  show n: "unat (g + of_nat n) = unat g + n"
    using assms by (simp add: unat_word_ariths unat_of_nat)
  show "g \<le> g + of_nat n" "0 < n \<Longrightarrow> g < g + of_nat n"
    unfolding word_le_nat_alt word_less_nat_alt n by simp_all
qed

lemma PostImmediate_inv:
  assumes s: "sm_inv s" and r: "PostImmediateTaskImpl q posted s = Some u" and room: "counter_room 1 s"
  shows "sm_inv u"
proof -
  note I = sm_invD [OF s]
  obtain t where t: "task_enqueue_order t = enqueue_order_generator s"
    "view u = (view s)(q := (view s q)\<lparr>qv_incoming := qv_incoming (view s q) @ [t]\<rparr>)"
    "non_nestable_task_queue u = non_nestable_task_queue s" "enqueue_order_generator u = enqueue_order_generator s + 1"
    "empty_queues_to_reload u = (if qv_incoming (view s q) = [] \<and> qv_work_queue_empty (view s q)
       then case qv_handle (view s q) of None \<Rightarrow> empty_queues_to_reload s | Some f \<Rightarrow> SetActive True f (empty_queues_to_reload s)
       else empty_queues_to_reload s)"
    using PostImmediate_view [OF r I(1)] by blast
  let ?v = "(view s q)\<lparr>qv_incoming := qv_incoming (view s q) @ [t]\<rparr>"
  let ?g = "enqueue_order_generator s"
  have g: "?g < ?g + 1" "EnqueueOrder_kFirst \<le> ?g"
    using counter_less [of ?g 1] room I(5) by (auto simp: counter_room_def lines_ok_def)
  have "orders_in (?g + 1) (deferred_of (q, w) (non_nestable_task_queue s) @ waiting ?v w)" for w
    using orders_in_snoc [OF lines_okD [OF I(5), of q w] t(1) g(1,2)]
      orders_in_mono [OF lines_okD [OF I(5), of q w] less_imp_le [OF g(1)]]
    by (cases w) (auto simp: waiting_def)
  then have L: "lines_ok ((view s)(q := ?v)) (non_nestable_task_queue u) (enqueue_order_generator u)"
    unfolding t by (intro lines_ok_upd [OF I(5)] less_imp_le [OF g(1)])
  have F: "flags_ok {} ((view s)(q := ?v)) (empty_queues_to_reload u)"
  proof (cases "qv_incoming (view s q) = [] \<and> qv_work_queue_empty (view s q)")
    case True
    then show ?thesis using flags_okD(3) [OF I(6), of q]
      by (intro flags_ok_set [OF I(6), where b = True]) (auto simp: t(5))
  next
    case False
    then have "empty_queues_to_reload u = empty_queues_to_reload s" by (simp only: t(5) if_False)
    then show ?thesis using False flags_okD(3) [OF I(6), of q] flags_ok_upd [OF I(6), of ?v q] by auto
  qed
  show ?thesis
    by (rule sm_invI [OF s PostImmediate_sync(2,1) [OF I(1,2) r] t(2) _ _ L F]) (use I(3) [of q] in \<open>simp_all add: placed_def\<close>)
qed

lemma sm_inv_draw:
  assumes s: "sm_inv s" and v: "view t = view s" "non_nestable_task_queue t = non_nestable_task_queue s"
    "empty_queues_to_reload t = empty_queues_to_reload s" "queues_ok t" "in_sync t"
    and g: "enqueue_order_generator s \<le> enqueue_order_generator t"
  shows "sm_inv t"
proof -
  note I = sm_invD [OF s]
  have "lines_ok (view s) (non_nestable_task_queue s) (enqueue_order_generator t)"
    using lines_ok_upd [OF I(5) g, of 0 "view s 0"] orders_in_mono [OF lines_okD [OF I(5)] g] by simp
  then show ?thesis using I v by (simp add: sm_inv_but_def)
qed

lemma tq_PostTask_inv:
  assumes s: "sm_inv s" and r: "tq_PostTask q posted thread s = Some u" and room: "counter_room 2 s"
  shows "sm_inv u"
proof -
  note I = sm_invD [OF s]
  let ?g = "enqueue_order_generator s"
  have g1: "?g \<le> ?g + 1" "unat (?g + 1) = unat ?g + 1" using counter_less [of ?g 1] room by (simp_all add: counter_room_def)
  let ?s = "s\<lparr>enqueue_order_generator := ?g + 1\<rparr>"
  show ?thesis
  proof (rule tq_PostTask_view [OF r], goal_cases)
    case 1
    show ?case
      by (rule sm_inv_draw [OF s 1(1,2,4) tq_PostTask_sync(2,1) [OF I(1,2) r]]) (simp add: 1(3) g1)
  next
    case (2 p)
    then show ?case using PostImmediate_inv [OF s] room by (auto simp: counter_room_def)
  next
    case (3 p)
    have "queues_ok ?s" "in_sync ?s" using sync_frameD(5,2) [OF sync_frame_gen] I by auto
    moreover have "view ?s = view s" by (rule view_cong) simp_all
    ultimately have "sm_inv ?s" by (intro sm_inv_draw [OF s]) (simp_all add: g1)
    then show ?case by (rule PostImmediate_inv [OF _ 3]) (use room in \<open>simp add: counter_room_def g1\<close>)
  qed
qed

lemma fences_inv:
  assumes s: "sm_inv s"
  shows "counter_room 1 s \<Longrightarrow> sm_inv (tq_InsertFence q p s)" "sm_inv (tq_RemoveFence q s)"
proof -
  note I = sm_invD [OF s]
  have fl: "flags_ok {} ((view s)(q := (view s q)\<lparr>qv_fence := f, qv_delayed_fence := None,
      qv_work_queue_empty := (qv_tasks (view s q) kImmediate = [])\<rparr>)) (empty_queues_to_reload s)" for f
    by (intro flags_ok_upd [OF I(6)]) simp_all
  have ln: "lines_ok ((view s)(q := (view s q)\<lparr>qv_fence := f, qv_delayed_fence := None,
      qv_work_queue_empty := (qv_tasks (view s q) kImmediate = [])\<rparr>)) (non_nestable_task_queue s) g"
    if g: "enqueue_order_generator s \<le> g" for f g
  proof (rule lines_ok_upd [OF I(5) g])
    fix w
    let ?v = "(view s q)\<lparr>qv_fence := f, qv_delayed_fence := None, qv_work_queue_empty := (qv_tasks (view s q) kImmediate = [])\<rparr>"
    have "waiting ?v w = waiting (view s q) w" by (rule waiting_cong) simp_all
    then show "orders_in g (deferred_of (q, w) (non_nestable_task_queue s) @ waiting ?v w)"
      using orders_in_mono [OF lines_okD [OF I(5), of q w] g] by (simp only:)
  qed
  have pl: "placed ((view s q)\<lparr>qv_fence := f, qv_delayed_fence := None, qv_work_queue_empty := b\<rparr>)" for f b
    using I(3) [of q] by (simp add: placed_def)
  show "sm_inv (tq_RemoveFence q s)"
    by (rule sm_invI [OF s tq_RemoveFence_sync(2,1) [OF I(1,2)] tq_RemoveFence_view(1) [OF I(1)] pl])
      (simp_all add: tq_RemoveFence_view [OF I(1)] fl ln)
  show "sm_inv (tq_InsertFence q p s)" if "counter_room 1 s"
    by (rule sm_invI [OF s tq_InsertFence_sync(2,1) [OF I(1,2)] tq_InsertFence_view(1) [OF I(1) refl] pl])
      (use that counter_less [of "enqueue_order_generator s" 1] in
        \<open>simp_all add: tq_InsertFence_view [OF I(1) refl] fl ln counter_room_def\<close>)
qed

lemma orders_in_stamp:
  assumes "orders_in g xs" "EnqueueOrder_kFirst \<le> g" "unat g + length ts < 2 ^ 64"
  shows "orders_in (g + of_nat (length ts)) (xs @ stamp g ts)"
  using assms
proof (induction ts arbitrary: g xs)
  case (Cons t ts)
  have 1: "g < g + 1" "unat (g + 1) = unat g + 1" using counter_less [of g 1] Cons.prems(3) by auto
  have "orders_in (g + 1) (xs @ [set_enqueue_order g t])"
    by (rule orders_in_snoc [OF Cons.prems(1) _ 1(1) Cons.prems(2)]) (simp add: set_enqueue_order_def)
  from Cons.IH [OF this] show ?case using Cons.prems 1 by (simp add: add.assoc [symmetric] order.trans [OF _ less_imp_le])
qed simp

lemma MoveReady_inv:
  assumes s: "sm_inv s" and room: "counter_room (length (di_queue (delayed_incoming_queue (tq s q)))) s"
  shows "sm_inv (MoveReadyDelayedTasksToWorkQueue q now s)"
proof -
  note I = sm_invD [OF s]
  define ts where "ts = due_tasks s now (di_queue (delayed_incoming_queue (tq s q)))"
  note v = MoveReady_view [OF I(1) I(4) refl ts_def]
  let ?v = "(view s q)\<lparr>qv_tasks := (qv_tasks (view s q))
      (kDelayed := qv_tasks (view s q) kDelayed @ stamp (enqueue_order_generator s) ts)\<rparr>"
  let ?g = "enqueue_order_generator s"
  have "length ts \<le> length (di_queue (delayed_incoming_queue (tq s q)))"
    unfolding ts_def due_tasks_def using length_filter_le length_takeWhile_le order.trans by blast
  then have g: "unat ?g + length ts < 2 ^ 64" using room by (simp add: counter_room_def)
  have gl: "?g \<le> ?g + of_nat (length ts)" by (rule counter_less(1) [OF g])
  have L: "lines_ok ((view s)(q := ?v)) (non_nestable_task_queue s) (?g + of_nat (length ts))"
  proof (rule lines_ok_upd [OF I(5) gl])
    fix w
    show "orders_in (?g + of_nat (length ts)) (deferred_of (q, w) (non_nestable_task_queue s) @ waiting ?v w)"
    proof (cases w)
      case kDelayed
      then show ?thesis using orders_in_stamp [OF lines_okD [OF I(5), of q kDelayed] _ g] I(5)
        by (simp add: waiting_def lines_ok_def)
    next
      case kImmediate
      then show ?thesis using orders_in_mono [OF lines_okD [OF I(5), of q kImmediate] gl] by (simp add: waiting_def)
    qed
  qed
  have F: "flags_ok {} ((view s)(q := ?v)) (empty_queues_to_reload s)"
    using flags_okD(3) [OF I(6), of q] by (intro flags_ok_upd [OF I(6)]) simp_all
  show ?thesis
    by (rule sm_invI [OF s MoveReady_spec(2,1) [OF I(1,2,4) refl] v(1)])
      (use I(3) [of q] L F v in \<open>simp_all add: placed_def\<close>)
qed

text \<open>Taking the front task of a work queue, whoever receives it.\<close>

lemma take_view_ok:
  assumes s: "sm_inv s" and t: "qv_tasks (view s q) w = pre @ post" "pre \<noteq> []"
    and v: "v = refill_view w ((view s q)\<lparr>qv_tasks := (qv_tasks (view s q))(w := post)\<rparr>)"
  shows "placed v" "qv_unregistered v = qv_unregistered (view s q)" "flags_ok {} ((view s)(q := v)) (empty_queues_to_reload s)"
    "waiting (view s q) w = pre @ waiting v w" "w' \<noteq> w \<Longrightarrow> waiting v w' = waiting (view s q) w'"
proof -
  note I = sm_invD [OF s]
  show "placed v" "qv_unregistered v = qv_unregistered (view s q)"
    using I(3) [of q] by (auto simp: v placed_def refill_view_def reload_view_def)
  show "waiting (view s q) w = pre @ waiting v w" "w' \<noteq> w \<Longrightarrow> waiting v w' = waiting (view s q) w'"
    unfolding v waiting_refill using t by (auto simp: waiting_def)
  have e: "qv_work_queue_empty (view s q) = (qv_tasks (view s q) kImmediate = [])" if "\<not> qv_unregistered (view s q)"
    by (rule flags_okD(3) [OF I(6) that])
  show "flags_ok {} ((view s)(q := v)) (empty_queues_to_reload s)"
    using e t by (cases w; intro flags_ok_upd [OF I(6)]) (auto simp: v refill_view_def reload_view_def)
qed

lemma lines_take:
  assumes L: "lines_ok V ds g" and w: "waiting (V q) w = pre @ waiting v w"
    and o: "\<And>w'. w' \<noteq> w \<Longrightarrow> waiting v w' = waiting (V q) w'"
  shows "lines_ok (V(q := v)) ds g"
proof (rule lines_ok_upd [OF L order_refl])
  fix w'
  show "orders_in g (deferred_of (q, w') ds @ waiting v w')"
    using lines_okD [OF L, of q w'] orders_in_drop [of g "deferred_of (q, w) ds" pre] o [of w'] w by (cases "w' = w") auto
qed

lemma TakeTask_inv:
  assumes s: "sm_inv s" and e: "expected s (q, w) = Some (p, k)"
    and m: "dcheck \<or> GetOldestQueueInSet w p s = Some (q, w)"
    and r: "TakeTaskFromWorkQueue dcheck (q, w) s = (t, u)"
  obtains t' where "t = Some t'" "sm_inv u" "sm_inv (u\<lparr>non_nestable_task_queue := non_nestable_task_queue u @
        [\<lparr>df_task = t', df_queue = q, df_type = w\<rparr>]\<rparr>)" "task_enqueue_order t' = k"
    "waiting (view s q) w = t' # waiting (view u q) w" "\<And>q' w'. (q', w') \<noteq> (q, w) \<Longrightarrow> waiting (view u q') w' = waiting (view s q') w'"
    "non_nestable_task_queue u = non_nestable_task_queue s" "enqueue_order_generator u = enqueue_order_generator s"
    "\<And>q'. qv_unregistered (view u q') = qv_unregistered (view s q')"
proof -
  note I = sm_invD [OF s]
  have m': "dcheck \<or> GetOldestQueueInSet (snd (q, w)) p s = Some (q, w)" using m by simp
  have nf: "delayed_fence (tq s (fst (q, w))) = None" using I(4) by simp
  note sp = TakeTaskFromWorkQueue_spec [OF I(1,2) e nf m' r]
  obtain t' ts where l: "qv_tasks (view s q) w = t' # ts" and k: "task_enqueue_order t' = k"
    using e expected_list [OF I(1), of "(q, w)"] unfolding view_reads by (auto split: list.splits if_splits)
  have ne: "qv_tasks (view s q) w \<noteq> []" using l by simp
  note v = TakeTask_view [OF I(1,4) ne r]
  let ?v = "refill_view w ((view s q)\<lparr>qv_tasks := (qv_tasks (view s q))(w := ts)\<rparr>)"
  have vu: "view u = (view s)(q := ?v)" using v(1) l by simp
  note tv = take_view_ok [OF s _ _ refl, of q w "[t']" ts, simplified, OF l]
  have inv: "sm_inv u"
    by (rule sm_invI [OF s sp(2,1) vu tv(1,2)]) (use v lines_take [OF I(5), of q w "[t']" ?v] tv in simp_all)
  have wt: "waiting (view s q) w = t' # waiting (view u q) w" unfolding vu using tv(4) by simp
  let ?d = "\<lparr>df_task = t', df_queue = q, df_type = w\<rparr>"
  let ?u = "u\<lparr>non_nestable_task_queue := non_nestable_task_queue u @ [?d]\<rparr>"
  have vd: "view ?u = view u" by (rule view_cong) simp_all
  have L: "lines_ok (view u) (non_nestable_task_queue s @ [?d]) (enqueue_order_generator s)"
  proof -
    have "orders_in (enqueue_order_generator s) (deferred_of (q', w') (non_nestable_task_queue s @ [?d]) @ waiting (view u q') w')" for q' w'
    proof (cases "(q', w') = (q, w)")
      case True
      then show ?thesis using lines_okD [OF I(5), of q w] wt by (simp add: deferred_of_def)
    next
      case False
      then have "deferred_of (q', w') (non_nestable_task_queue s @ [?d]) = deferred_of (q', w') (non_nestable_task_queue s)"
        by (auto simp: deferred_of_def)
      then show ?thesis using lines_okD [OF sm_invD(5) [OF inv], of q' w'] v by simp
    qed
    then show ?thesis using I(5) by (simp add: lines_ok_def)
  qed
  have "in_sync ?u" "queues_ok ?u" using sync_cong(2) [of ?u u] sp(1,2) by (simp_all add: queues_ok_def)
  then have inv': "sm_inv ?u"
    using sm_invD [OF inv] L v(2-4) unfolding sm_inv_but_def vd by simp
  show ?thesis
  proof (rule that [OF _ inv inv' k wt])
    show "t = Some t'" using v(5) l by simp
    show "waiting (view u q') w' = waiting (view s q') w'" if "(q', w') \<noteq> (q, w)" for q' w'
      using that tv(5) [of w'] by (cases "q' = q") (auto simp: vu)
    show "qv_unregistered (view u q') = qv_unregistered (view s q')" for q' using tv(2) by (simp add: vu)
  qed (rule v)+
qed

lemma queue_tasks_waiting: "queue_tasks (q, w) s = waiting (view s q) w"
  by (simp add: queue_tasks_def waiting_def view_reads)

lemma expected_view:
  assumes "queues_ok s"
  shows "expected s (q, w) = (case qv_tasks (view s q) w of [] \<Rightarrow> None
    | t # _ \<Rightarrow> if qv_sets (view s q) w = Some w \<and> \<not> (qv_fence (view s q) w \<noteq> 0 \<and> qv_fence (view s q) w \<le> task_enqueue_order t)
              then Some (qv_index (view s q) w, task_enqueue_order t) else None)"
  unfolding expected_list [OF assms] view_reads by (simp split: list.split)

lemma orders_increase_inv: "sm_inv_but P s \<Longrightarrow> orders_increase x s"
proof -
  assume "sm_inv_but P s"
  then have "orders_in (enqueue_order_generator s) (deferred_of (fst x, snd x) (non_nestable_task_queue s) @ waiting (view s (fst x)) (snd x))"
    by (intro lines_okD sm_invD(5))
  then have "sorted_wrt (<) (map task_enqueue_order (waiting (view s (fst x)) (snd x)))"
    by (simp add: orders_in_def sorted_wrt_append)
  moreover have "queue_tasks x s = waiting (view s (fst x)) (snd x)" by (simp add: queue_tasks_def waiting_def view_reads)
  ultimately show ?thesis by (simp add: orders_increase_def)
qed

lemma RemoveAllCanceled_inv:
  assumes s: "sm_inv s" and r: "RemoveAllCanceledTasksFromFront (q, w) s = (b, u)"
  shows "sm_inv u" "b \<longleftrightarrow> qv_sets (view s q) w \<noteq> None \<and> qv_tasks (view s q) w \<noteq> [] \<and> task_is_dead s (hd (qv_tasks (view s q) w))"
    "\<exists>dead. waiting (view s q) w = dead @ waiting (view u q) w \<and> list_all (task_is_dead s) dead \<and> (b \<longleftrightarrow> dead \<noteq> [])"
    "(q', w') \<noteq> (q, w) \<Longrightarrow> waiting (view u q') w' = waiting (view s q') w'"
    "non_nestable_task_queue u = non_nestable_task_queue s" "enqueue_order_generator u = enqueue_order_generator s"
    "\<not> b \<Longrightarrow> view u = view s" "qv_unregistered (view u q') = qv_unregistered (view s q')"
proof -
  note I = sm_invD [OF s]
  have nf: "delayed_fence (tq s (fst (q, w))) = None" using I(4) by simp
  note sp = RemoveAllCanceledTasksFromFront_spec [OF I(1,2) nf orders_increase_inv [OF s] r]
  note v = RemoveAllCanceled_view [OF I(1,4) r]
  show b: "b \<longleftrightarrow> qv_sets (view s q) w \<noteq> None \<and> qv_tasks (view s q) w \<noteq> [] \<and> task_is_dead s (hd (qv_tasks (view s q) w))"
    using sp(3) by (simp add: view_reads)
  let ?l = "qv_tasks (view s q) w" and ?P = "task_is_dead s"
  let ?pre = "takeWhile ?P ?l" and ?post = "dropWhile ?P ?l"
  have "sm_inv u \<and> (\<exists>dead. waiting (view s q) w = dead @ waiting (view u q) w \<and> list_all ?P dead \<and> (b \<longleftrightarrow> dead \<noteq> [])) \<and>
    (\<forall>q' w'. (q', w') \<noteq> (q, w) \<longrightarrow> waiting (view u q') w' = waiting (view s q') w') \<and> (\<forall>q'. qv_unregistered (view u q') = qv_unregistered (view s q'))"
  proof (cases b)
    case False
    then have "same_view s u" using v by (simp add: same_view_def)
    moreover have "\<exists>dead. waiting (view s q) w = dead @ waiting (view s q) w \<and> list_all ?P dead \<and> dead = []" by simp
    ultimately show ?thesis using sm_inv_same [OF s _ sp(2,1)] False v(1) by simp
  next
    case True
    let ?v = "refill_view w ((view s q)\<lparr>qv_tasks := (qv_tasks (view s q))(w := ?post)\<rparr>)"
    have vu: "view u = (view s)(q := ?v)" using v(1) True by simp
    have pre: "?pre \<noteq> []" using True b by (cases ?l) auto
    note tv = take_view_ok [OF s _ pre refl, of q w ?post, simplified]
    have "sm_inv u"
      by (rule sm_invI [OF s sp(2,1) vu tv(1,2)]) (use v lines_take [OF I(5), of q w ?pre ?v] tv in simp_all)
    moreover have "waiting (view s q) w = ?pre @ waiting (view u q) w" unfolding vu using tv(4) by simp
    moreover have "list_all ?P ?pre" by (auto simp: list_all_iff dest: set_takeWhileD)
    moreover have "waiting (view u q') w' = waiting (view s q') w'" if "(q', w') \<noteq> (q, w)" for q' w'
      using that tv(5) [of w'] by (cases "q' = q") (auto simp: vu)
    moreover have "qv_unregistered (view u q') = qv_unregistered (view s q')" for q' using tv(2) by (simp add: vu)
    ultimately show ?thesis using True pre by blast
  qed
  then show "sm_inv u" "\<exists>dead. waiting (view s q) w = dead @ waiting (view u q) w \<and> list_all ?P dead \<and> (b \<longleftrightarrow> dead \<noteq> [])"
    "(q', w') \<noteq> (q, w) \<Longrightarrow> waiting (view u q') w' = waiting (view s q') w'" "qv_unregistered (view u q') = qv_unregistered (view s q')" by blast+
  show "non_nestable_task_queue u = non_nestable_task_queue s" "enqueue_order_generator u = enqueue_order_generator s" by (rule v)+
  show "\<not> b \<Longrightarrow> view u = view s" using v(1) by simp
qed

lemma deferred_of_snoc:
  "deferred_of x (ds @ [d]) = deferred_of x ds @ (if (df_queue d, df_type d) = x then [df_task d] else [])"
  by (simp add: deferred_of_def)

lemma requeued_inv:
  assumes s: "sm_inv s" and d: "non_nestable_task_queue s = ds @ [d]" and r: "RequeueDeferredNonNestableTask d s = Some u"
    and t: "t = u\<lparr>non_nestable_task_queue := butlast (non_nestable_task_queue u)\<rparr>"
  shows "sm_inv t" "non_nestable_task_queue t = ds"
    "waiting (view t q') w' = (if (q', w') = (df_queue d, df_type d) then [df_task d] else []) @ waiting (view s q') w'"
    "enqueue_order_generator t = enqueue_order_generator s" "tq_unregistered (tq t q') = tq_unregistered (tq s q')"
proof -
  note I = sm_invD [OF s]
  let ?q = "df_queue d" and ?w = "df_type d"
  let ?u = "requeue_to_front d s" and ?v = "requeue_view d (view s (df_queue d))"
  have u: "u = ?u" using r by (simp add: RequeueDeferredNonNestableTask_def split: if_splits)
  note v = Requeue_view [OF I(1) refl, of d]
  have ln: "orders_in (enqueue_order_generator s) (deferred_of (?q, ?w) ds @ [df_task d] @ waiting (view s ?q) ?w)"
    using lines_okD [OF I(5), of ?q ?w] by (simp add: d deferred_of_snoc)
  have ord: "task_enqueue_order (df_task d) \<le> task_enqueue_order x"
    if "dq_list (tasks (wq s (?q, ?w))) = x # xs" for x xs
    using ln that by (auto simp: orders_in_def sorted_wrt_append waiting_def view_reads)
  note sy = Requeue_sync [OF I(1,2) ord]
  have wt: "waiting ?v w = (if w = ?w then [df_task d] else []) @ waiting (view s ?q) w" for w
    by (auto simp: waiting_def requeue_view_def)
  have nn: "t = ?u\<lparr>non_nestable_task_queue := ds\<rparr>" by (simp add: t u v(2) d)
  have vb: "view t = (view s)(?q := ?v)" unfolding nn v(1) [symmetric] by (rule view_cong) simp_all
  have "queues_ok t" "in_sync t"
    unfolding nn using sync_cong(2) [of "?u\<lparr>non_nestable_task_queue := ds\<rparr>" ?u] sy by (simp_all add: queues_ok_def)
  moreover have "lines_ok ((view s)(?q := ?v)) ds (enqueue_order_generator s)"
  proof -
    have "orders_in (enqueue_order_generator s) (deferred_of (q', w') ds @ waiting (((view s)(?q := ?v)) q') w')" for q' w'
      using lines_okD [OF I(5), of q' w'] wt [of w'] ln by (auto simp: d deferred_of_snoc split: if_splits)
    then show ?thesis using I(5) by (simp add: lines_ok_def)
  qed
  moreover have "flags_ok {} ((view s)(?q := ?v)) (empty_queues_to_reload ?u)"
  proof (cases "?w = kImmediate \<and> qv_tasks (view s ?q) kImmediate = []")
    case True
    then show ?thesis unfolding v(4)
      by (intro flags_ok_set [OF I(6), where b = False]) (auto simp: requeue_view_def)
  next
    case False
    then have "empty_queues_to_reload ?u = empty_queues_to_reload s" by (simp only: v(4) if_False)
    then show ?thesis using False flags_okD(3) [OF I(6), of ?q]
      by (simp only:) (intro flags_ok_upd [OF I(6)], auto simp: requeue_view_def)
  qed
  moreover have "placed ?v" using I(3) [of ?q] by (simp add: placed_def requeue_view_def)
  ultimately show "sm_inv t"
    by (intro sm_invI [OF s _ _ vb]) (simp_all add: nn v(3), simp add: requeue_view_def)
  show "non_nestable_task_queue t = ds" "enqueue_order_generator t = enqueue_order_generator s"
    by (simp_all add: nn v)
  show "waiting (view t q') w' = (if (q', w') = (df_queue d, df_type d) then [df_task d] else []) @ waiting (view s q') w'"
    using wt [of w'] by (auto simp: vb)
  show "tq_unregistered (tq t q') = tq_unregistered (tq s q')"
    unfolding view_reads(7) [symmetric] by (simp add: vb requeue_view_def)
qed

text \<open>Leaving the outermost nested loop puts every deferred task back in front of its queue, in order,
  unless one of their queues has been unregistered.\<close>

lemma requeue_deferred_inv:
  assumes "sm_inv s"
  shows "requeue_deferred s = None \<longleftrightarrow> (\<exists>d\<in>set (non_nestable_task_queue s). tq_unregistered (tq s (df_queue d)))"
    "requeue_deferred s = Some t \<Longrightarrow> sm_inv t" "requeue_deferred s = Some t \<Longrightarrow> non_nestable_task_queue t = []"
    "requeue_deferred s = Some t \<Longrightarrow>
      waiting (view t q) w = deferred_of (q, w) (non_nestable_task_queue s) @ waiting (view s q) w"
    "requeue_deferred s = Some t \<Longrightarrow> enqueue_order_generator t = enqueue_order_generator s"
proof -
  have *: "(requeue_back (rev ds) s = None \<longleftrightarrow> (\<exists>d\<in>set ds. tq_unregistered (tq s (df_queue d)))) \<and>
      (requeue_back (rev ds) s = Some t \<longrightarrow> sm_inv t \<and> non_nestable_task_queue t = [] \<and>
        enqueue_order_generator t = enqueue_order_generator s \<and>
        waiting (view t q) w = deferred_of (q, w) ds @ waiting (view s q) w)"
    if "sm_inv s" "non_nestable_task_queue s = ds" for ds s
    using that
  proof (induction ds arbitrary: s rule: rev_induct)
    case Nil
    then show ?case by (auto simp: deferred_of_def)
  next
    case (snoc d ds)
    show ?case
    proof (cases "RequeueDeferredNonNestableTask d s")
      case None
      then show ?thesis by (simp add: RequeueDeferredNonNestableTask_def split: if_splits)
    next
      case (Some u)
      let ?t = "u\<lparr>non_nestable_task_queue := butlast (non_nestable_task_queue u)\<rparr>"
      note rb = requeued_inv [OF snoc.prems Some refl]
      have "\<not> tq_unregistered (tq s (df_queue d))"
        using Some by (simp add: RequeueDeferredNonNestableTask_def split: if_splits)
      then show ?thesis using snoc.IH [OF rb(1,2)] Some rb(3) [of q w] rb(4,5) by (auto simp: deferred_of_snoc)
    qed
  qed
  from * [OF assms refl]
  show "requeue_deferred s = None \<longleftrightarrow> (\<exists>d\<in>set (non_nestable_task_queue s). tq_unregistered (tq s (df_queue d)))"
    "requeue_deferred s = Some t \<Longrightarrow> sm_inv t" "requeue_deferred s = Some t \<Longrightarrow> non_nestable_task_queue t = []"
    "requeue_deferred s = Some t \<Longrightarrow>
      waiting (view t q) w = deferred_of (q, w) (non_nestable_task_queue s) @ waiting (view s q) w"
    "requeue_deferred s = Some t \<Longrightarrow> enqueue_order_generator t = enqueue_order_generator s"
    by (simp_all add: requeue_deferred_def)
qed

end
