(* ===== verification/Manager_Operations.thy ===== *)
theory Manager_Operations
  imports Manager_Invariant
begin

text \<open>
  The invariant of the scheduler is kept by what configures, creates and removes queues and by what
  the manager does between two tasks.
\<close>

declare split_paired_All [simp del] split_paired_Ex [simp del]

section \<open>Configuration\<close>

lemma placed_enabled_ok: "placed (view s q) \<Longrightarrow> \<not> tq_unregistered (tq s q) \<Longrightarrow> enabled_ok q s"
  by (auto simp: placed_def enabled_ok_def view_def fun_eq_iff)

lemma queues_okD2:
  assumes "queues_ok s"
  shows "dq_inv (tasks (wq s x))" "work_queue_sets (wq s x) \<in> {None, Some (snd x)}"
    "work_queue_set_index (wq s x) < kQueuePriorityCount" "dq_inv (immediate_incoming_queue (tq s q))"
  using assms unfolding queues_ok_def by blast+

lemma orders_in_prefix: "orders_in g (xs @ ys) \<Longrightarrow> orders_in g xs"
  by (auto simp: orders_in_def sorted_wrt_append)

lemma queues_ok_view:
  assumes ok: "queues_ok s" and v: "view t = (view s)(q := v)"
    and i: "\<And>q' w. dq_inv (tasks (wq t (q', w)))" "\<And>q'. dq_inv (immediate_incoming_queue (tq t q'))"
    and w: "\<And>w. qv_sets v w \<in> {None, Some w}" "\<And>w. qv_index v w < kQueuePriorityCount"
  shows "queues_ok t"
proof (rule queues_okI [OF i(1) _ _ i(2)])
  fix q' w'
  have "work_queue_sets (wq t (q', w')) = qv_sets (((view s)(q := v)) q') w'"
    "work_queue_set_index (wq t (q', w')) = qv_index (((view s)(q := v)) q') w'"
    by (simp_all only: v [symmetric] view_reads)
  then show "work_queue_sets (wq t (q', w')) \<in> {None, Some w'}" "work_queue_set_index (wq t (q', w')) < kQueuePriorityCount"
    using queues_okD2(2,3) [OF ok, of "(q', w')"] w [of w'] by (cases "q' = q"; simp add: view_reads)+
qed

lemma ChangeSetIndex_frame: "sets_frame (AssignSetIndex x p s) (wqs_ChangeSetIndex w x p s)"
  unfolding wqs_ChangeSetIndex_def Let_def
  by (auto split: option.split intro!: sets_frame_refl sets_frame_trans [OF _ observer_frame(2)]
      sets_frame_trans [OF _ observer_frame(1)] sets_frame_trans [OF _ on_heap_frame])

lemma SetQueuePriority_deques:
  "tasks (wq (SetQueuePriority q p s) x) = tasks (wq s x)" "task_queues (SetQueuePriority q p s) = task_queues s"
proof -
  have "tasks (wq (wqs_ChangeSetIndex w y p u) x) = tasks (wq u x) \<and> task_queues (wqs_ChangeSetIndex w y p u) = task_queues u" for w y u
    using sets_frame_reads [OF ChangeSetIndex_frame [of y p u w]] by (simp add: AssignSetIndex_def upd_wq_def)
  then show "tasks (wq (SetQueuePriority q p s) x) = tasks (wq s x)" "task_queues (SetQueuePriority q p s) = task_queues s"
    by (simp_all add: SetQueuePriority_def sel_SetQueuePriority_def sel_ChangeSetIndex_def AssignSetIndex_def upd_wq_def)
qed

lemma SetQueueEnabled_inv:
  assumes s: "sm_inv s" and r: "\<not> tq_unregistered (tq s q)"
  shows "sm_inv (SetQueueEnabled q b s)"
proof -
  note I = sm_invD [OF s]
  note e = placed_enabled_ok [OF I(3) r]
  have em: "qv_work_queue_empty (view s q) = (qv_tasks (view s q) kImmediate = [])"
    using flags_okD(3) [OF I(6), of q] r by (simp add: view_reads)
  note v = SetQueueEnabled_view [OF I(1) e em, of b]
  have "flags_ok {} ((view s)(q := (view s q)\<lparr>qv_enabled := b, qv_sets := (\<lambda>w. if b then Some w else None)\<rparr>)) (empty_queues_to_reload s)"
    using em by (intro flags_ok_upd [OF I(6)]) simp_all
  moreover have "lines_ok ((view s)(q := (view s q)\<lparr>qv_enabled := b, qv_sets := (\<lambda>w. if b then Some w else None)\<rparr>))
      (non_nestable_task_queue s) (enqueue_order_generator s)"
    by (intro lines_ok_same [OF I(5)] waiting_cong) simp_all
  ultimately show ?thesis
    by (intro sm_invI [OF s SetQueueEnabled_sync(2,1) [OF I(1,2) e refl] v(1)])
      (use I(3) [of q] r in \<open>simp_all add: v placed_def view_reads(7)\<close>)
qed

lemma SetQueuePriority_inv:
  assumes s: "sm_inv s" and r: "\<not> tq_unregistered (tq s q)" and p: "p < kQueuePriorityCount"
  shows "sm_inv (SetQueuePriority q p s)"
proof -
  note I = sm_invD [OF s]
  note e = placed_enabled_ok [OF I(3) r]
  have "qv_index (view s q) kDelayed = qv_index (view s q) kImmediate" using e by (simp add: enabled_ok_def view_reads)
  note v = SetQueuePriority_view [OF this, of p]
  have "flags_ok {} ((view s)(q := (view s q)\<lparr>qv_index := (\<lambda>_. p)\<rparr>)) (empty_queues_to_reload s)"
    using flags_okD(3) [OF I(6), of q] by (intro flags_ok_upd [OF I(6)]) simp_all
  moreover have "lines_ok ((view s)(q := (view s q)\<lparr>qv_index := (\<lambda>_. p)\<rparr>)) (non_nestable_task_queue s) (enqueue_order_generator s)"
    by (intro lines_ok_same [OF I(5)] waiting_cong) simp_all
  moreover have "queues_ok (SetQueuePriority q p s)"
  proof (rule queues_ok_view [OF I(1) v(1)])
    show "dq_inv (tasks (wq (SetQueuePriority q p s) (q', w)))" for q' w
      by (simp add: SetQueuePriority_deques queues_okD2(1) [OF I(1)])
    show "dq_inv (immediate_incoming_queue (tq (SetQueuePriority q p s) q'))" for q'
      by (simp add: SetQueuePriority_deques queues_okD2(4) [OF I(1)])
    show "qv_sets ((view s q)\<lparr>qv_index := \<lambda>_. p\<rparr>) w \<in> {None, Some w}" for w
      using queues_okD2(2) [OF I(1), of "(q, w)"] by (simp add: view_reads)
  qed (use p in simp)
  ultimately show ?thesis
    by (intro sm_invI [OF s _ SetQueuePriority_sync [OF I(2) e p] v(1)])
      (use I(3) [of q] r in \<open>simp_all add: v placed_def view_reads(7)\<close>)
qed

lemma DeletePendingTasks_inv:
  assumes s: "sm_inv s"
  shows "sm_inv (tq_DeletePendingTasks q s)"
proof -
  note I = sm_invD [OF s]
  note v = tq_Delete_view [OF I(1,2), of q]
  let ?v = "(view s q)\<lparr>qv_tasks := (\<lambda>_. []), qv_incoming := [], qv_work_queue_empty := True\<rparr>"
  have "lines_ok ((view s)(q := ?v)) (non_nestable_task_queue s) (enqueue_order_generator s)"
    using orders_in_prefix [OF lines_okD [OF I(5), of q]] by (intro lines_ok_upd [OF I(5) order_refl]) (simp add: waiting_def)
  moreover have "flags_ok {} ((view s)(q := ?v)) (empty_queues_to_reload (tq_DeletePendingTasks q s))"
    by (intro flags_ok_set [OF I(6), where b = False]) (auto simp: v(4))
  ultimately show ?thesis
    by (intro sm_invI [OF s tq_DeletePendingTasks_sync(2,1) [OF I(1,2)] v(1)])
      (use I(3) [of q] in \<open>simp_all add: v placed_def\<close>)
qed

lemma Select_work_queues: "work_queues (snd (SelectWorkQueueToService s)) = work_queues s"
  by (auto simp: SelectWorkQueueToService_def Let_def split_beta)

lemma SetTimeDomain_sync_frame: "sync_frame s (SetTimeDomain q d s)"
proof -
  have 1: "sync_frame s (UnregisterQueue d' q s)" for d' s unfolding UnregisterQueue_def by (rule sync_frame_wake [OF SetNextWakeUp_frame])
  have 2: "sync_frame s t \<Longrightarrow> sync_frame s (UpdateDelayedWakeUp q n (upd_tq q (\<lambda>t. t\<lparr>time_domain := x, scheduled_wake_up := None\<rparr>) t))" for s t n x
    by (rule sync_frame_trans [OF sync_frame_trans [OF _ sync_frame_upd_tq] UpdateDelayedWakeUp_sync_frame]) simp_all
  show ?thesis
    unfolding SetTimeDomain_def Let_def using 2 [OF sync_frame_refl] 2 [OF 1] sync_frame_refl
    by (cases "time_domain (tq s q)") auto
qed

lemma frames_inv:
  assumes s: "sm_inv s"
  shows "sm_inv (tq_ReclaimMemory q now s)" "sm_inv (SetTimeDomain q d s)" "sm_inv (snd (SelectWorkQueueToService s))"
proof -
  note I = sm_invD [OF s]
  show "sm_inv (tq_ReclaimMemory q now s)"
    by (rule sm_inv_same [OF s tq_ReclaimMemory_view [OF I(1,2)] tq_ReclaimMemory_sync(2,1) [OF I(1,2)]])
  have "queues_ok (snd (SelectWorkQueueToService s))"
    using I(1) Select_work_queues [of s] Select_view(2) [of s] by (simp add: queues_ok_def)
  then show "sm_inv (snd (SelectWorkQueueToService s))"
    by (intro sm_inv_same [OF s Select_view(1) _ Select_sync(1) [OF I(2)]])
  show "sm_inv (SetTimeDomain q d s)"
    by (rule sm_inv_same [OF s SetTimeDomain_view]) (simp_all add: sync_frameD(2,5) [OF SetTimeDomain_sync_frame] I)
qed

section \<open>Creating and removing queues\<close>

lemma flags_ok_add:
  assumes F: "flags_ok {} V F" and u: "qv_unregistered (V q)" and a: "AddFlag q F = (f, a)"
  shows "flags_ok {} (V(q := new_queue_view f)) a"
proof -
  obtain g where g: "f = Some (flag_of g)" "registered F g = None" "flag_set_inv a"
      "registered a = (registered F)(g := Some q)" "raised a = raised F"
    using AddFlag_spec [OF flags_okD(1) [OF F], of q] a by (metis fst_conv snd_conv)
  have nr: "\<not> raised F g" using g(2) raised_registered [OF flags_okD(1) [OF F], of g] by auto
  have "if qv_unregistered ((V(q := new_queue_view f)) q') then qv_handle ((V(q := new_queue_view f)) q') = None
      else qv_work_queue_empty ((V(q := new_queue_view f)) q') = (qv_tasks ((V(q := new_queue_view f)) q') kImmediate = []) \<and>
        (\<exists>h. qv_handle ((V(q := new_queue_view f)) q') = Some (flag_of h) \<and> registered a h = Some q' \<and>
           (raised a h \<longleftrightarrow> q' \<notin> {} \<and> qv_tasks ((V(q := new_queue_view f)) q') kImmediate = [] \<and> qv_incoming ((V(q := new_queue_view f)) q') \<noteq> []))" for q'
  proof (cases "q' = q")
    case True
    then show ?thesis using g nr by (auto simp: new_queue_view_def)
  next
    case False
    show ?thesis
    proof (cases "qv_unregistered (V q')")
      case True
      then show ?thesis using False flags_okD(2) [OF F True] by simp
    next
      case r: False
      obtain h where h: "qv_handle (V q') = Some (flag_of h)" "registered F h = Some q'"
        "raised F h \<longleftrightarrow> qv_tasks (V q') kImmediate = [] \<and> qv_incoming (V q') \<noteq> []"
        using flags_okD(4) [OF F r] by blast
      then have "h \<noteq> g" using g(2) by auto
      then show ?thesis using False r h g(4,5) flags_okD(3) [OF F r] by auto
    qed
  qed
  moreover have "registered a h = Some q' \<longrightarrow> \<not> qv_unregistered ((V(q := new_queue_view f)) q') \<and>
      qv_handle ((V(q := new_queue_view f)) q') = Some (flag_of h)" for q' h
    using flags_okD(5) [OF F, of h q'] g u by (auto simp: new_queue_view_def)
  ultimately show ?thesis using g(3) unfolding flags_ok_def by blast
qed

lemma flags_ok_remove:
  assumes F: "flags_ok {} V F" and v: "qv_unregistered v" "qv_handle v = None"
  shows "flags_ok {} (V(q := v)) (ReleaseAtomicFlag (qv_handle (V q)) F)"
proof (cases "qv_unregistered (V q)")
  case True
  then have "ReleaseAtomicFlag (qv_handle (V q)) F = F" using flags_okD(2) [OF F True] by (simp add: ReleaseAtomicFlag_def)
  then show ?thesis using flags_ok_upd [OF F, of v q "{}"] True v flags_okD(2) [OF F True] by simp
next
  case False
  obtain g where g: "qv_handle (V q) = Some (flag_of g)" "registered F g = Some q" using flags_okD(4) [OF F False] by blast
  define a where "a = ReleaseAtomicFlag (qv_handle (V q)) F"
  note R = ReleaseAtomicFlag_spec [OF flags_okD(1) [OF F] g(2), folded g(1), folded a_def]
  have "if qv_unregistered ((V(q := v)) q') then qv_handle ((V(q := v)) q') = None
      else qv_work_queue_empty ((V(q := v)) q') = (qv_tasks ((V(q := v)) q') kImmediate = []) \<and>
        (\<exists>h. qv_handle ((V(q := v)) q') = Some (flag_of h) \<and> registered a h = Some q' \<and>
           (raised a h \<longleftrightarrow> q' \<notin> {} \<and> qv_tasks ((V(q := v)) q') kImmediate = [] \<and> qv_incoming ((V(q := v)) q') \<noteq> []))" for q'
  proof (cases "q' = q \<or> qv_unregistered (V q')")
    case True
    then show ?thesis using v flags_okD(2) [OF F, of q'] by auto
  next
    case r: False
    obtain h where h: "qv_handle (V q') = Some (flag_of h)" "registered F h = Some q'"
      "raised F h \<longleftrightarrow> qv_tasks (V q') kImmediate = [] \<and> qv_incoming (V q') \<noteq> []"
      using flags_okD(4) [OF F, of q'] r by blast
    then have "h \<noteq> g" using g(2) r by auto
    then show ?thesis using r h R flags_okD(3) [OF F, of q'] by auto
  qed
  moreover have "registered a h = Some q' \<longrightarrow> \<not> qv_unregistered ((V(q := v)) q') \<and>
      qv_handle ((V(q := v)) q') = Some (flag_of h)" for q' h
  proof (cases "h = g")
    case False
    then have "registered F h \<noteq> Some q" using flags_okD(5) [OF F, of h q] g flag_of_inj [OF flags_okD(1) [OF F], of h q g q] by auto
    then show ?thesis using flags_okD(5) [OF F, of h q'] R(2) False by auto
  qed (simp add: R)
  ultimately show ?thesis using R(1) unfolding flags_ok_def a_def [symmetric] by blast
qed

text \<open>A queue outside the selector may be rewritten.\<close>

lemma in_sync_outside:
  assumes s: "in_sync s" and n: "\<And>w. work_queue_sets (wq s (q, w)) = None" "\<And>w. work_queue_sets (wq t (q, w)) = None"
    and o: "\<And>x. fst x \<noteq> q \<Longrightarrow> wq t x = wq s x"
    and h: "heap_handles t = heap_handles s" "work_queue_heaps t = work_queue_heaps s"
      "non_empty_set_counts t = non_empty_set_counts s" "active_priorities t = active_priorities s"
      "selection_count t = selection_count s"
  shows "in_sync t"
proof -
  have "expected t x = expected s x" for x
    using n o [of x] by (cases x; cases "fst x = q") (simp_all add: expected_def)
  then have "expected t = expected s" by (rule ext)
  then show ?thesis using s h by (simp add: in_sync_def sets_rep_def heaps_rep_def counts_rep_def)
qed

lemma queues_ok_outside:
  assumes ok: "queues_ok s" and o: "\<And>x. fst x \<noteq> q \<Longrightarrow> wq t x = wq s x" and i: "\<And>q'. dq_inv (immediate_incoming_queue (tq t q'))"
    and n: "\<And>w. work_queue_sets (wq t (q, w)) = None" "\<And>w. tasks (wq t (q, w)) = deque_new"
      "\<And>w. work_queue_set_index (wq t (q, w)) < kQueuePriorityCount"
  shows "queues_ok t"
proof (rule queues_okI [OF _ _ _ i])
  fix q' w
  show "dq_inv (tasks (wq t (q', w)))" "work_queue_sets (wq t (q', w)) \<in> {None, Some w}"
    "work_queue_set_index (wq t (q', w)) < kQueuePriorityCount"
    using n [of w] o [of "(q', w)"] queues_okD2(1-3) [OF ok, of "(q', w)"] by (cases "q' = q"; simp)+
qed

lemma Create_sync:
  assumes ok: "queues_ok s" and s: "in_sync s" and n: "\<And>w. work_queue_sets (wq s (q, w)) = None"
  shows "in_sync (CreateTaskQueueImpl q spec s)" "queues_ok (CreateTaskQueueImpl q spec s)"
proof -
  define d where "d = (case spec_time_domain spec of Some d \<Rightarrow> d | None \<Rightarrow> 0)"
  define t where "t = TaskQueueImpl_new q d spec s"
  let ?u = "t\<lparr>active_queues := List.insert q (active_queues t)\<rparr>"
  have eq: "CreateTaskQueueImpl q spec s = AddQueueImpl q kNormalPriority ?u"
    by (simp add: CreateTaskQueueImpl_def Let_def sel_AddQueue_def d_def t_def)
  have w: "wq ?u x = (if fst x = q then WorkQueue_new else wq s x)" for x
    by (cases x; cases "snd x") (auto simp: t_def TaskQueueImpl_new_def GetFlagToRequestReloadForEmptyQueue_def Let_def
        split_beta UpdateCrossThreadQueueStateLocked_def upd_wq_def)
  have i: "dq_inv (immediate_incoming_queue (tq ?u q'))" for q'
    using queues_okD2(4) [OF ok, of q'] by (auto simp: t_def TaskQueueImpl_new_def GetFlagToRequestReloadForEmptyQueue_def Let_def
        split_beta UpdateCrossThreadQueueStateLocked_def)
  have p: "kNormalPriority < kQueuePriorityCount" by (simp add: kNormalPriority_def kQueuePriorityCount_def)
  have "in_sync ?u"
  proof (rule in_sync_outside [OF s n])
    show "work_queue_sets (wq ?u (q, w)) = None" for w unfolding w by (simp add: WorkQueue_new_def)
    show "wq ?u x = wq s x" if "fst x \<noteq> q" for x using that unfolding w by simp
  qed (simp_all add: t_def TaskQueueImpl_new_def GetFlagToRequestReloadForEmptyQueue_def Let_def split_beta
      UpdateCrossThreadQueueStateLocked_def)
  then show "in_sync (CreateTaskQueueImpl q spec s)" unfolding eq by (rule AddQueueImpl_sync [OF _ _ p]) (unfold w, simp add: WorkQueue_new_def)
  have "queues_ok ?u"
    by (rule queues_ok_outside [OF ok _ i, where q = q]) (unfold w, simp_all add: WorkQueue_new_def kQueuePriorityCount_def)
  then show "queues_ok (CreateTaskQueueImpl q spec s)" unfolding eq by (rule AddQueueImpl_ok [OF _ p])
qed

lemma Create_inv:
  assumes s: "sm_inv s" and u: "tq_unregistered (tq s q)"
  shows "sm_inv (CreateTaskQueueImpl q spec s)"
proof -
  note I = sm_invD [OF s]
  obtain f a where f: "AddFlag q (empty_queues_to_reload s) = (f, a)" by (metis surj_pair)
  note v = Create_view [OF f, of spec]
  have n: "work_queue_sets (wq s (q, w)) = None" for w using I(3) [of q] u by (simp add: placed_def view_def fun_eq_iff)
  have "lines_ok ((view s)(q := new_queue_view f)) (non_nestable_task_queue s) (enqueue_order_generator s)"
    using orders_in_prefix [OF lines_okD [OF I(5), of q]]
    by (intro lines_ok_upd [OF I(5) order_refl]) (simp add: waiting_def new_queue_view_def)
  moreover have "flags_ok {} ((view s)(q := new_queue_view f)) a"
    using flags_ok_add [OF I(6) _ f] u by (simp add: view_reads)
  moreover have "live_queues ((view s)(q := new_queue_view f)) = insert q (live_queues (view s))"
    by (auto simp: live_queues_def new_queue_view_def)
  moreover have "placed (new_queue_view f)" by (simp add: placed_def new_queue_view_def fun_eq_iff)
  ultimately show ?thesis
    using Create_sync [OF I(1,2) n, of spec] I(3,7) unfolding sm_inv_but_def v by simp
qed

lemma UnregisterTaskQueue_parts:
  "\<exists>t. sync_frame (upd_tq q (\<lambda>x. x\<lparr>immediate_incoming_queue := snd (dq_swap deque_new (immediate_incoming_queue x))\<rparr>) s) t \<and>
    UnregisterTaskQueue q s = set_tasks (q, kDelayed) deque_new (set_tasks (q, kImmediate) deque_new t)"
proof -
  define s0 where "s0 = upd_tq q (\<lambda>x. x\<lparr>immediate_incoming_queue := snd (dq_swap deque_new (immediate_incoming_queue x))\<rparr>) s"
  define s1 where "s1 = upd_tq q (\<lambda>t. t\<lparr>tq_unregistered := True,
      immediate_incoming_queue := snd (dq_swap deque_new (immediate_incoming_queue t))\<rparr>)
      (upd_tq q (\<lambda>t. t\<lparr>task_poster := shutdown_poster (task_poster t)\<rparr>) s)"
  define s2 where "s2 = upd_tq q (\<lambda>t. t\<lparr>time_domain := None, on_next_wake_up_changed_callback := False\<rparr>)
      (case time_domain (tq s1 q) of None \<Rightarrow> s1 | Some d \<Rightarrow> UnregisterQueue d q s1)"
  define s3 where "s3 = upd_delayed q (\<lambda>d. snd (di_swap DelayedIncomingQueue_new d))
      (upd_tq q (\<lambda>t. t\<lparr>empty_queues_to_reload_handle := None\<rparr>)
        (s2\<lparr>empty_queues_to_reload := ReleaseAtomicFlag (empty_queues_to_reload_handle (tq s2 q)) (empty_queues_to_reload s2)\<rparr>))"
  have "UnregisterTaskQueue q s = set_tasks (q, kDelayed) deque_new (set_tasks (q, kImmediate) deque_new s3)"
    unfolding UnregisterTaskQueue_def Let_def s3_def s2_def s1_def set_tasks_def ..
  moreover have "sync_frame s0 s1" by (simp add: sync_frame_def s0_def s1_def)
  moreover have "sync_frame s1 s2"
  proof -
    have "sync_frame s1 (case time_domain (tq s1 q) of None \<Rightarrow> s1 | Some d \<Rightarrow> UnregisterQueue d q s1)"
      unfolding UnregisterQueue_def by (simp add: sync_frame_refl sync_frame_wake [OF SetNextWakeUp_frame] split: option.split)
    then show ?thesis unfolding s2_def by (rule sync_frame_trans) (simp add: sync_frame_upd_tq)
  qed
  moreover have "sync_frame s2 s3" by (simp add: sync_frame_def s3_def upd_delayed_def)
  ultimately show ?thesis unfolding s0_def using sync_frame_trans by blast
qed

lemma UnregisterTaskQueue_sync:
  assumes ok: "queues_ok s" and s: "in_sync s" and n: "\<And>w. work_queue_sets (wq s (q, w)) = None"
  shows "in_sync (UnregisterTaskQueue q s)" "queues_ok (UnregisterTaskQueue q s)"
proof -
  let ?s = "upd_tq q (\<lambda>x. x\<lparr>immediate_incoming_queue := snd (dq_swap deque_new (immediate_incoming_queue x))\<rparr>) s"
  obtain t where t: "sync_frame ?s t" "UnregisterTaskQueue q s = set_tasks (q, kDelayed) deque_new (set_tasks (q, kImmediate) deque_new t)"
    using UnregisterTaskQueue_parts [of q s] by blast
  have w: "wq (UnregisterTaskQueue q s) x = (if fst x = q then (wq s x)\<lparr>tasks := deque_new\<rparr> else wq s x)" for x
    using sync_frameD(1) [OF t(1)] by (cases x; cases "snd x") (auto simp: t(2) set_tasks_def upd_wq_def)
  show "in_sync (UnregisterTaskQueue q s)"
    by (rule in_sync_outside [OF s n]) (auto simp: w n, use t in \<open>auto simp: sync_frame_def set_tasks_def\<close>)
  have "dq_inv (snd (dq_swap deque_new (immediate_incoming_queue (tq s q))))"
    using queues_okD2(4) [OF ok, of q] by (simp add: dq_swap_def)
  then have i: "dq_inv (immediate_incoming_queue (tq (UnregisterTaskQueue q s) q'))" for q'
    using queues_okD2(4) [OF ok, of q'] sync_frameD(6) [OF t(1), of q'] by (auto simp: t(2) set_tasks_def)
  show "queues_ok (UnregisterTaskQueue q s)"
    using queues_okD2(3) [OF ok] by (intro queues_ok_outside [OF ok _ i, where q = q]) (simp_all add: w n)
qed

lemma Unregister_inv:
  assumes s: "sm_inv s" and r: "\<not> tq_unregistered (tq s q)"
  shows "sm_inv (UnregisterTaskQueueImpl q s)"
proof -
  note I = sm_invD [OF s]
  note v = UnregisterTaskQueueImpl_view [of q s]
  let ?v = "removed_queue_view (view s q)"
  have "in_sync (sel_RemoveQueue q s) \<and> queues_ok (sel_RemoveQueue q s) \<and> (\<forall>w. work_queue_sets (wq (sel_RemoveQueue q s) (q, w)) = None)"
  proof (cases "is_enabled (tq s q)")
    case True
    then have "work_queue_sets (wq s (q, w)) = Some w" for w using placed_enabled_ok [OF I(3) r] by (simp add: enabled_ok_def)
    then show ?thesis using True RemoveQueueImpl_sync [OF I(2), of q] RemoveQueueImpl_ok [OF I(1), of q]
      by (simp add: sel_RemoveQueue_def RemoveQueueImpl_wq)
  next
    case False
    then show ?thesis using placed_enabled_ok [OF I(3) r] I(1,2) by (simp add: sel_RemoveQueue_def enabled_ok_def)
  qed
  then have "in_sync (UnregisterTaskQueue q (sel_RemoveQueue q s))" "queues_ok (UnregisterTaskQueue q (sel_RemoveQueue q s))"
    using UnregisterTaskQueue_sync by blast+
  then have "in_sync (UnregisterTaskQueueImpl q s)" "queues_ok (UnregisterTaskQueueImpl q s)"
    using sync_cong(2) [of "UnregisterTaskQueueImpl q s" "UnregisterTaskQueue q (sel_RemoveQueue q s)"]
    by (simp_all add: UnregisterTaskQueueImpl_def Let_def queues_ok_def)
  moreover have "lines_ok ((view s)(q := ?v)) (non_nestable_task_queue s) (enqueue_order_generator s)"
    using orders_in_prefix [OF lines_okD [OF I(5), of q]]
    by (intro lines_ok_upd [OF I(5) order_refl]) (simp add: waiting_def removed_queue_view_def)
  moreover have "flags_ok {} ((view s)(q := ?v)) (ReleaseAtomicFlag (qv_handle (view s q)) (empty_queues_to_reload s))"
    by (rule flags_ok_remove [OF I(6)]) (simp_all add: removed_queue_view_def)
  moreover have "live_queues ((view s)(q := ?v)) = live_queues (view s) - {q}"
    by (auto simp: live_queues_def removed_queue_view_def)
  moreover have "placed ?v" using I(3) [of q] by (auto simp: placed_def removed_queue_view_def split: if_splits)
  ultimately show ?thesis using I(3,7) unfolding sm_inv_but_def v by simp
qed

lemma new_inv: "sm_inv (SequenceManagerImpl_new now b)"
proof -
  let ?s = "SequenceManagerImpl_new now b"
  have w: "wq ?s x = WorkQueue_new" for x by (simp add: SequenceManagerImpl_new_def RegisterTimeDomain_def)
  have v: "view ?s q = \<lparr>qv_tasks = (\<lambda>_. []), qv_fence = (\<lambda>_. 0), qv_sets = (\<lambda>_. None), qv_index = (\<lambda>_. 0),
     qv_incoming = [], qv_enabled = False, qv_unregistered = True, qv_delayed_fence = None,
     qv_work_queue_empty = True, qv_handle = None\<rparr>" for q
    by (simp add: view_def w WorkQueue_new_def, simp add: SequenceManagerImpl_new_def RegisterTimeDomain_def EnqueueOrder_none_def)
  have "queues_ok ?s" unfolding queues_ok_def w
    by (simp add: WorkQueue_new_def SequenceManagerImpl_new_def RegisterTimeDomain_def kQueuePriorityCount_def)
  moreover have e: "expected ?s = (\<lambda>_. None)" by (rule ext) (simp add: expected_def w WorkQueue_new_def)
  moreover have "in_sync ?s"
    unfolding in_sync_def e sets_rep_def heaps_rep_def counts_rep_def
    by (simp add: reported_def SequenceManagerImpl_new_def RegisterTimeDomain_def IntrusiveHeap_init_inv SmallPriorityQueue_init_inv)
  moreover have g: "non_nestable_task_queue ?s = []" "enqueue_order_generator ?s = EnqueueOrder_kFirst"
    "empty_queues_to_reload ?s = AtomicFlagSet_new"
    by (simp_all add: SequenceManagerImpl_new_def RegisterTimeDomain_def)
  moreover have "lines_ok (view ?s) (non_nestable_task_queue ?s) (enqueue_order_generator ?s)"
    unfolding g by (simp add: lines_ok_def v waiting_def deferred_of_def orders_in_def)
  moreover have "flags_ok {} (view ?s) (empty_queues_to_reload ?s)"
    unfolding g by (simp add: flags_ok_def v AtomicFlagSet_new_inv)
  ultimately show ?thesis by (simp add: sm_inv_but_def v placed_def live_queues_def)
qed

end
