(* ===== verification/Manager_Loop.thy ===== *)
theory Manager_Loop
  imports Manager_Operations
begin

text \<open>
  The two loops of the manager. \<open>ReloadEmptyWorkQueues\<close> leaves no registered queue with tasks in its
  incoming queue and an empty immediate work queue. \<open>take_loop\<close>, the loop of \<open>TakeTaskImpl\<close>, ends,
  keeps the invariant, loses no live task and leaves out a non-nestable task inside a nested run loop.
\<close>

declare split_paired_All [simp del] split_paired_Ex [simp del]

section \<open>Reloading\<close>

definition reloaded_view :: "(nat \<Rightarrow> queue_view) \<Rightarrow> nat \<Rightarrow> queue_view" where
  "reloaded_view V q = (if qv_unregistered (V q) then V q else refill_view kImmediate (V q))"

lemma reload_step:
  assumes s: "sm_inv_but (insert q P) s" and q: "q \<notin> P" "qv_incoming (view s q) \<noteq> []"
  shows "sm_inv_but P (ReloadEmptyImmediateWorkQueue q s)"
    "view (ReloadEmptyImmediateWorkQueue q s) = (view s)(q := refill_view kImmediate (view s q))"
    "non_nestable_task_queue (ReloadEmptyImmediateWorkQueue q s) = non_nestable_task_queue s"
    "enqueue_order_generator (ReloadEmptyImmediateWorkQueue q s) = enqueue_order_generator s"
proof -
  note I = sm_invD [OF s]
  have e: "\<not> qv_unregistered (view s q)" "qv_tasks (view s q) kImmediate = []"
    using I(6) by (auto simp: flags_ok_def)
  then have de: "dq_empty (tasks (wq s (q, kImmediate)))"
    using queues_okD2(1) [OF I(1)] by (simp add: deque_specs view_reads)
  note v = Reload_view [OF I(1,4) e(2)]
  note sy = Reload_sync [OF I(1,2,4) de]
  have r: "reload_view (view s q) = refill_view kImmediate (view s q)" using e by (simp add: refill_view_def)
  show v1: "view (ReloadEmptyImmediateWorkQueue q s) = (view s)(q := refill_view kImmediate (view s q))" using v(1) r by simp
  show "non_nestable_task_queue (ReloadEmptyImmediateWorkQueue q s) = non_nestable_task_queue s"
    "enqueue_order_generator (ReloadEmptyImmediateWorkQueue q s) = enqueue_order_generator s" by (rule v)+
  have "lines_ok ((view s)(q := refill_view kImmediate (view s q))) (non_nestable_task_queue s) (enqueue_order_generator s)"
    by (rule lines_ok_same [OF I(5) waiting_refill])
  moreover have "flags_ok P ((view s)(q := refill_view kImmediate (view s q))) (empty_queues_to_reload s)"
    unfolding r [symmetric] using q by (intro flags_ok_upd [OF I(6)]) (auto simp: reload_view_def)
  ultimately show "sm_inv_but P (ReloadEmptyImmediateWorkQueue q s)"
    by (intro sm_invI [OF s sy(2,1) v1]) (use I(3) [of q] in \<open>simp_all add: v r [symmetric] placed_def reload_view_def\<close>)
qed

lemma reload_fold:
  assumes "sm_inv_but (set qs) s" "distinct qs" "\<forall>q \<in> set qs. qv_incoming (view s q) \<noteq> []"
  shows "sm_inv (fold ReloadEmptyImmediateWorkQueue qs s)"
    "view (fold ReloadEmptyImmediateWorkQueue qs s) = (\<lambda>q. if q \<in> set qs then refill_view kImmediate (view s q) else view s q)"
    "non_nestable_task_queue (fold ReloadEmptyImmediateWorkQueue qs s) = non_nestable_task_queue s"
    "enqueue_order_generator (fold ReloadEmptyImmediateWorkQueue qs s) = enqueue_order_generator s"
proof -
  have "sm_inv (fold ReloadEmptyImmediateWorkQueue qs s) \<and>
    view (fold ReloadEmptyImmediateWorkQueue qs s) = (\<lambda>q. if q \<in> set qs then refill_view kImmediate (view s q) else view s q) \<and>
    non_nestable_task_queue (fold ReloadEmptyImmediateWorkQueue qs s) = non_nestable_task_queue s \<and>
    enqueue_order_generator (fold ReloadEmptyImmediateWorkQueue qs s) = enqueue_order_generator s"
    using assms
  proof (induction qs arbitrary: s)
    case Nil
    then show ?case by simp
  next
    case (Cons q qs)
    have r: "q \<notin> set qs" "qv_incoming (view s q) \<noteq> []" using Cons.prems by auto
    have "sm_inv_but (insert q (set qs)) s" using Cons.prems(1) by simp
    note st = reload_step [OF this r]
    have "\<forall>q' \<in> set qs. qv_incoming (view (ReloadEmptyImmediateWorkQueue q s) q') \<noteq> []"
      unfolding st(2) using Cons.prems(3) r(1) by auto
    from Cons.IH [OF st(1) _ this] show ?case using Cons.prems(2) r(1) st by (auto simp: fun_eq_iff)
  qed
  then show "sm_inv (fold ReloadEmptyImmediateWorkQueue qs s)"
    "view (fold ReloadEmptyImmediateWorkQueue qs s) = (\<lambda>q. if q \<in> set qs then refill_view kImmediate (view s q) else view s q)"
    "non_nestable_task_queue (fold ReloadEmptyImmediateWorkQueue qs s) = non_nestable_task_queue s"
    "enqueue_order_generator (fold ReloadEmptyImmediateWorkQueue qs s) = enqueue_order_generator s" by blast+
qed

lemma Reload_inv:
  assumes s: "sm_inv s"
  shows "sm_inv (ReloadEmptyWorkQueues s)" "view (ReloadEmptyWorkQueues s) = reloaded_view (view s)"
    "non_nestable_task_queue (ReloadEmptyWorkQueues s) = non_nestable_task_queue s"
    "enqueue_order_generator (ReloadEmptyWorkQueues s) = enqueue_order_generator s"
proof -
  note I = sm_invD [OF s]
  let ?F = "empty_queues_to_reload s"
  obtain fs where fs: "set fs = {f. raised ?F f}" "distinct fs" "fst (RunActiveCallbacks ?F) = map (registered ?F) fs"
    "flag_set_inv (snd (RunActiveCallbacks ?F))" "registered (snd (RunActiveCallbacks ?F)) = registered ?F"
    "raised (snd (RunActiveCallbacks ?F)) = (\<lambda>_. False)"
    using RunActiveCallbacks_spec [OF flags_okD(1) [OF I(6)]] by blast
  define G where "G = snd (RunActiveCallbacks ?F)"
  define qs where "qs = map (\<lambda>f. the (registered ?F f)) fs"
  let ?s = "s\<lparr>empty_queues_to_reload := G\<rparr>"
  have reg: "registered ?F f = Some (the (registered ?F f))" if "f \<in> set fs" for f
    using that fs(1) raised_registered [OF flags_okD(1) [OF I(6)], of f] by auto
  then have cb: "fst (RunActiveCallbacks ?F) = map Some qs" unfolding fs(3) qs_def by (simp add: o_def)
  have "fold run_reload (map Some qs) t = fold ReloadEmptyImmediateWorkQueue qs t" for t
    by (induction qs arbitrary: t) (simp_all add: run_reload_def)
  then have eq: "ReloadEmptyWorkQueues s = fold ReloadEmptyImmediateWorkQueue qs ?s"
    using cb by (simp add: ReloadEmptyWorkQueues_def split_beta G_def)
  have rd: "qv_tasks (view s q) kImmediate = [] \<and> qv_incoming (view s q) \<noteq> []"
    if r: "registered ?F f = Some q" "raised ?F f" for f q
  proof -
    obtain h where h: "qv_handle (view s q) = Some (flag_of h)" "registered ?F h = Some q"
        "raised ?F h \<longleftrightarrow> qv_tasks (view s q) kImmediate = [] \<and> qv_incoming (view s q) \<noteq> []"
      using flags_okD(4,5) [OF I(6)] r(1) by blast
    then have "h = f" using flags_okD(5) [OF I(6) r(1)] flag_of_inj [OF flags_okD(1) [OF I(6)] h(2) r(1)] by simp
    then show ?thesis using h(3) r(2) by simp
  qed
  have mem: "q \<in> set qs \<longleftrightarrow> \<not> qv_unregistered (view s q) \<and> qv_tasks (view s q) kImmediate = [] \<and> qv_incoming (view s q) \<noteq> []" for q
  proof
    assume "q \<in> set qs"
    then obtain f where "f \<in> set fs" "registered ?F f = Some q" using reg by (fastforce simp: qs_def)
    then show "\<not> qv_unregistered (view s q) \<and> qv_tasks (view s q) kImmediate = [] \<and> qv_incoming (view s q) \<noteq> []"
      using rd flags_okD(5) [OF I(6)] fs(1) by blast
  next
    assume a: "\<not> qv_unregistered (view s q) \<and> qv_tasks (view s q) kImmediate = [] \<and> qv_incoming (view s q) \<noteq> []"
    then obtain f where "registered ?F f = Some q" "raised ?F f" using flags_okD(4) [OF I(6), of q] by auto
    then show "q \<in> set qs" using fs(1) by (force simp: qs_def)
  qed
  have "distinct qs"
  proof -
    have "f = g" if "f \<in> set fs" "g \<in> set fs" "the (registered ?F f) = the (registered ?F g)" for f g
      using reg [OF that(1)] reg [OF that(2)] flags_okD(5) [OF I(6)] flag_of_inj [OF flags_okD(1) [OF I(6)]] that(3)
      by (metis option.inject)
    then show ?thesis unfolding qs_def distinct_map using fs(2) by (blast intro: inj_onI)
  qed
  have vs: "view ?s = view s" by (rule view_cong) simp_all
  have "flags_ok (set qs) (view s) G"
  proof -
    have "if qv_unregistered (view s q) then qv_handle (view s q) = None
        else qv_work_queue_empty (view s q) = (qv_tasks (view s q) kImmediate = []) \<and>
          (\<exists>f. qv_handle (view s q) = Some (flag_of f) \<and> registered G f = Some q \<and>
             (raised G f \<longleftrightarrow> q \<notin> set qs \<and> qv_tasks (view s q) kImmediate = [] \<and> qv_incoming (view s q) \<noteq> []))" for q
      using flags_okD(2-4) [OF I(6), of q] fs(5,6) unfolding mem G_def by auto
    moreover have "registered G f = Some q \<longrightarrow> \<not> qv_unregistered (view s q) \<and> qv_handle (view s q) = Some (flag_of f)" for q f
      using flags_okD(5) [OF I(6)] fs(5) by (simp add: G_def)
    moreover have "\<forall>q \<in> set qs. \<not> qv_unregistered (view s q) \<and> qv_tasks (view s q) kImmediate = []" using mem by blast
    ultimately show ?thesis using fs(4) unfolding flags_ok_def G_def [symmetric] by blast
  qed
  then have "sm_inv_but (set qs) ?s"
    using I sync_cong(2) [of ?s s] unfolding sm_inv_but_def vs by (simp add: queues_ok_def)
  note f = reload_fold [OF this \<open>distinct qs\<close>, folded eq, unfolded vs]
  have "\<forall>q \<in> set qs. qv_incoming (view s q) \<noteq> []" using mem by blast
  note f = f [OF this]
  show "sm_inv (ReloadEmptyWorkQueues s)" by (rule f)
  show "view (ReloadEmptyWorkQueues s) = reloaded_view (view s)"
  proof
    fix q
    have "refill_view kImmediate (view s q) = view s q" if "\<not> qv_unregistered (view s q)" "q \<notin> set qs"
      using that flags_okD(3) [OF I(6) that(1)] unfolding mem
      by (cases "view s q") (auto simp: refill_view_def reload_view_def fun_upd_idem)
    then show "view (ReloadEmptyWorkQueues s) q = reloaded_view (view s) q"
      unfolding f(2) using mem [of q] by (auto simp: reloaded_view_def)
  qed
  show "non_nestable_task_queue (ReloadEmptyWorkQueues s) = non_nestable_task_queue s"
    "enqueue_order_generator (ReloadEmptyWorkQueues s) = enqueue_order_generator s" using f(3,4) by simp_all
qed

section \<open>Taking a task\<close>

text \<open>What the operations of the queues leave alone: the cancelled tasks, the nesting, the manager's
  lists of queues, which queues are registered and who may post to them.\<close>

definition same_run :: "sched \<Rightarrow> sched \<Rightarrow> bool" where
  "same_run s t \<longleftrightarrow> cancelled t = cancelled s \<and> nesting_depth t = nesting_depth s \<and> active_queues t = active_queues s \<and>
     queues_to_gracefully_shutdown t = queues_to_gracefully_shutdown s \<and> queues_to_delete t = queues_to_delete s \<and>
     (\<forall>q. tq_unregistered (tq t q) = tq_unregistered (tq s q) \<and> task_poster (tq t q) = task_poster (tq s q))"

lemma same_run_refl: "same_run s s"
  by (simp add: same_run_def)

lemma same_run_trans: "same_run s t \<Longrightarrow> same_run t u \<Longrightarrow> same_run s u"
  by (simp add: same_run_def)

lemma same_runD:
  assumes "same_run s t"
  shows "task_is_dead t = task_is_dead s" "nesting_depth t = nesting_depth s" "cancelled t = cancelled s"
    "active_queues t = active_queues s" "queues_to_gracefully_shutdown t = queues_to_gracefully_shutdown s"
    "live_queues (view t) = live_queues (view s)" "task_poster (tq t q) = task_poster (tq s q)"
  using assms by (auto simp: same_run_def live_queues_def view_reads intro: task_is_dead_cong)

lemma same_run_upd:
  "same_run s t \<Longrightarrow> same_run s (upd_wq x f t)" "(\<And>a. tq_unregistered (g a) = tq_unregistered a \<and> task_poster (g a) = task_poster a) \<Longrightarrow> same_run s t \<Longrightarrow> same_run s (upd_tq q g t)"
  "same_run s t \<Longrightarrow> same_run s (set_tasks x d t)"
  "same_run s t \<Longrightarrow> same_run s (InsertFenceSilently x o1 t)"
  "same_run s t \<Longrightarrow> same_run s (UpdateCrossThreadQueueStateLocked q t)"
  by (simp_all add: same_run_def upd_wq_def upd_tq_def set_tasks_def UpdateCrossThreadQueueStateLocked_def InsertFenceSilently_def
      InsertFenceImpl_def Let_def)

lemma same_run_sets: "sets_frame s t \<Longrightarrow> same_run s t"
  unfolding sets_frame_def same_run_def by (drule arg_cong [where f = "\<lambda>s. (cancelled s, nesting_depth s, active_queues s, queues_to_gracefully_shutdown s, queues_to_delete s, task_queues s)"]) simp

lemma same_run_wake: "wake_frame s t \<Longrightarrow> same_run s t"
  unfolding wake_frame_def same_run_def
  by (drule arg_cong [where f = "\<lambda>s. (cancelled s, nesting_depth s, active_queues s, queues_to_gracefully_shutdown s, queues_to_delete s, task_queues s)"]) simp

lemma same_run_refill: "same_run s (refill x s)"
  unfolding refill_def tq_TakeImmediateIncomingQueueTasks_def Let_def split_beta activate_delayed_fence_def
  by (auto split: option.split intro!: same_run_upd same_run_refl)

lemma same_run_notify: "same_run s t \<Longrightarrow> same_run s (notify_front_changed x t)"
  by (auto simp: notify_front_changed_def split: option.split intro: same_run_trans same_run_sets [OF sets_ops_frame(1)])

lemma same_run_remove: "same_run s (snd (RemoveAllCanceledTasksFromFront x s))"
  unfolding RemoveAllCanceledTasksFromFront_def Let_def split_beta
  by (auto intro!: same_run_refl same_run_notify same_run_upd same_run_trans [OF _ same_run_refill])

lemma same_run_take: "same_run s (snd (TakeTaskFromWorkQueue dcheck x s))"
  unfolding TakeTaskFromWorkQueue_def Let_def split_beta
  by (auto intro!: same_run_refl same_run_upd same_run_trans [OF _ same_run_refill]
      same_run_trans [OF _ same_run_sets [OF sets_ops_frame(1)]] same_run_trans [OF _ same_run_sets [OF sets_ops_frame(3)]] split: option.split)

lemma same_run_select: "same_run s (snd (SelectWorkQueueToService s))"
  by (auto simp: SelectWorkQueueToService_def Let_def split_beta same_run_def)

text \<open>The choice of the selector, read through what each work queue shows.\<close>

lemma Select_choice:
  assumes s: "in_sync s" and r: "SelectWorkQueueToService s = (Some x, u)"
  obtains p k where "p = min_id (active_priorities s)" "p < kQueuePriorityCount" "expected s x = Some (p, k)"
    "expected u x = Some (p, k)" "GetOldestQueueInSet (snd x) p u = Some x"
    "\<And>y k'. snd y = snd x \<Longrightarrow> expected s y = Some (p, k') \<Longrightarrow> k \<le> k'"
    "\<And>y k'. immediate_starvation_count s < kMaxDelayedStarvationTasks \<Longrightarrow> expected s y = Some (p, k') \<Longrightarrow> k \<le> k'"
    "kMaxDelayedStarvationTasks \<le> immediate_starvation_count s \<Longrightarrow> snd x = kDelayed \<Longrightarrow>
       \<nexists>y k'. snd y = kImmediate \<and> expected s y = Some (p, k')"
proof -
  have ne: "\<not> spq_empty (active_priorities s)" using r by (auto simp: SelectWorkQueueToService_def)
  define p where "p = min_id (active_priorities s)"
  have p: "p < kQueuePriorityCount" "\<exists>q k. expected s q = Some (p, k)" using min_id_active [OF s ne] by (simp_all add: p_def)
  obtain q k b where c: "ChooseWithPriority p s = (Some q, b)" and k: "expected s q = Some (p, k)"
      "\<And>y k'. snd y = snd q \<Longrightarrow> expected s y = Some (p, k') \<Longrightarrow> k \<le> k'"
      "\<And>y k'. immediate_starvation_count s < kMaxDelayedStarvationTasks \<Longrightarrow> expected s y = Some (p, k') \<Longrightarrow> k \<le> k'"
      "kMaxDelayedStarvationTasks \<le> immediate_starvation_count s \<Longrightarrow> snd q = kDelayed \<Longrightarrow>
         \<nexists>y k'. snd y = kImmediate \<and> expected s y = Some (p, k')"
    by (rule ChooseWithPriority_spec [OF s p]; rule that; assumption)
  have u: "q = x" "u = picked s (if b then immediate_starvation_count s + 1 else 0)"
    using Select_unfold [OF counts_rep_active(1) [OF s] ne] c r by (auto simp: p_def)
  note O = GetOldestQueueInSet_spec [OF s p(1)]
  have "Some x = GetOldestQueueInSet kImmediate p s \<or> Some x = GetOldestQueueInSet kDelayed p s"
    using c u(1) unfolding ChooseWithPriority_def ChooseImmediateOrDelayedTaskWithPriority_def O(3)
    by (auto split: if_splits option.splits)
  then obtain w where w: "GetOldestQueueInSet w p s = Some x" by metis
  then have "snd x = w" using O(2) [of w x] unfolding O(3) by auto
  moreover have "work_queue_heaps u = work_queue_heaps s" by (simp add: u(2) picked_def Let_def)
  then have "GetOldestQueueInSet w p u = GetOldestQueueInSet w p s" by (simp add: GetOldestQueueInSet_def)
  ultimately show ?thesis using that [OF p_def p(1)] w k picked_sync(2) [OF s ne] u by simp
qed

text \<open>The tasks of a queue that are still to run: the deferred ones, then those in the queue.\<close>

definition line :: "sched \<Rightarrow> wq_id \<Rightarrow> Task list" where
  "line s x = filter (\<lambda>t. \<not> task_is_dead s t) (deferred_of x (non_nestable_task_queue s) @ waiting (view s (fst x)) (snd x))"

definition backlog :: "sched \<Rightarrow> nat" where
  "backlog s = (\<Sum>q \<in> live_queues (view s). length (waiting (view s q) kImmediate) + length (waiting (view s q) kDelayed))"

lemma backlog_less:
  assumes f: "finite (live_queues (view s))" and q: "q \<in> live_queues (view s)"
    and u: "\<And>q'. qv_unregistered (view u q') = qv_unregistered (view s q')"
    and l: "length (waiting (view u q) w) < length (waiting (view s q) w)"
    and o: "\<And>q' w'. (q', w') \<noteq> (q, w) \<Longrightarrow> waiting (view u q') w' = waiting (view s q') w'"
  shows "backlog u < backlog s"
proof -
  have "live_queues (view u) = live_queues (view s)" by (simp add: live_queues_def u)
  moreover have eq: "length (waiting (view u q') kImmediate) + length (waiting (view u q') kDelayed) =
      length (waiting (view s q') kImmediate) + length (waiting (view s q') kDelayed)" if "q' \<noteq> q" for q'
    using o [of q'] that by simp
  moreover have "length (waiting (view u q) kImmediate) + length (waiting (view u q) kDelayed) <
      length (waiting (view s q) kImmediate) + length (waiting (view s q) kDelayed)"
    using l o [of q] by (cases w) simp_all
  moreover have "\<forall>q' \<in> live_queues (view s). length (waiting (view u q') kImmediate) + length (waiting (view u q') kDelayed) \<le>
      length (waiting (view s q') kImmediate) + length (waiting (view s q') kDelayed)"
    using calculation(3) eq by (metis less_imp_le order_refl)
  ultimately show ?thesis unfolding backlog_def 
    using sum_strict_mono_ex1 [OF f, of "\<lambda>q. length (waiting (view u q) kImmediate) + length (waiting (view u q) kDelayed)"
        "\<lambda>q. length (waiting (view s q) kImmediate) + length (waiting (view s q) kDelayed)"] q by auto
qed

lemma visible_task:
  assumes s: "sm_inv s" and e: "expected s (q, w) = Some (p, k)"
  shows "q \<in> live_queues (view s)" "waiting (view s q) w \<noteq> []" "qv_sets (view s q) w = Some w"
    "qv_tasks (view s q) w \<noteq> []"
proof -
  note I = sm_invD [OF s]
  show st: "qv_sets (view s q) w = Some w" using e by (auto simp: expected_def view_reads split: if_splits)
  then show "q \<in> live_queues (view s)" using I(3) [of q] by (auto simp: placed_def live_queues_def)
  show "qv_tasks (view s q) w \<noteq> []" using e expected_list [OF I(1), of "(q, w)"] by (auto simp: view_reads split: list.splits)
  then show "waiting (view s q) w \<noteq> []" by (simp add: waiting_def)
qed

lemma set_tasks_same: "set_tasks x (tasks (wq s x)) s = s"
  by (simp add: set_tasks_def upd_wq_def)

lemma nothing_removed:
  assumes "RemoveAllCanceledTasksFromFront x s = (False, u)"
  shows "u = s"
proof -
  have "pop_dead dead d = (False, e) \<Longrightarrow> e = d" for dead d e
    by (subst (asm) pop_dead.simps) (auto split: if_splits)
  then show ?thesis using assms set_tasks_same [of x s]
    by (auto simp: RemoveAllCanceledTasksFromFront_def Let_def split_beta split: if_splits) (metis prod.collapse)
qed

lemma line_eq:
  assumes "same_run s u" "non_nestable_task_queue u = non_nestable_task_queue s"
    "\<And>q w. filter (\<lambda>t. \<not> task_is_dead s t) (waiting (view u q) w) = filter (\<lambda>t. \<not> task_is_dead s t) (waiting (view s q) w)"
  shows "line u = line s"
  using assms same_runD(1) [OF assms(1)] by (auto simp: line_def fun_eq_iff)

lemma front_task_view:
  assumes "sm_inv s" "qv_tasks (view s q) w = t # ts"
  shows "GetFrontTask (wq s (q, w)) = Some t"
  using assms(2) queues_okD2(1) [OF sm_invD(1) [OF assms(1)], of "(q, w)"] by (auto simp: GetFrontTask_def deque_specs view_reads)

text \<open>The outcome of the loop.\<close>

definition took :: "sched \<Rightarrow> Task option \<Rightarrow> sched \<Rightarrow> bool" where
  "took s r u \<longleftrightarrow> sm_inv u \<and> same_run s u \<and>
     (case r of None \<Rightarrow> (\<forall>x. expected u x = None) \<and> line u = line s
      | Some t \<Rightarrow> \<not> task_is_dead s t \<and> (task_nestable t = kNonNestable \<longrightarrow> nesting_depth s \<le> 0) \<and>
          (\<exists>x as bs. line s x = as @ t # bs \<and> line u = (line s)(x := as @ bs) \<and>
             as = filter (\<lambda>t. \<not> task_is_dead s t) (deferred_of x (non_nestable_task_queue u))))"

lemma took_after:
  assumes "same_run s t" "line t = line s" "took t r u"
  shows "took s r u"
  using assms(2,3) same_run_trans [OF assms(1)] same_runD [OF assms(1)] by (auto simp: took_def split: option.splits)

lemma defer_task_inv:
  assumes s: "sm_inv s" and e: "expected s x = Some (p, k)" and m: "GetOldestQueueInSet (snd x) p s = Some x"
  shows "sm_inv (defer_task dcheck x s)" "line (defer_task dcheck x s) = line s" "same_run s (defer_task dcheck x s)"
    "backlog (defer_task dcheck x s) < backlog s"
proof -
  obtain q w where x: "x = (q, w)" by (cases x)
  obtain r u where r: "TakeTaskFromWorkQueue dcheck (q, w) s = (r, u)" by (metis surj_pair)
  have m': "dcheck \<or> GetOldestQueueInSet w p s = Some (q, w)" using m x by simp
  obtain t where t: "r = Some t" "sm_inv (u\<lparr>non_nestable_task_queue := non_nestable_task_queue u @ [\<lparr>df_task = t, df_queue = q, df_type = w\<rparr>]\<rparr>)"
    "waiting (view s q) w = t # waiting (view u q) w" "\<And>q' w'. (q', w') \<noteq> (q, w) \<Longrightarrow> waiting (view u q') w' = waiting (view s q') w'"
    "non_nestable_task_queue u = non_nestable_task_queue s" "\<And>q'. qv_unregistered (view u q') = qv_unregistered (view s q')"
    using TakeTask_inv [OF s e [unfolded x] m' r] by metis
  let ?u = "u\<lparr>non_nestable_task_queue := non_nestable_task_queue u @ [\<lparr>df_task = t, df_queue = q, df_type = w\<rparr>]\<rparr>"
  have d: "defer_task dcheck x s = ?u" using r t(1) by (simp add: defer_task_def x)
  have v: "view (u\<lparr>non_nestable_task_queue := n\<rparr>) = view u" for n by (rule view_cong) simp_all
  have sr: "same_run s u" using same_run_take [of s dcheck x] r x by simp
  then show run: "same_run s (defer_task dcheck x s)" unfolding d by (simp add: same_run_def)
  show "sm_inv (defer_task dcheck x s)" unfolding d by (rule t(2))
  show "backlog (defer_task dcheck x s) < backlog s"
    by (rule backlog_less [OF sm_invD(7) [OF s] visible_task(1) [OF s e [unfolded x]], where w = w]) (simp_all add: d v t(3,4,6))
  show "line (defer_task dcheck x s) = line s"
  proof
    fix y
    show "line (defer_task dcheck x s) y = line s y"
      using t(3) t(4) [of "fst y" "snd y"] same_runD(1) [OF run]
      by (cases "y = (q, w)") (auto simp: line_def d v t(5) deferred_of_snoc)
  qed
qed

lemma begin_task_took:
  assumes s: "sm_inv s" and e: "expected s x = Some (p, k)" and m: "GetOldestQueueInSet (snd x) p s = Some x"
    and h: "qv_tasks (view s (fst x)) (snd x) = t # ts" "\<not> task_is_dead s t" "task_nestable t = kNonNestable \<longrightarrow> nesting_depth s \<le> 0"
    and r: "begin_task dcheck x s = (t', u)"
  shows "took s (Some t') u"
proof -
  obtain q w where x: "x = (q, w)" by (cases x)
  obtain r v where r': "TakeTaskFromWorkQueue dcheck (q, w) s = (r, v)" by (metis surj_pair)
  have m': "dcheck \<or> GetOldestQueueInSet w p s = Some (q, w)" using m x by simp
  obtain t0 where t: "r = Some t0" "sm_inv v"
    "waiting (view s q) w = t0 # waiting (view v q) w" "\<And>q' w'. (q', w') \<noteq> (q, w) \<Longrightarrow> waiting (view v q') w' = waiting (view s q') w'"
    "non_nestable_task_queue v = non_nestable_task_queue s"
    using TakeTask_inv [OF s e [unfolded x] m' r'] by metis
  have t0: "t0 = t" using t(3) h(1) x by (simp add: waiting_def)
  let ?et = "\<lparr>et_task = t0, et_queue = q, et_priority = GetQueuePriority q v\<rparr>"
  have u': "t' = t0" "u = NotifyWillProcessTask ?et (v\<lparr>task_execution_stack := task_execution_stack v @ [?et]\<rparr>)"
    using r r' t(1) by (auto simp: begin_task_def x Let_def)
  have u: "t' = t0" "view u = view v" "non_nestable_task_queue u = non_nestable_task_queue v"
      "enqueue_order_generator u = enqueue_order_generator v" "empty_queues_to_reload u = empty_queues_to_reload v"
      "same_run v u" "queues_ok u" "in_sync u"
    using u' view_cong [of u v] sync_cong(2) [of u v] sm_invD(1,2) [OF t(2)]
    by (auto simp: NotifyWillProcessTask_def same_run_def queues_ok_def)
  have sr: "same_run s v" using same_run_take [of s dcheck x] r' x by simp
  have inv: "sm_inv u" by (rule sm_inv_same [OF t(2) _ u(7,8)]) (simp add: same_view_def u)
  let ?as = "filter (\<lambda>t. \<not> task_is_dead s t) (deferred_of (q, w) (non_nestable_task_queue s))"
  let ?bs = "filter (\<lambda>t. \<not> task_is_dead s t) (waiting (view v q) w)"
  have run: "same_run s u" by (rule same_run_trans [OF sr u(6)])
  have 1: "line s (q, w) = ?as @ t # ?bs" using t(3) t0 h(2) by (simp add: line_def)
  have "line u y = ((line s)((q, w) := ?as @ ?bs)) y" for y
    using t(4) [of "fst y" "snd y"] same_runD(1) [OF run] by (cases "y = (q, w)") (auto simp: line_def u t(5))
  then have 2: "line u = (line s)((q, w) := ?as @ ?bs)" by (rule ext)
  have 3: "?as = filter (\<lambda>t. \<not> task_is_dead s t) (deferred_of (q, w) (non_nestable_task_queue u))" by (simp add: u t)
  show ?thesis using inv run h(2,3) 1 2 3 unfolding took_def u(1) t0 by auto
qed

theorem take_loop_took:
  assumes "sm_inv s" "backlog s \<le> fuel"
  shows "\<exists>r u. take_loop fuel dcheck s = Some (r, u) \<and> took s r u"
  using assms
proof (induction fuel arbitrary: s rule: less_induct)
  case (less fuel)
  note s = less.prems(1)
  note I = sm_invD [OF s]
  obtain r s1 where r: "SelectWorkQueueToService s = (r, s1)" by (metis surj_pair)
  have s1: "sm_inv s1" "same_view s s1" "same_run s s1" "expected s1 = expected s"
    using frames_inv(3) [OF s] Select_view [of s] Select_sync(2) [OF I(2)] same_run_select [of s] r by simp_all
  note v1 = same_viewD [OF s1(2)]
  have l1: "line s1 = line s" by (rule line_eq [OF s1(3)]) (simp_all add: v1)
  have b1: "backlog s1 = backlog s" by (simp add: backlog_def v1)
  show ?case
  proof (cases r)
    case None
    then have "\<forall>x. expected s1 x = None" using Select_none [OF I(2)] r s1(4) by simp
    then have "took s None s1" using s1 l1 by (simp add: took_def)
    then show ?thesis using None r by (subst take_loop.simps) simp
  next
    case (Some x)
    obtain p k where e: "expected s1 x = Some (p, k)" and m: "GetOldestQueueInSet (snd x) p s1 = Some x"
      using Select_choice [OF I(2)] r Some by metis
    obtain q w where x: "x = (q, w)" by (cases x)
    note vis = visible_task [OF s1(1) e [unfolded x]]
    obtain b s2 where rm: "RemoveAllCanceledTasksFromFront x s1 = (b, s2)" by (metis surj_pair)
    note R = RemoveAllCanceled_inv [OF s1(1) rm [unfolded x]]
    have run2: "same_run s s2" using same_run_trans [OF s1(3) same_run_remove] rm by (metis snd_conv)
    show ?thesis
    proof (cases b)
      case True
      obtain dead where dead: "waiting (view s1 q) w = dead @ waiting (view s2 q) w" "list_all (task_is_dead s1) dead" "dead \<noteq> []"
        using R(3) True by blast
      have bl: "backlog s2 < backlog s"
        unfolding b1 [symmetric] by (rule backlog_less [OF sm_invD(7) [OF s1(1)] vis(1), where w = w])
          (use R(4,8) dead(1,3) in simp_all)
      have "line s2 = line s1"
      proof (rule line_eq)
        show "same_run s1 s2" using same_run_remove [of s1 x] rm by simp
        show "filter (\<lambda>t. \<not> task_is_dead s1 t) (waiting (view s2 q') w') = filter (\<lambda>t. \<not> task_is_dead s1 t) (waiting (view s1 q') w')" for q' w'
          using R(4) [of q' w'] dead by (cases "(q', w') = (q, w)") (auto simp: list_all_iff filter_empty_conv)
      qed (rule R(5))
      moreover obtain f where f: "fuel = Suc f" "backlog s2 \<le> f" using bl less.prems(2) by (cases fuel) auto
      moreover obtain r' u where "take_loop f dcheck s2 = Some (r', u)" "took s2 r' u"
        using less.IH [of f s2] R(1) f by blast
      ultimately have "take_loop fuel dcheck s = Some (r', u)" "took s r' u"
        using r Some rm True took_after [OF run2, of r' u] l1 by ((subst take_loop.simps, simp), simp)
      then show ?thesis by blast
    next
      case False
      then have s2: "s2 = s1" using nothing_removed rm by simp
      obtain t ts where t: "qv_tasks (view s1 q) w = t # ts" using vis(4) by (cases "qv_tasks (view s1 q) w") auto
      have alive: "\<not> task_is_dead s1 t" using R(2) False vis(3) t by simp
      have ft: "GetFrontTask (wq s1 x) = Some t" unfolding x by (rule front_task_view [OF s1(1) t])
      show ?thesis
      proof (cases "task_nestable t = kNonNestable \<and> 0 < nesting_depth s1")
        case True
        note D = defer_task_inv [OF s1(1) e m, of dcheck]
        obtain f where f: "fuel = Suc f" "backlog (defer_task dcheck x s1) \<le> f"
          using D(4) b1 less.prems(2) by (cases fuel) auto
        then obtain r' u where "take_loop f dcheck (defer_task dcheck x s1) = Some (r', u)" "took (defer_task dcheck x s1) r' u"
          using less.IH [of f] D(1) by blast
        then have "take_loop fuel dcheck s = Some (r', u)" "took s r' u"
          using r Some rm False s2 ft True f(1) took_after [OF same_run_trans [OF s1(3) D(3)], of r' u] D(2) l1
          by ((subst take_loop.simps, simp), simp)
        then show ?thesis by blast
      next
        case nn: False
        obtain t' u where b: "begin_task dcheck x s1 = (t', u)" by (metis surj_pair)
        have "took s1 (Some t') u" by (rule begin_task_took [OF s1(1) e m _ alive _ b]) (use t nn x in auto)
        then have "took s (Some t') u" by (rule took_after [OF s1(3) l1])
        moreover have "take_loop fuel dcheck s = Some (Some t', u)"
          using r Some rm False s2 ft nn b by (subst take_loop.simps) auto
        ultimately show ?thesis by blast
      qed
    qed
  qed
qed

end
