(* ===== verification/Manager_Steps.thy ===== *)
theory Manager_Steps
  imports Manager_Loop
begin

text \<open>
  The scheduler as a transition system: the operations that its clients and its own loop call, each
  where the code may call it. Every reachable state satisfies the invariant of the scheduler, and the
  manager's list of active queues holds exactly the queues that are registered.
\<close>

declare split_paired_All [simp del] split_paired_Ex [simp del]

section \<open>Frames\<close>

named_theorems same_run_ops

lemma same_run_base [same_run_ops]:
  "same_run s t \<Longrightarrow> same_run s (upd_wq x f t)" "(\<And>a. tq_unregistered (g a) = tq_unregistered a \<and> task_poster (g a) = task_poster a) \<Longrightarrow> same_run s t \<Longrightarrow> same_run s (upd_tq q g t)"
  "same_run s t \<Longrightarrow> same_run s (set_tasks x d t)" "same_run s t \<Longrightarrow> same_run s (emit e t)"
  "same_run s t \<Longrightarrow> same_run s (upd_delayed q h t)" "same_run s t \<Longrightarrow> same_run s (t\<lparr>enqueue_order_generator := n\<rparr>)"
  "same_run s t \<Longrightarrow> same_run s (t\<lparr>empty_queues_to_reload := F\<rparr>)"
  by (simp_all add: same_run_def upd_wq_def upd_tq_def set_tasks_def emit_def upd_delayed_def)

lemma same_run_sets_ops [same_run_ops]:
  "same_run s t \<Longrightarrow> same_run s (OnQueuesFrontTaskChanged w x t)" "same_run s t \<Longrightarrow> same_run s (OnTaskPushedToEmptyQueue w x t)"
  "same_run s t \<Longrightarrow> same_run s (OnQueueBlocked w x t)"
  "same_run s t \<Longrightarrow> same_run s (SetNextWakeUpForQueue d q wu r now t)"
  by (rule same_run_trans, assumption, rule same_run_sets same_run_wake, rule sets_ops_frame SetNextWakeUp_frame)+

lemma same_run_small [same_run_ops]:
  "same_run s t \<Longrightarrow> same_run s (ScheduleWork t)" "same_run s t \<Longrightarrow> same_run s (run_wake_up_callback q n t)"
  "same_run s t \<Longrightarrow> same_run s (UpdateCrossThreadQueueStateLocked q t)" "same_run s t \<Longrightarrow> same_run s (InsertFenceSilently x f t)"
  "same_run s t \<Longrightarrow> same_run s (snd (GetNextSequenceNumber t))" "same_run s t \<Longrightarrow> same_run s (UnregisterQueue d q t)"
  "same_run s t \<Longrightarrow> same_run s (notify_pushed_to_empty x t)" "same_run s t \<Longrightarrow> same_run s (notify_front_changed x t)"
  "same_run s t \<Longrightarrow> same_run s (set_flag_active b q t)" "same_run s t \<Longrightarrow> same_run s (wq_MaybeShrinkQueue x t)"
  unfolding ScheduleWork_def run_wake_up_callback_def UpdateCrossThreadQueueStateLocked_def InsertFenceSilently_def
    InsertFenceImpl_def GetNextSequenceNumber_def UnregisterQueue_def notify_pushed_to_empty_def notify_front_changed_def
    set_flag_active_def wq_MaybeShrinkQueue_def Let_def split_beta
  by (auto intro!: same_run_ops split: option.split)

lemma same_run_fences [same_run_ops]:
  "same_run s t \<Longrightarrow> same_run s (snd (wq_InsertFence x f t))" "same_run s t \<Longrightarrow> same_run s (snd (wq_RemoveFence x t))"
  unfolding wq_InsertFence_def wq_RemoveFence_def InsertFenceImpl_def Let_def split_beta
  by (auto intro!: same_run_ops split: option.split)

lemma same_run_wake_up [same_run_ops]: "same_run s t \<Longrightarrow> same_run s (UpdateDelayedWakeUp q now t)"
  unfolding UpdateDelayedWakeUp_def UpdateDelayedWakeUpImpl_def Let_def
  by (auto intro!: same_run_ops split: option.split)

lemma same_run_tq_fences [same_run_ops]:
  "same_run s t \<Longrightarrow> same_run s (tq_InsertFence q p t)" "same_run s t \<Longrightarrow> same_run s (tq_RemoveFence q t)"
  unfolding tq_InsertFence_def tq_RemoveFence_def Let_def split_beta
  by (cases "p = kNow"; auto intro!: same_run_ops)+

lemma same_run_reload [same_run_ops]:
  "same_run s t \<Longrightarrow> same_run s (tq_TakeImmediateIncomingQueueTasks q t)"
  "same_run s t \<Longrightarrow> same_run s (ReloadEmptyImmediateWorkQueue q t)"
proof -
  show *: "same_run s t \<Longrightarrow> same_run s (tq_TakeImmediateIncomingQueueTasks q t)" for t
    unfolding tq_TakeImmediateIncomingQueueTasks_def activate_delayed_fence_def Let_def split_beta
    by (auto intro!: same_run_ops split: option.split)
  show "same_run s t \<Longrightarrow> same_run s (ReloadEmptyImmediateWorkQueue q t)"
    unfolding ReloadEmptyImmediateWorkQueue_def wq_TakeImmediateIncomingQueueTasks_def Let_def
    by (auto intro!: same_run_ops *)
qed

lemma same_run_selector [same_run_ops]:
  "same_run s t \<Longrightarrow> same_run s (AddQueueImpl q p t)" "same_run s t \<Longrightarrow> same_run s (RemoveQueueImpl q t)"
  "same_run s t \<Longrightarrow> same_run s (SetQueuePriority q p t)"
proof -
  have a: "same_run s t \<Longrightarrow> same_run s (AssignSetIndex x p t)" "same_run s t \<Longrightarrow> same_run s (AssignToWorkQueueSets x y t)" for x p y t
    unfolding AssignSetIndex_def AssignToWorkQueueSets_def by (rule same_run_ops, assumption)+
  have "same_run s t \<Longrightarrow> same_run s (wqs_AddQueue w x p t)" "same_run s t \<Longrightarrow> same_run s (wqs_RemoveQueue w x t)" for w x p t
    unfolding wqs_AddQueue_def wqs_RemoveQueue_def Let_def
    by (auto intro!: a same_run_trans [OF _ same_run_sets [OF notify_frame(1)]] same_run_trans [OF _ same_run_sets [OF notify_frame(2)]] split: option.split)
  moreover have "same_run s t \<Longrightarrow> same_run s (wqs_ChangeSetIndex w x p t)" for w x p t
    by (rule same_run_trans [OF a(1) same_run_sets [OF ChangeSetIndex_frame]])
  ultimately show "same_run s t \<Longrightarrow> same_run s (AddQueueImpl q p t)" "same_run s t \<Longrightarrow> same_run s (RemoveQueueImpl q t)"
    "same_run s t \<Longrightarrow> same_run s (SetQueuePriority q p t)"
    unfolding AddQueueImpl_def RemoveQueueImpl_def SetQueuePriority_def sel_SetQueuePriority_def sel_ChangeSetIndex_def
    by (auto intro!: a)
qed

lemma same_run_manage [same_run_ops]:
  "same_run s t \<Longrightarrow> same_run s (SetQueueEnabled q b t)" "same_run s t \<Longrightarrow> same_run s (tq_ReclaimMemory q now t)"
  "same_run s t \<Longrightarrow> same_run s (SetTimeDomain q d t)" "same_run s t \<Longrightarrow> same_run s (tq_DeletePendingTasks q t)"
  unfolding SetQueueEnabled_def EnableOrDisableWithSelector_def sel_EnableQueue_def sel_DisableQueue_def OnTaskQueueEnabled_def
    tq_ReclaimMemory_def SetTimeDomain_def tq_DeletePendingTasks_def wq_DeletePendingTasks_def Let_def
  by (auto intro!: same_run_ops split: option.split)

lemma same_run_requeue: "requeue_back ds t = Some u \<Longrightarrow> same_run s t \<Longrightarrow> same_run s u"
proof (induction ds arbitrary: t)
  case (Cons d ds)
  have p: "same_run s t \<Longrightarrow> same_run s (PushNonNestableTaskToFront x u t)" for x u t
    unfolding PushNonNestableTaskToFront_def Let_def by (auto intro!: same_run_ops split: option.split)
  have r: "same_run s (requeue_to_front d t)"
    using Cons.prems(2) unfolding requeue_to_front_def Let_def by (auto intro!: p same_run_ops)
  have "same_run s (v\<lparr>non_nestable_task_queue := n\<rparr>)" if "same_run s v" for v n using that by (simp add: same_run_def)
  then show ?case using Cons r by (auto simp: RequeueDeferredNonNestableTask_def split: if_splits)
qed simp

lemma same_run_post:
  assumes "tq_PostTask q posted thread s = Some u"
  shows "same_run s u"
proof -
  have im: "PostImmediateTaskImpl q p t = Some u \<Longrightarrow> same_run s t \<Longrightarrow> same_run s u" for p t
    unfolding PostImmediateTaskImpl_def Let_def split_beta by (auto split: if_splits intro!: same_run_ops)
  show ?thesis
    using assms im unfolding tq_PostTask_def PostDelayedTaskImpl_def PushOntoDelayedIncomingQueue_def Let_def split_beta
      PushOntoDelayedIncomingQueueFromMainThread_def
    by (auto split: if_splits current_thread.splits intro!: same_run_ops same_run_refl)
qed

lemma same_run_move [same_run_ops]: "same_run s t \<Longrightarrow> same_run s (MoveReadyDelayedTasksToWorkQueue q now t)"
proof -
  have "same_run s t \<Longrightarrow> same_run s (move_due q x t)" for x t
    unfolding move_due_def ActivateDelayedFenceIfNeeded_def TaskPusher_Push_def Let_def split_beta
    by (auto intro!: same_run_ops split: option.split)
  then have m: "same_run s t \<Longrightarrow> same_run s (move_ready q now t)"
  proof (induction q now t rule: move_ready.induct)
    case (1 q now t)
    then show ?case by (subst move_ready.simps) (auto simp: Let_def intro!: same_run_ops)
  qed
  have d: "same_run s t \<Longrightarrow> same_run s (TaskPusher_destroy x b t)" for x b t
    by (rule same_run_trans [OF _ same_run_sets [OF TaskPusher_destroy_frame]])
  show "same_run s t \<Longrightarrow> same_run s (MoveReadyDelayedTasksToWorkQueue q now t)"
    unfolding MoveReadyDelayedTasksToWorkQueue_def Let_def by (auto intro!: d same_run_ops m)
qed

lemma same_run_reload_all: "same_run s (ReloadEmptyWorkQueues s)"
proof -
  have "same_run s t \<Longrightarrow> same_run s (fold run_reload cs t)" for cs t
    by (induction cs arbitrary: t) (auto simp: run_reload_def intro!: same_run_ops split: option.split)
  then show ?thesis unfolding ReloadEmptyWorkQueues_def Let_def split_beta by (simp add: same_run_base(7) same_run_refl)
qed

section \<open>The transition system\<close>

text \<open>\<open>s\<close> becomes \<open>t\<close>: a client or the manager's loop calls one operation; \<open>post\<close> is what a poster that
  holds its token does, \<open>guarded_post\<close> the whole of \<open>GuardedTaskPoster::PostTask\<close> of a queue that has been
  created. A handle is used only while its queue is registered, a queue handed to graceful shutdown has no
  other owner, a cancelled flag is never lowered again, the 64-bit counter does not run out, and a nested
  loop that would read the null work queue of an unregistered queue has no step.
  One operation of the clients is missing: no delayed fence is set with \<open>InsertFenceAt\<close>. When an
  incoming task turns a delayed fence into a current one, \<open>TakeImmediateIncomingQueueTasks\<close> does not tell
  the selector that the delayed work queue may be blocked, and its heaps go stale.\<close>

inductive sm_step :: "sched \<Rightarrow> sched \<Rightarrow> bool" where
  create: "tq_unregistered (tq s q) \<Longrightarrow> sm_step s (CreateTaskQueueImpl q spec s)"
| post: "tq_PostTask q posted thread s = Some u \<Longrightarrow> counter_room 2 s \<Longrightarrow> sm_step s u"
| guarded_post: "task_poster (tq s q) \<noteq> OperationsController_new \<Longrightarrow>
    GuardedTaskPoster_PostTask q posted thread s = Some (accepted, u) \<Longrightarrow> (accepted \<Longrightarrow> counter_room 2 s) \<Longrightarrow> sm_step s u"
| delayed_work: "\<not> tq_unregistered (tq s q) \<Longrightarrow> counter_room (length (di_queue (delayed_incoming_queue (tq s q))) + 1) s \<Longrightarrow>
    sm_step s (ScheduleDelayedWorkTask q pending s)"
| insert_fence: "counter_room 1 s \<Longrightarrow> sm_step s (tq_InsertFence q p s)"
| remove_fence: "sm_step s (tq_RemoveFence q s)"
| enable: "\<not> tq_unregistered (tq s q) \<Longrightarrow> sm_step s (SetQueueEnabled q b s)"
| priority: "\<not> tq_unregistered (tq s q) \<Longrightarrow> p < kQueuePriorityCount \<Longrightarrow> sm_step s (SetQueuePriority q p s)"
| time_domain: "sm_step s (SetTimeDomain q d s)"
| wake_up_callback: "\<not> tq_unregistered (tq s q) \<Longrightarrow> sm_step s (SetOnNextWakeUpChangedCallback q b s)"
| delete_tasks: "sm_step s (tq_DeletePendingTasks q s)"
| delete_all_tasks: "sm_DeletePendingTasks s = Some t \<Longrightarrow> sm_step s t"
| drop_cancelled: "sm_step s (RemoveAllCanceledTasksFromFrontOfWorkQueues s)"
| cancel: "\<forall>i. cancelled s i \<longrightarrow> c i \<Longrightarrow> sm_step s (s\<lparr>cancelled := c\<rparr>)"
| tick: "sm_step s (s\<lparr>clock := now\<rparr>)"
| queue_times: "sm_step s (SetAddQueueTimeToTasks b s)"
| register_domain: "sm_step s (RegisterTimeDomain d s)"
| unregister_domain: "sm_step s (UnregisterTimeDomain d s)"
| quiescence: "sm_step s (snd (GetAndClearSystemIsQuiescentBit s))"
| shutdown: "\<not> tq_unregistered (tq s q) \<Longrightarrow> sm_step s (ShutdownTaskQueueGracefully q s)"
| unregister: "\<not> tq_unregistered (tq s q) \<Longrightarrow> q \<notin> set (queues_to_gracefully_shutdown s) \<Longrightarrow>
    sm_step s (UnregisterTaskQueueImpl q s)"
| begin_nested: "sm_step s (OnBeginNestedRunLoop s)"
| exit_nested: "0 < nesting_depth s \<Longrightarrow> OnExitNestedRunLoop s = Some t \<Longrightarrow> sm_step s t"
| reload: "sm_step s (ReloadEmptyWorkQueues s)"
| move_ready: "counter_room (length (di_queue (delayed_incoming_queue (tq s q)))) s \<Longrightarrow>
    sm_step s (MoveReadyDelayedTasksToWorkQueue q now s)"
| reclaim_due: "sm_step s (s\<lparr>memory_reclaim_scheduled := True\<rparr>)"
| take: "backlog s \<le> fuel \<Longrightarrow> take_loop fuel dcheck s = Some (r, u) \<Longrightarrow> sm_step s u"
| did_run: "sm_step s (DidRunTask s)"
| reclaim: "sm_step s (MaybeReclaimMemory s)"

inductive_cases sm_stepE: "sm_step s t"

inductive reachable :: "sched \<Rightarrow> bool" where
  start: "reachable (SequenceManagerImpl_new now add_queue_time)"
| step: "reachable s \<Longrightarrow> sm_step s t \<Longrightarrow> reachable t"

text \<open>The poster of a queue that is no longer registered is shutting down.\<close>

definition closed_posters :: "sched \<Rightarrow> bool" where
  "closed_posters s \<longleftrightarrow>
     (\<forall>q. tq_unregistered (tq s q) \<longrightarrow> ExtractState (state_and_count (task_poster (tq s q))) = kShuttingDown \<or>
        task_poster (tq s q) = OperationsController_new)"

lemma closed_posters_cong: "task_queues t = task_queues s \<Longrightarrow> closed_posters t = closed_posters s"
  by (simp add: closed_posters_def)

definition world_inv :: "sched \<Rightarrow> bool" where
  "world_inv s \<longleftrightarrow> sm_inv s \<and> distinct (active_queues s) \<and> set (active_queues s) = live_queues (view s) \<and>
     distinct (queues_to_gracefully_shutdown s) \<and> set (queues_to_gracefully_shutdown s) \<subseteq> live_queues (view s) \<and> 0 \<le> nesting_depth s \<and>
     closed_posters s"

lemma world_same:
  assumes "world_inv s" "sm_inv u" "same_run s u"
  shows "world_inv u"
proof -
  have "closed_posters u" using assms(1,3) by (simp add: world_inv_def closed_posters_def same_run_def)
  then show ?thesis using assms(1,2) same_runD [OF assms(3)] by (simp add: world_inv_def)
qed

text \<open>Fields of the manager that its queues, its selector and its posters do not read.\<close>

lemma world_globals:
  assumes "world_inv s" "sm_inv t" "work_queues t = work_queues s" "task_queues t = task_queues s"
    "active_queues t = active_queues s" "queues_to_gracefully_shutdown t = queues_to_gracefully_shutdown s" "nesting_depth t = nesting_depth s"
  shows "world_inv t"
  using assms view_cong [OF assms(3,4)] by (simp add: world_inv_def closed_posters_def)

lemma sm_inv_globals:
  assumes "sm_inv s" "work_queues t = work_queues s" "task_queues t = task_queues s" "heap_handles t = heap_handles s"
    "work_queue_heaps t = work_queue_heaps s" "non_empty_set_counts t = non_empty_set_counts s"
    "active_priorities t = active_priorities s" "selection_count t = selection_count s"
    "non_nestable_task_queue t = non_nestable_task_queue s" "enqueue_order_generator t = enqueue_order_generator s"
    "empty_queues_to_reload t = empty_queues_to_reload s"
  shows "sm_inv t"
proof (rule sm_inv_same [OF assms(1)])
  show "same_view s t" using view_cong [OF assms(2,3)] assms by (simp add: same_view_def)
  show "queues_ok t" "in_sync t" using sm_invD(1,2) [OF assms(1)] sync_cong(2) [OF assms(2,4-8)] assms(2,3)
    by (simp_all add: queues_ok_def)
qed

lemma rejecting_count:
  assumes "ExtractState v = kRejectingOperations"
  shows "ExtractCount v = v" "v AND kShuttingDownBitMask = 0"
proof -
  have b: "\<not> bit v 31" "\<not> bit v 30"
    using assms unfolding ExtractState_def kShuttingDownBitMask_def kAcceptingOperationsBitMask_def push_bit_of_1 and_exp_eq_0_iff_not_bit
    by (auto split: if_splits)
  have "ExtractCount v = take_bit 30 v" by (simp add: ExtractCount_def kCountBitMask_mask take_bit_eq_mask)
  also have "\<dots> = v"
  proof (rule bit_word_eqI)
    fix n assume "n < LENGTH(32)"
    then have "n < 30 \<or> n = 30 \<or> n = 31" by auto
    then show "bit (take_bit 30 v) n \<longleftrightarrow> bit v n" using b by (auto simp: bit_take_bit_iff)
  qed
  finally show "ExtractCount v = v" .
  show "v AND kShuttingDownBitMask = 0"
    using b(1) unfolding kShuttingDownBitMask_def push_bit_of_1 and_exp_eq_0_iff_not_bit .
qed

lemma shutdown_poster_state: "ExtractState (state_and_count (shutdown_poster c)) = kShuttingDown"
proof -
  let ?v = "state_and_count c"
  have or: "ExtractState (?v OR kShuttingDownBitMask) = kShuttingDown"
    by (simp add: ExtractState_def kShuttingDownBitMask_def word_bw_comms(1) word_ao_dist2 bit.conj_disj_distrib)
  show ?thesis
  proof (cases "ExtractState ?v = kRejectingOperations")
    case True
    note c = rejecting_count [OF True]
    have "?v OR kShuttingDownBitMask = ?v + kShuttingDownBitMask" using c(2) by (rule disjunctive_add_eq_or [symmetric])
    then have "(?v OR kShuttingDownBitMask) - ExtractCount ?v = kShuttingDownBitMask" using c(1) by simp
    then show ?thesis using True by (simp add: shutdown_poster_def Shutdown_or_def DecrementBy_def Let_def ExtractState_def kShuttingDownBitMask_def)
  next
    case False
    then show ?thesis using or by (simp add: shutdown_poster_def Shutdown_or_def Let_def)
  qed
qed

text \<open>An attempt during shutdown undoes its increment and leaves the controller shutting down.\<close>

lemma TryBegin_refused:
  assumes "ExtractState (state_and_count c) = kShuttingDown" "TryBeginOperation c = (token, c')"
  shows "\<not> token" "state_and_count c' = state_and_count c"
  using assms by (auto simp: TryBeginOperation_def TryBegin_add_def DecrementBy_def Let_def split: if_splits)

lemma unregister_lists:
  "active_queues (UnregisterTaskQueueImpl q s) = removeAll q (active_queues s)"
  "queues_to_gracefully_shutdown (UnregisterTaskQueueImpl q s) = queues_to_gracefully_shutdown s"
  "nesting_depth (UnregisterTaskQueueImpl q s) = nesting_depth s"
  "live_queues (view (UnregisterTaskQueueImpl q s)) = live_queues (view s) - {q}"
proof -
  show "live_queues (view (UnregisterTaskQueueImpl q s)) = live_queues (view s) - {q}"
    by (auto simp: UnregisterTaskQueueImpl_view live_queues_def removed_queue_view_def)
  have r: "same_run s (sel_RemoveQueue q s)" by (simp add: sel_RemoveQueue_def same_run_refl same_run_selector)
  define t where "t = sel_RemoveQueue q s"
  have "active_queues (UnregisterQueue d q u) = active_queues u"
    "queues_to_gracefully_shutdown (UnregisterQueue d q u) = queues_to_gracefully_shutdown u"
    "nesting_depth (UnregisterQueue d q u) = nesting_depth u" for d u
    using same_runD [OF same_run_small(6) [OF same_run_refl]] by blast+
  then have "active_queues (UnregisterTaskQueue q t) = active_queues t"
    "queues_to_gracefully_shutdown (UnregisterTaskQueue q t) = queues_to_gracefully_shutdown t"
    "nesting_depth (UnregisterTaskQueue q t) = nesting_depth t"
    by (auto simp: UnregisterTaskQueue_def Let_def upd_delayed_def upd_wq_def upd_tq_def split: option.split)
  then show "active_queues (UnregisterTaskQueueImpl q s) = removeAll q (active_queues s)"
    "queues_to_gracefully_shutdown (UnregisterTaskQueueImpl q s) = queues_to_gracefully_shutdown s"
    "nesting_depth (UnregisterTaskQueueImpl q s) = nesting_depth s"
    using same_runD [OF r] by (simp_all add: UnregisterTaskQueueImpl_def Let_def t_def [symmetric])
qed

lemma unregister_closed:
  assumes "closed_posters s"
  shows "closed_posters (UnregisterTaskQueueImpl q s)"
proof -
  define t where "t = sel_RemoveQueue q s"
  have "same_run s t" by (simp add: t_def sel_RemoveQueue_def same_run_refl same_run_selector)
  then have t: "closed_posters t" using assms by (simp add: closed_posters_def same_run_def)
  have u: "task_poster (tq (UnregisterQueue d q v) a) = task_poster (tq v a)"
    "tq_unregistered (tq (UnregisterQueue d q v) a) = tq_unregistered (tq v a)" for d v a
    using same_run_small(6) [OF same_run_refl, of v d q] by (simp_all add: same_run_def)
  have p: "task_poster (tq (UnregisterTaskQueue q t) a) = (if a = q then shutdown_poster (task_poster (tq t q)) else task_poster (tq t a))" for a
    by (auto simp: UnregisterTaskQueue_def Let_def upd_delayed_def u split: option.split)
  have r: "tq_unregistered (tq (UnregisterTaskQueue q t) a) \<longleftrightarrow> a = q \<or> tq_unregistered (tq t a)" for a
    by (auto simp: UnregisterTaskQueue_def Let_def upd_delayed_def u split: option.splits if_splits)
  have "task_queues (UnregisterTaskQueueImpl q s) = task_queues (UnregisterTaskQueue q t)"
    by (simp add: UnregisterTaskQueueImpl_def Let_def t_def)
  then show ?thesis using t shutdown_poster_state by (simp add: closed_posters_def p r)
qed

lemma create_lists:
  "active_queues (CreateTaskQueueImpl q spec s) = List.insert q (active_queues s)"
  "queues_to_gracefully_shutdown (CreateTaskQueueImpl q spec s) = queues_to_gracefully_shutdown s"
  "nesting_depth (CreateTaskQueueImpl q spec s) = nesting_depth s"
  "live_queues (view (CreateTaskQueueImpl q spec s)) = insert q (live_queues (view s))"
proof -
  obtain f a where f: "AddFlag q (empty_queues_to_reload s) = (f, a)" by (metis surj_pair)
  show "live_queues (view (CreateTaskQueueImpl q spec s)) = insert q (live_queues (view s))"
    unfolding Create_view(1) [OF f] by (auto simp: live_queues_def new_queue_view_def)
  define d where "d = (case spec_time_domain spec of Some d \<Rightarrow> d | None \<Rightarrow> 0)"
  define t where "t = TaskQueueImpl_new q d spec s"
  have t: "active_queues t = active_queues s" "queues_to_gracefully_shutdown t = queues_to_gracefully_shutdown s"
    "nesting_depth t = nesting_depth s"
    by (simp_all add: t_def TaskQueueImpl_new_def GetFlagToRequestReloadForEmptyQueue_def Let_def split_beta
        UpdateCrossThreadQueueStateLocked_def upd_wq_def upd_tq_def)
  have eq: "CreateTaskQueueImpl q spec s = AddQueueImpl q kNormalPriority (t\<lparr>active_queues := List.insert q (active_queues t)\<rparr>)"
    by (simp add: CreateTaskQueueImpl_def Let_def sel_AddQueue_def d_def t_def)
  show "active_queues (CreateTaskQueueImpl q spec s) = List.insert q (active_queues s)"
    "queues_to_gracefully_shutdown (CreateTaskQueueImpl q spec s) = queues_to_gracefully_shutdown s"
    "nesting_depth (CreateTaskQueueImpl q spec s) = nesting_depth s"
    using same_runD [OF same_run_selector(1) [OF same_run_refl]] t by (simp_all add: eq)
qed

lemma create_closed:
  assumes "closed_posters s"
  shows "closed_posters (CreateTaskQueueImpl q spec s)"
proof -
  define d where "d = (case spec_time_domain spec of Some d \<Rightarrow> d | None \<Rightarrow> 0)"
  define t where "t = TaskQueueImpl_new q d spec s"
  have "task_queues t a = task_queues s a" if "a \<noteq> q" for a
    using that by (simp add: t_def TaskQueueImpl_new_def GetFlagToRequestReloadForEmptyQueue_def Let_def split_beta
        UpdateCrossThreadQueueStateLocked_def upd_wq_def upd_tq_def)
  moreover have "\<not> tq_unregistered (task_queues t q)"
    by (simp add: t_def TaskQueueImpl_new_def GetFlagToRequestReloadForEmptyQueue_def Let_def split_beta
        UpdateCrossThreadQueueStateLocked_def upd_wq_def upd_tq_def)
  ultimately have "closed_posters t" using assms unfolding closed_posters_def by metis
  then have t: "closed_posters (t\<lparr>active_queues := List.insert q (active_queues t)\<rparr>)" by (simp add: closed_posters_def)
  have "CreateTaskQueueImpl q spec s = AddQueueImpl q kNormalPriority (t\<lparr>active_queues := List.insert q (active_queues t)\<rparr>)"
    by (simp add: CreateTaskQueueImpl_def Let_def sel_AddQueue_def d_def t_def)
  then show ?thesis using t same_run_selector(1) [OF same_run_refl, of "t\<lparr>active_queues := List.insert q (active_queues t)\<rparr>" q kNormalPriority]
    by (simp add: closed_posters_def same_run_def)
qed

lemma unregister_world:
  assumes w: "world_inv s" and q: "\<not> tq_unregistered (tq s q)"
  shows "world_inv ((UnregisterTaskQueueImpl q s)\<lparr>active_queues := removeAll q (active_queues (UnregisterTaskQueueImpl q s)),
    queues_to_gracefully_shutdown := removeAll q (queues_to_gracefully_shutdown s)\<rparr>)" (is "world_inv ?t")
proof -
  have "sm_inv (UnregisterTaskQueueImpl q s)" using w q Unregister_inv by (simp add: world_inv_def)
  then have "sm_inv ?t" by (rule sm_inv_globals) simp_all
  moreover have "view ?t = view (UnregisterTaskQueueImpl q s)" by (rule view_cong) simp_all
  moreover have "closed_posters ?t" using w unregister_closed [of s q] by (simp add: world_inv_def closed_posters_def)
  ultimately show ?thesis using w unregister_lists [of q s] by (auto simp: world_inv_def distinct_removeAll)
qed

lemma clean_up_world:
  assumes "world_inv s" "distinct qs" "set qs \<subseteq> live_queues (view s)"
  shows "world_inv (clean_up qs s)"
  using assms
proof (induction qs arbitrary: s)
  case (Cons q qs)
  show ?case
  proof (cases "tq_IsEmpty q s")
    case True
    let ?t = "(UnregisterTaskQueueImpl q s)\<lparr>active_queues := removeAll q (active_queues (UnregisterTaskQueueImpl q s)),
      queues_to_gracefully_shutdown := removeAll q (queues_to_gracefully_shutdown s)\<rparr>"
    have q: "\<not> tq_unregistered (tq s q)" using Cons.prems(3) by (simp add: live_queues_def view_reads)
    have "clean_up (q # qs) s = clean_up qs ?t" using True by (simp add: Let_def unregister_lists)
    moreover have "view ?t = view (UnregisterTaskQueueImpl q s)" by (rule view_cong) simp_all
    ultimately show ?thesis using Cons.IH [OF unregister_world [OF Cons.prems(1) q]] Cons.prems(2,3) unregister_lists(4) [of q s] by auto
  next
    case False
    then show ?thesis using Cons by simp
  qed
qed simp

lemma reclaim_queue_inv:
  assumes "sm_inv s"
  shows "sm_inv (ReclaimMemoryFromQueue q s)" "same_run s (ReclaimMemoryFromQueue q s)"
proof -
  have "sm_inv (snd (RemoveAllCanceledTasksFromFront (q, w) t))" if "sm_inv t" for w t
    using RemoveAllCanceled_inv(1) [OF that, of q w] by (metis surj_pair snd_conv)
  then show "sm_inv (ReclaimMemoryFromQueue q s)"
    unfolding ReclaimMemoryFromQueue_def Let_def using frames_inv(1) [OF assms] by blast
  show "same_run s (ReclaimMemoryFromQueue q s)"
    unfolding ReclaimMemoryFromQueue_def Let_def
    by (intro same_run_trans [OF _ same_run_remove] same_run_manage(2) same_run_refl)
qed

lemma reclaim_fold: "sm_inv s \<Longrightarrow> sm_inv (fold ReclaimMemoryFromQueue qs s) \<and> same_run s (fold ReclaimMemoryFromQueue qs s)"
  by (induction qs arbitrary: s) (auto simp: same_run_refl intro: reclaim_queue_inv same_run_trans)

lemma reclaim_world:
  assumes w: "world_inv s"
  shows "world_inv (MaybeReclaimMemory s)"
proof -
  have "sm_inv s" using w by (simp add: world_inv_def)
  then have "sm_inv (sm_ReclaimMemory s) \<and> same_run s (sm_ReclaimMemory s)"
    unfolding sm_ReclaimMemory_def Let_def using reclaim_fold same_run_trans by blast
  then have t: "world_inv (sm_ReclaimMemory s)" using world_same [OF w] by blast
  show ?thesis
  proof (cases "memory_reclaim_scheduled s")
    case True
    let ?t = "sm_ReclaimMemory s"
    let ?u = "?t\<lparr>next_time_to_reclaim_memory := ticks_plus (clock ?t 0) kReclaimMemoryInterval, memory_reclaim_scheduled := False\<rparr>"
    have "sm_inv ?u" by (rule sm_inv_globals [of ?t]) (use t in \<open>simp_all add: world_inv_def\<close>)
    then have "world_inv ?u" by (rule world_same [OF t]) (simp add: same_run_def)
    then show ?thesis using True by (simp add: MaybeReclaimMemory_def Let_def)
  next
    case False
    then show ?thesis using w by (simp add: MaybeReclaimMemory_def)
  qed
qed

lemma exit_nested_world:
  assumes w: "world_inv s" and n: "0 < nesting_depth s" and t: "OnExitNestedRunLoop s = Some t"
  shows "world_inv t"
proof -
  let ?s = "s\<lparr>nesting_depth := nesting_depth s - 1\<rparr>"
  have i: "sm_inv ?s" by (rule sm_inv_globals [of s]) (use w in \<open>simp_all add: world_inv_def\<close>)
  have "view ?s = view s" by (rule view_cong) simp_all
  then have w1: "world_inv ?s" using w n i by (simp add: world_inv_def closed_posters_def)
  have "world_inv u" if "requeue_deferred ?s = Some u" for u
    using world_same [OF w1 requeue_deferred_inv(2) [OF i that]] same_run_requeue [OF that [unfolded requeue_deferred_def] same_run_refl]
    by simp
  then show ?thesis using w1 t by (cases "nesting_depth s = 1") (simp_all add: OnExitNestedRunLoop_def Let_def)
qed

lemma did_run_world:
  assumes w: "world_inv s"
  shows "world_inv (DidRunTask s)"
proof -
  have keep: "world_inv (t\<lparr>task_execution_stack := st\<rparr>)" "world_inv (t\<lparr>queues_to_delete := qs\<rparr>)" if "world_inv t" for t st qs
  proof -
    have i: "sm_inv t" using that by (simp add: world_inv_def)
    have "sm_inv (t\<lparr>task_execution_stack := st\<rparr>)" "sm_inv (t\<lparr>queues_to_delete := qs\<rparr>)" by (rule sm_inv_globals [OF i]; simp)+
    then show "world_inv (t\<lparr>task_execution_stack := st\<rparr>)" "world_inv (t\<lparr>queues_to_delete := qs\<rparr>)"
      by (auto intro: world_globals [OF that])
  qed
  have "world_inv (CleanUpQueues t)" if "world_inv t" for t
    unfolding CleanUpQueues_def using that by (intro keep(2) clean_up_world) (simp_all add: world_inv_def)
  then show ?thesis using keep(1) [OF w] by (simp add: DidRunTask_def Let_def)
qed

lemma same_run_remove_all: "same_run s (RemoveAllCanceledTasksFromFrontOfWorkQueues s)"
proof -
  have "same_run s t \<Longrightarrow> same_run s (fold (\<lambda>q s. snd (RemoveAllCanceledTasksFromFront (q, kImmediate)
      (snd (RemoveAllCanceledTasksFromFront (q, kDelayed) s)))) qs t)" for qs t
    by (induction qs arbitrary: t) (auto intro: same_run_trans [OF same_run_trans [OF _ same_run_remove] same_run_remove])
  then show ?thesis by (simp add: RemoveAllCanceledTasksFromFrontOfWorkQueues_def same_run_refl)
qed

lemma drop_cancelled_inv: "sm_inv s \<Longrightarrow> sm_inv (RemoveAllCanceledTasksFromFrontOfWorkQueues s)"
proof -
  have r: "sm_inv (snd (RemoveAllCanceledTasksFromFront x t))" if "sm_inv t" for x t
    using RemoveAllCanceled_inv(1) [OF that, of "fst x" "snd x"] by (metis prod.collapse)
  have "sm_inv (fold (\<lambda>q s. snd (RemoveAllCanceledTasksFromFront (q, kImmediate)
      (snd (RemoveAllCanceledTasksFromFront (q, kDelayed) s)))) qs t)" if "sm_inv t" for qs t
    using that by (induction qs arbitrary: t) (simp_all add: r)
  then show "sm_inv s \<Longrightarrow> sm_inv (RemoveAllCanceledTasksFromFrontOfWorkQueues s)"
    by (simp add: RemoveAllCanceledTasksFromFrontOfWorkQueues_def)
qed

text \<open>Steps that only touch what neither the selector nor the invariant reads.\<close>

lemma quiet_world:
  assumes w: "world_inv s" and v: "same_view s t" and f: "sync_frame s t" and r: "same_run s t"
  shows "world_inv t"
proof -
  have i: "sm_inv s" using w by (simp add: world_inv_def)
  have "sm_inv t" using sm_inv_same [OF i v] sync_frameD(5,2) [OF f] sm_invD(1,2) [OF i] by simp
  then show ?thesis by (rule world_same [OF w _ r])
qed

lemma poster_world:
  assumes w: "world_inv s" and p: "tq_unregistered (tq s q) \<Longrightarrow> ExtractState (state_and_count c) = kShuttingDown"
  shows "world_inv (upd_tq q (\<lambda>t. t\<lparr>task_poster := c\<rparr>) s)" (is "world_inv ?t")
proof -
  have i: "sm_inv s" using w by (simp add: world_inv_def)
  have v: "same_view s ?t" by (rule same_view_simple)
  have "sync_frame s ?t" by (rule sync_frame_upd_tq) simp
  then have "sm_inv ?t" using sm_inv_same [OF i v] sync_frameD(5,2) sm_invD(1,2) [OF i] by simp
  moreover have "closed_posters ?t" using w p by (simp add: world_inv_def closed_posters_def)
  ultimately show ?thesis using w same_viewD [OF v] by (simp add: world_inv_def live_queues_def upd_tq_def)
qed

lemma guarded_post_world:
  assumes w: "world_inv s" and e: "task_poster (tq s q) \<noteq> OperationsController_new"
    and p: "GuardedTaskPoster_PostTask q posted thread s = Some (accepted, u)" and r: "accepted \<Longrightarrow> counter_room 2 s"
  shows "world_inv u"
proof -
  let ?c = "task_poster (tq s q)"
  obtain tok c' where t: "TryBeginOperation ?c = (tok, c')" by force
  let ?s = "upd_tq q (\<lambda>t. t\<lparr>task_poster := c'\<rparr>) s"
  have closed: "ExtractState (state_and_count ?c) = kShuttingDown" if "tq_unregistered (tq s q)"
    using w that e by (auto simp: world_inv_def closed_posters_def)
  note refused = TryBegin_refused [OF _ t]
  show ?thesis
  proof (cases tok)
    case False
    then have "u = ?s" using p t by (simp add: GuardedTaskPoster_PostTask_def Let_def)
    then show ?thesis using poster_world [OF w] refused(2) closed by simp
  next
    case True
    then have a: "\<not> tq_unregistered (tq s q)" using refused(1) closed by blast
    obtain v where v: "accepted" "tq_PostTask q posted thread ?s = Some v" "u = upd_tq q (\<lambda>t. t\<lparr>task_poster := DecrementBy 1 (task_poster t)\<rparr>) v"
      using p t True by (auto simp: GuardedTaskPoster_PostTask_def Let_def split: option.splits)
    have s1: "world_inv ?s" using poster_world [OF w] a by blast
    have "world_inv v" using world_same [OF s1 tq_PostTask_inv [OF _ v(2)] same_run_post [OF v(2)]] s1 r [OF v(1)]
      by (simp add: world_inv_def counter_room_def)
    moreover have "\<not> tq_unregistered (tq v q)" using same_run_post [OF v(2)] a by (simp add: same_run_def)
    moreover have "u = upd_tq q (\<lambda>t. t\<lparr>task_poster := DecrementBy 1 (task_poster (tq v q))\<rparr>) v"
      by (simp add: v(3) upd_tq_def)
    ultimately show ?thesis using poster_world by blast
  qed
qed

lemma delayed_work_world:
  assumes w: "world_inv s" and r: "counter_room (length (di_queue (delayed_incoming_queue (tq s q))) + 1) s"
  shows "world_inv (ScheduleDelayedWorkTask q pending s)"
proof -
  have push: "world_inv (upd_delayed q (di_push t) s)" for t
    by (rule quiet_world [OF w same_view_simple(4) sync_frame_ops(3) same_run_base(5) [OF same_run_refl]])
  show ?thesis
  proof (cases "delayed_run_time pending \<le> td_now q s")
    case True
    let ?t = "upd_delayed q (di_push (lift_task (pending\<lparr>delayed_run_time := td_now q s\<rparr>))) s"
    have "length (di_queue (di_push t d)) = length (di_queue d) + 1" for t d
      using arg_cong [OF mset_pq_insert [of t "di_queue d"], where f = size] by (simp add: di_push_def Let_def)
    then have "counter_room (length (di_queue (delayed_incoming_queue (tq ?t q)))) ?t" using r by (simp add: counter_room_def)
    moreover have "sm_inv ?t" using push by (simp add: world_inv_def)
    ultimately have "world_inv (MoveReadyDelayedTasksToWorkQueue q (td_now q s) ?t)"
      using world_same [OF push MoveReady_inv same_run_move [OF same_run_refl]] by blast
    then show ?thesis using True by (simp add: ScheduleDelayedWorkTask_def Let_def)
  next
    case False
    then show ?thesis
      using quiet_world [OF push UpdateDelayedWakeUp_view UpdateDelayedWakeUp_sync_frame same_run_wake_up [OF same_run_refl]]
      by (simp add: ScheduleDelayedWorkTask_def PushOntoDelayedIncomingQueueFromMainThread_def)
  qed
qed

lemma step_world:
  assumes w: "world_inv s" and st: "sm_step s t"
  shows "world_inv t"
proof -
  have i: "sm_inv s" using w by (simp add: world_inv_def)
  note same = world_same [OF w]
  show ?thesis using st
  proof cases
    case (create q spec)
    then show ?thesis using w Create_inv [OF i, of q spec] create_lists [of q spec s] create_closed [of s q spec]
      by (auto simp: world_inv_def)
  next
    case (post q posted thread)
    then show ?thesis using same tq_PostTask_inv [OF i] same_run_post by blast
  next
    case (insert_fence q p)
    then show ?thesis using same fences_inv(1) [OF i] same_run_tq_fences(1) [OF same_run_refl] by blast
  next
    case (remove_fence q)
    then show ?thesis using same fences_inv(2) [OF i] same_run_tq_fences(2) [OF same_run_refl] by blast
  next
    case (enable q b)
    then show ?thesis using same SetQueueEnabled_inv [OF i] same_run_manage(1) [OF same_run_refl] by blast
  next
    case (priority q p)
    then show ?thesis using same SetQueuePriority_inv [OF i] same_run_selector(3) [OF same_run_refl] by blast
  next
    case (time_domain q d)
    then show ?thesis using same frames_inv(2) [OF i] same_run_manage(3) [OF same_run_refl] by blast
  next
    case (delete_tasks q)
    then show ?thesis using same DeletePendingTasks_inv [OF i] same_run_manage(4) [OF same_run_refl] by blast
  next
    case (cancel c)
    show ?thesis unfolding cancel(1) by (rule world_globals [OF w sm_inv_globals [OF i]]) simp_all
  next
    case (tick now)
    show ?thesis unfolding tick by (rule world_globals [OF w sm_inv_globals [OF i]]) simp_all
  next
    case (queue_times b)
    show ?thesis unfolding queue_times SetAddQueueTimeToTasks_def by (rule world_globals [OF w sm_inv_globals [OF i]]) simp_all
  next
    case (register_domain d)
    show ?thesis unfolding register_domain RegisterTimeDomain_def by (rule world_globals [OF w sm_inv_globals [OF i]]) simp_all
  next
    case (unregister_domain d)
    show ?thesis unfolding unregister_domain UnregisterTimeDomain_def by (rule world_globals [OF w sm_inv_globals [OF i]]) simp_all
  next
    case quiescence
    show ?thesis unfolding quiescence GetAndClearSystemIsQuiescentBit_def
      by (simp, rule world_globals [OF w sm_inv_globals [OF i]]) simp_all
  next
    case reclaim_due
    show ?thesis unfolding reclaim_due by (rule world_globals [OF w sm_inv_globals [OF i]]) simp_all
  next
    case (guarded_post q posted thread accepted)
    then show ?thesis using guarded_post_world [OF w] by blast
  next
    case (delayed_work q pending)
    then show ?thesis using delayed_work_world [OF w] by blast
  next
    case (wake_up_callback q b)
    show ?thesis unfolding wake_up_callback(1)
      by (rule quiet_world [OF w same_view_simple(5)])
        (simp_all add: SetOnNextWakeUpChangedCallback_def sync_frame_upd_tq same_run_base(2) same_run_refl)
  next
    case delete_all_tasks
    have "world_inv v" if "world_inv u" "delete_all qs u = Some v" for qs u v
      using that
    proof (induction qs arbitrary: u)
      case (Cons q qs)
      have "world_inv (tq_DeletePendingTasks q u)"
        using world_same [OF Cons.prems(1) DeletePendingTasks_inv same_run_manage(4) [OF same_run_refl]] Cons.prems(1)
        by (simp add: world_inv_def)
      then show ?case using Cons by (simp split: if_splits)
    qed simp
    then show ?thesis using w delete_all_tasks by (simp add: sm_DeletePendingTasks_def)
  next
    case drop_cancelled
    then show ?thesis using same drop_cancelled_inv [OF i] same_run_remove_all by blast
  next
    case (shutdown q)
    have "sm_inv t" unfolding shutdown(1) ShutdownTaskQueueGracefully_def by (rule sm_inv_globals [OF i]; simp)
    moreover have "view t = view s" unfolding shutdown(1) ShutdownTaskQueueGracefully_def by (rule view_cong; simp)
    ultimately show ?thesis using w shutdown
      by (auto simp: world_inv_def ShutdownTaskQueueGracefully_def live_queues_def view_reads closed_posters_def)
  next
    case (unregister q)
    then show ?thesis using w Unregister_inv [OF i, of q] unregister_lists [of q s] unregister_closed [of s q]
      by (auto simp: world_inv_def distinct_removeAll)
  next
    case begin_nested
    have "sm_inv t" unfolding begin_nested OnBeginNestedRunLoop_def by (rule sm_inv_globals [OF i]; simp)
    moreover have "view t = view s" unfolding begin_nested OnBeginNestedRunLoop_def by (rule view_cong; simp)
    ultimately show ?thesis using w begin_nested by (simp add: world_inv_def OnBeginNestedRunLoop_def closed_posters_def)
  next
    case exit_nested
    then show ?thesis using exit_nested_world [OF w] by simp
  next
    case reload
    then show ?thesis using same Reload_inv(1) [OF i] same_run_reload_all by blast
  next
    case (move_ready q now)
    then show ?thesis using same MoveReady_inv [OF i] same_run_move [OF same_run_refl] by blast
  next
    case (take fuel dcheck r)
    then have "took s r t" using take_loop_took [OF i take(1), of dcheck] by auto
    then show ?thesis using same by (simp add: took_def)
  next
    case did_run
    then show ?thesis using did_run_world [OF w] by simp
  next
    case reclaim
    then show ?thesis using reclaim_world [OF w] by simp
  qed
qed

lemma new_world: "world_inv (SequenceManagerImpl_new now b)"
  using new_inv [of now b] by (simp add: closed_posters_def world_inv_def SequenceManagerImpl_new_def RegisterTimeDomain_def live_queues_def view_reads)

theorem reachable_world: "reachable s \<Longrightarrow> world_inv s"
  by (induction rule: reachable.induct) (blast intro: new_world step_world)+

lemma selects_visible:
  assumes "reachable s" "expected s x = Some e"
  shows "\<exists>y u. SelectWorkQueueToService s = (Some y, u)"
proof -
  have "in_sync s" using reachable_world [OF assms(1)] sm_invD(2) by (auto simp: world_inv_def)
  then have "fst (SelectWorkQueueToService s) \<noteq> None" using Select_none assms(2) by fastforce
  then show ?thesis by (metis option.exhaust prod.collapse)
qed

section \<open>Around an unregistered queue\<close>

lemma unregistered_poster: "ExtractState (state_and_count (task_poster (tq (UnregisterTaskQueueImpl q s) q))) = kShuttingDown"
proof -
  define t where "t = sel_RemoveQueue q s"
  have "tq (UnregisterQueue d q u) = tq u" for d u
    unfolding UnregisterQueue_def using wake_frame_reads(7) [OF SetNextWakeUp_frame] by simp
  then have "task_poster (tq (UnregisterTaskQueue q t) q) = shutdown_poster (task_poster (tq t q))"
    by (auto simp: UnregisterTaskQueue_def Let_def upd_delayed_def split: option.split)
  then show ?thesis using shutdown_poster_state by (simp add: UnregisterTaskQueueImpl_def Let_def t_def [symmetric])
qed

end
