(* ===== verification/Manager_Example.thy ===== *)
theory Manager_Example
  imports Manager_Steps
begin

text \<open>
  Concrete reachable states of the scheduler, on which the properties are instantiated: a new manager,
  one with a registered queue, one with a task posted to it, and one in which the task has reached the
  work queue.
\<close>

definition demo_spec :: queue_spec where
  "demo_spec = \<lparr>spec_name = ''default'', spec_should_monitor_quiescence = False, spec_time_domain = None,
     spec_should_notify_observers = True, spec_delayed_fence_allowed = False\<rparr>"

definition demo_post :: "user_closure posted_task" where
  "demo_post = PostedTask_make (Callback 7) ''here'' 0 kNestable 0"

definition demo_new :: sched where
  "demo_new = SequenceManagerImpl_new (\<lambda>_. 0) False"

definition demo_queue :: sched where
  "demo_queue = CreateTaskQueueImpl 0 demo_spec demo_new"

definition demo_posted :: sched where
  "demo_posted = the (tq_PostTask 0 demo_post kMainThread demo_queue)"

definition demo_ready :: sched where
  "demo_ready = ReloadEmptyWorkQueues demo_posted"

definition demo_the_task :: Task where
  "demo_the_task = Task_make (lift_posted demo_post) 0 2 2 kLow"

lemma demo_flag: "AddFlag (0 :: nat) AtomicFlagSet_new = (Some (0, 1), snd (AddFlag 0 AtomicFlagSet_new))"
proof -
  have "fst (AddFlag (0 :: nat) AtomicFlagSet_new) = Some (0, 1)" by code_simp
  then show ?thesis by (metis prod.collapse)
qed

lemma demo_new_reads:
  "tq_unregistered (tq demo_new q)" "enqueue_order_generator demo_new = 2" "empty_queues_to_reload demo_new = AtomicFlagSet_new"
  "non_nestable_task_queue demo_new = []" "nesting_depth demo_new = 0" "cancelled demo_new = (\<lambda>_. False)"
  "add_queue_time_to_tasks demo_new = False" "active_queues demo_new = []" "queues_to_gracefully_shutdown demo_new = []"
  by (simp_all add: demo_new_def SequenceManagerImpl_new_def RegisterTimeDomain_def EnqueueOrder_kFirst_def)

lemma demo_queue_reachable: "reachable demo_queue"
  unfolding demo_queue_def using reachable.start [of "\<lambda>_. 0" False] demo_new_reads(1)
  by (auto simp: demo_new_def [symmetric] intro: reachable.step sm_step.create)

lemma demo_queue_view: "view demo_queue 0 = new_queue_view (Some (0, 1))"
  "enqueue_order_generator demo_queue = 2" "non_nestable_task_queue demo_queue = []"
  using Create_view [of 0 demo_new, unfolded demo_new_reads, OF demo_flag] unfolding demo_queue_def by simp_all

lemma demo_post_some: "tq_PostTask 0 demo_post kMainThread demo_queue = Some demo_posted"
  by (simp add: demo_posted_def tq_PostTask_def demo_post_def PostedTask_make_def lift_posted_def PostImmediateTaskImpl_def Let_def)

lemma demo_posted_reachable: "reachable demo_posted"
  using demo_queue_reachable sm_step.post [OF demo_post_some] demo_queue_view(2)
  by (auto simp: counter_room_def intro: reachable.step)

lemma demo_ready_reachable: "reachable demo_ready"
  unfolding demo_ready_def by (rule reachable.step [OF demo_posted_reachable sm_step.reload])

lemma add_queue_time_frame: "add_queue_time_to_tasks (AddQueueImpl q p s) = add_queue_time_to_tasks s"
proof -
  have f: "add_queue_time_to_tasks t = add_queue_time_to_tasks s" if "sets_frame s t" for s t
    using arg_cong [OF that [unfolded sets_frame_def], of add_queue_time_to_tasks] by simp
  have "add_queue_time_to_tasks (wqs_AddQueue w x p s) = add_queue_time_to_tasks s" for w x s
    by (simp add: wqs_AddQueue_def Let_def f [OF notify_frame(1)] AssignSetIndex_def AssignToWorkQueueSets_def upd_wq_def split: option.split)
  then show ?thesis by (simp add: AddQueueImpl_def)
qed

lemma demo_reads:
  "add_queue_time_to_tasks demo_queue = False" "delayed_fence_allowed (tq demo_queue 0) = False" "cancelled demo_queue = (\<lambda>_. False)"
proof -
  define t where "t = TaskQueueImpl_new 0 0 demo_spec demo_new"
  have eq: "demo_queue = AddQueueImpl 0 kNormalPriority (t\<lparr>active_queues := List.insert 0 (active_queues t)\<rparr>)"
    by (simp add: demo_queue_def CreateTaskQueueImpl_def Let_def sel_AddQueue_def demo_spec_def t_def)
  have t: "add_queue_time_to_tasks t = False" "delayed_fence_allowed (tq t 0) = False" "cancelled t = (\<lambda>_. False)"
    by (simp_all add: t_def TaskQueueImpl_new_def GetFlagToRequestReloadForEmptyQueue_def Let_def split_beta
        UpdateCrossThreadQueueStateLocked_def upd_wq_def upd_tq_def demo_new_reads demo_spec_def)
  show "add_queue_time_to_tasks demo_queue = False" "delayed_fence_allowed (tq demo_queue 0) = False" "cancelled demo_queue = (\<lambda>_. False)"
    unfolding eq using t same_runD(3) [OF same_run_selector(1) [OF same_run_refl]]
    by (simp_all add: add_queue_time_frame AddQueueImpl_wq(3))
qed

lemma demo_posted_view:
  "view demo_posted 0 = (new_queue_view (Some (0, 1)))\<lparr>qv_incoming := [demo_the_task]\<rparr>"
  "non_nestable_task_queue demo_posted = []" "enqueue_order_generator demo_posted = 3"
proof -
  have r: "PostImmediateTaskImpl 0 (lift_posted demo_post) demo_queue = Some demo_posted"
    using demo_post_some by (simp add: tq_PostTask_def demo_post_def PostedTask_make_def)
  have i: "sm_inv demo_queue" using reachable_world [OF demo_queue_reachable] by (simp add: world_inv_def)
  note I = sm_invD [OF i]
  have "qv_incoming (view demo_posted 0) = [demo_the_task]"
    using PostImmediate_sync(4) [OF I(1,2) r, of 0] demo_queue_view
    by (simp add: view_reads(5) [symmetric] demo_reads demo_the_task_def new_queue_view_def)
  moreover obtain t where v: "view demo_posted = (view demo_queue)(0 := (view demo_queue 0)\<lparr>qv_incoming := qv_incoming (view demo_queue 0) @ [t]\<rparr>)"
    "non_nestable_task_queue demo_posted = non_nestable_task_queue demo_queue"
    "enqueue_order_generator demo_posted = enqueue_order_generator demo_queue + 1"
    using PostImmediate_view [OF r I(1)] by metis
  ultimately show "view demo_posted 0 = (new_queue_view (Some (0, 1)))\<lparr>qv_incoming := [demo_the_task]\<rparr>"
    by (simp add: demo_queue_view new_queue_view_def)
  show "non_nestable_task_queue demo_posted = []" "enqueue_order_generator demo_posted = 3"
    using v demo_queue_view by simp_all
qed

lemma demo_ready_view:
  "view demo_ready 0 = (new_queue_view (Some (0, 1)))\<lparr>qv_tasks := (\<lambda>w. if w = kImmediate then [demo_the_task] else []),
     qv_work_queue_empty := False\<rparr>"
  "non_nestable_task_queue demo_ready = []" "enqueue_order_generator demo_ready = 3"
proof -
  have i: "sm_inv demo_posted" using reachable_world [OF demo_posted_reachable] by (simp add: world_inv_def)
  show "view demo_ready 0 = (new_queue_view (Some (0, 1)))\<lparr>qv_tasks := (\<lambda>w. if w = kImmediate then [demo_the_task] else []),
     qv_work_queue_empty := False\<rparr>"
  "non_nestable_task_queue demo_ready = []" "enqueue_order_generator demo_ready = 3"
    using Reload_inv [OF i] demo_posted_view
    by (simp_all add: demo_ready_def reloaded_view_def refill_view_def reload_view_def new_queue_view_def fun_eq_iff)
qed

lemma demo_ready_raw:
  "dq_list (tasks (wq demo_ready (0, w))) = (if w = kImmediate then [demo_the_task] else [])" "wq_fence (wq demo_ready (0, w)) = 0"
  "work_queue_sets (wq demo_ready (0, w)) = Some w" "work_queue_set_index (wq demo_ready (0, w)) = kNormalPriority"
  "dq_list (immediate_incoming_queue (tq demo_ready 0)) = []" "is_enabled (tq demo_ready 0)" "\<not> tq_unregistered (tq demo_ready 0)"
  "delayed_fence (tq demo_ready 0) = None"
  unfolding view_reads [symmetric] demo_ready_view by (simp_all add: new_queue_view_def)

lemma demo_ready_expected:
  "expected demo_ready (0, kImmediate) = Some (kNormalPriority, 2)" "expected demo_ready (0, kDelayed) = None"
proof -
  have i: "sm_inv demo_ready" using reachable_world [OF demo_ready_reachable] by (simp add: world_inv_def)
  show "expected demo_ready (0, kImmediate) = Some (kNormalPriority, 2)" "expected demo_ready (0, kDelayed) = None"
    unfolding expected_list [OF sm_invD(1) [OF i]] view_reads [symmetric]
    by (simp_all add: demo_ready_view new_queue_view_def demo_the_task_def Task_make_def)
qed

lemma demo_ready_run: "nesting_depth demo_ready = 0" "cancelled demo_ready = (\<lambda>_. False)" "live_queues (view demo_ready) = {0}"
  "\<not> task_is_dead demo_ready demo_the_task"
proof -
  have r: "same_run demo_queue demo_ready"
    unfolding demo_ready_def by (rule same_run_trans [OF same_run_post [OF demo_post_some] same_run_reload_all])
  have l: "live_queues (view demo_new) = {}" using demo_new_reads(1) by (simp add: live_queues_def view_reads)
  show "nesting_depth demo_ready = 0" "live_queues (view demo_ready) = {0}"
    using same_runD [OF r] create_lists [of 0 demo_spec demo_new] l demo_new_reads by (simp_all add: demo_queue_def [symmetric])
  show c: "cancelled demo_ready = (\<lambda>_. False)" using same_runD(3) [OF r] demo_reads(3) by simp
  show "\<not> task_is_dead demo_ready demo_the_task"
    by (simp add: task_is_dead_def c demo_the_task_def Task_make_def lift_posted_def demo_post_def PostedTask_make_def)
qed

lemma demo_ready_backlog: "backlog demo_ready = 1" "line demo_ready (0, kImmediate) = [demo_the_task]"
  by (simp_all add: backlog_def demo_ready_run demo_ready_view waiting_def new_queue_view_def line_def deferred_of_def)

lemma demo_ready_selection: "selection_count demo_ready = 0" "immediate_starvation_count demo_ready = 0"
proof -
  have f: "selection_count t = selection_count s \<and> immediate_starvation_count t = immediate_starvation_count s" if "sets_frame s t" for s t
    using sets_frame_reads [OF that] by simp
  have a: "selection_count (wqs_AddQueue w x p s) = selection_count s \<and> immediate_starvation_count (wqs_AddQueue w x p s) = immediate_starvation_count s" for w x p s
    by (simp add: wqs_AddQueue_def Let_def f [OF notify_frame(1)] AssignSetIndex_def AssignToWorkQueueSets_def upd_wq_def split: option.split)
  have q: "selection_count demo_queue = 0" "immediate_starvation_count demo_queue = 0"
    by (simp_all add: demo_queue_def CreateTaskQueueImpl_def sel_AddQueue_def AddQueueImpl_def Let_def a TaskQueueImpl_new_def
        GetFlagToRequestReloadForEmptyQueue_def split_beta UpdateCrossThreadQueueStateLocked_def upd_wq_def upd_tq_def
        demo_new_def SequenceManagerImpl_new_def RegisterTimeDomain_def)
  have p: "selection_count demo_posted = 0" "immediate_starvation_count demo_posted = 0"
    using q by (simp_all add: demo_posted_def tq_PostTask_def demo_post_def PostedTask_make_def lift_posted_def PostImmediateTaskImpl_def
        Let_def GetNextSequenceNumber_def split_beta set_flag_active_def ScheduleWork_def upd_tq_def emit_def split: option.split)
  have t: "selection_count (tq_TakeImmediateIncomingQueueTasks q s) = selection_count s \<and>
      immediate_starvation_count (tq_TakeImmediateIncomingQueueTasks q s) = immediate_starvation_count s" for q s
    by (simp add: tq_TakeImmediateIncomingQueueTasks_def Let_def split_beta activate_delayed_fence_def InsertFenceSilently_def
        InsertFenceImpl_def UpdateCrossThreadQueueStateLocked_def upd_wq_def upd_tq_def split: option.split)
  have n: "selection_count (notify_pushed_to_empty x s) = selection_count s \<and>
      immediate_starvation_count (notify_pushed_to_empty x s) = immediate_starvation_count s" for x s
    by (simp add: notify_pushed_to_empty_def f [OF sets_ops_frame(2)] split: option.split)
  have "selection_count (run_reload c s) = selection_count s \<and> immediate_starvation_count (run_reload c s) = immediate_starvation_count s" for c s
    by (simp add: run_reload_def ReloadEmptyImmediateWorkQueue_def wq_TakeImmediateIncomingQueueTasks_def Let_def t n
        run_wake_up_callback_def emit_def split: option.split)
  then have "selection_count (fold run_reload cs s) = selection_count s \<and> immediate_starvation_count (fold run_reload cs s) = immediate_starvation_count s" for cs s
    by (induction cs arbitrary: s) simp_all
  then show "selection_count demo_ready = 0" "immediate_starvation_count demo_ready = 0"
    using p by (simp_all add: demo_ready_def ReloadEmptyWorkQueues_def Let_def split_beta)
qed

text \<open>The queue under another priority.\<close>

lemma demo_ready_priority:
  assumes "p < kQueuePriorityCount"
  shows "reachable (SetQueuePriority 0 p demo_ready)" "expected (SetQueuePriority 0 p demo_ready) (0, kImmediate) = Some (p, 2)"
    "expected (SetQueuePriority 0 p demo_ready) (0, kDelayed) = None" "selection_count (SetQueuePriority 0 p demo_ready) = 0"
proof -
  let ?s = "SetQueuePriority 0 p demo_ready"
  show r: "reachable ?s"
    by (rule reachable.step [OF demo_ready_reachable sm_step.priority]) (simp_all add: demo_ready_raw assms)
  have i: "sm_inv ?s" using reachable_world [OF r] by (simp add: world_inv_def)
  have "view ?s = (view demo_ready)(0 := (view demo_ready 0)\<lparr>qv_index := (\<lambda>_. p)\<rparr>)"
    by (rule SetQueuePriority_view(1)) (simp add: demo_ready_view new_queue_view_def)
  then show "expected ?s (0, kImmediate) = Some (p, 2)" "expected ?s (0, kDelayed) = None"
    unfolding expected_view [OF sm_invD(1) [OF i]] by (simp_all add: demo_ready_view new_queue_view_def demo_the_task_def Task_make_def)
  have "selection_count (wqs_ChangeSetIndex w y p u) = selection_count u" for w y u
    using sets_frame_reads(2) [OF ChangeSetIndex_frame [of y p u w]] by (simp add: AssignSetIndex_def upd_wq_def)
  then show "selection_count ?s = 0" using demo_ready_selection(1)
    by (simp add: SetQueuePriority_def sel_SetQueuePriority_def sel_ChangeSetIndex_def AssignSetIndex_def upd_wq_def)
qed

section \<open>A delayed task\<close>

definition demo_later :: "user_closure posted_task" where
  "demo_later = PostedTask_make (Callback 8) ''there'' 10 kNestable 0"

definition demo_delayed :: sched where
  "demo_delayed = the (tq_PostTask 0 demo_later kMainThread demo_queue)"

definition demo_late_task :: Task where
  "demo_late_task = lift_task (Task_make demo_later 10 2 EnqueueOrder_none kLow)"

lemma demo_queue_tq:
  "time_domain (tq demo_queue 0) = Some 0" "clock demo_queue = (\<lambda>_. 0)" "scheduled_wake_up (tq demo_queue q) = None"
  "delayed_incoming_queue (tq demo_queue q) = DelayedIncomingQueue_new" "time_domains demo_queue = (\<lambda>_. TimeDomain_new)"
  "wake_up_handles demo_queue = (\<lambda>_. 0)" "is_enabled (tq demo_queue 0)"
proof -
  define t where "t = TaskQueueImpl_new 0 0 demo_spec demo_new"
  have eq: "demo_queue = AddQueueImpl 0 kNormalPriority (t\<lparr>active_queues := List.insert 0 (active_queues t)\<rparr>)"
    by (simp add: demo_queue_def CreateTaskQueueImpl_def Let_def sel_AddQueue_def demo_spec_def t_def)
  have f: "clock u = clock s \<and> time_domains u = time_domains s \<and> wake_up_handles u = wake_up_handles s" if "sets_frame s u" for s u
    using sets_frame_reads [OF that] by simp
  have a: "clock (wqs_AddQueue w x p s) = clock s \<and> time_domains (wqs_AddQueue w x p s) = time_domains s \<and>
      wake_up_handles (wqs_AddQueue w x p s) = wake_up_handles s" for w x p s
    by (simp add: wqs_AddQueue_def Let_def f [OF notify_frame(1)] AssignSetIndex_def AssignToWorkQueueSets_def upd_wq_def split: option.split)
  have t: "time_domain (tq t 0) = Some 0" "clock t = (\<lambda>_. 0)" "scheduled_wake_up (tq t q) = None"
    "delayed_incoming_queue (tq t q) = DelayedIncomingQueue_new" "time_domains t = (\<lambda>_. TimeDomain_new)"
    "wake_up_handles t = (\<lambda>_. 0)" "is_enabled (tq t 0)"
    by (simp_all add: t_def TaskQueueImpl_new_def GetFlagToRequestReloadForEmptyQueue_def Let_def split_beta
        UpdateCrossThreadQueueStateLocked_def upd_wq_def upd_tq_def demo_new_def SequenceManagerImpl_new_def RegisterTimeDomain_def)
  show "time_domain (tq demo_queue 0) = Some 0" "clock demo_queue = (\<lambda>_. 0)" "scheduled_wake_up (tq demo_queue q) = None"
    "delayed_incoming_queue (tq demo_queue q) = DelayedIncomingQueue_new" "time_domains demo_queue = (\<lambda>_. TimeDomain_new)"
    "wake_up_handles demo_queue = (\<lambda>_. 0)" "is_enabled (tq demo_queue 0)"
    unfolding eq using t by (simp_all add: AddQueueImpl_wq(3)) (simp_all add: AddQueueImpl_def a)
qed

lemma demo_queue_wakes: "wakes_ok 0 Map.empty demo_queue"
proof -
  have "scheduled (tq demo_queue q) = None" for q by (simp add: scheduled_def demo_queue_tq split: option.split)
  then show ?thesis
    using IntrusiveHeap_init_inv [of ScheduledDelayedWakeUp_le sw_queue wake_up_dflt "\<lambda>_. 0"]
    by (simp add: wakes_ok_def wake_rep_def wake_heaps_def wake_entries_def high_res_def demo_queue_tq TimeDomain_new_def
        di_inv_def DelayedIncomingQueue_new_def high_res_count_def)
qed

lemma demo_delayed_eq:
  "tq_PostTask 0 demo_later kMainThread demo_queue = Some demo_delayed"
  "demo_delayed = UpdateDelayedWakeUp 0 0 (upd_delayed 0 (di_push demo_late_task) (demo_queue\<lparr>enqueue_order_generator := 3\<rparr>))"
  by (simp_all add: demo_delayed_def tq_PostTask_def demo_later_def PostedTask_make_def PostDelayedTaskImpl_def Let_def
      GetNextSequenceNumber_def GenerateNext_def PushOntoDelayedIncomingQueueFromMainThread_def td_now_def demo_queue_tq
      demo_reads demo_queue_view demo_late_task_def ticks_plus_def SaturatedAdd_def TimeDelta_is_max_def TimeDelta_is_min_def is_int64_def)

lemma demo_delayed_reachable: "reachable demo_delayed"
  using demo_queue_reachable sm_step.post [OF demo_delayed_eq(1)] demo_queue_view(2)
  by (auto simp: counter_room_def intro: reachable.step)

lemma demo_late_reads:
  "delayed_run_time demo_late_task = 10" "sequence_num demo_late_task = ucast (2 :: u64)" "task demo_late_task = User (Callback 8)"
  "task_window 0 demo_late_task" "DelayedWakeUp_of demo_late_task = wake_up_at 10 2"
proof -
  show s: "delayed_run_time demo_late_task = 10" "sequence_num demo_late_task = ucast (2 :: u64)" "task demo_late_task = User (Callback 8)"
    by (simp_all add: demo_late_task_def lift_task_def Task_make_def demo_later_def PostedTask_make_def)
  show "DelayedWakeUp_of demo_late_task = wake_up_at 10 2" by (simp add: DelayedWakeUp_of_def wake_up_at_def s)
  have "in_window 0 2" by (simp add: in_window_def)
  then show "task_window 0 demo_late_task" unfolding task_window_def using s(2) by blast
qed

lemma demo_delayed_wakes:
  obtains r where "wakes_ok 0 [0 \<mapsto> (0, wake_up_at 10 2, r)] demo_delayed"
    "di_queue (delayed_incoming_queue (tq demo_delayed 0)) = [demo_late_task]"
proof -
  let ?s = "upd_delayed 0 (di_push demo_late_task) (demo_queue\<lparr>enqueue_order_generator := 3\<rparr>)"
  have q: "di_queue (delayed_incoming_queue (tq ?s 0)) = [demo_late_task]"
    by (simp add: upd_delayed_def di_push_def Let_def demo_queue_tq DelayedIncomingQueue_new_def pq_insert.simps)
  have di: "di_inv 0 (delayed_incoming_queue (tq ?s q))" for q
    using di_push_inv(1) [of 0 DelayedIncomingQueue_new demo_late_task] demo_late_reads(4) demo_queue_wakes
    by (auto simp: upd_delayed_def demo_queue_tq wakes_ok_def)
  have "wk_frame demo_queue ?s" by (simp add: wk_frame_def upd_delayed_def)
  then have ok: "wakes_ok 0 Map.empty ?s" using wakes_ok_frame [OF demo_queue_wakes] di by blast
  have d: "time_domain (tq ?s 0) = Some 0" by (simp add: upd_delayed_def demo_queue_tq)
  have "GetNextScheduledWakeUpImpl 0 ?s = Some (wake_up_at 10 2)"
    using q by (simp add: GetNextScheduledWakeUpImpl_def di_empty_def di_top_def demo_late_reads IsQueueEnabled_def)
      (simp add: upd_delayed_def demo_queue_tq)
  moreover have "delayed_incoming_queue (tq demo_delayed 0) = delayed_incoming_queue (tq ?s 0)"
    using arg_cong [OF UpdateDelayedWakeUp_wakes(4) [OF ok d demo_delayed_eq(2), of 0], of delayed_incoming_queue] by simp
  ultimately show thesis using UpdateDelayedWakeUp_wakes(1) [OF ok d demo_delayed_eq(2)] that q by auto
qed

lemma demo_delayed_reads:
  "di_queue (delayed_incoming_queue (tq demo_delayed 0)) = [demo_late_task]" "dq_list (tasks (wq demo_delayed (0, w))) = []"
  "enqueue_order_generator demo_delayed = 3" "\<not> task_is_dead demo_delayed demo_late_task" "delayed_run_time demo_late_task = 10"
proof -
  let ?s = "upd_delayed 0 (di_push demo_late_task) (demo_queue\<lparr>enqueue_order_generator := 3\<rparr>)"
  have v: "same_view ?s demo_delayed" unfolding demo_delayed_eq(2) by (rule UpdateDelayedWakeUp_view)
  have "view ?s = view (demo_queue\<lparr>enqueue_order_generator := 3\<rparr>)" by (rule same_viewD(1) [OF same_view_simple(4)])
  moreover have "view (demo_queue\<lparr>enqueue_order_generator := 3\<rparr>) = view demo_queue" by (rule view_cong) simp_all
  ultimately have vd: "view demo_delayed = view demo_queue" using same_viewD(1) [OF v] by simp
  show "dq_list (tasks (wq demo_delayed (0, w))) = []"
    unfolding view_reads(1) [symmetric] vd by (simp add: demo_queue_view new_queue_view_def)
  show "enqueue_order_generator demo_delayed = 3" using same_viewD(3) [OF v] by simp
  have "same_run demo_queue demo_delayed" by (rule same_run_post [OF demo_delayed_eq(1)])
  then have "cancelled demo_delayed = (\<lambda>_. False)" using same_runD(3) demo_reads(3) by simp
  then show "\<not> task_is_dead demo_delayed demo_late_task" by (simp add: task_is_dead_def demo_late_reads)
  show "di_queue (delayed_incoming_queue (tq demo_delayed 0)) = [demo_late_task]"
    by (rule demo_delayed_wakes)
qed (rule demo_late_reads)

section \<open>A deferred task\<close>

text \<open>A non-nestable task reaches its work queue, a run loop is nested, and the manager looks for a task:
  it takes the task out of its work queue and defers it.\<close>

definition demo_bound :: "user_closure posted_task" where
  "demo_bound = PostedTask_make (Callback 9) ''bound'' 0 kNonNestable 0"

definition demo_bound_posted :: sched where
  "demo_bound_posted = the (tq_PostTask 0 demo_bound kMainThread demo_queue)"

definition demo_nested :: sched where
  "demo_nested = OnBeginNestedRunLoop (ReloadEmptyWorkQueues demo_bound_posted)"

definition demo_deferred :: sched where
  "demo_deferred = snd (the (take_loop 1 False demo_nested))"

definition demo_bound_task :: Task where
  "demo_bound_task = Task_make (lift_posted demo_bound) 0 2 2 kLow"

lemma demo_bound_eq:
  "tq_PostTask 0 demo_bound kMainThread demo_queue = Some demo_bound_posted"
  "PostImmediateTaskImpl 0 (lift_posted demo_bound) demo_queue = Some demo_bound_posted"
  by (simp_all add: demo_bound_posted_def tq_PostTask_def demo_bound_def PostedTask_make_def lift_posted_def PostImmediateTaskImpl_def Let_def)

lemma demo_nested_reads:
  "reachable demo_nested" "nesting_depth demo_nested = 1" "cancelled demo_nested = (\<lambda>_. False)" "live_queues (view demo_nested) = {0}"
  "view demo_nested 0 = (new_queue_view (Some (0, 1)))\<lparr>qv_tasks := (\<lambda>w. if w = kImmediate then [demo_bound_task] else []),
     qv_work_queue_empty := False\<rparr>"
  "non_nestable_task_queue demo_nested = []" "queues_to_gracefully_shutdown demo_nested = []"
proof -
  let ?p = demo_bound_posted and ?r = "ReloadEmptyWorkQueues demo_bound_posted"
  have rp: "reachable ?p" using demo_queue_reachable sm_step.post [OF demo_bound_eq(1)] demo_queue_view(2)
    by (auto simp: counter_room_def intro: reachable.step)
  show "reachable demo_nested" unfolding demo_nested_def
    by (rule reachable.step [OF reachable.step [OF rp sm_step.reload] sm_step.begin_nested])
  have "sm_inv demo_queue" using reachable_world [OF demo_queue_reachable] by (simp add: world_inv_def)
  note I = sm_invD [OF this]
  have "qv_incoming (view ?p 0) = [demo_bound_task]"
    using PostImmediate_sync(4) [OF I(1,2) demo_bound_eq(2), of 0] demo_queue_view
    by (simp add: view_reads(5) [symmetric] demo_reads demo_bound_task_def new_queue_view_def)
  moreover obtain t where "view ?p = (view demo_queue)(0 := (view demo_queue 0)\<lparr>qv_incoming := qv_incoming (view demo_queue 0) @ [t]\<rparr>)"
    and n: "non_nestable_task_queue ?p = non_nestable_task_queue demo_queue"
    using PostImmediate_view [OF demo_bound_eq(2) I(1)] by metis
  ultimately have pv: "view ?p 0 = (new_queue_view (Some (0, 1)))\<lparr>qv_incoming := [demo_bound_task]\<rparr>"
    by (simp add: demo_queue_view new_queue_view_def)
  have i: "sm_inv ?p" using reachable_world [OF rp] by (simp add: world_inv_def)
  have v: "view demo_nested = view ?r" by (rule view_cong) (simp_all add: demo_nested_def OnBeginNestedRunLoop_def)
  show "view demo_nested 0 = (new_queue_view (Some (0, 1)))\<lparr>qv_tasks := (\<lambda>w. if w = kImmediate then [demo_bound_task] else []),
     qv_work_queue_empty := False\<rparr>" "non_nestable_task_queue demo_nested = []"
    using Reload_inv [OF i] pv n v demo_queue_view(3)
    by (simp_all add: demo_nested_def OnBeginNestedRunLoop_def reloaded_view_def refill_view_def reload_view_def new_queue_view_def fun_eq_iff)
  have r: "same_run demo_queue ?r" by (rule same_run_trans [OF same_run_post [OF demo_bound_eq(1)] same_run_reload_all])
  have l: "live_queues (view demo_new) = {}" using demo_new_reads(1) by (simp add: live_queues_def view_reads)
  show "nesting_depth demo_nested = 1" "cancelled demo_nested = (\<lambda>_. False)" "live_queues (view demo_nested) = {0}"
    "queues_to_gracefully_shutdown demo_nested = []"
    using same_runD [OF r] create_lists [of 0 demo_spec demo_new] l demo_new_reads demo_reads(3)
    by (simp_all add: demo_queue_def [symmetric] demo_nested_def [symmetric] v [symmetric], simp_all add: demo_nested_def OnBeginNestedRunLoop_def)
qed

lemma defer_only_task:
  assumes s: "sm_inv s" "0 < nesting_depth s" "live_queues (view s) = {q}" and e: "expected s (q, kImmediate) \<noteq> None"
    and t: "waiting (view s q) kImmediate = [t]" "waiting (view s q) kDelayed = []" "task_nestable t = kNonNestable" "\<not> task_is_dead s t"
  shows "\<exists>u. take_loop 1 dcheck s = Some (None, u) \<and>
    non_nestable_task_queue u = non_nestable_task_queue s @ [\<lparr>df_task = t, df_queue = q, df_type = kImmediate\<rparr>]"
proof -
  note I = sm_invD [OF s(1)]
  obtain r a where r: "SelectWorkQueueToService s = (r, a)" by force
  have a: "sm_inv a" "same_view s a" "same_run s a" "expected a = expected s"
    using frames_inv(3) [OF s(1)] Select_view [of s] Select_sync(2) [OF I(2)] same_run_select [of s] r by simp_all
  note v = same_viewD [OF a(2)]
  obtain x where x: "r = Some x" using Select_none [OF I(2)] r e by (cases r) auto
  obtain p k where k: "expected a x = Some (p, k)" and m: "GetOldestQueueInSet (snd x) p a = Some x"
    using Select_choice [OF I(2)] r x by metis
  have xq: "x = (q, kImmediate)"
    using visible_task(1,2) [OF a(1), of "fst x" "snd x"] k s(3) t(2) v(1) by (cases x; cases "snd x") auto
  obtain b c where rm: "RemoveAllCanceledTasksFromFront x a = (b, c)" by force
  have tk: "qv_tasks (view a q) kImmediate = [t]"
    using visible_task(4) [OF a(1) k [unfolded xq]] t(1) v(1) by (cases "qv_tasks (view s q) kImmediate") (auto simp: waiting_def)
  have "\<not> b"
    using RemoveAllCanceled_inv(2) [OF a(1) rm [unfolded xq]] tk t(4) same_runD(1) [OF a(3)]
      visible_task(3) [OF a(1) k [unfolded xq]] by auto
  then have c: "c = a" "\<not> b" using nothing_removed rm by auto
  have ft: "GetFrontTask (wq a x) = Some t" unfolding xq by (rule front_task_view [OF a(1) tk])
  let ?d = "defer_task dcheck x a"
  note D = defer_task_inv [OF a(1) k m, of dcheck]
  have "backlog s = 1" using s(3) t(1,2) by (simp add: backlog_def)
  then have "backlog ?d = 0" using D(4) v(1) by (simp add: backlog_def)
  moreover have "live_queues (view ?d) = {q}" using same_runD(6) [OF D(3)] s(3) v(1) by simp
  ultimately have "expected ?d y = None" for y
    using visible_task(1,2) [OF D(1), of "fst y" "snd y"] by (cases y; cases "snd y"; cases "expected ?d y") (auto simp: backlog_def)
  then obtain u where u: "SelectWorkQueueToService ?d = (None, u)" using Select_none [OF sm_invD(2) [OF D(1)]] by (metis prod.collapse)
  then have "take_loop 0 dcheck ?d = Some (None, u)" by (subst take_loop.simps) simp
  then have "take_loop 1 dcheck s = Some (None, u)"
    using r x rm c ft t(3) s(2) same_runD(2) [OF a(3)] by (subst take_loop.simps) simp
  moreover have "non_nestable_task_queue u = non_nestable_task_queue s @ [\<lparr>df_task = t, df_queue = q, df_type = kImmediate\<rparr>]"
  proof -
    obtain r' b' where tt: "TakeTaskFromWorkQueue dcheck (q, kImmediate) a = (r', b')" by force
    obtain t' where "r' = Some t'" "waiting (view a q) kImmediate = t' # waiting (view b' q) kImmediate"
      "non_nestable_task_queue b' = non_nestable_task_queue a"
      using TakeTask_inv [OF a(1) k [unfolded xq] _ tt] m xq by (metis snd_conv)
    then have "non_nestable_task_queue ?d = non_nestable_task_queue s @ [\<lparr>df_task = t, df_queue = q, df_type = kImmediate\<rparr>]"
      using t(1) v tt by (simp add: defer_task_def xq)
    then show ?thesis using same_viewD(2) [OF Select_view(1) [of ?d]] u by simp
  qed
  ultimately show ?thesis by blast
qed

lemma demo_deferred_reads:
  "reachable demo_deferred" "nesting_depth demo_deferred = 1" "\<not> tq_unregistered (tq demo_deferred 0)"
  "non_nestable_task_queue demo_deferred = [\<lparr>df_task = demo_bound_task, df_queue = 0, df_type = kImmediate\<rparr>]"
  "queues_to_gracefully_shutdown demo_deferred = []"
proof -
  note N = demo_nested_reads
  have i: "sm_inv demo_nested" using reachable_world [OF N(1)] by (simp add: world_inv_def)
  have "expected demo_nested (0, kImmediate) \<noteq> None"
    unfolding expected_list [OF sm_invD(1) [OF i]] view_reads [symmetric] by (simp add: N(5) new_queue_view_def)
  moreover have "waiting (view demo_nested 0) w = (if w = kImmediate then [demo_bound_task] else [])" for w
    by (simp add: N(5) new_queue_view_def waiting_def)
  moreover have "task_nestable demo_bound_task = kNonNestable" "\<not> task_is_dead demo_nested demo_bound_task"
    by (simp_all add: demo_bound_task_def demo_bound_def Task_make_def lift_posted_def PostedTask_make_def task_is_dead_def N(3))
  ultimately obtain u where u: "take_loop 1 False demo_nested = Some (None, u)"
    "non_nestable_task_queue u = non_nestable_task_queue demo_nested @ [\<lparr>df_task = demo_bound_task, df_queue = 0, df_type = kImmediate\<rparr>]"
    using defer_only_task [OF i _ N(4), of demo_bound_task False] N(2) by auto
  then have d: "demo_deferred = u" by (simp add: demo_deferred_def)
  have bl: "backlog demo_nested = 1" by (simp add: backlog_def N(4,5) new_queue_view_def waiting_def)
  show "reachable demo_deferred" unfolding d by (rule reachable.step [OF N(1) sm_step.take [OF _ u(1)]]) (simp add: bl)
  have "took demo_nested None u" using take_loop_took [OF i, of 1 False] bl u(1) by simp
  then have r: "same_run demo_nested u" by (simp add: took_def)
  show "nesting_depth demo_deferred = 1" "queues_to_gracefully_shutdown demo_deferred = []"
    using same_runD(2,5) [OF r] N(2,7) d by simp_all
  show "\<not> tq_unregistered (tq demo_deferred 0)" using same_runD(6) [OF r] N(4) d by (auto simp: live_queues_def view_reads)
  show "non_nestable_task_queue demo_deferred = [\<lparr>df_task = demo_bound_task, df_queue = 0, df_type = kImmediate\<rparr>]"
    using u(2) N(6) d by simp
qed

section \<open>Changing a priority\<close>

text \<open>The visible front tasks of the queue move to the new priority with their enqueue orders.\<close>

lemma SetQueuePriority_moves:
  assumes "reachable s" "\<not> tq_unregistered (tq s q)" "p < kQueuePriorityCount"
  shows "expected (SetQueuePriority q p s) y = (if fst y = q then map_option (\<lambda>(_, k). (p, k)) (expected s y) else expected s y) \<and>
    queue_tasks y (SetQueuePriority q p s) = queue_tasks y s \<and> GetQueuePriority q (SetQueuePriority q p s) = p \<and>
    in_sync (SetQueuePriority q p s)"
proof -
  have i: "sm_inv s" using reachable_world [OF assms(1)] by (simp add: world_inv_def)
  note I = sm_invD [OF i]
  have j: "sm_inv (SetQueuePriority q p s)" by (rule SetQueuePriority_inv [OF i assms(2,3)])
  have "qv_index (view s q) kDelayed = qv_index (view s q) kImmediate"
    using placed_enabled_ok [OF I(3) assms(2)] by (simp add: enabled_ok_def view_reads)
  note v = SetQueuePriority_view(1) [OF this, of p]
  obtain q' w where y: "y = (q', w)" by (cases y)
  have "expected (SetQueuePriority q p s) y = (if fst y = q then map_option (\<lambda>(_, k). (p, k)) (expected s y) else expected s y)"
    unfolding y expected_view [OF sm_invD(1) [OF j]] expected_view [OF I(1)] v by (auto split: list.split)
  moreover have "queue_tasks y (SetQueuePriority q p s) = queue_tasks y s"
    unfolding y queue_tasks_waiting v by (simp add: waiting_def)
  moreover have "GetQueuePriority q (SetQueuePriority q p s) = p"
    unfolding GetQueuePriority_def view_reads(4) [symmetric] v by simp
  ultimately show ?thesis using sm_invD(2) [OF j] by blast
qed

end
