(* ===== verification/Thread_Manager.thy ===== *)
theory Thread_Manager
  imports Run_Loop Manager_Example
begin

text \<open>
  The sequence manager as the source of tasks of the thread controller: the operations of
  \<open>SequencedTaskSource\<close> and \<open>RunLoop::NestingObserver\<close> that \<open>SequenceManagerImpl\<close> implements, with its
  requests handed to the controller in the order in which it makes them.
\<close>

declare split_paired_All [simp del] split_paired_Ex [simp del]

section \<open>The manager as a source\<close>

fun deliver :: "event \<Rightarrow> sched thread_controller \<Rightarrow> sched thread_controller" where
  "deliver EvScheduleWork tc = tc_ScheduleWork tc"
| "deliver (EvSetNextDelayedDoWork run_time) tc = tc_SetNextDelayedDoWork (clock (source_state tc) 0) run_time tc"
| "deliver (EvOnNextWakeUpChanged q run_time) tc = tc"

definition with_manager :: "sched thread_controller \<Rightarrow> sched \<Rightarrow> sched thread_controller" where
  "with_manager tc s = fold deliver (drop (length (events (source_state tc))) (events s)) (tc\<lparr>source_state := s\<rparr>)"

definition sm_source :: "nat \<Rightarrow> bool \<Rightarrow> (nat \<Rightarrow> sched \<Rightarrow> int option) \<Rightarrow> (nat \<Rightarrow> bool \<Rightarrow> sched \<Rightarrow> bool \<times> sched) \<Rightarrow>
    (sched, Task) task_source" where
  "sm_source fuel dcheck delay_of fast_forward =
     \<lparr>TakeTask = (\<lambda>tc. map_option (\<lambda>(t, s). (t, with_manager tc s)) (TakeTaskImpl fuel dcheck (source_state tc))),
      src_DidRunTask = (\<lambda>tc. with_manager tc (DidRunTask (source_state tc))),
      src_DelayTillNextTask = (\<lambda>now tc.
        let (delay, s) = sm_DelayTillNextTask delay_of now (source_state tc) in (delay, with_manager tc s)),
      src_OnSystemIdle = (\<lambda>tc.
        let (more, s) = OnSystemIdle fast_forward (ShouldQuitRunLoopWhenIdle tc = Some True) (source_state tc)
        in (more, with_manager tc s)),
      src_OnBeginNestedRunLoop = (\<lambda>tc. with_manager tc (OnBeginNestedRunLoop (source_state tc))),
      src_OnExitNestedRunLoop = (\<lambda>tc. map_option (with_manager tc) (OnExitNestedRunLoop (source_state tc))),
      NowTicks = (\<lambda>tc. clock (source_state tc) 0)\<rparr>"

lemma asks_deliver: "asks tc (fold deliver es tc)"
proof (induction es arbitrary: tc)
  case (Cons e es)
  have "asks tc (deliver e tc)" by (cases e) simp_all
  then show ?case using Cons asks_trans by auto
qed simp

lemma asks_with_manager: "asks tc (with_manager tc s)"
  unfolding with_manager_def using asks_source asks_deliver by (rule asks_trans)

interpretation sm: polite_source "sm_source fuel dcheck delay_of fast_forward" for fuel dcheck delay_of fast_forward
  by unfold_locales (auto simp: sm_source_def asks_with_manager split: prod.splits)

lemma deliver_state: "source_state (fold deliver es tc) = source_state tc"
proof (induction es arbitrary: tc)
  case (Cons e es)
  have "source_state (deliver e tc) = source_state tc"
    by (cases e) (simp_all add: tc_ScheduleWork_def tc_SetNextDelayedDoWork_def pump_ScheduleWork_def pump_ScheduleDelayedWork_def
        pump_call_def Let_def split_beta)
  then show ?case using Cons by simp
qed simp

lemma with_manager_state [simp]: "source_state (with_manager tc s) = s"
  by (simp add: with_manager_def deliver_state)

section \<open>The thread sleeps only without work\<close>

lemma shortest_delay_le:
  assumes "d \<in> set ds" "domain_delay delay_of now d s = Some x"
  shows "shortest_delay delay_of now ds s \<le> x"
proof -
  let ?f = "\<lambda>d m. case domain_delay delay_of now d s of None \<Rightarrow> m | Some delay \<Rightarrow> if delay < m then delay else m"
  have le: "fold ?f ds m \<le> m" for ds m
  proof (induction ds arbitrary: m)
    case (Cons e ds)
    have "?f e m \<le> m" by (auto split: option.split)
    then show ?case using Cons [of "?f e m"] by simp
  qed simp
  have "fold ?f ds m \<le> x" if "d \<in> set ds" for m
    using that
  proof (induction ds arbitrary: m)
    case (Cons e ds)
    show ?case
    proof (cases "d = e")
      case True
      then show ?thesis using le [of ds "?f e m"] assms(2) by (simp split: if_splits)
    next
      case False
      then show ?thesis using Cons by simp
    qed
  qed simp
  then show ?thesis using assms(1) by (simp add: shortest_delay_def)
qed

lemma shortest_delay_nonneg:
  assumes "\<And>d x. domain_delay delay_of now d s = Some x \<Longrightarrow> 0 \<le> x"
  shows "0 \<le> shortest_delay delay_of now ds s"
proof -
  let ?f = "\<lambda>d m. case domain_delay delay_of now d s of None \<Rightarrow> m | Some delay \<Rightarrow> if delay < m then delay else m"
  have "0 \<le> fold ?f ds m" if "0 \<le> m" for m
    using that
  proof (induction ds arbitrary: m)
    case (Cons e ds)
    have "0 \<le> ?f e m" using Cons.prems assms by (auto split: option.split)
    then show ?case using Cons.IH by simp
  qed simp
  then show ?thesis by (simp add: shortest_delay_def)
qed

lemma domain_delay_nonneg:
  assumes "\<And>d s x. delay_of d s = Some x \<Longrightarrow> 0 \<le> x" "domain_delay delay_of now d s = Some x"
  shows "0 \<le> x"
  using assms by (auto simp: domain_delay_def rtd_DelayTillNextTask_def Let_def split: if_splits option.splits)

text \<open>Every task of a registered and enabled queue, those in the incoming queue included, is behind a fence.\<close>

definition all_fenced :: "sched \<Rightarrow> bool" where
  "all_fenced s \<longleftrightarrow> (\<forall>q w. \<not> tq_unregistered (tq s q) \<and> is_enabled (tq s q) \<longrightarrow>
     (\<forall>t\<in>set (queue_tasks (q, w) s). wq_fence (wq s (q, w)) \<noteq> EnqueueOrder_none \<and> wq_fence (wq s (q, w)) \<le> task_enqueue_order t))"

text \<open>No registered queue has incoming tasks behind an empty work queue.\<close>

definition all_reloaded :: "sched \<Rightarrow> bool" where
  "all_reloaded s \<longleftrightarrow> (\<forall>q. \<not> tq_unregistered (tq s q) \<and> dq_list (tasks (wq s (q, kImmediate))) = [] \<longrightarrow>
     dq_list (immediate_incoming_queue (tq s q)) = [])"

lemma reload_reloads:
  assumes "sm_inv s"
  shows "all_reloaded (ReloadEmptyWorkQueues s)"
  unfolding all_reloaded_def view_reads [symmetric] Reload_inv(2) [OF assms]
  by (auto simp: reloaded_view_def refill_view_def reload_view_def)

lemma nothing_visible_fenced:
  assumes i: "sm_inv s" and e: "\<forall>x. expected s x = None" and r: "all_reloaded s"
  shows "all_fenced s"
  unfolding all_fenced_def
proof (intro allI impI ballI)
  fix q w t
  assume q: "\<not> tq_unregistered (tq s q) \<and> is_enabled (tq s q)" and t: "t \<in> set (queue_tasks (q, w) s)"
  note I = sm_invD [OF i]
  have st: "work_queue_sets (wq s (q, w)) = Some w"
    using I(3) [of q] q by (auto simp: placed_def view_reads(6,7) view_reads(3) [symmetric] split: if_splits)
  obtain u us where u: "dq_list (tasks (wq s (q, w))) = u # us"
  proof (cases "dq_list (tasks (wq s (q, w)))")
    case Nil
    then have "queue_tasks (q, w) s = []" using r q by (cases w) (auto simp: all_reloaded_def queue_tasks_def)
    then show ?thesis using t by simp
  qed (rule that)
  have f: "wq_fence (wq s (q, w)) \<noteq> EnqueueOrder_none \<and> wq_fence (wq s (q, w)) \<le> task_enqueue_order u"
    using e [rule_format, of "(q, w)"] u st unfolding expected_list [OF I(1)] by (auto simp: EnqueueOrder_none_def split: if_splits)
  have "queue_tasks (q, w) s = u # (us @ (if w = kImmediate then dq_list (immediate_incoming_queue (tq s q)) else []))"
    using u by (simp add: queue_tasks_def)
  then have "task_enqueue_order u \<le> task_enqueue_order t"
    using lines_okD [OF I(5), of q w] t unfolding queue_tasks_waiting [symmetric]
    by (auto simp: orders_in_def sorted_wrt_append less_imp_le)
  then show "wq_fence (wq s (q, w)) \<noteq> EnqueueOrder_none \<and> wq_fence (wq s (q, w)) \<le> task_enqueue_order t" using f by auto
qed

lemma sm_delay_nonzero:
  assumes w: "world_inv s" and d: "sm_DelayTillNextTask delay_of now s = (d, u)" "d \<noteq> 0"
  shows "\<forall>x. expected u x = None" "d = shortest_delay delay_of now (registered_domains u) u" "all_reloaded u" "all_fenced u"
proof -
  have u: "u = ReloadEmptyWorkQueues s" "AllEnabledWorkQueuesAreEmpty u" "d = shortest_delay delay_of now (registered_domains u) u"
    using d by (auto simp: sm_DelayTillNextTask_def Let_def split: if_splits)
  have "sm_inv u" unfolding u(1) using w by (intro Reload_inv(1)) (simp add: world_inv_def)
  then have "in_sync u" by (rule sm_invD(2))
  then show "\<forall>x. expected u x = None" using u(2) Select_none [of u]
    by (simp add: SelectWorkQueueToService_def AllEnabledWorkQueuesAreEmpty_def)
  show "d = shortest_delay delay_of now (registered_domains u) u" by (rule u(3))
  show "all_reloaded u" unfolding u(1) using w by (intro reload_reloads) (simp add: world_inv_def)
  then show "all_fenced u" using nothing_visible_fenced [OF \<open>sm_inv u\<close> \<open>\<forall>x. expected u x = None\<close>] by blast
qed

lemma ticks_plus_le:
  assumes "is_int64 now" "is_int64 t" "now < t" "d \<le> t - now" "d \<noteq> int64_max"
  shows "ticks_plus now d \<le> t"
  using assms by (auto simp: ticks_plus_def SaturatedAdd_def TimeDelta_is_max_def TimeDelta_is_min_def is_int64_def Let_def)

lemma DoWorkImpl_checked:
  assumes "do_batch (sm_source n dcheck delay_of fast_forward) env fuel 0 a = Some (ts, c)" "task_execution_allowed a" "\<not> quit_pending c"
    "DoWorkImpl (sm_source n dcheck delay_of fast_forward) env fuel a = Some (d, r, now, b)"
  shows "sm_DelayTillNextTask delay_of now (source_state c) = (d, source_state b)" "now = clock (source_state c) 0"
  using assms by (auto simp: DoWorkImpl_def Let_def sm_source_def split: prod.splits)

section \<open>A new manager on a bound thread\<close>

definition demo_env :: "(sched, Task) surroundings" where
  "demo_env = \<lparr>RunTask = (\<lambda>t tc. Some tc), meanwhile = (\<lambda>tc. tc), event_Wait = (\<lambda>d tc. Some tc)\<rparr>"

definition demo_source :: "(sched, Task) task_source" where
  "demo_source = sm_source 0 False (\<lambda>_ _. None) (\<lambda>_ _ s. (False, s))"

definition demo_idle :: sched where
  "demo_idle = SequenceManagerImpl_new (\<lambda>_. 1) False"

definition demo_controller :: "sched thread_controller" where
  "demo_controller = tc_BindToCurrentThread (ThreadController_new demo_idle)"

lemma demo_idle_reads:
  "ReloadEmptyWorkQueues demo_idle = demo_idle" "AllEnabledWorkQueuesAreEmpty demo_idle" "registered_domains demo_idle = [0]"
  "heap_empty (wheap demo_idle 0)" "clock demo_idle 0 = 1" "events demo_idle = []" "reachable demo_idle" "wake_heaps 0 Map.empty demo_idle"
proof -
  show "reachable demo_idle" unfolding demo_idle_def by (rule reachable.start)
  show r: "registered_domains demo_idle = [0]" "clock demo_idle 0 = 1" "events demo_idle = []" "AllEnabledWorkQueuesAreEmpty demo_idle"
    "heap_empty (wheap demo_idle 0)"
    by (simp_all add: demo_idle_def SequenceManagerImpl_new_def RegisterTimeDomain_def AllEnabledWorkQueuesAreEmpty_def
        SmallPriorityQueue_init_def spq_empty_def TimeDomain_new_def heap_empty_def IntrusiveHeap_init_def)
  show "ReloadEmptyWorkQueues demo_idle = demo_idle"
    by (simp add: demo_idle_def SequenceManagerImpl_new_def RegisterTimeDomain_def ReloadEmptyWorkQueues_def RunActiveCallbacks_def
        AtomicFlagSet_new_def)
  show "wake_heaps 0 Map.empty demo_idle"
    using IntrusiveHeap_init_inv [of ScheduledDelayedWakeUp_le sw_queue wake_up_dflt "\<lambda>_. 0"]
    by (simp add: wake_heaps_def wake_entries_def high_res_def demo_idle_def SequenceManagerImpl_new_def RegisterTimeDomain_def TimeDomain_new_def)
qed

lemma demo_idle_ops:
  "TakeTaskImpl fuel dcheck demo_idle = Some (None, demo_idle)" "sm_DelayTillNextTask delay_of now demo_idle = (int64_max, demo_idle)"
proof -
  have m: "td_MoveReady fuel 0 now demo_idle = Some demo_idle" for now
    by (subst td_MoveReady.simps) (simp add: demo_idle_reads)
  have t: "take_loop fuel dcheck demo_idle = Some (None, demo_idle)"
    using demo_idle_reads(2) by (subst take_loop.simps) (simp add: SelectWorkQueueToService_def AllEnabledWorkQueuesAreEmpty_def)
  show "TakeTaskImpl fuel dcheck demo_idle = Some (None, demo_idle)"
    by (simp add: TakeTaskImpl_def demo_idle_reads sm_MoveReadyDelayedTasksToWorkQueues_def m t td_Empty_def)
  show "sm_DelayTillNextTask delay_of now demo_idle = (int64_max, demo_idle)"
    by (simp add: sm_DelayTillNextTask_def demo_idle_reads shortest_delay_def domain_delay_def rtd_DelayTillNextTask_def
        NextScheduledRunTime_def)
qed

lemma demo_controller_reads:
  "source_state demo_controller = demo_idle" "task_execution_allowed demo_controller" "work_batch_size demo_controller = 1"
  "quit_runloop_after demo_controller = int64_max" "\<not> quit_pending demo_controller" "active_run_loops demo_controller = []"
  "keep_running (pump demo_controller)" "runloop_count demo_controller = 0" "\<not> event_signaled (pump demo_controller)"
  by (simp_all add: demo_controller_def tc_BindToCurrentThread_def ThreadController_new_def BindToCurrentThread_def WorkDeduplicator_new_def
      MessagePumpDefault_new_def wd_flags Let_def)

lemma with_same_state: "source_state tc = s \<Longrightarrow> with_manager tc s = tc"
  by (simp add: with_manager_def)

lemma demo_batch:
  assumes "source_state tc = demo_idle" "work_batch_size tc = 1"
  shows "do_batch demo_source env (Suc fuel) 0 tc = Some ([], tc)"
  using assms by (simp add: do_batch_Suc demo_source_def sm_source_def demo_idle_ops with_same_state)

lemma demo_some_work:
  assumes "source_state tc = demo_idle" "work_batch_size tc = 1" "task_execution_allowed tc" "\<not> quit_pending tc"
  shows "DoSomeWork demo_source demo_env (Suc fuel) tc = Some (\<lparr>next_delayed_run_time = int64_max, recent_now = 0\<rparr>,
    tc\<lparr>deduplicator := \<lparr>wd_state = kIdle, last_work_check_result = kNotNeeded\<rparr>, next_delayed_do_work := int64_max\<rparr>)"
proof -
  let ?a = "tc\<lparr>deduplicator := OnWorkStarted (deduplicator tc)\<rparr>"
  have w: "DoWorkImpl demo_source demo_env (Suc fuel) ?a = Some (int64_max, False, 1, ?a)"
    using assms by (simp add: DoWorkImpl_def demo_batch Let_def WillCheckForMoreWork_def OnWorkStarted_def)
      (simp add: demo_source_def sm_source_def demo_idle_ops with_same_state demo_idle_reads)
  show ?thesis unfolding DoSomeWork_def w
    by (simp add: Let_def demo_env_def DidCheckForMoreWork_def OnWorkStarted_def wd_flags)
qed

lemma demo_idle_rest: "OnSystemIdle fast_forward quit demo_idle = (False, demo_idle)"
proof -
  have "memory_reclaim_scheduled demo_idle = False"
    by (simp add: demo_idle_def SequenceManagerImpl_new_def RegisterTimeDomain_def)
  then show ?thesis
    by (simp add: OnSystemIdle_def demo_idle_reads domain_fast_forward_def rtd_MaybeFastForwardToNextTask_def MaybeReclaimMemory_def)
qed

text \<open>The innermost loop is to quit when idle: it returns without a wait.\<close>

lemma demo_loop:
  assumes "source_state tc = demo_idle" "work_batch_size tc = 1" "task_execution_allowed tc" "\<not> quit_pending tc"
    "quit_runloop_after tc = int64_max" "keep_running (pump tc)" "active_run_loops tc = l # ls" "quit_when_idle_received (run_loops tc l)"
  shows "pump_loop demo_source demo_env (Suc (Suc fuel)) tc =
    Some (tc_Quit (tc\<lparr>deduplicator := \<lparr>wd_state = kIdle, last_work_check_result = kNotNeeded\<rparr>, next_delayed_do_work := int64_max,
      work_id := IncrementWorkId (work_id tc)\<rparr>))"
proof -
  let ?b = "tc\<lparr>deduplicator := \<lparr>wd_state = kIdle, last_work_check_result = kNotNeeded\<rparr>, next_delayed_do_work := int64_max\<rparr>"
  have "DoIdleWork demo_source ?b = Some (False, tc_Quit (?b\<lparr>work_id := IncrementWorkId (work_id tc)\<rparr>))"
    using assms by (simp add: DoIdleWork_def Let_def ShouldQuitWhenIdle_def demo_source_def sm_source_def demo_idle_rest with_same_state)
  then show ?thesis using demo_some_work [OF assms(1-4), of fuel] assms(6) by (simp add: is_immediate_def)
qed

text \<open>Inside loop 0, with loop \<open>l\<close> to quit when idle.\<close>

definition demo_running :: "nat \<Rightarrow> sched thread_controller" where
  "demo_running l = upd_loop l (\<lambda>r. r\<lparr>quit_when_idle_received := True\<rparr>) (snd (BeforeRun demo_source 0 demo_controller))"

lemma demo_running_reads:
  "source_state (demo_running l) = demo_idle" "work_batch_size (demo_running l) = 1" "task_execution_allowed (demo_running l)"
  "\<not> quit_pending (demo_running l)" "quit_runloop_after (demo_running l) = int64_max" "keep_running (pump (demo_running l))"
  "active_run_loops (demo_running l) = [0]" "quit_when_idle_received (run_loops (demo_running l) l)" "\<not> quit_called (run_loops (demo_running l) k)"
  "\<not> nesting_observer (demo_running l)" "\<not> rl_nestable_tasks_allowed (run_loops (demo_running l) k)"
  by (simp_all add: demo_running_def BeforeRun_def demo_controller_def tc_BindToCurrentThread_def ThreadController_new_def
      BindToCurrentThread_def WorkDeduplicator_new_def MessagePumpDefault_new_def wd_flags Let_def upd_loop_def)

end
