(* ===== verification/Queue_Handle.thy ===== *)
theory Queue_Handle
  imports Manager_Steps
begin

text \<open>
  The model of \<open>task_queue.cc\<close>: the reference-counted handle through which clients use a task queue. It
  owns the queue until it is shut down; without a queue most operations answer a default and do
  nothing. Voters decide together whether the queue is enabled. Reading through the pointer to the
  queue after it was given away is \<^term>\<open>None\<close>.
\<close>

declare split_paired_All [simp del] split_paired_Ex [simp del]

section \<open>State\<close>

text \<open>\<open>impl\<close> is the queue the handle owns, \<open>manager_alive\<close> whether the weak pointer to the manager is
  valid.\<close>

record queue_handle =
  impl :: "nat option"
  manager_alive :: bool
  voter_count :: int
  enabled_voter_count :: int
  handle_name :: string

definition TaskQueue_new :: "nat option \<Rightarrow> sched \<Rightarrow> queue_handle" where
  "TaskQueue_new q s =
     \<lparr>impl = q, manager_alive = (q \<noteq> None), voter_count = 0, enabled_voter_count = 0,
      handle_name = (case q of None \<Rightarrow> [] | Some q \<Rightarrow> tq_name (tq s q))\<rparr>"

section \<open>Voters\<close>

text \<open>A voter is its vote.\<close>

definition AreAllQueueEnabledVotersEnabled :: "queue_handle \<Rightarrow> bool" where
  "AreAllQueueEnabledVotersEnabled h = (enabled_voter_count h = voter_count h)"

definition AddQueueEnabledVoter :: "bool \<Rightarrow> queue_handle \<Rightarrow> queue_handle" where
  "AddQueueEnabledVoter voter_is_enabled h =
     (let h = h\<lparr>voter_count := voter_count h + 1\<rparr>
      in if voter_is_enabled then h\<lparr>enabled_voter_count := enabled_voter_count h + 1\<rparr> else h)"

definition RemoveQueueEnabledVoter :: "bool \<Rightarrow> queue_handle \<times> sched \<Rightarrow> queue_handle \<times> sched" where
  "RemoveQueueEnabledVoter voter_is_enabled hs =
     (let (h, s) = hs in
      case impl h of None \<Rightarrow> (h, s)
      | Some q \<Rightarrow>
          let was_enabled = AreAllQueueEnabledVotersEnabled h;
              h = (if voter_is_enabled then h\<lparr>enabled_voter_count := enabled_voter_count h - 1\<rparr> else h);
              h = h\<lparr>voter_count := voter_count h - 1\<rparr>;
              is_enabled = AreAllQueueEnabledVotersEnabled h
          in (h, if was_enabled \<noteq> is_enabled then SetQueueEnabled q is_enabled s else s))"

definition OnQueueEnabledVoteChanged :: "bool \<Rightarrow> queue_handle \<times> sched \<Rightarrow> (queue_handle \<times> sched) option" where
  "OnQueueEnabledVoteChanged enabled hs =
     (let (h, s) = hs;
          was_enabled = AreAllQueueEnabledVotersEnabled h;
          h = (if enabled then h\<lparr>enabled_voter_count := enabled_voter_count h + 1\<rparr>
               else h\<lparr>enabled_voter_count := enabled_voter_count h - 1\<rparr>);
          is_enabled = AreAllQueueEnabledVotersEnabled h
      in if was_enabled \<noteq> is_enabled
         then case impl h of None \<Rightarrow> None | Some q \<Rightarrow> Some (h, SetQueueEnabled q is_enabled s)
         else Some (h, s))"

definition CreateQueueEnabledVoter :: "queue_handle \<Rightarrow> bool option \<times> queue_handle" where
  "CreateQueueEnabledVoter h =
     (case impl h of None \<Rightarrow> (None, h) | Some q \<Rightarrow> (Some True, AddQueueEnabledVoter True h))"

definition QueueEnabledVoter_destroy :: "bool \<Rightarrow> queue_handle \<times> sched \<Rightarrow> queue_handle \<times> sched" where
  "QueueEnabledVoter_destroy vote hs = RemoveQueueEnabledVoter vote hs"

definition SetVoteToEnable :: "bool \<Rightarrow> bool \<Rightarrow> queue_handle \<times> sched \<Rightarrow> (bool \<times> queue_handle \<times> sched) option" where
  "SetVoteToEnable enabled vote hs =
     (if enabled = vote then Some (vote, hs)
      else map_option (\<lambda>hs. (enabled, hs)) (OnQueueEnabledVoteChanged enabled hs))"

section \<open>Shutting down\<close>

definition TakeTaskQueueImpl :: "queue_handle \<Rightarrow> nat option \<times> queue_handle" where
  "TakeTaskQueueImpl h = (impl h, h\<lparr>impl := None\<rparr>)"

definition handle_ShutdownTaskQueueGracefully :: "queue_handle \<times> sched \<Rightarrow> queue_handle \<times> sched" where
  "handle_ShutdownTaskQueueGracefully hs =
     (let (h, s) = hs in
      case impl h of None \<Rightarrow> (h, s)
      | Some q \<Rightarrow>
          if IsUnregistered q s then (h, s)
          else let s = SetOnNextWakeUpChangedCallback q False s;
                   (_, h) = TakeTaskQueueImpl h
               in (h, ShutdownTaskQueueGracefully q s))"

definition TaskQueue_destroy :: "queue_handle \<times> sched \<Rightarrow> queue_handle \<times> sched" where
  "TaskQueue_destroy hs = handle_ShutdownTaskQueueGracefully hs"

definition handle_ShutdownTaskQueue :: "queue_handle \<times> sched \<Rightarrow> queue_handle \<times> sched" where
  "handle_ShutdownTaskQueue hs =
     (let (h, s) = hs in
      case impl h of None \<Rightarrow> (h, s)
      | Some q \<Rightarrow>
          let (_, h) = TakeTaskQueueImpl h
          in if \<not> manager_alive h then (h, s) else (h, UnregisterTaskQueueImpl q s))"

section \<open>Forwarded operations\<close>

text \<open>The runner of a handle without a queue accepts nothing.\<close>

definition NullTaskRunner_PostDelayedTask :: "sched \<Rightarrow> (bool \<times> sched) option" where
  "NullTaskRunner_PostDelayedTask s = Some (False, s)"

definition CreateTaskRunner :: "queue_handle \<Rightarrow> u8 \<Rightarrow> string \<Rightarrow> user_closure \<Rightarrow> int \<Rightarrow> current_thread \<Rightarrow> sched \<Rightarrow> (bool \<times> sched) option" where
  "CreateTaskRunner h ty =
     (case impl h of None \<Rightarrow> (\<lambda>location callback delay thread. NullTaskRunner_PostDelayedTask)
      | Some q \<Rightarrow> TaskRunner_PostDelayedTask q ty)"

definition handle_IsQueueEnabled :: "queue_handle \<Rightarrow> sched \<Rightarrow> bool" where
  "handle_IsQueueEnabled h s = (case impl h of None \<Rightarrow> False | Some q \<Rightarrow> IsQueueEnabled q s)"

definition handle_IsEmpty :: "queue_handle \<Rightarrow> sched \<Rightarrow> bool" where
  "handle_IsEmpty h s = (case impl h of None \<Rightarrow> True | Some q \<Rightarrow> tq_IsEmpty q s)"

definition handle_GetNumberOfPendingTasks :: "queue_handle \<Rightarrow> sched \<Rightarrow> nat" where
  "handle_GetNumberOfPendingTasks h s = (case impl h of None \<Rightarrow> 0 | Some q \<Rightarrow> GetNumberOfPendingTasks q s)"

definition handle_HasTaskToRunImmediately :: "queue_handle \<Rightarrow> sched \<Rightarrow> bool" where
  "handle_HasTaskToRunImmediately h s = (case impl h of None \<Rightarrow> False | Some q \<Rightarrow> HasTaskToRunImmediately q s)"

definition handle_GetNextScheduledWakeUp :: "queue_handle \<Rightarrow> sched \<Rightarrow> int option" where
  "handle_GetNextScheduledWakeUp h s = (case impl h of None \<Rightarrow> None | Some q \<Rightarrow> GetNextScheduledWakeUp q s)"

definition handle_SetQueuePriority :: "nat \<Rightarrow> queue_handle \<Rightarrow> sched \<Rightarrow> sched" where
  "handle_SetQueuePriority priority h s = (case impl h of None \<Rightarrow> s | Some q \<Rightarrow> SetQueuePriority q priority s)"

definition handle_GetQueuePriority :: "queue_handle \<Rightarrow> sched \<Rightarrow> nat" where
  "handle_GetQueuePriority h s = (case impl h of None \<Rightarrow> kLowPriority | Some q \<Rightarrow> GetQueuePriority q s)"

definition handle_SetTimeDomain :: "nat \<Rightarrow> queue_handle \<Rightarrow> sched \<Rightarrow> sched" where
  "handle_SetTimeDomain d h s = (case impl h of None \<Rightarrow> s | Some q \<Rightarrow> SetTimeDomain q d s)"

definition handle_GetTimeDomain :: "queue_handle \<Rightarrow> sched \<Rightarrow> nat option" where
  "handle_GetTimeDomain h s = (case impl h of None \<Rightarrow> None | Some q \<Rightarrow> time_domain (tq s q))"

definition handle_InsertFence :: "insert_fence_position \<Rightarrow> queue_handle \<Rightarrow> sched \<Rightarrow> sched" where
  "handle_InsertFence position h s = (case impl h of None \<Rightarrow> s | Some q \<Rightarrow> tq_InsertFence q position s)"

definition handle_InsertFenceAt :: "int \<Rightarrow> queue_handle \<Rightarrow> sched \<Rightarrow> sched option" where
  "handle_InsertFenceAt time h s = (case impl h of None \<Rightarrow> None | Some q \<Rightarrow> Some (InsertFenceAt q time s))"

definition handle_RemoveFence :: "queue_handle \<Rightarrow> sched \<Rightarrow> sched" where
  "handle_RemoveFence h s = (case impl h of None \<Rightarrow> s | Some q \<Rightarrow> tq_RemoveFence q s)"

definition handle_HasActiveFence :: "queue_handle \<Rightarrow> sched \<Rightarrow> bool" where
  "handle_HasActiveFence h s = (case impl h of None \<Rightarrow> False | Some q \<Rightarrow> HasActiveFence q s)"

definition handle_BlockedByFence :: "queue_handle \<Rightarrow> sched \<Rightarrow> bool" where
  "handle_BlockedByFence h s = (case impl h of None \<Rightarrow> False | Some q \<Rightarrow> tq_BlockedByFence q s)"

definition handle_SetObserver :: "bool \<Rightarrow> queue_handle \<Rightarrow> sched \<Rightarrow> sched" where
  "handle_SetObserver observer h s =
     (case impl h of None \<Rightarrow> s | Some q \<Rightarrow> SetOnNextWakeUpChangedCallback q observer s)"

section \<open>Task timing\<close>

datatype timing_state = NotStarted | Running | Finished

record task_timing =
  timing_state :: timing_state
  has_wall_time :: bool
  has_thread_time :: bool
  start_time :: int
  end_time :: int
  start_thread_time :: int
  end_thread_time :: int

definition TaskTiming_new :: "bool \<Rightarrow> bool \<Rightarrow> task_timing" where
  "TaskTiming_new wall thread =
     \<lparr>timing_state = NotStarted, has_wall_time = wall, has_thread_time = thread, start_time = 0, end_time = 0,
      start_thread_time = 0, end_thread_time = 0\<rparr>"

definition RecordTaskStart :: "int \<Rightarrow> int \<Rightarrow> task_timing \<Rightarrow> task_timing" where
  "RecordTaskStart now thread_now t =
     (let t = t\<lparr>timing_state := Running\<rparr>;
          t = (if has_wall_time t then t\<lparr>start_time := now\<rparr> else t)
      in if has_thread_time t then t\<lparr>start_thread_time := thread_now\<rparr> else t)"

definition RecordTaskEnd :: "int \<Rightarrow> int \<Rightarrow> task_timing \<Rightarrow> task_timing" where
  "RecordTaskEnd now thread_now t =
     (if timing_state t = Finished then t
      else let t = t\<lparr>timing_state := Finished\<rparr>;
               t = (if has_wall_time t then t\<lparr>end_time := now\<rparr> else t)
           in if has_thread_time t then t\<lparr>end_thread_time := thread_now\<rparr> else t)"

section \<open>A vote\<close>

text \<open>A sequence of votes: voters join with a vote for the queue, change their vote and leave. The list
  holds the votes of the voters that are there; an operation of a voter that is not does nothing.\<close>

datatype vote_op = NewVoter | Vote nat bool | DropVoter nat

type_synonym election = "bool list \<times> queue_handle \<times> sched"

fun run_vote :: "vote_op \<Rightarrow> election \<Rightarrow> election option" where
  "run_vote NewVoter (vs, h, s) =
     (case CreateQueueEnabledVoter h of (None, h) \<Rightarrow> Some (vs, h, s) | (Some v, h) \<Rightarrow> Some (vs @ [v], h, s))"
| "run_vote (Vote i enabled) (vs, h, s) =
     (if i < length vs
      then map_option (\<lambda>(v, hs). (vs[i := v], hs)) (SetVoteToEnable enabled (vs ! i) (h, s)) else Some (vs, h, s))"
| "run_vote (DropVoter i) (vs, h, s) =
     (if i < length vs
      then Some (take i vs @ drop (Suc i) vs, QueueEnabledVoter_destroy (vs ! i) (h, s)) else Some (vs, h, s))"

fun run_votes :: "vote_op list \<Rightarrow> election \<Rightarrow> election option" where
  "run_votes [] e = Some e"
| "run_votes (v # vs) e = (case run_vote v e of None \<Rightarrow> None | Some e \<Rightarrow> run_votes vs e)"

definition election_inv :: "nat \<Rightarrow> election \<Rightarrow> bool" where
  "election_inv q e \<longleftrightarrow> (case e of (vs, h, s) \<Rightarrow>
     impl h = Some q \<and> voter_count h = int (length vs) \<and> enabled_voter_count h = int (count_list vs True) \<and>
     reachable s \<and> \<not> tq_unregistered (tq s q) \<and> (is_enabled (tq s q) \<longleftrightarrow> set vs \<subseteq> {True}))"

lemma unanimous: "count_list vs True = length vs \<longleftrightarrow> set vs \<subseteq> {True}"
proof (induction vs)
  case (Cons v vs)
  have "count_list vs True \<le> length vs" by (rule count_le_length)
  then show ?case using Cons by auto
qed simp

lemma enable_reachable:
  assumes "reachable s" "\<not> tq_unregistered (tq s q)"
  shows "reachable (SetQueueEnabled q b s)" "\<not> tq_unregistered (tq (SetQueueEnabled q b s) q)" "is_enabled (tq (SetQueueEnabled q b s) q) = b"
proof -
  have i: "sm_inv s" using reachable_world [OF assms(1)] by (simp add: world_inv_def)
  show "reachable (SetQueueEnabled q b s)" by (rule reachable.step [OF assms(1) sm_step.enable [OF assms(2)]])
  have "live_queues (view (SetQueueEnabled q b s)) = live_queues (view s)"
    using same_runD [OF same_run_manage(1) [OF same_run_refl]] by blast
  then show "\<not> tq_unregistered (tq (SetQueueEnabled q b s) q)" using assms(2) by (auto simp: live_queues_def view_reads)
  show "is_enabled (tq (SetQueueEnabled q b s) q) = b"
    by (rule SetQueueEnabled_sync(4) [OF sm_invD(1,2) [OF i] placed_enabled_ok [OF sm_invD(3) [OF i] assms(2)] refl])
qed

text \<open>Every change of a vote sets the queue to the unanimity of the new votes.\<close>

lemma election_set:
  assumes "election_inv q (vs, h, s)" "impl h' = Some q" "voter_count h' = int (length ws)" "enabled_voter_count h' = int (count_list ws True)"
    "was \<longleftrightarrow> set vs \<subseteq> {True}" "now \<longleftrightarrow> set ws \<subseteq> {True}"
  shows "election_inv q (ws, h', if was \<noteq> now then SetQueueEnabled q now s else s)"
  using assms enable_reachable [of s q now] by (auto simp: election_inv_def)

lemma election_agrees:
  "election_inv q (vs, h, s) \<Longrightarrow> AreAllQueueEnabledVotersEnabled h \<longleftrightarrow> set vs \<subseteq> {True}"
  by (simp add: election_inv_def AreAllQueueEnabledVotersEnabled_def unanimous [symmetric])

lemma agrees_iff:
  "voter_count h = int (length vs) \<Longrightarrow> enabled_voter_count h = int (count_list vs True) \<Longrightarrow>
    AreAllQueueEnabledVotersEnabled h \<longleftrightarrow> set vs \<subseteq> {True}"
  by (simp add: AreAllQueueEnabledVotersEnabled_def unanimous [symmetric])

lemma count_update:
  assumes "i < length vs" "vs ! i \<noteq> b"
  shows "int (count_list (vs[i := b]) True) = int (count_list vs True) + (if b then 1 else - 1)"
proof -
  obtain xs ys v where vs: "vs = xs @ v # ys" "length xs = i" by (metis assms(1) id_take_nth_drop length_take min.absorb4)
  then show ?thesis using assms(2) by (auto simp: nth_append)
qed

lemma count_drop:
  assumes "i < length vs"
  shows "int (count_list (take i vs @ drop (Suc i) vs) True) = int (count_list vs True) - (if vs ! i then 1 else 0)"
    "int (length (take i vs @ drop (Suc i) vs)) = int (length vs) - 1"
proof -
  have "count_list vs True = count_list (take i vs @ vs ! i # drop (Suc i) vs) True" using id_take_nth_drop [OF assms] by simp
  then show "int (count_list (take i vs @ drop (Suc i) vs) True) = int (count_list vs True) - (if vs ! i then 1 else 0)" by simp
  show "int (length (take i vs @ drop (Suc i) vs)) = int (length vs) - 1" using assms by simp
qed

lemma run_vote_inv:
  assumes inv: "election_inv q e"
  shows "\<exists>e'. run_vote v e = Some e' \<and> election_inv q e'"
proof -
  obtain vs h s where e: "e = (vs, h, s)" by (cases e)
  note i = inv [unfolded e]
  have h: "impl h = Some q" "voter_count h = int (length vs)" "enabled_voter_count h = int (count_list vs True)"
    using i by (simp_all add: election_inv_def)
  show ?thesis
  proof (cases v)
    case NewVoter
    then show ?thesis using i by (simp add: e CreateQueueEnabledVoter_def AddQueueEnabledVoter_def election_inv_def Let_def)
  next
    case (Vote n b)
    show ?thesis
    proof (cases "n < length vs \<and> vs ! n \<noteq> b")
      case True
      let ?h = "h\<lparr>enabled_voter_count := enabled_voter_count h + (if b then 1 else - 1)\<rparr>"
      have c: "voter_count ?h = int (length (vs[n := b]))" "enabled_voter_count ?h = int (count_list (vs[n := b]) True)"
        using h count_update True by simp_all
      have "run_vote v e = Some (vs[n := b], ?h, if AreAllQueueEnabledVotersEnabled h \<noteq> AreAllQueueEnabledVotersEnabled ?h
          then SetQueueEnabled q (AreAllQueueEnabledVotersEnabled ?h) s else s)"
        using True h(1) by (simp add: Vote e SetVoteToEnable_def OnQueueEnabledVoteChanged_def Let_def)
      moreover have "election_inv q (vs[n := b], ?h, if AreAllQueueEnabledVotersEnabled h \<noteq> AreAllQueueEnabledVotersEnabled ?h
          then SetQueueEnabled q (AreAllQueueEnabledVotersEnabled ?h) s else s)"
        by (rule election_set [OF i _ c election_agrees [OF i] agrees_iff [OF c]]) (simp add: h)
      ultimately show ?thesis by blast
    next
      case False
      then have "n < length vs \<Longrightarrow> b = (vs ! n)" by auto
      then have "run_vote v e = Some e" by (simp add: Vote e SetVoteToEnable_def)
      then show ?thesis using inv by blast
    qed
  next
    case (DropVoter n)
    show ?thesis
    proof (cases "n < length vs")
      case True
      let ?ws = "take n vs @ drop (Suc n) vs"
      let ?h = "h\<lparr>enabled_voter_count := enabled_voter_count h - (if vs ! n then 1 else 0), voter_count := voter_count h - 1\<rparr>"
      have c: "voter_count ?h = int (length ?ws)" "enabled_voter_count ?h = int (count_list ?ws True)"
        unfolding count_drop [OF True] using h by simp_all
      have "run_vote v e = Some (?ws, ?h, if AreAllQueueEnabledVotersEnabled h \<noteq> AreAllQueueEnabledVotersEnabled ?h
          then SetQueueEnabled q (AreAllQueueEnabledVotersEnabled ?h) s else s)"
        using True h(1) by (simp add: DropVoter e QueueEnabledVoter_destroy_def RemoveQueueEnabledVoter_def Let_def)
      moreover have "election_inv q (?ws, ?h, if AreAllQueueEnabledVotersEnabled h \<noteq> AreAllQueueEnabledVotersEnabled ?h
          then SetQueueEnabled q (AreAllQueueEnabledVotersEnabled ?h) s else s)"
        by (rule election_set [OF i _ c election_agrees [OF i] agrees_iff [OF c]]) (simp add: h)
      ultimately show ?thesis by blast
    next
      case False
      then show ?thesis using i by (simp add: DropVoter e)
    qed
  qed
qed

theorem run_votes_inv:
  assumes "election_inv q e"
  shows "\<exists>e'. run_votes vs e = Some e' \<and> election_inv q e'"
  using assms
proof (induction vs arbitrary: e)
  case (Cons v vs)
  obtain e' where "run_vote v e = Some e'" "election_inv q e'" using run_vote_inv [OF Cons.prems] by blast
  then show ?case using Cons.IH by simp
qed simp

end
