(* ===== verification/Task_Traits.thy ===== *)
theory Task_Traits
  imports Base_Prelude
begin

text \<open>
  The enumerations of \<open>base/task/task_traits.h\<close> that the application's scheduler and the thread pool
  share. \<open>TaskPriority\<close> is ordered from lowest to highest.
\<close>

datatype task_priority = BEST_EFFORT | USER_VISIBLE | USER_BLOCKING

fun priority_index :: "task_priority \<Rightarrow> nat" where
  "priority_index BEST_EFFORT = 0"
| "priority_index USER_VISIBLE = 1"
| "priority_index USER_BLOCKING = 2"

lemma priority_index_inject [simp]: "priority_index p = priority_index r \<longleftrightarrow> p = r"
  by (cases p; cases r) simp_all

instantiation task_priority :: linorder
begin

definition less_eq_task_priority :: "task_priority \<Rightarrow> task_priority \<Rightarrow> bool" where
  "less_eq_task_priority p r \<longleftrightarrow> priority_index p \<le> priority_index r"

definition less_task_priority :: "task_priority \<Rightarrow> task_priority \<Rightarrow> bool" where
  "less_task_priority p r \<longleftrightarrow> priority_index p < priority_index r"

instance
  by standard (auto simp: less_eq_task_priority_def less_task_priority_def)

end

datatype task_shutdown_behavior = CONTINUE_ON_SHUTDOWN | SKIP_ON_SHUTDOWN | BLOCK_SHUTDOWN

datatype thread_policy = PREFER_BACKGROUND | MUST_USE_FOREGROUND

datatype execution_mode = kParallel | kSequenced | kSingleThread

end
