(* ===== verification/App_Scheduler.thy ===== *)
theory App_Scheduler
  imports Queue_Handle Manager_Example Task_Traits
begin

text \<open>
  The scheduler of the application, \<open>app_scheduler/*\<close>: the traits of a task as they are packed into
  bytes, the task queues of the application's UI thread with their voters, and the executor that maps
  the traits of a task to one of the queues. Addresses of new queues come from an allocator \<open>new\<close>.
\<close>

section \<open>Task traits\<close>

text \<open>Values of the enumerations \<open>WellKnownThreadID\<close> and \<open>AppTaskType\<close> are the integers they are stored
  as: a value read from bytes need not be an enumerator.\<close>

definition ThreadID_UI :: int where "ThreadID_UI = 0"
definition ThreadID_COUNT :: int where "ThreadID_COUNT = 1"
definition AppTaskType_kDefault :: int where "AppTaskType_kDefault = 0"
definition kAppTaskType_Last :: int where "kAppTaskType_Last = 1"

record task_traits_extension =
  browser_thread :: int
  app_task_type :: int
  nestable_trait :: bool

record extension_storage =
  extension_id :: u8
  extension_data :: "u8 list"

definition kExtensionId :: u8 where "kExtensionId = 1"

definition kStorageSize :: nat where "kStorageSize = 8"

text \<open>The aggregate initialiser fills the array up with zeros.\<close>

definition Serialize :: "task_traits_extension \<Rightarrow> extension_storage" where
  "Serialize e =
     \<lparr>extension_id = kExtensionId,
      extension_data =
        (let bytes = [word_of_int (browser_thread e), word_of_int (app_task_type e), of_bool (nestable_trait e)]
         in bytes @ replicate (kStorageSize - length bytes) 0)\<rparr>"

definition Parse :: "extension_storage \<Rightarrow> task_traits_extension" where
  "Parse x =
     \<lparr>browser_thread = uint (extension_data x ! 0), app_task_type = uint (extension_data x ! 1),
      nestable_trait = (extension_data x ! 2 \<noteq> 0)\<rparr>"

record task_traits =
  traits_priority :: task_priority
  traits_extension :: extension_storage

section \<open>Queues of a thread\<close>

datatype queue_type = QT_kDefault | QT_kBestEffort | QT_kUserBlocking | QT_kMaxValue

fun queue_type_index :: "queue_type \<Rightarrow> nat" where
  "queue_type_index QT_kDefault = 0"
| "queue_type_index QT_kBestEffort = 1"
| "queue_type_index QT_kUserBlocking = 2"
| "queue_type_index QT_kMaxValue = 3"

definition kNumQueueTypes :: nat where "kNumQueueTypes = queue_type_index QT_kMaxValue"

definition queue_type_of :: "nat \<Rightarrow> queue_type" where
  "queue_type_of i =
     (if i = 0 then QT_kDefault else if i = 1 then QT_kBestEffort else if i = 2 then QT_kUserBlocking else QT_kMaxValue)"

definition GetControlTaskQueueName :: "int \<Rightarrow> string" where
  "GetControlTaskQueueName thread_id = (if thread_id = ThreadID_UI then ''ui_control_tq'' else [])"

definition GetRunAllPendingTaskQueueName :: "int \<Rightarrow> string" where
  "GetRunAllPendingTaskQueueName thread_id = (if thread_id = ThreadID_UI then ''ui_run_all_pending_tq'' else [])"

fun GetUITaskQueueName :: "queue_type \<Rightarrow> string" where
  "GetUITaskQueueName QT_kBestEffort = ''ui_best_effort_tq''"
| "GetUITaskQueueName QT_kDefault = ''ui_default_tq''"
| "GetUITaskQueueName QT_kUserBlocking = ''ui_user_blocking_tq''"
| "GetUITaskQueueName QT_kMaxValue = []"

definition GetTaskQueueName :: "int \<Rightarrow> queue_type \<Rightarrow> string" where
  "GetTaskQueueName thread_id queue_type = (if thread_id = ThreadID_UI then GetUITaskQueueName queue_type else [])"

definition GetDefaultQueueName :: "int \<Rightarrow> string" where
  "GetDefaultQueueName thread_id = (if thread_id = ThreadID_UI then ''ui_thread_tq'' else [])"

record app_task_queues =
  app_queues_and_voters :: "(queue_handle \<times> bool option) list"
  control_queue :: queue_handle
  default_task_queue :: queue_handle
  run_all_pending_tasks_queue :: queue_handle

definition app_spec :: "string \<Rightarrow> nat \<Rightarrow> queue_spec" where
  "app_spec name d =
     \<lparr>spec_name = name, spec_should_monitor_quiescence = False, spec_time_domain = Some d,
      spec_should_notify_observers = True, spec_delayed_fence_allowed = False\<rparr>"

definition CreateTaskQueue :: "nat \<Rightarrow> queue_spec \<Rightarrow> sched \<Rightarrow> queue_handle \<times> sched" where
  "CreateTaskQueue q spec s = (let s = CreateTaskQueueImpl q spec s in (TaskQueue_new (Some q) s, s))"

text \<open>A voter that was not created is a null pointer, and voting through it is \<^term>\<open>None\<close>.\<close>

definition app_vote :: "bool \<Rightarrow> queue_handle \<times> bool option \<Rightarrow> sched \<Rightarrow> ((queue_handle \<times> bool option) \<times> sched) option" where
  "app_vote enabled hv s =
     (case snd hv of None \<Rightarrow> None
      | Some v \<Rightarrow> map_option (\<lambda>(v, h, s). ((h, Some v), s)) (SetVoteToEnable enabled v (fst hv, s)))"

fun create_app_queues :: "int \<Rightarrow> nat \<Rightarrow> (nat \<Rightarrow> nat) \<Rightarrow> nat list \<Rightarrow> sched \<Rightarrow>
    ((queue_handle \<times> bool option) list \<times> sched) option" where
  "create_app_queues thread_id d new [] s = Some ([], s)"
| "create_app_queues thread_id d new (i # is) s =
     (let (h, s) = CreateTaskQueue (new i) (app_spec (GetTaskQueueName thread_id (queue_type_of i)) d) s;
          (v, h) = CreateQueueEnabledVoter h
      in case app_vote False (h, v) s of None \<Rightarrow> None
         | Some (hv, s) \<Rightarrow>
             (case create_app_queues thread_id d new is s of None \<Rightarrow> None
              | Some (hvs, s) \<Rightarrow> Some (hv # hvs, s)))"

definition AppTaskQueues_new :: "int \<Rightarrow> nat \<Rightarrow> (nat \<Rightarrow> nat) \<Rightarrow> sched \<Rightarrow> (app_task_queues \<times> sched) option" where
  "AppTaskQueues_new thread_id d new s =
     (case create_app_queues thread_id d new [0..<kNumQueueTypes] s of None \<Rightarrow> None
      | Some (hvs, s) \<Rightarrow>
          let (default, s) = CreateTaskQueue (new 3) (app_spec (GetDefaultQueueName thread_id) d) s;
              s = handle_SetQueuePriority kBestEffortPriority (fst (hvs ! queue_type_index QT_kBestEffort)) s;
              (control, s) = CreateTaskQueue (new 4) (app_spec (GetControlTaskQueueName thread_id) d) s;
              s = handle_SetQueuePriority kControlPriority control s;
              (run_all, s) = CreateTaskQueue (new 5) (app_spec (GetRunAllPendingTaskQueueName thread_id) d) s;
              s = handle_SetQueuePriority kBestEffortPriority run_all s
          in Some (\<lparr>app_queues_and_voters = hvs, control_queue = control, default_task_queue = default,
                    run_all_pending_tasks_queue = run_all\<rparr>, s))"

fun vote_all :: "(nat \<Rightarrow> bool) \<Rightarrow> nat \<Rightarrow> (queue_handle \<times> bool option) list \<Rightarrow> sched \<Rightarrow>
    ((queue_handle \<times> bool option) list \<times> sched) option" where
  "vote_all which i [] s = Some ([], s)"
| "vote_all which i (hv # hvs) s =
     (case if which i then app_vote True hv s else Some (hv, s) of None \<Rightarrow> None
      | Some (hv, s) \<Rightarrow>
          (case vote_all which (i + 1) hvs s of None \<Rightarrow> None | Some (hvs, s) \<Rightarrow> Some (hv # hvs, s)))"

definition EnableAllQueues :: "app_task_queues \<times> sched \<Rightarrow> (app_task_queues \<times> sched) option" where
  "EnableAllQueues as =
     (let (a, s) = as
      in map_option (\<lambda>(hvs, s). (a\<lparr>app_queues_and_voters := hvs\<rparr>, s)) (vote_all (\<lambda>i. True) 0 (app_queues_and_voters a) s))"

definition EnableAllExceptBestEffortQueues :: "app_task_queues \<times> sched \<Rightarrow> (app_task_queues \<times> sched) option" where
  "EnableAllExceptBestEffortQueues as =
     (let (a, s) = as
      in map_option (\<lambda>(hvs, s). (a\<lparr>app_queues_and_voters := hvs\<rparr>, s))
           (vote_all (\<lambda>i. i \<noteq> queue_type_index QT_kBestEffort) 0 (app_queues_and_voters a) s))"

definition shutdown_handle :: "queue_handle \<Rightarrow> sched \<Rightarrow> sched" where
  "shutdown_handle h s = snd (handle_ShutdownTaskQueue (h, s))"

definition AppTaskQueues_destroy :: "app_task_queues \<times> sched \<Rightarrow> sched" where
  "AppTaskQueues_destroy as =
     (let (a, s) = as;
          s = fold (\<lambda>hv. shutdown_handle (fst hv)) (app_queues_and_voters a) s;
          s = shutdown_handle (control_queue a) s;
          s = shutdown_handle (default_task_queue a) s
      in shutdown_handle (run_all_pending_tasks_queue a) s)"

section \<open>Handles and the executor\<close>

text \<open>A task runner is the queue it posts to; the runner of a handle without a queue is \<^term>\<open>None\<close>.\<close>

record app_handle =
  control_task_runner :: "nat option"
  app_default_task_runner :: "nat option"
  app_task_runners :: "nat option list"

definition CreateAppTaskRunners :: "app_task_queues \<Rightarrow> nat option list" where
  "CreateAppTaskRunners a = map (\<lambda>hv. impl (fst hv)) (app_queues_and_voters a)"

definition CreateHandle :: "app_task_queues \<Rightarrow> app_handle" where
  "CreateHandle a =
     \<lparr>control_task_runner = impl (control_queue a), app_default_task_runner = impl (default_task_queue a),
      app_task_runners = CreateAppTaskRunners a\<rparr>"

definition GetAppTaskRunner :: "app_handle \<Rightarrow> queue_type \<Rightarrow> nat option" where
  "GetAppTaskRunner h t = app_task_runners h ! queue_type_index t"

definition runner_post :: "nat option \<Rightarrow> nestable \<Rightarrow> string \<Rightarrow> user_closure \<Rightarrow> int \<Rightarrow> current_thread \<Rightarrow> sched \<Rightarrow> (bool \<times> sched) option" where
  "runner_post runner n location callback delay thread s =
     (case runner of None \<Rightarrow> NullTaskRunner_PostDelayedTask s
      | Some q \<Rightarrow> if n = kNestable then TaskRunner_PostDelayedTask q 0 location callback delay thread s
                  else TaskRunner_PostNonNestableDelayedTask q 0 location callback delay thread s)"

text \<open>\<open>enable\<close> is the closure that calls \<open>EnableAllQueues\<close>, or the other one, on the queues.\<close>

definition Handle_EnableAllQueues :: "user_closure \<Rightarrow> app_handle \<Rightarrow> current_thread \<Rightarrow> sched \<Rightarrow> (bool \<times> sched) option" where
  "Handle_EnableAllQueues enable h thread s =
     runner_post (control_task_runner h) kNestable ''EnableAllQueues'' enable 0 thread s"

definition Handle_EnableAllExceptBestEffortQueues :: "user_closure \<Rightarrow> app_handle \<Rightarrow> current_thread \<Rightarrow> sched \<Rightarrow> (bool \<times> sched) option" where
  "Handle_EnableAllExceptBestEffortQueues enable h thread s =
     runner_post (control_task_runner h) kNestable ''EnableAllExceptBestEffortQueues'' enable 0 thread s"

fun GetQueueType :: "task_priority \<Rightarrow> queue_type" where
  "GetQueueType BEST_EFFORT = QT_kBestEffort"
| "GetQueueType USER_VISIBLE = QT_kDefault"
| "GetQueueType USER_BLOCKING = QT_kUserBlocking"

definition GetThreadIdAndQueueType :: "task_traits \<Rightarrow> int \<times> queue_type" where
  "GetThreadIdAndQueueType traits =
     (browser_thread (Parse (traits_extension traits)), GetQueueType (traits_priority traits))"

text \<open>For another thread than the UI thread the executor returns a null pointer, the outer \<^term>\<open>None\<close>.\<close>

definition GetTaskRunner :: "app_handle \<Rightarrow> task_traits \<Rightarrow> nat option option" where
  "GetTaskRunner h traits =
     (let (thread_id, queue_type) = GetThreadIdAndQueueType traits
      in if thread_id = ThreadID_UI then Some (GetAppTaskRunner h queue_type) else None)"

definition PostDelayedTaskWithTraits :: "app_handle \<Rightarrow> string \<Rightarrow> task_traits \<Rightarrow> user_closure \<Rightarrow> int \<Rightarrow> current_thread \<Rightarrow> sched \<Rightarrow>
    (bool \<times> sched) option" where
  "PostDelayedTaskWithTraits h location traits callback delay thread s =
     (let extension = Parse (traits_extension traits) in
      case GetTaskRunner h traits of None \<Rightarrow> None
      | Some runner \<Rightarrow>
          runner_post runner (if nestable_trait extension then kNestable else kNonNestable) location callback delay thread s)"

definition CreateTaskRunnerWithTraits :: "app_handle \<Rightarrow> task_traits \<Rightarrow> nat option option" where
  "CreateTaskRunnerWithTraits h traits = GetTaskRunner h traits"

text \<open>The executor owns the scheduler of the UI thread, of which the queues are the state here, until it is
  shut down; the executor itself is leaked. The global pointer is \<^term>\<open>None\<close> before \<open>CreateInternal\<close>. What
  \<open>CreateInternal\<close> tells the registry of executors and the Java side is left out. The scheduler destroys its
  queues and then the manager.\<close>

record app_task_executor =
  app_ui_thread_scheduler :: "app_task_queues option"
  app_ui_thread_handle :: app_handle

definition AppTaskExecutor_new :: "app_task_queues \<Rightarrow> app_task_executor" where
  "AppTaskExecutor_new a = \<lparr>app_ui_thread_scheduler = Some a, app_ui_thread_handle = CreateHandle a\<rparr>"

definition AppTaskExecutor_CreateInternal :: "user_closure \<Rightarrow> app_task_queues \<times> sched \<Rightarrow> (app_task_executor option \<times> sched) option" where
  "AppTaskExecutor_CreateInternal enable as =
     (let (a, s) = as; e = AppTaskExecutor_new a
      in map_option (\<lambda>(_, s). (Some e, s))
           (Handle_EnableAllExceptBestEffortQueues enable (app_ui_thread_handle e) kMainThread s))"

definition AppTaskExecutor_EnableAllQueues :: "user_closure \<Rightarrow> app_task_executor option \<Rightarrow> current_thread \<Rightarrow> sched \<Rightarrow> (bool \<times> sched) option" where
  "AppTaskExecutor_EnableAllQueues enable g thread s =
     (case g of None \<Rightarrow> None | Some e \<Rightarrow> Handle_EnableAllQueues enable (app_ui_thread_handle e) thread s)"

definition AppTaskExecutor_Shutdown :: "app_task_executor option \<times> sched \<Rightarrow> app_task_executor option \<times> sched" where
  "AppTaskExecutor_Shutdown gs =
     (let (g, s) = gs in
      case g of None \<Rightarrow> (None, s)
      | Some e \<Rightarrow>
          (case app_ui_thread_scheduler e of None \<Rightarrow> (Some e, s)
           | Some a \<Rightarrow> (Some (e\<lparr>app_ui_thread_scheduler := None\<rparr>), SequenceManagerImpl_destroy (AppTaskQueues_destroy (a, s)))))"

section \<open>Packing\<close>

lemma Parse_Serialize:
  assumes "0 \<le> browser_thread e" "browser_thread e < 256" "0 \<le> app_task_type e" "app_task_type e < 256"
  shows "Parse (Serialize e) = e"
  using assms by (cases e) (simp add: Parse_def Serialize_def Let_def unsigned_of_int take_bit_int_eq_self)

section \<open>What the manager holds of a queue\<close>

text \<open>Whether it is unregistered, whether it is enabled, and its priority.\<close>

definition setting :: "sched \<Rightarrow> nat \<Rightarrow> bool \<times> bool \<times> nat" where
  "setting s q = (tq_unregistered (tq s q), is_enabled (tq s q), GetQueuePriority q s)"

lemma setting_view: "setting s q = (qv_unregistered (view s q), qv_enabled (view s q), qv_index (view s q) kImmediate)"
  by (simp add: setting_def view_reads GetQueuePriority_def)

lemma create_setting: "setting (CreateTaskQueueImpl q spec s) = (setting s)(q := (False, True, kNormalPriority))"
proof -
  obtain f a where f: "AddFlag q (empty_queues_to_reload s) = (f, a)" by force
  show ?thesis by (rule ext) (simp add: setting_view Create_view(1) [OF f] new_queue_view_def)
qed

lemma enable_setting:
  assumes "reachable s" "\<not> fst (setting s q)"
  shows "setting (SetQueueEnabled q b s) = (setting s)(q := (False, b, snd (snd (setting s q))))"
proof -
  have i: "sm_inv s" using reachable_world [OF assms(1)] by (simp add: world_inv_def)
  have r: "\<not> tq_unregistered (tq s q)" using assms(2) by (simp add: setting_def)
  have em: "qv_work_queue_empty (view s q) = (qv_tasks (view s q) kImmediate = [])"
    using flags_okD(3) [OF sm_invD(6) [OF i], of q] r by (simp add: view_reads)
  show ?thesis
    by (rule ext) (use r in \<open>simp add: setting_view view_reads(7) SetQueueEnabled_view(1) [OF sm_invD(1) [OF i] placed_enabled_ok [OF sm_invD(3) [OF i] r] em]\<close>)
qed

lemma priority_setting:
  assumes "reachable s" "\<not> fst (setting s q)"
  shows "setting (SetQueuePriority q p s) = (setting s)(q := (False, fst (snd (setting s q)), p))"
proof -
  have i: "sm_inv s" using reachable_world [OF assms(1)] by (simp add: world_inv_def)
  have r: "\<not> tq_unregistered (tq s q)" using assms(2) by (simp add: setting_def)
  have e: "qv_index (view s q) kDelayed = qv_index (view s q) kImmediate"
    using placed_enabled_ok [OF sm_invD(3) [OF i] r] by (simp add: enabled_ok_def view_reads)
  show ?thesis by (rule ext) (use r in \<open>simp add: setting_view view_reads(7) SetQueuePriority_view(1) [OF e]\<close>)
qed

lemma setting_reachable:
  assumes "reachable s"
  shows "fst (setting s q) \<Longrightarrow> reachable (CreateTaskQueueImpl q spec s)"
    "\<not> fst (setting s q) \<Longrightarrow> reachable (SetQueueEnabled q b s)"
    "\<not> fst (setting s q) \<Longrightarrow> p < kQueuePriorityCount \<Longrightarrow> reachable (SetQueuePriority q p s)"
  using assms by (auto simp: setting_def intro: reachable.step sm_step.create sm_step.enable sm_step.priority)

section \<open>The queues of the application\<close>

text \<open>A queue of the application with its only voter.\<close>

definition app_pair :: "nat \<Rightarrow> bool \<Rightarrow> string \<Rightarrow> queue_handle \<times> bool option" where
  "app_pair q vote name =
     (\<lparr>impl = Some q, manager_alive = True, voter_count = 1, enabled_voter_count = of_bool vote, handle_name = name\<rparr>, Some vote)"

lemma create_one:
  assumes "CreateTaskQueue q spec s = (h, t)" "CreateQueueEnabledVoter h = (v, h')"
  shows "app_vote False (h', v) t = Some (app_pair q False (tq_name (tq t q)), SetQueueEnabled q False (CreateTaskQueueImpl q spec s))"
  using assms by (auto simp: CreateTaskQueue_def Let_def TaskQueue_new_def CreateQueueEnabledVoter_def AddQueueEnabledVoter_def app_vote_def
      SetVoteToEnable_def OnQueueEnabledVoteChanged_def AreAllQueueEnabledVotersEnabled_def app_pair_def)

lemma vote_one: "app_vote True (app_pair q b n) s = Some (app_pair q True n, if b then s else SetQueueEnabled q True s)"
  by (cases b) (simp_all add: app_pair_def app_vote_def SetVoteToEnable_def OnQueueEnabledVoteChanged_def
      AreAllQueueEnabledVotersEnabled_def Let_def)

lemma create_app_queues_ok:
  assumes "reachable s" "distinct is" "inj_on new (set is)" "\<And>i. i \<in> set is \<Longrightarrow> fst (setting s (new i))"
  shows "\<exists>names t. create_app_queues thread_id d new is s = Some (map2 (\<lambda>i. app_pair (new i) False) is names, t) \<and> length names = length is \<and>
    reachable t \<and> setting t = fold (\<lambda>i f. f(new i := (False, False, kNormalPriority))) is (setting s)"
  using assms
proof (induction "is" arbitrary: s)
  case (Cons i "is")
  define spec where "spec = app_spec (GetTaskQueueName thread_id (queue_type_of i)) d"
  let ?s = "CreateTaskQueueImpl (new i) spec s"
  let ?t = "SetQueueEnabled (new i) False ?s"
  obtain h t where c: "CreateTaskQueue (new i) spec s = (h, t)" by force
  obtain v h' where v: "CreateQueueEnabledVoter h = (v, h')" by force
  have r: "reachable ?s" by (rule setting_reachable(1)) (use Cons.prems in auto)
  have st: "setting ?t = (setting s)(new i := (False, False, kNormalPriority))"
    using enable_setting [OF r, of "new i" False] by (simp add: create_setting)
  have rt: "reachable ?t" by (rule setting_reachable(2) [OF r]) (simp add: create_setting)
  have d: "distinct is" "inj_on new (set is)" using Cons.prems(2,3) by (simp_all add: inj_on_def)
  have "new j \<noteq> new i" if "j \<in> set is" for j using Cons.prems(2,3) that by (auto simp: inj_on_def)
  then have f: "fst (setting ?t (new j))" if "j \<in> set is" for j using Cons.prems(4) that by (simp add: st)
  obtain names u where u: "create_app_queues thread_id d new is ?t = Some (map2 (\<lambda>i. app_pair (new i) False) is names, u)"
    "length names = length is" "reachable u" "setting u = fold (\<lambda>i f. f(new i := (False, False, kNormalPriority))) is (setting ?t)"
    using Cons.IH [OF rt d f] by blast
  have "create_app_queues thread_id d new (i # is) s =
      Some (map2 (\<lambda>i. app_pair (new i) False) (i # is) (tq_name (tq t (new i)) # names), u)"
    using u(1) by (simp add: spec_def [symmetric] c v create_one [OF c v])
  moreover have "setting u = fold (\<lambda>i f. f(new i := (False, False, kNormalPriority))) (i # is) (setting s)"
    unfolding u(4) st by (simp only: fold_simps)
  ultimately show ?case using u(2,3) by (metis length_Cons)
qed simp

lemma vote_all_step:
  assumes "(if which i then app_vote True hv s else Some (hv, s)) = Some (hv', t)" "vote_all which (Suc i) hvs t = Some (hvs', u)"
  shows "vote_all which i (hv # hvs) s = Some (hv' # hvs', u)"
  using assms by simp

lemma vote_all_ok:
  assumes "reachable s" "length names = length is" "length bs = length is" "\<And>i. i \<in> set is \<Longrightarrow> \<not> fst (setting s (new i))"
    "is = [k..<k + n]"
  shows "\<exists>t. vote_all which k (map2 (\<lambda>i (b, m). app_pair (new i) b m) is (zip bs names)) s =
      Some (map2 (\<lambda>i (b, m). app_pair (new i) (b \<or> which i) m) is (zip bs names), t) \<and> reachable t \<and>
    setting t = fold (\<lambda>(i, b) f. if which i \<and> \<not> b then f(new i := (False, True, snd (snd (f (new i))))) else f) (zip is bs) (setting s)"
  using assms
proof (induction "is" arbitrary: s names bs k n)
  case (Cons i "is")
  obtain m names' b bs' where e: "names = m # names'" "bs = b # bs'" using Cons.prems(2,3) by (auto simp: length_Suc_conv)
  obtain n' where n: "n = Suc n'" using Cons.prems(5) by (cases n) auto
  then have k: "i = k" "is = [Suc k..<Suc k + n']" using Cons.prems(5) upt_conv_Cons [of k "k + n"] by simp_all
  let ?t = "if which i \<and> \<not> b then SetQueueEnabled (new i) True s else s"
  have st: "setting ?t = (if which i \<and> \<not> b then (setting s)(new i := (False, True, snd (snd (setting s (new i))))) else setting s)"
    using enable_setting [OF Cons.prems(1), of "new i" True] Cons.prems(4) by simp
  have "reachable ?t" using setting_reachable(2) [OF Cons.prems(1)] Cons.prems(1,4) by simp
  moreover have "\<not> fst (setting ?t (new j))" if "j \<in> set is" for j using Cons.prems(4) that by (simp add: st)
  ultimately obtain u where u: "vote_all which (Suc k) (map2 (\<lambda>i (b, m). app_pair (new i) b m) is (zip bs' names')) ?t =
      Some (map2 (\<lambda>i (b, m). app_pair (new i) (b \<or> which i) m) is (zip bs' names'), u)" "reachable u"
    "setting u = fold (\<lambda>(i, b) f. if which i \<and> \<not> b then f(new i := (False, True, snd (snd (f (new i))))) else f) (zip is bs') (setting ?t)"
    using Cons.IH [OF _ _ _ _ k(2), of ?t names' bs'] Cons.prems(2,3) e by auto
  have "(if which k then app_vote True (app_pair (new i) b m) s else Some (app_pair (new i) b m, s)) = Some (app_pair (new i) (b \<or> which k) m, ?t)"
    using k(1) by (simp add: vote_one)
  from vote_all_step [OF this u(1)] have "vote_all which k (map2 (\<lambda>i (b, m). app_pair (new i) b m) (i # is) (zip bs names)) s =
      Some (map2 (\<lambda>i (b, m). app_pair (new i) (b \<or> which i) m) (i # is) (zip bs names), u)"
    using k(1) by (simp add: e)
  moreover have "setting u = fold (\<lambda>(i, b) f. if which i \<and> \<not> b then f(new i := (False, True, snd (snd (f (new i))))) else f)
      (zip (i # is) bs) (setting s)"
    unfolding u(3) st e by (simp only: zip_Cons_Cons fold_simps prod.case)
  ultimately show ?case using u(2) by blast
qed simp

lemma created_with_priority:
  assumes "reachable s" "fst (setting s q)" "p < kQueuePriorityCount"
  shows "reachable (SetQueuePriority q p (CreateTaskQueueImpl q spec s))"
    "setting (SetQueuePriority q p (CreateTaskQueueImpl q spec s)) = (setting s)(q := (False, True, p))"
proof -
  have r: "reachable (CreateTaskQueueImpl q spec s)" by (rule setting_reachable(1) [OF assms(1,2)])
  show "reachable (SetQueuePriority q p (CreateTaskQueueImpl q spec s))"
    by (rule setting_reachable(3) [OF r]) (simp_all add: create_setting assms(3))
  show "setting (SetQueuePriority q p (CreateTaskQueueImpl q spec s)) = (setting s)(q := (False, True, p))"
    by (subst priority_setting [OF r]) (simp_all add: create_setting)
qed

lemma AppTaskQueues_new_ok:
  assumes "reachable s" "inj_on new {..<6}" "\<And>i. i < 6 \<Longrightarrow> fst (setting s (new i))"
  shows "\<exists>n0 n1 n2 control default run_all t.
    AppTaskQueues_new thread_id d new s =
      Some (\<lparr>app_queues_and_voters = [app_pair (new 0) False n0, app_pair (new 1) False n1, app_pair (new 2) False n2],
             control_queue = control, default_task_queue = default, run_all_pending_tasks_queue = run_all\<rparr>, t) \<and>
    impl default = Some (new 3) \<and> impl control = Some (new 4) \<and> impl run_all = Some (new 5) \<and> reachable t \<and>
    setting t = (setting s)(new 0 := (False, False, kNormalPriority), new 1 := (False, False, kBestEffortPriority),
      new 2 := (False, False, kNormalPriority), new 3 := (False, True, kNormalPriority),
      new 4 := (False, True, kControlPriority), new 5 := (False, True, kBestEffortPriority))"
proof -
  have d: "new i = new j \<longleftrightarrow> i = j" if "i < 6" "j < 6" for i j using assms(2) that by (auto simp: inj_on_def)
  have p: "kBestEffortPriority < kQueuePriorityCount" "kControlPriority < kQueuePriorityCount"
    by (simp_all add: kBestEffortPriority_def kControlPriority_def kQueuePriorityCount_def)
  have l: "[0..<kNumQueueTypes] = [0, 1, 2]" by (simp add: kNumQueueTypes_def upt_rec)
  have "inj_on new (set [0..<kNumQueueTypes])" by (rule inj_on_subset [OF assms(2)]) (auto simp: l)
  from create_app_queues_ok [OF assms(1) _ this, of thread_id d] assms(3)
  obtain n0 n1 n2 s1 where c: "create_app_queues thread_id d new [0..<kNumQueueTypes] s =
      Some ([app_pair (new 0) False n0, app_pair (new 1) False n1, app_pair (new 2) False n2], s1)" "reachable s1"
    and s1: "setting s1 = (setting s)(new 0 := (False, False, kNormalPriority), new 1 := (False, False, kNormalPriority),
      new 2 := (False, False, kNormalPriority))"
    by (force simp: l length_Suc_conv)
  define s2 where "s2 = CreateTaskQueueImpl (new 3) (app_spec (GetDefaultQueueName thread_id) d) s1"
  define s3 where "s3 = SetQueuePriority (new 1) kBestEffortPriority s2"
  define s4 where "s4 = SetQueuePriority (new 4) kControlPriority (CreateTaskQueueImpl (new 4) (app_spec (GetControlTaskQueueName thread_id) d) s3)"
  define s5 where "s5 = SetQueuePriority (new 5) kBestEffortPriority
    (CreateTaskQueueImpl (new 5) (app_spec (GetRunAllPendingTaskQueueName thread_id) d) s4)"
  have r2: "reachable s2" unfolding s2_def by (rule setting_reachable(1) [OF c(2)]) (use assms(3) in \<open>simp add: s1 d\<close>)
  have t2: "setting s2 = (setting s1)(new 3 := (False, True, kNormalPriority))" by (simp add: s2_def create_setting)
  have r3: "reachable s3" unfolding s3_def by (rule setting_reachable(3) [OF r2]) (simp_all add: t2 s1 d p)
  have t3: "setting s3 = (setting s2)(new 1 := (False, False, kBestEffortPriority))"
    unfolding s3_def by (subst priority_setting [OF r2]) (simp_all add: t2 s1 d)
  have "fst (setting s3 (new 4))" using assms(3) by (simp add: t3 t2 s1 d)
  note 4 = created_with_priority [OF r3 this p(2), of "app_spec (GetControlTaskQueueName thread_id) d", folded s4_def]
  have "fst (setting s4 (new 5))" using assms(3) by (simp add: 4(2) t3 t2 s1 d)
  note 5 = created_with_priority [OF 4(1) this p(1), of "app_spec (GetRunAllPendingTaskQueueName thread_id) d", folded s5_def]
  have "setting s5 = (setting s)(new 0 := (False, False, kNormalPriority), new 1 := (False, False, kBestEffortPriority),
      new 2 := (False, False, kNormalPriority), new 3 := (False, True, kNormalPriority),
      new 4 := (False, True, kControlPriority), new 5 := (False, True, kBestEffortPriority))"
    unfolding 5(2) 4(2) t3 t2 s1 by (rule ext) (simp add: d)
  moreover have "impl (TaskQueue_new (Some q) x) = Some q" for q x by (simp add: TaskQueue_new_def)
  ultimately show ?thesis using 5(1)
    by (simp add: AppTaskQueues_new_def c CreateTaskQueue_def Let_def handle_SetQueuePriority_def app_pair_def
        s2_def [symmetric] s3_def [symmetric, simplified One_nat_def] s4_def [symmetric] s5_def [symmetric])
qed

lemma three_votes:
  fixes new :: "nat \<Rightarrow> nat"
  assumes "reachable s" "inj_on new {..<6}" "\<And>i. i < 3 \<Longrightarrow> setting s (new i) = (False, b i, p i)"
  shows "\<exists>t. vote_all which 0 [app_pair (new 0) (b 0) n0, app_pair (new 1) (b 1) n1, app_pair (new 2) (b 2) n2] s =
      Some ([app_pair (new 0) (b 0 \<or> which 0) n0, app_pair (new 1) (b 1 \<or> which 1) n1, app_pair (new 2) (b 2 \<or> which 2) n2], t) \<and>
    reachable t \<and>
    setting t = (setting s)(new 0 := (False, b 0 \<or> which 0, p 0), new 1 := (False, b 1 \<or> which 1, p 1), new 2 := (False, b 2 \<or> which 2, p 2))"
proof -
  have d: "new i = new j \<longleftrightarrow> i = j" if "i < 6" "j < 6" for i j using assms(2) that by (auto simp: inj_on_def)
  have l: "[0, 1, 2] = [0..<0 + (3 :: nat)]" by (simp add: upt_rec)
  have n: "\<not> fst (setting s (new i))" if "i \<in> set [0, 1, 2]" for i using assms(3) [of i] that by auto
  obtain t where "vote_all which 0 [app_pair (new 0) (b 0) n0, app_pair (new 1) (b 1) n1, app_pair (new 2) (b 2) n2] s =
      Some ([app_pair (new 0) (b 0 \<or> which 0) n0, app_pair (new 1) (b 1 \<or> which 1) n1, app_pair (new 2) (b 2 \<or> which 2) n2], t)"
    "reachable t"
    and f: "setting t = fold (\<lambda>(i, b) f. if which i \<and> \<not> b then f(new i := (False, True, snd (snd (f (new i))))) else f)
      [(0, b 0), (1, b 1), (2, b 2)] (setting s)"
    using vote_all_ok [where new = new and names = "[n0, n1, n2]" and bs = "[b 0, b 1, b 2]" and which = which, OF assms(1) _ _ n l]
    by (auto simp del: fun_upd_apply fold.simps)
  moreover have "setting t q = ((setting s)(new 0 := (False, b 0 \<or> which 0, p 0), new 1 := (False, b 1 \<or> which 1, p 1),
      new 2 := (False, b 2 \<or> which 2, p 2))) q" for q
    using assms(3) [of 0] assms(3) [of 1] assms(3) [of 2] by (auto simp: f d)
  ultimately show ?thesis by blast
qed

section \<open>Posting\<close>

lemma immediate_post_lines_up:
  assumes "sm_inv s" "tq_PostTask q posted thread s = Some u" "pt_delay posted = 0"
  shows "\<exists>t. queue_tasks (q, kImmediate) u = queue_tasks (q, kImmediate) s @ [t] \<and>
    task t = User (pt_callback posted) \<and> task_nestable t = pt_nestable posted \<and> task_type t = pt_task_type posted \<and>
    task_enqueue_order ` set (queue_tasks (q, kImmediate) s) \<subseteq> {..<task_enqueue_order t} \<and>
    (\<forall>y. y \<noteq> (q, kImmediate) \<longrightarrow> queue_tasks y u = queue_tasks y s)"
proof -
  note I = sm_invD [OF assms(1)]
  have r: "PostImmediateTaskImpl q (lift_posted posted) s = Some u" using assms(2,3) by (simp add: tq_PostTask_def)
  note sy = PostImmediate_sync [OF I(1,2) r]
  define t where "t = Task_make (if add_queue_time_to_tasks s then (lift_posted posted)\<lparr>pt_queue_time := td_now q s\<rparr> else lift_posted posted)
    (if delayed_fence_allowed (tq s q) \<or> add_queue_time_to_tasks s then td_now q s else 0)
    (enqueue_order_generator s) (enqueue_order_generator s) kLow"
  have qt: "queue_tasks y u = queue_tasks y s @ (if y = (q, kImmediate) then [t] else [])" for y
    using sy(3) sy(4) [of "fst y", folded t_def] by (cases y; cases "snd y") (auto simp: queue_tasks_def)
  have "task t = User (pt_callback posted)" "task_nestable t = pt_nestable posted" "task_type t = pt_task_type posted"
    "task_enqueue_order t = enqueue_order_generator s"
    by (simp_all add: t_def Task_make_def lift_posted_def)
  moreover have "task_enqueue_order x < enqueue_order_generator s" if "x \<in> set (queue_tasks (q, kImmediate) s)" for x
    using lines_okD [OF I(5), of q kImmediate] that by (auto simp: orders_in_def queue_tasks_waiting)
  ultimately show ?thesis using qt by (intro exI [of _ t]) auto
qed

lemma poster_changes_nothing:
  "queue_tasks y (upd_tq q (\<lambda>t. t\<lparr>task_poster := c t\<rparr>) s) = queue_tasks y s"
  "sm_inv s \<Longrightarrow> sm_inv (upd_tq q (\<lambda>t. t\<lparr>task_poster := c t\<rparr>) s)"
proof -
  let ?s = "upd_tq q (\<lambda>t. t\<lparr>task_poster := c t\<rparr>) s"
  show "queue_tasks y ?s = queue_tasks y s" by (simp add: queue_tasks_def)
  assume i: "sm_inv s"
  have "queues_ok ?s" "in_sync ?s" using sm_invD(1,2) [OF i] sync_cong(2) [of ?s s] by (simp_all add: queues_ok_def)
  then show "sm_inv ?s" by (rule sm_inv_same [OF i same_view_simple(6)])
qed

text \<open>A post with a delay: from the thread of the scheduler the task enters the delayed queue, from another
  thread a closure that will do so lines up.\<close>

lemma UpdateDelayedWakeUp_keeps:
  "delayed_incoming_queue (tq (UpdateDelayedWakeUp q now s) a) = delayed_incoming_queue (tq s a)"
  "queue_tasks y (UpdateDelayedWakeUp q now s) = queue_tasks y s"
proof -
  show "delayed_incoming_queue (tq (UpdateDelayedWakeUp q now s) a) = delayed_incoming_queue (tq s a)"
    using wake_frame_reads(7) [OF SetNextWakeUp_frame]
    by (auto simp: UpdateDelayedWakeUp_def UpdateDelayedWakeUpImpl_def Let_def run_wake_up_callback_def emit_def upd_tq_def split: option.split)
  show "queue_tasks y (UpdateDelayedWakeUp q now s) = queue_tasks y s"
    using same_viewD(1) [OF UpdateDelayedWakeUp_view] by (cases y) (simp only: queue_tasks_waiting)
qed

lemma immediate_post_keeps_delayed:
  "PostImmediateTaskImpl q p s = Some u \<Longrightarrow> delayed_incoming_queue (tq u a) = delayed_incoming_queue (tq s a)"
  unfolding PostImmediateTaskImpl_def Let_def
  by (auto simp: GetNextSequenceNumber_def set_flag_active_def ScheduleWork_def emit_def upd_tq_def split: if_splits option.splits prod.splits)

lemma immediate_post_appends:
  assumes "queues_ok s" "in_sync s" "PostImmediateTaskImpl q p s = Some u"
  shows "\<exists>t. queue_tasks (q, kImmediate) u = queue_tasks (q, kImmediate) s @ [t] \<and> task t = pt_callback p \<and>
    (\<forall>y. y \<noteq> (q, kImmediate) \<longrightarrow> queue_tasks y u = queue_tasks y s)"
proof -
  note sy = PostImmediate_sync [OF assms]
  define t where "t = Task_make (if add_queue_time_to_tasks s then p\<lparr>pt_queue_time := td_now q s\<rparr> else p)
    (if delayed_fence_allowed (tq s q) \<or> add_queue_time_to_tasks s then td_now q s else 0)
    (enqueue_order_generator s) (enqueue_order_generator s) kLow"
  have "queue_tasks y u = queue_tasks y s @ (if y = (q, kImmediate) then [t] else [])" for y
    using sy(3) sy(4) [of "fst y", folded t_def] by (cases y; cases "snd y") (auto simp: queue_tasks_def)
  then show ?thesis by (intro exI [of _ t]) (simp add: t_def Task_make_def)
qed

lemma delayed_post_on_main:
  assumes "tq_PostTask q posted kMainThread s = Some u" "pt_delay posted \<noteq> 0"
  shows "\<exists>t. delayed_incoming_queue (tq u q) = di_push t (delayed_incoming_queue (tq s q)) \<and> task t = User (pt_callback posted) \<and>
    delayed_run_time t = ticks_plus (td_now q s) (pt_delay posted) \<and> task_nestable t = pt_nestable posted \<and>
    (\<forall>a. a \<noteq> q \<longrightarrow> delayed_incoming_queue (tq u a) = delayed_incoming_queue (tq s a)) \<and>
    (\<forall>y. queue_tasks y u = queue_tasks y s)"
proof -
  let ?s = "s\<lparr>enqueue_order_generator := enqueue_order_generator s + 1\<rparr>"
  define t where "t = lift_task (Task_make (if add_queue_time_to_tasks s then posted\<lparr>pt_queue_time := td_now q s\<rparr> else posted)
    (ticks_plus (td_now q s) (pt_delay posted)) (enqueue_order_generator s) EnqueueOrder_none kLow)"
  have n: "td_now q ?s = td_now q s" by (simp add: td_now_def split: option.split)
  have "u = UpdateDelayedWakeUp q (td_now q s) (upd_delayed q (di_push t) ?s)"
    using assms by (auto simp: tq_PostTask_def PostDelayedTaskImpl_def PushOntoDelayedIncomingQueueFromMainThread_def Let_def
        GetNextSequenceNumber_def GenerateNext_def n t_def split: if_splits)
  moreover have "queue_tasks y (upd_delayed q g ?s) = queue_tasks y s" for y g by (simp add: queue_tasks_def upd_delayed_def)
  moreover have "task t = User (pt_callback posted)" "delayed_run_time t = ticks_plus (td_now q s) (pt_delay posted)"
    "task_nestable t = pt_nestable posted"
    by (simp_all add: t_def lift_task_def Task_make_def)
  ultimately show ?thesis by (intro exI [of _ t]) (simp add: UpdateDelayedWakeUp_keeps)
qed

lemma delayed_post_elsewhere:
  assumes "sm_inv s" "tq_PostTask q posted kNotMainThread s = Some u" "pt_delay posted \<noteq> 0"
  shows "\<exists>t p. queue_tasks (q, kImmediate) u = queue_tasks (q, kImmediate) s @ [t] \<and> task t = ScheduleDelayedWork q p \<and>
    task p = pt_callback posted \<and> delayed_run_time p = ticks_plus (td_now q s) (pt_delay posted) \<and>
    task_nestable p = pt_nestable posted \<and> (\<forall>a. delayed_incoming_queue (tq u a) = delayed_incoming_queue (tq s a)) \<and>
    (\<forall>y. y \<noteq> (q, kImmediate) \<longrightarrow> queue_tasks y u = queue_tasks y s)"
proof -
  let ?s = "s\<lparr>enqueue_order_generator := enqueue_order_generator s + 1\<rparr>"
  define p where "p = Task_make (if add_queue_time_to_tasks s then posted\<lparr>pt_queue_time := td_now q s\<rparr> else posted)
    (ticks_plus (td_now q s) (pt_delay posted)) (enqueue_order_generator s) EnqueueOrder_none kLow"
  have n: "td_now q ?s = td_now q s" by (simp add: td_now_def split: option.split)
  have u: "PushOntoDelayedIncomingQueue q p ?s = Some u"
    using assms(2,3) by (auto simp: tq_PostTask_def PostDelayedTaskImpl_def Let_def GetNextSequenceNumber_def GenerateNext_def n p_def
        split: if_splits)
  have "queues_ok ?s" "in_sync ?s" using sm_invD(1,2) [OF assms(1)] sync_cong(2) [of ?s s] by (simp_all add: queues_ok_def)
  from immediate_post_appends [OF this u [unfolded PushOntoDelayedIncomingQueue_def]]
  obtain t where "queue_tasks (q, kImmediate) u = queue_tasks (q, kImmediate) ?s @ [t]" "task t = ScheduleDelayedWork q p"
    "\<forall>y. y \<noteq> (q, kImmediate) \<longrightarrow> queue_tasks y u = queue_tasks y ?s"
    by (auto simp: PostedTask_make_def)
  moreover have "queue_tasks y ?s = queue_tasks y s" for y by (simp add: queue_tasks_def)
  moreover have "task p = pt_callback posted" "delayed_run_time p = ticks_plus (td_now q s) (pt_delay posted)" "task_nestable p = pt_nestable posted"
    by (simp_all add: p_def Task_make_def)
  moreover have "delayed_incoming_queue (tq u a) = delayed_incoming_queue (tq s a)" for a
    using immediate_post_keeps_delayed [OF u [unfolded PushOntoDelayedIncomingQueue_def], of a] by simp
  ultimately show ?thesis by (intro exI [of _ t] exI [of _ p]) simp
qed

text \<open>A poster either refuses, and only its controller changes, or posts with a token in its hand.\<close>

lemma guarded_post_cases:
  assumes "GuardedTaskPoster_PostTask q posted thread s = Some (r, u)"
  obtains (1) c where "\<not> r" "u = upd_tq q (\<lambda>t. t\<lparr>task_poster := c\<rparr>) s"
  | (2) c v where "r" "tq_PostTask q posted thread (upd_tq q (\<lambda>t. t\<lparr>task_poster := c\<rparr>) s) = Some v"
      "u = upd_tq q (\<lambda>t. t\<lparr>task_poster := DecrementBy 1 (task_poster t)\<rparr>) v"
proof -
  obtain b c where b: "TryBeginOperation (task_poster (tq s q)) = (b, c)" by force
  show thesis
    using assms that by (auto simp: GuardedTaskPoster_PostTask_def Let_def b split: if_splits option.splits)
qed

lemma guarded_post_outcome:
  assumes s: "sm_inv s" and p: "GuardedTaskPoster_PostTask q posted thread s = Some (r, u)"
  shows "(\<forall>y. y \<noteq> (q, kImmediate) \<longrightarrow> queue_tasks y u = queue_tasks y s) \<and>
    (\<forall>k. k \<noteq> q \<longrightarrow> delayed_incoming_queue (tq u k) = delayed_incoming_queue (tq s k)) \<and>
    (if r \<and> pt_delay posted = 0 then
       \<exists>t. queue_tasks (q, kImmediate) u = queue_tasks (q, kImmediate) s @ [t] \<and> task t = User (pt_callback posted) \<and>
         task_nestable t = pt_nestable posted \<and>
         task_enqueue_order ` set (queue_tasks (q, kImmediate) s) \<subseteq> {..<task_enqueue_order t} \<and>
         delayed_incoming_queue (tq u q) = delayed_incoming_queue (tq s q)
     else if r \<and> thread = kMainThread then
       queue_tasks (q, kImmediate) u = queue_tasks (q, kImmediate) s \<and>
       (\<exists>t. delayed_incoming_queue (tq u q) = di_push t (delayed_incoming_queue (tq s q)) \<and> task t = User (pt_callback posted) \<and>
         delayed_run_time t = ticks_plus (td_now q s) (pt_delay posted) \<and> task_nestable t = pt_nestable posted)
     else if r then
       delayed_incoming_queue (tq u q) = delayed_incoming_queue (tq s q) \<and>
       (\<exists>t l. queue_tasks (q, kImmediate) u = queue_tasks (q, kImmediate) s @ [t] \<and> task t = ScheduleDelayedWork q l \<and>
         task l = pt_callback posted \<and> delayed_run_time l = ticks_plus (td_now q s) (pt_delay posted) \<and>
         task_nestable l = pt_nestable posted)
     else queue_tasks (q, kImmediate) u = queue_tasks (q, kImmediate) s \<and>
       delayed_incoming_queue (tq u q) = delayed_incoming_queue (tq s q))"
proof -
  have keeps: "queue_tasks y (upd_tq q (\<lambda>t. t\<lparr>task_poster := c t\<rparr>) v) = queue_tasks y v"
    "delayed_incoming_queue (tq (upd_tq q (\<lambda>t. t\<lparr>task_poster := c t\<rparr>) v) k) = delayed_incoming_queue (tq v k)"
    "td_now q (upd_tq q (\<lambda>t. t\<lparr>task_poster := c t\<rparr>) v) = td_now q v" for y k c v
    by (rule poster_changes_nothing) (simp_all add: td_now_def upd_tq_def split: option.split)
  show ?thesis
    using p
  proof (cases rule: guarded_post_cases)
    case (1 c)
    then show ?thesis by (simp add: keeps)
  next
    case (2 c v)
    note i = poster_changes_nothing(2) [OF s, of q "\<lambda>_. c"]
    show ?thesis
    proof (cases "pt_delay posted = 0")
      case True
      have "delayed_incoming_queue (tq v k) = delayed_incoming_queue (tq s k)" for k
        using immediate_post_keeps_delayed 2(2) True by (simp add: tq_PostTask_def keeps)
      then show ?thesis using immediate_post_lines_up [OF i 2(2) True] 2(1) True unfolding 2(3) keeps by auto
    next
      case False
      show ?thesis
      proof (cases thread)
        case kMainThread
        obtain t where "delayed_incoming_queue (tq v q) = di_push t (delayed_incoming_queue (tq s q))"
          "task t = User (pt_callback posted)" "delayed_run_time t = ticks_plus (td_now q s) (pt_delay posted)"
          "task_nestable t = pt_nestable posted" "\<forall>k. k \<noteq> q \<longrightarrow> delayed_incoming_queue (tq v k) = delayed_incoming_queue (tq s k)"
          "\<forall>y. queue_tasks y v = queue_tasks y s"
          using delayed_post_on_main [OF 2(2) [unfolded kMainThread] False] unfolding keeps by blast
        then show ?thesis using 2(1) False kMainThread unfolding 2(3) keeps by auto
      next
        case kNotMainThread
        obtain t l where "queue_tasks (q, kImmediate) v = queue_tasks (q, kImmediate) s @ [t]" "task t = ScheduleDelayedWork q l"
          "task l = pt_callback posted" "delayed_run_time l = ticks_plus (td_now q s) (pt_delay posted)"
          "task_nestable l = pt_nestable posted" "\<forall>k. delayed_incoming_queue (tq v k) = delayed_incoming_queue (tq s k)"
          "\<forall>y. y \<noteq> (q, kImmediate) \<longrightarrow> queue_tasks y v = queue_tasks y s"
          using delayed_post_elsewhere [OF i 2(2) [unfolded kNotMainThread] False] unfolding keeps by blast
        then show ?thesis using 2(1) False kNotMainThread unfolding 2(3) keeps by auto
      qed
    qed
  qed
qed

text \<open>The runner of the queue that the traits of a task name.\<close>

lemma runner_post_guarded:
  "runner_post (Some q) n location callback delay thread s =
     GuardedTaskPoster_PostTask q (PostedTask_make callback location delay n 0) thread s"
  by (cases n) (simp_all add: runner_post_def TaskRunner_PostDelayedTask_def TaskRunner_PostNonNestableDelayedTask_def)

lemma executor_posts_to_queue:
  assumes "browser_thread e = ThreadID_UI" "0 \<le> app_task_type e" "app_task_type e < 256"
    "impl (fst (app_queues_and_voters a ! queue_type_index (GetQueueType p))) = Some q"
    "queue_type_index (GetQueueType p) < length (app_queues_and_voters a)"
  shows "PostDelayedTaskWithTraits (CreateHandle a) location \<lparr>traits_priority = p, traits_extension = Serialize e\<rparr> callback delay thread s =
    GuardedTaskPoster_PostTask q (PostedTask_make callback location delay (if nestable_trait e then kNestable else kNonNestable) 0) thread s"
proof -
  have "Parse (Serialize e) = e" by (rule Parse_Serialize) (use assms(1-3) in \<open>simp_all add: ThreadID_UI_def\<close>)
  then show ?thesis
    using assms(1,4,5) by (simp add: PostDelayedTaskWithTraits_def GetTaskRunner_def GetThreadIdAndQueueType_def GetAppTaskRunner_def
        CreateHandle_def CreateAppTaskRunners_def runner_post_guarded)
qed

lemma app_queue_handles:
  assumes "AppTaskQueues_new thread_id d new s = Some (a, t)" "reachable s" "inj_on new {..<6}" "\<And>i. i < 6 \<Longrightarrow> tq_unregistered (tq s (new i))"
  shows "length (app_queues_and_voters a) = 3" "i < 3 \<Longrightarrow> impl (fst (app_queues_and_voters a ! i)) = Some (new i)"
proof -
  have "fst (setting s (new i))" if "i < 6" for i using assms(4) [OF that] by (simp add: setting_def)
  from AppTaskQueues_new_ok [OF assms(2,3) this, of thread_id d] assms(1)
  obtain n0 n1 n2 where a: "app_queues_and_voters a = [app_pair (new 0) False n0, app_pair (new 1) False n1, app_pair (new 2) False n2]"
    by auto
  show "length (app_queues_and_voters a) = 3" by (simp add: a)
  show "impl (fst (app_queues_and_voters a ! i)) = Some (new i)" if "i < 3"
  proof -
    have "i = 0 \<or> i = 1 \<or> i = 2" using that by auto
    then show ?thesis by (auto simp: a app_pair_def)
  qed
qed

section \<open>Reading the settings\<close>

definition app_priority :: "nat \<Rightarrow> nat" where
  "app_priority i = [kNormalPriority, kBestEffortPriority, kNormalPriority, kNormalPriority, kControlPriority, kBestEffortPriority] ! i"

lemma less_6_cases: "i < 6 \<Longrightarrow> i = 0 \<or> i = 1 \<or> i = 2 \<or> i = 3 \<or> i = 4 \<or> i = (5 :: nat)"
  by auto

lemma inj_new_iff: "inj_on new {..<6 :: nat} \<Longrightarrow> i < 6 \<Longrightarrow> j < 6 \<Longrightarrow> new i = new j \<longleftrightarrow> i = j"
  by (auto simp: inj_on_def)

lemma app_queues_settings:
  assumes "reachable s" "inj_on new {..<6}" "\<forall>i < 6. tq_unregistered (tq s (new i))"
  obtains a t n0 n1 n2 where "AppTaskQueues_new thread_id d new s = Some (a, t)" "reachable t"
    "app_queues_and_voters a = [app_pair (new 0) False n0, app_pair (new 1) False n1, app_pair (new 2) False n2]"
    "\<forall>i < 6. setting t (new i) = (False, 3 \<le> i, app_priority i)"
proof -
  have f: "fst (setting s (new i))" if "i < 6" for i using assms(3) that by (simp add: setting_def)
  obtain n0 n1 n2 control default run_all t where a: "AppTaskQueues_new thread_id d new s =
      Some (\<lparr>app_queues_and_voters = [app_pair (new 0) False n0, app_pair (new 1) False n1, app_pair (new 2) False n2],
             control_queue = control, default_task_queue = default, run_all_pending_tasks_queue = run_all\<rparr>, t)" "reachable t"
    and t: "setting t = (setting s)(new 0 := (False, False, kNormalPriority), new 1 := (False, False, kBestEffortPriority),
      new 2 := (False, False, kNormalPriority), new 3 := (False, True, kNormalPriority),
      new 4 := (False, True, kControlPriority), new 5 := (False, True, kBestEffortPriority))"
    using AppTaskQueues_new_ok [OF assms(1,2) f, of thread_id d] by metis
  have "setting t (new i) = (False, 3 \<le> i, app_priority i)" if "i < 6" for i
    using less_6_cases [OF that] by (auto simp: t app_priority_def inj_new_iff [OF assms(2)])
  then show ?thesis using that [OF a] by simp
qed

lemma votes_settings:
  fixes new :: "nat \<Rightarrow> nat"
  assumes "reachable s" "inj_on new {..<6}" "\<forall>i < 6. setting s (new i) = (False, e i, app_priority i)"
  obtains t where "vote_all which 0 [app_pair (new 0) (e 0) n0, app_pair (new 1) (e 1) n1, app_pair (new 2) (e 2) n2] s =
      Some ([app_pair (new 0) (e 0 \<or> which 0) n0, app_pair (new 1) (e 1 \<or> which 1) n1, app_pair (new 2) (e 2 \<or> which 2) n2], t)"
    "reachable t" "\<forall>i < 6. setting t (new i) = (False, e i \<or> i < 3 \<and> which i, app_priority i)"
proof -
  have "\<And>i. i < 3 \<Longrightarrow> setting s (new i) = (False, e i, app_priority i)" using assms(3) by simp
  from three_votes [OF assms(1,2) this, of which n0 n1 n2]
  obtain t where v: "vote_all which 0 [app_pair (new 0) (e 0) n0, app_pair (new 1) (e 1) n1, app_pair (new 2) (e 2) n2] s =
      Some ([app_pair (new 0) (e 0 \<or> which 0) n0, app_pair (new 1) (e 1 \<or> which 1) n1, app_pair (new 2) (e 2 \<or> which 2) n2], t)"
    "reachable t"
    and t: "setting t = (setting s)(new 0 := (False, e 0 \<or> which 0, app_priority 0), new 1 := (False, e 1 \<or> which 1, app_priority 1),
      new 2 := (False, e 2 \<or> which 2, app_priority 2))"
    by blast
  have "setting t (new i) = (False, e i \<or> i < 3 \<and> which i, app_priority i)" if "i < 6" for i
    using less_6_cases [OF that] assms(3) that by (auto simp: t inj_new_iff [OF assms(2)])
  then show ?thesis using that [OF v] by blast
qed

lemma settings_listed:
  assumes "\<forall>i < 6. setting s (new i) = (False, e i, app_priority i)"
  shows "map (\<lambda>i. is_enabled (tq s (new i))) [0, 1, 2, 3, 4, 5] = map e [0, 1, 2, 3, 4, 5]"
    "map (\<lambda>i. GetQueuePriority (new i) s) [0, 1, 2, 3, 4, 5] = [kNormalPriority, kBestEffortPriority, kNormalPriority,
       kNormalPriority, kControlPriority, kBestEffortPriority]"
proof -
  show "map (\<lambda>i. is_enabled (tq s (new i))) [0, 1, 2, 3, 4, 5] = map e [0, 1, 2, 3, 4, 5]"
    using assms by (simp add: setting_def)
  have "GetQueuePriority (new i) s = app_priority i" if "i < 6" for i using assms that by (simp add: setting_def)
  then show "map (\<lambda>i. GetQueuePriority (new i) s) [0, 1, 2, 3, 4, 5] = [kNormalPriority, kBestEffortPriority, kNormalPriority,
       kNormalPriority, kControlPriority, kBestEffortPriority]"
    by (simp add: app_priority_def)
qed

lemma created_queue_accepts: "fst (TryBeginOperation (task_poster (tq (CreateTaskQueueImpl q spec s) q)))"
proof -
  have "task_poster (tq (CreateTaskQueueImpl q spec s) q) = snd (StartAcceptingOperations OperationsController_new)"
    by (simp add: CreateTaskQueueImpl_def Let_def sel_AddQueue_def AddQueueImpl_wq(3) TaskQueueImpl_new_def
        GetFlagToRequestReloadForEmptyQueue_def split_beta UpdateCrossThreadQueueStateLocked_def)
  then show ?thesis
    by (simp add: StartAcceptingOperations_def OperationsController_new_def TryBeginOperation_def TryBegin_add_def ExtractState_def
        ExtractCount_def StartAccepting_or_def DecrementBy_def kFlagsBitMask_def kCountBitMask_def kShuttingDownBitMask_def
        kAcceptingOperationsBitMask_def)
qed

lemma demo_queue_accepts:
  "\<exists>u. GuardedTaskPoster_PostTask 0 (PostedTask_make (Callback 7) location 0 n 0) kMainThread demo_queue = Some (True, u)"
proof -
  have "fst (TryBeginOperation (task_poster (tq demo_queue 0)))" unfolding demo_queue_def by (rule created_queue_accepts)
  then show ?thesis
    by (auto simp: GuardedTaskPoster_PostTask_def Let_def split_beta tq_PostTask_def PostImmediateTaskImpl_def PostedTask_make_def lift_posted_def)
qed

end
