(* ===== verification/Pool_Queue.thy ===== *)
theory Pool_Queue
  imports Intrusive_Heap Task_Traits
begin

text \<open>
  The priority queue of a thread group, \<open>thread_pool/priority_queue.cc\<close>, with the sort keys of
  \<open>sequence_sort_key.cc\<close>. An entry of its heap is a task source with the key it was queued under;
  taking the source out of an entry leaves a null pointer behind until the entry itself is removed or
  replaced. Task sources are numbers. The handles live in the task sources, so the store of handles is
  threaded beside the queue; the cell of the null pointer stands for the calls of \<open>ClearHeapHandle\<close>
  that an entry without a source ignores.
\<close>

section \<open>Sort keys\<close>

record sort_key =
  key_priority :: task_priority
  next_task_sequenced_time :: int

definition sort_key_le :: "sort_key \<Rightarrow> sort_key \<Rightarrow> bool" where
  "sort_key_le a b =
     (let priority_diff = int (priority_index (key_priority a)) - int (priority_index (key_priority b))
      in if 0 < priority_diff then True
         else if priority_diff < 0 then False
         else next_task_sequenced_time a \<le> next_task_sequenced_time b)"

section \<open>State\<close>

type_synonym queue_entry = "nat option \<times> sort_key"

definition entry_le :: "queue_entry \<Rightarrow> queue_entry \<Rightarrow> bool" where
  "entry_le a b = sort_key_le (snd a) (snd b)"

definition entry_dflt :: queue_entry where
  "entry_dflt = (None, \<lparr>key_priority = BEST_EFFORT, next_task_sequenced_time = 0\<rparr>)"

record priority_queue =
  container :: "queue_entry intrusive_heap"
  num_task_sources_per_priority :: "task_priority \<Rightarrow> u64"

type_synonym pq_state = "priority_queue \<times> (nat option \<Rightarrow> nat)"

definition PriorityQueue_new :: priority_queue where
  "PriorityQueue_new = \<lparr>container = IntrusiveHeap_init entry_dflt, num_task_sources_per_priority = (\<lambda>_. 0)\<rparr>"

section \<open>Operations\<close>

definition on_container :: "((queue_entry, nat option) heap_state \<Rightarrow> (queue_entry, nat option) heap_state) \<Rightarrow> pq_state \<Rightarrow> pq_state" where
  "on_container f s = (let (q, hs) = s; (h, hs) = f (container q, hs) in (q\<lparr>container := h\<rparr>, hs))"

definition DecrementNumTaskSourcesForPriority :: "task_priority \<Rightarrow> pq_state \<Rightarrow> pq_state" where
  "DecrementNumTaskSourcesForPriority p s =
     (let (q, hs) = s; n = num_task_sources_per_priority q in (q\<lparr>num_task_sources_per_priority := n(p := n p - 1)\<rparr>, hs))"

definition IncrementNumTaskSourcesForPriority :: "task_priority \<Rightarrow> pq_state \<Rightarrow> pq_state" where
  "IncrementNumTaskSourcesForPriority p s =
     (let (q, hs) = s; n = num_task_sources_per_priority q in (q\<lparr>num_task_sources_per_priority := n(p := n p + 1)\<rparr>, hs))"

text \<open>\<open>take_task_source\<close> on the entry in slot \<open>i\<close>.\<close>

definition take_task_source :: "nat \<Rightarrow> pq_state \<Rightarrow> nat option \<times> pq_state" where
  "take_task_source i s =
     (let (q, hs) = s; (source, key) = nodes (container q) ! i
      in (source, q\<lparr>container := (container q)\<lparr>nodes := (nodes (container q))[i := (None, key)]\<rparr>\<rparr>, hs(source := 0)))"

definition pq_IsEmpty :: "priority_queue \<Rightarrow> bool" where
  "pq_IsEmpty q = heap_empty (container q)"

definition Size :: "priority_queue \<Rightarrow> nat" where
  "Size q = heap_size (container q)"

definition PeekSortKey :: "priority_queue \<Rightarrow> sort_key" where
  "PeekSortKey q = snd (heap_Min (container q))"

definition pq_Push :: "nat \<Rightarrow> sort_key \<Rightarrow> pq_state \<Rightarrow> pq_state" where
  "pq_Push task_source key s =
     IncrementNumTaskSourcesForPriority (key_priority key)
       (on_container (heap_insert entry_dflt entry_le fst (Some task_source, key)) s)"

definition PopTaskSource :: "pq_state \<Rightarrow> nat option \<times> pq_state" where
  "PopTaskSource s =
     (let s = DecrementNumTaskSourcesForPriority (key_priority (snd (heap_Min (container (fst s))))) s;
          (task_source, s) = take_task_source 1 s
      in (task_source, on_container (heap_Pop entry_le fst) s))"

definition RemoveTaskSource :: "nat \<Rightarrow> pq_state \<Rightarrow> nat option \<times> pq_state" where
  "RemoveTaskSource task_source s =
     (let heap_handle = snd s (Some task_source)
      in if pq_IsEmpty (fst s) then (None, s)
         else if \<not> HeapHandle_IsValid heap_handle then (None, s)
         else let (registered_task_source, s) = take_task_source heap_handle s;
                  s = DecrementNumTaskSourcesForPriority (key_priority (snd (heap_at (container (fst s)) heap_handle))) s
              in (registered_task_source, on_container (heap_erase entry_le fst heap_handle) s))"

text \<open>\<open>new_sort_key\<close> is what \<open>GetSortKey\<close> of the transaction returns; it is read only when the source is
  in the queue.\<close>

definition UpdateSortKey :: "nat \<Rightarrow> sort_key \<Rightarrow> pq_state \<Rightarrow> pq_state" where
  "UpdateSortKey task_source new_sort_key s =
     (let heap_handle = snd s (Some task_source)
      in if pq_IsEmpty (fst s) then s
         else if \<not> HeapHandle_IsValid heap_handle then s
         else let old_sort_key = snd (heap_at (container (fst s)) heap_handle);
                  (registered_task_source, s) = take_task_source heap_handle s;
                  s = DecrementNumTaskSourcesForPriority (key_priority old_sort_key) s;
                  s = IncrementNumTaskSourcesForPriority (key_priority new_sort_key) s
              in on_container (heap_ChangeKey entry_le fst heap_handle (registered_task_source, new_sort_key)) s)"

definition GetNumTaskSourcesWithPriority :: "task_priority \<Rightarrow> priority_queue \<Rightarrow> u64" where
  "GetNumTaskSourcesWithPriority p q = num_task_sources_per_priority q p"

section \<open>The order of the entries\<close>

lemma sort_key_le_iff:
  "sort_key_le a b \<longleftrightarrow> key_priority b < key_priority a \<or>
     key_priority a = key_priority b \<and> next_task_sequenced_time a \<le> next_task_sequenced_time b"
proof -
  have "priority_index (key_priority a) = priority_index (key_priority b) \<longleftrightarrow> key_priority a = key_priority b" by simp
  then show ?thesis by (auto simp: sort_key_le_def Let_def less_task_priority_def simp del: priority_index_inject)
qed

interpretation entries: heap_order entry_le UNIV fst
  by unfold_locales (auto simp: entry_le_def sort_key_le_iff)

section \<open>Taking a source out of its entry\<close>

text \<open>An entry may be exchanged for one that compares the same and whose handle nobody else has.\<close>

lemma relabel_inv:
  assumes inv: "heap_inv le hid (h, hs)" and k: "k \<in> slots h"
    and le: "\<And>y. le y e = le y (nodes h ! k)" "\<And>y. le e y = le (nodes h ! k) y"
    and fresh: "hid e \<notin> hid ` heap_elems h"
  shows "heap_inv le hid (h\<lparr>nodes := (nodes h)[k := e]\<rparr>, hs(hid (nodes h ! k) := 0, hid e := k))"
    "heap_elems (h\<lparr>nodes := (nodes h)[k := e]\<rparr>) = insert e (heap_elems h - {nodes h ! k})"
proof -
  have kl: "k < length (nodes h)" using inv k by (auto simp: heap_inv_def slots_def)
  have ha: "handles_ok hid (h, hs)" using inv by (simp add: heap_inv_def)
  have ne: "hid (nodes h ! i) \<noteq> hid (nodes h ! k)" if "i \<in> slots h" "i \<noteq> k" for i
    using ha that k by (simp add: handles_ok_def) metis
  have fr: "hid (nodes h ! i) \<noteq> hid e" if "i \<in> slots h" for i using fresh that unfolding heap_elems_def by (metis imageI)
  have "heap_ordered le (h\<lparr>nodes := (nodes h)[k := e]\<rparr>)"
    using inv kl by (auto simp: heap_inv_def heap_ordered_def slots_def nth_list_update le)
  moreover have "handles_ok hid (h\<lparr>nodes := (nodes h)[k := e]\<rparr>, hs(hid (nodes h ! k) := 0, hid e := k))"
    using ha kl ne fr by (auto simp: handles_ok_def slots_def nth_list_update)
  ultimately show "heap_inv le hid (h\<lparr>nodes := (nodes h)[k := e]\<rparr>, hs(hid (nodes h ! k) := 0, hid e := k))"
    using inv by (simp add: heap_inv_def)
  show "heap_elems (h\<lparr>nodes := (nodes h)[k := e]\<rparr>) = insert e (heap_elems h - {nodes h ! k})"
    using kl k ne by (auto simp: heap_elems_def slots_def nth_list_update image_def) metis
qed

text \<open>\<open>erase\<close> and \<open>Pop\<close> clear the handle of the entry they remove before anything else.\<close>

lemma erase_ignores_handle: "hid (nodes h ! k) = d \<Longrightarrow> heap_erase le hid k (h, hs(d := i)) = heap_erase le hid k (h, hs)"
  by (simp add: heap_erase_def MakeHole_def)

lemma pop_ignores_handle: "hid (nodes h ! 1) = d \<Longrightarrow> heap_Pop le hid (h, hs(d := i)) = heap_Pop le hid (h, hs)"
  by (simp add: heap_Pop_def MakeHole_def)

section \<open>The queue as a map\<close>

text \<open>From task sources to the keys they are queued under. The counters say how many sources there are
  of each priority.\<close>

definition of_priority :: "(nat \<rightharpoonup> sort_key) \<Rightarrow> task_priority \<Rightarrow> nat set" where
  "of_priority m p = {x. \<exists>k. m x = Some k \<and> key_priority k = p}"

definition entries_of :: "(nat \<rightharpoonup> sort_key) \<Rightarrow> queue_entry set" where
  "entries_of m = {(Some x, k) |x k. m x = Some k}"

lemma entries_of_iff [simp]: "(Some x, k) \<in> entries_of m \<longleftrightarrow> m x = Some k" "(None, k) \<notin> entries_of m"
  by (auto simp: entries_of_def)

lemma owners_of_entries: "fst ` entries_of m = Some ` dom m"
  by (force simp: entries_of_def)

lemma entries_of_put: "entries_of (m(x \<mapsto> k)) = insert (Some x, k) (entries_of (m(x := None)))"
  by (auto simp: entries_of_def split: if_splits)

lemma entries_of_drop: "m x = Some k \<Longrightarrow> entries_of m - {(Some x, k)} = entries_of (m(x := None))"
proof (rule set_eqI)
  fix e
  assume "m x = Some k"
  then show "e \<in> entries_of m - {(Some x, k)} \<longleftrightarrow> e \<in> entries_of (m(x := None))"
    by (cases e; cases "fst e") auto
qed

lemma entries_of_empty: "entries_of m = {} \<longleftrightarrow> m = Map.empty"
proof
  assume "entries_of m = {}"
  then have "m x \<noteq> Some k" for x k by (auto simp: entries_of_def)
  then show "m = Map.empty" by (intro ext) (meson not_Some_eq)
qed (simp add: entries_of_def)

definition heap_rep :: "(nat \<rightharpoonup> sort_key) \<Rightarrow> (queue_entry, nat option) heap_state \<Rightarrow> bool" where
  "heap_rep m s \<longleftrightarrow> heap_inv entry_le fst s \<and> heap_elems (fst s) = entries_of m"

definition pq_rep :: "(nat \<rightharpoonup> sort_key) \<Rightarrow> pq_state \<Rightarrow> bool" where
  "pq_rep m s \<longleftrightarrow> heap_rep m (container (fst s), snd s) \<and> finite (dom m) \<and>
     (\<forall>p. num_task_sources_per_priority (fst s) p = of_nat (card (of_priority m p)))"

lemma heap_repD:
  assumes "heap_rep m s"
  shows "heap_inv entry_le fst s" "(Some x, k) \<in> heap_elems (fst s) \<longleftrightarrow> m x = Some k" "(None, k) \<notin> heap_elems (fst s)"
    "heap_empty (fst s) \<longleftrightarrow> m = Map.empty" "fst ` heap_elems (fst s) = Some ` dom m"
proof -
  have e: "heap_elems (fst s) = entries_of m" using assms by (simp add: heap_rep_def)
  show "heap_inv entry_le fst s" using assms by (simp add: heap_rep_def)
  show "(Some x, k) \<in> heap_elems (fst s) \<longleftrightarrow> m x = Some k" "(None, k) \<notin> heap_elems (fst s)"
    unfolding e by simp_all
  show "heap_empty (fst s) \<longleftrightarrow> m = Map.empty"
    unfolding heap_elems_empty [symmetric] e by (rule entries_of_empty)
  show "fst ` heap_elems (fst s) = Some ` dom m"
    unfolding e by (rule owners_of_entries)
qed

lemma heap_rep_slot:
  assumes "heap_rep m s" "m x = Some k"
  shows "snd s (Some x) \<in> slots (fst s)" "nodes (fst s) ! snd s (Some x) = (Some x, k)" "HeapHandle_IsValid (snd s (Some x))"
  using elem_slot [OF entries.heap_inv_handles [OF heap_repD(1) [OF assms(1)]], of "(Some x, k)"] heap_repD(2) [OF assms(1)] assms(2)
  by (auto simp: HeapHandle_IsValid_def slots_def)

lemma of_priority_update:
  assumes "finite (dom m)"
  shows "finite (of_priority m p)"
    "m x = None \<Longrightarrow> card (of_priority (m(x \<mapsto> k)) p) = card (of_priority m p) + of_bool (key_priority k = p)"
    "m x = Some k \<Longrightarrow> card (of_priority m p) = card (of_priority (m(x := None)) p) + of_bool (key_priority k = p)"
proof -
  have f: "finite (of_priority m p)" if "finite (dom m)" for m :: "nat \<rightharpoonup> sort_key" and p
    by (rule finite_subset [OF _ that]) (auto simp: of_priority_def)
  show "finite (of_priority m p)" by (rule f [OF assms])
  have a: "card (of_priority (m(x \<mapsto> k)) p) = card (of_priority m p) + of_bool (key_priority k = p)"
    if "m x = None" "finite (dom m)" for m :: "nat \<rightharpoonup> sort_key"
  proof -
    have "of_priority (m(x \<mapsto> k)) p = (if key_priority k = p then insert x (of_priority m p) else of_priority m p)"
      using that(1) by (auto simp: of_priority_def)
    moreover have "x \<notin> of_priority m p" using that(1) by (simp add: of_priority_def)
    ultimately show ?thesis using f [OF that(2)] by simp
  qed
  show "m x = None \<Longrightarrow> card (of_priority (m(x \<mapsto> k)) p) = card (of_priority m p) + of_bool (key_priority k = p)"
    by (rule a [OF _ assms])
  assume "m x = Some k"
  then have "(m(x := None))(x \<mapsto> k) = m" by auto
  then show "card (of_priority m p) = card (of_priority (m(x := None)) p) + of_bool (key_priority k = p)"
    using a [of "m(x := None)"] assms by simp
qed

text \<open>The state between \<open>take_task_source\<close> and the removal or replacement of the entry.\<close>

lemma taken_entry:
  assumes rep: "heap_rep m (h, hs)" and x: "m x = Some k" and i: "i = hs (Some x)"
  defines "h' \<equiv> h\<lparr>nodes := (nodes h)[i := (None, k)]\<rparr>"
  shows "heap_inv entry_le fst (h', hs(Some x := 0, None := i))"
    "heap_elems h' = insert (None, k) (entries_of (m(x := None)))"
    "nodes h' ! i = (None, k)" "i \<in> slots h'" "slots h' = slots h"
proof -
  have sl: "i \<in> slots h" "nodes h ! i = (Some x, k)" using heap_rep_slot [OF rep x] i by simp_all
  have n: "None \<notin> fst ` heap_elems h" using heap_repD(5) [OF rep] by auto
  show "heap_inv entry_le fst (h', hs(Some x := 0, None := i))"
    using relabel_inv(1) [OF heap_repD(1) [OF rep] sl(1), of "(None, k)"] sl(2) n by (simp add: entry_le_def h'_def)
  have "heap_elems h' = insert (None, k) (heap_elems h - {(Some x, k)})"
    using relabel_inv(2) [OF heap_repD(1) [OF rep] sl(1), of "(None, k)"] sl(2) n by (simp add: entry_le_def h'_def)
  moreover have "heap_elems h - {(Some x, k)} = entries_of (m(x := None))"
    using rep entries_of_drop [of m, OF x] by (simp add: heap_rep_def)
  ultimately show "heap_elems h' = insert (None, k) (entries_of (m(x := None)))" by simp
  have "i < length (nodes h)" using heap_repD(1) [OF rep] sl(1) by (auto simp: heap_inv_def slots_def)
  then show "nodes h' ! i = (None, k)" by (simp add: h'_def)
  show "i \<in> slots h'" "slots h' = slots h" using sl(1) by (simp_all add: h'_def slots_def)
qed

text \<open>The handles of sources that are not in the queue are left alone: they may be in another one.\<close>

definition handles_kept :: "nat set \<Rightarrow> (nat option \<Rightarrow> nat) \<Rightarrow> (nat option \<Rightarrow> nat) \<Rightarrow> bool" where
  "handles_kept X hs hs' \<longleftrightarrow> (\<forall>y. y \<notin> X \<longrightarrow> hs' (Some y) = hs (Some y))"

lemma handles_keptD: "handles_kept X hs hs' \<Longrightarrow> y \<notin> X \<Longrightarrow> hs' (Some y) = hs (Some y)"
  by (simp add: handles_kept_def)

lemma heap_rep_insert:
  assumes rep: "heap_rep m s" and x: "m x = None"
  shows "heap_rep (m(x \<mapsto> k)) (heap_insert entry_dflt entry_le fst (Some x, k) s)"
    "handles_kept (insert x (dom m)) (snd s) (snd (heap_insert entry_dflt entry_le fst (Some x, k) s))"
proof -
  have n: "fst (Some x, k) \<notin> fst ` heap_elems (fst s)" using heap_repD(5) [OF rep] x by auto
  have i: "heap_inv entry_le fst s \<and> heap_elems (fst s) \<subseteq> UNIV" using heap_repD(1) [OF rep] by simp
  note I = entries.pq.insert_spec [OF i UNIV_I n, of entry_dflt]
  have "entries_of (m(x \<mapsto> k)) = insert (Some x, k) (entries_of m)"
    unfolding entries_of_put using x by (simp add: fun_upd_idem)
  then show "heap_rep (m(x \<mapsto> k)) (heap_insert entry_dflt entry_le fst (Some x, k) s)"
    using I rep by (simp add: heap_rep_def)
  show "handles_kept (insert x (dom m)) (snd s) (snd (heap_insert entry_dflt entry_le fst (Some x, k) s))"
    using I unfolding heap_repD(5) [OF rep] handles_kept_def by auto
qed

lemma heap_rep_removed:
  assumes rep: "heap_rep m (h, hs)" and x: "m x = Some k" and i: "i = hs (Some x)"
    and t: "entries.removed (h\<lparr>nodes := (nodes h)[i := (None, k)]\<rparr>, hs(Some x := 0, None := i)) i t"
  shows "heap_rep (m(x := None)) t" "snd t (Some x) = 0" "handles_kept (dom m) hs (snd t)"
proof -
  let ?h = "h\<lparr>nodes := (nodes h)[i := (None, k)]\<rparr>"
  note T = taken_entry [OF rep x i]
  have n: "(None, k) \<notin> entries_of (m(x := None))" by simp
  have "heap_elems (fst t) = heap_elems ?h - {(None, k)}" "heap_inv entry_le fst t"
    and fr: "\<And>y. y \<notin> fst ` heap_elems ?h \<Longrightarrow> snd t y = (hs(Some x := 0, None := i)) y"
    using t T(3) unfolding entries.removed_def by simp_all
  then show "heap_rep (m(x := None)) t" unfolding heap_rep_def using T(2) n by simp
  have "fst ` heap_elems ?h = insert None (Some ` (dom m - {x}))"
    unfolding T(2) image_insert owners_of_entries by simp
  then have "snd t (Some y) = (if y = x then 0 else hs (Some y))" if "y \<notin> dom m - {x}" for y
    using fr [of "Some y"] that by (auto simp: image_iff)
  then show "snd t (Some x) = 0" "handles_kept (dom m) hs (snd t)" using x by (auto simp: handles_kept_def)
qed

lemma heap_rep_changed:
  fixes l :: sort_key
  assumes rep: "heap_rep m (h, hs)" and x: "m x = Some k" and i: "i = hs (Some x)"
  defines "t \<equiv> heap_ChangeKey entry_le fst i (Some x, l) (h\<lparr>nodes := (nodes h)[i := (None, k)]\<rparr>, hs(Some x := 0))"
  shows "heap_rep (m(x \<mapsto> l)) t" "handles_kept (dom m) hs (snd t)"
proof -
  let ?h = "h\<lparr>nodes := (nodes h)[i := (None, k)]\<rparr>" and ?M = "entries_of (m(x := None))"
  let ?s = "(?h, hs(Some x := 0, None := i))"
  note T = taken_entry [OF rep x i]
  have eb: "elems_but ?h i = ?M"
    using entries.elems_but_eq [OF entries.heap_inv_handles [OF T(1)], of i] T(2-4) by (simp add: insert_Diff_if)
  have "hole_state entry_le fst ?s i" by (rule entries.heap_inv_hole [OF T(1)]) (use T(4) in simp_all)
  moreover have "handles_but fst (?h, hs(Some x := 0)) i"
    unfolding handles_but_def
  proof
    fix j
    assume j: "j \<in> slots (fst (?h, hs(Some x := 0))) - {i}"
    then have "nodes ?h ! j \<in> ?M" using eb by (force simp: elems_but_def)
    then have "fst (nodes ?h ! j) \<noteq> None" by (cases "nodes ?h ! j"; cases "fst (nodes ?h ! j)") simp_all
    moreover have "snd ?s (fst (nodes ?h ! j)) = j"
      using j entries.heap_inv_handles [OF T(1)] unfolding handles_ok_def fst_conv by blast
    ultimately show "snd (?h, hs(Some x := 0)) (fst (nodes (fst (?h, hs(Some x := 0))) ! j)) = j" by (simp split: if_splits)
  qed
  ultimately have h: "hole_state entry_le fst (?h, hs(Some x := 0)) i" by (simp add: hole_state_def)
  have below: "entry_le (nodes ?h ! i) (nodes ?h ! j)" if "j \<in> slots ?h" "j div 2 = i" for j
    using entries.heap_below [OF T(1), of j i] that T(4) by (auto simp: slots_def)
  have f: "filled entry_le fst i (Some x, l) (?h, hs(Some x := 0)) t"
    unfolding t_def heap_ChangeKey_def
    by (rule entries.refill_filled [OF h]) (use below in \<open>auto simp add: eb owners_of_entries\<close>)
  have "insert (Some x, l) ?M = entries_of (m(x \<mapsto> l))" by (rule entries_of_put [symmetric])
  then show "heap_rep (m(x \<mapsto> l)) t" using f eb by (simp add: filled_def heap_rep_def)
  have "fst ` insert (Some x, l) ?M = Some ` dom m" unfolding image_insert owners_of_entries using x by auto
  then have "snd t y = (hs(Some x := 0)) y" if "y \<notin> Some ` dom m" for y
    using f that unfolding filled_def fst_conv snd_conv eb by metis
  from this [of "Some y" for y] show "handles_kept (dom m) hs (snd t)" using x unfolding handles_kept_def by (auto simp: image_iff)
qed

section \<open>The operations on the map\<close>

lemma pq_repD:
  assumes "pq_rep m (q, hs)"
  shows "heap_rep m (container q, hs)" "finite (dom m)" "num_task_sources_per_priority q p = of_nat (card (of_priority m p))"
    "pq_IsEmpty q \<longleftrightarrow> m = Map.empty"
  using assms heap_repD(4) [of m "(container q, hs)"] by (simp_all add: pq_rep_def pq_IsEmpty_def)

lemma new_rep: "pq_rep Map.empty (PriorityQueue_new, hs)"
proof -
  have "entries_of Map.empty = {}" by (simp add: entries_of_empty)
  then show ?thesis
    by (simp add: pq_rep_def heap_rep_def PriorityQueue_new_def IntrusiveHeap_init_inv of_priority_def)
qed

lemma Push_rep:
  assumes "pq_rep m (q, hs)" "m x = None"
  shows "pq_rep (m(x \<mapsto> k)) (pq_Push x k (q, hs))" "handles_kept (insert x (dom m)) hs (snd (pq_Push x k (q, hs)))"
proof -
  note R = pq_repD [OF assms(1)]
  obtain h hs' where h: "heap_insert entry_dflt entry_le fst (Some x, k) (container q, hs) = (h, hs')" by force
  note I = heap_rep_insert [OF R(1) assms(2), of k, unfolded h]
  have p: "pq_Push x k (q, hs) = (q\<lparr>container := h, num_task_sources_per_priority :=
      (num_task_sources_per_priority q)(key_priority k := num_task_sources_per_priority q (key_priority k) + 1)\<rparr>, hs')"
    by (simp add: pq_Push_def on_container_def h IncrementNumTaskSourcesForPriority_def Let_def)
  show "pq_rep (m(x \<mapsto> k)) (pq_Push x k (q, hs))"
    unfolding p pq_rep_def using I(1) R(2,3) of_priority_update(2) [OF R(2) assms(2), of k] by simp
  show "handles_kept (insert x (dom m)) hs (snd (pq_Push x k (q, hs)))" using I(2) by (simp add: p)
qed

text \<open>What \<open>PopTaskSource\<close> and \<open>RemoveTaskSource\<close> leave.\<close>

lemma pq_removed_rep:
  assumes rep: "pq_rep m (q, hs)" and x: "m x = Some k" and i: "i = hs (Some x)"
    and t: "entries.removed ((container q)\<lparr>nodes := (nodes (container q))[i := (None, k)]\<rparr>, hs(Some x := 0, None := i)) i (h, hs')"
  shows "pq_rep (m(x := None)) (q\<lparr>container := h, num_task_sources_per_priority :=
      (num_task_sources_per_priority q)(key_priority k := num_task_sources_per_priority q (key_priority k) - 1)\<rparr>, hs')"
    "hs' (Some x) = 0" "handles_kept (dom m) hs hs'"
proof -
  note R = pq_repD [OF rep]
  note T = heap_rep_removed [OF R(1) x i t]
  show "pq_rep (m(x := None)) (q\<lparr>container := h, num_task_sources_per_priority :=
      (num_task_sources_per_priority q)(key_priority k := num_task_sources_per_priority q (key_priority k) - 1)\<rparr>, hs')"
    unfolding pq_rep_def using T(1) R(2,3) of_priority_update(3) [OF R(2) x] by simp
  show "hs' (Some x) = 0" "handles_kept (dom m) hs hs'" using T(2,3) by simp_all
qed

lemma Pop_rep:
  assumes "pq_rep m (q, hs)" "m \<noteq> Map.empty"
  obtains x k q' hs' where "PopTaskSource (q, hs) = (Some x, q', hs')" "m x = Some k" "PeekSortKey q = k"
    "\<And>y l. m y = Some l \<Longrightarrow> sort_key_le k l" "pq_rep (m(x := None)) (q', hs')" "hs' (Some x) = 0" "handles_kept (dom m) hs hs'"
proof -
  note R = pq_repD [OF assms(1)]
  let ?h = "container q"
  have inv: "heap_inv entry_le fst (?h, hs) \<and> heap_elems (fst (?h, hs)) \<subseteq> UNIV" using heap_repD(1) [OF R(1)] by simp
  have ne: "heap_elems (fst (?h, hs)) \<noteq> {}" using heap_repD(4) [OF R(1)] assms(2) by (simp add: heap_elems_empty)
  obtain x k where e: "heap_Min ?h = (Some x, k)" "m x = Some k"
    using entries.pq.min_in [OF inv ne] heap_repD(2,3) [OF R(1)] by (cases "heap_Min ?h"; cases "fst (heap_Min ?h)") auto
  have least: "sort_key_le k l" if "m y = Some l" for y l
    using entries.pq.min_least [OF inv, of "(Some y, l)"] heap_repD(2) [OF R(1)] that e(1) by (simp add: entry_le_def)
  have n1: "nodes ?h ! 1 = (Some x, k)" using e(1) by (simp add: heap_Min_def)
  have sl: "1 \<in> slots ?h" using ne by (auto simp: heap_elems_def slots_def)
  then have i: "1 = hs (Some x)"
    using entries.heap_inv_handles [OF heap_repD(1) [OF R(1)]] n1 by (auto simp: handles_ok_def)
  let ?h' = "?h\<lparr>nodes := (nodes ?h)[1 := (None, k)]\<rparr>"
  note T = taken_entry [OF R(1) e(2) i]
  obtain h'' hs' where t: "heap_Pop entry_le fst (?h', hs(Some x := 0)) = (h'', hs')" by force
  have "\<not> heap_empty ?h'" using T(4) by (auto simp: slots_def heap_empty_def)
  then have "entries.removed (?h', hs(Some x := 0, None := 1)) 1 (h'', hs')"
    using entries.heap_Pop_removed [OF T(1)] pop_ignores_handle [of fst ?h' None entry_le "hs(Some x := 0)" 1] T(3) t by simp
  note P = pq_removed_rep [OF assms(1) e(2) i this]
  have "PopTaskSource (q, hs) = (Some x, q\<lparr>container := h'', num_task_sources_per_priority :=
      (num_task_sources_per_priority q)(key_priority k := num_task_sources_per_priority q (key_priority k) - 1)\<rparr>, hs')"
    using t n1 by (simp add: PopTaskSource_def Let_def e(1) DecrementNumTaskSourcesForPriority_def take_task_source_def on_container_def)
  then show ?thesis using P e least by (intro that [of x _ _ k]) (simp_all add: PeekSortKey_def)
qed

lemma Remove_rep:
  assumes "pq_rep m (q, hs)" "m x = Some k"
  obtains q' hs' where "RemoveTaskSource x (q, hs) = (Some x, q', hs')" "pq_rep (m(x := None)) (q', hs')"
    "hs' (Some x) = 0" "handles_kept (dom m) hs hs'"
proof -
  note R = pq_repD [OF assms(1)]
  let ?h = "container q" and ?i = "hs (Some x)"
  let ?h' = "?h\<lparr>nodes := (nodes ?h)[?i := (None, k)]\<rparr>"
  note S = heap_rep_slot [OF R(1) assms(2)]
  note T = taken_entry [OF R(1) assms(2) refl]
  have ne: "\<not> pq_IsEmpty q" using R(4) assms(2) by auto
  obtain h'' hs' where t: "heap_erase entry_le fst ?i (?h', hs(Some x := 0)) = (h'', hs')" by force
  then have "entries.removed (?h', hs(Some x := 0, None := ?i)) ?i (h'', hs')"
    using entries.heap_erase_removed [OF T(1), of ?i] T(4)
      erase_ignores_handle [of fst ?h' ?i None entry_le "hs(Some x := 0)" ?i] T(3) by simp
  note P = pq_removed_rep [OF assms(1,2) refl this]
  have "RemoveTaskSource x (q, hs) = (Some x, q\<lparr>container := h'', num_task_sources_per_priority :=
      (num_task_sources_per_priority q)(key_priority k := num_task_sources_per_priority q (key_priority k) - 1)\<rparr>, hs')"
    using t S ne T(3) by (simp add: RemoveTaskSource_def Let_def heap_at_def DecrementNumTaskSourcesForPriority_def
        take_task_source_def on_container_def)
  then show ?thesis using P by (rule that)
qed

lemma Update_rep:
  assumes "pq_rep m (q, hs)" "m x = Some k"
  shows "pq_rep (m(x \<mapsto> l)) (UpdateSortKey x l (q, hs))" "handles_kept (dom m) hs (snd (UpdateSortKey x l (q, hs)))"
proof -
  note R = pq_repD [OF assms(1)]
  let ?h = "container q" and ?i = "hs (Some x)" and ?n = "num_task_sources_per_priority q"
  let ?h' = "?h\<lparr>nodes := (nodes ?h)[?i := (None, k)]\<rparr>"
  note S = heap_rep_slot [OF R(1) assms(2)]
  have ne: "\<not> pq_IsEmpty q" using R(4) assms(2) by auto
  obtain h'' hs' where t: "heap_ChangeKey entry_le fst ?i (Some x, l) (?h', hs(Some x := 0)) = (h'', hs')" by force
  note C = heap_rep_changed [OF R(1) assms(2) refl, of l, unfolded t]
  define n where "n = ?n(key_priority k := ?n (key_priority k) - 1)"
  have u: "UpdateSortKey x l (q, hs) = (q\<lparr>container := h'', num_task_sources_per_priority :=
      n(key_priority l := n (key_priority l) + 1)\<rparr>, hs')"
    using t S ne by (simp add: UpdateSortKey_def Let_def heap_at_def DecrementNumTaskSourcesForPriority_def
        IncrementNumTaskSourcesForPriority_def take_task_source_def on_container_def n_def)
  have f: "finite (dom (m(x := None)))" using R(2) by simp
  have "n p = of_nat (card (of_priority (m(x := None)) p))" for p
    unfolding n_def using R(3) of_priority_update(3) [OF R(2) assms(2), of p] by (cases "p = key_priority k") simp_all
  then have "(n(key_priority l := n (key_priority l) + 1)) p = of_nat (card (of_priority (m(x \<mapsto> l)) p))" for p
    using of_priority_update(2) [OF f, of x l p] by simp
  then show "pq_rep (m(x \<mapsto> l)) (UpdateSortKey x l (q, hs))" unfolding u pq_rep_def using C(1) R(2) by simp
  show "handles_kept (dom m) hs (snd (UpdateSortKey x l (q, hs)))" using C(2) by (simp add: u)
qed

text \<open>A source whose handle is not valid is in no queue, and asking for it changes nothing.\<close>

lemma absent_source:
  assumes "hs (Some x) = 0"
  shows "RemoveTaskSource x (q, hs) = (None, q, hs)" "UpdateSortKey x l (q, hs) = (q, hs)"
  using assms by (simp_all add: RemoveTaskSource_def UpdateSortKey_def HeapHandle_IsValid_def Let_def)

text \<open>Handles that other operations change do not matter to the queue.\<close>

lemma pq_rep_frame:
  assumes "pq_rep m (q, hs)" "\<And>x. x \<in> dom m \<Longrightarrow> hs' (Some x) = hs (Some x)"
  shows "pq_rep m (q, hs')"
proof -
  have r: "heap_rep m (container q, hs)" by (rule pq_repD(1) [OF assms(1)])
  have "hs' (fst (nodes (container q) ! i)) = hs (fst (nodes (container q) ! i))" if "i \<in> slots (container q)" for i
  proof -
    have "nodes (container q) ! i \<in> entries_of m" using r that by (auto simp: heap_rep_def heap_elems_def)
    then show ?thesis using assms(2)
      by (cases "nodes (container q) ! i"; cases "fst (nodes (container q) ! i)") auto
  qed
  then have "heap_rep m (container q, hs')" using r by (simp add: heap_rep_def heap_inv_def handles_ok_def)
  then show ?thesis using assms(1) by (simp add: pq_rep_def)
qed

section \<open>Sequences of operations\<close>

text \<open>An operation that the code forbids by a \<open>DCHECK\<close> (popping an empty queue, pushing a source
  that is in it) is skipped.\<close>

datatype pq_op = PPush nat sort_key | PPop | PRemove nat | PUpdate nat sort_key

fun pq_exec :: "pq_op \<Rightarrow> pq_state \<Rightarrow> nat option \<times> pq_state" where
  "pq_exec (PPush x k) s = (None, if HeapHandle_IsValid (snd s (Some x)) then s else pq_Push x k s)"
| "pq_exec PPop s = (if pq_IsEmpty (fst s) then (None, s) else PopTaskSource s)"
| "pq_exec (PRemove x) s = RemoveTaskSource x s"
| "pq_exec (PUpdate x k) s = (None, UpdateSortKey x k s)"

text \<open>On maps; \<open>popped\<close> is the source that \<open>PopTaskSource\<close> chose.\<close>

fun pq_spec :: "pq_op \<Rightarrow> nat option \<Rightarrow> (nat \<rightharpoonup> sort_key) \<Rightarrow> (nat \<rightharpoonup> sort_key)" where
  "pq_spec (PPush x k) _ m = (if m x = None then m(x \<mapsto> k) else m)"
| "pq_spec PPop popped m = (case popped of None \<Rightarrow> m | Some x \<Rightarrow> m(x := None))"
| "pq_spec (PRemove x) _ m = m(x := None)"
| "pq_spec (PUpdate x k) _ m = (if m x = None then m else m(x \<mapsto> k))"

fun pq_result :: "pq_op \<Rightarrow> (nat \<rightharpoonup> sort_key) \<Rightarrow> nat option \<Rightarrow> bool" where
  "pq_result PPop m r \<longleftrightarrow> (case r of None \<Rightarrow> m = Map.empty
     | Some x \<Rightarrow> (\<exists>k. m x = Some k \<and> (\<forall>y l. m y = Some l \<longrightarrow> sort_key_le k l)))"
| "pq_result (PRemove x) m r \<longleftrightarrow> r = (if m x = None then None else Some x)"
| "pq_result _ m r \<longleftrightarrow> r = None"

text \<open>The map of a queue that all valid handles belong to.\<close>

definition pq_map :: "pq_state \<Rightarrow> nat \<rightharpoonup> sort_key" where
  "pq_map s x = (let i = snd s (Some x) in if HeapHandle_IsValid i then Some (snd (heap_at (container (fst s)) i)) else None)"

definition sole_rep :: "(nat \<rightharpoonup> sort_key) \<Rightarrow> pq_state \<Rightarrow> bool" where
  "sole_rep m s \<longleftrightarrow> pq_rep m s \<and> (\<forall>x. m x = None \<longrightarrow> snd s (Some x) = 0)"

lemma sole_rep_map:
  assumes "sole_rep m s"
  shows "pq_map s = m" "HeapHandle_IsValid (snd s (Some x)) \<longleftrightarrow> m x \<noteq> None"
proof -
  have r: "pq_rep m (fst s, snd s)" using assms by (simp add: sole_rep_def)
  note S = heap_rep_slot [OF pq_repD(1) [OF r], simplified]
  have "pq_map s x = m x" for x
    using assms S(2,3) [of x] by (cases "m x") (auto simp: pq_map_def sole_rep_def HeapHandle_IsValid_def heap_at_def)
  then show "pq_map s = m" by blast
  show "HeapHandle_IsValid (snd s (Some x)) \<longleftrightarrow> m x \<noteq> None"
    using assms S(3) [of x] by (cases "m x") (auto simp: sole_rep_def HeapHandle_IsValid_def)
qed

lemma sole_rep_step:
  assumes "sole_rep m s"
  shows "sole_rep (pq_spec c (fst (pq_exec c s)) m) (snd (pq_exec c s)) \<and> pq_result c m (fst (pq_exec c s))"
proof -
  obtain q hs where s: "s = (q, hs)" by force
  have r: "pq_rep m (q, hs)" and z: "\<And>x. m x = None \<Longrightarrow> hs (Some x) = 0" using assms by (simp_all add: sole_rep_def s)
  note v = sole_rep_map(2) [OF assms, unfolded s, simplified]
  show ?thesis
  proof (cases c)
    case (PPush x k)
    then show ?thesis
      using assms v [of x] z Push_rep [OF r, of x k] by (cases "m x") (auto simp: s sole_rep_def handles_kept_def domIff)
  next
    case PPop
    show ?thesis
    proof (cases "m = Map.empty")
      case False
      obtain x k q' hs' where "PopTaskSource (q, hs) = (Some x, q', hs')" "m x = Some k"
        "\<And>y l. m y = Some l \<Longrightarrow> sort_key_le k l" "pq_rep (m(x := None)) (q', hs')" "hs' (Some x) = 0" "handles_kept (dom m) hs hs'"
        using Pop_rep [OF r False] by metis
      then show ?thesis using PPop False z pq_repD(4) [OF r] by (auto simp: s sole_rep_def handles_kept_def domIff)
    qed (use PPop assms pq_repD(4) [OF r] in \<open>simp add: s\<close>)
  next
    case (PRemove x)
    show ?thesis
    proof (cases "m x")
      case (Some k)
      obtain q' hs' where "RemoveTaskSource x (q, hs) = (Some x, q', hs')" "pq_rep (m(x := None)) (q', hs')"
        "hs' (Some x) = 0" "handles_kept (dom m) hs hs'" by (rule Remove_rep [OF r Some])
      then show ?thesis using PRemove Some z by (auto simp: s sole_rep_def handles_kept_def domIff)
    qed (use PRemove assms absent_source(1) [of hs x q] z in \<open>simp add: s fun_upd_idem\<close>)
  next
    case (PUpdate x k)
    then show ?thesis
      using assms z absent_source(2) [of hs x k q] Update_rep [OF r, of x _ k] by (cases "m x") (auto simp: s sole_rep_def handles_kept_def domIff)
  qed
qed

fun pq_run :: "pq_op list \<Rightarrow> pq_state \<Rightarrow> pq_state" where
  "pq_run [] s = s"
| "pq_run (c # cs) s = pq_run cs (snd (pq_exec c s))"

lemma pq_run_rep: "sole_rep m s \<Longrightarrow> \<exists>m. sole_rep m (pq_run cs s)"
proof (induction cs arbitrary: m s)
  case (Cons c cs)
  show ?case using Cons.IH [OF conjunct1 [OF sole_rep_step [OF Cons.prems, of c]]] by simp
qed auto

end
