(* ===== verification/Pool_Sequence.thy ===== *)
theory Pool_Sequence
  imports Pool_Queue
begin

text \<open>
  The task sources of the thread pool, \<open>thread_pool/task_source.cc\<close> and \<open>sequence.cc\<close>: a sequence is a
  queue of tasks of which one at a time runs. A transaction is the scope in which the lock of the
  source is held; each operation here is one transaction.
\<close>

section \<open>State\<close>

text \<open>A closure is \<^term>\<open>None\<close> when it is null. A null time is 0. \<open>critical\<close> marks a closure wrapped by
  \<open>MakeCriticalClosure\<close>.\<close>

record pool_task =
  pool_closure :: "nat option"
  pool_delayed_run_time :: int
  pool_queue_time :: int
  critical :: bool

definition pool_Task :: "nat option \<Rightarrow> int \<Rightarrow> int \<Rightarrow> pool_task" where
  "pool_Task closure delay now =
     \<lparr>pool_closure = closure, pool_delayed_run_time = (if delay = 0 then 0 else now + delay), pool_queue_time = 0, critical = False\<rparr>"

text \<open>The task runner is reference-counted: \<open>runner_refs\<close> is what the sequence adds to the count. A
  parallel runner keeps a set of its sequences, \<open>runner_registered\<close> is the membership.\<close>

record pool_sequence =
  seq_queue :: "pool_task list"
  has_worker :: bool
  seq_priority :: task_priority
  seq_shutdown_behavior :: task_shutdown_behavior
  seq_thread_policy :: thread_policy
  seq_execution_mode :: execution_mode
  seq_task_runner :: "nat option"
  runner_refs :: int
  runner_registered :: bool

definition Sequence_new :: "task_priority \<Rightarrow> task_shutdown_behavior \<Rightarrow> thread_policy \<Rightarrow> nat option \<Rightarrow> execution_mode \<Rightarrow> pool_sequence" where
  "Sequence_new priority shutdown policy runner mode =
     \<lparr>seq_queue = [], has_worker = False, seq_priority = priority, seq_shutdown_behavior = shutdown,
      seq_thread_policy = policy, seq_execution_mode = mode, seq_task_runner = runner, runner_refs = 0,
      runner_registered = (mode = kParallel \<and> runner \<noteq> None)\<rparr>"

section \<open>Operations\<close>

definition WillPushTask :: "pool_sequence \<Rightarrow> bool" where
  "WillPushTask sq = (seq_queue sq = [] \<and> \<not> has_worker sq)"

text \<open>The \<open>CHECK\<close> for a null closure fails with \<^term>\<open>None\<close>. \<open>now\<close> is \<open>TimeTicks::Now()\<close>.\<close>

definition PushTask :: "int \<Rightarrow> pool_task \<Rightarrow> pool_sequence \<Rightarrow> pool_sequence option" where
  "PushTask now t sq =
     (if pool_closure t = None then None
      else let should_be_queued = WillPushTask sq;
               t = t\<lparr>pool_queue_time := now\<rparr>;
               t = (if seq_shutdown_behavior sq = BLOCK_SHUTDOWN then t\<lparr>critical := True\<rparr> else t);
               sq = sq\<lparr>seq_queue := seq_queue sq @ [t]\<rparr>
           in Some (if should_be_queued \<and> seq_task_runner sq \<noteq> None then sq\<lparr>runner_refs := runner_refs sq + 1\<rparr> else sq))"

text \<open>Reading the front of an empty queue is undefined, \<^term>\<open>None\<close>.\<close>

definition seq_TakeTask :: "pool_sequence \<Rightarrow> (pool_task \<times> pool_sequence) option" where
  "seq_TakeTask sq =
     (case seq_queue sq of [] \<Rightarrow> None | t # ts \<Rightarrow> Some (t, sq\<lparr>has_worker := True, seq_queue := ts\<rparr>))"

definition ReleaseTaskRunner :: "pool_sequence \<Rightarrow> pool_sequence" where
  "ReleaseTaskRunner sq =
     (if seq_task_runner sq = None then sq
      else let sq = (if seq_execution_mode sq = kParallel then sq\<lparr>runner_registered := False\<rparr> else sq)
           in sq\<lparr>runner_refs := runner_refs sq - 1\<rparr>)"

definition seq_DidRunTask :: "pool_sequence \<Rightarrow> bool \<times> pool_sequence" where
  "seq_DidRunTask sq =
     (let sq = sq\<lparr>has_worker := False\<rparr>
      in if seq_queue sq = [] then (False, ReleaseTaskRunner sq) else (True, sq))"

definition GetSortKey :: "pool_sequence \<Rightarrow> sort_key option" where
  "GetSortKey sq =
     (case seq_queue sq of [] \<Rightarrow> None
      | t # _ \<Rightarrow> Some \<lparr>key_priority = seq_priority sq, next_task_sequenced_time = pool_queue_time t\<rparr>)"

definition seq_Clear :: "pool_sequence \<Rightarrow> pool_sequence" where
  "seq_Clear sq =
     (let queue_was_empty = (seq_queue sq = []); sq = sq\<lparr>seq_queue := []\<rparr>
      in if \<not> queue_was_empty then ReleaseTaskRunner sq else sq)"

text \<open>\<open>all_user_blocking\<close> is the feature \<open>kAllTasksUserBlocking\<close>.\<close>

definition seq_UpdatePriority :: "bool \<Rightarrow> task_priority \<Rightarrow> pool_sequence \<Rightarrow> pool_sequence" where
  "seq_UpdatePriority all_user_blocking priority sq =
     (if all_user_blocking then sq else sq\<lparr>seq_priority := priority\<rparr>)"

section \<open>References to the task runner\<close>

text \<open>The sequence holds one reference to its runner exactly while it has a task or a worker.\<close>

definition seq_ok :: "pool_sequence \<Rightarrow> bool" where
  "seq_ok sq \<longleftrightarrow> runner_refs sq = of_bool (seq_task_runner sq \<noteq> None \<and> (seq_queue sq \<noteq> [] \<or> has_worker sq))"

lemma seq_ok_new: "seq_ok (Sequence_new p sb tp r m)"
  by (simp add: seq_ok_def Sequence_new_def)

lemma seq_ok_Push: "seq_ok sq \<Longrightarrow> PushTask now t sq = Some sq' \<Longrightarrow> seq_ok sq'"
  by (auto simp: seq_ok_def PushTask_def WillPushTask_def Let_def split: if_splits)

lemma seq_ok_Take: "seq_ok sq \<Longrightarrow> \<not> has_worker sq \<Longrightarrow> seq_TakeTask sq = Some (t, sq') \<Longrightarrow> seq_ok sq'"
  by (auto simp: seq_ok_def seq_TakeTask_def split: list.splits)

lemma seq_ok_DidRun: "seq_ok sq \<Longrightarrow> has_worker sq \<Longrightarrow> seq_ok (snd (seq_DidRunTask sq))"
  by (auto simp: seq_ok_def seq_DidRunTask_def ReleaseTaskRunner_def Let_def)

lemma seq_ok_Clear: "seq_ok sq \<Longrightarrow> \<not> has_worker sq \<Longrightarrow> seq_ok (seq_Clear sq)"
  by (auto simp: seq_ok_def seq_Clear_def ReleaseTaskRunner_def Let_def)

lemma seq_ok_priority: "seq_ok (seq_UpdatePriority b p sq) = seq_ok sq"
  by (simp add: seq_ok_def seq_UpdatePriority_def)

end
