(* ===== verification/Task_Tracker.thy ===== *)
theory Task_Tracker
  imports Task_Traits
begin

text \<open>
  The tracker of the thread pool, \<open>thread_pool/task_tracker.cc\<close>, which decides what may be posted, queued
  and run around shutdown. One 32-bit word holds the flag that shutdown has started and, above it, the
  number of items that block it; every access to the word is atomic. Histograms, tracing and the
  restrictions of the running thread are left out.
\<close>

unbundle bit_operations_syntax

section \<open>The word of the state\<close>

definition kShutdownHasStartedMask :: u32 where "kShutdownHasStartedMask = 1"
definition kNumItemsBlockingShutdownBitOffset :: nat where "kNumItemsBlockingShutdownBitOffset = 1"
definition kNumItemsBlockingShutdownIncrement :: u32 where
  "kNumItemsBlockingShutdownIncrement = push_bit kNumItemsBlockingShutdownBitOffset 1"

text \<open>\<open>bits >> 1\<close> on a signed word.\<close>

definition num_items_blocking_shutdown :: "u32 \<Rightarrow> int" where
  "num_items_blocking_shutdown bits = drop_bit kNumItemsBlockingShutdownBitOffset (sint bits)"

definition State_StartShutdown :: "u32 \<Rightarrow> bool \<times> u32" where
  "State_StartShutdown bits =
     (let new_value = bits + kShutdownHasStartedMask in (num_items_blocking_shutdown new_value \<noteq> 0, new_value))"

definition State_HasShutdownStarted :: "u32 \<Rightarrow> bool" where
  "State_HasShutdownStarted bits = (bits AND kShutdownHasStartedMask \<noteq> 0)"

definition State_AreItemsBlockingShutdown :: "u32 \<Rightarrow> bool" where
  "State_AreItemsBlockingShutdown bits = (num_items_blocking_shutdown bits \<noteq> 0)"

text \<open>The debug check before the increment, and the increment.\<close>

definition no_overflow_check :: "u32 \<Rightarrow> bool" where
  "no_overflow_check bits = (num_items_blocking_shutdown bits < (2 ^ 31 - 1) - sint kNumItemsBlockingShutdownIncrement)"

definition State_Increment :: "u32 \<Rightarrow> bool \<times> u32" where
  "State_Increment bits =
     (let new_bits = bits + kNumItemsBlockingShutdownIncrement in (new_bits AND kShutdownHasStartedMask \<noteq> 0, new_bits))"

definition State_Decrement :: "u32 \<Rightarrow> bool \<times> u32" where
  "State_Decrement bits =
     (let new_bits = bits - kNumItemsBlockingShutdownIncrement; shutdown_has_started = (new_bits AND kShutdownHasStartedMask \<noteq> 0)
      in (shutdown_has_started \<and> num_items_blocking_shutdown new_bits = 0, new_bits))"

section \<open>The tracker\<close>

datatype can_run_policy = kAll | kForegroundOnly | kNone

text \<open>The event is \<^term>\<open>None\<close> until shutdown starts, then whether it is signaled. \<open>flush_callback\<close> says that
  a callback of \<open>FlushAsyncForTesting\<close> waits, \<open>flush_calls\<close> counts the callbacks that were run.\<close>

record task_tracker =
  tracker_bits :: u32
  shutdown_event :: "bool option"
  num_incomplete_task_sources :: u32
  can_run_policy_of :: can_run_policy
  flush_callback :: bool
  flush_calls :: nat
  num_tasks_run :: u32

definition TaskTracker_new :: task_tracker where
  "TaskTracker_new = \<lparr>tracker_bits = 0, shutdown_event = None, num_incomplete_task_sources = 0, can_run_policy_of = kAll,
     flush_callback = False, flush_calls = 0, num_tasks_run = 0\<rparr>"

fun GetEffectiveShutdownBehavior :: "task_shutdown_behavior \<Rightarrow> bool \<Rightarrow> task_shutdown_behavior" where
  "GetEffectiveShutdownBehavior behavior is_delayed =
     (if behavior = BLOCK_SHUTDOWN \<and> is_delayed then SKIP_ON_SHUTDOWN else behavior)"

definition tracker_StartShutdown :: "task_tracker \<Rightarrow> task_tracker" where
  "tracker_StartShutdown t =
     (let t = t\<lparr>shutdown_event := Some False\<rparr>;
          (tasks_are_blocking_shutdown, bits) = State_StartShutdown (tracker_bits t);
          t = t\<lparr>tracker_bits := bits\<rparr>
      in if \<not> tasks_are_blocking_shutdown then t\<lparr>shutdown_event := Some True\<rparr> else t)"

definition HasShutdownStarted :: "task_tracker \<Rightarrow> bool" where
  "HasShutdownStarted t = State_HasShutdownStarted (tracker_bits t)"

definition IsShutdownComplete :: "task_tracker \<Rightarrow> bool" where
  "IsShutdownComplete t = (shutdown_event t = Some True)"

definition CallFlushCallbackForTesting :: "task_tracker \<Rightarrow> task_tracker" where
  "CallFlushCallbackForTesting t =
     (if flush_callback t then t\<lparr>flush_callback := False, flush_calls := flush_calls t + 1\<rparr> else t)"

text \<open>\<open>CompleteShutdown\<close> from the moment its wait ends.\<close>

definition CompleteShutdown_done :: "task_tracker \<Rightarrow> task_tracker" where
  "CompleteShutdown_done t = CallFlushCallbackForTesting t"

definition FlushAsyncForTesting :: "task_tracker \<Rightarrow> task_tracker" where
  "FlushAsyncForTesting t =
     (let t = t\<lparr>flush_callback := True\<rparr>
      in if num_incomplete_task_sources t = 0 \<or> IsShutdownComplete t then CallFlushCallbackForTesting t else t)"

definition SetCanRunPolicy :: "can_run_policy \<Rightarrow> task_tracker \<Rightarrow> task_tracker" where
  "SetCanRunPolicy p t = t\<lparr>can_run_policy_of := p\<rparr>"

definition CanRunPriority :: "task_priority \<Rightarrow> task_tracker \<Rightarrow> bool" where
  "CanRunPriority priority t =
     (if can_run_policy_of t = kAll then True
      else if can_run_policy_of t = kForegroundOnly \<and> USER_VISIBLE \<le> priority then True else False)"

text \<open>An event that is null would be dereferenced; it never is (below), and the model then keeps it null.\<close>

definition signal :: "task_tracker \<Rightarrow> task_tracker" where
  "signal t = t\<lparr>shutdown_event := map_option (\<lambda>_. True) (shutdown_event t)\<rparr>"

definition DecrementNumItemsBlockingShutdown :: "task_tracker \<Rightarrow> task_tracker" where
  "DecrementNumItemsBlockingShutdown t =
     (let (no_items_block_shutdown, bits) = State_Decrement (tracker_bits t); t = t\<lparr>tracker_bits := bits\<rparr>
      in if \<not> no_items_block_shutdown then t else signal t)"

definition DecrementNumIncompleteTaskSources :: "task_tracker \<Rightarrow> task_tracker" where
  "DecrementNumIncompleteTaskSources t =
     (let prev = num_incomplete_task_sources t; t = t\<lparr>num_incomplete_task_sources := prev - 1\<rparr>
      in if prev = 1 then CallFlushCallbackForTesting t else t)"

definition WillPostTask :: "bool \<Rightarrow> task_shutdown_behavior \<Rightarrow> task_tracker \<Rightarrow> bool" where
  "WillPostTask is_delayed behavior t =
     (if HasShutdownStarted t
      then if GetEffectiveShutdownBehavior behavior is_delayed \<noteq> BLOCK_SHUTDOWN then False
           else if shutdown_event t = Some True then False else True
      else True)"

definition BeforeQueueTaskSource :: "task_shutdown_behavior \<Rightarrow> task_tracker \<Rightarrow> bool \<times> task_tracker" where
  "BeforeQueueTaskSource behavior t =
     (if behavior = BLOCK_SHUTDOWN
      then let (shutdown_started, bits) = State_Increment (tracker_bits t); t = t\<lparr>tracker_bits := bits\<rparr>
           in if shutdown_started \<and> shutdown_event t = Some True
              then (False, t\<lparr>tracker_bits := snd (State_Decrement (tracker_bits t))\<rparr>)
              else (True, t)
      else (\<not> HasShutdownStarted t, t))"

definition WillQueueTaskSource :: "task_shutdown_behavior \<Rightarrow> task_tracker \<Rightarrow> bool \<times> task_tracker" where
  "WillQueueTaskSource behavior t =
     (let (allowed, t) = BeforeQueueTaskSource behavior t
      in if \<not> allowed then (False, t)
         else (True, t\<lparr>num_incomplete_task_sources := num_incomplete_task_sources t + 1\<rparr>))"

definition BeforeRunTask :: "task_shutdown_behavior \<Rightarrow> task_tracker \<Rightarrow> bool \<times> task_tracker" where
  "BeforeRunTask effective t =
     (case effective of BLOCK_SHUTDOWN \<Rightarrow> (True, t)
      | SKIP_ON_SHUTDOWN \<Rightarrow>
          (let (shutdown_started, bits) = State_Increment (tracker_bits t); t = t\<lparr>tracker_bits := bits\<rparr>
           in if shutdown_started then (False, DecrementNumItemsBlockingShutdown t) else (True, t))
      | CONTINUE_ON_SHUTDOWN \<Rightarrow> (\<not> HasShutdownStarted t, t))"

definition AfterRunTask :: "task_shutdown_behavior \<Rightarrow> task_tracker \<Rightarrow> task_tracker" where
  "AfterRunTask effective t = (if effective = SKIP_ON_SHUTDOWN then DecrementNumItemsBlockingShutdown t else t)"

definition IncrementNumTasksRun :: "task_tracker \<Rightarrow> task_tracker" where
  "IncrementNumTasksRun t = t\<lparr>num_tasks_run := num_tasks_run t + 1\<rparr>"

definition UnregisterTaskSource :: "task_shutdown_behavior \<Rightarrow> task_tracker \<Rightarrow> task_tracker" where
  "UnregisterTaskSource behavior t =
     (let t = (if behavior = BLOCK_SHUTDOWN then DecrementNumItemsBlockingShutdown t else t)
      in DecrementNumIncompleteTaskSources t)"

section \<open>Threads\<close>

text \<open>
  The same operations with their accesses interleaved. \<open>blocking\<close> counts the registered sources that
  block shutdown and \<open>skipping\<close> the running tasks that shutdown waits for; \<open>asking\<close> the threads in
  \<open>BeforeQueueTaskSource\<close> that saw the flag and have not read the event yet, \<open>backing_out\<close> those that read
  it signaled; \<open>refused\<close> the threads in \<open>BeforeRunTask\<close> whose increment is still to be undone;
  \<open>signalling\<close> those about to signal the event. \<open>starting\<close> is the thread inside \<open>StartShutdown\<close>, which
  holds the lock around the event, with what it has found. \<open>polite\<close> is the rule stated in
  \<open>StartShutdown\<close>: while shutdown runs a blocking source is queued only from inside an item that blocks
  it, so that the last such item does not end while a thread asks.
\<close>

record tracker_world =
  state_word :: u32
  event :: "bool option"
  starting :: "bool option"
  blocking :: nat
  skipping :: nat
  asking :: nat
  backing_out :: nat
  refused :: nat
  signalling :: nat

definition tracker_init :: tracker_world where
  "tracker_init = \<lparr>state_word = 0, event = None, starting = None, blocking = 0, skipping = 0, asking = 0, backing_out = 0,
     refused = 0, signalling = 0\<rparr>"

definition room :: "tracker_world \<Rightarrow> bool" where
  "room w \<longleftrightarrow> blocking w + skipping w + asking w + backing_out w + refused w + 1 < 2 ^ 30"

definition decrement :: "tracker_world \<Rightarrow> tracker_world" where
  "decrement w = (let (z, b) = State_Decrement (state_word w) in w\<lparr>state_word := b, signalling := signalling w + of_bool z\<rparr>)"

inductive tracker_step :: "bool \<Rightarrow> tracker_world \<Rightarrow> tracker_world \<Rightarrow> bool" for polite where
  start: "event w = None \<Longrightarrow> State_StartShutdown (state_word w) = (b, v) \<Longrightarrow>
    tracker_step polite w (w\<lparr>state_word := v, event := Some False, starting := Some b\<rparr>)"
| started: "starting w = Some b \<Longrightarrow>
    tracker_step polite w (w\<lparr>starting := None, event := if b then event w else Some True\<rparr>)"
| queue: "room w \<Longrightarrow> polite \<longrightarrow> \<not> State_HasShutdownStarted (state_word w) \<or> 0 < blocking w + skipping w \<Longrightarrow>
    State_Increment (state_word w) = (s, v) \<Longrightarrow>
    tracker_step polite w (w\<lparr>state_word := v, asking := asking w + of_bool s, blocking := blocking w + of_bool (\<not> s)\<rparr>)"
| check: "asking w = Suc n \<Longrightarrow> starting w = None \<Longrightarrow> event w = Some e \<Longrightarrow>
    tracker_step polite w (w\<lparr>asking := n, backing_out := backing_out w + of_bool e, blocking := blocking w + of_bool (\<not> e)\<rparr>)"
| back_out: "backing_out w = Suc n \<Longrightarrow>
    tracker_step polite w (w\<lparr>state_word := snd (State_Decrement (state_word w)), backing_out := n\<rparr>)"
| unregister: "blocking w = Suc n \<Longrightarrow> polite \<longrightarrow> asking w = 0 \<or> 0 < n + skipping w \<Longrightarrow>
    tracker_step polite w (decrement w\<lparr>blocking := n\<rparr>)"
| run_skip: "room w \<Longrightarrow> State_Increment (state_word w) = (s, v) \<Longrightarrow>
    tracker_step polite w (w\<lparr>state_word := v, refused := refused w + of_bool s, skipping := skipping w + of_bool (\<not> s)\<rparr>)"
| refuse: "refused w = Suc n \<Longrightarrow> tracker_step polite w (decrement w\<lparr>refused := n\<rparr>)"
| after_skip: "skipping w = Suc n \<Longrightarrow> polite \<longrightarrow> asking w = 0 \<or> 0 < n + blocking w \<Longrightarrow>
    tracker_step polite w (decrement w\<lparr>skipping := n\<rparr>)"
| signal: "signalling w = Suc n \<Longrightarrow> starting w = None \<Longrightarrow> event w = Some e \<Longrightarrow>
    tracker_step polite w (w\<lparr>event := Some True, signalling := n\<rparr>)"

inductive tracker_reachable :: "bool \<Rightarrow> tracker_world \<Rightarrow> bool" for polite where
  init: "tracker_reachable polite tracker_init"
| step: "tracker_reachable polite w \<Longrightarrow> tracker_step polite w w' \<Longrightarrow> tracker_reachable polite w'"

section \<open>Reading the word\<close>

definition tracker_word :: "nat \<Rightarrow> bool \<Rightarrow> u32" where
  "tracker_word n b = of_nat (2 * n + of_bool b)"

lemma tracker_word_reads:
  assumes "n < 2 ^ 30"
  shows "num_items_blocking_shutdown (tracker_word n b) = int n" "tracker_word n b AND kShutdownHasStartedMask \<noteq> 0 \<longleftrightarrow> b"
proof -
  have l: "2 * n + of_bool b < 2 ^ LENGTH(32)" using assms by (cases b) simp_all
  have u: "unat (tracker_word n b) = 2 * n + of_bool b" unfolding tracker_word_def unat_of_nat by (rule mod_less [OF l])
  then have "sint (tracker_word n b) = int (2 * n + of_bool b)"
    using assms l by (cases b) (simp_all add: sint_uint uint_nat signed_take_bit_int_eq_self)
  then show "num_items_blocking_shutdown (tracker_word n b) = int n"
    by (simp add: num_items_blocking_shutdown_def kNumItemsBlockingShutdownBitOffset_def drop_bit_Suc)
  have "odd (tracker_word n b) \<longleftrightarrow> odd (unat (tracker_word n b))" by (simp flip: bit_0 add: bit_unsigned_iff)
  then have "odd (tracker_word n b) \<longleftrightarrow> b" unfolding u by simp
  then show "tracker_word n b AND kShutdownHasStartedMask \<noteq> 0 \<longleftrightarrow> b"
    by (simp add: kShutdownHasStartedMask_def and_one_eq odd_iff_mod_2_eq_one)
qed

lemma tracker_word_ops:
  assumes "n < 2 ^ 30"
  shows "State_HasShutdownStarted (tracker_word n b) \<longleftrightarrow> b"
    "State_StartShutdown (tracker_word n False) = (n \<noteq> 0, tracker_word n True)"
    "n + 1 < 2 ^ 30 \<Longrightarrow> State_Increment (tracker_word n b) = (b, tracker_word (n + 1) b)"
    "0 < n \<Longrightarrow> State_Decrement (tracker_word n b) = (b \<and> n = 1, tracker_word (n - 1) b)"
proof -
  show "State_HasShutdownStarted (tracker_word n b) \<longleftrightarrow> b"
    using tracker_word_reads(2) [OF assms] by (simp add: State_HasShutdownStarted_def)
  have "tracker_word n False + kShutdownHasStartedMask = tracker_word n True"
    by (simp add: tracker_word_def kShutdownHasStartedMask_def)
  then show "State_StartShutdown (tracker_word n False) = (n \<noteq> 0, tracker_word n True)"
    using tracker_word_reads(1) [OF assms] by (simp add: State_StartShutdown_def Let_def)
  have i: "tracker_word n b + kNumItemsBlockingShutdownIncrement = tracker_word (n + 1) b"
    by (simp add: tracker_word_def kNumItemsBlockingShutdownIncrement_def kNumItemsBlockingShutdownBitOffset_def)
  show "State_Increment (tracker_word n b) = (b, tracker_word (n + 1) b)" if "n + 1 < 2 ^ 30"
    using tracker_word_reads(2) [OF that] by (simp add: State_Increment_def i Let_def)
  assume n: "0 < n"
  then obtain m where m: "n = Suc m" by (cases n) auto
  have d: "tracker_word n b - kNumItemsBlockingShutdownIncrement = tracker_word m b"
    unfolding m by (simp add: tracker_word_def kNumItemsBlockingShutdownIncrement_def kNumItemsBlockingShutdownBitOffset_def)
  have "m < 2 ^ 30" using assms m by simp
  then show "State_Decrement (tracker_word n b) = (b \<and> n = 1, tracker_word (n - 1) b)"
    unfolding State_Decrement_def d Let_def using tracker_word_reads [of m] m by simp
qed

section \<open>Invariants\<close>

definition items :: "tracker_world \<Rightarrow> nat" where
  "items w = blocking w + skipping w + asking w + backing_out w + refused w"

text \<open>The word counts the items; once shutdown has started and no item is left, the event is signaled, or
  some thread is on its way to signal it.\<close>

definition tracker_inv :: "tracker_world \<Rightarrow> bool" where
  "tracker_inv w \<longleftrightarrow> items w < 2 ^ 30 \<and> state_word w = tracker_word (items w) (event w \<noteq> None) \<and>
     (event w = None \<longrightarrow> starting w = None \<and> asking w = 0 \<and> backing_out w = 0 \<and> refused w = 0 \<and> signalling w = 0) \<and>
     (0 < backing_out w \<longrightarrow> event w = Some True) \<and>
     (event w = Some False \<and> items w = 0 \<longrightarrow> 0 < signalling w \<or> starting w = Some False)"

lemma tracker_invD:
  assumes "tracker_inv w"
  shows "items w < 2 ^ 30" "state_word w = tracker_word (items w) (event w \<noteq> None)"
    "event w = None \<Longrightarrow> starting w = None \<and> asking w = 0 \<and> backing_out w = 0 \<and> refused w = 0 \<and> signalling w = 0"
    "0 < backing_out w \<Longrightarrow> event w = Some True"
    "event w = Some False \<Longrightarrow> items w = 0 \<Longrightarrow> 0 < signalling w \<or> starting w = Some False"
  using assms by (simp_all add: tracker_inv_def)

lemma tracker_decrement:
  assumes "tracker_inv w" "0 < items w"
  shows "decrement w = w\<lparr>state_word := tracker_word (items w - 1) (event w \<noteq> None),
    signalling := signalling w + of_bool (event w \<noteq> None \<and> items w = 1)\<rparr>"
    "snd (State_Decrement (state_word w)) = tracker_word (items w - 1) (event w \<noteq> None)"
  using tracker_word_ops(4) [OF tracker_invD(1) [OF assms(1)] assms(2)] tracker_invD(2) [OF assms(1)]
  by (simp_all add: decrement_def)

lemma tracker_inv_step:
  assumes "tracker_step polite w w'" "tracker_inv w"
  shows "tracker_inv w'"
proof -
  note I = tracker_invD [OF assms(2)]
  note O = tracker_word_ops [OF I(1)]
  note D = tracker_decrement [OF assms(2)]
  show ?thesis
    using assms(1)
  proof cases
    case (start b v)
    then show ?thesis using O(2) I(1-3) by (auto simp: tracker_inv_def items_def)
  next
    case (started b)
    then obtain e where "event w = Some e" using I(3) by (cases "event w") auto
    then show ?thesis using started I by (auto simp: tracker_inv_def items_def ex_bool_eq)
  next
    case (queue s v)
    then show ?thesis using O(3) I by (auto simp: tracker_inv_def items_def room_def)
  next
    case (check n e)
    then show ?thesis using I by (cases e) (auto simp: tracker_inv_def items_def)
  next
    case (back_out n)
    then show ?thesis using D(2) I by (auto simp: tracker_inv_def items_def)
  next
    case (unregister n)
    then show ?thesis using D(1) I by (auto simp: tracker_inv_def items_def)
  next
    case (run_skip s v)
    then show ?thesis using O(3) I by (auto simp: tracker_inv_def items_def room_def)
  next
    case (refuse n)
    then show ?thesis using D(1) I by (auto simp: tracker_inv_def items_def)
  next
    case (after_skip n)
    then show ?thesis using D(1) I by (auto simp: tracker_inv_def items_def)
  next
    case (signal n e)
    then show ?thesis using I by (auto simp: tracker_inv_def items_def)
  qed
qed

lemma tracker_reachable_inv: "tracker_reachable polite w \<Longrightarrow> tracker_inv w"
proof (induction rule: tracker_reachable.induct)
  case init
  then show ?case by (simp add: tracker_inv_def tracker_init_def items_def tracker_word_def)
qed (rule tracker_inv_step)

text \<open>With the rule for posting during shutdown: once a thread is about to signal the event, nothing
  blocks any more.\<close>

definition quiet_inv :: "tracker_world \<Rightarrow> bool" where
  "quiet_inv w \<longleftrightarrow> (0 < asking w \<longrightarrow> 0 < blocking w + skipping w) \<and>
     (event w = Some True \<or> 0 < signalling w \<or> starting w = Some False \<longrightarrow> blocking w + skipping w = 0)"

lemma quiet_inv_step:
  assumes "tracker_step True w w'" "tracker_inv w" "quiet_inv w"
  shows "quiet_inv w'"
proof -
  note I = tracker_invD [OF assms(2)]
  note O = tracker_word_ops [OF I(1)]
  note D = tracker_decrement [OF assms(2)]
  note Q = assms(3) [unfolded quiet_inv_def]
  show ?thesis
    using assms(1)
  proof cases
    case (start b v)
    then show ?thesis using Q O(2) I(1-3) by (auto simp: quiet_inv_def items_def)
  next
    case (started b)
    then show ?thesis using Q by (auto simp: quiet_inv_def)
  next
    case (queue s v)
    have "s \<longleftrightarrow> event w \<noteq> None" using queue(2,4) O(3) I(2) by (simp add: items_def room_def)
    moreover have "State_HasShutdownStarted (state_word w) \<longleftrightarrow> event w \<noteq> None" using O(1) I(2) by simp
    ultimately show ?thesis using queue(1,3) Q I(3) by (cases "event w") (auto simp: quiet_inv_def)
  next
    case (check n e)
    then show ?thesis using Q by (cases e) (auto simp: quiet_inv_def)
  next
    case (back_out n)
    then show ?thesis using Q by (auto simp: quiet_inv_def)
  next
    case (unregister n)
    then show ?thesis using Q D(1) by (auto simp: quiet_inv_def items_def split: if_splits)
  next
    case (run_skip s v)
    have "s \<longleftrightarrow> event w \<noteq> None" using run_skip(2,3) O(3) I(2) by (simp add: items_def room_def)
    then show ?thesis using run_skip(1) Q I(3) by (cases "event w") (auto simp: quiet_inv_def)
  next
    case (refuse n)
    then show ?thesis using Q D(1) by (auto simp: quiet_inv_def items_def split: if_splits)
  next
    case (after_skip n)
    then show ?thesis using Q D(1) by (auto simp: quiet_inv_def items_def split: if_splits)
  next
    case (signal n e)
    then show ?thesis using Q by (auto simp: quiet_inv_def)
  qed
qed

lemma tracker_reachable_quiet: "tracker_reachable True w \<Longrightarrow> quiet_inv w"
proof (induction rule: tracker_reachable.induct)
  case init
  then show ?case by (simp add: quiet_inv_def tracker_init_def)
next
  case (step w w')
  then show ?case using quiet_inv_step tracker_reachable_inv by blast
qed

section \<open>The check for overflow\<close>

lemma no_overflow_check_true: "no_overflow_check bits"
proof -
  have "sint bits < 2 ^ 31" using sint_lt [of bits] by simp
  then have "num_items_blocking_shutdown bits < 2 ^ 30"
    by (simp add: num_items_blocking_shutdown_def kNumItemsBlockingShutdownBitOffset_def drop_bit_Suc)
  then show ?thesis
    by (simp add: no_overflow_check_def kNumItemsBlockingShutdownIncrement_def kNumItemsBlockingShutdownBitOffset_def)
qed

end
