(* ===== verification/Thread_Pool.thy ===== *)
theory Thread_Pool
  imports Pool_Sequence Task_Tracker
begin

text \<open>
  The thread pool put together: the groups of \<open>thread_pool_impl.cc\<close> with a priority queue each
  (\<open>thread_group.cc\<close>), posting to a sequence, and the cycle of a worker, which gets a task source
  (\<open>thread_group_impl.cc\<close>), runs its next task (\<open>task_tracker.cc\<close>) and puts the source back. Task sources,
  workers and closures are numbers. Whether a worker may get work at all is an argument here: creating,
  waking and cleaning up workers is in the theory of the workers of a group.
\<close>

section \<open>State\<close>

datatype thread_group = Foreground | Background

record pool_worker =
  worker_group :: thread_group
  is_running_task :: bool
  is_running_best_effort_task :: bool

record thread_pool =
  tracker :: task_tracker
  sequences :: "nat \<Rightarrow> pool_sequence"
  queues :: "thread_group \<Rightarrow> priority_queue"
  handles :: "nat option \<Rightarrow> nat"
  has_background_group :: bool
  has_fence :: bool
  has_best_effort_fence :: bool
  workers :: "nat \<Rightarrow> pool_worker"
  num_running_tasks :: "thread_group \<Rightarrow> nat"
  num_running_best_effort_tasks :: "thread_group \<Rightarrow> nat"
  max_best_effort_tasks :: "thread_group \<Rightarrow> nat"
  all_tasks_user_blocking :: bool

definition GetThreadGroupForTraits :: "thread_pool \<Rightarrow> pool_sequence \<Rightarrow> thread_group" where
  "GetThreadGroupForTraits pl sq =
     (if seq_priority sq = BEST_EFFORT \<and> seq_thread_policy sq = PREFER_BACKGROUND \<and> has_background_group pl
      then Background else Foreground)"

definition on_queue :: "thread_group \<Rightarrow> (pq_state \<Rightarrow> pq_state) \<Rightarrow> thread_pool \<Rightarrow> thread_pool" where
  "on_queue g f pl = (let (q, hs) = f (queues pl g, handles pl) in pl\<lparr>queues := (queues pl)(g := q), handles := hs\<rparr>)"

section \<open>Thread groups\<close>

text \<open>Pushing reads the key of the source, which an empty source has not: \<^term>\<open>None\<close>.\<close>

definition group_Push :: "thread_group \<Rightarrow> nat \<Rightarrow> thread_pool \<Rightarrow> thread_pool option" where
  "group_Push g x pl = map_option (\<lambda>key. on_queue g (pq_Push x key) pl) (GetSortKey (sequences pl x))"

definition group_RemoveTaskSource :: "thread_group \<Rightarrow> nat \<Rightarrow> thread_pool \<Rightarrow> nat option \<times> thread_pool" where
  "group_RemoveTaskSource g x pl =
     (let (r, q, hs) = RemoveTaskSource x (queues pl g, handles pl)
      in (r, pl\<lparr>queues := (queues pl)(g := q), handles := hs\<rparr>))"

definition group_UpdateSortKey :: "thread_group \<Rightarrow> nat \<Rightarrow> thread_pool \<Rightarrow> thread_pool" where
  "group_UpdateSortKey g x pl =
     (case GetSortKey (sequences pl x) of None \<Rightarrow> pl | Some key \<Rightarrow> on_queue g (UpdateSortKey x key) pl)"

definition ReEnqueueTaskSource :: "nat \<Rightarrow> thread_pool \<Rightarrow> thread_pool option" where
  "ReEnqueueTaskSource x pl = group_Push (GetThreadGroupForTraits pl (sequences pl x)) x pl"

definition GetNumQueuedCanRunBestEffortTaskSources :: "thread_group \<Rightarrow> thread_pool \<Rightarrow> u64" where
  "GetNumQueuedCanRunBestEffortTaskSources g pl =
     (let num_queued = GetNumTaskSourcesWithPriority BEST_EFFORT (queues pl g)
      in if num_queued = 0 \<or> \<not> CanRunPriority BEST_EFFORT (tracker pl) then 0 else num_queued)"

definition GetNumQueuedCanRunForegroundTaskSources :: "thread_group \<Rightarrow> thread_pool \<Rightarrow> u64" where
  "GetNumQueuedCanRunForegroundTaskSources g pl =
     (let num_queued = GetNumTaskSourcesWithPriority USER_VISIBLE (queues pl g) + GetNumTaskSourcesWithPriority USER_BLOCKING (queues pl g)
      in if num_queued = 0 \<or> \<not> CanRunPriority USER_BLOCKING (tracker pl) then 0 else num_queued)"

section \<open>Posting\<close>

text \<open>A failed \<open>CHECK\<close> or a key of an empty source is \<^term>\<open>None\<close>.\<close>

definition PostTaskWithSequenceNow :: "int \<Rightarrow> pool_task \<Rightarrow> nat \<Rightarrow> thread_pool \<Rightarrow> (bool \<times> thread_pool) option" where
  "PostTaskWithSequenceNow now t x pl =
     (let sequence_should_be_queued = WillPushTask (sequences pl x);
          (task_source, tr) = (if sequence_should_be_queued
             then WillQueueTaskSource (seq_shutdown_behavior (sequences pl x)) (tracker pl) else (False, tracker pl));
          pl = pl\<lparr>tracker := tr\<rparr>
      in if sequence_should_be_queued \<and> \<not> task_source then Some (False, pl)
         else case PushTask now t (sequences pl x) of None \<Rightarrow> None
         | Some sq \<Rightarrow>
             let pl = pl\<lparr>sequences := (sequences pl)(x := sq)\<rparr>
             in if task_source then map_option (\<lambda>pl. (True, pl)) (group_Push (GetThreadGroupForTraits pl sq) x pl)
                else Some (True, pl))"

definition pool_UpdatePriority :: "nat \<Rightarrow> task_priority \<Rightarrow> thread_pool \<Rightarrow> thread_pool option" where
  "pool_UpdatePriority x priority pl =
     (if seq_priority (sequences pl x) = priority then Some pl
      else let current_thread_group = GetThreadGroupForTraits pl (sequences pl x);
               sq = seq_UpdatePriority (all_tasks_user_blocking pl) priority (sequences pl x);
               pl = pl\<lparr>sequences := (sequences pl)(x := sq)\<rparr>;
               new_thread_group = GetThreadGroupForTraits pl sq
           in if new_thread_group = current_thread_group then Some (group_UpdateSortKey current_thread_group x pl)
              else case group_RemoveTaskSource current_thread_group x pl of
                     (None, pl) \<Rightarrow> Some pl
                   | (Some registered_task_source, pl) \<Rightarrow> group_Push new_thread_group registered_task_source pl)"

section \<open>Policy\<close>

definition UpdateCanRunPolicy :: "thread_pool \<Rightarrow> thread_pool" where
  "UpdateCanRunPolicy pl =
     (let policy = (if \<not> has_fence pl \<and> \<not> has_best_effort_fence pl \<or> HasShutdownStarted (tracker pl) then kAll
                    else if has_fence pl then kNone else kForegroundOnly)
      in pl\<lparr>tracker := SetCanRunPolicy policy (tracker pl)\<rparr>)"

definition SetHasFence :: "bool \<Rightarrow> thread_pool \<Rightarrow> thread_pool" where
  "SetHasFence b pl = UpdateCanRunPolicy (pl\<lparr>has_fence := b\<rparr>)"

definition SetHasBestEffortFence :: "bool \<Rightarrow> thread_pool \<Rightarrow> thread_pool" where
  "SetHasBestEffortFence b pl = UpdateCanRunPolicy (pl\<lparr>has_best_effort_fence := b\<rparr>)"

text \<open>\<open>Shutdown\<close> up to its wait for the event.\<close>

definition Shutdown_begin :: "thread_pool \<Rightarrow> thread_pool" where
  "Shutdown_begin pl = UpdateCanRunPolicy (pl\<lparr>tracker := tracker_StartShutdown (tracker pl)\<rparr>)"

section \<open>Workers\<close>

definition GetWork :: "bool \<Rightarrow> nat \<Rightarrow> thread_pool \<Rightarrow> nat option \<times> thread_pool" where
  "GetWork can_get_work v pl =
     (let g = worker_group (workers pl v); q = queues pl g; priority = key_priority (PeekSortKey q)
      in if \<not> can_get_work then (None, pl)
         else if pq_IsEmpty q then (None, pl)
         else if \<not> CanRunPriority priority (tracker pl) \<or>
                 priority = BEST_EFFORT \<and> max_best_effort_tasks pl g \<le> num_running_best_effort_tasks pl g then (None, pl)
         else let pl = pl\<lparr>workers := (workers pl)(v := (workers pl v)\<lparr>is_running_task := True\<rparr>),
                          num_running_tasks := (num_running_tasks pl)(g := num_running_tasks pl g + 1)\<rparr>;
                  pl = (if priority = BEST_EFFORT
                        then pl\<lparr>workers := (workers pl)(v := (workers pl v)\<lparr>is_running_best_effort_task := True\<rparr>),
                                num_running_best_effort_tasks :=
                                  (num_running_best_effort_tasks pl)(g := num_running_best_effort_tasks pl g + 1)\<rparr>
                        else pl);
                  (task_source, q, hs) = PopTaskSource (queues pl g, handles pl)
              in (task_source, pl\<lparr>queues := (queues pl)(g := q), handles := hs\<rparr>))"

text \<open>\<open>RunAndPopNextTask\<close> before and after the task runs. What follows the task comes in three parts that
  other threads can act between: \<open>DidRunTask\<close> under the lock of the source, \<open>AfterRunTask\<close> on the tracker,
  and the end of the registration of a source that is not put back, by the destructor of
  \<open>RegisteredTaskSource\<close>.\<close>

definition run_begin :: "nat \<Rightarrow> thread_pool \<Rightarrow> (pool_task \<times> bool \<times> thread_pool) option" where
  "run_begin x pl =
     (case seq_TakeTask (sequences pl x) of None \<Rightarrow> None
      | Some (t, sq) \<Rightarrow>
          let effective = GetEffectiveShutdownBehavior (seq_shutdown_behavior sq) (pool_delayed_run_time t \<noteq> 0);
              (can_run_task, tr) = BeforeRunTask effective (tracker pl)
          in Some (t, can_run_task, pl\<lparr>sequences := (sequences pl)(x := sq), tracker := tr\<rparr>))"

definition run_did :: "nat \<Rightarrow> thread_pool \<Rightarrow> bool \<times> thread_pool" where
  "run_did x pl =
     (let (task_source_must_be_queued, sq) = seq_DidRunTask (sequences pl x)
      in (task_source_must_be_queued, pl\<lparr>sequences := (sequences pl)(x := sq)\<rparr>))"

definition run_after :: "nat \<Rightarrow> pool_task \<Rightarrow> bool \<Rightarrow> thread_pool \<Rightarrow> thread_pool" where
  "run_after x t can_run_task pl =
     (let effective = GetEffectiveShutdownBehavior (seq_shutdown_behavior (sequences pl x)) (pool_delayed_run_time t \<noteq> 0)
      in if can_run_task then pl\<lparr>tracker := AfterRunTask effective (IncrementNumTasksRun (tracker pl))\<rparr> else pl)"

definition run_return :: "nat \<Rightarrow> bool \<Rightarrow> thread_pool \<Rightarrow> nat option \<times> thread_pool" where
  "run_return x task_source_must_be_queued pl =
     (if task_source_must_be_queued then (Some x, pl)
      else (None, pl\<lparr>tracker := UnregisterTaskSource (seq_shutdown_behavior (sequences pl x)) (tracker pl)\<rparr>))"

definition run_end :: "nat \<Rightarrow> pool_task \<Rightarrow> bool \<Rightarrow> thread_pool \<Rightarrow> nat option \<times> thread_pool" where
  "run_end x t can_run_task pl =
     (let (task_source_must_be_queued, pl) = run_did x pl
      in run_return x task_source_must_be_queued (run_after x t can_run_task pl))"

definition RunAndPopNextTask :: "(pool_task \<Rightarrow> thread_pool \<Rightarrow> thread_pool) \<Rightarrow> nat \<Rightarrow> thread_pool \<Rightarrow> (nat option \<times> thread_pool) option" where
  "RunAndPopNextTask run x pl =
     (case run_begin x pl of None \<Rightarrow> None
      | Some (t, can_run_task, pl) \<Rightarrow> Some (run_end x t can_run_task (if can_run_task then run t pl else pl)))"

definition worker_DidRunTask :: "nat \<Rightarrow> nat option \<Rightarrow> thread_pool \<Rightarrow> thread_pool option" where
  "worker_DidRunTask v task_source pl =
     (let g = worker_group (workers pl v);
          pl = pl\<lparr>num_running_tasks := (num_running_tasks pl)(g := num_running_tasks pl g - 1),
                  workers := (workers pl)(v := (workers pl v)\<lparr>is_running_task := False\<rparr>)\<rparr>;
          pl = (if is_running_best_effort_task (workers pl v)
                then pl\<lparr>num_running_best_effort_tasks := (num_running_best_effort_tasks pl)(g := num_running_best_effort_tasks pl g - 1),
                        workers := (workers pl)(v := (workers pl v)\<lparr>is_running_best_effort_task := False\<rparr>)\<rparr>
                else pl)
      in case task_source of None \<Rightarrow> Some pl | Some x \<Rightarrow> ReEnqueueTaskSource x pl)"

section \<open>The queues of all groups\<close>

text \<open>Each group's queue is a map of its own; a source is in one of them at most, and a source in none
  has no valid handle.\<close>

definition queues_rep :: "(thread_group \<Rightarrow> nat \<rightharpoonup> sort_key) \<Rightarrow> (thread_group \<Rightarrow> priority_queue) \<Rightarrow> (nat option \<Rightarrow> nat) \<Rightarrow> bool" where
  "queues_rep m qs hs \<longleftrightarrow> (\<forall>g. pq_rep (m g) (qs g, hs)) \<and> (\<forall>g g' x. m g x \<noteq> None \<and> m g' x \<noteq> None \<longrightarrow> g = g') \<and>
     (\<forall>x. (\<forall>g. m g x = None) \<longrightarrow> hs (Some x) = 0)"

lemma queues_repD:
  assumes "queues_rep m qs hs"
  shows "pq_rep (m g) (qs g, hs)" "m g x = Some k \<Longrightarrow> m g' x = Some l \<Longrightarrow> g = g'" "(\<And>g. m g x = None) \<Longrightarrow> hs (Some x) = 0"
proof -
  have "\<forall>g g' x. m g x \<noteq> None \<and> m g' x \<noteq> None \<longrightarrow> g = g'" using assms unfolding queues_rep_def by blast
  then show "m g x = Some k \<Longrightarrow> m g' x = Some l \<Longrightarrow> g = g'" by (metis option.distinct(1))
  show "pq_rep (m g) (qs g, hs)" using assms unfolding queues_rep_def by blast
  have "(\<forall>g. m g x = None) \<longrightarrow> hs (Some x) = 0" using assms unfolding queues_rep_def by blast
  moreover assume "\<And>g. m g x = None"
  then have "\<forall>g. m g x = None" by (rule allI)
  ultimately show "hs (Some x) = 0" by (rule mp)
qed

lemma queues_rep_change:
  assumes rep: "queues_rep m qs hs" and q: "pq_rep n (q, hs')" and kept: "handles_kept (insert x (dom (m g))) hs hs'"
    and n: "\<And>y. y \<noteq> x \<Longrightarrow> n y = m g y" and x: "\<And>g'. g' \<noteq> g \<Longrightarrow> m g' x = None" "n x = None \<Longrightarrow> hs' (Some x) = 0"
  shows "queues_rep (m(g := n)) (qs(g := q)) hs'"
proof -
  note R = queues_repD [OF rep]
  have "pq_rep (m g') (qs g', hs')" if "g' \<noteq> g" for g'
  proof (rule pq_rep_frame [OF R(1)])
    fix y assume "y \<in> dom (m g')"
    then obtain k where y: "m g' y = Some k" by blast
    then have "y \<noteq> x" using x(1) [OF that] by auto
    moreover have "m g y = None" using R(2) [OF y] that by (cases "m g y") blast+
    ultimately have "y \<notin> insert x (dom (m g))" by (simp add: domIff)
    then show "hs' (Some y) = hs (Some y)" by (rule handles_keptD [OF kept])
  qed
  moreover have "h = h'" if h: "(m(g := n)) h y \<noteq> None" "(m(g := n)) h' y \<noteq> None" for h h' y
  proof (cases "y = x")
    case True
    then show ?thesis using h x(1) by (cases "h = g"; cases "h' = g") auto
  next
    case False
    then have "m h y \<noteq> None" "m h' y \<noteq> None" using h n by (simp_all split: if_splits)
    then show ?thesis using R(2) by blast
  qed
  moreover have "hs' (Some y) = 0" if y: "\<And>h. (m(g := n)) h y = None" for y
  proof (cases "y = x")
    case True
    then show ?thesis using x(2) y [of g] by simp
  next
    case False
    have "m h y = None" for h using y [of h] y [of g] n [OF False] by (cases "h = g") auto
    then have "hs (Some y) = 0" and "y \<notin> insert x (dom (m g))" using R(3) False by (blast, simp add: domIff)
    then show ?thesis using handles_keptD [OF kept] by simp
  qed
  moreover have "pq_rep ((m(g := n)) h) ((qs(g := q)) h, hs')" if "h \<noteq> g \<Longrightarrow> pq_rep (m h) (qs h, hs')" for h
    using q that by (cases "h = g") simp_all
  ultimately show ?thesis unfolding queues_rep_def by blast
qed

lemma group_Push_rep:
  assumes rep: "queues_rep m (queues pl) (handles pl)" and x: "\<And>g. m g x = None" and k: "GetSortKey (sequences pl x) = Some k"
  obtains qs hs where "group_Push g x pl = Some (pl\<lparr>queues := qs, handles := hs\<rparr>)" "queues_rep (m(g := (m g)(x \<mapsto> k))) qs hs"
proof -
  obtain q hs where q: "pq_Push x k (queues pl g, handles pl) = (q, hs)" by force
  note P = Push_rep [OF queues_repD(1) [OF rep] x, of g k, unfolded q]
  have "queues_rep (m(g := (m g)(x \<mapsto> k))) ((queues pl)(g := q)) hs"
    by (rule queues_rep_change [where x = x, OF rep P(1)]) (use P(2) x in auto)
  then show ?thesis using that k q by (simp add: group_Push_def on_queue_def)
qed

lemma group_Remove_rep:
  assumes rep: "queues_rep m (queues pl) (handles pl)" and x: "\<And>g'. g' \<noteq> g \<Longrightarrow> m g' x = None"
  obtains qs hs where "group_RemoveTaskSource g x pl = (if m g x = None then None else Some x, pl\<lparr>queues := qs, handles := hs\<rparr>)"
    "queues_rep (m(g := (m g)(x := None))) qs hs"
proof (cases "m g x")
  case None
  then have "handles pl (Some x) = 0" using queues_repD(3) [OF rep, of x] x by (metis option.exhaust)
  moreover have "m(g := (m g)(x := None)) = m" using None by (simp add: fun_upd_idem)
  ultimately show ?thesis using that [of "handles pl" "queues pl"] rep None
    by (simp add: group_RemoveTaskSource_def absent_source)
next
  case (Some k)
  obtain q hs where r: "RemoveTaskSource x (queues pl g, handles pl) = (Some x, q, hs)" "pq_rep ((m g)(x := None)) (q, hs)"
    "hs (Some x) = 0" "handles_kept (dom (m g)) (handles pl) hs"
    by (rule Remove_rep [OF queues_repD(1) [OF rep] Some])
  have "queues_rep (m(g := (m g)(x := None))) ((queues pl)(g := q)) hs"
    by (rule queues_rep_change [where x = x, OF rep r(2)]) (use r(3,4) x Some in \<open>auto simp: handles_kept_def\<close>)
  then show ?thesis using that r(1) Some by (simp add: group_RemoveTaskSource_def)
qed

lemma group_Update_rep:
  assumes rep: "queues_rep m (queues pl) (handles pl)" and x: "\<And>g'. g' \<noteq> g \<Longrightarrow> m g' x = None"
    and k: "m g x \<noteq> None \<Longrightarrow> GetSortKey (sequences pl x) = Some k"
  obtains qs hs where "group_UpdateSortKey g x pl = pl\<lparr>queues := qs, handles := hs\<rparr>"
    "queues_rep (if m g x = None then m else m(g := (m g)(x \<mapsto> k))) qs hs"
proof (cases "m g x")
  case None
  then have "handles pl (Some x) = 0" using queues_repD(3) [OF rep, of x] x by (metis option.exhaust)
  then show ?thesis using that [of "handles pl" "queues pl"] rep None
    by (simp add: group_UpdateSortKey_def on_queue_def absent_source split: option.split)
next
  case (Some l)
  obtain q hs where u: "UpdateSortKey x k (queues pl g, handles pl) = (q, hs)" by force
  note U = Update_rep [OF queues_repD(1) [OF rep] Some, of k, unfolded u]
  have "queues_rep (m(g := (m g)(x \<mapsto> k))) ((queues pl)(g := q)) hs"
    by (rule queues_rep_change [where x = x, OF rep U(1)]) (use U(2) x Some in \<open>auto simp: handles_kept_def\<close>)
  then show ?thesis using that Some k u by (simp add: group_UpdateSortKey_def on_queue_def)
qed

lemma group_Pop_rep:
  assumes rep: "queues_rep m (queues pl) (handles pl)" and ne: "\<not> pq_IsEmpty (queues pl g)"
  obtains x k q hs where "PopTaskSource (queues pl g, handles pl) = (Some x, q, hs)" "m g x = Some k" "PeekSortKey (queues pl g) = k"
    "\<And>y l. m g y = Some l \<Longrightarrow> sort_key_le k l" "queues_rep (m(g := (m g)(x := None))) ((queues pl)(g := q)) hs"
proof -
  note r = queues_repD(1) [OF rep, of g]
  have n: "m g \<noteq> Map.empty" using ne pq_repD(4) [OF r] by simp
  obtain x k q hs where p: "PopTaskSource (queues pl g, handles pl) = (Some x, q, hs)" "m g x = Some k" "PeekSortKey (queues pl g) = k"
    "\<And>y l. m g y = Some l \<Longrightarrow> sort_key_le k l" "pq_rep ((m g)(x := None)) (q, hs)" "hs (Some x) = 0" "handles_kept (dom (m g)) (handles pl) hs"
    using Pop_rep [OF r n] by metis
  have "m g' x = None" if "g' \<noteq> g" for g' using queues_repD(2) [OF rep p(2)] that by (cases "m g' x") auto
  then have "queues_rep (m(g := (m g)(x := None))) ((queues pl)(g := q)) hs"
    by (intro queues_rep_change [where x = x, OF rep p(5)]) (use p(2,6,7) in \<open>auto simp: handles_kept_def\<close>)
  then show ?thesis using that p(1-4) by blast
qed

end
