(* ===== verification/Pool_Steps.thy ===== *)
theory Pool_Steps
  imports Thread_Pool
begin

text \<open>
  The thread pool as a transition system: clients post to sequences and change priorities and fences
  while workers go through their cycle, each operation of the pool one step. \<open>phases\<close> says where in the
  cycle of \<open>worker_thread.cc\<close> a worker is; \<open>accepted\<close> and \<open>begun\<close> record, for each sequence, the closures that
  were taken into it and those that were taken out of it to run.
\<close>

section \<open>Steps\<close>

text \<open>A worker that \<open>Did\<close> run a task has called \<open>DidRunTask\<close> on its source, one that \<open>Leaves\<close> has also
  called \<open>AfterRunTask\<close>; both know whether the source goes back into a queue. If it does not, the worker
  no longer holds the source, which others may fill and queue again before its registration ends.\<close>

datatype phase = Idle | Has nat | Runs nat pool_task bool | Did nat pool_task bool bool | Leaves nat bool | Back "nat option"

fun held :: "phase \<Rightarrow> nat option" where
  "held Idle = None"
| "held (Has x) = Some x"
| "held (Runs x t ok) = Some x"
| "held (Did x t ok again) = (if again then Some x else None)"
| "held (Leaves x again) = (if again then Some x else None)"
| "held (Back r) = r"

fun rests :: "phase \<Rightarrow> nat option" where
  "rests (Runs x t ok) = None"
| "rests f = held f"

record pool_world =
  pool :: thread_pool
  phases :: "nat \<Rightarrow> phase"
  accepted :: "nat \<Rightarrow> nat option list"
  begun :: "nat \<Rightarrow> nat option list"

definition ThreadPool_new :: "(nat \<Rightarrow> pool_sequence) \<Rightarrow> (nat \<Rightarrow> thread_group) \<Rightarrow> bool \<Rightarrow> (thread_group \<Rightarrow> nat) \<Rightarrow> bool \<Rightarrow> thread_pool" where
  "ThreadPool_new sqs groups background limit user_blocking =
     \<lparr>tracker = TaskTracker_new, sequences = sqs, queues = (\<lambda>_. PriorityQueue_new), handles = (\<lambda>_. 0),
      has_background_group = background, has_fence = False, has_best_effort_fence = False,
      workers = (\<lambda>v. \<lparr>worker_group = groups v, is_running_task = False, is_running_best_effort_task = False\<rparr>),
      num_running_tasks = (\<lambda>_. 0), num_running_best_effort_tasks = (\<lambda>_. 0), max_best_effort_tasks = limit,
      all_tasks_user_blocking = user_blocking\<rparr>"

definition fresh :: "pool_sequence \<Rightarrow> bool" where
  "fresh sq \<longleftrightarrow> seq_queue sq = [] \<and> \<not> has_worker sq \<and> runner_refs sq = 0"

text \<open>What is registered with the tracker: the sequences that have a task or a worker, and once more the
  source of each worker that has still to end a registration.\<close>

definition enrolled :: "(nat \<Rightarrow> pool_sequence) \<Rightarrow> nat set" where
  "enrolled sqs = {x. seq_queue (sqs x) \<noteq> [] \<or> has_worker (sqs x)}"

fun leaves :: "phase \<Rightarrow> bool" where
  "leaves (Did x t ok again) \<longleftrightarrow> \<not> again"
| "leaves (Leaves x again) \<longleftrightarrow> \<not> again"
| "leaves f \<longleftrightarrow> False"

definition leaving :: "(nat \<Rightarrow> phase) \<Rightarrow> nat set" where
  "leaving ph = {v. leaves (ph v)}"

inductive pool_step :: "pool_world \<Rightarrow> pool_world \<Rightarrow> bool" where
  post: "PostTaskWithSequenceNow now t x (pool w) = Some (ok, pl) \<Longrightarrow>
    pool_step w (w\<lparr>pool := pl, accepted := (accepted w)(x := accepted w x @ (if ok then [pool_closure t] else []))\<rparr>)"
| priority: "pool_UpdatePriority x p (pool w) = Some pl \<Longrightarrow> pool_step w (w\<lparr>pool := pl\<rparr>)"
| fence: "pool_step w (w\<lparr>pool := SetHasFence b (pool w)\<rparr>)"
| best_effort_fence: "pool_step w (w\<lparr>pool := SetHasBestEffortFence b (pool w)\<rparr>)"
| shutdown: "shutdown_event (tracker (pool w)) = None \<Longrightarrow> pool_step w (w\<lparr>pool := Shutdown_begin (pool w)\<rparr>)"
| get_work: "phases w v = Idle \<Longrightarrow> GetWork can v (pool w) = (Some x, pl) \<Longrightarrow>
    pool_step w (w\<lparr>pool := pl, phases := (phases w)(v := Has x)\<rparr>)"
| run: "phases w v = Has x \<Longrightarrow> run_begin x (pool w) = Some (t, ok, pl) \<Longrightarrow>
    pool_step w (w\<lparr>pool := pl, phases := (phases w)(v := Runs x t ok), begun := (begun w)(x := begun w x @ [pool_closure t])\<rparr>)"
| did_run: "phases w v = Runs x t ok \<Longrightarrow> run_did x (pool w) = (again, pl) \<Longrightarrow>
    pool_step w (w\<lparr>pool := pl, phases := (phases w)(v := Did x t ok again)\<rparr>)"
| after_run: "phases w v = Did x t ok again \<Longrightarrow>
    pool_step w (w\<lparr>pool := run_after x t ok (pool w), phases := (phases w)(v := Leaves x again)\<rparr>)"
| returned: "phases w v = Leaves x again \<Longrightarrow> run_return x again (pool w) = (r, pl) \<Longrightarrow>
    pool_step w (w\<lparr>pool := pl, phases := (phases w)(v := Back r)\<rparr>)"
| put_back: "phases w v = Back r \<Longrightarrow> worker_DidRunTask v r (pool w) = Some pl \<Longrightarrow>
    pool_step w (w\<lparr>pool := pl, phases := (phases w)(v := Idle)\<rparr>)"

inductive pool_reachable :: "pool_world \<Rightarrow> bool" where
  start: "(\<And>x. fresh (sqs x)) \<Longrightarrow>
    pool_reachable \<lparr>pool = ThreadPool_new sqs groups background limit user_blocking, phases = (\<lambda>_. Idle), accepted = (\<lambda>_. []), begun = (\<lambda>_. [])\<rparr>"
| step: "pool_reachable w \<Longrightarrow> pool_step w w' \<Longrightarrow> pool_reachable w'"

section \<open>Where a sequence is\<close>

text \<open>A sequence that has tasks is in the queue of its group under its present key, or in the hands of
  exactly one worker.\<close>

definition place_inv :: "(thread_group \<Rightarrow> nat \<rightharpoonup> sort_key) \<Rightarrow> (pool_sequence \<Rightarrow> thread_group) \<Rightarrow> (nat \<Rightarrow> pool_sequence) \<Rightarrow>
    (nat \<Rightarrow> phase) \<Rightarrow> bool" where
  "place_inv m gr sqs ph \<longleftrightarrow>
     (\<forall>g x k. m g x = Some k \<longrightarrow> g = gr (sqs x) \<and> GetSortKey (sqs x) = Some k \<and> \<not> has_worker (sqs x) \<and> (\<forall>v. held (ph v) \<noteq> Some x)) \<and>
     (\<forall>x. seq_queue (sqs x) \<noteq> [] \<longrightarrow> (\<exists>g k. m g x = Some k) \<or> (\<exists>v. held (ph v) = Some x)) \<and>
     (\<forall>v v' x. held (ph v) = Some x \<longrightarrow> held (ph v') = Some x \<longrightarrow> v = v') \<and>
     (\<forall>v x. rests (ph v) = Some x \<longrightarrow> seq_queue (sqs x) \<noteq> [] \<and> \<not> has_worker (sqs x)) \<and>
     (\<forall>x. has_worker (sqs x) \<longleftrightarrow> (\<exists>v t ok. ph v = Runs x t ok))"

lemma place_invD:
  assumes "place_inv m gr sqs ph"
  shows "m g x = Some k \<Longrightarrow> g = gr (sqs x)" "m g x = Some k \<Longrightarrow> GetSortKey (sqs x) = Some k"
    "m g x = Some k \<Longrightarrow> \<not> has_worker (sqs x)" "m g x = Some k \<Longrightarrow> held (ph v) \<noteq> Some x"
    "seq_queue (sqs x) \<noteq> [] \<Longrightarrow> (\<exists>g k. m g x = Some k) \<or> (\<exists>v. held (ph v) = Some x)"
    "held (ph v) = Some x \<Longrightarrow> held (ph v') = Some x \<Longrightarrow> v = v'"
    "rests (ph v) = Some x \<Longrightarrow> seq_queue (sqs x) \<noteq> [] \<and> \<not> has_worker (sqs x)"
    "has_worker (sqs x) \<longleftrightarrow> (\<exists>v t ok. ph v = Runs x t ok)"
  using assms unfolding place_inv_def by blast+

lemma rests_or_runs: "held f = Some x \<Longrightarrow> rests f = Some x \<or> (\<exists>t ok. f = Runs x t ok)" "rests f = Some x \<Longrightarrow> held f = Some x"
  by (cases f; simp)+

lemma held_none: "held f = None \<Longrightarrow> rests f = None" "held f = None \<Longrightarrow> f \<noteq> Runs x t ok"
  by (cases f; simp)+

lemma sort_key_front: "GetSortKey sq = Some k \<longleftrightarrow> (\<exists>t ts. seq_queue sq = t # ts \<and>
    k = \<lparr>key_priority = seq_priority sq, next_task_sequenced_time = pool_queue_time t\<rparr>)"
  by (auto simp: GetSortKey_def split: list.split)

text \<open>Appending to a sequence that is in its place.\<close>

lemma place_append:
  assumes p: "place_inv m gr sqs ph" and q: "seq_queue sq = seq_queue (sqs x) @ ts" "has_worker sq = has_worker (sqs x)"
    "gr sq = gr (sqs x)" "seq_priority sq = seq_priority (sqs x)" and n: "seq_queue (sqs x) \<noteq> [] \<or> has_worker (sqs x)"
  shows "place_inv m gr (sqs(x := sq)) ph"
proof -
  note P = place_invD [OF p]
  have "GetSortKey sq = Some k" if "m g x = Some k" for g k
    using P(2) [OF that] q by (auto simp: sort_key_front)
  moreover have "(\<exists>g k. m g x = Some k) \<or> (\<exists>v. held (ph v) = Some x)" using n P(5) [of x] P(8) [of x] held.simps(3) by metis
  ultimately show ?thesis using p q unfolding place_inv_def by (auto simp: fun_upd_def)
qed

text \<open>A first task puts the sequence into the queue of its group.\<close>

lemma place_first:
  assumes p: "place_inv m gr sqs ph" and q: "GetSortKey sq = Some k" "\<not> has_worker sq" "g = gr sq"
    and n: "seq_queue (sqs x) = []" "\<not> has_worker (sqs x)"
  shows "place_inv (m(g := (m g)(x \<mapsto> k))) gr (sqs(x := sq)) ph" "m h x = None"
proof -
  note P = place_invD [OF p]
  show mx: "m h x = None" for h using P(2) [of h x] n(1) by (cases "m h x") (auto simp: GetSortKey_def)
  have h: "held (ph v) \<noteq> Some x" for v
    using P(7) [of v x] P(8) [of x] n rests_or_runs(1) [of "ph v" x] by blast
  have m: "(m(g := (m g)(x \<mapsto> k))) h y = (if y = x then if h = g then Some k else None else m h y)" for h y
    using mx by auto
  show "place_inv (m(g := (m g)(x \<mapsto> k))) gr (sqs(x := sq)) ph"
    unfolding place_inv_def m
  proof (intro conjI allI impI)
    fix y assume "seq_queue ((sqs(x := sq)) y) \<noteq> []"
    then show "(\<exists>h l. (if y = x then if h = g then Some k else None else m h y) = Some l) \<or> (\<exists>v. held (ph v) = Some y)"
      using P(5) [of y] by (cases "y = x") auto
  next
    fix v y assume "rests (ph v) = Some y"
    then show "seq_queue ((sqs(x := sq)) y) \<noteq> []" "\<not> has_worker ((sqs(x := sq)) y)" using P(7) [of v y] h [of v] rests_or_runs(2) [of "ph v" y] by auto
  next
    fix y show "has_worker ((sqs(x := sq)) y) \<longleftrightarrow> (\<exists>v t ok. ph v = Runs y t ok)"
      using P(8) [of y] q(2) n(2) by (cases "y = x") auto
  qed (use P(1-4,6) q h in \<open>auto split: if_splits\<close>)
qed

text \<open>A worker takes a sequence out of the queue.\<close>

lemma place_pop:
  assumes p: "place_inv m gr sqs ph" and x: "m g x = Some k" and v: "ph v = Idle"
    and o: "\<And>h l. m h x = Some l \<Longrightarrow> h = g"
  shows "place_inv (m(g := (m g)(x := None))) gr sqs (ph(v := Has x))"
proof -
  note P = place_invD [OF p]
  have m: "(m(g := (m g)(x := None))) h y = (if y = x then None else m h y)" for h y
    using o [of h] by (cases "m h x") auto
  have hd: "held ((ph(v := Has x)) u) = (if u = v then Some x else held (ph u))" for u by simp
  have nv: "held (ph v) = None" using v by simp
  have q: "seq_queue (sqs x) \<noteq> []" using P(2) [OF x] by (auto simp: GetSortKey_def)
  show ?thesis
    unfolding place_inv_def m hd
  proof (intro conjI allI impI)
    fix y assume "seq_queue (sqs y) \<noteq> []"
    then show "(\<exists>h l. (if y = x then None else m h y) = Some l) \<or> (\<exists>u. (if u = v then Some x else held (ph u)) = Some y)"
      using P(5) [of y] nv by (cases "y = x") (auto, metis option.distinct(1))
  next
    fix u y assume "rests ((ph(v := Has x)) u) = Some y"
    then show "seq_queue (sqs y) \<noteq> []" "\<not> has_worker (sqs y)" using P(7) [of u y] q P(3) [OF x] by (auto split: if_splits)
  next
    fix y show "has_worker (sqs y) \<longleftrightarrow> (\<exists>u t ok. (ph(v := Has x)) u = Runs y t ok)"
      using P(8) [of y] v by (metis fun_upd_apply phase.distinct(3) phase.distinct(11))
  next
    fix u u' y
    assume "(if u = v then Some x else held (ph u)) = Some y" "(if u' = v then Some x else held (ph u')) = Some y"
    then show "u = u'" using P(6) [of u y u'] P(4) [OF x] by (auto split: if_splits)
  qed (use P(1-4) x in \<open>auto split: if_splits\<close>)
qed

text \<open>A worker keeps the sequence while it runs a task and until it puts the sequence back.\<close>

lemma place_keep:
  assumes p: "place_inv m gr sqs ph" and v: "held (ph v) = Some x" "held f = Some x"
    and w: "has_worker sq \<longleftrightarrow> (\<exists>t ok. f = Runs x t ok)" "seq_queue sq \<noteq> [] \<or> has_worker sq"
  shows "place_inv m gr (sqs(x := sq)) (ph(v := f))"
proof -
  note P = place_invD [OF p]
  have mx: "m h x = None" for h using P(4) [of h x _ v] v(1) by (cases "m h x") auto
  have hd: "held ((ph(v := f)) u) = held (ph u)" for u using v by simp
  have o: "y = x" if "held (ph v) = Some y" for y using that v(1) by simp
  show ?thesis
    unfolding place_inv_def hd
  proof (intro conjI allI impI)
    fix u y assume a: "rests ((ph(v := f)) u) = Some y"
    then have h: "held ((ph(v := f)) u) = Some y" by (rule rests_or_runs(2))
    have "y = x \<longleftrightarrow> u = v" using h v P(6) [of u x v] by (cases "u = v") auto
    then show "seq_queue ((sqs(x := sq)) y) \<noteq> []" "\<not> has_worker ((sqs(x := sq)) y)"
      using a w P(7) [of u y] by (auto split: if_splits)
  next
    fix y show "has_worker ((sqs(x := sq)) y) \<longleftrightarrow> (\<exists>u t ok. (ph(v := f)) u = Runs y t ok)"
    proof (cases "y = x")
      case True
      have "u = v" if "(ph(v := f)) u = Runs x t ok" for u t ok
        using that v P(6) [of u x v] by (cases "u = v") (auto simp del: held.simps simp: held.simps(3))
      then show ?thesis using w(1) True by (metis fun_upd_same)
    next
      case False
      have "(\<exists>u t ok. (ph(v := f)) u = Runs y t ok) \<longleftrightarrow> (\<exists>u t ok. ph u = Runs y t ok)"
        using v False by (metis fun_upd_apply held.simps(3) option.inject)
      then show ?thesis using P(8) [of y] False by simp
    qed
  qed (use P(1-6) mx v(1) in \<open>auto split: if_splits\<close>)
qed

lemma place_release:
  assumes p: "place_inv m gr sqs ph" and v: "held (ph v) = Some x" "held f = None" and w: "\<not> has_worker sq" "seq_queue sq = []"
  shows "place_inv m gr (sqs(x := sq)) (ph(v := f))"
proof -
  note P = place_invD [OF p]
  have mx: "m h x = None" for h using P(4) [of h x _ v] v(1) by (cases "m h x") auto
  have hd: "held ((ph(v := f)) u) = (if u = v then None else held (ph u))" for u using v(2) by simp
  have f: "rests f = None" "f \<noteq> Runs y t ok" for y t ok using held_none [OF v(2)] by blast+
  have o: "u = v" if "held (ph u) = Some x" for u using P(6) [OF that v(1)] .
  show ?thesis
    unfolding place_inv_def hd
  proof (intro conjI allI impI)
    fix u y assume a: "rests ((ph(v := f)) u) = Some y"
    then have "u \<noteq> v" using f(1) by auto
    moreover have "held (ph u) = Some y" using a \<open>u \<noteq> v\<close> rests_or_runs(2) by simp
    ultimately have "u \<noteq> v" "y \<noteq> x" using o [of u] by auto
    then show "seq_queue ((sqs(x := sq)) y) \<noteq> []" "\<not> has_worker ((sqs(x := sq)) y)"
      using a P(7) [of u y] by auto
  next
    fix y show "has_worker ((sqs(x := sq)) y) \<longleftrightarrow> (\<exists>u t ok. (ph(v := f)) u = Runs y t ok)"
    proof (cases "y = x")
      case True
      have "(ph(v := f)) u \<noteq> Runs x t ok" for u t ok using o [of u] f(2) by (cases "u = v") auto
      then show ?thesis using w(1) True by simp
    next
      case False
      have "(\<exists>u t ok. (ph(v := f)) u = Runs y t ok) \<longleftrightarrow> (\<exists>u t ok. ph u = Runs y t ok)"
        using v(1) f(2) False by (metis fun_upd_apply held.simps(3) option.inject)
      then show ?thesis using P(8) [of y] False by simp
    qed
  next
    fix y assume "seq_queue ((sqs(x := sq)) y) \<noteq> []"
    then have "y \<noteq> x" "seq_queue (sqs y) \<noteq> []" using w(2) by (auto split: if_splits)
    then show "(\<exists>g k. m g y = Some k) \<or> (\<exists>u. (if u = v then None else held (ph u)) = Some y)"
      using P(5) [of y] v(1) by (metis option.inject)
  qed (use P(1-4,6) mx in \<open>auto split: if_splits\<close>)
qed

lemma place_back:
  assumes p: "place_inv m gr sqs ph" and v: "ph v = Back (Some x)" and k: "GetSortKey (sqs x) = Some k" and g: "g = gr (sqs x)"
  shows "place_inv (m(g := (m g)(x \<mapsto> k))) gr sqs (ph(v := Idle))" "m h x = None"
proof -
  note P = place_invD [OF p]
  show mx: "m h x = None" for h using P(4) [of h x _ v] v by (cases "m h x") auto
  have m: "(m(g := (m g)(x \<mapsto> k))) h y = (if y = x then if h = g then Some k else None else m h y)" for h y
    using mx by auto
  have hd: "held ((ph(v := Idle)) u) = (if u = v then None else held (ph u))" for u by simp
  have n: "\<not> has_worker (sqs x)" using P(7) [of v x] v by simp
  show "place_inv (m(g := (m g)(x \<mapsto> k))) gr sqs (ph(v := Idle))"
    unfolding place_inv_def m hd
  proof (intro conjI allI impI)
    fix y assume "seq_queue (sqs y) \<noteq> []"
    then show "(\<exists>h l. (if y = x then if h = g then Some k else None else m h y) = Some l) \<or>
        (\<exists>u. (if u = v then None else held (ph u)) = Some y)"
      using P(5) [of y] v by (cases "y = x") (auto, metis held.simps(6) option.inject)
  next
    fix y show "has_worker (sqs y) \<longleftrightarrow> (\<exists>u t ok. (ph(v := Idle)) u = Runs y t ok)"
      using P(8) [of y] v by (metis fun_upd_apply phase.distinct(3) phase.distinct(23))
  next
    fix h y l u assume "(if y = x then if h = g then Some k else None else m h y) = Some l"
    then show "(if u = v then None else held (ph u)) \<noteq> Some y"
      using P(4) [of h y l u] P(6) [of u x v] v by (cases "y = x") (auto split: if_splits)
  qed (use P(1-3,6,7) k g n in \<open>auto split: if_splits\<close>)
qed

lemma place_move:
  assumes p: "place_inv m gr sqs ph" and v: "held f = held (ph v)" "rests (ph v) = held (ph v)" "rests f = held f"
    "\<And>x t ok. ph v \<noteq> Runs x t ok" "\<And>x t ok. f \<noteq> Runs x t ok"
  shows "place_inv m gr sqs (ph(v := f))"
proof -
  have e: "held ((ph(v := f)) u) = held (ph u)" "rests ((ph(v := f)) u) = rests (ph u)"
    "(ph(v := f)) u = Runs y t ok \<longleftrightarrow> ph u = Runs y t ok" for u y t ok using v by auto
  show ?thesis using p unfolding place_inv_def e .
qed

text \<open>Another priority gives a queued sequence another key, and perhaps another group.\<close>

lemma place_priority:
  assumes p: "place_inv m gr sqs ph" and q: "seq_queue sq = seq_queue (sqs x)" "has_worker sq = has_worker (sqs x)"
    and o: "\<And>h l. m h x = Some l \<Longrightarrow> h = gr (sqs x)"
    and n: "\<And>h. n h x = (if h = gr sq \<and> m (gr (sqs x)) x \<noteq> None then GetSortKey sq else None)" "\<And>h y. y \<noteq> x \<Longrightarrow> n h y = m h y"
  shows "place_inv n gr (sqs(x := sq)) ph"
proof -
  note P = place_invD [OF p]
  have hw: "has_worker ((sqs(x := sq)) y) = has_worker (sqs y)" "seq_queue ((sqs(x := sq)) y) = seq_queue (sqs y)" for y
    using q by auto
  show ?thesis
    unfolding place_inv_def hw
  proof (intro conjI allI impI)
    fix h y l assume a: "n h y = Some l"
    have "\<exists>h' l'. m h' y = Some l'" using a n(1) [of h] n(2) [of y h] by (cases "y = x") (auto split: if_splits)
    then show "\<not> has_worker (sqs y)" "held (ph v) \<noteq> Some y" for v using P(3,4) by blast+
    show "h = gr ((sqs(x := sq)) y)" using a n(1) [of h] n(2) [of y h] P(1) [of h y l] by (cases "y = x") (simp_all split: if_splits)
    show "GetSortKey ((sqs(x := sq)) y) = Some l" using a n(1) [of h] n(2) [of y h] P(2) [of h y l] by (cases "y = x") (simp_all split: if_splits)
  next
    fix y assume y: "seq_queue (sqs y) \<noteq> []"
    show "(\<exists>h l. n h y = Some l) \<or> (\<exists>v. held (ph v) = Some y)"
    proof (cases "y = x")
      case True
      then show ?thesis using P(5) [OF y] o n(1) [of "gr sq"] y q(1) by (auto simp: GetSortKey_def split: list.splits)
    next
      case False
      then show ?thesis using P(5) [OF y] n(2) by simp
    qed
  qed (use P(6-8) in blast)+
qed

section \<open>The invariant of the pool\<close>

definition pool_inv :: "(thread_group \<Rightarrow> nat \<rightharpoonup> sort_key) \<Rightarrow> pool_world \<Rightarrow> bool" where
  "pool_inv m w \<longleftrightarrow> queues_rep m (queues (pool w)) (handles (pool w)) \<and>
     place_inv m (GetThreadGroupForTraits (pool w)) (sequences (pool w)) (phases w) \<and>
     (\<forall>x. seq_ok (sequences (pool w) x)) \<and>
     (\<forall>x. accepted w x = begun w x @ map pool_closure (seq_queue (sequences (pool w) x)))"

lemma pool_invD:
  assumes "pool_inv m w"
  shows "queues_rep m (queues (pool w)) (handles (pool w))"
    "place_inv m (GetThreadGroupForTraits (pool w)) (sequences (pool w)) (phases w)"
    "seq_ok (sequences (pool w) x)" "accepted w x = begun w x @ map pool_closure (seq_queue (sequences (pool w) x))"
  using assms unfolding pool_inv_def by blast+

text \<open>Only the parts of the pool that the invariant reads matter to it.\<close>

lemma pool_inv_frame:
  assumes "pool_inv m w" "queues (pool w') = queues (pool w)" "handles (pool w') = handles (pool w)"
    "sequences (pool w') = sequences (pool w)" "has_background_group (pool w') = has_background_group (pool w)"
    "phases w' = phases w" "accepted w' = accepted w" "begun w' = begun w"
  shows "pool_inv m w'"
proof -
  have "GetThreadGroupForTraits (pool w') = GetThreadGroupForTraits (pool w)"
    using assms(5) by (simp add: fun_eq_iff GetThreadGroupForTraits_def)
  then show ?thesis using assms unfolding pool_inv_def by simp
qed

lemma group_same: "has_background_group pl' = has_background_group pl \<Longrightarrow> GetThreadGroupForTraits pl' = GetThreadGroupForTraits pl"
  by (simp add: fun_eq_iff GetThreadGroupForTraits_def)

text \<open>One sequence changes.\<close>

lemma pool_inv_change:
  assumes i: "pool_inv m w" and q: "queues_rep n (queues pl) (handles pl)" and b: "has_background_group pl = has_background_group (pool w)"
    and s: "sequences pl = (sequences (pool w))(x := sq)" and p: "place_inv n (GetThreadGroupForTraits (pool w)) (sequences pl) ph"
    and k: "seq_ok sq" and e: "po = bg @ map pool_closure (seq_queue sq)"
  shows "pool_inv n (w\<lparr>pool := pl, phases := ph, accepted := (accepted w)(x := po), begun := (begun w)(x := bg)\<rparr>)"
  using pool_invD [OF i] q p k e unfolding pool_inv_def by (simp add: s group_same [OF b])

lemma pool_inv_keep:
  assumes i: "pool_inv m w" and q: "queues_rep n (queues pl) (handles pl)" and b: "has_background_group pl = has_background_group (pool w)"
    and s: "sequences pl = (sequences (pool w))(x := sq)" and p: "place_inv n (GetThreadGroupForTraits (pool w)) (sequences pl) ph"
    and k: "seq_ok sq" and e: "seq_queue sq = seq_queue (sequences (pool w) x)"
  shows "pool_inv n (w\<lparr>pool := pl, phases := ph\<rparr>)"
proof -
  have "accepted w x = begun w x @ map pool_closure (seq_queue sq)" using pool_invD(4) [OF i] e by simp
  from pool_inv_change [OF i q b s p k this] show ?thesis by simp
qed

lemma pushed_sequence:
  assumes "PushTask now t sq = Some sq'"
  obtains t' where "seq_queue sq' = seq_queue sq @ [t']" "pool_closure t' = pool_closure t" "has_worker sq' = has_worker sq"
    "seq_priority sq' = seq_priority sq" "seq_thread_policy sq' = seq_thread_policy sq"
  using assms by (auto simp: PushTask_def Let_def split: if_splits)

text \<open>A task that is accepted goes to the end of its sequence; a sequence that had none is put into its
  group's queue.\<close>

lemma PostNow_cases:
  assumes "PostTaskWithSequenceNow now t x pl = Some (ok, pl')"
  obtains (refused) tr where "\<not> ok" "pl' = pl\<lparr>tracker := tr\<rparr>"
      "WillPushTask (sequences pl x)" "WillQueueTaskSource (seq_shutdown_behavior (sequences pl x)) (tracker pl) = (False, tr)"
  | (first) tr sq where "ok" "WillPushTask (sequences pl x)" "WillQueueTaskSource (seq_shutdown_behavior (sequences pl x)) (tracker pl) = (True, tr)" "PushTask now t (sequences pl x) = Some sq"
      "group_Push (GetThreadGroupForTraits pl sq) x (pl\<lparr>tracker := tr, sequences := (sequences pl)(x := sq)\<rparr>) = Some pl'"
  | (later) sq where "ok" "\<not> WillPushTask (sequences pl x)" "PushTask now t (sequences pl x) = Some sq"
      "pl' = pl\<lparr>sequences := (sequences pl)(x := sq)\<rparr>"
  using assms unfolding PostTaskWithSequenceNow_def
  by (auto simp: Let_def GetThreadGroupForTraits_def split: prod.splits if_splits option.splits)

lemma post_inv:
  assumes i: "pool_inv m w" and s: "PostTaskWithSequenceNow now t x (pool w) = Some (ok, pl)"
  obtains n where "pool_inv n (w\<lparr>pool := pl, accepted := (accepted w)(x := accepted w x @ (if ok then [pool_closure t] else []))\<rparr>)"
proof -
  note I = pool_invD [OF i]
  let ?w = "\<lambda>pl po. w\<lparr>pool := pl, accepted := (accepted w)(x := po)\<rparr>"
  have w: "w\<lparr>pool := pl, phases := phases w, accepted := (accepted w)(x := po), begun := (begun w)(x := begun w x)\<rparr> = ?w pl po" for pl po
    by simp
  from s show ?thesis
  proof (cases rule: PostNow_cases)
    case (refused tr)
    then have "pool_inv m (?w pl (accepted w x))" by (intro pool_inv_frame [OF i]) simp_all
    then show ?thesis using that refused(1) by simp
  next
    case (first tr sq)
    obtain t' where q: "seq_queue sq = seq_queue (sequences (pool w) x) @ [t']" "pool_closure t' = pool_closure t"
      "has_worker sq = has_worker (sequences (pool w) x)" by (rule pushed_sequence [OF first(4)])
    have e: "seq_queue (sequences (pool w) x) = []" "\<not> has_worker (sequences (pool w) x)" using first(2) by (simp_all add: WillPushTask_def)
    then obtain k where k: "GetSortKey sq = Some k" using q(1) by (simp add: GetSortKey_def)
    let ?g = "GetThreadGroupForTraits (pool w) sq"
    let ?pl = "(pool w)\<lparr>tracker := tr, sequences := (sequences (pool w))(x := sq)\<rparr>"
    note P = place_first [OF I(2) k _ refl e] q(3) e(2)
    obtain qs hs where g: "group_Push ?g x ?pl = Some (?pl\<lparr>queues := qs, handles := hs\<rparr>)" "queues_rep (m(?g := (m ?g)(x \<mapsto> k))) qs hs"
      by (rule group_Push_rep [of m ?pl x k ?g]) (use I(1) P k in \<open>simp_all\<close>)
    have "pool_inv (m(?g := (m ?g)(x \<mapsto> k))) (?w pl (accepted w x @ [pool_closure t]))"
      unfolding w [symmetric]
      by (rule pool_inv_change [OF i, where sq = sq]) (use g first P seq_ok_Push [OF I(3) first(4)] I(4) [of x] q e in auto)
    then show ?thesis using that first(1) by simp
  next
    case (later sq)
    obtain t' where q: "seq_queue sq = seq_queue (sequences (pool w) x) @ [t']" "pool_closure t' = pool_closure t"
      "has_worker sq = has_worker (sequences (pool w) x)" "seq_priority sq = seq_priority (sequences (pool w) x)"
      "seq_thread_policy sq = seq_thread_policy (sequences (pool w) x)" by (rule pushed_sequence [OF later(3)])
    have "place_inv m (GetThreadGroupForTraits (pool w)) ((sequences (pool w))(x := sq)) (phases w)"
      by (rule place_append [OF I(2) q(1,3)]) (use q later(2) in \<open>auto simp: GetThreadGroupForTraits_def WillPushTask_def\<close>)
    then have "pool_inv m (?w pl (accepted w x @ [pool_closure t]))"
      unfolding w [symmetric]
      by (intro pool_inv_change [OF i, where sq = sq]) (use later I(1) seq_ok_Push [OF I(3) later(3)] I(4) [of x] q in auto)
    then show ?thesis using that later(1) by simp
  qed
qed

text \<open>Another priority moves the key of a queued sequence, and the sequence itself when its group changes.\<close>

definition requeued :: "(thread_group \<Rightarrow> nat \<rightharpoonup> sort_key) \<Rightarrow> thread_group \<Rightarrow> thread_group \<Rightarrow> nat \<Rightarrow> sort_key option \<Rightarrow> thread_group \<Rightarrow> nat \<rightharpoonup> sort_key" where
  "requeued m g g' x k h y = (if y = x then if h = g' \<and> m g x \<noteq> None then k else None else m h y)"

lemma requeue_rep:
  assumes rep: "queues_rep m (queues pl) (handles pl)" and x: "\<And>h. h \<noteq> g \<Longrightarrow> m h x = None"
    and key: "m g x \<noteq> None \<Longrightarrow> GetSortKey (sequences pl x) \<noteq> None"
  obtains qs hs where "(if g' = g then Some (group_UpdateSortKey g x pl)
      else case group_RemoveTaskSource g x pl of (None, pl) \<Rightarrow> Some pl | (Some y, pl) \<Rightarrow> group_Push g' y pl) = Some (pl\<lparr>queues := qs, handles := hs\<rparr>)"
    "queues_rep (requeued m g g' x (GetSortKey (sequences pl x))) qs hs"
proof (cases "g' = g")
  case True
  have all_x: "m h x = None" if "m g x = None" for h using x [of h] that by (cases "h = g") simp_all
  let ?k = "the (GetSortKey (sequences pl x))"
  have "requeued m g g' x (GetSortKey (sequences pl x)) = (if m g x = None then m else m(g := (m g)(x \<mapsto> ?k)))"
    using x all_x key True by (auto simp: fun_eq_iff requeued_def)
  moreover obtain qs hs where "group_UpdateSortKey g x pl = pl\<lparr>queues := qs, handles := hs\<rparr>"
      "queues_rep (if m g x = None then m else m(g := (m g)(x \<mapsto> ?k))) qs hs"
    by (rule group_Update_rep [OF rep x, where k = ?k]) (use key in auto)
  ultimately show ?thesis using that True by simp
next
  case False
  let ?n = "m(g := (m g)(x := None))"
  have nx: "?n h x = None" for h using x by simp
  obtain qs hs where r: "group_RemoveTaskSource g x pl = (if m g x = None then None else Some x, pl\<lparr>queues := qs, handles := hs\<rparr>)"
    "queues_rep ?n qs hs" by (rule group_Remove_rep [OF rep x])
  show ?thesis
  proof (cases "m g x = None")
    case True
    then have "requeued m g g' x (GetSortKey (sequences pl x)) = ?n" using x by (auto simp: fun_eq_iff requeued_def)
    then show ?thesis using that False True r by simp
  next
    case queued: False
    then obtain k where k: "GetSortKey (sequences pl x) = Some k" using key by blast
    obtain qs' hs' where g: "group_Push g' x (pl\<lparr>queues := qs, handles := hs\<rparr>) = Some (pl\<lparr>queues := qs', handles := hs'\<rparr>)"
      "queues_rep (?n(g' := (?n g')(x \<mapsto> k))) qs' hs'"
      by (rule group_Push_rep [of ?n "pl\<lparr>queues := qs, handles := hs\<rparr>" x k g']) (use r(2) nx k in auto)
    have "requeued m g g' x (GetSortKey (sequences pl x)) = ?n(g' := (?n g')(x \<mapsto> k))"
      using nx queued k False x by (auto simp: fun_eq_iff requeued_def)
    then show ?thesis using that False queued r(1) g by simp
  qed
qed

lemma priority_inv:
  assumes i: "pool_inv m w"
  obtains n pl where "pool_UpdatePriority x p (pool w) = Some pl" "pool_inv n (w\<lparr>pool := pl\<rparr>)"
proof (cases "seq_priority (sequences (pool w) x) = p")
  case True
  then show ?thesis using that [of "pool w" m] i by (simp add: pool_UpdatePriority_def)
next
  case False
  note I = pool_invD [OF i]
  let ?sq = "sequences (pool w) x" and ?gr = "GetThreadGroupForTraits (pool w)"
  define sq where "sq = seq_UpdatePriority (all_tasks_user_blocking (pool w)) p ?sq"
  define pl where "pl = (pool w)\<lparr>sequences := (sequences (pool w))(x := sq)\<rparr>"
  have q: "seq_queue sq = seq_queue ?sq" "has_worker sq = has_worker ?sq" by (simp_all add: sq_def seq_UpdatePriority_def)
  have gr: "GetThreadGroupForTraits pl = ?gr" by (rule group_same) (simp add: pl_def)
  have o: "h = ?gr ?sq" if "m h x = Some l" for h l by (rule place_invD(1) [OF I(2) that])
  obtain qs hs where u: "(if ?gr sq = ?gr ?sq then Some (group_UpdateSortKey (?gr ?sq) x pl)
      else case group_RemoveTaskSource (?gr ?sq) x pl of (None, pl) \<Rightarrow> Some pl | (Some y, pl) \<Rightarrow> group_Push (?gr sq) y pl) =
      Some (pl\<lparr>queues := qs, handles := hs\<rparr>)" "queues_rep (requeued m (?gr ?sq) (?gr sq) x (GetSortKey (sequences pl x))) qs hs"
  proof (rule requeue_rep [of m pl "?gr ?sq" x "?gr sq"])
    show "queues_rep m (queues pl) (handles pl)" using I(1) by (simp add: pl_def)
    show "m h x = None" if "h \<noteq> ?gr ?sq" for h using o [of h] that by (cases "m h x") auto
    show "GetSortKey (sequences pl x) \<noteq> None" if queued: "m (?gr ?sq) x \<noteq> None"
    proof -
      obtain k where "m (?gr ?sq) x = Some k" using queued by blast
      then have "GetSortKey ?sq = Some k" by (rule place_invD(2) [OF I(2)])
      then show ?thesis using q(1) by (auto simp: pl_def sort_key_front)
    qed
  qed
  let ?n = "requeued m (?gr ?sq) (?gr sq) x (GetSortKey sq)"
  have "place_inv ?n ?gr ((sequences (pool w))(x := sq)) (phases w)"
    by (rule place_priority [OF I(2) q o]) (auto simp: requeued_def)
  then have "pool_inv ?n (w\<lparr>pool := pl\<lparr>queues := qs, handles := hs\<rparr>\<rparr>)"
    using pool_inv_keep [OF i, of ?n "pl\<lparr>queues := qs, handles := hs\<rparr>" x sq "phases w"]
      u(2) I(3) [of x] q by (simp add: pl_def sq_def seq_ok_priority)
  moreover have "pool_UpdatePriority x p (pool w) = Some (pl\<lparr>queues := qs, handles := hs\<rparr>)"
    using False u(1) unfolding pool_UpdatePriority_def Let_def sq_def [symmetric] pl_def [symmetric] gr by simp
  ultimately show ?thesis using that by blast
qed

text \<open>A worker that gets work gets the source whose key comes first in the queue of its group.\<close>

lemma GetWork_cases:
  assumes "GetWork can v pl = (Some x, pl')" "g = worker_group (workers pl v)"
  obtains q hs where "queues pl' = (queues pl)(g := q)" "handles pl' = hs" "PopTaskSource (queues pl g, handles pl) = (Some x, q, hs)"
    "\<not> pq_IsEmpty (queues pl g)" "sequences pl' = sequences pl" "has_background_group pl' = has_background_group pl"
  using assms unfolding GetWork_def Let_def by (auto split: if_splits prod.splits)

lemma get_work_inv:
  assumes i: "pool_inv m w" and v: "phases w v = Idle" and s: "GetWork can v (pool w) = (Some x, pl)"
  obtains n where "pool_inv n (w\<lparr>pool := pl, phases := (phases w)(v := Has x)\<rparr>)"
proof -
  note I = pool_invD [OF i]
  let ?g = "worker_group (workers (pool w) v)"
  obtain q hs where g: "queues pl = (queues (pool w))(?g := q)" "handles pl = hs" "PopTaskSource (queues (pool w) ?g, handles (pool w)) = (Some x, q, hs)"
    "\<not> pq_IsEmpty (queues (pool w) ?g)" "sequences pl = sequences (pool w)" "has_background_group pl = has_background_group (pool w)"
    by (rule GetWork_cases [OF s refl])
  obtain x' k q' hs' where "PopTaskSource (queues (pool w) ?g, handles (pool w)) = (Some x', q', hs')" "m ?g x' = Some k"
    "queues_rep (m(?g := (m ?g)(x' := None))) ((queues (pool w))(?g := q')) hs'"
    by (rule group_Pop_rep [OF I(1) g(4)])
  then have k: "m ?g x = Some k" "queues_rep (m(?g := (m ?g)(x := None))) ((queues (pool w))(?g := q)) hs" using g(3) by simp_all
  have "h = ?g" if "m h x = Some l" for h l by (rule queues_repD(2) [OF I(1) that k(1)])
  then have "place_inv (m(?g := (m ?g)(x := None))) (GetThreadGroupForTraits (pool w)) (sequences (pool w)) ((phases w)(v := Has x))"
    by (rule place_pop [OF I(2) k(1) v])
  then have "pool_inv (m(?g := (m ?g)(x := None))) (w\<lparr>pool := pl, phases := (phases w)(v := Has x)\<rparr>)"
    by (intro pool_inv_keep [OF i, where x = x and sq = "sequences (pool w) x"]) (use k(2) g I(3) in simp_all)
  then show ?thesis by (rule that)
qed

text \<open>The task that is taken to run is the first of those that have been accepted and not begun.\<close>

lemma run_inv:
  assumes i: "pool_inv m w" and v: "phases w v = Has x"
  obtains t ok pl where "run_begin x (pool w) = Some (t, ok, pl)"
    "pool_inv m (w\<lparr>pool := pl, phases := (phases w)(v := Runs x t ok), begun := (begun w)(x := begun w x @ [pool_closure t])\<rparr>)"
proof -
  note I = pool_invD [OF i]
  let ?sq = "sequences (pool w) x"
  have n: "seq_queue ?sq \<noteq> []" "\<not> has_worker ?sq" using place_invD(7) [OF I(2), of v x] v by simp_all
  then obtain t ts where t: "seq_queue ?sq = t # ts" by (meson list.exhaust)
  define sq where "sq = ?sq\<lparr>has_worker := True, seq_queue := ts\<rparr>"
  have take: "seq_TakeTask ?sq = Some (t, sq)" using t by (simp add: seq_TakeTask_def sq_def)
  obtain ok tr where b: "BeforeRunTask (GetEffectiveShutdownBehavior (seq_shutdown_behavior sq) (pool_delayed_run_time t \<noteq> 0)) (tracker (pool w)) = (ok, tr)"
    by force
  define pl where "pl = (pool w)\<lparr>sequences := (sequences (pool w))(x := sq), tracker := tr\<rparr>"
  have "place_inv m (GetThreadGroupForTraits (pool w)) (sequences pl) ((phases w)(v := Runs x t ok))"
    unfolding pl_def using place_keep [OF I(2), of v x "Runs x t ok" sq] v by (simp add: sq_def)
  moreover have "accepted w x = (begun w x @ [pool_closure t]) @ map pool_closure (seq_queue sq)" using I(4) [of x] t by (simp add: sq_def)
  ultimately have "pool_inv m (w\<lparr>pool := pl, phases := (phases w)(v := Runs x t ok), accepted := (accepted w)(x := accepted w x),
      begun := (begun w)(x := begun w x @ [pool_closure t])\<rparr>)"
    by (intro pool_inv_change [OF i]) (use I(1) seq_ok_Take [OF I(3) n(2) take] in \<open>simp_all add: pl_def\<close>)
  moreover have "run_begin x (pool w) = Some (t, ok, pl)" using take b by (simp add: run_begin_def pl_def)
  ultimately show ?thesis using that by simp
qed

text \<open>After the task, the worker has the sequence only if more tasks are in it.\<close>

lemma run_did_inv:
  assumes i: "pool_inv m w" and v: "phases w v = Runs x t ok" and s: "run_did x (pool w) = (again, pl)"
  shows "pool_inv m (w\<lparr>pool := pl, phases := (phases w)(v := Did x t ok again)\<rparr>)"
proof -
  note I = pool_invD [OF i]
  let ?sq = "sequences (pool w) x"
  have hw: "has_worker ?sq" using place_invD(8) [OF I(2)] v by blast
  obtain sq where d: "seq_DidRunTask ?sq = (again, sq)" "pl = (pool w)\<lparr>sequences := (sequences (pool w))(x := sq)\<rparr>"
    using s by (auto simp: run_did_def split: prod.splits)
  have q: "seq_queue sq = seq_queue ?sq" "\<not> has_worker sq" "again \<longleftrightarrow> seq_queue sq \<noteq> []"
    using d(1) by (auto simp: seq_DidRunTask_def ReleaseTaskRunner_def Let_def split: if_splits)
  have h: "held (phases w v) = Some x" using v by simp
  have "place_inv m (GetThreadGroupForTraits (pool w)) ((sequences (pool w))(x := sq)) ((phases w)(v := Did x t ok again))"
  proof (cases again)
    case True
    then show ?thesis using place_keep [OF I(2) h, of "Did x t ok again" sq] q by simp
  next
    case False
    then show ?thesis using place_release [OF I(2) h, of "Did x t ok again" sq] q by simp
  qed
  then show ?thesis
    by (intro pool_inv_keep [OF i, where x = x and sq = sq]) (use I(1) d seq_ok_DidRun [OF I(3) [of x] hw] q in simp_all)
qed

text \<open>What the worker then does with the tracker concerns no queue.\<close>

lemma tracker_call_inv:
  assumes i: "pool_inv m w" and v: "held f = held (phases w v)" "rests (phases w v) = held (phases w v)" "rests f = held f"
    "\<And>x t ok. phases w v \<noteq> Runs x t ok" "\<And>x t ok. f \<noteq> Runs x t ok"
  shows "pool_inv m (w\<lparr>pool := (pool w)\<lparr>tracker := tr\<rparr>, phases := (phases w)(v := f)\<rparr>)"
proof (rule pool_inv_keep [OF i, where x = 0 and sq = "sequences (pool w) 0"])
  show "place_inv m (GetThreadGroupForTraits (pool w)) (sequences ((pool w)\<lparr>tracker := tr\<rparr>)) ((phases w)(v := f))"
    using place_move [OF pool_invD(2) [OF i], of f v] v by simp
qed (use pool_invD [OF i] in simp_all)

lemma run_after_tracker: "run_after x t ok pl = pl\<lparr>tracker := tracker (run_after x t ok pl)\<rparr>"
  by (simp add: run_after_def Let_def)

lemma run_return_tracker: "run_return x again pl = (if again then Some x else None, pl\<lparr>tracker := tracker (snd (run_return x again pl))\<rparr>)"
  by (simp add: run_return_def)

lemma after_run_inv:
  assumes i: "pool_inv m w" and v: "phases w v = Did x t ok again"
  shows "pool_inv m (w\<lparr>pool := run_after x t ok (pool w), phases := (phases w)(v := Leaves x again)\<rparr>)"
  by (subst run_after_tracker, rule tracker_call_inv [OF i]) (simp_all add: v)

lemma returned_inv:
  assumes i: "pool_inv m w" and v: "phases w v = Leaves x again" and s: "run_return x again (pool w) = (r, pl)"
  shows "pool_inv m (w\<lparr>pool := pl, phases := (phases w)(v := Back r)\<rparr>)"
proof -
  have "r = (if again then Some x else None)" "pl = (pool w)\<lparr>tracker := tracker pl\<rparr>" using run_return_tracker [of x again "pool w"] s by simp_all
  moreover have "pool_inv m (w\<lparr>pool := (pool w)\<lparr>tracker := tracker pl\<rparr>, phases := (phases w)(v := Back (if again then Some x else None))\<rparr>)"
    by (rule tracker_call_inv [OF i]) (simp_all add: v)
  ultimately show ?thesis by metis
qed

text \<open>The worker puts the sequence back into the queue of its group.\<close>

definition worker_free :: "nat \<Rightarrow> thread_pool \<Rightarrow> thread_pool" where
  "worker_free v pl = (let g = worker_group (workers pl v) in
     pl\<lparr>num_running_tasks := (num_running_tasks pl)(g := num_running_tasks pl g - 1),
        num_running_best_effort_tasks := (num_running_best_effort_tasks pl)(g :=
          num_running_best_effort_tasks pl g - of_bool (is_running_best_effort_task (workers pl v))),
        workers := (workers pl)(v := \<lparr>worker_group = g, is_running_task = False, is_running_best_effort_task = False\<rparr>)\<rparr>)"

lemma put_back_free:
  "worker_DidRunTask v r pl = (case r of None \<Rightarrow> Some (worker_free v pl) | Some x \<Rightarrow> ReEnqueueTaskSource x (worker_free v pl))"
  by (cases "workers pl v") (simp add: worker_DidRunTask_def worker_free_def Let_def split: option.split)

lemma worker_free_frame:
  "queues (worker_free v pl) = queues pl" "handles (worker_free v pl) = handles pl" "sequences (worker_free v pl) = sequences pl"
  "has_background_group (worker_free v pl) = has_background_group pl"
  by (simp_all add: worker_free_def Let_def)

lemma put_back_inv:
  assumes i: "pool_inv m w" and v: "phases w v = Back r"
  obtains n pl where "worker_DidRunTask v r (pool w) = Some pl" "pool_inv n (w\<lparr>pool := pl, phases := (phases w)(v := Idle)\<rparr>)"
proof -
  note I = pool_invD [OF i]
  let ?gr = "GetThreadGroupForTraits (pool w)"
  define pl where "pl = worker_free v (pool w)"
  note F = worker_free_frame [of v "pool w", folded pl_def]
  have gr: "GetThreadGroupForTraits pl = ?gr" by (rule group_same) (simp add: F)
  show ?thesis
  proof (cases r)
    case None
    have "pool_inv m (w\<lparr>pool := pl, phases := (phases w)(v := Idle)\<rparr>)"
      by (rule pool_inv_keep [OF i, where x = 0 and sq = "sequences (pool w) 0"])
        (use place_move [OF I(2), of Idle v] v None I(1,3) F in simp_all)
    moreover have "worker_DidRunTask v r (pool w) = Some pl" using None by (simp add: put_back_free pl_def)
    ultimately show ?thesis using that by blast
  next
    case (Some x)
    have b: "phases w v = Back (Some x)" using v Some by simp
    obtain k where k: "GetSortKey (sequences (pool w) x) = Some k"
      using place_invD(7) [OF I(2), of v x] b by (cases "seq_queue (sequences (pool w) x)") (auto simp: GetSortKey_def)
    let ?g = "?gr (sequences (pool w) x)"
    let ?n = "m(?g := (m ?g)(x \<mapsto> k))"
    note P = place_back [OF I(2) b k refl]
    obtain qs hs where g: "group_Push ?g x pl = Some (pl\<lparr>queues := qs, handles := hs\<rparr>)" "queues_rep ?n qs hs"
      by (rule group_Push_rep [of m pl x k ?g]) (use I(1) P(2) k F in simp_all)
    have "pool_inv ?n (w\<lparr>pool := pl\<lparr>queues := qs, handles := hs\<rparr>, phases := (phases w)(v := Idle)\<rparr>)"
      by (rule pool_inv_keep [OF i, where x = x and sq = "sequences (pool w) x"]) (use g P(1) I(3) F in simp_all)
    moreover have "worker_DidRunTask v r (pool w) = Some (pl\<lparr>queues := qs, handles := hs\<rparr>)"
      using Some g(1) gr F(3) unfolding put_back_free pl_def [symmetric] by (simp add: ReEnqueueTaskSource_def)
    ultimately show ?thesis using that by blast
  qed
qed

section \<open>Every reachable pool\<close>

lemma policy_frame:
  "queues (UpdateCanRunPolicy pl) = queues pl" "handles (UpdateCanRunPolicy pl) = handles pl" "sequences (UpdateCanRunPolicy pl) = sequences pl"
  "has_background_group (UpdateCanRunPolicy pl) = has_background_group pl"
  by (simp_all add: UpdateCanRunPolicy_def Let_def)

lemma pool_step_inv:
  assumes "pool_step w w'" "pool_inv m w"
  obtains n where "pool_inv n w'"
  using assms(1)
proof cases
  case (post now t x ok pl)
  then show ?thesis using post_inv [OF assms(2)] that by metis
next
  case (priority x p pl)
  then show ?thesis using priority_inv [OF assms(2), of x p] that by (metis option.inject)
next
  case (fence b)
  then show ?thesis by (intro that [of m] pool_inv_frame [OF assms(2)]) (simp_all add: SetHasFence_def policy_frame)
next
  case (best_effort_fence b)
  then show ?thesis by (intro that [of m] pool_inv_frame [OF assms(2)]) (simp_all add: SetHasBestEffortFence_def policy_frame)
next
  case shutdown
  then show ?thesis by (intro that [of m] pool_inv_frame [OF assms(2)]) (simp_all add: Shutdown_begin_def policy_frame)
next
  case (get_work v can x pl)
  then show ?thesis using get_work_inv [OF assms(2)] that by metis
next
  case (run v x t ok pl)
  then show ?thesis using run_inv [OF assms(2) run(2)] that by (metis option.inject prod.inject)
next
  case (did_run v x t ok again pl)
  then show ?thesis using run_did_inv [OF assms(2) did_run(2,3)] that by metis
next
  case (after_run v x t ok again)
  then show ?thesis using after_run_inv [OF assms(2) after_run(2)] that by metis
next
  case (returned v x again r pl)
  then show ?thesis using returned_inv [OF assms(2) returned(2,3)] that by metis
next
  case (put_back v r pl)
  then show ?thesis using put_back_inv [OF assms(2) put_back(2)] that by (metis option.inject)
qed

lemma start_inv:
  assumes "\<And>x. fresh (sqs x)"
  shows "pool_inv (\<lambda>_. Map.empty) \<lparr>pool = ThreadPool_new sqs groups background limit user_blocking, phases = (\<lambda>_. Idle), accepted = (\<lambda>_. []), begun = (\<lambda>_. [])\<rparr>"
  using assms unfolding pool_inv_def place_inv_def queues_rep_def
  by (simp add: ThreadPool_new_def fresh_def seq_ok_def new_rep)

lemma pool_reachable_inv:
  assumes "pool_reachable w"
  shows "\<exists>m. pool_inv m w"
  using assms
proof induction
  case (start sqs groups background limit user_blocking)
  then show ?case using start_inv by blast
next
  case (step w w')
  then show ?case using pool_step_inv by blast
qed

section \<open>How many workers are busy\<close>

text \<open>The counters of a group are the numbers of its workers that have the flag, and the workers that run
  best-effort work never exceed the limit of the group.\<close>

definition flagged :: "(pool_worker \<Rightarrow> bool) \<Rightarrow> (nat \<Rightarrow> pool_worker) \<Rightarrow> thread_group \<Rightarrow> nat set" where
  "flagged f ws g = {v. worker_group (ws v) = g \<and> f (ws v)}"

type_synonym pool_crew = "(nat \<Rightarrow> pool_worker) \<times> (thread_group \<Rightarrow> nat) \<times> (thread_group \<Rightarrow> nat) \<times> (thread_group \<Rightarrow> nat)"

fun crew_ok :: "(nat \<Rightarrow> phase) \<Rightarrow> pool_crew \<Rightarrow> bool" where
  "crew_ok ph (ws, nr, nb, mx) \<longleftrightarrow> (\<forall>v. is_running_task (ws v) \<longleftrightarrow> ph v \<noteq> Idle) \<and>
     (\<forall>v. is_running_best_effort_task (ws v) \<longrightarrow> is_running_task (ws v)) \<and>
     (\<forall>g. finite (flagged is_running_task ws g) \<and> nr g = card (flagged is_running_task ws g) \<and>
          nb g = card (flagged is_running_best_effort_task ws g) \<and> nb g \<le> mx g)"

definition crew :: "thread_pool \<Rightarrow> pool_crew" where
  "crew pl = (workers pl, num_running_tasks pl, num_running_best_effort_tasks pl, max_best_effort_tasks pl)"

definition crew_inv :: "pool_world \<Rightarrow> bool" where
  "crew_inv w \<longleftrightarrow> crew_ok (phases w) (crew (pool w))"

lemma crew_on_queue: "crew (on_queue g f pl) = crew pl"
  by (simp add: on_queue_def crew_def split: prod.split)

lemma crew_group_Push: "group_Push g x pl = Some pl' \<Longrightarrow> crew pl' = crew pl"
  by (auto simp: group_Push_def crew_on_queue)

lemma crew_post: "PostTaskWithSequenceNow now t x pl = Some (ok, pl') \<Longrightarrow> crew pl' = crew pl"
  by (cases rule: PostNow_cases, assumption) (use crew_group_Push in \<open>auto simp: crew_def\<close>)

lemma crew_priority: "pool_UpdatePriority x p pl = Some pl' \<Longrightarrow> crew pl' = crew pl"
  unfolding pool_UpdatePriority_def Let_def group_UpdateSortKey_def group_RemoveTaskSource_def
  by (auto split: if_splits option.splits prod.splits dest!: crew_group_Push simp: crew_on_queue) (simp_all add: crew_def)

lemma crew_policy: "crew (SetHasFence b pl) = crew pl" "crew (SetHasBestEffortFence b pl) = crew pl" "crew (Shutdown_begin pl) = crew pl"
  by (simp_all add: SetHasFence_def SetHasBestEffortFence_def Shutdown_begin_def UpdateCanRunPolicy_def crew_def)

lemma crew_run:
  "run_begin x pl = Some (t, ok, pl') \<Longrightarrow> crew pl' = crew pl" "run_did x pl = (again, pl') \<Longrightarrow> crew pl' = crew pl"
  "crew (run_after x t ok pl) = crew pl" "run_return x again pl = (r, pl') \<Longrightarrow> crew pl' = crew pl"
  by (auto simp: run_begin_def run_did_def run_after_def run_return_def crew_def Let_def split: option.splits prod.splits if_splits)

lemma crew_okD:
  assumes "crew_ok ph (ws, nr, nb, mx)"
  shows "is_running_task (ws v) \<longleftrightarrow> ph v \<noteq> Idle" "is_running_best_effort_task (ws v) \<Longrightarrow> is_running_task (ws v)"
    "finite (flagged is_running_task ws g)" "nr g = card (flagged is_running_task ws g)"
    "nb g = card (flagged is_running_best_effort_task ws g)" "nb g \<le> mx g" "finite (flagged is_running_best_effort_task ws g)"
proof -
  have "flagged is_running_best_effort_task ws g \<subseteq> flagged is_running_task ws g" using assms by (auto simp: flagged_def)
  moreover show "finite (flagged is_running_task ws g)" using assms by simp
  ultimately show "finite (flagged is_running_best_effort_task ws g)" by (rule finite_subset)
qed (use assms [unfolded crew_ok.simps] in blast)+

lemma crew_frame:
  assumes "crew_inv w" "crew (pool w') = crew (pool w)" "\<And>v. phases w' v = Idle \<longleftrightarrow> phases w v = Idle"
  shows "crew_inv w'"
proof -
  obtain ws nr nb mx where c: "crew (pool w) = (ws, nr, nb, mx)" by (metis prod.collapse)
  show ?thesis using assms(1) unfolding crew_inv_def assms(2) c crew_ok.simps assms(3) .
qed

lemma flagged_add: "worker_group b = worker_group (ws v) \<Longrightarrow> \<not> f (ws v) \<Longrightarrow> flagged f (ws(v := b)) g =
    (if g = worker_group (ws v) \<and> f b then insert v (flagged f ws g) else flagged f ws g)"
  by (auto simp: flagged_def)

lemma flagged_drop: "worker_group b = worker_group (ws v) \<Longrightarrow> \<not> f b \<Longrightarrow> flagged f (ws(v := b)) g = flagged f ws g - {v}"
  by (auto simp: flagged_def)

lemma crew_ok_busy:
  assumes c: "crew_ok ph (ws, nr, nb, mx)" and v: "ph v = Idle" "a \<noteq> Idle" "g = worker_group (ws v)" and b: "b \<Longrightarrow> nb g < mx g"
  shows "crew_ok (ph(v := a)) (ws(v := \<lparr>worker_group = g, is_running_task = True, is_running_best_effort_task = b\<rparr>),
    nr(g := nr g + 1), nb(g := nb g + of_bool b), mx)"
proof -
  note C = crew_okD [OF c]
  let ?b = "\<lparr>worker_group = g, is_running_task = True, is_running_best_effort_task = b\<rparr>"
  have n: "\<not> is_running_task (ws v)" "\<not> is_running_best_effort_task (ws v)" using C(1,2) [of v] v by auto
  have "flagged is_running_task (ws(v := ?b)) h = (if h = g then insert v (flagged is_running_task ws h) else flagged is_running_task ws h)"
    "flagged is_running_best_effort_task (ws(v := ?b)) h =
      (if h = g \<and> b then insert v (flagged is_running_best_effort_task ws h) else flagged is_running_best_effort_task ws h)"
    "v \<notin> flagged is_running_task ws h" "v \<notin> flagged is_running_best_effort_task ws h" for h
    using n v(3) by (simp_all add: flagged_add) (simp_all add: flagged_def)
  then show ?thesis using C b v by (auto simp: Suc_le_eq)
qed

lemma crew_ok_free:
  assumes c: "crew_ok ph (ws, nr, nb, mx)" and v: "ph v \<noteq> Idle" "g = worker_group (ws v)"
  shows "crew_ok (ph(v := Idle)) (ws(v := \<lparr>worker_group = g, is_running_task = False, is_running_best_effort_task = False\<rparr>),
    nr(g := nr g - 1), nb(g := nb g - of_bool (is_running_best_effort_task (ws v))), mx)"
proof -
  note C = crew_okD [OF c]
  let ?b = "\<lparr>worker_group = g, is_running_task = False, is_running_best_effort_task = False\<rparr>"
  have "flagged is_running_task (ws(v := ?b)) h = flagged is_running_task ws h - {v}"
    "flagged is_running_best_effort_task (ws(v := ?b)) h = flagged is_running_best_effort_task ws h - {v}"
    "v \<in> flagged is_running_task ws h \<longleftrightarrow> h = g"
    "v \<in> flagged is_running_best_effort_task ws h \<longleftrightarrow> h = g \<and> is_running_best_effort_task (ws v)" for h
    using v C(1) [of v] by (auto simp: flagged_drop) (auto simp: flagged_def)
  then show ?thesis using C v by (auto simp: card_Diff_singleton_if intro: le_trans [OF diff_le_self])
qed

lemma crew_get_work:
  assumes i: "crew_inv w" and v: "phases w v = Idle" and s: "GetWork can v (pool w) = (Some x, pl)"
  shows "crew_inv (w\<lparr>pool := pl, phases := (phases w)(v := Has x)\<rparr>)"
proof -
  let ?pl = "pool w" let ?g = "worker_group (workers ?pl v)"
  define b where "b \<longleftrightarrow> key_priority (PeekSortKey (queues ?pl ?g)) = BEST_EFFORT"
  have c: "crew_ok (phases w) (workers ?pl, num_running_tasks ?pl, num_running_best_effort_tasks ?pl, max_best_effort_tasks ?pl)"
    using i unfolding crew_inv_def crew_def .
  have n: "\<not> is_running_best_effort_task (workers ?pl v)" using crew_okD(1,2) [OF c, of v] v by blast
  have "b \<Longrightarrow> num_running_best_effort_tasks ?pl ?g < max_best_effort_tasks ?pl ?g"
    "workers pl = (workers ?pl)(v := \<lparr>worker_group = ?g, is_running_task = True, is_running_best_effort_task = b\<rparr>)"
    "num_running_tasks pl = (num_running_tasks ?pl)(?g := num_running_tasks ?pl ?g + 1)"
    "num_running_best_effort_tasks pl = (num_running_best_effort_tasks ?pl)(?g := num_running_best_effort_tasks ?pl ?g + of_bool b)"
    "max_best_effort_tasks pl = max_best_effort_tasks ?pl"
    using s n unfolding GetWork_def Let_def b_def
    by (cases "workers ?pl v", force split: if_splits prod.splits)+
  then show ?thesis using crew_ok_busy [OF c v _ refl, of "Has x" b] by (simp add: crew_inv_def crew_def del: crew_ok.simps)
qed

lemma crew_put_back:
  assumes i: "crew_inv w" and v: "phases w v = Back r" and s: "worker_DidRunTask v r (pool w) = Some pl"
  shows "crew_inv (w\<lparr>pool := pl, phases := (phases w)(v := Idle)\<rparr>)"
proof -
  let ?pl = "pool w"
  have c: "crew_ok (phases w) (workers ?pl, num_running_tasks ?pl, num_running_best_effort_tasks ?pl, max_best_effort_tasks ?pl)"
    using i unfolding crew_inv_def crew_def .
  have "crew pl = crew (worker_free v ?pl)"
    using s by (auto simp: put_back_free ReEnqueueTaskSource_def split: option.splits dest: crew_group_Push)
  then show ?thesis using crew_ok_free [OF c _ refl, of v] v by (simp add: crew_inv_def crew_def worker_free_def Let_def del: crew_ok.simps)
qed

lemma crew_step: "pool_step w w' \<Longrightarrow> crew_inv w \<Longrightarrow> crew_inv w'"
proof (induction rule: pool_step.induct)
  case (run w v x t ok pl)
  show ?case by (rule crew_frame [OF run(3)]) (use run crew_run(1) in auto)
next
  case (did_run w v x t ok again pl)
  show ?case by (rule crew_frame [OF did_run(3)]) (use did_run crew_run(2) in auto)
next
  case (after_run w v x t ok again)
  show ?case by (rule crew_frame [OF after_run(2)]) (use after_run crew_run(3) in auto)
next
  case (returned w v x again r pl)
  show ?case by (rule crew_frame [OF returned(3)]) (use returned crew_run(4) in auto)
next
  case (get_work w v can x pl)
  then show ?case by (intro crew_get_work)
next
  case (put_back w v r pl)
  then show ?case by (intro crew_put_back)
qed (auto elim!: crew_frame dest: crew_post crew_priority simp: crew_policy)

lemma pool_reachable_crew:
  assumes "pool_reachable w"
  shows "crew_inv w"
  using assms
proof induction
  case (start sqs groups background limit user_blocking)
  then show ?case by (simp add: crew_inv_def crew_def ThreadPool_new_def flagged_def)
next
  case (step w w')
  then show ?case using crew_step by blast
qed

section \<open>What a worker is given\<close>

lemma queue_entries:
  assumes "pool_inv m w"
  shows "(Some x, k) \<in> heap_elems (container (queues (pool w) g)) \<longleftrightarrow> m g x = Some k"
  using heap_repD(2) [OF pq_repD(1) [OF queues_repD(1) [OF pool_invD(1) [OF assms]]]] by simp

lemma group_front:
  assumes i: "pool_inv m w" and ne: "\<not> pq_IsEmpty (queues (pool w) g)"
  obtains x k q hs where "PopTaskSource (queues (pool w) g, handles (pool w)) = (Some x, q, hs)" "m g x = Some k"
    "PeekSortKey (queues (pool w) g) = k" "\<forall>y l. m g y = Some l \<longrightarrow> sort_key_le k l"
proof (rule group_Pop_rep [OF pool_invD(1) [OF i] ne])
  fix x k q hs
  assume a: "PopTaskSource (queues (pool w) g, handles (pool w)) = (Some x, q, hs)" "m g x = Some k"
    "PeekSortKey (queues (pool w) g) = k" and l: "\<And>y l. m g y = Some l \<Longrightarrow> sort_key_le k l"
  have "\<forall>y l. m g y = Some l \<longrightarrow> sort_key_le k l" using l by simp
  then show thesis by (rule that [OF a])
qed

lemma GetWork_gives:
  assumes i: "pool_inv m w" and g: "g = worker_group (workers (pool w) v)" and s: "GetWork True v (pool w) = (Some x, pl)"
  obtains k where "m g x = Some k" "CanRunPriority (key_priority k) (tracker (pool w))" "\<forall>y l. m g y = Some l \<longrightarrow> sort_key_le k l"
proof -
  have c: "\<not> pq_IsEmpty (queues (pool w) g)" "CanRunPriority (key_priority (PeekSortKey (queues (pool w) g))) (tracker (pool w))"
    "fst (PopTaskSource (queues (pool w) g, handles (pool w))) = Some x"
    using s unfolding GetWork_def Let_def g by (auto split: if_splits prod.splits)
  obtain y k q hs where "PopTaskSource (queues (pool w) g, handles (pool w)) = (Some y, q, hs)" "m g y = Some k"
    "PeekSortKey (queues (pool w) g) = k" "\<forall>y l. m g y = Some l \<longrightarrow> sort_key_le k l"
    by (rule group_front [OF i c(1)])
  then show ?thesis using that c(2,3) by simp
qed

text \<open>A worker is sent away only when nothing is queued, the policy forbids the front or the limit of
  best-effort work is reached.\<close>

lemma GetWork_refuses:
  assumes i: "pool_inv m w" and g: "g = worker_group (workers (pool w) v)" and s: "fst (GetWork True v (pool w)) = None" and x: "m g x = Some k"
  shows "\<exists>y l. m g y = Some l \<and> (\<forall>z l'. m g z = Some l' \<longrightarrow> sort_key_le l l') \<and> (\<not> CanRunPriority (key_priority l) (tracker (pool w)) \<or>
    key_priority l = BEST_EFFORT \<and> max_best_effort_tasks (pool w) g \<le> num_running_best_effort_tasks (pool w) g)"
proof -
  have ne: "\<not> pq_IsEmpty (queues (pool w) g)" using pq_repD(4) [OF queues_repD(1) [OF pool_invD(1) [OF i]]] x by auto
  obtain y l q hs where p: "PopTaskSource (queues (pool w) g, handles (pool w)) = (Some y, q, hs)" "m g y = Some l"
    "PeekSortKey (queues (pool w) g) = l" "\<forall>z l'. m g z = Some l' \<longrightarrow> sort_key_le l l'"
    by (rule group_front [OF i ne])
  then have "\<not> CanRunPriority (key_priority l) (tracker (pool w)) \<or>
      key_priority l = BEST_EFFORT \<and> max_best_effort_tasks (pool w) g \<le> num_running_best_effort_tasks (pool w) g"
    using s ne unfolding GetWork_def Let_def g by (auto split: if_splits prod.splits)
  then show ?thesis using p(2,4) by blast
qed

lemma queue_counts:
  assumes "pool_inv m w"
  shows "GetNumTaskSourcesWithPriority p (queues (pool w) g) = of_nat (card {x. \<exists>k. m g x = Some k \<and> key_priority k = p})"
  using pq_repD(3) [OF queues_repD(1) [OF pool_invD(1) [OF assms]]] by (simp add: GetNumTaskSourcesWithPriority_def of_priority_def)

end
