(* ===== verification/Pool_Shutdown.thy ===== *)
theory Pool_Shutdown
  imports Pool_Steps
begin

text \<open>
  The tracker inside the pool: what each of its calls does to the word of the state and to the event, and
  that its number of incomplete sources counts the sequences that \<open>Pool_Steps\<close> says are enrolled and the
  workers that have still to end a registration.
\<close>

section \<open>The calls of the tracker\<close>

lemma flag_odd: "bits AND kShutdownHasStartedMask \<noteq> 0 \<longleftrightarrow> odd bits"
  by (simp add: kShutdownHasStartedMask_def and_one_eq odd_iff_mod_2_eq_one)

lemma increment_even: "kNumItemsBlockingShutdownIncrement = 2"
  by (simp add: kNumItemsBlockingShutdownIncrement_def kNumItemsBlockingShutdownBitOffset_def)

lemma State_flag:
  "State_Increment bits = (State_HasShutdownStarted bits, bits + kNumItemsBlockingShutdownIncrement)"
  "State_Decrement bits = (State_HasShutdownStarted bits \<and> num_items_blocking_shutdown (bits - kNumItemsBlockingShutdownIncrement) = 0,
     bits - kNumItemsBlockingShutdownIncrement)"
  "State_HasShutdownStarted (bits + kNumItemsBlockingShutdownIncrement) = State_HasShutdownStarted bits"
  "State_HasShutdownStarted (bits - kNumItemsBlockingShutdownIncrement) = State_HasShutdownStarted bits"
  by (simp_all add: State_Increment_def State_Decrement_def State_HasShutdownStarted_def flag_odd increment_even Let_def)

text \<open>The event after a decrement that leaves the given word.\<close>

definition event_after :: "u32 \<Rightarrow> bool option \<Rightarrow> bool option" where
  "event_after bits e =
     (if State_HasShutdownStarted bits \<and> num_items_blocking_shutdown bits = 0 then map_option (\<lambda>_. True) e else e)"

lemma Decrement_effect:
  "DecrementNumItemsBlockingShutdown t = t\<lparr>tracker_bits := tracker_bits t - kNumItemsBlockingShutdownIncrement,
     shutdown_event := event_after (tracker_bits t - kNumItemsBlockingShutdownIncrement) (shutdown_event t)\<rparr>"
  by (simp add: DecrementNumItemsBlockingShutdown_def State_flag signal_def event_after_def Let_def)

text \<open>A source is accepted before shutdown, and afterwards only if it blocks shutdown and the event is
  not signaled; a refused source leaves no trace.\<close>

lemma WillQueue_effect:
  "WillQueueTaskSource b t = (let a = (\<not> HasShutdownStarted t \<or> b = BLOCK_SHUTDOWN \<and> \<not> IsShutdownComplete t) in
     (a, t\<lparr>tracker_bits := tracker_bits t + (if a \<and> b = BLOCK_SHUTDOWN then kNumItemsBlockingShutdownIncrement else 0),
           num_incomplete_task_sources := num_incomplete_task_sources t + of_bool a\<rparr>))"
  by (auto simp: WillQueueTaskSource_def BeforeQueueTaskSource_def State_flag Let_def HasShutdownStarted_def IsShutdownComplete_def)

text \<open>A task that blocks shutdown always runs, any other only before shutdown.\<close>

lemma BeforeRun_effect:
  "BeforeRunTask e t = (let a = (\<not> HasShutdownStarted t \<or> e = BLOCK_SHUTDOWN) in
     (a, t\<lparr>tracker_bits := tracker_bits t + (if a \<and> e = SKIP_ON_SHUTDOWN then kNumItemsBlockingShutdownIncrement else 0),
           shutdown_event := (if \<not> a \<and> e = SKIP_ON_SHUTDOWN then event_after (tracker_bits t) else id) (shutdown_event t)\<rparr>))"
  by (cases e) (auto simp: BeforeRunTask_def State_flag Decrement_effect Let_def HasShutdownStarted_def)

lemma BeforeRun_count:
  "num_incomplete_task_sources (snd (BeforeRunTask e t)) = num_incomplete_task_sources t"
  "HasShutdownStarted (snd (BeforeRunTask e t)) = HasShutdownStarted t"
  by (simp_all add: BeforeRun_effect HasShutdownStarted_def State_flag Let_def)

lemma Unregister_effect:
  "num_incomplete_task_sources (UnregisterTaskSource b t) = num_incomplete_task_sources t - 1"
  "tracker_bits (UnregisterTaskSource b t) = tracker_bits t - (if b = BLOCK_SHUTDOWN then kNumItemsBlockingShutdownIncrement else 0)"
  "shutdown_event (UnregisterTaskSource b t) = (if b = BLOCK_SHUTDOWN
     then event_after (tracker_bits t - kNumItemsBlockingShutdownIncrement) else id) (shutdown_event t)"
  by (simp_all add: UnregisterTaskSource_def DecrementNumIncompleteTaskSources_def CallFlushCallbackForTesting_def Decrement_effect Let_def)

lemma AfterRun_effect:
  "tracker_bits (AfterRunTask e t) = tracker_bits t - (if e = SKIP_ON_SHUTDOWN then kNumItemsBlockingShutdownIncrement else 0)"
  "shutdown_event (AfterRunTask e t) = (if e = SKIP_ON_SHUTDOWN
     then event_after (tracker_bits t - kNumItemsBlockingShutdownIncrement) else id) (shutdown_event t)"
  "num_incomplete_task_sources (AfterRunTask e t) = num_incomplete_task_sources t"
  by (simp_all add: AfterRunTask_def Decrement_effect)

section \<open>Posting and running around shutdown\<close>

lemma group_Push_frame: "group_Push g x pl = Some pl' \<Longrightarrow> tracker pl' = tracker pl \<and> sequences pl' = sequences pl"
  by (auto simp: group_Push_def on_queue_def split: prod.split)

lemma post_tracker:
  assumes "PostTaskWithSequenceNow now t x pl = Some (ok, pl')" "b = seq_shutdown_behavior (sequences pl x)"
  shows "ok \<longleftrightarrow> \<not> WillPushTask (sequences pl x) \<or> \<not> HasShutdownStarted (tracker pl) \<or> b = BLOCK_SHUTDOWN \<and> \<not> IsShutdownComplete (tracker pl)"
    "tracker pl' = (tracker pl)\<lparr>
       tracker_bits := tracker_bits (tracker pl) +
         (if ok \<and> WillPushTask (sequences pl x) \<and> b = BLOCK_SHUTDOWN then kNumItemsBlockingShutdownIncrement else 0),
       num_incomplete_task_sources := num_incomplete_task_sources (tracker pl) + of_bool (ok \<and> WillPushTask (sequences pl x))\<rparr>"
    "\<exists>u. seq_queue (sequences pl' x) = seq_queue (sequences pl x) @ (if ok then [u] else []) \<and> pool_closure u = pool_closure t"
proof -
  have "(ok \<longleftrightarrow> \<not> WillPushTask (sequences pl x) \<or> \<not> HasShutdownStarted (tracker pl) \<or> b = BLOCK_SHUTDOWN \<and> \<not> IsShutdownComplete (tracker pl)) \<and>
    tracker pl' = (tracker pl)\<lparr>
       tracker_bits := tracker_bits (tracker pl) +
         (if ok \<and> WillPushTask (sequences pl x) \<and> b = BLOCK_SHUTDOWN then kNumItemsBlockingShutdownIncrement else 0),
       num_incomplete_task_sources := num_incomplete_task_sources (tracker pl) + of_bool (ok \<and> WillPushTask (sequences pl x))\<rparr> \<and>
    (\<exists>u. seq_queue (sequences pl' x) = seq_queue (sequences pl x) @ (if ok then [u] else []) \<and> pool_closure u = pool_closure t)"
    using assms(1)
  proof (cases rule: PostNow_cases)
    case (refused tr)
    then show ?thesis unfolding WillQueue_effect assms(2) [symmetric] by (auto simp: Let_def)
  next
    case (first tr sq)
    obtain u where "seq_queue sq = seq_queue (sequences pl x) @ [u]" "pool_closure u = pool_closure t" by (rule pushed_sequence [OF first(4)])
    then show ?thesis using group_Push_frame [OF first(5)] first(1-3) unfolding WillQueue_effect assms(2) [symmetric] by (auto simp: Let_def)
  next
    case (later sq)
    obtain u where "seq_queue sq = seq_queue (sequences pl x) @ [u]" "pool_closure u = pool_closure t" by (rule pushed_sequence [OF later(3)])
    then show ?thesis using later by auto
  qed
  then show "ok \<longleftrightarrow> \<not> WillPushTask (sequences pl x) \<or> \<not> HasShutdownStarted (tracker pl) \<or> b = BLOCK_SHUTDOWN \<and> \<not> IsShutdownComplete (tracker pl)"
    "tracker pl' = (tracker pl)\<lparr>
       tracker_bits := tracker_bits (tracker pl) +
         (if ok \<and> WillPushTask (sequences pl x) \<and> b = BLOCK_SHUTDOWN then kNumItemsBlockingShutdownIncrement else 0),
       num_incomplete_task_sources := num_incomplete_task_sources (tracker pl) + of_bool (ok \<and> WillPushTask (sequences pl x))\<rparr>"
    "\<exists>u. seq_queue (sequences pl' x) = seq_queue (sequences pl x) @ (if ok then [u] else []) \<and> pool_closure u = pool_closure t"
    by blast+
qed

lemma post_refused: "PostTaskWithSequenceNow now t x pl = Some (ok, pl') \<Longrightarrow> \<not> ok \<Longrightarrow> pl' = pl"
  by (cases rule: PostNow_cases, assumption) (auto simp: WillQueue_effect Let_def)

text \<open>A post that has a closure gets an answer.\<close>

lemma post_answers:
  assumes "pool_closure t \<noteq> None"
  shows "\<exists>ok pl'. PostTaskWithSequenceNow now t x pl = Some (ok, pl')"
proof -
  obtain sq where p: "PushTask now t (sequences pl x) = Some sq" using assms by (simp add: PushTask_def Let_def)
  obtain k where "GetSortKey sq = Some k"
    using pushed_sequence [OF p] by (metis sort_key_front append_is_Nil_conv list.exhaust not_Cons_self2)
  then have "group_Push g x (pl\<lparr>tracker := tr, sequences := (sequences pl)(x := sq)\<rparr>) \<noteq> None" for g tr by (simp add: group_Push_def)
  then show ?thesis using p by (auto simp: PostTaskWithSequenceNow_def WillQueue_effect Let_def)
qed

lemma run_tracker:
  assumes "run_begin x pl = Some (t, ok, pl')"
    "e = GetEffectiveShutdownBehavior (seq_shutdown_behavior (sequences pl x)) (pool_delayed_run_time t \<noteq> 0)"
  shows "BeforeRunTask e (tracker pl) = (ok, tracker pl')"
    "\<exists>ts. seq_queue (sequences pl x) = t # ts \<and> sequences pl' = (sequences pl)(x := (sequences pl x)\<lparr>has_worker := True, seq_queue := ts\<rparr>)"
proof -
  obtain ts where q: "seq_queue (sequences pl x) = t # ts" using assms(1)
    by (auto simp: run_begin_def seq_TakeTask_def Let_def split: list.splits prod.splits)
  show "BeforeRunTask e (tracker pl) = (ok, tracker pl')"
    "\<exists>ts. seq_queue (sequences pl x) = t # ts \<and> sequences pl' = (sequences pl)(x := (sequences pl x)\<lparr>has_worker := True, seq_queue := ts\<rparr>)"
    using assms(1) q unfolding assms(2)
    by (auto simp: run_begin_def seq_TakeTask_def Let_def simp del: GetEffectiveShutdownBehavior.simps split: prod.splits)
qed

lemma run_after_frame:
  "sequences (run_after x t ok pl) = sequences pl"
  "num_incomplete_task_sources (tracker (run_after x t ok pl)) = num_incomplete_task_sources (tracker pl)"
  by (simp_all add: run_after_def Let_def AfterRun_effect IncrementNumTasksRun_def)

lemma BeforeRun_reads:
  assumes "BeforeRunTask e t = (ok, t')"
  shows "ok \<longleftrightarrow> \<not> HasShutdownStarted t \<or> e = BLOCK_SHUTDOWN"
    "tracker_bits t' = tracker_bits t + (if ok \<and> e = SKIP_ON_SHUTDOWN then kNumItemsBlockingShutdownIncrement else 0)"
    "shutdown_event t' = (if \<not> ok \<and> e = SKIP_ON_SHUTDOWN then event_after (tracker_bits t) else id) (shutdown_event t)"
  using assms by (auto simp: BeforeRun_effect Let_def)

lemma run_after_effect:
  fixes t :: pool_task
  defines "e \<equiv> \<lambda>x t pl. GetEffectiveShutdownBehavior (seq_shutdown_behavior (sequences pl x)) (pool_delayed_run_time t \<noteq> 0)"
  shows "run_after x t False pl = pl"
    "tracker_bits (tracker (run_after x t True pl)) =
       tracker_bits (tracker pl) - (if e x t pl = SKIP_ON_SHUTDOWN then kNumItemsBlockingShutdownIncrement else 0)"
    "shutdown_event (tracker (run_after x t True pl)) = (if e x t pl = SKIP_ON_SHUTDOWN
       then event_after (tracker_bits (tracker pl) - kNumItemsBlockingShutdownIncrement) else id) (shutdown_event (tracker pl))"
  by (simp_all add: run_after_def Let_def AfterRun_effect IncrementNumTasksRun_def e_def)

section \<open>The number of incomplete sources\<close>

definition needed :: "pool_sequence \<Rightarrow> bool" where
  "needed sq \<longleftrightarrow> seq_queue sq \<noteq> [] \<or> has_worker sq"

lemma enrolled_iff: "x \<in> enrolled sqs \<longleftrightarrow> needed (sqs x)"
  by (simp add: enrolled_def needed_def)

lemma enrolled_update: "enrolled (sqs(x := sq)) = (if needed sq then insert x (enrolled sqs) else enrolled sqs - {x})"
  by (auto simp: enrolled_def needed_def split: if_splits)

lemma leaving_update: "leaving (ph(v := f)) = (if leaves f then insert v (leaving ph) else leaving ph - {v})"
  by (auto simp: leaving_def)

definition count_ok :: "task_tracker \<Rightarrow> (nat \<Rightarrow> pool_sequence) \<Rightarrow> (nat \<Rightarrow> phase) \<Rightarrow> bool" where
  "count_ok tr sqs ph \<longleftrightarrow> finite (enrolled sqs) \<and> finite (leaving ph) \<and>
     num_incomplete_task_sources tr = of_nat (card (enrolled sqs) + card (leaving ph))"

definition count_inv :: "pool_world \<Rightarrow> bool" where
  "count_inv w \<longleftrightarrow> count_ok (tracker (pool w)) (sequences (pool w)) (phases w)"

lemma count_okD:
  assumes "count_ok tr sqs ph"
  shows "finite (enrolled sqs)" "finite (leaving ph)" "num_incomplete_task_sources tr = of_nat (card (enrolled sqs) + card (leaving ph))"
  using assms by (simp_all add: count_ok_def)

lemma count_phase:
  assumes "count_ok tr sqs ph" "leaves f = leaves (ph v)"
  shows "count_ok tr sqs (ph(v := f))"
proof -
  have "leaving (ph(v := f)) = leaving ph" using assms(2) by (auto simp: leaving_def)
  then show ?thesis using assms(1) by (simp add: count_ok_def)
qed

lemma count_same:
  assumes "count_ok tr sqs ph" "needed sq = needed (sqs x)" "num_incomplete_task_sources tr' = num_incomplete_task_sources tr"
  shows "count_ok tr' (sqs(x := sq)) ph"
proof -
  have "enrolled (sqs(x := sq)) = enrolled sqs" using assms(2) by (auto simp: enrolled_update enrolled_iff)
  then show ?thesis using assms(1,3) by (simp add: count_ok_def)
qed

lemma count_first:
  assumes "count_ok tr sqs ph" "\<not> needed (sqs x)" "needed sq" "num_incomplete_task_sources tr' = num_incomplete_task_sources tr + 1"
  shows "count_ok tr' (sqs(x := sq)) ph"
proof -
  have "x \<notin> enrolled sqs" using assms(2) by (simp add: enrolled_iff)
  then show ?thesis using assms(1,3,4) by (simp add: count_ok_def enrolled_update)
qed

text \<open>The sequence is given up by \<open>DidRunTask\<close>, its registration when the worker returns.\<close>

lemma count_did:
  assumes k: "count_ok tr sqs ph" and n: "needed (sqs x)" "\<not> needed sq" and v: "\<not> leaves (ph v)" "leaves f"
  shows "count_ok tr (sqs(x := sq)) (ph(v := f))"
proof -
  note K = count_okD [OF k]
  have "v \<notin> leaving ph" using v(1) by (simp add: leaving_def)
  moreover have "card (enrolled sqs) = Suc (card (enrolled sqs - {x}))" using card.remove [OF K(1), of x] n(1) by (simp add: enrolled_iff)
  ultimately show ?thesis using K n v(2) by (simp add: count_ok_def enrolled_update leaving_update)
qed

lemma count_unregister:
  assumes k: "count_ok tr sqs ph" and v: "leaves (ph v)" "\<not> leaves f"
  shows "count_ok (UnregisterTaskSource b tr) sqs (ph(v := f))"
proof -
  note K = count_okD [OF k]
  have "card (leaving ph) = Suc (card (leaving ph - {v}))" using card.remove [OF K(2), of v] v(1) by (simp add: leaving_def)
  then show ?thesis using K v(2) by (simp add: count_ok_def leaving_update Unregister_effect)
qed

section \<open>Every step of the pool\<close>

lemma pushed_needed: "PushTask now t sq = Some sq' \<Longrightarrow> needed sq' \<and> seq_shutdown_behavior sq' = seq_shutdown_behavior sq"
  by (auto simp: PushTask_def needed_def Let_def split: if_splits)

lemma WillPush_needed: "WillPushTask sq \<longleftrightarrow> \<not> needed sq"
  by (auto simp: WillPushTask_def needed_def)

lemma count_post:
  assumes k: "count_ok (tracker pl) (sequences pl) ph" and s: "PostTaskWithSequenceNow now t x pl = Some (ok, pl')"
  shows "count_ok (tracker pl') (sequences pl') ph"
proof -
  note T = post_tracker(2) [OF s refl]
  from s show ?thesis
  proof (cases rule: PostNow_cases)
    case (refused tr)
    then have "num_incomplete_task_sources (tracker pl') = num_incomplete_task_sources (tracker pl)" using T by simp
    then show ?thesis using k refused(2) by (simp add: count_ok_def)
  next
    case (first tr sq)
    have "num_incomplete_task_sources (tracker pl') = num_incomplete_task_sources (tracker pl) + 1" using T first(1,2) by simp
    then show ?thesis using count_first [OF k, of x sq "tracker pl'"] pushed_needed [OF first(4)] first(2) group_Push_frame [OF first(5)]
      by (simp add: WillPush_needed)
  next
    case (later sq)
    then show ?thesis using count_same [OF k, of sq x "tracker pl"] pushed_needed [OF later(3)] by (simp add: WillPush_needed)
  qed
qed

lemma group_frames:
  "tracker (group_UpdateSortKey g x pl) = tracker pl" "sequences (group_UpdateSortKey g x pl) = sequences pl"
  "group_RemoveTaskSource g x pl = (r, pl') \<Longrightarrow> tracker pl' = tracker pl \<and> sequences pl' = sequences pl"
  by (auto simp: group_UpdateSortKey_def group_RemoveTaskSource_def on_queue_def split: prod.splits option.split)

lemma priority_frame:
  assumes "pool_UpdatePriority x p pl = Some pl'"
  obtains sq where "tracker pl' = tracker pl" "sequences pl' = (sequences pl)(x := sq)"
    "seq_shutdown_behavior sq = seq_shutdown_behavior (sequences pl x)" "needed sq = needed (sequences pl x)"
proof (cases "seq_priority (sequences pl x) = p")
  case True
  then show ?thesis using assms that [of "sequences pl x"] by (simp add: pool_UpdatePriority_def)
next
  case False
  define sq where "sq = seq_UpdatePriority (all_tasks_user_blocking pl) p (sequences pl x)"
  have "tracker pl' = tracker pl \<and> sequences pl' = (sequences pl)(x := sq)"
    using assms False unfolding pool_UpdatePriority_def sq_def [symmetric]
    by (auto simp: Let_def group_frames(1,2) split: if_splits prod.splits option.splits dest!: group_Push_frame group_frames(3))
  then show ?thesis using that [of sq] by (auto simp: sq_def seq_UpdatePriority_def needed_def)
qed

lemma policy_count: "count_ok (tracker (UpdateCanRunPolicy pl)) sqs ph = count_ok (tracker pl) sqs ph"
  "count_ok (tracker_StartShutdown tr) sqs ph = count_ok tr sqs ph"
  by (simp_all add: UpdateCanRunPolicy_def SetCanRunPolicy_def tracker_StartShutdown_def Let_def count_ok_def split: prod.split)

lemma get_work_frame: "GetWork can v pl = (r, pl') \<Longrightarrow> tracker pl' = tracker pl \<and> sequences pl' = sequences pl"
  unfolding GetWork_def Let_def by (auto split: if_splits prod.splits)

lemma put_back_frame: "worker_DidRunTask v r pl = Some pl' \<Longrightarrow> tracker pl' = tracker pl \<and> sequences pl' = sequences pl"
  by (auto simp: put_back_free ReEnqueueTaskSource_def worker_free_def Let_def split: option.splits dest!: group_Push_frame)

lemma count_step:
  assumes "pool_step w w'" and i: "pool_inv m w" and k: "count_inv w"
  shows "count_inv w'"
proof -
  note P = place_invD [OF pool_invD(2) [OF i]]
  note K = k [unfolded count_inv_def]
  show ?thesis
    using assms(1)
  proof cases
    case (post now t x ok pl)
    then show ?thesis using count_post [OF K] by (simp add: count_inv_def)
  next
    case (priority x p pl)
    then show ?thesis using count_same [OF K] by (elim priority_frame) (simp add: count_inv_def)
  next
    case (fence b)
    then show ?thesis using K by (simp add: count_inv_def SetHasFence_def policy_count policy_frame)
  next
    case (best_effort_fence b)
    then show ?thesis using K by (simp add: count_inv_def SetHasBestEffortFence_def policy_count policy_frame)
  next
    case shutdown
    then show ?thesis using K by (simp add: count_inv_def Shutdown_begin_def policy_count policy_frame)
  next
    case (get_work v can x pl)
    then show ?thesis using get_work_frame [OF get_work(3)] count_phase [OF K, of "Has x" v] by (simp add: count_inv_def)
  next
    case (run v x t ok pl)
    note R = run_tracker [OF run(3) refl]
    have "num_incomplete_task_sources (tracker pl) = num_incomplete_task_sources (tracker (pool w))"
      using R(1) BeforeRun_count(1) snd_conv by metis
    moreover obtain ts where "sequences pl = (sequences (pool w))(x := (sequences (pool w) x)\<lparr>has_worker := True, seq_queue := ts\<rparr>)"
      using R(2) by blast
    moreover have "needed (sequences (pool w) x)" using P(7) [of v x] run(2) by (simp add: needed_def)
    ultimately show ?thesis using count_same [OF count_phase [OF K, of "Runs x t ok" v]] run(1,2) by (simp add: count_inv_def needed_def)
  next
    case (did_run v x t ok again pl)
    obtain sq where d: "seq_DidRunTask (sequences (pool w) x) = (again, sq)" "tracker pl = tracker (pool w)"
      "sequences pl = (sequences (pool w))(x := sq)" using did_run(3) by (auto simp: run_did_def split: prod.splits)
    have n: "needed (sequences (pool w) x)" using P(8) [of x] did_run(2) by (auto simp: needed_def)
    have a: "needed sq \<longleftrightarrow> again" using d(1) by (auto simp: seq_DidRunTask_def ReleaseTaskRunner_def needed_def Let_def split: if_splits)
    show ?thesis
    proof (cases again)
      case True
      then show ?thesis using count_same [OF count_phase [OF K, of "Did x t ok again" v], of sq x "tracker pl"] did_run(1,2) d(2,3) n a
        by (simp add: count_inv_def)
    next
      case False
      then show ?thesis using count_did [OF K n, of sq v "Did x t ok again"] did_run(1,2) d(2,3) a by (simp add: count_inv_def)
    qed
  next
    case (after_run v x t ok again)
    then show ?thesis using count_phase [OF K, of "Leaves x again" v] by (simp add: count_inv_def run_after_frame count_ok_def)
  next
    case (returned v x again r pl)
    show ?thesis
    proof (cases again)
      case True
      then show ?thesis using returned count_phase [OF K, of "Back r" v] by (simp add: count_inv_def run_return_def)
    next
      case False
      then show ?thesis using returned count_unregister [OF K, of v "Back r"] by (auto simp: count_inv_def run_return_def)
    qed
  next
    case (put_back v r pl)
    then show ?thesis using put_back_frame [OF put_back(3)] count_phase [OF K, of Idle v] by (simp add: count_inv_def)
  qed
qed

lemma pool_reachable_count:
  assumes "pool_reachable w"
  shows "count_inv w"
  using assms
proof induction
  case (start sqs groups background limit user_blocking)
  then have "enrolled sqs = {}" "leaving (\<lambda>_. Idle) = {}" by (auto simp: enrolled_def leaving_def fresh_def)
  then show ?case by (simp add: count_inv_def count_ok_def ThreadPool_new_def TaskTracker_new_def)
next
  case (step w w')
  then show ?case using count_step pool_reachable_inv by blast
qed

end
