(* ===== verification/Pool_Example.thy ===== *)
theory Pool_Example
  imports Pool_Shutdown
begin

text \<open>
  A post before shutdown is accepted, and small reachable states of the pool on which theorems with
  hypotheses are instantiated.
\<close>

section \<open>Posting before shutdown\<close>

lemma post_accepted:
  assumes t: "pool_closure t \<noteq> None" and h: "\<not> HasShutdownStarted (tracker pl)"
  obtains pl' where "PostTaskWithSequenceNow now t x pl = Some (True, pl')"
proof -
  obtain ok pl' where p: "PostTaskWithSequenceNow now t x pl = Some (ok, pl')" using post_answers [OF t] by blast
  then show ?thesis using that post_tracker(1) [OF p refl] h by simp
qed

section \<open>Examples\<close>

definition demo_pool :: pool_world where
  "demo_pool = \<lparr>pool = ThreadPool_new (\<lambda>_. Sequence_new USER_VISIBLE BLOCK_SHUTDOWN PREFER_BACKGROUND (Some 0) kSequenced)
     (\<lambda>_. Foreground) False (\<lambda>_. 1) False, phases = (\<lambda>_. Idle), accepted = (\<lambda>_. []), begun = (\<lambda>_. [])\<rparr>"

lemma demo_pool_reachable: "pool_reachable demo_pool"
  unfolding demo_pool_def by (rule pool_reachable.start) (simp add: fresh_def Sequence_new_def)

lemma demo_pool_reads: "\<not> HasShutdownStarted (tracker (pool demo_pool))" "shutdown_event (tracker (pool demo_pool)) = None"
  "can_run_policy_of (tracker (pool demo_pool)) = kAll" "seq_priority (sequences (pool demo_pool) x) = USER_VISIBLE"
  "seq_shutdown_behavior (sequences (pool demo_pool) x) = BLOCK_SHUTDOWN"
  by (simp_all add: demo_pool_def ThreadPool_new_def Sequence_new_def TaskTracker_new_def HasShutdownStarted_def State_HasShutdownStarted_def)

lemma post_background: "PostTaskWithSequenceNow now t x pl = Some (ok, pl') \<Longrightarrow> has_background_group pl' = has_background_group pl"
  by (cases rule: PostNow_cases, assumption) (auto simp: group_Push_def on_queue_def split_beta)

lemma post_started:
  "PostTaskWithSequenceNow now t x pl = Some (ok, pl') \<Longrightarrow> HasShutdownStarted (tracker pl') = HasShutdownStarted (tracker pl)"
  using post_tracker(2) [of now t x pl ok pl'] by (simp add: HasShutdownStarted_def State_flag)

lemma post_traits:
  assumes "PostTaskWithSequenceNow now t x pl = Some (ok, pl')"
  shows "seq_priority (sequences pl' y) = seq_priority (sequences pl y)" "seq_shutdown_behavior (sequences pl' y) = seq_shutdown_behavior (sequences pl y)"
proof -
  have "seq_priority (sequences pl' y) = seq_priority (sequences pl y) \<and> seq_shutdown_behavior (sequences pl' y) = seq_shutdown_behavior (sequences pl y)"
    using assms
  proof (cases rule: PostNow_cases)
    case (first tr sq)
    have "seq_priority sq = seq_priority (sequences pl x)" using pushed_sequence [OF first(4)] by metis
    then show ?thesis using group_Push_frame [OF first(5)] pushed_needed [OF first(4)] by simp
  next
    case (later sq)
    have "seq_priority sq = seq_priority (sequences pl x)" using pushed_sequence [OF later(3)] by metis
    then show ?thesis using pushed_needed [OF later(3)] later(4) by simp
  qed simp
  then show "seq_priority (sequences pl' y) = seq_priority (sequences pl y)" "seq_shutdown_behavior (sequences pl' y) = seq_shutdown_behavior (sequences pl y)"
    by blast+
qed

text \<open>One task posted to sequence 0.\<close>

lemma demo_pool_posted:
  obtains w where "pool_reachable w" "accepted w 0 = [Some 7]" "begun w 0 = []" "phases w = (\<lambda>_. Idle)"
    "\<not> HasShutdownStarted (tracker (pool w))" "\<And>y. seq_shutdown_behavior (sequences (pool w) y) = BLOCK_SHUTDOWN"
    "can_run_policy_of (tracker (pool w)) = kAll" "\<And>y. seq_priority (sequences (pool w) y) = USER_VISIBLE"
    "\<And>v. worker_group (workers (pool w) v) = Foreground" "\<And>sq. GetThreadGroupForTraits (pool w) sq = Foreground"
    "\<And>y. y \<noteq> 0 \<Longrightarrow> accepted w y = []"
proof -
  let ?t = "pool_Task (Some 7) 0 0"
  have c: "pool_closure ?t \<noteq> None" by (simp add: pool_Task_def)
  obtain pl where p: "PostTaskWithSequenceNow 1 ?t 0 (pool demo_pool) = Some (True, pl)" by (rule post_accepted [OF c demo_pool_reads(1)])
  have r: "pool_reachable (demo_pool\<lparr>pool := pl, accepted := (accepted demo_pool)(0 := accepted demo_pool 0 @ (if True then [pool_closure ?t] else []))\<rparr>)"
    by (rule pool_reachable.step [OF demo_pool_reachable pool_step.post [OF p]])
  have "workers pl = workers (pool demo_pool)" using crew_post [OF p] by (simp add: crew_def)
  moreover have "has_background_group pl = False" using post_background [OF p] by (simp add: demo_pool_def ThreadPool_new_def)
  moreover have "can_run_policy_of (tracker pl) = kAll" using post_tracker(2) [OF p refl] demo_pool_reads(3) by simp
  moreover have "\<not> HasShutdownStarted (tracker pl)" using post_started [OF p] demo_pool_reads(1) by simp
  moreover have "\<And>y. seq_priority (sequences pl y) = USER_VISIBLE" "\<And>y. seq_shutdown_behavior (sequences pl y) = BLOCK_SHUTDOWN"
    using post_traits [OF p] demo_pool_reads(4,5) by simp_all
  ultimately show ?thesis
    by (intro that [OF r]) (simp_all add: demo_pool_def ThreadPool_new_def pool_Task_def GetThreadGroupForTraits_def)
qed

text \<open>Worker 3 can take that task.\<close>

lemma demo_pool_work:
  obtains w pl where "pool_reachable w" "accepted w 0 = [Some 7]" "begun w 0 = []" "phases w = (\<lambda>_. Idle)"
    "\<not> HasShutdownStarted (tracker (pool w))" "\<And>y. seq_shutdown_behavior (sequences (pool w) y) = BLOCK_SHUTDOWN"
    "\<And>y. y \<noteq> 0 \<Longrightarrow> accepted w y = []" "GetWork True 3 (pool w) = (Some 0, pl)"
    "worker_group (workers (pool w) 3) = Foreground" "can_run_policy_of (tracker (pool w)) = kAll"
proof -
  obtain w where w: "pool_reachable w" "accepted w 0 = [Some 7]" "begun w 0 = []" "phases w = (\<lambda>_. Idle)"
    "\<not> HasShutdownStarted (tracker (pool w))" "\<And>y. seq_shutdown_behavior (sequences (pool w) y) = BLOCK_SHUTDOWN"
    "can_run_policy_of (tracker (pool w)) = kAll" "\<And>y. seq_priority (sequences (pool w) y) = USER_VISIBLE"
    "\<And>v. worker_group (workers (pool w) v) = Foreground" "\<And>sq. GetThreadGroupForTraits (pool w) sq = Foreground"
    "\<And>y. y \<noteq> 0 \<Longrightarrow> accepted w y = []"
    by (rule demo_pool_posted) blast
  obtain m where i: "pool_inv m w" using pool_reachable_inv [OF w(1)] by blast
  note P = place_invD [OF pool_invD(2) [OF i]]
  have "seq_queue (sequences (pool w) 0) \<noteq> []" using w(2,3) pool_invD(4) [OF i, of 0] by auto
  then obtain g k where "m g 0 = Some k" using P(5) w(4) by fastforce
  then have q: "m Foreground 0 = Some k" using P(1) w(10) by fastforce
  obtain r pl where g: "GetWork True 3 (pool w) = (r, pl)" by force
  have "r \<noteq> None"
  proof
    assume "r = None"
    then obtain y l where "m Foreground y = Some l" "\<not> CanRunPriority (key_priority l) (tracker (pool w)) \<or> key_priority l = BEST_EFFORT"
      using GetWork_refuses [OF i w(9) [of 3, symmetric] _ q] g by auto
    then show False using P(2) [of Foreground y l] w(7,8) by (auto simp: sort_key_front CanRunPriority_def)
  qed
  then obtain x where x: "r = Some x" by blast
  then obtain l where l: "m Foreground x = Some l" by (metis GetWork_gives [OF i w(9) [of 3, symmetric]] g)
  have "seq_queue (sequences (pool w) y) = []" if "y \<noteq> 0" for y using w(11) [OF that] pool_invD(4) [OF i, of y] by simp
  moreover have "seq_queue (sequences (pool w) x) \<noteq> []" using P(2) [OF l] by (auto simp: sort_key_front)
  ultimately have "x = 0" by blast
  then show ?thesis using that w g x by blast
qed

text \<open>Worker 3 has run it and has still to end the registration when the next task is posted: the
  sequence is registered twice.\<close>

lemma demo_pool_leaving:
  obtains w where "pool_reachable w" "enrolled (sequences (pool w)) = {0}" "leaving (phases w) = {3}"
proof -
  obtain w pl where w: "pool_reachable w" "accepted w 0 = [Some 7]" "begun w 0 = []" "phases w = (\<lambda>_. Idle)"
    "\<not> HasShutdownStarted (tracker (pool w))" "\<And>y. seq_shutdown_behavior (sequences (pool w) y) = BLOCK_SHUTDOWN"
    "\<And>y. y \<noteq> 0 \<Longrightarrow> accepted w y = []" "GetWork True 3 (pool w) = (Some 0, pl)" by (rule demo_pool_work) blast
  define w1 where "w1 = w\<lparr>pool := pl, phases := (phases w)(3 := Has 0)\<rparr>"
  have r1: "pool_reachable w1" unfolding w1_def by (rule pool_reachable.step [OF w(1) pool_step.get_work [OF _ w(8)]]) (simp add: w(4))
  obtain m1 where i1: "pool_inv m1 w1" using pool_reachable_inv [OF r1] by blast
  have h1: "phases w1 3 = Has 0" by (simp add: w1_def)
  obtain t ok pl1 where b: "run_begin 0 (pool w1) = Some (t, ok, pl1)" by (rule run_inv [OF i1 h1])
  define w2 where "w2 = w1\<lparr>pool := pl1, phases := (phases w1)(3 := Runs 0 t ok), begun := (begun w1)(0 := begun w1 0 @ [pool_closure t])\<rparr>"
  have r2: "pool_reachable w2" unfolding w2_def by (rule pool_reachable.step [OF r1 pool_step.run [OF h1 b]])
  obtain again pl2 where d: "run_did 0 (pool w2) = (again, pl2)" by force
  define w3 where "w3 = w2\<lparr>pool := pl2, phases := (phases w2)(3 := Did 0 t ok again)\<rparr>"
  have r3: "pool_reachable w3" unfolding w3_def by (rule pool_reachable.step [OF r2 pool_step.did_run [OF _ d]]) (simp add: w2_def)
  let ?t = "pool_Task (Some 8) 0 0"
  have c: "pool_closure ?t \<noteq> None" by (simp add: pool_Task_def)
  have b1: "pool w1 = pl" by (simp add: w1_def)
  have "HasShutdownStarted (tracker pl1) = HasShutdownStarted (tracker (pool w))"
    using BeforeRun_count(2) [of _ "tracker (pool w1)"] run_tracker(1) [OF b refl] get_work_frame [OF w(8)] b1 snd_conv by metis
  then have "\<not> HasShutdownStarted (tracker (pool w3))" using w(5) d by (auto simp: w3_def w2_def run_did_def split: prod.splits)
  then obtain pl3 where p: "PostTaskWithSequenceNow 2 ?t 0 (pool w3) = Some (True, pl3)" by (rule post_accepted [OF c])
  define w4 where "w4 = w3\<lparr>pool := pl3, accepted := (accepted w3)(0 := accepted w3 0 @ (if True then [pool_closure ?t] else []))\<rparr>"
  have r4: "pool_reachable w4" unfolding w4_def by (rule pool_reachable.step [OF r3 pool_step.post [OF p]])
  have a: "\<not> again"
  proof -
    obtain m2 where i2: "pool_inv m2 w2" using pool_reachable_inv [OF r2] by blast
    have "length (map pool_closure (seq_queue (sequences (pool w2) 0))) = 0"
      using pool_invD(4) [OF i2, of 0] w(2,3) by (simp add: w2_def w1_def)
    then show ?thesis using d by (auto simp: run_did_def seq_DidRunTask_def Let_def split: if_splits prod.splits)
  qed
  obtain m4 where i4: "pool_inv m4 w4" using pool_reachable_inv [OF r4] by blast
  have ph: "phases w4 = (\<lambda>_. Idle)(3 := Did 0 t ok False)" using a w(4) by (simp add: w4_def w3_def w2_def w1_def)
  have n: "length (accepted w4 y) = (if y = 0 then 2 else 0)" "y = 0 \<Longrightarrow> length (begun w4 y) = 1" for y
    using w(2,3) w(7) [of y] by (cases "y = 0"; simp add: w4_def w3_def w2_def w1_def)+
  have "needed (sequences (pool w4) y) \<longleftrightarrow> y = 0" for y
  proof -
    have "\<not> has_worker (sequences (pool w4) y)" using place_invD(8) [OF pool_invD(2) [OF i4], of y] by (auto simp: ph split: if_splits)
    moreover have "accepted w4 y = begun w4 y @ map pool_closure (seq_queue (sequences (pool w4) y))" by (rule pool_invD(4) [OF i4])
    then have "length (accepted w4 y) = length (begun w4 y) + length (seq_queue (sequences (pool w4) y))" by simp
    then have "seq_queue (sequences (pool w4) y) = [] \<longleftrightarrow> y \<noteq> 0" using n [of y] by (cases "y = 0") auto
    ultimately show ?thesis by (simp add: needed_def)
  qed
  then have "enrolled (sequences (pool w4)) = {0}" unfolding set_eq_iff enrolled_iff by simp
  moreover have "leaving (phases w4) = {3}" unfolding leaving_def ph set_eq_iff by simp
  ultimately show ?thesis using that r4 by blast
qed

end
