(* ===== verification/Group_Workers.thy ===== *)
theory Group_Workers
  imports Thread_Pool
begin

text \<open>
  The workers of one thread group, \<open>thread_group_impl.cc\<close> and \<open>worker_thread_stack.cc\<close>: how many are
  awake, who is idle, when one is created, woken or cleaned up, and how blocking calls raise the limits.
  A worker is a number; \<open>next_worker\<close> is the address of the next one that is allocated. What an executor
  does when it is flushed, signal and start threads and post \<open>AdjustMaxTasks\<close>, is a list of events.
  Every operation that holds the lock of the group is one definition.
\<close>

section \<open>State\<close>

text \<open>The part of a worker and its delegate that is not in \<^typ>\<open>pool_worker\<close>. A null time is 0.\<close>

record worker_info =
  last_used_time :: int
  should_exit :: bool
  may_block_start_time :: int
  incremented_max_tasks_since_blocked :: bool

record group_crew =
  group_workers :: "nat list"
  idle_workers_stack :: "nat list"
  worker_infos :: "nat \<Rightarrow> worker_info"
  next_worker :: nat
  max_tasks :: nat
  num_unresolved_may_block :: int
  num_unresolved_best_effort_may_block :: int
  adjust_max_tasks_posted :: bool
  initial_max_tasks :: nat
  suggested_reclaim_time :: int
  may_block_without_delay :: bool
  may_block_threshold :: int
  no_detach_below_initial_capacity :: bool
  worker_cleanup_disallowed :: bool

record workers_executor =
  workers_to_wake_up :: "nat list"
  workers_to_start :: "nat list"
  must_schedule_adjust_max_tasks :: bool

datatype worker_event = WakeUp nat | StartThread nat | PostAdjustMaxTasks

type_synonym staff = "workers_executor \<times> group_crew"

definition kMaxNumberOfWorkers :: nat where "kMaxNumberOfWorkers = 256"

definition upd_info :: "nat \<Rightarrow> (worker_info \<Rightarrow> worker_info) \<Rightarrow> group_crew \<Rightarrow> group_crew" where
  "upd_info v f c = c\<lparr>worker_infos := (worker_infos c)(v := f (worker_infos c v))\<rparr>"

section \<open>The executor\<close>

definition executor_new :: workers_executor where
  "executor_new = \<lparr>workers_to_wake_up = [], workers_to_start = [], must_schedule_adjust_max_tasks = False\<rparr>"

fun ScheduleWakeUp :: "nat option \<Rightarrow> workers_executor \<Rightarrow> workers_executor" where
  "ScheduleWakeUp None ex = ex"
| "ScheduleWakeUp (Some v) ex = ex\<lparr>workers_to_wake_up := workers_to_wake_up ex @ [v]\<rparr>"

definition ScheduleStart :: "nat \<Rightarrow> workers_executor \<Rightarrow> workers_executor" where
  "ScheduleStart v ex = ex\<lparr>workers_to_start := workers_to_start ex @ [v]\<rparr>"

definition FlushImpl :: "workers_executor \<Rightarrow> worker_event list" where
  "FlushImpl ex = map WakeUp (workers_to_wake_up ex) @ map StartThread (workers_to_start ex) @
     (if must_schedule_adjust_max_tasks ex then [PostAdjustMaxTasks] else [])"

definition executor_Flush :: "workers_executor \<Rightarrow> worker_event list \<times> workers_executor" where
  "executor_Flush ex =
     (if workers_to_wake_up ex = [] \<and> workers_to_start ex = [] then ([], ex) else (FlushImpl ex, executor_new))"

section \<open>The stack of idle workers\<close>

definition BeginUnusedPeriod :: "int \<Rightarrow> nat \<Rightarrow> group_crew \<Rightarrow> group_crew" where
  "BeginUnusedPeriod now v = upd_info v (last_used_time_update (\<lambda>_. now))"

definition EndUnusedPeriod :: "nat \<Rightarrow> group_crew \<Rightarrow> group_crew" where
  "EndUnusedPeriod v = upd_info v (last_used_time_update (\<lambda>_. 0))"

definition stack_Push :: "int \<Rightarrow> nat \<Rightarrow> group_crew \<Rightarrow> group_crew" where
  "stack_Push now v c =
     (let c = (if idle_workers_stack c \<noteq> [] then BeginUnusedPeriod now (last (idle_workers_stack c)) c else c)
      in c\<lparr>idle_workers_stack := idle_workers_stack c @ [v]\<rparr>)"

definition stack_Pop :: "group_crew \<Rightarrow> nat option \<times> group_crew" where
  "stack_Pop c =
     (if idle_workers_stack c = [] then (None, c)
      else let worker = last (idle_workers_stack c); c = c\<lparr>idle_workers_stack := butlast (idle_workers_stack c)\<rparr>
           in (Some worker, if idle_workers_stack c \<noteq> [] then EndUnusedPeriod (last (idle_workers_stack c)) c else c))"

definition stack_Peek :: "group_crew \<Rightarrow> nat option" where
  "stack_Peek c = (if idle_workers_stack c = [] then None else Some (last (idle_workers_stack c)))"

definition stack_Remove :: "nat \<Rightarrow> group_crew \<Rightarrow> group_crew" where
  "stack_Remove v c = c\<lparr>idle_workers_stack := remove1 v (idle_workers_stack c)\<rparr>"

section \<open>Enough workers\<close>

definition CreateAndRegisterWorker :: "staff \<Rightarrow> nat \<times> staff" where
  "CreateAndRegisterWorker s =
     (let (ex, c) = s; worker = next_worker c;
          c = upd_info worker (\<lambda>_. \<lparr>last_used_time = 0, should_exit = False, may_block_start_time = 0,
                incremented_max_tasks_since_blocked = False\<rparr>) (c\<lparr>next_worker := next_worker c + 1\<rparr>);
          c = c\<lparr>group_workers := group_workers c @ [worker]\<rparr>
      in (worker, ScheduleStart worker ex, c))"

definition MaintainAtLeastOneIdleWorker :: "int \<Rightarrow> staff \<Rightarrow> staff" where
  "MaintainAtLeastOneIdleWorker now s =
     (if length (group_workers (snd s)) = kMaxNumberOfWorkers then s
      else if idle_workers_stack (snd s) \<noteq> [] then s
      else if max_tasks (snd s) \<le> length (group_workers (snd s)) then s
      else let (new_worker, ex, c) = CreateAndRegisterWorker s in (ex, stack_Push now new_worker c))"

definition GetNumAwakeWorkers :: "group_crew \<Rightarrow> nat" where
  "GetNumAwakeWorkers c = length (group_workers c) - length (idle_workers_stack c)"

definition GetDesiredNumAwakeWorkers :: "thread_group \<Rightarrow> thread_pool \<Rightarrow> group_crew \<Rightarrow> nat" where
  "GetDesiredNumAwakeWorkers g pl c =
     (let num_running_or_queued_can_run_best_effort =
            num_running_best_effort_tasks pl g + unat (GetNumQueuedCanRunBestEffortTaskSources g pl);
          workers_for_best_effort = max (min num_running_or_queued_can_run_best_effort (max_best_effort_tasks pl g))
            (num_running_best_effort_tasks pl g);
          workers_for_foreground = (num_running_tasks pl g - num_running_best_effort_tasks pl g) +
            unat (GetNumQueuedCanRunForegroundTaskSources g pl)
      in min (workers_for_best_effort + workers_for_foreground) (min (max_tasks c) kMaxNumberOfWorkers))"

definition ShouldPeriodicallyAdjustMaxTasks :: "thread_group \<Rightarrow> thread_pool \<Rightarrow> group_crew \<Rightarrow> bool" where
  "ShouldPeriodicallyAdjustMaxTasks g pl c =
     (if max_best_effort_tasks pl g < num_running_best_effort_tasks pl g + unat (GetNumTaskSourcesWithPriority BEST_EFFORT (queues pl g)) \<and>
         0 < num_unresolved_best_effort_may_block c then True
      else max_tasks c < num_running_tasks pl g + Size (queues pl g) + 1 \<and> 0 < num_unresolved_may_block c)"

definition MaybeScheduleAdjustMaxTasks :: "thread_group \<Rightarrow> thread_pool \<Rightarrow> staff \<Rightarrow> staff" where
  "MaybeScheduleAdjustMaxTasks g pl s =
     (if \<not> adjust_max_tasks_posted (snd s) \<and> ShouldPeriodicallyAdjustMaxTasks g pl (snd s)
      then ((fst s)\<lparr>must_schedule_adjust_max_tasks := True\<rparr>, (snd s)\<lparr>adjust_max_tasks_posted := True\<rparr>) else s)"

primrec wake_workers :: "int \<Rightarrow> nat \<Rightarrow> staff \<Rightarrow> staff" where
  "wake_workers now 0 s = s"
| "wake_workers now (Suc n) s =
     (let (ex, c) = MaintainAtLeastOneIdleWorker now s; (worker_to_wakeup, c) = stack_Pop c
      in wake_workers now n (ScheduleWakeUp worker_to_wakeup ex, c))"

definition EnsureEnoughWorkers :: "thread_group \<Rightarrow> int \<Rightarrow> thread_pool \<Rightarrow> staff \<Rightarrow> staff" where
  "EnsureEnoughWorkers g now pl s =
     (if max_tasks (snd s) = 0 then s
      else let desired_num_awake_workers = GetDesiredNumAwakeWorkers g pl (snd s);
               num_awake_workers = GetNumAwakeWorkers (snd s);
               num_workers_to_wake_up = min (desired_num_awake_workers - num_awake_workers) 2;
               s = wake_workers now num_workers_to_wake_up s;
               s = (if desired_num_awake_workers = num_awake_workers then MaintainAtLeastOneIdleWorker now s else s)
           in MaybeScheduleAdjustMaxTasks g pl s)"

section \<open>Starting a group\<close>

text \<open>Times are in microseconds. A group that is not started has no limits, and nobody works for it.\<close>

definition kForegroundMayBlockThreshold :: int where "kForegroundMayBlockThreshold = 1000 * 1000"

definition kBackgroundMayBlockThreshold :: int where "kBackgroundMayBlockThreshold = 10 * 1000000"

definition ThreadGroupImpl_new :: "bool \<Rightarrow> group_crew" where
  "ThreadGroupImpl_new no_detach =
     \<lparr>group_workers = [], idle_workers_stack = [],
      worker_infos = (\<lambda>_. \<lparr>last_used_time = 0, should_exit = False, may_block_start_time = 0, incremented_max_tasks_since_blocked = False\<rparr>),
      next_worker = 0, max_tasks = 0, num_unresolved_may_block = 0, num_unresolved_best_effort_may_block = 0,
      adjust_max_tasks_posted = False, initial_max_tasks = 0, suggested_reclaim_time = 0, may_block_without_delay = False,
      may_block_threshold = 0, no_detach_below_initial_capacity = no_detach, worker_cleanup_disallowed = False\<rparr>"

definition group_Start ::
  "thread_group \<Rightarrow> int \<Rightarrow> nat \<Rightarrow> nat \<Rightarrow> int \<Rightarrow> bool \<Rightarrow> bool \<Rightarrow> int option \<Rightarrow> thread_pool \<times> group_crew \<Rightarrow> worker_event list \<times> thread_pool \<times> group_crew" where
  "group_Start g now n b reclaim without_delay normal_priority threshold s =
     (let (pl, c) = s;
          c = c\<lparr>may_block_without_delay := without_delay,
                may_block_threshold := (case threshold of Some t \<Rightarrow> t
                  | None \<Rightarrow> if normal_priority then kForegroundMayBlockThreshold else kBackgroundMayBlockThreshold),
                max_tasks := n, initial_max_tasks := n\<rparr>;
          pl = pl\<lparr>max_best_effort_tasks := (max_best_effort_tasks pl)(g := b)\<rparr>;
          c = c\<lparr>suggested_reclaim_time := reclaim\<rparr>;
          (ex, c) = EnsureEnoughWorkers g now pl (executor_new, c)
      in (FlushImpl ex, pl, c))"

section \<open>Getting work\<close>

definition CanCleanup :: "int \<Rightarrow> nat \<Rightarrow> group_crew \<Rightarrow> bool" where
  "CanCleanup now v c =
     (let last_used = last_used_time (worker_infos c v)
      in last_used \<noteq> 0 \<and> suggested_reclaim_time c \<le> now - last_used \<and>
         (initial_max_tasks c < length (group_workers c) \<or> \<not> no_detach_below_initial_capacity c) \<and>
         \<not> worker_cleanup_disallowed c)"

definition Cleanup :: "nat \<Rightarrow> group_crew \<Rightarrow> group_crew" where
  "Cleanup v c =
     (let c = upd_info v (should_exit_update (\<lambda>_. True)) c; c = stack_Remove v c
      in c\<lparr>group_workers := remove1 v (group_workers c)\<rparr>)"

definition OnWorkerBecomesIdle :: "int \<Rightarrow> nat \<Rightarrow> group_crew \<Rightarrow> group_crew" where
  "OnWorkerBecomesIdle now v c = stack_Push now v c"

definition CanGetWork :: "thread_group \<Rightarrow> int \<Rightarrow> nat \<Rightarrow> thread_pool \<Rightarrow> group_crew \<Rightarrow> bool \<times> group_crew" where
  "CanGetWork g now v pl c =
     (let is_on_idle_workers_stack = (stack_Peek c = Some v \<or> last_used_time (worker_infos c v) \<noteq> 0)
      in if is_on_idle_workers_stack then (False, if CanCleanup now v c then Cleanup v c else c)
         else if GetDesiredNumAwakeWorkers g pl c < GetNumAwakeWorkers c then (False, OnWorkerBecomesIdle now v c)
         else (True, c))"

text \<open>\<open>GetWork\<close> releases the lock when it flushes its executor and takes it again: the two parts are two
  operations. The second is \<^const>\<open>GetWork\<close> of the pool with the decision made, and a worker that is sent
  away becomes idle.\<close>

definition GetWork_ensure :: "thread_group \<Rightarrow> int \<Rightarrow> thread_pool \<Rightarrow> group_crew \<Rightarrow> worker_event list \<times> workers_executor \<times> group_crew" where
  "GetWork_ensure g now pl c =
     (let (ex, c) = EnsureEnoughWorkers g now pl (executor_new, c); (events, ex) = executor_Flush ex in (events, ex, c))"

definition GetWork_take :: "int \<Rightarrow> nat \<Rightarrow> thread_pool \<times> group_crew \<Rightarrow> nat option \<times> thread_pool \<times> group_crew" where
  "GetWork_take now v s =
     (let (pl, c) = s; g = worker_group (workers pl v); (can_get_work, c) = CanGetWork g now v pl c;
          priority = key_priority (PeekSortKey (queues pl g))
      in if \<not> can_get_work then (None, pl, c)
         else if pq_IsEmpty (queues pl g) then (None, pl, OnWorkerBecomesIdle now v c)
         else if \<not> CanRunPriority priority (tracker pl) \<or>
                 priority = BEST_EFFORT \<and> max_best_effort_tasks pl g \<le> num_running_best_effort_tasks pl g
         then (None, pl, OnWorkerBecomesIdle now v c)
         else let (task_source, pl) = GetWork True v pl in (task_source, pl, c))"

section \<open>Blocking calls\<close>

datatype blocking_type = MAY_BLOCK | WILL_BLOCK

definition IncrementMaxTasks :: "thread_group \<Rightarrow> bool \<Rightarrow> thread_pool \<times> group_crew \<Rightarrow> thread_pool \<times> group_crew" where
  "IncrementMaxTasks g best_effort s =
     ((if best_effort then (fst s)\<lparr>max_best_effort_tasks := (max_best_effort_tasks (fst s))(g := max_best_effort_tasks (fst s) g + 1)\<rparr> else fst s),
      (snd s)\<lparr>max_tasks := max_tasks (snd s) + 1\<rparr>)"

definition DecrementMaxTasks :: "thread_group \<Rightarrow> bool \<Rightarrow> thread_pool \<times> group_crew \<Rightarrow> thread_pool \<times> group_crew" where
  "DecrementMaxTasks g best_effort s =
     ((if best_effort then (fst s)\<lparr>max_best_effort_tasks := (max_best_effort_tasks (fst s))(g := max_best_effort_tasks (fst s) g - 1)\<rparr> else fst s),
      (snd s)\<lparr>max_tasks := max_tasks (snd s) - 1\<rparr>)"

text \<open>A blocking call begins or ends to count as one that may raise the limits.\<close>

definition count_unresolved :: "int \<Rightarrow> bool \<Rightarrow> group_crew \<Rightarrow> group_crew" where
  "count_unresolved d best_effort c =
     c\<lparr>num_unresolved_may_block := num_unresolved_may_block c + d,
       num_unresolved_best_effort_may_block := num_unresolved_best_effort_may_block c + (if best_effort then d else 0)\<rparr>"

definition MayBlockEntered :: "int \<Rightarrow> nat \<Rightarrow> thread_pool \<times> group_crew \<Rightarrow> worker_event list \<times> thread_pool \<times> group_crew" where
  "MayBlockEntered now v s =
     (let (pl, c) = s; c = upd_info v (may_block_start_time_update (\<lambda>_. now)) c;
          c = count_unresolved 1 (is_running_best_effort_task (workers pl v)) c;
          (ex, c) = MaybeScheduleAdjustMaxTasks (worker_group (workers pl v)) pl (executor_new, c)
      in (FlushImpl ex, pl, c))"

definition WillBlockEntered :: "int \<Rightarrow> nat \<Rightarrow> thread_pool \<times> group_crew \<Rightarrow> worker_event list \<times> thread_pool \<times> group_crew" where
  "WillBlockEntered now v s =
     (let (pl, c) = s; g = worker_group (workers pl v);
          c = upd_info v (incremented_max_tasks_since_blocked_update (\<lambda>_. True)) c;
          (pl, c) = IncrementMaxTasks g (is_running_best_effort_task (workers pl v)) (pl, c);
          (ex, c) = EnsureEnoughWorkers g now pl (executor_new, c)
      in (FlushImpl ex, pl, c))"

definition BlockingStarted :: "int \<Rightarrow> blocking_type \<Rightarrow> nat \<Rightarrow> thread_pool \<times> group_crew \<Rightarrow> worker_event list \<times> thread_pool \<times> group_crew" where
  "BlockingStarted now b v s =
     (let b = (if may_block_without_delay (snd s) then WILL_BLOCK else b)
      in case b of MAY_BLOCK \<Rightarrow> MayBlockEntered now v s | WILL_BLOCK \<Rightarrow> WillBlockEntered now v s)"

text \<open>An upgrade takes the lock twice: first the effect of the call that may block is cancelled, then the
  call is one that will block. The flag says that there is a second part.\<close>

definition BlockingTypeUpgraded_begin :: "nat \<Rightarrow> thread_pool \<times> group_crew \<Rightarrow> bool \<times> thread_pool \<times> group_crew" where
  "BlockingTypeUpgraded_begin v s =
     (if may_block_without_delay (snd s) then (False, s)
      else if incremented_max_tasks_since_blocked (worker_infos (snd s) v) then (False, s)
      else let (pl, c) = s;
               c = (if may_block_start_time (worker_infos c v) \<noteq> 0
                    then count_unresolved (- 1) (is_running_best_effort_task (workers pl v)) (upd_info v (may_block_start_time_update (\<lambda>_. 0)) c)
                    else c)
           in (True, pl, c))"

definition BlockingTypeUpgraded :: "int \<Rightarrow> nat \<Rightarrow> thread_pool \<times> group_crew \<Rightarrow> worker_event list \<times> thread_pool \<times> group_crew" where
  "BlockingTypeUpgraded now v s =
     (let (will_block, s) = BlockingTypeUpgraded_begin v s in if will_block then WillBlockEntered now v s else ([], s))"

definition BlockingEnded :: "nat \<Rightarrow> thread_pool \<times> group_crew \<Rightarrow> thread_pool \<times> group_crew" where
  "BlockingEnded v s =
     (let best_effort = is_running_best_effort_task (workers (fst s) v);
          (pl, c) = (if incremented_max_tasks_since_blocked (worker_infos (snd s) v)
                     then DecrementMaxTasks (worker_group (workers (fst s) v)) best_effort s
                     else (fst s, count_unresolved (- 1) best_effort (snd s)))
      in (pl, upd_info v (\<lambda>i. i\<lparr>incremented_max_tasks_since_blocked := False, may_block_start_time := 0\<rparr>) c))"

definition MustIncrementMaxTasks :: "int \<Rightarrow> nat \<Rightarrow> thread_pool \<times> group_crew \<Rightarrow> bool \<times> thread_pool \<times> group_crew" where
  "MustIncrementMaxTasks now v s =
     (let (pl, c) = s; i = worker_infos c v
      in if \<not> incremented_max_tasks_since_blocked i \<and> may_block_start_time i \<noteq> 0 \<and> may_block_threshold c \<le> now - may_block_start_time i
         then (True, pl, count_unresolved (- 1) (is_running_best_effort_task (workers pl v))
                (upd_info v (incremented_max_tasks_since_blocked_update (\<lambda>_. True)) c))
         else (False, pl, c))"

definition adjust_worker :: "thread_group \<Rightarrow> int \<Rightarrow> nat \<Rightarrow> thread_pool \<times> group_crew \<Rightarrow> thread_pool \<times> group_crew" where
  "adjust_worker g now v s =
     (let (must, s) = MustIncrementMaxTasks now v s
      in if must then IncrementMaxTasks g (is_running_best_effort_task (workers (fst s) v)) s else s)"

definition AdjustMaxTasks :: "thread_group \<Rightarrow> int \<Rightarrow> thread_pool \<times> group_crew \<Rightarrow> worker_event list \<times> thread_pool \<times> group_crew" where
  "AdjustMaxTasks g now s =
     (let (pl, c) = s; c = c\<lparr>adjust_max_tasks_posted := False\<rparr>;
          (pl, c) = fold (adjust_worker g now) (group_workers c) (pl, c);
          (ex, c) = EnsureEnoughWorkers g now pl (executor_new, c)
      in (FlushImpl ex, pl, c))"

end
