(* ===== verification/Group_Staff.thy ===== *)
theory Group_Staff
  imports Group_Workers Pool_Shutdown
begin

text \<open>
  The workers of a group are kept in order: who is on the idle stack, that the time of last use stands
  for being below its top, that exactly as many workers are woken as are wanted, and that blocking calls
  raise the limits by as much as they lower them again.
\<close>

section \<open>The idle stack\<close>

definition awake :: "group_crew \<Rightarrow> nat set" where
  "awake c = set (group_workers c) - set (idle_workers_stack c)"

definition stack_ok :: "group_crew \<Rightarrow> bool" where
  "stack_ok c \<longleftrightarrow> distinct (group_workers c) \<and> distinct (idle_workers_stack c) \<and> set (idle_workers_stack c) \<subseteq> set (group_workers c) \<and>
     length (group_workers c) \<le> kMaxNumberOfWorkers \<and> (\<forall>v\<in>set (group_workers c). v < next_worker c) \<and>
     (\<forall>v\<in>set (group_workers c). last_used_time (worker_infos c v) \<noteq> 0 \<longleftrightarrow> v \<in> set (butlast (idle_workers_stack c)))"

lemma stack_okD:
  assumes "stack_ok c"
  shows "distinct (group_workers c)" "distinct (idle_workers_stack c)" "set (idle_workers_stack c) \<subseteq> set (group_workers c)"
    "length (group_workers c) \<le> kMaxNumberOfWorkers" "v \<in> set (group_workers c) \<Longrightarrow> v < next_worker c"
    "v \<in> set (group_workers c) \<Longrightarrow> last_used_time (worker_infos c v) \<noteq> 0 \<longleftrightarrow> v \<in> set (butlast (idle_workers_stack c))"
    "GetNumAwakeWorkers c = card (awake c)"
proof -
  show "distinct (group_workers c)" "distinct (idle_workers_stack c)" "set (idle_workers_stack c) \<subseteq> set (group_workers c)"
    "length (group_workers c) \<le> kMaxNumberOfWorkers" "v \<in> set (group_workers c) \<Longrightarrow> v < next_worker c"
    "v \<in> set (group_workers c) \<Longrightarrow> last_used_time (worker_infos c v) \<noteq> 0 \<longleftrightarrow> v \<in> set (butlast (idle_workers_stack c))"
    using assms unfolding stack_ok_def by blast+
  then show "GetNumAwakeWorkers c = card (awake c)"
    by (simp add: GetNumAwakeWorkers_def awake_def card_Diff_subset distinct_card)
qed

text \<open>What the operations on the stack leave alone.\<close>

definition blocked_info :: "worker_info \<Rightarrow> int \<times> bool" where
  "blocked_info i = (may_block_start_time i, incremented_max_tasks_since_blocked i)"

definition unused :: "group_crew \<Rightarrow> bool" where
  "unused c \<longleftrightarrow> (\<forall>v\<ge>next_worker c. blocked_info (worker_infos c v) = (0, False))"

definition same_limits :: "group_crew \<Rightarrow> group_crew \<Rightarrow> bool" where
  "same_limits c c' \<longleftrightarrow> max_tasks c' = max_tasks c \<and> num_unresolved_may_block c' = num_unresolved_may_block c \<and>
     num_unresolved_best_effort_may_block c' = num_unresolved_best_effort_may_block c \<and> initial_max_tasks c' = initial_max_tasks c \<and>
     next_worker c \<le> next_worker c' \<and> (\<forall>v. blocked_info (worker_infos c' v) = blocked_info (worker_infos c v))"

lemma same_limits_trans: "same_limits a b \<Longrightarrow> same_limits b c \<Longrightarrow> same_limits a c"
  by (simp add: same_limits_def)

lemma same_limits_unused: "same_limits c c' \<Longrightarrow> unused c \<Longrightarrow> unused c'"
  by (auto simp: same_limits_def unused_def)

lemma stack_Push_ok:
  assumes k: "stack_ok c" and v: "v \<in> set (group_workers c)" "v \<notin> set (idle_workers_stack c)" and now: "now \<noteq> 0"
  shows "stack_ok (stack_Push now v c)" "group_workers (stack_Push now v c) = group_workers c"
    "idle_workers_stack (stack_Push now v c) = idle_workers_stack c @ [v]" "same_limits c (stack_Push now v c)"
proof -
  let ?i = "idle_workers_stack c" and ?c = "stack_Push now v c"
  show w: "group_workers ?c = group_workers c" "idle_workers_stack ?c = ?i @ [v]" "same_limits c ?c"
    by (auto simp: stack_Push_def Let_def BeginUnusedPeriod_def upd_info_def same_limits_def blocked_info_def)
  have l: "last_used_time (worker_infos ?c u) = (if ?i \<noteq> [] \<and> u = last ?i then now else last_used_time (worker_infos c u))" for u
    by (simp add: stack_Push_def Let_def BeginUnusedPeriod_def upd_info_def)
  have "last_used_time (worker_infos ?c u) \<noteq> 0 \<longleftrightarrow> u \<in> set ?i" if "u \<in> set (group_workers c)" for u
  proof (cases "?i = []")
    case False
    then have "set ?i = insert (last ?i) (set (butlast ?i))" by (metis append_butlast_last_id list.simps(15) rotate1.simps(2) set_rotate1)
    then show ?thesis using stack_okD(6) [OF k that] False now by (simp add: l)
  qed (use stack_okD(6) [OF k that] in \<open>simp add: l\<close>)
  moreover have "next_worker ?c = next_worker c" by (simp add: stack_Push_def Let_def BeginUnusedPeriod_def upd_info_def)
  ultimately show "stack_ok ?c" using stack_okD(1-5) [OF k] v unfolding stack_ok_def w by auto
qed

lemma stack_Pop_ok:
  assumes k: "stack_ok c" and n: "idle_workers_stack c \<noteq> []" and p: "stack_Pop c = (r, c')"
  shows "r = Some (last (idle_workers_stack c))" "stack_ok c'" "group_workers c' = group_workers c"
    "idle_workers_stack c' = butlast (idle_workers_stack c)" "same_limits c c'"
proof -
  let ?i = "idle_workers_stack c"
  have c': "c' = (if butlast ?i \<noteq> [] then EndUnusedPeriod (last (butlast ?i)) (c\<lparr>idle_workers_stack := butlast ?i\<rparr>)
      else c\<lparr>idle_workers_stack := butlast ?i\<rparr>)" and "r = Some (last ?i)" using p n by (auto simp: stack_Pop_def Let_def)
  then show "r = Some (last ?i)" by simp
  show w: "group_workers c' = group_workers c" "idle_workers_stack c' = butlast ?i" "same_limits c c'"
    by (auto simp: c' EndUnusedPeriod_def upd_info_def same_limits_def blocked_info_def)
  have l: "last_used_time (worker_infos c' u) = (if butlast ?i \<noteq> [] \<and> u = last (butlast ?i) then 0 else last_used_time (worker_infos c u))" for u
    by (simp add: c' EndUnusedPeriod_def upd_info_def)
  have d: "distinct (butlast ?i)" "set (butlast ?i) \<subseteq> set ?i" using stack_okD(2) [OF k] in_set_butlastD by (auto simp: distinct_butlast)
  have "last_used_time (worker_infos c' u) \<noteq> 0 \<longleftrightarrow> u \<in> set (butlast (butlast ?i))" if "u \<in> set (group_workers c)" for u
  proof (cases "butlast ?i = []")
    case False
    then obtain ys y where b: "butlast ?i = ys @ [y]" by (metis append_butlast_last_id)
    then have "y \<notin> set ys" using d(1) by simp
    then show ?thesis using stack_okD(6) [OF k that] by (auto simp: l b)
  qed (use stack_okD(6) [OF k that] in \<open>simp add: l\<close>)
  moreover have "next_worker c' = next_worker c" by (simp add: c' EndUnusedPeriod_def upd_info_def)
  ultimately show "stack_ok c'" using stack_okD(1-5) [OF k] d unfolding stack_ok_def w by auto
qed

section \<open>Waking workers\<close>

text \<open>\<open>woken ws\<close>: exactly the workers \<open>ws\<close>, which were not awake, are awake now and noted for the wake-up;
  workers that were created are noted to be started.\<close>

definition woken :: "nat list \<Rightarrow> staff \<Rightarrow> staff \<Rightarrow> bool" where
  "woken ws s s' \<longleftrightarrow> stack_ok (snd s') \<and> same_limits (snd s) (snd s') \<and> awake (snd s') = awake (snd s) \<union> set ws \<and>
     awake (snd s) \<inter> set ws = {} \<and> distinct ws \<and> workers_to_wake_up (fst s') = workers_to_wake_up (fst s) @ ws \<and>
     (\<exists>news. group_workers (snd s') = group_workers (snd s) @ news \<and> workers_to_start (fst s') = workers_to_start (fst s) @ news)"

lemma wokenD:
  assumes "woken ws s s'"
  shows "stack_ok (snd s')" "same_limits (snd s) (snd s')" "awake (snd s') = awake (snd s) \<union> set ws" "awake (snd s) \<inter> set ws = {}"
    "distinct ws" "workers_to_wake_up (fst s') = workers_to_wake_up (fst s) @ ws"
  using assms by (simp_all add: woken_def)

lemma woken_refl: "stack_ok (snd s) \<Longrightarrow> woken [] s s"
  by (simp add: woken_def same_limits_def)

lemma woken_trans: "woken ws s t \<Longrightarrow> woken ws' t u \<Longrightarrow> woken (ws @ ws') s u"
  unfolding woken_def using same_limits_trans by auto

lemma Maintain_ok:
  assumes k: "stack_ok (snd s)" and u: "unused (snd s)" and now: "now \<noteq> 0" and r: "MaintainAtLeastOneIdleWorker now s = s'"
  shows "woken [] s s'" "idle_workers_stack (snd s') \<noteq> [] \<or> min (max_tasks (snd s)) kMaxNumberOfWorkers \<le> length (group_workers (snd s))"
proof -
  obtain ex c where s: "s = (ex, c)" by force
  have k': "stack_ok c" and u': "unused c" using k u s by simp_all
  have "woken [] s s' \<and> (idle_workers_stack (snd s') \<noteq> [] \<or> min (max_tasks c) kMaxNumberOfWorkers \<le> length (group_workers c))"
  proof (cases "length (group_workers c) = kMaxNumberOfWorkers \<or> idle_workers_stack c \<noteq> [] \<or> max_tasks c \<le> length (group_workers c)")
    case True
    then have "s' = s" using r by (auto simp: MaintainAtLeastOneIdleWorker_def s)
    then show ?thesis using True woken_refl [OF k] by (auto simp: s)
  next
    case False
    let ?w = "next_worker c"
    define d where "d = snd (snd (CreateAndRegisterWorker s))"
    have nw: "?w \<notin> set (group_workers c)" using stack_okD(5) [OF k'] by blast
    have d: "group_workers d = group_workers c @ [?w]" "idle_workers_stack d = []" "next_worker d = ?w + 1" "same_limits c d"
      "last_used_time (worker_infos d ?w) = 0" "v \<noteq> ?w \<Longrightarrow> worker_infos d v = worker_infos c v" for v
      using False u' by (auto simp: d_def s CreateAndRegisterWorker_def upd_info_def same_limits_def unused_def blocked_info_def Let_def)
    have l: "length (group_workers c) < kMaxNumberOfWorkers" using False stack_okD(4) [OF k'] by simp
    have "last_used_time (worker_infos d v) = 0" if "v \<in> set (group_workers c) \<or> v = ?w" for v
      using that stack_okD(6) [OF k', of v] d(5) d(6) [of v] False by (cases "v = ?w") auto
    then have "stack_ok d" unfolding stack_ok_def d(1,2)
      using stack_okD(1,5) [OF k'] d(3) nw l by (auto simp: less_Suc_eq)
    then have P: "stack_ok (stack_Push now ?w d)" "group_workers (stack_Push now ?w d) = group_workers c @ [?w]"
      "idle_workers_stack (stack_Push now ?w d) = [?w]" "same_limits d (stack_Push now ?w d)"
      using stack_Push_ok [of d ?w now] d(1,2) now by auto
    have s': "s' = (ScheduleStart ?w ex, stack_Push now ?w d)" using r False
      by (simp add: MaintainAtLeastOneIdleWorker_def s CreateAndRegisterWorker_def d_def Let_def)
    have "awake (snd s') = awake c" using False nw by (auto simp: awake_def s' P)
    then show ?thesis using P same_limits_trans [OF d(4) P(4)] by (simp add: woken_def s' s ScheduleStart_def)
  qed
  then show "woken [] s s'" "idle_workers_stack (snd s') \<noteq> [] \<or> min (max_tasks (snd s)) kMaxNumberOfWorkers \<le> length (group_workers (snd s))"
    by (simp_all add: s)
qed

lemma wake_one:
  assumes k: "stack_ok c" and n: "idle_workers_stack c \<noteq> []" and p: "stack_Pop c = (r, c')"
  shows "woken [last (idle_workers_stack c)] (ex, c) (ScheduleWakeUp r ex, c')"
proof -
  note P = stack_Pop_ok [OF k n p]
  have i: "set (idle_workers_stack c) = insert (last (idle_workers_stack c)) (set (butlast (idle_workers_stack c)))"
    "last (idle_workers_stack c) \<notin> set (butlast (idle_workers_stack c))"
    using n stack_okD(2) [OF k] by (metis append_butlast_last_id list.simps(15) rotate1.simps(2) set_rotate1,
        metis append_butlast_last_id distinct_append disjoint_insert(2) list.simps(15) n)
  have "last (idle_workers_stack c) \<in> set (group_workers c)" using n stack_okD(3) [OF k] by auto
  then have "awake c' = awake c \<union> {last (idle_workers_stack c)}" "awake c \<inter> {last (idle_workers_stack c)} = {}"
    unfolding awake_def P(3,4) using i by auto
  then show ?thesis using P(1-3,5) by (simp add: woken_def)
qed

lemma wake_workers_ok:
  assumes "stack_ok (snd s)" "unused (snd s)" "now \<noteq> 0" "card (awake (snd s)) + n \<le> min (max_tasks (snd s)) kMaxNumberOfWorkers"
  shows "\<exists>ws. woken ws s (wake_workers now n s) \<and> length ws = n"
  using assms
proof (induction n arbitrary: s)
  case 0
  then show ?case using woken_refl by auto
next
  case (Suc n)
  obtain ex c where m: "MaintainAtLeastOneIdleWorker now s = (ex, c)" by force
  note M = Maintain_ok [OF Suc.prems(1-3) m]
  note W = wokenD [OF M(1), simplified]
  have i: "idle_workers_stack c \<noteq> []"
  proof
    assume e: "idle_workers_stack c = []"
    have "length (group_workers (snd s)) \<le> length (group_workers c)" using M(1) by (auto simp: woken_def)
    moreover have "card (awake c) = length (group_workers c)" using e stack_okD(1) [OF W(1)] by (simp add: awake_def distinct_card)
    ultimately show False using M(2) e Suc.prems(4) W(3) by simp
  qed
  obtain r c' where p: "stack_Pop c = (r, c')" by force
  note O = wake_one [OF W(1) i p, of ex]
  let ?t = "(ScheduleWakeUp r ex, c')"
  have T: "woken [last (idle_workers_stack c)] s ?t" using woken_trans [OF M(1) O] by simp
  note D = wokenD [OF T, simplified]
  have "unused c'" using same_limits_unused [OF D(2) Suc.prems(2)] .
  moreover have "card (awake c') = Suc (card (awake (snd s)))" using D(3,4) by (simp add: awake_def)
  moreover have "max_tasks c' = max_tasks (snd s)" using D(2) by (simp add: same_limits_def)
  ultimately obtain ws where "woken ws ?t (wake_workers now n ?t)" "length ws = n" using Suc.IH [of ?t] D(1) Suc.prems(3,4) by auto
  then have "woken ([last (idle_workers_stack c)] @ ws) s (wake_workers now n ?t)" "length ([last (idle_workers_stack c)] @ ws) = Suc n"
    using woken_trans [OF T] by simp_all
  moreover have "wake_workers now (Suc n) s = wake_workers now n ?t" by (simp add: m p)
  ultimately show ?case by metis
qed

text \<open>As many workers are woken as are wanted, but two at a time; when nobody is wanted an idle one is
  kept ready, within the limits.\<close>

lemma MaybeSchedule_ok:
  assumes "stack_ok (snd s)"
  shows "woken [] s (MaybeScheduleAdjustMaxTasks g pl s)"
    "idle_workers_stack (snd (MaybeScheduleAdjustMaxTasks g pl s)) = idle_workers_stack (snd s)"
  using assms by (auto simp: MaybeScheduleAdjustMaxTasks_def woken_def same_limits_def stack_ok_def awake_def)

lemma desired_limit: "GetDesiredNumAwakeWorkers g pl c \<le> min (max_tasks c) kMaxNumberOfWorkers"
  unfolding GetDesiredNumAwakeWorkers_def Let_def by (rule min.cobounded2)

lemma Ensure_ok:
  assumes k: "stack_ok (snd s)" and u: "unused (snd s)" and now: "now \<noteq> 0"
  obtains ws where "woken ws s (EnsureEnoughWorkers g now pl s)"
    "length ws = (if max_tasks (snd s) = 0 then 0 else min (GetDesiredNumAwakeWorkers g pl (snd s) - card (awake (snd s))) 2)"
    "max_tasks (snd s) \<noteq> 0 \<Longrightarrow> GetDesiredNumAwakeWorkers g pl (snd s) = card (awake (snd s)) \<Longrightarrow>
      idle_workers_stack (snd (EnsureEnoughWorkers g now pl s)) \<noteq> [] \<or>
      min (max_tasks (snd s)) kMaxNumberOfWorkers \<le> length (group_workers (snd s))"
proof (cases "max_tasks (snd s) = 0")
  case True
  then show ?thesis using that [of "[]"] woken_refl [OF k] by (simp add: EnsureEnoughWorkers_def)
next
  case False
  let ?d = "GetDesiredNumAwakeWorkers g pl (snd s)" and ?a = "card (awake (snd s))"
  let ?n = "min (?d - ?a) 2"
  have a: "GetNumAwakeWorkers (snd s) = ?a" by (rule stack_okD(7) [OF k])
  have "?a + ?n \<le> min (max_tasks (snd s)) kMaxNumberOfWorkers \<or> ?n = 0" using desired_limit [of g pl "snd s"] by linarith
  then obtain ws where w: "woken ws s (wake_workers now ?n s)" "length ws = ?n"
    using wake_workers_ok [OF k u now, of ?n] woken_refl [OF k] by (metis length_0_conv wake_workers.simps(1))
  define t where "t = wake_workers now ?n s"
  define t' where "t' = (if ?d = ?a then MaintainAtLeastOneIdleWorker now t else t)"
  note W = wokenD [OF w(1) [folded t_def]]
  have ut: "unused (snd t)" by (rule same_limits_unused [OF W(2) u])
  have t': "woken [] t t'" unfolding t'_def using Maintain_ok(1) [OF W(1) ut now refl] woken_refl [OF W(1)] by simp
  have e: "EnsureEnoughWorkers g now pl s = MaybeScheduleAdjustMaxTasks g pl t'"
    using False by (simp add: EnsureEnoughWorkers_def a t_def t'_def)
  note M = MaybeSchedule_ok [OF wokenD(1) [OF t'], of g pl, folded e]
  have r: "woken ws s (EnsureEnoughWorkers g now pl s)"
    using woken_trans [OF woken_trans [OF w(1) [folded t_def] t'] M(1)] by simp
  have "idle_workers_stack (snd (EnsureEnoughWorkers g now pl s)) \<noteq> [] \<or>
      min (max_tasks (snd s)) kMaxNumberOfWorkers \<le> length (group_workers (snd s))" if "?d = ?a"
  proof -
    have "t = s" using that by (simp add: t_def)
    then show ?thesis using Maintain_ok(2) [OF k u now refl] M(2) that by (simp add: t'_def)
  qed
  then show ?thesis using that [OF r] w(2) False by auto
qed

section \<open>The limits\<close>

text \<open>The workers whose blocking call has raised the limits, and those whose call may yet do so.\<close>

definition raised_by :: "group_crew \<Rightarrow> nat set" where
  "raised_by c = {v. incremented_max_tasks_since_blocked (worker_infos c v)}"

definition unresolved_in :: "group_crew \<Rightarrow> nat set" where
  "unresolved_in c = {v. may_block_start_time (worker_infos c v) \<noteq> 0 \<and> \<not> incremented_max_tasks_since_blocked (worker_infos c v)}"

definition best_effort_ones :: "thread_pool \<Rightarrow> nat set" where
  "best_effort_ones pl = {v. is_running_best_effort_task (workers pl v)}"

definition counted :: "nat \<Rightarrow> nat \<Rightarrow> nat set \<Rightarrow> nat set \<Rightarrow> nat set \<Rightarrow> nat \<times> nat \<times> int \<times> int \<Rightarrow> bool" where
  "counted n b R U B x \<longleftrightarrow> finite R \<and> finite U \<and> x = (n + card R, b + card (R \<inter> B), int (card U), int (card (U \<inter> B)))"

definition limits :: "thread_group \<Rightarrow> thread_pool \<Rightarrow> group_crew \<Rightarrow> nat \<times> nat \<times> int \<times> int" where
  "limits g pl c = (max_tasks c, max_best_effort_tasks pl g, num_unresolved_may_block c, num_unresolved_best_effort_may_block c)"

definition limits_ok :: "thread_group \<Rightarrow> nat \<Rightarrow> nat \<Rightarrow> thread_pool \<Rightarrow> group_crew \<Rightarrow> bool" where
  "limits_ok g n b pl c \<longleftrightarrow> counted n b (raised_by c) (unresolved_in c) (best_effort_ones pl) (limits g pl c) \<and>
     (\<forall>v\<in>raised_by c \<union> unresolved_in c. is_running_task (workers pl v))"

lemma blocked_sets_same:
  assumes "same_limits c c'"
  shows "raised_by c' = raised_by c" "unresolved_in c' = unresolved_in c"
proof -
  have "may_block_start_time (worker_infos c' v) = may_block_start_time (worker_infos c v)"
    "incremented_max_tasks_since_blocked (worker_infos c' v) = incremented_max_tasks_since_blocked (worker_infos c v)" for v
    using assms by (auto simp: same_limits_def blocked_info_def)
  then show "raised_by c' = raised_by c" "unresolved_in c' = unresolved_in c" by (simp_all add: raised_by_def unresolved_in_def)
qed

lemma limits_same:
  assumes "limits_ok g n b pl c" "same_limits c c'" "crew pl' = crew pl"
  shows "limits_ok g n b pl' c'"
  using assms(1,2,3) unfolding limits_ok_def blocked_sets_same [OF assms(2)] by (simp add: same_limits_def crew_def best_effort_ones_def limits_def)

text \<open>A call enters the unresolved ones or leaves them, raises the limits or gives them back.\<close>

lemma card_insert_Int: "finite A \<Longrightarrow> v \<notin> A \<Longrightarrow> card (insert v A \<inter> B) = card (A \<inter> B) + of_bool (v \<in> B)"
  by (simp add: Int_insert_left)

lemma card_remove_Int: "finite A \<Longrightarrow> v \<in> A \<Longrightarrow> card (A \<inter> B) = card ((A - {v}) \<inter> B) + of_bool (v \<in> B)"
  using card_insert_Int [of "A - {v}" v B] by (simp add: insert_absorb)

lemma counted_enter: "counted n b R U B (x, y, u, z) \<Longrightarrow> v \<notin> U \<Longrightarrow> counted n b R (insert v U) B (x, y, u + 1, z + of_bool (v \<in> B))"
  by (simp add: counted_def card_insert_Int)

lemma counted_leave: "counted n b R U B (x, y, u, z) \<Longrightarrow> v \<in> U \<Longrightarrow> counted n b R (U - {v}) B (x, y, u - 1, z - of_bool (v \<in> B))"
  using card.remove [of U v] by (simp add: counted_def card_remove_Int [of U v])

lemma counted_raise: "counted n b R U B (x, y, u, z) \<Longrightarrow> v \<notin> R \<Longrightarrow> counted n b (insert v R) U B (x + 1, y + of_bool (v \<in> B), u, z)"
  by (simp add: counted_def card_insert_Int)

lemma counted_lower: "counted n b R U B (x, y, u, z) \<Longrightarrow> v \<in> R \<Longrightarrow> counted n b (R - {v}) U B (x - 1, y - of_bool (v \<in> B), u, z)"
  using card.remove [of R v] by (simp add: counted_def card_remove_Int [of R v])

lemma blocked_sets_update:
  "raised_by (upd_info v f c) = (if incremented_max_tasks_since_blocked (f (worker_infos c v)) then insert v (raised_by c) else raised_by c - {v})"
  "unresolved_in (upd_info v f c) = (if may_block_start_time (f (worker_infos c v)) \<noteq> 0 \<and> \<not> incremented_max_tasks_since_blocked (f (worker_infos c v))
     then insert v (unresolved_in c) else unresolved_in c - {v})"
  "raised_by (count_unresolved d be c) = raised_by c" "unresolved_in (count_unresolved d be c) = unresolved_in c"
  "raised_by (c\<lparr>max_tasks := k\<rparr>) = raised_by c" "unresolved_in (c\<lparr>max_tasks := k\<rparr>) = unresolved_in c"
  "raised_by (c\<lparr>adjust_max_tasks_posted := p\<rparr>) = raised_by c" "unresolved_in (c\<lparr>adjust_max_tasks_posted := p\<rparr>) = unresolved_in c"
  by (auto simp: raised_by_def unresolved_in_def upd_info_def count_unresolved_def split: if_splits)

lemma limits_update:
  "limits g pl (upd_info v f c) = limits g pl c" "limits g pl (c\<lparr>adjust_max_tasks_posted := p\<rparr>) = limits g pl c"
  "limits g pl (count_unresolved d be c) = (case limits g pl c of (x, y, u, z) \<Rightarrow> (x, y, u + d, z + (if be then d else 0)))"
  "limits g (fst (IncrementMaxTasks g be (pl, c))) (snd (IncrementMaxTasks g be (pl, c))) =
     (case limits g pl c of (x, y, u, z) \<Rightarrow> (x + 1, y + of_bool be, u, z))"
  "limits g (fst (DecrementMaxTasks g be (pl, c))) (snd (DecrementMaxTasks g be (pl, c))) =
     (case limits g pl c of (x, y, u, z) \<Rightarrow> (x - 1, y - of_bool be, u, z))"
  by (simp_all add: limits_def upd_info_def count_unresolved_def IncrementMaxTasks_def DecrementMaxTasks_def)

lemma max_tasks_frame:
  "workers (fst (IncrementMaxTasks g be (pl, c))) = workers pl" "workers (fst (DecrementMaxTasks g be (pl, c))) = workers pl"
  "best_effort_ones (fst (IncrementMaxTasks g be (pl, c))) = best_effort_ones pl"
  "best_effort_ones (fst (DecrementMaxTasks g be (pl, c))) = best_effort_ones pl"
  "raised_by (snd (IncrementMaxTasks g be (pl, c))) = raised_by c" "raised_by (snd (DecrementMaxTasks g be (pl, c))) = raised_by c"
  "unresolved_in (snd (IncrementMaxTasks g be (pl, c))) = unresolved_in c" "unresolved_in (snd (DecrementMaxTasks g be (pl, c))) = unresolved_in c"
  by (simp_all add: IncrementMaxTasks_def DecrementMaxTasks_def best_effort_ones_def blocked_sets_update)

text \<open>The blocking calls.\<close>

lemma mem_best_effort: "v \<in> best_effort_ones pl \<longleftrightarrow> is_running_best_effort_task (workers pl v)"
  by (simp add: best_effort_ones_def)

lemma not_blocked: "v \<notin> raised_by c \<Longrightarrow> v \<notin> unresolved_in c \<Longrightarrow>
    \<not> incremented_max_tasks_since_blocked (worker_infos c v) \<and> may_block_start_time (worker_infos c v) = 0"
  by (auto simp: raised_by_def unresolved_in_def)

lemma may_block_limits:
  assumes k: "limits_ok g n b pl c" and v: "is_running_task (workers pl v)" "v \<notin> raised_by c" "v \<notin> unresolved_in c" and now: "now \<noteq> 0"
  shows "limits_ok g n b pl (count_unresolved 1 (is_running_best_effort_task (workers pl v)) (upd_info v (may_block_start_time_update (\<lambda>_. now)) c))"
proof -
  obtain x y u z where l: "limits g pl c = (x, y, u, z)" by (metis prod.collapse)
  show ?thesis using k v now not_blocked [OF v(2,3)] counted_enter [of n b "raised_by c" "unresolved_in c" "best_effort_ones pl" x y u z v] unfolding limits_ok_def
    by (simp add: blocked_sets_update limits_update l mem_best_effort of_bool_def)
qed

lemma raise_limits:
  assumes k: "limits_ok g n b pl c" and v: "is_running_task (workers pl v)" "v \<notin> raised_by c" "v \<notin> unresolved_in c"
    and i: "IncrementMaxTasks g (is_running_best_effort_task (workers pl v)) (pl, upd_info v (incremented_max_tasks_since_blocked_update (\<lambda>_. True)) c) = (pl', c')"
  shows "limits_ok g n b pl' c'"
proof -
  obtain x y u z where l: "limits g pl c = (x, y, u, z)" by (metis prod.collapse)
  let ?c = "upd_info v (incremented_max_tasks_since_blocked_update (\<lambda>_. True)) c" and ?be = "is_running_best_effort_task (workers pl v)"
  have "limits_ok g n b (fst (IncrementMaxTasks g ?be (pl, ?c))) (snd (IncrementMaxTasks g ?be (pl, ?c)))"
    using k v counted_raise [of n b "raised_by c" "unresolved_in c" "best_effort_ones pl" x y u z v] unfolding limits_ok_def
    by (simp add: max_tasks_frame blocked_sets_update limits_update l mem_best_effort)
  then show ?thesis using i by simp
qed

lemma leave_limits:
  assumes k: "limits_ok g n b pl c" and v: "v \<in> unresolved_in c" and f: "may_block_start_time (f (worker_infos c v)) = 0"
    "\<not> incremented_max_tasks_since_blocked (f (worker_infos c v))"
  shows "limits_ok g n b pl (count_unresolved (- 1) (is_running_best_effort_task (workers pl v)) (upd_info v f c))"
    "v \<notin> raised_by (upd_info v f c)" "v \<notin> unresolved_in (upd_info v f c)"
proof -
  obtain x y u z where l: "limits g pl c = (x, y, u, z)" by (metis prod.collapse)
  have n: "v \<notin> raised_by c" using v by (simp add: raised_by_def unresolved_in_def)
  show "limits_ok g n b pl (count_unresolved (- 1) (is_running_best_effort_task (workers pl v)) (upd_info v f c))"
    using k v f n counted_leave [of n b "raised_by c" "unresolved_in c" "best_effort_ones pl" x y u z v] unfolding limits_ok_def
    by (auto simp: blocked_sets_update limits_update l mem_best_effort of_bool_def split: if_splits)
  show "v \<notin> raised_by (upd_info v f c)" "v \<notin> unresolved_in (upd_info v f c)" using f by (simp_all add: blocked_sets_update)
qed

lemma upd_info_max: "upd_info v f (c\<lparr>max_tasks := k\<rparr>) = (upd_info v f c)\<lparr>max_tasks := k\<rparr>"
  "upd_info v f (count_unresolved d be c) = count_unresolved d be (upd_info v f c)"
  by (simp_all add: upd_info_def count_unresolved_def)

lemma ended_limits:
  assumes k: "limits_ok g n b pl c" and g: "worker_group (workers pl v) = g" and v: "v \<in> raised_by c \<union> unresolved_in c" and e: "BlockingEnded v (pl, c) = (pl', c')"
  shows "limits_ok g n b pl' c'" "workers pl' = workers pl" "v \<notin> raised_by c'" "v \<notin> unresolved_in c'"
proof -
  obtain x y u z where l: "limits g pl c = (x, y, u, z)" by (metis prod.collapse)
  let ?f = "\<lambda>i. i\<lparr>incremented_max_tasks_since_blocked := False, may_block_start_time := 0\<rparr>"
  let ?be = "is_running_best_effort_task (workers pl v)"
  have "limits_ok g n b pl' c' \<and> workers pl' = workers pl \<and> v \<notin> raised_by c' \<and> v \<notin> unresolved_in c'"
  proof (cases "v \<in> raised_by c")
    case True
    then have u: "v \<notin> unresolved_in c" by (simp add: raised_by_def unresolved_in_def)
    have d: "pl' = fst (DecrementMaxTasks g ?be (pl, c))" "c' = upd_info v ?f (snd (DecrementMaxTasks g ?be (pl, c)))"
      using e True g by (auto simp: BlockingEnded_def raised_by_def Let_def split: prod.splits)
    have c': "c' = snd (DecrementMaxTasks g ?be (pl, upd_info v ?f c))" "pl' = fst (DecrementMaxTasks g ?be (pl, upd_info v ?f c))"
      unfolding d by (simp_all add: DecrementMaxTasks_def upd_info_max) (simp add: upd_info_def)
    show ?thesis unfolding c' using k True u counted_lower [of n b "raised_by c" "unresolved_in c" "best_effort_ones pl" x y u z v] unfolding limits_ok_def
      by (auto simp: max_tasks_frame blocked_sets_update limits_update l mem_best_effort)
  next
    case False
    then have u: "v \<in> unresolved_in c" using v by simp
    have d: "pl' = pl" "c' = count_unresolved (- 1) ?be (upd_info v ?f c)"
      using e False by (auto simp: BlockingEnded_def raised_by_def Let_def upd_info_max)
    show ?thesis unfolding d using leave_limits [OF k u, of ?f] by (simp add: blocked_sets_update)
  qed
  then show "limits_ok g n b pl' c'" "workers pl' = workers pl" "v \<notin> raised_by c'" "v \<notin> unresolved_in c'" by simp_all
qed

section \<open>Steps of one group\<close>

text \<open>
  The state of one group, all of whose workers belong to it. Others may post to its queue, take sources out
  of it and change the policy; whoever raises the demand calls \<^const>\<open>EnsureEnoughWorkers\<close>, and so does a worker
  when it begins to get work. A worker that does not run a task may try to take one, after a wake-up or
  because its sleep has timed out. The second part of an upgrade is a call that will block.
\<close>

inductive staff_step :: "thread_group \<Rightarrow> thread_pool \<times> group_crew \<Rightarrow> thread_pool \<times> group_crew \<Rightarrow> bool" for g where
  demand: "0 < now \<Longrightarrow> crew pl' = crew pl \<Longrightarrow> EnsureEnoughWorkers g now pl' (executor_new, c) = (ex, c') \<Longrightarrow> staff_step g (pl, c) (pl', c')"
| relief: "crew pl' = crew pl \<Longrightarrow> staff_step g (pl, c) (pl', c)"
| get_work: "0 < now \<Longrightarrow> v \<in> set (group_workers c) \<Longrightarrow> \<not> is_running_task (workers pl v) \<Longrightarrow>
    GetWork_take now v (pl, c) = (r, s) \<Longrightarrow> staff_step g (pl, c) s"
| did_run: "is_running_task (workers pl v) \<Longrightarrow> v \<notin> raised_by c \<Longrightarrow> v \<notin> unresolved_in c \<Longrightarrow> worker_DidRunTask v r pl = Some pl' \<Longrightarrow>
    staff_step g (pl, c) (pl', c)"
| block: "0 < now \<Longrightarrow> is_running_task (workers pl v) \<Longrightarrow> v \<notin> raised_by c \<Longrightarrow> v \<notin> unresolved_in c \<Longrightarrow>
    BlockingStarted now b v (pl, c) = (es, s) \<Longrightarrow> staff_step g (pl, c) s"
| upgrade: "v \<in> raised_by c \<union> unresolved_in c \<Longrightarrow> BlockingTypeUpgraded_begin v (pl, c) = (go, s) \<Longrightarrow> staff_step g (pl, c) s"
| unblock: "v \<in> raised_by c \<union> unresolved_in c \<Longrightarrow> BlockingEnded v (pl, c) = s \<Longrightarrow> staff_step g (pl, c) s"
| adjust: "0 < now \<Longrightarrow> adjust_max_tasks_posted c \<Longrightarrow> AdjustMaxTasks g now (pl, c) = (es, s) \<Longrightarrow> staff_step g (pl, c) s"

definition staff_inv :: "thread_group \<Rightarrow> nat \<Rightarrow> nat \<Rightarrow> thread_pool \<times> group_crew \<Rightarrow> bool" where
  "staff_inv g n b s \<longleftrightarrow> stack_ok (snd s) \<and> unused (snd s) \<and> (\<forall>v. worker_group (workers (fst s) v) = g) \<and>
     (\<forall>v. is_running_task (workers (fst s) v) \<longrightarrow> v \<in> awake (snd s)) \<and>
     (\<forall>v. is_running_best_effort_task (workers (fst s) v) \<longrightarrow> is_running_task (workers (fst s) v)) \<and> limits_ok g n b (fst s) (snd s)"

lemma staff_invD:
  assumes "staff_inv g n b (pl, c)"
  shows "stack_ok c" "unused c" "worker_group (workers pl v) = g" "is_running_task (workers pl v) \<Longrightarrow> v \<in> awake c"
    "is_running_best_effort_task (workers pl v) \<Longrightarrow> is_running_task (workers pl v)" "limits_ok g n b pl c"
    "v \<in> raised_by c \<union> unresolved_in c \<Longrightarrow> is_running_task (workers pl v)"
  using assms by (auto simp: staff_inv_def limits_ok_def)

lemma staff_invI:
  assumes "staff_inv g n b (pl, c)" "stack_ok c'" "unused c'" "workers pl' = workers pl" "awake c \<subseteq> awake c'" "limits_ok g n b pl' c'"
  shows "staff_inv g n b (pl', c')"
  using assms by (auto simp: staff_inv_def)

lemma ensure_inv:
  assumes i: "staff_inv g n b (pl, c)" and now: "0 < now" and p: "crew pl' = crew pl" and e: "EnsureEnoughWorkers g now pl' (ex, c) = (ex', c')"
  shows "staff_inv g n b (pl', c')"
proof -
  note I = staff_invD [OF i]
  have now': "now \<noteq> 0" using now by simp
  obtain ws where "woken ws (ex, c) (EnsureEnoughWorkers g now pl' (ex, c))"
    by (rule Ensure_ok [of "(ex, c)" now g pl']) (use I(1,2) now' in auto)
  note W = wokenD [OF this, simplified e, simplified]
  show ?thesis
    by (rule staff_invI [OF i W(1) same_limits_unused [OF W(2) I(2)]])
      (use W(3) p limits_same [OF I(6) W(2) p] in \<open>auto simp: crew_def\<close>)
qed

text \<open>Changing the part of a busy worker that has to do with blocking.\<close>

lemma info_frame:
  assumes "stack_ok c" "unused c" "v \<in> awake c" "\<And>i. last_used_time (f i) = last_used_time i"
  shows "stack_ok (upd_info v f c)" "unused (upd_info v f c)" "awake (upd_info v f c) = awake c"
proof -
  have "v < next_worker c" using assms(1,3) stack_okD(5) by (auto simp: awake_def)
  then show "unused (upd_info v f c)" using assms(2) by (simp add: unused_def upd_info_def)
  show "stack_ok (upd_info v f c)" "awake (upd_info v f c) = awake c"
    using assms(1,4) by (auto simp: stack_ok_def upd_info_def awake_def)
qed

lemma count_frame:
  "stack_ok (count_unresolved d be c) = stack_ok c" "unused (count_unresolved d be c) = unused c" "awake (count_unresolved d be c) = awake c"
  "stack_ok (c\<lparr>max_tasks := k\<rparr>) = stack_ok c" "unused (c\<lparr>max_tasks := k\<rparr>) = unused c" "awake (c\<lparr>max_tasks := k\<rparr>) = awake c"
  "stack_ok (c\<lparr>adjust_max_tasks_posted := p\<rparr>) = stack_ok c" "unused (c\<lparr>adjust_max_tasks_posted := p\<rparr>) = unused c"
  "awake (c\<lparr>adjust_max_tasks_posted := p\<rparr>) = awake c"
  by (simp_all add: count_unresolved_def stack_ok_def unused_def awake_def)

lemma raise_inv:
  assumes i: "staff_inv g n b (pl, c)" and v: "is_running_task (workers pl v)" "v \<notin> raised_by c" "v \<notin> unresolved_in c"
    and r: "IncrementMaxTasks g (is_running_best_effort_task (workers pl v)) (pl, upd_info v (incremented_max_tasks_since_blocked_update (\<lambda>_. True)) c) = (pl', c')"
  shows "staff_inv g n b (pl', c')"
proof -
  note I = staff_invD [OF i]
  note F = info_frame [OF I(1,2) I(4) [OF v(1)], of "incremented_max_tasks_since_blocked_update (\<lambda>_. True)", simplified]
  show ?thesis
  proof (rule staff_invI [OF i _ _ _ _ raise_limits [OF I(6) v r]])
    show "stack_ok c'" "unused c'" "awake c \<subseteq> awake c'" "workers pl' = workers pl"
      using r F by (auto simp: IncrementMaxTasks_def count_frame)
  qed
qed

lemma will_block_inv:
  assumes i: "staff_inv g n b (pl, c)" and now: "0 < now" and v: "is_running_task (workers pl v)" "v \<notin> raised_by c" "v \<notin> unresolved_in c"
    and r: "WillBlockEntered now v (pl, c) = (es, s)"
  shows "staff_inv g n b s"
proof -
  obtain pl' c' where m: "IncrementMaxTasks g (is_running_best_effort_task (workers pl v)) (pl, upd_info v (incremented_max_tasks_since_blocked_update (\<lambda>_. True)) c) = (pl', c')"
    by force
  obtain ex c'' where e: "EnsureEnoughWorkers g now pl' (executor_new, c') = (ex, c'')" by force
  have "s = (pl', c'')" using r m e staff_invD(3) [OF i] by (simp add: WillBlockEntered_def Let_def)
  then show ?thesis using ensure_inv [OF raise_inv [OF i v m] now refl e] by simp
qed

lemma may_block_inv:
  assumes i: "staff_inv g n b (pl, c)" and now: "0 < now" and v: "is_running_task (workers pl v)" "v \<notin> raised_by c" "v \<notin> unresolved_in c"
    and r: "MayBlockEntered now v (pl, c) = (es, s)"
  shows "staff_inv g n b s"
proof -
  note I = staff_invD [OF i]
  define d where "d = count_unresolved 1 (is_running_best_effort_task (workers pl v)) (upd_info v (may_block_start_time_update (\<lambda>_. now)) c)"
  note F = info_frame [OF I(1,2) I(4) [OF v(1)], of "may_block_start_time_update (\<lambda>_. now)", simplified]
  have D: "stack_ok d" "unused d" "awake d = awake c" using F by (simp_all add: d_def count_frame)
  have l: "limits_ok g n b pl d" unfolding d_def by (rule may_block_limits [OF I(6) v]) (use now in simp)
  obtain ex c' where m: "MaybeScheduleAdjustMaxTasks g pl (executor_new, d) = (ex, c')" by force
  have "woken [] (executor_new, d) (ex, c')" using MaybeSchedule_ok(1) [of "(executor_new, d)" g pl] D(1) m by simp
  note W = wokenD [OF this, simplified]
  have "s = (pl, c')" using r m I(3) by (simp add: MayBlockEntered_def Let_def d_def)
  moreover have "staff_inv g n b (pl, c')"
    by (rule staff_invI [OF i W(1) same_limits_unused [OF W(2) D(2)] refl _ limits_same [OF l W(2) refl]]) (use W(3) D(3) in simp)
  ultimately show ?thesis by simp
qed

lemma block_inv:
  assumes "staff_inv g n b (pl, c)" "0 < now" "is_running_task (workers pl v)" "v \<notin> raised_by c" "v \<notin> unresolved_in c"
    "BlockingStarted now k v (pl, c) = (es, s)"
  shows "staff_inv g n b s"
  using assms(6) will_block_inv [OF assms(1-5)] may_block_inv [OF assms(1-5)]
  by (auto simp: BlockingStarted_def split: if_splits blocking_type.splits)

lemma upgrade_inv:
  assumes i: "staff_inv g n b (pl, c)" and v: "v \<in> raised_by c \<union> unresolved_in c" and r: "BlockingTypeUpgraded_begin v (pl, c) = (go, s)"
  shows "staff_inv g n b s"
proof (cases "may_block_without_delay c \<or> v \<in> raised_by c")
  case True
  then have "s = (pl, c)" using r by (cases "may_block_without_delay c") (simp_all add: BlockingTypeUpgraded_begin_def raised_by_def)
  then show ?thesis using i by simp
next
  case False
  note I = staff_invD [OF i]
  let ?f = "may_block_start_time_update (\<lambda>_. 0)"
  define d where "d = count_unresolved (- 1) (is_running_best_effort_task (workers pl v)) (upd_info v ?f c)"
  have u: "v \<in> unresolved_in c" using v False by simp
  have nf: "\<not> incremented_max_tasks_since_blocked (?f (worker_infos c v))" using False by (simp add: raised_by_def)
  note L = leave_limits [OF I(6) u, of ?f, OF _ nf, simplified, folded d_def]
  note F = info_frame [OF I(1,2) I(4) [OF I(7) [OF v]], of ?f, simplified]
  have "staff_inv g n b (pl, d)"
    by (rule staff_invI [OF i _ _ refl _ L(1)]) (use F in \<open>simp_all add: d_def count_frame\<close>)
  moreover have "s = (pl, d)"
    using r False u by (auto simp: BlockingTypeUpgraded_begin_def raised_by_def unresolved_in_def d_def)
  ultimately show ?thesis by simp
qed

lemma unblock_inv:
  assumes i: "staff_inv g n b (pl, c)" and v: "v \<in> raised_by c \<union> unresolved_in c" and r: "BlockingEnded v (pl, c) = s"
  shows "staff_inv g n b s"
proof -
  note I = staff_invD [OF i]
  obtain pl' c' where s: "s = (pl', c')" by force
  note E = ended_limits [OF I(6) I(3) v r [unfolded s]]
  let ?f = "\<lambda>i. i\<lparr>incremented_max_tasks_since_blocked := False, may_block_start_time := 0\<rparr>"
  note F = info_frame [OF I(1,2) I(4) [OF I(7) [OF v]], of ?f, simplified]
  have "c' = upd_info v ?f (c\<lparr>max_tasks := max_tasks c - 1\<rparr>) \<or> c' = upd_info v ?f (count_unresolved (- 1) (is_running_best_effort_task (workers pl v)) c)"
    using r s by (cases "incremented_max_tasks_since_blocked (worker_infos c v)") (auto simp: BlockingEnded_def DecrementMaxTasks_def Let_def)
  then have "stack_ok c'" "unused c'" "awake c \<subseteq> awake c'" using F by (auto simp: upd_info_max count_frame)
  then show ?thesis unfolding s by (intro staff_invI [OF i _ _ E(2) _ E(1)])
qed

section \<open>Adjusting the limits\<close>

lemma resolve_limits:
  assumes k: "limits_ok g n b pl c" and v: "v \<in> unresolved_in c"
    and i: "IncrementMaxTasks g (is_running_best_effort_task (workers pl v)) (pl, count_unresolved (- 1) (is_running_best_effort_task (workers pl v))
      (upd_info v (incremented_max_tasks_since_blocked_update (\<lambda>_. True)) c)) = (pl', c')"
  shows "limits_ok g n b pl' c'"
proof -
  obtain x y u z where l: "limits g pl c = (x, y, u, z)" by (metis prod.collapse)
  let ?be = "is_running_best_effort_task (workers pl v)"
  let ?c = "count_unresolved (- 1) ?be (upd_info v (incremented_max_tasks_since_blocked_update (\<lambda>_. True)) c)"
  have r: "v \<notin> raised_by c" using v by (simp add: raised_by_def unresolved_in_def)
  have c: "counted n b (raised_by c) (unresolved_in c) (best_effort_ones pl) (x, y, u, z)" using k l by (simp add: limits_ok_def)
  have "limits_ok g n b (fst (IncrementMaxTasks g ?be (pl, ?c))) (snd (IncrementMaxTasks g ?be (pl, ?c)))"
    using k v counted_raise [OF counted_leave [OF c v] r] unfolding limits_ok_def
    by (auto simp: max_tasks_frame blocked_sets_update limits_update l mem_best_effort of_bool_def)
  then show ?thesis using i by simp
qed

lemma adjust_worker_inv:
  assumes i: "staff_inv g n b (pl, c)" and a: "adjust_worker g now v (pl, c) = s"
  shows "staff_inv g n b s"
proof (cases "fst (MustIncrementMaxTasks now v (pl, c))")
  case False
  then have "s = (pl, c)" using a by (auto simp: adjust_worker_def MustIncrementMaxTasks_def Let_def split: if_splits)
  then show ?thesis using i by simp
next
  case True
  note I = staff_invD [OF i]
  let ?f = "incremented_max_tasks_since_blocked_update (\<lambda>_. True)"
  let ?c = "count_unresolved (- 1) (is_running_best_effort_task (workers pl v)) (upd_info v ?f c)"
  have v: "v \<in> unresolved_in c" using True by (auto simp: MustIncrementMaxTasks_def unresolved_in_def Let_def split: if_splits)
  obtain pl' c' where s: "s = (pl', c')" by force
  have e: "IncrementMaxTasks g (is_running_best_effort_task (workers pl v)) (pl, ?c) = (pl', c')"
    using a True s by (auto simp: adjust_worker_def MustIncrementMaxTasks_def Let_def split: if_splits)
  note F = info_frame [OF I(1,2) I(4) [OF I(7)], of v ?f, simplified]
  have "stack_ok c'" "unused c'" "awake c \<subseteq> awake c'" "workers pl' = workers pl"
    using e F v by (auto simp: IncrementMaxTasks_def count_frame)
  then show ?thesis unfolding s by (intro staff_invI [OF i _ _ _ _ resolve_limits [OF I(6) v e]])
qed

lemma adjust_workers_inv: "staff_inv g n b s \<Longrightarrow> staff_inv g n b (fold (adjust_worker g now) vs s)"
proof (induction vs arbitrary: s)
  case (Cons v vs)
  then show ?case using adjust_worker_inv [of g n b "fst s" "snd s" now v] by simp
qed simp

lemma adjust_inv:
  assumes i: "staff_inv g n b (pl, c)" and now: "0 < now" and r: "AdjustMaxTasks g now (pl, c) = (es, s)"
  shows "staff_inv g n b s"
proof -
  let ?c = "c\<lparr>adjust_max_tasks_posted := False\<rparr>"
  have "staff_inv g n b (pl, ?c)" using i by (simp add: staff_inv_def count_frame limits_ok_def blocked_sets_update limits_update)
  moreover obtain pl' c' where f: "fold (adjust_worker g now) (group_workers c) (pl, ?c) = (pl', c')" by force
  ultimately have i': "staff_inv g n b (pl', c')" using adjust_workers_inv by metis
  obtain ex c'' where e: "EnsureEnoughWorkers g now pl' (executor_new, c') = (ex, c'')" by force
  have "s = (pl', c'')" using r f e by (simp add: AdjustMaxTasks_def Let_def)
  then show ?thesis using ensure_inv [OF i' now refl e] by simp
qed

section \<open>Workers that take and finish work\<close>

lemma worker_change_limits:
  assumes "limits_ok g n b pl c" "v \<notin> raised_by c" "v \<notin> unresolved_in c" "workers pl' = (workers pl)(v := w)"
    "max_best_effort_tasks pl' = max_best_effort_tasks pl"
  shows "limits_ok g n b pl' c"
proof -
  have "A \<inter> best_effort_ones pl' = A \<inter> best_effort_ones pl" if "v \<notin> A" for A
    using that assms(4) by (auto simp: best_effort_ones_def)
  then have "raised_by c \<inter> best_effort_ones pl' = raised_by c \<inter> best_effort_ones pl"
    "unresolved_in c \<inter> best_effort_ones pl' = unresolved_in c \<inter> best_effort_ones pl" using assms(2,3) by blast+
  then show ?thesis using assms unfolding limits_ok_def counted_def limits_def by auto
qed

lemma worker_change_inv:
  assumes i: "staff_inv g n b (pl, c)" and v: "v \<notin> raised_by c" "v \<notin> unresolved_in c" "v \<in> awake c"
    and w: "workers pl' = (workers pl)(v := w)" "worker_group w = g" "is_running_best_effort_task w \<Longrightarrow> is_running_task w"
    and m: "max_best_effort_tasks pl' = max_best_effort_tasks pl"
  shows "staff_inv g n b (pl', c)"
  using i worker_change_limits [OF staff_invD(6) [OF i] v(1,2) w(1) m] v(3) w by (auto simp: staff_inv_def)

lemma did_run_inv:
  assumes i: "staff_inv g n b (pl, c)" and v: "is_running_task (workers pl v)" "v \<notin> raised_by c" "v \<notin> unresolved_in c"
    and r: "worker_DidRunTask v r pl = Some pl'"
  shows "staff_inv g n b (pl', c)"
proof -
  have "crew pl' = crew (worker_free v pl)"
    using r by (auto simp: put_back_free ReEnqueueTaskSource_def split: option.splits dest: crew_group_Push)
  then have "workers pl' = (workers pl)(v := \<lparr>worker_group = g, is_running_task = False, is_running_best_effort_task = False\<rparr>)"
    "max_best_effort_tasks pl' = max_best_effort_tasks pl" using staff_invD(3) [OF i] by (simp_all add: crew_def worker_free_def Let_def)
  then show ?thesis using worker_change_inv [OF i v(2,3) staff_invD(4) [OF i v(1)], of pl'
      "\<lparr>worker_group = g, is_running_task = False, is_running_best_effort_task = False\<rparr>"] by simp
qed

lemma remove1_below_last: "distinct xs \<Longrightarrow> v \<in> set (butlast xs) \<Longrightarrow> set (butlast (remove1 v xs)) = set (butlast xs) - {v}"
  by (cases xs rule: rev_cases) (auto simp: remove1_append set_remove1_eq)

lemma Cleanup_ok:
  assumes k: "stack_ok c" and v: "v \<in> set (butlast (idle_workers_stack c))"
  shows "stack_ok (Cleanup v c)" "awake (Cleanup v c) = awake c" "same_limits c (Cleanup v c)" "should_exit (worker_infos (Cleanup v c) v)"
    "group_workers (Cleanup v c) = remove1 v (group_workers c)"
proof -
  note K = stack_okD [OF k]
  let ?c = "Cleanup v c"
  show w: "group_workers ?c = remove1 v (group_workers c)" and "should_exit (worker_infos ?c v)" "same_limits c ?c"
    by (auto simp: Cleanup_def upd_info_def stack_Remove_def same_limits_def blocked_info_def Let_def)
  have x: "idle_workers_stack ?c = remove1 v (idle_workers_stack c)" "next_worker ?c = next_worker c"
    "last_used_time (worker_infos ?c u) = last_used_time (worker_infos c u)" for u
    by (simp_all add: Cleanup_def upd_info_def stack_Remove_def Let_def)
  have "v \<in> set (idle_workers_stack c)" using v in_set_butlastD by fast
  then show "awake ?c = awake c" using K(1,2) by (auto simp: awake_def w x(1))
  show "stack_ok ?c" unfolding stack_ok_def w x remove1_below_last [OF K(2) v]
    using K(1-6) by (auto simp: length_remove1)
qed

lemma idle_membership:
  assumes k: "stack_ok c" and v: "v \<in> set (group_workers c)"
  shows "stack_Peek c = Some v \<or> last_used_time (worker_infos c v) \<noteq> 0 \<longleftrightarrow> v \<in> set (idle_workers_stack c)"
  using stack_okD(6) [OF k v] by (cases "idle_workers_stack c" rule: rev_cases) (auto simp: stack_Peek_def)

text \<open>A worker goes to the stack when it has nothing to do.\<close>

lemma idle_inv:
  assumes i: "staff_inv g n b (pl, c)" and v: "v \<in> set (group_workers c)" "v \<notin> set (idle_workers_stack c)" "\<not> is_running_task (workers pl v)" and now: "0 < now"
  shows "staff_inv g n b (pl, OnWorkerBecomesIdle now v c)"
proof -
  note I = staff_invD [OF i]
  have "now \<noteq> 0" using now by simp
  note P = stack_Push_ok [OF I(1) v(1,2) this]
  have "is_running_task (workers pl u) \<Longrightarrow> u \<in> awake (stack_Push now v c)" for u
    using I(4) [of u] v(3) by (auto simp: awake_def P)
  then show ?thesis using P(1) same_limits_unused [OF P(4) I(2)] limits_same [OF I(6) P(4) refl] i
    by (simp add: staff_inv_def OnWorkerBecomesIdle_def)
qed

lemma cleanup_inv:
  assumes i: "staff_inv g n b (pl, c)" and v: "v \<in> set (butlast (idle_workers_stack c))"
  shows "staff_inv g n b (pl, Cleanup v c)"
proof -
  note I = staff_invD [OF i]
  note C = Cleanup_ok [OF I(1) v]
  show ?thesis by (rule staff_invI [OF i C(1) same_limits_unused [OF C(3) I(2)] refl _ limits_same [OF I(6) C(3) refl]]) (simp add: C(2))
qed

text \<open>Who may leave: a worker below the top of the stack, after its reclaim time, where the limits allow it.\<close>

lemma CanCleanup_iff:
  assumes k: "stack_ok c" and v: "v \<in> set (idle_workers_stack c)"
  shows "CanCleanup now v c \<longleftrightarrow> v \<noteq> last (idle_workers_stack c) \<and> suggested_reclaim_time c \<le> now - last_used_time (worker_infos c v) \<and>
    (initial_max_tasks c < length (group_workers c) \<or> \<not> no_detach_below_initial_capacity c) \<and> \<not> worker_cleanup_disallowed c"
proof -
  obtain xs x where x: "idle_workers_stack c = xs @ [x]" using v by (cases "idle_workers_stack c" rule: rev_cases) auto
  have "v \<in> set (group_workers c)" using stack_okD(3) [OF k] v by blast
  then have "last_used_time (worker_infos c v) \<noteq> 0 \<longleftrightarrow> v \<noteq> last (idle_workers_stack c)"
    using stack_okD(6) [OF k, of v] stack_okD(2) [OF k] v x by auto
  then show ?thesis by (auto simp: CanCleanup_def Let_def)
qed

text \<open>What getting work amounts to, in the five cases.\<close>

lemma GetWork_take_cases:
  assumes k: "stack_ok c" and v: "v \<in> set (group_workers c)" and r: "GetWork_take now v (pl, c) = (r, pl', c')" and g: "worker_group (workers pl v) = g"
  obtains (asleep) "r = None" "pl' = pl" "c' = c" "v \<in> set (idle_workers_stack c)" "\<not> CanCleanup now v c"
  | (dismissed) "r = None" "pl' = pl" "c' = Cleanup v c" "v \<in> set (butlast (idle_workers_stack c))" "CanCleanup now v c"
  | (sent_away) "r = None" "pl' = pl" "c' = OnWorkerBecomesIdle now v c" "v \<notin> set (idle_workers_stack c)"
  | (takes) "c' = c" "v \<notin> set (idle_workers_stack c)" "GetDesiredNumAwakeWorkers g pl c \<ge> GetNumAwakeWorkers c" "GetWork True v pl = (r, pl')"
      "\<not> pq_IsEmpty (queues pl g)" "CanRunPriority (key_priority (PeekSortKey (queues pl g))) (tracker pl)"
      "key_priority (PeekSortKey (queues pl g)) = BEST_EFFORT \<longrightarrow> num_running_best_effort_tasks pl g < max_best_effort_tasks pl g"
proof (cases "v \<in> set (idle_workers_stack c)")
  case True
  then have "CanGetWork g now v pl c = (False, if CanCleanup now v c then Cleanup v c else c)"
    using idle_membership [OF k v] by (simp add: CanGetWork_def)
  then have t: "r = None \<and> pl' = pl \<and> c' = (if CanCleanup now v c then Cleanup v c else c)" using r g by (simp add: GetWork_take_def)
  show ?thesis
  proof (cases "CanCleanup now v c")
    case True
    then have "last_used_time (worker_infos c v) \<noteq> 0" by (simp add: CanCleanup_def Let_def)
    then show ?thesis using t True dismissed stack_okD(6) [OF k v] by simp
  qed (use t True asleep in simp)
next
  case False
  then have e: "CanGetWork g now v pl c = (if GetDesiredNumAwakeWorkers g pl c < GetNumAwakeWorkers c then (False, OnWorkerBecomesIdle now v c) else (True, c))"
    using idle_membership [OF k v] by (simp add: CanGetWork_def)
  show ?thesis
  proof (cases "GetDesiredNumAwakeWorkers g pl c < GetNumAwakeWorkers c")
    case True
    then show ?thesis using r g e False sent_away by (simp add: GetWork_take_def)
  next
    case n: False
    obtain r2 p2 where w: "GetWork True v pl = (r2, p2)" by force
    show ?thesis using r g e n False sent_away takes w by (simp add: GetWork_take_def Let_def not_less not_le split: if_splits)
  qed
qed

lemma take_inv:
  assumes i: "staff_inv g n b (pl, c)" and now: "0 < now" and v: "v \<in> set (group_workers c)" "\<not> is_running_task (workers pl v)"
    and r: "GetWork_take now v (pl, c) = (r, s)"
  shows "staff_inv g n b s"
proof -
  note I = staff_invD [OF i]
  obtain pl' c' where s: "s = (pl', c')" by force
  show ?thesis
  proof (cases rule: GetWork_take_cases [OF I(1) v(1) r [unfolded s] I(3), case_names asleep dismissed sent_away takes])
    case asleep
    then show ?thesis using i s by simp
  next
    case dismissed
    then show ?thesis using cleanup_inv [OF i] s by simp
  next
    case sent_away
    then show ?thesis using idle_inv [OF i v(1) _ v(2) now] s by simp
  next
    case takes
    define be where "be \<longleftrightarrow> key_priority (PeekSortKey (queues pl g)) = BEST_EFFORT"
    let ?w = "\<lparr>worker_group = g, is_running_task = True, is_running_best_effort_task = be\<rparr>"
    have n: "\<not> is_running_best_effort_task (workers pl v)" using I(5) v(2) by blast
    have w: "worker_group (workers pl v) = g" by (rule I(3))
    have "workers pl' = (workers pl)(v := ?w)" "max_best_effort_tasks pl' = max_best_effort_tasks pl"
      using takes n unfolding GetWork_def Let_def be_def w
      by (cases "workers pl v", insert w, force split: if_splits prod.splits)+
    moreover have "v \<notin> raised_by c" "v \<notin> unresolved_in c" using I(7) [of v] v(2) by blast+
    moreover have "v \<in> awake c" using takes v(1) by (simp add: awake_def)
    ultimately show ?thesis using worker_change_inv [OF i, of v pl' ?w] takes s by simp
  qed
qed

section \<open>Reachable states\<close>

lemma staff_step_inv:
  assumes "staff_step g s s'" "staff_inv g n b s"
  shows "staff_inv g n b s'"
  using assms
proof cases
  case (demand now pl' pl c ex c')
  then show ?thesis using ensure_inv assms(2) by simp
next
  case (relief pl' pl c)
  have "same_limits c c" by (simp add: same_limits_def)
  with relief show ?thesis using assms(2) staff_invI [of g n b pl c c pl'] limits_same [of g n b pl c c pl'] staff_invD(1,2,6) [of g n b pl c]
    by (simp add: crew_def)
next
  case (get_work now v c pl r)
  then show ?thesis using take_inv assms(2) by simp
next
  case (did_run pl v c r pl')
  then show ?thesis using did_run_inv assms(2) by simp
next
  case (block now pl v c k es)
  then show ?thesis using block_inv assms(2) by simp
next
  case (upgrade v c pl go)
  then show ?thesis using upgrade_inv assms(2) by simp
next
  case (unblock v c pl)
  then show ?thesis using unblock_inv assms(2) by simp
next
  case (adjust now c pl es)
  then show ?thesis using adjust_inv assms(2) by simp
qed

text \<open>A group starts with no workers, before its pool has given anybody a task.\<close>

inductive staff_reachable :: "thread_group \<Rightarrow> nat \<Rightarrow> nat \<Rightarrow> thread_pool \<times> group_crew \<Rightarrow> bool" for g n b where
  start: "0 < now \<Longrightarrow> \<forall>v. workers pl v = \<lparr>worker_group = g, is_running_task = False, is_running_best_effort_task = False\<rparr> \<Longrightarrow>
    group_Start g now n b reclaim without_delay normal_priority threshold (pl, ThreadGroupImpl_new no_detach) = (es, s) \<Longrightarrow> staff_reachable g n b s"
| step: "staff_reachable g n b s \<Longrightarrow> staff_step g s s' \<Longrightarrow> staff_reachable g n b s'"

lemma staff_start_inv:
  assumes now: "0 < now" and w: "\<forall>v. workers pl v = \<lparr>worker_group = g, is_running_task = False, is_running_best_effort_task = False\<rparr>"
    and r: "group_Start g now n b reclaim without_delay normal_priority threshold (pl, ThreadGroupImpl_new no_detach) = (es, s)"
  shows "staff_inv g n b s"
proof -
  define pl' where "pl' = pl\<lparr>max_best_effort_tasks := (max_best_effort_tasks pl)(g := b)\<rparr>"
  define c where "c = (ThreadGroupImpl_new no_detach)\<lparr>may_block_without_delay := without_delay,
    may_block_threshold := (case threshold of Some t \<Rightarrow> t | None \<Rightarrow> if normal_priority then kForegroundMayBlockThreshold else kBackgroundMayBlockThreshold),
    max_tasks := n, initial_max_tasks := n, suggested_reclaim_time := reclaim\<rparr>"
  have "staff_inv g n b (pl', c)" using w
    by (simp add: staff_inv_def stack_ok_def unused_def awake_def limits_ok_def counted_def limits_def raised_by_def unresolved_in_def
        blocked_info_def pl'_def c_def ThreadGroupImpl_new_def)
  moreover obtain ex c' where e: "EnsureEnoughWorkers g now pl' (executor_new, c) = (ex, c')" by force
  ultimately have "staff_inv g n b (pl', c')" using ensure_inv [OF _ now refl] by blast
  moreover have "s = (pl', c')" using r e by (simp add: group_Start_def Let_def pl'_def c_def)
  ultimately show ?thesis by simp
qed

lemma staff_reachable_inv: "staff_reachable g n b s \<Longrightarrow> staff_inv g n b s"
  by (induction rule: staff_reachable.induct) (use staff_start_inv staff_step_inv in blast)+

section \<open>Repeated wake-ups\<close>

text \<open>Every worker that is woken asks for enough workers before it looks for work; so the requests repeat until
  the wanted number is awake.\<close>

definition ensure_again :: "thread_group \<Rightarrow> int \<Rightarrow> thread_pool \<Rightarrow> group_crew \<Rightarrow> group_crew" where
  "ensure_again g now pl c = snd (snd (GetWork_ensure g now pl c))"

lemma ensure_again_ok:
  assumes k: "stack_ok c" "unused c" and now: "now \<noteq> 0" and m: "max_tasks c \<noteq> 0" and a: "card (awake c) \<le> GetDesiredNumAwakeWorkers g pl c"
  shows "stack_ok (ensure_again g now pl c)" "unused (ensure_again g now pl c)" "max_tasks (ensure_again g now pl c) = max_tasks c"
    "card (awake (ensure_again g now pl c)) = min (GetDesiredNumAwakeWorkers g pl c) (card (awake c) + 2)"
proof -
  let ?e = "EnsureEnoughWorkers g now pl (executor_new, c)"
  have e: "ensure_again g now pl c = snd ?e" by (simp add: ensure_again_def GetWork_ensure_def executor_Flush_def split: prod.splits)
  obtain ws where w: "woken ws (executor_new, c) ?e" "length ws = min (GetDesiredNumAwakeWorkers g pl c - card (awake c)) 2"
    by (rule Ensure_ok [of "(executor_new, c)" now g pl]) (use k now m in auto)
  note W = wokenD [OF w(1), simplified]
  show "stack_ok (ensure_again g now pl c)" "unused (ensure_again g now pl c)" "max_tasks (ensure_again g now pl c) = max_tasks c"
    unfolding e using W(1) same_limits_unused [OF W(2) k(2)] W(2) by (simp_all add: same_limits_def)
  have "finite (awake c)" by (simp add: awake_def)
  then have "card (awake (snd ?e)) = card (awake c) + length ws" unfolding W(3) using W(4,5) by (simp add: card_Un_disjoint distinct_card)
  then show "card (awake (ensure_again g now pl c)) = min (GetDesiredNumAwakeWorkers g pl c) (card (awake c) + 2)" unfolding e using w(2) a by simp
qed

lemma desired_same: "max_tasks c' = max_tasks c \<Longrightarrow> GetDesiredNumAwakeWorkers g pl c' = GetDesiredNumAwakeWorkers g pl c"
  by (simp add: GetDesiredNumAwakeWorkers_def)

lemma ensure_repeats:
  assumes k: "stack_ok c" "unused c" and now: "now \<noteq> 0" and m: "max_tasks c \<noteq> 0" and a: "card (awake c) \<le> GetDesiredNumAwakeWorkers g pl c"
  shows "card (awake ((ensure_again g now pl ^^ i) c)) = min (GetDesiredNumAwakeWorkers g pl c) (card (awake c) + 2 * i)"
proof -
  have "stack_ok ((ensure_again g now pl ^^ i) c) \<and> unused ((ensure_again g now pl ^^ i) c) \<and> max_tasks ((ensure_again g now pl ^^ i) c) = max_tasks c \<and>
    card (awake ((ensure_again g now pl ^^ i) c)) = min (GetDesiredNumAwakeWorkers g pl c) (card (awake c) + 2 * i)"
  proof (induction i)
    case (Suc i)
    let ?c = "(ensure_again g now pl ^^ i) c"
    have d: "GetDesiredNumAwakeWorkers g pl ?c = GetDesiredNumAwakeWorkers g pl c" using Suc by (intro desired_same) simp
    show ?case using ensure_again_ok [of ?c now g pl] Suc now m unfolding d by simp
  qed (use k a in simp)
  then show ?thesis by simp
qed

end
