(* ===== verification/Group_Example.thy ===== *)
theory Group_Example
  imports Group_Staff Pool_Example
begin

text \<open>
  A group with three queued sequences that is started with four workers at most; one worker has taken a
  sequence and is in a call that will block.
\<close>

definition post_demo :: "nat \<Rightarrow> thread_pool \<Rightarrow> thread_pool" where
  "post_demo x pl = (case PostTaskWithSequenceNow 1 (pool_Task (Some x) 0 0) x pl of Some (_, pl') \<Rightarrow> pl' | None \<Rightarrow> pl)"

definition demo_start :: "worker_event list \<times> thread_pool \<times> group_crew" where
  "demo_start = group_Start Foreground 1 4 1 30 False True None (fold post_demo [0, 1, 2] (pool demo_pool), ThreadGroupImpl_new False)"

definition demo_staff :: "thread_pool \<times> group_crew" where "demo_staff = snd demo_start"

definition demo_taken :: "thread_pool \<times> group_crew" where "demo_taken = snd (GetWork_take 2 0 demo_staff)"

definition demo_blocked :: "thread_pool \<times> group_crew" where "demo_blocked = snd (BlockingStarted 3 WILL_BLOCK 0 demo_taken)"

lemma post_demo_crew: "crew (post_demo x pl) = crew pl"
  using crew_post by (auto simp: post_demo_def split: option.splits)

lemma demo_staff_reachable: "staff_reachable Foreground 4 1 demo_staff"
proof (rule staff_reachable.start)
  let ?pl = "fold post_demo [0, 1, 2] (pool demo_pool)"
  have "crew ?pl = crew (pool demo_pool)" by (simp add: post_demo_crew)
  then show "\<forall>v. workers ?pl v = \<lparr>worker_group = Foreground, is_running_task = False, is_running_best_effort_task = False\<rparr>"
    by (simp add: crew_def demo_pool_def ThreadPool_new_def)
  show "group_Start Foreground 1 4 1 30 False True None (?pl, ThreadGroupImpl_new False) = (fst demo_start, demo_staff)"
    by (simp add: demo_staff_def demo_start_def)
qed simp

lemma demo_start_events: "fst demo_start = [WakeUp 0, WakeUp 1, StartThread 0, StartThread 1]"
  by code_simp

lemma demo_staff_view: "group_workers (snd demo_staff) = [0, 1]" "idle_workers_stack (snd demo_staff) = []" "max_tasks (snd demo_staff) = 4"
  "GetDesiredNumAwakeWorkers Foreground (fst demo_staff) (snd demo_staff) = 3" "\<not> is_running_task (workers (fst demo_staff) 0)"
  by code_simp+

lemma demo_taken_view: "is_running_task (workers (fst demo_taken) 0)" "\<not> incremented_max_tasks_since_blocked (worker_infos (snd demo_taken) 0)"
  "may_block_start_time (worker_infos (snd demo_taken) 0) = 0"
  by code_simp+

lemma demo_blocked_view: "max_tasks (snd demo_blocked) = 5" "incremented_max_tasks_since_blocked (worker_infos (snd demo_blocked) 0)"
  by code_simp+

lemma demo_taken_reachable: "staff_reachable Foreground 4 1 demo_taken"
proof (rule staff_reachable.step [OF demo_staff_reachable])
  have "staff_step Foreground (fst demo_staff, snd demo_staff) demo_taken"
    by (rule staff_step.get_work [of 2 0 _ _ "fst (GetWork_take 2 0 demo_staff)"]) (simp_all add: demo_staff_view demo_taken_def)
  then show "staff_step Foreground demo_staff demo_taken" by simp
qed

lemma demo_blocked_reachable: "staff_reachable Foreground 4 1 demo_blocked"
proof (rule staff_reachable.step [OF demo_taken_reachable])
  have "staff_step Foreground (fst demo_taken, snd demo_taken) demo_blocked"
    by (rule staff_step.block [of 3 _ 0 _ WILL_BLOCK "fst (BlockingStarted 3 WILL_BLOCK 0 demo_taken)"])
      (use demo_taken_view in \<open>simp_all add: demo_blocked_def raised_by_def unresolved_in_def\<close>)
  then show "staff_step Foreground demo_taken demo_blocked" by simp
qed

end
