(* ===== verification/Delayed_Tasks.thy ===== *)
theory Delayed_Tasks
  imports Thread_Pool "HOL-Library.Multiset"
begin

text \<open>
  Delayed posting to the thread pool: \<open>delayed_task_manager.cc\<close>, which keeps tasks in a heap until they are
  ripe and has itself called on the service thread, and \<open>ThreadPoolImpl::PostTaskWithSequence\<close> on top of it.
  Each part that holds \<open>queue_lock_\<close> is one operation; what it returns besides is the time that its thread goes
  on to schedule. \<open>dt_id\<close> tells apart the objects in the heap, whose handles nobody reads, and
  \<open>dt_sequence\<close> is the sequence that is bound to the callback.
\<close>

section \<open>State\<close>

record delayed_task =
  dt_id :: nat
  dt_task :: pool_task
  dt_sequence :: nat
  dt_scheduled :: bool

record delayed_task_manager =
  service_started :: bool
  delayed_task_queue :: "delayed_task intrusive_heap"
  delayed_handles :: "nat \<Rightarrow> nat"
  next_dt_id :: nat

definition DelayedTask_le :: "delayed_task \<Rightarrow> delayed_task \<Rightarrow> bool" where
  "DelayedTask_le a b = (pool_delayed_run_time (dt_task a) \<le> pool_delayed_run_time (dt_task b))"

definition DelayedTask_new :: "nat \<Rightarrow> pool_task \<Rightarrow> nat \<Rightarrow> delayed_task" where
  "DelayedTask_new i t x = \<lparr>dt_id = i, dt_task = t, dt_sequence = x, dt_scheduled = False\<rparr>"

definition dt_dflt :: delayed_task where "dt_dflt = DelayedTask_new 0 (pool_Task None 0 0) 0"

definition DelayedTaskManager_new :: delayed_task_manager where
  "DelayedTaskManager_new =
     \<lparr>service_started = False, delayed_task_queue = IntrusiveHeap_init dt_dflt, delayed_handles = (\<lambda>_. 0), next_dt_id = 0\<rparr>"

section \<open>Operations\<close>

text \<open>The time to schedule is that of the ripest task when nobody has scheduled it yet, otherwise \<open>TimeTicks::Max()\<close>.\<close>

definition GetTimeToScheduleProcessRipeTasks :: "delayed_task_manager \<Rightarrow> int \<times> delayed_task_manager" where
  "GetTimeToScheduleProcessRipeTasks m =
     (if heap_empty (delayed_task_queue m) then (int64_max, m)
      else let ripest_delayed_task = heap_Min (delayed_task_queue m)
           in if dt_scheduled ripest_delayed_task then (int64_max, m)
              else (pool_delayed_run_time (dt_task ripest_delayed_task),
                    m\<lparr>delayed_task_queue := (delayed_task_queue m)\<lparr>nodes := (nodes (delayed_task_queue m))
                        [1 := ripest_delayed_task\<lparr>dt_scheduled := True\<rparr>]\<rparr>\<rparr>))"

text \<open>The delay of the task that is posted to the service thread, if one is posted.\<close>

definition ScheduleProcessRipeTasksOnServiceThread :: "int \<Rightarrow> int \<Rightarrow> int option" where
  "ScheduleProcessRipeTasksOnServiceThread now next_delayed_task_run_time =
     (if next_delayed_task_run_time = int64_max then None else Some (max 0 (next_delayed_task_run_time - now)))"

definition dtm_Start :: "delayed_task_manager \<Rightarrow> int \<times> delayed_task_manager" where
  "dtm_Start m = GetTimeToScheduleProcessRipeTasks (m\<lparr>service_started := True\<rparr>)"

definition queue_insert :: "delayed_task \<Rightarrow> delayed_task_manager \<Rightarrow> delayed_task_manager" where
  "queue_insert d m =
     (let (h, hs) = heap_insert dt_dflt DelayedTask_le dt_id d (delayed_task_queue m, delayed_handles m)
      in m\<lparr>delayed_task_queue := h, delayed_handles := hs\<rparr>)"

text \<open>A failed \<open>CHECK\<close> is \<^term>\<open>None\<close>; there is no time to schedule before the start.\<close>

definition AddDelayedTask :: "pool_task \<Rightarrow> nat \<Rightarrow> delayed_task_manager \<Rightarrow> (int option \<times> delayed_task_manager) option" where
  "AddDelayedTask t x m =
     (if pool_closure t = None then None
      else let m = queue_insert (DelayedTask_new (next_dt_id m) t x) m; m = m\<lparr>next_dt_id := next_dt_id m + 1\<rparr>
           in Some (if \<not> service_started m then (None, m) else apfst Some (GetTimeToScheduleProcessRipeTasks m)))"

definition queue_Pop :: "delayed_task_manager \<Rightarrow> delayed_task_manager" where
  "queue_Pop m =
     (let (h, hs) = heap_Pop DelayedTask_le dt_id (delayed_task_queue m, delayed_handles m)
      in m\<lparr>delayed_task_queue := h, delayed_handles := hs\<rparr>)"

text \<open>The loop that pops the ripe tasks makes as many rounds as there are tasks at most.\<close>

primrec pop_ripe :: "int \<Rightarrow> nat \<Rightarrow> delayed_task_manager \<Rightarrow> delayed_task list \<times> delayed_task_manager" where
  "pop_ripe now 0 m = ([], m)"
| "pop_ripe now (Suc n) m =
     (if \<not> heap_empty (delayed_task_queue m) \<and> pool_delayed_run_time (dt_task (heap_Min (delayed_task_queue m))) \<le> now
      then apfst (Cons (heap_Min (delayed_task_queue m))) (pop_ripe now n (queue_Pop m)) else ([], m))"

definition ProcessRipeTasks_locked :: "int \<Rightarrow> delayed_task_manager \<Rightarrow> delayed_task list \<times> int \<times> delayed_task_manager" where
  "ProcessRipeTasks_locked now m =
     (let (ripe_delayed_tasks, m) = pop_ripe now (heap_size (delayed_task_queue m)) m
      in (ripe_delayed_tasks, GetTimeToScheduleProcessRipeTasks m))"

text \<open>The callbacks post the ripe tasks to their sequences, in order.\<close>

primrec forward_ripe :: "int \<Rightarrow> delayed_task list \<Rightarrow> thread_pool \<Rightarrow> thread_pool option" where
  "forward_ripe now [] pl = Some pl"
| "forward_ripe now (d # ds) pl =
     (case PostTaskWithSequenceNow now (dt_task d) (dt_sequence d) pl of None \<Rightarrow> None | Some (_, pl) \<Rightarrow> forward_ripe now ds pl)"

text \<open>\<open>now\<close> is read again when the call is scheduled, and by the posts.\<close>

definition ProcessRipeTasks ::
  "int \<Rightarrow> delayed_task_manager \<times> thread_pool \<Rightarrow> (int option \<times> delayed_task_manager \<times> thread_pool) option" where
  "ProcessRipeTasks now s =
     (let (m, pl) = s; (ripe_delayed_tasks, t, m) = ProcessRipeTasks_locked now m
      in map_option (\<lambda>pl. (ScheduleProcessRipeTasksOnServiceThread now t, m, pl)) (forward_ripe now ripe_delayed_tasks pl))"

definition PostTaskWithSequence ::
  "int \<Rightarrow> pool_task \<Rightarrow> nat \<Rightarrow> delayed_task_manager \<times> thread_pool \<Rightarrow> (bool \<times> int option \<times> delayed_task_manager \<times> thread_pool) option" where
  "PostTaskWithSequence now t x s =
     (let (m, pl) = s
      in if pool_closure t = None then None
         else if \<not> WillPostTask (pool_delayed_run_time t \<noteq> 0) (seq_shutdown_behavior (sequences pl x)) (tracker pl) then Some (False, None, m, pl)
         else if pool_delayed_run_time t = 0
         then map_option (\<lambda>(ok, pl). (ok, None, m, pl)) (PostTaskWithSequenceNow now t x pl)
         else map_option (\<lambda>(r, m). (True, Option.bind r (ScheduleProcessRipeTasksOnServiceThread now), m, pl)) (AddDelayedTask t x m))"

section \<open>The queue as a set of tasks\<close>

interpretation delayed: heap_order DelayedTask_le UNIV dt_id
  by unfold_locales (auto simp: DelayedTask_le_def)

abbreviation run_time :: "delayed_task \<Rightarrow> int" where "run_time d \<equiv> pool_delayed_run_time (dt_task d)"

definition waiting_tasks :: "delayed_task_manager \<Rightarrow> delayed_task set" where
  "waiting_tasks m = heap_elems (delayed_task_queue m)"

definition dtm_ok :: "delayed_task_manager \<Rightarrow> bool" where
  "dtm_ok m \<longleftrightarrow> heap_inv DelayedTask_le dt_id (delayed_task_queue m, delayed_handles m) \<and> (\<forall>d\<in>waiting_tasks m. dt_id d < next_dt_id m)"

lemma dtm_okD:
  assumes "dtm_ok m"
  shows "heap_inv DelayedTask_le dt_id (delayed_task_queue m, delayed_handles m) \<and> heap_elems (delayed_task_queue m) \<subseteq> UNIV"
    "d \<in> waiting_tasks m \<Longrightarrow> dt_id d < next_dt_id m" "heap_empty (delayed_task_queue m) \<longleftrightarrow> waiting_tasks m = {}"
    "waiting_tasks m \<noteq> {} \<Longrightarrow> heap_Min (delayed_task_queue m) \<in> waiting_tasks m"
    "d \<in> waiting_tasks m \<Longrightarrow> run_time (heap_Min (delayed_task_queue m)) \<le> run_time d" "inj_on dt_id (waiting_tasks m)"
proof -
  show i: "heap_inv DelayedTask_le dt_id (delayed_task_queue m, delayed_handles m) \<and> heap_elems (delayed_task_queue m) \<subseteq> UNIV"
    and "d \<in> waiting_tasks m \<Longrightarrow> dt_id d < next_dt_id m" using assms by (simp_all add: dtm_ok_def)
  show "heap_empty (delayed_task_queue m) \<longleftrightarrow> waiting_tasks m = {}" by (simp add: waiting_tasks_def heap_elems_empty)
  show "waiting_tasks m \<noteq> {} \<Longrightarrow> heap_Min (delayed_task_queue m) \<in> waiting_tasks m"
    using delayed.pq.min_in [of "(delayed_task_queue m, delayed_handles m)"] i by (simp add: waiting_tasks_def)
  show "d \<in> waiting_tasks m \<Longrightarrow> run_time (heap_Min (delayed_task_queue m)) \<le> run_time d"
    using delayed.pq.min_least [of "(delayed_task_queue m, delayed_handles m)" d] i by (simp add: waiting_tasks_def DelayedTask_le_def)
  show "inj_on dt_id (waiting_tasks m)"
    using delayed.pq.owner_inj [of "(delayed_task_queue m, delayed_handles m)"] i by (simp add: waiting_tasks_def)
qed

lemma finite_waiting: "finite (waiting_tasks m)" "card (waiting_tasks m) \<le> heap_size (delayed_task_queue m)"
  using card_image_le [of "slots (delayed_task_queue m)" "(!) (nodes (delayed_task_queue m))"]
  by (simp_all add: waiting_tasks_def heap_elems_def slots_def)

lemma insert_ok:
  assumes k: "dtm_ok m" and m': "m' = (queue_insert (DelayedTask_new (next_dt_id m) t x) m)\<lparr>next_dt_id := next_dt_id m + 1\<rparr>"
  shows "dtm_ok m'" "waiting_tasks m' = insert (DelayedTask_new (next_dt_id m) t x) (waiting_tasks m)"
proof -
  note K = dtm_okD [OF k]
  let ?d = "DelayedTask_new (next_dt_id m) t x" and ?s = "(delayed_task_queue m, delayed_handles m)"
  have n: "dt_id ?d \<notin> dt_id ` heap_elems (delayed_task_queue m)"
    using K(2) by (force simp: DelayedTask_new_def waiting_tasks_def)
  obtain h hs where h: "heap_insert dt_dflt DelayedTask_le dt_id ?d ?s = (h, hs)" by force
  have I: "heap_inv DelayedTask_le dt_id (h, hs)" "heap_elems h = insert ?d (heap_elems (delayed_task_queue m))"
    using delayed.pq.insert_spec [of ?s ?d dt_dflt] K(1) n h by simp_all
  show w: "waiting_tasks m' = insert ?d (waiting_tasks m)" using I by (simp add: m' queue_insert_def h waiting_tasks_def)
  have "dt_id e < next_dt_id m'" if "e \<in> waiting_tasks m'" for e using that K(2) [of e] unfolding w by (auto simp: m' DelayedTask_new_def)
  then show "dtm_ok m'" using I(1) by (simp add: dtm_ok_def m' queue_insert_def h)
qed

lemma pop_ok:
  assumes k: "dtm_ok m" and n: "waiting_tasks m \<noteq> {}"
  shows "dtm_ok (queue_Pop m)" "waiting_tasks (queue_Pop m) = waiting_tasks m - {heap_Min (delayed_task_queue m)}"
    "service_started (queue_Pop m) = service_started m" "next_dt_id (queue_Pop m) = next_dt_id m"
proof -
  note K = dtm_okD [OF k]
  let ?s = "(delayed_task_queue m, delayed_handles m)"
  obtain h hs where h: "heap_Pop DelayedTask_le dt_id ?s = (h, hs)" by force
  have I: "heap_inv DelayedTask_le dt_id (h, hs)" "heap_elems h = heap_elems (delayed_task_queue m) - {heap_Min (delayed_task_queue m)}"
    using delayed.pq.pop_spec [of ?s] K(1) n h by (simp_all add: waiting_tasks_def)
  show w: "waiting_tasks (queue_Pop m) = waiting_tasks m - {heap_Min (delayed_task_queue m)}"
    and e: "service_started (queue_Pop m) = service_started m" "next_dt_id (queue_Pop m) = next_dt_id m"
    using I by (simp_all add: queue_Pop_def h waiting_tasks_def)
  show "dtm_ok (queue_Pop m)" unfolding dtm_ok_def w e using I(1) K(2) by (auto simp: queue_Pop_def h)
qed

text \<open>The ripe tasks are popped, all of them and in the order of their times.\<close>

lemma pop_ripe_ok:
  assumes "dtm_ok m" "card (waiting_tasks m) \<le> n" "pop_ripe now n m = (ds, m')"
  shows "dtm_ok m' \<and> set ds = {d\<in>waiting_tasks m. run_time d \<le> now} \<and> waiting_tasks m' = {d\<in>waiting_tasks m. now < run_time d} \<and>
    distinct ds \<and> sorted (map run_time ds) \<and> service_started m' = service_started m \<and> next_dt_id m' = next_dt_id m"
  using assms
proof (induction n arbitrary: m ds)
  case 0
  then show ?case using finite_waiting(1) [of m] by simp
next
  case (Suc n)
  note K = dtm_okD [OF Suc.prems(1)]
  let ?d = "heap_Min (delayed_task_queue m)"
  show ?case
  proof (cases "waiting_tasks m \<noteq> {} \<and> run_time ?d \<le> now")
    case True
    then have ne: "waiting_tasks m \<noteq> {}" by simp
    note P = pop_ok [OF Suc.prems(1) ne]
    have d: "?d \<in> waiting_tasks m" using K(4) ne .
    obtain es where r: "pop_ripe now n (queue_Pop m) = (es, m')" and ds: "ds = ?d # es"
      using Suc.prems(3) True K(3) by (cases "pop_ripe now n (queue_Pop m)") auto
    have "card (waiting_tasks (queue_Pop m)) \<le> n" using Suc.prems(2) d finite_waiting(1) [of m] by (simp add: P(2))
    note I = Suc.IH [OF P(1) this r, unfolded P(2)]
    have "insert ?d {x \<in> waiting_tasks m - {?d}. run_time x \<le> now} = {x \<in> waiting_tasks m. run_time x \<le> now}"
      "{x \<in> waiting_tasks m - {?d}. now < run_time x} = {x \<in> waiting_tasks m. now < run_time x}" using d True by auto
    moreover have "\<forall>x\<in>set es. run_time ?d \<le> run_time x" using I K(5) by auto
    ultimately show ?thesis using I P(3,4) by (simp add: ds)
  next
    case False
    then have e: "ds = []" "m' = m" using Suc.prems(3) K(3) by auto
    have "now < run_time x" if "x \<in> waiting_tasks m" for x using that False K(5) [OF that] by auto
    then show ?thesis unfolding e using Suc.prems(1) by force
  qed
qed

text \<open>Marking the ripest task changes neither its place nor its identity.\<close>

lemma mark_inv:
  assumes i: "heap_inv le hid (h, hs)" and k: "k \<in> slots h" and e: "hid e = hid (nodes h ! k)"
    and le: "\<And>y. le y e = le y (nodes h ! k)" "\<And>y. le e y = le (nodes h ! k) y"
  shows "heap_inv le hid (h\<lparr>nodes := (nodes h)[k := e]\<rparr>, hs)"
    "heap_elems (h\<lparr>nodes := (nodes h)[k := e]\<rparr>) = insert e (heap_elems h - {nodes h ! k})"
proof -
  have kl: "k < length (nodes h)" using i k by (auto simp: heap_inv_def slots_def)
  have ha: "handles_ok hid (h, hs)" using i by (simp add: heap_inv_def)
  have ne: "nodes h ! j \<noteq> nodes h ! k" if "j \<in> slots h" "j \<noteq> k" for j
    using ha that k by (simp add: handles_ok_def) metis
  have "heap_ordered le (h\<lparr>nodes := (nodes h)[k := e]\<rparr>)"
    using i kl by (auto simp: heap_inv_def heap_ordered_def slots_def nth_list_update le)
  then show "heap_inv le hid (h\<lparr>nodes := (nodes h)[k := e]\<rparr>, hs)"
    using i kl e by (auto simp: heap_inv_def handles_ok_def slots_def nth_list_update)
  show "heap_elems (h\<lparr>nodes := (nodes h)[k := e]\<rparr>) = insert e (heap_elems h - {nodes h ! k})"
    using kl k ne by (auto simp: heap_elems_def slots_def nth_list_update image_def)
qed

definition marked :: "delayed_task \<Rightarrow> delayed_task" where
  "marked d = d\<lparr>dt_scheduled := True\<rparr>"

lemma GetTime_ok:
  assumes k: "dtm_ok m" and g: "GetTimeToScheduleProcessRipeTasks m = (t, m')"
  shows "dtm_ok m'" "service_started m' = service_started m" "next_dt_id m' = next_dt_id m"
    "waiting_tasks m = {} \<Longrightarrow> waiting_tasks m' = {}"
    "waiting_tasks m \<noteq> {} \<Longrightarrow> \<exists>d\<in>waiting_tasks m. (\<forall>e\<in>waiting_tasks m. run_time d \<le> run_time e) \<and>
      waiting_tasks m' = insert (marked d) (waiting_tasks m - {d}) \<and> (dt_scheduled d \<or> t = run_time d)"
proof -
  note K = dtm_okD [OF k]
  let ?h = "delayed_task_queue m"
  let ?d = "heap_Min ?h"
  have r: "dtm_ok m' \<and> service_started m' = service_started m \<and> next_dt_id m' = next_dt_id m \<and> (waiting_tasks m = {} \<longrightarrow> waiting_tasks m' = {}) \<and>
      (waiting_tasks m \<noteq> {} \<longrightarrow> waiting_tasks m' = insert (marked ?d) (waiting_tasks m - {?d}) \<and> (dt_scheduled ?d \<or> t = run_time ?d))"
  proof (cases "waiting_tasks m = {} \<or> dt_scheduled ?d")
    case True
    then have "m' = m" using g K(3) by (auto simp: GetTimeToScheduleProcessRipeTasks_def Let_def split: if_splits)
    moreover have "marked ?d = ?d" if "dt_scheduled ?d" using that by (simp add: marked_def)
    ultimately show ?thesis using True k K(4) by (cases "waiting_tasks m = {}") (simp_all add: insert_absorb)
  next
    case False
    then have e: "t = run_time ?d" "m' = m\<lparr>delayed_task_queue := ?h\<lparr>nodes := (nodes ?h)[1 := marked ?d]\<rparr>\<rparr>"
      using g K(3) by (auto simp: GetTimeToScheduleProcessRipeTasks_def Let_def marked_def)
    have one: "1 \<in> slots ?h" "nodes ?h ! 1 = ?d" using False K(3) by (auto simp: slots_def heap_empty_def heap_Min_def)
    note M = mark_inv [of DelayedTask_le dt_id ?h "delayed_handles m" 1 "marked ?d"]
    have w: "waiting_tasks m' = insert (marked ?d) (waiting_tasks m - {?d})"
      using M(2) K(1) one by (simp add: waiting_tasks_def e marked_def DelayedTask_le_def)
    have "heap_inv DelayedTask_le dt_id (delayed_task_queue m', delayed_handles m')"
      using M(1) K(1) one by (simp add: e marked_def DelayedTask_le_def)
    moreover have "dt_id (marked ?d) < next_dt_id m" using K(2) [OF K(4)] False by (simp add: marked_def)
    ultimately have "dtm_ok m'" unfolding dtm_ok_def w using K(2) by (auto simp: e)
    then show ?thesis using w e False by simp
  qed
  then show "dtm_ok m'" "service_started m' = service_started m" "next_dt_id m' = next_dt_id m" "waiting_tasks m = {} \<Longrightarrow> waiting_tasks m' = {}"
    by simp_all
  show "\<exists>d\<in>waiting_tasks m. (\<forall>e\<in>waiting_tasks m. run_time d \<le> run_time e) \<and>
      waiting_tasks m' = insert (marked d) (waiting_tasks m - {d}) \<and> (dt_scheduled d \<or> t = run_time d)" if "waiting_tasks m \<noteq> {}"
    by (rule bexI [of _ ?d]) (use r that K(4) [OF that] K(5) in simp_all)
qed

section \<open>Threads and the service thread\<close>

text \<open>
  Any thread adds tasks; one starts the manager. The time that comes out of a locked part is in flight until
  its thread has scheduled it. The service thread runs a posted call when its delay, counted from the reading
  of the clock, is over, or any time later. \<open>added\<close> and \<open>forwarded\<close> record what was added, and what was
  taken out for its sequence and when.
\<close>

type_synonym dt_key = "nat \<times> pool_task \<times> nat"

definition dt_key :: "delayed_task \<Rightarrow> dt_key" where
  "dt_key d = (dt_id d, dt_task d, dt_sequence d)"

record delayed_world =
  manager :: delayed_task_manager
  tick_clock :: int
  in_flight :: "int list"
  posted_calls :: "(int \<times> int) list"
  added :: "dt_key list"
  forwarded :: "(int \<times> delayed_task) list"

inductive delayed_step :: "delayed_world \<Rightarrow> delayed_world \<Rightarrow> bool" where
  add: "pool_delayed_run_time t \<noteq> 0 \<Longrightarrow> AddDelayedTask t x (manager w) = Some (r, m) \<Longrightarrow>
    delayed_step w (w\<lparr>manager := m, in_flight := in_flight w @ (case r of None \<Rightarrow> [] | Some t \<Rightarrow> [t]),
      added := added w @ [(next_dt_id (manager w), t, x)]\<rparr>)"
| start: "\<not> service_started (manager w) \<Longrightarrow> dtm_Start (manager w) = (t, m) \<Longrightarrow>
    delayed_step w (w\<lparr>manager := m, in_flight := in_flight w @ [t]\<rparr>)"
| schedule: "t \<in> set (in_flight w) \<Longrightarrow>
    delayed_step w (w\<lparr>in_flight := remove1 t (in_flight w), posted_calls := posted_calls w @
      (case ScheduleProcessRipeTasksOnServiceThread (tick_clock w) t of None \<Rightarrow> [] | Some delay \<Rightarrow> [(t, tick_clock w + delay)])\<rparr>)"
| process: "(t, due) \<in> set (posted_calls w) \<Longrightarrow> due \<le> tick_clock w \<Longrightarrow> ProcessRipeTasks_locked (tick_clock w) (manager w) = (ds, u, m) \<Longrightarrow>
    delayed_step w (w\<lparr>manager := m, in_flight := in_flight w @ [u], posted_calls := remove1 (t, due) (posted_calls w),
      forwarded := forwarded w @ map (Pair (tick_clock w)) ds\<rparr>)"
| tick: "tick_clock w \<le> now \<Longrightarrow> delayed_step w (w\<lparr>tick_clock := now\<rparr>)"

definition delayed_init :: "int \<Rightarrow> delayed_world" where
  "delayed_init now = \<lparr>manager = DelayedTaskManager_new, tick_clock = now, in_flight = [], posted_calls = [], added = [], forwarded = []\<rparr>"

inductive delayed_reachable :: "delayed_world \<Rightarrow> bool" where
  init: "delayed_reachable (delayed_init now)"
| step: "delayed_reachable w \<Longrightarrow> delayed_step w w' \<Longrightarrow> delayed_reachable w'"

section \<open>No call is missing\<close>

definition pending_for :: "int set \<Rightarrow> delayed_task_manager \<Rightarrow> bool" where
  "pending_for P m \<longleftrightarrow> (\<forall>d\<in>waiting_tasks m. dt_scheduled d \<longrightarrow> run_time d \<in> P)"

definition ripest_scheduled :: "delayed_task_manager \<Rightarrow> bool" where
  "ripest_scheduled m \<longleftrightarrow> waiting_tasks m = {} \<or> (\<exists>d\<in>waiting_tasks m. dt_scheduled d \<and> (\<forall>e\<in>waiting_tasks m. run_time d \<le> run_time e))"

lemma marked_reads: "run_time (marked d) = run_time d" "dt_scheduled (marked d)" "dt_key (marked d) = dt_key d" "dt_id (marked d) = dt_id d"
  by (simp_all add: marked_def dt_key_def)

lemma GetTime_calls:
  assumes k: "dtm_ok m" and g: "GetTimeToScheduleProcessRipeTasks m = (t, m')" and p: "pending_for P m"
  shows "pending_for (insert t P) m'" "ripest_scheduled m'" "dt_key ` waiting_tasks m' = dt_key ` waiting_tasks m"
proof -
  have "pending_for (insert t P) m' \<and> ripest_scheduled m' \<and> dt_key ` waiting_tasks m' = dt_key ` waiting_tasks m"
  proof (cases "waiting_tasks m = {}")
    case True
    then show ?thesis using GetTime_ok(4) [OF k g] by (simp add: pending_for_def ripest_scheduled_def)
  next
    case False
    obtain d where d: "d \<in> waiting_tasks m" "\<forall>e\<in>waiting_tasks m. run_time d \<le> run_time e"
      "waiting_tasks m' = insert (marked d) (waiting_tasks m - {d})" "dt_scheduled d \<or> t = run_time d"
      using GetTime_ok(5) [OF k g False] by blast
    have "pending_for (insert t P) m'" using p d(1,4) unfolding pending_for_def d(3) by (auto simp: marked_reads)
    moreover have "ripest_scheduled m'" using d(2) unfolding ripest_scheduled_def d(3) by (simp add: marked_reads)
    moreover have "dt_key ` waiting_tasks m' = dt_key ` waiting_tasks m" using d(1) by (auto simp: d(3) marked_reads)
    ultimately show ?thesis by simp
  qed
  then show "pending_for (insert t P) m'" "ripest_scheduled m'" "dt_key ` waiting_tasks m' = dt_key ` waiting_tasks m" by simp_all
qed

definition call_times :: "delayed_world \<Rightarrow> int set" where
  "call_times w = insert int64_max (set (in_flight w) \<union> fst ` set (posted_calls w))"

definition calls_inv :: "delayed_world \<Rightarrow> bool" where
  "calls_inv w \<longleftrightarrow> dtm_ok (manager w) \<and> pending_for (call_times w) (manager w) \<and> (service_started (manager w) \<longrightarrow> ripest_scheduled (manager w)) \<and>
     (\<forall>(t, due)\<in>set (posted_calls w). t \<le> due \<and> due \<le> max (tick_clock w) t)"

lemma pending_mono: "pending_for P m \<Longrightarrow> P \<subseteq> Q \<Longrightarrow> pending_for Q m"
  by (auto simp: pending_for_def)

text \<open>What an operation that asks for the time does, on the keys of the tasks and the calls.\<close>

lemma add_calls:
  assumes k: "dtm_ok m" "pending_for P m" and a: "AddDelayedTask t x m = Some (r, m')"
  shows "dtm_ok m'" "pending_for (P \<union> set_option r) m'" "service_started m' \<Longrightarrow> ripest_scheduled m'" "service_started m' = service_started m"
    "dt_key ` waiting_tasks m' = insert (next_dt_id m, t, x) (dt_key ` waiting_tasks m)" "next_dt_id m' = next_dt_id m + 1" "pool_closure t \<noteq> None"
proof -
  define m1 where "m1 = (queue_insert (DelayedTask_new (next_dt_id m) t x) m)\<lparr>next_dt_id := next_dt_id m + 1\<rparr>"
  note I = insert_ok [OF k(1) m1_def]
  have f: "service_started m1 = service_started m" "next_dt_id m1 = next_dt_id m + 1" "next_dt_id (queue_insert d m) = next_dt_id m" for d
    by (simp_all add: m1_def queue_insert_def split: prod.splits)
  have p: "pending_for P m1" using k(2) unfolding pending_for_def I(2) by (simp add: DelayedTask_new_def)
  have ky: "dt_key ` waiting_tasks m1 = insert (next_dt_id m, t, x) (dt_key ` waiting_tasks m)" unfolding I(2) by (simp add: dt_key_def DelayedTask_new_def)
  have e: "(r, m') = (if \<not> service_started m1 then (None, m1) else apfst Some (GetTimeToScheduleProcessRipeTasks m1))" "pool_closure t \<noteq> None"
    using a f(3) by (auto simp: AddDelayedTask_def Let_def m1_def split: if_splits)
  obtain u m2 where g: "GetTimeToScheduleProcessRipeTasks m1 = (u, m2)" by force
  note C = GetTime_calls [OF I(1) g p] and G = GetTime_ok(1-3) [OF I(1) g]
  show "pool_closure t \<noteq> None" by (rule e(2))
  show "dtm_ok m'" "pending_for (P \<union> set_option r) m'" "service_started m' \<Longrightarrow> ripest_scheduled m'" "service_started m' = service_started m"
    "dt_key ` waiting_tasks m' = insert (next_dt_id m, t, x) (dt_key ` waiting_tasks m)" "next_dt_id m' = next_dt_id m + 1"
    using e(1) g C G I(1) p f(1,2) ky by (auto split: if_splits)
qed

lemma process_calls:
  assumes k: "dtm_ok m" and q: "ProcessRipeTasks_locked now m = (ds, u, m')" and p: "pending_for P m"
  shows "dtm_ok m'" "pending_for (insert u {t\<in>P. now < t}) m'" "ripest_scheduled m'" "service_started m' = service_started m" "next_dt_id m' = next_dt_id m"
    "set ds = {d\<in>waiting_tasks m. run_time d \<le> now}" "dt_key ` waiting_tasks m' = dt_key ` {d\<in>waiting_tasks m. now < run_time d}" "distinct ds"
    "sorted (map run_time ds)"
proof -
  obtain m1 where r: "pop_ripe now (heap_size (delayed_task_queue m)) m = (ds, m1)" and g: "GetTimeToScheduleProcessRipeTasks m1 = (u, m')"
    using q by (auto simp: ProcessRipeTasks_locked_def split: prod.splits)
  note R = pop_ripe_ok [OF k finite_waiting(2) r]
  have k1: "dtm_ok m1" and p1: "pending_for {t\<in>P. now < t} m1" using R p by (simp_all add: pending_for_def)
  note C = GetTime_calls [OF k1 g p1] and G = GetTime_ok(1-3) [OF k1 g]
  show "dtm_ok m'" "pending_for (insert u {t\<in>P. now < t}) m'" "ripest_scheduled m'" "service_started m' = service_started m" "next_dt_id m' = next_dt_id m"
    "set ds = {d\<in>waiting_tasks m. run_time d \<le> now}" "dt_key ` waiting_tasks m' = dt_key ` {d\<in>waiting_tasks m. now < run_time d}" "distinct ds"
    "sorted (map run_time ds)" using C G R by simp_all
qed

lemma calls_step:
  assumes "delayed_step w w'" "calls_inv w"
  shows "calls_inv w'"
  using assms(1)
proof cases
  case (add t x r m)
  have I: "dtm_ok (manager w)" "pending_for (call_times w) (manager w)" using assms(2) by (simp_all add: calls_inv_def)
  note A = add_calls [OF I add(3)]
  have "call_times w' = call_times w \<union> set_option r" by (auto simp: call_times_def add(1) split: option.splits)
  then show ?thesis using A(1-3) assms(2) by (simp add: calls_inv_def add(1))
next
  case (start t m)
  let ?m = "(manager w)\<lparr>service_started := True\<rparr>"
  have I: "dtm_ok ?m" "pending_for (call_times w) ?m" using assms(2) by (simp_all add: calls_inv_def dtm_ok_def pending_for_def waiting_tasks_def)
  have g: "GetTimeToScheduleProcessRipeTasks ?m = (t, m)" using start(3) by (simp add: dtm_Start_def)
  have "call_times w' = insert t (call_times w)" by (auto simp: call_times_def start(1))
  then show ?thesis using GetTime_calls [OF I(1) g I(2)] GetTime_ok(1) [OF I(1) g] assms(2) by (simp add: calls_inv_def start(1))
next
  case (schedule t)
  have "set (in_flight w) \<subseteq> insert t (set (remove1 t (in_flight w)))"
    using remove1_split [of t "in_flight w"] by (metis in_set_remove1 insertCI subsetI)
  then have "call_times w \<subseteq> call_times w'"
    by (auto simp: call_times_def schedule(1) ScheduleProcessRipeTasksOnServiceThread_def image_Un)
  moreover have "pending_for (call_times w) (manager w')" using assms(2) by (simp add: calls_inv_def schedule(1))
  ultimately have "pending_for (call_times w') (manager w')" using pending_mono by blast
  then show ?thesis using assms(2) by (auto simp: calls_inv_def schedule(1) ScheduleProcessRipeTasksOnServiceThread_def)
next
  case (process t due ds u m)
  have I: "dtm_ok (manager w)" "pending_for (call_times w) (manager w)"
    and b: "\<And>s d. (s, d) \<in> set (posted_calls w) \<Longrightarrow> s \<le> d \<and> d \<le> max (tick_clock w) s" using assms(2) by (auto simp: calls_inv_def)
  note P = process_calls [OF I(1) process(4) I(2)]
  have "s \<in> call_times w'" if s: "s \<in> call_times w" "tick_clock w < s" for s
  proof -
    have "(s, d) \<in> set (remove1 (t, due) (posted_calls w))" if "(s, d) \<in> set (posted_calls w)" for d
      using that s(2) b [OF process(2)] process(3) by (auto simp: in_set_remove1)
    then show ?thesis using s(1) by (force simp: call_times_def process(1))
  qed
  moreover have "u \<in> call_times w'" by (simp add: call_times_def process(1))
  ultimately have "pending_for (call_times w') m" using P(2) pending_mono by blast
  moreover have "(\<forall>(s, d)\<in>set (posted_calls w'). s \<le> d \<and> d \<le> max (tick_clock w') s)" using b notin_set_remove1 by (fastforce simp: process(1))
  ultimately show ?thesis using P(1,3) by (simp add: calls_inv_def process(1))
next
  case (tick now)
  then show ?thesis using assms(2) by (fastforce simp: calls_inv_def call_times_def)
qed

section \<open>Every task once, and not too early\<close>

definition keeps_inv :: "delayed_world \<Rightarrow> bool" where
  "keeps_inv w \<longleftrightarrow> mset (added w) = mset_set (dt_key ` waiting_tasks (manager w)) + mset (map (dt_key \<circ> snd) (forwarded w)) \<and>
     distinct (map fst (added w)) \<and> (\<forall>k\<in>set (added w). fst k < next_dt_id (manager w) \<and> pool_closure (fst (snd k)) \<noteq> None) \<and>
     (\<forall>(c, d)\<in>set (forwarded w). run_time d \<le> c \<and> c \<le> tick_clock w)"

lemma keeps_step:
  assumes "delayed_step w w'" "calls_inv w" "keeps_inv w"
  shows "keeps_inv w'"
  using assms(1)
proof cases
  case (add t x r m)
  have I: "dtm_ok (manager w)" "pending_for (call_times w) (manager w)" using assms(2) by (simp_all add: calls_inv_def)
  note A = add_calls [OF I add(3)]
  have "(next_dt_id (manager w), t, x) \<notin> dt_key ` waiting_tasks (manager w)" using dtm_okD(2) [OF I(1)] by (force simp: dt_key_def)
  then show ?thesis using assms(3) A(5-7) finite_waiting(1) [of "manager w"] by (auto simp: keeps_inv_def add(1) less_Suc_eq)
next
  case (start t m)
  let ?m = "(manager w)\<lparr>service_started := True\<rparr>"
  have I: "dtm_ok ?m" "pending_for UNIV ?m" using assms(2) by (simp_all add: calls_inv_def dtm_ok_def pending_for_def waiting_tasks_def)
  have g: "GetTimeToScheduleProcessRipeTasks ?m = (t, m)" using start(3) by (simp add: dtm_Start_def)
  have "waiting_tasks ?m = waiting_tasks (manager w)" by (simp add: waiting_tasks_def)
  then show ?thesis using GetTime_calls(3) [OF I(1) g I(2)] GetTime_ok(3) [OF I(1) g] assms(3) by (simp add: keeps_inv_def start(1))
next
  case (schedule t)
  then show ?thesis using assms(3) by (simp add: keeps_inv_def)
next
  case (process t due ds u m)
  have I: "dtm_ok (manager w)" "pending_for UNIV (manager w)" using assms(2) by (simp_all add: calls_inv_def pending_for_def)
  note P = process_calls [OF I(1) process(4) I(2)]
  let ?W = "waiting_tasks (manager w)"
  let ?R = "{d\<in>?W. run_time d \<le> tick_clock w}" and ?L = "{d\<in>?W. tick_clock w < run_time d}"
  have inj: "inj_on dt_key ?W" using dtm_okD(6) [OF I(1)] by (auto simp: inj_on_def dt_key_def)
  have "?W = ?L \<union> ?R" by auto
  then have "dt_key ` ?W = dt_key ` ?L \<union> dt_key ` ?R" by (metis image_Un)
  moreover have "dt_key ` ?L \<inter> dt_key ` ?R = {}" using inj by (fastforce simp: inj_on_def)
  ultimately have "mset_set (dt_key ` ?W) = mset_set (dt_key ` ?L) + mset_set (dt_key ` ?R)"
    using finite_waiting(1) [of "manager w"] by (simp add: mset_set_Union)
  moreover have "mset_set (dt_key ` ?R) = mset (map dt_key ds)"
  proof -
    have "distinct (map dt_key ds)" using P(6,8) inj by (auto simp: distinct_map intro: inj_on_subset)
    then show ?thesis using P(6) by (metis mset_set_set set_map)
  qed
  ultimately have "mset_set (dt_key ` ?W) = mset_set (dt_key ` waiting_tasks m) + mset (map dt_key ds)" using P(7) by simp
  moreover have "run_time d \<le> tick_clock w" if "d \<in> set ds" for d using that P(6) by simp
  ultimately show ?thesis using assms(3) P(5) by (auto simp: keeps_inv_def process(1) comp_def)
next
  case (tick now)
  then show ?thesis using assms(3) by (fastforce simp: keeps_inv_def)
qed

lemma delayed_reachable_inv: "delayed_reachable w \<Longrightarrow> calls_inv w \<and> keeps_inv w"
proof (induction rule: delayed_reachable.induct)
  case (init now)
  have "heap_inv DelayedTask_le dt_id (IntrusiveHeap_init dt_dflt, \<lambda>_. 0)" "heap_elems (IntrusiveHeap_init dt_dflt) = {}"
    by (rule IntrusiveHeap_init_inv, rule IntrusiveHeap_init_elems)
  then show ?case by (simp add: calls_inv_def keeps_inv_def delayed_init_def DelayedTaskManager_new_def dtm_ok_def waiting_tasks_def pending_for_def)
next
  case (step w w')
  then show ?case using calls_step keeps_step by blast
qed

section \<open>Forwarding\<close>

lemma PostNow_total:
  assumes "pool_closure t \<noteq> None"
  obtains ok pl' where "PostTaskWithSequenceNow now t x pl = Some (ok, pl')"
proof -
  obtain sq where p: "PushTask now t (sequences pl x) = Some sq" using assms by (simp add: PushTask_def Let_def)
  have "seq_queue sq \<noteq> []" using p by (auto simp: PushTask_def Let_def split: if_splits)
  then have "GetSortKey sq \<noteq> None" by (cases "seq_queue sq") (simp_all add: GetSortKey_def)
  then have g: "\<exists>pl'. group_Push g x (pl\<lparr>tracker := tr, sequences := (sequences pl)(x := sq)\<rparr>) = Some pl'" for g tr by (auto simp: group_Push_def)
  obtain b tr where q: "(if WillPushTask (sequences pl x) then WillQueueTaskSource (seq_shutdown_behavior (sequences pl x)) (tracker pl)
      else (False, tracker pl)) = (b, tr)" by force
  obtain pl' where "group_Push (GetThreadGroupForTraits (pl\<lparr>tracker := tr, sequences := (sequences pl)(x := sq)\<rparr>) sq) x
      (pl\<lparr>tracker := tr, sequences := (sequences pl)(x := sq)\<rparr>) = Some pl'" using g by blast
  then have "\<exists>r. PostTaskWithSequenceNow now t x pl = Some r"
    by (simp add: PostTaskWithSequenceNow_def q p Let_def ex_bool_eq)
  then show ?thesis using that by (metis prod.collapse)
qed

lemma forward_total: "\<forall>d\<in>set ds. pool_closure (dt_task d) \<noteq> None \<Longrightarrow> \<exists>pl'. forward_ripe now ds pl = Some pl'"
proof (induction ds arbitrary: pl)
  case (Cons d ds)
  then obtain ok pl1 where "PostTaskWithSequenceNow now (dt_task d) (dt_sequence d) pl = Some (ok, pl1)" using PostNow_total by (metis list.set_intros(1))
  then show ?case using Cons by simp
qed simp

text \<open>A delayed post is refused as soon as shutdown has started, whatever the sequence's behaviour; before, it
  waits in the queue and the pool is left alone. A post without delay goes to the pool.\<close>

lemma delayed_post_outcome:
  assumes m: "dtm_ok m" and t: "pool_closure t \<noteq> None" "pool_delayed_run_time t \<noteq> 0"
  shows "\<exists>u m'. PostTaskWithSequence now t x (m, pl) = Some (\<not> HasShutdownStarted (tracker pl), u, m', pl) \<and>
    dt_key ` waiting_tasks m' = (if HasShutdownStarted (tracker pl) then {} else {(next_dt_id m, t, x)}) \<union> dt_key ` waiting_tasks m"
proof (cases "HasShutdownStarted (tracker pl)")
  case True
  have "GetEffectiveShutdownBehavior b True \<noteq> BLOCK_SHUTDOWN" for b by (cases b) simp_all
  then show ?thesis using True t by (simp add: PostTaskWithSequence_def WillPostTask_def)
next
  case False
  obtain r m' where a: "AddDelayedTask t x m = Some (r, m')" using t(1) by (cases "AddDelayedTask t x m") (auto simp: AddDelayedTask_def Let_def)
  have "pending_for UNIV m" by (simp add: pending_for_def)
  then show ?thesis using add_calls(5) [OF m _ a] a False t by (simp add: PostTaskWithSequence_def WillPostTask_def)
qed

section \<open>An example\<close>

definition demo_due :: pool_task where "demo_due = pool_Task (Some 7) 5 0"

definition demo_asked :: delayed_task_manager where
  "demo_asked = snd (the (AddDelayedTask demo_due 0 DelayedTaskManager_new))"

definition demo_ripe :: delayed_world where
  "demo_ripe = (delayed_init 0)\<lparr>manager := snd (dtm_Start demo_asked), added := [(0, demo_due, 0)], posted_calls := [(5, 5)], tick_clock := 6\<rparr>"

lemma demo_asked_reads: "AddDelayedTask demo_due 0 DelayedTaskManager_new = Some (None, demo_asked)" "\<not> service_started demo_asked"
  "fst (dtm_Start demo_asked) = 5" "service_started (snd (dtm_Start demo_asked))"
proof -
  have "map_option fst (AddDelayedTask demo_due 0 DelayedTaskManager_new) = Some None" by code_simp
  then show "AddDelayedTask demo_due 0 DelayedTaskManager_new = Some (None, demo_asked)" by (auto simp: demo_asked_def)
  show "\<not> service_started demo_asked" "fst (dtm_Start demo_asked) = 5" "service_started (snd (dtm_Start demo_asked))" by code_simp+
qed

lemma demo_ripe_reachable: "delayed_reachable demo_ripe"
proof -
  define w1 where "w1 = (delayed_init 0)\<lparr>manager := demo_asked, added := [(0, demo_due, 0)]\<rparr>"
  have "delayed_step (delayed_init 0) w1"
    using delayed_step.add [of demo_due 0 "delayed_init 0" None demo_asked] demo_asked_reads(1)
    by (simp add: w1_def delayed_init_def demo_due_def pool_Task_def DelayedTaskManager_new_def)
  then have r1: "delayed_reachable w1" by (rule delayed_reachable.step [OF delayed_reachable.init])
  define w2 where "w2 = w1\<lparr>manager := snd (dtm_Start demo_asked), in_flight := [5]\<rparr>"
  have "delayed_step w1 w2"
    using delayed_step.start [of w1 5 "snd (dtm_Start demo_asked)"] demo_asked_reads(2,3) by (simp add: w1_def w2_def delayed_init_def prod_eq_iff)
  then have r2: "delayed_reachable w2" by (rule delayed_reachable.step [OF r1])
  have "delayed_step w2 (w2\<lparr>in_flight := [], posted_calls := [(5, 5)]\<rparr>)"
    using delayed_step.schedule [of 5 w2] by (simp add: w2_def w1_def delayed_init_def ScheduleProcessRipeTasksOnServiceThread_def)
  then have r3: "delayed_reachable (w2\<lparr>in_flight := [], posted_calls := [(5, 5)]\<rparr>)" by (rule delayed_reachable.step [OF r2])
  show ?thesis using delayed_reachable.step [OF r3 delayed_step.tick [of _ 6]] by (simp add: w2_def w1_def delayed_init_def demo_ripe_def)
qed

lemma demo_ripe_waits: "dt_key ` waiting_tasks (manager demo_ripe) = {(0, demo_due, 0)}"
proof -
  have "mset_set (dt_key ` waiting_tasks (manager demo_ripe)) = mset [(0, demo_due, 0)]"
    using delayed_reachable_inv [OF demo_ripe_reachable] by (simp add: keeps_inv_def demo_ripe_def delayed_init_def)
  then show ?thesis using finite_waiting(1) [of "manager demo_ripe"] by (metis finite_imageI finite_set_mset_mset_set list.simps(15) set_empty set_mset_mset)
qed

end
