(* ===== verification/Funneled_Controller.thy ===== *)
theory Funneled_Controller
  imports Work_Deduplicator Time_Ticks
begin

text \<open>
  The model of \<open>thread_controller_impl.cc\<close>, the controller that has no pump of its own but posts its
  \<open>DoWork\<close> to a task runner, and cancels and replaces the delayed one of these posts. \<open>runner_posts\<close> is what
  that runner holds; a delayed post carries the number of its cancelable closure and the time at which it is due,
  its delay after the clock at the moment of the post. The tick clock is a part of the state, and so is what the
  source of tasks keeps. \<open>fc_begun\<close> records when \<open>DoWork\<close> was last entered, and \<open>fc_lag\<close> how long before the
  last delayed post the clock was read from which its delay was computed; no operation reads them.
\<close>

section \<open>State\<close>

datatype runner_post = ImmediateDoWork | DelayedDoWork nat int

record funneled_manager =
  fm_task_runner :: nat
  fm_timer_slack :: bool

record 's funneled =
  fc_source :: 's
  funneled_sequence_manager :: "funneled_manager option"
  message_loop_task_runner :: "nat option"
  has_nesting_observer :: bool
  fc_nesting_depth :: int
  fc_work_batch_size :: int
  fc_next_delayed_do_work :: int
  cancelable_closure :: "nat option"
  next_closure :: nat
  work_deduplicator_of :: work_deduplicator
  runner_posts :: "runner_post list"
  time_source :: int
  fc_begun :: int
  fc_lag :: int

text \<open>The virtual functions of the source and what a task does, which may destroy the controller (\<^term>\<open>False\<close>) or
  never return (\<^term>\<open>None\<close>); and what other threads do while the controller checks for more work.\<close>

record ('s, 't) funneled_env =
  fc_TakeTask :: "'s funneled \<Rightarrow> ('t option \<times> 's funneled) option"
  fc_RunTask :: "'t \<Rightarrow> 's funneled \<Rightarrow> (bool \<times> 's funneled) option"
  fc_DidRunTask :: "'s funneled \<Rightarrow> 's funneled"
  fc_DelayTillNextTask :: "int \<Rightarrow> 's funneled \<Rightarrow> int \<times> 's funneled"
  fc_OnSystemIdle :: "'s funneled \<Rightarrow> bool \<times> 's funneled"
  fc_meanwhile :: "'s funneled \<Rightarrow> 's funneled"

section \<open>Operations\<close>

definition ThreadControllerImpl_new :: "'s \<Rightarrow> funneled_manager option \<Rightarrow> bool \<Rightarrow> int \<Rightarrow> 's funneled" where
  "ThreadControllerImpl_new s manager has_runner now =
     (let d = WorkDeduplicator_new; d = (if has_runner \<or> manager \<noteq> None then snd (BindToCurrentThread d) else d)
      in \<lparr>fc_source = s, funneled_sequence_manager = manager, message_loop_task_runner = map_option fm_task_runner manager,
          has_nesting_observer = False, fc_nesting_depth = 0, fc_work_batch_size = 1, fc_next_delayed_do_work = int64_max,
          cancelable_closure = None, next_closure = 0, work_deduplicator_of = d, runner_posts = [], time_source = now, fc_begun = now, fc_lag = 0\<rparr>)"

definition fc_post :: "runner_post \<Rightarrow> 's funneled \<Rightarrow> 's funneled" where
  "fc_post p c = c\<lparr>runner_posts := runner_posts c @ [p]\<rparr>"

text \<open>\<open>Reset\<close> of the cancelable closure and \<open>PostDelayedTask\<close> of its callback: the runner counts the delay from
  the post. The clock \<open>now\<close> with which the delay was computed, maybe earlier, is only recorded.\<close>

definition fc_post_delayed :: "int \<Rightarrow> int \<Rightarrow> 's funneled \<Rightarrow> 's funneled" where
  "fc_post_delayed now delay c =
     fc_post (DelayedDoWork (next_closure c) (time_source c + delay))
       (c\<lparr>cancelable_closure := Some (next_closure c), next_closure := next_closure c + 1, fc_lag := time_source c - now\<rparr>)"

definition fc_ScheduleWork :: "'s funneled \<Rightarrow> 's funneled" where
  "fc_ScheduleWork c =
     (let (r, d) = OnWorkRequested (work_deduplicator_of c); c = c\<lparr>work_deduplicator_of := d\<rparr>
      in if r = kScheduleImmediate then fc_post ImmediateDoWork c else c)"

definition fc_SetNextDelayedDoWork :: "int \<Rightarrow> int \<Rightarrow> 's funneled \<Rightarrow> 's funneled" where
  "fc_SetNextDelayedDoWork now run_time c =
     (if fc_next_delayed_do_work c = run_time then c
      else if run_time = int64_max then c\<lparr>cancelable_closure := None, fc_next_delayed_do_work := int64_max\<rparr>
      else if OnDelayedWorkRequested (work_deduplicator_of c) = kNotNeeded then c
      else let delay = max 0 (run_time - now) in fc_post_delayed now delay (c\<lparr>fc_next_delayed_do_work := run_time\<rparr>))"

definition fc_SetTimerSlack :: "bool \<Rightarrow> 's funneled \<Rightarrow> 's funneled" where
  "fc_SetTimerSlack slack c = c\<lparr>funneled_sequence_manager := map_option (fm_timer_slack_update (\<lambda>_. slack)) (funneled_sequence_manager c)\<rparr>"

definition fc_SetDefaultTaskRunner :: "nat \<Rightarrow> 's funneled \<Rightarrow> 's funneled" where
  "fc_SetDefaultTaskRunner r c = c\<lparr>funneled_sequence_manager := map_option (fm_task_runner_update (\<lambda>_. r)) (funneled_sequence_manager c)\<rparr>"

definition fc_RestoreDefaultTaskRunner :: "'s funneled \<Rightarrow> 's funneled" where
  "fc_RestoreDefaultTaskRunner c =
     (case message_loop_task_runner c of None \<Rightarrow> c | Some r \<Rightarrow> fc_SetDefaultTaskRunner r c)"

definition fc_AddNestingObserver :: "'s funneled \<Rightarrow> 's funneled" where
  "fc_AddNestingObserver c = c\<lparr>has_nesting_observer := True\<rparr>"

definition fc_RemoveNestingObserver :: "'s funneled \<Rightarrow> 's funneled" where
  "fc_RemoveNestingObserver c = c\<lparr>has_nesting_observer := False\<rparr>"

definition fc_SetWorkBatchSize :: "int \<Rightarrow> 's funneled \<Rightarrow> 's funneled" where
  "fc_SetWorkBatchSize n c = c\<lparr>fc_work_batch_size := n\<rparr>"

text \<open>What the observer does when it is told is the argument \<open>f\<close>.\<close>

definition fc_OnBeginNestedRunLoop :: "('s funneled \<Rightarrow> 's funneled) \<Rightarrow> 's funneled \<Rightarrow> 's funneled" where
  "fc_OnBeginNestedRunLoop f c =
     (let c = c\<lparr>fc_nesting_depth := fc_nesting_depth c + 1\<rparr>;
          c = c\<lparr>work_deduplicator_of := snd (OnWorkRequested (work_deduplicator_of c))\<rparr>;
          c = fc_post ImmediateDoWork c
      in if has_nesting_observer c then f c else c)"

definition fc_OnExitNestedRunLoop :: "('s funneled \<Rightarrow> 's funneled) \<Rightarrow> 's funneled \<Rightarrow> 's funneled" where
  "fc_OnExitNestedRunLoop f c =
     (let c = c\<lparr>fc_nesting_depth := fc_nesting_depth c - 1\<rparr> in if has_nesting_observer c then f c else c)"

section \<open>Working\<close>

definition fc_begin :: "'s funneled \<Rightarrow> 's funneled" where
  "fc_begin c = c\<lparr>work_deduplicator_of := OnWorkStarted (work_deduplicator_of c), fc_begun := time_source c\<rparr>"

text \<open>The flag of the result says that the controller is still there.\<close>

fun fc_batch :: "('s, 't) funneled_env \<Rightarrow> nat \<Rightarrow> int \<Rightarrow> 's funneled \<Rightarrow> (bool \<times> 's funneled) option" where
  "fc_batch env fuel i c =
     (if \<not> i < fc_work_batch_size c then Some (True, c)
      else case fuel of 0 \<Rightarrow> None
      | Suc fuel \<Rightarrow>
          (case fc_TakeTask env c of None \<Rightarrow> None
           | Some (None, c) \<Rightarrow> Some (True, c)
           | Some (Some t, c) \<Rightarrow>
               (case fc_RunTask env t c of None \<Rightarrow> None
                | Some (False, c) \<Rightarrow> Some (False, c)
                | Some (True, c) \<Rightarrow>
                    let c = fc_DidRunTask env c
                    in if 0 < fc_nesting_depth c then Some (True, c) else fc_batch env fuel (i + 1) c)))"

declare fc_batch.simps [simp del]

definition fc_will_check :: "'s funneled \<Rightarrow> 's funneled" where
  "fc_will_check c = c\<lparr>work_deduplicator_of := WillCheckForMoreWork (work_deduplicator_of c)\<rparr>"

definition fc_did_check :: "next_task \<Rightarrow> 's funneled \<Rightarrow> should_schedule_work \<times> 's funneled" where
  "fc_did_check n c = (let (r, d) = DidCheckForMoreWork n (work_deduplicator_of c) in (r, c\<lparr>work_deduplicator_of := d\<rparr>))"

text \<open>The end of \<open>DoWork\<close>, from the delay of the next task and the clock it was computed with.\<close>

definition fc_finish :: "bool \<Rightarrow> int \<Rightarrow> int \<Rightarrow> 's funneled \<Rightarrow> 's funneled" where
  "fc_finish immediate now delay_till_next_task c =
     (if immediate
      then let (r, c) = fc_did_check kIsImmediate c in if r = kScheduleImmediate then fc_post ImmediateDoWork c else c
      else let (r, c) = fc_did_check kIsDelayed c
           in if r = kScheduleImmediate then fc_post ImmediateDoWork c
              else if delay_till_next_task = int64_max then c\<lparr>fc_next_delayed_do_work := int64_max, cancelable_closure := None\<rparr>
              else let next_task_at = ticks_plus now delay_till_next_task
                   in if next_task_at = fc_next_delayed_do_work c then c
                      else fc_post_delayed now delay_till_next_task (c\<lparr>fc_next_delayed_do_work := next_task_at\<rparr>))"

definition fc_DoWork :: "('s, 't) funneled_env \<Rightarrow> nat \<Rightarrow> 's funneled \<Rightarrow> 's funneled option" where
  "fc_DoWork env fuel c =
     (case fc_batch env fuel 0 (fc_begin c) of None \<Rightarrow> None
      | Some (False, c) \<Rightarrow> Some c
      | Some (True, c) \<Rightarrow>
          let c = fc_will_check c; now = time_source c;
              (delay_till_next_task, c) = fc_DelayTillNextTask env now c;
              (immediate, c) = (if delay_till_next_task \<le> 0 then (True, c) else fc_OnSystemIdle env c);
              c = fc_meanwhile env c
          in Some (fc_finish immediate now delay_till_next_task c))"

section \<open>Interleavings\<close>

text \<open>
  What happens to a controller: time passes, the source changes, any thread schedules work, the main thread
  requests delayed work (with a clock that it may have read before) and enters and leaves nested loops, and the
  runner runs what was posted, a delayed post not before it is due and a cancelled one without effect. Between
  the beginning of a \<open>DoWork\<close> and its end, where the clock is read anew, anything of this may happen, another
  \<open>DoWork\<close> of a nested loop included. A delay that is not infinite ends before the end of time.
\<close>

inductive fc_step :: "'s funneled \<Rightarrow> 's funneled \<Rightarrow> bool" where
  source: "fc_step c (c\<lparr>fc_source := s\<rparr>)"
| tick: "time_source c \<le> now \<Longrightarrow> fc_step c (c\<lparr>time_source := now\<rparr>)"
| schedule: "fc_step c (fc_ScheduleWork c)"
| delayed: "now \<le> time_source c \<Longrightarrow> fc_step c (fc_SetNextDelayedDoWork now run_time c)"
| batch_size: "fc_step c (fc_SetWorkBatchSize n c)"
| begin_nested: "fc_step c (fc_OnBeginNestedRunLoop id c)"
| exit_nested: "fc_step c (fc_OnExitNestedRunLoop id c)"
| run_immediate: "ImmediateDoWork \<in> set (runner_posts c) \<Longrightarrow>
    fc_step c (fc_begin (c\<lparr>runner_posts := remove1 ImmediateDoWork (runner_posts c)\<rparr>))"
| run_delayed: "DelayedDoWork i due \<in> set (runner_posts c) \<Longrightarrow> cancelable_closure c = Some i \<Longrightarrow> due \<le> time_source c \<Longrightarrow>
    fc_step c (fc_begin (c\<lparr>runner_posts := remove1 (DelayedDoWork i due) (runner_posts c)\<rparr>))"
| cancelled: "DelayedDoWork i due \<in> set (runner_posts c) \<Longrightarrow> cancelable_closure c \<noteq> Some i \<Longrightarrow>
    fc_step c (c\<lparr>runner_posts := remove1 (DelayedDoWork i due) (runner_posts c)\<rparr>)"
| will_check: "fc_step c (fc_will_check c)"
| finish: "fc_begun c \<le> now \<Longrightarrow> 0 \<le> now \<Longrightarrow> now \<le> time_source c \<Longrightarrow> 0 < delay \<Longrightarrow> delay = int64_max \<or> now + delay < int64_max \<Longrightarrow>
    fc_step c (fc_finish False now delay c)"
| finish_immediate: "fc_step c (fc_finish True now delay c)"

inductive fc_reachable :: "'s funneled \<Rightarrow> bool" where
  init: "has_runner \<or> manager \<noteq> None \<Longrightarrow> fc_reachable (ThreadControllerImpl_new s manager has_runner now)"
| step: "fc_reachable c \<Longrightarrow> fc_step c c' \<Longrightarrow> fc_reachable c'"

section \<open>The controller never stalls\<close>

abbreviation fc_state :: "'s funneled \<Rightarrow> u32" where "fc_state c \<equiv> wd_state (work_deduplicator_of c)"

definition state_ok :: "u32 \<Rightarrow> runner_post list \<Rightarrow> bool" where
  "state_ok w ps \<longleftrightarrow> w \<in> {kIdle, kDoWorkPending, kInDoWork, kInDoWork OR kPendingDoWorkFlag} \<and>
     (w = kDoWorkPending \<longrightarrow> ImmediateDoWork \<in> set ps)"

text \<open>The delayed call that is not cancelled is posted, not for too early and not later than the lag of its post allows, or it has been run by a \<open>DoWork\<close> that is
  not over.\<close>

definition call_ok :: "'s funneled \<Rightarrow> bool" where
  "call_ok c \<longleftrightarrow> (cancelable_closure c = None \<longleftrightarrow> fc_next_delayed_do_work c = int64_max) \<and> fc_begun c \<le> time_source c \<and>
     (\<forall>i due. DelayedDoWork i due \<in> set (runner_posts c) \<longrightarrow> i < next_closure c \<and>
        (cancelable_closure c = Some i \<longrightarrow> fc_next_delayed_do_work c \<le> due \<and> due \<le> max (time_source c) (fc_next_delayed_do_work c + fc_lag c))) \<and>
     (\<forall>i. cancelable_closure c = Some i \<longrightarrow> (\<exists>due. DelayedDoWork i due \<in> set (runner_posts c)) \<or>
        fc_next_delayed_do_work c \<le> fc_begun c \<and> fc_state c \<noteq> kIdle)"

lemma requested_ok:
  assumes "state_ok (wd_state d) ps" "OnWorkRequested d = (r, d')"
  shows "state_ok (wd_state d') (if r = kScheduleImmediate then ps @ [ImmediateDoWork] else ps)" "wd_state d' \<noteq> kIdle"
    "state_ok (wd_state d') (ps @ [ImmediateDoWork])"
  using assms by (auto simp: OnWorkRequested_def state_ok_def wd_flags split: if_splits)

lemma checked_ok:
  assumes "state_ok (wd_state d) ps" "DidCheckForMoreWork n d = (r, d')"
  shows "state_ok (wd_state d') (if r = kScheduleImmediate then ps @ [ImmediateDoWork] else ps)" "r = kScheduleImmediate \<Longrightarrow> wd_state d' \<noteq> kIdle"
    "n = kIsImmediate \<Longrightarrow> r = kScheduleImmediate"
  using assms by (auto simp: DidCheckForMoreWork_def state_ok_def wd_flags Let_def split: if_splits)

lemma started_ok: "state_ok kInDoWork ps" "kInDoWork \<noteq> kIdle"
  by (auto simp: state_ok_def wd_flags)

lemma state_ok_posts: "state_ok w ps \<Longrightarrow> ImmediateDoWork \<in> set qs \<or> ImmediateDoWork \<notin> set ps \<Longrightarrow> state_ok w qs"
  by (auto simp: state_ok_def)

text \<open>What keeps the delayed call: everything that leaves it and its post alone.\<close>

lemma call_keep:
  assumes "call_ok c" "cancelable_closure c' = cancelable_closure c" "fc_next_delayed_do_work c' = fc_next_delayed_do_work c"
    "next_closure c' = next_closure c" "fc_lag c' = fc_lag c" "fc_begun c \<le> fc_begun c'" "fc_begun c' \<le> time_source c'" "time_source c \<le> time_source c'"
    "\<And>i due. DelayedDoWork i due \<in> set (runner_posts c') \<Longrightarrow> DelayedDoWork i due \<in> set (runner_posts c)"
    "\<And>i due. cancelable_closure c = Some i \<Longrightarrow> DelayedDoWork i due \<in> set (runner_posts c) \<Longrightarrow> DelayedDoWork i due \<in> set (runner_posts c')"
    "fc_state c' = kIdle \<Longrightarrow> fc_state c = kIdle \<or> (\<exists>i due. cancelable_closure c = Some i \<and> DelayedDoWork i due \<in> set (runner_posts c)) \<or> cancelable_closure c = None"
  shows "call_ok c'"
proof -
  have b: "fc_begun c \<le> fc_begun c'" "time_source c \<le> time_source c'" using assms by simp_all
  have "\<exists>due. DelayedDoWork i due \<in> set (runner_posts c')"
    if "cancelable_closure c = Some i" "\<not> (fc_next_delayed_do_work c \<le> fc_begun c' \<and> fc_state c' \<noteq> kIdle)" for i
    using that assms(1,10,11) b(1) unfolding call_ok_def by (metis option.distinct(1) option.inject order_trans)
  moreover have "i < next_closure c \<and> (cancelable_closure c = Some i \<longrightarrow> fc_next_delayed_do_work c \<le> due \<and> due \<le> max (time_source c') (fc_next_delayed_do_work c + fc_lag c))"
    if "DelayedDoWork i due \<in> set (runner_posts c')" for i due
  proof -
    have "i < next_closure c \<and> (cancelable_closure c = Some i \<longrightarrow> fc_next_delayed_do_work c \<le> due \<and> due \<le> max (time_source c) (fc_next_delayed_do_work c + fc_lag c))"
      using assms(1) assms(9) [OF that] unfolding call_ok_def by blast
    then show ?thesis using b(2) by auto
  qed
  ultimately show ?thesis using assms(1,7) unfolding call_ok_def assms(2-5) by blast
qed

lemma call_cancel: "call_ok c \<Longrightarrow> call_ok (c\<lparr>cancelable_closure := None, fc_next_delayed_do_work := int64_max\<rparr>)"
  by (simp add: call_ok_def)

lemma call_arm:
  assumes "call_ok c" "t \<noteq> int64_max" "t \<le> time_source c + delay" "time_source c + delay \<le> max (time_source c) (t + (time_source c - now))"
  shows "call_ok (fc_post_delayed now delay (c\<lparr>fc_next_delayed_do_work := t\<rparr>))"
  using assms unfolding call_ok_def by (auto simp: fc_post_delayed_def fc_post_def less_SucI)

definition fc_inv :: "'s funneled \<Rightarrow> bool" where
  "fc_inv c \<longleftrightarrow> state_ok (fc_state c) (runner_posts c) \<and> call_ok c"

text \<open>The deduplicator changes, and an immediate post may be added.\<close>

lemma call_dedup:
  assumes "call_ok c" "fc_state c = kIdle \<or> wd_state d \<noteq> kIdle"
  shows "call_ok (c\<lparr>work_deduplicator_of := d\<rparr>)" "call_ok (fc_post ImmediateDoWork (c\<lparr>work_deduplicator_of := d\<rparr>))"
proof -
  have "fc_begun c \<le> time_source c" using assms(1) by (simp add: call_ok_def)
  then show "call_ok (c\<lparr>work_deduplicator_of := d\<rparr>)" "call_ok (fc_post ImmediateDoWork (c\<lparr>work_deduplicator_of := d\<rparr>))"
    using assms(2) by (auto intro!: call_keep [OF assms(1)] simp: fc_post_def)
qed

lemma schedule_inv: "fc_inv c \<Longrightarrow> fc_inv (fc_ScheduleWork c)"
  using requested_ok [of "work_deduplicator_of c" "runner_posts c"] call_dedup [of c]
  by (cases "OnWorkRequested (work_deduplicator_of c)") (auto simp: fc_inv_def fc_ScheduleWork_def fc_post_def Let_def)

lemma begin_inv:
  assumes i: "fc_inv c" and ps: "\<And>p. p \<in> set ps \<Longrightarrow> p \<in> set (runner_posts c)"
    and keep: "\<And>i due. cancelable_closure c = Some i \<Longrightarrow> DelayedDoWork i due \<in> set (runner_posts c) \<Longrightarrow> DelayedDoWork i due \<notin> set ps \<Longrightarrow>
      due \<le> time_source c"
  shows "fc_inv (fc_begin (c\<lparr>runner_posts := ps\<rparr>))"
proof -
  have k: "call_ok c" using i by (simp add: fc_inv_def)
  have "fc_next_delayed_do_work c \<le> time_source c"
    if v: "cancelable_closure c = Some i" "\<forall>due. DelayedDoWork i due \<notin> set ps" for i
  proof (cases "\<exists>due. DelayedDoWork i due \<in> set (runner_posts c)")
    case True
    then obtain due where d: "DelayedDoWork i due \<in> set (runner_posts c)" by blast
    have "fc_next_delayed_do_work c \<le> due" using k v(1) d unfolding call_ok_def by blast
    then show ?thesis using keep [OF v(1) d] v(2) by force
  next
    case False
    then show ?thesis using k v(1) unfolding call_ok_def by (metis order_trans)
  qed
  moreover have "i < next_closure c \<and> (cancelable_closure c = Some i \<longrightarrow>
      fc_next_delayed_do_work c \<le> due \<and> due \<le> max (time_source c) (fc_next_delayed_do_work c + fc_lag c))" if "DelayedDoWork i due \<in> set ps" for i due
    using k ps [OF that] unfolding call_ok_def by blast
  ultimately have "call_ok (fc_begin (c\<lparr>runner_posts := ps\<rparr>))"
    using k started_ok(2) unfolding call_ok_def by (simp add: fc_begin_def OnWorkStarted_def) blast
  then show ?thesis by (simp add: fc_inv_def fc_begin_def OnWorkStarted_def started_ok)
qed

lemma finish_inv:
  assumes i: "fc_inv c" and n: "immediate \<or> fc_begun c \<le> now \<and> 0 \<le> now \<and> now \<le> time_source c \<and> 0 < delay \<and> (delay = int64_max \<or> now + delay < int64_max)"
  shows "fc_inv (fc_finish immediate now delay c)"
proof -
  have k: "call_ok c" and s: "state_ok (fc_state c) (runner_posts c)" using i by (simp_all add: fc_inv_def)
  obtain r d where r: "DidCheckForMoreWork (if immediate then kIsImmediate else kIsDelayed) (work_deduplicator_of c) = (r, d)" by force
  note C = checked_ok [OF s r]
  let ?c = "c\<lparr>work_deduplicator_of := d\<rparr>"
  show ?thesis
  proof (cases "r = kScheduleImmediate")
    case True
    then have "fc_finish immediate now delay c = fc_post ImmediateDoWork ?c" using r by (simp add: fc_finish_def fc_did_check_def split: if_splits)
    then show ?thesis using call_dedup(2) [OF k] C(1,2) True by (simp add: fc_inv_def fc_post_def)
  next
    case False
    then have im: "\<not> immediate" using C(3) by auto
    then have n': "fc_begun c \<le> now" "0 \<le> now" "now \<le> time_source c" "0 < delay" "delay = int64_max \<or> now + delay < int64_max" using n by simp_all
    have st: "state_ok (wd_state d) (runner_posts c)" using C(1) False by simp
    show ?thesis
    proof (cases "delay = int64_max")
      case True
      then have e: "fc_finish immediate now delay c = ?c\<lparr>fc_next_delayed_do_work := int64_max, cancelable_closure := None\<rparr>"
        using r False im by (simp add: fc_finish_def fc_did_check_def)
      have "call_ok (?c\<lparr>fc_next_delayed_do_work := int64_max, cancelable_closure := None\<rparr>)" using k by (simp add: call_ok_def)
      then show ?thesis unfolding e using st by (simp add: fc_inv_def)
    next
      case fin: False
      then have "now + delay < int64_max" using n'(5) by simp
      then have t: "ticks_plus now delay = now + delay"
        using n'(2,4) fin by (simp add: ticks_plus_def SaturatedAdd_def TimeDelta_is_max_def TimeDelta_is_min_def is_int64_def)
      show ?thesis
      proof (cases "now + delay = fc_next_delayed_do_work c")
        case True
        then have e: "fc_finish immediate now delay c = ?c" using r False im fin t by (simp add: fc_finish_def fc_did_check_def)
        have "\<exists>due. DelayedDoWork i due \<in> set (runner_posts c)" if "cancelable_closure c = Some i" for i
          using k that True n'(1,4) unfolding call_ok_def by (metis add_strict_increasing2 le_less_trans less_irrefl not_less order_trans zero_less_diff add.commute add_le_same_cancel1)
        then have "call_ok ?c" using k unfolding call_ok_def by simp
        then show ?thesis unfolding e using st by (simp add: fc_inv_def)
      next
        case new: False
        then have e: "fc_finish immediate now delay c = fc_post_delayed now delay (?c\<lparr>fc_next_delayed_do_work := now + delay\<rparr>)"
          using r False im fin t by (simp add: fc_finish_def fc_did_check_def Let_def)
        have "call_ok (?c\<lparr>cancelable_closure := None, fc_next_delayed_do_work := int64_max\<rparr>)" using k by (simp add: call_ok_def)
        from call_arm [OF this, of "now + delay" delay now]
        have "call_ok (fc_post_delayed now delay (?c\<lparr>fc_next_delayed_do_work := now + delay\<rparr>))"
          using \<open>now + delay < int64_max\<close> n'(3) by (simp add: fc_post_delayed_def fc_post_def)
        moreover have "state_ok (wd_state d) (runner_posts c @ [DelayedDoWork (next_closure c) (time_source c + delay)])" using st by (rule state_ok_posts) auto
        ultimately show ?thesis unfolding e by (simp add: fc_inv_def fc_post_delayed_def fc_post_def)
      qed
    qed
  qed
qed

lemma delayed_inv:
  assumes i: "fc_inv c" and n: "now \<le> time_source c"
  shows "fc_inv (fc_SetNextDelayedDoWork now t c)"
proof -
  have k: "call_ok c" and s: "state_ok (fc_state c) (runner_posts c)" using i by (simp_all add: fc_inv_def)
  have "t \<noteq> int64_max \<Longrightarrow> call_ok (fc_post_delayed now (max 0 (t - now)) (c\<lparr>fc_next_delayed_do_work := t\<rparr>))"
    by (rule call_arm [OF k]) (use n in auto)
  moreover have "state_ok (fc_state c) (runner_posts c @ [DelayedDoWork j due])" for j due using s by (rule state_ok_posts) auto
  ultimately show ?thesis using i call_cancel [OF k]
    by (auto simp: fc_SetNextDelayedDoWork_def fc_inv_def Let_def) (simp add: fc_post_delayed_def fc_post_def)
qed

lemma fc_step_inv: "fc_step c c' \<Longrightarrow> fc_inv c \<Longrightarrow> fc_inv c'"
proof (induction rule: fc_step.induct)
  case (source c s)
  then show ?case by (simp add: fc_inv_def call_ok_def)
next
  case (tick c now)
  have "fc_begun c \<le> time_source c" using tick(2) by (simp add: fc_inv_def call_ok_def)
  then have "call_ok (c\<lparr>time_source := now\<rparr>)" using tick by (auto intro!: call_keep [of c] simp: fc_inv_def)
  then show ?case using tick(2) by (simp add: fc_inv_def)
next
  case (schedule c)
  then show ?case by (rule schedule_inv)
next
  case (delayed now c run_time)
  then show ?case by (intro delayed_inv)
next
  case (batch_size c n)
  then show ?case by (simp add: fc_inv_def call_ok_def fc_SetWorkBatchSize_def)
next
  case (begin_nested c)
  let ?c = "c\<lparr>fc_nesting_depth := fc_nesting_depth c + 1\<rparr>"
  obtain r d where r: "OnWorkRequested (work_deduplicator_of c) = (r, d)" by force
  have "call_ok ?c" using begin_nested by (simp add: fc_inv_def call_ok_def)
  moreover have s: "state_ok (fc_state c) (runner_posts c)" using begin_nested by (simp add: fc_inv_def)
  ultimately show ?case using call_dedup(2) [of ?c d] requested_ok(2,3) [OF s r] r
    by (simp add: fc_OnBeginNestedRunLoop_def fc_inv_def fc_post_def Let_def)
next
  case (exit_nested c)
  then show ?case by (simp add: fc_inv_def call_ok_def fc_OnExitNestedRunLoop_def Let_def)
next
  case (run_immediate c)
  show ?case by (rule begin_inv [OF run_immediate(2)]) (auto simp: in_set_remove1 dest: notin_set_remove1 set_remove1_subset [THEN subsetD])
next
  case (run_delayed i due c)
  show ?case
  proof (rule begin_inv [OF run_delayed(4)])
    fix j e
    assume a: "DelayedDoWork j e \<in> set (runner_posts c)" "DelayedDoWork j e \<notin> set (remove1 (DelayedDoWork i due) (runner_posts c))"
    then show "e \<le> time_source c" using run_delayed(3) by (cases "DelayedDoWork j e = DelayedDoWork i due") (auto simp: in_set_remove1)
  qed (auto dest: set_remove1_subset [THEN subsetD])
next
  case (cancelled i due c)
  let ?ps = "remove1 (DelayedDoWork i due) (runner_posts c)"
  have k: "call_ok c" using cancelled(3) by (simp add: fc_inv_def)
  then have bt: "fc_begun c \<le> time_source c" by (simp add: call_ok_def)
  have sub: "p \<in> set (runner_posts c)" if "p \<in> set ?ps" for p using that set_remove1_subset by fast
  have "call_ok (c\<lparr>runner_posts := ?ps\<rparr>)"
  proof (rule call_keep [OF k])
    fix j e
    assume "cancelable_closure c = Some j" "DelayedDoWork j e \<in> set (runner_posts c)"
    then show "DelayedDoWork j e \<in> set (runner_posts (c\<lparr>runner_posts := ?ps\<rparr>))" using cancelled(2) by (simp add: in_set_remove1)
  qed (use bt in \<open>simp_all add: sub\<close>)
  moreover have "state_ok (fc_state c) ?ps" by (rule state_ok_posts [of _ "runner_posts c"]) (use cancelled(3) in \<open>simp_all add: fc_inv_def in_set_remove1\<close>)
  ultimately show ?case by (simp add: fc_inv_def)
next
  case (will_check c)
  then show ?case using call_dedup(1) [of c "WillCheckForMoreWork (work_deduplicator_of c)"] started_ok
    by (simp add: fc_inv_def fc_will_check_def WillCheckForMoreWork_def)
next
  case (finish c now delay)
  then show ?case by (intro finish_inv) simp_all
next
  case (finish_immediate c now delay)
  then show ?case by (intro finish_inv) simp_all
qed

lemma fc_reachable_inv: "fc_reachable c \<Longrightarrow> fc_inv c"
proof (induction rule: fc_reachable.induct)
  case (init has_runner manager s now)
  then show ?case by (auto simp: fc_inv_def call_ok_def state_ok_def ThreadControllerImpl_new_def BindToCurrentThread_def WorkDeduplicator_new_def wd_flags Let_def)
next
  case (step c c')
  then show ?case using fc_step_inv by blast
qed

section \<open>A run of \<open>DoWork\<close>\<close>

text \<open>A source, the tasks and the other threads reach the controller only through its operations; between the
  check for more work and its end no other \<open>DoWork\<close> begins, and a finite delay ends before the end of time.\<close>

definition only_requests :: "('s, 't) funneled_env \<Rightarrow> bool" where
  "only_requests env \<longleftrightarrow> (\<forall>c r c'. fc_TakeTask env c = Some (r, c') \<longrightarrow> fc_step\<^sup>*\<^sup>* c c') \<and>
     (\<forall>t c r c'. fc_RunTask env t c = Some (r, c') \<longrightarrow> fc_step\<^sup>*\<^sup>* c c') \<and> (\<forall>c. fc_step\<^sup>*\<^sup>* c (fc_DidRunTask env c)) \<and>
     (\<forall>now c d c'. fc_DelayTillNextTask env now c = (d, c') \<longrightarrow> fc_step\<^sup>*\<^sup>* c c' \<and> fc_begun c' = fc_begun c \<and> (d = int64_max \<or> now + d < int64_max)) \<and>
     (\<forall>c r c'. fc_OnSystemIdle env c = (r, c') \<longrightarrow> fc_step\<^sup>*\<^sup>* c c' \<and> fc_begun c' = fc_begun c) \<and>
     (\<forall>c. fc_step\<^sup>*\<^sup>* c (fc_meanwhile env c) \<and> fc_begun (fc_meanwhile env c) = fc_begun c)"

lemma only_requestsD:
  assumes "only_requests env"
  shows "fc_TakeTask env c = Some (r, c') \<Longrightarrow> fc_step\<^sup>*\<^sup>* c c'" "fc_RunTask env t c = Some (b, c') \<Longrightarrow> fc_step\<^sup>*\<^sup>* c c'"
    "fc_step\<^sup>*\<^sup>* c (fc_DidRunTask env c)"
    "fc_DelayTillNextTask env now c = (d, c') \<Longrightarrow> fc_step\<^sup>*\<^sup>* c c' \<and> fc_begun c' = fc_begun c \<and> (d = int64_max \<or> now + d < int64_max)"
    "fc_OnSystemIdle env c = (b, c') \<Longrightarrow> fc_step\<^sup>*\<^sup>* c c' \<and> fc_begun c' = fc_begun c" "fc_step\<^sup>*\<^sup>* c (fc_meanwhile env c)" "fc_begun (fc_meanwhile env c) = fc_begun c"
  using assms unfolding only_requests_def by blast+

lemma batch_steps: "only_requests env \<Longrightarrow> fc_batch env fuel i c = Some (b, c') \<Longrightarrow> fc_step\<^sup>*\<^sup>* c c'"
proof (induction env fuel i c arbitrary: b c' rule: fc_batch.induct)
  case (1 env fuel i c)
  note D = only_requestsD [OF "1.prems"(1)]
  show ?case
  proof (cases "i < fc_work_batch_size c")
    case False
    then show ?thesis using "1.prems"(2) by (simp add: fc_batch.simps [of env fuel i c])
  next
    case True
    obtain m r c1 where m: "fuel = Suc m" and t: "fc_TakeTask env c = Some (r, c1)"
      using "1.prems"(2) True by (subst (asm) fc_batch.simps) (auto split: nat.splits option.splits)
    have s1: "fc_step\<^sup>*\<^sup>* c c1" by (rule D(1) [OF t])
    show ?thesis
    proof (cases r)
      case None
      then show ?thesis using "1.prems"(2) True m t s1 by (subst (asm) fc_batch.simps) simp
    next
      case (Some x)
      obtain a c2 where u: "fc_RunTask env x c1 = Some (a, c2)"
        using "1.prems"(2) True m t Some by (subst (asm) fc_batch.simps) (auto split: option.splits)
      have s2: "fc_step\<^sup>*\<^sup>* c c2" using s1 D(2) [OF u] by (rule rtranclp_trans)
      have s3: "fc_step\<^sup>*\<^sup>* c (fc_DidRunTask env c2)" using s2 D(3) by (rule rtranclp_trans)
      show ?thesis
      proof (cases "a \<and> \<not> 0 < fc_nesting_depth (fc_DidRunTask env c2)")
        case False
        then have "c' = c2 \<or> c' = fc_DidRunTask env c2" using "1.prems"(2) True m t Some u
          by (subst (asm) fc_batch.simps) (cases a; simp add: Let_def split: if_splits)
        then show ?thesis using s2 s3 by blast
      next
        case go: True
        then have "fc_batch env m (i + 1) (fc_DidRunTask env c2) = Some (b, c')"
          using "1.prems"(2) True m t Some u by (subst (asm) fc_batch.simps) simp
        then have "fc_step\<^sup>*\<^sup>* (fc_DidRunTask env c2) c'" using "1.IH" [of m "(r, c1)" r c1 x "(a, c2)" a c2 "fc_DidRunTask env c2" b c'] True m t Some u go "1.prems"(1) by simp
        then show ?thesis using s3 by (rule rtranclp_trans [rotated])
      qed
    qed
  qed
qed

lemma step_time: "fc_step c c' \<Longrightarrow> time_source c \<le> time_source c'"
proof (induction rule: fc_step.induct)
  case (schedule c)
  then show ?case by (simp add: fc_ScheduleWork_def fc_post_def Let_def split: prod.splits)
next
  case (finish c now delay)
  then show ?case by (auto simp: fc_finish_def fc_did_check_def fc_post_delayed_def fc_post_def Let_def split: prod.splits)
next
  case (finish_immediate c now delay)
  then show ?case by (auto simp: fc_finish_def fc_did_check_def fc_post_def Let_def split: prod.splits)
qed (simp_all add: fc_SetNextDelayedDoWork_def fc_SetWorkBatchSize_def fc_OnBeginNestedRunLoop_def
    fc_OnExitNestedRunLoop_def fc_begin_def fc_will_check_def fc_post_delayed_def fc_post_def Let_def)

lemma steps_time: "fc_step\<^sup>*\<^sup>* c c' \<Longrightarrow> time_source c \<le> time_source c'"
  by (induction rule: rtranclp_induct) (use step_time order_trans in blast)+

lemma steps_reachable: "fc_step\<^sup>*\<^sup>* c c' \<Longrightarrow> fc_reachable c \<Longrightarrow> fc_reachable c'"
  by (induction rule: rtranclp_induct) (auto intro: fc_reachable.step)

text \<open>A run of \<open>DoWork\<close> is a sequence of steps, whatever its source and its tasks do.\<close>

lemma DoWork_reachable:
  assumes r: "fc_reachable (fc_begin c)" and t: "0 \<le> time_source c" and e: "only_requests env" and w: "fc_DoWork env fuel c = Some c'"
  shows "fc_reachable c'"
proof -
  note D = only_requestsD [OF e]
  obtain b c1 where b: "fc_batch env fuel 0 (fc_begin c) = Some (b, c1)" using w by (auto simp: fc_DoWork_def split: option.splits)
  have s1: "fc_step\<^sup>*\<^sup>* (fc_begin c) c1" by (rule batch_steps [OF e b])
  then have r1: "fc_reachable c1" using r steps_reachable by blast
  show ?thesis
  proof (cases b)
    case False
    then show ?thesis using w b r1 by (simp add: fc_DoWork_def)
  next
    case True
    define c2 where "c2 = fc_will_check c1"
    have r2: "fc_reachable c2" unfolding c2_def by (rule fc_reachable.step [OF r1 fc_step.will_check])
    have "0 \<le> time_source c1" using steps_time [OF s1] t by (simp add: fc_begin_def)
    then have t2: "0 \<le> time_source c2" by (simp add: c2_def fc_will_check_def)
    have b2: "fc_begun c2 \<le> time_source c2" using fc_reachable_inv [OF r2] by (simp add: fc_inv_def call_ok_def)
    obtain d c3 where d: "fc_DelayTillNextTask env (time_source c2) c2 = (d, c3)" by force
    obtain im c4 where i: "(if d \<le> 0 then (True, c3) else fc_OnSystemIdle env c3) = (im, c4)" by force
    have s4: "fc_step\<^sup>*\<^sup>* c3 c4" "fc_begun c4 = fc_begun c3" using i D(5) by (auto split: if_splits)
    let ?c = "fc_meanwhile env c4"
    have s: "fc_step\<^sup>*\<^sup>* c2 ?c" "fc_begun ?c = fc_begun c2" using D(4) [OF d] s4 D(6,7) [of c4] by auto
    have rc: "fc_reachable ?c" by (rule steps_reachable [OF s(1) r2])
    have "c' = fc_finish im (time_source c2) d ?c" using w b True d i by (simp add: fc_DoWork_def Let_def c2_def)
    moreover have "fc_step ?c (fc_finish im (time_source c2) d ?c)"
    proof (cases im)
      case True
      then show ?thesis using fc_step.finish_immediate by simp
    next
      case False
      then have "0 < d" using i by (auto split: if_splits)
      then show ?thesis using fc_step.finish [of ?c "time_source c2" d] False b2 t2 s D(4) [OF d] steps_time [OF s(1)] by simp
    qed
    ultimately show ?thesis using fc_reachable.step [OF rc] by simp
  qed
qed

section \<open>An example\<close>

text \<open>The clock was read at 0; the delayed post for time 5 is made at 2.\<close>

definition demo_funneled :: "unit funneled" where
  "demo_funneled = fc_SetNextDelayedDoWork 0 5 ((ThreadControllerImpl_new () None True 0)\<lparr>time_source := 2\<rparr>)"

definition demo_quiet :: "(unit, nat) funneled_env" where
  "demo_quiet = \<lparr>fc_TakeTask = (\<lambda>c. Some (None, c)), fc_RunTask = (\<lambda>t c. Some (True, c)), fc_DidRunTask = (\<lambda>c. c),
     fc_DelayTillNextTask = (\<lambda>now c. (int64_max, c)), fc_OnSystemIdle = (\<lambda>c. (False, c)), fc_meanwhile = (\<lambda>c. c)\<rparr>"

lemma demo_funneled_reachable: "fc_reachable demo_funneled"
proof -
  let ?c = "ThreadControllerImpl_new () None True 0"
  have "fc_reachable ?c" by (rule fc_reachable.init) simp
  moreover have "fc_step ?c (?c\<lparr>time_source := 2\<rparr>)" by (rule fc_step.tick) (simp add: ThreadControllerImpl_new_def)
  moreover have "fc_step (?c\<lparr>time_source := 2\<rparr>) demo_funneled" unfolding demo_funneled_def by (rule fc_step.delayed) simp
  ultimately show ?thesis by (blast intro: fc_reachable.step)
qed

lemma demo_funneled_reads: "fc_state demo_funneled = kIdle" "fc_next_delayed_do_work demo_funneled = 5" "time_source demo_funneled = 2"
  "fc_lag demo_funneled = 2"
  by code_simp+

lemma demo_quiet_requests: "only_requests demo_quiet"
  by (simp add: only_requests_def demo_quiet_def)

end
