(* ===== verification/Spec2Isabelle.thy ===== *)
theory Spec2Isabelle
  imports Data_Refinement Thread_Manager App_Scheduler Pool_Example Group_Example Delayed_Tasks Funneled_Controller
begin

text \<open>
  The task scheduler of Chromium's \<open>base\<close> library, as this repository carries it under
  \<open>src/app/src/main/cpp/chromium/src/base\<close>. A sequence manager runs the tasks of one thread. Clients post
  closures to task queues, from any thread and with or without a delay; the manager orders the queues by
  priority and age, hands one task at a time to its thread controller, and asks the controller for
  another call when there is more to do. The files are \<open>task/sequence_manager/*\<close>, \<open>task/common/*\<close>,
  \<open>pending_task\<close> and \<open>time/time.cc\<close>. Beside it stands the thread pool of the same library,
  \<open>task/thread_pool/*\<close>: sequences of tasks that any of its workers may run.

  \<^bold>\<open>The parts and their theories.\<close> Data structures first, each a theory of its own, with the state as a
  record and one definition per operation under its C++ name:

  \<^item> \<open>Base_Prelude\<close>: machine types, collections of simplification facts, list and index lemmas.
  \<^item> \<open>Intrusive_Heap\<close>: \<open>intrusive_heap.h\<close>, a binary heap that tells each element its position, so that
    it can be erased or re-keyed through a handle.
  \<^item> \<open>Lazy_Deque\<close>: \<open>lazily_deallocated_deque.h\<close>, a chain of ring buffers that grows by doubling and shrinks
    when idle.
  \<^item> \<open>Small_Priority_Queue\<close>: the fixed array of active priorities inside \<open>task_queue_selector\<close>.
  \<^item> \<open>Atomic_Flag_Set\<close>: \<open>atomic_flag_set\<close>, flags in groups of 64 that any thread may raise.
  \<^item> \<open>Work_Deduplicator\<close> and \<open>Operations_Controller\<close>: the two small concurrent state machines, each
    atomic access one step, threads interleaved by a step relation.
  \<^item> \<open>Time_Ticks\<close>, \<open>Sched_Tasks\<close>: saturated 64-bit time, enqueue orders, tasks, wake-ups and their
    comparisons through truncated sequence numbers.

  Then the scheduler, whose state is one record \<^typ>\<open>sched\<close> (\<open>Sched_State\<close>): pointers are numbers, a work
  queue is named by its task queue and its kind, cross-thread calls and wake-up requests are events.

  \<^item> \<open>Work_Queue_Sets\<close> (\<open>work_queue_sets\<close>): per priority and kind a heap of the work queues with a
    visible front task.
  \<^item> \<open>Task_Queue_Selector\<close> (\<open>task_queue_selector\<close>): which work queue is served next, with the starvation
    accounting.
  \<^item> \<open>Work_Queue\<close> (\<open>work_queue\<close>): pushing, taking, fences, dropping cancelled tasks, reloading.
  \<^item> \<open>Time_Domain\<close> (\<open>time_domain\<close>, \<open>real_time_domain\<close>): the heap of wake-ups.
  \<^item> \<open>Delayed_Queue\<close>, \<open>Task_Queue\<close> (\<open>task_queue_impl\<close>): the delayed incoming queue, posting, fences, enabling,
    moving due tasks, registration.
  \<^item> \<open>Sequence_Manager\<close> (\<open>sequence_manager_impl\<close>): creating and removing queues, reloading, taking a task,
    nested run loops, clean-up, idle work, crash keys.
  \<^item> \<open>Queue_Handle\<close> (\<open>task_queue\<close>): the handle that clients hold, with its voters.

  Last the thread around it. \<open>Thread_Controller\<close> (\<open>thread_controller_with_message_pump_impl\<close>,
  \<open>message_loop/message_pump_default\<close>) models the controller and its pump as one record
  \<open>thread_controller\<close>, in which the task source keeps its state; \<open>Run_Loop\<close> (\<open>run_loop\<close>) the stack of run
  loops on it; \<open>Thread_Manager\<close> plugs the sequence manager in as the task source and hands its requests
  to the controller.

  \<open>Funneled_Controller\<close> (\<open>thread_controller_impl\<close>) is the other controller, which posts its \<open>DoWork\<close> to a task
  runner; its interleavings with other threads, the runner and nested loops are \<^const>\<open>fc_reachable\<close>.

  \<open>App_Scheduler\<close> (\<open>src/app/src/main/cpp/app_scheduler/*\<close>) is the client that the repository adds: the
  queues of the application's UI thread with their voters, the packed traits of a task, and the
  executor that turns the traits into a queue. Its queues are created in the scheduler above through the handle.

  The thread pool has theories of its own. \<open>Task_Traits\<close> (\<open>task_traits.h\<close>) holds the enumerations,
  \<open>Pool_Queue\<close> (\<open>priority_queue\<close>, \<open>sequence_sort_key\<close>) the heap of task sources, \<open>Pool_Sequence\<close>
  (\<open>sequence\<close>, \<open>task_source\<close>) the sources, \<open>Task_Tracker\<close> (\<open>task_tracker\<close>) what may be posted, queued and run
  around shutdown, and \<open>Thread_Pool\<close> (\<open>thread_pool_impl\<close>, \<open>thread_group\<close>, \<open>thread_group_impl\<close>) the groups with
  their queues, posting, and the cycle of a worker, on one record \<open>thread_pool\<close>. \<open>Pool_Steps\<close> makes posts,
  changes of priority, fences, shutdown and the phases of the workers one transition system,
  \<^const>\<open>pool_reachable\<close>; its steps are whole calls, and the end of a task is three of them (\<^const>\<open>run_did\<close>,
  \<^const>\<open>run_after\<close>, \<^const>\<open>run_return\<close>), between which the code lets other threads in. The interleaving of single accesses
  to the tracker is \<^const>\<open>tracker_reachable\<close>. \<open>Group_Workers\<close> (\<open>thread_group_impl\<close>, \<open>worker_thread_stack\<close>) has the workers of one
  group: its start, how many are created, woken, sent to the idle stack and cleaned up, and how blocking calls
  raise the limits. \<open>Group_Staff\<close> makes these operations a transition system of one group,
  \<^const>\<open>staff_reachable\<close>; there the limits change, while \<^const>\<open>pool_reachable\<close> keeps them as they were at the start
  and takes the decision who may get work as an argument. \<open>Delayed_Tasks\<close> (\<open>delayed_task_manager\<close>) has the tasks
  that wait until they are ripe, with the threads that add them and the calls on the service thread as a
  transition system, \<^const>\<open>delayed_reachable\<close>, and the posting operation of the pool that uses it.

  \<^bold>\<open>Interfaces.\<close> \<open>indexed_priority_queue\<close> is what the scheduler relies on of a heap with handles; it is
  interpreted for the heaps of work queues and, in the window of sequence numbers, for the heaps of
  wake-ups; the heap of the thread pool, whose entries lose their source before they are taken out, interprets
  \<open>heap_order\<close> below it. \<open>task_deque\<close> is the contract of the deque and \<open>flag_registry\<close> that of the flag set.
  \<open>polite_source\<close> (\<open>Thread_Loop\<close>) is what the controller relies on of its task source: it changes nothing of
  the controller but by requests for work. The sequence manager satisfies it, and the theorems about
  batches, sleeping and nested runs are proved from it.

  \<^bold>\<open>What is shown.\<close> \<open>Data_Refinement\<close> states for each container, and any sequence of its operations,
  the abstract object it is: a map, a list, a sorted list, a set of raised flags. \<open>Queue_Sync\<close> shows that
  every operation of a queue keeps the heaps of the selector equal to what the queues show
  (\<^const>\<open>in_sync\<close>), \<open>Queue_Wake_Ups\<close> that the wake-up heap holds each queue's earliest task, and that moving
  due tasks ends. \<open>Manager_View\<close> reduces the state to what matters of each queue and computes the effect
  of every operation on it; \<open>Manager_Invariant\<close>, \<open>Manager_Operations\<close> and \<open>Manager_Loop\<close> prove the
  invariant of the whole scheduler for each operation and the outcome of the loop that takes a task;
  \<open>Manager_Steps\<close> makes the operations one transition system, \<^const>\<open>reachable\<close>. \<open>Manager_Example\<close> builds
  small reachable states on which the theorems with hypotheses are instantiated. The theorems below
  speak of reachable states wherever they can: C1 to C15 are about the scheduler as a whole (its
  invariant, taking a task, reloading, nesting, selection, fences, enabling, priorities, posting,
  unregistering, delayed tasks, wake-ups), then follow errors, the refinements of the containers and the
  concurrent parts, from C22 the threads that drive the scheduler and the handle, from C28 the
  application, and from C30 the thread pool. \<open>Pool_Steps\<close> proves for the pool where every sequence is
  (\<^const>\<open>pool_inv\<close>) and what the counters of the workers are (\<^const>\<open>crew_inv\<close>), \<open>Pool_Shutdown\<close> what each
  call of the tracker does to its word and its event, and what its number of incomplete sources counts
  (\<^const>\<open>count_inv\<close>), \<open>Group_Staff\<close> that the workers of a group and its
  limits are in order (\<^const>\<open>staff_inv\<close>), \<open>Delayed_Tasks\<close> that no call for a ripe task is missing
  (\<^const>\<open>calls_inv\<close>); \<open>Pool_Example\<close> and \<open>Group_Example\<close> have the instances.

  \<^bold>\<open>Fuel and bounds.\<close> \<^const>\<open>take_loop\<close> and \<^const>\<open>td_MoveReady\<close> take fuel and return \<^term>\<open>None\<close> when it is used
  up; as many units as tasks wait (\<^const>\<open>backlog\<close>), or as queues are due, are proved to be enough. A batch
  (\<^const>\<open>do_batch\<close>) needs as much as its size; the loop of the pump (\<^const>\<open>pump_loop\<close>) may run for ever, and
  its theorems hold for any fuel. All other loops are structural or have a termination proof. Enqueue orders are 64-bit words;
  \<^const>\<open>counter_room\<close> says that the counter has not run out, which would take 580 years of a billion tasks a
  second. Sequence numbers are compared by the sign of a 32-bit difference, which orders them within a
  window of two to the 31. Sort keys of priorities are 64-bit integers, so that statements about
  them bound the number of selections. A transition of \<^const>\<open>reachable\<close> never sets a delayed fence
  (\<open>InsertFenceAt\<close>): activating one is the step in which the code inserts fences without telling the selector, and
  C1 does not hold after it. The end of a nested loop is a transition only if it returns, which C4 says it does
  exactly when no queue with deferred tasks was unregistered. The tracker of the pool counts in 31 bits;
  \<^const>\<open>tracker_step\<close> posts and runs only below half of that. The clock of \<open>Funneled_Controller\<close> moves between the reading
  and the post of a delay (\<^const>\<open>fc_lag\<close>), so that a call may come late by that much.

  \<^bold>\<open>Not modelled.\<close> Task observers, tracing and \<open>AsValue\<close> (no effect on scheduling); the message pumps of the
  platforms (bindings to native loops); time domains other than the real one (classes of other
  programs, parameters of the operations that ask them); what a task does when it runs and what other
  threads do meanwhile (parameters of the thread controller); of the thread pool the threads of the
  workers themselves, the native groups, single-thread runners and histograms; promises and the rest of \<open>base\<close>; the registry of executors and the binding of the application's scheduler to the message pump of
  Android. Memory is not modelled below the level of the containers: that a work queue is gone after
  \<open>UnregisterTaskQueue\<close>, or a queue after its handle was shut down, is a value of the operations that would
  read it.
\<close>

declare split_paired_All [simp del] split_paired_Ex [simp del]

text \<open>
  C1. In every state that clients and the manager's own loop can reach without a delayed fence (the
  operations of sm_step; InsertFenceAt is not among them, because a delayed fence that an incoming
  task activates leaves the heaps stale), the heaps of the selector hold exactly the visible front
  tasks; a work queue is in the selector exactly when its queue is registered and enabled; the
  active queues are the registered ones; and the tasks of a work queue, the deferred ones first and
  those still in the incoming queue last, carry strictly increasing enqueue orders, all below the
  generator's next one.
\<close>

theorem scheduler_invariant:
  assumes "reachable s"
  shows "in_sync s \<and> set (active_queues s) = {q. \<not> tq_unregistered (tq s q)} \<and>
    (\<forall>q w. work_queue_sets (wq s (q, w)) = (if \<not> tq_unregistered (tq s q) \<and> is_enabled (tq s q) then Some w else None)) \<and>
    (\<forall>q w. sorted_wrt (<) (map task_enqueue_order (deferred_of (q, w) (non_nestable_task_queue s) @ queue_tasks (q, w) s) @
       [enqueue_order_generator s]))"
proof -
  note W = reachable_world [OF assms]
  have i: "sm_inv s" using W by (simp add: world_inv_def)
  note I = sm_invD [OF i]
  have "set (active_queues s) = {q. \<not> tq_unregistered (tq s q)}"
    using W by (simp add: world_inv_def live_queues_def view_reads)
  moreover have "work_queue_sets (wq s (q, w)) = (if \<not> tq_unregistered (tq s q) \<and> is_enabled (tq s q) then Some w else None)" for q w
    using I(3) [of q] by (auto simp: placed_def view_def fun_eq_iff split: if_splits)
  moreover have "sorted_wrt (<) (map task_enqueue_order (deferred_of (q, w) (non_nestable_task_queue s) @ queue_tasks (q, w) s) @
      [enqueue_order_generator s])" for q w
    using lines_okD [OF I(5), of q w] unfolding queue_tasks_waiting orders_in_def sorted_wrt_append by auto
  ultimately show ?thesis using I(2) by blast
qed

theorem scheduler_invariant_witness:
  "in_sync demo_ready \<and> work_queue_sets (wq demo_ready (0, kImmediate)) = Some kImmediate"
  using scheduler_invariant [OF demo_ready_reachable] demo_ready_view(1) view_reads(6,7) [of demo_ready 0] by (simp add: new_queue_view_def)

text \<open>
  C2. From every reachable state the loop of TakeTaskImpl ends as soon as its fuel covers the tasks
  that wait, in release as in debug builds. It returns no task only when no queue has a visible
  task, and then every live task is still in its place. A task it returns is not cancelled, is
  nestable unless the outermost loop runs, and is the first live task of its queue behind the
  deferred ones; no other live task moves.
\<close>

theorem take_task_outcome:
  assumes "reachable s" "backlog s \<le> fuel"
  shows "\<exists>r u. take_loop fuel dcheck s = Some (r, u) \<and>
    (case r of None \<Rightarrow> (\<forall>x. expected u x = None) \<and> line u = line s
     | Some t \<Rightarrow> \<not> task_is_dead s t \<and> (task_nestable t = kNonNestable \<longrightarrow> nesting_depth s = 0) \<and>
         (\<exists>x as bs. line s x = as @ t # bs \<and> line u = (line s)(x := as @ bs) \<and>
            as = filter (\<lambda>t. \<not> task_is_dead s t) (deferred_of x (non_nestable_task_queue u))))"
proof -
  note W = reachable_world [OF assms(1)]
  have i: "sm_inv s" "0 \<le> nesting_depth s" using W by (simp_all add: world_inv_def)
  obtain r u where r: "take_loop fuel dcheck s = Some (r, u)" "took s r u"
    using take_loop_took [OF i(1) assms(2)] by blast
  then show ?thesis using i(2) by (intro exI [of _ r] exI [of _ u]) (auto simp: took_def split: option.splits)
qed

theorem take_task_outcome_witness:
  "\<exists>r u. take_loop 1 True demo_ready = Some (r, u) \<and> (r = None \<longrightarrow> line u = line demo_ready)"
  using take_task_outcome [OF demo_ready_reachable, of 1 True] demo_ready_backlog(1) by (auto split: option.splits)

text \<open>
  C3. However the reload flags were raised and lowered before, a run of ReloadEmptyWorkQueues moves
  the incoming tasks of exactly those registered queues whose immediate work queue is empty, in
  order; afterwards no registered queue has incoming tasks behind an empty work queue, and no work
  queue with tasks has been touched.
\<close>

theorem reload_leaves_no_task_behind:
  assumes "reachable s" "\<not> tq_unregistered (tq s q)"
  shows "queue_tasks (q, w) (ReloadEmptyWorkQueues s) = queue_tasks (q, w) s \<and>
    dq_list (tasks (wq (ReloadEmptyWorkQueues s) (q, kImmediate))) =
      (if dq_list (tasks (wq s (q, kImmediate))) = [] then dq_list (immediate_incoming_queue (tq s q))
       else dq_list (tasks (wq s (q, kImmediate))))"
proof -
  have i: "sm_inv s" using reachable_world [OF assms(1)] by (simp add: world_inv_def)
  note v = fun_cong [OF Reload_inv(2) [OF i], of q]
  have r: "reloaded_view (view s) q = refill_view kImmediate (view s q)"
    using assms(2) by (simp add: reloaded_view_def view_reads)
  have "queue_tasks (q, w) (ReloadEmptyWorkQueues s) = queue_tasks (q, w) s" unfolding queue_tasks_waiting v r waiting_refill ..
  moreover have "dq_list (tasks (wq (ReloadEmptyWorkQueues s) (q, kImmediate))) =
      (if dq_list (tasks (wq s (q, kImmediate))) = [] then dq_list (immediate_incoming_queue (tq s q))
       else dq_list (tasks (wq s (q, kImmediate))))"
    unfolding view_reads(1,5) [symmetric] v r by (auto simp: refill_view_def reload_view_def)
  ultimately show ?thesis by blast
qed

theorem reload_leaves_no_task_behind_witness:
  "dq_list (tasks (wq (ReloadEmptyWorkQueues demo_posted) (0, kImmediate))) = [demo_the_task]"
  using reload_leaves_no_task_behind [OF demo_posted_reachable, of 0] demo_posted_view(1)
    view_reads [of demo_posted 0] by (simp add: new_queue_view_def)

text \<open>
  C4. When the outermost nested run loop ends, it fails exactly when some deferred task belongs to a
  queue that was unregistered while the loop was nested (the code then reads a null work queue);
  otherwise every deferred task is back in front of its own work queue, in the order in which the
  tasks were posted: each queue's line of tasks is exactly what it was, nothing stays deferred, and
  the selector is in step.
\<close>

theorem nested_loop_restores_order:
  assumes "reachable s" "nesting_depth s = 1"
  shows "case OnExitNestedRunLoop s of
     None \<Rightarrow> (\<exists>d\<in>set (non_nestable_task_queue s). tq_unregistered (tq s (df_queue d)))
   | Some t \<Rightarrow> (\<forall>d\<in>set (non_nestable_task_queue s). \<not> tq_unregistered (tq s (df_queue d))) \<and>
       non_nestable_task_queue t = [] \<and> in_sync t \<and>
       (\<forall>q w. queue_tasks (q, w) t = deferred_of (q, w) (non_nestable_task_queue s) @ queue_tasks (q, w) s)"
proof -
  let ?s = "s\<lparr>nesting_depth := 0\<rparr>"
  have i0: "sm_inv s" using reachable_world [OF assms(1)] by (simp add: world_inv_def)
  have i: "sm_inv ?s" by (rule sm_inv_globals [OF i0]) simp_all
  have v: "view ?s = view s" by (rule view_cong) simp_all
  have eq: "OnExitNestedRunLoop s = requeue_deferred ?s" using assms(2) by (simp add: OnExitNestedRunLoop_def Let_def)
  note R = requeue_deferred_inv [OF i]
  show ?thesis
  proof (cases "requeue_deferred ?s")
    case None
    then show ?thesis using R(1) eq by simp
  next
    case (Some t)
    have "queue_tasks (q, w) t = deferred_of (q, w) (non_nestable_task_queue s) @ queue_tasks (q, w) s" for q w
      unfolding queue_tasks_waiting using R(4) [OF Some, of q w] v by simp
    then show ?thesis using Some eq R(1) R(3) [OF Some] sm_invD(2) [OF R(2) [OF Some]] by auto
  qed
qed

theorem nested_loop_restores_order_witness:
  "(\<exists>t. OnExitNestedRunLoop demo_deferred = Some t \<and> hd (queue_tasks (0, kImmediate) t) = demo_bound_task) \<and>
   OnExitNestedRunLoop (UnregisterTaskQueueImpl 0 demo_deferred) = None"
proof
  note D = demo_deferred_reads
  have d: "deferred_of (0, kImmediate) (non_nestable_task_queue demo_deferred) = [demo_bound_task]"
    by (simp add: D(4) deferred_of_def)
  obtain t where "OnExitNestedRunLoop demo_deferred = Some t"
    using nested_loop_restores_order [OF D(1,2)] D(3,4) by (cases "OnExitNestedRunLoop demo_deferred") auto
  then show "\<exists>t. OnExitNestedRunLoop demo_deferred = Some t \<and> hd (queue_tasks (0, kImmediate) t) = demo_bound_task"
    using nested_loop_restores_order [OF D(1,2)] d by simp
  let ?u = "UnregisterTaskQueueImpl 0 demo_deferred"
  have g: "queues_to_gracefully_shutdown demo_deferred = []" by (rule demo_deferred_reads(5))
  have r: "reachable ?u" by (rule reachable.step [OF D(1) sm_step.unregister]) (simp_all add: D(3) g)
  have "tq_unregistered (tq ?u 0)"
    using UnregisterTaskQueueImpl_view(1) [of 0 demo_deferred] view_reads(7) [of ?u 0] by (simp add: removed_queue_view_def)
  moreover have "non_nestable_task_queue ?u = non_nestable_task_queue demo_deferred" by (rule UnregisterTaskQueueImpl_view)
  moreover have "nesting_depth ?u = 1" using unregister_lists(3) [of 0 demo_deferred] D(2) by simp
  ultimately show "OnExitNestedRunLoop ?u = None"
    using nested_loop_restores_order [OF r] D(4) by (auto split: option.splits)
qed

text \<open>
  C5. In every reachable state the selector finds a work queue exactly when some registered, enabled
  queue has a front task that no fence blocks.
\<close>

theorem selection_is_complete:
  assumes "reachable s"
  shows "fst (SelectWorkQueueToService s) = None \<longleftrightarrow>
    (\<forall>q w. tq_unregistered (tq s q) \<or> \<not> is_enabled (tq s q) \<or> dq_list (tasks (wq s (q, w))) = [] \<or> wq_BlockedByFence (wq s (q, w)))"
proof -
  have i: "sm_inv s" using reachable_world [OF assms] by (simp add: world_inv_def)
  note I = sm_invD [OF i]
  have "expected s (q, w) = None \<longleftrightarrow>
      tq_unregistered (tq s q) \<or> \<not> is_enabled (tq s q) \<or> dq_list (tasks (wq s (q, w))) = [] \<or> wq_BlockedByFence (wq s (q, w))" for q w
    using expected_None_iff [OF I(1), of "(q, w)"] I(3) [of q] queues_okD2(1) [OF I(1), of "(q, w)"]
    by (auto simp: placed_def view_def fun_eq_iff deque_specs split: if_splits)
  then show ?thesis unfolding Select_none [OF I(2)] by (metis surj_pair)
qed

theorem selection_is_complete_witness:
  "fst (SelectWorkQueueToService demo_ready) \<noteq> None"
  using selection_is_complete [OF demo_ready_reachable] demo_ready_raw
  by (auto simp: wq_BlockedByFence_def EnqueueOrder_none_def intro!: exI [of _ 0] exI [of _ kImmediate])

text \<open>
  C6. The work queue that the selector returns in a reachable state has, among the visible queues of
  its priority and its kind, the oldest front task; unless delayed tasks have been preferred three
  times in a row it is the oldest of both kinds; and after that a delayed queue is returned only
  when no immediate queue of the priority is visible.
\<close>

theorem selection_is_oldest:
  assumes "reachable s" "SelectWorkQueueToService s = (Some x, u)"
  shows "\<exists>p k. expected s x = Some (p, k) \<and>
    (\<forall>y k'. expected s y = Some (p, k') \<and> (snd y = snd x \<or> immediate_starvation_count s < kMaxDelayedStarvationTasks) \<longrightarrow> k \<le> k') \<and>
    (kMaxDelayedStarvationTasks \<le> immediate_starvation_count s \<and> snd x = kDelayed \<longrightarrow>
       (\<nexists>y k'. snd y = kImmediate \<and> expected s y = Some (p, k')))"
proof -
  have "in_sync s" using reachable_world [OF assms(1)] sm_invD(2) by (auto simp: world_inv_def)
  from Select_choice [OF this assms(2)] show ?thesis by metis
qed

theorem selection_is_oldest_witness:
  "\<exists>x u p k. SelectWorkQueueToService demo_ready = (Some x, u) \<and> expected demo_ready x = Some (p, k)"
  using selects_visible [OF demo_ready_reachable demo_ready_expected(1)] selection_is_oldest [OF demo_ready_reachable] by metis

text \<open>
  C7. Between control and best effort no priority starves: while a priority with a visible task
  waits, and whatever other priorities become active or inactive meanwhile, the selector passes it
  over, control tasks aside, at most as often as its starvation tolerance allows plus five times.
\<close>

theorem no_priority_starves:
  assumes "reachable s" "expected s y = Some (p, k)" "p \<noteq> kControlPriority" "p \<noteq> kBestEffortPriority"
    "overtaken p n s t" "selection_count t + 16 < int64_max"
  shows "int n \<le> per_priority_starvation_tolerance p + 5"
proof -
  have s: "in_sync s" using reachable_world [OF assms(1)] sm_invD(2) by (auto simp: world_inv_def)
  have p: "p < kQueuePriorityCount" using sets_rep_index [OF s [unfolded in_sync_def] assms(2)] .
  then have "p \<in> snd ` set (spq_list (active_priorities s))" using counts_rep_active(4) [OF s] assms(2) by blast
  then obtain K where K: "(K, p) \<in> set (spq_list (active_priorities s))" by auto
  note ow = overtaken_wait [OF assms(5) in_sync_active_ok [OF s] K p assms(3,4,6)]
  let ?T = "per_priority_starvation_tolerance p"
  have ks: "key_ok (selection_count s) (K, p)" using counts_rep_active(3) [OF s K] .
  have T: "0 \<le> ?T" using tolerance_bounds [OF p assms(3,4)] by simp
  have "K \<le> selection_count s + ?T" using ks assms(3,4) by (auto simp: key_ok_def)
  moreover have "ahead p (spq_list (active_priorities s)) \<le> 5"
    using spq_inv_list [OF counts_rep_active(1) [OF s]] p assms(3) by (intro ahead_le_5) auto
  ultimately have "wait_bound K p (selection_count s) (spq_list (active_priorities s)) \<le> ?T + 5"
    using T by (intro wait_bound_le)
  then show ?thesis using ow wait_bound_nonneg [of K p "selection_count t" "spq_list (active_priorities t)"] by linarith
qed

theorem no_priority_starves_witness:
  "\<exists>u. overtaken kNormalPriority 0 demo_ready u \<and> int 0 \<le> per_priority_starvation_tolerance kNormalPriority + 5"
proof -
  have o: "overtaken kNormalPriority 0 demo_ready demo_ready" by (rule overtaken.start)
  have "int 0 \<le> per_priority_starvation_tolerance kNormalPriority + 5"
    by (rule no_priority_starves [OF demo_ready_reachable demo_ready_expected(1) _ _ o]) (simp_all add: priority_defs demo_ready_selection)
  then show ?thesis using o by blast
qed

text \<open>
  C8. The two bodies of TakeTaskFromWorkQueue agree: on the work queue that the selector returned,
  the debug build's general key change and the release build's shortcut through the top of the heap
  yield the same task, the same tasks in every queue and the same visible front tasks, and both
  leave the heaps in step with the queues.
\<close>

theorem debug_and_release_agree:
  assumes "reachable s" "SelectWorkQueueToService s = (Some x, s')"
    "TakeTaskFromWorkQueue True x s' = (t, u)" "TakeTaskFromWorkQueue False x s' = (t', u')"
  shows "t = t' \<and> queue_tasks y u = queue_tasks y u' \<and> expected u = expected u' \<and> in_sync u \<and> in_sync u'"
proof -
  have i: "sm_inv s" using reachable_world [OF assms(1)] by (simp add: world_inv_def)
  have i': "sm_inv s'" using frames_inv(3) [OF i] assms(2) by simp
  note I = sm_invD [OF i']
  obtain p k where e: "expected s' x = Some (p, k)" and m: "GetOldestQueueInSet (snd x) p s' = Some x"
    using Select_choice [OF sm_invD(2) [OF i] assms(2)] by metis
  obtain q w where x: "x = (q, w)" by (cases x)
  note vis = visible_task [OF i' e [unfolded x]]
  note v = TakeTask_view [OF I(1,4) vis(4) assms(3) [unfolded x]]
  note v' = TakeTask_view [OF I(1,4) vis(4) assms(4) [unfolded x]]
  have d: "delayed_fence (tq s' (fst x)) = None" by (rule I(4))
  note sp = TakeTaskFromWorkQueue_spec [OF I(1,2) e d _ assms(3)] and sp' = TakeTaskFromWorkQueue_spec [OF I(1,2) e d _ assms(4)]
  have vu: "view u = view u'" using v(1) v'(1) by simp
  have "expected u z = expected u' z" for z
  proof -
    have "queues_ok u" "queues_ok u'" using sp(2) sp'(2) m by blast+
    then show ?thesis using vu by (cases z) (simp only: expected_view)
  qed
  moreover have "queue_tasks y u = queue_tasks y u'" using vu by (cases y) (simp add: queue_tasks_waiting)
  ultimately show ?thesis using v(5) v'(5) sp(1) sp'(1) m by auto
qed

theorem debug_and_release_agree_witness:
  "let (x, s) = SelectWorkQueueToService demo_ready
   in x \<noteq> None \<and> fst (TakeTaskFromWorkQueue True (the x) s) = fst (TakeTaskFromWorkQueue False (the x) s)"
proof -
  obtain x s where r: "SelectWorkQueueToService demo_ready = (Some x, s)"
    using selects_visible [OF demo_ready_reachable demo_ready_expected(1)] by blast
  obtain t u t' u' where "TakeTaskFromWorkQueue True x s = (t, u)" "TakeTaskFromWorkQueue False x s = (t', u')" by (metis surj_pair)
  then show ?thesis using debug_and_release_agree [OF demo_ready_reachable r] r by simp
qed

text \<open>
  C9. A fence inserted now keeps every task already in the queue, those in the incoming queue
  included: each has an enqueue order below the fence, so that the queue shows the same front task
  as without a fence, and every later task, whose order is at least the generator's next one, is
  behind the fence. A fence at the beginning of time is below the order of every task of the queue
  and hides them all. Fences move no task, and in each case the selector is in step.
\<close>

theorem fences_block_what_follows:
  assumes "reachable s" "counter_room 1 s"
  shows "(\<forall>p. queue_tasks (q, w) (tq_InsertFence q p s) = queue_tasks (q, w) s) \<and>
    (\<forall>t\<in>set (queue_tasks (q, w) s). blocking_fence < task_enqueue_order t \<and>
       task_enqueue_order t < wq_fence (wq (tq_InsertFence q kNow s) (q, w))) \<and>
    wq_fence (wq (tq_InsertFence q kNow s) (q, w)) < enqueue_order_generator (tq_InsertFence q kNow s) \<and>
    wq_fence (wq (tq_InsertFence q kBeginningOfTime s) (q, w)) = blocking_fence \<and>
    expected (tq_InsertFence q kNow s) (q, w) = expected (tq_RemoveFence q s) (q, w) \<and>
    expected (tq_InsertFence q kBeginningOfTime s) (q, w) = None \<and>
    in_sync (tq_InsertFence q p s) \<and> in_sync (tq_RemoveFence q s)"
proof -
  have i: "sm_inv s" using reachable_world [OF assms(1)] by (simp add: world_inv_def)
  note I = sm_invD [OF i]
  let ?g = "enqueue_order_generator s"
  have g: "?g \<noteq> 0" "?g < ?g + 1"
    using I(5) counter_less(2) [of ?g 1] assms(2) by (auto simp: lines_ok_def EnqueueOrder_kFirst_def counter_room_def)
  have f: "wq_fence (wq (tq_InsertFence q p s) (q, w)) = (if p = kNow then ?g else blocking_fence)" for p
    by (simp add: tq_InsertFence_fences)
  have o: "EnqueueOrder_kFirst \<le> task_enqueue_order t \<and> task_enqueue_order t < ?g" if "t \<in> set (queue_tasks (q, w) s)" for t
    using lines_okD [OF I(5), of q w] that by (auto simp: orders_in_def queue_tasks_waiting)
  have two: "blocking_fence < EnqueueOrder_kFirst" by (simp add: blocking_fence_def EnqueueOrder_kFirst_def)
  have b: "blocking_fence < task_enqueue_order t" if "t \<in> set (queue_tasks (q, w) s)" for t
    using o [OF that] two by (meson less_le_trans)
  have front: "set (dq_list (tasks (wq s (q, w)))) \<subseteq> set (queue_tasks (q, w) s)" by (auto simp: queue_tasks_def)
  have "expected (tq_InsertFence q kNow s) (q, w) = expected (tq_RemoveFence q s) (q, w)"
    unfolding InsertFence_now_expected [OF I(1,2) g(1)] RemoveFence_expected [OF I(1)]
    using o front by (auto split: list.splits)
  moreover have "expected (tq_InsertFence q kBeginningOfTime s) (q, w) = None"
    unfolding expected_list [OF sm_invD(1) [OF fences_inv(1) [OF i assms(2)]]] tq_InsertFence_fences
    using b front order.strict_implies_order by (force simp: blocking_fence_def split: list.splits)
  moreover have "queue_tasks (q, w) (tq_InsertFence q p s) = queue_tasks (q, w) s" for p
    unfolding queue_tasks_waiting tq_InsertFence_view(1) [OF I(1) refl] by (simp add: waiting_def)
  moreover have "?g < enqueue_order_generator (tq_InsertFence q kNow s)"
    using g(2) tq_InsertFence_view(3) [OF I(1) refl, of q kNow] by simp
  ultimately show ?thesis
    using o b sm_invD(2) [OF fences_inv(1) [OF i assms(2)]] sm_invD(2) [OF fences_inv(2) [OF i]] by (simp add: f)
qed

theorem fences_block_what_follows_witness:
  "expected (tq_InsertFence 0 kNow demo_ready) (0, kImmediate) = Some (kNormalPriority, 2) \<and>
   expected (tq_InsertFence 0 kBeginningOfTime demo_ready) (0, kImmediate) = None \<and>
   queue_tasks (0, kImmediate) demo_posted = [demo_the_task] \<and>
   task_enqueue_order demo_the_task < wq_fence (wq (tq_InsertFence 0 kNow demo_posted) (0, kImmediate))"
proof -
  have i: "sm_inv demo_ready" using reachable_world [OF demo_ready_reachable] by (simp add: world_inv_def)
  have "counter_room 1 demo_ready" by (simp add: counter_room_def demo_ready_view)
  note f = fences_block_what_follows [OF demo_ready_reachable this, of 0 kImmediate]
  have "counter_room 1 demo_posted" by (simp add: counter_room_def demo_posted_view)
  note g = fences_block_what_follows [OF demo_posted_reachable this, of 0 kImmediate]
  have "expected (tq_RemoveFence 0 demo_ready) (0, kImmediate) = Some (kNormalPriority, 2)"
    unfolding RemoveFence_expected [OF sm_invD(1) [OF i]] demo_ready_raw by (simp add: demo_the_task_def Task_make_def)
  moreover have "queue_tasks (0, kImmediate) demo_posted = [demo_the_task]"
    by (simp add: queue_tasks_waiting demo_posted_view waiting_def new_queue_view_def)
  ultimately show ?thesis using f g by simp
qed

text \<open>
  C10. Disabling a registered queue hides all its tasks from the selector and keeps them; enabling
  it shows exactly the front tasks that no fence blocks, under the priority the queue had. No other
  queue is affected.
\<close>

theorem enabling_shows_and_hides:
  assumes "reachable s" "\<not> tq_unregistered (tq s q)"
  shows "expected (SetQueueEnabled q b s) (q', w) =
      (if q' \<noteq> q then expected s (q', w)
       else case dq_list (tasks (wq s (q, w))) of [] \<Rightarrow> None
         | t # _ \<Rightarrow> if b \<and> (wq_fence (wq s (q, w)) = 0 \<or> task_enqueue_order t < wq_fence (wq s (q, w)))
                   then Some (GetQueuePriority q s, task_enqueue_order t) else None) \<and>
    queue_tasks (q', w) (SetQueueEnabled q b s) = queue_tasks (q', w) s \<and> in_sync (SetQueueEnabled q b s)"
proof -
  have i: "sm_inv s" using reachable_world [OF assms(1)] by (simp add: world_inv_def)
  note I = sm_invD [OF i]
  have j: "sm_inv (SetQueueEnabled q b s)" by (rule SetQueueEnabled_inv [OF i assms(2)])
  have em: "qv_work_queue_empty (view s q) = (qv_tasks (view s q) kImmediate = [])"
    using flags_okD(3) [OF I(6), of q] assms(2) by (simp add: view_reads)
  have e: "enabled_ok q s" by (rule placed_enabled_ok [OF I(3) assms(2)])
  note v = SetQueueEnabled_view(1) [OF I(1) e em, of b]
  have x: "work_queue_set_index (wq s (q, w)) = GetQueuePriority q s"
    using e by (cases w) (simp_all add: enabled_ok_def GetQueuePriority_def)
  have "expected (SetQueueEnabled q b s) (q', w) =
      (if q' \<noteq> q then expected s (q', w)
       else case dq_list (tasks (wq s (q, w))) of [] \<Rightarrow> None
         | t # _ \<Rightarrow> if b \<and> (wq_fence (wq s (q, w)) = 0 \<or> task_enqueue_order t < wq_fence (wq s (q, w)))
                   then Some (GetQueuePriority q s, task_enqueue_order t) else None)"
    unfolding expected_view [OF sm_invD(1) [OF j]] expected_view [OF I(1)] v
    using x by (auto simp: view_reads split: list.split)
  moreover have "queue_tasks (q', w) (SetQueueEnabled q b s) = queue_tasks (q', w) s"
    unfolding queue_tasks_waiting v by (simp add: waiting_def)
  ultimately show ?thesis using sm_invD(2) [OF j] by blast
qed

theorem enabling_shows_and_hides_witness:
  "expected (SetQueueEnabled 0 False demo_ready) (0, kImmediate) = None \<and>
   expected (SetQueueEnabled 0 True demo_ready) (0, kImmediate) = Some (kNormalPriority, 2)"
  using enabling_shows_and_hides [OF demo_ready_reachable demo_ready_raw(7), of False 0 kImmediate]
    enabling_shows_and_hides [OF demo_ready_reachable demo_ready_raw(7), of True 0 kImmediate]
  by (simp add: demo_ready_raw GetQueuePriority_def demo_the_task_def Task_make_def)

text \<open>
  C11. An immediate task posted to a queue, from any thread, stands behind all tasks of the queue
  with the closure, the nestability and the type it was posted with and a larger enqueue order than
  any of them; no other work queue changes.
\<close>

theorem posted_tasks_line_up:
  assumes "reachable s" "tq_PostTask q posted thread s = Some u" "pt_delay posted = 0"
  shows "\<exists>t. queue_tasks (q, kImmediate) u = queue_tasks (q, kImmediate) s @ [t] \<and>
    task t = User (pt_callback posted) \<and> task_nestable t = pt_nestable posted \<and> task_type t = pt_task_type posted \<and>
    task_enqueue_order ` set (queue_tasks (q, kImmediate) s) \<subseteq> {..<task_enqueue_order t} \<and>
    (\<forall>y. y \<noteq> (q, kImmediate) \<longrightarrow> queue_tasks y u = queue_tasks y s)"
  by (rule immediate_post_lines_up [OF _ assms(2,3)]) (use reachable_world [OF assms(1)] in \<open>simp add: world_inv_def\<close>)

theorem posted_tasks_line_up_witness:
  "\<exists>t. queue_tasks (0, kImmediate) demo_posted = queue_tasks (0, kImmediate) demo_queue @ [t] \<and> task t = User (Callback 7)"
  using posted_tasks_line_up [OF demo_queue_reachable demo_post_some] by (auto simp: demo_post_def PostedTask_make_def)

text \<open>
  C12. Unregistering a queue discards its tasks, takes it out of the selector and of the active
  queues, and changes neither the tasks of any other queue nor what the selector sees of them.
\<close>

theorem unregistered_queue_is_gone:
  assumes "reachable s" "\<not> tq_unregistered (tq s q)"
  shows "queue_tasks (q', w) (UnregisterTaskQueueImpl q s) = (if q' = q then [] else queue_tasks (q', w) s) \<and>
    expected (UnregisterTaskQueueImpl q s) (q', w) = (if q' = q then None else expected s (q', w)) \<and>
    set (active_queues (UnregisterTaskQueueImpl q s)) = set (active_queues s) - {q} \<and> in_sync (UnregisterTaskQueueImpl q s)"
proof -
  have i: "sm_inv s" using reachable_world [OF assms(1)] by (simp add: world_inv_def)
  note I = sm_invD [OF i]
  have j: "sm_inv (UnregisterTaskQueueImpl q s)" by (rule Unregister_inv [OF i assms(2)])
  note v = UnregisterTaskQueueImpl_view(1) [of q s]
  have "queue_tasks (q', w) (UnregisterTaskQueueImpl q s) = (if q' = q then [] else queue_tasks (q', w) s)"
    unfolding queue_tasks_waiting v by (simp add: waiting_def removed_queue_view_def)
  moreover have "expected (UnregisterTaskQueueImpl q s) (q', w) = (if q' = q then None else expected s (q', w))"
    unfolding expected_view [OF sm_invD(1) [OF j]] expected_view [OF I(1)] v by (auto simp: removed_queue_view_def split: list.split)
  ultimately show ?thesis using sm_invD(2) [OF j] unregister_lists(1) [of q s] by simp
qed

theorem unregistered_queue_is_gone_witness:
  "queue_tasks (0, kImmediate) (UnregisterTaskQueueImpl 0 demo_ready) = [] \<and>
   expected (UnregisterTaskQueueImpl 0 demo_ready) (0, kImmediate) = None"
  using unregistered_queue_is_gone [OF demo_ready_reachable demo_ready_raw(7), of 0 kImmediate] by simp

text \<open>
  C13. Moving the due tasks of a queue appends to its delayed work queue exactly the live tasks
  among those that are due or cancelled at the head of the delayed queue, in that order and under
  fresh consecutive enqueue orders, leaves every other work queue alone, and keeps the selector in
  step.
\<close>

theorem due_tasks_move_in_order:
  assumes "reachable s"
  shows "dq_list (tasks (wq (MoveReadyDelayedTasksToWorkQueue q now s) (q, kDelayed))) =
      dq_list (tasks (wq s (q, kDelayed))) @
      stamp (enqueue_order_generator s) (due_tasks s now (di_queue (delayed_incoming_queue (tq s q)))) \<and>
    (\<forall>x. x \<noteq> (q, kDelayed) \<longrightarrow> wq (MoveReadyDelayedTasksToWorkQueue q now s) x = wq s x) \<and>
    in_sync (MoveReadyDelayedTasksToWorkQueue q now s)"
proof -
  have i: "sm_inv s" using reachable_world [OF assms] by (simp add: world_inv_def)
  note I = sm_invD [OF i]
  show ?thesis using MoveReady_spec [OF I(1,2) I(4) refl] by blast
qed

theorem due_tasks_move_in_order_witness:
  "dq_list (tasks (wq (MoveReadyDelayedTasksToWorkQueue 0 20 demo_delayed) (0, kDelayed))) = [set_enqueue_order 3 demo_late_task]"
  using due_tasks_move_in_order [OF demo_delayed_reachable, of 0 20] demo_delayed_reads
  by (simp add: due_tasks_def due_def)

text \<open>
  C14. Once a queue has been unregistered, every post to it is refused in every later state, from
  any thread: PostTask returns false, and no queue of the scheduler gains a task, delayed or not.
  The state that a refused post leaves is again such a state, so that the next post is refused as
  well.
\<close>

theorem shut_down_queue_takes_no_task:
  assumes "reachable s" "tq_unregistered (tq s q)" "task_poster (tq s q) \<noteq> OperationsController_new"
  shows "\<exists>u. GuardedTaskPoster_PostTask q posted thread s = Some (False, u) \<and>
     (\<forall>y. queue_tasks y u = queue_tasks y s) \<and> (\<forall>k. delayed_incoming_queue (tq u k) = delayed_incoming_queue (tq s k)) \<and>
     reachable u \<and> tq_unregistered (tq u q) \<and> task_poster (tq u q) \<noteq> OperationsController_new"
proof -
  let ?c = "task_poster (tq s q)"
  obtain token c where t: "TryBeginOperation ?c = (token, c)" by force
  have "closed_posters s" using reachable_world [OF assms(1)] by (simp add: world_inv_def)
  then have sd: "ExtractState (state_and_count ?c) = kShuttingDown" using assms(2,3) by (auto simp: closed_posters_def)
  note r = TryBegin_refused [OF sd t]
  let ?u = "upd_tq q (\<lambda>t. t\<lparr>task_poster := c\<rparr>) s"
  have p: "GuardedTaskPoster_PostTask q posted thread s = Some (False, ?u)"
    using t r(1) by (simp add: GuardedTaskPoster_PostTask_def Let_def)
  have "reachable ?u" by (rule reachable.step [OF assms(1) sm_step.guarded_post [OF assms(3) p]]) simp
  moreover have "c \<noteq> OperationsController_new"
    using r(2) sd by (auto simp: OperationsController_new_def ExtractState_def)
  ultimately show ?thesis using p assms(2) by (intro exI [of _ ?u]) (simp add: queue_tasks_def)
qed

theorem shut_down_queue_takes_no_task_witness:
  "\<exists>u v. GuardedTaskPoster_PostTask 0 demo_post kMainThread (UnregisterTaskQueueImpl 0 demo_queue) = Some (False, u) \<and>
     GuardedTaskPoster_PostTask 0 demo_later kNotMainThread u = Some (False, v)"
proof -
  let ?s = "UnregisterTaskQueueImpl 0 demo_queue"
  have q: "\<not> tq_unregistered (tq demo_queue 0)" "queues_to_gracefully_shutdown demo_queue = []"
    using demo_queue_view(1) view_reads(7) [of demo_queue 0] create_lists [of 0 demo_spec demo_new] demo_new_reads
    by (simp_all add: new_queue_view_def demo_queue_def [symmetric])
  have r: "reachable ?s" by (rule reachable.step [OF demo_queue_reachable sm_step.unregister]) (simp_all add: q)
  have u: "tq_unregistered (tq ?s 0)"
    using UnregisterTaskQueueImpl_view(1) [of 0 demo_queue] view_reads(7) [of ?s 0] by (simp add: removed_queue_view_def)
  have c: "task_poster (tq ?s 0) \<noteq> OperationsController_new"
    using unregistered_poster [of 0 demo_queue] by (auto simp: OperationsController_new_def ExtractState_def)
  obtain u where u1: "GuardedTaskPoster_PostTask 0 demo_post kMainThread ?s = Some (False, u)"
    "reachable u" "tq_unregistered (tq u 0)" "task_poster (tq u 0) \<noteq> OperationsController_new"
    using shut_down_queue_takes_no_task [OF r u c] by metis
  then show ?thesis using shut_down_queue_takes_no_task [OF u1(2-4)] by metis
qed

text \<open>
  C15. The loop of a time domain over its due wake-ups ends after at most one round per due queue;
  afterwards no wake-up of the domain is due, the heap of wake-ups still agrees with the queues, and
  every queue that had its earliest task scheduled still has.
\<close>

theorem due_queues_are_drained:
  assumes "wakes_ok base W s" "card (due_queues W d now) \<le> fuel"
  shows "\<exists>u W'. td_MoveReady fuel d now s = Some u \<and> wakes_ok base W' u \<and> due_queues W' d now = {} \<and>
    (\<forall>q. settled q s \<longrightarrow> settled q u)"
  by (rule td_MoveReady_done [OF assms])

theorem due_queues_are_drained_witness:
  "\<exists>u. td_MoveReady 1 0 20 demo_delayed = Some u"
proof -
  obtain r where w: "wakes_ok 0 [0 \<mapsto> (0, wake_up_at 10 2, r)] demo_delayed" by (rule demo_delayed_wakes)
  have "due_queues [0 \<mapsto> (0, wake_up_at 10 2, r)] 0 20 \<subseteq> {0}" by (auto simp: due_queues_def split: if_splits)
  then have "card (due_queues [0 \<mapsto> (0, wake_up_at 10 2, r)] 0 20) \<le> 1" using card_mono [of "{0 :: nat}"] by simp
  from due_queues_are_drained [OF w this] show ?thesis by blast
qed

text \<open>
  C16. Asking the manager for tasks after a queue has been unregistered and before the clean-up
  never answers no: HasTasks reaches the unregistered queue, whose work queues are gone, unless an
  earlier queue has tasks.
\<close>

theorem has_tasks_after_unregister:
  "fst (sm_HasTasks (UnregisterTaskQueueImpl q s)) \<noteq> Some False"
proof -
  let ?s = "UnregisterTaskQueueImpl q s"
  let ?t = "RemoveAllCanceledTasksFromFrontOfWorkQueues ?s"
  have r: "same_run ?s ?t" by (rule same_run_remove_all)
  have "tq_unregistered (tq ?s q)"
    using UnregisterTaskQueueImpl_view(1) [of q s] view_reads(7) [of ?s q] by (simp add: removed_queue_view_def)
  then have u: "tq_unregistered (tq ?t q)" using r by (simp add: same_run_def)
  have "q \<in> set (queues_to_delete ?t)" using r by (simp add: same_run_def UnregisterTaskQueueImpl_def Let_def)
  moreover have "any_HasTasks qs t \<noteq> Some False" if "q \<in> set qs" "tq_unregistered (tq t q)" for qs t
    using that by (induction qs) (auto simp: asked_HasTasks_def split: option.splits bool.splits)
  ultimately show ?thesis using u by (simp add: sm_HasTasks_def Let_def)
qed

text \<open>
  C17. The hexadecimal text of an address reads back as the address, has no leading zero and at most
  sixteen digits, so that the crash key of two addresses fits into its buffer of 64 bytes.
\<close>

theorem crash_key_round_trip:
  "\<exists>ds. PrependHexAddress address out = ''0x'' @ ds @ out \<and> hex_value ds = unat address \<and> length ds \<le> 16 \<and>
     (hd ds = CHR ''0'') = (address = 0) \<and> length (RecordCrashKeys address program_counter) < 64"
proof -
  obtain ds where d: "hex_digits address out = ds @ out" "hex_value ds = unat address" "(hd ds = CHR ''0'') = (address = 0)"
    using hex_digits_spec by blast
  have "length ds \<le> 16" using hex_digits_length [of address out] d(1) by simp
  moreover have "length (RecordCrashKeys address program_counter) < 64" by (rule RecordCrashKeys_length)
  ultimately show ?thesis using d by (intro exI [of _ ds]) (simp add: PrependHexAddress_def)
qed

text \<open>
  C18. After any sequence of insertions, key changes, erasures through handles and pops, an
  intrusive heap of work queues is a map from work queues to enqueue orders: the next operation acts
  on that map, the handle of a queue is valid exactly when the queue is in it, and the top of the
  heap is a queue of a least enqueue order.
\<close>

theorem heap_refines_map:
  "let s = fold heap_exec cs (IntrusiveHeap_init oldest_dflt, \<lambda>_. 0)
   in owner_map (heap_exec c s) = owners_exec c (front_owner s) (owner_map s) \<and>
      (case front_owner s of None \<Rightarrow> owner_map s = Map.empty
       | Some q \<Rightarrow> \<exists>k. owner_map s q = Some k \<and> ran (owner_map s) \<subseteq> {k..})"
proof -
  define s where "s = fold heap_exec cs (IntrusiveHeap_init oldest_dflt, \<lambda>_. 0)"
  obtain m where m: "owned m s" using owned_fold [OF owned_init, of cs] unfolding s_def by blast
  note om = owned_owner_map [OF m]
  have "owner_map (heap_exec c s) = owners_exec c (front_owner s) (owner_map s)"
    using owned_owner_map [OF owned_exec [OF m, of c]] om by simp
  moreover have "case front_owner s of None \<Rightarrow> owner_map s = Map.empty
     | Some q \<Rightarrow> \<exists>k. owner_map s q = Some k \<and> ran (owner_map s) \<subseteq> {k..}"
  proof (cases "heap_empty (fst s)")
    case True
    have "m q = None" for q using True owned_min [OF m, of q] by (cases "m q") auto
    then have "m = Map.empty" by (rule ext)
    then show ?thesis using True om by (simp add: front_owner_def)
  next
    case False
    then have "heap_Min (fst s) \<in> heap_elems (fst s)" by (auto simp: heap_elems_def heap_Min_def heap_empty_def slots_def)
    then have "m (snd (heap_Min (fst s))) = Some (fst (heap_Min (fst s)))"
      using ownedD(4) [OF m, of "fst (heap_Min (fst s))" "snd (heap_Min (fst s))"] by simp
    then show ?thesis using False owned_min [OF m] om by (auto simp: front_owner_def ran_def)
  qed
  ultimately show ?thesis unfolding s_def Let_def by blast
qed

text \<open>
  C19. Whatever sequence of pushes at both ends, pops, clears and shrinks is run on a new lazily
  deallocated deque, its content, size, front and back are those of the list that the same
  operations build, and its iterator visits exactly the elements of that list in order.
\<close>

theorem deque_refines_list:
  "let d = fold deque_exec cs deque_new; xs = fold list_exec cs []
   in dq_iterate d = map Some xs \<and> dq_size d = length xs \<and> dq_empty d = (xs = []) \<and>
      (xs = [] \<or> dq_front d = Some (hd xs) \<and> dq_back d = Some (last xs))"
proof -
  define d where "d = fold deque_exec cs deque_new"
  have d: "dq_inv d" "dq_list d = fold list_exec cs []" using deque_exec_fold [of deque_new cs] by (simp_all add: d_def)
  then have "dq_size d = length (fold list_exec cs [])" by (simp add: dq_inv_def)
  then show ?thesis unfolding d_def [symmetric] Let_def using d by (auto simp: deque_specs)
qed

text \<open>
  C20. In every state of the deduplicator that threads and pump can reach, a request for work that
  the scheduler has not seen yet is never lost between two runs of DoWork on a bound thread: the
  pump still owes a call.
\<close>

theorem no_work_request_lost:
  assumes "wd_reachable w" "bound w" "phase w = Between" "unseen w"
  shows "0 < owed w"
proof -
  have "wd_inv w" using wd_reachable_inv [OF assms(1)] .
  then show ?thesis using assms(2-4) by (auto simp: wd_inv_def Let_def bound_def wd_flags)
qed

theorem no_work_request_lost_witness:
  "0 < owed \<lparr>dedup = \<lparr>wd_state = 6, last_work_check_result = kNotNeeded\<rparr>, phase = Between, owed = 1, unseen = True\<rparr>"
proof (rule no_work_request_lost)
  let ?b = "\<lparr>dedup = \<lparr>wd_state = 4, last_work_check_result = kNotNeeded\<rparr>, phase = Between, owed = 0, unseen = False\<rparr>"
  have "wd_step wd_init ?b"
    using wd_step.bind [of wd_init kNotNeeded "\<lparr>wd_state = 4, last_work_check_result = kNotNeeded\<rparr>"]
    by (simp add: wd_init_def bound_def WorkDeduplicator_new_def BindToCurrentThread_def wd_flags owe_def)
  moreover have "wd_step ?b \<lparr>dedup = \<lparr>wd_state = 6, last_work_check_result = kNotNeeded\<rparr>, phase = Between, owed = 1, unseen = True\<rparr>"
    using wd_step.request [of ?b kScheduleImmediate "\<lparr>wd_state = 6, last_work_check_result = kNotNeeded\<rparr>"]
    by (simp add: OnWorkRequested_def wd_flags owe_def)
  ultimately show "wd_reachable \<lparr>dedup = \<lparr>wd_state = 6, last_work_check_result = kNotNeeded\<rparr>, phase = Between, owed = 1, unseen = True\<rparr>"
    using wd_reachable.init wd_reachable.step by blast
qed (simp_all add: bound_def wd_flags)

text \<open>
  C21. In every state that posting threads and the owner can reach, once
  ShutdownAndWaitForZeroOperations has returned no accepted operation is running, and while it still
  waits with nothing left to finish or to undo the event it waits on has been signalled.
\<close>

theorem shutdown_waits_for_operations:
  assumes "oc_reachable w"
  shows "(shut w = Returned \<longrightarrow> running w = 0) \<and>
    (shut w = Waiting \<and> running w = 0 \<and> undo w = 0 \<and> undo_start w = 0 \<longrightarrow> shutdown_complete (ctl w))"
proof -
  have inv: "oc_inv w" by (rule oc_reachable_inv [OF assms])
  obtain n a s where w: "s \<longleftrightarrow> shut w \<noteq> Open" "a \<or> s \<longrightarrow> n = running w + undo w + undo_start w + undo_shut w"
    "shut w \<noteq> Undoing \<longrightarrow> undo_shut w = 0" "shut w = Returned \<longrightarrow> running w = 0"
    "shut w = Waiting \<and> n = 0 \<longrightarrow> shutdown_complete (ctl w)"
    using inv unfolding oc_inv_def by blast
  then show ?thesis by auto
qed

theorem shutdown_waits_for_operations_witness:
  "let w = \<lparr>ctl = \<lparr>state_and_count = 0xC0000000, shutdown_complete = True\<rparr>, running = 0, undo = 0,
         undo_start = 0, undo_shut = 0, shut = Waiting\<rparr>
   in shut w = Waiting \<and> shutdown_complete (ctl w)"
proof -
  define w where "w = (\<lambda>c n p. \<lparr>ctl = c, running = n, undo = 0, undo_start = 0, undo_shut = 0, shut = p\<rparr> :: oc_world)"
  let ?c = "\<lambda>v. \<lparr>state_and_count = v, shutdown_complete = False\<rparr>"
  let ?w = "w \<lparr>state_and_count = 0xC0000000, shutdown_complete = True\<rparr> 0 Waiting"
  note ev = w_def ExtractState_def ExtractCount_def kShuttingDownBitMask_def kAcceptingOperationsBitMask_def
    kCountBitMask_def kFlagsBitMask_def
  have "oc_reachable (w (?c 0) 0 Open)"
    using oc_reachable.init by (simp add: oc_init_def OperationsController_new_def w_def)
  moreover have "oc_step (w (?c 0) 0 Open) (w (?c 0x40000000) 0 Open)"
    using oc_step.start [of "w (?c 0) 0 Open" 0 "?c 0x40000000"] by (simp add: ev StartAccepting_or_def)
  moreover have "oc_step (w (?c 0x40000000) 0 Open) (w (?c 0x40000001) 1 Open)"
    using oc_step.attempt [of "w (?c 0x40000000) 0 Open" kAcceptingOperations "?c 0x40000001"]
    by (simp add: ev TryBegin_add_def)
  moreover have "oc_step (w (?c 0x40000001) 1 Open) (w (?c 0xC0000001) 1 Waiting)"
    using oc_step.shutdown [of "w (?c 0x40000001) 1 Open" kAcceptingOperations 1 "?c 0xC0000001"]
    by (simp add: ev Shutdown_or_def)
  moreover have "oc_step (w (?c 0xC0000001) 1 Waiting) ?w"
    using oc_step.finish [of "w (?c 0xC0000001) 1 Waiting" 0] by (simp add: ev dec_ctl_def DecrementBy_def)
  ultimately have "oc_reachable ?w" using oc_reachable.step by blast
  from shutdown_waits_for_operations [OF this] show ?thesis by (simp add: w_def)
qed

text \<open>
  C22. Suppose DoSomeWork runs on the sequence manager while task execution is allowed, no quit is
  pending after its batch, and nobody posts between the batch and the answer (meanwhile leaves the
  manager alone). When it answers that there is no immediate work, every incoming queue behind an
  empty work queue of a registered queue has been reloaded, every task that a registered and enabled
  queue holds, posted or due, stands behind a fence of its queue, so that the selector has nothing
  to run, and the run time given to the pump is no later than the earliest wake-up of the real time
  domain, unless the time limit of the run loop has passed.
\<close>

theorem thread_sleeps_only_without_work:
  assumes "do_batch (sm_source n dcheck delay_of fast_forward) env fuel 0 (a\<lparr>deduplicator := OnWorkStarted (deduplicator a)\<rparr>) = Some (ts, c)"
    "task_execution_allowed a" "\<not> quit_pending c" "reachable (source_state c)" "is_int64 (clock (source_state c) 0)" "0 < clock (source_state c) 0"
    "DoSomeWork (sm_source n dcheck delay_of fast_forward) env fuel a = Some (info, b)" "\<not> is_immediate info"
    "\<And>tc. source_state (meanwhile env tc) = source_state tc"
    "wake_heaps base W (source_state b)" "0 \<in> set (registered_domains (source_state b))"
    "\<And>d s x. delay_of d s = Some x \<Longrightarrow> 0 \<le> x"
  shows "(all_reloaded (source_state b) \<and> all_fenced (source_state b) \<and> (\<forall>x. expected (source_state b) x = None)) \<and>
    (\<forall>q w r. W q = Some (0, w, r) \<and> is_int64 (wu_time w) \<longrightarrow>
       next_delayed_run_time info \<le> wu_time w \<or> quit_runloop_after b \<le> clock (source_state c) 0)"
proof -
  let ?a = "a\<lparr>deduplicator := OnWorkStarted (deduplicator a)\<rparr>"
  obtain d r now e where w: "DoWorkImpl (sm_source n dcheck delay_of fast_forward) env fuel ?a = Some (d, r, now, e)"
    using DoSomeWork_worked [OF assms(7)] .
  obtain r' d' where c: "DidCheckForMoreWork (if d = 0 then kIsImmediate else kIsDelayed) (deduplicator (meanwhile env e)) = (r', d')"
    by force
  note f = assms(7) [unfolded DoSomeWork_def w option.case prod.case Let_def c]
  have a: "task_execution_allowed ?a" using assms(2) by simp
  note D = DoWorkImpl_checked [OF assms(1) a assms(3) w]
  have b: "source_state b = source_state e" using f assms(9) by (auto split: if_splits)
  have d: "d \<noteq> 0" "r' \<noteq> kScheduleImmediate"
    using f assms(8) c by (auto simp: is_immediate_def DidCheckForMoreWork_def Let_def split: if_splits)
  note S = sm_delay_nonzero [OF reachable_world [OF assms(4)] D(1) d(1), folded b]
  have "next_delayed_run_time info \<le> wu_time x \<or> quit_runloop_after b \<le> now" if x: "W q = Some (0, x, res)" "is_int64 (wu_time x)" for q x res
  proof -
    obtain y where y: "rtd_DelayTillNextTask now (source_state b) = Some y" "y \<le> max 0 (wu_time x - now)"
      using rtd_DelayTillNextTask_spec(1,2) [OF assms(10), of now] x(1) by (metis option.exhaust)
    then have le: "d \<le> y" unfolding S(2) by (intro shortest_delay_le [OF assms(11)]) (simp add: domain_delay_def)
    have "0 \<le> d" unfolding S(2) by (rule shortest_delay_nonneg) (rule domain_delay_nonneg [OF assms(12)])
    then have now: "now < wu_time x" "d \<le> wu_time x - now" using le y(2) d(1) by auto
    then have max: "d \<noteq> int64_max" using assms(6) x(2) D(2) by (auto simp: is_int64_def)
    have "ticks_plus now d \<le> wu_time x" using ticks_plus_le [OF _ x(2) now max] assms(5) D(2) by simp
    then show ?thesis using f d(2) max by (auto simp: CapAtOneDay_def min_def split: if_splits)
  qed
  then show ?thesis using S(1,3,4) D(2) by auto
qed

theorem thread_sleeps_only_without_work_witness:
  "\<exists>info b. DoSomeWork demo_source demo_env 1 demo_controller = Some (info, b) \<and> next_delayed_run_time info = int64_max \<and>
     all_reloaded (source_state b) \<and> all_fenced (source_state b) \<and> (\<forall>x. expected (source_state b) x = None)"
proof -
  let ?b = "demo_controller\<lparr>deduplicator := \<lparr>wd_state = kIdle, last_work_check_result = kNotNeeded\<rparr>, next_delayed_do_work := int64_max\<rparr>"
  have w: "DoSomeWork demo_source demo_env 1 demo_controller = Some (\<lparr>next_delayed_run_time = int64_max, recent_now = 0\<rparr>, ?b)"
    using demo_some_work [of demo_controller 0] demo_controller_reads by simp
  have c: "do_batch demo_source demo_env 1 0 (demo_controller\<lparr>deduplicator := OnWorkStarted (deduplicator demo_controller)\<rparr>) =
      Some ([], demo_controller\<lparr>deduplicator := OnWorkStarted (deduplicator demo_controller)\<rparr>)"
    using demo_batch [of _ demo_env 0] demo_controller_reads by simp
  have "all_reloaded (source_state ?b) \<and> all_fenced (source_state ?b) \<and> (\<forall>x. expected (source_state ?b) x = None)"
    by (rule thread_sleeps_only_without_work [OF c [unfolded demo_source_def] _ _ _ _ _ w [unfolded demo_source_def],
          where W = Map.empty and base = 0, THEN conjunct1])
      (simp_all add: demo_controller_reads demo_idle_reads is_int64_def is_immediate_def demo_env_def)
  then show ?thesis using w by auto
qed

text \<open>
  C23. Whenever the loop of the message pump waits for its event, the next call of ScheduleWork
  would signal that event: the loop behaves the same when a wait that no request could end is
  replaced by a hang.
\<close>

theorem sleeping_thread_can_be_woken:
  assumes "\<And>t a b. in_use a \<Longrightarrow> RunTask env t a = Some b \<Longrightarrow> in_use b" "\<And>a. asks a (meanwhile env a)"
  shows "pump_loop (sm_source n dcheck delay_of fast_forward)
      (env\<lparr>event_Wait := \<lambda>d tc. if event_signaled (pump (tc_ScheduleWork tc)) then event_Wait env d tc else None\<rparr>) fuel a =
    pump_loop (sm_source n dcheck delay_of fast_forward) env fuel a"
  using sm.pump_loop_guarded [OF assms] unfolding guard_Wait_def can_be_woken_def .

theorem sleeping_thread_can_be_woken_witness:
  "pump_loop demo_source (demo_env\<lparr>event_Wait := \<lambda>d tc. if event_signaled (pump (tc_ScheduleWork tc)) then event_Wait demo_env d tc else None\<rparr>)
     2 (demo_running 0) = pump_loop demo_source demo_env 2 (demo_running 0) \<and> pump_loop demo_source demo_env 2 (demo_running 0) \<noteq> None"
proof -
  have "pump_loop demo_source demo_env 2 (demo_running 0) \<noteq> None"
    using demo_loop [of "demo_running 0" 0 "[]" 0] demo_running_reads [of 0] by (simp add: numeral_2_eq_2)
  then show ?thesis unfolding demo_source_def
    by (intro conjI sleeping_thread_can_be_woken) (simp_all add: demo_env_def)
qed

text \<open>
  C24. A nested run loop leaves the stack of loops, the permission to run tasks and the time limit
  of the outer loop as it found them, and the outer loop is told to quit exactly when it was asked
  to quit before or during the nested run.
\<close>

theorem nested_run_is_balanced:
  assumes "RunWithTimeout (sm_source n dcheck delay_of fast_forward) env fuel timeout l a = Some b"
    "active_run_loops a = k # ls" "\<not> quit_called (run_loops a l)" "k \<noteq> l"
    "\<And>t a b. RunTask env t a = Some b \<Longrightarrow> same_stack a b" "\<And>a. asks a (meanwhile env a)"
    "\<And>d a b. event_Wait env d a = Some b \<Longrightarrow> same_loop a b"
  shows "active_run_loops b = active_run_loops a \<and> runloop_count b = runloop_count a \<and>
    task_execution_allowed b = task_execution_allowed a \<and> quit_runloop_after b = quit_runloop_after a \<and>
    (quit_pending b \<longleftrightarrow> quit_called (run_loops b k)) \<and>
    (keep_running (pump b) \<longleftrightarrow> keep_running (pump a) \<and> \<not> quit_called (run_loops b k))"
  using sm.nested_run [OF assms] by (simp add: same_stack_def)

theorem nested_run_is_balanced_witness:
  "\<exists>b. RunWithTimeout demo_source demo_env 2 int64_max 1 (demo_running 1) = Some b \<and> active_run_loops b = [0] \<and> \<not> quit_pending b \<and>
     keep_running (pump b)"
proof -
  let ?a = "demo_running 1"
  define c where "c = (upd_loop 1 (\<lambda>r. r\<lparr>rl_running := True\<rparr>) (?a\<lparr>active_run_loops := [1, 0]\<rparr>))
    \<lparr>quit_runloop_after := int64_max, quit_pending := False, runloop_count := runloop_count ?a + 1,
     pump := (pump ?a)\<lparr>keep_running := True\<rparr>\<rparr>"
  have "pump_loop demo_source demo_env 2 c = Some (tc_Quit (c\<lparr>deduplicator := \<lparr>wd_state = kIdle, last_work_check_result = kNotNeeded\<rparr>,
      next_delayed_do_work := int64_max, work_id := IncrementWorkId (work_id c)\<rparr>))"
    unfolding numeral_2_eq_2 by (rule demo_loop [of _ 1 "[0]"]) (simp_all add: c_def demo_running_reads upd_loop_def)
  moreover have "BeforeRun demo_source 1 ?a = (True, upd_loop 1 (\<lambda>r. r\<lparr>rl_running := True\<rparr>) (?a\<lparr>active_run_loops := [1, 0]\<rparr>))"
    by (simp add: BeforeRun_def demo_running_reads Let_def tc_OnBeginNestedRunLoop_def)
  ultimately obtain b where b: "RunWithTimeout demo_source demo_env 2 int64_max 1 ?a = Some b" "\<not> quit_called (run_loops b 0)"
    by (auto simp: RunWithTimeout_def tc_Run_def Let_def demo_running_reads pump_Run_def c_def upd_loop_def AfterRun_def
        tc_OnExitNestedRunLoop_def tc_Quit_def pump_Quit_def pump_call_def)
  have s: "same_stack x x" "same_loop x x" for x :: "sched thread_controller" by (simp_all add: same_loop_def)
  show ?thesis using nested_run_is_balanced [OF b(1) [unfolded demo_source_def], of 0 "[]"] b demo_running_reads [of 1] s
    by (simp add: demo_env_def)
qed

text \<open>
  C25. The controller on a task runner never stalls, however requests of other threads, delayed
  requests, nested loops, cancellations and runs of its posts interleave: when work is pending and
  no DoWork is entered, an immediate DoWork is posted; when nothing is pending and a delayed DoWork
  is asked for, its closure is the one that is not cancelled and is posted, never to run before the
  time that was asked for, and due already or at most as much later as the time that passed between
  the reading of the clock for its delay and the post. A whole run of DoWork with a source that only
  makes requests leads to such a state again.
\<close>

theorem funneled_controller_never_stalls:
  assumes r: "fc_reachable c"
  shows "fc_state c \<in> {kIdle, kDoWorkPending, kInDoWork, kInDoWork OR kPendingDoWorkFlag} \<and>
    (fc_state c = kDoWorkPending \<longrightarrow> ImmediateDoWork \<in> set (runner_posts c)) \<and>
    (fc_next_delayed_do_work c = int64_max \<longleftrightarrow> cancelable_closure c = None) \<and>
    (fc_state c = kIdle \<and> fc_next_delayed_do_work c \<noteq> int64_max \<longrightarrow> (\<exists>i due. cancelable_closure c = Some i \<and>
       DelayedDoWork i due \<in> set (runner_posts c) \<and> fc_next_delayed_do_work c \<le> due \<and> due \<le> max (time_source c) (fc_next_delayed_do_work c + fc_lag c))) \<and>
    (0 \<le> time_source c \<and> only_requests env \<and> (ImmediateDoWork \<in> set (runner_posts c) \<and> p = ImmediateDoWork \<or>
       (\<exists>i due. p = DelayedDoWork i due \<and> p \<in> set (runner_posts c) \<and> cancelable_closure c = Some i \<and> due \<le> time_source c)) \<and>
     fc_DoWork env fuel (c\<lparr>runner_posts := remove1 p (runner_posts c)\<rparr>) = Some c' \<longrightarrow> fc_reachable c')"
proof -
  have s: "state_ok (fc_state c) (runner_posts c)" and k: "call_ok c" using fc_reachable_inv [OF r] by (simp_all add: fc_inv_def)
  have "\<exists>i due. cancelable_closure c = Some i \<and> DelayedDoWork i due \<in> set (runner_posts c) \<and> fc_next_delayed_do_work c \<le> due \<and>
      due \<le> max (time_source c) (fc_next_delayed_do_work c + fc_lag c)" if n: "fc_state c = kIdle" "fc_next_delayed_do_work c \<noteq> int64_max"
  proof -
    obtain i where i: "cancelable_closure c = Some i" using k n(2) by (auto simp: call_ok_def)
    then obtain due where d: "DelayedDoWork i due \<in> set (runner_posts c)" using k n(1) unfolding call_ok_def by blast
    then show ?thesis using k i unfolding call_ok_def by blast
  qed
  moreover have "fc_reachable c'" if t: "0 \<le> time_source c" "only_requests env" and p: "ImmediateDoWork \<in> set (runner_posts c) \<and> p = ImmediateDoWork \<or>
       (\<exists>i due. p = DelayedDoWork i due \<and> p \<in> set (runner_posts c) \<and> cancelable_closure c = Some i \<and> due \<le> time_source c)"
    and w: "fc_DoWork env fuel (c\<lparr>runner_posts := remove1 p (runner_posts c)\<rparr>) = Some c'"
  proof -
    have "fc_step c (fc_begin (c\<lparr>runner_posts := remove1 p (runner_posts c)\<rparr>))" using p fc_step.run_immediate fc_step.run_delayed by metis
    then have "fc_reachable (fc_begin (c\<lparr>runner_posts := remove1 p (runner_posts c)\<rparr>))" by (rule fc_reachable.step [OF r])
    then show ?thesis using DoWork_reachable [OF _ _ t(2) w] t(1) by simp
  qed
  ultimately show ?thesis using s k by (simp add: state_ok_def call_ok_def)
qed

theorem funneled_controller_never_stalls_witness:
  "\<exists>i due. cancelable_closure demo_funneled = Some i \<and> DelayedDoWork i due \<in> set (runner_posts demo_funneled) \<and> 5 \<le> due \<and> due \<le> 7"
  using funneled_controller_never_stalls [OF demo_funneled_reachable, of demo_quiet] demo_funneled_reads by simp

text \<open>
  C26. However voters join, change their vote and leave, the queue of the handle is enabled exactly
  when all voters that are there vote for it; no operation of a voter fails while the handle has its
  queue.
\<close>

theorem votes_decide_together:
  assumes "reachable s" "\<not> tq_unregistered (tq s q)" "is_enabled (tq s q)"
  shows "\<exists>vs h t. run_votes ops ([], TaskQueue_new (Some q) s, s) = Some (vs, h, t) \<and> reachable t \<and>
    (handle_IsQueueEnabled h t \<longleftrightarrow> set vs \<subseteq> {True}) \<and> voter_count h = int (length vs)"
proof -
  have "election_inv q ([], TaskQueue_new (Some q) s, s)" using assms by (simp add: election_inv_def TaskQueue_new_def)
  then obtain e where "run_votes ops ([], TaskQueue_new (Some q) s, s) = Some e" "election_inv q e" using run_votes_inv by blast
  then show ?thesis by (cases e) (auto simp: election_inv_def handle_IsQueueEnabled_def IsQueueEnabled_def)
qed

theorem votes_decide_together_witness:
  "\<exists>vs h t. run_votes [NewVoter, NewVoter, Vote 0 False, DropVoter 1] ([], TaskQueue_new (Some 0) demo_queue, demo_queue) = Some (vs, h, t) \<and>
     vs = [False] \<and> \<not> handle_IsQueueEnabled h t"
proof -
  let ?ops = "[NewVoter, NewVoter, Vote 0 False, DropVoter 1]"
  let ?e = "([], TaskQueue_new (Some 0) demo_queue, demo_queue)"
  have "\<not> tq_unregistered (tq demo_queue 0)" using demo_queue_view(1) by (simp add: view_reads(7) [symmetric] new_queue_view_def)
  from votes_decide_together [OF demo_queue_reachable this demo_queue_tq(7), of ?ops]
  obtain vs h t where r: "run_votes ?ops ?e = Some (vs, h, t)" "handle_IsQueueEnabled h t \<longleftrightarrow> set vs \<subseteq> {True}" by blast
  have "map_option fst (run_votes ?ops ?e) = Some [False]"
    by (simp add: CreateQueueEnabledVoter_def AddQueueEnabledVoter_def TaskQueue_new_def SetVoteToEnable_def OnQueueEnabledVoteChanged_def
        AreAllQueueEnabledVotersEnabled_def QueueEnabledVoter_destroy_def RemoveQueueEnabledVoter_def Let_def)
  then show ?thesis using r by auto
qed

text \<open>
  C27. After ShutdownTaskQueue the handle answers defaults and refuses tasks, and a voter may be
  destroyed; but a voter that changes the unanimous vote, and InsertFenceAt, still dereference the
  queue that the handle has given away.
\<close>

theorem late_vote_reads_null:
  assumes "AreAllQueueEnabledVotersEnabled h" "handle_ShutdownTaskQueue (h, s) = (h', s')"
  shows "SetVoteToEnable False True (h', s') = None \<and> handle_InsertFenceAt time h' s' = None \<and>
    QueueEnabledVoter_destroy True (h', s') = (h', s') \<and> \<not> handle_IsQueueEnabled h' s' \<and> handle_IsEmpty h' s' \<and>
    handle_GetNumberOfPendingTasks h' s' = 0 \<and> CreateTaskRunner h' ty location callback delay thread s' = Some (False, s')"
proof -
  have "impl h' = None" "AreAllQueueEnabledVotersEnabled h'"
    using assms by (auto simp: handle_ShutdownTaskQueue_def TakeTaskQueueImpl_def AreAllQueueEnabledVotersEnabled_def split: option.splits if_splits)
  then show ?thesis
    by (simp add: SetVoteToEnable_def OnQueueEnabledVoteChanged_def AreAllQueueEnabledVotersEnabled_def handle_InsertFenceAt_def Let_def
        QueueEnabledVoter_destroy_def RemoveQueueEnabledVoter_def handle_IsQueueEnabled_def handle_IsEmpty_def
        handle_GetNumberOfPendingTasks_def CreateTaskRunner_def NullTaskRunner_PostDelayedTask_def)
qed

theorem late_vote_reads_null_witness:
  "SetVoteToEnable False True (handle_ShutdownTaskQueue
     (snd (CreateQueueEnabledVoter (TaskQueue_new (Some 0) demo_queue)), demo_queue)) = None"
proof -
  let ?h = "snd (CreateQueueEnabledVoter (TaskQueue_new (Some 0) demo_queue))"
  have "AreAllQueueEnabledVotersEnabled ?h"
    by (simp add: AreAllQueueEnabledVotersEnabled_def CreateQueueEnabledVoter_def AddQueueEnabledVoter_def TaskQueue_new_def Let_def)
  from late_vote_reads_null [OF this prod.collapse [symmetric]] show ?thesis by simp
qed

text \<open>
  C28. Building the application's queues in a working scheduler, at fresh addresses, succeeds and
  opens only the default, control and run-all queues; enabling all but best effort then opens the
  other two type queues, enabling all the last one. The priorities, control first and the
  best-effort and run-all queues last, hold from the start, the user-blocking queue stays at normal
  priority, and every state on the way is one the scheduler's theorems speak of.
\<close>

theorem app_queues_open_in_stages:
  assumes "reachable s" "inj_on new {..<6}" "\<And>i. i < 6 \<Longrightarrow> tq_unregistered (tq s (new i))"
  shows "\<exists>a1 s1 a2 s2 a3 s3. AppTaskQueues_new thread_id d new s = Some (a1, s1) \<and>
    EnableAllExceptBestEffortQueues (a1, s1) = Some (a2, s2) \<and> EnableAllQueues (a2, s2) = Some (a3, s3) \<and>
    list_all reachable [s1, s2, s3] \<and>
    map (\<lambda>i. is_enabled (tq s1 (new i))) [0, 1, 2, 3, 4, 5] = [False, False, False, True, True, True] \<and>
    map (\<lambda>i. is_enabled (tq s2 (new i))) [0, 1, 2, 3, 4, 5] = [True, False, True, True, True, True] \<and>
    map (\<lambda>i. is_enabled (tq s3 (new i))) [0, 1, 2, 3, 4, 5] = [True, True, True, True, True, True] \<and>
    list_all (\<lambda>t. map (\<lambda>i. GetQueuePriority (new i) t) [0, 1, 2, 3, 4, 5] = [kNormalPriority, kBestEffortPriority, kNormalPriority,
       kNormalPriority, kControlPriority, kBestEffortPriority]) [s1, s2, s3]"
proof -
  obtain a s1 n0 n1 n2 where c: "AppTaskQueues_new thread_id d new s = Some (a, s1)" "reachable s1"
    "app_queues_and_voters a = [app_pair (new 0) False n0, app_pair (new 1) False n1, app_pair (new 2) False n2]"
    and t1: "\<forall>i < 6. setting s1 (new i) = (False, 3 \<le> i, app_priority i)"
    by (rule app_queues_settings [OF assms(1,2), of thread_id d]) (use assms(3) in blast)
  obtain s2 where s2: "vote_all (\<lambda>i. i \<noteq> 1) 0 (app_queues_and_voters a) s1 =
      Some ([app_pair (new 0) True n0, app_pair (new 1) False n1, app_pair (new 2) True n2], s2)" "reachable s2"
    and t2: "\<forall>i < 6. setting s2 (new i) = (False, 3 \<le> i \<or> i < 3 \<and> i \<noteq> 1, app_priority i)"
    by (rule votes_settings [OF c(2) assms(2) t1, of "\<lambda>i. i \<noteq> 1" n0 n1 n2]) (simp add: c(3))
  obtain s3 where s3: "vote_all (\<lambda>i. True) 0 [app_pair (new 0) True n0, app_pair (new 1) False n1, app_pair (new 2) True n2] s2 =
      Some ([app_pair (new 0) True n0, app_pair (new 1) True n1, app_pair (new 2) True n2], s3)" "reachable s3"
    and t3: "\<forall>i < 6. setting s3 (new i) = (False, (3 \<le> i \<or> i < 3 \<and> i \<noteq> 1) \<or> i < 3 \<and> True, app_priority i)"
    by (rule votes_settings [OF s2(2) assms(2) t2, of "\<lambda>i. True" n0 n1 n2]) simp
  have "EnableAllExceptBestEffortQueues (a, s1) =
      Some (a\<lparr>app_queues_and_voters := [app_pair (new 0) True n0, app_pair (new 1) False n1, app_pair (new 2) True n2]\<rparr>, s2)"
    using s2(1) by (simp add: EnableAllExceptBestEffortQueues_def)
  moreover have "EnableAllQueues (a\<lparr>app_queues_and_voters := [app_pair (new 0) True n0, app_pair (new 1) False n1, app_pair (new 2) True n2]\<rparr>, s2) =
      Some (a\<lparr>app_queues_and_voters := [app_pair (new 0) True n0, app_pair (new 1) True n1, app_pair (new 2) True n2]\<rparr>, s3)"
    using s3(1) by (simp add: EnableAllQueues_def)
  ultimately show ?thesis
    using c(1,2) s2(2) s3(2) settings_listed [OF t1] settings_listed [OF t2] settings_listed [OF t3]
    by (intro exI conjI) (assumption | simp)+
qed

theorem app_queues_open_in_stages_witness:
  "\<exists>a s. AppTaskQueues_new ThreadID_UI 0 id demo_new = Some (a, s) \<and> \<not> is_enabled (tq s 0) \<and> is_enabled (tq s 4)"
proof -
  have "reachable demo_new" unfolding demo_new_def by (rule reachable.start)
  from app_queues_open_in_stages [OF this, of id ThreadID_UI 0] show ?thesis
    by (auto simp: demo_new_reads(1))
qed

text \<open>
  C29. A post through the executor with the traits of the UI thread and any task type, packed and
  unpacked on the way, concerns the one queue that its priority names. When the post is refused, no
  queue changes. When it is accepted without a delay, the task goes behind all tasks of that queue,
  with its closure and its nestability. When it is accepted with a delay, the task enters the
  delayed queue of that queue, due the delay after now; from a thread other than the scheduler's,
  the closure that will put it there goes behind all tasks of the queue. No other queue gains or
  loses a task.
\<close>

theorem tasks_go_to_their_queue:
  assumes "AppTaskQueues_new ThreadID_UI d new s0 = Some (a, s1)" "reachable s0" "inj_on new {..<6}"
    "\<And>i. i < 6 \<Longrightarrow> tq_unregistered (tq s0 (new i))" "reachable s"
    "browser_thread e = ThreadID_UI" "0 \<le> app_task_type e" "app_task_type e < 256"
    "PostDelayedTaskWithTraits (CreateHandle a) location \<lparr>traits_priority = p, traits_extension = Serialize e\<rparr>
       callback delay thread s = Some (ok, u)"
    "q = new (case p of USER_VISIBLE \<Rightarrow> 0 | BEST_EFFORT \<Rightarrow> 1 | USER_BLOCKING \<Rightarrow> 2)"
  shows "(\<forall>y. y \<noteq> (q, kImmediate) \<longrightarrow> queue_tasks y u = queue_tasks y s) \<and>
    (\<forall>k. k \<noteq> q \<longrightarrow> delayed_incoming_queue (tq u k) = delayed_incoming_queue (tq s k)) \<and>
    (if ok \<and> delay = 0 then
       \<exists>t. queue_tasks (q, kImmediate) u = queue_tasks (q, kImmediate) s @ [t] \<and> task t = User callback \<and>
         task_nestable t = (if nestable_trait e then kNestable else kNonNestable) \<and>
         task_enqueue_order ` set (queue_tasks (q, kImmediate) s) \<subseteq> {..<task_enqueue_order t} \<and>
         delayed_incoming_queue (tq u q) = delayed_incoming_queue (tq s q)
     else if ok \<and> thread = kMainThread then
       queue_tasks (q, kImmediate) u = queue_tasks (q, kImmediate) s \<and>
       (\<exists>t. delayed_incoming_queue (tq u q) = di_push t (delayed_incoming_queue (tq s q)) \<and> task t = User callback \<and>
         delayed_run_time t = ticks_plus (td_now q s) delay \<and> task_nestable t = (if nestable_trait e then kNestable else kNonNestable))
     else if ok then
       delayed_incoming_queue (tq u q) = delayed_incoming_queue (tq s q) \<and>
       (\<exists>t l. queue_tasks (q, kImmediate) u = queue_tasks (q, kImmediate) s @ [t] \<and> task t = ScheduleDelayedWork q l \<and> task l = callback \<and>
         delayed_run_time l = ticks_plus (td_now q s) delay \<and> task_nestable l = (if nestable_trait e then kNestable else kNonNestable))
     else queue_tasks (q, kImmediate) u = queue_tasks (q, kImmediate) s \<and>
       delayed_incoming_queue (tq u q) = delayed_incoming_queue (tq s q))"
proof -
  let ?i = "queue_type_index (GetQueueType p)" and ?n = "if nestable_trait e then kNestable else kNonNestable"
  have i: "q = new ?i" "?i < 3" unfolding assms(10) by (cases p; simp)+
  note h = app_queue_handles [OF assms(1-4)]
  have "GuardedTaskPoster_PostTask q (PostedTask_make callback location delay ?n 0) thread s = Some (ok, u)"
    using assms(6-9) executor_posts_to_queue [of e a p q location callback delay thread s] h i by simp
  moreover have "sm_inv s" using reachable_world [OF assms(5)] by (simp add: world_inv_def)
  ultimately show ?thesis
    using guarded_post_outcome [of s q "PostedTask_make callback location delay ?n 0" thread ok u]
    unfolding PostedTask_make_def posted_task.select_convs by blast
qed

theorem tasks_go_to_their_queue_witness:
  "\<exists>a s u. AppTaskQueues_new ThreadID_UI 0 id demo_new = Some (a, s) \<and>
     PostDelayedTaskWithTraits (CreateHandle a) ''here'' \<lparr>traits_priority = USER_VISIBLE,
       traits_extension = Serialize \<lparr>browser_thread = ThreadID_UI, app_task_type = AppTaskType_kDefault, nestable_trait = False\<rparr>\<rparr>
       (Callback 7) 0 kMainThread demo_queue = Some (True, u) \<and>
     (\<exists>t. queue_tasks (0, kImmediate) u = queue_tasks (0, kImmediate) demo_queue @ [t] \<and> task_nestable t = kNonNestable)"
proof -
  let ?e = "\<lparr>browser_thread = ThreadID_UI, app_task_type = AppTaskType_kDefault, nestable_trait = False\<rparr>"
  have r: "reachable demo_new" unfolding demo_new_def by (rule reachable.start)
  have f: "tq_unregistered (tq demo_new (id i))" for i by (rule demo_new_reads(1))
  have "inj_on id {..<(6 :: nat)}" by simp
  obtain a s where a: "AppTaskQueues_new ThreadID_UI 0 id demo_new = Some (a, s)"
    using AppTaskQueues_new_ok [OF r \<open>inj_on id _\<close>, of ThreadID_UI 0] f by (auto simp: setting_def)
  note h = app_queue_handles [OF a r \<open>inj_on id _\<close> f]
  obtain u where u: "PostDelayedTaskWithTraits (CreateHandle a) ''here'' \<lparr>traits_priority = USER_VISIBLE,
       traits_extension = Serialize ?e\<rparr> (Callback 7) 0 kMainThread demo_queue = Some (True, u)"
    using executor_posts_to_queue [of ?e a USER_VISIBLE 0 "''here''" "Callback 7" 0 kMainThread demo_queue] h
      demo_queue_accepts [of "''here''" kNonNestable] by (auto simp: AppTaskType_kDefault_def)
  show ?thesis using a u tasks_go_to_their_queue [OF a r \<open>inj_on id _\<close> f demo_queue_reachable _ _ _ u refl]
    by (auto simp: AppTaskType_kDefault_def)
qed

text \<open>
  C30. However posts, changes of priority, fences, shutdown and workers interleave, the tasks of a
  sequence that were accepted are those already begun followed by those still in it, in the order of
  posting; never do two workers have the same sequence, and a sequence says that it has a worker
  exactly while one runs a task of it.
\<close>

theorem pool_runs_sequences_in_order:
  assumes "pool_reachable w"
  shows "accepted w x = begun w x @ map pool_closure (seq_queue (sequences (pool w) x)) \<and>
    (\<forall>v v'. held (phases w v) = Some x \<and> held (phases w v') = Some x \<longrightarrow> v = v') \<and>
    (has_worker (sequences (pool w) x) \<longleftrightarrow> (\<exists>v t ok. phases w v = Runs x t ok))"
proof -
  obtain m where i: "pool_inv m w" using pool_reachable_inv [OF assms] by blast
  note P = place_invD [OF pool_invD(2) [OF i]]
  show ?thesis using pool_invD(4) [OF i] P(6) [of _ x] P(8) [of x] by blast
qed

theorem pool_runs_sequences_in_order_witness:
  "\<exists>w. pool_reachable w \<and> map pool_closure (seq_queue (sequences (pool w) 0)) = [Some 7]"
proof -
  obtain w where w: "pool_reachable w" "accepted w 0 = [Some 7]" "begun w 0 = []" by (rule demo_pool_posted)
  then show ?thesis using pool_runs_sequences_in_order [OF w(1), of 0] by auto
qed

text \<open>
  C31. In every reachable pool a sequence with tasks is in the queue of the group that its traits
  name, under its present key, or in the hands of a worker; a worker that has it can take its next
  task and put it back, which never fails, nor does changing a priority.
\<close>

theorem pool_loses_no_sequence:
  assumes "pool_reachable w" "seq_queue (sequences (pool w) x) \<noteq> []"
  shows "((\<exists>k. GetSortKey (sequences (pool w) x) = Some k \<and>
        (Some x, k) \<in> heap_elems (container (queues (pool w) (GetThreadGroupForTraits (pool w) (sequences (pool w) x))))) \<or>
      (\<exists>v. phases w v = Has x \<and> run_begin x (pool w) \<noteq> None) \<or> (\<exists>v t ok. phases w v = Runs x t ok) \<or>
      (\<exists>v t ok. phases w v = Did x t ok True) \<or> (\<exists>v. phases w v = Leaves x True) \<or>
      (\<exists>v. phases w v = Back (Some x) \<and> worker_DidRunTask v (Some x) (pool w) \<noteq> None)) \<and>
    pool_UpdatePriority x p (pool w) \<noteq> None"
proof -
  obtain m where i: "pool_inv m w" using pool_reachable_inv [OF assms(1)] by blast
  note P = place_invD [OF pool_invD(2) [OF i]]
  have "pool_UpdatePriority x p (pool w) \<noteq> None" using priority_inv [OF i, of x p] by blast
  moreover from P(5) [OF assms(2)] consider (queue) g k where "m g x = Some k" | (worker) v where "held (phases w v) = Some x" by blast
  then have "(\<exists>k. GetSortKey (sequences (pool w) x) = Some k \<and>
        (Some x, k) \<in> heap_elems (container (queues (pool w) (GetThreadGroupForTraits (pool w) (sequences (pool w) x))))) \<or>
      (\<exists>v. phases w v = Has x \<and> run_begin x (pool w) \<noteq> None) \<or> (\<exists>v t ok. phases w v = Runs x t ok) \<or>
      (\<exists>v t ok. phases w v = Did x t ok True) \<or> (\<exists>v. phases w v = Leaves x True) \<or>
      (\<exists>v. phases w v = Back (Some x) \<and> worker_DidRunTask v (Some x) (pool w) \<noteq> None)"
  proof cases
    case queue
    then show ?thesis using P(1) [OF queue] P(2) [OF queue] queue_entries [OF i, of x k g] by blast
  next
    case worker
    show ?thesis
    proof (cases "phases w v")
      case (Has y)
      then show ?thesis using worker run_inv [OF i, of v x] by (metis held.simps(2) option.distinct(1) option.inject)
    next
      case (Back r)
      then show ?thesis using worker put_back_inv [OF i, of v "Some x"] by (metis held.simps(6) option.distinct(1))
    qed (use worker in \<open>auto split: if_splits\<close>)
  qed
  ultimately show ?thesis by blast
qed

theorem pool_loses_no_sequence_witness:
  "\<exists>w. pool_reachable w \<and> seq_queue (sequences (pool w) 0) \<noteq> [] \<and>
     (\<exists>k. (Some 0, k) \<in> heap_elems (container (queues (pool w) (GetThreadGroupForTraits (pool w) (sequences (pool w) 0)))))"
proof -
  obtain w where w: "pool_reachable w" "accepted w 0 = [Some 7]" "begun w 0 = []" "phases w = (\<lambda>_. Idle)" by (rule demo_pool_posted)
  obtain m where "pool_inv m w" using pool_reachable_inv [OF w(1)] by blast
  then have "map pool_closure (seq_queue (sequences (pool w) 0)) = [Some 7]" using w pool_invD(4) by fastforce
  then have "seq_queue (sequences (pool w) 0) \<noteq> []" by auto
  then show ?thesis using pool_loses_no_sequence [OF w(1), of 0 USER_VISIBLE] w by auto
qed

text \<open>
  C32. A worker that asks its group for work gets the source whose key, the source's present one,
  comes before all others of the group, highest priority first and then the oldest task, provided
  the policy lets that priority run; it is sent away only when the group has no source or the first
  one may not run, by the policy or by the limit of best-effort work.
\<close>

theorem workers_take_the_first_source:
  assumes "pool_reachable w" "g = worker_group (workers (pool w) v)" "GetWork True v (pool w) = (r, pl)"
    "E = heap_elems (container (queues (pool w) g))"
  shows "case r of
      Some x \<Rightarrow> \<exists>k. (Some x, k) \<in> E \<and> GetSortKey (sequences (pool w) x) = Some k \<and>
        CanRunPriority (key_priority k) (tracker (pool w)) \<and> (\<forall>y l. (Some y, l) \<in> E \<longrightarrow> sort_key_le k l)
    | None \<Rightarrow> \<forall>x k. (Some x, k) \<in> E \<longrightarrow> (\<exists>y l. (Some y, l) \<in> E \<and> sort_key_le l k \<and>
        (\<not> CanRunPriority (key_priority l) (tracker (pool w)) \<or>
         key_priority l = BEST_EFFORT \<and> max_best_effort_tasks (pool w) g \<le> num_running_best_effort_tasks (pool w) g))"
proof -
  obtain m where i: "pool_inv m w" using pool_reachable_inv [OF assms(1)] by blast
  have e: "(Some x, k) \<in> E \<longleftrightarrow> m g x = Some k" for x k unfolding assms(4) by (rule queue_entries [OF i])
  show ?thesis
  proof (cases r)
    case None
    have "\<exists>y l. m g y = Some l \<and> sort_key_le l k \<and> (\<not> CanRunPriority (key_priority l) (tracker (pool w)) \<or>
        key_priority l = BEST_EFFORT \<and> max_best_effort_tasks (pool w) g \<le> num_running_best_effort_tasks (pool w) g)" if "m g x = Some k" for x k
      using GetWork_refuses [OF i assms(2) _ that] assms(3) None that by (metis fst_conv)
    then show ?thesis using None e by simp
  next
    case (Some x)
    obtain k where k: "m g x = Some k" "CanRunPriority (key_priority k) (tracker (pool w))" "\<forall>y l. m g y = Some l \<longrightarrow> sort_key_le k l"
      by (rule GetWork_gives [OF i assms(2) assms(3) [unfolded Some]])
    then show ?thesis using Some e place_invD(2) [OF pool_invD(2) [OF i] k(1)] by simp
  qed
qed

theorem workers_take_the_first_source_witness:
  "\<exists>w x pl. pool_reachable w \<and> GetWork True 3 (pool w) = (Some x, pl) \<and> GetSortKey (sequences (pool w) x) \<noteq> None"
proof -
  obtain w where w: "pool_reachable w" "accepted w 0 = [Some 7]" "begun w 0 = []" "phases w = (\<lambda>_. Idle)"
    "can_run_policy_of (tracker (pool w)) = kAll" "\<And>y. seq_priority (sequences (pool w) y) = USER_VISIBLE"
    "\<And>v. worker_group (workers (pool w) v) = Foreground" "\<And>sq. GetThreadGroupForTraits (pool w) sq = Foreground"
    by (rule demo_pool_posted) blast
  obtain m where i: "pool_inv m w" using pool_reachable_inv [OF w(1)] by blast
  have "seq_queue (sequences (pool w) 0) \<noteq> []" using w(2,3) pool_invD(4) [OF i, of 0] by auto
  then obtain g k where "m g 0 = Some k" using place_invD(5) [OF pool_invD(2) [OF i]] w(4) by fastforce
  then have q: "(Some 0, k) \<in> heap_elems (container (queues (pool w) Foreground))"
    using queue_entries [OF i, of 0 k] place_invD(1) [OF pool_invD(2) [OF i]] w(8) by fastforce
  have p: "CanRunPriority p (tracker (pool w))" for p using w(5) by (simp add: CanRunPriority_def)
  have n: "key_priority l \<noteq> BEST_EFFORT" if "(Some y, l) \<in> heap_elems (container (queues (pool w) Foreground))" for y l
    using that queue_entries [OF i] place_invD(2) [OF pool_invD(2) [OF i], of Foreground y l] w(6) [of y] by (auto simp: sort_key_front)
  obtain r pl where r: "GetWork True 3 (pool w) = (r, pl)" by force
  note W = workers_take_the_first_source [OF w(1) refl r refl, unfolded w(7)]
  then obtain x where "r = Some x" using q n p by (cases r) (simp, blast, simp)
  then show ?thesis using W w(1) r by auto
qed

text \<open>
  C33. The counters that the pool keeps beside its queues are right in every pool that its
  operations reach, with what a worker does after a task taken in three separate steps (DidRunTask
  on the sequence, AfterRunTask, the end of the registration) between which others post, get work
  and shut down: the number of queued sources of each priority, the numbers of busy workers and of
  those on best-effort work, which never exceeds its limit (the one set at the start: no call blocks
  here), and the reference of a sequence to its task runner, which it holds exactly while it has a
  task or a worker. The tracker's number of incomplete sources is the number of sequences with a
  task or a worker plus the number of workers whose DidRunTask emptied the sequence and which have
  still to end its registration, so that a sequence filled again meanwhile counts twice.
\<close>

theorem pool_counts_are_exact:
  assumes "pool_reachable w"
  shows "GetNumTaskSourcesWithPriority p (queues (pool w) g) =
      of_nat (card {x. \<exists>k. (Some x, k) \<in> heap_elems (container (queues (pool w) g)) \<and> key_priority k = p}) \<and>
    num_running_tasks (pool w) g = card {v. worker_group (workers (pool w) v) = g \<and> phases w v \<noteq> Idle} \<and>
    num_running_best_effort_tasks (pool w) g =
      card {v. worker_group (workers (pool w) v) = g \<and> is_running_best_effort_task (workers (pool w) v)} \<and>
    num_running_best_effort_tasks (pool w) g \<le> max_best_effort_tasks (pool w) g \<and>
    num_incomplete_task_sources (tracker (pool w)) = of_nat (card (enrolled (sequences (pool w))) + card (leaving (phases w))) \<and>
    runner_refs (sequences (pool w) x) =
      of_bool (seq_task_runner (sequences (pool w) x) \<noteq> None \<and> x \<in> enrolled (sequences (pool w)))"
proof -
  obtain m where i: "pool_inv m w" using pool_reachable_inv [OF assms] by blast
  have "crew_ok (phases w) (workers (pool w), num_running_tasks (pool w), num_running_best_effort_tasks (pool w), max_best_effort_tasks (pool w))"
    using pool_reachable_crew [OF assms] unfolding crew_inv_def crew_def .
  note C = crew_okD [OF this]
  have s: "count_ok (tracker (pool w)) (sequences (pool w)) (phases w)" using pool_reachable_count [OF assms] by (simp add: count_inv_def)
  show ?thesis
  proof (intro conjI)
    show "GetNumTaskSourcesWithPriority p (queues (pool w) g) =
      of_nat (card {x. \<exists>k. (Some x, k) \<in> heap_elems (container (queues (pool w) g)) \<and> key_priority k = p})"
      unfolding queue_entries [OF i] by (rule queue_counts [OF i])
    show "num_running_tasks (pool w) g = card {v. worker_group (workers (pool w) v) = g \<and> phases w v \<noteq> Idle}"
      using C(4) [of g] unfolding flagged_def C(1) .
    show "num_running_best_effort_tasks (pool w) g =
      card {v. worker_group (workers (pool w) v) = g \<and> is_running_best_effort_task (workers (pool w) v)}"
      using C(5) [of g] unfolding flagged_def .
    show "num_running_best_effort_tasks (pool w) g \<le> max_best_effort_tasks (pool w) g" by (rule C(6))
    show "num_incomplete_task_sources (tracker (pool w)) = of_nat (card (enrolled (sequences (pool w))) + card (leaving (phases w)))"
      by (rule count_okD(3) [OF s])
    show "runner_refs (sequences (pool w) x) =
      of_bool (seq_task_runner (sequences (pool w) x) \<noteq> None \<and> x \<in> enrolled (sequences (pool w)))"
      using pool_invD(3) [OF i, of x] by (simp add: seq_ok_def enrolled_iff needed_def)
  qed
qed

theorem pool_counts_are_exact_witness:
  "\<exists>w. pool_reachable w \<and> enrolled (sequences (pool w)) = {0} \<and> leaving (phases w) = {3} \<and>
     num_incomplete_task_sources (tracker (pool w)) = 2 \<and> runner_refs (sequences (pool w) 1) = 0"
proof -
  obtain w where w: "pool_reachable w" "enrolled (sequences (pool w)) = {0}" "leaving (phases w) = {3}" by (rule demo_pool_leaving)
  then show ?thesis using pool_counts_are_exact [OF w(1), where x = 1] by auto
qed



text \<open>
  C35. With every access to the tracker's word and event one step and threads interleaved: as long
  as sources that block shutdown are queued during shutdown only from inside an item that blocks it,
  no such item is left once the event is signaled; and whenever none is left after the start of
  shutdown the event is signaled or a thread is on its way to signal it, so that shutdown does not
  wait for ever.
\<close>

theorem shutdown_waits_for_blocking_tasks:
  assumes "tracker_reachable True w"
  shows "(event w = Some True \<longrightarrow> blocking w = 0 \<and> skipping w = 0) \<and>
    (event w = Some False \<and> blocking w + skipping w + asking w + backing_out w + refused w = 0 \<longrightarrow>
       0 < signalling w \<or> starting w = Some False)"
  using tracker_reachable_quiet [OF assms] tracker_invD(5) [OF tracker_reachable_inv [OF assms]]
  by (auto simp: quiet_inv_def items_def)

theorem shutdown_waits_for_blocking_tasks_witness:
  "\<exists>w. tracker_reachable True w \<and> event w = Some True \<and> blocking w = 0"
proof -
  let ?v = "tracker_init\<lparr>state_word := 1, event := Some False, starting := Some False\<rparr>"
  have "tracker_step True tracker_init ?v"
    using tracker_step.start [of tracker_init False 1] tracker_word_ops(2) [of 0] by (simp add: tracker_init_def tracker_word_def)
  moreover have "tracker_step True ?v (?v\<lparr>starting := None, event := Some True\<rparr>)" using tracker_step.started [of ?v False] by simp
  ultimately have "tracker_reachable True (?v\<lparr>starting := None, event := Some True\<rparr>)"
    using tracker_reachable.init tracker_reachable.step by blast
  from this shutdown_waits_for_blocking_tasks [OF this] show ?thesis by (intro exI [of _ "?v\<lparr>starting := None, event := Some True\<rparr>"]) simp
qed

text \<open>
  C36. After any sequence of pushes, pops, removals and changes of keys, a priority queue of the
  pool is a map from task sources to sort keys: each operation changes that map as its specification
  says, a pop returns a source whose key comes first, a removal reports whether the source was
  there, and the counts by priority are those of the map.
\<close>

theorem pool_queue_refines_map:
  "let s = pq_run cs (PriorityQueue_new, \<lambda>_. 0); m = pq_map s; (r, u) = pq_exec c s
   in pq_map u = pq_spec c r m \<and> pq_result c m r \<and>
      (\<forall>p. GetNumTaskSourcesWithPriority p (fst s) = of_nat (card {x. \<exists>k. m x = Some k \<and> key_priority k = p}))"
proof -
  define s where "s = pq_run cs (PriorityQueue_new, \<lambda>_. 0)"
  have "sole_rep Map.empty (PriorityQueue_new, \<lambda>_. 0)" using new_rep by (simp add: sole_rep_def)
  then obtain m where m: "sole_rep m s" using pq_run_rep unfolding s_def by blast
  have p: "pq_map s = m" by (rule sole_rep_map(1) [OF m])
  obtain r u where e: "pq_exec c s = (r, u)" by (cases "pq_exec c s")
  have step: "sole_rep (pq_spec c r m) u" "pq_result c m r" using sole_rep_step [OF m, of c] e by simp_all
  have "pq_rep m (fst s, snd s)" using m by (simp add: sole_rep_def)
  from pq_repD(3) [OF this] have "GetNumTaskSourcesWithPriority q (fst s) = of_nat (card {x. \<exists>k. m x = Some k \<and> key_priority k = q})" for q
    by (simp add: GetNumTaskSourcesWithPriority_def of_priority_def)
  then show ?thesis unfolding s_def [symmetric] Let_def e p using sole_rep_map(1) [OF step(1)] step(2) by simp
qed

text \<open>
  C37. However posts, wake-ups, clean-ups, blocking calls, upgrades and adjustments of one group
  interleave, its limits are the ones it was started with plus one for every worker whose present
  blocking call has raised them, and its counts of unresolved calls are exact; only awake workers
  run tasks and only running ones are in blocking calls. There are never more than 256 workers, and
  the time of last use, by which the code recognises an idle worker, is set exactly for those below
  the top of the idle stack.
\<close>

theorem blocking_calls_restore_limits:
  assumes "staff_reachable g n b (pl, c)"
  shows "max_tasks c = n + card (raised_by c) \<and> max_best_effort_tasks pl g = b + card (raised_by c \<inter> best_effort_ones pl) \<and>
    num_unresolved_may_block c = int (card (unresolved_in c)) \<and>
    num_unresolved_best_effort_may_block c = int (card (unresolved_in c \<inter> best_effort_ones pl)) \<and>
    raised_by c \<union> unresolved_in c \<subseteq> {v. is_running_task (workers pl v)} \<and> {v. is_running_task (workers pl v)} \<subseteq> awake c \<and>
    distinct (group_workers c) \<and> length (group_workers c) \<le> 256 \<and> set (idle_workers_stack c) \<subseteq> set (group_workers c) \<and>
    (\<forall>v\<in>set (group_workers c). last_used_time (worker_infos c v) \<noteq> 0 \<longleftrightarrow> v \<in> set (butlast (idle_workers_stack c)))"
proof -
  note I = staff_invD [OF staff_reachable_inv [OF assms]]
  have "counted n b (raised_by c) (unresolved_in c) (best_effort_ones pl) (limits g pl c)" using I(6) by (simp add: limits_ok_def)
  then show ?thesis using stack_okD(1,3,4,6) [OF I(1)] I(4,7) by (auto simp: counted_def limits_def kMaxNumberOfWorkers_def)
qed

theorem blocking_calls_restore_limits_witness:
  "max_tasks (snd demo_blocked) = 4 + card (raised_by (snd demo_blocked)) \<and> max_tasks (snd demo_blocked) = 5"
  using blocking_calls_restore_limits [of Foreground 4 1 "fst demo_blocked" "snd demo_blocked"] demo_blocked_reachable demo_blocked_view(1)
  by simp

text \<open>
  C38. One call of EnsureEnoughWorkers in a reachable group notes for wake-up exactly as many
  sleeping workers as are missing, two at most, and has every worker it created started; they and
  those awake before are awake. If exactly the wanted number of workers is awake, an idle worker is
  kept ready unless the limits forbid one more. Since every worker that is woken makes the same
  call, repeated calls bring the number of awake workers, where it is not above the wanted number,
  two at a time to that number and not beyond.
\<close>

theorem enough_workers_are_woken:
  assumes r: "staff_reachable g n b (pl, c)" and n: "0 < n" and now: "0 < now" and e: "EnsureEnoughWorkers g now pl (executor_new, c) = (ex, c')"
  shows "length (workers_to_wake_up ex) = min (GetDesiredNumAwakeWorkers g pl c - card (awake c)) 2 \<and> distinct (workers_to_wake_up ex) \<and>
    awake c \<inter> set (workers_to_wake_up ex) = {} \<and> awake c' = awake c \<union> set (workers_to_wake_up ex) \<and>
    group_workers c' = group_workers c @ workers_to_start ex \<and> max_tasks c' = max_tasks c \<and>
    (GetDesiredNumAwakeWorkers g pl c = card (awake c) \<longrightarrow>
       idle_workers_stack c' \<noteq> [] \<or> min (max_tasks c) kMaxNumberOfWorkers \<le> length (group_workers c)) \<and>
    (card (awake c) \<le> GetDesiredNumAwakeWorkers g pl c \<longrightarrow>
       card (awake ((ensure_again g now pl ^^ k) c)) = min (GetDesiredNumAwakeWorkers g pl c) (card (awake c) + 2 * k))"
proof -
  note I = staff_invD [OF staff_reachable_inv [OF r]]
  have m: "max_tasks c \<noteq> 0" using I(6) n by (simp add: limits_ok_def counted_def limits_def)
  have now': "now \<noteq> 0" using now by simp
  obtain ws where w: "woken ws (executor_new, c) (EnsureEnoughWorkers g now pl (executor_new, c))"
    "length ws = min (GetDesiredNumAwakeWorkers g pl c - card (awake c)) 2"
    "GetDesiredNumAwakeWorkers g pl c = card (awake c) \<Longrightarrow> idle_workers_stack c' \<noteq> [] \<or> min (max_tasks c) kMaxNumberOfWorkers \<le> length (group_workers c)"
    by (rule Ensure_ok [of "(executor_new, c)" now g pl]) (use I(1,2) now' m e in auto)
  note W = wokenD [OF w(1), simplified e, simplified]
  have "workers_to_wake_up ex = ws" using W(6) by (simp add: executor_new_def)
  moreover have "group_workers c' = group_workers c @ workers_to_start ex" using w(1) e by (simp add: woken_def executor_new_def)
  ultimately show ?thesis using W(2-5) w(2,3) ensure_repeats [OF I(1,2) now' m, of g pl k] by (simp add: same_limits_def)
qed

theorem enough_workers_are_woken_witness:
  "card (awake (snd demo_staff)) = 2 \<and> card (awake ((ensure_again Foreground 2 (fst demo_staff) ^^ 1) (snd demo_staff))) = 3"
proof -
  have a: "card (awake (snd demo_staff)) = 2" by (simp add: awake_def demo_staff_view)
  obtain ex c' where e: "EnsureEnoughWorkers Foreground 2 (fst demo_staff) (executor_new, snd demo_staff) = (ex, c')" by force
  show ?thesis using enough_workers_are_woken [of Foreground 4 1 "fst demo_staff" "snd demo_staff" 2 ex c' 1] demo_staff_reachable e a
    by (simp add: demo_staff_view)
qed

text \<open>
  C39. A worker that asks for work while it is on the idle stack, because its sleep timed out, is
  given none. It leaves the group, and the stack, exactly when it is below the top of the stack, its
  reclaim time has passed, the group has more workers than its initial limit or may shrink below it,
  and clean-up is not disallowed; otherwise nothing changes. A worker that is not on the stack
  either is given work, with no more workers awake than wanted, or goes on top of the stack; so
  nobody who is awake, and nobody on top of the stack, is ever dismissed.
\<close>

theorem only_idle_workers_are_dismissed:
  assumes r: "staff_reachable g n b (pl, c)" and v: "v \<in> set (group_workers c)" and t: "GetWork_take now v (pl, c) = (source, pl', c')" and now: "0 < now"
  shows "(if v \<in> set (idle_workers_stack c)
     then source = None \<and> pl' = pl \<and>
       (if v \<noteq> last (idle_workers_stack c) \<and> suggested_reclaim_time c \<le> now - last_used_time (worker_infos c v) \<and>
           (initial_max_tasks c < length (group_workers c) \<or> \<not> no_detach_below_initial_capacity c) \<and> \<not> worker_cleanup_disallowed c
        then group_workers c' = remove1 v (group_workers c) \<and> idle_workers_stack c' = remove1 v (idle_workers_stack c) \<and>
          should_exit (worker_infos c' v)
        else c' = c)
     else group_workers c' = group_workers c \<and>
       (source = None \<and> pl' = pl \<and> idle_workers_stack c' = idle_workers_stack c @ [v] \<or>
        c' = c \<and> GetWork True v pl = (source, pl') \<and> is_running_task (workers pl' v) \<and> card (awake c) \<le> GetDesiredNumAwakeWorkers g pl c)) \<and>
    awake c' = (if idle_workers_stack c' = idle_workers_stack c @ [v] then awake c - {v} else awake c)"
proof -
  note I = staff_invD [OF staff_reachable_inv [OF r]]
  note K = stack_okD [OF I(1)]
  show ?thesis
  proof (cases rule: GetWork_take_cases [OF I(1) v t I(3), case_names asleep dismissed sent_away takes])
    case asleep
    then show ?thesis using CanCleanup_iff [OF I(1) asleep(4), of now] by auto
  next
    case dismissed
    note C = Cleanup_ok [OF I(1) dismissed(4)]
    have m: "v \<in> set (idle_workers_stack c)" using dismissed(4) in_set_butlastD by fast
    have st: "idle_workers_stack c' = remove1 v (idle_workers_stack c)"
      using dismissed(3,4) C by (auto simp: Cleanup_def stack_Remove_def upd_info_def Let_def split: if_splits)
    then have "idle_workers_stack c' \<noteq> idle_workers_stack c @ [v]"
      by (auto dest!: arg_cong [where f = length] simp: length_remove1 split: if_splits)
    then show ?thesis using dismissed m C st CanCleanup_iff [OF I(1) m, of now] by simp
  next
    case sent_away
    have "now \<noteq> 0" using now by simp
    note P = stack_Push_ok [OF I(1) v sent_away(4) this]
    show ?thesis using sent_away P by (auto simp: OnWorkerBecomesIdle_def awake_def)
  next
    case takes
    have "is_running_task (workers pl' v)" using takes(4-7) I(3) [of v] unfolding GetWork_def Let_def by (force split: if_splits prod.splits)
    then show ?thesis using takes K(7) by simp
  qed
qed

theorem only_idle_workers_are_dismissed_witness:
  "is_running_task (workers (fst demo_taken) 0) \<and> awake (snd demo_taken) = {0, 1} \<and> group_workers (snd demo_taken) = [0, 1]"
proof -
  have r: "staff_reachable Foreground 4 1 (fst demo_staff, snd demo_staff)" using demo_staff_reachable by simp
  have t: "GetWork_take 2 0 (fst demo_staff, snd demo_staff) = (fst (GetWork_take 2 0 demo_staff), fst demo_taken, snd demo_taken)"
    by (simp add: demo_taken_def)
  have v: "0 \<in> set (group_workers (snd demo_staff))" by (simp add: demo_staff_view)
  have "fst demo_taken \<noteq> fst demo_staff" using demo_taken_view(1) demo_staff_view(5) by metis
  then have "snd demo_taken = snd demo_staff"
    using only_idle_workers_are_dismissed [OF r v t] demo_staff_view(2) by auto
  then show ?thesis using demo_taken_view(1) demo_staff_view by (auto simp: awake_def)
qed

text \<open>
  C40. However threads add delayed tasks, start the manager and schedule its calls on the service
  thread, every task added is either waiting or has been taken out once, and never before its time.
  Once the manager is started and no thread is about to schedule a call, a ripe task has a call of
  ProcessRipeTasks posted that is due; such a call takes out exactly the tasks that are ripe, in the
  order of their times, and posting them to their sequences never fails.
\<close>

theorem delayed_tasks_come_in_time:
  assumes "delayed_reachable w"
  shows "mset (added w) = mset_set (dt_key ` waiting_tasks (manager w)) + mset (map (dt_key \<circ> snd) (forwarded w)) \<and>
    distinct (map fst (added w)) \<and> (\<forall>(c, d)\<in>set (forwarded w). run_time d \<le> c) \<and>
    (service_started (manager w) \<and> in_flight w = [] \<and> d \<in> waiting_tasks (manager w) \<and> run_time d \<le> tick_clock w \<and> run_time d < int64_max \<longrightarrow>
       (\<exists>t due. (t, due) \<in> set (posted_calls w) \<and> due \<le> tick_clock w)) \<and>
    (ProcessRipeTasks_locked (tick_clock w) (manager w) = (ds, u, m) \<longrightarrow> set ds = {d\<in>waiting_tasks (manager w). run_time d \<le> tick_clock w} \<and>
       distinct ds \<and> sorted (map run_time ds) \<and> (\<exists>pl'. forward_ripe now ds pl = Some pl'))"
proof -
  have C: "calls_inv w" and K: "keeps_inv w" using delayed_reachable_inv [OF assms] by simp_all
  have I: "dtm_ok (manager w)" "pending_for (call_times w) (manager w)" using C by (simp_all add: calls_inv_def)
  have "\<exists>t due. (t, due) \<in> set (posted_calls w) \<and> due \<le> tick_clock w"
    if s: "service_started (manager w)" "in_flight w = []" and d: "d \<in> waiting_tasks (manager w)" "run_time d \<le> tick_clock w" "run_time d < int64_max"
  proof -
    obtain r where r: "r \<in> waiting_tasks (manager w)" "dt_scheduled r" "run_time r \<le> run_time d"
      using C s(1) d(1) by (auto simp: calls_inv_def ripest_scheduled_def)
    then have "run_time r \<in> fst ` set (posted_calls w)" using I(2) s(2) d(3) by (auto simp: pending_for_def call_times_def)
    then obtain due where p: "(run_time r, due) \<in> set (posted_calls w)" by force
    then have "due \<le> max (tick_clock w) (run_time r)" using C by (auto simp: calls_inv_def)
    then show ?thesis using p r(3) d(2) by (intro exI [of _ "run_time r"] exI [of _ due]) simp
  qed
  moreover have "set ds = {d\<in>waiting_tasks (manager w). run_time d \<le> tick_clock w} \<and> distinct ds \<and> sorted (map run_time ds) \<and>
      (\<exists>pl'. forward_ripe now ds pl = Some pl')" if p: "ProcessRipeTasks_locked (tick_clock w) (manager w) = (ds, u, m)"
  proof -
    note P = process_calls [OF I(1) p I(2)]
    have "dt_key e \<in> set (added w)" if "e \<in> set ds" for e
    proof -
      have "dt_key e \<in># mset (added w)" using that K P(6) finite_waiting(1) [of "manager w"] by (simp add: keeps_inv_def)
      then show ?thesis by simp
    qed
    then have "\<forall>e\<in>set ds. pool_closure (dt_task e) \<noteq> None" using K by (force simp: keeps_inv_def dt_key_def)
    then show ?thesis using P(6,8,9) forward_total by blast
  qed
  ultimately show ?thesis using K by (auto simp: keeps_inv_def)
qed

theorem delayed_tasks_come_in_time_witness:
  "\<exists>d ds u m. d \<in> waiting_tasks (manager demo_ripe) \<and> ProcessRipeTasks_locked (tick_clock demo_ripe) (manager demo_ripe) = (ds, u, m) \<and> d \<in> set ds \<and>
    (\<exists>t due. (t, due) \<in> set (posted_calls demo_ripe) \<and> due \<le> tick_clock demo_ripe)"
proof -
  have "(0, demo_due, 0) \<in> dt_key ` waiting_tasks (manager demo_ripe)" by (simp add: demo_ripe_waits)
  then obtain d where d: "d \<in> waiting_tasks (manager demo_ripe)" "dt_task d = demo_due" by (auto simp: dt_key_def)
  obtain ds u m where p: "ProcessRipeTasks_locked (tick_clock demo_ripe) (manager demo_ripe) = (ds, u, m)" by (metis prod.collapse)
  have "run_time d = 5" "tick_clock demo_ripe = 6" "in_flight demo_ripe = []" "service_started (manager demo_ripe)"
    using d(2) demo_asked_reads(4) by (simp_all add: demo_due_def pool_Task_def demo_ripe_def delayed_init_def)
  then show ?thesis using delayed_tasks_come_in_time [OF demo_ripe_reachable, of d ds u m] d(1) p by auto
qed

end
